(* ===== verification/Prelude.thy ===== *)
theory Prelude
  imports Main "HOL-Library.Word"
begin

text \<open>
  Shared vocabulary of the development: bytes and byte buffers, the host (little-endian)
  representation of machine words in memory, reading and patching a buffer at an offset, and the
  generic facts on lists and words that several components use.

  The collections \<open>buf_simps\<close> (lengths and slices of buffers) and \<open>word_code\<close> (word
  encodings) are extended by the component theories.
\<close>

named_theorems buf_simps "lengths and slices of byte buffers"
named_theorems word_code "encoding and decoding of machine words"

unbundle bit_operations_syntax

type_synonym byte = "8 word"
type_synonym u16 = "16 word"
type_synonym u32 = "32 word"
type_synonym u64 = "64 word"
type_synonym buf = "byte list"

section \<open>Words in memory\<close>

text \<open>
  \<open>le_enc n v\<close> is the \<open>n\<close>-byte little-endian representation of \<open>v\<close>, the contents of memory
  after \<open>*(uintN_t *)p = v\<close> on a little-endian host; \<open>le_dec\<close> reads it back.
\<close>

fun le_enc :: "nat \<Rightarrow> nat \<Rightarrow> buf" where
  "le_enc 0 v = []"
| "le_enc (Suc n) v = of_nat (v mod 256) # le_enc n (v div 256)"

fun le_dec :: "buf \<Rightarrow> nat" where
  "le_dec [] = 0"
| "le_dec (b # bs) = unat b + 256 * le_dec bs"

lemma length_le_enc [simp, buf_simps]: "length (le_enc n v) = n"
  by (induction n arbitrary: v) auto

lemma unat_byte_bound [simp]: "unat (b :: byte) < 256"
  using unsigned_less [of b, where ?'a = nat] by simp

lemma unat_byte_of_nat: "unat (of_nat (v mod 256) :: byte) = v mod 256"
  by (simp add: unat_of_nat)

lemma le_dec_enc [simp, word_code]: "le_dec (le_enc n v) = v mod 256 ^ n"
proof (induction n arbitrary: v)
  case 0
  then show ?case by simp
next
  case (Suc n)
  have "v mod 256 ^ Suc n = v mod 256 + 256 * ((v div 256) mod 256 ^ n)"
    by (simp add: mod_mult2_eq)
  then show ?case by (simp add: Suc.IH unat_byte_of_nat)
qed

lemma le_dec_bound: "le_dec bs < 256 ^ length bs"
proof (induction bs)
  case Nil
  then show ?case by simp
next
  case (Cons b bs)
  have "unat b < 256" by simp
  then have "unat b + 256 * le_dec bs < 256 * (le_dec bs + 1)" by simp
  also have "\<dots> \<le> 256 * 256 ^ length bs" using Cons by (simp del: mult_Suc_right)
  finally show ?case by simp
qed

lemma le_enc_dec [simp, word_code]: "length bs = n \<Longrightarrow> le_enc n (le_dec bs) = bs"
proof (induction bs arbitrary: n)
  case Nil
  then show ?case by simp
next
  case (Cons b bs)
  have b: "unat b < 256" by simp
  then have "(unat b + 256 * le_dec bs) mod 256 = unat b"
    and "(unat b + 256 * le_dec bs) div 256 = le_dec bs"
    by simp_all
  with Cons show ?case by auto
qed

lemma le_dec_inj: "length as = length bs \<Longrightarrow> le_dec as = le_dec bs \<longleftrightarrow> as = bs"
  by (metis le_enc_dec)

text \<open>The value of a buffer read most significant byte first.\<close>

definition be_dec :: "buf \<Rightarrow> nat" where
  "be_dec bs = le_dec (rev bs)"

lemma le_dec_append: "le_dec (as @ bs) = le_dec as + 256 ^ length as * le_dec bs"
  by (induction as) (simp_all add: algebra_simps)

lemma be_dec_Cons: "be_dec (b # bs) = unat b * 256 ^ length bs + be_dec bs"
  by (simp add: be_dec_def le_dec_append)

lemma be_dec_Nil [simp]: "be_dec [] = 0"
  by (simp add: be_dec_def)

lemma be_dec_bound: "be_dec bs < 256 ^ length bs"
  using le_dec_bound [of "rev bs"] by (simp add: be_dec_def)

lemma be_dec_inj: "length as = length bs \<Longrightarrow> be_dec as = be_dec bs \<longleftrightarrow> as = bs"
  using le_dec_inj [of "rev as" "rev bs"] by (simp add: be_dec_def)

section \<open>Lexicographic order of byte strings\<close>

text \<open>
  \<open>lexcmp\<close> is the reference comparison of byte strings: bytes as unsigned numbers from the
  left, a proper prefix being smaller. Its sign is what every routine that compares keys is meant
  to compute.
\<close>

fun lexcmp :: "buf \<Rightarrow> buf \<Rightarrow> int" where
  "lexcmp [] [] = 0"
| "lexcmp [] (y # ys) = -1"
| "lexcmp (x # xs) [] = 1"
| "lexcmp (x # xs) (y # ys) = (if x < y then -1 else if y < x then 1 else lexcmp xs ys)"

lemma lexcmp_refl [simp]: "lexcmp xs xs = 0"
  by (induction xs) auto

lemma lexcmp_eq_0 [simp]: "lexcmp xs ys = 0 \<longleftrightarrow> xs = ys"
  by (induction xs ys rule: lexcmp.induct) auto

lemma lexcmp_swap: "lexcmp ys xs = - lexcmp xs ys"
  by (induction xs ys rule: lexcmp.induct) auto

lemma lexcmp_range: "lexcmp xs ys \<in> {-1, 0, 1}"
  by (induction xs ys rule: lexcmp.induct) auto

lemma lexcmp_trans: "lexcmp xs ys \<le> 0 \<Longrightarrow> lexcmp ys zs \<le> 0 \<Longrightarrow> lexcmp xs zs \<le> 0"
proof (induction xs ys arbitrary: zs rule: lexcmp.induct)
  case (1 zs)
  then show ?case by simp
next
  case (2 y ys)
  then show ?case by (cases zs) auto
next
  case (3 x xs)
  then show ?case by simp
next
  case (4 x xs y ys)
  then show ?case by (cases zs) (auto split: if_splits)
qed

lemma lexcmp_less_trans: "lexcmp xs ys < 0 \<Longrightarrow> lexcmp ys zs < 0 \<Longrightarrow> lexcmp xs zs < 0"
  using lexcmp_trans [of xs ys zs] lexcmp_trans [of zs xs ys] lexcmp_swap [of xs zs]
    lexcmp_swap [of ys zs] lexcmp_eq_0 [of xs zs]
  by (metis lexcmp_swap neg_less_0_iff_less not_less order_le_less)

lemma lexcmp_append_same: "lexcmp (zs @ xs) (zs @ ys) = lexcmp xs ys"
  by (induction zs) auto

text \<open>On strings of equal length it is the order of the big-endian values.\<close>

lemma lexcmp_be: "length xs = length ys \<Longrightarrow> lexcmp xs ys < 0 \<longleftrightarrow> be_dec xs < be_dec ys"
proof (induction xs ys rule: lexcmp.induct)
  case (4 x xs y ys)
  have bx: "be_dec xs < 256 ^ length xs" and by': "be_dec ys < 256 ^ length ys"
    by (rule be_dec_bound)+
  have len: "length xs = length ys" using 4 by simp
  have lt: "unat a * 256 ^ length ys + p < unat b * 256 ^ length ys + q"
    if "a < b" "p < 256 ^ length ys" for a b :: byte and p q :: nat
  proof -
    have "unat a + 1 \<le> unat b" using that by (simp add: word_less_nat_alt)
    then have "(unat a + 1) * 256 ^ length ys \<le> unat b * 256 ^ length ys"
      by (rule mult_right_mono) simp
    with that show ?thesis by (simp add: algebra_simps)
  qed
  consider "x < y" | "y < x" | "x = y" by (rule linorder_cases)
  then show ?case
  proof cases
    case 1
    then show ?thesis using lt [of x y "be_dec xs" "be_dec ys"] bx len by (simp add: be_dec_Cons)
  next
    case 2
    then show ?thesis using lt [of y x "be_dec ys" "be_dec xs"] by' len by (simp add: be_dec_Cons)
  next
    case 3
    then show ?thesis using "4.IH" len by (simp add: be_dec_Cons)
  qed
qed auto

section \<open>Reading and patching buffers\<close>

text \<open>
  \<open>bslice off n b\<close> is the memory \<open>b[off .. off + n)\<close> and \<open>patch off xs b\<close> the buffer after the
  bytes \<open>xs\<close> have been stored at \<open>off\<close>; a store past the end of the buffer is out of bounds and
  the callers' guards exclude it.
\<close>

definition bslice :: "nat \<Rightarrow> nat \<Rightarrow> 'a list \<Rightarrow> 'a list" where
  "bslice off n b = take n (drop off b)"

definition patch :: "nat \<Rightarrow> 'a list \<Rightarrow> 'a list \<Rightarrow> 'a list" where
  "patch off xs b = take off b @ xs @ drop (off + length xs) b"

lemma length_bslice [buf_simps]: "off + n \<le> length b \<Longrightarrow> length (bslice off n b) = n"
  by (simp add: bslice_def)

lemma length_patch [simp, buf_simps]:
  "off + length xs \<le> length b \<Longrightarrow> length (patch off xs b) = length b"
  by (simp add: patch_def)

lemma nth_patch:
  "off + length xs \<le> length b \<Longrightarrow> i < length b \<Longrightarrow>
   patch off xs b ! i = (if off \<le> i \<and> i < off + length xs then xs ! (i - off) else b ! i)"
  by (auto simp: patch_def nth_append min_def)

lemma nth_bslice: "off + n \<le> length b \<Longrightarrow> i < n \<Longrightarrow> bslice off n b ! i = b ! (off + i)"
  by (simp add: bslice_def)

lemma bslice_patch_same [buf_simps]:
  "off + length xs \<le> length b \<Longrightarrow> n = length xs \<Longrightarrow> bslice off n (patch off xs b) = xs"
  by (simp add: bslice_def patch_def)

lemma bslice_patch_other [buf_simps]:
  assumes "off + length xs \<le> length b" "off' + n \<le> length b"
    and "off' + n \<le> off \<or> off + length xs \<le> off'"
  shows "bslice off' n (patch off xs b) = bslice off' n b"
proof (rule nth_equalityI)
  show "length (bslice off' n (patch off xs b)) = length (bslice off' n b)"
    using assms by (simp add: length_bslice)
  fix i assume "i < length (bslice off' n (patch off xs b))"
  then have "i < n" using assms by (simp add: length_bslice)
  then show "bslice off' n (patch off xs b) ! i = bslice off' n b ! i"
    using assms by (auto simp: nth_bslice nth_patch)
qed

lemma bslice_append_left: "off + n \<le> length a \<Longrightarrow> bslice off n (a @ b) = bslice off n a"
  by (simp add: bslice_def)

lemma bslice_append_right: "bslice (length a + off) n (a @ b) = bslice off n b"
  by (simp add: bslice_def)

lemma bslice_0_append: "n = length a \<Longrightarrow> bslice 0 n (a @ b) = a"
  by (simp add: bslice_def)

section \<open>Lists: insertion and removal at an index\<close>

text \<open>\<open>v.insert(v.begin() + i, x)\<close> and \<open>v.erase(v.begin() + i)\<close> of a vector.\<close>

definition insert_at :: "nat \<Rightarrow> 'a \<Rightarrow> 'a list \<Rightarrow> 'a list" where
  "insert_at i x xs = take i xs @ x # drop i xs"

definition remove_at :: "nat \<Rightarrow> 'a list \<Rightarrow> 'a list" where
  "remove_at i xs = take i xs @ drop (Suc i) xs"

lemma length_insert_at [simp]: "i \<le> length xs \<Longrightarrow> length (insert_at i x xs) = Suc (length xs)"
  by (simp add: insert_at_def)

lemma length_remove_at [simp]: "i < length xs \<Longrightarrow> length (remove_at i xs) = length xs - 1"
  by (simp add: remove_at_def)

lemma set_insert_at: "set (insert_at i x xs) = insert x (set xs)"
proof -
  have "set xs = set (take i xs) \<union> set (drop i xs)"
    by (metis append_take_drop_id set_append)
  then show ?thesis by (auto simp: insert_at_def)
qed

lemma set_remove_at_subset: "set (remove_at i xs) \<subseteq> set xs"
  by (auto simp: remove_at_def dest: in_set_takeD in_set_dropD)

lemma map_insert_at: "map f (insert_at i x xs) = insert_at i (f x) (map f xs)"
  by (simp add: insert_at_def take_map drop_map)

lemma map_remove_at: "map f (remove_at i xs) = remove_at i (map f xs)"
  by (simp add: remove_at_def take_map drop_map)

lemma remove_insert_at: "i \<le> length xs \<Longrightarrow> remove_at i (insert_at i x xs) = xs"
  by (simp add: insert_at_def remove_at_def min_def)

lemma insert_remove_at: "i < length xs \<Longrightarrow> insert_at i (xs ! i) (remove_at i xs) = xs"
  by (simp add: insert_at_def remove_at_def min_def Cons_nth_drop_Suc)

lemma sum_list_insert_at:
  "sum_list (map f (insert_at i x xs)) = f x + sum_list (map (f :: 'a \<Rightarrow> int) xs)"
proof -
  have "sum_list (map f xs) = sum_list (map f (take i xs)) + sum_list (map f (drop i xs))"
    by (metis append_take_drop_id map_append sum_list_append)
  then show ?thesis by (simp add: insert_at_def)
qed

lemma sum_list_remove_at:
  "i < length xs \<Longrightarrow>
   sum_list (map f (remove_at i xs)) = sum_list (map (f :: 'a \<Rightarrow> int) xs) - f (xs ! i)"
  using sum_list_insert_at [of f i "xs ! i" "remove_at i xs"] insert_remove_at [of i xs] by simp

lemma sum_list_update_int:
  "i < length xs \<Longrightarrow>
   sum_list (map f (xs[i := x])) = sum_list (map (f :: 'a \<Rightarrow> int) xs) - f (xs ! i) + f x"
  by (induction xs arbitrary: i) (auto split: nat.splits)

text \<open>
  Sortedness over an arbitrary transitive order under insertion, removal and replacement.
\<close>

lemma sorted_wrt_insert_at:
  assumes "sorted_wrt P xs" "\<forall>y \<in> set (take i xs). P y x" "\<forall>y \<in> set (drop i xs). P x y"
  shows "sorted_wrt P (insert_at i x xs)"
proof -
  have "sorted_wrt P (take i xs @ drop i xs)" using assms(1) by simp
  then show ?thesis
    unfolding insert_at_def sorted_wrt_append using assms(2,3) by auto
qed

lemma sorted_wrt_remove_at:
  assumes "sorted_wrt P xs" shows "sorted_wrt P (remove_at i xs)"
proof -
  have s: "sorted_wrt P (take i xs @ drop i xs)" using assms by simp
  have "set (drop (Suc i) xs) \<subseteq> set (drop i xs)"
    by (simp add: set_drop_subset_set_drop)
  moreover have "sorted_wrt P (drop (Suc i) xs)" using assms by (rule sorted_wrt_drop)
  ultimately show ?thesis
    using s unfolding remove_at_def sorted_wrt_append by blast
qed

lemma sorted_wrt_take_drop_less:
  "sorted_wrt P xs \<Longrightarrow> x \<in> set (take i xs) \<Longrightarrow> y \<in> set (drop i xs) \<Longrightarrow> P x y"
  by (metis append_take_drop_id sorted_wrt_append)

end
