(* ===== verification/Bytes_Funcs.thy ===== *)
theory Bytes_Funcs
  imports Prelude
begin

text \<open>
  \<open>src/utils/BytesFuncs.h\<close>: conversion of numbers to and from bytes, in host order for values and
  in order-preserving big-endian form for keys (\<open>bkey\<close>), and the byte-string routines
  \<open>BytesCompare\<close>, \<open>BytesCopy\<close>, \<open>BytesHash\<close>, \<open>BytesEqual\<close>.

  The configuration modelled is the one \<open>CMakeLists.txt\<close> builds: a little-endian host, neither
  \<open>BIGENDIAN\<close> nor \<open>STD_MEM\<close> defined. A \<open>...ToBytes\<close> routine returns the bytes it stores at
  \<open>pArr\<close>, a \<open>...FromBytes\<close> routine reads them from the front of the buffer it is given. Signed
  integers are words read with \<open>sint\<close>; \<open>double\<close> and \<open>float\<close> are their IEEE-754 bit patterns, which
  is how the code treats them.
\<close>

section \<open>Host-order stores and loads, byte swapping\<close>

definition store :: "'a::len word \<Rightarrow> buf" where
  "store w = le_enc (LENGTH('a) div 8) (unat w)"

definition load :: "buf \<Rightarrow> 'a::len word" where
  "load bs = of_nat (le_dec (take (LENGTH('a) div 8) bs))"

text \<open>\<open>bswap_16\<close>, \<open>bswap_32\<close>, \<open>bswap_64\<close> of \<open>byteswap.h\<close>.\<close>

definition BytesSwap :: "'a::len word \<Rightarrow> 'a word" where
  "BytesSwap w = load (rev (store w))"

lemma length_store [simp, buf_simps]: "length (store (w :: 'a::len word)) = LENGTH('a) div 8"
  by (simp add: store_def)

lemma pow256: "8 dvd n \<Longrightarrow> (256::nat) ^ (n div 8) = 2 ^ n"
proof -
  assume "8 dvd n"
  then obtain k where "n = 8 * k" by (rule dvdE)
  then show ?thesis by (simp add: power_mult)
qed

lemma load_store [simp, word_code]:
  assumes "8 dvd LENGTH('a::len)" shows "load (store (w :: 'a word) @ bs) = w"
  using assms unsigned_less [of w, where ?'a = nat]
  by (simp add: load_def store_def pow256)

lemma load_store_nil [simp, word_code]: "8 dvd LENGTH('a::len) \<Longrightarrow> load (store (w :: 'a word)) = w"
  using load_store [of w "[]"] by simp

lemma store_load [word_code]:
  assumes "8 dvd LENGTH('a::len)" "length bs = LENGTH('a) div 8"
  shows "store (load bs :: 'a word) = bs"
proof -
  have "le_dec bs < 2 ^ LENGTH('a)"
    using le_dec_bound [of bs] assms by (simp add: pow256)
  then have "unat (of_nat (le_dec bs) :: 'a word) = le_dec bs"
    by (simp add: unat_of_nat)
  with assms show ?thesis by (simp add: load_def store_def)
qed

lemma store_BytesSwap:
  assumes "8 dvd LENGTH('a::len)" shows "store (BytesSwap (w :: 'a word)) = rev (store w)"
  using assms by (simp add: BytesSwap_def store_load)

lemma BytesSwap_twice [simp]:
  "8 dvd LENGTH('a::len) \<Longrightarrow> BytesSwap (BytesSwap (w :: 'a word)) = w"
  by (simp add: BytesSwap_def [of "BytesSwap w"] store_BytesSwap)

lemma BytesSwap_inj:
  assumes "8 dvd LENGTH('a::len)" shows "BytesSwap v = BytesSwap w \<longleftrightarrow> v = (w :: 'a word)"
  using BytesSwap_twice [OF assms, of v] BytesSwap_twice [OF assms, of w] by metis

lemma inj_store: "8 dvd LENGTH('a::len) \<Longrightarrow> store (v :: 'a word) = store w \<longleftrightarrow> v = w"
  by (metis append_Nil2 load_store)

text \<open>The bytes of a swapped word, compared as strings, order words by their unsigned value.\<close>

lemma be_dec_rev_store:
  assumes "8 dvd LENGTH('a::len)" shows "be_dec (rev (store (w :: 'a word))) = unat w"
  using assms unsigned_less [of w, where ?'a = nat] by (simp add: be_dec_def store_def pow256)

lemma lexcmp_rev_store:
  assumes "8 dvd LENGTH('a::len)"
  shows "lexcmp (rev (store (v :: 'a word))) (rev (store w)) < 0 \<longleftrightarrow> v < w"
  using assms by (simp add: lexcmp_be be_dec_rev_store word_less_nat_alt)

lemma BytesSwap_less_iff:
  assumes "8 dvd LENGTH('a::len)" "length xs = LENGTH('a) div 8" "length ys = LENGTH('a) div 8"
  shows "BytesSwap (load xs :: 'a word) < BytesSwap (load ys :: 'a word) \<longleftrightarrow> lexcmp xs ys < 0"
proof -
  have "unat (BytesSwap (load zs :: 'a word)) = be_dec zs" if "length zs = LENGTH('a) div 8" for zs
  proof -
    have "be_dec zs < 2 ^ LENGTH('a)"
      using be_dec_bound [of zs] that assms(1) by (simp add: pow256)
    moreover have "BytesSwap (load zs :: 'a word) = of_nat (be_dec zs)"
      unfolding BytesSwap_def store_load [OF assms(1) that] using that
      by (simp add: load_def be_dec_def)
    ultimately show ?thesis by (simp add: unat_of_nat)
  qed
  with assms show ?thesis by (simp add: word_less_nat_alt lexcmp_be)
qed

section \<open>Flipping the sign bit\<close>

lemma uint_sign_bit: "uint (2 ^ (LENGTH('a) - 1) :: 'a::len word) = 2 ^ (LENGTH('a) - 1)"
proof -
  have "uint (push_bit (LENGTH('a) - 1) 1 :: 'a word) = take_bit LENGTH('a) (2 ^ (LENGTH('a) - 1))"
    by (simp only: unsigned_push_bit_eq unsigned_1) (simp only: push_bit_eq_mult mult_1_left)
  also have "\<dots> = 2 ^ (LENGTH('a) - 1)"
    by (rule take_bit_int_eq_self) (simp_all add: power_strict_increasing)
  finally show ?thesis by (simp only: push_bit_eq_mult mult_1_left)
qed

lemma uint_xor_sign:
  "uint (x XOR 2 ^ (LENGTH('a) - 1) :: 'a::len word) = sint x + 2 ^ (LENGTH('a) - 1)"
proof -
  let ?n = "LENGTH('a) - 1"
  have "uint (x XOR 2 ^ ?n) = uint x XOR 2 ^ ?n"
    using uint_sign_bit [where 'a = 'a] by (simp only: unsigned_xor_eq)
  also have "\<dots> = flip_bit ?n (uint x)"
    by (simp add: flip_bit_eq_xor push_bit_eq_mult)
  also have "\<dots> = (if bit (uint x) ?n then uint x - 2 ^ ?n else uint x + 2 ^ ?n)"
    by (simp add: flip_bit_eq_if set_bit_eq unset_bit_eq)
  also have "\<dots> = sint x + 2 ^ ?n"
  proof -
    have "sint x = take_bit (Suc ?n) (uint x) - 2 ^ Suc ?n * of_bool (bit (uint x) ?n)"
      by (simp add: sint_uint signed_take_bit_eq_take_bit_minus)
    moreover have "take_bit (Suc ?n) (uint x) = uint x"
      by (rule take_bit_int_eq_self) (use uint_bounded [of x] in simp_all)
    moreover have "(2::int) ^ Suc ?n = 2 * 2 ^ ?n" by (rule power_Suc)
    ultimately show ?thesis by (simp only: of_bool_def) auto
  qed
  finally show ?thesis .
qed

lemma xor_sign_less: "x XOR 2 ^ (LENGTH('a) - 1) < y XOR 2 ^ (LENGTH('a) - 1) \<longleftrightarrow> sint x < sint y"
  for x y :: "'a::len word"
  unfolding word_less_def uint_xor_sign by simp

lemma xor_sign_twice [simp]: "(x XOR s) XOR s = (x :: 'a::len word)"
  by (simp add: xor.assoc)

section \<open>Integers to and from bytes\<close>

definition Int64FromBytes :: "buf \<Rightarrow> bool \<Rightarrow> 64 word" where
  "Int64FromBytes pArr bkey =
     (if bkey then BytesSwap (load pArr) XOR 0x8000000000000000 else load pArr)"

definition Int64ToBytes :: "64 word \<Rightarrow> bool \<Rightarrow> buf" where
  "Int64ToBytes val bkey =
     (if bkey then store (BytesSwap (val XOR 0x8000000000000000)) else store val)"

definition UInt64FromBytes :: "buf \<Rightarrow> bool \<Rightarrow> 64 word" where
  "UInt64FromBytes pArr bkey = (if bkey then BytesSwap (load pArr) else load pArr)"

definition UInt64ToBytes :: "64 word \<Rightarrow> bool \<Rightarrow> buf" where
  "UInt64ToBytes val bkey = (if bkey then store (BytesSwap val) else store val)"

definition Int32FromBytes :: "buf \<Rightarrow> bool \<Rightarrow> 32 word" where
  "Int32FromBytes pArr bkey =
     (if bkey then BytesSwap (load pArr) XOR 0x80000000 else load pArr)"

definition Int32ToBytes :: "32 word \<Rightarrow> bool \<Rightarrow> buf" where
  "Int32ToBytes val bkey =
     (if bkey then store (BytesSwap (val XOR 0x80000000)) else store val)"

definition UInt32FromBytes :: "buf \<Rightarrow> bool \<Rightarrow> 32 word" where
  "UInt32FromBytes pArr bkey = (if bkey then BytesSwap (load pArr) else load pArr)"

definition UInt32ToBytes :: "32 word \<Rightarrow> bool \<Rightarrow> buf" where
  "UInt32ToBytes val bkey = (if bkey then store (BytesSwap val) else store val)"

definition Int16FromBytes :: "buf \<Rightarrow> bool \<Rightarrow> 16 word" where
  "Int16FromBytes pArr bkey =
     (if bkey then BytesSwap (load pArr) XOR 0x8000 else load pArr)"

definition Int16ToBytes :: "16 word \<Rightarrow> bool \<Rightarrow> buf" where
  "Int16ToBytes val bkey =
     (if bkey then store (BytesSwap (val XOR 0x8000)) else store val)"

definition UInt16FromBytes :: "buf \<Rightarrow> bool \<Rightarrow> 16 word" where
  "UInt16FromBytes pArr bkey = (if bkey then BytesSwap (load pArr) else load pArr)"

definition UInt16ToBytes :: "16 word \<Rightarrow> bool \<Rightarrow> buf" where
  "UInt16ToBytes val bkey = (if bkey then store (BytesSwap val) else store val)"

definition Int8FromBytes :: "buf \<Rightarrow> bool \<Rightarrow> 8 word" where
  "Int8FromBytes pArr bkey = (let val = load pArr in if bkey then val XOR 0x80 else val)"

definition Int8ToBytes :: "8 word \<Rightarrow> bool \<Rightarrow> buf" where
  "Int8ToBytes val bkey = store (if bkey then val XOR 0x80 else val)"

definition UInt8FromBytes :: "buf \<Rightarrow> bool \<Rightarrow> 8 word" where
  "UInt8FromBytes pArr bkey = load pArr"

definition UInt8ToBytes :: "8 word \<Rightarrow> bool \<Rightarrow> buf" where
  "UInt8ToBytes val bkey = store val"

section \<open>Floating point bit patterns to and from bytes\<close>

definition DoubleFromBytes :: "buf \<Rightarrow> bool \<Rightarrow> 64 word" where
  "DoubleFromBytes pArr bkey =
     (if bkey then
        let val = BytesSwap (load pArr) in
        if val AND 0x8000000000000000 \<noteq> 0 then val XOR 0x8000000000000000
        else val XOR 0x800fffffffffffff
      else load pArr)"

definition DoubleToBytes :: "64 word \<Rightarrow> bool \<Rightarrow> buf" where
  "DoubleToBytes dval bkey =
     (if bkey then
        store (BytesSwap
          (if dval AND 0x8000000000000000 \<noteq> 0 then dval XOR 0x800fffffffffffff
           else dval XOR 0x8000000000000000))
      else store dval)"

definition FloatFromBytes :: "buf \<Rightarrow> bool \<Rightarrow> 32 word" where
  "FloatFromBytes pArr bkey =
     (if bkey then
        let val = BytesSwap (load pArr) in
        if val AND 0x80000000 \<noteq> 0 then val XOR 0x80000000 else val XOR 0x807fffff
      else load pArr)"

definition FloatToBytes :: "32 word \<Rightarrow> bool \<Rightarrow> buf" where
  "FloatToBytes dval bkey =
     (if bkey then
        store (BytesSwap
          (if dval AND 0x80000000 \<noteq> 0 then dval XOR 0x807fffff else dval XOR 0x80000000))
      else store dval)"

section \<open>The contract of a field codec\<close>

text \<open>
  What the pages and records rely on when they write a number at an offset and read it back:
  \<open>codec\<close> is the fixed-width round trip, \<open>key_codec\<close> adds that the encoding preserves an order,
  which is what makes byte comparison of keys meaningful.
\<close>

locale codec =
  fixes enc :: "'v \<Rightarrow> buf" and dec :: "buf \<Rightarrow> 'v" and width :: nat
  assumes length_enc: "length (enc v) = width"
    and dec_enc: "dec (enc v @ bs) = v"
begin

lemma dec_enc_nil: "dec (enc v) = v"
  using dec_enc [of v "[]"] by simp

lemma enc_inj: "enc v = enc w \<longleftrightarrow> v = w"
  using dec_enc_nil by metis

lemma read_written:
  assumes "off + width \<le> length b" shows "dec (drop off (patch off (enc v) b)) = v"
  using assms by (simp add: patch_def dec_enc)

lemma length_written: "off + width \<le> length b \<Longrightarrow> length (patch off (enc v) b) = length b"
  by (simp add: length_enc)

end

text \<open>A field whose reader looks at exactly its own bytes is not disturbed by other writes.\<close>

locale local_codec = codec +
  assumes dec_local: "dec (bs @ cs) = dec (bs @ ds) \<or> length bs < width"
begin

lemma dec_take: "width \<le> length bs \<Longrightarrow> dec bs = dec (take width bs)"
  using dec_local [of "take width bs" "drop width bs" "[]"] by auto

lemma read_other:
  assumes "off + length xs \<le> length b" "off' + width \<le> length b"
    and "off' + width \<le> off \<or> off + length xs \<le> off'"
  shows "dec (drop off' (patch off xs b)) = dec (drop off' b)"
proof -
  have "take width (drop off' (patch off xs b)) = take width (drop off' b)"
    using bslice_patch_other [OF assms] by (simp add: bslice_def)
  with assms show ?thesis
    using dec_take [of "drop off' (patch off xs b)"] dec_take [of "drop off' b"] by simp
qed

end

locale key_codec = codec +
  fixes less :: "'v \<Rightarrow> 'v \<Rightarrow> bool"
  assumes enc_less: "lexcmp (enc v) (enc w) < 0 \<longleftrightarrow> less v w"
begin

text \<open>Comparing composite keys, field by field: the first field that differs decides.\<close>

lemma lexcmp_fields:
  "lexcmp (enc v @ xs) (enc w @ ys) < 0 \<longleftrightarrow> less v w \<or> v = w \<and> lexcmp xs ys < 0"
proof -
  have app: "lexcmp (as @ xs) (bs @ ys) = (if as = bs then lexcmp xs ys else lexcmp as bs)"
    if "length as = length bs" for as bs :: buf
    using that by (induction as bs rule: list_induct2) auto
  have "\<not> less v v" using enc_less [of v v] by simp
  then show ?thesis
    using app [of "enc v" "enc w"] enc_less [of v w] enc_inj [of v w] by (auto simp: length_enc)
qed

end

section \<open>The routines satisfy the contract\<close>

lemma sign_masks [word_code]:
  "(0x8000000000000000 :: 64 word) = 2 ^ (LENGTH(64) - 1)"
  "(0x80000000 :: 32 word) = 2 ^ (LENGTH(32) - 1)"
  "(0x8000 :: 16 word) = 2 ^ (LENGTH(16) - 1)"
  "(0x80 :: 8 word) = 2 ^ (LENGTH(8) - 1)"
  by simp_all

lemma load_append_take:
  "LENGTH('a::len) div 8 \<le> length bs \<Longrightarrow> (load (bs @ cs) :: 'a word) = load bs"
  by (simp add: load_def)

lemma lexcmp_BytesSwap:
  "8 dvd LENGTH('a::len) \<Longrightarrow>
   lexcmp (store (BytesSwap (v :: 'a word))) (store (BytesSwap w)) < 0 \<longleftrightarrow> v < w"
  by (simp add: store_BytesSwap lexcmp_rev_store)

lemma store_byte: "store (w :: 8 word) = [w]"
  by (simp add: store_def)

lemmas int_codec_defs =
  Int64ToBytes_def Int64FromBytes_def UInt64ToBytes_def UInt64FromBytes_def
  Int32ToBytes_def Int32FromBytes_def UInt32ToBytes_def UInt32FromBytes_def
  Int16ToBytes_def Int16FromBytes_def UInt16ToBytes_def UInt16FromBytes_def
  Int8ToBytes_def Int8FromBytes_def UInt8ToBytes_def UInt8FromBytes_def

lemma codec_local:
  assumes "\<And>v. length (enc v) = w" "\<And>v bs. dec (enc v @ bs) = v"
    and "\<And>bs cs. w \<le> length bs \<Longrightarrow> dec (bs @ cs) = dec bs"
  shows "local_codec enc dec w"
proof
  show "dec (bs @ cs) = dec (bs @ ds) \<or> length bs < w" for bs cs ds
    using assms(3) [of bs cs] assms(3) [of bs ds] by (cases "length bs < w") auto
qed (fact assms)+

interpretation i64: local_codec "\<lambda>v. Int64ToBytes v k" "\<lambda>b. Int64FromBytes b k" 8 for k
  by (rule codec_local) (simp_all add: int_codec_defs load_append_take)

interpretation u64: local_codec "\<lambda>v. UInt64ToBytes v k" "\<lambda>b. UInt64FromBytes b k" 8 for k
  by (rule codec_local) (simp_all add: int_codec_defs load_append_take)

interpretation i32: local_codec "\<lambda>v. Int32ToBytes v k" "\<lambda>b. Int32FromBytes b k" 4 for k
  by (rule codec_local) (simp_all add: int_codec_defs load_append_take)

interpretation u32: local_codec "\<lambda>v. UInt32ToBytes v k" "\<lambda>b. UInt32FromBytes b k" 4 for k
  by (rule codec_local) (simp_all add: int_codec_defs load_append_take)

interpretation i16: local_codec "\<lambda>v. Int16ToBytes v k" "\<lambda>b. Int16FromBytes b k" 2 for k
  by (rule codec_local) (simp_all add: int_codec_defs load_append_take)

interpretation u16: local_codec "\<lambda>v. UInt16ToBytes v k" "\<lambda>b. UInt16FromBytes b k" 2 for k
  by (rule codec_local) (simp_all add: int_codec_defs load_append_take)

interpretation i8: local_codec "\<lambda>v. Int8ToBytes v k" "\<lambda>b. Int8FromBytes b k" 1 for k
  by (rule codec_local) (simp_all add: int_codec_defs load_append_take)

interpretation u8: local_codec "\<lambda>v. UInt8ToBytes v k" "\<lambda>b. UInt8FromBytes b k" 1 for k
  by (rule codec_local) (simp_all add: int_codec_defs load_append_take)

text \<open>In key form the encodings preserve the order of the numbers.\<close>

interpretation ki64: key_codec "\<lambda>v. Int64ToBytes v True" "\<lambda>b. Int64FromBytes b True" 8 "\<lambda>v w. sint v < sint w"
proof
  fix v w :: "64 word"
  have "v XOR 0x8000000000000000 < w XOR 0x8000000000000000 \<longleftrightarrow> sint v < sint w" by (simp only: sign_masks xor_sign_less)
  then show "lexcmp (Int64ToBytes v True) (Int64ToBytes w True) < 0 \<longleftrightarrow> sint v < sint w"
    by (simp add: Int64ToBytes_def lexcmp_BytesSwap)
qed

interpretation ku64: key_codec "\<lambda>v. UInt64ToBytes v True" "\<lambda>b. UInt64FromBytes b True" 8 "(<)"
  by unfold_locales (simp add: UInt64ToBytes_def lexcmp_BytesSwap)

interpretation ki32: key_codec "\<lambda>v. Int32ToBytes v True" "\<lambda>b. Int32FromBytes b True" 4 "\<lambda>v w. sint v < sint w"
proof
  fix v w :: "32 word"
  have "v XOR 0x80000000 < w XOR 0x80000000 \<longleftrightarrow> sint v < sint w" by (simp only: sign_masks xor_sign_less)
  then show "lexcmp (Int32ToBytes v True) (Int32ToBytes w True) < 0 \<longleftrightarrow> sint v < sint w"
    by (simp add: Int32ToBytes_def lexcmp_BytesSwap)
qed

interpretation ku32: key_codec "\<lambda>v. UInt32ToBytes v True" "\<lambda>b. UInt32FromBytes b True" 4 "(<)"
  by unfold_locales (simp add: UInt32ToBytes_def lexcmp_BytesSwap)

interpretation ki16: key_codec "\<lambda>v. Int16ToBytes v True" "\<lambda>b. Int16FromBytes b True" 2 "\<lambda>v w. sint v < sint w"
proof
  fix v w :: "16 word"
  have "v XOR 0x8000 < w XOR 0x8000 \<longleftrightarrow> sint v < sint w" by (simp only: sign_masks xor_sign_less)
  then show "lexcmp (Int16ToBytes v True) (Int16ToBytes w True) < 0 \<longleftrightarrow> sint v < sint w"
    by (simp add: Int16ToBytes_def lexcmp_BytesSwap)
qed

interpretation ku16: key_codec "\<lambda>v. UInt16ToBytes v True" "\<lambda>b. UInt16FromBytes b True" 2 "(<)"
  by unfold_locales (simp add: UInt16ToBytes_def lexcmp_BytesSwap)

interpretation ki8: key_codec "\<lambda>v. Int8ToBytes v True" "\<lambda>b. Int8FromBytes b True" 1 "\<lambda>v w. sint v < sint w"
proof
  fix v w :: "8 word"
  have "v XOR 0x80 < w XOR 0x80 \<longleftrightarrow> sint v < sint w" by (simp only: sign_masks xor_sign_less)
  then show "lexcmp (Int8ToBytes v True) (Int8ToBytes w True) < 0 \<longleftrightarrow> sint v < sint w"
    by (auto simp: Int8ToBytes_def store_byte)
qed

interpretation ku8: key_codec "\<lambda>v. UInt8ToBytes v True" "\<lambda>b. UInt8FromBytes b True" 1 "(<)"
  by unfold_locales (auto simp: UInt8ToBytes_def store_byte)

section \<open>Comparing byte strings\<close>

text \<open>
  \<open>cmp_chunks\<close> is the first loop of \<open>BytesCompare\<close> (eight bytes at a time), \<open>cmp_rest\<close> the second
  (byte by byte); \<open>None\<close> is falling through to the code after the loop. The final
  \<open>(int)(len1 - len2)\<close> subtracts modulo \<open>2^64\<close> and keeps the low 32 bits as a signed number.
\<close>

fun cmp_chunks :: "nat \<Rightarrow> buf \<Rightarrow> buf \<Rightarrow> int option" where
  "cmp_chunks 0 bys1 bys2 = None"
| "cmp_chunks (Suc n) bys1 bys2 =
     (let v1 = BytesSwap (load bys1 :: u64); v2 = BytesSwap (load bys2 :: u64) in
      if v1 \<noteq> v2 then Some (if v1 > v2 then 1 else -1)
      else cmp_chunks n (drop 8 bys1) (drop 8 bys2))"

fun cmp_rest :: "nat \<Rightarrow> buf \<Rightarrow> buf \<Rightarrow> int option" where
  "cmp_rest 0 bys1 bys2 = None"
| "cmp_rest (Suc n) bys1 bys2 =
     (let hr = int (unat (hd bys1)) - int (unat (hd bys2)) in
      if hr \<noteq> 0 then Some hr else cmp_rest n (tl bys1) (tl bys2))"

definition BytesCompare :: "buf \<Rightarrow> u64 \<Rightarrow> buf \<Rightarrow> u64 \<Rightarrow> int" where
  "BytesCompare bys1 len1 bys2 len2 =
     (let minLen = min len1 len2;
          min8 = minLen AND 0xFFFFFFFFFFFFFFF8
      in case cmp_chunks (unat min8 div 8) bys1 bys2 of
           Some hr \<Rightarrow> hr
         | None \<Rightarrow>
             (case cmp_rest (unat minLen - unat min8)
                     (drop (unat min8) bys1) (drop (unat min8) bys2) of
                Some hr \<Rightarrow> hr
              | None \<Rightarrow> sint (ucast (len1 - len2) :: u32)))"

text \<open>The call the code makes everywhere: two buffers with their lengths.\<close>

definition bytes_cmp :: "buf \<Rightarrow> buf \<Rightarrow> int" where
  "bytes_cmp a b = BytesCompare a (of_nat (length a)) b (of_nat (length b))"

lemma unat_and_8: "unat (x AND 0xFFFFFFFFFFFFFFF8 :: u64) = unat x div 8 * 8"
proof -
  have m: "(0xFFFFFFFFFFFFFFF8 :: u64) = NOT (mask 3)"
    by (simp add: mask_eq_exp_minus_1)
  have "x AND NOT (mask 3) = push_bit 3 (drop_bit 3 x)"
    by (rule bit_word_eqI) (auto simp: bit_simps)
  then have "x AND 0xFFFFFFFFFFFFFFF8 = push_bit 3 (drop_bit 3 x)"
    by (simp only: m)
  moreover have "unat x div 8 * 8 < 2 ^ 64"
    using unsigned_less [of x, where ?'a = nat] by (simp add: le_less_trans [OF div_times_less_eq_dividend])
  ultimately show ?thesis
    by (simp add: push_bit_eq_mult drop_bit_eq_div unat_word_ariths unat_div)
qed

lemma lexcmp_prefix_differs:
  "length xs = length ys \<Longrightarrow> xs \<noteq> ys \<Longrightarrow> lexcmp (xs @ as) (ys @ bs) = lexcmp xs ys"
  by (induction xs ys rule: list_induct2) auto

lemma load_eq_iff:
  assumes "8 dvd LENGTH('a::len)" "length xs = LENGTH('a) div 8" "length ys = LENGTH('a) div 8"
  shows "(load xs :: 'a word) = load ys \<longleftrightarrow> xs = ys"
  using assms by (metis store_load)

lemma swapped_chunk:
  assumes "8 \<le> length b1" "8 \<le> length b2"
  defines "v1 \<equiv> BytesSwap (load b1 :: u64)" and "v2 \<equiv> BytesSwap (load b2 :: u64)"
  shows "v1 = v2 \<longleftrightarrow> take 8 b1 = take 8 b2"
    and "v1 < v2 \<longleftrightarrow> lexcmp (take 8 b1) (take 8 b2) < 0"
proof -
  have l: "(load b :: u64) = load (take 8 b)" for b by (simp add: load_def)
  have len: "length (take 8 b1) = LENGTH(64) div 8" "length (take 8 b2) = LENGTH(64) div 8"
    using assms by simp_all
  have inj: "BytesSwap v = BytesSwap w \<longleftrightarrow> v = w" for v w :: u64
    by (rule BytesSwap_inj) simp
  show "v1 = v2 \<longleftrightarrow> take 8 b1 = take 8 b2"
    unfolding v1_def v2_def inj using load_eq_iff [OF _ len] l by simp
  show "v1 < v2 \<longleftrightarrow> lexcmp (take 8 b1) (take 8 b2) < 0"
    unfolding v1_def v2_def l [of b1] l [of b2] using BytesSwap_less_iff [OF _ len] by simp
qed

lemma sgn_lexcmp [simp]: "sgn (lexcmp xs ys) = lexcmp xs ys"
  using lexcmp_range [of xs ys] by auto

lemma cmp_chunks_None:
  "8 * n \<le> length b1 \<Longrightarrow> 8 * n \<le> length b2 \<Longrightarrow> cmp_chunks n b1 b2 = None \<Longrightarrow>
   take (8 * n) b1 = take (8 * n) b2"
proof (induction n b1 b2 rule: cmp_chunks.induct)
  case (2 n b1 b2)
  then have eq: "take 8 b1 = take 8 b2" and "cmp_chunks n (drop 8 b1) (drop 8 b2) = None"
    by (auto simp: Let_def swapped_chunk(1) split: if_splits)
  then have "take (8 * n) (drop 8 b1) = take (8 * n) (drop 8 b2)"
    using 2 by (auto simp: Let_def swapped_chunk(1) split: if_splits)
  with eq show ?case
    by (simp only: mult_Suc_right take_add)
qed simp

lemma cmp_chunks_Some:
  "8 * n \<le> length b1 \<Longrightarrow> 8 * n \<le> length b2 \<Longrightarrow> cmp_chunks n b1 b2 = Some r \<Longrightarrow>
   sgn r = lexcmp b1 b2"
proof (induction n b1 b2 rule: cmp_chunks.induct)
  case (2 n b1 b2)
  have split: "lexcmp b1 b2 = lexcmp (take 8 b1 @ drop 8 b1) (take 8 b2 @ drop 8 b2)" by simp
  show ?case
  proof (cases "take 8 b1 = take 8 b2")
    case True
    then have "lexcmp b1 b2 = lexcmp (drop 8 b1) (drop 8 b2)"
      unfolding split by (simp only: lexcmp_append_same)
    with 2 True show ?thesis by (auto simp: Let_def swapped_chunk(1) split: if_splits)
  next
    case False
    then have "lexcmp b1 b2 = lexcmp (take 8 b1) (take 8 b2)"
      unfolding split using 2 by (intro lexcmp_prefix_differs) auto
    moreover have "r = (if lexcmp (take 8 b1) (take 8 b2) < 0 then -1 else 1)"
      using 2 False swapped_chunk(2) [of b1 b2] swapped_chunk(1) [of b1 b2]
      by (auto simp: Let_def split: if_splits)
    moreover have "lexcmp (take 8 b1) (take 8 b2) \<noteq> 0" using False by simp
    ultimately show ?thesis using lexcmp_range [of "take 8 b1" "take 8 b2"] by auto
  qed
qed simp

lemma cmp_rest_None:
  "n \<le> length b1 \<Longrightarrow> n \<le> length b2 \<Longrightarrow> cmp_rest n b1 b2 = None \<Longrightarrow> take n b1 = take n b2"
proof (induction n b1 b2 rule: cmp_rest.induct)
  case (2 n b1 b2)
  then obtain x xs y ys where "b1 = x # xs" "b2 = y # ys"
    by (cases b1; cases b2) auto
  with 2 show ?case by (auto simp: Let_def word_uint_eq_iff split: if_splits)
qed simp

lemma cmp_rest_Some:
  "n \<le> length b1 \<Longrightarrow> n \<le> length b2 \<Longrightarrow> cmp_rest n b1 b2 = Some r \<Longrightarrow> sgn r = lexcmp b1 b2"
proof (induction n b1 b2 rule: cmp_rest.induct)
  case (2 n b1 b2)
  then obtain x xs y ys where b: "b1 = x # xs" "b2 = y # ys"
    by (cases b1; cases b2) auto
  consider "x < y" | "y < x" | "x = y" by (rule linorder_cases)
  then show ?case
    using 2 b by cases (auto simp: Let_def word_less_def split: if_splits)
qed simp

lemma sint_len_diff:
  assumes "l1 < 2 ^ 31" "l2 < 2 ^ 31"
  shows "sint (ucast ((of_nat l1 :: u64) - of_nat l2) :: u32) = int l1 - int l2"
proof -
  have "(of_nat l1 :: u64) - of_nat l2 = word_of_int (int l1 - int l2)" by simp
  moreover have "(ucast (word_of_int k :: u64) :: u32) = word_of_int k" for k
    by transfer simp
  ultimately have "sint (ucast ((of_nat l1 :: u64) - of_nat l2) :: u32)
      = sint (word_of_int (int l1 - int l2) :: u32)" by (simp only:)
  also have "\<dots> = signed_take_bit 31 (int l1 - int l2)"
    by (simp only: signed_of_int) simp
  also have "\<dots> = int l1 - int l2"
    by (rule signed_take_bit_int_eq_self) (use assms in simp_all)
  finally show ?thesis .
qed

lemma lexcmp_common_prefix:
  assumes "length xs \<le> length ys" "take (length xs) ys = xs"
  shows "lexcmp xs ys = sgn (int (length xs) - int (length ys))"
    and "lexcmp ys xs = sgn (int (length ys) - int (length xs))"
proof -
  obtain zs where ys: "ys = xs @ zs" using assms(2) by (metis append_take_drop_id)
  have l: "lexcmp xs (xs @ zs) = sgn (- int (length zs))"
    using lexcmp_append_same [of xs "[]" zs] by (cases zs) auto
  show "lexcmp xs ys = sgn (int (length xs) - int (length ys))" using l by (simp add: ys)
  then show "lexcmp ys xs = sgn (int (length ys) - int (length xs))"
    by (subst lexcmp_swap) (auto simp: sgn_if ys)
qed

lemma lexcmp_equal_prefix:
  assumes "take (min (length xs) (length ys)) xs = take (min (length xs) (length ys)) ys"
  shows "lexcmp xs ys = sgn (int (length xs) - int (length ys))"
proof (cases "length xs \<le> length ys")
  case True
  with assms show ?thesis by (intro lexcmp_common_prefix(1)) (auto simp: min_def)
next
  case False
  with assms show ?thesis by (intro lexcmp_common_prefix(2)) (auto simp: min_def)
qed

lemma bytes_cmp_sgn:
  assumes "length a < 2 ^ 31" "length b < 2 ^ 31"
  shows "sgn (bytes_cmp a b) = lexcmp a b"
proof -
  let ?m = "min (length a) (length b)"
  let ?k = "?m div 8 * 8"
  have un: "unat (of_nat n :: u64) = n" if "n < 2 ^ 31" for n
    using that by (simp add: unat_of_nat)
  have min: "unat (min (of_nat (length a)) (of_nat (length b)) :: u64) = ?m"
    using un [OF assms(1)] un [OF assms(2)] by (auto simp: min_def word_le_nat_alt)
  have len: "length (drop ?k a) = length a - ?k" "length (drop ?k b) = length b - ?k" by simp_all
  have k: "?k \<le> ?m" by (rule div_times_less_eq_dividend)
  have m8: "8 * (?m div 8) \<le> length a" "8 * (?m div 8) \<le> length b"
    using k by linarith+
  have eq: "bytes_cmp a b =
      (case cmp_chunks (?m div 8) a b of Some hr \<Rightarrow> hr
       | None \<Rightarrow> (case cmp_rest (?m - ?k) (drop ?k a) (drop ?k b) of Some hr \<Rightarrow> hr
           | None \<Rightarrow> int (length a) - int (length b)))"
    unfolding bytes_cmp_def BytesCompare_def Let_def unat_and_8 min sint_len_diff [OF assms]
    by simp
  show ?thesis
  proof (cases "cmp_chunks (?m div 8) a b")
    case (Some r)
    then show ?thesis using cmp_chunks_Some [OF m8 Some] eq by simp
  next
    case None
    then have pre: "take ?k a = take ?k b"
      using cmp_chunks_None [OF m8 None] by (simp add: mult.commute)
    have ab: "lexcmp a b = lexcmp (drop ?k a) (drop ?k b)"
      using lexcmp_append_same [of "take ?k a" "drop ?k a" "drop ?k b"]
      unfolding append_take_drop_id by (simp only: pre append_take_drop_id)
    show ?thesis
    proof (cases "cmp_rest (?m - ?k) (drop ?k a) (drop ?k b)")
      case (Some r)
      have "sgn r = lexcmp (drop ?k a) (drop ?k b)"
        by (rule cmp_rest_Some [OF _ _ Some]) (use k in auto)
      with None Some eq ab show ?thesis by simp
    next
      case inner: None
      have "take (?m - ?k) (drop ?k a) = take (?m - ?k) (drop ?k b)"
        by (rule cmp_rest_None [OF _ _ inner]) (use k in auto)
      with pre have "take (?k + (?m - ?k)) a = take (?k + (?m - ?k)) b"
        by (simp only: take_add)
      then have "take ?m a = take ?m b" using k by simp
      then show ?thesis
        using None inner eq lexcmp_equal_prefix [of a b] by simp
    qed
  qed
qed

text \<open>Only the first \<open>len1\<close> and \<open>len2\<close> bytes of the two buffers are read.\<close>

lemma cmp_chunks_take:
  "8 * n \<le> k \<Longrightarrow> 8 * n \<le> l \<Longrightarrow> cmp_chunks n (take k a) (take l b) = cmp_chunks n a b"
proof (induction n a b arbitrary: k l rule: cmp_chunks.induct)
  case (2 n a b)
  have l: "(load (take j c) :: u64) = load c" if "8 \<le> j" for j c
    using that by (simp add: load_def min_def)
  show ?case using 2 by (simp add: l drop_take Let_def)
qed simp

lemma cmp_rest_take:
  "n \<le> k \<Longrightarrow> n \<le> l \<Longrightarrow> n \<le> length a \<Longrightarrow> n \<le> length b \<Longrightarrow>
   cmp_rest n (take k a) (take l b) = cmp_rest n a b"
proof (induction n a b arbitrary: k l rule: cmp_rest.induct)
  case (2 n a b)
  then obtain x xs y ys where "a = x # xs" "b = y # ys"
    by (cases a; cases b) auto
  with 2 show ?case by (cases k; cases l) (auto simp: Let_def)
qed simp

lemma BytesCompare_take:
  assumes "unat l1 \<le> length a" "unat l2 \<le> length b"
  shows "BytesCompare a l1 b l2 = bytes_cmp (take (unat l1) a) (take (unat l2) b)"
proof -
  let ?k = "unat (min l1 l2) div 8 * 8"
  have m: "unat (min l1 l2) \<le> unat l1" "unat (min l1 l2) \<le> unat l2"
    by (auto simp: min_def word_le_nat_alt)
  have k: "?k \<le> unat (min l1 l2)" by (rule div_times_less_eq_dividend)
  have len: "(of_nat (length (take (unat l1) a)) :: u64) = l1"
    "(of_nat (length (take (unat l2) b)) :: u64) = l2"
    using assms by simp_all
  have "cmp_chunks (?k div 8) (take (unat l1) a) (take (unat l2) b) = cmp_chunks (?k div 8) a b"
    by (rule cmp_chunks_take) (use m k in linarith)+
  moreover have "cmp_rest (unat (min l1 l2) - ?k) (drop ?k (take (unat l1) a)) (drop ?k (take (unat l2) b))
      = cmp_rest (unat (min l1 l2) - ?k) (drop ?k a) (drop ?k b)"
    unfolding drop_take by (rule cmp_rest_take) (use m k assms in auto)
  ultimately show ?thesis
    unfolding bytes_cmp_def BytesCompare_def Let_def unat_and_8 len by (simp only:)
qed

section \<open>The contract of a key comparison\<close>

text \<open>
  What the index code relies on when it orders records: a comparison whose sign is a total order
  on the keys that satisfy \<open>ok\<close>. The searches of the pages are proved against this interface.
\<close>

locale key_order =
  fixes cmp :: "'k \<Rightarrow> 'k \<Rightarrow> int" and ok :: "'k \<Rightarrow> bool"
  assumes cmp_self: "ok a \<Longrightarrow> cmp a a = 0"
    and cmp_swap: "ok a \<Longrightarrow> ok b \<Longrightarrow> cmp b a < 0 \<longleftrightarrow> cmp a b > 0"
    and cmp_le_trans: "ok a \<Longrightarrow> ok b \<Longrightarrow> ok c \<Longrightarrow> cmp a b \<le> 0 \<Longrightarrow> cmp b c \<le> 0 \<Longrightarrow> cmp a c \<le> 0"
begin

lemma cmp_zero_sym: "ok a \<Longrightarrow> ok b \<Longrightarrow> cmp a b = 0 \<longleftrightarrow> cmp b a = 0"
  using cmp_swap [of a b] cmp_swap [of b a] by auto

lemma cmp_ge_swap: "ok a \<Longrightarrow> ok b \<Longrightarrow> \<not> cmp a b < 0 \<longleftrightarrow> cmp b a \<le> 0"
  using cmp_swap [of a b] cmp_swap [of b a] by linarith

lemma cmp_less_le_trans:
  assumes "ok a" "ok b" "ok c" "cmp a b < 0" "cmp b c \<le> 0" shows "cmp a c < 0"
  using assms cmp_le_trans [of b c a] cmp_ge_swap [of a c] cmp_ge_swap [of a b] by blast

lemma cmp_le_less_trans:
  assumes "ok a" "ok b" "ok c" "cmp a b \<le> 0" "cmp b c < 0" shows "cmp a c < 0"
  using assms cmp_le_trans [of c a b] cmp_ge_swap [of a c] cmp_ge_swap [of b c] by blast

end

definition cmp_len :: "buf \<Rightarrow> bool" where
  "cmp_len b \<longleftrightarrow> length b < 2 ^ 31"

lemma bytes_cmp_iffs:
  assumes "cmp_len a" "cmp_len b"
  shows "bytes_cmp a b < 0 \<longleftrightarrow> lexcmp a b < 0" "bytes_cmp a b > 0 \<longleftrightarrow> lexcmp a b > 0"
    "bytes_cmp a b = 0 \<longleftrightarrow> a = b" "bytes_cmp a b \<le> 0 \<longleftrightarrow> lexcmp a b \<le> 0"
proof -
  have "sgn (bytes_cmp a b) = lexcmp a b"
    using assms bytes_cmp_sgn by (simp add: cmp_len_def)
  moreover from this have "bytes_cmp a b = 0 \<longleftrightarrow> lexcmp a b = 0" by (metis sgn_0_0)
  ultimately show "bytes_cmp a b < 0 \<longleftrightarrow> lexcmp a b < 0" "bytes_cmp a b > 0 \<longleftrightarrow> lexcmp a b > 0"
    "bytes_cmp a b = 0 \<longleftrightarrow> a = b" "bytes_cmp a b \<le> 0 \<longleftrightarrow> lexcmp a b \<le> 0"
    by (auto simp: sgn_if split: if_splits)
qed

interpretation kcmp: key_order bytes_cmp cmp_len
proof
  fix a b c :: buf
  show "cmp_len a \<Longrightarrow> bytes_cmp a a = 0" by (simp add: bytes_cmp_iffs)
  show "cmp_len a \<Longrightarrow> cmp_len b \<Longrightarrow> bytes_cmp b a < 0 \<longleftrightarrow> bytes_cmp a b > 0"
    using lexcmp_swap [of a b] by (simp add: bytes_cmp_iffs)
  show "cmp_len a \<Longrightarrow> cmp_len b \<Longrightarrow> cmp_len c \<Longrightarrow> bytes_cmp a b \<le> 0 \<Longrightarrow> bytes_cmp b c \<le> 0 \<Longrightarrow>
      bytes_cmp a c \<le> 0"
    using lexcmp_trans [of a b c] by (simp add: bytes_cmp_iffs)
qed

section \<open>Equality, copying and hashing\<close>

fun equal_chunks :: "nat \<Rightarrow> buf \<Rightarrow> buf \<Rightarrow> bool" where
  "equal_chunks 0 bys1 bys2 = True"
| "equal_chunks (Suc n) bys1 bys2 =
     (if (load bys1 :: u64) \<noteq> load bys2 then False
      else equal_chunks n (drop 8 bys1) (drop 8 bys2))"

fun equal_rest :: "nat \<Rightarrow> buf \<Rightarrow> buf \<Rightarrow> bool" where
  "equal_rest 0 bys1 bys2 = True"
| "equal_rest (Suc n) bys1 bys2 =
     (if int (unat (hd bys1)) - int (unat (hd bys2)) \<noteq> 0 then False
      else equal_rest n (tl bys1) (tl bys2))"

definition BytesEqual :: "buf \<Rightarrow> u64 \<Rightarrow> buf \<Rightarrow> u64 \<Rightarrow> bool" where
  "BytesEqual bys1 len1 bys2 len2 =
     (if len1 \<noteq> len2 then False
      else let len8 = len1 AND 0xFFFFFFFFFFFFFFF8 in
        if \<not> equal_chunks (unat len8 div 8) bys1 bys2 then False
        else equal_rest (unat len1 - unat len8) (drop (unat len8) bys1) (drop (unat len8) bys2))"

lemma equal_chunks_take:
  "8 * n \<le> length b1 \<Longrightarrow> 8 * n \<le> length b2 \<Longrightarrow>
   equal_chunks n b1 b2 \<longleftrightarrow> take (8 * n) b1 = take (8 * n) b2"
proof (induction n b1 b2 rule: equal_chunks.induct)
  case (2 n b1 b2)
  have l: "(load b :: u64) = load (take 8 b)" for b by (simp add: load_def)
  have "(load b1 :: u64) = load b2 \<longleftrightarrow> take 8 b1 = take 8 b2"
    unfolding l [of b1] l [of b2] by (rule load_eq_iff) (use 2 in auto)
  moreover have "take (8 * Suc n) b = take 8 b @ take (8 * n) (drop 8 b)" for b :: buf
    by (simp add: take_add)
  ultimately show ?case using 2 by (auto simp: append_eq_append_conv)
qed simp

lemma equal_rest_take:
  "n \<le> length b1 \<Longrightarrow> n \<le> length b2 \<Longrightarrow> equal_rest n b1 b2 \<longleftrightarrow> take n b1 = take n b2"
proof (induction n b1 b2 rule: equal_rest.induct)
  case (2 n b1 b2)
  then obtain x xs y ys where "b1 = x # xs" "b2 = y # ys" by (cases b1; cases b2) auto
  with 2 show ?case by (auto simp: word_uint_eq_iff)
qed simp

lemma take_eq_split: "k \<le> n \<Longrightarrow> take n a = take n b \<longleftrightarrow>
   take k a = take k b \<and> take (n - k) (drop k a) = take (n - k) (drop k b)"
  if "n \<le> length a" "n \<le> length b" for a b :: buf
proof -
  assume k: "k \<le> n"
  have "take n c = take k c @ take (n - k) (drop k c)" for c :: buf
    using k take_add [of k "n - k" c] by simp
  then show ?thesis using that k by (simp add: append_eq_append_conv)
qed

lemma BytesEqual_iff:
  assumes "length a < 2 ^ 64" "length b < 2 ^ 64"
  shows "BytesEqual a (of_nat (length a)) b (of_nat (length b)) \<longleftrightarrow> a = b"
proof (cases "length a = length b")
  case True
  let ?n = "length a" and ?k = "length a div 8 * 8"
  have un: "unat (of_nat ?n :: u64) = ?n" using assms by (simp add: unat_of_nat)
  have "BytesEqual a (of_nat ?n) b (of_nat ?n) \<longleftrightarrow> take ?n a = take ?n b"
    unfolding BytesEqual_def Let_def unat_and_8 un
    using equal_chunks_take [of "?n div 8" a b] equal_rest_take [of "?n - ?k" "drop ?k a" "drop ?k b"]
      take_eq_split [of ?n a b ?k] True
    by (simp add: mult.commute)
  with True show ?thesis by simp
next
  case False
  have "(of_nat (length a) :: u64) \<noteq> of_nat (length b)"
  proof
    assume "(of_nat (length a) :: u64) = of_nat (length b)"
    then have "unat (of_nat (length a) :: u64) = unat (of_nat (length b) :: u64)" by (simp only:)
    with False assms show False by (simp add: unat_of_nat)
  qed
  with False show ?thesis by (auto simp: BytesEqual_def)
qed

text \<open>
  \<open>BytesCopy dst src len\<close>: the contents of \<open>dst\<close> after the copy (the buffers do not overlap).
\<close>

fun copy_chunks :: "nat \<Rightarrow> buf \<Rightarrow> buf \<Rightarrow> buf" where
  "copy_chunks 0 dst src = dst"
| "copy_chunks (Suc n) dst src =
     store (load src :: u64) @ copy_chunks n (drop 8 dst) (drop 8 src)"

fun copy_rest :: "nat \<Rightarrow> buf \<Rightarrow> buf \<Rightarrow> buf" where
  "copy_rest 0 dst src = dst"
| "copy_rest (Suc n) dst src = hd src # copy_rest n (tl dst) (tl src)"

definition BytesCopy :: "buf \<Rightarrow> buf \<Rightarrow> u64 \<Rightarrow> buf" where
  "BytesCopy dst src len =
     (let len8 = unat (len AND 0xFFFFFFFFFFFFFFF8);
          dst' = copy_chunks (len8 div 8) dst src
      in take len8 dst' @ copy_rest (unat len - len8) (drop len8 dst') (drop len8 src))"

lemma copy_chunks_eq:
  "8 * n \<le> length src \<Longrightarrow> copy_chunks n dst src = take (8 * n) src @ drop (8 * n) dst"
proof (induction n dst src rule: copy_chunks.induct)
  case (2 n dst src)
  have "store (load src :: u64) = take 8 src"
    using store_load [of "take 8 src", where 'a = 64] 2 by (simp add: load_def)
  with 2 show ?case by (simp add: take_add add.commute)
qed simp

lemma copy_rest_eq: "n \<le> length src \<Longrightarrow> copy_rest n dst src = take n src @ drop n dst"
proof (induction n dst src rule: copy_rest.induct)
  case (2 n dst src)
  then obtain x xs where "src = x # xs" by (cases src) auto
  with 2 show ?case by (simp add: drop_Suc)
qed simp

lemma BytesCopy_eq:
  assumes "unat len \<le> length src" "unat len \<le> length dst"
  shows "BytesCopy dst src len = take (unat len) src @ drop (unat len) dst"
proof -
  let ?k = "unat len div 8 * 8"
  have k: "?k \<le> unat len" by simp
  have c: "copy_chunks (?k div 8) dst src = take ?k src @ drop ?k dst"
    using copy_chunks_eq [of "?k div 8" src dst] k assms by (simp add: mult.commute)
  have "take (unat len) src = take ?k src @ take (unat len - ?k) (drop ?k src)"
    using take_add [of ?k "unat len - ?k" src] k by simp
  moreover have "length (take ?k src) = ?k" using k assms(1) by auto
  moreover have "copy_rest (unat len - ?k) (drop ?k dst) (drop ?k src)
      = take (unat len - ?k) (drop ?k src) @ drop (unat len - ?k) (drop ?k dst)"
    by (rule copy_rest_eq) (use k assms in auto)
  moreover have "drop (unat len - ?k) (drop ?k dst) = drop (unat len) dst" using k by simp
  moreover have "take n (xs @ ys) = xs" "drop n (xs @ ys) = ys" if "length xs = n"
    for n and xs ys :: buf
    using that by simp_all
  ultimately show ?thesis
    unfolding BytesCopy_def Let_def unat_and_8 c by (simp only: append_assoc)
qed

text \<open>
  In \<open>BytesHash\<close> the expression \<open>h << 8 + h >> 56\<close> is \<open>(h << (8 + h)) >> 56\<close>, since \<open>+\<close> binds
  tighter than the shifts, so the shift distance depends on the hash so far. A shift of a 64-bit
  value by 64 or more is undefined in C++ and is \<open>None\<close> here.
\<close>

definition shl_u64 :: "u64 \<Rightarrow> u64 \<Rightarrow> u64 option" where
  "shl_u64 v n = (if unat n < 64 then Some (push_bit (unat n) v) else None)"

definition shr_u64 :: "u64 \<Rightarrow> u64 \<Rightarrow> u64 option" where
  "shr_u64 v n = (if unat n < 64 then Some (drop_bit (unat n) v) else None)"

fun hash_chunks :: "nat \<Rightarrow> u64 \<Rightarrow> buf \<Rightarrow> u64 option" where
  "hash_chunks 0 h bys = Some h"
| "hash_chunks (Suc n) h bys =
     Option.bind (shl_u64 h (8 + h)) (\<lambda>x.
     Option.bind (shr_u64 x 56) (\<lambda>y. hash_chunks n (y XOR load bys) (drop 8 bys)))"

fun hash_rest :: "nat \<Rightarrow> u64 \<Rightarrow> buf \<Rightarrow> u64 option" where
  "hash_rest 0 h bys = Some h"
| "hash_rest (Suc n) h bys =
     Option.bind (shl_u64 h (1 + h)) (\<lambda>x.
     Option.bind (shr_u64 x 63) (\<lambda>y. hash_rest n (y XOR ucast (hd bys)) (tl bys)))"

definition BytesHash :: "buf \<Rightarrow> u64 \<Rightarrow> u64 option" where
  "BytesHash bys len =
     (let len8 = unat (len AND 0xFFFFFFFFFFFFFFF8) in
      Option.bind (hash_chunks (len8 div 8) 0 bys) (\<lambda>h.
        hash_rest (unat len - len8) h (drop len8 bys)))"

lemma BytesHash_one: "BytesHash [b] 1 = Some (ucast b)"
  by (simp add: BytesHash_def shl_u64_def shr_u64_def)

lemma unat_ucast_byte: "unat (ucast (b :: byte) :: u64) = unat b"
  using unat_byte_bound [of b] by (simp add: unsigned_ucast_eq take_bit_nat_eq_self del: unat_byte_bound)

lemma unat_inc_byte: "unat (1 + ucast (b :: byte) :: u64) = Suc (unat b)"
  using unat_byte_bound [of b] by (simp add: unat_word_ariths unat_ucast_byte del: unat_byte_bound)

lemma hash_rest_second:
  "hash_rest (Suc (Suc n)) 0 (b # bs) = None" if "63 \<le> unat b"
  using that by (simp add: shl_u64_def shr_u64_def unat_inc_byte)

lemma BytesHash_short:
  assumes "length bs < 8"
  shows "BytesHash bs (of_nat (length bs)) = hash_rest (length bs) 0 bs"
proof -
  have "unat (of_nat (length bs) :: u64) = length bs" using assms by (simp add: unat_of_nat)
  with assms show ?thesis by (simp add: BytesHash_def unat_and_8)
qed

end
