(* ===== verification/Float_Keys.thy ===== *)
theory Float_Keys
  imports Bytes_Funcs
begin

text \<open>
  The key form of \<open>double\<close> and \<open>float\<close> (\<open>DoubleToBytes\<close>, \<open>FloatToBytes\<close> with \<open>bkey\<close>): it can be
  decoded, it orders the non-negative numbers, and it does not order the negative ones, because the
  mask \<open>0x800fffffffffffff\<close> complements the mantissa but not the exponent.
\<close>

section \<open>Sign, exponent, mantissa\<close>

lemma and_sign:
  "x AND 2 ^ (LENGTH('a) - 1) = (if bit x (LENGTH('a) - 1) then 2 ^ (LENGTH('a) - 1) else 0)"
  for x :: "'a::len word"
  by (rule bit_word_eqI) (auto simp: bit_simps)

lemma and_sign_64: "x AND 0x8000000000000000 \<noteq> 0 \<longleftrightarrow> bit (x :: u64) 63"
proof -
  have "x AND 2 ^ (LENGTH(64) - 1) \<noteq> 0 \<longleftrightarrow> bit x (LENGTH(64) - 1)" by (subst and_sign) simp
  then show ?thesis by simp
qed

lemma and_sign_32: "x AND 0x80000000 \<noteq> 0 \<longleftrightarrow> bit (x :: u32) 31"
proof -
  have "x AND 2 ^ (LENGTH(32) - 1) \<noteq> 0 \<longleftrightarrow> bit x (LENGTH(32) - 1)" by (subst and_sign) simp
  then show ?thesis by simp
qed

lemma sign_of_masks:
  "bit (0x8000000000000000 :: u64) 63" "bit (0x800fffffffffffff :: u64) 63"
  "bit (0x80000000 :: u32) 31" "bit (0x807fffff :: u32) 31"
  by code_simp+

interpretation dbl: local_codec "\<lambda>v. DoubleToBytes v k" "\<lambda>b. DoubleFromBytes b k" 8 for k
  by (rule codec_local)
    (simp_all add: DoubleToBytes_def DoubleFromBytes_def Let_def and_sign_64 bit_xor_iff
      sign_of_masks load_append_take)

interpretation flt: local_codec "\<lambda>v. FloatToBytes v k" "\<lambda>b. FloatFromBytes b k" 4 for k
  by (rule codec_local)
    (simp_all add: FloatToBytes_def FloatFromBytes_def Let_def and_sign_32 bit_xor_iff
      sign_of_masks load_append_take)

text \<open>
  The value of a finite \<open>double\<close>, scaled by \<open>2^1074\<close> so that it is an integer, by IEEE-754: sign
  bit 63, biased exponent in bits 52 to 62, mantissa in the low 52 bits.
\<close>

definition dbl_exponent :: "u64 \<Rightarrow> nat" where
  "dbl_exponent w = unat w div 2 ^ 52 mod 2 ^ 11"

definition dbl_mantissa :: "u64 \<Rightarrow> nat" where
  "dbl_mantissa w = unat w mod 2 ^ 52"

definition dbl_magnitude :: "nat \<Rightarrow> nat \<Rightarrow> nat" where
  "dbl_magnitude e m = (if e = 0 then m else (2 ^ 52 + m) * 2 ^ (e - 1))"

definition dbl_scaled :: "u64 \<Rightarrow> int" where
  "dbl_scaled w =
     (if bit w 63 then -1 else 1) * int (dbl_magnitude (dbl_exponent w) (dbl_mantissa w))"

lemma dbl_magnitude_exponent:
  assumes "e < f" "m < 2 ^ 52" shows "dbl_magnitude e m < dbl_magnitude f n"
proof -
  have "dbl_magnitude e m < 2 ^ 52 * 2 ^ e"
  proof (cases e)
    case 0
    with assms show ?thesis by (simp add: dbl_magnitude_def)
  next
    case (Suc e')
    have "(2 ^ 52 + m) * 2 ^ e' < (2 ^ 52 + 2 ^ 52) * 2 ^ e'"
      using assms(2) by (intro mult_strict_right_mono) simp_all
    with Suc show ?thesis by (simp add: dbl_magnitude_def algebra_simps)
  qed
  also have "\<dots> \<le> 2 ^ 52 * 2 ^ (f - 1)"
    using assms(1) by (intro mult_left_mono power_increasing) auto
  also have "\<dots> \<le> dbl_magnitude f n"
    using assms(1) by (simp add: dbl_magnitude_def)
  finally show ?thesis .
qed

lemma dbl_magnitude_mantissa: "m < n \<Longrightarrow> dbl_magnitude e m < dbl_magnitude e n"
  by (simp add: dbl_magnitude_def)

lemma bit_63: "bit (w :: u64) 63 \<longleftrightarrow> 2 ^ 63 \<le> unat w"
proof -
  have "bit w 63 \<longleftrightarrow> odd (unat w div 2 ^ 63)"
    by (simp add: bit_iff_odd flip: bit_unsigned_iff [where 'a = nat]) (simp add: bit_iff_odd unsigned_eq_0_iff word_arith_nat_div bit_unsigned_iff)
  moreover have "unat w div 2 ^ 63 < 2"
    using unsigned_less [of w, where ?'a = nat] by (intro less_mult_imp_div_less) simp
  ultimately show ?thesis
    by (cases "2 ^ 63 \<le> unat w") (auto simp: div_greater_zero_iff less_2_cases_iff)
qed

lemma dbl_split:
  "unat w = (if bit w 63 then 2 ^ 63 else 0) + dbl_exponent w * 2 ^ 52 + dbl_mantissa w"
proof -
  have "unat w div 2 ^ 52 = unat w div 2 ^ 52 div 2 ^ 11 * 2 ^ 11 + dbl_exponent w"
    by (simp add: dbl_exponent_def)
  moreover have "unat w div 2 ^ 52 div 2 ^ 11 = (if bit w 63 then 1 else 0)"
  proof -
    have "unat w div 2 ^ 63 < 2"
      using unsigned_less [of w, where ?'a = nat] by (intro less_mult_imp_div_less) simp
    then show ?thesis
      by (cases "bit w 63") (auto simp: bit_63 div_greater_zero_iff less_2_cases_iff
          simp flip: div_mult2_eq)
  qed
  moreover have "unat w = unat w div 2 ^ 52 * 2 ^ 52 + dbl_mantissa w"
    by (simp add: dbl_mantissa_def)
  ultimately show ?thesis by (auto split: if_splits)
qed

lemma dbl_mantissa_bound: "dbl_mantissa w < 2 ^ 52"
  by (simp add: dbl_mantissa_def)

section \<open>Non-negative numbers are ordered\<close>

lemma unsigned_order_nonneg:
  assumes "\<not> bit v 63" "\<not> bit w 63"
  shows "v < w \<longleftrightarrow> dbl_scaled v < dbl_scaled w"
proof -
  let ?e = dbl_exponent and ?m = dbl_mantissa
  have eq: "unat v = ?e v * 2 ^ 52 + ?m v" "unat w = ?e w * 2 ^ 52 + ?m w"
    using dbl_split [of v] dbl_split [of w] assms by simp_all
  have lt: "a * 2 ^ 52 + m < b * 2 ^ 52 + n" if "a < b" "m < 2 ^ 52" for a b m n :: nat
    using that by (metis (no_types) Suc_leI add.commute add_less_mono1 less_le_trans mult.commute
        mult_Suc_right mult_le_mono2 trans_less_add1)
  consider "?e v < ?e w" | "?e w < ?e v" | "?e v = ?e w" "?m v < ?m w" | "?e v = ?e w" "?m w < ?m v"
    | "?e v = ?e w" "?m v = ?m w" by (metis linorder_neqE_nat)
  then show ?thesis
  proof cases
    case 1
    then show ?thesis
      using lt [of "?e v" "?e w" "?m v" "?m w"] dbl_mantissa_bound [of v]
        dbl_magnitude_exponent [of "?e v" "?e w" "?m v" "?m w"] assms
      by (simp add: dbl_scaled_def word_less_nat_alt eq)
  next
    case 2
    then show ?thesis
      using lt [of "?e w" "?e v" "?m w" "?m v"] dbl_mantissa_bound [of w]
        dbl_magnitude_exponent [of "?e w" "?e v" "?m w" "?m v"] assms
      by (simp add: dbl_scaled_def word_less_nat_alt eq)
  next
    case 3
    then show ?thesis
      using dbl_magnitude_mantissa [of "?m v" "?m w" "?e w"] assms
      by (simp add: dbl_scaled_def word_less_nat_alt eq)
  next
    case 4
    then show ?thesis
      using dbl_magnitude_mantissa [of "?m w" "?m v" "?e w"] assms
      by (simp add: dbl_scaled_def word_less_nat_alt eq)
  next
    case 5
    then show ?thesis using assms by (simp add: dbl_scaled_def word_less_nat_alt eq)
  qed
qed

lemma double_key_less:
  "lexcmp (DoubleToBytes v True) (DoubleToBytes w True) < 0 \<longleftrightarrow>
   v XOR (if bit v 63 then 0x800fffffffffffff else 0x8000000000000000) <
   w XOR (if bit w 63 then 0x800fffffffffffff else 0x8000000000000000)"
  by (simp add: DoubleToBytes_def and_sign_64 lexcmp_BytesSwap)

lemma nonneg_xor_less:
  assumes "\<not> bit v 63" "\<not> bit w 63"
  shows "v XOR 0x8000000000000000 < w XOR 0x8000000000000000 \<longleftrightarrow> v < (w :: u64)"
proof -
  have "sint x = uint x" if "\<not> bit x 63" for x :: u64
    using that uint_bounded [of x]
    by (simp add: sint_uint signed_take_bit_eq_take_bit_minus bit_uint_iff take_bit_int_eq_self)
  then show ?thesis
    using assms xor_sign_less [of v w] by (simp add: word_less_def)
qed

section \<open>Negative numbers with different exponents are ordered backwards\<close>

lemma drop_bit_less: "unat v div 2 ^ n < unat w div 2 ^ n \<Longrightarrow> v < w" for v w :: "'a::len word"
  by (metis div_le_mono not_less word_less_nat_alt)

lemma neg_key_exponent:
  assumes "bit w 63"
  shows "unat (w XOR 0x800fffffffffffff) div 2 ^ 52 = dbl_exponent w"
proof -
  have "drop_bit 52 (w XOR 0x800fffffffffffff) = drop_bit 52 w XOR 0x800"
    by (simp add: drop_bit_xor)
  moreover have "uint (drop_bit 52 w) = 2 ^ 11 + int (dbl_exponent w)"
  proof -
    have "unat w = (2 ^ 11 + dbl_exponent w) * 2 ^ 52 + dbl_mantissa w"
      using dbl_split [of w] assms by simp
    then have "unat w div 2 ^ 52 = 2 ^ 11 + dbl_exponent w"
      using dbl_mantissa_bound [of w] by simp
    then have "int (unat w div 2 ^ 52) = 2 ^ 11 + int (dbl_exponent w)" by simp
    then show ?thesis by (simp add: drop_bit_eq_div uint_div zdiv_int)
  qed
  moreover have "dbl_exponent w < 2 ^ 11" by (simp add: dbl_exponent_def)
  moreover have "uint (x XOR 0x800) = uint x - 2 ^ 11"
    if "uint x = 2 ^ 11 + int e" "e < 2 ^ 11" for x :: u64 and e
  proof -
    have "uint (x XOR 0x800) = flip_bit 11 (uint x)"
      by (simp add: unsigned_xor_eq flip_bit_eq_xor push_bit_eq_mult)
    moreover have "(2 ^ 11 + int e) div 2 ^ 11 = 1"
      using that(2) by (simp add: div_add_self1)
    then have "bit (uint x) 11" using that by (simp add: bit_iff_odd)
    ultimately show ?thesis by (simp add: flip_bit_eq_if unset_bit_eq)
  qed
  ultimately have "uint (drop_bit 52 (w XOR 0x800fffffffffffff)) = int (dbl_exponent w)"
    by (metis add_diff_cancel_left')
  then have "int (unat (w XOR 0x800fffffffffffff) div 2 ^ 52) = int (dbl_exponent w)"
    by (simp add: drop_bit_eq_div uint_div zdiv_int)
  then show ?thesis by (simp only: of_nat_eq_iff)
qed

lemma neg_key_reversed:
  assumes "bit v 63" "bit w 63" "dbl_exponent v < dbl_exponent w"
  shows "lexcmp (DoubleToBytes v True) (DoubleToBytes w True) < 0 \<and> dbl_scaled w < dbl_scaled v"
proof
  have "v XOR 0x800fffffffffffff < w XOR 0x800fffffffffffff"
    by (rule drop_bit_less [where n = 52]) (use assms in \<open>simp only: neg_key_exponent\<close>)
  then show "lexcmp (DoubleToBytes v True) (DoubleToBytes w True) < 0"
    using assms by (simp add: double_key_less)
  show "dbl_scaled w < dbl_scaled v"
    using dbl_magnitude_exponent [OF assms(3) dbl_mantissa_bound] assms(1,2)
    by (simp add: dbl_scaled_def)
qed

end
