(* ===== verification/Buffer_Words.thy ===== *)
theory Buffer_Words
  imports Bytes_Funcs
begin

text \<open>
  Machine words inside a byte buffer: \<open>*((uintN_t *)(b + off))\<close> as a read (\<open>rd\<close>) and as an
  assignment (\<open>wr\<close>), and \<open>BytesCopy\<close> into the middle of a buffer. The laws are those of
  independent fields: a read returns what was last written at its offset and is not disturbed by
  a write that does not overlap it.
\<close>

definition rd :: "nat \<Rightarrow> buf \<Rightarrow> 'a::len word" where
  "rd off b = load (drop off b)"

definition wr :: "nat \<Rightarrow> 'a::len word \<Rightarrow> buf \<Rightarrow> buf" where
  "wr off w b = patch off (store w) b"

definition copy_to :: "nat \<Rightarrow> buf \<Rightarrow> buf \<Rightarrow> u64 \<Rightarrow> buf" where
  "copy_to off b src len = take off b @ BytesCopy (drop off b) src len"

lemma length_wr [simp, buf_simps]:
  "off + LENGTH('a::len) div 8 \<le> length b \<Longrightarrow> length (wr off (w :: 'a word) b) = length b"
  by (simp add: wr_def)

lemma rd_wr_same [simp, buf_simps]:
  "8 dvd LENGTH('a::len) \<Longrightarrow> off + LENGTH('a) div 8 \<le> length b \<Longrightarrow>
   rd off (wr off (w :: 'a word) b) = w"
  by (simp add: rd_def wr_def patch_def)

lemma load_bslice: "(rd off b :: 'a::len word) = load (bslice off (LENGTH('a) div 8) b)"
  by (simp add: rd_def load_def bslice_def)

lemma rd_patch_other [buf_simps]:
  assumes "off + length xs \<le> length b" "off' + LENGTH('a::len) div 8 \<le> length b"
    and "off' + LENGTH('a) div 8 \<le> off \<or> off + length xs \<le> off'"
  shows "(rd off' (patch off xs b) :: 'a word) = rd off' b"
  unfolding load_bslice using assms by (simp add: bslice_patch_other)

lemma rd_wr_other [buf_simps]:
  assumes "off + LENGTH('b::len) div 8 \<le> length b" "off' + LENGTH('a::len) div 8 \<le> length b"
    and "off' + LENGTH('a) div 8 \<le> off \<or> off + LENGTH('b) div 8 \<le> off'"
  shows "(rd off' (wr off (w :: 'b word) b) :: 'a word) = rd off' b"
  using assms unfolding wr_def by (simp add: rd_patch_other)

lemma bslice_wr_other [buf_simps]:
  assumes "off + LENGTH('b::len) div 8 \<le> length b" "off' + n \<le> length b"
    and "off' + n \<le> off \<or> off + LENGTH('b) div 8 \<le> off'"
  shows "bslice off' n (wr off (w :: 'b word) b) = bslice off' n b"
  using assms unfolding wr_def by (simp add: bslice_patch_other)

lemma copy_to_patch:
  assumes "unat len \<le> length src" "off + unat len \<le> length b"
  shows "copy_to off b src len = patch off (take (unat len) src) b"
  using assms by (simp add: copy_to_def patch_def BytesCopy_eq add.commute)

lemma length_copy_to [simp, buf_simps]:
  "unat len \<le> length src \<Longrightarrow> off + unat len \<le> length b \<Longrightarrow>
   length (copy_to off b src len) = length b"
  by (simp add: copy_to_patch)

lemma rd_append_left: "off + LENGTH('a::len) div 8 \<le> length a \<Longrightarrow>
   (rd off (a @ b) :: 'a word) = rd off a"
  unfolding load_bslice by (simp add: bslice_append_left)

lemma rd_drop: "rd off (drop n b) = rd (n + off) b"
  by (simp add: rd_def add.commute)

lemma rd_take: "off + LENGTH('a::len) div 8 \<le> n \<Longrightarrow> (rd off (take n b) :: 'a word) = rd off b"
  by (simp add: rd_def load_def drop_take min_def)

text \<open>Widths of the words stored in records and pages.\<close>

lemma word_widths [simp]:
  "LENGTH(8) div 8 = 1" "LENGTH(16) div 8 = 2" "LENGTH(32) div 8 = 4" "LENGTH(64) div 8 = 8"
  by simp_all

lemma unat_u16_bound [simp]: "unat (w :: u16) < 65536"
  using unsigned_less [of w, where ?'a = nat] by simp

lemma unat_u64_of_u16 [simp]: "unat (ucast (w :: u16) :: u64) = unat w"
  by (simp add: unsigned_ucast_eq take_bit_nat_eq_self less_trans [OF unat_u16_bound])

lemma unat_u64_of_u32 [simp]: "unat (ucast (w :: u32) :: u64) = unat w"
  using unsigned_less [of w, where ?'a = nat]
  by (simp add: unsigned_ucast_eq take_bit_nat_eq_self)

end
