(* ===== verification/Core_Enums.thy ===== *)
theory Core_Enums
  imports Prelude
begin

text \<open>
  \<open>src/core/CoreEnum.h\<close> and \<open>src/dataType/DataType.h\<close>: the enumerations of the storage engine with
  their numeric codes, the bit masks tested on them, their printed form, and the data type table.
\<close>

section \<open>Decimal printing\<close>

text \<open>\<open>os << (int)n\<close> for a non-negative number.\<close>

fun show_nat :: "nat \<Rightarrow> string" where
  "show_nat n = (if n < 10 then [char_of (48 + n)] else show_nat (n div 10) @ [char_of (48 + n mod 10)])"

declare show_nat.simps [simp del]

lemma show_nat_nonempty [simp]: "show_nat n \<noteq> []"
  by (subst show_nat.simps) simp

definition show_code :: "string \<Rightarrow> nat \<Rightarrow> string" where
  "show_code nm n = nm @ ''('' @ show_nat n @ '')''"

section \<open>Index, page and record enumerations\<close>

datatype IndexType =
    IT_UNKNOWN
  | PRIMARY
  | HIDE_PRIMARY
  | UNIQUE
  | NON_UNIQUE

primrec index_type_code :: "IndexType \<Rightarrow> nat" where
  "index_type_code IT_UNKNOWN = 0"
| "index_type_code PRIMARY = 1"
| "index_type_code HIDE_PRIMARY = 2"
| "index_type_code UNIQUE = 3"
| "index_type_code NON_UNIQUE = 4"

datatype PageType =
    PT_UNKNOWN
  | HEAD_PAGE
  | LEAF_PAGE
  | BRANCH_PAGE
  | OVERFLOW_PAGE
  | GARBAGE_FREE_PAGE
  | GARBAGE_COLLECT_PAGE

primrec page_type_code :: "PageType \<Rightarrow> nat" where
  "page_type_code PT_UNKNOWN = 0"
| "page_type_code HEAD_PAGE = 1"
| "page_type_code LEAF_PAGE = 2"
| "page_type_code BRANCH_PAGE = 3"
| "page_type_code OVERFLOW_PAGE = 4"
| "page_type_code GARBAGE_FREE_PAGE = 5"
| "page_type_code GARBAGE_COLLECT_PAGE = 6"

datatype PageStatus =
    PS_EMPTY
  | READING
  | READED
  | WRITING
  | PS_VALID
  | OBSOLETE
  | PS_INVALID

primrec page_status_code :: "PageStatus \<Rightarrow> nat" where
  "page_status_code PS_EMPTY = 0"
| "page_status_code READING = 1"
| "page_status_code READED = 2"
| "page_status_code WRITING = 3"
| "page_status_code PS_VALID = 4"
| "page_status_code OBSOLETE = 5"
| "page_status_code PS_INVALID = 6"

text \<open>\<open>ActionType\<close> is a plain enumeration over \<open>uint8_t\<close> whose values are combined with masks.\<close>

datatype ActionType =
    NO_ACTION
  | READ_SHARE
  | READ_UPDATE
  | INSERT
  | UPDATE
  | DELETE
  | UPSERT

primrec action_code :: "ActionType \<Rightarrow> nat" where
  "action_code NO_ACTION = 0"
| "action_code READ_SHARE = 1"
| "action_code READ_UPDATE = 2"
| "action_code INSERT = 16"
| "action_code UPDATE = 32"
| "action_code DELETE = 64"
| "action_code UPSERT = 128"

definition READ_LOCK_MASK :: byte where "READ_LOCK_MASK = 0x3"
definition WRITE_LOCK_MASK :: byte where "WRITE_LOCK_MASK = 0xF2"
definition UPDATEABLE_MASK :: byte where "UPDATEABLE_MASK = 0xF0"

text \<open>\<open>(t & MASK) != 0\<close>.\<close>

definition masked :: "ActionType \<Rightarrow> byte \<Rightarrow> bool" where
  "masked t m \<longleftrightarrow> of_nat (action_code t) AND m \<noteq> 0"

lemma masked_simps [simp]:
  "masked t READ_LOCK_MASK \<longleftrightarrow> t = READ_SHARE \<or> t = READ_UPDATE"
  "masked t WRITE_LOCK_MASK \<longleftrightarrow> t \<notin> {NO_ACTION, READ_SHARE}"
  "masked t UPDATEABLE_MASK \<longleftrightarrow> t \<in> {INSERT, UPDATE, DELETE, UPSERT}"
  by (cases t; simp add: masked_def READ_LOCK_MASK_def WRITE_LOCK_MASK_def UPDATEABLE_MASK_def)+

datatype RecordStatus =
    RS_INIT
  | LOCK_ONLY
  | COMMITED
  | ROLLBACKED
  | FREEED

primrec record_status_code :: "RecordStatus \<Rightarrow> nat" where
  "record_status_code RS_INIT = 0"
| "record_status_code LOCK_ONLY = 1"
| "record_status_code COMMITED = 2"
| "record_status_code ROLLBACKED = 3"
| "record_status_code FREEED = 4"

text \<open>The code compares record statuses with \<open>>=\<close>: they are ordered by their code.\<close>

instantiation RecordStatus :: linorder
begin

definition less_eq_RecordStatus :: "RecordStatus \<Rightarrow> RecordStatus \<Rightarrow> bool" where
  "less_eq_RecordStatus a b \<longleftrightarrow> record_status_code a \<le> record_status_code b"

definition less_RecordStatus :: "RecordStatus \<Rightarrow> RecordStatus \<Rightarrow> bool" where
  "less_RecordStatus a b \<longleftrightarrow> record_status_code a < record_status_code b"

instance
proof
  fix a b c :: RecordStatus
  show "a < b \<longleftrightarrow> a \<le> b \<and> \<not> b \<le> a"
    by (auto simp: less_eq_RecordStatus_def less_RecordStatus_def)
  show "a \<le> a" by (simp add: less_eq_RecordStatus_def)
  show "a \<le> b \<Longrightarrow> b \<le> c \<Longrightarrow> a \<le> c" by (simp add: less_eq_RecordStatus_def)
  show "a \<le> b \<Longrightarrow> b \<le> a \<Longrightarrow> a = b"
    by (cases a; cases b) (simp_all add: less_eq_RecordStatus_def)
  show "a \<le> b \<or> b \<le> a" by (auto simp: less_eq_RecordStatus_def)
qed

end

lemma ge_COMMITED [simp]: "COMMITED \<le> s \<longleftrightarrow> s \<in> {COMMITED, ROLLBACKED, FREEED}"
  by (cases s) (simp_all add: less_eq_RecordStatus_def)

datatype RecordResult =
    RR_INIT
  | IN_PAGE
  | RR_ERROR

primrec record_result_code :: "RecordResult \<Rightarrow> nat" where
  "record_result_code RR_INIT = 0"
| "record_result_code IN_PAGE = 1"
| "record_result_code RR_ERROR = 2"

datatype ReadResult =
    OK_NOLOCK
  | OK_LOCK
  | LOCKED
  | REC_DELETE
  | INVALID_VERSION

primrec read_result_code :: "ReadResult \<Rightarrow> nat" where
  "read_result_code OK_NOLOCK = 0"
| "read_result_code OK_LOCK = 1"
| "read_result_code LOCKED = 2"
| "read_result_code REC_DELETE = 3"
| "read_result_code INVALID_VERSION = 4"

datatype ReleaseResult =
    FINISHED
  | DELETED
  | UNFINISH

primrec release_result_code :: "ReleaseResult \<Rightarrow> nat" where
  "release_result_code FINISHED = 0"
| "release_result_code DELETED = 1"
| "release_result_code UNFINISH = 2"

section \<open>Printed form\<close>

text \<open>
  The \<open>operator<<\<close> overloads. Those for \<open>ActionType\<close> and the record enumerations assert on a value
  without a case of their own; that is \<open>None\<close>.
\<close>

fun print_IndexType :: "IndexType \<Rightarrow> string" where
  "print_IndexType PRIMARY = show_code ''PRIMARY'' (index_type_code PRIMARY)"
| "print_IndexType HIDE_PRIMARY = show_code ''HIDEPRIMARY'' (index_type_code HIDE_PRIMARY)"
| "print_IndexType UNIQUE = show_code ''UNIQUE'' (index_type_code UNIQUE)"
| "print_IndexType NON_UNIQUE = show_code ''NON_UNIQUE'' (index_type_code NON_UNIQUE)"
| "print_IndexType _ = show_code ''UNKNOWN'' (index_type_code IT_UNKNOWN)"

fun print_PageType :: "PageType \<Rightarrow> string" where
  "print_PageType HEAD_PAGE = show_code ''HEAD_PAGE'' (page_type_code HEAD_PAGE)"
| "print_PageType LEAF_PAGE = show_code ''LEAF_PAGE'' (page_type_code LEAF_PAGE)"
| "print_PageType BRANCH_PAGE = show_code ''BRANCH_PAGE'' (page_type_code BRANCH_PAGE)"
| "print_PageType OVERFLOW_PAGE = show_code ''OVERFLOW_PAGE'' (page_type_code OVERFLOW_PAGE)"
| "print_PageType GARBAGE_FREE_PAGE = show_code ''GARBAGE_FREE_PAGE'' (page_type_code GARBAGE_FREE_PAGE)"
| "print_PageType GARBAGE_COLLECT_PAGE = show_code ''GARBAGE_COLLECT_PAGE'' (page_type_code GARBAGE_COLLECT_PAGE)"
| "print_PageType PT_UNKNOWN = show_code ''UNKNOWN'' (page_type_code PT_UNKNOWN)"

fun print_PageStatus :: "PageStatus \<Rightarrow> string" where
  "print_PageStatus PS_EMPTY = show_code ''EMPTY'' (page_status_code PS_EMPTY)"
| "print_PageStatus READING = show_code ''READING'' (page_status_code READING)"
| "print_PageStatus READED = show_code ''READED'' (page_status_code READED)"
| "print_PageStatus WRITING = show_code ''WRITING'' (page_status_code WRITING)"
| "print_PageStatus PS_VALID = show_code ''VALID'' (page_status_code PS_VALID)"
| "print_PageStatus OBSOLETE = show_code ''OBSOLETE'' (page_status_code OBSOLETE)"
| "print_PageStatus PS_INVALID = show_code ''INVALID'' (page_status_code PS_INVALID)"

fun print_ActionType :: "ActionType \<Rightarrow> string option" where
  "print_ActionType NO_ACTION = Some (show_code ''NO_ACTION'' (action_code NO_ACTION))"
| "print_ActionType READ_SHARE = Some (show_code ''READ_SHARE'' (action_code READ_SHARE))"
| "print_ActionType READ_UPDATE = Some (show_code ''READ_UPDATE'' (action_code READ_UPDATE))"
| "print_ActionType INSERT = Some (show_code ''INSERT'' (action_code INSERT))"
| "print_ActionType UPDATE = Some (show_code ''UPDATE'' (action_code UPDATE))"
| "print_ActionType DELETE = Some (show_code ''DELETE'' (action_code DELETE))"
| "print_ActionType _ = None"

fun print_RecordStatus :: "RecordStatus \<Rightarrow> string" where
  "print_RecordStatus RS_INIT = show_code ''INIT'' (record_status_code RS_INIT)"
| "print_RecordStatus LOCK_ONLY = show_code ''LOCK_ONLY'' (record_status_code LOCK_ONLY)"
| "print_RecordStatus COMMITED = show_code ''COMMITED'' (record_status_code COMMITED)"
| "print_RecordStatus ROLLBACKED = show_code ''ROLLBACKED'' (record_status_code ROLLBACKED)"
| "print_RecordStatus FREEED = show_code ''FREEED'' (record_status_code FREEED)"

fun print_ReadResult :: "ReadResult \<Rightarrow> string" where
  "print_ReadResult OK_NOLOCK = show_code ''OK_NOLOCK'' (read_result_code OK_NOLOCK)"
| "print_ReadResult OK_LOCK = show_code ''OK_LOCK'' (read_result_code OK_LOCK)"
| "print_ReadResult LOCKED = show_code ''LOCKED'' (read_result_code LOCKED)"
| "print_ReadResult REC_DELETE = show_code ''REC_DELETE'' (read_result_code REC_DELETE)"
| "print_ReadResult INVALID_VERSION = show_code ''INVALID_VERSION'' (read_result_code INVALID_VERSION)"

fun print_ReleaseResult :: "ReleaseResult \<Rightarrow> string" where
  "print_ReleaseResult FINISHED = show_code ''FINISHED'' (release_result_code FINISHED)"
| "print_ReleaseResult DELETED = show_code ''DELETED'' (release_result_code DELETED)"
| "print_ReleaseResult UNFINISH = show_code ''UNFINISH'' (release_result_code UNFINISH)"

section \<open>Data types\<close>

text \<open>
  A data type's code combines flags (from \<open>0x10000\<close> up) with a serial number in the low bits.
\<close>

definition INDEX_TYPE :: u32 where "INDEX_TYPE = 0x10000"
definition FIX_LEN :: u32 where "FIX_LEN = 0x20000"
definition ARRAY_TYPE :: u32 where "ARRAY_TYPE = 0x40000"
definition DIGITAL_TYPE :: u32 where "DIGITAL_TYPE = 0x80000"
definition AUTO_INC_TYPE :: u32 where "AUTO_INC_TYPE = 0x100000"

datatype DataType =
    DT_UNKNOWN | DT_CHAR | DT_SHORT | DT_INT | DT_LONG | DT_BYTE | DT_USHORT | DT_UINT | DT_ULONG
  | DT_FIXCHAR | DT_VARCHAR | DT_DATETIME | DT_FLOAT | DT_DOUBLE | DT_BLOB | DT_BOOL | DT_VAL_NULL

primrec data_type_code :: "DataType \<Rightarrow> u32" where
  "data_type_code DT_UNKNOWN = 0"
| "data_type_code DT_CHAR = AUTO_INC_TYPE + DIGITAL_TYPE + INDEX_TYPE + FIX_LEN + 1"
| "data_type_code DT_SHORT = AUTO_INC_TYPE + DIGITAL_TYPE + INDEX_TYPE + FIX_LEN + 2"
| "data_type_code DT_INT = AUTO_INC_TYPE + DIGITAL_TYPE + INDEX_TYPE + FIX_LEN + 3"
| "data_type_code DT_LONG = AUTO_INC_TYPE + DIGITAL_TYPE + INDEX_TYPE + FIX_LEN + 4"
| "data_type_code DT_BYTE = AUTO_INC_TYPE + DIGITAL_TYPE + INDEX_TYPE + FIX_LEN + 5"
| "data_type_code DT_USHORT = AUTO_INC_TYPE + DIGITAL_TYPE + INDEX_TYPE + FIX_LEN + 6"
| "data_type_code DT_UINT = AUTO_INC_TYPE + DIGITAL_TYPE + INDEX_TYPE + FIX_LEN + 7"
| "data_type_code DT_ULONG = AUTO_INC_TYPE + DIGITAL_TYPE + INDEX_TYPE + FIX_LEN + 8"
| "data_type_code DT_FIXCHAR = INDEX_TYPE + FIX_LEN + ARRAY_TYPE + 9"
| "data_type_code DT_VARCHAR = INDEX_TYPE + ARRAY_TYPE + 10"
| "data_type_code DT_DATETIME = INDEX_TYPE + FIX_LEN + 11"
| "data_type_code DT_FLOAT = DIGITAL_TYPE + INDEX_TYPE + FIX_LEN + 12"
| "data_type_code DT_DOUBLE = DIGITAL_TYPE + INDEX_TYPE + FIX_LEN + 13"
| "data_type_code DT_BLOB = ARRAY_TYPE + 14"
| "data_type_code DT_BOOL = DIGITAL_TYPE + FIX_LEN + 15"
| "data_type_code DT_VAL_NULL = 127"

datatype SavePosition = SP_UNKNOWN | KEY | VALUE

datatype ValueType = NULL_VALUE | SOLE_VALUE | BYTES_VALUE

lemmas dt_flags = INDEX_TYPE_def FIX_LEN_def ARRAY_TYPE_def DIGITAL_TYPE_def AUTO_INC_TYPE_def

definition IsIndexType :: "DataType \<Rightarrow> bool" where
  "IsIndexType dt \<longleftrightarrow> data_type_code dt AND INDEX_TYPE = INDEX_TYPE"

definition IsFixLength :: "DataType \<Rightarrow> bool" where
  "IsFixLength dt \<longleftrightarrow> data_type_code dt AND FIX_LEN = FIX_LEN"

definition IsAutoPrimaryKey :: "DataType \<Rightarrow> bool" where
  "IsAutoPrimaryKey dt \<longleftrightarrow> data_type_code dt AND AUTO_INC_TYPE = AUTO_INC_TYPE"

definition IsDigital :: "DataType \<Rightarrow> bool" where
  "IsDigital dt \<longleftrightarrow> data_type_code dt AND DIGITAL_TYPE = DIGITAL_TYPE"

definition IsArrayType :: "DataType \<Rightarrow> bool" where
  "IsArrayType dt \<longleftrightarrow> data_type_code dt AND ARRAY_TYPE = ARRAY_TYPE"

definition IsStringType :: "DataType \<Rightarrow> bool" where
  "IsStringType dt \<longleftrightarrow> dt = DT_FIXCHAR \<or> dt = DT_VARCHAR"

text \<open>The table lookups: an index past the table is an out-of-bounds read, \<open>None\<close>.\<close>

definition arType :: "DataType list" where
  "arType = [DT_UNKNOWN, DT_CHAR, DT_SHORT, DT_INT, DT_LONG, DT_BYTE, DT_USHORT, DT_UINT, DT_ULONG,
     DT_FIXCHAR, DT_VARCHAR, DT_DATETIME, DT_FLOAT, DT_DOUBLE, DT_BLOB, DT_BOOL]"

definition ValueOfDataType :: "byte \<Rightarrow> DataType option" where
  "ValueOfDataType type =
     (if unat type < length arType then Some (arType ! unat type) else None)"

definition strDt :: "string list" where
  "strDt = [''UNKNOWN'', ''CHAR'', ''SHORT'', ''INT'', ''LONG'', ''BYTE'', ''USHORT'', ''UINT'',
     ''ULONG'', ''FIXCHAR'', ''VARCHAR'', ''DATETIME'', ''FLOAT'', ''DOUBLE'', ''BLOB'', ''BOOL'']"

definition StrOfDataType :: "DataType \<Rightarrow> string option" where
  "StrOfDataType type =
     (let i = (ucast (data_type_code type AND 0x7F) :: byte) in
      if unat i < length strDt then Some (strDt ! unat i) else None)"

definition print_DataType :: "DataType \<Rightarrow> string" where
  "print_DataType dt = ''DataType::'' @
     (case dt of
        DT_BYTE \<Rightarrow> show_code ''BYTE'' (unat (data_type_code dt))
      | DT_SHORT \<Rightarrow> show_code ''SHORT'' (unat (data_type_code dt))
      | DT_INT \<Rightarrow> show_code ''INT'' (unat (data_type_code dt))
      | DT_LONG \<Rightarrow> show_code ''LONG'' (unat (data_type_code dt))
      | DT_CHAR \<Rightarrow> show_code ''CHAR'' (unat (data_type_code dt))
      | DT_USHORT \<Rightarrow> show_code ''USHORT'' (unat (data_type_code dt))
      | DT_UINT \<Rightarrow> show_code ''UINT'' (unat (data_type_code dt))
      | DT_ULONG \<Rightarrow> show_code ''ULONG'' (unat (data_type_code dt))
      | DT_FIXCHAR \<Rightarrow> show_code ''FIXCHAR'' (unat (data_type_code dt))
      | DT_VARCHAR \<Rightarrow> show_code ''VARCHAR'' (unat (data_type_code dt))
      | DT_DATETIME \<Rightarrow> show_code ''DATETIME'' (unat (data_type_code dt))
      | DT_FLOAT \<Rightarrow> show_code ''FLOAT'' (unat (data_type_code dt))
      | DT_DOUBLE \<Rightarrow> show_code ''DOUBLE'' (unat (data_type_code dt))
      | DT_BLOB \<Rightarrow> show_code ''BLOB'' (unat (data_type_code dt))
      | DT_BOOL \<Rightarrow> show_code ''BOOL'' (unat (data_type_code dt))
      | _ \<Rightarrow> show_code ''UNKNOWN type'' (unat (data_type_code dt)))"

text \<open>
  The type byte written before a value keeps the low seven bits of the code
  (\<open>(Byte)dataType_ & DATE_TYPE\<close>) and one flag bit.
\<close>

definition VALUE_TYPE :: byte where "VALUE_TYPE = 0x80"
definition DATE_TYPE :: byte where "DATE_TYPE = 0x7F"

definition type_byte :: "DataType \<Rightarrow> byte" where
  "type_byte dt = ucast (data_type_code dt) AND DATE_TYPE"

lemma data_type_flags:
  "IsIndexType dt \<longleftrightarrow> dt \<notin> {DT_UNKNOWN, DT_BLOB, DT_BOOL, DT_VAL_NULL}"
  "IsFixLength dt \<longleftrightarrow> dt \<notin> {DT_UNKNOWN, DT_VARCHAR, DT_BLOB, DT_VAL_NULL}"
  "IsAutoPrimaryKey dt \<longleftrightarrow>
     dt \<in> {DT_CHAR, DT_SHORT, DT_INT, DT_LONG, DT_BYTE, DT_USHORT, DT_UINT, DT_ULONG}"
  "IsDigital dt \<longleftrightarrow> IsAutoPrimaryKey dt \<or> dt \<in> {DT_FLOAT, DT_DOUBLE, DT_BOOL}"
  "IsArrayType dt \<longleftrightarrow> dt \<in> {DT_FIXCHAR, DT_VARCHAR, DT_BLOB}"
  by (cases dt; simp add: IsIndexType_def IsFixLength_def IsAutoPrimaryKey_def IsDigital_def
      IsArrayType_def dt_flags)+

lemma ValueOfDataType_type_byte:
  "dt \<noteq> DT_VAL_NULL \<Longrightarrow> ValueOfDataType (type_byte dt) = Some dt"
  by (cases dt) (simp_all add: ValueOfDataType_def type_byte_def DATE_TYPE_def arType_def dt_flags)

lemma ValueOfDataType_range:
  "ValueOfDataType b = Some dt \<Longrightarrow> type_byte dt = b"
proof -
  assume "ValueOfDataType b = Some dt"
  then have lt: "unat b < 16" and dt: "dt = arType ! unat b"
    by (auto simp: ValueOfDataType_def arType_def split: if_splits)
  have "list_all (\<lambda>i. unat (type_byte (arType ! i)) = i) [0..<16]"
    by code_simp
  then have "\<forall>i<16. unat (type_byte (arType ! i)) = i" by (simp add: list_all_iff)
  with lt dt have "unat (type_byte dt) = unat b" by simp
  then show "type_byte dt = b" by (simp only: word_unat_eq_iff)
qed

end
