(* ===== verification/Raw_Record.thy ===== *)
theory Raw_Record
  imports Buffer_Words Core_Enums
begin

text \<open>
  Keys and records as bytes: \<open>core/RawKey.h\<close>, \<open>core/RawRecord.h\<close>, the byte layout part of
  \<open>core/LeafRecord.h\<close> and \<open>core/BranchRecord.{h,cpp}\<close>.

  A record is a buffer that starts with its total length and its key length (two 16-bit words),
  followed by the key. A branch record continues with the value (non-unique indexes only, where
  the primary key makes the entry unique) and ends with the 32-bit id of a child page; a leaf
  record of a secondary index continues with the primary key and ends with a 64-bit stamp; a leaf
  record of a primary index has a version byte, the stamp, the value length and the value.

  A pointer to a record inside a page is modelled by the bytes of that record; the null pointer is
  the empty buffer. \<open>CachePool::Apply\<close> returns memory with arbitrary contents, so the operations
  that allocate take it as the argument \<open>alloc\<close>, from sizes to buffers.
\<close>

section \<open>Constants of \<open>header.h\<close> and the configuration\<close>

definition UI16_LEN :: nat where "UI16_LEN = 2"
definition UI32_LEN :: nat where "UI32_LEN = 4"
definition UI64_LEN :: nat where "UI64_LEN = 8"
definition UI16_2_LEN :: nat where "UI16_2_LEN = 4"
definition PAGE_ID_LEN :: nat where "PAGE_ID_LEN = 4"

lemmas len_defs [simp] =
  UI16_LEN_def UI32_LEN_def UI64_LEN_def UI16_2_LEN_def PAGE_ID_LEN_def

definition PAGE_NULL_POINTER :: u32 where "PAGE_NULL_POINTER = 0xFFFFFFFF"
definition TXID_NULL :: u64 where "TXID_NULL = 0xFFFFFFFFFFFFFFFF"

type_synonym alloc = "nat \<Rightarrow> buf"

definition alloc_ok :: "alloc \<Rightarrow> bool" where
  "alloc_ok alloc \<longleftrightarrow> (\<forall>n. length (alloc n) = n)"

lemma alloc_length [simp]: "alloc_ok alloc \<Longrightarrow> length (alloc n) = n"
  by (simp add: alloc_ok_def)

lemma alloc_ok_replicate: "alloc_ok (\<lambda>n. replicate n x)"
  by (simp add: alloc_ok_def)

section \<open>Keys\<close>

record RawKey =
  rk_bysVal :: buf
  rk_length :: u32
  rk_bSole :: bool

definition RawKey_null :: RawKey where
  "RawKey_null = \<lparr>rk_bysVal = [], rk_length = 0, rk_bSole = False\<rparr>"

definition RawKey_wrap :: "buf \<Rightarrow> u32 \<Rightarrow> bool \<Rightarrow> RawKey" where
  "RawKey_wrap bys len sole = \<lparr>rk_bysVal = bys, rk_length = len, rk_bSole = sole\<rparr>"

definition RawKey_copy :: "alloc \<Rightarrow> u32 \<Rightarrow> buf \<Rightarrow> RawKey" where
  "RawKey_copy alloc len bys =
     \<lparr>rk_bysVal = BytesCopy (alloc (unat len)) bys (ucast len), rk_length = len, rk_bSole = True\<rparr>"

text \<open>The move constructor and the move assignment: the new key and what is left of the source.\<close>

definition RawKey_move :: "RawKey \<Rightarrow> RawKey \<times> RawKey" where
  "RawKey_move src =
     (\<lparr>rk_bysVal = rk_bysVal src, rk_length = rk_length src, rk_bSole = rk_bSole src\<rparr>,
      src\<lparr>rk_bysVal := [], rk_length := 0\<rparr>)"

definition RawKey_CompareTo :: "RawKey \<Rightarrow> RawKey \<Rightarrow> int" where
  "RawKey_CompareTo k l =
     BytesCompare (rk_bysVal k) (ucast (rk_length k)) (rk_bysVal l) (ucast (rk_length l))"

definition RawKey_gt :: "RawKey \<Rightarrow> RawKey \<Rightarrow> bool" where
  "RawKey_gt k l \<longleftrightarrow> RawKey_CompareTo k l > 0"

definition RawKey_lt :: "RawKey \<Rightarrow> RawKey \<Rightarrow> bool" where
  "RawKey_lt k l \<longleftrightarrow> RawKey_CompareTo k l < 0"

definition RawKey_ge :: "RawKey \<Rightarrow> RawKey \<Rightarrow> bool" where
  "RawKey_ge k l \<longleftrightarrow> RawKey_CompareTo k l \<ge> 0"

definition RawKey_le :: "RawKey \<Rightarrow> RawKey \<Rightarrow> bool" where
  "RawKey_le k l \<longleftrightarrow> RawKey_CompareTo k l \<le> 0"

definition RawKey_eq :: "RawKey \<Rightarrow> RawKey \<Rightarrow> bool" where
  "RawKey_eq k l \<longleftrightarrow> RawKey_CompareTo k l = 0"

definition RawKey_ne :: "RawKey \<Rightarrow> RawKey \<Rightarrow> bool" where
  "RawKey_ne k l \<longleftrightarrow> RawKey_CompareTo k l \<noteq> 0"

text \<open>The bytes of a key and when its pointer and length agree; a key is at most 2 GB.\<close>

definition key_bytes :: "RawKey \<Rightarrow> buf" where
  "key_bytes k = take (unat (rk_length k)) (rk_bysVal k)"

definition key_ok :: "RawKey \<Rightarrow> bool" where
  "key_ok k \<longleftrightarrow> unat (rk_length k) \<le> length (rk_bysVal k) \<and> unat (rk_length k) < 2 ^ 31"

lemma key_cmp_len: "key_ok k \<Longrightarrow> cmp_len (key_bytes k)"
  by (auto simp: key_ok_def cmp_len_def key_bytes_def)

lemma RawKey_CompareTo_bytes:
  "key_ok k \<Longrightarrow> key_ok l \<Longrightarrow> RawKey_CompareTo k l = bytes_cmp (key_bytes k) (key_bytes l)"
  by (simp add: RawKey_CompareTo_def key_ok_def key_bytes_def BytesCompare_take)

lemma key_bytes_copy:
  "alloc_ok alloc \<Longrightarrow> unat len \<le> length bys \<Longrightarrow>
   key_bytes (RawKey_copy alloc len bys) = take (unat len) bys"
  by (simp add: key_bytes_def RawKey_copy_def BytesCopy_eq)

section \<open>Records\<close>

text \<open>
  The fields of the base class, with the class of the object for its virtual methods. A leaf
  record extends it by its lock and overflow page in \<open>Leaf_Record\<close>.
\<close>

datatype RecClass = BranchClass | LeafClass

record RawRecord =
  rr_class :: RecClass
  rr_bysVal :: buf
  rr_bSole :: bool
  rr_indexType :: IndexType
  rr_bValid :: bool
  rr_bDelete :: bool

definition GetKeyLength :: "'a RawRecord_scheme \<Rightarrow> u16" where
  "GetKeyLength rr = rd UI16_LEN (rr_bysVal rr)"

definition GetTotalLength :: "'a RawRecord_scheme \<Rightarrow> u16" where
  "GetTotalLength rr =
     (case rr_class rr of
        BranchClass \<Rightarrow> rd 0 (rr_bysVal rr)
      | LeafClass \<Rightarrow> if rr_bDelete rr then 0 else rd 0 (rr_bysVal rr))"

text \<open>
  The two virtual lengths of the derived classes. The subtractions are done in \<open>int\<close> and cast to
  \<open>uint16_t\<close>, which is subtraction of 16-bit words.
\<close>

definition GetValueLength :: "'a RawRecord_scheme \<Rightarrow> u16" where
  "GetValueLength rr =
     (let b = rr_bysVal rr in
      case rr_class rr of
        BranchClass \<Rightarrow>
          if rr_indexType rr = NON_UNIQUE
          then rd 0 b - of_nat UI16_2_LEN - of_nat PAGE_ID_LEN - rd UI16_LEN b
          else 0
      | LeafClass \<Rightarrow>
          if rr_indexType rr = PRIMARY
          then ucast (rd (UI16_2_LEN + 1 + unat (rd UI16_LEN b :: u16) + UI64_LEN) b :: u32)
          else rd 0 b - rd UI16_LEN b - of_nat UI16_2_LEN - of_nat UI64_LEN)"

definition GetDataLength :: "'a RawRecord_scheme \<Rightarrow> u16" where
  "GetDataLength rr =
     (case rr_class rr of
        BranchClass \<Rightarrow> rd 0 (rr_bysVal rr) - of_nat UI16_2_LEN - of_nat PAGE_ID_LEN
      | LeafClass \<Rightarrow> rd 0 (rr_bysVal rr) - of_nat UI16_2_LEN - of_nat UI64_LEN)"

definition UpdateBysValue :: "'a RawRecord_scheme \<Rightarrow> buf \<Rightarrow> bool \<Rightarrow> 'a RawRecord_scheme" where
  "UpdateBysValue rr bys sole = rr\<lparr>rr_bysVal := bys, rr_bSole := sole\<rparr>"

definition CompareTo :: "'a RawRecord_scheme \<Rightarrow> 'b RawRecord_scheme \<Rightarrow> int" where
  "CompareTo a b =
     (if rr_indexType a \<noteq> NON_UNIQUE
      then BytesCompare (drop UI16_2_LEN (rr_bysVal a)) (ucast (GetKeyLength a))
             (drop UI16_2_LEN (rr_bysVal b)) (ucast (GetKeyLength b))
      else BytesCompare (drop UI16_2_LEN (rr_bysVal a)) (ucast (GetDataLength a))
             (drop UI16_2_LEN (rr_bysVal b)) (ucast (GetDataLength b)))"

definition CompareKey :: "'a RawRecord_scheme \<Rightarrow> RawKey \<Rightarrow> int" where
  "CompareKey a key =
     BytesCompare (drop UI16_2_LEN (rr_bysVal a)) (ucast (GetKeyLength a))
       (rk_bysVal key) (ucast (rk_length key))"

definition CompareKey_rec :: "'a RawRecord_scheme \<Rightarrow> 'b RawRecord_scheme \<Rightarrow> int" where
  "CompareKey_rec a b =
     BytesCompare (drop UI16_2_LEN (rr_bysVal a)) (ucast (GetKeyLength a))
       (drop UI16_2_LEN (rr_bysVal b)) (ucast (GetKeyLength b))"

text \<open>
  The bytes a record is ordered by: its key, or its key and value when the index is non-unique.
  \<open>rec_fits\<close> says that the declared lengths lie inside the record's buffer.
\<close>

definition rec_key :: "'a RawRecord_scheme \<Rightarrow> buf" where
  "rec_key rr = take (unat (GetKeyLength rr)) (drop UI16_2_LEN (rr_bysVal rr))"

definition rec_data :: "'a RawRecord_scheme \<Rightarrow> buf" where
  "rec_data rr = take (unat (GetDataLength rr)) (drop UI16_2_LEN (rr_bysVal rr))"

definition order_bytes :: "IndexType \<Rightarrow> 'a RawRecord_scheme \<Rightarrow> buf" where
  "order_bytes t rr = (if t \<noteq> NON_UNIQUE then rec_key rr else rec_data rr)"

definition rec_fits :: "'a RawRecord_scheme \<Rightarrow> bool" where
  "rec_fits rr \<longleftrightarrow>
     UI16_2_LEN + unat (GetKeyLength rr) \<le> length (rr_bysVal rr) \<and>
     (rr_indexType rr = NON_UNIQUE \<longrightarrow>
        UI16_2_LEN + unat (GetDataLength rr) \<le> length (rr_bysVal rr))"

lemma u16_cmp_len: "cmp_len (take (unat (w :: u16)) b)"
  using unat_u16_bound [of w] by (simp add: cmp_len_def min_def del: unat_u16_bound)

lemma order_cmp_len [simp]: "cmp_len (rec_key rr)" "cmp_len (rec_data rr)" "cmp_len (order_bytes t rr)"
  by (simp_all add: rec_key_def rec_data_def order_bytes_def u16_cmp_len del: len_defs)

lemma CompareTo_bytes:
  "rec_fits a \<Longrightarrow> rec_fits b \<Longrightarrow> rr_indexType b = rr_indexType a \<Longrightarrow>
   CompareTo a b = bytes_cmp (order_bytes (rr_indexType a) a) (order_bytes (rr_indexType a) b)"
  by (auto simp: CompareTo_def rec_fits_def order_bytes_def rec_key_def rec_data_def
      BytesCompare_take)

lemma CompareKey_bytes:
  "rec_fits a \<Longrightarrow> key_ok k \<Longrightarrow> CompareKey a k = bytes_cmp (rec_key a) (key_bytes k)"
  by (auto simp: CompareKey_def rec_fits_def rec_key_def key_ok_def key_bytes_def BytesCompare_take)

lemma CompareKey_rec_bytes:
  "rec_fits a \<Longrightarrow> rec_fits b \<Longrightarrow> CompareKey_rec a b = bytes_cmp (rec_key a) (rec_key b)"
  by (auto simp: CompareKey_rec_def rec_fits_def rec_key_def BytesCompare_take)

section \<open>Branch records\<close>

text \<open>
  \<open>br_childPage\<close> is the pointer to the child page once it is loaded, as a page handle.
\<close>

type_synonym page_ref = nat

record BranchRecord = RawRecord +
  br_childPage :: "page_ref option"

definition BranchRecord_load :: "IndexType \<Rightarrow> buf \<Rightarrow> page_ref option \<Rightarrow> BranchRecord" where
  "BranchRecord_load type bys childPage =
     \<lparr>rr_class = BranchClass, rr_bysVal = bys, rr_bSole = False, rr_indexType = type,
      rr_bValid = True, rr_bDelete = False, br_childPage = childPage\<rparr>"

text \<open>
  The constructor that makes the entry for \<open>childPageId\<close> from the last record of that page. Reading
  past the source's buffer or writing past the new one (which is sized by the 16-bit total) is out
  of bounds and gives \<open>None\<close>.
\<close>

definition BranchRecord_new ::
    "alloc \<Rightarrow> IndexType \<Rightarrow> 'a RawRecord_scheme \<Rightarrow> u32 \<Rightarrow> page_ref option \<Rightarrow> BranchRecord option" where
  "BranchRecord_new alloc type rec childPageId childPage =
     (let lenKey = GetKeyLength rec;
          lenVal = GetValueLength rec;
          totalLen = lenKey + lenVal + of_nat PAGE_ID_LEN + of_nat UI16_2_LEN;
          n = unat lenKey + unat lenVal;
          b = alloc (unat totalLen)
      in if UI16_2_LEN + n \<le> length (rr_bysVal rec) \<and> n + UI16_2_LEN + PAGE_ID_LEN \<le> length b
         then let b = wr 0 totalLen b;
                  b = wr UI16_LEN lenKey b;
                  b = copy_to UI16_2_LEN b (drop UI16_2_LEN (rr_bysVal rec)) (of_nat n);
                  b = wr (n + UI16_2_LEN) childPageId b
              in Some \<lparr>rr_class = BranchClass, rr_bysVal = b, rr_bSole = True,
                   rr_indexType = type, rr_bValid = True, rr_bDelete = False,
                   br_childPage = childPage\<rparr>
         else None)"

definition BranchRecord_Copy :: "alloc \<Rightarrow> BranchRecord \<Rightarrow> BranchRecord \<Rightarrow> BranchRecord" where
  "BranchRecord_Copy alloc br src =
     (let tlen = GetTotalLength src in
      br\<lparr>rr_bysVal := BytesCopy (alloc (unat tlen)) (rr_bysVal src) (ucast tlen),
         rr_bSole := True, rr_indexType := rr_indexType src\<rparr>)"

definition GetChildPageId :: "BranchRecord \<Rightarrow> u32" where
  "GetChildPageId br = rd (unat (GetTotalLength br) - PAGE_ID_LEN) (rr_bysVal br)"

definition EqualPageId :: "BranchRecord \<Rightarrow> BranchRecord \<Rightarrow> bool" where
  "EqualPageId a b \<longleftrightarrow>
     BytesCompare (drop (unat (GetTotalLength a) - PAGE_ID_LEN) (rr_bysVal a)) (of_nat PAGE_ID_LEN)
       (drop (unat (GetTotalLength b) - PAGE_ID_LEN) (rr_bysVal b)) (of_nat PAGE_ID_LEN) = 0"

text \<open>The bytes of a record as \<open>SaveData\<close> copies them to a page.\<close>

definition rec_image :: "'a RawRecord_scheme \<Rightarrow> buf" where
  "rec_image rr = take (unat (GetTotalLength rr)) (rr_bysVal rr)"

definition branch_ok :: "BranchRecord \<Rightarrow> bool" where
  "branch_ok br \<longleftrightarrow>
     rr_class br = BranchClass \<and>
     unat (GetTotalLength br) \<le> length (rr_bysVal br) \<and>
     UI16_2_LEN + unat (GetKeyLength br) + PAGE_ID_LEN \<le> unat (GetTotalLength br)"

lemma record_image:
  assumes "length b = n + 8" "n \<le> length src" "n < 2 ^ 64"
  shows "wr (n + 4) (pid :: u32) (copy_to 4 (wr 2 (lk :: u16) (wr 0 (tot :: u16) b)) src (of_nat n))
    = store tot @ store lk @ take n src @ store pid"
proof -
  have n: "unat (of_nat n :: u64) = n" using assms(3) by (simp add: unat_of_nat)
  let ?h = "wr 2 lk (wr 0 tot b)"
  have h: "?h = store tot @ store lk @ drop 4 b"
    using assms(1) by (simp add: wr_def patch_def)
  have "copy_to 4 ?h src (of_nat n) = patch 4 (take n src) ?h"
    using assms n by (subst copy_to_patch) (simp_all add: h)
  also have "\<dots> = store tot @ store lk @ take n src @ drop (n + 4) b"
    using assms(1,2) by (simp add: h patch_def min_def add.commute)
  finally have c: "copy_to 4 ?h src (of_nat n) = store tot @ store lk @ take n src @ drop (n + 4) b" .
  show ?thesis
    unfolding c using assms(1,2) by (simp add: wr_def patch_def min_def add.commute)
qed

text \<open>Reading the fields of such an image back.\<close>

lemma image_fields [simp]:
  "rd 0 (store (w :: 'a::len word) @ xs) = w" if "8 dvd LENGTH('a)"
  using that by (simp add: rd_def)

lemma image_second [simp]: "rd 2 (store (tot :: u16) @ store (lk :: u16) @ xs) = lk"
  by (simp add: rd_def)

lemma image_child: "length v = n \<Longrightarrow>
   rd (n + 4) (store (tot :: u16) @ store (lk :: u16) @ v @ store (pid :: u32)) = pid"
  by (simp add: rd_def)

lemma sum_u16: "unat (a :: u16) + unat b + 8 < 65536 \<Longrightarrow> unat (a + b + 4 + 4) = unat a + unat b + 8"
  by (simp add: unat_word_ariths)

text \<open>What the constructor builds from a record whose declared lengths lie inside its buffer.\<close>

definition copied_len :: "'a RawRecord_scheme \<Rightarrow> nat" where
  "copied_len rec = unat (GetKeyLength rec) + unat (GetValueLength rec)"

definition branch_of :: "IndexType \<Rightarrow> 'a RawRecord_scheme \<Rightarrow> u32 \<Rightarrow> page_ref option \<Rightarrow> BranchRecord" where
  "branch_of t rec pid child =
     \<lparr>rr_class = BranchClass,
      rr_bysVal = store (of_nat (copied_len rec + 8) :: u16) @ store (GetKeyLength rec) @
        take (copied_len rec) (drop 4 (rr_bysVal rec)) @ store pid,
      rr_bSole = True, rr_indexType = t, rr_bValid = True, rr_bDelete = False,
      br_childPage = child\<rparr>"

definition source_ok :: "'a RawRecord_scheme \<Rightarrow> bool" where
  "source_ok rec \<longleftrightarrow> 4 + copied_len rec \<le> length (rr_bysVal rec) \<and> copied_len rec + 8 < 65536"

lemma BranchRecord_new_eq:
  assumes al: "alloc_ok alloc" and ok: "source_ok rec"
  shows "BranchRecord_new alloc t rec pid child = Some (branch_of t rec pid child)"
proof -
  let ?n = "copied_len rec"
  let ?tot = "GetKeyLength rec + GetValueLength rec + of_nat PAGE_ID_LEN + of_nat UI16_2_LEN"
  have fit: "4 + ?n \<le> length (rr_bysVal rec)" and small: "?n + 8 < 65536"
    using ok by (auto simp: source_ok_def)
  have t: "unat ?tot = ?n + 8"
    using sum_u16 [of "GetKeyLength rec" "GetValueLength rec"] small
    by (simp add: copied_len_def)
  moreover have "unat (of_nat (?n + 8) :: u16) = ?n + 8"
    using small by (simp only: unat_of_nat) simp
  ultimately have w: "?tot = of_nat (?n + 8)" by (simp only: word_unat_eq_iff)
  have img: "wr (?n + UI16_2_LEN) pid (copy_to UI16_2_LEN (wr UI16_LEN (GetKeyLength rec)
      (wr 0 (of_nat (?n + 8) :: u16) (alloc (?n + 8)))) (drop UI16_2_LEN (rr_bysVal rec)) (of_nat ?n)) =
      store (of_nat (?n + 8) :: u16) @ store (GetKeyLength rec) @
        take ?n (drop 4 (rr_bysVal rec)) @ store pid"
    unfolding len_defs by (rule record_image) (use al fit small in auto)
  have bound: "UI16_2_LEN + ?n \<le> length (rr_bysVal rec) \<and>
      ?n + UI16_2_LEN + PAGE_ID_LEN \<le> length (alloc (?n + 8))"
    using al fit by simp
  show ?thesis
    unfolding BranchRecord_new_def Let_def copied_len_def [symmetric] w t [unfolded w]
      if_P [OF bound] img branch_of_def ..
qed

lemma branch_of_fields [simp]:
  "rr_class (branch_of t rec pid child) = BranchClass"
  "rr_indexType (branch_of t rec pid child) = t"
  "br_childPage (branch_of t rec pid child) = child"
  "rr_bSole (branch_of t rec pid child)"
  by (simp_all add: branch_of_def)

lemma branch_of_lengths:
  assumes "source_ok rec"
  shows "unat (GetTotalLength (branch_of t rec pid child)) = copied_len rec + 8"
    and "GetKeyLength (branch_of t rec pid child) = GetKeyLength rec"
    and "length (rr_bysVal (branch_of t rec pid child)) = copied_len rec + 8"
    and "GetChildPageId (branch_of t rec pid child) = pid"
proof -
  have n: "unat (of_nat (copied_len rec + 8) :: u16) = copied_len rec + 8"
    using assms unfolding source_ok_def by (simp only: unat_of_nat) simp
  have len: "length (take (copied_len rec) (drop 4 (rr_bysVal rec))) = copied_len rec"
    using assms by (auto simp: source_ok_def)
  show t: "unat (GetTotalLength (branch_of t rec pid child)) = copied_len rec + 8"
    using n by (simp add: GetTotalLength_def branch_of_def)
  show "GetKeyLength (branch_of t rec pid child) = GetKeyLength rec"
    by (simp add: GetKeyLength_def branch_of_def)
  show "length (rr_bysVal (branch_of t rec pid child)) = copied_len rec + 8"
    using len by (simp add: branch_of_def)
  show "GetChildPageId (branch_of t rec pid child) = pid"
    unfolding GetChildPageId_def t using image_child [OF len] by (simp add: branch_of_def add.commute)
qed

lemma branch_of_key:
  assumes "source_ok rec" shows "rec_key (branch_of t rec pid child) = rec_key rec"
proof -
  have "unat (GetKeyLength rec) \<le> copied_len rec" by (simp add: copied_len_def)
  then show ?thesis
    using branch_of_lengths(2) [OF assms] assms
    by (auto simp: rec_key_def branch_of_def min_def source_ok_def)
qed

lemma branch_of_data:
  assumes "source_ok rec"
  shows "rec_data (branch_of t rec pid child) = take (copied_len rec) (drop 4 (rr_bysVal rec))"
proof -
  have "unat (GetDataLength (branch_of t rec pid child)) = copied_len rec"
  proof -
    have "unat (of_nat (copied_len rec + 8) - 8 :: u16) = copied_len rec"
      using assms by (simp add: source_ok_def unat_of_nat)
    then show ?thesis by (simp add: GetDataLength_def branch_of_def)
  qed
  then show ?thesis using assms by (auto simp: rec_data_def branch_of_def source_ok_def)
qed

lemma branch_of_ok: "source_ok rec \<Longrightarrow> branch_ok (branch_of t rec pid child)"
  by (simp add: branch_ok_def branch_of_lengths copied_len_def)

end
