(* ===== verification/Page_Search.thy ===== *)
theory Page_Search
  imports Raw_Record
begin

text \<open>
  Binary search over the records of a page. The loops of \<open>BranchPage::SearchRecord\<close>,
  \<open>BranchPage::SearchKey\<close>, \<open>LeafPage::SearchRecord\<close> and the two \<open>LeafPage::SearchKey\<close> have one
  shape: they keep a range \<open>start..end\<close>, compare the middle record and, in a non-unique index, go on
  to the left while the record before it compares equal too. \<open>bsearch\<close> is that loop over a probe
  \<open>hr\<close> (the sign of record \<open>i\<close> against what is searched) and \<open>prev\<close> (whether to go on to the left
  of an equal record); it returns the flag \<open>bFind\<close> and the position.

  The locale \<open>page_search\<close> is the contract between a page and its comparison: the records are
  sorted by an order the comparison respects.
\<close>

section \<open>The search loop\<close>

function bsearch :: "(int \<Rightarrow> int) \<Rightarrow> (int \<Rightarrow> bool) \<Rightarrow> int \<Rightarrow> int \<Rightarrow> bool \<times> int" where
  "bsearch hr prev start ende =
     (if start > ende then (False, start)
      else let middle = (start + ende) div 2 in
        if hr middle < 0 then bsearch hr prev (middle + 1) ende
        else if hr middle > 0 then bsearch hr prev start (middle - 1)
        else if middle > start \<and> prev middle then bsearch hr prev start (middle - 1)
        else (True, middle))"
  by pat_completeness auto
termination
  by (relation "measure (\<lambda>(hr, prev, s, e). nat (e + 1 - s))") auto

declare bsearch.simps [simp del]

definition probe_sorted :: "(int \<Rightarrow> int) \<Rightarrow> int \<Rightarrow> int \<Rightarrow> bool" where
  "probe_sorted hr s e \<longleftrightarrow>
     (\<forall>i j. s \<le> i \<and> i \<le> j \<and> j \<le> e \<longrightarrow> (hr j < 0 \<longrightarrow> hr i < 0) \<and> (hr i > 0 \<longrightarrow> hr j > 0))"

lemma probe_sortedD:
  "probe_sorted hr s e \<Longrightarrow> s \<le> i \<Longrightarrow> i \<le> j \<Longrightarrow> j \<le> e \<Longrightarrow> hr j < 0 \<Longrightarrow> hr i < 0"
  "probe_sorted hr s e \<Longrightarrow> s \<le> i \<Longrightarrow> i \<le> j \<Longrightarrow> j \<le> e \<Longrightarrow> hr i > 0 \<Longrightarrow> hr j > 0"
  by (auto simp: probe_sorted_def)

lemma probe_sorted_sub:
  "probe_sorted hr s e \<Longrightarrow> s \<le> s' \<Longrightarrow> e' \<le> e \<Longrightarrow> probe_sorted hr s' e'"
  unfolding probe_sorted_def by (meson order_trans)

text \<open>
  What the loop returns: an equal record, or the place that separates the smaller records from the
  larger ones. With a \<open>prev\<close> that looks at the record before, an equal record is the first one.
\<close>

definition search_post :: "(int \<Rightarrow> int) \<Rightarrow> int \<Rightarrow> int \<Rightarrow> bool \<times> int \<Rightarrow> bool" where
  "search_post hr s e r \<longleftrightarrow>
     (if fst r then s \<le> snd r \<and> snd r \<le> e \<and> hr (snd r) = 0
      else s \<le> snd r \<and> snd r \<le> e + 1 \<and>
        (\<forall>i. s \<le> i \<and> i < snd r \<longrightarrow> hr i < 0) \<and> (\<forall>i. snd r \<le> i \<and> i \<le> e \<longrightarrow> hr i > 0))"

lemma bsearch_middle:
  fixes s e :: int assumes "s \<le> e" shows "s \<le> (s + e) div 2" "(s + e) div 2 \<le> e"
  using assms by auto

lemma search_post_left:
  assumes "search_post hr (m + 1) e r" "s \<le> m + 1" "\<And>i. s \<le> i \<Longrightarrow> i \<le> m \<Longrightarrow> hr i < 0"
  shows "search_post hr s e r"
proof -
  have "hr i < 0" if "\<not> fst r" "s \<le> i" "i < snd r" for i
    using assms that by (cases "i \<le> m") (auto simp: search_post_def)
  with assms(1,2) show ?thesis by (auto simp: search_post_def split: if_splits)
qed

lemma search_post_right:
  assumes "search_post hr s (m - 1) r" "m \<le> e + 1" "\<And>i. m \<le> i \<Longrightarrow> i \<le> e \<Longrightarrow> hr i > 0"
  shows "search_post hr s e r"
proof -
  have "hr i > 0" if "\<not> fst r" "snd r \<le> i" "i \<le> e" for i
    using assms that by (cases "m \<le> i") (auto simp: search_post_def)
  with assms(1,2) show ?thesis by (auto simp: search_post_def split: if_splits)
qed

lemma search_post_found:
  assumes "search_post hr s e r" "s \<le> i" "i \<le> e" "hr i = 0" shows "fst r"
proof (rule ccontr)
  assume "\<not> fst r"
  then have "i < snd r \<Longrightarrow> hr i < 0" "snd r \<le> i \<Longrightarrow> hr i > 0"
    using assms(1-3) by (auto simp: search_post_def)
  with assms(4) show False by linarith
qed

lemma bsearch_post:
  assumes "probe_sorted hr s e" "s \<le> e + 1"
    and prev: "\<And>m. s < m \<Longrightarrow> m \<le> e \<Longrightarrow> prev m \<Longrightarrow> hr (m - 1) = 0"
  shows "search_post hr s e (bsearch hr prev s e)"
  using assms
proof (induction hr prev s e rule: bsearch.induct)
  case (1 hr prev s e)
  show ?case
  proof (cases "s > e")
    case True
    then show ?thesis using "1.prems"(2) by (simp add: bsearch.simps search_post_def)
  next
    case False
    define m where "m = (s + e) div 2"
    have m: "s \<le> m" "m \<le> e" using False bsearch_middle [of s e] by (auto simp: m_def)
    note srt = probe_sortedD [OF "1.prems"(1)] and sub = probe_sorted_sub [OF "1.prems"(1)]
    have step: "bsearch hr prev s e =
        (if hr m < 0 then bsearch hr prev (m + 1) e
         else if hr m > 0 then bsearch hr prev s (m - 1)
         else if m > s \<and> prev m then bsearch hr prev s (m - 1) else (True, m))"
      using False by (subst bsearch.simps) (simp add: m_def Let_def)
    consider (lt) "hr m < 0" | (gt) "hr m > 0" | (again) "hr m = 0" "m > s" "prev m"
      | (eq) "hr m = 0" "\<not> (m > s \<and> prev m)" by linarith
    then show ?thesis
    proof cases
      case lt
      have "search_post hr (m + 1) e (bsearch hr prev (m + 1) e)"
        by (rule "1.IH"(1) [OF False m_def lt sub]) (use m in \<open>auto intro: "1.prems"(3)\<close>)
      then have "search_post hr s e (bsearch hr prev (m + 1) e)"
        by (rule search_post_left) (use m in \<open>auto intro: srt(1) [OF _ _ m(2) lt]\<close>)
      with lt show ?thesis unfolding step by simp
    next
      case gt
      have "search_post hr s (m - 1) (bsearch hr prev s (m - 1))"
        by (rule "1.IH"(2) [OF False m_def _ gt sub])
          (use m gt in \<open>auto intro: "1.prems"(3)\<close>)
      then have "search_post hr s e (bsearch hr prev s (m - 1))"
        by (rule search_post_right) (use m in \<open>auto intro: srt(2) [OF m(1) _ _ gt]\<close>)
      with gt show ?thesis unfolding step by simp
    next
      case again
      have z: "hr (m - 1) = 0" using again "1.prems"(3) m by auto
      have p: "search_post hr s (m - 1) (bsearch hr prev s (m - 1))"
        by (rule "1.IH"(3) [OF False m_def _ _ _ sub])
          (use m again in \<open>auto intro: "1.prems"(3)\<close>)
      have f: "fst (bsearch hr prev s (m - 1))"
        using search_post_found [OF p _ _ z] again by auto
      have "search_post hr s e (bsearch hr prev s (m - 1))"
        using p m f by (simp add: search_post_def)
      with again show ?thesis unfolding step by simp
    next
      case eq
      then show ?thesis unfolding step using m by (auto simp: search_post_def)
    qed
  qed
qed

text \<open>With a \<open>prev\<close> that tells exactly whether the record before is equal, the first match is found.\<close>

lemma bsearch_first:
  assumes "probe_sorted hr s e" "s \<le> e + 1"
    and prev: "\<And>m. s < m \<Longrightarrow> m \<le> e \<Longrightarrow> prev m \<longleftrightarrow> hr (m - 1) = 0"
    and "bsearch hr prev s e = (True, p)" "s \<le> i" "i < p"
  shows "hr i < 0"
  using assms
proof (induction hr prev s e arbitrary: i rule: bsearch.induct)
  case (1 hr prev s e)
  define m where "m = (s + e) div 2"
  note srt = probe_sortedD [OF "1.prems"(1)] and sub = probe_sorted_sub [OF "1.prems"(1)]
  have False: "\<not> s > e" using "1.prems"(4) by (auto simp: bsearch.simps)
  have m: "s \<le> m" "m \<le> e" using False bsearch_middle [of s e] by (auto simp: m_def)
  have step: "bsearch hr prev s e =
      (if hr m < 0 then bsearch hr prev (m + 1) e
       else if hr m > 0 then bsearch hr prev s (m - 1)
       else if m > s \<and> prev m then bsearch hr prev s (m - 1) else (True, m))"
    using False by (subst bsearch.simps) (simp add: m_def Let_def)
  consider (lt) "hr m < 0" | (gt) "hr m > 0" | (again) "hr m = 0" "m > s" "prev m"
    | (eq) "hr m = 0" "\<not> (m > s \<and> prev m)" by linarith
  then show ?case
  proof cases
    case lt
    show ?thesis
    proof (cases "i \<le> m")
      case True
      then show ?thesis using srt(1) [of i m] lt m "1.prems"(5) by auto
    next
      case False
      have "bsearch hr prev (m + 1) e = (True, p)" using lt step "1.prems"(4) by simp
      from "1.IH"(1) [OF \<open>\<not> s > e\<close> m_def lt sub _ _ this, of i]
      show ?thesis using False m "1.prems"(3,6) by auto
    qed
  next
    case gt
    have "bsearch hr prev s (m - 1) = (True, p)" using gt step "1.prems"(4) by simp
    from "1.IH"(2) [OF False m_def _ gt sub _ _ this, of i]
    show ?thesis using gt m "1.prems"(3,5,6) by auto
  next
    case again
    have "bsearch hr prev s (m - 1) = (True, p)" using again step "1.prems"(4) by simp
    from "1.IH"(3) [OF False m_def _ _ _ sub _ _ this, of i]
    show ?thesis using again m "1.prems"(3,5,6) by auto
  next
    case eq
    then have "p = m" using step "1.prems"(4) by auto
    with "1.prems"(5,6) m eq have "\<not> prev m" "s < m" by auto
    then have nz: "hr (m - 1) \<noteq> 0" using "1.prems"(3) [of m] m by auto
    then have "hr (m - 1) < 0" using srt(2) [of "m - 1" m] \<open>s < m\<close> m eq by force
    then show ?thesis using srt(1) [of i "m - 1"] "1.prems"(5,6) \<open>p = m\<close> m by auto
  qed
qed

section \<open>The contract between a page and its comparison\<close>

text \<open>
  \<open>cmp r k\<close> is the comparison of record \<open>r\<close> with the searched \<open>k\<close>, \<open>before\<close> the order the page is
  sorted by, \<open>okr\<close> and \<open>okk\<close> the well-formed records and keys.
\<close>

definition probe :: "('r \<Rightarrow> 'k \<Rightarrow> int) \<Rightarrow> 'r list \<Rightarrow> 'k \<Rightarrow> int \<Rightarrow> int" where
  "probe cmp rs k i = cmp (rs ! nat i) k"

text \<open>
  Branch pages and the ranges of a tree send what they look for to one of their entries: to the one that the
  search returns, or to the last one when all entries are smaller. \<open>routes\<close> says that \<open>pos\<close> is the right
  entry: the first one that is not smaller, or else the last one.
\<close>

definition route :: "(int \<Rightarrow> int) \<Rightarrow> (int \<Rightarrow> bool) \<Rightarrow> int \<Rightarrow> int" where
  "route hr prev n =
     (let (found, start) = bsearch hr prev 0 (n - 1)
      in if found then start else if start \<ge> n then n - 1 else start)"

definition routes :: "('r \<Rightarrow> 'k \<Rightarrow> int) \<Rightarrow> 'r list \<Rightarrow> 'k \<Rightarrow> int \<Rightarrow> bool" where
  "routes cmp rs k pos \<longleftrightarrow> 0 \<le> pos \<and> pos < int (length rs) \<and> (\<forall>r \<in> set (take (nat pos) rs). cmp r k < 0) \<and>
     (cmp (rs ! nat pos) k \<ge> 0 \<or> pos = int (length rs) - 1 \<and> (\<forall>r \<in> set rs. cmp r k < 0))"

locale page_search =
  fixes cmp :: "'r \<Rightarrow> 'k \<Rightarrow> int" and before :: "'r \<Rightarrow> 'r \<Rightarrow> bool"
    and okr :: "'r \<Rightarrow> bool" and okk :: "'k \<Rightarrow> bool"
  assumes cmp_down: "okr r \<Longrightarrow> okr s \<Longrightarrow> okk k \<Longrightarrow> before r s \<Longrightarrow> cmp s k < 0 \<Longrightarrow> cmp r k < 0"
    and cmp_up: "okr r \<Longrightarrow> okr s \<Longrightarrow> okk k \<Longrightarrow> before r s \<Longrightarrow> cmp r k > 0 \<Longrightarrow> cmp s k > 0"
begin

lemma probe_sorted_records:
  assumes "sorted_wrt before rs" "\<forall>r \<in> set rs. okr r" "okk k" "0 \<le> s" "e < int (length rs)"
  shows "probe_sorted (probe cmp rs k) s e"
  unfolding probe_sorted_def probe_def
proof (intro allI impI)
  fix i j assume ij: "s \<le> i \<and> i \<le> j \<and> j \<le> e"
  show "(cmp (rs ! nat j) k < 0 \<longrightarrow> cmp (rs ! nat i) k < 0) \<and>
      (0 < cmp (rs ! nat i) k \<longrightarrow> 0 < cmp (rs ! nat j) k)"
  proof (cases "i = j")
    case False
    with ij assms have n: "nat i < nat j" "nat j < length rs" by auto
    then have "before (rs ! nat i) (rs ! nat j)" "okr (rs ! nat i)" "okr (rs ! nat j)"
      using assms(1,2) by (auto simp: sorted_wrt_nth_less)
    with assms(3) show ?thesis using cmp_down cmp_up by blast
  qed simp
qed

lemma search_records:
  assumes "sorted_wrt before rs" "\<forall>r \<in> set rs. okr r" "okk k" "0 \<le> s" "e < int (length rs)"
    and "s \<le> e + 1" "\<And>m. prev m \<Longrightarrow> probe cmp rs k (m - 1) = 0"
  shows "search_post (probe cmp rs k) s e (bsearch (probe cmp rs k) prev s e)"
  by (rule bsearch_post [OF probe_sorted_records]) (use assms in auto)

text \<open>Searching a whole page: the flag tells whether the key is there, the position splits the page.\<close>

lemma search_whole:
  assumes "sorted_wrt before rs" "\<forall>r \<in> set rs. okr r" "okk k"
    and "\<And>m. prev m \<Longrightarrow> probe cmp rs k (m - 1) = 0"
    and res: "bsearch (probe cmp rs k) prev 0 (int (length rs) - 1) = (found, p)"
  shows "found \<longleftrightarrow> (\<exists>r \<in> set rs. cmp r k = 0)"
    and "found \<Longrightarrow> 0 \<le> p \<and> p < int (length rs) \<and> cmp (rs ! nat p) k = 0"
    and "\<not> found \<Longrightarrow> 0 \<le> p \<and> p \<le> int (length rs) \<and>
           (\<forall>r \<in> set (take (nat p) rs). cmp r k < 0) \<and> (\<forall>r \<in> set (drop (nat p) rs). cmp r k > 0)"
proof -
  have post: "search_post (probe cmp rs k) 0 (int (length rs) - 1) (found, p)"
    unfolding res [symmetric] by (rule search_records) (use assms in auto)
  show f: "found \<Longrightarrow> 0 \<le> p \<and> p < int (length rs) \<and> cmp (rs ! nat p) k = 0"
    using post by (auto simp: search_post_def probe_def)
  have lo: "probe cmp rs k (int i) < 0" if "\<not> found" "int i < p" for i
    using post that by (auto simp: search_post_def)
  have hi: "probe cmp rs k (int i) > 0" if "\<not> found" "p \<le> int i" "i < length rs" for i
    using post that by (auto simp: search_post_def)
  have p: "0 \<le> p" "p \<le> int (length rs)" if "\<not> found"
    using post that by (auto simp: search_post_def)
  show nf: "\<not> found \<Longrightarrow> 0 \<le> p \<and> p \<le> int (length rs) \<and>
      (\<forall>r \<in> set (take (nat p) rs). cmp r k < 0) \<and> (\<forall>r \<in> set (drop (nat p) rs). cmp r k > 0)"
  proof (intro conjI ballI)
    fix r assume nf: "\<not> found" and "r \<in> set (take (nat p) rs)"
    then obtain i where i: "i < nat p" "i < length rs" "r = rs ! i"
      by (auto simp: in_set_conv_nth)
    then show "cmp r k < 0" using lo [of i] nf by (simp add: probe_def)
  next
    fix r assume nf: "\<not> found" and "r \<in> set (drop (nat p) rs)"
    then obtain i where "i < length rs - nat p" "r = rs ! (nat p + i)"
      using p by (auto simp: in_set_conv_nth)
    then show "cmp r k > 0" using hi [of "nat p + i"] nf p by (simp add: probe_def nat_add_distrib)
  qed (use p in auto)
  have "\<not> (\<exists>r \<in> set rs. cmp r k = 0)" if "\<not> found"
  proof -
    have "set rs = set (take (nat p) rs) \<union> set (drop (nat p) rs)"
      by (metis append_take_drop_id set_append)
    then show ?thesis using nf that by force
  qed
  then show "found \<longleftrightarrow> (\<exists>r \<in> set rs. cmp r k = 0)"
    using f by (metis int_nat_eq nat_less_iff nth_mem)
qed

text \<open>In a non-unique index the search that looks at the record before finds the first match.\<close>

lemma search_first:
  assumes "sorted_wrt before rs" "\<forall>r \<in> set rs. okr r" "okk k"
    and prev: "\<And>m. prev m \<longleftrightarrow> probe cmp rs k (m - 1) = 0"
    and res: "bsearch (probe cmp rs k) prev 0 (int (length rs) - 1) = (True, p)"
  shows "\<forall>r \<in> set (take (nat p) rs). cmp r k < 0"
proof
  fix r assume "r \<in> set (take (nat p) rs)"
  then obtain i where i: "i < nat p" "i < length rs" "r = rs ! i"
    by (auto simp: in_set_conv_nth)
  have "probe cmp rs k (int i) < 0"
    by (rule bsearch_first [OF probe_sorted_records [OF assms(1-3)] _ _ res]) (use prev i in auto)
  with i show "cmp r k < 0" by (simp add: probe_def)
qed

text \<open>
  Two ways to know that an equal entry is the first one: no two entries are equal to the searched key, or
  the search looks at the entry before.
\<close>

lemma route_routes:
  assumes "sorted_wrt before rs" "\<forall>r \<in> set rs. okr r" "okk k" "rs \<noteq> []"
    and prev: "\<And>m. prev m \<Longrightarrow> probe cmp rs k (m - 1) = 0"
    and first: "(\<forall>i j. i < j \<and> j < length rs \<and> cmp (rs ! j) k \<le> 0 \<longrightarrow> cmp (rs ! i) k < 0) \<or>
      (\<forall>m. prev m \<longleftrightarrow> probe cmp rs k (m - 1) = 0)"
  shows "routes cmp rs k (route (probe cmp rs k) prev (int (length rs)))"
proof -
  obtain f s where res: "bsearch (probe cmp rs k) prev 0 (int (length rs) - 1) = (f, s)" by fastforce
  note srch = search_whole [OF assms(1-3) prev res, simplified]
  have pos: "route (probe cmp rs k) prev (int (length rs)) = (if f then s else if s \<ge> int (length rs) then int (length rs) - 1 else s)"
    using res by (simp add: route_def)
  consider (found) f | (inside) "\<not> f" "s < int (length rs)" | (beyond) "\<not> f" "s \<ge> int (length rs)" by linarith
  then show ?thesis
  proof cases
    case found
    then have at: "0 \<le> s" "s < int (length rs)" "cmp (rs ! nat s) k = 0" using srch(2) by auto
    have "\<forall>r \<in> set (take (nat s) rs). cmp r k < 0"
      using first
    proof
      assume "\<forall>i j. i < j \<and> j < length rs \<and> cmp (rs ! j) k \<le> 0 \<longrightarrow> cmp (rs ! i) k < 0"
      then show ?thesis using at by (fastforce simp: in_set_conv_nth)
    next
      assume exact: "\<forall>m. prev m \<longleftrightarrow> probe cmp rs k (m - 1) = 0"
      show ?thesis by (rule search_first [OF assms(1-3), of prev]) (use exact res found in auto)
    qed
    then show ?thesis using at found by (simp add: pos routes_def)
  next
    case inside
    then have "0 \<le> s" "nat s < length rs" using srch(3) by auto
    then have "rs ! nat s \<in> set (drop (nat s) rs)" by (auto simp: in_set_conv_nth intro!: exI [of _ 0])
    then have "cmp (rs ! nat s) k > 0" using srch(3) inside by blast
    then show ?thesis using srch(3) inside by (simp add: pos routes_def)
  next
    case beyond
    then have "\<forall>r \<in> set rs. cmp r k < 0" using srch(3) by simp
    then show ?thesis using beyond assms(4) by (auto simp: pos routes_def Suc_le_eq dest: in_set_takeD)
  qed
qed

end

section \<open>The records of an index page satisfy the contract\<close>

text \<open>
  \<open>rec_cmp\<close> is the comparison chosen by \<open>bUnique\<close> in \<open>SearchRecord\<close>; pages are sorted by
  \<open>rec_before\<close>. A search by key alone in a non-unique index also needs that no key is a proper
  prefix of another one (\<open>key_before\<close>): then the order of key and value respects the key.
\<close>

definition rec_cmp :: "IndexType \<Rightarrow> 'a RawRecord_scheme \<Rightarrow> 'b RawRecord_scheme \<Rightarrow> int" where
  "rec_cmp t a b = (if t \<noteq> NON_UNIQUE then CompareKey_rec a b else CompareTo a b)"

definition rec_wf :: "IndexType \<Rightarrow> 'a RawRecord_scheme \<Rightarrow> bool" where
  "rec_wf t r \<longleftrightarrow> rec_fits r \<and> rr_indexType r = t"

definition rec_before :: "IndexType \<Rightarrow> 'a RawRecord_scheme \<Rightarrow> 'a RawRecord_scheme \<Rightarrow> bool" where
  "rec_before t a b \<longleftrightarrow> lexcmp (order_bytes t a) (order_bytes t b) < 0"

definition key_before :: "'a RawRecord_scheme \<Rightarrow> 'a RawRecord_scheme \<Rightarrow> bool" where
  "key_before a b \<longleftrightarrow> lexcmp (rec_key a) (rec_key b) \<le> 0"

lemma rec_cmp_bytes:
  "rec_wf t a \<Longrightarrow> rec_wf t b \<Longrightarrow> rec_cmp t a b = bytes_cmp (order_bytes t a) (order_bytes t b)"
  by (auto simp: rec_cmp_def rec_wf_def CompareTo_bytes CompareKey_rec_bytes order_bytes_def)

interpretation by_record: page_search "rec_cmp t" "rec_before t" "rec_wf t" "rec_wf t" for t
proof
  fix r s :: "'a RawRecord_scheme" and k :: "'b RawRecord_scheme"
  assume ok: "rec_wf t r" "rec_wf t s" "rec_wf t k" and "rec_before t r s"
  then have lt: "bytes_cmp (order_bytes t r) (order_bytes t s) < 0"
    by (simp add: rec_before_def bytes_cmp_iffs)
  show "rec_cmp t s k < 0 \<Longrightarrow> rec_cmp t r k < 0"
    using ok kcmp.cmp_less_le_trans [OF _ _ _ lt, of "order_bytes t k"] by (simp add: rec_cmp_bytes)
  show "rec_cmp t r k > 0 \<Longrightarrow> rec_cmp t s k > 0"
    using ok kcmp.cmp_le_less_trans [of "order_bytes t k" "order_bytes t r" "order_bytes t s"] lt
      kcmp.cmp_swap [of "order_bytes t r" "order_bytes t k"]
      kcmp.cmp_swap [of "order_bytes t s" "order_bytes t k"]
    by (simp add: rec_cmp_bytes)
qed

interpretation by_key: page_search CompareKey key_before rec_fits key_ok
proof
  fix r s :: "'a RawRecord_scheme" and k
  assume ok: "rec_fits r" "rec_fits s" "key_ok k" and "key_before r s"
  then have le: "bytes_cmp (rec_key r) (rec_key s) \<le> 0"
    by (simp add: key_before_def bytes_cmp_iffs)
  have len: "cmp_len (key_bytes k)" using ok by (simp add: key_cmp_len)
  show "CompareKey s k < 0 \<Longrightarrow> CompareKey r k < 0"
    using ok len kcmp.cmp_le_less_trans [OF _ _ _ le, of "key_bytes k"] by (simp add: CompareKey_bytes)
  show "CompareKey r k > 0 \<Longrightarrow> CompareKey s k > 0"
    using ok len kcmp.cmp_less_le_trans [of "key_bytes k" "rec_key r" "rec_key s"] le
      kcmp.cmp_swap [of "rec_key r" "key_bytes k"] kcmp.cmp_swap [of "rec_key s" "key_bytes k"]
    by (simp add: CompareKey_bytes)
qed

end
