(* ===== verification/Page_Layout.thy ===== *)
theory Page_Layout
  imports Page_Search
begin

text \<open>
  The layout of records in an index page. After the page header comes a table of 16-bit offsets,
  one per record, and after the table the records themselves, in order. \<open>save_slots\<close> is the loop of
  \<open>BranchPage::SaveRecords\<close> and \<open>LeafPage::SaveRecords\<close> that fills both, \<open>load_slots\<close> the loop of
  the two \<open>LoadRecords\<close>. The lemmas say that loading gives back what was saved, and that the loop
  touches nothing outside the table and the record area.
\<close>

text \<open>
  \<open>save_slots\<close> returns the records too: each one is left pointing at its copy in the page
  (\<open>UpdateBysValue\<close>), and gives up its own buffer.
\<close>

fun save_slots ::
    "'a RawRecord_scheme list \<Rightarrow> u16 \<Rightarrow> u16 \<Rightarrow> buf \<Rightarrow> 'a RawRecord_scheme list \<times> buf" where
  "save_slots [] off_pos rec_pos page = ([], page)"
| "save_slots (rr # rrs) off_pos rec_pos page =
     (let page = wr (unat off_pos) rec_pos page;
          sz = GetTotalLength rr;
          page = copy_to (unat rec_pos) page (rr_bysVal rr) (ucast sz);
          rr' = UpdateBysValue rr (bslice (unat rec_pos) (unat sz) page) False;
          (rrs', page') = save_slots rrs (off_pos + of_nat UI16_LEN) (rec_pos + sz) page
      in (rr' # rrs', page'))"

fun load_slots :: "nat \<Rightarrow> u16 \<Rightarrow> buf \<Rightarrow> buf list" where
  "load_slots 0 pos page = []"
| "load_slots (Suc n) pos page =
     (let b = drop (unat (rd (unat pos) page :: u16)) page
      in take (unat (rd 0 b :: u16)) b # load_slots n (pos + 2) page)"

text \<open>A record whose buffer holds at least the bytes its total length says.\<close>

definition slot_ok :: "'a RawRecord_scheme \<Rightarrow> bool" where
  "slot_ok rr \<longleftrightarrow> (rd 0 (rr_bysVal rr) :: u16) = GetTotalLength rr \<and>
     2 \<le> unat (GetTotalLength rr) \<and> unat (GetTotalLength rr) \<le> length (rr_bysVal rr)"

abbreviation rec_size :: "'a RawRecord_scheme \<Rightarrow> nat" where
  "rec_size rr \<equiv> unat (GetTotalLength rr)"

abbreviation recs_size :: "'a RawRecord_scheme list \<Rightarrow> nat" where
  "recs_size rrs \<equiv> sum_list (map rec_size rrs)"

definition slots_fit :: "'a RawRecord_scheme list \<Rightarrow> u16 \<Rightarrow> u16 \<Rightarrow> buf \<Rightarrow> bool" where
  "slots_fit rrs off pos page \<longleftrightarrow>
     length page < 65536 \<and> unat off + 2 * length rrs \<le> unat pos \<and>
     unat pos + recs_size rrs \<le> length page \<and> (\<forall>rr \<in> set rrs. slot_ok rr)"

lemma unat_add_u16: "unat (a :: u16) + n < 65536 \<Longrightarrow> unat (a + of_nat n) = unat a + n"
  by (simp add: unat_word_ariths unat_of_nat)

lemma unat_add_u16': "unat (a :: u16) + unat b < 65536 \<Longrightarrow> unat (a + b) = unat a + unat b"
  by (simp add: unat_word_ariths)

text \<open>One step of the loop: where the next slot and record go, and the page after the two writes.\<close>

definition slot_step :: "'a RawRecord_scheme \<Rightarrow> u16 \<Rightarrow> u16 \<Rightarrow> buf \<Rightarrow> buf" where
  "slot_step rr off pos page =
     patch (unat pos) (rec_image rr) (patch (unat off) (store pos) page)"

lemma slots_fit_Cons:
  assumes "slots_fit (rr # rrs) off pos page"
  shows "slot_ok rr" "unat off + 2 \<le> unat pos" "unat pos + rec_size rr \<le> length page"
    and "unat (off + 2) = unat off + 2" "unat (pos + GetTotalLength rr) = unat pos + rec_size rr"
    and "length (rec_image rr) = rec_size rr"
    and "copy_to (unat pos) (wr (unat off) pos page) (rr_bysVal rr) (ucast (GetTotalLength rr))
           = slot_step rr off pos page"
    and "length (slot_step rr off pos page) = length page"
    and "slots_fit rrs (off + 2) (pos + GetTotalLength rr) (slot_step rr off pos page)"
proof -
  note fit = assms [unfolded slots_fit_def]
  show ok: "slot_ok rr" and le: "unat off + 2 \<le> unat pos"
    and pos: "unat pos + rec_size rr \<le> length page"
    using fit by auto
  show o2: "unat (off + 2) = unat off + 2"
    using unat_add_u16 [of off 2] fit by simp
  show p2: "unat (pos + GetTotalLength rr) = unat pos + rec_size rr"
    by (rule unat_add_u16') (use fit in auto)
  show len: "length (rec_image rr) = rec_size rr"
    using ok by (simp add: rec_image_def slot_ok_def)
  show "copy_to (unat pos) (wr (unat off) pos page) (rr_bysVal rr) (ucast (GetTotalLength rr))
      = slot_step rr off pos page"
    using ok le pos by (simp add: copy_to_patch slot_ok_def slot_step_def rec_image_def wr_def)
  show l: "length (slot_step rr off pos page) = length page"
    using le pos len by (simp add: slot_step_def)
  show "slots_fit rrs (off + 2) (pos + GetTotalLength rr) (slot_step rr off pos page)"
    using fit by (simp add: slots_fit_def l o2 p2)
qed

lemma save_slots_Cons:
  assumes "slots_fit (rr # rrs) off pos page"
  shows "save_slots (rr # rrs) off pos page =
    (let (rrs', page') = save_slots rrs (off + 2) (pos + GetTotalLength rr) (slot_step rr off pos page)
     in (UpdateBysValue rr (rec_image rr) False # rrs', page'))"
proof -
  note c = slots_fit_Cons [OF assms]
  have "bslice (unat pos) (rec_size rr) (slot_step rr off pos page) = rec_image rr"
    using c(2,3,6) by (simp add: slot_step_def bslice_patch_same)
  then show ?thesis by (simp add: Let_def c(7))
qed

lemma bslice_slot_step:
  assumes "slots_fit (rr # rrs) off pos page" "x + m \<le> length page"
    and "x + m \<le> unat off \<or> unat off + 2 \<le> x" "x + m \<le> unat pos \<or> unat pos + rec_size rr \<le> x"
  shows "bslice x m (slot_step rr off pos page) = bslice x m page"
  using assms(2-) slots_fit_Cons [OF assms(1)]
  by (simp add: slot_step_def bslice_patch_other)

text \<open>The loop keeps the length of the page and everything outside the two areas.\<close>

lemma save_slots_length:
  "slots_fit rrs off pos page \<Longrightarrow> length (snd (save_slots rrs off pos page)) = length page"
proof (induction rrs arbitrary: off pos page)
  case (Cons rr rrs)
  then show ?case
    using slots_fit_Cons [OF Cons.prems] by (simp add: save_slots_Cons split_def Let_def del: save_slots.simps)
qed simp

lemma save_slots_frame:
  "slots_fit rrs off pos page \<Longrightarrow> x + m \<le> length page \<Longrightarrow>
   x + m \<le> unat off \<or> unat off + 2 * length rrs \<le> x \<Longrightarrow>
   x + m \<le> unat pos \<or> unat pos + recs_size rrs \<le> x \<Longrightarrow>
   bslice x m (snd (save_slots rrs off pos page)) = bslice x m page"
proof (induction rrs arbitrary: off pos page)
  case (Cons rr rrs)
  note c = slots_fit_Cons [OF Cons.prems(1)]
  have "bslice x m (snd (save_slots rrs (off + 2) (pos + GetTotalLength rr) (slot_step rr off pos page)))
      = bslice x m (slot_step rr off pos page)"
    by (rule Cons.IH [OF c(9)]) (use Cons.prems c(4,5,8) in auto)
  also have "\<dots> = bslice x m page"
    by (rule bslice_slot_step [OF Cons.prems(1)]) (use Cons.prems in auto)
  finally show ?case
    by (simp add: save_slots_Cons [OF Cons.prems(1)] split_def Let_def del: save_slots.simps)
qed simp

lemma save_slots_records:
  "slots_fit rrs off pos page \<Longrightarrow>
   fst (save_slots rrs off pos page) = map (\<lambda>rr. UpdateBysValue rr (rec_image rr) False) rrs"
proof (induction rrs arbitrary: off pos page)
  case (Cons rr rrs)
  then show ?case
    using slots_fit_Cons(9) [OF Cons.prems]
    by (simp add: save_slots_Cons split_def Let_def del: save_slots.simps)
qed simp

lemma rec_image_total: "slot_ok rr \<Longrightarrow> (rd 0 (rec_image rr) :: u16) = GetTotalLength rr"
  by (simp add: rec_image_def rd_take slot_ok_def)

text \<open>
  Loading the page gives back the images of the saved records, in order, also after bytes outside
  the two areas have been written.
\<close>

definition same_area :: "nat \<Rightarrow> nat \<Rightarrow> buf \<Rightarrow> buf \<Rightarrow> bool" where
  "same_area lo hi p q \<longleftrightarrow> (\<forall>x m. lo \<le> x \<and> x + m \<le> hi \<longrightarrow> bslice x m q = bslice x m p)"

lemma same_area_refl: "same_area lo hi p p"
  by (simp add: same_area_def)

lemma same_area_patch:
  assumes "same_area lo hi p q" "off + length xs \<le> length q" "hi \<le> length q"
    and "off + length xs \<le> lo \<or> hi \<le> off"
  shows "same_area lo hi p (patch off xs q)"
  unfolding same_area_def
proof (intro allI impI)
  fix x m assume x: "lo \<le> x \<and> x + m \<le> hi"
  have "bslice x m (patch off xs q) = bslice x m q"
    by (rule bslice_patch_other) (use assms x in auto)
  also have "\<dots> = bslice x m p" using assms(1) x by (simp add: same_area_def)
  finally show "bslice x m (patch off xs q) = bslice x m p" .
qed

lemma same_area_wr:
  "same_area lo hi p q \<Longrightarrow> off + LENGTH('a::len) div 8 \<le> length q \<Longrightarrow> hi \<le> length q \<Longrightarrow>
   off + LENGTH('a) div 8 \<le> lo \<or> hi \<le> off \<Longrightarrow> same_area lo hi p (wr off (w :: 'a word) q)"
  unfolding wr_def by (rule same_area_patch) simp_all

lemma load_saved:
  "slots_fit rrs off pos page \<Longrightarrow>
   same_area (unat off) (unat pos + recs_size rrs) (snd (save_slots rrs off pos page)) q \<Longrightarrow>
   load_slots (length rrs) off q = map rec_image rrs"
proof (induction rrs arbitrary: off pos page)
  case (Cons rr rrs)
  note c = slots_fit_Cons [OF Cons.prems(1)]
  define p1 where "p1 = slot_step rr off pos page"
  define p2 where "p2 = snd (save_slots rrs (off + 2) (pos + GetTotalLength rr) p1)"
  have sv: "snd (save_slots (rr # rrs) off pos page) = p2"
    by (simp add: save_slots_Cons [OF Cons.prems(1)] split_def Let_def p2_def p1_def del: save_slots.simps)
  have q: "bslice x m q = bslice x m p2" if "unat off \<le> x" "x + m \<le> unat pos + recs_size (rr # rrs)" for x m
    using Cons.prems(2) that by (simp add: sv same_area_def del: save_slots.simps)
  have fr: "bslice x m q = bslice x m p1"
    if "unat off \<le> x" "x + m \<le> unat off + 2 \<or> unat pos \<le> x" "x + m \<le> unat pos + rec_size rr" for x m
  proof -
    have "bslice x m p2 = bslice x m p1"
      unfolding p2_def p1_def
      by (rule save_slots_frame [OF c(9)]) (use that c Cons.prems in \<open>auto simp: slots_fit_def\<close>)
    moreover have "bslice x m q = bslice x m p2" by (rule q) (use that in auto)
    ultimately show ?thesis by simp
  qed
  have slot: "(rd (unat off) q :: u16) = pos"
  proof -
    have "bslice (unat off) 2 q = bslice (unat off) 2 p1"
      by (rule fr) (use c in auto)
    also have "\<dots> = store pos"
      using c(2,3,6) by (simp add: p1_def slot_step_def bslice_patch_other bslice_patch_same)
    finally show ?thesis by (simp add: load_bslice)
  qed
  have img: "bslice (unat pos) (rec_size rr) q = rec_image rr"
  proof -
    have "bslice (unat pos) (rec_size rr) q = bslice (unat pos) (rec_size rr) p1"
      by (rule fr) (use c in auto)
    also have "\<dots> = rec_image rr"
      using c(2,3,6) by (simp add: p1_def slot_step_def bslice_patch_same)
    finally show ?thesis .
  qed
  have tot: "(rd 0 (drop (unat pos) q) :: u16) = GetTotalLength rr"
  proof -
    have "take 2 (drop (unat pos) q) = take 2 (bslice (unat pos) (rec_size rr) q)"
      using c(1) by (simp add: bslice_def slot_ok_def min_def)
    then have "(rd 0 (drop (unat pos) q) :: u16) = rd 0 (rec_image rr)"
      by (simp add: img rd_def load_def)
    then show ?thesis using rec_image_total [OF c(1)] by simp
  qed
  have "same_area (unat (off + 2)) (unat (pos + GetTotalLength rr) + recs_size rrs) p2 q"
    unfolding same_area_def using q c(4,5) by simp
  then have "load_slots (length rrs) (off + 2) q = map rec_image rrs"
    unfolding p2_def p1_def by (rule Cons.IH [OF c(9)])
  then show ?case
    using img by (simp add: Let_def slot tot bslice_def)
qed simp

end
