(* ===== verification/Index_Page.thy ===== *)
theory Index_Page
  imports Page_Layout
begin

text \<open>
  The state and operations shared by the pages of an index: \<open>core/CachePage.h\<close> and
  \<open>core/IndexPage.{h,cpp}\<close>. A page is a record with the fields of the classes; a pointer to another
  page is a page handle (\<open>page_ref\<close>), and what an operation reads through it is an argument. The
  CRC-32 of the page is computed by a library and is the argument \<open>crc32\<close>.
\<close>

definition INDEX_PAGE_SIZE :: nat where "INDEX_PAGE_SIZE = 16384"
definition HEAD_PAGE_SIZE :: nat where "HEAD_PAGE_SIZE = 4096"
definition CRC32_INDEX_OFFSET :: nat where "CRC32_INDEX_OFFSET = INDEX_PAGE_SIZE - 4"
definition CRC32_HEAD_OFFSET :: nat where "CRC32_HEAD_OFFSET = HEAD_PAGE_SIZE - 4"

definition PAGE_LEVEL_OFFSET :: nat where "PAGE_LEVEL_OFFSET = 0"
definition PAGE_BEGIN_END_OFFSET :: nat where "PAGE_BEGIN_END_OFFSET = 1"
definition NUM_RECORD_OFFSET :: nat where "NUM_RECORD_OFFSET = 4"
definition TOTAL_DATA_LENGTH_OFFSET :: nat where "TOTAL_DATA_LENGTH_OFFSET = 6"
definition PARENT_PAGE_POINTER_OFFSET :: nat where "PARENT_PAGE_POINTER_OFFSET = 8"
definition BRANCH_DATA_BEGIN_OFFSET :: nat where "BRANCH_DATA_BEGIN_OFFSET = 12"
definition PREV_PAGE_POINTER_OFFSET :: nat where "PREV_PAGE_POINTER_OFFSET = 12"
definition NEXT_PAGE_POINTER_OFFSET :: nat where "NEXT_PAGE_POINTER_OFFSET = 16"
definition LEAF_DATA_BEGIN_OFFSET :: nat where "LEAF_DATA_BEGIN_OFFSET = 20"

definition LOAD_FACTOR :: nat where "LOAD_FACTOR = 90"
definition LOAD_THRESHOLD :: nat where "LOAD_THRESHOLD = INDEX_PAGE_SIZE * 5"
definition MAX_DATA_LENGTH_LEAF :: nat where
  "MAX_DATA_LENGTH_LEAF = INDEX_PAGE_SIZE - LEAF_DATA_BEGIN_OFFSET - UI32_LEN"
definition MAX_DATA_LENGTH_BRANCH :: nat where
  "MAX_DATA_LENGTH_BRANCH = INDEX_PAGE_SIZE - BRANCH_DATA_BEGIN_OFFSET - 4"

lemmas page_consts =
  INDEX_PAGE_SIZE_def HEAD_PAGE_SIZE_def CRC32_INDEX_OFFSET_def CRC32_HEAD_OFFSET_def
  PAGE_LEVEL_OFFSET_def PAGE_BEGIN_END_OFFSET_def NUM_RECORD_OFFSET_def
  TOTAL_DATA_LENGTH_OFFSET_def PARENT_PAGE_POINTER_OFFSET_def BRANCH_DATA_BEGIN_OFFSET_def
  PREV_PAGE_POINTER_OFFSET_def NEXT_PAGE_POINTER_OFFSET_def LEAF_DATA_BEGIN_OFFSET_def
  LOAD_FACTOR_def LOAD_THRESHOLD_def MAX_DATA_LENGTH_LEAF_def MAX_DATA_LENGTH_BRANCH_def

section \<open>The page in the cache\<close>

record CachePage =
  cp_bysPage :: buf
  cp_pageId :: u32
  cp_fileId :: u32
  cp_bDirty :: bool
  cp_bRecordUpdated :: bool
  cp_pageStatus :: PageStatus
  cp_pageType :: PageType
  cp_bRefered :: bool
  cp_bWriteQueue :: bool
  cp_bNeedDisk :: bool
  cp_score :: u32
  cp_waiting :: u32
  cp_lockOwner :: "nat option"

definition CalcHashCode :: "u64 \<Rightarrow> u32 \<Rightarrow> u64" where
  "CalcHashCode fileId pageId = push_bit 32 fileId + ucast pageId"

definition HashCode :: "'a CachePage_scheme \<Rightarrow> u64" where
  "HashCode p = CalcHashCode (ucast (cp_fileId p)) (cp_pageId p)"

definition FileOffset :: "'a CachePage_scheme \<Rightarrow> u64" where
  "FileOffset p =
     (if cp_pageType p = HEAD_PAGE then 0
      else of_nat HEAD_PAGE_SIZE + of_nat INDEX_PAGE_SIZE * ucast (cp_pageId p))"

definition Releaseable :: "'a CachePage_scheme \<Rightarrow> bool" where
  "Releaseable p \<longleftrightarrow> \<not> cp_bRefered p \<and> cp_pageStatus p = PS_VALID"

definition AddWaiting :: "'a CachePage_scheme \<Rightarrow> u32 \<Rightarrow> 'a CachePage_scheme \<times> u32" where
  "AddWaiting p num = (p\<lparr>cp_waiting := cp_waiting p + num\<rparr>, cp_waiting p + num)"

definition SetDirty :: "'a CachePage_scheme \<Rightarrow> bool \<Rightarrow> 'a CachePage_scheme" where
  "SetDirty p b = p\<lparr>cp_bDirty := b\<rparr>"

text \<open>\<open>SetNeedDisk\<close> stores \<open>true\<close> whatever its argument is.\<close>

definition SetNeedDisk :: "'a CachePage_scheme \<Rightarrow> bool \<Rightarrow> 'a CachePage_scheme" where
  "SetNeedDisk p b = p\<lparr>cp_bNeedDisk := True\<rparr>"

definition ClearWriteQueue :: "'a CachePage_scheme \<Rightarrow> 'a CachePage_scheme" where
  "ClearWriteQueue p = p\<lparr>cp_bWriteQueue := False\<rparr>"

text \<open>
  The map of pages that wait to be written, ordered by level and page id; \<open>emplace\<close> keeps an entry
  that is already there.
\<close>

type_synonym page_map = "u64 \<rightharpoonup> page_ref"

definition AddWriteQueue ::
    "page_ref \<Rightarrow> 'a CachePage_scheme \<Rightarrow> byte \<Rightarrow> page_map \<Rightarrow> 'a CachePage_scheme \<times> page_map" where
  "AddWriteQueue this p level pageMap =
     (if cp_bWriteQueue p then (p, pageMap)
      else let k = push_bit 32 (ucast level) + ucast (cp_pageId p) in
        (p\<lparr>cp_bWriteQueue := True\<rparr>,
         case pageMap k of Some q \<Rightarrow> pageMap | None \<Rightarrow> pageMap(k \<mapsto> this)))"

text \<open>Reading and writing words of the page buffer.\<close>

definition ReadShort :: "buf \<Rightarrow> nat \<Rightarrow> u16" where
  "ReadShort b pos = Int16FromBytes (drop pos b) False"

definition WriteShort :: "nat \<Rightarrow> u16 \<Rightarrow> buf \<Rightarrow> buf" where
  "WriteShort pos v b = patch pos (Int16ToBytes v False) b"

definition ReadInt :: "buf \<Rightarrow> nat \<Rightarrow> u32" where
  "ReadInt b pos = Int32FromBytes (drop pos b) False"

definition WriteInt :: "nat \<Rightarrow> u32 \<Rightarrow> buf \<Rightarrow> buf" where
  "WriteInt pos v b = patch pos (Int32ToBytes v False) b"

definition ReadLong :: "buf \<Rightarrow> nat \<Rightarrow> u64" where
  "ReadLong b pos = Int64FromBytes (drop pos b) False"

definition WriteLong :: "nat \<Rightarrow> u64 \<Rightarrow> buf \<Rightarrow> buf" where
  "WriteLong pos v b = patch pos (Int64ToBytes v False) b"

lemma page_words [simp]:
  "ReadShort b pos = rd pos b" "WriteShort pos v b = wr pos v b"
  "ReadInt b pos = rd pos b" "WriteInt pos w b = wr pos w b"
  "ReadLong b pos = rd pos b" "WriteLong pos u b = wr pos u b"
  by (simp_all add: ReadShort_def WriteShort_def ReadInt_def WriteInt_def ReadLong_def
      WriteLong_def rd_def wr_def int_codec_defs)

section \<open>Index pages\<close>

text \<open>
  \<open>ReadShort\<close> returns an \<open>int16_t\<close>, so the record number and data length are sign-extended when they
  are loaded into 32-bit fields.
\<close>

record 'r IndexPage = CachePage +
  ip_parentPageId :: u32
  ip_committedDataLength :: u32
  ip_tempDataLength :: u32
  ip_recordNum :: u32
  ip_parentPage :: "page_ref option"
  ip_vctRecord :: "'r list"

definition GetPageLevel :: "'a CachePage_scheme \<Rightarrow> byte" where
  "GetPageLevel p = cp_bysPage p ! PAGE_LEVEL_OFFSET"

definition GetMaxDataLength :: "'a CachePage_scheme \<Rightarrow> nat" where
  "GetMaxDataLength p = (if cp_pageType p = LEAF_PAGE then MAX_DATA_LENGTH_LEAF else MAX_DATA_LENGTH_BRANCH)"

definition SetParentPageID :: "('r, 'a) IndexPage_scheme \<Rightarrow> u32 \<Rightarrow> ('r, 'a) IndexPage_scheme" where
  "SetParentPageID p parentPageId = p\<lparr>ip_parentPageId := parentPageId, cp_bDirty := True\<rparr>"

definition SetParentPage :: "('r, 'a) IndexPage_scheme \<Rightarrow> page_ref option \<Rightarrow> ('r, 'a) IndexPage_scheme" where
  "SetParentPage p parent = p\<lparr>ip_parentPage := parent\<rparr>"

definition IsBeginPage :: "'a CachePage_scheme \<Rightarrow> bool" where
  "IsBeginPage p \<longleftrightarrow> cp_bysPage p ! PAGE_BEGIN_END_OFFSET AND 0x80 \<noteq> 0"

definition IsEndPage :: "'a CachePage_scheme \<Rightarrow> bool" where
  "IsEndPage p \<longleftrightarrow> cp_bysPage p ! PAGE_BEGIN_END_OFFSET AND 0x40 \<noteq> 0"

definition SetBeginPage :: "'a CachePage_scheme \<Rightarrow> bool \<Rightarrow> 'a CachePage_scheme" where
  "SetBeginPage p bBegin =
     (let b = cp_bysPage p ! PAGE_BEGIN_END_OFFSET in
      p\<lparr>cp_bysPage := (cp_bysPage p)[PAGE_BEGIN_END_OFFSET := if bBegin then b OR 0x80 else b AND 0x7F]\<rparr>)"

definition SetEndPage :: "'a CachePage_scheme \<Rightarrow> bool \<Rightarrow> 'a CachePage_scheme" where
  "SetEndPage p bEnd =
     (let b = cp_bysPage p ! PAGE_BEGIN_END_OFFSET in
      p\<lparr>cp_bysPage := (cp_bysPage p)[PAGE_BEGIN_END_OFFSET := if bEnd then b OR 0x40 else b AND 0xBF]\<rparr>)"

definition NeedForceSplit :: "('r, 'a) IndexPage_scheme \<Rightarrow> bool" where
  "NeedForceSplit p \<longleftrightarrow> unat (ip_committedDataLength p) > LOAD_THRESHOLD \<or>
     unat (ip_tempDataLength p) > LOAD_THRESHOLD"

definition UpdateDataLength :: "('r, 'a) IndexPage_scheme \<Rightarrow> u32 \<Rightarrow> u32 \<Rightarrow> ('r, 'a) IndexPage_scheme" where
  "UpdateDataLength p committedLen tempLen =
     p\<lparr>ip_committedDataLength := ip_committedDataLength p + committedLen,
       ip_tempDataLength := ip_tempDataLength p + tempLen\<rparr>"

text \<open>
  \<open>AfterRead\<close>: a page whose checksum is wrong aborts the program (\<open>None\<close>); otherwise its parameters
  are initialised by the virtual \<open>InitParameters\<close>, the argument \<open>init\<close>.
\<close>

definition AfterRead ::
    "(buf \<Rightarrow> u32) \<Rightarrow> ('p CachePage_scheme \<Rightarrow> 'p CachePage_scheme option) \<Rightarrow> 'p CachePage_scheme
       \<Rightarrow> 'p CachePage_scheme option" where
  "AfterRead crc32 init p =
     (if crc32 (take CRC32_INDEX_OFFSET (cp_bysPage p)) \<noteq> ReadInt (cp_bysPage p) CRC32_INDEX_OFFSET
      then None
      else map_option (\<lambda>p. p\<lparr>cp_pageStatus := READED\<rparr>) (init p))"

lemma begin_end_bits [simp]:
  "((b :: byte) OR 0x80) AND 0x80 \<noteq> 0" "(b AND 0x7F) AND 0x80 = 0"
  "(b OR 0x40) AND 0x40 \<noteq> 0" "(b AND 0xBF) AND 0x40 = 0"
  "(b OR 0x80) AND 0x40 = b AND 0x40" "(b AND 0x7F) AND 0x40 = b AND 0x40"
  "(b OR 0x40) AND 0x80 = b AND 0x80" "(b AND 0xBF) AND 0x80 = b AND 0x80"
proof -
  have c: "(0x80 AND 0x80 :: byte) = 0x80" "(0x40 AND 0x40 :: byte) = 0x40"
    "(0x80 AND 0x40 :: byte) = 0" "(0x40 AND 0x80 :: byte) = 0"
    "(0x7F AND 0x80 :: byte) = 0" "(0xBF AND 0x40 :: byte) = 0"
    "(0x7F AND 0x40 :: byte) = 0x40" "(0xBF AND 0x80 :: byte) = 0x80" by simp_all
  show "(b AND 0x7F) AND 0x80 = 0" "(b AND 0xBF) AND 0x40 = 0"
    "(b OR 0x80) AND 0x40 = b AND 0x40" "(b AND 0x7F) AND 0x40 = b AND 0x40"
    "(b OR 0x40) AND 0x80 = b AND 0x80" "(b AND 0xBF) AND 0x80 = b AND 0x80"
    by (simp_all only: and.assoc bit.conj_disj_distrib2 c or.right_neutral and_zero_eq)
  have "bit ((b OR 0x80) AND 0x80 :: byte) 7" "bit ((b OR 0x40) AND 0x40 :: byte) 6"
    by (simp_all add: bit_simps)
  then show "(b OR 0x80) AND 0x80 \<noteq> 0" "(b OR 0x40) AND 0x40 \<noteq> 0" by auto
qed

text \<open>The begin and end marks are independent of each other.\<close>

lemma begin_end_marks:
  assumes "1 < length (cp_bysPage p)"
  shows "IsBeginPage (SetBeginPage p b) = b" "IsEndPage (SetBeginPage p b) = IsEndPage p"
    "IsEndPage (SetEndPage p b) = b" "IsBeginPage (SetEndPage p b) = IsBeginPage p"
  using assms
  by (simp_all add: IsBeginPage_def IsEndPage_def SetBeginPage_def SetEndPage_def Let_def
      PAGE_BEGIN_END_OFFSET_def)

end
