(* ===== verification/Leaf_Record.thy ===== *)
theory Leaf_Record
  imports Index_Page
begin

text \<open>
  Leaf records and their locks: \<open>core/LeafRecord.{h,cpp}\<close>. A leaf record is a raw record with an
  optional lock and an optional overflow page; the lock of an uncommitted update or delete owns the
  previous version of the record (\<open>_undoRec\<close>), which may be locked and have a previous version
  itself. The versions are owned one by the other, so the chain is a value of a datatype.

  \<open>None\<close> is a failed assertion. The page ids that an operation gives back to the index tree
  (\<open>RecyclePageId\<close>) are part of its result.
\<close>

section \<open>State\<close>

record OverflowPage =
  op_pageId :: u32
  op_pageNum :: u16
  op_bysPage :: buf
  op_bDirty :: bool

text \<open>A statement, as far as records use it: its identity and transaction id. An error is its id.\<close>

record Stmt =
  st_ref :: nat
  st_txId :: u64

datatype LeafRecord =
  LeafRecord (lr_raw: RawRecord) (lr_recLock: "RecordLock option") (lr_overflowPage: "OverflowPage option")
and RecordLock =
  RecordLock (rl_actType: ActionType) (rl_recStatus: RecordStatus) (rl_bGapLock: bool)
    (rl_recResult: RecordResult) (rl_stmt: "nat option") (rl_lstTxid: "u64 list")
    (rl_undoRec: "LeafRecord option") (rl_errMsg: "nat option")

definition set_raw :: "RawRecord \<Rightarrow> LeafRecord \<Rightarrow> LeafRecord" where
  "set_raw raw lr = LeafRecord raw (lr_recLock lr) (lr_overflowPage lr)"

definition set_lock :: "RecordLock option \<Rightarrow> LeafRecord \<Rightarrow> LeafRecord" where
  "set_lock l lr = LeafRecord (lr_raw lr) l (lr_overflowPage lr)"

definition set_txids :: "u64 list \<Rightarrow> RecordLock \<Rightarrow> RecordLock" where
  "set_txids ids l = RecordLock (rl_actType l) (rl_recStatus l) (rl_bGapLock l) (rl_recResult l)
     (rl_stmt l) ids (rl_undoRec l) (rl_errMsg l)"

definition set_result :: "RecordResult \<Rightarrow> RecordLock \<Rightarrow> RecordLock" where
  "set_result r l = RecordLock (rl_actType l) (rl_recStatus l) (rl_bGapLock l) r
     (rl_stmt l) (rl_lstTxid l) (rl_undoRec l) (rl_errMsg l)"

definition set_error :: "nat \<Rightarrow> RecordLock \<Rightarrow> RecordLock" where
  "set_error e l = RecordLock (rl_actType l) (rl_recStatus l) (rl_bGapLock l) RR_ERROR
     (rl_stmt l) (rl_lstTxid l) (rl_undoRec l) (Some e)"

definition set_undo :: "LeafRecord option \<Rightarrow> RecordLock \<Rightarrow> RecordLock" where
  "set_undo u l = RecordLock (rl_actType l) (rl_recStatus l) (rl_bGapLock l) (rl_recResult l)
     (rl_stmt l) (rl_lstTxid l) u (rl_errMsg l)"

lemma lock_setters [simp]:
  "lr_raw (set_raw raw lr) = raw" "lr_recLock (set_raw raw lr) = lr_recLock lr"
  "lr_overflowPage (set_raw raw lr) = lr_overflowPage lr"
  "lr_raw (set_lock k lr) = lr_raw lr" "lr_recLock (set_lock k lr) = k"
  "lr_overflowPage (set_lock k lr) = lr_overflowPage lr"
  "rl_actType (set_txids ids l) = rl_actType l" "rl_recStatus (set_txids ids l) = rl_recStatus l"
  "rl_lstTxid (set_txids ids l) = ids" "rl_undoRec (set_txids ids l) = rl_undoRec l"
  "rl_actType (set_result r l) = rl_actType l" "rl_recStatus (set_result r l) = rl_recStatus l"
  "rl_lstTxid (set_result r l) = rl_lstTxid l" "rl_undoRec (set_result r l) = rl_undoRec l"
  "rl_recResult (set_result r l) = r"
  "rl_actType (set_error e l) = rl_actType l" "rl_recStatus (set_error e l) = rl_recStatus l"
  "rl_lstTxid (set_error e l) = rl_lstTxid l" "rl_undoRec (set_error e l) = rl_undoRec l"
  "rl_recResult (set_error e l) = RR_ERROR"
  "rl_actType (set_undo u l) = rl_actType l" "rl_recStatus (set_undo u l) = rl_recStatus l"
  "rl_lstTxid (set_undo u l) = rl_lstTxid l" "rl_undoRec (set_undo u l) = u"
  by (simp_all add: set_raw_def set_lock_def set_txids_def set_result_def set_error_def set_undo_def)

text \<open>The constructor of \<open>RecordLock\<close>: a share lock without gap lock does not keep its statement.\<close>

definition RecordLock_new ::
    "ActionType \<Rightarrow> RecordStatus \<Rightarrow> bool \<Rightarrow> RecordResult \<Rightarrow> u64 \<Rightarrow> nat option \<Rightarrow> LeafRecord option \<Rightarrow> RecordLock" where
  "RecordLock_new t s gapLock recRst txid stmt undoRec =
     RecordLock t s gapLock recRst (if t = READ_SHARE \<and> \<not> gapLock then None else stmt) [txid] undoRec None"

abbreviation lr_bDelete :: "LeafRecord \<Rightarrow> bool" where
  "lr_bDelete lr \<equiv> rr_bDelete (lr_raw lr)"

abbreviation lr_total :: "LeafRecord \<Rightarrow> nat" where
  "lr_total lr \<equiv> rec_size (lr_raw lr)"

definition LeafRecord_load :: "IndexType \<Rightarrow> buf \<Rightarrow> LeafRecord" where
  "LeafRecord_load t bys = LeafRecord
     \<lparr>rr_class = LeafClass, rr_bysVal = bys, rr_bSole = False, rr_indexType = t,
      rr_bValid = True, rr_bDelete = False\<rparr> None None"

section \<open>Queries\<close>

definition IsStable :: "LeafRecord \<Rightarrow> bool" where
  "IsStable lr =
     (case lr_recLock lr of
        None \<Rightarrow> True
      | Some l \<Rightarrow> if \<not> masked (rl_actType l) UPDATEABLE_MASK then True else rl_recStatus l \<ge> COMMITED)"

definition IsGapLock :: "LeafRecord \<Rightarrow> bool" where
  "IsGapLock lr = (case lr_recLock lr of None \<Rightarrow> False | Some l \<Rightarrow> rl_bGapLock l)"

definition REC_OVERFLOW_BIT :: byte where "REC_OVERFLOW_BIT = 0x80"
definition REC_DELETE_BIT :: byte where "REC_DELETE_BIT = 0x40"

definition HasOverflowPage :: "LeafRecord \<Rightarrow> bool" where
  "HasOverflowPage lr =
     (let rr = lr_raw lr in
      if rr_indexType rr \<noteq> PRIMARY then False
      else rr_bysVal rr ! (UI16_2_LEN + unat (GetKeyLength rr)) AND REC_OVERFLOW_BIT \<noteq> 0)"

definition GetAction :: "LeafRecord \<Rightarrow> ActionType" where
  "GetAction lr = (case lr_recLock lr of None \<Rightarrow> NO_ACTION | Some l \<Rightarrow> rl_actType l)"

definition IsConflict :: "LeafRecord \<Rightarrow> u64 \<Rightarrow> ActionType \<Rightarrow> bool" where
  "IsConflict lr txid atype =
     (case lr_recLock lr of
        None \<Rightarrow> False
      | Some l \<Rightarrow>
          if rl_recStatus l \<ge> COMMITED then False
          else if atype = READ_SHARE \<and> rl_actType l = READ_SHARE then False
          else list_ex (\<lambda>id. id \<noteq> txid \<and> id \<noteq> TXID_NULL) (rl_lstTxid l))"

definition LockAble :: "LeafRecord \<Rightarrow> u64 \<Rightarrow> ActionType \<Rightarrow> bool" where
  "LockAble lr txid actType =
     (case lr_recLock lr of
        None \<Rightarrow> True
      | Some l \<Rightarrow>
          if length (rl_lstTxid l) = 1 \<and> last (rl_lstTxid l) = txid then True
          else actType = READ_SHARE \<and> rl_actType l = READ_SHARE)"

definition ReleaseLockAble :: "LeafRecord \<Rightarrow> bool" where
  "ReleaseLockAble lr =
     (case lr_recLock lr of
        None \<Rightarrow> False
      | Some l \<Rightarrow>
          if rl_actType l = READ_SHARE then list_all (\<lambda>id. id = TXID_NULL) (rl_lstTxid l)
          else rl_recStatus l \<ge> COMMITED)"

text \<open>The oldest version: what is left when every lock of the chain is gone.\<close>

fun oldest :: "LeafRecord \<Rightarrow> LeafRecord" where
  "oldest (LeafRecord raw (Some (RecordLock a s g r st tx (Some u) e)) ov) = oldest u"
| "oldest lr = lr"

fun versions :: "LeafRecord \<Rightarrow> nat" where
  "versions (LeafRecord raw (Some (RecordLock a s g r st tx (Some u) e)) ov) = Suc (versions u)"
| "versions lr = 0"

text \<open>\<open>GetLength\<close>: the bytes the record takes in its page now, and once it is committed.\<close>

definition tempLen :: "LeafRecord \<Rightarrow> int" where
  "tempLen lr = (if lr_bDelete lr then 0 else int (lr_total lr + UI16_LEN))"

definition commitLen :: "LeafRecord \<Rightarrow> int" where
  "commitLen lr =
     (let old = oldest lr in
      if lr_bDelete old \<or> masked (GetAction old) UPDATEABLE_MASK then 0
      else int (lr_total old + UI16_LEN))"

definition GetLength :: "LeafRecord \<Rightarrow> int \<times> int" where
  "GetLength lr = (tempLen lr, commitLen lr)"

section \<open>Locking\<close>

text \<open>
  \<open>ReadListValue\<close> up to the point where the fields are read. The first component is the record after
  the lock has been taken, the second either a result that ends the call or the version whose
  fields are read together with \<open>bAddLock\<close>. Without an action the reader skips the versions that
  are being changed.
\<close>

fun visible_version :: "LeafRecord option \<Rightarrow> LeafRecord option" where
  "visible_version None = None"
| "visible_version (Some (LeafRecord raw None ov)) = Some (LeafRecord raw None ov)"
| "visible_version (Some (LeafRecord raw (Some (RecordLock a s g r st tx u e)) ov)) =
     (if masked a READ_LOCK_MASK then Some (LeafRecord raw (Some (RecordLock a s g r st tx u e)) ov)
      else visible_version u)"

definition ReadListValue_check ::
    "LeafRecord \<Rightarrow> Stmt \<Rightarrow> ActionType \<Rightarrow> LeafRecord \<times> (ReadResult + LeafRecord)" where
  "ReadListValue_check this stmt atype =
     (case lr_recLock this of
        None \<Rightarrow> (this, Inr this)
      | Some l \<Rightarrow>
          if masked atype WRITE_LOCK_MASK then
            if list_ex (\<lambda>id. id \<noteq> TXID_NULL \<and> id \<noteq> st_txId stmt) (rl_lstTxid l) then (this, Inl LOCKED)
            else if length (rl_lstTxid l) > 1
            then let this = set_lock (Some (set_txids [st_txId stmt] l)) this in (this, Inr this)
            else (this, Inr this)
          else if atype = READ_SHARE \<and> rl_actType l \<noteq> READ_SHARE \<and> last (rl_lstTxid l) \<noteq> st_txId stmt
          then (this, Inl LOCKED)
          else if atype = NO_ACTION \<and> masked (rl_actType l) UPDATEABLE_MASK
          then (case visible_version (rl_undoRec l) of
                  None \<Rightarrow> (this, Inl LOCKED)
                | Some lr \<Rightarrow> (this, Inr lr))
          else (this, Inr this))"

definition ReadListValue_add :: "LeafRecord \<Rightarrow> Stmt \<Rightarrow> ActionType \<Rightarrow> bool \<Rightarrow> LeafRecord \<times> bool" where
  "ReadListValue_add this stmt atype bGapLock =
     (if masked atype READ_LOCK_MASK then
        case lr_recLock this of
          None \<Rightarrow>
            (set_lock (Some (RecordLock_new atype LOCK_ONLY bGapLock IN_PAGE (st_txId stmt)
               (Some (st_ref stmt)) None)) this, True)
        | Some l \<Rightarrow>
            let bAddLock = \<not> list_ex (\<lambda>txid. txid = st_txId stmt) (rl_lstTxid l);
                ids = (if bAddLock then rl_lstTxid l @ [st_txId stmt] else rl_lstTxid l);
                upgrade = (atype = READ_UPDATE \<and> rl_actType l = READ_SHARE)
            in (set_lock (Some (RecordLock
                  (if upgrade then READ_UPDATE else rl_actType l) (rl_recStatus l)
                  (rl_bGapLock l \<or> bGapLock) (rl_recResult l)
                  (if upgrade then Some (st_ref stmt) else rl_stmt l) ids (rl_undoRec l) (rl_errMsg l))) this,
                bAddLock)
      else (this, False))"

definition ReadListValue_lock ::
    "LeafRecord \<Rightarrow> Stmt \<Rightarrow> ActionType \<Rightarrow> bool \<Rightarrow> (LeafRecord \<times> (ReadResult + (LeafRecord \<times> bool))) option" where
  "ReadListValue_lock this stmt atype bGapLock =
     (if rr_indexType (lr_raw this) \<noteq> PRIMARY \<or> ReleaseLockAble this then None
      else case ReadListValue_check this stmt atype of
        (this, Inl res) \<Rightarrow> Some (this, Inl res)
      | (this, Inr lr) \<Rightarrow>
          if lr_bDelete lr then Some (this, Inl REC_DELETE)
          else if masked atype READ_LOCK_MASK \<and> lr \<noteq> this then None
          else let (this', bAddLock) = ReadListValue_add this stmt atype bGapLock in
            Some (this', Inr (if lr = this then this' else lr, bAddLock)))"

datatype SecLockResult = SL_LOCKED | NOLOCK | CONFLICT

definition SecondaryReadLock ::
    "LeafRecord \<Rightarrow> Stmt \<Rightarrow> ActionType \<Rightarrow> (LeafRecord \<times> SecLockResult) option" where
  "SecondaryReadLock this stmt actType =
     (if actType \<noteq> READ_SHARE \<and> actType \<noteq> READ_UPDATE then None
      else Some (case lr_recLock this of
        None \<Rightarrow>
          (set_lock (Some (RecordLock_new actType LOCK_ONLY False IN_PAGE (st_txId stmt)
             (Some (st_ref stmt)) None)) this, SL_LOCKED)
      | Some l \<Rightarrow>
          if actType = READ_SHARE \<and> rl_actType l = READ_SHARE then
            if list_ex (\<lambda>txid. txid = st_txId stmt) (rl_lstTxid l) then (this, NOLOCK)
            else (set_lock (Some (set_txids (rl_lstTxid l @ [st_txId stmt]) l)) this, SL_LOCKED)
          else if length (rl_lstTxid l) = 1 \<and> last (rl_lstTxid l) = st_txId stmt then (this, NOLOCK)
          else (this, CONFLICT)))"

text \<open>The end of a statement. The first id of the list that is the statement's is set to null.\<close>

fun clear_txid :: "u64 \<Rightarrow> u64 list \<Rightarrow> u64 list option" where
  "clear_txid txid [] = None"
| "clear_txid txid (t # ids) =
     (if t = txid then Some (TXID_NULL # ids) else map_option ((#) t) (clear_txid txid ids))"

definition SubmitStatement :: "LeafRecord \<Rightarrow> Stmt \<Rightarrow> RecordStatus \<Rightarrow> LeafRecord option" where
  "SubmitStatement this stmt sts =
     (case lr_recLock this of
        None \<Rightarrow> None
      | Some l \<Rightarrow>
          if rl_recResult l = RR_ERROR \<or>
             \<not> (rl_recStatus l = RS_INIT \<and> (sts = COMMITED \<or> sts = ROLLBACKED) \<or>
                rl_recStatus l = LOCK_ONLY \<and> sts = FREEED)
          then None
          else if sts = FREEED \<and> rl_actType l = READ_SHARE
          then map_option (\<lambda>ids. set_lock (Some (set_txids ids l)) this) (clear_txid (st_txId stmt) (rl_lstTxid l))
          else if rl_stmt l \<noteq> Some (st_ref stmt) then None
          else Some (set_lock (Some (RecordLock (rl_actType l) sts (rl_bGapLock l) (rl_recResult l)
                 None (rl_lstTxid l) (rl_undoRec l) (rl_errMsg l))) this))"

section \<open>Releasing a lock\<close>

definition recycled :: "LeafRecord \<Rightarrow> (u32 \<times> u16) list" where
  "recycled lr =
     (case lr_overflowPage lr of None \<Rightarrow> [] | Some op \<Rightarrow> [(op_pageId op, op_pageNum op)])"

text \<open>
  The loop of \<open>ReleaseLock\<close> after a commit: every older version is freed and its overflow pages are
  recycled. A version that is not stable, or a read lock that still owns a version (its destructor
  asserts that it does not), stops the program.
\<close>

fun free_versions :: "LeafRecord option \<Rightarrow> (u32 \<times> u16) list option" where
  "free_versions None = Some []"
| "free_versions (Some (LeafRecord raw None ov)) = Some (recycled (LeafRecord raw None ov))"
| "free_versions (Some (LeafRecord raw (Some (RecordLock a s g r st tx u e)) ov)) =
     (let lr = LeafRecord raw (Some (RecordLock a s g r st tx u e)) ov in
      if \<not> IsStable lr then None
      else if a = READ_SHARE \<or> a = READ_UPDATE
      then (if u = None then Some (recycled lr) else None)
      else map_option ((@) (recycled lr)) (free_versions u))"

text \<open>
  The move assignment \<open>*this = move(*lr)\<close> takes the buffer, type, lock and overflow page of the old
  version; \<open>_bValid\<close> and \<open>_bDelete\<close> keep the values they had in the record assigned to.
\<close>

definition move_assign :: "RawRecord \<Rightarrow> RawRecord \<Rightarrow> RawRecord" where
  "move_assign this src =
     this\<lparr>rr_bysVal := rr_bysVal src, rr_bSole := rr_bSole src, rr_indexType := rr_indexType src\<rparr>"

fun ReleaseLock :: "LeafRecord \<Rightarrow> (LeafRecord \<times> ReleaseResult \<times> (u32 \<times> u16) list) option" where
  "ReleaseLock (LeafRecord raw None ov) = None"
| "ReleaseLock (LeafRecord raw (Some (RecordLock a s g r st tx u e)) ov) =
     (let this = LeafRecord raw (Some (RecordLock a s g r st tx u e)) ov in
      if \<not> ReleaseLockAble this then None
      else if a = READ_SHARE \<or> a = READ_UPDATE
      then (if u = None then Some (LeafRecord raw None ov, FINISHED, []) else None)
      else if a \<noteq> INSERT \<and> a \<noteq> UPDATE \<and> a \<noteq> DELETE then None
      else if s = ROLLBACKED
      then (case u of
              None \<Rightarrow>
                Some (LeafRecord (raw\<lparr>rr_bysVal := [], rr_bSole := False, rr_bDelete := True\<rparr>) None None,
                      DELETED, recycled this)
            | Some (LeafRecord raw' None ov') \<Rightarrow>
                Some (LeafRecord (move_assign raw raw') None ov', FINISHED, recycled this)
            | Some (LeafRecord raw' (Some l') ov') \<Rightarrow>
                (let this' = LeafRecord (move_assign raw raw') (Some l') ov' in
                 if \<not> ReleaseLockAble this' then Some (this', UNFINISH, recycled this)
                 else map_option (\<lambda>(lr, res, rec). (lr, res, recycled this @ rec)) (ReleaseLock this')))
      else map_option
             (\<lambda>rec. (LeafRecord (raw\<lparr>rr_bDelete := (a = DELETE)\<rparr>) None ov,
                    if a = DELETE then DELETED else FINISHED, rec))
             (free_versions u))"

declare ReleaseLock.simps [simp del]

text \<open>\<open>FreeRecord\<close> gives a record up; the lock must be finished unless the operation failed.\<close>

definition FreeRecord_ok :: "LeafRecord \<Rightarrow> bool \<Rightarrow> bool" where
  "FreeRecord_ok lr bFailed \<longleftrightarrow>
     (case lr_recLock lr of
        None \<Rightarrow> True
      | Some l \<Rightarrow> rl_undoRec l = None \<and> (bFailed \<or> rl_recStatus l \<ge> COMMITED))"

definition RleaseOverflowPage :: "LeafRecord \<Rightarrow> bool \<Rightarrow> LeafRecord \<times> (u32 \<times> u16) list" where
  "RleaseOverflowPage lr recylePId =
     (LeafRecord (lr_raw lr) (lr_recLock lr) None, if recylePId then recycled lr else [])"

section \<open>The lock of a new version\<close>

text \<open>
  The part of \<open>UpdateRecord\<close> that makes the lock of the new version: it owns the old version and
  inherits its gap lock. The bytes of the new version are in \<open>Leaf_Layout\<close>.
\<close>

definition UpdateRecord_lock :: "LeafRecord \<Rightarrow> Stmt \<Rightarrow> ActionType \<Rightarrow> bool \<Rightarrow> RecordLock option" where
  "UpdateRecord_lock this stmt type gapLock =
     (if rr_indexType (lr_raw this) = PRIMARY \<and> (type = UPDATE \<or> type = DELETE) \<and>
         LockAble this (st_txId stmt) type
      then Some (RecordLock_new type RS_INIT (gapLock \<or> IsGapLock this) IN_PAGE (st_txId stmt)
             (Some (st_ref stmt)) (Some this))
      else None)"

end
