(* ===== verification/Leaf_Lock.thy ===== *)
theory Leaf_Lock
  imports Leaf_Record
begin

text \<open>
  What the locks of leaf records guarantee: a rollback unwinds the versions of the transaction, a
  commit gives back the pages of every older version, a reader without a lock only sees committed
  versions, and an exclusive lock belongs to one transaction at a time.
\<close>

section \<open>Rollback\<close>

text \<open>Every version above the oldest one is an update or delete that was rolled back.\<close>

fun rolled_back :: "LeafRecord \<Rightarrow> bool" where
  "rolled_back (LeafRecord raw None ov) = True"
| "rolled_back (LeafRecord raw (Some (RecordLock a s g r st tx (Some u) e)) ov) =
     ((a = UPDATE \<or> a = DELETE) \<and> s = ROLLBACKED \<and> rolled_back u)"
| "rolled_back (LeafRecord raw (Some (RecordLock a s g r st tx None e)) ov) = False"

fun newer_pages :: "LeafRecord \<Rightarrow> (u32 \<times> u16) list" where
  "newer_pages (LeafRecord raw (Some (RecordLock a s g r st tx (Some u) e)) ov) =
     recycled (LeafRecord raw (Some (RecordLock a s g r st tx (Some u) e)) ov) @ newer_pages u"
| "newer_pages lr = []"

lemma move_assign_twice [simp]: "move_assign (move_assign a b) c = move_assign a c"
  by (simp add: move_assign_def)

lemma recycled_eq: "recycled (LeafRecord raw l ov) = recycled (LeafRecord raw' l' ov)"
  by (simp add: recycled_def)

lemma ReleaseLock_older:
  assumes "a = INSERT \<or> a = UPDATE \<or> a = DELETE"
    and "ReleaseLockAble (LeafRecord (move_assign raw raw') (Some k) ov')"
  shows "ReleaseLock (LeafRecord raw (Some (RecordLock a ROLLBACKED g r st tx
      (Some (LeafRecord raw' (Some k) ov')) e)) ov) =
    map_option (\<lambda>(lr, res, rec). (lr, res, recycled (LeafRecord raw None ov) @ rec))
      (ReleaseLock (LeafRecord (move_assign raw raw') (Some k) ov'))"
  using assms by (auto simp: ReleaseLock.simps ReleaseLockAble_def recycled_def)

lemma rollback_chain:
  "rolled_back lr \<Longrightarrow> lr_recLock lr \<noteq> None \<Longrightarrow>
   ReleaseLock lr = Some (LeafRecord (move_assign (lr_raw lr) (lr_raw (oldest lr))) None
     (lr_overflowPage (oldest lr)), FINISHED, newer_pages lr)"
proof (induction "versions lr" arbitrary: lr)
  case 0
  then show ?case by (cases lr rule: rolled_back.cases) auto
next
  case (Suc n)
  then obtain raw a g r st tx e ov u where
    lr0: "lr = LeafRecord raw (Some (RecordLock a ROLLBACKED g r st tx (Some u) e)) ov"
    and a: "a = UPDATE \<or> a = DELETE" and v0: "rolled_back u"
    by (cases lr rule: rolled_back.cases) auto
  obtain raw' l' ov' where u: "u = LeafRecord raw' l' ov'" by (cases u)
  note lr = lr0 [unfolded u] and v = v0 [unfolded u]
  show ?case
  proof (cases l')
    case None
    then show ?thesis using a by (auto simp: lr ReleaseLock.simps ReleaseLockAble_def recycled_def)
  next
    case (Some k)
    let ?older = "LeafRecord (move_assign raw raw') (Some k) ov'"
    obtain a' s' g' r' st' tx' w e' where k: "k = RecordLock a' ROLLBACKED g' r' st' tx' (Some w) e'"
      and a': "a' = UPDATE \<or> a' = DELETE" and w: "rolled_back w"
      using v Some by (cases k; cases "rl_undoRec k") auto
    have able: "ReleaseLockAble ?older" using a' by (auto simp: k ReleaseLockAble_def)
    have "ReleaseLock ?older = Some (LeafRecord (move_assign (lr_raw ?older) (lr_raw (oldest ?older))) None
        (lr_overflowPage (oldest ?older)), FINISHED, newer_pages ?older)"
      by (rule Suc.hyps) (use Suc.hyps(2) a' w in \<open>auto simp: lr Some k\<close>)
    moreover have "newer_pages ?older = newer_pages (LeafRecord raw' l' ov')"
      by (simp add: k Some recycled_def)
    moreover have "oldest ?older = oldest (LeafRecord raw' l' ov')" by (simp add: k Some)
    ultimately show ?thesis
      using a able ReleaseLock_older [of a raw raw' k ov' g r st tx e ov]
      by (auto simp: lr Some recycled_def)
  qed
qed

text \<open>
  C19: rolling back a chain of updates restores the last committed version: bytes, type and overflow
  page are those of the oldest version, the locks are gone, and the pages of all newer versions are
  recycled, each once. When the version that was rolled back is not a delete the whole record is
  the old one.
\<close>

theorem rollback_restores:
  assumes "rolled_back lr" "lr_recLock lr \<noteq> None"
  shows "\<exists>lr'. ReleaseLock lr = Some (lr', FINISHED, newer_pages lr) \<and> lr_recLock lr' = None \<and>
    rr_bysVal (lr_raw lr') = rr_bysVal (lr_raw (oldest lr)) \<and>
    rr_indexType (lr_raw lr') = rr_indexType (lr_raw (oldest lr)) \<and>
    lr_overflowPage lr' = lr_overflowPage (oldest lr) \<and>
    (rr_bDelete (lr_raw lr) = rr_bDelete (lr_raw (oldest lr)) \<and>
     rr_bValid (lr_raw lr) = rr_bValid (lr_raw (oldest lr)) \<and>
     rr_class (lr_raw lr) = rr_class (lr_raw (oldest lr)) \<longrightarrow> lr_raw lr' = lr_raw (oldest lr))"
  using rollback_chain [OF assms] by (auto simp: move_assign_def)

text \<open>An example chain: a committed record, updated and then deleted by one transaction.\<close>

definition leaf_raw :: "IndexType \<Rightarrow> buf \<Rightarrow> bool \<Rightarrow> RawRecord" where
  "leaf_raw t bys del = \<lparr>rr_class = LeafClass, rr_bysVal = bys, rr_bSole = True, rr_indexType = t,
     rr_bValid = True, rr_bDelete = del\<rparr>"

definition a_page :: "u32 \<Rightarrow> OverflowPage" where
  "a_page pid = \<lparr>op_pageId = pid, op_pageNum = 2, op_bysPage = [], op_bDirty = False\<rparr>"

definition old_version :: LeafRecord where
  "old_version = LeafRecord (leaf_raw PRIMARY [1, 2] False) None (Some (a_page 7))"

definition updated_version :: "RecordStatus \<Rightarrow> LeafRecord" where
  "updated_version s = LeafRecord (leaf_raw PRIMARY [3] False)
     (Some (RecordLock UPDATE s False IN_PAGE None [4] (Some old_version) None)) (Some (a_page 9))"

definition deleted_version :: "RecordStatus \<Rightarrow> LeafRecord" where
  "deleted_version s = LeafRecord (leaf_raw PRIMARY [5] True)
     (Some (RecordLock DELETE s False IN_PAGE None [4] (Some (updated_version s)) None)) None"

lemma sample_versions [simp]:
  "rolled_back (updated_version ROLLBACKED)" "rolled_back (deleted_version ROLLBACKED)"
  "lr_recLock (updated_version s) = Some (RecordLock UPDATE s False IN_PAGE None [4] (Some old_version) None)"
  "lr_recLock (deleted_version s) = Some (RecordLock DELETE s False IN_PAGE None [4] (Some (updated_version s)) None)"
  "lr_raw (updated_version s) = leaf_raw PRIMARY [3] False" "lr_raw old_version = leaf_raw PRIMARY [1, 2] False"
  "lr_raw (deleted_version s) = leaf_raw PRIMARY [5] True"
  "oldest (updated_version s) = old_version" "oldest (deleted_version s) = old_version"
  "newer_pages (updated_version s) = [(9, 2)]"
  by (simp_all add: updated_version_def deleted_version_def old_version_def recycled_def a_page_def)

theorem rollback_restores_witness:
  "\<exists>lr'. ReleaseLock (updated_version ROLLBACKED) = Some (lr', FINISHED, [(9, 2)]) \<and>
     lr_raw lr' = leaf_raw PRIMARY [1, 2] False"
  using rollback_restores [of "updated_version ROLLBACKED"] by (auto simp: leaf_raw_def)

text \<open>
  A rolled back delete stays deleted. The move assignment that takes the old version back does
  not copy \<open>_bDelete\<close>, so the restored record is still marked, its length counts as 0, and the next
  \<open>SaveRecords\<close> erases it.
\<close>

theorem rollback_delete_lost:
  assumes "rolled_back lr" "lr_recLock lr \<noteq> None" "rr_bDelete (lr_raw lr)" "rr_class (lr_raw lr) = LeafClass"
  shows "\<exists>lr' rec. ReleaseLock lr = Some (lr', FINISHED, rec) \<and> lr_bDelete lr' \<and> lr_total lr' = 0 \<and>
    tempLen lr' = 0 \<and> commitLen lr' = 0"
  using rollback_chain [OF assms(1,2)] assms(3,4)
  by (auto simp: move_assign_def tempLen_def commitLen_def GetTotalLength_def)

theorem rollback_delete_lost_witness:
  "\<exists>lr' rec. ReleaseLock (deleted_version ROLLBACKED) = Some (lr', FINISHED, rec) \<and> lr_bDelete lr' \<and>
     \<not> lr_bDelete (oldest (deleted_version ROLLBACKED))"
  using rollback_delete_lost [of "deleted_version ROLLBACKED"] by (auto simp: leaf_raw_def)

section \<open>Commit\<close>

text \<open>Every version below the newest one is stable and no read lock owns a version.\<close>

fun stable_below :: "LeafRecord option \<Rightarrow> bool" where
  "stable_below None = True"
| "stable_below (Some (LeafRecord raw None ov)) = True"
| "stable_below (Some (LeafRecord raw (Some (RecordLock a s g r st tx u e)) ov)) =
     (if a = READ_SHARE \<or> a = READ_UPDATE then u = None
      else (masked a UPDATEABLE_MASK \<longrightarrow> s \<ge> COMMITED) \<and> stable_below u)"

fun all_pages :: "LeafRecord option \<Rightarrow> (u32 \<times> u16) list" where
  "all_pages None = []"
| "all_pages (Some (LeafRecord raw None ov)) = recycled (LeafRecord raw None ov)"
| "all_pages (Some (LeafRecord raw (Some (RecordLock a s g r st tx u e)) ov)) =
     recycled (LeafRecord raw None ov) @ all_pages u"

lemma free_versions_stable: "stable_below u \<Longrightarrow> free_versions u = Some (all_pages u)"
proof (induction u rule: stable_below.induct)
  case (3 raw a s g r st tx u e ov)
  then show ?case
    by (cases "a = READ_SHARE \<or> a = READ_UPDATE") (auto simp: IsStable_def recycled_def)
qed auto

text \<open>
  C20: committing an insert, update or delete keeps the newest bytes and overflow page, removes the
  lock and frees the overflow pages of all older versions; a committed delete is reported so that
  the page can erase the record.
\<close>

theorem commit_keeps_newest:
  assumes "lr_recLock lr = Some l" "rl_actType l \<in> {INSERT, UPDATE, DELETE}"
    and "rl_recStatus l = COMMITED" "stable_below (rl_undoRec l)"
  shows "\<exists>lr'. ReleaseLock lr = Some (lr', if rl_actType l = DELETE then DELETED else FINISHED,
      all_pages (rl_undoRec l)) \<and>
    lr_recLock lr' = None \<and> lr_overflowPage lr' = lr_overflowPage lr \<and>
    rr_bysVal (lr_raw lr') = rr_bysVal (lr_raw lr) \<and> (lr_bDelete lr' \<longleftrightarrow> rl_actType l = DELETE)"
proof -
  obtain a s g r st tx u e where l: "l = RecordLock a s g r st tx u e" by (cases l)
  obtain raw ov where lr: "lr = LeafRecord raw (Some l) ov" using assms(1) by (cases lr) auto
  show ?thesis
    using assms free_versions_stable [of u]
    by (auto simp: lr l ReleaseLock.simps ReleaseLockAble_def)
qed

theorem commit_keeps_newest_witness:
  "\<exists>lr'. ReleaseLock (deleted_version COMMITED) = Some (lr', DELETED, [(9, 2), (7, 2)])"
  using commit_keeps_newest [of "deleted_version COMMITED"]
  by (auto simp: updated_version_def old_version_def recycled_def a_page_def)

section \<open>Reading\<close>

lemma visible_version_committed:
  "visible_version u = Some v \<Longrightarrow>
   lr_recLock v = None \<or> (\<exists>l. lr_recLock v = Some l \<and> masked (rl_actType l) READ_LOCK_MASK)"
proof (induction u rule: visible_version.induct)
  case (3 raw a s g r st tx u e ov)
  then show ?case by (cases "masked a READ_LOCK_MASK") (auto simp del: masked_simps)
qed auto

lemma check_NO_ACTION:
  "ReadListValue_check lr stmt NO_ACTION =
    (lr, case lr_recLock lr of
       None \<Rightarrow> Inr lr
     | Some l \<Rightarrow> if masked (rl_actType l) UPDATEABLE_MASK
         then (case visible_version (rl_undoRec l) of None \<Rightarrow> Inl LOCKED | Some v \<Rightarrow> Inr v)
         else Inr lr)"
  by (auto simp: ReadListValue_check_def split: option.split)

lemma lock_NO_ACTION:
  assumes "ReadListValue_lock lr stmt NO_ACTION gap = Some (lr', Inr (v, added))"
  shows "ReadListValue_check lr stmt NO_ACTION = (lr, Inr v)" "lr' = lr" "\<not> added" "\<not> lr_bDelete v"
proof -
  have add: "ReadListValue_add x stmt NO_ACTION gap = (x, False)" for x
    by (simp add: ReadListValue_add_def)
  obtain r where r: "ReadListValue_check lr stmt NO_ACTION = (lr, r)" by (simp add: check_NO_ACTION)
  have "r = Inr v \<and> lr' = lr \<and> \<not> added \<and> \<not> lr_bDelete v"
  proof (cases r)
    case (Inl res)
    then show ?thesis using assms by (auto simp: ReadListValue_lock_def r split: if_splits)
  next
    case (Inr w)
    then show ?thesis
      using assms by (cases "lr_bDelete w"; cases "w = lr") (auto simp: ReadListValue_lock_def r add split: if_splits)
  qed
  with r show "ReadListValue_check lr stmt NO_ACTION = (lr, Inr v)" "lr' = lr" "\<not> added" "\<not> lr_bDelete v"
    by auto
qed

text \<open>The versions of a record, newest first, and those with a lock that is more than a read lock.\<close>

fun chain :: "LeafRecord \<Rightarrow> LeafRecord list" where
  "chain (LeafRecord raw None ov) = [LeafRecord raw None ov]"
| "chain (LeafRecord raw (Some (RecordLock a s g r st tx None e)) ov) = [LeafRecord raw (Some (RecordLock a s g r st tx None e)) ov]"
| "chain (LeafRecord raw (Some (RecordLock a s g r st tx (Some u) e)) ov) =
     LeafRecord raw (Some (RecordLock a s g r st tx (Some u) e)) ov # chain u"

definition being_changed :: "LeafRecord \<Rightarrow> bool" where
  "being_changed lr = (case lr_recLock lr of None \<Rightarrow> False | Some l \<Rightarrow> \<not> masked (rl_actType l) READ_LOCK_MASK)"

lemma chain_lock:
  "lr_recLock lr = Some l \<Longrightarrow> rl_undoRec l = Some u \<Longrightarrow> chain lr = lr # chain u"
  by (cases lr; cases l) auto

lemma chain_self: "\<exists>older. chain lr = lr # older"
  by (cases lr rule: chain.cases) auto

lemma visible_version_newest:
  "visible_version (Some u) = Some v \<Longrightarrow> \<exists>newer older. chain u = newer @ v # older \<and> list_all being_changed newer"
proof (induction "Some u" arbitrary: u rule: visible_version.induct)
  case (2 raw ov)
  then show ?case by (intro exI [of _ "[]"] exI [of _ "[]"]) auto
next
  case (3 raw a s g r st tx u' e ov)
  let ?x = "LeafRecord raw (Some (RecordLock a s g r st tx u' e)) ov"
  show ?case
  proof (cases "masked a READ_LOCK_MASK")
    case True
    then have "v = ?x" using 3 by (simp del: masked_simps)
    then show ?thesis using chain_self [of ?x] by (metis append_Nil list.pred_inject(1))
  next
    case False
    then obtain u2 where u2: "u' = Some u2" "visible_version (Some u2) = Some v"
      using "3.prems" by (cases u') (simp_all del: masked_simps)
    then obtain newer older where "chain u2 = newer @ v # older" "list_all being_changed newer"
      using "3.hyps" [OF False u2(1)] by blast
    then show ?thesis using u2(1) False by (intro exI [of _ "?x # newer"] exI [of _ older]) (simp add: being_changed_def)
  qed
qed

text \<open>
  C8: no dirty reads. A reader without a lock (\<open>NO_ACTION\<close>) that is given a version leaves the record as it is, and the version is the
  newest one of the record that is not being changed: the record's versions are newer ones, all with a lock that is more than a read
  lock, then the version itself, which has no lock of an insert, update or delete and is not a deleted one, then older ones.
\<close>

theorem reader_sees_committed:
  assumes "ReadListValue_lock lr stmt NO_ACTION gap = Some (lr', Inr (v, added))"
  shows "lr' = lr \<and> \<not> added \<and> \<not> lr_bDelete v \<and>
    (lr_recLock v = None \<or> (\<exists>l. lr_recLock v = Some l \<and> \<not> masked (rl_actType l) UPDATEABLE_MASK)) \<and>
    (\<exists>newer older. chain lr = newer @ v # older \<and> list_all being_changed newer)"
proof -
  note lk = lock_NO_ACTION [OF assms]
  have "(lr_recLock v = None \<or> (\<exists>l. lr_recLock v = Some l \<and> \<not> masked (rl_actType l) UPDATEABLE_MASK)) \<and>
    (\<exists>newer older. chain lr = newer @ v # older \<and> list_all being_changed newer)"
  proof (cases "\<exists>l. lr_recLock lr = Some l \<and> masked (rl_actType l) UPDATEABLE_MASK")
    case False
    then have v: "v = lr" using lk(1) by (auto simp: check_NO_ACTION split: option.splits)
    moreover have "\<exists>newer older. chain lr = newer @ v # older \<and> list_all being_changed newer"
      using chain_self [of lr] v by (metis append_Nil list.pred_inject(1))
    ultimately show ?thesis using False by (cases "lr_recLock lr") blast+
  next
    case True
    then obtain l where l: "lr_recLock lr = Some l" "masked (rl_actType l) UPDATEABLE_MASK" by blast
    then obtain u where u: "rl_undoRec l = Some u" "visible_version (Some u) = Some v"
      using lk(1) by (cases "rl_undoRec l") (auto simp: check_NO_ACTION split: option.splits)
    obtain newer older where "chain u = newer @ v # older" "list_all being_changed newer"
      using visible_version_newest [OF u(2)] by blast
    then have "chain lr = (lr # newer) @ v # older \<and> list_all being_changed (lr # newer)"
      using chain_lock [OF l(1) u(1)] l by (auto simp: being_changed_def)
    then have c: "\<exists>newer older. chain lr = newer @ v # older \<and> list_all being_changed newer" by blast
    show ?thesis by (rule conjI [OF _ c]) (use visible_version_committed [OF u(2)] in auto)
  qed
  with lk show ?thesis by simp
qed

theorem reader_sees_committed_witness:
  "\<exists>v newer older. ReadListValue_lock (updated_version RS_INIT) \<lparr>st_ref = 1, st_txId = 8\<rparr> NO_ACTION False =
       Some (updated_version RS_INIT, Inr (v, False)) \<and> lr_recLock v = None \<and>
     chain (updated_version RS_INIT) = newer @ v # older \<and> list_all being_changed newer \<and> newer \<noteq> []"
proof -
  have l: "ReadListValue_lock (updated_version RS_INIT) \<lparr>st_ref = 1, st_txId = 8\<rparr> NO_ACTION False =
      Some (updated_version RS_INIT, Inr (old_version, False))"
    by (simp add: ReadListValue_lock_def check_NO_ACTION ReadListValue_add_def ReleaseLockAble_def
        updated_version_def old_version_def leaf_raw_def)
  obtain newer older where n: "chain (updated_version RS_INIT) = newer @ old_version # older" "list_all being_changed newer"
    using reader_sees_committed [OF l] by blast
  moreover have "newer \<noteq> []" using n(1) by (auto simp: updated_version_def old_version_def)
  moreover have "lr_recLock old_version = None" by (simp add: old_version_def)
  ultimately show ?thesis using l by blast
qed

section \<open>Exclusive locks belong to one transaction\<close>

definition live_ids :: "u64 list \<Rightarrow> u64 set" where
  "live_ids ids = set ids - {TXID_NULL}"

text \<open>A lock has a transaction id; a lock other than a share lock has at most one live one.\<close>

definition excl_ids :: "ActionType \<Rightarrow> u64 list \<Rightarrow> bool" where
  "excl_ids a ids \<longleftrightarrow> ids \<noteq> [] \<and> (a = READ_SHARE \<or> (\<forall>x \<in> live_ids ids. \<forall>y \<in> live_ids ids. x = y))"

fun all_excl :: "LeafRecord \<Rightarrow> bool" where
  "all_excl (LeafRecord raw None ov) = True"
| "all_excl (LeafRecord raw (Some (RecordLock a s g r st tx None e)) ov) = excl_ids a tx"
| "all_excl (LeafRecord raw (Some (RecordLock a s g r st tx (Some u) e)) ov) =
     (excl_ids a tx \<and> all_excl u)"

abbreviation undo_excl :: "LeafRecord option \<Rightarrow> bool" where
  "undo_excl u \<equiv> (\<forall>v. u = Some v \<longrightarrow> all_excl v)"

lemma all_excl_lock:
  "lr_recLock lr = None \<Longrightarrow> all_excl lr"
  "lr_recLock lr = Some l \<Longrightarrow>
     all_excl lr \<longleftrightarrow> excl_ids (rl_actType l) (rl_lstTxid l) \<and> undo_excl (rl_undoRec l)"
proof -
  obtain raw k ov where lr: "lr = LeafRecord raw k ov" by (cases lr)
  show "lr_recLock lr = None \<Longrightarrow> all_excl lr" by (simp add: lr)
  show "lr_recLock lr = Some l \<Longrightarrow>
     all_excl lr \<longleftrightarrow> excl_ids (rl_actType l) (rl_lstTxid l) \<and> undo_excl (rl_undoRec l)"
    by (cases l; cases "rl_undoRec l") (auto simp: lr)
qed

lemma excl_ids_single [simp]: "excl_ids a [x]"
  by (auto simp: excl_ids_def live_ids_def)

text \<open>
  One step of the life of a record: a read of a primary record, a read lock of a secondary record,
  a new version, the end of a statement, the release of a finished lock. Statements of any
  transaction may take the steps in any order.
\<close>

inductive lock_step :: "LeafRecord \<Rightarrow> LeafRecord \<Rightarrow> bool" where
  step_read: "ReadListValue_lock lr stmt atype gap = Some (lr', res) \<Longrightarrow> st_txId stmt \<noteq> TXID_NULL \<Longrightarrow>
    lock_step lr lr'"
| step_secondary: "SecondaryReadLock lr stmt atype = Some (lr', sres) \<Longrightarrow> st_txId stmt \<noteq> TXID_NULL \<Longrightarrow>
    lock_step lr lr'"
| step_update: "UpdateRecord_lock lr stmt atype gap = Some l \<Longrightarrow> lock_step lr (LeafRecord raw (Some l) ov)"
| step_submit: "SubmitStatement lr stmt sts = Some lr' \<Longrightarrow> lock_step lr lr'"
| step_release: "ReleaseLock lr = Some (lr', rres, rec) \<Longrightarrow> lock_step lr lr'"

inductive_cases lock_stepE: "lock_step lr lr'"

text \<open>What the check of \<open>ReadListValue\<close> lets through.\<close>

lemma check_cases:
  assumes "ReadListValue_check lr stmt atype = (lr1, Inr v)" "lr_recLock lr = Some l"
  shows "\<exists>ids. lr1 = set_lock (Some (set_txids ids l)) lr \<and>
    (ids = rl_lstTxid l \<or> ids = [st_txId stmt] \<and> atype \<noteq> READ_SHARE) \<and>
    (atype = READ_UPDATE \<longrightarrow> live_ids ids \<subseteq> {st_txId stmt}) \<and>
    (atype = READ_SHARE \<longrightarrow> rl_actType l = READ_SHARE \<or> last ids = st_txId stmt)"
proof -
  have same: "lr = set_lock (Some (set_txids (rl_lstTxid l) l)) lr"
    using assms(2) by (cases lr; cases l) (simp add: set_lock_def set_txids_def)
  show ?thesis
  proof (cases "masked atype WRITE_LOCK_MASK")
    case True
    then have ne: "\<not> list_ex (\<lambda>id. id \<noteq> TXID_NULL \<and> id \<noteq> st_txId stmt) (rl_lstTxid l)"
      using assms by (auto simp: ReadListValue_check_def Let_def split: if_splits)
    then have sub: "live_ids (rl_lstTxid l) \<subseteq> {st_txId stmt}"
      by (auto simp: live_ids_def list_ex_iff)
    have sh: "atype \<noteq> READ_SHARE" using True by auto
    show ?thesis
    proof (cases "length (rl_lstTxid l) > 1")
      case T: True
      then have "lr1 = set_lock (Some (set_txids [st_txId stmt] l)) lr"
        using assms True ne by (auto simp: ReadListValue_check_def Let_def)
      then show ?thesis using sh by (intro exI [of _ "[st_txId stmt]"]) (auto simp: live_ids_def)
    next
      case False
      then have "lr1 = lr" using assms True ne by (auto simp: ReadListValue_check_def Let_def)
      then show ?thesis using sh sub same by (intro exI [of _ "rl_lstTxid l"]) auto
    qed
  next
    case False
    then have "lr1 = lr" and "atype = READ_SHARE \<longrightarrow> rl_actType l = READ_SHARE \<or> last (rl_lstTxid l) = st_txId stmt"
      using assms by (auto simp: ReadListValue_check_def split: if_splits option.splits)
    moreover have "atype \<noteq> READ_UPDATE" using False by auto
    ultimately show ?thesis using same by (intro exI [of _ "rl_lstTxid l"]) auto
  qed
qed

lemma check_left:
  "ReadListValue_check lr stmt atype = (lr1, Inl res) \<Longrightarrow> lr1 = lr"
  by (auto simp: ReadListValue_check_def Let_def split: option.splits if_splits)

lemma check_unlocked:
  "lr_recLock lr = None \<Longrightarrow> ReadListValue_check lr stmt atype = (lr, Inr lr)"
  by (simp add: ReadListValue_check_def)

lemma add_excl:
  assumes "ReadListValue_add lr stmt atype gap = (lr', added)" "all_excl lr"
    and "\<And>l. lr_recLock lr = Some l \<Longrightarrow> atype = READ_UPDATE \<Longrightarrow> live_ids (rl_lstTxid l) \<subseteq> {st_txId stmt}"
    and "\<And>l. lr_recLock lr = Some l \<Longrightarrow> atype = READ_SHARE \<Longrightarrow>
      rl_actType l = READ_SHARE \<or> last (rl_lstTxid l) = st_txId stmt"
  shows "all_excl lr'"
proof (cases "masked atype READ_LOCK_MASK")
  case False
  then show ?thesis using assms(1,2) by (auto simp: ReadListValue_add_def)
next
  case rd: True
  show ?thesis
  proof (cases "lr_recLock lr")
    case None
    then have "lr_recLock lr' = Some (RecordLock_new atype LOCK_ONLY gap IN_PAGE (st_txId stmt)
        (Some (st_ref stmt)) None)"
      using assms(1) rd by (auto simp: ReadListValue_add_def)
    then show ?thesis by (simp add: all_excl_lock(2) RecordLock_new_def)
  next
    case (Some l)
    define ids where "ids = (if list_ex (\<lambda>txid. txid = st_txId stmt) (rl_lstTxid l) then rl_lstTxid l
      else rl_lstTxid l @ [st_txId stmt])"
    define a where "a = (if atype = READ_UPDATE \<and> rl_actType l = READ_SHARE then READ_UPDATE else rl_actType l)"
    obtain g r st where k: "lr_recLock lr' = Some (RecordLock a (rl_recStatus l) g r st ids (rl_undoRec l) (rl_errMsg l))"
      using assms(1) rd Some by (auto simp: ReadListValue_add_def Let_def ids_def a_def)
    have inv: "excl_ids (rl_actType l) (rl_lstTxid l)" "undo_excl (rl_undoRec l)"
      using all_excl_lock(2) [OF Some] assms(2) by auto
    have "excl_ids a ids"
    proof (cases "atype = READ_UPDATE")
      case True
      then have "live_ids ids \<subseteq> {st_txId stmt}"
        using assms(3) [OF Some] by (auto simp: ids_def live_ids_def)
      moreover have "ids \<noteq> []" using inv(1) by (auto simp: ids_def excl_ids_def)
      ultimately show ?thesis by (auto simp: excl_ids_def)
    next
      case False
      then have sh: "atype = READ_SHARE" using rd by auto
      show ?thesis
      proof (cases "rl_actType l = READ_SHARE")
        case True
        then show ?thesis using inv(1) sh by (auto simp: excl_ids_def a_def ids_def)
      next
        case F: False
        then have "last (rl_lstTxid l) = st_txId stmt" using assms(4) [OF Some sh] by simp
        moreover have "rl_lstTxid l \<noteq> []" using inv(1) by (simp add: excl_ids_def)
        ultimately have "st_txId stmt \<in> set (rl_lstTxid l)" using last_in_set by metis
        then have "ids = rl_lstTxid l" by (auto simp: ids_def list_ex_iff)
        then show ?thesis using inv(1) sh by (simp add: a_def)
      qed
    qed
    then show ?thesis using all_excl_lock(2) [OF k] inv(2) by simp
  qed
qed

lemma read_excl:
  assumes "ReadListValue_lock lr stmt atype gap = Some (lr', res)" "all_excl lr"
  shows "all_excl lr'"
proof -
  obtain lr1 r where chk: "ReadListValue_check lr stmt atype = (lr1, r)" by fastforce
  show ?thesis
  proof (cases r)
    case (Inl x)
    then have "lr' = lr1" using assms(1) chk by (auto simp: ReadListValue_lock_def split: if_splits)
    then show ?thesis using check_left [of lr stmt atype lr1 x] chk Inl assms(2) by simp
  next
    case (Inr v)
    have e1: "all_excl lr1"
      and c1: "\<And>l. lr_recLock lr1 = Some l \<Longrightarrow> atype = READ_UPDATE \<Longrightarrow> live_ids (rl_lstTxid l) \<subseteq> {st_txId stmt}"
      and c2: "\<And>l. lr_recLock lr1 = Some l \<Longrightarrow> atype = READ_SHARE \<Longrightarrow>
        rl_actType l = READ_SHARE \<or> last (rl_lstTxid l) = st_txId stmt"
    proof (atomize (full), cases "lr_recLock lr")
      case None
      then show "all_excl lr1 \<and>
        (\<forall>l. lr_recLock lr1 = Some l \<longrightarrow> atype = READ_UPDATE \<longrightarrow> live_ids (rl_lstTxid l) \<subseteq> {st_txId stmt}) \<and>
        (\<forall>l. lr_recLock lr1 = Some l \<longrightarrow> atype = READ_SHARE \<longrightarrow>
          rl_actType l = READ_SHARE \<or> last (rl_lstTxid l) = st_txId stmt)"
        using check_unlocked [of lr] chk assms(2) by simp
    next
      case (Some l)
      obtain ids where i: "lr1 = set_lock (Some (set_txids ids l)) lr"
        "ids = rl_lstTxid l \<or> ids = [st_txId stmt] \<and> atype \<noteq> READ_SHARE"
        "atype = READ_UPDATE \<longrightarrow> live_ids ids \<subseteq> {st_txId stmt}"
        "atype = READ_SHARE \<longrightarrow> rl_actType l = READ_SHARE \<or> last ids = st_txId stmt"
        using check_cases [of lr stmt atype lr1 v, OF _ Some] chk Inr by auto
      have "excl_ids (rl_actType l) ids" using i(2) all_excl_lock(2) [OF Some] assms(2) by auto
      then show "all_excl lr1 \<and>
        (\<forall>l. lr_recLock lr1 = Some l \<longrightarrow> atype = READ_UPDATE \<longrightarrow> live_ids (rl_lstTxid l) \<subseteq> {st_txId stmt}) \<and>
        (\<forall>l. lr_recLock lr1 = Some l \<longrightarrow> atype = READ_SHARE \<longrightarrow>
          rl_actType l = READ_SHARE \<or> last (rl_lstTxid l) = st_txId stmt)"
        using i all_excl_lock(2) [OF Some] assms(2) all_excl_lock(2) [of lr1 "set_txids ids l"] by auto
    qed
    show ?thesis
    proof (cases "lr' = lr1")
      case True
      then show ?thesis using e1 by simp
    next
      case False
      then obtain added where "ReadListValue_add lr1 stmt atype gap = (lr', added)"
        using assms(1) chk Inr by (auto simp: ReadListValue_lock_def split: if_splits prod.splits)
      then show ?thesis using add_excl e1 c1 c2 by blast
    qed
  qed
qed

lemma secondary_excl:
  assumes "SecondaryReadLock lr stmt atype = Some (lr', res)" "all_excl lr" shows "all_excl lr'"
proof (cases "lr_recLock lr")
  case None
  then have "lr_recLock lr' = Some (RecordLock_new atype LOCK_ONLY False IN_PAGE (st_txId stmt)
      (Some (st_ref stmt)) None)"
    using assms(1) by (auto simp: SecondaryReadLock_def split: if_splits)
  then show ?thesis by (simp add: all_excl_lock(2) RecordLock_new_def)
next
  case (Some l)
  show ?thesis
  proof (cases "lr' = lr")
    case False
    then have sh: "rl_actType l = READ_SHARE"
      and k: "lr_recLock lr' = Some (set_txids (rl_lstTxid l @ [st_txId stmt]) l)"
      using assms(1) Some by (auto simp: SecondaryReadLock_def split: if_splits)
    then show ?thesis
      using all_excl_lock(2) [OF k] all_excl_lock(2) [OF Some] assms(2) by (auto simp: excl_ids_def)
  qed (use assms(2) in simp)
qed

lemma clear_txid_ids:
  "clear_txid t ids = Some ids' \<Longrightarrow> length ids' = length ids"
  by (induction ids arbitrary: ids') (auto split: if_splits)

lemma submit_excl:
  assumes "SubmitStatement lr stmt sts = Some lr'" "all_excl lr" shows "all_excl lr'"
proof (cases "lr_recLock lr")
  case None
  then show ?thesis using assms(1) by (simp add: SubmitStatement_def)
next
  case (Some l)
  note inv = all_excl_lock(2) [OF Some]
  show ?thesis
  proof (cases "sts = FREEED \<and> rl_actType l = READ_SHARE")
    case True
    then obtain ids where ids: "clear_txid (st_txId stmt) (rl_lstTxid l) = Some ids"
      and k: "lr_recLock lr' = Some (set_txids ids l)"
      using assms(1) Some by (auto simp: SubmitStatement_def split: if_splits)
    then have "ids \<noteq> []" using clear_txid_ids [OF ids] inv assms(2) by (auto simp: excl_ids_def)
    then show ?thesis using all_excl_lock(2) [OF k] inv assms(2) True by (simp add: excl_ids_def)
  next
    case False
    then have k: "lr_recLock lr' = Some (RecordLock (rl_actType l) sts (rl_bGapLock l) (rl_recResult l)
        None (rl_lstTxid l) (rl_undoRec l) (rl_errMsg l))"
      using assms(1) Some by (auto simp: SubmitStatement_def split: if_splits)
    then show ?thesis using all_excl_lock(2) [OF k] inv assms(2) by simp
  qed
qed

text \<open>\<open>all_excl\<close> and \<open>versions\<close> look only at the locks.\<close>

lemma lock_only:
  "all_excl (LeafRecord raw l ov) = all_excl (LeafRecord raw' l ov')"
  "versions (LeafRecord raw l ov) = versions (LeafRecord raw' l ov')"
proof -
  show "all_excl (LeafRecord raw l ov) = all_excl (LeafRecord raw' l ov')"
    by (cases l; cases "the l"; cases "rl_undoRec (the l)") auto
  show "versions (LeafRecord raw l ov) = versions (LeafRecord raw' l ov')"
    by (cases l; cases "the l"; cases "rl_undoRec (the l)") auto
qed

lemma release_cases:
  assumes "ReleaseLock lr = Some (lr', res, rec)" "lr_recLock lr' \<noteq> None"
  obtains raw a g r st tx e ov raw' k ov' where
    "lr = LeafRecord raw (Some (RecordLock a ROLLBACKED g r st tx (Some (LeafRecord raw' (Some k) ov')) e)) ov"
    "lr' = LeafRecord (move_assign raw raw') (Some k) ov' \<or>
     (\<exists>rec'. ReleaseLock (LeafRecord (move_assign raw raw') (Some k) ov') = Some (lr', res, rec'))"
proof (cases lr rule: ReleaseLock.cases)
  case (1 raw ov)
  then show ?thesis using assms by (simp add: ReleaseLock.simps)
next
  case (2 raw a s g r st tx u e ov)
  have rb: "s = ROLLBACKED" "u \<noteq> None"
    using assms by (auto simp: 2 ReleaseLock.simps(2) Let_def split: if_splits option.splits)
  then obtain v where v: "u = Some v" by auto
  obtain raw' l' ov' where u: "v = LeafRecord raw' l' ov'" by (cases v)
  have w: "a = INSERT \<or> a = UPDATE \<or> a = DELETE"
    using assms by (auto simp: 2 v ReleaseLock.simps(2) Let_def split: if_splits)
  have "l' \<noteq> None"
  proof
    assume "l' = None"
    with assms w show False
      by (auto simp: 2 v u rb ReleaseLock.simps(2) Let_def split: if_splits)
  qed
  then obtain k where k: "l' = Some k" by auto
  show ?thesis
  proof (rule that [of raw a g r st tx raw' k ov' e ov])
    show "lr = LeafRecord raw (Some (RecordLock a ROLLBACKED g r st tx (Some (LeafRecord raw' (Some k) ov')) e)) ov"
      by (simp add: 2 v u k rb)
    show "lr' = LeafRecord (move_assign raw raw') (Some k) ov' \<or>
        (\<exists>rec'. ReleaseLock (LeafRecord (move_assign raw raw') (Some k) ov') = Some (lr', res, rec'))"
    proof (cases "ReleaseLockAble (LeafRecord (move_assign raw raw') (Some k) ov')")
      case True
      then show ?thesis
        using assms(1) ReleaseLock_older [OF w, of raw raw' k ov' g r st tx e ov] by (auto simp: 2 v u k rb)
    next
      case False
      then show ?thesis
        using assms(1) w by (auto simp: 2 v u k rb ReleaseLock.simps(2) Let_def split: if_splits)
    qed
  qed
qed

lemma release_excl:
  "ReleaseLock lr = Some (lr', res, rec) \<Longrightarrow> all_excl lr \<Longrightarrow> all_excl lr'"
proof (induction "versions lr" arbitrary: lr rec rule: less_induct)
  case less
  show ?case
  proof (cases "lr_recLock lr' = None")
    case True
    then show ?thesis by (rule all_excl_lock)
  next
    case False
    then obtain raw a g r st tx e ov raw' k ov' where
      lr: "lr = LeafRecord raw (Some (RecordLock a ROLLBACKED g r st tx (Some (LeafRecord raw' (Some k) ov')) e)) ov"
      and res: "lr' = LeafRecord (move_assign raw raw') (Some k) ov' \<or>
        (\<exists>rec'. ReleaseLock (LeafRecord (move_assign raw raw') (Some k) ov') = Some (lr', res, rec'))"
      using release_cases [OF less.prems(1)] by metis
    let ?o = "LeafRecord (move_assign raw raw') (Some k) ov'"
    have o: "all_excl ?o" using less.prems(2) lock_only(1) [of raw' "Some k" ov' "move_assign raw raw'" ov'] by (simp add: lr)
    have "versions ?o < versions lr" using lock_only(2) [of raw' "Some k" ov' "move_assign raw raw'" ov'] by (simp add: lr)
    with res o show ?thesis using less.hyps by blast
  qed
qed

lemma lock_step_excl: "lock_step lr lr' \<Longrightarrow> all_excl lr \<Longrightarrow> all_excl lr'"
proof (induction rule: lock_step.induct)
  case (step_update lr stmt atype gap l raw ov)
  then have l: "l = RecordLock_new atype RS_INIT (gap \<or> IsGapLock lr) IN_PAGE (st_txId stmt)
      (Some (st_ref stmt)) (Some lr)"
    by (auto simp: UpdateRecord_lock_def split: if_splits)
  then show ?case using step_update.prems by (simp add: RecordLock_new_def)
qed (auto intro: read_excl secondary_excl submit_excl release_excl)

text \<open>
  C6: mutual exclusion. Whatever statements of whatever transactions do to a record, in any order,
  starting from an unlocked one: a lock that is not a share lock is held by at most one live
  transaction, and so are the locks of all older versions it keeps.
\<close>

theorem exclusive_lock_single_owner:
  assumes "lr_recLock lr0 = None" "lock_step\<^sup>*\<^sup>* lr0 lr"
  shows "all_excl lr"
  using assms(2)
proof (induction rule: rtranclp_induct)
  case base
  then show ?case by (rule all_excl_lock(1) [OF assms(1)])
next
  case (step y z)
  then show ?case using lock_step_excl by blast
qed

theorem exclusive_lock_single_owner_witness:
  "all_excl (LeafRecord (leaf_raw PRIMARY [3] False) (Some (RecordLock_new UPDATE RS_INIT False IN_PAGE 4 (Some 1)
     (Some old_version))) None)"
proof -
  have "UpdateRecord_lock old_version \<lparr>st_ref = 1, st_txId = 4\<rparr> UPDATE False =
      Some (RecordLock_new UPDATE RS_INIT False IN_PAGE 4 (Some 1) (Some old_version))"
    by (simp add: UpdateRecord_lock_def old_version_def leaf_raw_def LockAble_def IsGapLock_def)
  from step_update [OF this] show ?thesis
    by (intro exclusive_lock_single_owner [of old_version] r_into_rtranclp) (simp_all add: old_version_def)
qed

section \<open>Lock upgrades\<close>

text \<open>
  A share lock that the same transaction turns into an update lock cannot be submitted. A
  statement takes a share lock, a second statement of the same transaction asks for an update lock
  and becomes the lock's statement without being told to submit the record (\<open>bAddLock\<close> is false);
  when the first statement ends, \<open>SubmitStatement\<close> fails its assertion that it is the lock's
  statement.
\<close>

theorem upgraded_lock_not_submitted:
  assumes "lr_recLock lr = None" "rr_indexType (lr_raw lr) = PRIMARY" "\<not> lr_bDelete lr"
    and "st_txId s2 = st_txId s1" "st_txId s1 \<noteq> TXID_NULL" "st_ref s1 \<noteq> st_ref s2"
  shows "\<exists>lr1 lr2. ReadListValue_lock lr s1 READ_SHARE False = Some (lr1, Inr (lr1, True)) \<and>
    ReadListValue_lock lr1 s2 READ_UPDATE False = Some (lr2, Inr (lr2, False)) \<and>
    SubmitStatement lr2 s1 FREEED = None"
proof -
  obtain raw ov where lr: "lr = LeafRecord raw None ov" using assms(1) by (cases lr) auto
  let ?l1 = "RecordLock READ_SHARE LOCK_ONLY False IN_PAGE None [st_txId s1] None None"
  let ?l2 = "RecordLock READ_UPDATE LOCK_ONLY False IN_PAGE (Some (st_ref s2)) [st_txId s1] None None"
  have "ReadListValue_lock lr s1 READ_SHARE False = Some (LeafRecord raw (Some ?l1) ov, Inr (LeafRecord raw (Some ?l1) ov, True))"
    using assms by (simp add: lr ReadListValue_lock_def ReadListValue_check_def ReadListValue_add_def
        ReleaseLockAble_def RecordLock_new_def set_lock_def)
  moreover have "ReadListValue_lock (LeafRecord raw (Some ?l1) ov) s2 READ_UPDATE False =
      Some (LeafRecord raw (Some ?l2) ov, Inr (LeafRecord raw (Some ?l2) ov, False))"
    using assms by (simp add: lr ReadListValue_lock_def ReadListValue_check_def ReadListValue_add_def
        ReleaseLockAble_def set_lock_def Let_def)
  moreover have "SubmitStatement (LeafRecord raw (Some ?l2) ov) s1 FREEED = None"
    using assms(6) by (auto simp: SubmitStatement_def)
  ultimately show ?thesis by blast
qed

theorem upgraded_lock_not_submitted_witness:
  "\<exists>lr1 lr2. ReadListValue_lock old_version \<lparr>st_ref = 1, st_txId = 4\<rparr> READ_SHARE False = Some (lr1, Inr (lr1, True)) \<and>
    ReadListValue_lock lr1 \<lparr>st_ref = 2, st_txId = 4\<rparr> READ_UPDATE False = Some (lr2, Inr (lr2, False)) \<and>
    SubmitStatement lr2 \<lparr>st_ref = 1, st_txId = 4\<rparr> FREEED = None"
  by (rule upgraded_lock_not_submitted) (simp_all add: old_version_def leaf_raw_def TXID_NULL_def)

text \<open>
  \<open>SecondaryReadLock\<close> does not upgrade. When a transaction that holds a share lock asks for an
  update lock, the answer is that no new lock is needed, but the lock stays a share lock, and
  another transaction can then take it too.
\<close>

theorem secondary_lock_not_upgraded:
  assumes "lr_recLock lr = None" "st_txId s2 = st_txId s1" "st_txId s3 \<noteq> st_txId s1"
  shows "\<exists>lr1 lr2. SecondaryReadLock lr s1 READ_SHARE = Some (lr1, SL_LOCKED) \<and>
    SecondaryReadLock lr1 s2 READ_UPDATE = Some (lr1, NOLOCK) \<and>
    SecondaryReadLock lr1 s3 READ_SHARE = Some (lr2, SL_LOCKED)"
  using assms by (simp add: SecondaryReadLock_def RecordLock_new_def)

theorem secondary_lock_not_upgraded_witness:
  "\<exists>lr1 lr2. SecondaryReadLock old_version \<lparr>st_ref = 1, st_txId = 4\<rparr> READ_SHARE = Some (lr1, SL_LOCKED) \<and>
    SecondaryReadLock lr1 \<lparr>st_ref = 2, st_txId = 4\<rparr> READ_UPDATE = Some (lr1, NOLOCK) \<and>
    SecondaryReadLock lr1 \<lparr>st_ref = 3, st_txId = 5\<rparr> READ_SHARE = Some (lr2, SL_LOCKED)"
  by (rule secondary_lock_not_upgraded) (simp_all add: old_version_def)

end
