(* ===== verification/Branch_Page.thy ===== *)
theory Branch_Page
  imports Index_Page
begin

text \<open>
  Branch pages: \<open>core/BranchPage.{h,cpp}\<close>. Each operation of the class is a function on the page;
  \<open>None\<close> is a failed assertion. The index type comes from the head page of the tree and is an
  argument. The invariant \<open>branch_inv\<close> says that the counters describe the vector of records and
  that the records are well formed and strictly sorted.
\<close>

type_synonym BranchPage = "BranchRecord IndexPage"

definition BranchPage_LoadRecords :: "IndexType \<Rightarrow> BranchPage \<Rightarrow> BranchPage option" where
  "BranchPage_LoadRecords t p =
     (if cp_bDirty p \<or> ip_vctRecord p \<noteq> [] then None
      else Some (p\<lparr>ip_vctRecord :=
        map (\<lambda>b. BranchRecord_load t b None)
          (load_slots (unat (ip_recordNum p)) (of_nat BRANCH_DATA_BEGIN_OFFSET) (cp_bysPage p))\<rparr>))"

text \<open>\<open>parentId\<close> is the page id of \<open>_parentPage\<close> when that pointer is set.\<close>

definition BranchPage_InitParameters :: "IndexType \<Rightarrow> u32 option \<Rightarrow> BranchPage \<Rightarrow> BranchPage option" where
  "BranchPage_InitParameters t parentId p =
     (let b = cp_bysPage p;
          p = p\<lparr>cp_score := 10000,
                ip_recordNum := scast (ReadShort b NUM_RECORD_OFFSET),
                ip_committedDataLength := scast (ReadShort b TOTAL_DATA_LENGTH_OFFSET),
                ip_parentPageId := ReadInt b PARENT_PAGE_POINTER_OFFSET\<rparr>;
          p = (case parentId of
                 Some pid \<Rightarrow>
                   if pid \<noteq> ip_parentPageId p then p\<lparr>ip_parentPageId := pid, cp_bDirty := True\<rparr> else p
               | None \<Rightarrow> p)
      in BranchPage_LoadRecords t p)"

definition BranchPage_ClearRecords :: "BranchPage \<Rightarrow> BranchPage" where
  "BranchPage_ClearRecords p = p\<lparr>ip_vctRecord := []\<rparr>"

text \<open>
  \<open>SaveRecords\<close>. \<open>me\<close> is the running thread; a page above the split level is saved under its spin
  lock, which is released at the end. The records are written to a new page buffer.
\<close>

definition BranchPage_SaveRecords ::
    "(buf \<Rightarrow> u32) \<Rightarrow> alloc \<Rightarrow> byte \<Rightarrow> nat \<Rightarrow> BranchPage \<Rightarrow> (BranchPage \<times> bool) option" where
  "BranchPage_SaveRecords crc32 alloc splitPageLevel me p =
     (if \<not> cp_bDirty p then None
      else if cp_pageStatus p \<noteq> PS_VALID \<or> unat (ip_committedDataLength p) > MAX_DATA_LENGTH_BRANCH
      then Some (p, False)
      else if GetPageLevel p > splitPageLevel \<and> cp_lockOwner p \<noteq> Some me \<and> cp_lockOwner p \<noteq> None
      then Some (p, False)
      else
        let p =
          (if cp_bRecordUpdated p
           then
             let tmp = cp_bysPage p;
                 page = alloc INDEX_PAGE_SIZE;
                 page = page[PAGE_LEVEL_OFFSET := tmp ! PAGE_LEVEL_OFFSET];
                 page = page[PAGE_BEGIN_END_OFFSET := tmp ! PAGE_BEGIN_END_OFFSET];
                 rec_pos = of_nat BRANCH_DATA_BEGIN_OFFSET + ucast (ip_recordNum p) * of_nat UI16_LEN;
                 (rs, page) = save_slots (ip_vctRecord p) (of_nat BRANCH_DATA_BEGIN_OFFSET) rec_pos page;
                 page = WriteShort TOTAL_DATA_LENGTH_OFFSET (ucast (ip_committedDataLength p)) page;
                 page = WriteShort NUM_RECORD_OFFSET (ucast (ip_recordNum p)) page
             in p\<lparr>cp_bysPage := page, ip_vctRecord := rs, cp_bRecordUpdated := False\<rparr>
           else p);
            b = WriteInt PARENT_PAGE_POINTER_OFFSET (ip_parentPageId p) (cp_bysPage p);
            b = WriteInt CRC32_INDEX_OFFSET (crc32 (take CRC32_INDEX_OFFSET b)) b
        in Some (p\<lparr>cp_bysPage := b, cp_bDirty := False, cp_bNeedDisk := True\<rparr>, True))"

definition page_usable :: "'a CachePage_scheme \<Rightarrow> bool" where
  "page_usable p \<longleftrightarrow> cp_pageStatus p = PS_VALID \<or> cp_pageStatus p = WRITING"

definition slot_len :: "'a RawRecord_scheme \<Rightarrow> u32" where
  "slot_len rr = ucast (GetTotalLength rr) + of_nat UI16_LEN"

definition BranchPage_DeleteRecord :: "nat \<Rightarrow> BranchPage \<Rightarrow> (BranchPage \<times> BranchRecord) option" where
  "BranchPage_DeleteRecord index p =
     (if page_usable p \<and> index < unat (ip_recordNum p)
      then let brDel = ip_vctRecord p ! index in
        Some (p\<lparr>ip_committedDataLength := ip_committedDataLength p - slot_len brDel,
                ip_recordNum := ip_recordNum p - 1,
                ip_vctRecord := remove_at index (ip_vctRecord p),
                cp_bDirty := True, cp_bRecordUpdated := True\<rparr>, brDel)
      else None)"

definition BranchPage_InsertRecord :: "BranchRecord \<Rightarrow> int \<Rightarrow> BranchPage \<Rightarrow> BranchPage option" where
  "BranchPage_InsertRecord rec pos p =
     (if page_usable p \<and> 0 \<le> pos \<and> pos \<le> uint (ip_recordNum p)
      then Some (p\<lparr>ip_committedDataLength := ip_committedDataLength p + slot_len rec,
                   ip_vctRecord := insert_at (nat pos) rec (ip_vctRecord p),
                   ip_recordNum := ip_recordNum p + 1,
                   cp_bRecordUpdated := True, cp_bDirty := True\<rparr>)
      else None)"

definition BranchPage_AppendRecord :: "BranchRecord \<Rightarrow> BranchPage \<Rightarrow> BranchPage \<times> bool" where
  "BranchPage_AppendRecord rr p =
     (if unat (ip_committedDataLength p) > MAX_DATA_LENGTH_BRANCH * LOAD_FACTOR div 100 \<or>
         unat (ip_committedDataLength p + slot_len rr) > MAX_DATA_LENGTH_BRANCH
      then (p, False)
      else (p\<lparr>ip_committedDataLength := ip_committedDataLength p + slot_len rr,
              ip_vctRecord := ip_vctRecord p @ [rr],
              ip_recordNum := ip_recordNum p + 1,
              cp_bRecordUpdated := True, cp_bDirty := True\<rparr>, True))"

text \<open>The record numbers are below \<open>2^31\<close>, so the conversions to \<open>int32_t\<close> do not change them.\<close>

definition BranchPage_SearchRecord :: "IndexType \<Rightarrow> 'a RawRecord_scheme \<Rightarrow> BranchPage \<Rightarrow> int" where
  "BranchPage_SearchRecord t rr p =
     (let n = uint (ip_recordNum p);
          (found, start) = bsearch (probe (rec_cmp t) (ip_vctRecord p) rr) (\<lambda>_. False) 0 (n - 1)
      in if found then start else if start \<ge> n then n - 1 else start)"

definition BranchPage_SearchKey :: "IndexType \<Rightarrow> RawKey \<Rightarrow> BranchPage \<Rightarrow> int" where
  "BranchPage_SearchKey t key p =
     (let n = uint (ip_recordNum p);
          bUnique = (t \<noteq> NON_UNIQUE);
          hr = probe CompareKey (ip_vctRecord p) key;
          (found, start) = bsearch hr (\<lambda>m. \<not> bUnique \<and> hr (m - 1) = 0) 0 (n - 1)
      in if found then start else if start \<ge> n then n - 1 else start)"

definition BranchPage_GetRecord :: "int \<Rightarrow> bool \<Rightarrow> BranchPage \<Rightarrow> BranchRecord option" where
  "BranchPage_GetRecord pos bAutoLast p =
     (let n = uint (ip_recordNum p) in
      if n > 0 \<and> pos \<ge> 0 \<and> (bAutoLast \<or> pos < n)
      then Some (ip_vctRecord p ! nat (if bAutoLast \<and> pos \<ge> n then n - 1 else pos))
      else None)"

definition BranchPage_SetChild :: "int \<Rightarrow> page_ref option \<Rightarrow> BranchPage \<Rightarrow> BranchPage option" where
  "BranchPage_SetChild pos child p =
     (if 0 \<le> pos \<and> pos < uint (ip_recordNum p) \<and> int (length (ip_vctRecord p)) = uint (ip_recordNum p)
      then Some (p\<lparr>ip_vctRecord := (ip_vctRecord p)[nat pos := (ip_vctRecord p ! nat pos)\<lparr>br_childPage := child\<rparr>]\<rparr>)
      else None)"

definition BranchPage_GetChild :: "int \<Rightarrow> BranchPage \<Rightarrow> page_ref option option" where
  "BranchPage_GetChild pos p =
     (if 0 \<le> pos \<and> pos < uint (ip_recordNum p) \<and> int (length (ip_vctRecord p)) = uint (ip_recordNum p)
      then Some (br_childPage (ip_vctRecord p ! nat pos))
      else None)"

definition BranchPage_IsOverlength :: "BranchPage \<Rightarrow> bool" where
  "BranchPage_IsOverlength p \<longleftrightarrow> unat (ip_committedDataLength p) \<ge> MAX_DATA_LENGTH_BRANCH"

text \<open>
  \<open>ClearChild\<close>: \<open>lastRec\<close> is the entry looked up for the child, its last record (a branch child) or the
  entry built from its last record (a leaf child); the entry found must point to the child.
\<close>

definition BranchPage_ClearChild ::
    "IndexType \<Rightarrow> 'a RawRecord_scheme \<Rightarrow> page_ref \<Rightarrow> BranchPage \<Rightarrow> BranchPage option" where
  "BranchPage_ClearChild t lastRec child p =
     (let pos = BranchPage_SearchRecord t lastRec p in
      case BranchPage_GetRecord pos True p of
        None \<Rightarrow> None
      | Some brp \<Rightarrow> if br_childPage brp = Some child then BranchPage_SetChild pos None p else None)"

section \<open>The invariant\<close>

definition page_load :: "'a RawRecord_scheme list \<Rightarrow> nat" where
  "page_load rs = (\<Sum>rr\<leftarrow>rs. rec_size rr + 2)"

definition branch_inv :: "IndexType \<Rightarrow> BranchPage \<Rightarrow> bool" where
  "branch_inv t p \<longleftrightarrow>
     length (cp_bysPage p) = INDEX_PAGE_SIZE \<and>
     length (ip_vctRecord p) < 2 ^ 31 \<and>
     ip_recordNum p = of_nat (length (ip_vctRecord p)) \<and>
     ip_committedDataLength p = of_nat (page_load (ip_vctRecord p)) \<and>
     (\<forall>rr \<in> set (ip_vctRecord p). branch_ok rr \<and> rec_wf t rr) \<and>
     sorted_wrt (rec_before t) (ip_vctRecord p)"

lemma branch_invD:
  assumes "branch_inv t p"
  shows "unat (ip_recordNum p) = length (ip_vctRecord p)"
    and "uint (ip_recordNum p) = int (length (ip_vctRecord p))"
    and "ip_committedDataLength p = of_nat (page_load (ip_vctRecord p))"
    and "sorted_wrt (rec_before t) (ip_vctRecord p)"
    and "\<forall>rr \<in> set (ip_vctRecord p). rec_wf t rr"
    and "\<forall>rr \<in> set (ip_vctRecord p). branch_ok rr"
    and "length (cp_bysPage p) = INDEX_PAGE_SIZE"
proof -
  show "unat (ip_recordNum p) = length (ip_vctRecord p)"
    using assms by (simp add: branch_inv_def unat_of_nat)
  then show "uint (ip_recordNum p) = int (length (ip_vctRecord p))"
    by (metis uint_nat)
qed (use assms in \<open>auto simp: branch_inv_def\<close>)

lemma page_load_simps [simp]:
  "page_load [] = 0" "page_load (r # rs) = rec_size r + 2 + page_load rs"
  "page_load (rs @ ss) = page_load rs + page_load ss"
  by (simp_all add: page_load_def)

lemma page_load_insert_at: "page_load (insert_at i r rs) = rec_size r + 2 + page_load rs"
proof -
  have "page_load rs = page_load (take i rs) + page_load (drop i rs)"
    by (metis append_take_drop_id page_load_simps(3))
  then show ?thesis by (simp add: insert_at_def)
qed

lemma page_load_remove_at:
  "i < length rs \<Longrightarrow> page_load rs = rec_size (rs ! i) + 2 + page_load (remove_at i rs)"
  using page_load_insert_at [of i "rs ! i" "remove_at i rs"] by (simp add: insert_remove_at)

lemma slot_len_nat: "slot_len rr = of_nat (rec_size rr + 2)"
proof -
  have "ucast (w :: u16) = (of_nat (unat w) :: u32)" for w by simp
  then show ?thesis by (simp add: slot_len_def)
qed

section \<open>Searching\<close>

text \<open>The entries of branch pages, and the right borders of the ranges of a tree, are such sorted lists.\<close>

lemma route_record:
  assumes "sorted_wrt (rec_before t) rs" "\<forall>r \<in> set rs. rec_wf t r" "rec_wf t rr" "rs \<noteq> []"
  shows "routes (rec_cmp t) rs rr (route (probe (rec_cmp t) rs rr) (\<lambda>_. False) (int (length rs)))"
proof (rule by_record.route_routes [OF assms])
  have "rec_cmp t (rs ! i) rr < 0" if "i < j" "j < length rs" "rec_cmp t (rs ! j) rr \<le> 0" for i j
  proof -
    have "rec_before t (rs ! i) (rs ! j)" using assms(1) that by (simp add: sorted_wrt_nth_less)
    moreover have wf: "rec_wf t (rs ! i)" "rec_wf t (rs ! j)" using assms(2) that by auto
    ultimately have "bytes_cmp (order_bytes t (rs ! i)) (order_bytes t (rs ! j)) < 0"
      by (simp add: rec_before_def bytes_cmp_iffs)
    then show ?thesis
      using kcmp.cmp_less_le_trans [of "order_bytes t (rs ! i)" "order_bytes t (rs ! j)" "order_bytes t rr"]
        that(3) wf assms(3) by (simp add: rec_cmp_bytes)
  qed
  then show "(\<forall>i j. i < j \<and> j < length rs \<and> rec_cmp t (rs ! j) rr \<le> 0 \<longrightarrow> rec_cmp t (rs ! i) rr < 0) \<or>
      (\<forall>m. False \<longleftrightarrow> probe (rec_cmp t) rs rr (m - 1) = 0)" by blast
qed simp_all

text \<open>
  A search by key in a non-unique index relies on keys none of which is a proper prefix of another:
  then the order by key and value respects the order by key.
\<close>

definition prefix_free :: "buf list \<Rightarrow> bool" where
  "prefix_free ks \<longleftrightarrow> (\<forall>k \<in> set ks. \<forall>l \<in> set ks. take (length k) l = k \<longrightarrow> k = l)"

lemma lexcmp_append_le:
  "lexcmp (k @ v) (l @ w) < 0 \<Longrightarrow> take (length l) k = l \<longrightarrow> k = l \<Longrightarrow> lexcmp k l \<le> 0"
proof (induction k l rule: lexcmp.induct)
  case (4 x xs y ys)
  then show ?case by (auto split: if_splits)
qed auto

lemma branch_data_key:
  assumes "branch_ok br"
  shows "\<exists>v. rec_data br = rec_key br @ v"
proof -
  let ?t = "rd 0 (rr_bysVal br) :: u16"
  have tot: "GetTotalLength br = ?t" using assms by (simp add: branch_ok_def GetTotalLength_def)
  have le: "unat (GetKeyLength br) + 8 \<le> unat ?t" using assms tot by (simp add: branch_ok_def)
  have d: "GetDataLength br = ?t - 8" using assms by (simp add: branch_ok_def GetDataLength_def)
  have "(8 :: u16) \<le> ?t" using le by (simp add: word_le_nat_alt)
  then have "unat (GetDataLength br) = unat ?t - 8" by (simp add: d unat_sub)
  with le have "unat (GetKeyLength br) \<le> unat (GetDataLength br)" by simp
  then have "unat (GetDataLength br) = unat (GetKeyLength br) + (unat (GetDataLength br) - unat (GetKeyLength br))"
    by simp
  then have "rec_data br = rec_key br @ take (unat (GetDataLength br) - unat (GetKeyLength br))
      (drop (unat (GetKeyLength br)) (drop UI16_2_LEN (rr_bysVal br)))"
    unfolding rec_data_def rec_key_def using take_add by metis
  then show ?thesis ..
qed

lemma key_before_branch:
  assumes "branch_ok a" "branch_ok b" "rec_before t a b"
    and "t = NON_UNIQUE \<Longrightarrow> prefix_free [rec_key a, rec_key b]"
  shows "key_before a b"
proof (cases "t = NON_UNIQUE")
  case True
  obtain v w where "rec_data a = rec_key a @ v" "rec_data b = rec_key b @ w"
    using branch_data_key assms(1,2) by blast
  then show ?thesis
    using assms(3,4) True lexcmp_append_le [of "rec_key a" v "rec_key b" w]
    by (auto simp: key_before_def rec_before_def order_bytes_def prefix_free_def)
next
  case False
  then show ?thesis using assms(3) by (simp add: key_before_def rec_before_def order_bytes_def)
qed

lemma sorted_key_before:
  assumes "sorted_wrt (rec_before t) rs" "\<forall>r \<in> set rs. branch_ok r" "t = NON_UNIQUE \<Longrightarrow> prefix_free (map rec_key rs)"
  shows "sorted_wrt key_before rs"
  using assms(1)
proof (rule sorted_wrt_mono_rel [rotated])
  fix a b assume "a \<in> set rs" "b \<in> set rs" "rec_before t a b"
  then show "key_before a b" using assms(2,3) by (intro key_before_branch) (auto simp: prefix_free_def)
qed

text \<open>In a unique index the keys are strictly increasing.\<close>

lemma unique_before_key:
  assumes "sorted_wrt (rec_before t) rs" "\<forall>r \<in> set rs. rec_wf t r" "t \<noteq> NON_UNIQUE" "key_ok k"
    and "i < j" "j < length rs" "CompareKey (rs ! j) k \<le> 0"
  shows "CompareKey (rs ! i) k < 0"
proof -
  have "rec_before t (rs ! i) (rs ! j)" using assms(1,5,6) by (simp add: sorted_wrt_nth_less)
  then have lt: "bytes_cmp (rec_key (rs ! i)) (rec_key (rs ! j)) < 0"
    using assms(3) by (simp add: rec_before_def order_bytes_def bytes_cmp_iffs)
  have "rec_fits (rs ! i)" "rec_fits (rs ! j)" using assms(2,5,6) by (auto simp: rec_wf_def)
  then show ?thesis
    using kcmp.cmp_less_le_trans [OF _ _ _ lt, of "key_bytes k"] assms(4,7)
    by (simp add: CompareKey_bytes key_cmp_len)
qed

lemma route_key:
  assumes "sorted_wrt (rec_before t) rs" "\<forall>r \<in> set rs. rec_wf t r" "\<forall>r \<in> set rs. branch_ok r" "key_ok k" "rs \<noteq> []"
    and "t = NON_UNIQUE \<Longrightarrow> prefix_free (map rec_key rs)"
  shows "routes CompareKey rs k (route (probe CompareKey rs k) (\<lambda>m. \<not> t \<noteq> NON_UNIQUE \<and> probe CompareKey rs k (m - 1) = 0) (int (length rs)))"
proof (rule by_key.route_routes)
  show "sorted_wrt key_before rs" using sorted_key_before assms(1,3,6) by blast
  show "\<forall>r \<in> set rs. rec_fits r" using assms(2) by (auto simp: rec_wf_def)
  show "(\<forall>i j. i < j \<and> j < length rs \<and> CompareKey (rs ! j) k \<le> 0 \<longrightarrow> CompareKey (rs ! i) k < 0) \<or>
      (\<forall>m. (\<not> t \<noteq> NON_UNIQUE \<and> probe CompareKey rs k (m - 1) = 0) \<longleftrightarrow> probe CompareKey rs k (m - 1) = 0)"
    using unique_before_key [OF assms(1,2) _ assms(4)] by (cases "t = NON_UNIQUE") auto
qed (use assms in auto)

text \<open>
  \<open>SearchRecord\<close> and \<open>SearchKey\<close> on a non-empty page: every record before the returned position is smaller
  than the searched one, and the record at the position is not smaller, unless it is the last one: a
  record beyond the last separator is sent to the last child.
\<close>

lemma SearchRecord_spec:
  assumes "branch_inv t p" "ip_vctRecord p \<noteq> []" "rec_wf t rr"
  shows "routes (rec_cmp t) (ip_vctRecord p) rr (BranchPage_SearchRecord t rr p)"
  using route_record [OF branch_invD(4,5) [OF assms(1)] assms(3,2)] branch_invD(2) [OF assms(1)]
  by (simp add: BranchPage_SearchRecord_def route_def Let_def)

lemma SearchKey_spec:
  assumes "branch_inv t p" "ip_vctRecord p \<noteq> []" "key_ok k"
    and "t = NON_UNIQUE \<Longrightarrow> prefix_free (map rec_key (ip_vctRecord p))"
  shows "routes CompareKey (ip_vctRecord p) k (BranchPage_SearchKey t k p)"
  using route_key [OF branch_invD(4,5,6) [OF assms(1)] assms(3,2,4)] branch_invD(2) [OF assms(1)]
  by (simp add: BranchPage_SearchKey_def route_def Let_def)

section \<open>Insertion and removal keep the invariant\<close>

lemma InsertRecord_inv:
  assumes "branch_inv t p" "page_usable p" "0 \<le> pos" "pos \<le> int (length (ip_vctRecord p))"
    and "branch_ok rec" "rec_wf t rec" "length (ip_vctRecord p) + 1 < 2 ^ 31"
    and "\<forall>r \<in> set (take (nat pos) (ip_vctRecord p)). rec_before t r rec"
    and "\<forall>r \<in> set (drop (nat pos) (ip_vctRecord p)). rec_before t rec r"
  obtains q where "BranchPage_InsertRecord rec pos p = Some q" "branch_inv t q"
    "ip_vctRecord q = insert_at (nat pos) rec (ip_vctRecord p)" "cp_bDirty q"
proof -
  note inv = branch_invD [OF assms(1)]
  let ?rs = "ip_vctRecord p"
  define q where "q = p\<lparr>ip_committedDataLength := ip_committedDataLength p + slot_len rec,
       ip_vctRecord := insert_at (nat pos) rec ?rs, ip_recordNum := ip_recordNum p + 1,
       cp_bRecordUpdated := True, cp_bDirty := True\<rparr>"
  have np: "nat pos \<le> length ?rs" using assms(3,4) by simp
  have "BranchPage_InsertRecord rec pos p = Some q"
    using assms(2-4) inv(2) by (simp add: BranchPage_InsertRecord_def q_def)
  moreover have "branch_inv t q"
  proof -
    have "sorted_wrt (rec_before t) (insert_at (nat pos) rec ?rs)"
      by (rule sorted_wrt_insert_at [OF inv(4) assms(8,9)])
    moreover have "ip_committedDataLength p + slot_len rec = of_nat (page_load (insert_at (nat pos) rec ?rs))"
      by (simp add: page_load_insert_at inv(3) slot_len_nat)
    moreover have "ip_recordNum p + 1 = of_nat (length (insert_at (nat pos) rec ?rs))"
      using assms(1) np by (simp add: branch_inv_def)
    ultimately show ?thesis
      using assms(5-7) inv np unfolding branch_inv_def q_def by (simp add: set_insert_at)
  qed
  ultimately show ?thesis by (rule that) (simp_all add: q_def)
qed

lemma DeleteRecord_inv:
  assumes "branch_inv t p" "page_usable p" "i < length (ip_vctRecord p)"
  obtains q where "BranchPage_DeleteRecord i p = Some (q, ip_vctRecord p ! i)" "branch_inv t q"
    "ip_vctRecord q = remove_at i (ip_vctRecord p)" "cp_bDirty q" "page_usable q"
proof -
  note inv = branch_invD [OF assms(1)]
  let ?rs = "ip_vctRecord p"
  define q where "q = p\<lparr>ip_committedDataLength := ip_committedDataLength p - slot_len (?rs ! i),
       ip_recordNum := ip_recordNum p - 1, ip_vctRecord := remove_at i ?rs,
       cp_bDirty := True, cp_bRecordUpdated := True\<rparr>"
  have "BranchPage_DeleteRecord i p = Some (q, ?rs ! i)"
    using assms(2,3) inv(1) by (simp add: BranchPage_DeleteRecord_def q_def Let_def)
  moreover have "branch_inv t q"
  proof -
    have "sorted_wrt (rec_before t) (remove_at i ?rs)" by (rule sorted_wrt_remove_at [OF inv(4)])
    moreover have "ip_committedDataLength p - slot_len (?rs ! i) = of_nat (page_load (remove_at i ?rs))"
      using page_load_remove_at [OF assms(3)] by (simp add: inv(3) slot_len_nat)
    moreover have "ip_recordNum p - 1 = of_nat (length (remove_at i ?rs))"
      using assms(1,3) by (simp add: branch_inv_def of_nat_diff)
    ultimately show ?thesis
      using inv assms set_remove_at_subset [of i ?rs] unfolding branch_inv_def q_def by auto
  qed
  ultimately show ?thesis by (rule that) (use assms(2) in \<open>simp_all add: q_def page_usable_def\<close>)
qed

lemma AppendRecord_inv:
  assumes "branch_inv t p" "branch_ok rec" "rec_wf t rec" "length (ip_vctRecord p) + 1 < 2 ^ 31"
    and "\<forall>r \<in> set (ip_vctRecord p). rec_before t r rec" "page_load (ip_vctRecord p) \<le> MAX_DATA_LENGTH_BRANCH"
    and "BranchPage_AppendRecord rec p = (q, True)"
  shows "branch_inv t q" "ip_vctRecord q = ip_vctRecord p @ [rec]"
    "page_load (ip_vctRecord q) \<le> MAX_DATA_LENGTH_BRANCH"
proof -
  note inv = branch_invD [OF assms(1)]
  have q: "q = p\<lparr>ip_committedDataLength := ip_committedDataLength p + slot_len rec,
      ip_vctRecord := ip_vctRecord p @ [rec], ip_recordNum := ip_recordNum p + 1,
      cp_bRecordUpdated := True, cp_bDirty := True\<rparr>"
    and le: "unat (ip_committedDataLength p + slot_len rec) \<le> MAX_DATA_LENGTH_BRANCH"
    using assms(7) by (auto simp: BranchPage_AppendRecord_def split: if_splits)
  show "branch_inv t q" "ip_vctRecord q = ip_vctRecord p @ [rec]"
    using assms(1-5) inv(3) by (auto simp: branch_inv_def q sorted_wrt_append slot_len_nat)
  have "page_load (ip_vctRecord p) + (rec_size rec + 2) < 4294967296"
    using assms(6) unat_u16_bound [of "GetTotalLength rec"] unfolding page_consts len_defs by linarith
  then have "unat (of_nat (page_load (ip_vctRecord p) + (rec_size rec + 2)) :: u32) =
      page_load (ip_vctRecord p) + (rec_size rec + 2)"
    by (simp only: unat_of_nat) simp
  moreover have "unat (of_nat (page_load (ip_vctRecord p) + (rec_size rec + 2)) :: u32) \<le> MAX_DATA_LENGTH_BRANCH"
    using le by (simp only: inv(3) slot_len_nat of_nat_add)
  ultimately show "page_load (ip_vctRecord q) \<le> MAX_DATA_LENGTH_BRANCH"
    by (simp add: q)
qed

section \<open>Saving and loading\<close>

lemma scast_ucast_small:
  assumes "unat (x :: u32) < 32768" shows "scast (ucast x :: u16) = x"
proof -
  have "uint x = int (unat x)" by simp
  then have x: "uint x < 32768" using assms by linarith
  have "uint (ucast x :: u16) = take_bit 16 (uint x)" by (simp add: unsigned_ucast_eq)
  also have "\<dots> = uint x" by (rule take_bit_int_eq_self) (use x in simp_all)
  finally have "sint (ucast x :: u16) = signed_take_bit 15 (uint x)" by (simp only: sint_uint) simp
  also have "\<dots> = uint x"
  proof (rule signed_take_bit_int_eq_self)
    show "- (2 ^ 15) \<le> uint x" by (rule order_trans [of _ 0]) simp_all
  qed (use x in simp)
  finally show ?thesis by (simp only: scast_eq word_of_int_uint)
qed

text \<open>A record read back from its image is the same record as far as the index is concerned.\<close>

lemma loaded_fields:
  assumes "branch_ok br"
  shows "GetTotalLength (BranchRecord_load t (rec_image br) c) = GetTotalLength br"
    and "GetKeyLength (BranchRecord_load t (rec_image br) c) = GetKeyLength br"
    and "rec_key (BranchRecord_load t (rec_image br) c) = rec_key br"
    and "rec_data (BranchRecord_load t (rec_image br) c) = rec_data br"
    and "rec_image (BranchRecord_load t (rec_image br) c) = rec_image br"
    and "branch_ok (BranchRecord_load t (rec_image br) c)"
    and "GetChildPageId (BranchRecord_load t (rec_image br) c) = GetChildPageId br"
proof -
  let ?l = "BranchRecord_load t (rec_image br) c" and ?n = "unat (GetTotalLength br)"
  have ok: "rr_class br = BranchClass" "?n \<le> length (rr_bysVal br)"
    "4 + unat (GetKeyLength br) + 4 \<le> ?n"
    using assms by (auto simp: branch_ok_def)
  have bys: "rr_bysVal ?l = take ?n (rr_bysVal br)" "rr_class ?l = BranchClass"
    by (simp_all add: BranchRecord_load_def rec_image_def)
  have rds: "(rd off (take ?n (rr_bysVal br)) :: u16) = rd off (rr_bysVal br)" if "off + 2 \<le> ?n" for off
    using that by (simp add: rd_take)
  show tot: "GetTotalLength ?l = GetTotalLength br"
    using ok rds [of 0] by (simp add: GetTotalLength_def bys)
  show kl: "GetKeyLength ?l = GetKeyLength br"
    using ok rds [of 2] by (simp add: GetKeyLength_def bys)
  show "rec_key ?l = rec_key br"
    using ok by (simp add: rec_key_def bys kl drop_take min_def)
  have dl: "GetDataLength ?l = GetDataLength br"
    using ok rds [of 0] by (simp add: GetDataLength_def bys)
  have "(rd 0 (rr_bysVal br) :: u16) = GetTotalLength br" using ok(1) by (simp add: GetTotalLength_def)
  then have "GetDataLength br = GetTotalLength br - 8" using ok(1) by (simp add: GetDataLength_def)
  moreover have "(8 :: u16) \<le> GetTotalLength br" using ok(3) by (simp add: word_le_nat_alt)
  ultimately have "unat (GetDataLength br) = ?n - 8" by (simp add: unat_sub)
  then show "rec_data ?l = rec_data br"
    by (simp add: rec_data_def bys dl drop_take min_def)
  show "rec_image ?l = rec_image br"
    unfolding rec_image_def [of ?l] tot bys by (simp add: rec_image_def)
  show "branch_ok ?l"
    using ok by (simp add: branch_ok_def tot kl bys)
  have "(rd (?n - 4) (take ?n (rr_bysVal br)) :: u32) = rd (?n - 4) (rr_bysVal br)"
    using ok by (simp add: rd_take)
  then show "GetChildPageId ?l = GetChildPageId br"
    by (simp add: GetChildPageId_def tot bys)
qed

lemma loaded_order:
  assumes "branch_ok br" "rec_wf t br"
  shows "order_bytes t (BranchRecord_load t (rec_image br) c) = order_bytes t br"
    and "rec_wf t (BranchRecord_load t (rec_image br) c)"
proof -
  note ld = loaded_fields [OF assms(1), of t c]
  show "order_bytes t (BranchRecord_load t (rec_image br) c) = order_bytes t br"
    unfolding order_bytes_def ld ..
  have len: "length (rec_image br) = unat (GetTotalLength br)"
    and k: "4 + unat (GetKeyLength br) + 4 \<le> unat (GetTotalLength br)"
    using assms(1) by (auto simp: rec_image_def branch_ok_def)
  have rt: "(rd 0 (rec_image br) :: u16) = GetTotalLength br"
    using assms(1) k by (simp add: rec_image_def rd_take branch_ok_def GetTotalLength_def)
  have "(8 :: u16) \<le> GetTotalLength br" using k by (simp add: word_le_nat_alt)
  then have "unat (GetTotalLength br - 8) = unat (GetTotalLength br) - 8" by (simp add: unat_sub)
  then have dl: "UI16_2_LEN + unat (GetDataLength (BranchRecord_load t (rec_image br) c)) \<le> length (rec_image br)"
    using k by (simp add: GetDataLength_def BranchRecord_load_def rt len)
  have b: "rr_bysVal (BranchRecord_load t (rec_image br) c) = rec_image br"
    "rr_indexType (BranchRecord_load t (rec_image br) c) = t"
    by (simp_all add: BranchRecord_load_def)
  show "rec_wf t (BranchRecord_load t (rec_image br) c)"
    unfolding rec_wf_def rec_fits_def b ld(2)
  proof (intro conjI impI refl)
    show "UI16_2_LEN + unat (GetKeyLength br) \<le> length (rec_image br)" using len k by simp
  qed (rule dl)
qed

lemma branch_slot_ok: "branch_ok br \<Longrightarrow> slot_ok br"
  by (auto simp: branch_ok_def slot_ok_def GetTotalLength_def)

lemma page_load_bound: "(\<And>r. r \<in> set rs \<Longrightarrow> branch_ok r) \<Longrightarrow> 10 * length rs \<le> page_load rs"
proof (induction rs)
  case (Cons r rs)
  have "branch_ok r" by (rule Cons.prems) simp
  then have "8 \<le> rec_size r" by (simp add: branch_ok_def)
  with Cons show ?case by simp
qed simp

lemma page_load_sum: "page_load rs = recs_size rs + 2 * length rs"
  by (induction rs) auto

text \<open>The page image that \<open>SaveRecords\<close> builds when the records have changed.\<close>

definition branch_image :: "(buf \<Rightarrow> u32) \<Rightarrow> alloc \<Rightarrow> BranchPage \<Rightarrow> buf" where
  "branch_image crc32 alloc p =
     (let tmp = cp_bysPage p;
          page = (alloc INDEX_PAGE_SIZE)[PAGE_LEVEL_OFFSET := tmp ! PAGE_LEVEL_OFFSET,
                   PAGE_BEGIN_END_OFFSET := tmp ! PAGE_BEGIN_END_OFFSET];
          page = snd (save_slots (ip_vctRecord p) 12 (12 + ucast (ip_recordNum p) * 2) page);
          page = wr 6 (ucast (ip_committedDataLength p) :: u16) page;
          page = wr 4 (ucast (ip_recordNum p) :: u16) page;
          page = wr 8 (ip_parentPageId p) page
      in wr CRC32_INDEX_OFFSET (crc32 (take CRC32_INDEX_OFFSET page)) page)"

lemma SaveRecords_updated:
  assumes "cp_bDirty p" "cp_bRecordUpdated p" "cp_pageStatus p = PS_VALID"
    and "unat (ip_committedDataLength p) \<le> MAX_DATA_LENGTH_BRANCH"
    and "GetPageLevel p \<le> splitPageLevel \<or> cp_lockOwner p = None \<or> cp_lockOwner p = Some me"
  shows "BranchPage_SaveRecords crc32 alloc splitPageLevel me p =
    Some (p\<lparr>cp_bysPage := branch_image crc32 alloc p,
        ip_vctRecord := fst (save_slots (ip_vctRecord p) 12 (12 + ucast (ip_recordNum p) * 2)
          ((alloc INDEX_PAGE_SIZE)[PAGE_LEVEL_OFFSET := cp_bysPage p ! PAGE_LEVEL_OFFSET,
                   PAGE_BEGIN_END_OFFSET := cp_bysPage p ! PAGE_BEGIN_END_OFFSET])),
        cp_bRecordUpdated := False, cp_bDirty := False, cp_bNeedDisk := True\<rparr>, True)"
proof -
  have nl: "\<not> (GetPageLevel p > splitPageLevel \<and> cp_lockOwner p \<noteq> Some me \<and> cp_lockOwner p \<noteq> None)"
    using assms(5) by auto
  have st: "\<not> (cp_pageStatus p \<noteq> PS_VALID \<or> unat (ip_committedDataLength p) > MAX_DATA_LENGTH_BRANCH)"
    using assms(3,4) by simp
  have d: "\<not> \<not> cp_bDirty p" using assms(1) by simp
  show ?thesis
    unfolding BranchPage_SaveRecords_def if_not_P [OF nl] if_not_P [OF st] if_not_P [OF d]
      if_P [OF assms(2)]
    by (simp add: branch_image_def Let_def split_def page_consts)
qed

lemma branch_image_spec:
  fixes crc32 :: "buf \<Rightarrow> u32"
  assumes inv: "branch_inv t p" and al: "alloc_ok alloc"
    and fits: "page_load (ip_vctRecord p) \<le> MAX_DATA_LENGTH_BRANCH"
  defines "img \<equiv> branch_image crc32 alloc p"
  shows "length img = INDEX_PAGE_SIZE"
    and "load_slots (length (ip_vctRecord p)) 12 img = map rec_image (ip_vctRecord p)"
    and "scast (rd 4 img :: u16) = ip_recordNum p"
    and "scast (rd 6 img :: u16) = ip_committedDataLength p"
    and "rd 8 img = ip_parentPageId p"
    and "crc32 (take CRC32_INDEX_OFFSET img) = rd CRC32_INDEX_OFFSET img"
proof -
  let ?rs = "ip_vctRecord p"
  note bi = branch_invD [OF inv]
  let ?n = "length ?rs"
  have load: "page_load ?rs \<le> 16368" using fits by (simp add: page_consts)
  have n: "10 * ?n \<le> 16368" using page_load_bound [of ?rs] bi(6) load by auto
  have sz: "recs_size ?rs + 2 * ?n \<le> 16368" using load by (simp add: page_load_sum)
  define p0 where "p0 = (alloc INDEX_PAGE_SIZE)[PAGE_LEVEL_OFFSET := cp_bysPage p ! PAGE_LEVEL_OFFSET,
                   PAGE_BEGIN_END_OFFSET := cp_bysPage p ! PAGE_BEGIN_END_OFFSET]"
  define pos where "pos = (12 + ucast (ip_recordNum p) * 2 :: u16)"
  have l0: "length p0 = 16384" using al by (simp add: p0_def page_consts)
  have pos: "unat pos = 12 + 2 * ?n"
  proof -
    have "(ucast (ip_recordNum p) :: u16) = of_nat (unat (ip_recordNum p))" by simp
    then have "(ucast (ip_recordNum p) :: u16) = of_nat ?n" by (simp only: bi(1))
    then have "pos = of_nat (12 + ?n * 2)" by (simp add: pos_def)
    also have "unat \<dots> = 12 + ?n * 2" using n by (simp only: unat_of_nat) simp
    finally show ?thesis by simp
  qed
  have fit: "slots_fit ?rs 12 pos p0"
    using sz n bi(6) by (simp add: slots_fit_def l0 pos branch_slot_ok)
  define p1 where "p1 = snd (save_slots ?rs 12 pos p0)"
  define p2 where "p2 = wr 6 (ucast (ip_committedDataLength p) :: u16) p1"
  define p3 where "p3 = wr 4 (ucast (ip_recordNum p) :: u16) p2"
  define p4 where "p4 = wr 8 (ip_parentPageId p) p3"
  have img: "img = wr CRC32_INDEX_OFFSET (crc32 (take CRC32_INDEX_OFFSET p4)) p4"
    by (simp add: img_def branch_image_def p4_def p3_def p2_def p1_def pos_def p0_def Let_def)
  have l1: "length p1 = 16384" using save_slots_length [OF fit] l0 by (simp add: p1_def)
  have l2: "length p2 = 16384" using l1 by (simp add: p2_def)
  have l3: "length p3 = 16384" using l2 by (simp add: p3_def)
  have l4: "length p4 = 16384" using l3 by (simp add: p4_def)
  show len: "length img = INDEX_PAGE_SIZE" using l4 by (simp add: img page_consts)
  have "same_area 12 (12 + 2 * ?n + recs_size ?rs) p1 img"
    unfolding img p4_def p3_def p2_def
    by (intro same_area_wr same_area_refl) (use sz l1 l2 l3 l4 in \<open>simp_all add: page_consts p4_def p3_def p2_def\<close>)
  then show "load_slots ?n 12 img = map rec_image ?rs"
    using load_saved [OF fit, of img] by (simp add: pos p1_def)
  have r4: "rd 4 img = (ucast (ip_recordNum p) :: u16)"
    using l2 l3 l4 by (simp add: img p4_def p3_def page_consts rd_wr_other)
  have r6: "rd 6 img = (ucast (ip_committedDataLength p) :: u16)"
    using l1 l2 l3 l4 by (simp add: img p4_def p3_def p2_def page_consts rd_wr_other)
  show "rd 8 img = ip_parentPageId p"
    using l3 l4 by (simp add: img p4_def page_consts rd_wr_other)
  have "unat (ip_recordNum p) < 32768" using bi(1) n by simp
  then show "scast (rd 4 img :: u16) = ip_recordNum p" by (simp add: r4 scast_ucast_small)
  have "unat (of_nat (page_load ?rs) :: u32) = page_load ?rs"
    using load by (simp only: unat_of_nat) simp
  then have "unat (ip_committedDataLength p) < 32768" using load by (simp add: bi(3))
  then show "scast (rd 6 img :: u16) = ip_committedDataLength p" by (simp add: r6 scast_ucast_small)
  have "take CRC32_INDEX_OFFSET img = take CRC32_INDEX_OFFSET p4"
    using l4 by (simp add: img wr_def patch_def page_consts)
  then show "crc32 (take CRC32_INDEX_OFFSET img) = rd CRC32_INDEX_OFFSET img"
    using l4 by (simp add: img page_consts)
qed

lemma InitParameters_image:
  assumes inv: "branch_inv t p" and al: "alloc_ok alloc"
    and fits: "page_load (ip_vctRecord p) \<le> MAX_DATA_LENGTH_BRANCH"
    and f: "\<not> cp_bDirty f" "ip_vctRecord f = []" "cp_bysPage f = branch_image crc32 alloc p"
  obtains r where "BranchPage_InitParameters t None f = Some r" "branch_inv t r"
    "map rec_image (ip_vctRecord r) = map rec_image (ip_vctRecord p)"
    "ip_vctRecord r = map (\<lambda>br. BranchRecord_load t (rec_image br) None) (ip_vctRecord p)"
    "ip_parentPageId r = ip_parentPageId p" "ip_recordNum r = ip_recordNum p"
    "ip_committedDataLength r = ip_committedDataLength p" "cp_bysPage r = cp_bysPage f"
proof -
  note bi = branch_invD [OF inv] and im = branch_image_spec [OF inv al fits, of crc32]
  let ?rs = "ip_vctRecord p"
  let ?ld = "\<lambda>br. BranchRecord_load t (rec_image br) None"
  define r where "r = f\<lparr>cp_score := 10000, ip_recordNum := ip_recordNum p,
    ip_committedDataLength := ip_committedDataLength p, ip_parentPageId := ip_parentPageId p,
    ip_vctRecord := map ?ld ?rs\<rparr>"
  have "BranchPage_InitParameters t None f = Some r"
    using im bi(1) f
    by (simp add: BranchPage_InitParameters_def BranchPage_LoadRecords_def r_def page_consts Let_def o_def)
  moreover have wf: "branch_ok (?ld br) \<and> rec_wf t (?ld br) \<and> order_bytes t (?ld br) = order_bytes t br \<and>
      rec_image (?ld br) = rec_image br \<and> rec_size (?ld br) = rec_size br" if "br \<in> set ?rs" for br
    using that bi(5,6) loaded_fields [of br t None] loaded_order [of br t None] by auto
  have load: "page_load (map ?ld ?rs) = page_load ?rs"
    unfolding page_load_def using wf by (simp add: o_def cong: map_cong)
  have "sorted_wrt (rec_before t) (map ?ld ?rs)"
    unfolding sorted_wrt_map using bi(4)
    by (rule sorted_wrt_mono_rel [rotated]) (use wf in \<open>auto simp: rec_before_def\<close>)
  then have "branch_inv t r"
    using inv wf load im(1) f(3) by (auto simp: branch_inv_def r_def)
  moreover have "map rec_image (map ?ld ?rs) = map rec_image ?rs" using wf by simp
  ultimately show ?thesis
    by (intro that [of r]) (simp_all add: r_def)
qed

lemma committed_le:
  "branch_inv t p \<Longrightarrow> page_load (ip_vctRecord p) < 2 ^ 32 \<Longrightarrow>
   unat (ip_committedDataLength p) = page_load (ip_vctRecord p)"
  by (simp add: branch_inv_def unat_of_nat)

text \<open>
  C3: saving a changed branch page and reading the page back gives the same records. For every page
  that satisfies the invariant and fits, \<open>SaveRecords\<close> succeeds, and a page object loaded from the
  saved buffer (\<open>AfterRead\<close>, which checks the CRC-32 and runs \<open>InitParameters\<close> and \<open>LoadRecords\<close>)
  satisfies the invariant and has the same record bytes, counters and parent.
\<close>

theorem BranchPage_save_load:
  assumes "branch_inv t p" "alloc_ok alloc"
    and "cp_bDirty p" "cp_bRecordUpdated p" "cp_pageStatus p = PS_VALID"
    and "page_load (ip_vctRecord p) \<le> MAX_DATA_LENGTH_BRANCH"
    and "GetPageLevel p \<le> splitPageLevel \<or> cp_lockOwner p = None \<or> cp_lockOwner p = Some me"
    and "\<not> cp_bDirty f" "ip_vctRecord f = []"
  shows "\<exists>q r. BranchPage_SaveRecords crc32 alloc splitPageLevel me p = Some (q, True) \<and>
    \<not> cp_bDirty q \<and> \<not> cp_bRecordUpdated q \<and>
    AfterRead crc32 (BranchPage_InitParameters t None) (f\<lparr>cp_bysPage := cp_bysPage q\<rparr>) = Some r \<and>
    branch_inv t r \<and> cp_pageStatus r = READED \<and>
    map rec_image (ip_vctRecord r) = map rec_image (ip_vctRecord p) \<and>
    ip_recordNum r = ip_recordNum p \<and> ip_committedDataLength r = ip_committedDataLength p \<and>
    ip_parentPageId r = ip_parentPageId p"
proof -
  have "page_load (ip_vctRecord p) < 2 ^ 32" using assms(6) by (simp add: page_consts)
  then have c: "unat (ip_committedDataLength p) \<le> MAX_DATA_LENGTH_BRANCH"
    using assms(1,6) by (simp add: committed_le)
  note sv = SaveRecords_updated [OF assms(3-5) c assms(7), of crc32 alloc]
  let ?f = "f\<lparr>cp_bysPage := branch_image crc32 alloc p\<rparr>"
  obtain r where r: "BranchPage_InitParameters t None ?f = Some r" "branch_inv t r"
    "map rec_image (ip_vctRecord r) = map rec_image (ip_vctRecord p)"
    "ip_parentPageId r = ip_parentPageId p" "ip_recordNum r = ip_recordNum p"
    "ip_committedDataLength r = ip_committedDataLength p"
    by (rule InitParameters_image [OF assms(1,2,6), of ?f crc32]) (use assms(8,9) in auto)
  have "AfterRead crc32 (BranchPage_InitParameters t None) ?f = Some (r\<lparr>cp_pageStatus := READED\<rparr>)"
    using branch_image_spec(6) [OF assms(1,2,6), of crc32] r(1) by (simp add: AfterRead_def)
  moreover have "branch_inv t (r\<lparr>cp_pageStatus := READED\<rparr>)" using r(2) by (simp add: branch_inv_def)
  ultimately show ?thesis using sv r by simp
qed

text \<open>A small page for the examples: one-byte keys 5 and 9 with the child pages 1 and 2.\<close>

definition sample_entry :: "byte \<Rightarrow> u32 \<Rightarrow> BranchRecord" where
  "sample_entry k pid = BranchRecord_load UNIQUE
     (store (9 :: u16) @ store (1 :: u16) @ [k] @ store pid) None"

definition sample_branch :: "BranchRecord list \<Rightarrow> bool \<Rightarrow> BranchPage" where
  "sample_branch rs dirty =
     \<lparr>cp_bysPage = replicate 16384 0, cp_pageId = 3, cp_fileId = 1, cp_bDirty = dirty,
      cp_bRecordUpdated = dirty, cp_pageStatus = PS_VALID, cp_pageType = BRANCH_PAGE,
      cp_bRefered = True, cp_bWriteQueue = False, cp_bNeedDisk = False, cp_score = 100,
      cp_waiting = 0, cp_lockOwner = None, ip_parentPageId = 4,
      ip_committedDataLength = of_nat (11 * length rs), ip_tempDataLength = 0,
      ip_recordNum = of_nat (length rs), ip_parentPage = None, ip_vctRecord = rs\<rparr>"

definition two_entries :: "BranchRecord list" where
  "two_entries = [sample_entry 5 1, sample_entry 9 2]"

lemma sample_entry_fields [simp]:
  "rr_class (sample_entry k pid) = BranchClass" "rr_indexType (sample_entry k pid) = UNIQUE"
  "GetTotalLength (sample_entry k pid) = 9" "GetKeyLength (sample_entry k pid) = 1"
  "length (rr_bysVal (sample_entry k pid)) = 9" "rec_key (sample_entry k pid) = [k]"
  by (simp_all add: sample_entry_def BranchRecord_load_def GetTotalLength_def GetKeyLength_def rec_key_def)

lemma sample_entry_ok [simp]:
  "branch_ok (sample_entry k pid)" "rec_wf UNIQUE (sample_entry k pid)"
  "rec_before UNIQUE (sample_entry k pid) (sample_entry l pid') \<longleftrightarrow> k < l"
  by (simp_all add: branch_ok_def rec_wf_def rec_fits_def rec_before_def order_bytes_def)

lemma sample_branch_inv: "branch_inv UNIQUE (sample_branch two_entries d)"
  by (simp add: branch_inv_def sample_branch_def two_entries_def page_consts)

theorem BranchPage_save_load_witness:
  "\<exists>q r. BranchPage_SaveRecords (\<lambda>_. 7) (\<lambda>n. replicate n 1) 255 0 (sample_branch two_entries True) = Some (q, True) \<and>
    AfterRead (\<lambda>_. 7) (BranchPage_InitParameters UNIQUE None)
      ((sample_branch [] False)\<lparr>cp_bysPage := cp_bysPage q\<rparr>) = Some r \<and>
    map rec_image (ip_vctRecord r) = map rec_image two_entries"
  using BranchPage_save_load [OF sample_branch_inv [of True] alloc_ok_replicate [of 1], of 255 0 "sample_branch [] False" "\<lambda>_. 7"]
  by (auto simp: sample_branch_def two_entries_def page_consts GetPageLevel_def)

text \<open>
  \<open>SearchRecord\<close> finds the child a record belongs to. On a non-empty page that satisfies the
  invariant it returns a valid position; all records before it are smaller than the searched record,
  and the record there is not smaller, except that a record beyond the last separator is sent to
  the last child.
\<close>

theorem BranchPage_SearchRecord_correct:
  assumes "branch_inv t p" "ip_vctRecord p \<noteq> []" "rec_wf t rr"
  shows "let pos = BranchPage_SearchRecord t rr p; rs = ip_vctRecord p in
    0 \<le> pos \<and> pos < int (length rs) \<and> (\<forall>r \<in> set (take (nat pos) rs). rec_cmp t r rr < 0) \<and>
    (rec_cmp t (rs ! nat pos) rr \<ge> 0 \<or>
     pos = int (length rs) - 1 \<and> (\<forall>r \<in> set rs. rec_cmp t r rr < 0))"
  using SearchRecord_spec [OF assms] by (simp add: routes_def Let_def)

theorem BranchPage_SearchRecord_correct_witness:
  "BranchPage_SearchRecord UNIQUE (sample_entry 7 0) (sample_branch two_entries True) < 2 \<and>
   list_all (\<lambda>r. rec_cmp UNIQUE r (sample_entry 7 0) < 0)
     (take (nat (BranchPage_SearchRecord UNIQUE (sample_entry 7 0) (sample_branch two_entries True))) two_entries)"
  using BranchPage_SearchRecord_correct [OF sample_branch_inv [of True] _ sample_entry_ok(2) [of 7 0]]
  by (simp add: Let_def sample_branch_def two_entries_def list_all_iff)

text \<open>
  \<open>SearchKey\<close> finds the first record whose key is not below the searched key, also when a
  non-unique index has several equal keys, provided no key is a proper prefix of another one.
\<close>

theorem BranchPage_SearchKey_correct:
  assumes "branch_inv t p" "ip_vctRecord p \<noteq> []" "key_ok k"
    and "t = NON_UNIQUE \<Longrightarrow> prefix_free (map rec_key (ip_vctRecord p))"
  shows "let pos = BranchPage_SearchKey t k p; rs = ip_vctRecord p in
    0 \<le> pos \<and> pos < int (length rs) \<and> (\<forall>r \<in> set (take (nat pos) rs). CompareKey r k < 0) \<and>
    (CompareKey (rs ! nat pos) k \<ge> 0 \<or>
     pos = int (length rs) - 1 \<and> (\<forall>r \<in> set rs. CompareKey r k < 0))"
  using SearchKey_spec [OF assms] by (simp add: routes_def Let_def)

theorem BranchPage_SearchKey_correct_witness:
  "list_all (\<lambda>r. CompareKey r (RawKey_wrap [9] 1 False) < 0)
     (take (nat (BranchPage_SearchKey UNIQUE (RawKey_wrap [9] 1 False) (sample_branch two_entries True))) two_entries)"
  using BranchPage_SearchKey_correct [OF sample_branch_inv [of True], of "RawKey_wrap [9] 1 False"]
  by (simp add: Let_def sample_branch_def two_entries_def key_ok_def RawKey_wrap_def list_all_iff)

text \<open>
  Inserting a separator where it belongs keeps the invariant of a branch page, and deleting it
  again gives the old records and lengths back.
\<close>

theorem BranchPage_insert_delete:
  assumes "branch_inv t p" "page_usable p" "0 \<le> pos" "pos \<le> int (length (ip_vctRecord p))"
    and "branch_ok rec" "rec_wf t rec" "length (ip_vctRecord p) + 1 < 2 ^ 31"
    and "\<forall>r \<in> set (take (nat pos) (ip_vctRecord p)). rec_before t r rec"
    and "\<forall>r \<in> set (drop (nat pos) (ip_vctRecord p)). rec_before t rec r"
  shows "\<exists>q s. BranchPage_InsertRecord rec pos p = Some q \<and> branch_inv t q \<and>
    ip_vctRecord q = insert_at (nat pos) rec (ip_vctRecord p) \<and>
    BranchPage_DeleteRecord (nat pos) q = Some (s, rec) \<and> branch_inv t s \<and>
    ip_vctRecord s = ip_vctRecord p \<and> ip_committedDataLength s = ip_committedDataLength p \<and>
    ip_recordNum s = ip_recordNum p"
proof -
  obtain q where q: "BranchPage_InsertRecord rec pos p = Some q" "branch_inv t q"
    "ip_vctRecord q = insert_at (nat pos) rec (ip_vctRecord p)" "cp_bDirty q"
    using InsertRecord_inv [OF assms] by blast
  have np: "nat pos \<le> length (ip_vctRecord p)" using assms(3,4) by simp
  have nth: "ip_vctRecord q ! nat pos = rec" using np by (simp add: q(3) insert_at_def nth_append)
  have us: "page_usable q" using q(1) assms(2) by (auto simp: BranchPage_InsertRecord_def page_usable_def split: if_splits)
  have "nat pos < length (ip_vctRecord q)" using np by (simp add: q(3))
  from DeleteRecord_inv [OF q(2) us this] obtain s where s:
    "BranchPage_DeleteRecord (nat pos) q = Some (s, ip_vctRecord q ! nat pos)" "branch_inv t s"
    "ip_vctRecord s = remove_at (nat pos) (ip_vctRecord q)" by blast
  have rs: "ip_vctRecord s = ip_vctRecord p" using s(3) np by (simp add: q(3) remove_insert_at)
  then have "ip_committedDataLength s = ip_committedDataLength p" "ip_recordNum s = ip_recordNum p"
    using s(2) assms(1) by (simp_all add: branch_inv_def)
  with q s nth rs show ?thesis by auto
qed

theorem BranchPage_insert_delete_witness:
  "\<exists>q s. BranchPage_InsertRecord (sample_entry 7 3) 1 (sample_branch two_entries True) = Some q \<and>
    ip_vctRecord q = [sample_entry 5 1, sample_entry 7 3, sample_entry 9 2] \<and>
    BranchPage_DeleteRecord 1 q = Some (s, sample_entry 7 3) \<and> ip_vctRecord s = two_entries"
proof -
  have f: "ip_vctRecord (sample_branch two_entries True) = two_entries"
    "page_usable (sample_branch two_entries True)"
    by (simp_all add: sample_branch_def page_usable_def)
  show ?thesis
    using BranchPage_insert_delete [OF sample_branch_inv [of True], of 1 "sample_entry 7 3"] f
    by (fastforce simp: two_entries_def insert_at_def)
qed

end
