(* ===== verification/Leaf_Page.thy ===== *)
theory Leaf_Page
  imports Leaf_Lock Branch_Page
begin

text \<open>
  Leaf pages: \<open>core/LeafPage.{h,cpp}\<close>. A leaf page keeps its records in order together with two
  lengths: the bytes of the committed versions, which is what will be written to disk, and the
  bytes of the newest versions. \<open>None\<close> is a failed assertion; the page ids given back to the tree are
  part of the results.
\<close>

record LeafPage = "LeafRecord IndexPage" +
  lp_prevPageId :: u32
  lp_nextPageId :: u32
  lp_prevPage :: "page_ref option"
  lp_nextPage :: "page_ref option"
  lp_bRangeEndPage :: bool
  lp_bRangeBeginPage :: bool

abbreviation raws :: "LeafPage \<Rightarrow> RawRecord list" where
  "raws p \<equiv> map lr_raw (ip_vctRecord p)"

definition SetPrevPageId :: "u32 \<Rightarrow> LeafPage \<Rightarrow> LeafPage" where
  "SetPrevPageId pid p = p\<lparr>lp_prevPageId := pid, cp_bDirty := True\<rparr>"

definition SetNextPageId :: "u32 \<Rightarrow> LeafPage \<Rightarrow> LeafPage" where
  "SetNextPageId pid p = p\<lparr>lp_nextPageId := pid, cp_bDirty := True\<rparr>"

definition LeafPage_SetRecordUpdated :: "LeafPage \<Rightarrow> LeafPage" where
  "LeafPage_SetRecordUpdated p = p\<lparr>cp_bDirty := True, cp_bRecordUpdated := True\<rparr>"

definition LeafPage_IsOverlength :: "LeafPage \<Rightarrow> bool" where
  "LeafPage_IsOverlength p \<longleftrightarrow> unat (ip_committedDataLength p) \<ge> MAX_DATA_LENGTH_LEAF \<or>
     unat (ip_tempDataLength p) \<ge> MAX_DATA_LENGTH_LEAF"

section \<open>Loading\<close>

definition LeafPage_LoadRecords :: "IndexType \<Rightarrow> LeafPage \<Rightarrow> LeafPage option" where
  "LeafPage_LoadRecords t p =
     (if cp_bDirty p \<or> ip_vctRecord p \<noteq> [] then None
      else Some (p\<lparr>ip_vctRecord :=
        map (LeafRecord_load t)
          (load_slots (unat (ip_recordNum p)) (of_nat LEAF_DATA_BEGIN_OFFSET) (cp_bysPage p))\<rparr>))"

text \<open>The page ids of the parent, previous and next page when those pointers are set.\<close>

definition LeafPage_InitParameters ::
    "IndexType \<Rightarrow> u32 option \<Rightarrow> u32 option \<Rightarrow> u32 option \<Rightarrow> LeafPage \<Rightarrow> LeafPage option" where
  "LeafPage_InitParameters t parentId prevId nextId p =
     (if cp_bDirty p then None
      else
        let b = cp_bysPage p;
            len = scast (ReadShort b TOTAL_DATA_LENGTH_OFFSET);
            p = p\<lparr>cp_score := 100,
                  ip_recordNum := scast (ReadShort b NUM_RECORD_OFFSET),
                  ip_committedDataLength := len, ip_tempDataLength := len,
                  ip_parentPageId := ReadInt b PARENT_PAGE_POINTER_OFFSET,
                  lp_prevPageId := ReadInt b PREV_PAGE_POINTER_OFFSET,
                  lp_nextPageId := ReadInt b NEXT_PAGE_POINTER_OFFSET\<rparr>;
            p = (case parentId of
                   Some i \<Rightarrow> if ip_parentPageId p \<noteq> i then p\<lparr>ip_parentPageId := i, cp_bDirty := True\<rparr> else p
                 | None \<Rightarrow> p);
            p = (case prevId of
                   Some i \<Rightarrow> if lp_prevPageId p \<noteq> i then p\<lparr>lp_prevPageId := i, cp_bDirty := True\<rparr> else p
                 | None \<Rightarrow> p);
            p = (case nextId of
                   Some i \<Rightarrow> if lp_nextPageId p \<noteq> i then p\<lparr>lp_nextPageId := i, cp_bDirty := True\<rparr> else p
                 | None \<Rightarrow> p)
        in LeafPage_LoadRecords t p)"

definition LeafPage_ClearRecords :: "LeafPage \<Rightarrow> LeafPage" where
  "LeafPage_ClearRecords p = p\<lparr>ip_vctRecord := []\<rparr>"

definition LeafPage_GetRecord :: "IndexType \<Rightarrow> int \<Rightarrow> LeafPage \<Rightarrow> (LeafPage \<times> LeafRecord) option" where
  "LeafPage_GetRecord t pos p =
     (if 0 \<le> pos \<and> pos < uint (ip_recordNum p)
      then (case (if ip_vctRecord p = [] then LeafPage_LoadRecords t p else Some p) of
              None \<Rightarrow> None
            | Some p \<Rightarrow> Some (p, ip_vctRecord p ! nat pos))
      else None)"

section \<open>Searching\<close>

definition clip_end :: "LeafPage \<Rightarrow> int \<Rightarrow> int" where
  "clip_end p ende = (if ende \<ge> uint (ip_recordNum p) then uint (ip_recordNum p) - 1 else ende)"

definition LeafPage_SearchRecord ::
    "IndexType \<Rightarrow> 'a RawRecord_scheme \<Rightarrow> int \<Rightarrow> int \<Rightarrow> LeafPage \<Rightarrow> bool \<times> int" where
  "LeafPage_SearchRecord t rr start ende p =
     bsearch (probe (rec_cmp t) (raws p) rr) (\<lambda>_. False) start (clip_end p ende)"

definition LeafPage_SearchKey :: "IndexType \<Rightarrow> RawKey \<Rightarrow> int \<Rightarrow> int \<Rightarrow> LeafPage \<Rightarrow> bool \<times> int" where
  "LeafPage_SearchKey t key start ende p =
     (let bUnique = (t \<noteq> NON_UNIQUE); hr = probe CompareKey (raws p) key in
      bsearch hr (\<lambda>m. \<not> bUnique \<and> hr (m - 1) = 0) start (clip_end p ende))"

definition LeafPage_SearchKey_rec ::
    "IndexType \<Rightarrow> 'a RawRecord_scheme \<Rightarrow> int \<Rightarrow> int \<Rightarrow> LeafPage \<Rightarrow> bool \<times> int" where
  "LeafPage_SearchKey_rec t rr start ende p =
     (let bUnique = (t \<noteq> NON_UNIQUE); hr = probe CompareKey_rec (raws p) rr in
      bsearch hr (\<lambda>m. \<not> bUnique \<and> hr (m - 1) = 0) start (clip_end p ende))"

section \<open>Updating\<close>

definition INT32_MAX :: int where "INT32_MAX = 2147483647"

definition LeafPage_InsertRecord :: "LeafRecord \<Rightarrow> int \<Rightarrow> LeafPage \<Rightarrow> LeafPage option" where
  "LeafPage_InsertRecord lr pos p =
     (if (lr_recLock lr = None \<or> GetAction lr = INSERT) \<and> 0 \<le> pos \<and> pos \<le> uint (ip_recordNum p) \<and>
         (ip_recordNum p = 0 \<or> ip_vctRecord p \<noteq> [])
      then Some (p\<lparr>ip_tempDataLength := ip_tempDataLength p + slot_len (lr_raw lr),
                   ip_committedDataLength :=
                     (if lr_recLock lr = None then ip_committedDataLength p + slot_len (lr_raw lr)
                      else ip_committedDataLength p),
                   ip_vctRecord := insert_at (nat pos) lr (ip_vctRecord p),
                   ip_recordNum := ip_recordNum p + 1,
                   cp_bDirty := True, cp_bRecordUpdated := True\<rparr>)
      else None)"

text \<open>
  \<open>with_undo lr old\<close>: the record after its lock has taken over the old version and reports success.
\<close>

definition with_undo :: "LeafRecord \<Rightarrow> LeafRecord \<Rightarrow> LeafRecord" where
  "with_undo lr old = set_lock (map_option (\<lambda>l. set_result IN_PAGE (set_undo (Some old) l)) (lr_recLock lr)) lr"

definition LeafPage_DeleteRecord :: "LeafRecord \<Rightarrow> int \<Rightarrow> LeafPage \<Rightarrow> LeafPage option" where
  "LeafPage_DeleteRecord lr pos p =
     (if GetAction lr = DELETE \<and> 0 \<le> pos \<and> pos \<le> uint (ip_recordNum p) \<and>
         (ip_recordNum p = 0 \<or> ip_vctRecord p \<noteq> [])
      then let old = ip_vctRecord p ! nat pos in
        if lr_bDelete old then None
        else Some (p\<lparr>ip_tempDataLength := ip_tempDataLength p - slot_len (lr_raw old),
                     ip_vctRecord := (ip_vctRecord p)[nat pos := with_undo lr old],
                     cp_bDirty := True, cp_bRecordUpdated := True\<rparr>)
      else None)"

definition LeafPage_AppendRecord ::
    "IndexType \<Rightarrow> LeafRecord \<Rightarrow> bool \<Rightarrow> LeafPage \<Rightarrow> (LeafPage \<times> bool) option" where
  "LeafPage_AppendRecord t lr bFullPage p =
     (let maxLen = (if bFullPage then MAX_DATA_LENGTH_LEAF else MAX_DATA_LENGTH_LEAF * LOAD_FACTOR div 100) in
      if unat (ip_committedDataLength p + slot_len (lr_raw lr)) > maxLen then Some (p, False)
      else case (if unat (ip_recordNum p) > 0 \<and> ip_vctRecord p = [] then LeafPage_LoadRecords t p else Some p) of
        None \<Rightarrow> None
      | Some p \<Rightarrow>
          if lr_recLock lr \<noteq> None then None
          else Some (p\<lparr>ip_committedDataLength := ip_committedDataLength p + slot_len (lr_raw lr),
                       ip_vctRecord := ip_vctRecord p @ [lr],
                       ip_recordNum := ip_recordNum p + 1,
                       cp_bDirty := True, cp_bRecordUpdated := True\<rparr>, True))"

text \<open>
  \<open>ReleaseLock\<close> of the record at \<open>pos\<close>: the lengths of the page follow the change of the record's
  own lengths. A record found deleted stays in the vector.
\<close>

definition len_delta :: "int \<Rightarrow> int \<Rightarrow> u32" where
  "len_delta new old = of_int (new - old)"

definition LeafPage_ReleaseLock ::
    "nat \<Rightarrow> LeafPage \<Rightarrow> (LeafPage \<times> ReleaseResult \<times> (u32 \<times> u16) list) option" where
  "LeafPage_ReleaseLock pos p =
     (let lr = ip_vctRecord p ! pos in
      case ReleaseLock lr of
        None \<Rightarrow> None
      | Some (lr', rr, rec) \<Rightarrow>
          Some (UpdateDataLength (p\<lparr>ip_vctRecord := (ip_vctRecord p)[pos := lr']\<rparr>)
                  (len_delta (commitLen lr') (commitLen lr)) (len_delta (tempLen lr') (tempLen lr)), rr, rec))"

text \<open>
  The first part of \<open>UpdateAction\<close>: find the record, release a finished lock on it and erase it if it
  is deleted. The destructor of a record asserts that it has no lock.
\<close>

definition UpdateAction_find ::
    "IndexType \<Rightarrow> LeafRecord \<Rightarrow> LeafPage \<Rightarrow> (LeafPage \<times> bool \<times> nat \<times> (u32 \<times> u16) list) option" where
  "UpdateAction_find t lr p =
     (let (bFind, ipos) = LeafPage_SearchRecord t (lr_raw lr) 0 INT32_MAX p; pos = nat ipos in
      if \<not> bFind then Some (p, False, pos, [])
      else
        case (if lr_recLock (ip_vctRecord p ! pos) \<noteq> None \<and> ReleaseLockAble (ip_vctRecord p ! pos)
              then map_option (\<lambda>(p, rr, rec). (p, rec)) (LeafPage_ReleaseLock pos p)
              else Some (p, [])) of
          None \<Rightarrow> None
        | Some (p, rec) \<Rightarrow>
            let old = ip_vctRecord p ! pos in
            if lr_bDelete old
            then (if lr_recLock old \<noteq> None then None
                  else Some (p\<lparr>ip_vctRecord := remove_at pos (ip_vctRecord p),
                               ip_recordNum := ip_recordNum p - 1\<rparr>, False, pos, rec))
            else Some (p, True, pos, rec))"

definition STMT_LOCK_CONFLICT :: nat where "STMT_LOCK_CONFLICT = 8003"
definition STMT_DUPLICATE_ENTRY :: nat where "STMT_DUPLICATE_ENTRY = 8004"

definition fail_lock :: "nat \<Rightarrow> LeafRecord \<Rightarrow> LeafRecord" where
  "fail_lock e lr = set_lock (map_option (set_error e) (lr_recLock lr)) lr"

definition in_page :: "LeafRecord \<Rightarrow> LeafRecord" where
  "in_page lr = set_lock (map_option (set_result IN_PAGE) (lr_recLock lr)) lr"

text \<open>
  \<open>UpdateAction\<close>. The result has the page, the record as the statement sees it afterwards (its lock
  carries the outcome) and the recycled pages. In the update branch the last assignment to
  \<open>_recResult\<close> also follows a conflict.
\<close>

definition LeafPage_UpdateAction ::
    "IndexType \<Rightarrow> LeafRecord \<Rightarrow> LeafPage \<Rightarrow> (LeafPage \<times> LeafRecord \<times> (u32 \<times> u16) list) option" where
  "LeafPage_UpdateAction t lr p =
     (case UpdateAction_find t lr p of
        None \<Rightarrow> None
      | Some (p, bFind, pos, rec) \<Rightarrow>
          let old = ip_vctRecord p ! pos;
              touched = (\<lambda>p :: LeafPage. p\<lparr>cp_bDirty := True, cp_bRecordUpdated := True\<rparr>);
              inserted = (\<lambda>lr. p\<lparr>ip_tempDataLength := ip_tempDataLength p + slot_len (lr_raw lr),
                                ip_vctRecord := insert_at pos lr (ip_vctRecord p),
                                ip_recordNum := ip_recordNum p + 1\<rparr>)
          in case lr_recLock lr of
            None \<Rightarrow> None
          | Some lock \<Rightarrow>
              if rl_actType lock = INSERT then
                (if bFind then Some (p, fail_lock STMT_DUPLICATE_ENTRY lr, rec)
                 else Some (touched (inserted (in_page lr)), in_page lr, rec))
              else if rl_actType lock = DELETE then
                (if \<not> bFind \<or> rr_indexType (lr_raw lr) = PRIMARY then None
                 else if IsConflict old (hd (rl_lstTxid lock)) DELETE
                 then Some (p, fail_lock STMT_LOCK_CONFLICT lr, rec)
                 else Some (touched (p\<lparr>ip_tempDataLength := ip_tempDataLength p - slot_len (lr_raw old),
                                     ip_vctRecord := (ip_vctRecord p)[pos := with_undo lr old]\<rparr>),
                            with_undo lr old, rec))
              else if rl_actType lock = UPDATE then
                (if rr_indexType (lr_raw lr) = PRIMARY then None
                 else if bFind then
                   (if IsConflict old (hd (rl_lstTxid lock)) UPDATE
                    then Some (touched p, in_page (fail_lock STMT_LOCK_CONFLICT lr), rec)
                    else Some (touched (p\<lparr>ip_tempDataLength := ip_tempDataLength p +
                                           (slot_len (lr_raw lr) - slot_len (lr_raw old)),
                                         ip_vctRecord := (ip_vctRecord p)[pos := with_undo lr old]\<rparr>),
                               with_undo lr old, rec))
                 else Some (touched (inserted (in_page lr)), in_page lr, rec))
              else None)"

section \<open>Saving\<close>

text \<open>
  The first loop of \<open>SaveRecords\<close>. For every record it releases a finished lock, drops a deleted
  record, adds up the two lengths and chooses the version to write: the record itself when it is
  stable, else the newest stable version below it, if any. \<open>scan\<close> collects the records that stay,
  the versions to write, the lengths, whether all records are stable and the recycled pages.
\<close>

record scan =
  sc_records :: "LeafRecord list"
  sc_chosen :: "LeafRecord list"
  sc_temp :: u32
  sc_committed :: u32
  sc_clean :: bool
  sc_recycled :: "(u32 \<times> u16) list"

fun stable_version :: "LeafRecord option \<Rightarrow> LeafRecord option" where
  "stable_version None = None"
| "stable_version (Some (LeafRecord raw None ov)) = Some (LeafRecord raw None ov)"
| "stable_version (Some (LeafRecord raw (Some (RecordLock a s g r st tx u e)) ov)) =
     (if IsStable (LeafRecord raw (Some (RecordLock a s g r st tx u e)) ov)
      then Some (LeafRecord raw (Some (RecordLock a s g r st tx u e)) ov)
      else stable_version u)"

definition no_undo :: "LeafRecord \<Rightarrow> bool" where
  "no_undo lr \<longleftrightarrow> (case lr_recLock lr of None \<Rightarrow> True | Some l \<Rightarrow> rl_undoRec l = None)"

definition scan_keep :: "LeafRecord \<Rightarrow> scan \<Rightarrow> scan option" where
  "scan_keep lr s =
     (if IsStable lr then
        (if lr_bDelete lr
         then (if lr_overflowPage lr = None \<and> lr_recLock lr = None then Some s else None)
         else if \<not> no_undo lr then None
         else Some (s\<lparr>sc_records := sc_records s @ [lr], sc_chosen := sc_chosen s @ [lr],
                      sc_temp := sc_temp s + slot_len (lr_raw lr),
                      sc_committed := sc_committed s + slot_len (lr_raw lr)\<rparr>))
      else
        let s = s\<lparr>sc_records := sc_records s @ [lr], sc_temp := sc_temp s + slot_len (lr_raw lr),
                  sc_clean := False\<rparr> in
        case stable_version (rl_undoRec (the (lr_recLock lr))) of
          None \<Rightarrow> Some s
        | Some v \<Rightarrow>
            if no_undo v
            then Some (s\<lparr>sc_chosen := sc_chosen s @ [v], sc_committed := sc_committed s + slot_len (lr_raw v)\<rparr>)
            else None)"

definition scan_record :: "LeafRecord \<Rightarrow> scan \<Rightarrow> scan option" where
  "scan_record lr s =
     (if ReleaseLockAble lr
      then case ReleaseLock lr of
             None \<Rightarrow> None
           | Some (lr', res, rec) \<Rightarrow>
               let s = s\<lparr>sc_recycled := sc_recycled s @ rec\<rparr> in
               if res = DELETED then (if lr_overflowPage lr' = None then Some s else None)
               else scan_keep lr' s
      else scan_keep lr s)"

fun scan_records :: "LeafRecord list \<Rightarrow> scan \<Rightarrow> scan option" where
  "scan_records [] s = Some s"
| "scan_records (lr # lrs) s =
     (case scan_record lr s of None \<Rightarrow> None | Some s \<Rightarrow> scan_records lrs s)"

definition scan_start :: scan where
  "scan_start = \<lparr>sc_records = [], sc_chosen = [], sc_temp = 0, sc_committed = 0, sc_clean = True, sc_recycled = []\<rparr>"

text \<open>\<open>UpdateBysValue\<close> on the version that was written: it now lives in the page buffer.\<close>

fun mark_saved :: "LeafRecord \<Rightarrow> LeafRecord" where
  "mark_saved (LeafRecord raw None ov) = LeafRecord (UpdateBysValue raw (rec_image raw) False) None ov"
| "mark_saved (LeafRecord raw (Some (RecordLock a s g r st tx None e)) ov) =
     (if IsStable (LeafRecord raw (Some (RecordLock a s g r st tx None e)) ov)
      then LeafRecord (UpdateBysValue raw (rec_image raw) False) (Some (RecordLock a s g r st tx None e)) ov
      else LeafRecord raw (Some (RecordLock a s g r st tx None e)) ov)"
| "mark_saved (LeafRecord raw (Some (RecordLock a s g r st tx (Some u) e)) ov) =
     (if IsStable (LeafRecord raw (Some (RecordLock a s g r st tx (Some u) e)) ov)
      then LeafRecord (UpdateBysValue raw (rec_image raw) False) (Some (RecordLock a s g r st tx (Some u) e)) ov
      else LeafRecord raw (Some (RecordLock a s g r st tx (Some (mark_saved u)) e)) ov)"

text \<open>
  \<open>LeafPage::SaveRecords\<close>. The result has the page, the returned flag, the recycled page ids and the
  overflow pages put on the write queue. \<open>SaveData\<close> asserts that a written version has no lock.
\<close>

definition write_pointers :: "(buf \<Rightarrow> u32) \<Rightarrow> LeafPage \<Rightarrow> buf \<Rightarrow> buf" where
  "write_pointers crc32 p b =
     (let b = WriteInt PARENT_PAGE_POINTER_OFFSET (ip_parentPageId p) b;
          b = WriteInt PREV_PAGE_POINTER_OFFSET (lp_prevPageId p) b;
          b = WriteInt NEXT_PAGE_POINTER_OFFSET (lp_nextPageId p) b
      in WriteInt CRC32_INDEX_OFFSET (crc32 (take CRC32_INDEX_OFFSET b)) b)"

definition LeafPage_SaveRecords ::
    "(buf \<Rightarrow> u32) \<Rightarrow> alloc \<Rightarrow> LeafPage
       \<Rightarrow> (LeafPage \<times> bool \<times> (u32 \<times> u16) list \<times> OverflowPage list) option" where
  "LeafPage_SaveRecords crc32 alloc p =
     (if \<not> cp_bDirty p then None
      else if cp_pageStatus p \<noteq> PS_VALID \<or> unat (ip_committedDataLength p) > MAX_DATA_LENGTH_LEAF
      then Some (p, False, [], [])
      else if \<not> cp_bRecordUpdated p
      then Some (p\<lparr>cp_bysPage := write_pointers crc32 p (cp_bysPage p), cp_bDirty := False,
                   cp_bNeedDisk := True\<rparr>, True, [], [])
      else case scan_records (ip_vctRecord p) scan_start of
        None \<Rightarrow> None
      | Some s \<Rightarrow>
          let p = p\<lparr>ip_vctRecord := sc_records s, ip_tempDataLength := sc_temp s,
                    ip_committedDataLength := sc_committed s,
                    ip_recordNum := of_nat (length (sc_records s))\<rparr>;
              ovf = List.map_filter lr_overflowPage (sc_chosen s);
              vctLr = sc_chosen s
          in if unat (sc_committed s) > MAX_DATA_LENGTH_LEAF then Some (p, False, sc_recycled s, ovf)
             else if list_ex (\<lambda>lr. lr_recLock lr \<noteq> None \<or> lr_bDelete lr) vctLr then None
             else
               let tmp = cp_bysPage p;
                   page = alloc INDEX_PAGE_SIZE;
                   page = page[PAGE_LEVEL_OFFSET := tmp ! PAGE_LEVEL_OFFSET];
                   page = page[PAGE_BEGIN_END_OFFSET := tmp ! PAGE_BEGIN_END_OFFSET];
                   pos = of_nat (LEAF_DATA_BEGIN_OFFSET + length vctLr * UI16_LEN);
                   (rs, page) = save_slots (map lr_raw vctLr) (of_nat LEAF_DATA_BEGIN_OFFSET) pos page;
                   page = WriteShort NUM_RECORD_OFFSET (of_nat (length vctLr)) page;
                   page = WriteShort TOTAL_DATA_LENGTH_OFFSET (ucast (sc_committed s)) page
               in Some (p\<lparr>cp_bysPage := write_pointers crc32 p page,
                          ip_vctRecord := map mark_saved (sc_records s),
                          cp_bRecordUpdated := (if sc_clean s then False else cp_bRecordUpdated p),
                          cp_bDirty := \<not> sc_clean s, cp_bNeedDisk := True\<rparr>,
                        sc_clean s, sc_recycled s, ovf))"

text \<open>\<open>ClearObsoleteLocks\<close> releases the finished read locks of a page that was only read.\<close>

definition clear_lock :: "LeafRecord \<Rightarrow> LeafRecord option" where
  "clear_lock lr =
     (if ReleaseLockAble lr
      then if masked (GetAction lr) READ_LOCK_MASK then map_option fst (ReleaseLock lr) else None
      else Some lr)"

definition LeafPage_ClearObsoleteLocks :: "LeafPage \<Rightarrow> LeafPage option" where
  "LeafPage_ClearObsoleteLocks p =
     (let rs = map clear_lock (ip_vctRecord p) in
      if None \<in> set rs then None else Some (p\<lparr>ip_vctRecord := map the rs\<rparr>))"

end
