(* ===== verification/Leaf_Update.thy ===== *)
theory Leaf_Update
  imports Leaf_Page
begin

text \<open>
  The invariant of a leaf page and the correctness of its updates: searches find what is there, the
  records stay sorted and the two lengths of the page always are the sums over its records.
\<close>

section \<open>The invariant\<close>

definition leaf_wf :: "IndexType \<Rightarrow> RawRecord \<Rightarrow> bool" where
  "leaf_wf t raw \<longleftrightarrow> rr_class raw = LeafClass \<and> rec_wf t raw"

text \<open>All versions of a record are well formed and have the same key.\<close>

fun chain_ok :: "IndexType \<Rightarrow> LeafRecord \<Rightarrow> bool" where
  "chain_ok t (LeafRecord raw (Some (RecordLock a s g r st tx (Some u) e)) ov) =
     (leaf_wf t raw \<and> order_bytes t (lr_raw u) = order_bytes t raw \<and> chain_ok t u)"
| "chain_ok t (LeafRecord raw l ov) = leaf_wf t raw"

definition leaf_inv :: "IndexType \<Rightarrow> LeafPage \<Rightarrow> bool" where
  "leaf_inv t p \<longleftrightarrow>
     length (cp_bysPage p) = INDEX_PAGE_SIZE \<and>
     length (ip_vctRecord p) < 2 ^ 31 \<and>
     ip_recordNum p = of_nat (length (ip_vctRecord p)) \<and>
     ip_tempDataLength p = of_int (\<Sum>lr\<leftarrow>ip_vctRecord p. tempLen lr) \<and>
     ip_committedDataLength p = of_int (\<Sum>lr\<leftarrow>ip_vctRecord p. commitLen lr) \<and>
     (\<forall>lr \<in> set (ip_vctRecord p). chain_ok t lr) \<and>
     sorted_wrt (rec_before t) (raws p)"

lemma chain_wf: "chain_ok t lr \<Longrightarrow> leaf_wf t (lr_raw lr)"
  by (cases lr rule: oldest.cases) auto

lemma leaf_invD:
  assumes "leaf_inv t p"
  shows "uint (ip_recordNum p) = int (length (ip_vctRecord p))"
    and "sorted_wrt (rec_before t) (raws p)"
    and "\<forall>rr \<in> set (raws p). rec_wf t rr"
    and "\<forall>lr \<in> set (ip_vctRecord p). chain_ok t lr"
proof -
  have "unat (ip_recordNum p) = length (ip_vctRecord p)"
    using assms by (simp add: leaf_inv_def unat_of_nat)
  then show "uint (ip_recordNum p) = int (length (ip_vctRecord p))" by (metis uint_nat)
  show "\<forall>rr \<in> set (raws p). rec_wf t rr"
    using assms chain_wf [of t] by (auto simp: leaf_inv_def leaf_wf_def)
qed (use assms in \<open>auto simp: leaf_inv_def\<close>)

lemma rec_before_bytes:
  "sorted_wrt (rec_before t) rs \<longleftrightarrow> sorted_wrt (\<lambda>a b. lexcmp a b < 0) (map (order_bytes t) rs)"
  unfolding sorted_wrt_map rec_before_def [abs_def] by (rule refl)

lemma sorted_update_same:
  assumes "sorted_wrt (rec_before t) rs" "i < length rs" "order_bytes t r = order_bytes t (rs ! i)"
  shows "sorted_wrt (rec_before t) (rs[i := r])"
proof -
  have "map (order_bytes t) (rs[i := r]) = map (order_bytes t) rs"
    using assms(2,3) by (simp add: map_update) (metis length_map list_update_id nth_map)
  then show ?thesis using assms(1) by (simp add: rec_before_bytes)
qed

text \<open>Key and order bytes are a matter of the buffer, the class and the index type.\<close>

lemma same_buffer:
  assumes "rr_bysVal a = rr_bysVal b" "rr_class a = rr_class b" "rr_indexType a = rr_indexType b"
  shows "order_bytes t a = order_bytes t b" "rec_wf t a = rec_wf t b"
proof -
  have len: "GetKeyLength a = GetKeyLength b" "GetDataLength a = GetDataLength b"
    unfolding GetKeyLength_def GetDataLength_def assms by (rule refl)+
  have key: "rec_key a = rec_key b" "rec_data a = rec_data b"
    unfolding rec_key_def rec_data_def len assms by (rule refl)+
  show "order_bytes t a = order_bytes t b"
    unfolding order_bytes_def key assms by (rule refl)
  show "rec_wf t a = rec_wf t b"
    unfolding rec_wf_def rec_fits_def len assms by (rule refl)
qed

lemma leaf_wf_move:
  assumes "leaf_wf t raw" "leaf_wf t raw'"
  shows "leaf_wf t (move_assign raw raw')" "order_bytes t (move_assign raw raw') = order_bytes t raw'"
  using assms same_buffer [of "move_assign raw raw'" raw' t] by (auto simp: leaf_wf_def move_assign_def)

lemma leaf_wf_delete:
  "leaf_wf t raw \<Longrightarrow> leaf_wf t (raw\<lparr>rr_bDelete := d\<rparr>)"
  "order_bytes t (raw\<lparr>rr_bDelete := d\<rparr>) = order_bytes t raw"
  using same_buffer [of "raw\<lparr>rr_bDelete := d\<rparr>" raw t] by (auto simp: leaf_wf_def)

lemma chain_ok_lock:
  "chain_ok t (LeafRecord raw l ov) \<longleftrightarrow> leaf_wf t raw \<and>
     (\<forall>k u. l = Some k \<and> rl_undoRec k = Some u \<longrightarrow> order_bytes t (lr_raw u) = order_bytes t raw \<and> chain_ok t u)"
  by (cases l; cases "the l"; cases "rl_undoRec (the l)") auto

text \<open>Releasing a lock keeps the key of a record that is not deleted.\<close>

lemma release_key:
  "ReleaseLock lr = Some (lr', res, rec) \<Longrightarrow> chain_ok t lr \<Longrightarrow> \<not> lr_bDelete lr' \<Longrightarrow>
   chain_ok t lr' \<and> order_bytes t (lr_raw lr') = order_bytes t (lr_raw lr)"
proof (induction "versions lr" arbitrary: lr rec rule: less_induct)
  case less
  show ?case
  proof (cases lr rule: ReleaseLock.cases)
    case (1 raw ov)
    then show ?thesis using less.prems by (simp add: ReleaseLock.simps)
  next
    case (2 raw a s g r st tx u e ov)
    have wf: "leaf_wf t raw" using less.prems(2) chain_wf [of t lr] by (simp add: 2)
    have able: "ReleaseLockAble lr" using less.prems(1) by (auto simp: 2 ReleaseLock.simps(2) Let_def split: if_splits)
    consider (rd) "a = READ_SHARE \<or> a = READ_UPDATE" | (rb) "a = INSERT \<or> a = UPDATE \<or> a = DELETE" "s = ROLLBACKED"
      | (cm) "a = INSERT \<or> a = UPDATE \<or> a = DELETE" "s \<noteq> ROLLBACKED"
      using less.prems(1) by (auto simp: 2 ReleaseLock.simps(2) Let_def split: if_splits)
    then show ?thesis
    proof cases
      case rd
      then have "lr' = LeafRecord raw None ov"
        using less.prems(1) able by (auto simp: 2 ReleaseLock.simps(2) Let_def split: if_splits)
      then show ?thesis using wf by (simp add: 2)
    next
      case cm
      then have "\<exists>rec. lr' = LeafRecord (raw\<lparr>rr_bDelete := (a = DELETE)\<rparr>) None ov"
        using less.prems(1) able by (auto simp: 2 ReleaseLock.simps(2) Let_def)
      then show ?thesis using wf by (auto simp: 2 leaf_wf_delete)
    next
      case rb
      show ?thesis
      proof (cases u)
        case None
        then have "lr_bDelete lr'" using less.prems(1) able rb by (auto simp: 2 ReleaseLock.simps(2) Let_def)
        then show ?thesis using less.prems(3) by simp
      next
        case (Some v)
        obtain raw' l' ov' where v: "v = LeafRecord raw' l' ov'" by (cases v)
        have ch: "chain_ok t v" "order_bytes t raw' = order_bytes t raw"
          using less.prems(2) by (auto simp: 2 Some v)
        then have wf': "leaf_wf t raw'" using chain_wf [of t v] by (simp add: v)
        let ?o = "LeafRecord (move_assign raw raw') l' ov'"
        have o: "chain_ok t ?o" "order_bytes t (lr_raw ?o) = order_bytes t raw"
          using ch wf wf' leaf_wf_move [OF wf wf'] by (simp_all add: v chain_ok_lock)
        show ?thesis
        proof (cases "l' \<noteq> None \<and> ReleaseLockAble ?o")
          case True
          then obtain k where k: "l' = Some k" by auto
          obtain rec' where "ReleaseLock ?o = Some (lr', res, rec')"
            using less.prems(1) ReleaseLock_older [of a raw raw' k ov' g r st tx e ov] True rb
            by (auto simp: 2 Some v k map_option_case split: option.splits)
          moreover have "versions ?o < versions lr"
            using lock_only(2) [of raw' l' ov' "move_assign raw raw'" ov'] by (simp add: 2 Some v)
          ultimately show ?thesis using less.hyps [of ?o rec'] o less.prems(3) by (simp add: 2)
        next
          case False
          then have "lr' = ?o"
            using less.prems(1) able rb by (cases l') (auto simp: 2 Some v ReleaseLock.simps(2) Let_def)
          then show ?thesis using o by (simp add: 2)
        qed
      qed
    qed
  qed
qed

section \<open>Searching and erasing\<close>

lemma SearchRecord_leaf:
  assumes "leaf_inv t p" "rec_wf t k" "LeafPage_SearchRecord t k 0 INT32_MAX p = (f, s)"
  shows "f \<longleftrightarrow> (\<exists>r \<in> set (raws p). rec_cmp t r k = 0)"
    and "f \<Longrightarrow> 0 \<le> s \<and> s < int (length (ip_vctRecord p)) \<and> rec_cmp t (raws p ! nat s) k = 0"
    and "\<not> f \<Longrightarrow> 0 \<le> s \<and> s \<le> int (length (ip_vctRecord p)) \<and>
           (\<forall>r \<in> set (take (nat s) (raws p)). rec_cmp t r k < 0) \<and>
           (\<forall>r \<in> set (drop (nat s) (raws p)). rec_cmp t r k > 0)"
proof -
  note inv = leaf_invD [OF assms(1)]
  have "int (length (ip_vctRecord p)) \<le> INT32_MAX"
    using assms(1) by (simp add: leaf_inv_def INT32_MAX_def)
  then have "bsearch (probe (rec_cmp t) (raws p) k) (\<lambda>_. False) 0 (int (length (raws p)) - 1) = (f, s)"
    using assms(3) by (simp add: LeafPage_SearchRecord_def clip_end_def inv(1))
  note srch = by_record.search_whole [OF inv(2,3) assms(2) _ this, simplified]
  show "f \<longleftrightarrow> (\<exists>r \<in> set (raws p). rec_cmp t r k = 0)" using srch(1) by simp
  show "f \<Longrightarrow> 0 \<le> s \<and> s < int (length (ip_vctRecord p)) \<and> rec_cmp t (raws p ! nat s) k = 0"
    using srch(2) by auto
  show "\<not> f \<Longrightarrow> 0 \<le> s \<and> s \<le> int (length (ip_vctRecord p)) \<and>
           (\<forall>r \<in> set (take (nat s) (raws p)). rec_cmp t r k < 0) \<and>
           (\<forall>r \<in> set (drop (nat s) (raws p)). rec_cmp t r k > 0)"
    using srch(3) by auto
qed

lemma rec_cmp_order:
  assumes "rec_wf t a" "rec_wf t b"
  shows "rec_cmp t a b = 0 \<longleftrightarrow> order_bytes t a = order_bytes t b"
    and "rec_cmp t a b < 0 \<longleftrightarrow> rec_before t a b" and "rec_cmp t a b > 0 \<longleftrightarrow> rec_before t b a"
proof -
  show "rec_cmp t a b = 0 \<longleftrightarrow> order_bytes t a = order_bytes t b"
    and "rec_cmp t a b < 0 \<longleftrightarrow> rec_before t a b" and "rec_cmp t a b > 0 \<longleftrightarrow> rec_before t b a"
    using assms lexcmp_swap [of "order_bytes t a" "order_bytes t b"]
    by (simp_all add: rec_cmp_bytes rec_before_def bytes_cmp_iffs)
qed

text \<open>Where a record belongs: all records before it are smaller, all others larger.\<close>

definition place :: "IndexType \<Rightarrow> RawRecord \<Rightarrow> nat \<Rightarrow> LeafPage \<Rightarrow> bool" where
  "place t raw pos p \<longleftrightarrow> pos \<le> length (ip_vctRecord p) \<and>
     (\<forall>r \<in> set (take pos (raws p)). rec_before t r raw) \<and>
     (\<forall>r \<in> set (drop pos (raws p)). rec_before t raw r)"

lemma place_not_found:
  assumes "leaf_inv t p" "rec_wf t k" "LeafPage_SearchRecord t k 0 INT32_MAX p = (False, s)"
  shows "place t k (nat s) p"
proof -
  have ord: "rec_cmp t r k < 0 \<longleftrightarrow> rec_before t r k" "rec_cmp t r k > 0 \<longleftrightarrow> rec_before t k r"
    if "r \<in> set (raws p)" for r
    using rec_cmp_order [OF _ assms(2), of r] leaf_invD(3) [OF assms(1)] that by blast+
  note srch = SearchRecord_leaf(3) [OF assms, simplified]
  have "rec_before t r k" if "r \<in> set (take (nat s) (raws p))" for r
    using ord(1) [OF in_set_takeD [OF that]] srch that by blast
  moreover have "rec_before t k r" if "r \<in> set (drop (nat s) (raws p))" for r
    using ord(2) [OF in_set_dropD [OF that]] srch that by blast
  ultimately show ?thesis using srch by (auto simp: place_def)
qed

lemma place_remove:
  assumes "sorted_wrt (rec_before t) (raws p)" "pos < length (ip_vctRecord p)"
    and "order_bytes t (raws p ! pos) = order_bytes t raw"
  shows "place t raw pos (p\<lparr>ip_vctRecord := remove_at pos (ip_vctRecord p), ip_recordNum := n\<rparr>)"
proof -
  let ?rs = "raws p"
  have split: "?rs = take pos ?rs @ ?rs ! pos # drop (Suc pos) ?rs"
    using assms(2) by (simp only: id_take_nth_drop length_map)
  have s: "\<forall>x \<in> set (take pos ?rs). rec_before t x (?rs ! pos)"
    "\<forall>y \<in> set (drop (Suc pos) ?rs). rec_before t (?rs ! pos) y"
    using assms(1) by (subst (asm) split, simp add: sorted_wrt_append)+
  have m: "map lr_raw (remove_at pos (ip_vctRecord p)) = take pos ?rs @ drop (Suc pos) ?rs"
    by (simp add: remove_at_def take_map drop_map)
  show ?thesis
    unfolding place_def using s assms(2,3) by (simp add: m rec_before_def)
qed


lemma remove_at_update [simp]: "remove_at i (xs[i := x]) = remove_at i xs"
  by (simp add: remove_at_def)

lemma sum_list_update_delta:
  "i < length xs \<Longrightarrow> sum_list (map f (xs[i := x])) = sum_list (map (f :: 'a \<Rightarrow> int) xs) + (f x - f (xs ! i))"
  using sum_list_remove_at [of i "xs[i := x]" f] sum_list_remove_at [of i xs f] by simp

lemma leaf_inv_flags [simp]:
  "leaf_inv t (p\<lparr>cp_bDirty := d\<rparr>) = leaf_inv t p"
  "leaf_inv t (p\<lparr>cp_bRecordUpdated := d\<rparr>) = leaf_inv t p"
  by (simp_all add: leaf_inv_def)

text \<open>Replacing one record by a version with the same key.\<close>

lemma leaf_inv_update:
  assumes "leaf_inv t p" "i < length (ip_vctRecord p)" "chain_ok t lr"
    and "order_bytes t (lr_raw lr) = order_bytes t (raws p ! i)"
    and "q = p\<lparr>ip_vctRecord := (ip_vctRecord p)[i := lr],
           ip_tempDataLength := ip_tempDataLength p + of_int (tempLen lr - tempLen (ip_vctRecord p ! i)),
           ip_committedDataLength := ip_committedDataLength p +
             of_int (commitLen lr - commitLen (ip_vctRecord p ! i))\<rparr>"
  shows "leaf_inv t q"
proof -
  have "sorted_wrt (rec_before t) (raws q)"
    using sorted_update_same [OF leaf_invD(2) [OF assms(1)], of i "lr_raw lr"] assms(2,4)
    by (simp add: assms(5) map_update)
  moreover have "\<forall>r \<in> set (ip_vctRecord q). chain_ok t r"
    using set_update_subset_insert [of "ip_vctRecord p" i lr] leaf_invD(4) [OF assms(1)] assms(3)
    by (auto simp: assms(5))
  ultimately show ?thesis
    using assms(1,2) by (simp add: leaf_inv_def assms(5) sum_list_update_delta)
qed

text \<open>Erasing a deleted record that has no lock any more.\<close>

lemma deleted_lengths:
  "lr_bDelete lr \<Longrightarrow> tempLen lr = 0" "lr_bDelete lr \<Longrightarrow> lr_recLock lr = None \<Longrightarrow> commitLen lr = 0"
  by (cases lr; simp add: tempLen_def commitLen_def)+

lemma leaf_inv_erase:
  assumes "leaf_inv t p" "i < length (ip_vctRecord p)"
    and "q = p\<lparr>ip_vctRecord := remove_at i (ip_vctRecord p), ip_recordNum := ip_recordNum p - 1,
           ip_tempDataLength := ip_tempDataLength p - of_int (tempLen (ip_vctRecord p ! i)),
           ip_committedDataLength := ip_committedDataLength p - of_int (commitLen (ip_vctRecord p ! i))\<rparr>"
  shows "leaf_inv t q"
proof -
  have "sorted_wrt (rec_before t) (raws q)"
    using sorted_wrt_remove_at [OF leaf_invD(2) [OF assms(1)], of i] by (simp add: assms(3) map_remove_at)
  moreover have "\<forall>r \<in> set (ip_vctRecord q). chain_ok t r"
    using set_remove_at_subset [of i "ip_vctRecord p"] leaf_invD(4) [OF assms(1)] by (auto simp: assms(3))
  moreover have "ip_recordNum q = of_nat (length (ip_vctRecord q))"
    using assms(1,2) by (simp add: leaf_inv_def assms(3) of_nat_diff)
  ultimately show ?thesis
    using assms(1,2) by (auto simp: leaf_inv_def assms(3) sum_list_remove_at)
qed


text \<open>
  What the first part of \<open>UpdateAction\<close> leaves behind: a page that satisfies the invariant, and either
  a live record with the searched key or the place where a record with this key belongs.
\<close>

lemma release_step:
  assumes "leaf_inv t p" "i < length (ip_vctRecord p)"
    and "ReleaseLock (ip_vctRecord p ! i) = Some (lr', rr, rec)" "LeafPage_ReleaseLock i p = Some (q, rr, rec)"
  shows "ip_vctRecord q = (ip_vctRecord p)[i := lr']"
    and "\<not> lr_bDelete lr' \<Longrightarrow> leaf_inv t q \<and> order_bytes t (lr_raw lr') = order_bytes t (raws p ! i)"
    and "lr_bDelete lr' \<Longrightarrow> lr_recLock lr' = None \<Longrightarrow>
           leaf_inv t (q\<lparr>ip_vctRecord := remove_at i (ip_vctRecord q), ip_recordNum := ip_recordNum q - 1\<rparr>)"
proof -
  have q: "q = p\<lparr>ip_vctRecord := (ip_vctRecord p)[i := lr'],
           ip_tempDataLength := ip_tempDataLength p + of_int (tempLen lr' - tempLen (ip_vctRecord p ! i)),
           ip_committedDataLength := ip_committedDataLength p +
             of_int (commitLen lr' - commitLen (ip_vctRecord p ! i))\<rparr>"
    using assms(3,4) by (auto simp: LeafPage_ReleaseLock_def Let_def UpdateDataLength_def len_delta_def)
  show "ip_vctRecord q = (ip_vctRecord p)[i := lr']" by (simp add: q)
  have ch: "chain_ok t (ip_vctRecord p ! i)" using leaf_invD(4) [OF assms(1)] assms(2) by simp
  show "leaf_inv t q \<and> order_bytes t (lr_raw lr') = order_bytes t (raws p ! i)" if "\<not> lr_bDelete lr'"
    using release_key [OF assms(3) ch that] assms(2)
      leaf_inv_update [OF assms(1,2), of lr'] by (simp add: q)
  show "leaf_inv t (q\<lparr>ip_vctRecord := remove_at i (ip_vctRecord q), ip_recordNum := ip_recordNum q - 1\<rparr>)"
    if "lr_bDelete lr'" "lr_recLock lr' = None"
    using leaf_inv_erase [OF assms(1,2) refl] deleted_lengths [OF that(1)] that(2)
    by (simp add: q leaf_inv_def)
qed

definition found_or_place :: "IndexType \<Rightarrow> LeafRecord \<Rightarrow> LeafPage \<Rightarrow> bool \<Rightarrow> nat \<Rightarrow> bool" where
  "found_or_place t lr q f pos \<longleftrightarrow>
     (if f then pos < length (ip_vctRecord q) \<and> \<not> lr_bDelete (ip_vctRecord q ! pos) \<and>
             order_bytes t (raws q ! pos) = order_bytes t (lr_raw lr)
      else place t (lr_raw lr) pos q)"

lemma found_live:
  assumes "leaf_inv t q" "i < length (ip_vctRecord q)" "order_bytes t (raws q ! i) = order_bytes t (lr_raw lr)"
  shows "\<not> lr_bDelete (ip_vctRecord q ! i) \<Longrightarrow> found_or_place t lr q True i"
    and "found_or_place t lr (q\<lparr>ip_vctRecord := remove_at i (ip_vctRecord q), ip_recordNum := n\<rparr>) False i"
  using assms place_remove [OF leaf_invD(2) [OF assms(1)] assms(2,3)] by (simp_all add: found_or_place_def)

lemma UpdateAction_find_inv:
  assumes "leaf_inv t p" "leaf_wf t (lr_raw lr)" "UpdateAction_find t lr p = Some (q, f, pos, rec)"
  shows "leaf_inv t q" "found_or_place t lr q f pos"
proof -
  have k: "rec_wf t (lr_raw lr)" using assms(2) by (simp add: leaf_wf_def)
  obtain fd s where srch: "LeafPage_SearchRecord t (lr_raw lr) 0 INT32_MAX p = (fd, s)" by force
  have "leaf_inv t q \<and> found_or_place t lr q f pos"
  proof (cases fd)
    case False
    then show ?thesis
      using assms(1,3) srch place_not_found [OF assms(1) k] by (auto simp: UpdateAction_find_def found_or_place_def)
  next
    case True
    let ?i = "nat s" let ?old = "ip_vctRecord p ! nat s"
    have i: "?i < length (ip_vctRecord p)" and eq: "rec_cmp t (raws p ! ?i) (lr_raw lr) = 0"
      using SearchRecord_leaf(2) [OF assms(1) k srch True] by auto
    have wf: "rec_wf t (raws p ! ?i)" using leaf_invD(3) [OF assms(1)] i by simp
    have ob: "order_bytes t (raws p ! ?i) = order_bytes t (lr_raw lr)"
      using eq rec_cmp_order(1) [OF wf k] by simp
    show ?thesis
    proof (cases "lr_recLock ?old \<noteq> None \<and> ReleaseLockAble ?old")
      case False
      note noRel = False
      show ?thesis
      proof (cases "lr_bDelete ?old")
        case True
        then have nl: "lr_recLock ?old = None"
          and q: "q = p\<lparr>ip_vctRecord := remove_at ?i (ip_vctRecord p), ip_recordNum := ip_recordNum p - 1\<rparr>"
            "\<not> f" "pos = ?i"
          using assms(3) srch \<open>fd\<close> noRel by (auto simp: UpdateAction_find_def Let_def split: if_splits)
        show ?thesis
          using leaf_inv_erase [OF assms(1) i] deleted_lengths [OF True] nl found_live(2) [OF assms(1) i ob] q by simp
      next
        case False
        then show ?thesis
          using assms(1,3) srch \<open>fd\<close> noRel found_live(1) [OF assms(1) i ob]
          by (auto simp: UpdateAction_find_def Let_def split: if_splits)
      qed
    next
      case rel: True
      obtain p' rr rec' where rl: "LeafPage_ReleaseLock ?i p = Some (p', rr, rec')"
        using assms(3) srch \<open>fd\<close> rel by (auto simp: UpdateAction_find_def Let_def split: option.splits)
      then obtain lr' where lr': "ReleaseLock ?old = Some (lr', rr, rec')"
        by (auto simp: LeafPage_ReleaseLock_def Let_def split: option.splits)
      note st = release_step [OF assms(1) i lr' rl]
      have old': "ip_vctRecord p' ! ?i = lr'" "length (ip_vctRecord p') = length (ip_vctRecord p)" using i st(1) by auto
      show ?thesis
      proof (cases "lr_bDelete lr'")
        case True
        then have nl: "lr_recLock lr' = None"
          and q: "q = p'\<lparr>ip_vctRecord := remove_at ?i (ip_vctRecord p'), ip_recordNum := ip_recordNum p' - 1\<rparr>"
            "\<not> f" "pos = ?i"
          using assms(3) srch \<open>fd\<close> rel rl old' by (auto simp: UpdateAction_find_def Let_def split: if_splits)
        have "remove_at ?i (ip_vctRecord p') = remove_at ?i (ip_vctRecord p)" using st(1) by simp
        then have "found_or_place t lr q False ?i"
          using found_live(2) [OF assms(1) i ob] by (simp add: q(1) found_or_place_def place_def)
        then show ?thesis using st(3) [OF True nl] q by simp
      next
        case False
        then have q: "q = p'" "f" "pos = ?i"
          using assms(3) srch \<open>fd\<close> rel rl old' by (auto simp: UpdateAction_find_def Let_def split: if_splits)
        then show ?thesis using st(2) [OF False] found_live(1) [of t p' ?i lr] ob old' i False by simp
      qed
    qed
  qed
  then show "leaf_inv t q" "found_or_place t lr q f pos" by auto
qed


section \<open>The invariant is kept by updates\<close>

lemma slot_tempLen: "\<not> lr_bDelete lr \<Longrightarrow> slot_len (lr_raw lr) = of_int (tempLen lr)"
  by (simp add: slot_len_def tempLen_def)

lemma place_insert:
  assumes "leaf_inv t p" "place t (lr_raw lr) pos p" "chain_ok t lr" "length (ip_vctRecord p) + 1 < 2 ^ 31"
    and "q = p\<lparr>ip_vctRecord := insert_at pos lr (ip_vctRecord p), ip_recordNum := ip_recordNum p + 1,
           ip_tempDataLength := ip_tempDataLength p + of_int (tempLen lr),
           ip_committedDataLength := ip_committedDataLength p + of_int (commitLen lr)\<rparr>"
  shows "leaf_inv t q"
proof -
  have "sorted_wrt (rec_before t) (raws q)"
    using sorted_wrt_insert_at [OF leaf_invD(2) [OF assms(1)], of pos "lr_raw lr"] assms(2)
    by (simp add: assms(5) map_insert_at place_def)
  moreover have "\<forall>r \<in> set (ip_vctRecord q). chain_ok t r"
    using leaf_invD(4) [OF assms(1)] assms(3) by (simp add: assms(5) set_insert_at)
  ultimately show ?thesis
    using assms(1,2,4) by (simp add: leaf_inv_def assms(5) sum_list_insert_at place_def)
qed

text \<open>A record ready to be put into a page: its lock has no older version yet.\<close>

definition fresh :: "IndexType \<Rightarrow> LeafRecord \<Rightarrow> bool" where
  "fresh t lr \<longleftrightarrow> leaf_wf t (lr_raw lr) \<and>
     (case lr_recLock lr of None \<Rightarrow> False
      | Some l \<Rightarrow> rl_undoRec l = None \<and> rl_actType l \<in> {INSERT, UPDATE, DELETE} \<and>
          lr_bDelete lr = (rl_actType l = DELETE))"

lemma fresh_cases:
  assumes "fresh t lr"
  obtains raw a s g r st tx e ov where "lr = LeafRecord raw (Some (RecordLock a s g r st tx None e)) ov"
    "a \<in> {INSERT, UPDATE, DELETE}" "leaf_wf t raw" "rr_bDelete raw = (a = DELETE)"
proof -
  obtain raw l ov where lr: "lr = LeafRecord raw l ov" by (cases lr)
  then obtain k where k: "l = Some k" using assms by (auto simp: fresh_def split: option.splits)
  obtain a s g r st tx u e where "k = RecordLock a s g r st tx u e" by (cases k)
  then show ?thesis using that assms by (auto simp: lr k fresh_def)
qed

lemma fresh_in_page:
  assumes "fresh t lr"
  shows "chain_ok t (in_page lr)" "lr_raw (in_page lr) = lr_raw lr" "commitLen (in_page lr) = 0"
    "tempLen (in_page lr) = tempLen lr"
  using assms
  by (auto elim!: fresh_cases
      simp: in_page_def set_lock_def set_result_def tempLen_def commitLen_def Let_def GetAction_def)

lemma fresh_with_undo:
  assumes "fresh t lr" "chain_ok t old" "order_bytes t (lr_raw old) = order_bytes t (lr_raw lr)"
  shows "chain_ok t (with_undo lr old)" "lr_raw (with_undo lr old) = lr_raw lr"
    "commitLen (with_undo lr old) = commitLen old" "tempLen (with_undo lr old) = tempLen lr"
  using assms
  by (auto elim!: fresh_cases
      simp: with_undo_def set_lock_def set_undo_def set_result_def tempLen_def commitLen_def)


lemma find_put:
  assumes "leaf_inv t q" "found_or_place t lr q True pos" "fresh t lr"
  shows "leaf_inv t (q\<lparr>ip_tempDataLength := ip_tempDataLength q + of_int (tempLen lr - tempLen (ip_vctRecord q ! pos)),
           ip_vctRecord := (ip_vctRecord q)[pos := with_undo lr (ip_vctRecord q ! pos)]\<rparr>)"
proof -
  let ?old = "ip_vctRecord q ! pos"
  have pos: "pos < length (ip_vctRecord q)" and ob: "order_bytes t (lr_raw ?old) = order_bytes t (lr_raw lr)"
    using assms(2) by (auto simp: found_or_place_def)
  have ch: "chain_ok t ?old" using leaf_invD(4) [OF assms(1)] pos by simp
  note u = fresh_with_undo [OF assms(3) ch ob]
  show ?thesis
    using leaf_inv_update [OF assms(1) pos u(1) _ refl] ob pos u by (simp add: leaf_inv_def)
qed

lemma find_insert:
  assumes "leaf_inv t q" "found_or_place t lr q False pos" "fresh t lr" "\<not> lr_bDelete lr"
    and "length (ip_vctRecord q) + 1 < 2 ^ 31"
  shows "leaf_inv t (q\<lparr>ip_tempDataLength := ip_tempDataLength q + slot_len (lr_raw lr),
           ip_vctRecord := insert_at pos (in_page lr) (ip_vctRecord q), ip_recordNum := ip_recordNum q + 1\<rparr>)"
proof -
  note u = fresh_in_page [OF assms(3)]
  have "place t (lr_raw (in_page lr)) pos q" using assms(2) u by (simp add: found_or_place_def)
  from place_insert [OF assms(1) this u(1) assms(5) refl] show ?thesis
    using u assms(4) by (simp add: leaf_inv_def slot_tempLen)
qed

lemma find_length:
  assumes "UpdateAction_find t lr p = Some (q, f, pos, rec)"
  shows "length (ip_vctRecord q) \<le> length (ip_vctRecord p)"
proof -
  have rel: "length (ip_vctRecord p') = length (ip_vctRecord p)"
    if "LeafPage_ReleaseLock i p = Some (p', rr, rec')" for i p' rr rec'
    using that by (auto simp: LeafPage_ReleaseLock_def Let_def UpdateDataLength_def split: option.splits)
  show ?thesis
    using assms unfolding UpdateAction_find_def Let_def
    by (auto simp: remove_at_def dest!: rel split: prod.splits if_splits option.splits)
qed

lemma UpdateAction_inv:
  assumes "leaf_inv t p" "fresh t lr" "length (ip_vctRecord p) + 1 < 2 ^ 31"
    and "LeafPage_UpdateAction t lr p = Some (q, lr', rec)"
  shows "leaf_inv t q"
proof -
  have wf: "leaf_wf t (lr_raw lr)" using assms(2) by (simp add: fresh_def)
  obtain lock where lock: "lr_recLock lr = Some lock" "lr_bDelete lr = (rl_actType lock = DELETE)"
    using assms(2) by (auto simp: fresh_def split: option.splits)
  obtain p' f pos rec' where fd: "UpdateAction_find t lr p = Some (p', f, pos, rec')"
    using assms(4) by (auto simp: LeafPage_UpdateAction_def split: option.splits)
  note inv = UpdateAction_find_inv [OF assms(1) wf fd]
  have len: "length (ip_vctRecord p') + 1 < 2 ^ 31" using find_length [OF fd] assms(3) by simp
  have slot: "slot_len (lr_raw (ip_vctRecord p' ! pos)) = of_int (tempLen (ip_vctRecord p' ! pos))" if f
    using inv(2) that slot_tempLen by (simp add: found_or_place_def)
  note put = find_put [OF inv(1) _ assms(2), of pos] and ins = find_insert [OF inv(1) _ assms(2) _ len, of pos]
  have raw: "lr_raw (in_page lr) = lr_raw lr" by (simp add: in_page_def)
  consider "rl_actType lock = INSERT" | "rl_actType lock = DELETE" | "rl_actType lock = UPDATE"
    using assms(2) by (auto simp: fresh_def lock)
  then show ?thesis
  proof cases
    case 1
    then show ?thesis using assms(4) inv ins lock
      by (auto simp: LeafPage_UpdateAction_def fd Let_def raw split: if_splits)
  next
    case 2
    then have "tempLen lr = 0" using lock by (simp add: tempLen_def)
    then show ?thesis using 2 assms(4) inv put lock slot
      by (auto simp: LeafPage_UpdateAction_def fd Let_def split: if_splits)
  next
    case 3
    then have "slot_len (lr_raw lr) = of_int (tempLen lr)" using lock slot_tempLen by simp
    then show ?thesis using 3 assms(4) inv put ins lock slot
      by (auto simp: LeafPage_UpdateAction_def fd Let_def raw split: if_splits)
  qed
qed

section \<open>Properties\<close>

text \<open>Example pages: records of six bytes with one byte of key and one of value.\<close>

definition small_raw :: "IndexType \<Rightarrow> byte \<Rightarrow> byte \<Rightarrow> bool \<Rightarrow> RawRecord" where
  "small_raw t k v del = leaf_raw t (store (6 :: u16) @ store (1 :: u16) @ [k, v]) del"

definition small_rec :: "byte \<Rightarrow> byte \<Rightarrow> LeafRecord" where
  "small_rec k v = LeafRecord (small_raw UNIQUE k v False) None None"

definition small_new :: "ActionType \<Rightarrow> u64 \<Rightarrow> byte \<Rightarrow> byte \<Rightarrow> LeafRecord" where
  "small_new a tx k v = LeafRecord (small_raw UNIQUE k v (a = DELETE))
     (Some (RecordLock a RS_INIT False RR_INIT None [tx] None None)) None"

definition sample_leaf :: "LeafRecord list \<Rightarrow> LeafPage" where
  "sample_leaf rs =
     \<lparr>cp_bysPage = replicate 16384 0, cp_pageId = 3, cp_fileId = 1, cp_bDirty = True,
      cp_bRecordUpdated = True, cp_pageStatus = PS_VALID, cp_pageType = LEAF_PAGE,
      cp_bRefered = True, cp_bWriteQueue = False, cp_bNeedDisk = False, cp_score = 100,
      cp_waiting = 0, cp_lockOwner = None, ip_parentPageId = 4,
      ip_committedDataLength = of_int (\<Sum>lr\<leftarrow>rs. commitLen lr),
      ip_tempDataLength = of_int (\<Sum>lr\<leftarrow>rs. tempLen lr),
      ip_recordNum = of_nat (length rs), ip_parentPage = None, ip_vctRecord = rs,
      lp_prevPageId = PAGE_NULL_POINTER, lp_nextPageId = PAGE_NULL_POINTER,
      lp_prevPage = None, lp_nextPage = None, lp_bRangeEndPage = False, lp_bRangeBeginPage = False\<rparr>"

lemma small_raw_fields [simp]:
  "rr_class (small_raw t k v d) = LeafClass" "rr_indexType (small_raw t k v d) = t"
  "rr_bDelete (small_raw t k v d) = d"
  "GetKeyLength (small_raw t k v d) = 1" "length (rr_bysVal (small_raw t k v d)) = 6"
  "rec_key (small_raw t k v d) = [k]" "GetTotalLength (small_raw t k v d) = (if d then 0 else 6)"
  by (simp_all add: small_raw_def leaf_raw_def GetKeyLength_def GetTotalLength_def rec_key_def)

lemma small_wf [simp]: "leaf_wf UNIQUE (small_raw UNIQUE k v d)" "rec_wf UNIQUE (small_raw UNIQUE k v d)"
  "rec_before UNIQUE (small_raw UNIQUE k v d) (small_raw UNIQUE k' v' d') \<longleftrightarrow> k < k'"
  "order_bytes UNIQUE (small_raw UNIQUE k v d) = [k]"
  by (simp_all add: leaf_wf_def rec_wf_def rec_fits_def rec_before_def order_bytes_def)

lemma small_fresh [simp]: "a \<in> {INSERT, UPDATE, DELETE} \<Longrightarrow> fresh UNIQUE (small_new a tx k v)"
  by (auto simp: fresh_def small_new_def)

lemma sample_leaf_inv:
  assumes "length rs < 2 ^ 31" "\<forall>lr \<in> set rs. chain_ok UNIQUE lr" "sorted_wrt (rec_before UNIQUE) (map lr_raw rs)"
  shows "leaf_inv UNIQUE (sample_leaf rs)"
  using assms by (simp add: leaf_inv_def sample_leaf_def page_consts)

text \<open>
  C5: \<open>LeafPage::UpdateAction\<close> keeps the invariant of a leaf page. Whenever the insert, update or
  delete of a record with a fresh lock returns, the records of the page are sorted, every version in
  them is well formed and has the key of its record, \<open>_recordNum\<close> is their number, and
  \<open>_tempDataLength\<close> and \<open>_committedDataLength\<close> are the sums of the lengths \<open>GetLength\<close> reports.
\<close>

theorem LeafPage_UpdateAction_inv:
  assumes "leaf_inv t p" "fresh t lr" "length (ip_vctRecord p) + 1 < 2 ^ 31"
    and "LeafPage_UpdateAction t lr p = Some (q, lr', rec)"
  shows "leaf_inv t q"
  by (rule UpdateAction_inv [OF assms])

lemma small_page: "leaf_inv UNIQUE (sample_leaf [small_rec 3 1, small_rec 8 1])"
  by (rule sample_leaf_inv) (simp_all add: small_rec_def)

lemma bsearch_one: "bsearch hr prev 0 0 = (if hr 0 = 0 then (True, 0) else if hr 0 < 0 then (False, 1) else (False, 0))"
  by (simp add: bsearch.simps)

lemma small_update:
  "\<exists>q. LeafPage_UpdateAction UNIQUE (small_new UPDATE 5 3 9) (sample_leaf [small_rec 3 1]) =
     Some (q, with_undo (small_new UPDATE 5 3 9) (small_rec 3 1), [])"
proof -
  have "rec_cmp UNIQUE (lr_raw (small_rec 3 1)) (lr_raw (small_new UPDATE 5 3 9)) = 0"
    by (simp add: rec_cmp_order small_rec_def small_new_def)
  then have "LeafPage_SearchRecord UNIQUE (lr_raw (small_new UPDATE 5 3 9)) 0 INT32_MAX (sample_leaf [small_rec 3 1]) = (True, 0)"
    by (simp add: LeafPage_SearchRecord_def clip_end_def INT32_MAX_def bsearch_one probe_def sample_leaf_def)
  then show ?thesis
    by (simp add: LeafPage_UpdateAction_def UpdateAction_find_def sample_leaf_def small_rec_def small_new_def
        IsConflict_def Let_def)
qed

theorem LeafPage_UpdateAction_inv_witness:
  "\<exists>q. LeafPage_UpdateAction UNIQUE (small_new UPDATE 5 3 9) (sample_leaf [small_rec 3 1]) =
     Some (q, with_undo (small_new UPDATE 5 3 9) (small_rec 3 1), []) \<and> leaf_inv UNIQUE q"
proof -
  have "leaf_inv UNIQUE (sample_leaf [small_rec 3 1])" by (rule sample_leaf_inv) (simp_all add: small_rec_def)
  then show ?thesis
    using small_update LeafPage_UpdateAction_inv [of UNIQUE "sample_leaf [small_rec 3 1]" "small_new UPDATE 5 3 9"]
    by (auto simp: sample_leaf_def)
qed

lemma sample_fields [simp]:
  "ip_vctRecord (sample_leaf rs) = rs" "lr_raw (small_new a tx k v) = small_raw UNIQUE k v (a = DELETE)"
  "lr_raw (small_rec k v) = small_raw UNIQUE k v False" "lr_recLock (small_rec k v) = None"
  "lr_recLock (small_new a tx k v) = Some (RecordLock a RS_INIT False RR_INIT None [tx] None None)"
  "GetAction (small_new a tx k v) = a" "lr_raw (with_undo lr u) = lr_raw lr" "lr_raw (in_page lr) = lr_raw lr"
  by (simp_all add: sample_leaf_def small_new_def small_rec_def GetAction_def with_undo_def in_page_def)

lemma page_cmp:
  fixes k :: RawRecord
  shows "leaf_inv t p \<Longrightarrow> rec_wf t k \<Longrightarrow> r \<in> set (raws p) \<Longrightarrow> rec_cmp t r k = 0 \<longleftrightarrow> order_bytes t r = order_bytes t k"
  using rec_cmp_order(1) [of t r k] leaf_invD(3) by blast

lemma search_unique:
  fixes k :: RawRecord
  assumes "leaf_inv t p" "i < length (ip_vctRecord p)" "rec_wf t k"
    and "order_bytes t (raws p ! i) = order_bytes t k"
  shows "LeafPage_SearchRecord t k 0 INT32_MAX p = (True, int i)"
proof -
  obtain f s where srch: "LeafPage_SearchRecord t k 0 INT32_MAX p = (f, s)" by force
  have i: "raws p ! i \<in> set (raws p)" using assms(2) by simp
  then have "rec_cmp t (raws p ! i) k = 0" using page_cmp [OF assms(1,3)] assms(4) by simp
  then have f using SearchRecord_leaf(1) [OF assms(1,3) srch] i by blast
  then have s: "0 \<le> s" "nat s < length (ip_vctRecord p)" "rec_cmp t (raws p ! nat s) k = 0"
    using SearchRecord_leaf(2) [OF assms(1,3) srch] by auto
  moreover from s have "raws p ! nat s \<in> set (raws p)" by simp
  ultimately have "order_bytes t (raws p ! nat s) = order_bytes t (raws p ! i)"
    using page_cmp [OF assms(1,3)] assms(4) by simp
  then have "\<not> rec_before t (raws p ! nat s) (raws p ! i)" "\<not> rec_before t (raws p ! i) (raws p ! nat s)"
    by (simp_all add: rec_before_def)
  moreover have "rec_before t (raws p ! a) (raws p ! b)" if "a < b" "b < length (ip_vctRecord p)" for a b
    using sorted_wrt_nth_less [OF leaf_invD(2) [OF assms(1)]] that by simp
  ultimately have "nat s = i" using s(2) assms(2) by (meson linorder_neqE_nat)
  with s srch \<open>f\<close> show ?thesis by auto
qed

lemma search_absent:
  fixes k :: RawRecord
  assumes "leaf_inv t p" "rec_wf t k" "\<forall>r \<in> set (raws p). order_bytes t r \<noteq> order_bytes t k"
  obtains s where "LeafPage_SearchRecord t k 0 INT32_MAX p = (False, s)"
proof -
  obtain f s where srch: "LeafPage_SearchRecord t k 0 INT32_MAX p = (f, s)" by force
  have "\<not> f"
    using SearchRecord_leaf(1) [OF assms(1,2) srch] page_cmp [OF assms(1,2)] assms(3) by simp
  with srch show ?thesis using that by simp
qed

text \<open>
  C24: an inserted record is found. Inserting a record whose key is not in the page always succeeds:
  it reports \<open>IN_PAGE\<close>, gives no page back, and afterwards \<open>SearchRecord\<close> for the key finds exactly
  this record at a position where the rest of the page is unchanged.
\<close>

theorem LeafPage_insert_search:
  assumes "leaf_inv t p" "fresh t lr" "GetAction lr = INSERT" "length (ip_vctRecord p) + 1 < 2 ^ 31"
    and "\<forall>r \<in> set (raws p). order_bytes t r \<noteq> order_bytes t (lr_raw lr)"
  shows "\<exists>q i. LeafPage_UpdateAction t lr p = Some (q, in_page lr, []) \<and>
    LeafPage_SearchRecord t (lr_raw lr) 0 INT32_MAX q = (True, int i) \<and>
    ip_vctRecord q = insert_at i (in_page lr) (ip_vctRecord p) \<and> i \<le> length (ip_vctRecord p) \<and> cp_bDirty q"
proof -
  have wf: "rec_wf t (lr_raw lr)" using assms(2) by (simp add: fresh_def leaf_wf_def)
  obtain s where srch: "LeafPage_SearchRecord t (lr_raw lr) 0 INT32_MAX p = (False, s)"
    using search_absent [OF assms(1) wf assms(5)] .
  have pl: "nat s \<le> length (ip_vctRecord p)"
    using place_not_found [OF assms(1) wf srch] by (simp add: place_def)
  obtain lock where lock: "lr_recLock lr = Some lock" "rl_actType lock = INSERT"
    using assms(3) by (auto simp: GetAction_def split: option.splits)
  obtain q where q: "LeafPage_UpdateAction t lr p = Some (q, in_page lr, [])"
    "ip_vctRecord q = insert_at (nat s) (in_page lr) (ip_vctRecord p)" "cp_bDirty q"
    using srch lock by (simp add: LeafPage_UpdateAction_def UpdateAction_find_def Let_def)
  have "raws q ! nat s = lr_raw lr" "nat s < length (ip_vctRecord q)"
    using pl by (simp_all add: q(2) insert_at_def nth_append in_page_def)
  then have "LeafPage_SearchRecord t (lr_raw lr) 0 INT32_MAX q = (True, int (nat s))"
    using search_unique [OF UpdateAction_inv [OF assms(1,2,4) q(1)] _ wf] by simp
  with q pl show ?thesis by blast
qed

theorem LeafPage_insert_search_witness:
  "\<exists>q i. LeafPage_UpdateAction UNIQUE (small_new INSERT 5 6 9) (sample_leaf [small_rec 3 1, small_rec 8 1]) =
      Some (q, in_page (small_new INSERT 5 6 9), []) \<and>
    LeafPage_SearchRecord UNIQUE (small_raw UNIQUE 6 9 False) 0 INT32_MAX q = (True, int i)"
  using LeafPage_insert_search [OF small_page, of "small_new INSERT 5 6 9"]
  by auto

text \<open>
  A duplicate key is refused. If the page has a live record with the key that either is not
  locked or is locked by work that is not finished, inserting the key leaves the page as it is, and
  the lock of the new record carries the error \<open>STMT_DUPLICATE_ENTRY\<close>.
\<close>

theorem LeafPage_insert_duplicate:
  assumes "leaf_inv t p" "fresh t lr" "GetAction lr = INSERT" "i < length (ip_vctRecord p)"
    and "order_bytes t (raws p ! i) = order_bytes t (lr_raw lr)"
    and "\<not> lr_bDelete (ip_vctRecord p ! i)" "\<not> ReleaseLockAble (ip_vctRecord p ! i)"
  shows "LeafPage_UpdateAction t lr p = Some (p, fail_lock STMT_DUPLICATE_ENTRY lr, [])"
proof -
  have wf: "rec_wf t (lr_raw lr)" using assms(2) by (simp add: fresh_def leaf_wf_def)
  note srch = search_unique [OF assms(1,4) wf assms(5)]
  show ?thesis using assms(3,6,7)
    by (auto simp: LeafPage_UpdateAction_def UpdateAction_find_def srch Let_def GetAction_def split: option.splits)
qed

theorem LeafPage_insert_duplicate_witness:
  "LeafPage_UpdateAction UNIQUE (small_new INSERT 5 8 9) (sample_leaf [small_rec 3 1, small_rec 8 1]) =
     Some (sample_leaf [small_rec 3 1, small_rec 8 1], fail_lock STMT_DUPLICATE_ENTRY (small_new INSERT 5 8 9), [])"
  by (rule LeafPage_insert_duplicate [OF small_page, of _ 1])
    (simp_all add: ReleaseLockAble_def)

text \<open>
  A key whose delete is still pending cannot be updated. When the record found is marked as
  deleted and its lock is not finished, \<open>UpdateAction\<close> deletes the record object although it still
  owns its lock: the destructor's assertion fails and no result is produced.
\<close>

theorem LeafPage_pending_delete_aborts:
  assumes "leaf_inv t p" "leaf_wf t (lr_raw lr)" "i < length (ip_vctRecord p)"
    and "order_bytes t (raws p ! i) = order_bytes t (lr_raw lr)"
    and "lr_bDelete (ip_vctRecord p ! i)" "lr_recLock (ip_vctRecord p ! i) \<noteq> None"
    and "\<not> ReleaseLockAble (ip_vctRecord p ! i)"
  shows "LeafPage_UpdateAction t lr p = None"
proof -
  have wf: "rec_wf t (lr_raw lr)" using assms(2) by (simp add: leaf_wf_def)
  note srch = search_unique [OF assms(1,3) wf assms(4)]
  show ?thesis using assms(5-7)
    by (auto simp: LeafPage_UpdateAction_def UpdateAction_find_def srch Let_def)
qed

theorem LeafPage_pending_delete_aborts_witness:
  "LeafPage_UpdateAction UNIQUE (small_new INSERT 7 3 9)
     (sample_leaf [with_undo (small_new DELETE 5 3 1) (small_rec 3 1)]) = None"
proof (rule LeafPage_pending_delete_aborts [where i = 0])
  show "leaf_inv UNIQUE (sample_leaf [with_undo (small_new DELETE 5 3 1) (small_rec 3 1)])"
    by (rule sample_leaf_inv) (simp_all add: small_rec_def small_new_def with_undo_def set_lock_def set_undo_def set_result_def)
qed (simp_all add: with_undo_def ReleaseLockAble_def)

text \<open>
  An update that conflicts reports success. When another transaction holds the record,
  \<open>UpdateAction\<close> leaves the records of the page alone and stores the error \<open>STMT_LOCK_CONFLICT\<close>, but
  the result of the lock is \<open>IN_PAGE\<close>, as after a successful update.
\<close>

theorem LeafPage_update_conflict_hidden:
  assumes "leaf_inv t p" "fresh t lr" "lr_recLock lr = Some lock" "rl_actType lock = UPDATE"
    and "t \<noteq> PRIMARY" "i < length (ip_vctRecord p)"
    and "order_bytes t (raws p ! i) = order_bytes t (lr_raw lr)"
    and "\<not> lr_bDelete (ip_vctRecord p ! i)" "\<not> ReleaseLockAble (ip_vctRecord p ! i)"
    and "IsConflict (ip_vctRecord p ! i) (hd (rl_lstTxid lock)) UPDATE"
  shows "\<exists>q lr'. LeafPage_UpdateAction t lr p = Some (q, lr', []) \<and> ip_vctRecord q = ip_vctRecord p \<and>
    rl_recResult (the (lr_recLock lr')) = IN_PAGE \<and> rl_errMsg (the (lr_recLock lr')) = Some STMT_LOCK_CONFLICT"
proof -
  have wf: "rec_wf t (lr_raw lr)" using assms(2) by (simp add: fresh_def leaf_wf_def)
  then have "rr_indexType (lr_raw lr) \<noteq> PRIMARY" using assms(5) by (simp add: rec_wf_def)
  with search_unique [OF assms(1,6) wf assms(7)] assms(3,4,8-10) show ?thesis
    by (auto simp: LeafPage_UpdateAction_def UpdateAction_find_def Let_def in_page_def fail_lock_def
        set_error_def set_result_def)
qed

theorem LeafPage_update_conflict_hidden_witness:
  "\<exists>q lr'. LeafPage_UpdateAction UNIQUE (small_new UPDATE 7 3 9) (sample_leaf [in_page (small_new INSERT 5 3 1)]) =
      Some (q, lr', []) \<and> rl_recResult (the (lr_recLock lr')) = IN_PAGE"
proof -
  have "leaf_inv UNIQUE (sample_leaf [in_page (small_new INSERT 5 3 1)])"
    by (rule sample_leaf_inv) (simp_all add: fresh_in_page small_new_def in_page_def set_lock_def set_result_def)
  from LeafPage_update_conflict_hidden [OF this, of "small_new UPDATE 7 3 9" _ 0] show ?thesis
    by (fastforce simp: in_page_def IsConflict_def ReleaseLockAble_def TXID_NULL_def)
qed

end
