(* ===== verification/Leaf_Save.thy ===== *)
theory Leaf_Save
  imports Leaf_Update
begin

text \<open>
  What \<open>LeafPage::SaveRecords\<close> puts into the page buffer: the committed version of every record that
  has one, whatever work is pending on top of it, in an image that \<open>InitParameters\<close> and
  \<open>LoadRecords\<close> read back.
\<close>

section \<open>The records that are written\<close>

abbreviation committed_version :: "LeafRecord \<Rightarrow> LeafRecord option" where
  "committed_version lr \<equiv> stable_version (Some lr)"

text \<open>
  What of a record belongs on disk. The lock of an ended statement or transaction that is still there counts as released: a read lock
  leaves the record, a commit the newest version or nothing for a delete, a rollback the oldest version or nothing for an insert. Below
  the work of a running transaction it is the version that the transaction found.
\<close>

definition released_version :: "LeafRecord \<Rightarrow> LeafRecord option" where
  "released_version lr =
     (case lr_recLock lr of
        None \<Rightarrow> None
      | Some l \<Rightarrow>
          if rl_actType l = READ_SHARE \<or> rl_actType l = READ_UPDATE then Some lr
          else if rl_recStatus l = ROLLBACKED then (if rl_undoRec l = None then None else Some (oldest lr))
          else if rl_actType l = DELETE then None else Some lr)"

definition saved_version :: "LeafRecord \<Rightarrow> LeafRecord option" where
  "saved_version lr =
     (if ReleaseLockAble lr then released_version lr
      else if lr_recLock lr = None \<and> lr_bDelete lr then None
      else committed_version lr)"

definition saved_records :: "LeafRecord list \<Rightarrow> LeafRecord list" where
  "saved_records lrs = List.map_filter saved_version lrs"

text \<open>The overflow pages that become free when the lock is released.\<close>

definition freed_pages :: "LeafRecord \<Rightarrow> (u32 \<times> u16) list" where
  "freed_pages lr =
     (case lr_recLock lr of
        None \<Rightarrow> []
      | Some l \<Rightarrow>
          if \<not> ReleaseLockAble lr \<or> rl_actType l = READ_SHARE \<or> rl_actType l = READ_UPDATE then []
          else if rl_recStatus l = ROLLBACKED then (if rl_undoRec l = None then recycled lr else newer_pages lr)
          else all_pages (rl_undoRec l))"

text \<open>
  A lock whose release leaves no lock: a read lock without versions, an insert that was rolled back, a chain of updates that were rolled
  back (the newest not a delete, which stays deleted), a committed change over finished ones.
\<close>

definition release_ok :: "LeafRecord \<Rightarrow> bool" where
  "release_ok lr =
     (case lr_recLock lr of
        None \<Rightarrow> False
      | Some l \<Rightarrow>
          if rl_actType l = READ_SHARE \<or> rl_actType l = READ_UPDATE then rl_undoRec l = None
          else if rl_recStatus l = ROLLBACKED
          then (if rl_undoRec l = None then rl_actType l = INSERT
                else rolled_back lr \<and> \<not> lr_bDelete lr \<and> \<not> lr_bDelete (oldest lr) \<and>
                  rr_class (lr_raw lr) = rr_class (lr_raw (oldest lr)) \<and> rr_bValid (lr_raw lr) = rr_bValid (lr_raw (oldest lr)))
          else rl_actType l \<in> {INSERT, UPDATE, DELETE} \<and> stable_below (rl_undoRec l) \<and>
            (rl_actType l = DELETE \<longrightarrow> lr_overflowPage lr = None))"

text \<open>
  A record that can be saved: its finished lock can be released, or it has no lock that is finished and the version to be written is
  not locked; a record that is deleted has no overflow page.
\<close>

definition saveable :: "LeafRecord \<Rightarrow> bool" where
  "saveable lr \<longleftrightarrow>
     (if ReleaseLockAble lr then release_ok lr
      else if lr_recLock lr = None \<and> lr_bDelete lr then lr_overflowPage lr = None
      else case committed_version lr of None \<Rightarrow> True | Some v \<Rightarrow> lr_recLock v = None) \<and>
     (case saved_version lr of None \<Rightarrow> True | Some v \<Rightarrow> \<not> lr_bDelete v \<and> slot_ok (lr_raw v))"

definition unlocked :: "LeafRecord \<Rightarrow> LeafRecord" where
  "unlocked lr = LeafRecord (lr_raw lr) None (lr_overflowPage lr)"

lemma unlocked_simps [simp]:
  "lr_raw (unlocked lr) = lr_raw lr" "lr_recLock (unlocked lr) = None" "lr_overflowPage (unlocked lr) = lr_overflowPage lr"
  "lr_recLock lr = None \<Longrightarrow> unlocked lr = lr"
  by (cases lr; simp add: unlocked_def)+

lemma committed_version_eq:
  "committed_version lr =
     (if IsStable lr then Some lr else stable_version (rl_undoRec (the (lr_recLock lr))))"
  by (cases "Some lr" rule: stable_version.cases) (simp_all add: IsStable_def)

lemma stable_unlocked: "lr_recLock lr = None \<Longrightarrow> IsStable lr" "lr_recLock lr = None \<Longrightarrow> no_undo lr"
  by (simp_all add: IsStable_def no_undo_def)

lemma raw_same:
  "\<not> rr_bDelete raw \<Longrightarrow> raw\<lparr>rr_bDelete := False\<rparr> = raw"
  "rr_class a = rr_class b \<Longrightarrow> rr_bValid a = rr_bValid b \<Longrightarrow> rr_bDelete a = rr_bDelete b \<Longrightarrow> move_assign a b = (b :: RawRecord)"
  by (cases raw; simp) (cases a; cases b; simp add: move_assign_def)

text \<open>What \<open>ReleaseLock\<close> makes of a finished lock.\<close>

lemma ReleaseLock_saved:
  assumes "ReleaseLockAble lr" "release_ok lr" "\<And>v. released_version lr = Some v \<Longrightarrow> \<not> lr_bDelete v"
  shows "\<exists>lr'. ReleaseLock lr = Some (lr', if released_version lr = None then DELETED else FINISHED, freed_pages lr) \<and>
    (case released_version lr of None \<Rightarrow> lr_overflowPage lr' = None | Some v \<Rightarrow> lr' = unlocked v)"
proof -
  obtain raw a s g r st tx u e ov where lr: "lr = LeafRecord raw (Some (RecordLock a s g r st tx u e)) ov"
    using assms(1) by (cases lr rule: ReleaseLock.cases) (auto simp: ReleaseLockAble_def)
  consider (read) "a = READ_SHARE \<or> a = READ_UPDATE" | (rollback) "a \<noteq> READ_SHARE" "a \<noteq> READ_UPDATE" "s = ROLLBACKED"
    | (commit) "a \<noteq> READ_SHARE" "a \<noteq> READ_UPDATE" "s \<noteq> ROLLBACKED" by blast
  then show ?thesis
  proof cases
    case read
    then show ?thesis using assms(1,2) by (auto simp: lr ReleaseLock.simps released_version_def release_ok_def freed_pages_def unlocked_def)
  next
    case rollback
    show ?thesis
    proof (cases u)
      case None
      then show ?thesis using assms(1,2) rollback
        by (auto simp: lr ReleaseLock.simps released_version_def release_ok_def freed_pages_def)
    next
      case (Some w)
      then have ok: "rolled_back lr" "\<not> lr_bDelete lr" "\<not> lr_bDelete (oldest lr)" "rr_class (lr_raw lr) = rr_class (lr_raw (oldest lr))"
          "rr_bValid (lr_raw lr) = rr_bValid (lr_raw (oldest lr))" "released_version lr = Some (oldest lr)" "freed_pages lr = newer_pages lr"
        using assms(1,2) rollback by (simp_all add: lr release_ok_def released_version_def freed_pages_def)
      have "lr_recLock lr \<noteq> None" by (simp add: lr)
      from rollback_chain [OF ok(1) this] show ?thesis using ok by (simp add: raw_same(2) unlocked_def)
    qed
  next
    case commit
    then have ok: "a = INSERT \<or> a = UPDATE \<or> a = DELETE" "stable_below u" "a = DELETE \<longrightarrow> ov = None"
      using assms(2) by (auto simp: lr release_ok_def)
    then show ?thesis using assms(1,3) commit free_versions_stable [OF ok(2)]
      by (auto simp: lr ReleaseLock.simps released_version_def freed_pages_def unlocked_def raw_same(1))
  qed
qed

lemma scan_keep_unlocked:
  "lr_recLock lr = None \<Longrightarrow> \<not> lr_bDelete lr \<Longrightarrow>
   scan_keep lr s = Some (s\<lparr>sc_records := sc_records s @ [lr], sc_chosen := sc_chosen s @ [lr],
     sc_temp := sc_temp s + slot_len (lr_raw lr), sc_committed := sc_committed s + slot_len (lr_raw lr)\<rparr>)"
  by (simp add: scan_keep_def stable_unlocked)

lemma finished_stable: "release_ok lr \<Longrightarrow> ReleaseLockAble lr \<Longrightarrow> IsStable lr"
  by (auto simp: release_ok_def ReleaseLockAble_def IsStable_def split: option.splits if_splits)

lemma scan_saveable:
  assumes "saveable lr"
  obtains s' where "scan_record lr s = Some s'" "sc_chosen s' = sc_chosen s @ map unlocked (saved_records [lr])"
    "sc_committed s' = sc_committed s + of_nat (page_load (map lr_raw (saved_records [lr])))"
    "sc_clean s' = (sc_clean s \<and> IsStable lr)" "sc_recycled s' = sc_recycled s @ freed_pages lr"
proof (cases "ReleaseLockAble lr")
  case True
  then have ok: "release_ok lr" "saved_version lr = released_version lr" using assms by (simp_all add: saveable_def saved_version_def)
  then have v: "\<not> lr_bDelete v" if "released_version lr = Some v" for v using assms that by (simp add: saveable_def)
  obtain lr' where lr': "ReleaseLock lr = Some (lr', if released_version lr = None then DELETED else FINISHED, freed_pages lr)"
      "case released_version lr of None \<Rightarrow> lr_overflowPage lr' = None | Some v \<Rightarrow> lr' = unlocked v"
    using ReleaseLock_saved [OF True ok(1) v] by blast
  note st = finished_stable [OF ok(1) True]
  show ?thesis
  proof (cases "released_version lr")
    case None
    then show ?thesis using True lr' ok(2) st that [of "s\<lparr>sc_recycled := sc_recycled s @ freed_pages lr\<rparr>"]
      by (simp add: scan_record_def saved_records_def map_filter_simps page_load_def)
  next
    case (Some x)
    then have "scan_record lr s = scan_keep (unlocked x) (s\<lparr>sc_recycled := sc_recycled s @ freed_pages lr\<rparr>)"
      using True lr' by (simp add: scan_record_def)
    then show ?thesis using Some ok(2) st v [OF Some] that
      by (simp add: scan_keep_unlocked saved_records_def map_filter_simps slot_len_nat)
  qed
next
  case nr: False
  have f: "freed_pages lr = []" using nr by (simp add: freed_pages_def split: option.split)
  have keep: "scan_record lr s = scan_keep lr s" using nr by (simp add: scan_record_def)
  consider (gone) "lr_recLock lr = None" "lr_bDelete lr" | (stable) "IsStable lr" "\<not> (lr_recLock lr = None \<and> lr_bDelete lr)" | (pending) "\<not> IsStable lr"
    by (cases "IsStable lr"; cases "lr_recLock lr = None \<and> lr_bDelete lr") auto
  then show ?thesis
  proof cases
    case gone
    then have "lr_overflowPage lr = None" "saved_version lr = None" using assms nr by (simp_all add: saveable_def saved_version_def)
    then show ?thesis using gone keep f that [of s]
      by (simp add: scan_keep_def stable_unlocked saved_records_def map_filter_simps page_load_def)
  next
    case stable
    then have "saved_version lr = Some lr" using nr by (auto simp: saved_version_def committed_version_eq)
    then have "lr_recLock lr = None" "\<not> lr_bDelete lr" "saved_version lr = Some lr"
      using assms nr stable by (auto simp: saveable_def committed_version_eq)
    then show ?thesis using keep f stable that
      by (simp add: scan_keep_unlocked saved_records_def map_filter_simps slot_len_nat)
  next
    case pending
    then have l: "lr_recLock lr \<noteq> None" using stable_unlocked(1) by blast
    then have sv: "saved_version lr = committed_version lr" using nr l by (auto simp: saved_version_def)
    show ?thesis
    proof (cases "committed_version lr")
      case None
      then show ?thesis using pending keep f sv that
        by (simp add: scan_keep_def Let_def saved_records_def committed_version_eq map_filter_simps page_load_def)
    next
      case (Some v)
      then have "lr_recLock v = None" using assms nr l by (simp add: saveable_def)
      then show ?thesis using Some pending keep f sv that
        by (simp add: scan_keep_def Let_def saved_records_def committed_version_eq map_filter_simps stable_unlocked slot_len_nat)
    qed
  qed
qed

lemma saved_records_Cons: "saved_records (lr # lrs) = saved_records [lr] @ saved_records lrs"
  by (simp add: saved_records_def map_filter_simps split: option.split)

lemma scan_records_saveable:
  assumes "\<forall>lr \<in> set lrs. saveable lr"
  obtains s' where "scan_records lrs s = Some s'" "sc_chosen s' = sc_chosen s @ map unlocked (saved_records lrs)"
    "sc_committed s' = sc_committed s + of_nat (page_load (map lr_raw (saved_records lrs)))"
    "sc_clean s' = (sc_clean s \<and> list_all IsStable lrs)" "sc_recycled s' = sc_recycled s @ concat (map freed_pages lrs)"
  using assms
proof (induction lrs arbitrary: s thesis)
  case Nil
  then show ?case by (simp add: saved_records_def map_filter_simps page_load_def)
next
  case (Cons lr lrs)
  have "saveable lr" using Cons.prems(2) by simp
  from scan_saveable [OF this, of s] obtain s1 where s1: "scan_record lr s = Some s1"
    "sc_chosen s1 = sc_chosen s @ map unlocked (saved_records [lr])"
    "sc_committed s1 = sc_committed s + of_nat (page_load (map lr_raw (saved_records [lr])))"
    "sc_clean s1 = (sc_clean s \<and> IsStable lr)" "sc_recycled s1 = sc_recycled s @ freed_pages lr" by blast
  have "\<forall>lr \<in> set lrs. saveable lr" using Cons.prems(2) by simp
  from Cons.IH [OF _ this, of s1] obtain s' where "scan_records lrs s1 = Some s'"
    "sc_chosen s' = sc_chosen s1 @ map unlocked (saved_records lrs)"
    "sc_committed s' = sc_committed s1 + of_nat (page_load (map lr_raw (saved_records lrs)))"
    "sc_clean s' = (sc_clean s1 \<and> list_all IsStable lrs)" "sc_recycled s' = sc_recycled s1 @ concat (map freed_pages lrs)" by blast
  with s1 show ?case
    by (intro Cons.prems(1) [of s'])
      (simp_all add: saved_records_Cons [of lr lrs] page_load_def)
qed

section \<open>The page image\<close>

definition leaf_image :: "(buf \<Rightarrow> u32) \<Rightarrow> alloc \<Rightarrow> LeafPage \<Rightarrow> u32 \<Rightarrow> RawRecord list \<Rightarrow> buf" where
  "leaf_image crc32 alloc p len rs =
     (let tmp = cp_bysPage p;
          page = (alloc INDEX_PAGE_SIZE)[PAGE_LEVEL_OFFSET := tmp ! PAGE_LEVEL_OFFSET,
                   PAGE_BEGIN_END_OFFSET := tmp ! PAGE_BEGIN_END_OFFSET];
          page = snd (save_slots rs 20 (of_nat (20 + length rs * 2)) page);
          page = wr 4 (of_nat (length rs) :: u16) page;
          page = wr 6 (ucast len :: u16) page
      in write_pointers crc32 p page)"

lemma SaveRecords_leaf:
  assumes "cp_bDirty p" "cp_bRecordUpdated p" "cp_pageStatus p = PS_VALID"
    and "unat (ip_committedDataLength p) \<le> MAX_DATA_LENGTH_LEAF"
    and "\<forall>lr \<in> set (ip_vctRecord p). saveable lr"
    and "page_load (map lr_raw (saved_records (ip_vctRecord p))) \<le> MAX_DATA_LENGTH_LEAF"
  shows "\<exists>q. LeafPage_SaveRecords crc32 alloc p =
      Some (q, list_all IsStable (ip_vctRecord p), concat (map freed_pages (ip_vctRecord p)),
            List.map_filter lr_overflowPage (saved_records (ip_vctRecord p))) \<and>
    cp_bysPage q = leaf_image crc32 alloc p
      (of_nat (page_load (map lr_raw (saved_records (ip_vctRecord p)))))
      (map lr_raw (saved_records (ip_vctRecord p))) \<and>
    cp_bDirty q = (\<not> list_all IsStable (ip_vctRecord p)) \<and> cp_bNeedDisk q"
proof -
  let ?cs = "saved_records (ip_vctRecord p)"
  obtain s where s: "scan_records (ip_vctRecord p) scan_start = Some s"
    "sc_chosen s = map unlocked ?cs" "sc_committed s = of_nat (page_load (map lr_raw ?cs))"
    "sc_clean s = list_all IsStable (ip_vctRecord p)" "sc_recycled s = concat (map freed_pages (ip_vctRecord p))"
    by (rule scan_records_saveable [OF assms(5), of scan_start]) (auto simp: scan_start_def)
  have "unat (of_nat (page_load (map lr_raw ?cs)) :: u32) = page_load (map lr_raw ?cs)"
    using assms(6) unfolding page_consts by (simp only: unat_of_nat) simp
  then have len: "\<not> unat (sc_committed s) > MAX_DATA_LENGTH_LEAF" using s(3) assms(6) by simp
  have "\<not> lr_bDelete v" if "v \<in> set ?cs" for v
    using that assms(5) by (fastforce simp: saved_records_def List.map_filter_def saveable_def)
  then have ok: "\<not> list_ex (\<lambda>lr. lr_recLock lr \<noteq> None \<or> lr_bDelete lr) (sc_chosen s)"
    by (auto simp: s(2) list_ex_iff)
  have ovf: "List.map_filter lr_overflowPage (map unlocked rs) = List.map_filter lr_overflowPage rs" for rs
    by (induction rs) (simp_all add: map_filter_simps split: option.split)
  have st: "\<not> (cp_pageStatus p \<noteq> PS_VALID \<or> unat (ip_committedDataLength p) > MAX_DATA_LENGTH_LEAF)"
    "\<not> \<not> cp_bDirty p" "\<not> \<not> cp_bRecordUpdated p"
    using assms(1-4) by auto
  show ?thesis
    unfolding LeafPage_SaveRecords_def if_not_P [OF st(1)] if_not_P [OF st(2)] if_not_P [OF st(3)] s(1)
      option.case Let_def if_not_P [OF len] if_not_P [OF ok]
    by (simp add: leaf_image_def Let_def split_def page_consts s(2-5) write_pointers_def ovf o_def)
qed

lemma leaf_image_spec:
  fixes crc32 :: "buf \<Rightarrow> u32" and p :: LeafPage
  assumes al: "alloc_ok alloc" and ok: "\<forall>r \<in> set rs. slot_ok r" and fits: "page_load rs \<le> MAX_DATA_LENGTH_LEAF"
  defines "img \<equiv> leaf_image crc32 alloc p (of_nat (page_load rs)) rs"
  shows "length img = INDEX_PAGE_SIZE"
    and "load_slots (length rs) 20 img = map rec_image rs"
    and "scast (rd 4 img :: u16) = (of_nat (length rs) :: u32)"
    and "scast (rd 6 img :: u16) = (of_nat (page_load rs) :: u32)"
    and "rd 8 img = ip_parentPageId p" "rd 12 img = lp_prevPageId p" "rd 16 img = lp_nextPageId p"
    and "crc32 (take CRC32_INDEX_OFFSET img) = rd CRC32_INDEX_OFFSET img"
proof -
  let ?n = "length rs"
  have load: "page_load rs \<le> 16360" using fits by (simp add: page_consts)
  have sz: "recs_size rs + 2 * ?n \<le> 16360" using load by (simp add: page_load_sum)
  define p0 where "p0 = (alloc INDEX_PAGE_SIZE)[PAGE_LEVEL_OFFSET := cp_bysPage p ! PAGE_LEVEL_OFFSET,
                   PAGE_BEGIN_END_OFFSET := cp_bysPage p ! PAGE_BEGIN_END_OFFSET]"
  define pos where "pos = (of_nat (20 + ?n * 2) :: u16)"
  have l0: "length p0 = 16384" using al by (simp add: p0_def page_consts)
  have pos: "unat pos = 20 + 2 * ?n" unfolding pos_def using sz by (simp only: unat_of_nat) simp
  have fit: "slots_fit rs 20 pos p0" using sz ok by (simp add: slots_fit_def l0 pos)
  define p1 where "p1 = snd (save_slots rs 20 pos p0)"
  define p2 where "p2 = wr 4 (of_nat ?n :: u16) p1"
  define p3 where "p3 = wr 6 (ucast (of_nat (page_load rs) :: u32) :: u16) p2"
  define p4 where "p4 = wr 16 (lp_nextPageId p) (wr 12 (lp_prevPageId p) (wr 8 (ip_parentPageId p) p3))"
  have img: "img = wr CRC32_INDEX_OFFSET (crc32 (take CRC32_INDEX_OFFSET p4)) p4"
    by (simp add: img_def leaf_image_def write_pointers_def p4_def p3_def p2_def p1_def pos_def p0_def Let_def
        page_consts)
  have l1: "length p1 = 16384" using save_slots_length [OF fit] l0 by (simp add: p1_def)
  have l3: "length p3 = 16384" using l1 by (simp add: p3_def p2_def)
  have l4: "length p4 = 16384" using l3 by (simp add: p4_def)
  show len: "length img = INDEX_PAGE_SIZE" using l4 by (simp add: img page_consts)
  have "same_area 20 (20 + 2 * ?n + recs_size rs) p1 img"
    unfolding img p4_def p3_def p2_def
    by (intro same_area_wr same_area_refl) (use sz l1 in \<open>simp_all add: page_consts\<close>)
  then show "load_slots ?n 20 img = map rec_image rs"
    using load_saved [OF fit, of img] by (simp add: pos p1_def)
  have nn: "unat (of_nat ?n :: u32) = ?n" using sz by (simp only: unat_of_nat) simp
  have "(ucast (of_nat ?n :: u32) :: u16) = of_nat (unat (of_nat ?n :: u32))" by simp
  then have un: "(ucast (of_nat ?n :: u32) :: u16) = of_nat ?n" by (simp only: nn)
  have r4: "rd 4 img = (ucast (of_nat ?n :: u32) :: u16)"
    unfolding un using l1 by (simp add: img p4_def p3_def p2_def page_consts rd_wr_other)
  have r6: "rd 6 img = (ucast (of_nat (page_load rs) :: u32) :: u16)"
    using l1 by (simp add: img p4_def p3_def p2_def page_consts rd_wr_other)
  show "rd 8 img = ip_parentPageId p" "rd 12 img = lp_prevPageId p" "rd 16 img = lp_nextPageId p"
    using l3 by (simp_all add: img p4_def page_consts rd_wr_other)
  have "unat (of_nat ?n :: u32) < 32768" using nn sz by linarith
  then show "scast (rd 4 img :: u16) = (of_nat ?n :: u32)" unfolding r4 by (rule scast_ucast_small)
  have "unat (of_nat (page_load rs) :: u32) = page_load rs" using load by (simp only: unat_of_nat) simp
  then have "unat (of_nat (page_load rs) :: u32) < 32768" using load by linarith
  then show "scast (rd 6 img :: u16) = (of_nat (page_load rs) :: u32)" unfolding r6 by (rule scast_ucast_small)
  have "take CRC32_INDEX_OFFSET img = take CRC32_INDEX_OFFSET p4"
    using l4 by (simp add: img wr_def patch_def page_consts)
  then show "crc32 (take CRC32_INDEX_OFFSET img) = rd CRC32_INDEX_OFFSET img"
    using l4 by (simp add: img page_consts)
qed

text \<open>
  C4: what a save leaves on disk is the committed state. Let a changed leaf page have saveable records whose versions to be written fit
  into a page. Saving it and reading the buffer back into a clean page without records gives a page whose records are, in order and byte
  for byte, what of the records belongs on disk: the version of a committed transaction whose lock is still there, without its deletes,
  the oldest version of one that was rolled back, without its inserts, records without lock, and below the work of a running transaction
  the version it found; uncommitted inserts are not there. The overflow pages of the versions that are given up are recycled. The save
  reports whether all records are stable and otherwise leaves the page dirty. A record is saveable when no read lock is held on the version
  to be written, and a finished lock is a read lock without versions, a commit over finished versions, the rollback of an insert or of
  updates of which the newest is no delete. \<open>LeafPage_save_read_lock_aborts\<close> is the case of a read lock that is held,
  \<open>rollback_delete_lost\<close> that of a rolled back delete.
\<close>

theorem LeafPage_save_load_committed:
  assumes "alloc_ok alloc" "cp_bDirty p" "cp_bRecordUpdated p" "cp_pageStatus p = PS_VALID"
    and "unat (ip_committedDataLength p) \<le> MAX_DATA_LENGTH_LEAF"
    and "\<forall>lr \<in> set (ip_vctRecord p). saveable lr"
    and "page_load (map lr_raw (saved_records (ip_vctRecord p))) \<le> MAX_DATA_LENGTH_LEAF"
    and "\<not> cp_bDirty f" "ip_vctRecord f = []"
  shows "\<exists>q ovf r. LeafPage_SaveRecords crc32 alloc p =
      Some (q, list_all IsStable (ip_vctRecord p), concat (map freed_pages (ip_vctRecord p)), ovf) \<and>
    cp_bDirty q = (\<not> list_all IsStable (ip_vctRecord p)) \<and>
    AfterRead crc32 (LeafPage_InitParameters t None None None) (f\<lparr>cp_bysPage := cp_bysPage q\<rparr>) = Some r \<and>
    ip_vctRecord r =
      map (\<lambda>lr. LeafRecord_load t (rec_image (lr_raw lr))) (saved_records (ip_vctRecord p)) \<and>
    lp_prevPageId r = lp_prevPageId p \<and> lp_nextPageId r = lp_nextPageId p \<and>
    ip_parentPageId r = ip_parentPageId p \<and>
    ip_committedDataLength r = of_nat (page_load (map lr_raw (saved_records (ip_vctRecord p))))"
proof -
  let ?cs = "saved_records (ip_vctRecord p)"
  let ?img = "leaf_image crc32 alloc p (of_nat (page_load (map lr_raw ?cs))) (map lr_raw ?cs)"
  have "slot_ok (lr_raw v)" if "v \<in> set ?cs" for v
    using that assms(6) by (fastforce simp: saved_records_def List.map_filter_def saveable_def)
  then have ok: "\<forall>r \<in> set (map lr_raw ?cs). slot_ok r" by auto
  note im = leaf_image_spec [OF assms(1) ok assms(7), of crc32 p]
  have "4 * length ?cs \<le> MAX_DATA_LENGTH_LEAF"
  proof -
    have "4 * length rs \<le> page_load rs" if "\<forall>r \<in> set rs. slot_ok r" for rs :: "RawRecord list"
      using that by (induction rs) (auto simp: slot_ok_def)
    from this [OF ok] assms(7) show ?thesis by simp
  qed
  then have n: "unat (of_nat (length ?cs) :: u32) = length ?cs"
    unfolding page_consts by (simp only: unat_of_nat) simp
  let ?r = "f\<lparr>cp_bysPage := ?img, cp_score := 100, ip_recordNum := of_nat (length ?cs),
      ip_committedDataLength := of_nat (page_load (map lr_raw ?cs)),
      ip_tempDataLength := of_nat (page_load (map lr_raw ?cs)), ip_parentPageId := ip_parentPageId p,
      lp_prevPageId := lp_prevPageId p, lp_nextPageId := lp_nextPageId p,
      ip_vctRecord := map (LeafRecord_load t) (map rec_image (map lr_raw ?cs))\<rparr>"
  have "LeafPage_InitParameters t None None None (f\<lparr>cp_bysPage := ?img\<rparr>) = Some ?r"
    using im assms(8,9) n
    by (simp add: LeafPage_InitParameters_def LeafPage_LoadRecords_def page_consts Let_def)
  then have "AfterRead crc32 (LeafPage_InitParameters t None None None) (f\<lparr>cp_bysPage := ?img\<rparr>) =
      Some (?r\<lparr>cp_pageStatus := READED\<rparr>)"
    using im(8) by (simp add: AfterRead_def)
  with SaveRecords_leaf [OF assms(2-7), of crc32 alloc] show ?thesis by (auto simp: o_def)
qed

text \<open>
  A page with an untouched record, one updated and one inserted by transaction 5, which is running, one updated and one deleted by
  transaction 6, which has committed, and one inserted and one updated by transaction 7, which was rolled back.
\<close>

definition ended :: "RecordStatus \<Rightarrow> LeafRecord \<Rightarrow> LeafRecord" where
  "ended s lr = set_lock (map_option (\<lambda>l. RecordLock (rl_actType l) s (rl_bGapLock l) (rl_recResult l)
     None (rl_lstTxid l) (rl_undoRec l) (rl_errMsg l)) (lr_recLock lr)) lr"

definition busy_page :: LeafPage where
  "busy_page = sample_leaf [small_rec 3 1, with_undo (small_new UPDATE 5 8 2) (small_rec 8 1),
     in_page (small_new INSERT 5 9 1), ended COMMITED (with_undo (small_new UPDATE 6 10 2) (small_rec 10 1)),
     ended COMMITED (with_undo (small_new DELETE 6 11 1) (small_rec 11 1)), ended ROLLBACKED (in_page (small_new INSERT 7 12 1)),
     ended ROLLBACKED (with_undo (small_new UPDATE 7 13 2) (small_rec 13 1))]"

lemma small_slot_ok [simp]: "slot_ok (small_raw t k v False)"
  by (simp add: slot_ok_def) (simp add: small_raw_def leaf_raw_def)

lemmas busy_defs = saved_version_def released_version_def ReleaseLockAble_def committed_version_eq IsStable_def ended_def with_undo_def in_page_def
  set_lock_def small_new_def small_rec_def set_undo_def set_result_def

lemma small_not_deleted [simp]: "rr_bDelete (small_raw t k v b) = b" "rr_class (small_raw t k v b) = LeafClass" "rr_bValid (small_raw t k v b)"
  by (simp_all add: small_raw_def leaf_raw_def)

lemma busy_saved:
  "saved_version (small_rec k v) = Some (small_rec k v)"
  "saved_version (with_undo (small_new UPDATE 5 8 2) (small_rec 8 1)) = Some (small_rec 8 1)"
  "saved_version (in_page (small_new INSERT 5 9 1)) = None"
  "saved_version (ended COMMITED (with_undo (small_new UPDATE 6 10 2) (small_rec 10 1))) =
     Some (ended COMMITED (with_undo (small_new UPDATE 6 10 2) (small_rec 10 1)))"
  "saved_version (ended COMMITED (with_undo (small_new DELETE 6 11 1) (small_rec 11 1))) = None"
  "saved_version (ended ROLLBACKED (in_page (small_new INSERT 7 12 1))) = None"
  "saved_version (ended ROLLBACKED (with_undo (small_new UPDATE 7 13 2) (small_rec 13 1))) = Some (small_rec 13 1)"
  by (simp_all add: busy_defs)

lemma busy_ok:
  "saveable (small_rec k v)" "saveable (with_undo (small_new UPDATE 5 8 2) (small_rec 8 1))" "saveable (in_page (small_new INSERT 5 9 1))"
  "saveable (ended COMMITED (with_undo (small_new UPDATE 6 10 2) (small_rec 10 1)))"
  "saveable (ended COMMITED (with_undo (small_new DELETE 6 11 1) (small_rec 11 1)))"
  "saveable (ended ROLLBACKED (in_page (small_new INSERT 7 12 1)))"
  "saveable (ended ROLLBACKED (with_undo (small_new UPDATE 7 13 2) (small_rec 13 1)))"
  unfolding saveable_def busy_saved by (simp_all add: busy_defs release_ok_def)

lemma busy_saveable: "\<forall>lr \<in> set (ip_vctRecord busy_page). saveable lr"
  by (simp add: busy_page_def busy_ok)

lemma busy_records: "map lr_raw (saved_records (ip_vctRecord busy_page)) =
    [small_raw UNIQUE 3 1 False, small_raw UNIQUE 8 1 False, small_raw UNIQUE 10 2 False, small_raw UNIQUE 13 1 False]"
  by (simp add: busy_page_def saved_records_def map_filter_simps busy_saved) (simp add: busy_defs)

theorem LeafPage_save_load_committed_witness:
  "\<exists>q ovf r. LeafPage_SaveRecords (\<lambda>_. 7) (\<lambda>n. replicate n 1) busy_page = Some (q, False, [], ovf) \<and> cp_bDirty q \<and>
    AfterRead (\<lambda>_. 7) (LeafPage_InitParameters UNIQUE None None None)
      ((sample_leaf [])\<lparr>cp_bDirty := False, cp_bysPage := cp_bysPage q\<rparr>) = Some r \<and>
    map (rec_image \<circ> lr_raw) (ip_vctRecord r) =
      [store (6 :: u16) @ store (1 :: u16) @ [3, 1], store (6 :: u16) @ store (1 :: u16) @ [8, 1],
       store (6 :: u16) @ store (1 :: u16) @ [10, 2], store (6 :: u16) @ store (1 :: u16) @ [13, 1]]"
proof -
  let ?loaded = "\<lambda>raw. LeafRecord_load UNIQUE (rec_image raw)"
  have st: "\<not> list_all IsStable (ip_vctRecord busy_page)"
    by (simp add: busy_page_def IsStable_def in_page_def)
  have fr: "concat (map freed_pages (ip_vctRecord busy_page)) = []"
    by (simp add: busy_page_def freed_pages_def busy_defs recycled_def)
  have pg: "cp_bDirty busy_page" "cp_bRecordUpdated busy_page" "cp_pageStatus busy_page = PS_VALID"
    "unat (ip_committedDataLength busy_page) \<le> MAX_DATA_LENGTH_LEAF"
    by (simp_all add: busy_page_def sample_leaf_def commitLen_def busy_defs GetAction_def page_consts)
  have im: "rec_image (lr_raw (LeafRecord_load t (rec_image (small_raw UNIQUE k v False)))) =
      store (6 :: u16) @ store (1 :: u16) @ [k, v]" for k v t
    by (simp add: rec_image_def LeafRecord_load_def GetTotalLength_def small_raw_def leaf_raw_def)
  have load: "page_load (map lr_raw (saved_records (ip_vctRecord busy_page))) \<le> MAX_DATA_LENGTH_LEAF"
    by (simp add: busy_records page_load_def page_consts)
  have m: "map (\<lambda>lr. ?loaded (lr_raw lr)) rs = map ?loaded (map lr_raw rs)" for rs by simp
  obtain q ovf r where e: "LeafPage_SaveRecords (\<lambda>_. 7) (\<lambda>n. replicate n 1) busy_page = Some (q, False, [], ovf)" "cp_bDirty q"
      "AfterRead (\<lambda>_. 7) (LeafPage_InitParameters UNIQUE None None None) ((sample_leaf [])\<lparr>cp_bDirty := False, cp_bysPage := cp_bysPage q\<rparr>) = Some r"
      "ip_vctRecord r = map ?loaded (map lr_raw (saved_records (ip_vctRecord busy_page)))"
    using LeafPage_save_load_committed [OF alloc_ok_replicate [of 1] pg busy_saveable load, of "(sample_leaf [])\<lparr>cp_bDirty := False\<rparr>" "\<lambda>_. 7" UNIQUE] st
    unfolding m fr by (auto simp: sample_leaf_def)
  show ?thesis by (intro exI [of _ q] exI [of _ ovf] exI [of _ r]) (simp add: e(1-3) e(4) [unfolded busy_records] im)
qed

text \<open>
  A read-locked record blocks saving. If a live, stable record of a changed page still has a read
  lock of a running transaction and everything before it can be saved, \<open>SaveRecords\<close> chooses the
  record itself, and the assertion in \<open>SaveData\<close> that it has no lock fails.
\<close>

theorem LeafPage_save_read_lock_aborts:
  assumes "cp_bDirty p" "cp_bRecordUpdated p" "cp_pageStatus p = PS_VALID"
    and "unat (ip_committedDataLength p) \<le> MAX_DATA_LENGTH_LEAF"
    and "ip_vctRecord p = lrs @ [lr]" "\<forall>r \<in> set lrs. saveable r"
    and "lr_recLock lr = Some l" "rl_actType l \<in> {READ_SHARE, READ_UPDATE}" "\<not> ReleaseLockAble lr"
    and "rl_undoRec l = None" "\<not> lr_bDelete lr"
    and "page_load (map lr_raw (saved_records lrs @ [lr])) \<le> MAX_DATA_LENGTH_LEAF"
  shows "LeafPage_SaveRecords crc32 alloc p = None"
proof -
  obtain s where s: "scan_records lrs scan_start = Some s" "sc_chosen s = map unlocked (saved_records lrs)"
    "sc_committed s = of_nat (page_load (map lr_raw (saved_records lrs)))"
    by (rule scan_records_saveable [OF assms(6), of scan_start]) (auto simp: scan_start_def)
  have "IsStable lr" "no_undo lr" using assms(7,8,10) by (auto simp: IsStable_def no_undo_def)
  then obtain s' where s': "scan_record lr s = Some s'" "sc_chosen s' = sc_chosen s @ [lr]"
    "sc_committed s' = sc_committed s + slot_len (lr_raw lr)"
    using assms(9,11) by (simp add: scan_record_def scan_keep_def)
  have app: "scan_records (xs @ ys) a = (case scan_records xs a of None \<Rightarrow> None | Some b \<Rightarrow> scan_records ys b)" for xs ys a
    by (induction xs arbitrary: a) (simp_all split: option.split)
  have sc: "scan_records (ip_vctRecord p) scan_start = Some s'" by (simp add: assms(5) app s s')
  let ?n = "page_load (map lr_raw (saved_records lrs @ [lr]))"
  have "sc_committed s' = of_nat ?n" by (simp add: s' s slot_len_nat page_load_def)
  moreover have "unat (of_nat ?n :: u32) = ?n" using assms(12) unfolding page_consts by (simp only: unat_of_nat) simp
  ultimately have len: "\<not> unat (sc_committed s') > MAX_DATA_LENGTH_LEAF" using assms(12) by simp
  have ex: "list_ex (\<lambda>lr. lr_recLock lr \<noteq> None \<or> lr_bDelete lr) (sc_chosen s')" by (simp add: s' assms(7))
  have st: "\<not> (cp_pageStatus p \<noteq> PS_VALID \<or> unat (ip_committedDataLength p) > MAX_DATA_LENGTH_LEAF)"
    "\<not> \<not> cp_bDirty p" "\<not> \<not> cp_bRecordUpdated p"
    using assms(1-4) by auto
  show ?thesis
    unfolding LeafPage_SaveRecords_def if_not_P [OF st(1)] if_not_P [OF st(2)] if_not_P [OF st(3)] sc
      option.case Let_def if_not_P [OF len] if_P [OF ex] by (rule refl)
qed

theorem LeafPage_save_read_lock_aborts_witness:
  "LeafPage_SaveRecords (\<lambda>_. 7) (\<lambda>n. replicate n 1)
     (sample_leaf [small_rec 3 1, small_new READ_SHARE 5 8 2]) = None"
  by (rule LeafPage_save_read_lock_aborts [where lrs = "[small_rec 3 1]" and lr = "small_new READ_SHARE 5 8 2"])
    (simp_all add: busy_ok busy_saved ReleaseLockAble_def TXID_NULL_def saved_records_def
      map_filter_simps page_load_def page_consts, simp_all add: sample_leaf_def commitLen_def small_rec_def small_new_def GetAction_def)

end
