(* ===== verification/Key_Order.thy ===== *)
theory Key_Order
  imports Float_Keys Leaf_Save
begin

text \<open>
  What the byte encoding of keys gives the index: encoded keys compare the way the encoded values
  do, the encodings can be read back, and the separator that a page hands to its parent has the key
  of the record it was made from. The last theorems are about the encodings that do not.
\<close>

section \<open>Comparing bytes\<close>

text \<open>
  C30: \<open>BytesCompare\<close> is lexicographic comparison. The routine compares eight bytes at a time as
  byte-swapped words, then the rest byte by byte, then the lengths; the sign of its result is that of
  the lexicographic comparison of the two buffers, for lengths below \<open>2^31\<close>.
\<close>

theorem BytesCompare_lexicographic:
  assumes "unat l1 \<le> length a" "unat l2 \<le> length b" "unat l1 < 2 ^ 31" "unat l2 < 2 ^ 31"
  shows "sgn (BytesCompare a l1 b l2) = lexcmp (take (unat l1) a) (take (unat l2) b)"
  unfolding BytesCompare_take [OF assms(1,2)] by (rule bytes_cmp_sgn) (use assms in auto)

theorem BytesCompare_lexicographic_witness:
  "sgn (BytesCompare [1, 2, 3, 4, 5, 6, 7, 8, 9, 200] 10 [1, 2, 3, 4, 5, 6, 7, 8, 10] 9) = -1"
  using BytesCompare_lexicographic [of 10 "[1, 2, 3, 4, 5, 6, 7, 8, 9, 200]" 9 "[1, 2, 3, 4, 5, 6, 7, 8, 10]"]
  by simp

text \<open>
  \<open>BytesCopy\<close> copies exactly \<open>len\<close> bytes and leaves the rest of the destination alone.
\<close>

theorem BytesCopy_exact:
  assumes "unat len \<le> length src" "unat len \<le> length dst"
  shows "BytesCopy dst src len = take (unat len) src @ drop (unat len) dst"
  by (rule BytesCopy_eq [OF assms])

theorem BytesCopy_exact_witness:
  "BytesCopy [0, 0, 0, 0, 0, 0, 0, 0, 0, 7] [1, 2, 3, 4, 5, 6, 7, 8, 9, 10, 11] 9 = [1, 2, 3, 4, 5, 6, 7, 8, 9, 7]"
  using BytesCopy_exact [of 9 "[1, 2, 3, 4, 5, 6, 7, 8, 9, 10, 11]" "[0, 0, 0, 0, 0, 0, 0, 0, 0, 7]"] by simp

text \<open>
  integers can be read back from their bytes, in key form (\<open>bkey\<close>, big endian with the sign bit
  flipped) and in value form, whatever bytes follow.
\<close>

theorem integer_bytes_roundtrip:
  "Int64FromBytes (Int64ToBytes a k @ bs) k = a \<and> UInt64FromBytes (UInt64ToBytes a k @ bs) k = a \<and>
   Int32FromBytes (Int32ToBytes b k @ bs) k = b \<and> UInt32FromBytes (UInt32ToBytes b k @ bs) k = b \<and>
   Int16FromBytes (Int16ToBytes c k @ bs) k = c \<and> UInt16FromBytes (UInt16ToBytes c k @ bs) k = c \<and>
   Int8FromBytes (Int8ToBytes d k @ bs) k = d \<and> UInt8FromBytes (UInt8ToBytes d k @ bs) k = d"
  by (intro conjI i64.dec_enc u64.dec_enc i32.dec_enc u32.dec_enc i16.dec_enc u16.dec_enc i8.dec_enc u8.dec_enc)

definition pair_key :: "u64 \<Rightarrow> u32 \<Rightarrow> buf" where
  "pair_key a b = Int64ToBytes a True @ Int32ToBytes b True"

text \<open>
  A composite integer key compares field by field. The key bytes of a signed 64-bit field
  followed by a signed 32-bit field compare, under \<open>BytesCompare\<close>, like the pairs of numbers.
\<close>

theorem composite_key_order:
  "BytesCompare (pair_key a b) 12 (pair_key c d) 12 < 0 \<longleftrightarrow>
     sint a < sint c \<or> a = c \<and> sint b < sint d"
proof -
  have len: "length (pair_key x y) = 12" for x y
    by (simp add: pair_key_def i64.length_enc i32.length_enc)
  have "sgn (BytesCompare (pair_key a b) 12 (pair_key c d) 12) = lexcmp (pair_key a b) (pair_key c d)"
    using BytesCompare_take [of 12 "pair_key a b" 12 "pair_key c d"]
      bytes_cmp_sgn [of "pair_key a b" "pair_key c d"] by (simp add: len)
  then have "BytesCompare (pair_key a b) 12 (pair_key c d) 12 < 0 \<longleftrightarrow> lexcmp (pair_key a b) (pair_key c d) < 0"
    by (metis sgn_less)
  also have "\<dots> \<longleftrightarrow> sint a < sint c \<or> a = c \<and> sint b < sint d"
    unfolding pair_key_def ki64.lexcmp_fields ki32.enc_less ..
  finally show ?thesis .
qed

section \<open>Separators\<close>

lemma CompareKey_take:
  "4 + unat (GetKeyLength r) \<le> length (rr_bysVal r) \<Longrightarrow> key_ok key \<Longrightarrow>
   CompareKey r key = bytes_cmp (rec_key r) (key_bytes key)"
  by (simp add: CompareKey_def BytesCompare_take key_ok_def rec_key_def key_bytes_def)

text \<open>
  a separator routes like the record it was made from. When the lengths of a record lie inside
  its buffer, the branch record constructed from it is well formed, has the key and child page id it
  was given, and compares with every key like the record.
\<close>

theorem BranchRecord_new_separator:
  assumes "alloc_ok alloc" "source_ok rec" "rec_fits rec"
  shows "\<exists>br. BranchRecord_new alloc t rec pid child = Some br \<and> branch_ok br \<and>
    rec_key br = rec_key rec \<and> GetChildPageId br = pid \<and> br_childPage br = child \<and>
    (\<forall>key. key_ok key \<longrightarrow> CompareKey br key = CompareKey rec key)"
proof -
  let ?br = "branch_of t rec pid child"
  have ok: "branch_ok ?br" by (rule branch_of_ok [OF assms(2)])
  have k: "4 + unat (GetKeyLength ?br) \<le> length (rr_bysVal ?br)"
    using ok by (simp add: branch_ok_def)
  have "CompareKey ?br key = CompareKey rec key" if "key_ok key" for key
    using that k assms(3) branch_of_key [OF assms(2), of t pid child]
    by (simp only: CompareKey_take rec_fits_def len_defs)
  then show ?thesis
    using BranchRecord_new_eq [OF assms(1,2)] ok branch_of_key [OF assms(2)] branch_of_lengths(4) [OF assms(2)]
    by auto
qed


definition second_raw :: RawRecord where
  "second_raw = leaf_raw UNIQUE (store (14 :: u16) @ store (1 :: u16) @ [3, 1] @ store (0 :: u64)) False"

lemma second_raw_lengths:
  "GetKeyLength second_raw = 1" "GetValueLength second_raw = 1" "length (rr_bysVal second_raw) = 14"
  by (simp_all add: second_raw_def leaf_raw_def GetKeyLength_def GetValueLength_def)

theorem BranchRecord_new_separator_witness:
  "\<exists>br. BranchRecord_new (\<lambda>n. replicate n 0) UNIQUE second_raw 7 None = Some br \<and>
    rec_key br = rec_key second_raw \<and> GetChildPageId br = 7"
proof -
  have "source_ok second_raw" "rec_fits second_raw"
    by (simp_all add: source_ok_def copied_len_def rec_fits_def second_raw_lengths)
      (simp add: second_raw_def leaf_raw_def)
  then show ?thesis
    using BranchRecord_new_separator [OF alloc_ok_replicate [of 0], of second_raw UNIQUE 7 None] by blast
qed

text \<open>
  a primary leaf record with an overflow page cannot become a separator. Its value length is the
  length of the value in the overflow page, so the constructor of \<open>BranchRecord\<close> copies beyond the
  end of the record's buffer; there is no result.
\<close>

theorem BranchRecord_new_overflow:
  assumes "length (rr_bysVal rec) < 4 + unat (GetKeyLength rec) + unat (GetValueLength rec)"
  shows "BranchRecord_new alloc t rec pid child = None"
  using assms unfolding BranchRecord_new_def Let_def by (simp add: len_defs)

definition overflow_raw :: RawRecord where
  "overflow_raw = leaf_raw PRIMARY (store (28 :: u16) @ store (1 :: u16) @ [3, 0x80] @ store (1 :: u64) @
     store (20000 :: u32) @ store (0 :: u32) @ store (5 :: u32) @ store (2 :: u16)) False"

theorem BranchRecord_new_overflow_witness:
  "BranchRecord_new (\<lambda>n. replicate n 0) PRIMARY overflow_raw 7 None = None"
  by (rule BranchRecord_new_overflow)
    (simp add: overflow_raw_def leaf_raw_def GetKeyLength_def GetValueLength_def rd_def)

section \<open>Floating point keys\<close>

text \<open>
  the key form of \<open>double\<close> orders the non-negative numbers. For bit patterns with a clear sign
  bit the bytes compare like the numbers (scaled by \<open>2^1074\<close> to integers).
\<close>

theorem double_key_nonnegative:
  assumes "\<not> bit v 63" "\<not> bit w 63"
  shows "lexcmp (DoubleToBytes v True) (DoubleToBytes w True) < 0 \<longleftrightarrow> dbl_scaled v < dbl_scaled w"
  using unsigned_order_nonneg [OF assms] nonneg_xor_less [OF assms] assms by (simp add: double_key_less)

theorem double_key_nonnegative_witness:
  "lexcmp (DoubleToBytes 0x3ff0000000000000 True) (DoubleToBytes 0x4000000000000000 True) < 0 \<longleftrightarrow>
   dbl_scaled 0x3ff0000000000000 < dbl_scaled 0x4000000000000000"
  by (rule double_key_nonnegative) code_simp+

text \<open>
  The key form of \<open>double\<close> reverses negative numbers. Of two negative numbers the one with the
  larger exponent, which is the smaller number, gets the larger key: the encoding complements the
  mantissa but not the exponent.
\<close>

theorem double_key_negative_reversed:
  assumes "bit v 63" "bit w 63" "dbl_exponent v < dbl_exponent w"
  shows "lexcmp (DoubleToBytes v True) (DoubleToBytes w True) < 0 \<and> dbl_scaled w < dbl_scaled v"
  by (rule neg_key_reversed [OF assms])

theorem double_key_negative_reversed_witness:
  "lexcmp (DoubleToBytes 0xbff0000000000000 True) (DoubleToBytes 0xc000000000000000 True) < 0 \<and>
   dbl_scaled 0xc000000000000000 < dbl_scaled 0xbff0000000000000"
proof (rule double_key_negative_reversed)
  show "bit (0xbff0000000000000 :: u64) 63" "bit (0xc000000000000000 :: u64) 63" by code_simp+
  show "dbl_exponent 0xbff0000000000000 < dbl_exponent 0xc000000000000000" by (simp add: dbl_exponent_def)
qed

text \<open>
  \<open>BytesHash\<close> of two bytes is undefined for most inputs. When the first byte is at least 63, the
  second step shifts a 64-bit value by at least 64.
\<close>

theorem BytesHash_two_bytes_undefined:
  assumes "63 \<le> unat b"
  shows "BytesHash [b, c] 2 = None"
proof -
  have "BytesHash [b, c] (of_nat (length [b, c])) = hash_rest (length [b, c]) 0 [b, c]"
    by (rule BytesHash_short) simp
  moreover have "length [b, c] = Suc (Suc 0)" by simp
  moreover have "of_nat (Suc (Suc 0)) = (2 :: u64)" by simp
  ultimately show ?thesis by (simp only: hash_rest_second [OF assms])
qed

theorem BytesHash_two_bytes_undefined_witness: "BytesHash [65, 66] 2 = None"
  by (rule BytesHash_two_bytes_undefined) simp

text \<open>
  The type byte of a stored value identifies its type. \<open>ValueOfDataType\<close> gives back the type
  from the low seven bits that are stored, for every type except \<open>VAL_NULL\<close>, and a byte it accepts
  is the type byte of the result.
\<close>

theorem type_byte_roundtrip:
  assumes "dt \<noteq> DT_VAL_NULL"
  shows "ValueOfDataType (type_byte dt) = Some dt \<and> (\<forall>b. ValueOfDataType b = Some dt \<longrightarrow> b = type_byte dt)"
  using ValueOfDataType_type_byte [OF assms] ValueOfDataType_range by blast

theorem type_byte_roundtrip_witness: "ValueOfDataType (type_byte DT_VARCHAR) = Some DT_VARCHAR"
  using type_byte_roundtrip [of DT_VARCHAR] by simp

end
