(* ===== verification/Page_Split.thy ===== *)
theory Page_Split
  imports Branch_Page
begin

text \<open>
  Where \<open>SplitPage\<close> cuts an overlong page. The first loop of \<open>BranchPage::SplitPage\<close> walks over the
  records and adds up their lengths; when the sum passes the load factor it closes a chunk after the
  current record, or before it (stepping back with \<open>pos--\<close>) when the record no longer fits the page.
  A record longer than a page would be stepped back over for ever, so the loop is a partial
  function and \<open>None\<close> means that it does not return.
\<close>

partial_function (option) split_loop ::
    "nat list \<Rightarrow> int \<Rightarrow> int \<Rightarrow> int \<Rightarrow> int \<Rightarrow> int list \<Rightarrow> int list \<Rightarrow> (int \<times> int \<times> int list \<times> int list) option" where
  "split_loop sizes limitLen maxLen pos len vctPos vctLen =
     (if pos \<ge> int (length sizes) then Some (pos, len, vctPos, vctLen)
      else
        let sz = int (sizes ! nat pos); len = len + sz in
        if len > limitLen then
          (if len > maxLen
           then split_loop sizes limitLen maxLen pos 0 (vctPos @ [pos]) (vctLen @ [len - sz])
           else split_loop sizes limitLen maxLen (pos + 1) 0 (vctPos @ [pos + 1]) (vctLen @ [len]))
        else split_loop sizes limitLen maxLen (pos + 1) len vctPos vctLen)"

text \<open>The chunk that is left over is closed after the loop.\<close>

definition split_points :: "nat list \<Rightarrow> int \<Rightarrow> int \<Rightarrow> (int list \<times> int list) option" where
  "split_points sizes limitLen maxLen =
     (case split_loop sizes limitLen maxLen 0 0 [] [] of
        None \<Rightarrow> None
      | Some (pos, len, vctPos, vctLen) \<Rightarrow>
          Some (if len > 0 then (vctPos @ [pos], vctLen @ [len]) else (vctPos, vctLen)))"

text \<open>
  What the cuts are for: consecutive non-empty chunks with the recorded lengths, none longer than a
  page; a chunk is closed early only when it has passed the load factor or the next record would
  not fit.
\<close>

definition span_size :: "nat list \<Rightarrow> int \<Rightarrow> int \<Rightarrow> int" where
  "span_size sizes b e = (\<Sum>i\<leftarrow>take (nat (e - b)) (drop (nat b) sizes). int i)"

fun cuts_ok :: "nat list \<Rightarrow> int \<Rightarrow> int \<Rightarrow> int \<Rightarrow> int list \<Rightarrow> int list \<Rightarrow> int \<Rightarrow> bool" where
  "cuts_ok sizes limitLen maxLen b [] [] e \<longleftrightarrow> b = e"
| "cuts_ok sizes limitLen maxLen b (p # ps) (l # ls) e \<longleftrightarrow>
     b < p \<and> p \<le> int (length sizes) \<and> l = span_size sizes b p \<and> l \<le> maxLen \<and>
     (p < int (length sizes) \<longrightarrow> l > limitLen \<or> l + int (sizes ! nat p) > maxLen) \<and>
     cuts_ok sizes limitLen maxLen p ps ls e"
| "cuts_ok sizes limitLen maxLen b _ _ e \<longleftrightarrow> False"

lemma span_size_empty [simp]: "span_size sizes b b = 0"
  by (simp add: span_size_def)

lemma span_size_step:
  assumes "0 \<le> b" "b \<le> p" "p < int (length sizes)"
  shows "span_size sizes b (p + 1) = span_size sizes b p + int (sizes ! nat p)"
proof -
  have n: "nat (p + 1 - b) = Suc (nat (p - b))" using assms by simp
  have "nat (p - b) < length (drop (nat b) sizes)" using assms by simp
  moreover have "nat b + nat (p - b) = nat p" using assms by simp
  ultimately show ?thesis
    using assms unfolding span_size_def n by (simp add: take_Suc_conv_app_nth)
qed

lemma cuts_ok_snoc:
  "cuts_ok sizes limitLen maxLen b ps ls e \<Longrightarrow> e < p \<Longrightarrow> p \<le> int (length sizes) \<Longrightarrow>
   l = span_size sizes e p \<Longrightarrow> l \<le> maxLen \<Longrightarrow>
   (p < int (length sizes) \<longrightarrow> l > limitLen \<or> l + int (sizes ! nat p) > maxLen) \<Longrightarrow>
   cuts_ok sizes limitLen maxLen b (ps @ [p]) (ls @ [l]) p"
proof (induction ps arbitrary: b ls)
  case Nil
  then show ?case by (cases ls) auto
next
  case (Cons q qs)
  then show ?case by (cases ls) auto
qed

text \<open>The loop returns when every record fits a page, and what it has closed so far are good cuts.\<close>

lemma split_loop_returns:
  assumes "\<forall>s \<in> set sizes. 0 < s \<and> int s \<le> maxLen" "0 \<le> limitLen" "limitLen \<le> maxLen"
    and "0 \<le> b" "b \<le> pos" "pos \<le> int (length sizes)" "len = span_size sizes b pos" "len \<le> limitLen"
    and "cuts_ok sizes limitLen maxLen 0 vp vl b"
  shows "\<exists>b' vp' vl'. split_loop sizes limitLen maxLen pos len vp vl =
      Some (int (length sizes), span_size sizes b' (int (length sizes)), vp', vl') \<and>
      0 \<le> b' \<and> b' \<le> int (length sizes) \<and> span_size sizes b' (int (length sizes)) \<le> limitLen \<and>
      cuts_ok sizes limitLen maxLen 0 vp' vl' b'"
  using assms(4-)
proof (induction "(nat (int (length sizes) - pos), nat len)" arbitrary: b pos len vp vl
    rule: wf_induct_rule [OF wf_lex_prod [OF wf_less wf_less]])
  case (1 pos len b vp vl)
  show ?case
  proof (cases "pos \<ge> int (length sizes)")
    case True
    then have "pos = int (length sizes)" using 1 by simp
    then show ?thesis using 1 by (subst split_loop.simps) auto
  next
    case False
    define sz where "sz = int (sizes ! nat pos)"
    have mem: "sizes ! nat pos \<in> set sizes" using False 1(2,3) by simp
    have sz: "0 < sz" "sz \<le> maxLen" using assms(1) mem by (auto simp: sz_def)
    have step: "span_size sizes b (pos + 1) = len + sz"
      using span_size_step [of b pos sizes] False 1 by (simp add: sz_def)
    consider (go) "len + sz \<le> limitLen" | (close) "len + sz > limitLen" "len + sz \<le> maxLen"
      | (over) "len + sz > maxLen" by linarith
    then show ?thesis
    proof cases
      case go
      then show ?thesis
        using 1(1) [of "pos + 1" "len + sz" b vp vl] 1(2-) False step
        by (subst split_loop.simps) (auto simp: Let_def sz_def [symmetric])
    next
      case close
      have "cuts_ok sizes limitLen maxLen 0 (vp @ [pos + 1]) (vl @ [len + sz]) (pos + 1)"
        by (rule cuts_ok_snoc) (use 1(2-) False step close in auto)
      then show ?thesis
        using 1(1) [of "pos + 1" 0 "pos + 1" "vp @ [pos + 1]" "vl @ [len + sz]"] 1(2-) False close assms(2)
        by (subst split_loop.simps) (auto simp: Let_def sz_def [symmetric])
    next
      case over
      have lt: "b < pos"
        using over sz 1(2-) by (cases "b = pos") auto
      have lp: "0 < len" using over sz by linarith
      have "cuts_ok sizes limitLen maxLen 0 (vp @ [pos]) (vl @ [len]) pos"
        by (rule cuts_ok_snoc) (use 1(2-) False over lt assms(3) in \<open>auto simp: sz_def\<close>)
      then show ?thesis
        using 1(1) [of pos 0 pos "vp @ [pos]" "vl @ [len]"] 1(2-) False over lp assms(2,3)
        by (subst split_loop.simps) (auto simp: Let_def sz_def [symmetric])
    qed
  qed
qed

lemma split_points_ok:
  assumes "\<forall>s \<in> set sizes. 0 < s \<and> int s \<le> maxLen" "0 \<le> limitLen" "limitLen \<le> maxLen"
  obtains ps ls where "split_points sizes limitLen maxLen = Some (ps, ls)"
    "cuts_ok sizes limitLen maxLen 0 ps ls (int (length sizes))"
proof -
  let ?n = "int (length sizes)"
  obtain b vp vl where r: "split_loop sizes limitLen maxLen 0 0 [] [] = Some (?n, span_size sizes b ?n, vp, vl)"
    and b: "0 \<le> b" "b \<le> ?n" "span_size sizes b ?n \<le> limitLen"
    and c: "cuts_ok sizes limitLen maxLen 0 vp vl b"
    using split_loop_returns [OF assms, of 0 0 0 "[]" "[]"] assms(2) by auto
  show ?thesis
  proof (cases "b = ?n")
    case True
    then show ?thesis using r c by (intro that [of vp vl]) (auto simp: split_points_def)
  next
    case False
    have "drop (nat b) sizes \<noteq> []" using b False by simp
    then obtain x xs where x: "drop (nat b) sizes = x # xs" by (cases "drop (nat b) sizes") auto
    then have "x \<in> set sizes" by (metis in_set_dropD list.set_intros(1))
    moreover have "nat (?n - b) = length (drop (nat b) sizes)" using b by auto
    then have "span_size sizes b ?n = int x + (\<Sum>i\<leftarrow>xs. int i)" unfolding span_size_def x by simp
    moreover have "0 \<le> (\<Sum>i\<leftarrow>xs. int i)" by (rule sum_list_nonneg) auto
    ultimately have pos: "0 < span_size sizes b ?n" using assms(1) by force
    have "cuts_ok sizes limitLen maxLen 0 (vp @ [?n]) (vl @ [span_size sizes b ?n]) ?n"
      by (rule cuts_ok_snoc [OF c]) (use b False assms(3) in auto)
    then show ?thesis using r pos by (intro that) (auto simp: split_points_def)
  qed
qed

section \<open>Splitting a branch page\<close>

definition limit_len :: "'a CachePage_scheme \<Rightarrow> int" where
  "limit_len p = int (GetMaxDataLength p * LOAD_FACTOR div 100)"

definition BranchPage_split_points :: "BranchPage \<Rightarrow> (int list \<times> int list) option" where
  "BranchPage_split_points p =
     split_points (map (\<lambda>rr. rec_size rr + UI16_LEN) (ip_vctRecord p)) (limit_len p) (int (GetMaxDataLength p))"

text \<open>
  C28: the cut points of \<open>BranchPage::SplitPage\<close>. When every record fits a page, the loop returns, and
  it cuts the page into consecutive non-empty chunks with the recorded lengths, each at most the
  page's capacity, closed only past the load factor or where the next record does not fit.
\<close>

theorem BranchPage_split_points_ok:
  assumes "\<forall>rr \<in> set (ip_vctRecord p). rec_size rr + 2 \<le> GetMaxDataLength p"
  shows "\<exists>ps ls. BranchPage_split_points p = Some (ps, ls) \<and>
    cuts_ok (map (\<lambda>rr. rec_size rr + 2) (ip_vctRecord p)) (limit_len p) (int (GetMaxDataLength p)) 0 ps ls
      (int (length (ip_vctRecord p)))"
proof -
  have "\<forall>s \<in> set (map (\<lambda>rr. rec_size rr + 2) (ip_vctRecord p)). 0 < s \<and> int s \<le> int (GetMaxDataLength p)"
    using assms by auto
  moreover have "0 \<le> limit_len p" "limit_len p \<le> int (GetMaxDataLength p)"
    by (simp_all add: limit_len_def GetMaxDataLength_def page_consts)
  ultimately show ?thesis
    by (rule split_points_ok) (auto simp: BranchPage_split_points_def)
qed

theorem BranchPage_split_points_ok_witness:
  "\<exists>ps ls. BranchPage_split_points (sample_branch two_entries True) = Some (ps, ls) \<and>
    cuts_ok [11, 11] 14731 16368 0 ps ls 2"
  using BranchPage_split_points_ok [of "sample_branch two_entries True"]
  by (simp add: sample_branch_def two_entries_def GetMaxDataLength_def limit_len_def page_consts)

definition sized_entry :: "u16 \<Rightarrow> BranchRecord" where
  "sized_entry n = BranchRecord_load UNIQUE (store n) None"

definition full_page :: BranchPage where
  "full_page = (sample_branch [sized_entry 7998, sized_entry 5998, sized_entry 2366] True)
     \<lparr>ip_committedDataLength := 16368\<rparr>"

text \<open>
  a full branch page that cannot be split. \<open>IsOverlength\<close> is true of a page whose length is exactly
  the capacity, but the loop then closes a single chunk, so \<open>SplitPage\<close> applies for no new page and,
  on the last page of its level, goes on to index \<open>vctPage[vctPage.size() - 1]\<close> of an empty vector.
\<close>

theorem BranchPage_full_single_chunk:
  "BranchPage_IsOverlength full_page \<and> page_load (ip_vctRecord full_page) = 16368 \<and>
   BranchPage_split_points full_page = Some ([3], [16368])"
proof -
  have sz: "rec_size (sized_entry n) = unat n" for n
    using image_fields [of n "[]"]
    by (simp add: sized_entry_def BranchRecord_load_def GetTotalLength_def)
  have v: "ip_vctRecord full_page = [sized_entry 7998, sized_entry 5998, sized_entry 2366]"
    "cp_pageType full_page = BRANCH_PAGE" "ip_committedDataLength full_page = 16368"
    by (simp_all add: full_page_def sample_branch_def)
  show ?thesis
    by (simp add: BranchPage_IsOverlength_def BranchPage_split_points_def split_points_def v sz
        limit_len_def GetMaxDataLength_def page_consts split_loop.simps Let_def)
qed

end
