(* ===== verification/Data_Digit.thy ===== *)
theory Data_Digit
  imports Core_Enums Float_Keys
begin

text \<open>
  Numeric data values: \<open>dataType/Metadata.h\<close> and \<open>dataType/DataValueDigit.h\<close>. The class template
  \<open>DataValueDigit<T, DT>\<close> is one record whose first field is \<open>DT\<close>; the member \<open>_value\<close> of type \<open>T\<close> is
  its bit pattern, zero extended to 64 bits. \<open>char\<close> is signed.

  The conversions and comparisons that C++ does in floating point are the fields of \<open>fp_ops\<close>, an
  argument of the operations that use them; nothing is assumed about them.
\<close>

section \<open>Metadata\<close>

fun sizeof :: "DataType \<Rightarrow> nat" where
  "sizeof DT_CHAR = 1" | "sizeof DT_SHORT = 2" | "sizeof DT_INT = 4" | "sizeof DT_LONG = 8"
| "sizeof DT_BYTE = 1" | "sizeof DT_USHORT = 2" | "sizeof DT_UINT = 4" | "sizeof DT_ULONG = 8"
| "sizeof DT_DATETIME = 8" | "sizeof DT_FLOAT = 4" | "sizeof DT_DOUBLE = 8" | "sizeof DT_BOOL = 1"
| "sizeof _ = 0"

definition digit_type :: "DataType \<Rightarrow> bool" where
  "digit_type dt \<longleftrightarrow> sizeof dt > 0"

fun DigitalToBytes :: "DataType \<Rightarrow> u64 \<Rightarrow> bool \<Rightarrow> buf" where
  "DigitalToBytes DT_CHAR val bkey = Int8ToBytes (ucast val) bkey"
| "DigitalToBytes DT_SHORT val bkey = Int16ToBytes (ucast val) bkey"
| "DigitalToBytes DT_INT val bkey = Int32ToBytes (ucast val) bkey"
| "DigitalToBytes DT_LONG val bkey = Int64ToBytes val bkey"
| "DigitalToBytes DT_BYTE val bkey = UInt8ToBytes (ucast val) bkey"
| "DigitalToBytes DT_USHORT val bkey = UInt16ToBytes (ucast val) bkey"
| "DigitalToBytes DT_UINT val bkey = UInt32ToBytes (ucast val) bkey"
| "DigitalToBytes DT_ULONG val bkey = UInt64ToBytes val bkey"
| "DigitalToBytes DT_BOOL val bkey = [if val \<noteq> 0 then 1 else 0]"
| "DigitalToBytes DT_DATETIME val bkey = UInt64ToBytes val bkey"
| "DigitalToBytes DT_FLOAT val bkey = FloatToBytes (ucast val) bkey"
| "DigitalToBytes DT_DOUBLE val bkey = DoubleToBytes val bkey"
| "DigitalToBytes _ val bkey = []"

fun DigitalFromBytes :: "DataType \<Rightarrow> buf \<Rightarrow> bool \<Rightarrow> u64" where
  "DigitalFromBytes DT_CHAR pArr bkey = ucast (Int8FromBytes pArr bkey)"
| "DigitalFromBytes DT_SHORT pArr bkey = ucast (Int16FromBytes pArr bkey)"
| "DigitalFromBytes DT_INT pArr bkey = ucast (Int32FromBytes pArr bkey)"
| "DigitalFromBytes DT_LONG pArr bkey = Int64FromBytes pArr bkey"
| "DigitalFromBytes DT_BYTE pArr bkey = ucast (UInt8FromBytes pArr bkey)"
| "DigitalFromBytes DT_USHORT pArr bkey = ucast (UInt16FromBytes pArr bkey)"
| "DigitalFromBytes DT_UINT pArr bkey = ucast (UInt32FromBytes pArr bkey)"
| "DigitalFromBytes DT_ULONG pArr bkey = UInt64FromBytes pArr bkey"
| "DigitalFromBytes DT_BOOL pArr bkey = (if hd pArr \<noteq> 0 then 1 else 0)"
| "DigitalFromBytes DT_DATETIME pArr bkey = UInt64FromBytes pArr bkey"
| "DigitalFromBytes DT_FLOAT pArr bkey = ucast (FloatFromBytes pArr bkey)"
| "DigitalFromBytes DT_DOUBLE pArr bkey = DoubleFromBytes pArr bkey"
| "DigitalFromBytes _ pArr bkey = 0"

fun MinValue :: "DataType \<Rightarrow> u64" where
  "MinValue DT_CHAR = 0x80" | "MinValue DT_SHORT = 0x8000" | "MinValue DT_INT = 0x80000000"
| "MinValue DT_LONG = 0x8000000000000000" | "MinValue DT_FLOAT = 0xFF7FFFFF"
| "MinValue DT_DOUBLE = 0xFFEFFFFFFFFFFFFF" | "MinValue _ = 0"

fun MaxValue :: "DataType \<Rightarrow> u64" where
  "MaxValue DT_CHAR = 0x7F" | "MaxValue DT_SHORT = 0x7FFF" | "MaxValue DT_INT = 0x7FFFFFFF"
| "MaxValue DT_LONG = 0x7FFFFFFFFFFFFFFF" | "MaxValue DT_BYTE = 0xFF" | "MaxValue DT_USHORT = 0xFFFF"
| "MaxValue DT_UINT = 0xFFFFFFFF" | "MaxValue DT_ULONG = 0xFFFFFFFFFFFFFFFF" | "MaxValue DT_BOOL = 1"
| "MaxValue DT_DATETIME = 0xFFFFFFFFFFFFFFFF" | "MaxValue DT_FLOAT = 0x7F7FFFFF"
| "MaxValue DT_DOUBLE = 0x7FEFFFFFFFFFFFFF" | "MaxValue _ = 0"

text \<open>The number an integral bit pattern stands for, and the bits of \<open>(T)x\<close> for a 64-bit \<open>x\<close>.\<close>

fun digit_value :: "DataType \<Rightarrow> u64 \<Rightarrow> int" where
  "digit_value DT_CHAR v = sint (ucast v :: 8 word)"
| "digit_value DT_SHORT v = sint (ucast v :: 16 word)"
| "digit_value DT_INT v = sint (ucast v :: 32 word)"
| "digit_value DT_LONG v = sint v"
| "digit_value DT_BYTE v = uint (ucast v :: 8 word)"
| "digit_value DT_USHORT v = uint (ucast v :: 16 word)"
| "digit_value DT_UINT v = uint (ucast v :: 32 word)"
| "digit_value dt v = uint v"

definition is_float :: "DataType \<Rightarrow> bool" where
  "is_float dt \<longleftrightarrow> dt = DT_FLOAT \<or> dt = DT_DOUBLE"

record fp_ops =
  fp_double :: "DataType \<Rightarrow> u64 \<Rightarrow> u64"
  fp_long :: "DataType \<Rightarrow> u64 \<Rightarrow> u64"
  fp_cast :: "DataType \<Rightarrow> u64 \<Rightarrow> u64"
  fp_of_long :: "DataType \<Rightarrow> u64 \<Rightarrow> u64"
  fp_add :: "DataType \<Rightarrow> u64 \<Rightarrow> u64 \<Rightarrow> u64"
  fp_eq :: "u64 \<Rightarrow> u64 \<Rightarrow> bool"
  fp_lt :: "u64 \<Rightarrow> u64 \<Rightarrow> bool"

fun digit_cast :: "fp_ops \<Rightarrow> DataType \<Rightarrow> u64 \<Rightarrow> u64" where
  "digit_cast fp DT_CHAR x = ucast (ucast x :: 8 word)"
| "digit_cast fp DT_BYTE x = ucast (ucast x :: 8 word)"
| "digit_cast fp DT_SHORT x = ucast (ucast x :: 16 word)"
| "digit_cast fp DT_USHORT x = ucast (ucast x :: 16 word)"
| "digit_cast fp DT_INT x = ucast (ucast x :: 32 word)"
| "digit_cast fp DT_UINT x = ucast (ucast x :: 32 word)"
| "digit_cast fp DT_BOOL x = (if x \<noteq> 0 then 1 else 0)"
| "digit_cast fp DT_FLOAT x = fp_of_long fp DT_FLOAT x"
| "digit_cast fp DT_DOUBLE x = fp_of_long fp DT_DOUBLE x"
| "digit_cast fp dt x = x"

section \<open>The value class\<close>

record DataValueDigit =
  dg_type :: DataType
  dg_valType :: ValueType
  dg_value :: u64
  dg_refCount :: u16

definition Digit_null :: "DataType \<Rightarrow> DataValueDigit" where
  "Digit_null dt = \<lparr>dg_type = dt, dg_valType = NULL_VALUE, dg_value = 0, dg_refCount = 1\<rparr>"

definition Digit_new :: "DataType \<Rightarrow> u64 \<Rightarrow> DataValueDigit" where
  "Digit_new dt val = \<lparr>dg_type = dt, dg_valType = SOLE_VALUE, dg_value = val, dg_refCount = 1\<rparr>"

definition Digit_SetValue :: "u64 \<Rightarrow> DataValueDigit \<Rightarrow> DataValueDigit" where
  "Digit_SetValue val dv = dv\<lparr>dg_value := val, dg_valType := SOLE_VALUE\<rparr>"

definition Digit_SetNull :: "DataValueDigit \<Rightarrow> DataValueDigit" where
  "Digit_SetNull dv = dv\<lparr>dg_valType := NULL_VALUE\<rparr>"

definition Digit_Clone :: "DataValueDigit \<Rightarrow> DataValueDigit" where
  "Digit_Clone dv = dv\<lparr>dg_refCount := 1\<rparr>"

definition Digit_GetPersistenceLength :: "DataValueDigit \<Rightarrow> SavePosition \<Rightarrow> u32" where
  "Digit_GetPersistenceLength dv dtPos =
     (if dtPos = KEY then of_nat (sizeof (dg_type dv))
      else if dg_valType dv = NULL_VALUE then 0 else of_nat (sizeof (dg_type dv)))"

definition Digit_GetDataLength :: "DataValueDigit \<Rightarrow> u32" where
  "Digit_GetDataLength dv = (if dg_valType dv = NULL_VALUE then 0 else of_nat (sizeof (dg_type dv)))"

definition Digit_GetLong :: "fp_ops \<Rightarrow> DataValueDigit \<Rightarrow> u64" where
  "Digit_GetLong fp dv =
     (if dg_valType dv = NULL_VALUE then 0
      else if is_float (dg_type dv) then fp_long fp (dg_type dv) (dg_value dv)
      else of_int (digit_value (dg_type dv) (dg_value dv)))"

definition Digit_GetDouble :: "fp_ops \<Rightarrow> DataValueDigit \<Rightarrow> u64" where
  "Digit_GetDouble fp dv =
     (if dg_valType dv = NULL_VALUE then 0 else fp_double fp (dg_type dv) (dg_value dv))"

text \<open>
  \<open>WriteData\<close> gives the bytes it stores at the destination and the length it returns; \<open>ReadData\<close> the
  value and the length it returns.
\<close>

definition Digit_WriteData :: "DataValueDigit \<Rightarrow> SavePosition \<Rightarrow> (buf \<times> u32) option" where
  "Digit_WriteData dv svPos =
     (let dt = dg_type dv in
      if svPos = SP_UNKNOWN then None
      else if svPos = KEY then
        Some (DigitalToBytes dt (if dg_valType dv = NULL_VALUE then 0 else dg_value dv) True,
              of_nat (sizeof dt))
      else if dg_valType dv = NULL_VALUE then Some ([], 0)
      else Some (DigitalToBytes dt (dg_value dv) False, of_nat (sizeof dt)))"

definition Digit_ReadData :: "buf \<Rightarrow> u32 \<Rightarrow> SavePosition \<Rightarrow> DataValueDigit \<Rightarrow> (DataValueDigit \<times> u32) option" where
  "Digit_ReadData b len svPos dv =
     (let dt = dg_type dv in
      if svPos = SP_UNKNOWN then None
      else if svPos = KEY then
        Some (dv\<lparr>dg_valType := SOLE_VALUE, dg_value := DigitalFromBytes dt b True\<rparr>, of_nat (sizeof dt))
      else if len \<noteq> 0 then
        Some (dv\<lparr>dg_valType := SOLE_VALUE, dg_value := DigitalFromBytes dt b False\<rparr>, of_nat (sizeof dt))
      else Some (dv\<lparr>dg_valType := NULL_VALUE\<rparr>, 0))"

definition Digit_WriteTyped :: "DataValueDigit \<Rightarrow> buf \<times> u32" where
  "Digit_WriteTyped dv =
     (let dt = dg_type dv in
      if dg_valType dv = NULL_VALUE then ([type_byte dt], 1)
      else ((VALUE_TYPE OR type_byte dt) # DigitalToBytes dt (dg_value dv) False, of_nat (sizeof dt) + 1))"

definition Digit_ReadTyped :: "buf \<Rightarrow> DataValueDigit \<Rightarrow> DataValueDigit \<times> u32" where
  "Digit_ReadTyped b dv =
     (let dt = dg_type dv in
      if hd b AND VALUE_TYPE \<noteq> 0
      then (dv\<lparr>dg_valType := SOLE_VALUE, dg_value := DigitalFromBytes dt (tl b) False\<rparr>, of_nat (sizeof dt) + 1)
      else (dv\<lparr>dg_valType := NULL_VALUE\<rparr>, 1))"

definition Digit_SetMinValue :: "DataValueDigit \<Rightarrow> DataValueDigit" where
  "Digit_SetMinValue dv = dv\<lparr>dg_valType := SOLE_VALUE, dg_value := MinValue (dg_type dv)\<rparr>"

definition Digit_SetMaxValue :: "DataValueDigit \<Rightarrow> DataValueDigit" where
  "Digit_SetMaxValue dv = dv\<lparr>dg_valType := SOLE_VALUE, dg_value := MaxValue (dg_type dv)\<rparr>"

definition Digit_SetDefaultValue :: "DataValueDigit \<Rightarrow> DataValueDigit" where
  "Digit_SetDefaultValue dv = dv\<lparr>dg_value := 0, dg_valType := SOLE_VALUE\<rparr>"

section \<open>Comparison\<close>

text \<open>The built-in comparisons of two members of the same type \<open>T\<close>.\<close>

definition val_eq :: "fp_ops \<Rightarrow> DataType \<Rightarrow> u64 \<Rightarrow> u64 \<Rightarrow> bool" where
  "val_eq fp dt a b = (if is_float dt then fp_eq fp (fp_double fp dt a) (fp_double fp dt b)
     else digit_value dt a = digit_value dt b)"

definition val_gt :: "fp_ops \<Rightarrow> DataType \<Rightarrow> u64 \<Rightarrow> u64 \<Rightarrow> bool" where
  "val_gt fp dt a b = (if is_float dt then fp_lt fp (fp_double fp dt b) (fp_double fp dt a)
     else digit_value dt a > digit_value dt b)"

definition val_ge :: "fp_ops \<Rightarrow> DataType \<Rightarrow> u64 \<Rightarrow> u64 \<Rightarrow> bool" where
  "val_ge fp dt a b \<longleftrightarrow> val_gt fp dt a b \<or> val_eq fp dt a b"

definition Digit_op_gt :: "fp_ops \<Rightarrow> DataValueDigit \<Rightarrow> DataValueDigit \<Rightarrow> bool" where
  "Digit_op_gt fp a b =
     (if dg_valType a = NULL_VALUE then False
      else if dg_valType b = NULL_VALUE then True
      else val_gt fp (dg_type a) (dg_value a) (dg_value b))"

definition Digit_op_ge :: "fp_ops \<Rightarrow> DataValueDigit \<Rightarrow> DataValueDigit \<Rightarrow> bool" where
  "Digit_op_ge fp a b =
     (if dg_valType a = NULL_VALUE then dg_valType b = NULL_VALUE
      else if dg_valType b = NULL_VALUE then True
      else val_ge fp (dg_type a) (dg_value a) (dg_value b))"

definition Digit_op_eq :: "fp_ops \<Rightarrow> DataValueDigit \<Rightarrow> DataValueDigit \<Rightarrow> bool" where
  "Digit_op_eq fp a b =
     (if dg_valType a = NULL_VALUE then dg_valType b = NULL_VALUE
      else if dg_valType b = NULL_VALUE then False
      else val_eq fp (dg_type a) (dg_value a) (dg_value b))"

definition Digit_op_lt :: "fp_ops \<Rightarrow> DataValueDigit \<Rightarrow> DataValueDigit \<Rightarrow> bool" where
  "Digit_op_lt fp a b = (\<not> Digit_op_ge fp a b)"

text \<open>The virtual comparisons; \<open>None\<close> is the failed assertion that the other value is numeric.\<close>

definition both_int :: "DataValueDigit \<Rightarrow> DataValueDigit \<Rightarrow> bool" where
  "both_int a b \<longleftrightarrow> IsAutoPrimaryKey (dg_type a) \<and> IsAutoPrimaryKey (dg_type b)"

definition Digit_EQ :: "fp_ops \<Rightarrow> DataValueDigit \<Rightarrow> DataValueDigit \<Rightarrow> bool option" where
  "Digit_EQ fp a b =
     (if \<not> IsDigital (dg_type b) then None else Some (
      if dg_type a = dg_type b then Digit_op_eq fp a b
      else if dg_valType a = NULL_VALUE then dg_valType b = NULL_VALUE
      else if dg_valType b = NULL_VALUE then False
      else if both_int a b then Digit_GetLong fp a = Digit_GetLong fp b
      else fp_eq fp (Digit_GetDouble fp a) (Digit_GetDouble fp b)))"

definition Digit_GT :: "fp_ops \<Rightarrow> DataValueDigit \<Rightarrow> DataValueDigit \<Rightarrow> bool option" where
  "Digit_GT fp a b =
     (if \<not> IsDigital (dg_type b) then None else Some (
      if dg_type a = dg_type b then Digit_op_gt fp a b
      else if dg_valType a = NULL_VALUE then False
      else if dg_valType b = NULL_VALUE then True
      else if both_int a b then sint (Digit_GetLong fp a) > sint (Digit_GetLong fp b)
      else fp_lt fp (Digit_GetDouble fp b) (Digit_GetDouble fp a)))"

definition Digit_LT :: "fp_ops \<Rightarrow> DataValueDigit \<Rightarrow> DataValueDigit \<Rightarrow> bool option" where
  "Digit_LT fp a b =
     (if \<not> IsDigital (dg_type b) then None else Some (
      if dg_type a = dg_type b then Digit_op_lt fp a b
      else if dg_valType b = NULL_VALUE then False
      else if dg_valType a = NULL_VALUE then True
      else if both_int a b then sint (Digit_GetLong fp a) < sint (Digit_GetLong fp b)
      else fp_lt fp (Digit_GetDouble fp a) (Digit_GetDouble fp b)))"

section \<open>Arithmetic\<close>

text \<open>
  \<open>_value += (T)val\<close> for an integral type: the operands of the small types are promoted to \<open>int\<close> and
  the result is converted back, which keeps the low bits; in \<open>int32_t\<close> and \<open>int64_t\<close> an overflow is
  undefined (\<open>None\<close>).
\<close>

definition add_assign :: "fp_ops \<Rightarrow> DataType \<Rightarrow> u64 \<Rightarrow> u64 \<Rightarrow> u64 option" where
  "add_assign fp dt v x =
     (let sum = digit_cast fp dt (v + x) in
      if dt \<in> {DT_INT, DT_LONG} \<and> digit_value dt sum \<noteq> digit_value dt v + digit_value dt x then None
      else Some sum)"

definition Digit_AddLong :: "fp_ops \<Rightarrow> u64 \<Rightarrow> DataValueDigit \<Rightarrow> DataValueDigit option" where
  "Digit_AddLong fp val dv =
     (let dt = dg_type dv in
      if dt = DT_BOOL then Some dv
      else if is_float dt then Some (dv\<lparr>dg_value := fp_add fp dt (dg_value dv) (digit_cast fp dt val)\<rparr>)
      else map_option (\<lambda>s. dv\<lparr>dg_value := s\<rparr>) (add_assign fp dt (dg_value dv) val))"

text \<open>\<open>Case_Add<DT>::Add\<close>: the sum with another numeric value; \<open>BOOL\<close> and \<open>DATETIME\<close> stay as they are.\<close>

definition Digit_AddDigit :: "fp_ops \<Rightarrow> DataValueDigit \<Rightarrow> DataValueDigit \<Rightarrow> DataValueDigit option" where
  "Digit_AddDigit fp other dv =
     (let dt = dg_type dv in
      if dt = DT_BOOL \<or> dt = DT_DATETIME then Some dv
      else if is_float dt
      then Some (dv\<lparr>dg_value := fp_add fp dt (dg_value dv) (fp_cast fp dt (Digit_GetDouble fp other))\<rparr>)
      else map_option (\<lambda>s. dv\<lparr>dg_value := s\<rparr>) (add_assign fp dt (dg_value dv) (Digit_GetLong fp other)))"

section \<open>Reference counts\<close>

text \<open>A count of \<open>UINT16_MAX\<close> marks a constant; \<open>DecRef\<close> returns \<open>None\<close> for a value that is deleted.\<close>

definition AddRef :: "u16 \<Rightarrow> u16" where
  "AddRef n = (if n \<noteq> 0xFFFF then n + 1 else n)"

definition DecRef :: "u16 \<Rightarrow> u16 option" where
  "DecRef n = (if n \<noteq> 0xFFFF then (if n = 1 then None else Some (n - 1)) else Some n)"


section \<open>Encoding\<close>

definition digit_ok :: "DataType \<Rightarrow> u64 \<Rightarrow> bool" where
  "digit_ok dt v \<longleftrightarrow> (if dt = DT_BOOL then v = 0 \<or> v = 1 else unat v < 2 ^ (8 * sizeof dt))"

lemma length_DigitalToBytes: "length (DigitalToBytes dt v k) = sizeof dt"
  by (cases dt) (simp_all add: i64.length_enc u64.length_enc i32.length_enc u32.length_enc i16.length_enc
      u16.length_enc i8.length_enc u8.length_enc dbl.length_enc flt.length_enc)

lemma ucast_small:
  assumes "unat (v :: u64) < 2 ^ LENGTH('a::len)"
  shows "ucast (ucast v :: 'a word) = v"
proof -
  have v: "unat (ucast v :: 'a word) = unat v"
    using assms by (simp add: unsigned_ucast_eq take_bit_nat_eq_self)
  have "unat (ucast (ucast v :: 'a word) :: u64) = take_bit LENGTH(64) (unat (ucast v :: 'a word))"
    by (simp only: unsigned_ucast_eq unsigned_take_bit_eq take_bit_take_bit min.commute)
  also have "\<dots> = unat v"
    unfolding v using unsigned_less [of v, where ?'a = nat] by (simp add: take_bit_nat_eq_self)
  finally show ?thesis by (simp only: word_unat_eq_iff)
qed

lemmas digit_dec_enc = i64.dec_enc u64.dec_enc i32.dec_enc u32.dec_enc i16.dec_enc u16.dec_enc i8.dec_enc
  u8.dec_enc dbl.dec_enc flt.dec_enc

lemma DigitalFromBytes_ToBytes:
  assumes "digit_type dt" "digit_ok dt v"
  shows "DigitalFromBytes dt (DigitalToBytes dt v k @ bs) k = v"
proof -
  note small = ucast_small [of v, where 'a = 8] ucast_small [of v, where 'a = 16] ucast_small [of v, where 'a = 32]
  show ?thesis using assms small
    by (cases dt) (auto simp: digit_dec_enc digit_type_def digit_ok_def)
qed

text \<open>In key form the integral types keep their order.\<close>

definition ordered_type :: "DataType \<Rightarrow> bool" where
  "ordered_type dt \<longleftrightarrow> IsAutoPrimaryKey dt \<or> dt = DT_DATETIME"

lemma DigitalToBytes_less:
  assumes "ordered_type dt"
  shows "lexcmp (DigitalToBytes dt v True) (DigitalToBytes dt w True) < 0 \<longleftrightarrow> digit_value dt v < digit_value dt w"
  using assms unfolding ordered_type_def data_type_flags(3)
  by (auto simp: ki64.enc_less ku64.enc_less ki32.enc_less ku32.enc_less ki16.enc_less ku16.enc_less
      ki8.enc_less ku8.enc_less word_less_def)

lemma sint_eq_iff: "sint a = sint b \<longleftrightarrow> a = b" for a b :: "'a::len word"
  by (auto intro: signed_word_eqI)

lemma uint_eq_iff: "uint a = uint b \<longleftrightarrow> a = b" for a b :: "'a::len word"
  by (rule word_uint_eq_iff [symmetric])

lemma ucast_eq_small:
  "unat (v :: u64) < 2 ^ LENGTH('a) \<Longrightarrow> unat w < 2 ^ LENGTH('a) \<Longrightarrow> (ucast v :: 'a::len word) = ucast w \<longleftrightarrow> v = w"
  using ucast_small [of v, where 'a = 'a] ucast_small [of w, where 'a = 'a] by metis

lemma digit_value_inj:
  assumes "ordered_type dt" "digit_ok dt v" "digit_ok dt w"
  shows "digit_value dt v = digit_value dt w \<longleftrightarrow> v = w"
  using assms unfolding ordered_type_def data_type_flags(3) digit_ok_def
  by (auto simp: sint_eq_iff uint_eq_iff ucast_eq_small)

section \<open>Properties\<close>

lemma sizeof_cases: "sizeof dt \<in> {0, 1, 2, 4, 8}"
  by (cases dt) auto

lemma unat_sizeof: "unat (of_nat (sizeof dt) :: u32) = sizeof dt"
  using sizeof_cases [of dt] by auto

lemma digit_type_positive: "digit_type dt \<Longrightarrow> (of_nat (sizeof dt) :: u32) \<noteq> 0"
  using unat_sizeof [of dt] by (auto simp: digit_type_def)

text \<open>
  A numeric value can be read back from where it was saved. For every numeric type and as key or
  value, \<open>WriteData\<close> stores exactly the number of bytes it returns, which is
  \<open>GetPersistenceLength\<close>, and \<open>ReadData\<close> of these bytes, whatever follows them, gives a non-null
  value back unchanged; a null value is saved as nothing among the values.
\<close>

theorem Digit_write_read:
  assumes "digit_type (dg_type dv)" "digit_ok (dg_type dv) (dg_value dv)"
    and "dg_valType dv = SOLE_VALUE \<or> dg_valType dv = NULL_VALUE \<and> svPos = VALUE" "svPos \<noteq> SP_UNKNOWN"
  shows "\<exists>b n. Digit_WriteData dv svPos = Some (b, n) \<and> length b = unat n \<and>
    n = Digit_GetPersistenceLength dv svPos \<and>
    (\<forall>old rest. dg_type old = dg_type dv \<longrightarrow>
      (\<exists>r. Digit_ReadData (b @ rest) n svPos old = Some (r, n) \<and> dg_valType r = dg_valType dv \<and>
        (dg_valType dv = SOLE_VALUE \<longrightarrow> dg_value r = dg_value dv)))"
proof -
  note rt = DigitalFromBytes_ToBytes [OF assms(1,2)]
  have nz: "(of_nat (sizeof (dg_type dv)) :: u32) \<noteq> 0" by (rule digit_type_positive [OF assms(1)])
  show ?thesis
  proof (cases svPos)
    case SP_UNKNOWN
    then show ?thesis using assms(4) by simp
  next
    case KEY
    then have "dg_valType dv = SOLE_VALUE" using assms(3) by simp
    then show ?thesis using rt KEY
      by (simp add: Digit_WriteData_def Digit_GetPersistenceLength_def Digit_ReadData_def Let_def
          length_DigitalToBytes unat_sizeof)
  next
    case VALUE
    show ?thesis
    proof (cases "dg_valType dv = NULL_VALUE")
      case True
      then show ?thesis using VALUE
        by (simp add: Digit_WriteData_def Digit_GetPersistenceLength_def Digit_ReadData_def)
    next
      case False
      then have "dg_valType dv = SOLE_VALUE" using assms(3) by auto
      then show ?thesis using rt VALUE nz
        by (simp add: Digit_WriteData_def Digit_GetPersistenceLength_def Digit_ReadData_def Let_def
            length_DigitalToBytes unat_sizeof)
    qed
  qed
qed

theorem Digit_write_read_witness:
  "\<exists>b n r. Digit_WriteData (Digit_new DT_INT 0xFFFFFFFE) KEY = Some (b, n) \<and> length b = unat n \<and>
    Digit_ReadData (b @ [7]) n KEY (Digit_null DT_INT) = Some (r, n) \<and> dg_value r = 0xFFFFFFFE"
proof -
  let ?dv = "Digit_new DT_INT 0xFFFFFFFE"
  have "digit_type (dg_type ?dv)" "digit_ok (dg_type ?dv) (dg_value ?dv)" "dg_valType ?dv = SOLE_VALUE"
    by (simp_all add: Digit_new_def digit_type_def digit_ok_def)
  with Digit_write_read [of ?dv KEY] obtain b n where
    "Digit_WriteData ?dv KEY = Some (b, n)" "length b = unat n"
    "\<forall>old rest. dg_type old = dg_type ?dv \<longrightarrow> (\<exists>r. Digit_ReadData (b @ rest) n KEY old = Some (r, n) \<and>
        dg_valType r = dg_valType ?dv \<and> (dg_valType ?dv = SOLE_VALUE \<longrightarrow> dg_value r = dg_value ?dv))"
    by blast
  moreover have "dg_type (Digit_null DT_INT) = dg_type ?dv" "dg_value ?dv = 0xFFFFFFFE"
    "dg_valType ?dv = SOLE_VALUE"
    by (simp_all add: Digit_null_def Digit_new_def)
  ultimately show ?thesis by metis
qed

text \<open>
  C32: the order of numeric keys in an index is the order of the values. For the integral types and
  dates, the key bytes of two non-null values compare like the values compare with \<open>operator<\<close>.
\<close>

theorem Digit_key_order:
  assumes "ordered_type (dg_type a)" "dg_type b = dg_type a"
    and "dg_valType a = SOLE_VALUE" "dg_valType b = SOLE_VALUE"
    and "Digit_WriteData a KEY = Some (ka, n)" "Digit_WriteData b KEY = Some (kb, m)"
  shows "lexcmp ka kb < 0 \<longleftrightarrow> Digit_op_lt fp a b"
proof -
  have nf: "\<not> is_float (dg_type a)"
    using assms(1) by (auto simp: ordered_type_def is_float_def data_type_flags)
  have "lexcmp ka kb < 0 \<longleftrightarrow> digit_value (dg_type a) (dg_value a) < digit_value (dg_type a) (dg_value b)"
    using assms DigitalToBytes_less [OF assms(1), of "dg_value a" "dg_value b"]
    by (auto simp: Digit_WriteData_def Let_def)
  also have "\<dots> \<longleftrightarrow> Digit_op_lt fp a b"
    using nf assms(2-4) by (auto simp: Digit_op_lt_def Digit_op_ge_def val_ge_def val_gt_def val_eq_def)
  finally show ?thesis .
qed

text \<open>Any floating point operations will do for integral types.\<close>

definition plain_fp :: fp_ops where
  "plain_fp = \<lparr>fp_double = \<lambda>_ v. v, fp_long = \<lambda>_ v. v, fp_cast = \<lambda>_ v. v, fp_of_long = \<lambda>_ v. v,
     fp_add = \<lambda>_ a b. a + b, fp_eq = (=), fp_lt = (<)\<rparr>"

theorem Digit_key_order_witness:
  "lexcmp (DigitalToBytes DT_SHORT 0xFFFF True) (DigitalToBytes DT_SHORT 5 True) < 0 \<longleftrightarrow>
   Digit_op_lt plain_fp (Digit_new DT_SHORT 0xFFFF) (Digit_new DT_SHORT 5)"
  by (rule Digit_key_order) (simp_all add: Digit_new_def ordered_type_def data_type_flags Digit_WriteData_def)

text \<open>
  comparison of two numeric values of one integral type is a total order in which null is
  smallest: exactly one of \<open>LT\<close>, \<open>EQ\<close> and \<open>GT\<close> holds, and \<open>EQ\<close> of non-null values is equality.
\<close>

theorem Digit_compare_total:
  assumes "IsAutoPrimaryKey dt" "dg_type a = dt" "dg_type b = dt" "digit_ok dt (dg_value a)" "digit_ok dt (dg_value b)"
  shows "\<exists>lt eq gt. Digit_LT fp a b = Some lt \<and> Digit_EQ fp a b = Some eq \<and> Digit_GT fp a b = Some gt \<and>
    (lt \<or> eq \<or> gt) \<and> \<not> (lt \<and> eq) \<and> \<not> (lt \<and> gt) \<and> \<not> (eq \<and> gt) \<and>
    (eq \<longleftrightarrow> dg_valType a = NULL_VALUE \<and> dg_valType b = NULL_VALUE \<or>
      dg_valType a \<noteq> NULL_VALUE \<and> dg_valType b \<noteq> NULL_VALUE \<and> dg_value a = dg_value b)"
proof -
  have t: "IsDigital dt" "\<not> is_float dt" "ordered_type dt"
    using assms(1) by (auto simp: data_type_flags is_float_def ordered_type_def)
  note inj = digit_value_inj [OF t(3) assms(4,5)]
  show ?thesis
    using t inj assms(2,3)
    by (auto simp: Digit_LT_def Digit_EQ_def Digit_GT_def Digit_op_lt_def Digit_op_eq_def Digit_op_gt_def
        Digit_op_ge_def val_ge_def val_gt_def val_eq_def)
qed


theorem Digit_compare_total_witness:
  "\<exists>lt eq gt. Digit_LT plain_fp (Digit_new DT_CHAR 0x80) (Digit_null DT_CHAR) = Some lt \<and>
     Digit_EQ plain_fp (Digit_new DT_CHAR 0x80) (Digit_null DT_CHAR) = Some eq \<and>
     Digit_GT plain_fp (Digit_new DT_CHAR 0x80) (Digit_null DT_CHAR) = Some gt \<and> \<not> eq"
  using Digit_compare_total [of DT_CHAR "Digit_new DT_CHAR 0x80" "Digit_null DT_CHAR" plain_fp]
  by (auto simp: Digit_new_def Digit_null_def data_type_flags digit_ok_def)

text \<open>
  An unsigned 64-bit value above the signed range compares below every signed value that is not
  negative: \<open>GetLong\<close> casts it to a negative number, so \<open>ULONG\<close> and \<open>LONG\<close> columns compare wrongly.
\<close>

theorem Digit_ulong_long_wrong:
  assumes "2 ^ 63 \<le> uint v" "0 \<le> sint w"
  shows "Digit_LT fp (Digit_new DT_ULONG v) (Digit_new DT_LONG w) = Some True \<and>
    digit_value DT_ULONG v > digit_value DT_LONG w"
proof -
  have "2 ^ 63 \<le> unat v" using assms(1) by (metis of_nat_le_iff of_nat_numeral of_nat_power uint_nat)
  then have "bit v 63" by (simp add: bit_63)
  then have "sint v < 0" by (simp add: sint_uint bit_uint_iff)
  moreover have "sint w < 2 ^ 63" using sint_lt [of w] by simp
  ultimately have l: "sint v < 0" "sint w < 2 ^ 63" by auto
  then show ?thesis using assms
    by (simp add: Digit_LT_def Digit_new_def both_int_def data_type_flags Digit_GetLong_def is_float_def)
qed


theorem Digit_ulong_long_wrong_witness:
  "Digit_LT plain_fp (Digit_new DT_ULONG 0xFFFFFFFFFFFFFFFF) (Digit_new DT_LONG 1) = Some True"
  using Digit_ulong_long_wrong [of "0xFFFFFFFFFFFFFFFF" 1 plain_fp] by simp

text \<open>
  Dates cannot be compared. \<open>DATETIME\<close> does not have the numeric flag, and the virtual
  comparisons of numeric values assert that the other value is numeric.
\<close>

theorem Digit_datetime_not_comparable:
  "Digit_EQ fp (Digit_new DT_DATETIME v) (Digit_new DT_DATETIME w) = None \<and>
   Digit_LT fp (Digit_new DT_DATETIME v) (Digit_new DT_DATETIME w) = None \<and>
   Digit_GT fp (Digit_new DT_DATETIME v) (Digit_new DT_DATETIME w) = None"
  by (simp add: Digit_EQ_def Digit_LT_def Digit_GT_def Digit_new_def data_type_flags)

end
