(* ===== verification/Data_Chars.thy ===== *)
theory Data_Chars
  imports Raw_Record Data_Digit
begin

text \<open>
  Character and binary data values: \<open>dataType/DataValueFixChar\<close>, \<open>DataValueVarChar\<close> and
  \<open>DataValueBlob\<close>. One record has the members of the three classes (\<open>_soleLength\<close> is not used by a
  fixed-length value). A buffer that a value shares (\<open>BYTES_VALUE\<close>) is a copy of its bytes here. The
  allocator \<open>alloc\<close> gives the contents of a fresh buffer. \<open>Inl\<close> is an error that the operation
  reports, \<open>None\<close> a failed assertion.
\<close>

record CharsValue =
  ch_valType :: ValueType
  ch_maxLength :: u32
  ch_soleLength :: u32
  ch_bysValue :: buf
  ch_refCount :: u16

datatype DvError = DT_INPUT_OVER_LENGTH | DT_UNSUPPORT_CONVERT

definition SPACE :: byte where "SPACE = 32"

text \<open>\<open>BytesCopy(dest, val, len)\<close> into a buffer of \<open>maxLength\<close> bytes, then blanks to its end.\<close>

definition fill_blanks :: "buf \<Rightarrow> buf \<Rightarrow> u32 \<Rightarrow> u32 \<Rightarrow> buf" where
  "fill_blanks dest val len maxLength =
     take (unat len) (BytesCopy dest val (ucast len)) @ replicate (unat maxLength - unat len) SPACE"

section \<open>Fixed-length strings\<close>

definition FixChar_null :: "u32 \<Rightarrow> CharsValue" where
  "FixChar_null maxLength = \<lparr>ch_valType = NULL_VALUE, ch_maxLength = maxLength, ch_soleLength = 0,
     ch_bysValue = [], ch_refCount = 1\<rparr>"

definition FixChar_new :: "alloc \<Rightarrow> buf \<Rightarrow> u32 \<Rightarrow> u32 \<Rightarrow> CharsValue option" where
  "FixChar_new alloc val len maxLength =
     (let m = (if maxLength = 0 then len else maxLength) in
      if len > m then None
      else Some \<lparr>ch_valType = SOLE_VALUE, ch_maxLength = m, ch_soleLength = 0,
             ch_bysValue = fill_blanks (alloc (unat m)) val len m, ch_refCount = 1\<rparr>)"

definition FixChar_buffer :: "alloc \<Rightarrow> CharsValue \<Rightarrow> buf" where
  "FixChar_buffer alloc dv =
     (if ch_valType dv \<noteq> SOLE_VALUE then alloc (unat (ch_maxLength dv)) else ch_bysValue dv)"

definition FixChar_SetValue :: "alloc \<Rightarrow> buf \<Rightarrow> u32 \<Rightarrow> CharsValue \<Rightarrow> DvError + CharsValue" where
  "FixChar_SetValue alloc val len dv =
     (if len \<ge> ch_maxLength dv then Inl DT_INPUT_OVER_LENGTH
      else Inr (dv\<lparr>ch_valType := SOLE_VALUE,
             ch_bysValue := fill_blanks (FixChar_buffer alloc dv) val len (ch_maxLength dv)\<rparr>))"

definition FixChar_GetPersistenceLength :: "CharsValue \<Rightarrow> SavePosition \<Rightarrow> u32" where
  "FixChar_GetPersistenceLength dv dtPos =
     (if dtPos = KEY then ch_maxLength dv
      else if ch_valType dv = NULL_VALUE then 0 else ch_maxLength dv)"

definition FixChar_GetDataLength :: "CharsValue \<Rightarrow> u32" where
  "FixChar_GetDataLength dv = (if ch_valType dv = NULL_VALUE then 0 else ch_maxLength dv)"

definition FixChar_SetNull :: "CharsValue \<Rightarrow> CharsValue" where
  "FixChar_SetNull dv = dv\<lparr>ch_valType := NULL_VALUE, ch_bysValue := []\<rparr>"

definition FixChar_WriteData :: "CharsValue \<Rightarrow> SavePosition \<Rightarrow> buf \<times> u32" where
  "FixChar_WriteData dv svPos =
     (let m = ch_maxLength dv in
      if svPos = KEY then
        (if ch_valType dv = NULL_VALUE then (replicate (unat m) SPACE, m)
         else (take (unat m) (ch_bysValue dv), m))
      else if ch_valType dv = NULL_VALUE then ([], 0)
      else (take (unat m) (ch_bysValue dv), m))"

definition FixChar_ReadData ::
    "buf \<Rightarrow> u32 \<Rightarrow> SavePosition \<Rightarrow> bool \<Rightarrow> CharsValue \<Rightarrow> (CharsValue \<times> u32) option" where
  "FixChar_ReadData b len svPos bSole dv =
     (let m = ch_maxLength dv;
          got = dv\<lparr>ch_valType := (if bSole then SOLE_VALUE else BYTES_VALUE), ch_bysValue := take (unat m) b\<rparr> in
      if len \<noteq> 0 \<and> len \<noteq> m then None
      else if svPos = KEY then (if len = 0 then None else Some (got, m))
      else if len = 0 then Some (dv\<lparr>ch_valType := NULL_VALUE\<rparr>, 0)
      else Some (got, m))"

text \<open>The form with a type byte, for overflow pages: the returned length leaves out the length field.\<close>

definition FixChar_WriteTyped :: "CharsValue \<Rightarrow> buf \<times> u32" where
  "FixChar_WriteTyped dv =
     (if ch_valType dv = NULL_VALUE then ([type_byte DT_FIXCHAR], 1)
      else ((VALUE_TYPE OR type_byte DT_FIXCHAR) # store (ch_maxLength dv) @
              take (unat (ch_maxLength dv)) (ch_bysValue dv), ch_maxLength dv + 1))"

definition FixChar_ReadTyped :: "buf \<Rightarrow> CharsValue \<Rightarrow> CharsValue \<times> u32" where
  "FixChar_ReadTyped b dv =
     (if hd b AND VALUE_TYPE = 0 then (dv\<lparr>ch_valType := NULL_VALUE, ch_bysValue := []\<rparr>, 1)
      else let m = rd 1 b in
        (dv\<lparr>ch_valType := SOLE_VALUE, ch_maxLength := m, ch_bysValue := take (unat m) (drop 5 b)\<rparr>, m + 1))"

definition FixChar_SetMinValue :: "CharsValue \<Rightarrow> CharsValue" where
  "FixChar_SetMinValue dv =
     dv\<lparr>ch_valType := SOLE_VALUE, ch_bysValue := replicate (unat (ch_maxLength dv)) 0\<rparr>"

definition FixChar_SetMaxValue :: "CharsValue \<Rightarrow> CharsValue" where
  "FixChar_SetMaxValue dv =
     dv\<lparr>ch_valType := SOLE_VALUE, ch_bysValue := replicate (unat (ch_maxLength dv)) 0xFF\<rparr>"

definition FixChar_SetDefaultValue :: "CharsValue \<Rightarrow> CharsValue" where
  "FixChar_SetDefaultValue dv =
     dv\<lparr>ch_valType := SOLE_VALUE, ch_bysValue := replicate (unat (ch_maxLength dv)) SPACE\<rparr>"

definition FixChar_cmp :: "CharsValue \<Rightarrow> CharsValue \<Rightarrow> int" where
  "FixChar_cmp a b = BytesCompare (ch_bysValue a) (ucast (ch_maxLength a)) (ch_bysValue b) (ucast (ch_maxLength b))"

definition FixChar_op_gt :: "CharsValue \<Rightarrow> CharsValue \<Rightarrow> bool" where
  "FixChar_op_gt a b =
     (if ch_valType a = NULL_VALUE then False
      else if ch_valType b = NULL_VALUE then True else FixChar_cmp a b > 0)"

definition FixChar_op_ge :: "CharsValue \<Rightarrow> CharsValue \<Rightarrow> bool" where
  "FixChar_op_ge a b =
     (if ch_valType a = NULL_VALUE then ch_valType b = NULL_VALUE
      else if ch_valType b = NULL_VALUE then True else FixChar_cmp a b \<ge> 0)"

definition FixChar_op_eq :: "CharsValue \<Rightarrow> CharsValue \<Rightarrow> bool" where
  "FixChar_op_eq a b =
     (if ch_valType a = NULL_VALUE then ch_valType b = NULL_VALUE
      else if ch_valType b = NULL_VALUE then False else FixChar_cmp a b = 0)"

definition FixChar_op_lt :: "CharsValue \<Rightarrow> CharsValue \<Rightarrow> bool" where
  "FixChar_op_lt a b = (\<not> FixChar_op_ge a b)"

section \<open>Variable-length strings\<close>

text \<open>The length of a variable-length value counts the terminating zero when there is one.\<close>

definition VarChar_null :: "u32 \<Rightarrow> CharsValue" where
  "VarChar_null maxLength = \<lparr>ch_valType = NULL_VALUE, ch_maxLength = maxLength, ch_soleLength = 0,
     ch_bysValue = [], ch_refCount = 1\<rparr>"

definition VarChar_new :: "buf \<Rightarrow> u32 \<Rightarrow> u32 \<Rightarrow> CharsValue" where
  "VarChar_new val len maxLength =
     \<lparr>ch_valType = SOLE_VALUE, ch_maxLength = (if maxLength = 0xFFFFFFFF then len else maxLength),
      ch_soleLength = len, ch_bysValue = take (unat len) val, ch_refCount = 1\<rparr>"

definition VarChar_SetValue :: "buf \<Rightarrow> u32 \<Rightarrow> CharsValue \<Rightarrow> DvError + CharsValue" where
  "VarChar_SetValue val len dv =
     (if len \<ge> ch_maxLength dv then Inl DT_INPUT_OVER_LENGTH
      else Inr (dv\<lparr>ch_valType := SOLE_VALUE, ch_soleLength := len + 1,
             ch_bysValue := take (unat len) val @ [0]\<rparr>))"

definition VarChar_GetPersistenceLength :: "CharsValue \<Rightarrow> SavePosition \<Rightarrow> u32" where
  "VarChar_GetPersistenceLength dv dtPos =
     (if dtPos = KEY then
        (if ch_valType dv = NULL_VALUE then 1
         else if ch_soleLength dv < ch_maxLength dv then ch_soleLength dv + 1 else ch_maxLength dv)
      else if ch_valType dv = NULL_VALUE then 0 else ch_soleLength dv)"

definition VarChar_GetDataLength :: "CharsValue \<Rightarrow> u32" where
  "VarChar_GetDataLength dv = (if ch_valType dv = NULL_VALUE then 0 else ch_soleLength dv)"

definition VarChar_SetNull :: "CharsValue \<Rightarrow> CharsValue" where
  "VarChar_SetNull dv = dv\<lparr>ch_valType := NULL_VALUE, ch_bysValue := []\<rparr>"

definition VarChar_WriteData :: "CharsValue \<Rightarrow> SavePosition \<Rightarrow> buf \<times> u32" where
  "VarChar_WriteData dv svPos =
     (let bytes = take (unat (ch_soleLength dv)) (ch_bysValue dv) in
      if svPos = KEY then
        (if ch_valType dv = NULL_VALUE then ([0], 1)
         else if ch_soleLength dv < ch_maxLength dv then (bytes @ [0], ch_soleLength dv + 1)
         else (bytes, ch_maxLength dv))
      else if ch_valType dv = NULL_VALUE then ([], 0)
      else (bytes, ch_soleLength dv))"

definition VarChar_ReadData ::
    "buf \<Rightarrow> u32 \<Rightarrow> SavePosition \<Rightarrow> bool \<Rightarrow> CharsValue \<Rightarrow> (CharsValue \<times> u32) option" where
  "VarChar_ReadData b len svPos bSole dv =
     (if svPos \<noteq> VALUE then None
      else if len = 0 then Some (dv\<lparr>ch_valType := NULL_VALUE, ch_bysValue := []\<rparr>, 0)
      else if len > ch_maxLength dv then None
      else Some (dv\<lparr>ch_soleLength := len, ch_bysValue := take (unat len) b,
                    ch_valType := (if bSole then SOLE_VALUE else BYTES_VALUE)\<rparr>, len))"

definition VarChar_WriteTyped :: "CharsValue \<Rightarrow> buf \<times> u32" where
  "VarChar_WriteTyped dv =
     (if ch_valType dv = NULL_VALUE then ([type_byte DT_VARCHAR], 1)
      else ((VALUE_TYPE OR type_byte DT_VARCHAR) # store (ch_soleLength dv) @
              take (unat (ch_soleLength dv)) (ch_bysValue dv), ch_soleLength dv + 4 + 1))"

definition VarChar_ReadTyped :: "buf \<Rightarrow> CharsValue \<Rightarrow> CharsValue \<times> u32" where
  "VarChar_ReadTyped b dv =
     (if hd b AND VALUE_TYPE = 0 then (dv\<lparr>ch_valType := NULL_VALUE\<rparr>, 1)
      else let n = rd 1 b in
        (dv\<lparr>ch_valType := SOLE_VALUE, ch_soleLength := n, ch_bysValue := take (unat n) (drop 5 b)\<rparr>, n + 4 + 1))"

definition VarChar_SetMinValue :: "CharsValue \<Rightarrow> CharsValue" where
  "VarChar_SetMinValue dv = dv\<lparr>ch_valType := SOLE_VALUE, ch_soleLength := 1, ch_bysValue := [0]\<rparr>"

definition VarChar_SetMaxValue :: "CharsValue \<Rightarrow> CharsValue" where
  "VarChar_SetMaxValue dv =
     dv\<lparr>ch_valType := SOLE_VALUE, ch_soleLength := ch_maxLength dv,
        ch_bysValue := replicate (unat (ch_maxLength dv)) 0xFF\<rparr>"

definition VarChar_SetDefaultValue :: "CharsValue \<Rightarrow> CharsValue" where
  "VarChar_SetDefaultValue dv = dv\<lparr>ch_valType := SOLE_VALUE, ch_soleLength := 1, ch_bysValue := [0]\<rparr>"

definition VarChar_cmp :: "CharsValue \<Rightarrow> CharsValue \<Rightarrow> int" where
  "VarChar_cmp a b = BytesCompare (ch_bysValue a) (ucast (ch_soleLength a)) (ch_bysValue b) (ucast (ch_soleLength b))"

definition VarChar_op_gt :: "CharsValue \<Rightarrow> CharsValue \<Rightarrow> bool" where
  "VarChar_op_gt a b =
     (if ch_valType a = NULL_VALUE then False
      else if ch_valType b = NULL_VALUE then True else VarChar_cmp a b > 0)"

definition VarChar_op_ge :: "CharsValue \<Rightarrow> CharsValue \<Rightarrow> bool" where
  "VarChar_op_ge a b =
     (if ch_valType a = NULL_VALUE then ch_valType b = NULL_VALUE
      else if ch_valType b = NULL_VALUE then True else VarChar_cmp a b \<ge> 0)"

definition VarChar_op_eq :: "CharsValue \<Rightarrow> CharsValue \<Rightarrow> bool" where
  "VarChar_op_eq a b =
     (if ch_valType a = NULL_VALUE then ch_valType b = NULL_VALUE
      else if ch_valType b = NULL_VALUE then False
      else if VarChar_GetDataLength a \<noteq> VarChar_GetDataLength b then False
      else VarChar_cmp a b = 0)"

definition VarChar_op_lt :: "CharsValue \<Rightarrow> CharsValue \<Rightarrow> bool" where
  "VarChar_op_lt a b = (\<not> VarChar_op_ge a b)"

section \<open>Binary values\<close>

definition Blob_SetValue :: "buf \<Rightarrow> u32 \<Rightarrow> CharsValue \<Rightarrow> DvError + CharsValue" where
  "Blob_SetValue val len dv =
     (if len > ch_maxLength dv then Inl DT_INPUT_OVER_LENGTH
      else Inr (dv\<lparr>ch_valType := SOLE_VALUE, ch_soleLength := len, ch_bysValue := take (unat len) val\<rparr>))"

definition Blob_GetPersistenceLength :: "CharsValue \<Rightarrow> SavePosition \<Rightarrow> u32 option" where
  "Blob_GetPersistenceLength dv dtPos =
     (if dtPos \<noteq> VALUE then None
      else Some (if ch_valType dv = NULL_VALUE then 0 else ch_soleLength dv))"

definition Blob_GetDataLength :: "CharsValue \<Rightarrow> u32" where
  "Blob_GetDataLength dv = (if ch_valType dv = NULL_VALUE then 0 else ch_soleLength dv)"

definition Blob_WriteData :: "CharsValue \<Rightarrow> SavePosition \<Rightarrow> (buf \<times> u32) option" where
  "Blob_WriteData dv dtPos =
     (if dtPos \<noteq> VALUE then None
      else if ch_valType dv = NULL_VALUE then Some ([], 0)
      else Some (take (unat (ch_soleLength dv)) (ch_bysValue dv), ch_soleLength dv))"

text \<open>A length above the maximum only sets the error message; the value is read all the same.\<close>

definition Blob_ReadData ::
    "buf \<Rightarrow> u32 \<Rightarrow> SavePosition \<Rightarrow> bool \<Rightarrow> CharsValue \<Rightarrow> (CharsValue \<times> u32) option" where
  "Blob_ReadData b len dtPos bSole dv =
     (if dtPos \<noteq> VALUE then None
      else if len = 0 then Some (dv\<lparr>ch_valType := NULL_VALUE, ch_bysValue := []\<rparr>, 0)
      else Some (dv\<lparr>ch_soleLength := len, ch_bysValue := take (unat len) b,
                    ch_valType := (if bSole then SOLE_VALUE else BYTES_VALUE)\<rparr>, len))"

definition Blob_WriteTyped :: "CharsValue \<Rightarrow> buf \<times> u32" where
  "Blob_WriteTyped dv =
     (if ch_valType dv = NULL_VALUE then ([type_byte DT_BLOB], 1)
      else ((VALUE_TYPE OR type_byte DT_BLOB) # store (ch_soleLength dv) @
              take (unat (ch_soleLength dv)) (ch_bysValue dv), ch_soleLength dv + 4 + 1))"

definition Blob_ReadTyped :: "buf \<Rightarrow> CharsValue \<Rightarrow> CharsValue \<times> u32" where
  "Blob_ReadTyped b dv =
     (if hd b AND VALUE_TYPE = 0 then (dv\<lparr>ch_valType := NULL_VALUE\<rparr>, 1)
      else let n = rd 1 b in
        (dv\<lparr>ch_valType := SOLE_VALUE, ch_soleLength := n, ch_bysValue := take (unat n) (drop 5 b)\<rparr>, n + 4 + 1))"

definition Blob_op_eq :: "CharsValue \<Rightarrow> CharsValue \<Rightarrow> bool" where
  "Blob_op_eq a b =
     (if ch_valType a = NULL_VALUE then ch_valType b = NULL_VALUE
      else if ch_valType b = NULL_VALUE then False
      else let len = Blob_GetDataLength a in
        if len \<noteq> Blob_GetDataLength b then False
        else BytesCompare (ch_bysValue a) (ucast len) (ch_bysValue b) (ucast len) = 0)"

definition Blob_SetMinValue :: "CharsValue \<Rightarrow> CharsValue" where
  "Blob_SetMinValue dv = dv\<lparr>ch_valType := SOLE_VALUE, ch_soleLength := 1, ch_bysValue := [0]\<rparr>"

definition Blob_SetMaxValue :: "CharsValue \<Rightarrow> CharsValue" where
  "Blob_SetMaxValue dv =
     dv\<lparr>ch_valType := SOLE_VALUE, ch_soleLength := ch_maxLength dv,
        ch_bysValue := replicate (unat (ch_maxLength dv)) 0xFF\<rparr>"

definition Blob_SetDefaultValue :: "CharsValue \<Rightarrow> CharsValue" where
  "Blob_SetDefaultValue dv = dv\<lparr>ch_valType := SOLE_VALUE, ch_soleLength := 1, ch_bysValue := [0]\<rparr>"

section \<open>Copies\<close>

text \<open>
  The source of a copy into a character value: a fixed-length value, a variable-length value, or a
  value of another type with the text that its \<open>ToString\<close> gives (none for null). The classes keep
  \<open>_bysValue\<close> at one offset, so that the casts of the source between them read the source's buffer.
  A copy returns the destination and the source, which a move empties; \<open>None\<close> is an access outside
  one of the buffers.
\<close>

datatype CopySource = FixSource CharsValue | VarSource CharsValue | TextSource "buf option"

definition FixChar_Copy_bytes :: "alloc \<Rightarrow> CharsValue \<Rightarrow> CharsValue \<Rightarrow> CharsValue option" where
  "FixChar_Copy_bytes alloc src dv =
     (let n = ch_maxLength src - 1; dest = FixChar_buffer alloc dv in
      if unat n > length (ch_bysValue src) \<or> unat n > length dest then None
      else let d = BytesCopy dest (ch_bysValue src) (ucast n) in
        Some (dv\<lparr>ch_valType := SOLE_VALUE,
          ch_bysValue := (if ch_maxLength dv > ch_maxLength src
            then take (unat (ch_maxLength src)) d @ replicate (unat (ch_maxLength dv - ch_maxLength src)) SPACE
            else d)\<rparr>))"

fun FixChar_Copy :: "alloc \<Rightarrow> CopySource \<Rightarrow> bool \<Rightarrow> CharsValue \<Rightarrow> (DvError + CharsValue \<times> CopySource) option" where
  "FixChar_Copy alloc (TextSource None) bMove dv = Some (Inr (FixChar_SetNull dv, TextSource None))"
| "FixChar_Copy alloc (TextSource (Some txt)) bMove dv =
     (if unat (ch_maxLength dv) < length txt then Some (Inl DT_INPUT_OVER_LENGTH)
      else Some (Inr (dv\<lparr>ch_valType := SOLE_VALUE,
             ch_bysValue := fill_blanks (FixChar_buffer alloc dv) txt (of_nat (length txt)) (ch_maxLength dv)\<rparr>,
             TextSource (Some txt))))"
| "FixChar_Copy alloc (FixSource src) bMove dv =
     (if ch_valType src = NULL_VALUE then Some (Inr (FixChar_SetNull dv, FixSource src))
      else if FixChar_GetDataLength src > ch_maxLength dv then Some (Inl DT_INPUT_OVER_LENGTH)
      else if bMove \<and> \<not> ch_refCount src > 1 \<and> ch_maxLength dv = ch_maxLength src then
        Some (Inr (dv\<lparr>ch_valType := ch_valType src, ch_bysValue := ch_bysValue src\<rparr>,
                   FixSource (src\<lparr>ch_valType := NULL_VALUE, ch_bysValue := []\<rparr>)))
      else if ch_valType src = BYTES_VALUE \<and> ch_maxLength dv = ch_maxLength src then
        Some (Inr (dv\<lparr>ch_valType := BYTES_VALUE, ch_bysValue := ch_bysValue src\<rparr>, FixSource src))
      else map_option (\<lambda>r. Inr (r, FixSource src)) (FixChar_Copy_bytes alloc src dv))"
| "FixChar_Copy alloc (VarSource src) bMove dv =
     (if ch_valType src = NULL_VALUE then Some (Inr (FixChar_SetNull dv, VarSource src))
      else if VarChar_GetDataLength src > ch_maxLength dv then Some (Inl DT_INPUT_OVER_LENGTH)
      else if ch_valType src = BYTES_VALUE \<and> ch_maxLength dv = ch_maxLength src then
        Some (Inr (dv\<lparr>ch_valType := BYTES_VALUE, ch_bysValue := ch_bysValue src\<rparr>, VarSource src))
      else map_option (\<lambda>r. Inr (r, VarSource src)) (FixChar_Copy_bytes alloc src dv))"

text \<open>The loop that looks for the end of a fixed-length string walks down to the last blank.\<close>

fun scan_blank :: "buf \<Rightarrow> nat \<Rightarrow> nat" where
  "scan_blank bys 0 = 0"
| "scan_blank bys (Suc len) = (if bys ! len = SPACE then len else scan_blank bys len)"

fun VarChar_Copy :: "alloc \<Rightarrow> CopySource \<Rightarrow> bool \<Rightarrow> CharsValue \<Rightarrow> (DvError + CharsValue \<times> CopySource) option" where
  "VarChar_Copy alloc (TextSource None) bMove dv = Some (Inr (VarChar_SetNull dv, TextSource None))"
| "VarChar_Copy alloc (TextSource (Some txt)) bMove dv =
     (if unat (ch_maxLength dv) < length txt + 1 then Some (Inl DT_INPUT_OVER_LENGTH)
      else Some (Inr (dv\<lparr>ch_valType := SOLE_VALUE, ch_soleLength := of_nat (length txt) + 1,
             ch_bysValue := (BytesCopy (alloc (unat (ch_maxLength dv))) txt (of_nat (length txt)))[length txt := 0]\<rparr>,
             TextSource (Some txt))))"
| "VarChar_Copy alloc (VarSource src) bMove dv =
     (if ch_valType src = NULL_VALUE then Some (Inr (VarChar_SetNull dv, VarSource src))
      else if VarChar_GetDataLength src > ch_maxLength dv then Some (Inl DT_INPUT_OVER_LENGTH)
      else if bMove \<and> \<not> ch_refCount src > 1 then
        Some (Inr (dv\<lparr>ch_valType := ch_valType src, ch_soleLength := ch_soleLength src, ch_bysValue := ch_bysValue src\<rparr>,
                   VarSource (src\<lparr>ch_valType := NULL_VALUE, ch_bysValue := []\<rparr>)))
      else if ch_valType src = BYTES_VALUE then
        Some (Inr (dv\<lparr>ch_valType := BYTES_VALUE, ch_soleLength := ch_soleLength src, ch_bysValue := ch_bysValue src\<rparr>,
                   VarSource src))
      else Some (Inr (dv\<lparr>ch_valType := SOLE_VALUE, ch_soleLength := ch_soleLength src,
                         ch_bysValue := BytesCopy (alloc (unat (ch_soleLength src))) (ch_bysValue src)
                           (ucast (ch_soleLength src))\<rparr>, VarSource src)))"
| "VarChar_Copy alloc (FixSource src) bMove dv =
     (if ch_valType src = NULL_VALUE then Some (Inr (VarChar_SetNull dv, FixSource src))
      else if FixChar_GetDataLength src > ch_maxLength dv then Some (Inl DT_INPUT_OVER_LENGTH)
      else if ch_maxLength src = 0 then None
      else let len = scan_blank (ch_bysValue src) (unat (ch_maxLength src)) in
        Some (Inr (dv\<lparr>ch_valType := SOLE_VALUE, ch_soleLength := of_nat len + 1,
                       ch_bysValue := (BytesCopy (alloc (len + 1)) (ch_bysValue src) (of_nat len))[len := 0]\<rparr>,
                   FixSource src)))"

definition Blob_Copy :: "alloc \<Rightarrow> DataType \<Rightarrow> CharsValue \<Rightarrow> bool \<Rightarrow> CharsValue \<Rightarrow> DvError + CharsValue \<times> CharsValue" where
  "Blob_Copy alloc dt src bMove dv =
     (if dt \<noteq> DT_BLOB then Inl DT_UNSUPPORT_CONVERT
      else if Blob_GetDataLength src > ch_maxLength dv then Inl DT_INPUT_OVER_LENGTH
      else if bMove \<and> \<not> ch_refCount src > 1 then
        Inr (dv\<lparr>ch_valType := ch_valType src, ch_soleLength := Blob_GetDataLength src, ch_bysValue := ch_bysValue src\<rparr>,
             src\<lparr>ch_valType := NULL_VALUE, ch_bysValue := []\<rparr>)
      else if ch_valType src = BYTES_VALUE then
        Inr (dv\<lparr>ch_valType := BYTES_VALUE, ch_soleLength := Blob_GetDataLength src, ch_bysValue := ch_bysValue src\<rparr>, src)
      else if ch_valType src \<noteq> NULL_VALUE then
        Inr (dv\<lparr>ch_valType := SOLE_VALUE, ch_soleLength := Blob_GetDataLength src,
                ch_bysValue := BytesCopy (alloc (unat (Blob_GetDataLength src))) (ch_bysValue src)
                  (ucast (Blob_GetDataLength src))\<rparr>, src)
      else Inr (dv\<lparr>ch_valType := NULL_VALUE, ch_soleLength := 0, ch_bysValue := []\<rparr>, src))"

end
