(* ===== verification/Data_Value.thy ===== *)
theory Data_Value
  imports Data_Chars
begin

text \<open>
  Data values as the engine sees them, behind the interface \<open>dataType/IDataValue.h\<close>: the virtual
  functions dispatch to the numeric, fixed-length, variable-length and binary classes. The factory
  and the comparison of values of different types are \<open>dataType/DataValueFactory.h\<close>. \<open>None\<close> is a
  failed assertion or \<open>abort\<close>.
\<close>

datatype DataValue = DV_Digit DataValueDigit | DV_FixChar CharsValue | DV_VarChar CharsValue | DV_Blob CharsValue

fun dv_type :: "DataValue \<Rightarrow> DataType" where
  "dv_type (DV_Digit d) = dg_type d"
| "dv_type (DV_FixChar c) = DT_FIXCHAR"
| "dv_type (DV_VarChar c) = DT_VARCHAR"
| "dv_type (DV_Blob c) = DT_BLOB"

fun dv_IsNull :: "DataValue \<Rightarrow> bool" where
  "dv_IsNull (DV_Digit d) = (dg_valType d = NULL_VALUE)"
| "dv_IsNull (DV_FixChar c) = (ch_valType c = NULL_VALUE)"
| "dv_IsNull (DV_VarChar c) = (ch_valType c = NULL_VALUE)"
| "dv_IsNull (DV_Blob c) = (ch_valType c = NULL_VALUE)"

text \<open>\<open>DataValueFactory\<close> without a default value.\<close>

definition DataValueFactory :: "DataType \<Rightarrow> u32 \<Rightarrow> DataValue option" where
  "DataValueFactory type maxLen =
     (if digit_type type then Some (DV_Digit (Digit_null type))
      else if type = DT_FIXCHAR then Some (DV_FixChar (FixChar_null maxLen))
      else if type = DT_VARCHAR then Some (DV_VarChar (VarChar_null maxLen))
      else if type = DT_BLOB then Some (DV_Blob (VarChar_null maxLen))
      else None)"

fun dv_GetMaxLength :: "DataValue \<Rightarrow> u32" where
  "dv_GetMaxLength (DV_Digit d) = of_nat (sizeof (dg_type d))"
| "dv_GetMaxLength (DV_FixChar c) = ch_maxLength c"
| "dv_GetMaxLength (DV_VarChar c) = ch_maxLength c"
| "dv_GetMaxLength (DV_Blob c) = ch_maxLength c"

fun dv_GetDataLength :: "DataValue \<Rightarrow> u32" where
  "dv_GetDataLength (DV_Digit d) = Digit_GetDataLength d"
| "dv_GetDataLength (DV_FixChar c) = FixChar_GetDataLength c"
| "dv_GetDataLength (DV_VarChar c) = VarChar_GetDataLength c"
| "dv_GetDataLength (DV_Blob c) = Blob_GetDataLength c"

text \<open>The memory of the value: the buffer of a character value, the machine word of a number.\<close>

fun dv_GetBuff :: "DataValue \<Rightarrow> buf" where
  "dv_GetBuff (DV_Digit d) = take (sizeof (dg_type d)) (store (dg_value d))"
| "dv_GetBuff (DV_FixChar c) = ch_bysValue c"
| "dv_GetBuff (DV_VarChar c) = ch_bysValue c"
| "dv_GetBuff (DV_Blob c) = ch_bysValue c"

text \<open>\<open>Clone()\<close>: a null value of the same type and maximal length; a number is copied with its value.\<close>

fun dv_Clone :: "DataValue \<Rightarrow> DataValue" where
  "dv_Clone (DV_Digit d) = DV_Digit (Digit_Clone d)"
| "dv_Clone (DV_FixChar c) = DV_FixChar (FixChar_null (ch_maxLength c))"
| "dv_Clone (DV_VarChar c) = DV_VarChar (VarChar_null (ch_maxLength c))"
| "dv_Clone (DV_Blob c) = DV_Blob (VarChar_null (ch_maxLength c))"

fun dv_GetPersistenceLength :: "DataValue \<Rightarrow> SavePosition \<Rightarrow> u32 option" where
  "dv_GetPersistenceLength (DV_Digit d) pos = Some (Digit_GetPersistenceLength d pos)"
| "dv_GetPersistenceLength (DV_FixChar c) pos = Some (FixChar_GetPersistenceLength c pos)"
| "dv_GetPersistenceLength (DV_VarChar c) pos = Some (VarChar_GetPersistenceLength c pos)"
| "dv_GetPersistenceLength (DV_Blob c) pos = Blob_GetPersistenceLength c pos"

fun dv_WriteData :: "DataValue \<Rightarrow> SavePosition \<Rightarrow> (buf \<times> u32) option" where
  "dv_WriteData (DV_Digit d) pos = Digit_WriteData d pos"
| "dv_WriteData (DV_FixChar c) pos = Some (FixChar_WriteData c pos)"
| "dv_WriteData (DV_VarChar c) pos = Some (VarChar_WriteData c pos)"
| "dv_WriteData (DV_Blob c) pos = Blob_WriteData c pos"

fun dv_ReadData :: "buf \<Rightarrow> u32 \<Rightarrow> SavePosition \<Rightarrow> bool \<Rightarrow> DataValue \<Rightarrow> (DataValue \<times> u32) option" where
  "dv_ReadData b len pos bSole (DV_Digit d) =
     map_option (\<lambda>(d', n). (DV_Digit d', n)) (Digit_ReadData b len pos d)"
| "dv_ReadData b len pos bSole (DV_FixChar c) =
     map_option (\<lambda>(c', n). (DV_FixChar c', n)) (FixChar_ReadData b len pos bSole c)"
| "dv_ReadData b len pos bSole (DV_VarChar c) =
     map_option (\<lambda>(c', n). (DV_VarChar c', n)) (VarChar_ReadData b len pos bSole c)"
| "dv_ReadData b len pos bSole (DV_Blob c) =
     map_option (\<lambda>(c', n). (DV_Blob c', n)) (Blob_ReadData b len pos bSole c)"

section \<open>Comparison of values of any types\<close>

fun dv_EQ :: "fp_ops \<Rightarrow> DataValue \<Rightarrow> DataValue \<Rightarrow> bool option" where
  "dv_EQ fp (DV_Digit a) (DV_Digit b) = Digit_EQ fp a b"
| "dv_EQ fp (DV_FixChar a) (DV_FixChar b) = Some (FixChar_op_eq a b)"
| "dv_EQ fp (DV_VarChar a) (DV_VarChar b) = Some (VarChar_op_eq a b)"
| "dv_EQ fp (DV_Blob a) (DV_Blob b) = Some (Blob_op_eq a b)"
| "dv_EQ fp a b = None"

fun dv_GT :: "fp_ops \<Rightarrow> DataValue \<Rightarrow> DataValue \<Rightarrow> bool option" where
  "dv_GT fp (DV_Digit a) (DV_Digit b) = Digit_GT fp a b"
| "dv_GT fp (DV_FixChar a) (DV_FixChar b) = Some (FixChar_op_gt a b)"
| "dv_GT fp (DV_VarChar a) (DV_VarChar b) = Some (VarChar_op_gt a b)"
| "dv_GT fp a b = None"

fun dv_LT :: "fp_ops \<Rightarrow> DataValue \<Rightarrow> DataValue \<Rightarrow> bool option" where
  "dv_LT fp (DV_Digit a) (DV_Digit b) = Digit_LT fp a b"
| "dv_LT fp (DV_FixChar a) (DV_FixChar b) = Some (FixChar_op_lt a b)"
| "dv_LT fp (DV_VarChar a) (DV_VarChar b) = Some (VarChar_op_lt a b)"
| "dv_LT fp a b = None"

fun dv_GetLong :: "fp_ops \<Rightarrow> DataValue \<Rightarrow> u64" where
  "dv_GetLong fp (DV_Digit d) = Digit_GetLong fp d"
| "dv_GetLong fp v = 0"

fun dv_GetDouble :: "fp_ops \<Rightarrow> DataValue \<Rightarrow> u64" where
  "dv_GetDouble fp (DV_Digit d) = Digit_GetDouble fp d"
| "dv_GetDouble fp v = 0"

definition dv_op_eq :: "fp_ops \<Rightarrow> DataValue \<Rightarrow> DataValue \<Rightarrow> bool option" where
  "dv_op_eq fp dv1 dv2 =
     (if dv_type dv1 = dv_type dv2 then dv_EQ fp dv1 dv2
      else if IsAutoPrimaryKey (dv_type dv1) \<and> IsAutoPrimaryKey (dv_type dv2)
      then Some (dv_GetLong fp dv1 = dv_GetLong fp dv2)
      else if IsDigital (dv_type dv1) \<and> IsDigital (dv_type dv2)
      then Some (fp_eq fp (dv_GetDouble fp dv1) (dv_GetDouble fp dv2))
      else if IsArrayType (dv_type dv1) \<and> IsArrayType (dv_type dv1)
      then Some (\<not> BytesEqual (dv_GetBuff dv1) (ucast (dv_GetDataLength dv1))
                     (dv_GetBuff dv2) (ucast (dv_GetDataLength dv2)))
      else Some False)"

definition dv_op_gt :: "fp_ops \<Rightarrow> DataValue \<Rightarrow> DataValue \<Rightarrow> bool option" where
  "dv_op_gt fp dv1 dv2 =
     (if dv_type dv1 = dv_type dv2 then dv_GT fp dv1 dv2
      else if IsAutoPrimaryKey (dv_type dv1) \<and> IsAutoPrimaryKey (dv_type dv2)
      then Some (sint (dv_GetLong fp dv1) > sint (dv_GetLong fp dv2))
      else if IsDigital (dv_type dv1) \<and> IsDigital (dv_type dv2)
      then Some (fp_lt fp (dv_GetDouble fp dv2) (dv_GetDouble fp dv1))
      else if IsArrayType (dv_type dv1) \<and> IsArrayType (dv_type dv1)
      then Some (BytesCompare (dv_GetBuff dv1) (ucast (dv_GetDataLength dv1))
                   (dv_GetBuff dv2) (ucast (dv_GetDataLength dv2)) > 0)
      else Some (\<not> IsDigital (dv_type dv1)))"

definition dv_op_ge :: "fp_ops \<Rightarrow> DataValue \<Rightarrow> DataValue \<Rightarrow> bool option" where
  "dv_op_ge fp dv1 dv2 =
     (if dv_type dv1 = dv_type dv2 then map_option Not (dv_LT fp dv1 dv2)
      else if IsAutoPrimaryKey (dv_type dv1) \<and> IsAutoPrimaryKey (dv_type dv2)
      then Some (sint (dv_GetLong fp dv1) \<ge> sint (dv_GetLong fp dv2))
      else if IsDigital (dv_type dv1) \<and> IsDigital (dv_type dv2)
      then Some (fp_lt fp (dv_GetDouble fp dv2) (dv_GetDouble fp dv1) \<or>
                 fp_eq fp (dv_GetDouble fp dv1) (dv_GetDouble fp dv2))
      else if IsArrayType (dv_type dv1) \<and> IsArrayType (dv_type dv1)
      then Some (BytesCompare (dv_GetBuff dv1) (ucast (dv_GetDataLength dv1))
                   (dv_GetBuff dv2) (ucast (dv_GetDataLength dv2)) \<ge> 0)
      else Some (\<not> IsDigital (dv_type dv1)))"

definition dv_op_ne :: "fp_ops \<Rightarrow> DataValue \<Rightarrow> DataValue \<Rightarrow> bool option" where
  "dv_op_ne fp dv1 dv2 = map_option Not (dv_op_eq fp dv1 dv2)"

definition dv_op_lt :: "fp_ops \<Rightarrow> DataValue \<Rightarrow> DataValue \<Rightarrow> bool option" where
  "dv_op_lt fp dv1 dv2 = map_option Not (dv_op_ge fp dv1 dv2)"

definition dv_op_le :: "fp_ops \<Rightarrow> DataValue \<Rightarrow> DataValue \<Rightarrow> bool option" where
  "dv_op_le fp dv1 dv2 = map_option Not (dv_op_gt fp dv1 dv2)"

section \<open>What a record relies on: a field can be read back from where it was saved\<close>

text \<open>
  The contract between a record and the classes of its fields. \<open>content\<close> is what a value stands for
  (nothing for null), \<open>len\<close> the length that the layout of the record reserves, \<open>like tpl v\<close> says that
  the template \<open>tpl\<close> describes the column of \<open>v\<close>. A field is saved in exactly \<open>len\<close> bytes, which
  are none just for null, and a value of the template's column reads back from them, whatever
  follows.
\<close>

locale value_class =
  fixes ok :: "'v \<Rightarrow> bool" and like :: "'v \<Rightarrow> 'v \<Rightarrow> bool" and content :: "'v \<Rightarrow> 'c option"
    and len :: "'v \<Rightarrow> u32" and put :: "'v \<Rightarrow> (buf \<times> u32) option"
    and get :: "buf \<Rightarrow> u32 \<Rightarrow> 'v \<Rightarrow> ('v \<times> u32) option"
  assumes put_len: "ok v \<Longrightarrow> \<exists>b. put v = Some (b, len v) \<and> length b = unat (len v)"
    and null_empty: "ok v \<Longrightarrow> content v = None \<longleftrightarrow> len v = 0"
    and get_back: "ok v \<Longrightarrow> content v \<noteq> None \<Longrightarrow> like tpl v \<Longrightarrow> put v = Some (b, n) \<Longrightarrow>
      \<exists>r. get (b @ rest) n tpl = Some (r, n) \<and> content r = content v"
begin

lemma field_roundtrip:
  assumes "ok v" "like tpl v" "content v \<noteq> None"
  shows "\<exists>b. put v = Some (b, len v) \<and> length b = unat (len v) \<and> len v \<noteq> 0 \<and>
    (\<forall>rest. \<exists>r. get (b @ rest) (len v) tpl = Some (r, len v) \<and> content r = content v)"
  using put_len [OF assms(1)] null_empty [OF assms(1)] get_back [OF assms(1,3,2)] assms(3) by metis

lemma null_field: "ok v \<Longrightarrow> content v = None \<Longrightarrow> put v = Some ([], 0)"
  using put_len [of v] null_empty [of v] by auto

end

text \<open>The four classes.\<close>

definition digit_field_ok :: "DataValueDigit \<Rightarrow> bool" where
  "digit_field_ok d \<longleftrightarrow> digit_type (dg_type d) \<and> digit_ok (dg_type d) (dg_value d) \<and> dg_valType d \<noteq> BYTES_VALUE"

definition digit_content :: "DataValueDigit \<Rightarrow> u64 option" where
  "digit_content d = (if dg_valType d = NULL_VALUE then None else Some (dg_value d))"

definition fix_field_ok :: "CharsValue \<Rightarrow> bool" where
  "fix_field_ok c \<longleftrightarrow> ch_valType c = NULL_VALUE \<or> ch_maxLength c \<noteq> 0 \<and> length (ch_bysValue c) = unat (ch_maxLength c)"

definition fix_content :: "CharsValue \<Rightarrow> buf option" where
  "fix_content c = (if ch_valType c = NULL_VALUE then None else Some (take (unat (ch_maxLength c)) (ch_bysValue c)))"

definition var_field_ok :: "CharsValue \<Rightarrow> bool" where
  "var_field_ok c \<longleftrightarrow> ch_valType c = NULL_VALUE \<or>
     ch_soleLength c \<noteq> 0 \<and> unat (ch_soleLength c) \<le> length (ch_bysValue c)"

definition var_content :: "CharsValue \<Rightarrow> buf option" where
  "var_content c = (if ch_valType c = NULL_VALUE then None else Some (take (unat (ch_soleLength c)) (ch_bysValue c)))"

definition var_like :: "CharsValue \<Rightarrow> CharsValue \<Rightarrow> bool" where
  "var_like tpl c \<longleftrightarrow> ch_valType c = NULL_VALUE \<or> ch_soleLength c \<le> ch_maxLength tpl"

lemma valType_cases: "t = NULL_VALUE \<or> t = SOLE_VALUE \<or> t = BYTES_VALUE"
  by (cases t) auto

interpretation digit: value_class digit_field_ok "\<lambda>tpl d. dg_type tpl = dg_type d" digit_content
  "\<lambda>d. Digit_GetPersistenceLength d VALUE" "\<lambda>d. Digit_WriteData d VALUE" "\<lambda>b n. Digit_ReadData b n VALUE"
proof
  fix v :: DataValueDigit assume ok: "digit_field_ok v"
  note nz = digit_type_positive [of "dg_type v"]
  show "\<exists>b. Digit_WriteData v VALUE = Some (b, Digit_GetPersistenceLength v VALUE) \<and>
      length b = unat (Digit_GetPersistenceLength v VALUE)"
    by (simp add: Digit_WriteData_def Digit_GetPersistenceLength_def Let_def length_DigitalToBytes unat_sizeof)
  show "digit_content v = None \<longleftrightarrow> Digit_GetPersistenceLength v VALUE = 0"
    using ok nz by (simp add: digit_content_def Digit_GetPersistenceLength_def digit_field_ok_def)
  fix tpl :: DataValueDigit and b n rest
  assume "digit_content v \<noteq> None" "dg_type tpl = dg_type v" "Digit_WriteData v VALUE = Some (b, n)"
  then show "\<exists>r. Digit_ReadData (b @ rest) n VALUE tpl = Some (r, n) \<and> digit_content r = digit_content v"
    using ok nz DigitalFromBytes_ToBytes [of "dg_type v" "dg_value v"] unat_sizeof [of "dg_type v"]
    by (auto simp: digit_content_def Digit_WriteData_def Digit_ReadData_def digit_field_ok_def Let_def
        split: if_splits)
qed

interpretation fixchar: value_class fix_field_ok "\<lambda>tpl c. ch_maxLength tpl = ch_maxLength c" fix_content
  "\<lambda>c. FixChar_GetPersistenceLength c VALUE" "\<lambda>c. Some (FixChar_WriteData c VALUE)"
  "\<lambda>b n. FixChar_ReadData b n VALUE True"
  by unfold_locales (auto simp: fix_field_ok_def fix_content_def FixChar_GetPersistenceLength_def
      FixChar_WriteData_def FixChar_ReadData_def Let_def split: if_splits)

interpretation varchar: value_class var_field_ok var_like var_content
  "\<lambda>c. VarChar_GetPersistenceLength c VALUE" "\<lambda>c. Some (VarChar_WriteData c VALUE)"
  "\<lambda>b n. VarChar_ReadData b n VALUE True"
  by unfold_locales (auto simp: var_field_ok_def var_like_def var_content_def VarChar_GetPersistenceLength_def
      VarChar_WriteData_def VarChar_ReadData_def Let_def split: if_splits)

interpretation blob: value_class var_field_ok var_like var_content
  "\<lambda>c. Blob_GetDataLength c" "\<lambda>c. Blob_WriteData c VALUE" "\<lambda>b n. Blob_ReadData b n VALUE True"
  by unfold_locales (auto simp: var_field_ok_def var_like_def var_content_def Blob_GetDataLength_def
      Blob_WriteData_def Blob_ReadData_def split: if_splits)

text \<open>The dispatching interface keeps the contract.\<close>

fun field_ok :: "DataValue \<Rightarrow> bool" where
  "field_ok (DV_Digit d) = digit_field_ok d"
| "field_ok (DV_FixChar c) = fix_field_ok c"
| "field_ok (DV_VarChar c) = var_field_ok c"
| "field_ok (DV_Blob c) = var_field_ok c"

fun field_like :: "DataValue \<Rightarrow> DataValue \<Rightarrow> bool" where
  "field_like (DV_Digit t) (DV_Digit d) = (dg_type t = dg_type d)"
| "field_like (DV_FixChar t) (DV_FixChar c) = (ch_maxLength t = ch_maxLength c)"
| "field_like (DV_VarChar t) (DV_VarChar c) = var_like t c"
| "field_like (DV_Blob t) (DV_Blob c) = var_like t c"
| "field_like t v = False"

fun field_content :: "DataValue \<Rightarrow> (u64 + buf) option" where
  "field_content (DV_Digit d) = map_option Inl (digit_content d)"
| "field_content (DV_FixChar c) = map_option Inr (fix_content c)"
| "field_content (DV_VarChar c) = map_option Inr (var_content c)"
| "field_content (DV_Blob c) = map_option Inr (var_content c)"

definition field_len :: "DataValue \<Rightarrow> u32" where
  "field_len v = the (dv_GetPersistenceLength v VALUE)"

lemma field_len_simps [simp]:
  "field_len (DV_Digit d) = Digit_GetPersistenceLength d VALUE"
  "field_len (DV_FixChar c) = FixChar_GetPersistenceLength c VALUE"
  "field_len (DV_VarChar c) = VarChar_GetPersistenceLength c VALUE"
  "field_len (DV_Blob c) = Blob_GetDataLength c"
  by (simp_all add: field_len_def Blob_GetPersistenceLength_def Blob_GetDataLength_def)

lemma dv_GetPersistenceLength_VALUE: "dv_GetPersistenceLength v VALUE = Some (field_len v)"
  by (cases v) (simp_all add: Blob_GetPersistenceLength_def Blob_GetDataLength_def)

lemma field_content_None: "field_content v = None \<longleftrightarrow> dv_IsNull v"
  by (cases v) (simp_all add: digit_content_def fix_content_def var_content_def)

interpretation fields: value_class field_ok field_like field_content field_len
  "\<lambda>v. dv_WriteData v VALUE" "\<lambda>b n. dv_ReadData b n VALUE True"
proof
  fix v assume ok: "field_ok v"
  show "\<exists>b. dv_WriteData v VALUE = Some (b, field_len v) \<and> length b = unat (field_len v)"
    using ok digit.put_len fixchar.put_len varchar.put_len blob.put_len by (cases v) simp_all
  show "field_content v = None \<longleftrightarrow> field_len v = 0"
    using ok digit.null_empty fixchar.null_empty varchar.null_empty blob.null_empty by (cases v) simp_all
  fix tpl b n rest
  assume "field_content v \<noteq> None" "field_like tpl v" "dv_WriteData v VALUE = Some (b, n)"
  then show "\<exists>r. dv_ReadData (b @ rest) n VALUE True tpl = Some (r, n) \<and> field_content r = field_content v"
    using ok digit.get_back [of _ _ b n rest] fixchar.get_back [of _ _ b n rest] varchar.get_back [of _ _ b n rest]
      blob.get_back [of _ _ b n rest]
    by (cases v; cases tpl) fastforce+
qed

section \<open>Properties\<close>

text \<open>
  C31: in the saved form (\<open>SavePosition::VALUE\<close>, not that of keys) a field of any type can be read back from where a record saved it.
  \<open>WriteData\<close> stores exactly \<open>GetPersistenceLength\<close> bytes; for null these are none, and for any other value
  \<open>ReadData\<close> into a value of the same column, whatever bytes follow, gives the value back. A \<open>VARCHAR\<close> or
  \<open>BLOB\<close> that is not null has at least one byte and fits its column; an empty one would read back as null.
\<close>

theorem dv_write_read:
  assumes "field_ok v" "field_like tpl v"
  shows "\<exists>b n. dv_WriteData v VALUE = Some (b, n) \<and> dv_GetPersistenceLength v VALUE = Some n \<and>
    length b = unat n \<and> (if dv_IsNull v then n = 0 else n \<noteq> 0 \<and>
      (\<forall>rest. \<exists>r. dv_ReadData (b @ rest) n VALUE True tpl = Some (r, n) \<and> field_content r = field_content v))"
proof (cases "dv_IsNull v")
  case True
  then show ?thesis
    using fields.null_field [OF assms(1)] fields.null_empty [OF assms(1)]
    by (simp add: field_content_None dv_GetPersistenceLength_VALUE)
next
  case False
  then show ?thesis
    using fields.field_roundtrip [OF assms] by (auto simp: field_content_None dv_GetPersistenceLength_VALUE)
qed

definition abc_var :: DataValue where
  "abc_var = DV_VarChar (VarChar_new [97, 98, 99] 3 10)"

theorem dv_write_read_witness:
  "\<exists>b r. dv_WriteData abc_var VALUE = Some (b, 3) \<and>
     dv_ReadData (b @ [1, 2]) 3 VALUE True (DV_VarChar (VarChar_null 10)) = Some (r, 3) \<and>
     field_content r = Some (Inr [97, 98, 99])"
proof -
  have ok: "field_ok abc_var" "field_like (DV_VarChar (VarChar_null 10)) abc_var" "\<not> dv_IsNull abc_var"
    and n: "dv_GetPersistenceLength abc_var VALUE = Some 3" "field_content abc_var = Some (Inr [97, 98, 99])"
    by (simp_all add: abc_var_def VarChar_new_def VarChar_null_def var_field_ok_def var_like_def
        VarChar_GetPersistenceLength_def var_content_def)
  show ?thesis using dv_write_read [OF ok(1,2)] ok(3) n by auto
qed

text \<open>
  Equality between character values of different classes is inverted. A fixed-length and a
  variable-length value are reported equal exactly when their bytes differ, because the result of
  \<open>BytesEqual\<close>, which is true for equal bytes, is compared with zero.
\<close>

theorem dv_op_eq_chars_inverted:
  assumes "ch_valType a \<noteq> NULL_VALUE" "length (ch_bysValue a) = unat (ch_maxLength a)"
    and "ch_valType b \<noteq> NULL_VALUE" "length (ch_bysValue b) = unat (ch_soleLength b)"
  shows "dv_op_eq fp (DV_FixChar a) (DV_VarChar b) = Some (ch_bysValue a \<noteq> ch_bysValue b)"
proof -
  have len: "(ucast w :: u64) = of_nat (unat w)" for w :: u32
    by (simp add: word_unat_eq_iff unsigned_ucast_eq unsigned_take_bit_eq)
  have lt: "unat w < 2 ^ 64" for w :: u32
    using unsigned_less [of w, where ?'a = nat] by simp
  have "BytesEqual (ch_bysValue a) (ucast (ch_maxLength a)) (ch_bysValue b) (ucast (ch_soleLength b)) \<longleftrightarrow>
      ch_bysValue a = ch_bysValue b"
    unfolding len assms(2,4) [symmetric] by (rule BytesEqual_iff) (simp_all only: assms(2,4) lt)
  then show ?thesis
    using assms(1,3)
    by (simp add: dv_op_eq_def data_type_flags FixChar_GetDataLength_def VarChar_GetDataLength_def)
qed

theorem dv_op_eq_chars_inverted_witness:
  "dv_op_eq plain_fp (DV_FixChar \<lparr>ch_valType = SOLE_VALUE, ch_maxLength = 2, ch_soleLength = 0,
       ch_bysValue = [104, 105], ch_refCount = 1\<rparr>) (DV_VarChar (VarChar_new [104, 105] 2 9)) = Some False"
  using dv_op_eq_chars_inverted [of "\<lparr>ch_valType = SOLE_VALUE, ch_maxLength = 2, ch_soleLength = 0,
       ch_bysValue = [104, 105], ch_refCount = 1\<rparr>" "VarChar_new [104, 105] 2 9" plain_fp]
  by (simp add: VarChar_new_def)

lemma scan_blank_none: "\<forall>i<n. b ! i \<noteq> SPACE \<Longrightarrow> scan_blank b n = 0"
  by (induction n) auto

text \<open>
  A fixed-length string that fills its column is lost when it is copied to a variable-length one:
  the loop that drops the trailing blanks walks down to the last blank, and to the start of the
  string when there is none, so that the copy is the empty string.
\<close>

theorem VarChar_copy_loses_full_string:
  assumes "ch_valType src \<noteq> NULL_VALUE" "length (ch_bysValue src) = unat (ch_maxLength src)"
    and "0 < ch_maxLength src" "ch_maxLength src \<le> ch_maxLength dv" "SPACE \<notin> set (ch_bysValue src)" "alloc_ok alloc"
  shows "\<exists>r. VarChar_Copy alloc (FixSource src) bMove dv = Some (Inr (r, FixSource src)) \<and> var_content r = Some [0]"
proof -
  have "\<forall>i<unat (ch_maxLength src). ch_bysValue src ! i \<noteq> SPACE"
    using assms(2,5) by (metis nth_mem)
  then have z: "scan_blank (ch_bysValue src) (unat (ch_maxLength src)) = 0" by (rule scan_blank_none)
  have "BytesCopy (alloc (Suc 0)) (ch_bysValue src) 0 = alloc (Suc 0)"
    using BytesCopy_eq [of 0 "ch_bysValue src" "alloc (Suc 0)"] by simp
  moreover have "\<exists>x. alloc (Suc 0) = [x]"
    using alloc_length [OF assms(6), of "Suc 0"] by (cases "alloc (Suc 0)") auto
  ultimately show ?thesis
    using assms(1,3,4) z
    by (auto simp: FixChar_GetDataLength_def var_content_def not_less)
qed

theorem VarChar_copy_loses_full_string_witness:
  "\<exists>r. VarChar_Copy (\<lambda>n. replicate n 0) (FixSource \<lparr>ch_valType = SOLE_VALUE, ch_maxLength = 3, ch_soleLength = 0,
        ch_bysValue = [97, 98, 99], ch_refCount = 1\<rparr>) False (VarChar_null 20) =
     Some (Inr (r, FixSource \<lparr>ch_valType = SOLE_VALUE, ch_maxLength = 3, ch_soleLength = 0,
        ch_bysValue = [97, 98, 99], ch_refCount = 1\<rparr>)) \<and> var_content r = Some [0]"
  by (rule VarChar_copy_loses_full_string) (simp_all add: VarChar_null_def SPACE_def alloc_ok_replicate)

text \<open>
  A copy of one fixed-length string to another of the same length leaves the last byte as it was
  in the destination: one byte less than the length is copied.
\<close>

theorem FixChar_copy_last_byte:
  assumes "ch_valType src = SOLE_VALUE" "length (ch_bysValue src) = unat (ch_maxLength src)" "0 < ch_maxLength src"
    and "ch_valType dv = SOLE_VALUE" "length (ch_bysValue dv) = unat (ch_maxLength dv)"
    and "ch_maxLength dv = ch_maxLength src" "ch_refCount src > 1"
  shows "\<exists>r. FixChar_Copy alloc (FixSource src) bMove dv = Some (Inr (r, FixSource src)) \<and>
    ch_bysValue r = butlast (ch_bysValue src) @ [List.last (ch_bysValue dv)]"
proof -
  let ?n = "ch_maxLength src - 1"
  have pos: "0 < unat (ch_maxLength src)" using assms(3) by (simp add: unat_gt_0 word_neq_0_conv)
  have n: "unat ?n = unat (ch_maxLength src) - 1"
    using pos by (simp add: unat_sub_if' word_le_nat_alt)
  have un: "unat (ucast ?n :: u64) = unat (ch_maxLength src) - 1"
    using n by (simp add: unsigned_ucast_eq unsigned_take_bit_eq)
  have ne: "ch_bysValue dv \<noteq> []" "ch_bysValue src \<noteq> []" using pos assms(2,5,6) by auto
  have bc: "BytesCopy (ch_bysValue dv) (ch_bysValue src) (ucast ?n) =
      take (unat (ch_maxLength src) - 1) (ch_bysValue src) @ drop (unat (ch_maxLength src) - 1) (ch_bysValue dv)"
    using BytesCopy_eq [of "ucast ?n" "ch_bysValue src" "ch_bysValue dv"] un assms(2,5,6) by simp
  have d: "drop (unat (ch_maxLength src) - 1) (ch_bysValue dv) = [List.last (ch_bysValue dv)]"
    using ne(1) assms(5,6) pos
    by (metis Cons_nth_drop_Suc One_nat_def Suc_pred diff_less drop_all last_conv_nth le_refl zero_less_one)
  have t: "take (unat (ch_maxLength src) - 1) (ch_bysValue src) = butlast (ch_bysValue src)"
    using assms(2) by (simp add: butlast_conv_take)
  show ?thesis
    using assms n bc d t pos
    by (auto simp: FixChar_GetDataLength_def FixChar_Copy_bytes_def FixChar_buffer_def Let_def)
qed

theorem FixChar_copy_last_byte_witness:
  "\<exists>r. FixChar_Copy (\<lambda>n. replicate n 0) (FixSource \<lparr>ch_valType = SOLE_VALUE, ch_maxLength = 3, ch_soleLength = 0,
        ch_bysValue = [97, 98, 99], ch_refCount = 2\<rparr>) True \<lparr>ch_valType = SOLE_VALUE, ch_maxLength = 3,
        ch_soleLength = 0, ch_bysValue = [120, 121, 122], ch_refCount = 1\<rparr> =
     Some (Inr (r, FixSource \<lparr>ch_valType = SOLE_VALUE, ch_maxLength = 3, ch_soleLength = 0,
        ch_bysValue = [97, 98, 99], ch_refCount = 2\<rparr>)) \<and> ch_bysValue r = [97, 98, 122]"
  using FixChar_copy_last_byte [of "\<lparr>ch_valType = SOLE_VALUE, ch_maxLength = 3, ch_soleLength = 0,
        ch_bysValue = [97, 98, 99], ch_refCount = 2\<rparr>" "\<lparr>ch_valType = SOLE_VALUE, ch_maxLength = 3,
        ch_soleLength = 0, ch_bysValue = [120, 121, 122], ch_refCount = 1\<rparr>" "\<lambda>n. replicate n 0" True]
  by simp

end
