(* ===== verification/Leaf_Layout.thy ===== *)
theory Leaf_Layout
  imports Leaf_Record Data_Value
begin

text \<open>
  The bytes of leaf records: \<open>core/LeafRecord.{h,cpp}\<close>. A primary record is

    total length (2), key length (2), key, version byte (1), stamp (8), value length (4), value

  or, when the value does not fit a record, with crc (4), first page id (4) and page number (2) of an
  overflow page in place of the value. A value is a bitmap of the null fields, the lengths of the
  variable-length fields and the fields one after the other. A secondary record is

    total length (2), key length (2), key, primary key, stamp (8).

  The parameters are the memory of a fresh buffer \<open>alloc\<close>, the first page id \<open>pid\<close> that
  \<open>ApplyOvfPage\<close> gives, and the checksum \<open>crc\<close> of \<open>boost::crc_32_type\<close>. \<open>None\<close> is a failed
  assertion or an access outside a buffer.
\<close>

definition MAX_KEY_LENGTH :: nat where "MAX_KEY_LENGTH = 2000"
definition MAX_RECORD_LENGTH :: nat where "MAX_RECORD_LENGTH = 8180"
definition CORE_EXCEED_KEY_LENGTH :: nat where "CORE_EXCEED_KEY_LENGTH = 5001"

text \<open>What records use of their index tree: its type, the value fields and the space for lengths.\<close>

record TreeInfo =
  ti_indexType :: IndexType
  ti_vctValue :: "DataValue list"
  ti_valVarLen :: u16

section \<open>The structure of a record\<close>

text \<open>Pointers into the record are offsets; the start of the values is none when it is not in the record.\<close>

record RecStruct =
  rs_totalLen :: nat
  rs_keyLen :: nat
  rs_bysKey :: nat
  rs_byVerFlow :: nat
  rs_arrStamp :: nat
  rs_arrValLen :: nat
  rs_arrCrc32 :: "nat option"
  rs_pidStart :: "nat option"
  rs_pageNum :: "nat option"
  rs_bysValStart :: "nat option"

definition RecStruct_init :: "u16 \<Rightarrow> bool \<Rightarrow> RecStruct" where
  "RecStruct_init keyLen ofPage =
     (let ver = UI16_2_LEN + unat keyLen; stamp = ver + 1; vlen = stamp + UI64_LEN; crc = vlen + UI32_LEN in
      \<lparr>rs_totalLen = 0, rs_keyLen = UI16_LEN, rs_bysKey = UI16_2_LEN, rs_byVerFlow = ver, rs_arrStamp = stamp,
       rs_arrValLen = vlen,
       rs_arrCrc32 = (if ofPage then Some crc else None),
       rs_pidStart = (if ofPage then Some (crc + UI32_LEN) else None),
       rs_pageNum = (if ofPage then Some (crc + UI32_LEN + UI32_LEN) else None),
       rs_bysValStart = (if ofPage then None else Some (vlen + UI32_LEN))\<rparr>)"

definition RecStruct_load :: "buf \<Rightarrow> RecStruct" where
  "RecStruct_load bys =
     (let keyLen = rd UI16_LEN bys :: u16 in
      RecStruct_init keyLen (bys ! (UI16_2_LEN + unat keyLen) AND REC_OVERFLOW_BIT \<noteq> 0))"

definition header_end :: "RecStruct \<Rightarrow> nat" where
  "header_end rs = (case rs_pageNum rs of None \<Rightarrow> rs_arrValLen rs + UI32_LEN | Some n \<Rightarrow> n + UI16_LEN)"

definition FillHeaderBuff :: "RecStruct \<Rightarrow> u32 \<Rightarrow> u32 \<Rightarrow> byte \<Rightarrow> u64 \<Rightarrow> u32 \<Rightarrow> ActionType \<Rightarrow> buf \<Rightarrow> buf" where
  "FillHeaderBuff rs totalLen keyLen verNum stamp valLen type b =
     wr (rs_arrValLen rs) valLen
       (wr (rs_arrStamp rs) stamp
         ((wr (rs_keyLen rs) (ucast keyLen :: u16) (wr (rs_totalLen rs) (ucast totalLen :: u16) b))
            [rs_byVerFlow rs := (if rs_pidStart rs = None then 0 else REC_OVERFLOW_BIT) +
               (if type = DELETE then REC_DELETE_BIT else 0) + verNum]))"

text \<open>The fields of a key, one after the other.\<close>

fun FillKeyBuff :: "DataValue list \<Rightarrow> buf option" where
  "FillKeyBuff [] = Some []"
| "FillKeyBuff (v # vctKey) =
     (case dv_WriteData v KEY of
        None \<Rightarrow> None
      | Some (b, vl) \<Rightarrow> map_option ((@) b) (FillKeyBuff vctKey))"

fun sum_lengths :: "SavePosition \<Rightarrow> u32 \<Rightarrow> DataValue list \<Rightarrow> u32 option" where
  "sum_lengths pos acc [] = Some acc"
| "sum_lengths pos acc (v # vs) =
     (case dv_GetPersistenceLength v pos of None \<Rightarrow> None | Some n \<Rightarrow> sum_lengths pos (acc + n) vs)"

definition CalcKeyLength :: "DataValue list \<Rightarrow> u16 option" where
  "CalcKeyLength vctKey =
     map_option (\<lambda>lenKey. if unat lenKey > MAX_KEY_LENGTH then 0xFFFF else ucast lenKey) (sum_lengths KEY 0 vctKey)"

section \<open>The value of a primary record\<close>

definition null_bytes :: "nat \<Rightarrow> nat" where
  "null_bytes fieldNum = (fieldNum + 7) div 8"

text \<open>\<open>ReadValueStruct\<close>: where the null bitmap, the lengths and the fields start in the value.\<close>

definition ReadValueStruct :: "nat \<Rightarrow> nat \<Rightarrow> u16 \<Rightarrow> nat \<times> nat \<times> nat" where
  "ReadValueStruct start fieldNum valVarLen =
     (start, start + null_bytes fieldNum, start + null_bytes fieldNum + unat valVarLen)"

definition set_null_bit :: "nat \<Rightarrow> buf \<Rightarrow> buf" where
  "set_null_bit i bysNull = bysNull[i div 8 := bysNull ! (i div 8) OR push_bit (i mod 8) 1]"

definition null_bit :: "nat \<Rightarrow> buf \<Rightarrow> bool" where
  "null_bit i bysNull \<longleftrightarrow> bysNull ! (i div 8) AND push_bit (i mod 8) 1 \<noteq> 0"

text \<open>The loop of \<open>FillValueBuff\<close>: the bitmap, the bytes stored as lengths and the bytes of the fields.\<close>

fun fill_fields :: "nat \<Rightarrow> DataValue list \<Rightarrow> buf \<Rightarrow> (buf \<times> buf \<times> buf) option" where
  "fill_fields i [] bysNull = Some (bysNull, [], [])"
| "fill_fields i (v # vctVal) bysNull =
     (case dv_WriteData v VALUE of
        None \<Rightarrow> None
      | Some (b, vl) \<Rightarrow>
          map_option (\<lambda>(nl, lens, bys). (nl, (if IsFixLength (dv_type v) then [] else store vl) @ lens, b @ bys))
            (fill_fields (Suc i) vctVal (if dv_IsNull v then set_null_bit i bysNull else bysNull)))"

definition FillValueBuff :: "nat \<Rightarrow> u16 \<Rightarrow> DataValue list \<Rightarrow> buf \<Rightarrow> buf option" where
  "FillValueBuff start valVarLen vctVal b =
     (let (pNull, pLen, pVal) = ReadValueStruct start (length vctVal) valVarLen in
      case fill_fields 0 vctVal (replicate (null_bytes (length vctVal)) 0) of
        None \<Rightarrow> None
      | Some (nl, lens, bys) \<Rightarrow>
          if pLen + length lens > pVal \<or> pVal + length bys > length b then None
          else Some (patch pVal bys (patch pLen lens (patch pNull nl b))))"

definition CalcValueLength :: "TreeInfo \<Rightarrow> DataValue list \<Rightarrow> ActionType \<Rightarrow> u32 option" where
  "CalcValueLength ti vctVal type =
     (if type = DELETE then Some 0
      else sum_lengths VALUE (of_nat (null_bytes (length vctVal)) + ucast (ti_valVarLen ti)) vctVal)"

definition max_lenVal :: "u16 \<Rightarrow> u32" where
  "max_lenVal lenKey =
     of_nat MAX_RECORD_LENGTH - ucast lenKey - of_nat UI16_2_LEN - (1 + of_nat UI64_LEN + of_nat UI32_LEN)"

definition OverflowPage_new :: "alloc \<Rightarrow> u32 \<Rightarrow> u16 \<Rightarrow> OverflowPage" where
  "OverflowPage_new alloc pid num =
     \<lparr>op_pageId = pid, op_pageNum = num, op_bysPage = alloc (INDEX_PAGE_SIZE * unat num), op_bDirty = False\<rparr>"

definition overflow_pages :: "u32 \<Rightarrow> u16" where
  "overflow_pages lenVal = ucast ((lenVal + of_nat INDEX_PAGE_SIZE - 1) div of_nat INDEX_PAGE_SIZE)"

text \<open>
  The steps that the constructors and \<open>UpdateRecord\<close> share: header, key, values and the reference to
  the overflow page.
\<close>

definition fill_record ::
    "(buf \<Rightarrow> u32) \<Rightarrow> alloc \<Rightarrow> TreeInfo \<Rightarrow> u16 \<Rightarrow> u16 \<Rightarrow> buf \<Rightarrow> u64 \<Rightarrow> u32 \<Rightarrow> ActionType \<Rightarrow> DataValue list \<Rightarrow>
     OverflowPage option \<Rightarrow> (buf \<times> OverflowPage option) option" where
  "fill_record crc alloc ti totalLen lenKey key recStamp lenVal type vctVal ovp =
     (let b0 = alloc (unat totalLen); rs = RecStruct_init lenKey (ovp \<noteq> None) in
      if header_end rs > length b0 then None
      else
        let b1 = copy_to (rs_bysKey rs) (FillHeaderBuff rs (ucast totalLen) (ucast lenKey) 1 recStamp lenVal type b0)
                   key (ucast lenKey)
        in case ovp of
             None \<Rightarrow>
               if type = DELETE then Some (b1, None)
               else map_option (\<lambda>b. (b, None)) (FillValueBuff (the (rs_bysValStart rs)) (ti_valVarLen ti) vctVal b1)
           | Some op \<Rightarrow>
               (case (if type = DELETE then Some (op_bysPage op)
                      else FillValueBuff 0 (ti_valVarLen ti) vctVal (op_bysPage op)) of
                  None \<Rightarrow> None
                | Some vb \<Rightarrow>
                    Some (wr (the (rs_arrCrc32 rs)) (crc (take (unat lenVal) vb))
                            (wr (the (rs_pageNum rs)) (op_pageNum op) (wr (the (rs_pidStart rs)) (op_pageId op) b1)),
                          Some (op\<lparr>op_bysPage := vb\<rparr>))))"

section \<open>Constructors\<close>

definition insert_lock :: "Stmt option \<Rightarrow> ActionType \<Rightarrow> RecordLock option" where
  "insert_lock stmt type =
     map_option (\<lambda>s. RecordLock_new type RS_INIT False RR_INIT (st_txId s) (Some (st_ref s)) None) stmt"

definition leaf_raw :: "IndexType \<Rightarrow> buf \<Rightarrow> bool \<Rightarrow> bool \<Rightarrow> RawRecord" where
  "leaf_raw t b valid del = \<lparr>rr_class = LeafClass, rr_bysVal = b, rr_bSole = True, rr_indexType = t,
     rr_bValid = valid, rr_bDelete = del\<rparr>"

text \<open>
  A key that is too long: the record is not valid, the error is in the lock or, without statement,
  in the thread's error (the second component).
\<close>

definition exceed_key :: "IndexType \<Rightarrow> RecordLock option \<Rightarrow> LeafRecord \<times> nat option" where
  "exceed_key t lock =
     (case lock of
        None \<Rightarrow> (LeafRecord (leaf_raw t [] False False) None None, Some CORE_EXCEED_KEY_LENGTH)
      | Some l \<Rightarrow>
          (LeafRecord (leaf_raw t [] False False)
             (Some (RecordLock (rl_actType l) (rl_recStatus l) (rl_bGapLock l) (rl_recResult l) (rl_stmt l)
                (rl_lstTxid l) (rl_undoRec l) (Some CORE_EXCEED_KEY_LENGTH))) None, None))"

definition LeafRecord_secondary ::
    "alloc \<Rightarrow> TreeInfo \<Rightarrow> DataValue list \<Rightarrow> buf \<Rightarrow> u32 \<Rightarrow> ActionType \<Rightarrow> u64 \<Rightarrow> Stmt option \<Rightarrow>
     (LeafRecord \<times> nat option) option" where
  "LeafRecord_secondary alloc ti vctKey bysPri lenPri actType recStamp stmt =
     (case CalcKeyLength vctKey of
        None \<Rightarrow> None
      | Some lenKey \<Rightarrow>
          let lock = insert_lock stmt actType in
          if lenKey = 0xFFFF then Some (exceed_key (ti_indexType ti) lock)
          else case FillKeyBuff vctKey of
            None \<Rightarrow> None
          | Some key \<Rightarrow>
              let totalLen = ucast lenKey + lenPri + of_nat UI16_2_LEN + of_nat UI64_LEN :: u32;
                  b = wr UI16_LEN lenKey (wr 0 (ucast totalLen :: u16) (alloc (unat totalLen)));
                  b = patch UI16_2_LEN key b;
                  b = copy_to (UI16_2_LEN + length key) b bysPri (ucast lenPri);
                  b = wr (UI16_2_LEN + length key + unat lenPri) recStamp b
              in Some (LeafRecord (leaf_raw (ti_indexType ti) b True (actType = DELETE)) lock None, None))"

definition primary_record ::
    "(buf \<Rightarrow> u32) \<Rightarrow> alloc \<Rightarrow> u32 \<Rightarrow> TreeInfo \<Rightarrow> u16 \<Rightarrow> buf \<Rightarrow> DataValue list \<Rightarrow> u64 \<Rightarrow> RecordLock option \<Rightarrow>
     (LeafRecord \<times> nat option) option" where
  "primary_record crc alloc pid ti lenKey key vctVal recStamp lock =
     (case (if ti_indexType ti \<noteq> PRIMARY then None else CalcValueLength ti vctVal INSERT) of
        None \<Rightarrow> None
      | Some lenVal \<Rightarrow>
          let over = lenVal > max_lenVal lenKey;
              ovp = (if over then Some (OverflowPage_new alloc pid (overflow_pages lenVal)) else None);
              infoLen = (if over then 23 else 13) :: u16;
              totalLen = of_nat UI16_2_LEN + lenKey + infoLen + (if over then 10 else ucast lenVal)
          in case fill_record crc alloc ti totalLen lenKey key recStamp lenVal INSERT vctVal ovp of
               None \<Rightarrow> None
             | Some (b, ovp') \<Rightarrow>
                 Some (LeafRecord (leaf_raw (ti_indexType ti) b True False) lock
                         (map_option (op_bDirty_update (\<lambda>_. True)) ovp'), None))"

definition LeafRecord_insert ::
    "(buf \<Rightarrow> u32) \<Rightarrow> alloc \<Rightarrow> u32 \<Rightarrow> TreeInfo \<Rightarrow> DataValue list \<Rightarrow> DataValue list \<Rightarrow> u64 \<Rightarrow> Stmt option \<Rightarrow>
     (LeafRecord \<times> nat option) option" where
  "LeafRecord_insert crc alloc pid ti vctKey vctVal recStamp stmt =
     (case CalcKeyLength vctKey of
        None \<Rightarrow> None
      | Some lenKey \<Rightarrow>
          let lock = insert_lock stmt INSERT in
          if unat lenKey > MAX_KEY_LENGTH then Some (exceed_key (ti_indexType ti) lock)
          else case FillKeyBuff vctKey of
            None \<Rightarrow> None
          | Some key \<Rightarrow> primary_record crc alloc pid ti lenKey key vctVal recStamp lock)"

definition LeafRecord_insert_key ::
    "(buf \<Rightarrow> u32) \<Rightarrow> alloc \<Rightarrow> u32 \<Rightarrow> TreeInfo \<Rightarrow> RawKey \<Rightarrow> DataValue list \<Rightarrow> u64 \<Rightarrow> Stmt option \<Rightarrow>
     (LeafRecord \<times> nat option) option" where
  "LeafRecord_insert_key crc alloc pid ti priKey vctVal recStamp stmt =
     (let lenKey = ucast (rk_length priKey) :: u16; lock = insert_lock stmt INSERT in
      if unat lenKey \<ge> MAX_KEY_LENGTH then Some (exceed_key (ti_indexType ti) lock)
      else primary_record crc alloc pid ti lenKey (rk_bysVal priKey) vctVal recStamp lock)"

text \<open>
  A new version. The length of the new record depends on the overflow page of the old record
  (\<open>_overflowPage\<close> is a member of this record, not of the new one), and it is the old record's
  overflow page that \<open>FillValueBuff\<close> marks as changed.
\<close>

definition mark_dirty :: "LeafRecord \<Rightarrow> LeafRecord" where
  "mark_dirty lr = LeafRecord (lr_raw lr) (lr_recLock lr) (map_option (op_bDirty_update (\<lambda>_. True)) (lr_overflowPage lr))"

definition UpdateRecord ::
    "(buf \<Rightarrow> u32) \<Rightarrow> alloc \<Rightarrow> u32 \<Rightarrow> TreeInfo \<Rightarrow> LeafRecord \<Rightarrow> DataValue list \<Rightarrow> u64 \<Rightarrow> Stmt \<Rightarrow> ActionType \<Rightarrow> bool \<Rightarrow>
     LeafRecord option" where
  "UpdateRecord crc alloc pid ti this vctVal recStamp stmt type gapLock =
     (let old = rr_bysVal (lr_raw this); keyLen = rd UI16_LEN old :: u16 in
      case (UpdateRecord_lock this stmt type gapLock, CalcValueLength ti vctVal type) of
        (Some lock, Some lenVal) \<Rightarrow>
          if rs_pidStart (RecStruct_load old) \<noteq> None \<and> lr_overflowPage this = None then None
          else
            let over = lenVal > max_lenVal keyLen;
                ovp = (if over then Some (OverflowPage_new alloc pid (overflow_pages lenVal)) else None);
                lenInfo = (if over then 23 else 13) :: u16;
                totalLen = of_nat UI16_2_LEN + keyLen + lenInfo +
                  (if lr_overflowPage this = None then ucast lenVal else 0);
                this' = (if type = UPDATE then mark_dirty this else this)
            in map_option
                 (\<lambda>(b, ovp'). LeafRecord (leaf_raw PRIMARY b True (type = DELETE)) (Some (set_undo (Some this') lock)) ovp')
                 (fill_record crc alloc ti totalLen keyLen (drop UI16_2_LEN old) recStamp lenVal type vctVal ovp)
      | _ \<Rightarrow> None)"

section \<open>Reading the fields\<close>

text \<open>
  \<open>mapPos\<close> maps positions of fields to positions in the result; when it is empty all fields are read.
  The result vector starts with null pointers.
\<close>

fun read_fields ::
    "(u32 \<times> u32) list \<Rightarrow> buf \<Rightarrow> buf \<Rightarrow> nat \<Rightarrow> nat \<Rightarrow> DataValue list \<Rightarrow> buf \<Rightarrow> DataValue option list \<Rightarrow>
     DataValue option list option" where
  "read_fields mapPos bysNull lens i varField [] bys vctVal = Some vctVal"
| "read_fields mapPos bysNull lens i varField (tpl # vdSrc) bys vctVal =
     (let fix_len = IsFixLength (dv_type tpl);
          flen = (if fix_len then dv_GetMaxLength tpl else rd (UI32_LEN * varField) lens);
          flen = (if null_bit i bysNull then 0 else flen);
          dest = (if mapPos = [] then Some i else map_option unat (map_of mapPos (of_nat i)))
      in case dest of
           None \<Rightarrow> read_fields mapPos bysNull lens (Suc i) (if fix_len then varField else Suc varField) vdSrc
                     (drop (unat flen) bys) vctVal
         | Some p \<Rightarrow>
             (case (if flen > 0 then dv_ReadData bys flen VALUE True (dv_Clone tpl) else Some (dv_Clone tpl, 0)) of
                None \<Rightarrow> None
              | Some (dv, _) \<Rightarrow>
                  if p \<ge> length vctVal \<or> vctVal ! p \<noteq> None then None
                  else read_fields mapPos bysNull lens (Suc i) (if fix_len then varField else Suc varField) vdSrc
                         (drop (unat flen) bys) (vctVal[p := Some dv])))"

definition read_values :: "(u32 \<times> u32) list \<Rightarrow> TreeInfo \<Rightarrow> buf \<Rightarrow> u64 \<Rightarrow> DataValue option list option" where
  "read_values mapPos ti area stamp =
     (let vdSrc = ti_vctValue ti;
          (pNull, pLen, pVal) = ReadValueStruct 0 (length vdSrc) (ti_valVarLen ti)
      in case read_fields mapPos (drop pNull area) (drop pLen area) 0 0 vdSrc (drop pVal area)
                (replicate (if mapPos = [] then length vdSrc else length mapPos) None) of
           None \<Rightarrow> None
         | Some vctVal \<Rightarrow>
             (case map_of mapPos 0xFFFFFFFF of
                None \<Rightarrow> Some vctVal
              | Some p \<Rightarrow> if unat p \<ge> length vctVal then None
                          else Some (vctVal[unat p := Some (DV_Digit (Digit_new DT_LONG stamp))])))"

definition value_area :: "LeafRecord \<Rightarrow> buf option" where
  "value_area lr =
     (case rs_bysValStart (RecStruct_load (rr_bysVal (lr_raw lr))) of
        Some start \<Rightarrow> Some (drop start (rr_bysVal (lr_raw lr)))
      | None \<Rightarrow> map_option op_bysPage (lr_overflowPage lr))"

definition ReadListValue ::
    "TreeInfo \<Rightarrow> (u32 \<times> u32) list \<Rightarrow> LeafRecord \<Rightarrow> Stmt \<Rightarrow> ActionType \<Rightarrow> bool \<Rightarrow>
     (LeafRecord \<times> ReadResult \<times> DataValue option list) option" where
  "ReadListValue ti mapPos this stmt atype bGapLock =
     (case ReadListValue_lock this stmt atype bGapLock of
        None \<Rightarrow> None
      | Some (this', Inl res) \<Rightarrow> Some (this', res, [])
      | Some (this', Inr (lr, bAddLock)) \<Rightarrow>
          let rs = RecStruct_load (rr_bysVal (lr_raw lr)) in
          if rs_pidStart rs \<noteq> None \<and> lr_overflowPage this' = None then None
          else case value_area lr of
            None \<Rightarrow> None
          | Some area \<Rightarrow>
              map_option (\<lambda>vctVal. (this', if bAddLock then OK_LOCK else OK_NOLOCK, vctVal))
                (read_values mapPos ti area (rd (rs_arrStamp rs) (rr_bysVal (lr_raw lr)))))"

end
