(* ===== verification/Leaf_Fields.thy ===== *)
theory Leaf_Fields
  imports Leaf_Layout
begin

text \<open>
  The fields of a primary record: what \<open>FillValueBuff\<close> writes, \<open>ReadListValue\<close> reads back. The proof
  goes through the contract \<open>value_class\<close> of the field classes; here the null bitmap, the table of
  lengths and the positions of the fields are put together.
\<close>

section \<open>The null bitmap\<close>

lemma null_bit_bit: "null_bit i b \<longleftrightarrow> bit (b ! (i div 8)) (i mod 8)"
  by (simp add: null_bit_def bit_iff_and_push_bit_not_eq_0)

lemma null_bit_set:
  assumes "i div 8 < length b"
  shows "null_bit j (set_null_bit i b) \<longleftrightarrow> j = i \<or> null_bit j b"
proof (cases "j div 8 = i div 8")
  case True
  then have "j = i \<longleftrightarrow> j mod 8 = i mod 8"
    by (metis div_mult_mod_eq)
  moreover have "j mod 8 < LENGTH(8)" by simp
  ultimately show ?thesis
    using assms True
    by (auto simp: null_bit_bit set_null_bit_def bit_or_iff bit_exp_iff)
next
  case False
  then show ?thesis using assms by (auto simp: null_bit_bit set_null_bit_def)
qed

lemma length_set_null_bit [simp]: "length (set_null_bit i b) = length b"
  by (simp add: set_null_bit_def)

lemma null_bit_replicate: "i div 8 < n \<Longrightarrow> \<not> null_bit i (replicate n 0)"
  by (simp add: null_bit_bit)

section \<open>What the fields of a value are written as\<close>

definition field_bytes :: "DataValue \<Rightarrow> buf" where
  "field_bytes v = fst (the (dv_WriteData v VALUE))"

definition var_lens :: "DataValue list \<Rightarrow> buf" where
  "var_lens vs = concat (map (\<lambda>v. store (field_len v)) (filter (\<lambda>v. \<not> IsFixLength (dv_type v)) vs))"

lemma field_write:
  "field_ok v \<Longrightarrow> dv_WriteData v VALUE = Some (field_bytes v, field_len v) \<and> length (field_bytes v) = unat (field_len v)"
  using fields.put_len [of v] by (auto simp: field_bytes_def)

lemma length_var_lens: "length (var_lens vs) = 4 * length (filter (\<lambda>v. \<not> IsFixLength (dv_type v)) vs)"
  by (induction vs) (simp_all add: var_lens_def)

lemma fill_fields_eq:
  assumes "list_all field_ok vs" "i + length vs \<le> 8 * length nl"
  shows "\<exists>nl'. fill_fields i vs nl = Some (nl', var_lens vs, concat (map field_bytes vs)) \<and> length nl' = length nl \<and>
    (\<forall>j. null_bit j nl' \<longleftrightarrow> null_bit j nl \<or> i \<le> j \<and> j < i + length vs \<and> dv_IsNull (vs ! (j - i)))"
  using assms
proof (induction vs arbitrary: i nl)
  case Nil
  then show ?case by (auto simp: var_lens_def)
next
  case (Cons v vs)
  let ?nl = "if dv_IsNull v then set_null_bit i nl else nl"
  have i: "i div 8 < length nl" using Cons.prems(2) by (simp add: div_less_iff_less_mult)
  have len: "length ?nl = length nl" by simp
  have nb: "null_bit j ?nl \<longleftrightarrow> null_bit j nl \<or> j = i \<and> dv_IsNull v" for j
    using null_bit_set [of i nl j] i by auto
  have w: "dv_WriteData v VALUE = Some (field_bytes v, field_len v)"
    using Cons.prems(1) field_write by simp
  obtain nl' where nl': "fill_fields (Suc i) vs ?nl = Some (nl', var_lens vs, concat (map field_bytes vs))"
      "length nl' = length nl"
      "\<forall>j. null_bit j nl' \<longleftrightarrow> null_bit j ?nl \<or> Suc i \<le> j \<and> j < Suc i + length vs \<and> dv_IsNull (vs ! (j - Suc i))"
    using Cons.IH [of "Suc i" ?nl] Cons.prems len by (auto simp del: split_paired_Ex)
  have "null_bit j nl' \<longleftrightarrow> null_bit j nl \<or> i \<le> j \<and> j < i + length (v # vs) \<and> dv_IsNull ((v # vs) ! (j - i))" for j
    using nl'(3) nb by (cases "j = i") (auto simp: nth_Cons' Suc_le_eq)
  then show ?case
    using nl'(1,2) w by (simp add: var_lens_def)
qed

section \<open>Reading them back\<close>

lemma field_like_type: "field_like tpl v \<Longrightarrow> dv_type tpl = dv_type v"
  by (cases tpl; cases v) auto

lemma field_like_clone: "field_like tpl v \<Longrightarrow> field_like (dv_Clone tpl) v"
  by (cases tpl; cases v) (auto simp: Digit_Clone_def FixChar_null_def VarChar_null_def var_like_def)

lemma fixed_field_len:
  assumes "field_ok v" "field_like tpl v" "\<not> dv_IsNull v" "IsFixLength (dv_type v)"
  shows "dv_GetMaxLength tpl = field_len v"
  using assms
  by (cases tpl; cases v) (auto simp: Digit_GetPersistenceLength_def FixChar_GetPersistenceLength_def data_type_flags)

lemma dv_Clone_null: "dv_IsNull tpl \<Longrightarrow> field_content (dv_Clone tpl) = None"
  by (cases tpl) (auto simp: digit_content_def Digit_Clone_def fix_content_def FixChar_null_def var_content_def
      VarChar_null_def)

lemma read_field:
  assumes "field_ok v" "field_like tpl v" "dv_IsNull tpl"
  shows "\<exists>r n. (if field_len v > 0 then dv_ReadData (field_bytes v @ rest) (field_len v) VALUE True (dv_Clone tpl)
      else Some (dv_Clone tpl, 0)) = Some (r, n) \<and> field_content r = field_content v"
proof (cases "dv_IsNull v")
  case True
  then have "field_content v = None" "field_len v = 0"
    using assms(1) fields.null_empty by (auto simp: field_content_None)
  then show ?thesis using dv_Clone_null [OF assms(3)] by simp
next
  case False
  then have c: "field_content v \<noteq> None" by (simp add: field_content_None)
  then have "field_len v \<noteq> 0" using fields.null_empty [OF assms(1)] by simp
  then have pos: "field_len v > 0" by (simp add: word_neq_0_conv)
  show ?thesis
    using fields.get_back [OF assms(1) c field_like_clone [OF assms(2)], of "field_bytes v" "field_len v" rest]
      field_write [OF assms(1)] unfolding if_P [OF pos] by blast
qed

lemma var_lens_read:
  assumes "drop (4 * k) lens = var_lens (v # vs) @ r" "\<not> IsFixLength (dv_type v)"
  shows "rd (UI32_LEN * k) lens = field_len v" "drop (4 * Suc k) lens = var_lens vs @ r"
proof -
  have d: "drop (4 * k) lens = store (field_len v) @ var_lens vs @ r"
    using assms by (simp add: var_lens_def)
  then show "rd (UI32_LEN * k) lens = field_len v" by (simp add: rd_def UI32_LEN_def)
  have "drop (4 * Suc k) lens = drop 4 (drop (4 * k) lens)" by (simp add: add.commute)
  with d show "drop (4 * Suc k) lens = var_lens vs @ r" by simp
qed

lemma read_fields_eq:
  assumes "list_all2 field_like tpls vs" "list_all field_ok vs" "list_all dv_IsNull tpls"
    and "\<forall>j<length vs. null_bit (length done + j) nl \<longleftrightarrow> dv_IsNull (vs ! j)"
    and "drop (4 * k) lens = var_lens vs @ r"
  shows "\<exists>rs. read_fields [] nl lens (length done) k tpls (concat (map field_bytes vs) @ rest)
      (done @ replicate (length vs) None) = Some (done @ map Some rs) \<and>
    list_all2 (\<lambda>r v. field_content r = field_content v) rs vs"
  using assms
proof (induction tpls vs arbitrary: "done" k rule: list_all2_induct)
  case Nil
  then show ?case by simp
next
  case (Cons tpl tpls v vs)
  let ?i = "length done" and ?bys = "field_bytes v @ concat (map field_bytes vs) @ rest"
  let ?fix = "IsFixLength (dv_type tpl)"
  have ok: "field_ok v" "dv_IsNull tpl" and ty: "dv_type tpl = dv_type v"
    using Cons.prems(1,2) field_like_type [OF Cons.hyps(1)] by auto
  have nb: "null_bit ?i nl \<longleftrightarrow> dv_IsNull v" using Cons.prems(3) by force
  have nl: "field_len v = 0" if "dv_IsNull v"
    using that ok(1) fields.null_empty by (simp add: field_content_None)
  have flen: "(if null_bit ?i nl then 0 else if ?fix then dv_GetMaxLength tpl else rd (UI32_LEN * k) lens) = field_len v"
    using nb nl ty fixed_field_len [OF ok(1) Cons.hyps(1)] var_lens_read(1) [OF Cons.prems(4)] by auto
  obtain x n where x: "(if field_len v > 0 then dv_ReadData ?bys (field_len v) VALUE True (dv_Clone tpl)
      else Some (dv_Clone tpl, 0)) = Some (x, n)" "field_content x = field_content v"
    using read_field [OF ok(1) Cons.hyps(1) ok(2)] by blast
  have dr: "drop (unat (field_len v)) ?bys = concat (map field_bytes vs) @ rest"
    using field_write [OF ok(1)] by simp
  have lens: "drop (4 * (if ?fix then k else Suc k)) lens = var_lens vs @ r"
    using Cons.prems(4) var_lens_read(2) [OF Cons.prems(4)] ty by (auto simp: var_lens_def)
  have nbs: "\<forall>j<length vs. null_bit (length (done @ [Some x]) + j) nl \<longleftrightarrow> dv_IsNull (vs ! j)"
    using Cons.prems(3) by force
  obtain rs where rs: "read_fields [] nl lens (length (done @ [Some x])) (if ?fix then k else Suc k) tpls
      (concat (map field_bytes vs) @ rest) ((done @ [Some x]) @ replicate (length vs) None) =
        Some ((done @ [Some x]) @ map Some rs)" "list_all2 (\<lambda>r v. field_content r = field_content v) rs vs"
    using Cons.IH [OF _ _ nbs lens] Cons.prems(1,2) by auto
  have up: "(done @ None # replicate (length vs) None)[?i := Some x] = (done @ [Some x]) @ replicate (length vs) None"
    by simp
  have "read_fields [] nl lens ?i k (tpl # tpls) ?bys (done @ None # replicate (length vs) None) =
      read_fields [] nl lens (Suc ?i) (if ?fix then k else Suc k) tpls (concat (map field_bytes vs) @ rest)
        ((done @ [Some x]) @ replicate (length vs) None)"
    unfolding read_fields.simps Let_def flen using x(1) dr up by (simp add: nth_append)
  then show ?case
    using rs x(2) by (intro exI [of _ "x # rs"]) simp
qed

section \<open>The value area\<close>

lemma patch_append:
  "n = length a \<Longrightarrow> patch n xs (a @ b) = a @ xs @ drop (length xs) b"
  by (simp add: patch_def)

lemma patch_patch:
  "s + length xs + length ys \<le> length b \<Longrightarrow> patch (s + length xs) ys (patch s xs b) = patch s (xs @ ys) b"
  using patch_append [of "s + length xs" "take s b @ xs" ys "drop (s + length xs) b"]
  by (simp add: patch_def ac_simps)

definition value_len :: "TreeInfo \<Rightarrow> DataValue list \<Rightarrow> nat" where
  "value_len ti vs = null_bytes (length vs) + unat (ti_valVarLen ti) + sum_list (map (\<lambda>v. unat (field_len v)) vs)"

text \<open>The tree keeps four bytes for every field of variable length.\<close>

definition tree_ok :: "TreeInfo \<Rightarrow> bool" where
  "tree_ok ti \<longleftrightarrow> ti_indexType ti = PRIMARY \<and> list_all dv_IsNull (ti_vctValue ti) \<and>
     unat (ti_valVarLen ti) = 4 * length (filter (\<lambda>v. \<not> IsFixLength (dv_type v)) (ti_vctValue ti))"

definition row_ok :: "TreeInfo \<Rightarrow> DataValue list \<Rightarrow> bool" where
  "row_ok ti vs \<longleftrightarrow> list_all field_ok vs \<and> list_all2 field_like (ti_vctValue ti) vs"

lemma row_var_count:
  assumes "list_all2 field_like tpls vs"
  shows "length (filter (\<lambda>v. \<not> IsFixLength (dv_type v)) tpls) = length (filter (\<lambda>v. \<not> IsFixLength (dv_type v)) vs)"
  using assms by (induction rule: list_all2_induct) (simp_all add: field_like_type)

lemma length_fields: "list_all field_ok vs \<Longrightarrow> length (concat (map field_bytes vs)) = sum_list (map (\<lambda>v. unat (field_len v)) vs)"
  by (induction vs) (simp_all add: field_write)

lemma null_bytes_bound: "n \<le> 8 * null_bytes n"
  unfolding null_bytes_def by presburger

lemma row_lens: "tree_ok ti \<Longrightarrow> row_ok ti vs \<Longrightarrow> length (var_lens vs) = unat (ti_valVarLen ti)"
  by (simp add: tree_ok_def row_ok_def length_var_lens row_var_count [symmetric])

lemma FillValueBuff_eq:
  assumes "tree_ok ti" "row_ok ti vs" "start + value_len ti vs \<le> length b"
  shows "\<exists>nl. FillValueBuff start (ti_valVarLen ti) vs b =
      Some (patch start (nl @ var_lens vs @ concat (map field_bytes vs)) b) \<and>
    length nl = null_bytes (length vs) \<and> (\<forall>j<length vs. null_bit j nl \<longleftrightarrow> dv_IsNull (vs ! j))"
proof -
  let ?n = "length vs" and ?d = "concat (map field_bytes vs)"
  have ok: "list_all field_ok vs" using assms(2) by (simp add: row_ok_def)
  obtain nl where nl: "fill_fields 0 vs (replicate (null_bytes ?n) 0) = Some (nl, var_lens vs, ?d)"
      "length nl = null_bytes ?n"
      "\<forall>j. null_bit j nl \<longleftrightarrow> null_bit j (replicate (null_bytes ?n) 0) \<or> 0 \<le> j \<and> j < 0 + ?n \<and> dv_IsNull (vs ! (j - 0))"
    using fill_fields_eq [OF ok, of 0 "replicate (null_bytes ?n) 0"] null_bytes_bound [of ?n] by auto
  have "\<not> null_bit j (replicate (null_bytes ?n) 0)" if "j < ?n" for j
    using that null_bytes_bound [of ?n] by (intro null_bit_replicate) (simp add: div_less_iff_less_mult)
  with nl(3) have bits: "\<forall>j<?n. null_bit j nl \<longleftrightarrow> dv_IsNull (vs ! j)" by simp
  have len: "length (var_lens vs) = unat (ti_valVarLen ti)" by (rule row_lens [OF assms(1,2)])
  have fit: "start + length nl + length (var_lens vs) + length ?d \<le> length b"
    using assms(3) nl(2) len length_fields [OF ok] by (simp add: value_len_def)
  have "patch (start + length nl + length (var_lens vs)) ?d (patch (start + length nl) (var_lens vs) (patch start nl b)) =
      patch start (nl @ var_lens vs @ ?d) b"
    using fit patch_patch [of start nl "var_lens vs" b] patch_patch [of start "nl @ var_lens vs" ?d b]
    by (simp add: add.assoc)
  then show ?thesis
    using nl(1,2) bits len fit
    by (intro exI [of _ nl]) (simp add: FillValueBuff_def ReadValueStruct_def Let_def)
qed

lemma read_values_eq:
  assumes "tree_ok ti" "row_ok ti vs" "length nl = null_bytes (length vs)"
    and "\<forall>j<length vs. null_bit j nl \<longleftrightarrow> dv_IsNull (vs ! j)"
  shows "\<exists>rs. read_values [] ti (nl @ var_lens vs @ concat (map field_bytes vs) @ rest) stamp = Some (map Some rs) \<and>
    list_all2 (\<lambda>r v. field_content r = field_content v) rs vs"
proof -
  let ?area = "nl @ var_lens vs @ concat (map field_bytes vs) @ rest"
  have n: "length (ti_vctValue ti) = length vs" using assms(2) list_all2_lengthD by (auto simp: row_ok_def)
  have bits: "null_bit j ?area \<longleftrightarrow> dv_IsNull (vs ! j)" if "j < length vs" for j
  proof -
    have "j div 8 < length nl"
      using that assms(3) null_bytes_bound [of "length vs"] by (simp add: div_less_iff_less_mult)
    then have "null_bit j ?area \<longleftrightarrow> null_bit j nl" by (simp add: null_bit_def nth_append)
    then show ?thesis using assms(4) that by simp
  qed
  obtain rs where "read_fields [] ?area (var_lens vs @ concat (map field_bytes vs) @ rest) (length ([] :: DataValue option list)) 0
      (ti_vctValue ti) (concat (map field_bytes vs) @ rest) ([] @ replicate (length vs) None) = Some ([] @ map Some rs)"
      "list_all2 (\<lambda>r v. field_content r = field_content v) rs vs"
    using read_fields_eq [of "ti_vctValue ti" vs "[]" ?area 0 "var_lens vs @ concat (map field_bytes vs) @ rest"
        "concat (map field_bytes vs) @ rest" rest] assms(1,2) bits by (auto simp: row_ok_def tree_ok_def)
  then show ?thesis
    using n assms(3) row_lens [OF assms(1,2)]
    by (intro exI [of _ rs]) (simp add: read_values_def ReadValueStruct_def Let_def)
qed

section \<open>The header\<close>

definition header_image :: "u16 \<Rightarrow> u16 \<Rightarrow> buf \<Rightarrow> byte \<Rightarrow> u64 \<Rightarrow> u32 \<Rightarrow> buf" where
  "header_image tot lk key ver stamp vlen = store tot @ store lk @ key @ [ver] @ store stamp @ store vlen"

definition version_byte :: "bool \<Rightarrow> ActionType \<Rightarrow> byte" where
  "version_byte ov type = (if ov then REC_OVERFLOW_BIT else 0) + (if type = DELETE then REC_DELETE_BIT else 0) + 1"

lemma ucast_u16_u32 [simp]: "(ucast (ucast (w :: u16) :: u32) :: u16) = w"
  by (rule bit_word_eqI) (simp add: bit_simps)

lemma RecStruct_init_simps [simp]:
  "rs_totalLen (RecStruct_init lk ov) = 0" "rs_keyLen (RecStruct_init lk ov) = 2" "rs_bysKey (RecStruct_init lk ov) = 4"
  "rs_byVerFlow (RecStruct_init lk ov) = 4 + unat lk" "rs_arrStamp (RecStruct_init lk ov) = 5 + unat lk"
  "rs_arrValLen (RecStruct_init lk ov) = 13 + unat lk"
  "rs_arrCrc32 (RecStruct_init lk ov) = (if ov then Some (17 + unat lk) else None)"
  "rs_pidStart (RecStruct_init lk ov) = (if ov then Some (21 + unat lk) else None)"
  "rs_pageNum (RecStruct_init lk ov) = (if ov then Some (25 + unat lk) else None)"
  "rs_bysValStart (RecStruct_init lk ov) = (if ov then None else Some (17 + unat lk))"
  "header_end (RecStruct_init lk ov) = (if ov then 27 else 17) + unat lk"
  by (simp_all add: RecStruct_init_def header_end_def Let_def)

lemma header_filled:
  assumes "unat lenKey \<le> length key" "17 + unat lenKey \<le> length b0"
  shows "copy_to (rs_bysKey (RecStruct_init lenKey ov))
      (FillHeaderBuff (RecStruct_init lenKey ov) (ucast tot) (ucast lenKey) 1 stamp vlen type b0) key (ucast lenKey) =
    header_image tot lenKey (take (unat lenKey) key) (version_byte ov type) stamp vlen @ drop (17 + unat lenKey) b0"
proof -
  let ?K = "unat lenKey" and ?v = "version_byte ov type"
  let ?k = "take ?K (drop 4 b0)"
  have kl: "length ?k = ?K" using assms(2) by simp
  have h1: "wr 2 lenKey (wr 0 tot b0) = store tot @ store lenKey @ drop 4 b0"
    using assms(2) by (simp add: wr_def patch_def)
  have "(drop 4 b0)[?K := ?v] = ?k @ ?v # drop (5 + ?K) b0"
    using assms(2) by (subst upd_conv_take_nth_drop) (simp_all add: add.commute)
  then have h2: "(store tot @ store lenKey @ drop 4 b0)[4 + ?K := ?v] =
      (store tot @ store lenKey @ ?k @ [?v]) @ drop (5 + ?K) b0"
    using kl by (simp add: list_update_append)
  have h3: "wr (5 + ?K) stamp ((store tot @ store lenKey @ ?k @ [?v]) @ drop (5 + ?K) b0) =
      (store tot @ store lenKey @ ?k @ [?v] @ store stamp) @ drop (13 + ?K) b0"
    using kl by (simp add: wr_def patch_append del: append_assoc)
  have h4: "wr (13 + ?K) vlen ((store tot @ store lenKey @ ?k @ [?v] @ store stamp) @ drop (13 + ?K) b0) =
      (store tot @ store lenKey) @ ?k @ [?v] @ store stamp @ store vlen @ drop (17 + ?K) b0"
    using kl by (simp add: wr_def patch_append del: append_assoc)
  have f: "FillHeaderBuff (RecStruct_init lenKey ov) (ucast tot) (ucast lenKey) 1 stamp vlen type b0 =
      (store tot @ store lenKey) @ ?k @ [?v] @ store stamp @ store vlen @ drop (17 + ?K) b0"
    unfolding FillHeaderBuff_def RecStruct_init_simps ucast_u16_u32 h1
    using h2 h3 h4 by (cases ov) (simp_all add: version_byte_def del: append_assoc)
  show ?thesis
    unfolding f using assms kl patch_append [of 4 "store tot @ store lenKey" "take ?K key"]
    by (simp add: copy_to_patch header_image_def)
qed

end
