(* ===== verification/Leaf_Rows.thy ===== *)
theory Leaf_Rows
  imports Leaf_Fields
begin

text \<open>
  Rows of a primary index: the record that the constructor of \<open>LeafRecord\<close> builds from the fields of a
  row, in the page or with an overflow page, and what \<open>ReadListValue\<close> reads from it.
\<close>


section \<open>Lengths\<close>

lemma ucast_of_nat_small: "N < 2 ^ 32 \<Longrightarrow> (ucast (of_nat N :: u32) :: u16) = of_nat N"
  by (simp add: unsigned_of_nat take_bit_nat_eq_self)

lemma sum_lengths_VALUE:
  "sum_lengths VALUE acc vs = Some (acc + of_nat (sum_list (map (\<lambda>v. unat (field_len v)) vs)))"
  by (induction vs arbitrary: acc) (simp_all add: dv_GetPersistenceLength_VALUE ac_simps)

lemma CalcValueLength_eq: "type \<noteq> DELETE \<Longrightarrow> CalcValueLength ti vs type = Some (of_nat (value_len ti vs))"
  by (simp add: CalcValueLength_def sum_lengths_VALUE value_len_def)

fun key_field_ok :: "DataValue \<Rightarrow> bool" where
  "key_field_ok (DV_Digit d) = digit_type (dg_type d)"
| "key_field_ok (DV_FixChar c) = (ch_valType c = NULL_VALUE \<or> length (ch_bysValue c) = unat (ch_maxLength c))"
| "key_field_ok (DV_VarChar c) = (ch_valType c = NULL_VALUE \<or>
     ch_soleLength c \<le> ch_maxLength c \<and> unat (ch_soleLength c) \<le> length (ch_bysValue c))"
| "key_field_ok (DV_Blob c) = False"

lemma unat_succ_less:
  fixes a b :: "'a::len word"
  assumes "a < b"
  shows "unat (a + 1) = Suc (unat a)"
proof -
  have "unat b < 2 ^ LENGTH('a)" by (rule unsigned_less)
  moreover have "unat a < unat b" using assms by (simp add: word_less_nat_alt)
  ultimately have "Suc (unat a) < 2 ^ LENGTH('a)" by linarith
  then show ?thesis by (simp add: unat_word_ariths)
qed

lemma key_field:
  assumes "key_field_ok v"
  shows "\<exists>b n. dv_WriteData v KEY = Some (b, n) \<and> dv_GetPersistenceLength v KEY = Some n \<and> length b = unat n"
proof (cases v)
  case (DV_Digit d)
  then show ?thesis
    by (simp add: Digit_WriteData_def Digit_GetPersistenceLength_def Let_def length_DigitalToBytes unat_sizeof)
next
  case (DV_FixChar c)
  then show ?thesis using assms
    by (auto simp: FixChar_WriteData_def FixChar_GetPersistenceLength_def Let_def)
next
  case (DV_VarChar c)
  then show ?thesis using assms
    by (auto simp: VarChar_WriteData_def VarChar_GetPersistenceLength_def Let_def unat_succ_less)
qed (use assms in simp)

lemma FillKeyBuff_length:
  assumes "list_all key_field_ok vs"
  shows "\<exists>key. FillKeyBuff vs = Some key \<and> sum_lengths KEY acc vs = Some (acc + of_nat (length key))"
  using assms
proof (induction vs arbitrary: acc)
  case (Cons v vs)
  obtain b n where w: "dv_WriteData v KEY = Some (b, n)" "dv_GetPersistenceLength v KEY = Some n" "length b = unat n"
    using key_field [of v] Cons.prems by auto
  obtain key where "FillKeyBuff vs = Some key" "sum_lengths KEY (acc + n) vs = Some (acc + n + of_nat (length key))"
    using Cons by auto
  then show ?case using w by (simp add: add.assoc)
qed simp

lemma CalcKeyLength_eq:
  assumes "list_all key_field_ok vctKey" "FillKeyBuff vctKey = Some key" "length key \<le> MAX_KEY_LENGTH"
  shows "CalcKeyLength vctKey = Some (of_nat (length key))"
proof -
  have "sum_lengths KEY 0 vctKey = Some (of_nat (length key))"
    using FillKeyBuff_length [OF assms(1), of 0] assms(2) by auto
  moreover have "unat (of_nat (length key) :: u32) = length key"
    using assms(3) by (simp add: unat_of_nat MAX_KEY_LENGTH_def)
  ultimately show ?thesis
    using assms(3) by (simp add: CalcKeyLength_def ucast_of_nat_small MAX_KEY_LENGTH_def)
qed

section \<open>Records in a page\<close>

lemma max_lenVal_eq: "unat lenKey \<le> MAX_KEY_LENGTH \<Longrightarrow> unat (max_lenVal lenKey) = 8163 - unat lenKey"
proof -
  assume k: "unat lenKey \<le> MAX_KEY_LENGTH"
  have "max_lenVal lenKey = of_nat (8163 - unat lenKey)"
    using k by (simp add: max_lenVal_def MAX_RECORD_LENGTH_def MAX_KEY_LENGTH_def of_nat_diff)
  then show ?thesis by (simp add: unat_of_nat)
qed

lemma of_nat_gt_max:
  assumes "unat lenKey \<le> MAX_KEY_LENGTH" "N < 2 ^ 32"
  shows "(of_nat N :: u32) > max_lenVal lenKey \<longleftrightarrow> N + unat lenKey > 8163"
proof -
  have "unat (of_nat N :: u32) = N" using assms(2) by (simp add: unat_of_nat)
  then have "(of_nat N :: u32) > max_lenVal lenKey \<longleftrightarrow> N > 8163 - unat lenKey"
    using max_lenVal_eq [OF assms(1)] by (simp add: word_less_nat_alt)
  then show ?thesis using assms(1) by (auto simp: MAX_KEY_LENGTH_def)
qed

text \<open>The bytes of the value of a row, with the bitmap \<open>nl\<close> of its null fields.\<close>

definition value_image :: "buf \<Rightarrow> DataValue list \<Rightarrow> buf" where
  "value_image nl vs = nl @ var_lens vs @ concat (map field_bytes vs)"

definition null_map :: "buf \<Rightarrow> DataValue list \<Rightarrow> bool" where
  "null_map nl vs \<longleftrightarrow> length nl = null_bytes (length vs) \<and> (\<forall>j<length vs. null_bit j nl \<longleftrightarrow> dv_IsNull (vs ! j))"

lemma length_value_image:
  "tree_ok ti \<Longrightarrow> row_ok ti vs \<Longrightarrow> null_map nl vs \<Longrightarrow> length (value_image nl vs) = value_len ti vs"
  by (simp add: value_image_def null_map_def value_len_def row_lens length_fields row_ok_def)

lemma FillValueBuff_image:
  assumes "tree_ok ti" "row_ok ti vs" "start + value_len ti vs \<le> length b"
  shows "\<exists>nl. FillValueBuff start (ti_valVarLen ti) vs b = Some (patch start (value_image nl vs) b) \<and> null_map nl vs"
  using FillValueBuff_eq [OF assms] by (auto simp: value_image_def null_map_def)

lemma length_header_image: "length key = unat lk \<Longrightarrow> length (header_image tot lk key ver stamp vlen) = 17 + unat lk"
  by (simp add: header_image_def)

lemma fill_record_plain:
  assumes "tree_ok ti" "row_ok ti vs" "alloc_ok alloc" "unat lenKey \<le> length key" "type \<noteq> DELETE"
    and "value_len ti vs + unat lenKey \<le> 8163"
  shows "\<exists>nl. fill_record crc alloc ti (of_nat (17 + unat lenKey + value_len ti vs)) lenKey key stamp
      (of_nat (value_len ti vs)) type vs None =
    Some (header_image (of_nat (17 + unat lenKey + value_len ti vs)) lenKey (take (unat lenKey) key) 1 stamp
      (of_nat (value_len ti vs)) @ value_image nl vs, None) \<and> null_map nl vs"
proof -
  let ?N = "value_len ti vs" and ?K = "unat lenKey"
  let ?tot = "of_nat (17 + ?K + ?N) :: u16"
  have ut: "unat ?tot = 17 + ?K + ?N" using assms(6) by (simp only: unat_of_nat) simp
  let ?b0 = "alloc (unat ?tot)"
  have l0: "length ?b0 = 17 + ?K + ?N" using assms(3) ut by simp
  let ?h = "header_image ?tot lenKey (take ?K key) 1 stamp (of_nat ?N)"
  have hl: "length ?h = 17 + ?K" using assms(4) by (simp add: length_header_image)
  have hdr: "copy_to 4 (FillHeaderBuff (RecStruct_init lenKey False) (ucast ?tot) (ucast lenKey) 1 stamp (of_nat ?N) type ?b0)
      key (ucast lenKey) = ?h @ drop (17 + ?K) ?b0"
    using header_filled [of lenKey key ?b0 False ?tot stamp "of_nat ?N" type] assms(4,5) l0
    by (simp add: version_byte_def)
  obtain nl where nl: "FillValueBuff (17 + ?K) (ti_valVarLen ti) vs (?h @ drop (17 + ?K) ?b0) =
      Some (patch (17 + ?K) (value_image nl vs) (?h @ drop (17 + ?K) ?b0))" "null_map nl vs"
    using FillValueBuff_image [OF assms(1,2), of "17 + ?K" "?h @ drop (17 + ?K) ?b0"] hl l0 by auto
  have "patch (17 + ?K) (value_image nl vs) (?h @ drop (17 + ?K) ?b0) = ?h @ value_image nl vs"
    using hl l0 length_value_image [OF assms(1,2) nl(2)] by (simp add: patch_append)
  then show ?thesis
    using nl hdr l0 assms(5) by (intro exI [of _ nl]) (simp add: fill_record_def Let_def)
qed

lemma plain_total:
  assumes "value_len ti vs + unat lenKey \<le> 8163"
  shows "of_nat UI16_2_LEN + lenKey + 13 + ucast (of_nat (value_len ti vs) :: u32) =
    (of_nat (17 + unat lenKey + value_len ti vs) :: u16)"
  using assms by (simp add: ucast_of_nat_small)

lemma primary_record_plain:
  assumes "tree_ok ti" "row_ok ti vs" "alloc_ok alloc" "unat lenKey \<le> length key" "unat lenKey \<le> MAX_KEY_LENGTH"
    and "value_len ti vs + unat lenKey \<le> 8163"
  shows "\<exists>nl. primary_record crc alloc pid ti lenKey key vs stamp lock =
      Some (LeafRecord (leaf_raw PRIMARY
        (header_image (of_nat (17 + unat lenKey + value_len ti vs)) lenKey (take (unat lenKey) key) 1 stamp
           (of_nat (value_len ti vs)) @ value_image nl vs) True False) lock None, None) \<and> null_map nl vs"
  using fill_record_plain [OF assms(1-4) _ assms(6), of INSERT crc stamp] plain_total [OF assms(6)]
    of_nat_gt_max [OF assms(5), of "value_len ti vs"] assms(1,6)
  by (auto simp: primary_record_def CalcValueLength_eq Let_def tree_ok_def)

section \<open>Records with an overflow page\<close>

lemma overflow_pages_eq:
  assumes "0 < N" "N \<le> INDEX_PAGE_SIZE * 65535"
  shows "unat (overflow_pages (of_nat N)) = (N + INDEX_PAGE_SIZE - 1) div INDEX_PAGE_SIZE"
    and "N \<le> INDEX_PAGE_SIZE * unat (overflow_pages (of_nat N))"
proof -
  let ?q = "(N + 16383) div 16384"
  have q: "?q < 65536" using assms(2) by (simp add: INDEX_PAGE_SIZE_def)
  have e: "(of_nat N + of_nat INDEX_PAGE_SIZE - 1 :: u32) = of_nat (N + 16383)"
    by (simp add: INDEX_PAGE_SIZE_def)
  have c: "unat (of_nat INDEX_PAGE_SIZE :: u32) = 16384" by (simp add: INDEX_PAGE_SIZE_def)
  have "unat (of_nat (N + 16383) :: u32) = N + 16383"
    using assms(2) by (simp only: unat_of_nat) (simp add: INDEX_PAGE_SIZE_def)
  then have "unat ((of_nat N + of_nat INDEX_PAGE_SIZE - 1 :: u32) div of_nat INDEX_PAGE_SIZE) = ?q"
    unfolding unat_div e c by simp
  then have u: "unat (overflow_pages (of_nat N)) = ?q"
    using q by (simp add: overflow_pages_def unsigned_ucast_eq take_bit_nat_eq_self)
  then show "unat (overflow_pages (of_nat N)) = (N + INDEX_PAGE_SIZE - 1) div INDEX_PAGE_SIZE"
    by (simp add: INDEX_PAGE_SIZE_def)
  show "N \<le> INDEX_PAGE_SIZE * unat (overflow_pages (of_nat N))"
    unfolding u INDEX_PAGE_SIZE_def
    using mult_div_mod_eq [of 16384 "N + 16383"] mod_less_divisor [of 16384 "N + 16383"] by linarith
qed

lemma reference_written:
  fixes c pid :: u32 and num :: u16
  assumes "length h = n" "length rest = 20"
  shows "wr n c (wr (8 + n) num (wr (4 + n) pid (h @ rest))) = h @ store c @ store pid @ store num @ drop 10 rest"
proof -
  define p where "p = take 4 rest" define q where "q = take 4 (drop 4 rest)"
  define r where "r = take 2 (drop 8 rest)" define z where "z = drop 10 rest"
  have "drop 8 rest = r @ z" using append_take_drop_id [of 2 "drop 8 rest"] by (simp add: r_def z_def)
  moreover have "drop 4 rest = q @ drop 8 rest" using append_take_drop_id [of 4 "drop 4 rest"] by (simp add: q_def)
  moreover have "rest = p @ drop 4 rest" by (simp add: p_def)
  ultimately have rest: "rest = p @ q @ r @ z" "length p = 4" "length q = 4" "length r = 2"
    using assms(2) by (simp_all add: p_def q_def r_def)
  have 1: "wr (4 + n) pid (h @ rest) = h @ p @ store pid @ r @ z"
    using patch_append [of "4 + n" "h @ p" "store pid" "q @ r @ z"] assms(1) rest by (simp add: wr_def)
  have 2: "wr (8 + n) num (h @ p @ store pid @ r @ z) = h @ p @ store pid @ store num @ z"
    using patch_append [of "8 + n" "h @ p @ store pid" "store num" "r @ z"] assms(1) rest by (simp add: wr_def)
  have 3: "wr n c (h @ p @ store pid @ store num @ z) = h @ store c @ store pid @ store num @ z"
    using patch_append [of n h "store c" "p @ store pid @ store num @ z"] assms(1) rest by (simp add: wr_def)
  show ?thesis unfolding 1 2 3 using rest by simp
qed

lemma primary_record_overflow:
  assumes "tree_ok ti" "row_ok ti vs" "alloc_ok alloc" "unat lenKey \<le> length key" "unat lenKey \<le> MAX_KEY_LENGTH"
    and "value_len ti vs + unat lenKey > 8163" "value_len ti vs \<le> INDEX_PAGE_SIZE * 65535"
  shows "\<exists>nl rest page. primary_record crc alloc pid ti lenKey key vs stamp lock =
      Some (LeafRecord (leaf_raw PRIMARY
        (header_image (of_nat (37 + unat lenKey)) lenKey (take (unat lenKey) key) 0x81 stamp (of_nat (value_len ti vs)) @
           store (crc (value_image nl vs)) @ store pid @ store (overflow_pages (of_nat (value_len ti vs))) @ rest) True False)
        lock (Some \<lparr>op_pageId = pid, op_pageNum = overflow_pages (of_nat (value_len ti vs)),
                op_bysPage = value_image nl vs @ page, op_bDirty = True\<rparr>), None) \<and>
      null_map nl vs \<and> length rest = 10"
proof -
  let ?N = "value_len ti vs" and ?K = "unat lenKey"
  let ?tot = "of_nat (37 + ?K) :: u16" and ?num = "overflow_pages (of_nat ?N)"
  have pos: "0 < ?N" using assms(5,6) by (simp add: MAX_KEY_LENGTH_def)
  have big: "?N < 2 ^ 32" using assms(7) by (simp add: INDEX_PAGE_SIZE_def)
  have over: "(of_nat ?N :: u32) > max_lenVal lenKey"
    using of_nat_gt_max [OF assms(5) big] assms(6) by simp
  have tot: "of_nat UI16_2_LEN + lenKey + 23 + 10 = ?tot" by simp
  have ut: "unat ?tot = 37 + ?K" using assms(5) by (simp only: unat_of_nat) (simp add: MAX_KEY_LENGTH_def)
  let ?b0 = "alloc (unat ?tot)" and ?page = "alloc (INDEX_PAGE_SIZE * unat ?num)"
  have l0: "length ?b0 = 37 + ?K" using assms(3) ut by simp
  let ?h = "header_image ?tot lenKey (take ?K key) 0x81 stamp (of_nat ?N)"
  have hl: "length ?h = 17 + ?K" using assms(4) by (simp add: length_header_image)
  have hdr: "copy_to 4 (FillHeaderBuff (RecStruct_init lenKey True) (ucast ?tot) (ucast lenKey) 1 stamp (of_nat ?N) INSERT ?b0)
      key (ucast lenKey) = ?h @ drop (17 + ?K) ?b0"
    using header_filled [of lenKey key ?b0 True ?tot stamp "of_nat ?N" INSERT] assms(4) l0
    by (simp add: version_byte_def REC_OVERFLOW_BIT_def)
  obtain nl where nl: "FillValueBuff 0 (ti_valVarLen ti) vs ?page = Some (patch 0 (value_image nl vs) ?page)" "null_map nl vs"
    using FillValueBuff_image [OF assms(1,2), of 0 ?page] overflow_pages_eq(2) [OF pos assms(7)] assms(3) by auto
  have lv: "length (value_image nl vs) = ?N" by (rule length_value_image [OF assms(1,2) nl(2)])
  have un: "unat (of_nat ?N :: u32) = ?N" using big by (simp add: unat_of_nat)
  have pg: "patch 0 (value_image nl vs) ?page = value_image nl vs @ drop ?N ?page"
    using lv by (simp add: patch_def)
  have ref: "wr (17 + ?K) (crc (value_image nl vs)) (wr (25 + ?K) ?num (wr (21 + ?K) pid (?h @ drop (17 + ?K) ?b0))) =
      ?h @ store (crc (value_image nl vs)) @ store pid @ store ?num @ drop 10 (drop (17 + ?K) ?b0)"
    using reference_written [of ?h "17 + ?K" "drop (17 + ?K) ?b0" "crc (value_image nl vs)" ?num pid] hl l0 by simp
  have "fill_record crc alloc ti ?tot lenKey key stamp (of_nat ?N) INSERT vs (Some (OverflowPage_new alloc pid ?num)) =
      Some (?h @ store (crc (value_image nl vs)) @ store pid @ store ?num @ drop 10 (drop (17 + ?K) ?b0),
            Some ((OverflowPage_new alloc pid ?num)\<lparr>op_bysPage := value_image nl vs @ drop ?N ?page\<rparr>))"
    using nl(1) hdr l0 pg ref lv un by (simp add: fill_record_def Let_def OverflowPage_new_def)
  then show ?thesis
    using nl(2) over tot assms(1) l0
    by (intro exI [of _ nl] exI [of _ "drop 10 (drop (17 + ?K) ?b0)"] exI [of _ "drop ?N ?page"])
      (simp add: primary_record_def CalcValueLength_eq Let_def tree_ok_def OverflowPage_new_def)
qed

section \<open>Reading a row\<close>

lemma header_image_simps:
  assumes "length key = unat lk"
  shows "rd 0 (header_image tot lk key ver stamp vlen @ xs) = tot"
    and "rd 2 (header_image tot lk key ver stamp vlen @ xs) = lk"
    and "take (unat lk) (drop 4 (header_image tot lk key ver stamp vlen @ xs)) = key"
    and "(header_image tot lk key ver stamp vlen @ xs) ! (4 + unat lk) = ver"
    and "rd (5 + unat lk) (header_image tot lk key ver stamp vlen @ xs) = stamp"
    and "drop (17 + unat lk) (header_image tot lk key ver stamp vlen @ xs) = xs"
proof -
  show "rd 0 (header_image tot lk key ver stamp vlen @ xs) = tot"
    and "rd 2 (header_image tot lk key ver stamp vlen @ xs) = lk"
    and "take (unat lk) (drop 4 (header_image tot lk key ver stamp vlen @ xs)) = key"
    and "drop (17 + unat lk) (header_image tot lk key ver stamp vlen @ xs) = xs"
    using assms by (simp_all add: header_image_def)
  show "(header_image tot lk key ver stamp vlen @ xs) ! (4 + unat lk) = ver"
    using assms by (simp add: header_image_def nth_append)
  have "header_image tot lk key ver stamp vlen @ xs = (store tot @ store lk @ key @ [ver]) @ store stamp @ store vlen @ xs"
    by (simp add: header_image_def)
  moreover have "drop (5 + unat lk) ((store tot @ store lk @ key @ [ver]) @ store stamp @ store vlen @ xs) =
      store stamp @ store vlen @ xs"
    using assms by (subst drop_append) simp
  ultimately show "rd (5 + unat lk) (header_image tot lk key ver stamp vlen @ xs) = stamp"
    by (simp only: rd_def) (simp add: load_store)
qed

lemma header_load:
  "length key = unat lk \<Longrightarrow> RecStruct_load (header_image tot lk key ver stamp vlen @ xs) =
     RecStruct_init lk (ver AND REC_OVERFLOW_BIT \<noteq> 0)"
  by (simp add: RecStruct_load_def header_image_simps Let_def)

lemma read_unlocked:
  assumes "lr_recLock lr = None" "rr_indexType (lr_raw lr) = PRIMARY" "\<not> lr_bDelete lr"
    and "rs_pidStart (RecStruct_load (rr_bysVal (lr_raw lr))) = None \<or> lr_overflowPage lr \<noteq> None"
    and "value_area lr = Some area"
    and "read_values mapPos ti area (rd (rs_arrStamp (RecStruct_load (rr_bysVal (lr_raw lr)))) (rr_bysVal (lr_raw lr))) = Some vals"
  shows "ReadListValue ti mapPos lr st NO_ACTION g = Some (lr, OK_NOLOCK, vals)"
proof -
  have m: "\<not> masked NO_ACTION READ_LOCK_MASK" by (simp add: masked_def READ_LOCK_MASK_def)
  have "ReadListValue_lock lr st NO_ACTION g = Some (lr, Inr (lr, False))"
    using assms(1-3) m
    by (simp add: ReadListValue_lock_def ReleaseLockAble_def ReadListValue_check_def ReadListValue_add_def)
  then show ?thesis using assms(4-6) by (auto simp: ReadListValue_def Let_def)
qed

lemma row_reads:
  assumes "tree_ok ti" "row_ok ti vs" "null_map nl vs" "length key = unat lk"
    and b: "b = header_image tot lk key ver stamp vlen @ xs"
    and place: "if ver AND REC_OVERFLOW_BIT = 0 then xs = value_image nl vs @ page
      else map_option op_bysPage ovp = Some (value_image nl vs @ page)"
  shows "\<exists>rs. (\<forall>st g. ReadListValue ti [] (LeafRecord (leaf_raw PRIMARY b True False) None ovp) st NO_ACTION g =
      Some (LeafRecord (leaf_raw PRIMARY b True False) None ovp, OK_NOLOCK, map Some rs)) \<and>
    list_all2 (\<lambda>r v. field_content r = field_content v) rs vs"
proof -
  let ?lr = "LeafRecord (leaf_raw PRIMARY b True False) None ovp" and ?ov = "ver AND REC_OVERFLOW_BIT \<noteq> 0"
  obtain rs where rs: "read_values [] ti (value_image nl vs @ page) stamp = Some (map Some rs)"
      "list_all2 (\<lambda>r v. field_content r = field_content v) rs vs"
    using read_values_eq [OF assms(1,2), of nl page stamp] assms(3) by (auto simp: null_map_def value_image_def)
  have ld: "RecStruct_load b = RecStruct_init lk ?ov"
    using header_load [OF assms(4)] by (simp add: b)
  have bys: "rr_bysVal (leaf_raw PRIMARY b True False) = b" by (simp add: leaf_raw_def)
  have area: "value_area ?lr = Some (value_image nl vs @ page)"
  proof (cases ?ov)
    case True
    then show ?thesis using place by (simp add: value_area_def bys ld)
  next
    case False
    then show ?thesis
      unfolding value_area_def LeafRecord.sel bys ld using place b header_image_simps(6) [OF assms(4)]
      by (simp del: drop_append)
  qed
  have st: "rd (rs_arrStamp (RecStruct_load (rr_bysVal (leaf_raw PRIMARY b True False))))
      (rr_bysVal (leaf_raw PRIMARY b True False)) = stamp"
    unfolding bys ld RecStruct_init_simps unfolding b by (rule header_image_simps(5) [OF assms(4)])
  have "rs_pidStart (RecStruct_load (rr_bysVal (leaf_raw PRIMARY b True False))) = None \<or> ovp \<noteq> None"
    unfolding bys ld using place by (auto split: if_splits)
  then have "ReadListValue ti [] ?lr st NO_ACTION g = Some (?lr, OK_NOLOCK, map Some rs)" for st g
    using area rs(1) st by (intro read_unlocked) (simp_all add: leaf_raw_def)
  with rs(2) show ?thesis by blast
qed

lemma row_header:
  assumes "length key = unat lk" "length xs + 17 + unat lk = unat tot"
  shows "rec_key (leaf_raw PRIMARY (header_image tot lk key ver stamp vlen @ xs) True False) = key"
    and "GetTotalLength (leaf_raw PRIMARY (header_image tot lk key ver stamp vlen @ xs) True False) = tot"
    and "length (rr_bysVal (leaf_raw PRIMARY (header_image tot lk key ver stamp vlen @ xs) True False)) = unat tot"
  using header_image_simps [OF assms(1)] assms length_header_image [OF assms(1)]
  by (simp_all add: rec_key_def GetKeyLength_def GetTotalLength_def leaf_raw_def)

lemma primary_plain_reads:
  assumes "tree_ok ti" "row_ok ti vs" "alloc_ok alloc" "length key \<le> MAX_KEY_LENGTH" "unat lk = length key"
    and "value_len ti vs + length key \<le> 8163"
  shows "\<exists>lr rs. primary_record crc alloc pid ti lk key vs stamp lock = Some (lr, None) \<and>
    rec_key (lr_raw lr) = key \<and> unat (GetTotalLength (lr_raw lr)) \<le> MAX_RECORD_LENGTH \<and>
    length (rr_bysVal (lr_raw lr)) = unat (GetTotalLength (lr_raw lr)) \<and>
    (lr_overflowPage lr \<noteq> None \<longleftrightarrow> value_len ti vs + length key > 8163) \<and>
    (\<forall>st g. ReadListValue ti [] (set_lock None lr) st NO_ACTION g = Some (set_lock None lr, OK_NOLOCK, map Some rs)) \<and>
    list_all2 (\<lambda>r v. field_content r = field_content v) rs vs"
proof -
  let ?N = "value_len ti vs"
  note lk = assms(5)
  have lk': "unat lk \<le> length key" "unat lk \<le> MAX_KEY_LENGTH" "length key = unat lk" using lk assms(4) by simp_all
  let ?tot = "of_nat (17 + length key + ?N) :: u16"
  obtain nl where nm: "null_map nl vs" and r: "primary_record crc alloc pid ti lk key vs stamp lock =
      Some (LeafRecord (leaf_raw PRIMARY (header_image ?tot lk key 1 stamp (of_nat ?N) @ value_image nl vs) True False)
        lock None, None)"
    using primary_record_plain [OF assms(1-3) lk'(1,2), of crc pid stamp lock] assms(6) lk by auto
  let ?b = "header_image ?tot lk key 1 stamp (of_nat ?N) @ value_image nl vs"
  have tot: "unat ?tot = 17 + length key + ?N" using assms(6) by (simp only: unat_of_nat) simp
  have pl: "if (1 :: byte) AND REC_OVERFLOW_BIT = 0 then value_image nl vs = value_image nl vs @ []
      else map_option op_bysPage None = Some (value_image nl vs @ [])" by (simp add: REC_OVERFLOW_BIT_def)
  obtain rs where rs: "\<forall>st g. ReadListValue ti [] (LeafRecord (leaf_raw PRIMARY ?b True False) None None) st NO_ACTION g =
      Some (LeafRecord (leaf_raw PRIMARY ?b True False) None None, OK_NOLOCK, map Some rs)"
      "list_all2 (\<lambda>r v. field_content r = field_content v) rs vs"
    using row_reads [OF assms(1,2) nm lk'(3) refl pl] by blast
  note hd = row_header [of key lk "value_image nl vs" ?tot 1 stamp "of_nat ?N"]
  have "length (value_image nl vs) + 17 + unat lk = unat ?tot"
    unfolding tot lk length_value_image [OF assms(1,2) nm] by simp
  note hd = hd [OF lk'(3) this]
  show ?thesis
    unfolding r using hd tot assms(6) rs
    by (intro exI [of _ "LeafRecord (leaf_raw PRIMARY ?b True False) lock None"] exI [of _ rs])
      (simp only: LeafRecord.sel set_lock_def MAX_RECORD_LENGTH_def, simp)
qed

lemma primary_overflow_reads:
  assumes "tree_ok ti" "row_ok ti vs" "alloc_ok alloc" "length key \<le> MAX_KEY_LENGTH" "unat lk = length key"
    and "\<not> value_len ti vs + length key \<le> 8163" "value_len ti vs \<le> INDEX_PAGE_SIZE * 65535"
  shows "\<exists>lr rs. primary_record crc alloc pid ti lk key vs stamp lock = Some (lr, None) \<and>
    rec_key (lr_raw lr) = key \<and> unat (GetTotalLength (lr_raw lr)) \<le> MAX_RECORD_LENGTH \<and>
    length (rr_bysVal (lr_raw lr)) = unat (GetTotalLength (lr_raw lr)) \<and>
    (lr_overflowPage lr \<noteq> None \<longleftrightarrow> value_len ti vs + length key > 8163) \<and>
    (\<forall>st g. ReadListValue ti [] (set_lock None lr) st NO_ACTION g = Some (set_lock None lr, OK_NOLOCK, map Some rs)) \<and>
    list_all2 (\<lambda>r v. field_content r = field_content v) rs vs"
proof -
  let ?N = "value_len ti vs"
  note lk = assms(5)
  have lk': "unat lk \<le> length key" "unat lk \<le> MAX_KEY_LENGTH" "length key = unat lk" using lk assms(4) by simp_all
  let ?tot = "of_nat (37 + length key) :: u16" and ?num = "overflow_pages (of_nat ?N)"
  obtain nl rest page where nm: "null_map nl vs" "length rest = 10" and r:
    "primary_record crc alloc pid ti lk key vs stamp lock =
      Some (LeafRecord (leaf_raw PRIMARY (header_image ?tot lk key 0x81 stamp (of_nat ?N) @
          store (crc (value_image nl vs)) @ store pid @ store ?num @ rest) True False) lock
        (Some \<lparr>op_pageId = pid, op_pageNum = ?num, op_bysPage = value_image nl vs @ page, op_bDirty = True\<rparr>), None)"
    using primary_record_overflow [OF assms(1-3) lk'(1,2) _ assms(7), of crc pid stamp lock] assms(6) lk by auto
  let ?xs = "store (crc (value_image nl vs)) @ store pid @ store ?num @ rest"
  let ?b = "header_image ?tot lk key 0x81 stamp (of_nat ?N) @ ?xs"
  let ?op = "\<lparr>op_pageId = pid, op_pageNum = ?num, op_bysPage = value_image nl vs @ page, op_bDirty = True\<rparr>"
  have tot: "unat ?tot = 37 + length key" using assms(4) by (simp only: unat_of_nat) (simp add: MAX_KEY_LENGTH_def)
  have pl: "if (0x81 :: byte) AND REC_OVERFLOW_BIT = 0 then ?xs = value_image nl vs @ page
      else map_option op_bysPage (Some ?op) = Some (value_image nl vs @ page)" by (simp add: REC_OVERFLOW_BIT_def)
  obtain rs where rs: "\<forall>st g. ReadListValue ti [] (LeafRecord (leaf_raw PRIMARY ?b True False) None (Some ?op)) st NO_ACTION g =
      Some (LeafRecord (leaf_raw PRIMARY ?b True False) None (Some ?op), OK_NOLOCK, map Some rs)"
      "list_all2 (\<lambda>r v. field_content r = field_content v) rs vs"
    using row_reads [OF assms(1,2) nm(1) lk'(3) refl pl] by blast
  note hd = row_header [of key lk ?xs ?tot "0x81" stamp "of_nat ?N"]
  have "length ?xs + 17 + unat lk = unat ?tot" unfolding tot lk using nm(2) by simp
  note hd = hd [OF lk'(3) this]
  show ?thesis
    unfolding r using hd tot assms(4,6) rs
    by (intro exI [of _ "LeafRecord (leaf_raw PRIMARY ?b True False) lock (Some ?op)"] exI [of _ rs])
      (simp only: LeafRecord.sel set_lock_def MAX_RECORD_LENGTH_def MAX_KEY_LENGTH_def, simp)
qed

text \<open>
  C2: a row that is inserted can be read back. For every row of the table's columns in which every \<open>VARCHAR\<close> and \<open>BLOB\<close> that
  is not null has at least one byte (an empty one reads back as null) and the fields have their columns' lengths, a key of at most
  \<open>MAX_KEY_LENGTH\<close> bytes made of numbers and texts, and a value of at most 65535 pages, the constructor builds a record with the key of
  the key fields that is not longer than a record may be and has an overflow page just when the row does not fit; once its lock is gone,
  \<open>ReadListValue\<close> gives all fields of the row back, null fields included, from the page or from the overflow page.
\<close>

theorem LeafRecord_insert_read:
  assumes "tree_ok ti" "row_ok ti vs" "alloc_ok alloc"
    and "list_all key_field_ok vctKey" "FillKeyBuff vctKey = Some key" "length key \<le> MAX_KEY_LENGTH"
    and "value_len ti vs \<le> INDEX_PAGE_SIZE * 65535"
  shows "\<exists>lr rs. LeafRecord_insert crc alloc pid ti vctKey vs stamp stmt = Some (lr, None) \<and>
    rec_key (lr_raw lr) = key \<and> unat (GetTotalLength (lr_raw lr)) \<le> MAX_RECORD_LENGTH \<and>
    length (rr_bysVal (lr_raw lr)) = unat (GetTotalLength (lr_raw lr)) \<and>
    (lr_overflowPage lr \<noteq> None \<longleftrightarrow> value_len ti vs + length key > 8163) \<and>
    (\<forall>st g. ReadListValue ti [] (set_lock None lr) st NO_ACTION g = Some (set_lock None lr, OK_NOLOCK, map Some rs)) \<and>
    list_all2 (\<lambda>r v. field_content r = field_content v) rs vs"
proof -
  let ?lk = "of_nat (length key) :: u16"
  have lk: "unat ?lk = length key" using assms(6) by (simp only: unat_of_nat) (simp add: MAX_KEY_LENGTH_def)
  have ins: "LeafRecord_insert crc alloc pid ti vctKey vs stamp stmt =
      primary_record crc alloc pid ti ?lk key vs stamp (insert_lock stmt INSERT)"
    using CalcKeyLength_eq [OF assms(4-6)] assms(5,6) lk by (simp add: LeafRecord_insert_def Let_def)
  show ?thesis
    unfolding ins using primary_plain_reads [OF assms(1-3,6) lk] primary_overflow_reads [OF assms(1-3,6) lk _ assms(7)]
    by (cases "value_len ti vs + length key \<le> 8163") blast+
qed

definition sample_tree :: TreeInfo where
  "sample_tree = \<lparr>ti_indexType = PRIMARY, ti_vctValue = [DV_Digit (Digit_null DT_INT), DV_VarChar (VarChar_null 20),
     DV_Digit (Digit_null DT_SHORT)], ti_valVarLen = 4\<rparr>"

definition sample_row :: "DataValue list" where
  "sample_row = [DV_Digit (Digit_new DT_INT 7), abc_var, DV_Digit (Digit_null DT_SHORT)]"

definition sample_key :: "DataValue list" where
  "sample_key = [DV_Digit (Digit_new DT_BYTE 9)]"

lemma sample_row_ok:
  "tree_ok sample_tree" "row_ok sample_tree sample_row" "list_all key_field_ok sample_key"
  "FillKeyBuff sample_key = Some [9]" "value_len sample_tree sample_row = 12"
  "map field_content sample_row = [Some (Inl 7), Some (Inr [97, 98, 99]), None]"
  by (simp_all add: sample_tree_def sample_row_def sample_key_def abc_var_def tree_ok_def row_ok_def data_type_flags
      Digit_null_def Digit_new_def VarChar_null_def VarChar_new_def digit_field_ok_def digit_type_def digit_ok_def
      var_field_ok_def var_like_def value_len_def null_bytes_def Digit_GetPersistenceLength_def
      VarChar_GetPersistenceLength_def Digit_WriteData_def digit_content_def var_content_def UInt8ToBytes_def store_byte)

theorem LeafRecord_insert_read_witness:
  "\<exists>lr rs. LeafRecord_insert (\<lambda>_. 0) (\<lambda>n. replicate n 0) 5 sample_tree sample_key sample_row 77 None = Some (lr, None) \<and>
     rec_key (lr_raw lr) = [9] \<and>
     ReadListValue sample_tree [] (set_lock None lr) \<lparr>st_ref = 1, st_txId = 2\<rparr> NO_ACTION False =
       Some (set_lock None lr, OK_NOLOCK, map Some rs) \<and>
     map field_content rs = [Some (Inl 7), Some (Inr [97, 98, 99]), None]"
proof -
  have "map field_content rs = map field_content vs" if "list_all2 (\<lambda>r v. field_content r = field_content v) rs vs" for rs vs
    using that by (induction rule: list_all2_induct) auto
  note eq = this
  obtain lr rs where "LeafRecord_insert (\<lambda>_. 0) (\<lambda>n. replicate n 0) 5 sample_tree sample_key sample_row 77 None = Some (lr, None)"
      "rec_key (lr_raw lr) = [9]"
      "\<forall>st g. ReadListValue sample_tree [] (set_lock None lr) st NO_ACTION g = Some (set_lock None lr, OK_NOLOCK, map Some rs)"
      "list_all2 (\<lambda>r v. field_content r = field_content v) rs sample_row"
    using LeafRecord_insert_read [OF sample_row_ok(1,2) alloc_ok_replicate sample_row_ok(3,4), of "\<lambda>_. 0" 0 5 77 None]
      sample_row_ok(5) by (auto simp: MAX_KEY_LENGTH_def INDEX_PAGE_SIZE_def)
  then show ?thesis using eq [of rs sample_row] sample_row_ok(6) by metis
qed

text \<open>
  C23: an update within the page replaces the row. Let the old record of a primary index be well formed, have a key of at most
  \<open>MAX_KEY_LENGTH\<close> bytes and no overflow page and be lockable for the transaction, let the new row fit into the page with the key, and
  let every \<open>VARCHAR\<close> and \<open>BLOB\<close> in it that is not null have at least one byte. Then the new version has the key of the old
  record, owns the old version for a rollback, and once its lock is gone \<open>ReadListValue\<close> gives the new fields.
\<close>

theorem UpdateRecord_read:
  assumes "tree_ok ti" "row_ok ti vs" "alloc_ok alloc" "rr_indexType (lr_raw this) = PRIMARY"
    and "LockAble this (st_txId stmt) UPDATE" "lr_overflowPage this = None" "\<not> HasOverflowPage this" "rec_fits (lr_raw this)"
    and "unat (GetKeyLength (lr_raw this)) \<le> MAX_KEY_LENGTH"
    and "value_len ti vs + unat (GetKeyLength (lr_raw this)) \<le> 8163"
  shows "\<exists>lr lock rs. UpdateRecord crc alloc pid ti this vs stamp stmt UPDATE gapLock = Some lr \<and>
    rec_key (lr_raw lr) = rec_key (lr_raw this) \<and>
    lr_recLock lr = Some lock \<and> rl_undoRec lock = Some this \<and> rl_lstTxid lock = [st_txId stmt] \<and>
    (\<forall>st g. ReadListValue ti [] (set_lock None lr) st NO_ACTION g = Some (set_lock None lr, OK_NOLOCK, map Some rs)) \<and>
    list_all2 (\<lambda>r v. field_content r = field_content v) rs vs"
proof -
  let ?old = "rr_bysVal (lr_raw this)" and ?lk = "GetKeyLength (lr_raw this)" and ?N = "value_len ti vs"
  have lk: "rd UI16_LEN ?old = ?lk" by (simp add: GetKeyLength_def)
  have kl: "unat ?lk \<le> length (drop UI16_2_LEN ?old)" using assms(8) by (auto simp: rec_fits_def)
  have ld: "rs_pidStart (RecStruct_load ?old) = None"
    using assms(4,7) lk by (simp add: RecStruct_load_def HasOverflowPage_def Let_def)
  obtain lock where lock: "UpdateRecord_lock this stmt UPDATE gapLock = Some lock" "rl_lstTxid lock = [st_txId stmt]"
    using assms(4,5) by (simp add: UpdateRecord_lock_def RecordLock_new_def)
  let ?tot = "of_nat (17 + unat ?lk + ?N) :: u16"
  obtain nl where nm: "null_map nl vs" and fr: "fill_record crc alloc ti ?tot ?lk (drop UI16_2_LEN ?old) stamp (of_nat ?N) UPDATE vs None =
      Some (header_image ?tot ?lk (take (unat ?lk) (drop UI16_2_LEN ?old)) 1 stamp (of_nat ?N) @ value_image nl vs, None)"
    using fill_record_plain [OF assms(1-3) kl _ assms(10), of UPDATE crc stamp] by auto
  let ?key = "take (unat ?lk) (drop UI16_2_LEN ?old)"
  have klen: "length ?key = unat ?lk" using kl by simp
  let ?b = "header_image ?tot ?lk ?key 1 stamp (of_nat ?N) @ value_image nl vs"
  have d: "mark_dirty this = this" using assms(6) by (cases this) (simp add: mark_dirty_def)
  have up: "UpdateRecord crc alloc pid ti this vs stamp stmt UPDATE gapLock =
      Some (LeafRecord (leaf_raw PRIMARY ?b True False) (Some (set_undo (Some this) lock)) None)"
    using lock(1) ld lk assms(6) fr plain_total [OF assms(10)] of_nat_gt_max [OF assms(9), of ?N] assms(10) d
    by (simp add: UpdateRecord_def CalcValueLength_eq Let_def)
  have pl: "if (1 :: byte) AND REC_OVERFLOW_BIT = 0 then value_image nl vs = value_image nl vs @ []
      else map_option op_bysPage None = Some (value_image nl vs @ [])" by (simp add: REC_OVERFLOW_BIT_def)
  obtain rs where rs: "\<forall>st g. ReadListValue ti [] (LeafRecord (leaf_raw PRIMARY ?b True False) None None) st NO_ACTION g =
      Some (LeafRecord (leaf_raw PRIMARY ?b True False) None None, OK_NOLOCK, map Some rs)"
      "list_all2 (\<lambda>r v. field_content r = field_content v) rs vs"
    using row_reads [OF assms(1,2) nm klen refl pl] by blast
  have tot: "unat ?tot = 17 + unat ?lk + ?N" using assms(10) by (simp only: unat_of_nat) simp
  have "length (value_image nl vs) + 17 + unat ?lk = unat ?tot"
    unfolding tot length_value_image [OF assms(1,2) nm] by simp
  then have key: "rec_key (leaf_raw PRIMARY ?b True False) = rec_key (lr_raw this)"
    using row_header(1) [OF klen] by (simp add: rec_key_def)
  show ?thesis
    unfolding up using key rs lock(2)
    by (intro exI [of _ "LeafRecord (leaf_raw PRIMARY ?b True False) (Some (set_undo (Some this) lock)) None"]
        exI [of _ "set_undo (Some this) lock"] exI [of _ rs])
      (simp only: LeafRecord.sel set_lock_def lock_setters, simp)
qed

definition old_row :: "OverflowPage option \<Rightarrow> LeafRecord" where
  "old_row ov = LeafRecord (leaf_raw PRIMARY (header_image 19 1 [9] (if ov = None then 1 else 0x81) 3 1 @ [0]) True False) None ov"

lemma old_row_fields:
  "GetKeyLength (lr_raw (old_row ov)) = 1" "rec_key (lr_raw (old_row ov)) = [9]" "rec_fits (lr_raw (old_row ov))"
  "rr_indexType (lr_raw (old_row ov)) = PRIMARY" "lr_overflowPage (old_row ov) = ov" "lr_recLock (old_row ov) = None"
  "HasOverflowPage (old_row ov) \<longleftrightarrow> ov \<noteq> None" "rd UI16_LEN (rr_bysVal (lr_raw (old_row ov))) = (1 :: u16)"
proof -
  note img = header_image_simps [of "[9]" "1 :: u16"]
  have u: "length [9 :: byte] = unat (1 :: u16)" by simp
  show k: "GetKeyLength (lr_raw (old_row ov)) = 1"
    and "rd UI16_LEN (rr_bysVal (lr_raw (old_row ov))) = (1 :: u16)"
    using img(2) by (simp_all add: old_row_def GetKeyLength_def leaf_raw_def)
  show "rec_key (lr_raw (old_row ov)) = [9]"
    unfolding old_row_def LeafRecord.sel by (rule row_header(1) [OF u]) simp
  show "rec_fits (lr_raw (old_row ov))"
    using k by (simp add: rec_fits_def old_row_def leaf_raw_def length_header_image)
  show "rr_indexType (lr_raw (old_row ov)) = PRIMARY" "lr_overflowPage (old_row ov) = ov" "lr_recLock (old_row ov) = None"
    by (simp_all add: old_row_def leaf_raw_def)
  show "HasOverflowPage (old_row ov) \<longleftrightarrow> ov \<noteq> None"
    using img(4) k by (auto simp: HasOverflowPage_def old_row_def leaf_raw_def Let_def REC_OVERFLOW_BIT_def)
qed

theorem UpdateRecord_read_witness:
  "\<exists>lr lock rs. UpdateRecord (\<lambda>_. 0) (\<lambda>n. replicate n 0) 5 sample_tree (old_row None) sample_row 78
       \<lparr>st_ref = 1, st_txId = 2\<rparr> UPDATE False = Some lr \<and>
     rec_key (lr_raw lr) = [9] \<and> lr_recLock lr = Some lock \<and> rl_undoRec lock = Some (old_row None) \<and>
     ReadListValue sample_tree [] (set_lock None lr) \<lparr>st_ref = 1, st_txId = 2\<rparr> NO_ACTION False =
       Some (set_lock None lr, OK_NOLOCK, map Some rs)"
  using UpdateRecord_read [OF sample_row_ok(1,2) alloc_ok_replicate, of "old_row None" "\<lparr>st_ref = 1, st_txId = 2\<rparr>"
      "\<lambda>_. 0" 0 5 78 False] sample_row_ok(5)
  by (auto simp: old_row_fields LockAble_def MAX_KEY_LENGTH_def)

text \<open>
  Updating a row whose value was in an overflow page to a value that fits the page writes outside
  the new record. The length of the new record is computed from the overflow page of the old one, so
  no space is allocated for the value that \<open>FillValueBuff\<close> then stores.
\<close>

theorem UpdateRecord_shrink_overruns:
  assumes "tree_ok ti" "row_ok ti vs" "vs \<noteq> []" "alloc_ok alloc" "lr_overflowPage this \<noteq> None"
    and "unat (GetKeyLength (lr_raw this)) \<le> MAX_KEY_LENGTH"
    and "value_len ti vs + unat (GetKeyLength (lr_raw this)) \<le> 8163" "rec_fits (lr_raw this)"
  shows "UpdateRecord crc alloc pid ti this vs stamp stmt UPDATE gapLock = None"
proof (cases "UpdateRecord_lock this stmt UPDATE gapLock")
  case None
  then show ?thesis by (simp add: UpdateRecord_def Let_def)
next
  case (Some lock)
  let ?lk = "GetKeyLength (lr_raw this)" and ?N = "value_len ti vs"
  have lk: "rd 2 (rr_bysVal (lr_raw this)) = ?lk" by (simp add: GetKeyLength_def)
  have u: "unat (4 + ?lk + 13) = 17 + unat ?lk"
    using assms(6) by (simp add: unat_word_ariths MAX_KEY_LENGTH_def)
  have nb: "0 < null_bytes (length vs)" using assms(3) by (cases vs) (simp_all add: null_bytes_def div_greater_zero_iff)
  have over: "FillValueBuff (17 + unat ?lk) (ti_valVarLen ti) vs b = None" if "length b \<le> 17 + unat ?lk" for b
    using that nb by (auto simp: FillValueBuff_def ReadValueStruct_def Let_def split: option.splits)
  have kl: "unat ?lk \<le> length (drop 4 (rr_bysVal (lr_raw this)))" using assms(8) by (auto simp: rec_fits_def)
  have len: "length (copy_to 4 (FillHeaderBuff (RecStruct_init ?lk False) (ucast t) (ucast ?lk) 1 stamp (of_nat ?N) UPDATE
        (alloc (17 + unat ?lk))) (drop 4 (rr_bysVal (lr_raw this))) (ucast ?lk)) \<le> 17 + unat ?lk" for t :: u16
    using header_filled [OF kl, of "alloc (17 + unat ?lk)" False] assms(4) kl by (simp add: length_header_image)
  have "fill_record crc alloc ti (4 + ?lk + 13) ?lk (drop UI16_2_LEN (rr_bysVal (lr_raw this))) stamp (of_nat ?N) UPDATE vs None = None"
    using assms(4) u over len by (simp add: fill_record_def Let_def)
  then show ?thesis
    using Some lk assms(5,7) of_nat_gt_max [OF assms(6), of ?N] CalcValueLength_eq [of UPDATE ti vs]
    by (auto simp: UpdateRecord_def Let_def)
qed

theorem UpdateRecord_shrink_overruns_witness:
  "UpdateRecord (\<lambda>_. 0) (\<lambda>n. replicate n 0) 5 sample_tree
     (old_row (Some \<lparr>op_pageId = 4, op_pageNum = 1, op_bysPage = [], op_bDirty = False\<rparr>)) sample_row 78
     \<lparr>st_ref = 1, st_txId = 2\<rparr> UPDATE False = None"
  using sample_row_ok(5)
  by (intro UpdateRecord_shrink_overruns [OF sample_row_ok(1,2) _ alloc_ok_replicate])
    (simp_all add: old_row_fields MAX_KEY_LENGTH_def sample_row_def)

end
