(* ===== verification/Head_Page.thy ===== *)
theory Head_Page
  imports Index_Page Data_Value
begin

text \<open>
  The head page of an index file: \<open>core/HeadPage.{h,cpp}\<close>, with the file version of
  \<open>config/FileVersion.h\<close>. The page keeps the counters of the index in members and writes them to its
  buffer when it is saved; the description of the index and of the garbage pages is in the buffer
  from the start. \<open>None\<close> is a failed assertion, \<open>crc32\<close> the checksum of \<open>boost::crc_32_type\<close>.
\<close>

definition PAGE_TYPE_OFFSET :: nat where "PAGE_TYPE_OFFSET = 0"
definition INDEX_TYPE_OFFSET :: nat where "INDEX_TYPE_OFFSET = 1"
definition RECORD_VERSION_COUNT_OFFSET :: nat where "RECORD_VERSION_COUNT_OFFSET = 2"
definition FILE_VERSION_OFFSET :: nat where "FILE_VERSION_OFFSET = 4"
definition KEY_ALTERABLE_FIELD_COUNT_OFFSET :: nat where "KEY_ALTERABLE_FIELD_COUNT_OFFSET = 8"
definition VALUE_ALTERABLE_FIELD_COUNT_OFFSET :: nat where "VALUE_ALTERABLE_FIELD_COUNT_OFFSET = 10"
definition GARBAGE_PAGE_OFFSET :: nat where "GARBAGE_PAGE_OFFSET = 12"
definition GARBAGE_PAGES_NUM_OFFSET :: nat where "GARBAGE_PAGES_NUM_OFFSET = 16"
definition GRABAGE_TOTAL_ITEMS_OFFSET :: nat where "GRABAGE_TOTAL_ITEMS_OFFSET = 20"
definition GARBAGE_CRC32_OFFSET :: nat where "GARBAGE_CRC32_OFFSET = 24"
definition TOTAL_PAGES_COUNT_OFFSET :: nat where "TOTAL_PAGES_COUNT_OFFSET = 28"
definition ROOT_PAGE_OFFSET :: nat where "ROOT_PAGE_OFFSET = 32"
definition BEGIN_LEAF_PAGE_OFFSET :: nat where "BEGIN_LEAF_PAGE_OFFSET = 36"
definition END_LEAF_PAGE_OFFSET :: nat where "END_LEAF_PAGE_OFFSET = 40"
definition TOTAL_RECORD_COUNT_OFFSET :: nat where "TOTAL_RECORD_COUNT_OFFSET = 48"
definition AUTO_INCREMENT_KEY_OFFSET :: nat where "AUTO_INCREMENT_KEY_OFFSET = 56"
definition CURRENT_RECORD_STAMP_OFFSET :: nat where "CURRENT_RECORD_STAMP_OFFSET = 64"

lemmas head_offsets [simp] =
  PAGE_TYPE_OFFSET_def INDEX_TYPE_OFFSET_def RECORD_VERSION_COUNT_OFFSET_def FILE_VERSION_OFFSET_def
  KEY_ALTERABLE_FIELD_COUNT_OFFSET_def VALUE_ALTERABLE_FIELD_COUNT_OFFSET_def GARBAGE_PAGE_OFFSET_def
  GARBAGE_PAGES_NUM_OFFSET_def GRABAGE_TOTAL_ITEMS_OFFSET_def GARBAGE_CRC32_OFFSET_def
  TOTAL_PAGES_COUNT_OFFSET_def ROOT_PAGE_OFFSET_def BEGIN_LEAF_PAGE_OFFSET_def END_LEAF_PAGE_OFFSET_def
  TOTAL_RECORD_COUNT_OFFSET_def AUTO_INCREMENT_KEY_OFFSET_def CURRENT_RECORD_STAMP_OFFSET_def

section \<open>State\<close>

record FileVersion =
  fv_major :: u16
  fv_minor :: byte
  fv_patch :: byte

definition CURRENT_FILE_VERSION :: FileVersion where
  "CURRENT_FILE_VERSION = \<lparr>fv_major = 1, fv_minor = 0, fv_patch = 0\<rparr>"

record HeadPage = CachePage +
  hp_keyAlterableFieldCount :: u16
  hp_valueAlterableFieldCount :: u16
  hp_recordVerCount :: byte
  hp_indexType :: IndexType
  hp_totalPageCount :: u32
  hp_rootPageId :: u32
  hp_beginLeafPageId :: u32
  hp_endLeafPageId :: u32
  hp_totalRecordCount :: u64
  hp_autoIncrementKey :: u64
  hp_currRecordStamp :: u64

definition HeadPage_new :: "alloc \<Rightarrow> u32 \<Rightarrow> HeadPage" where
  "HeadPage_new alloc fileId =
     \<lparr>cp_bysPage = alloc HEAD_PAGE_SIZE, cp_pageId = 0xFFFFFFFF, cp_fileId = fileId, cp_bDirty = False,
      cp_bRecordUpdated = False, cp_pageStatus = PS_EMPTY, cp_pageType = HEAD_PAGE, cp_bRefered = True,
      cp_bWriteQueue = False, cp_bNeedDisk = False, cp_score = 100000, cp_waiting = 0, cp_lockOwner = None,
      hp_keyAlterableFieldCount = 0, hp_valueAlterableFieldCount = 0, hp_recordVerCount = 1,
      hp_indexType = PRIMARY, hp_totalPageCount = 0, hp_rootPageId = 0, hp_beginLeafPageId = 0,
      hp_endLeafPageId = 0, hp_totalRecordCount = 0, hp_autoIncrementKey = 0, hp_currRecordStamp = 0\<rparr>"

text \<open>The enumeration that a byte stands for, when there is one.\<close>

definition index_type_of :: "byte \<Rightarrow> IndexType option" where
  "index_type_of b = find (\<lambda>t. of_nat (index_type_code t) = b) [IT_UNKNOWN, PRIMARY, HIDE_PRIMARY, UNIQUE, NON_UNIQUE]"

definition WriteFileVersion :: "buf \<Rightarrow> buf" where
  "WriteFileVersion b =
     (WriteShort FILE_VERSION_OFFSET (fv_major CURRENT_FILE_VERSION) b)
       [FILE_VERSION_OFFSET + 2 := fv_minor CURRENT_FILE_VERSION, FILE_VERSION_OFFSET + 3 := fv_patch CURRENT_FILE_VERSION]"

definition ReadFileVersion :: "buf \<Rightarrow> FileVersion" where
  "ReadFileVersion b =
     \<lparr>fv_major = ReadShort b FILE_VERSION_OFFSET, fv_minor = b ! (FILE_VERSION_OFFSET + 2),
      fv_patch = b ! (FILE_VERSION_OFFSET + 3)\<rparr>"

definition InitHeadPage :: "IndexType \<Rightarrow> DataValue list \<Rightarrow> HeadPage \<Rightarrow> HeadPage" where
  "InitHeadPage iType vctVal p =
     (let b = (replicate HEAD_PAGE_SIZE 0)
                [PAGE_TYPE_OFFSET := of_nat (page_type_code HEAD_PAGE), INDEX_TYPE_OFFSET := of_nat (index_type_code iType),
                 RECORD_VERSION_COUNT_OFFSET := 1];
          b = WriteFileVersion b;
          b = WriteShort KEY_ALTERABLE_FIELD_COUNT_OFFSET 0 b;
          n = of_nat (length (filter (\<lambda>dv. \<not> IsFixLength (dv_type dv)) vctVal));
          b = WriteShort VALUE_ALTERABLE_FIELD_COUNT_OFFSET n b
      in p\<lparr>cp_pageStatus := PS_VALID, cp_bysPage := b, hp_indexType := iType, hp_recordVerCount := 1,
           hp_keyAlterableFieldCount := 0, hp_valueAlterableFieldCount := n\<rparr>)"

definition HeadPage_InitParameters :: "HeadPage \<Rightarrow> HeadPage option" where
  "HeadPage_InitParameters p =
     (let b = cp_bysPage p in
      if b ! PAGE_TYPE_OFFSET \<noteq> of_nat (page_type_code HEAD_PAGE) \<or> ReadFileVersion b \<noteq> CURRENT_FILE_VERSION then None
      else map_option (\<lambda>t. p\<lparr>
        cp_pageStatus := PS_VALID,
        hp_indexType := t,
        hp_keyAlterableFieldCount := ReadShort b KEY_ALTERABLE_FIELD_COUNT_OFFSET,
        hp_valueAlterableFieldCount := ReadShort b VALUE_ALTERABLE_FIELD_COUNT_OFFSET,
        hp_recordVerCount := ucast (ReadInt b RECORD_VERSION_COUNT_OFFSET),
        hp_totalPageCount := ReadInt b TOTAL_PAGES_COUNT_OFFSET,
        hp_rootPageId := ReadInt b ROOT_PAGE_OFFSET,
        hp_beginLeafPageId := ReadInt b BEGIN_LEAF_PAGE_OFFSET,
        hp_endLeafPageId := ReadInt b END_LEAF_PAGE_OFFSET,
        hp_totalRecordCount := ReadLong b TOTAL_RECORD_COUNT_OFFSET,
        hp_currRecordStamp := ReadLong b CURRENT_RECORD_STAMP_OFFSET,
        hp_autoIncrementKey := ReadLong b AUTO_INCREMENT_KEY_OFFSET\<rparr>) (index_type_of (b ! INDEX_TYPE_OFFSET)))"

definition HeadPage_AfterRead :: "(buf \<Rightarrow> u32) \<Rightarrow> HeadPage \<Rightarrow> HeadPage option" where
  "HeadPage_AfterRead crc32 p =
     (if crc32 (take CRC32_HEAD_OFFSET (cp_bysPage p)) \<noteq> ReadInt (cp_bysPage p) CRC32_HEAD_OFFSET then None
      else map_option (\<lambda>p. p\<lparr>cp_pageStatus := READED\<rparr>) (HeadPage_InitParameters p))"

text \<open>The four page ids are written as 64-bit words, each over the upper half of the one before.\<close>

definition SaveToBuffer :: "(buf \<Rightarrow> u32) \<Rightarrow> HeadPage \<Rightarrow> bool \<times> HeadPage" where
  "SaveToBuffer crc32 p =
     (if \<not> cp_bDirty p \<or> cp_pageStatus p \<noteq> PS_VALID then (False, p)
      else
        let b = (cp_bysPage p)[RECORD_VERSION_COUNT_OFFSET := hp_recordVerCount p];
            b = WriteLong TOTAL_PAGES_COUNT_OFFSET (ucast (hp_totalPageCount p)) b;
            b = WriteLong ROOT_PAGE_OFFSET (ucast (hp_rootPageId p)) b;
            b = WriteLong BEGIN_LEAF_PAGE_OFFSET (ucast (hp_beginLeafPageId p)) b;
            b = WriteLong END_LEAF_PAGE_OFFSET (ucast (hp_endLeafPageId p)) b;
            b = WriteLong TOTAL_RECORD_COUNT_OFFSET (hp_totalRecordCount p) b;
            b = WriteLong CURRENT_RECORD_STAMP_OFFSET (hp_currRecordStamp p) b;
            b = WriteLong AUTO_INCREMENT_KEY_OFFSET (hp_autoIncrementKey p) b;
            b = WriteInt CRC32_HEAD_OFFSET (crc32 (take CRC32_HEAD_OFFSET b)) b
        in (True, p\<lparr>cp_bysPage := b, cp_bDirty := False\<rparr>))"

section \<open>Counters\<close>

definition GetAndIncRecordStamp :: "u64 \<Rightarrow> HeadPage \<Rightarrow> u64 \<times> HeadPage" where
  "GetAndIncRecordStamp num p =
     (hp_currRecordStamp p, p\<lparr>cp_bDirty := True, hp_currRecordStamp := hp_currRecordStamp p + num\<rparr>)"

definition GetAndIncTotalPageCount :: "u32 \<Rightarrow> HeadPage \<Rightarrow> u32 \<times> HeadPage" where
  "GetAndIncTotalPageCount pageNum p =
     (hp_totalPageCount p, p\<lparr>cp_bDirty := True, hp_totalPageCount := hp_totalPageCount p + pageNum\<rparr>)"

definition GetAndIncTotalRecordCount :: "u64 \<Rightarrow> HeadPage \<Rightarrow> u64 \<times> HeadPage" where
  "GetAndIncTotalRecordCount recNum p =
     (hp_totalRecordCount p, p\<lparr>cp_bDirty := True, hp_totalRecordCount := hp_totalRecordCount p + recNum\<rparr>)"

definition GetAndIncAutoIncrementKey :: "u64 \<Rightarrow> HeadPage \<Rightarrow> u64 \<times> HeadPage" where
  "GetAndIncAutoIncrementKey step p =
     (hp_autoIncrementKey p, p\<lparr>cp_bDirty := True, hp_autoIncrementKey := hp_autoIncrementKey p + step\<rparr>)"

definition SetRootPageID :: "u32 \<Rightarrow> HeadPage \<Rightarrow> HeadPage" where
  "SetRootPageID pid p = p\<lparr>hp_rootPageId := pid, cp_bDirty := True\<rparr>"

definition SetBeginLeafPageID :: "u32 \<Rightarrow> HeadPage \<Rightarrow> HeadPage" where
  "SetBeginLeafPageID pid p = p\<lparr>hp_beginLeafPageId := pid, cp_bDirty := True\<rparr>"

definition SetEndLeafPageID :: "u32 \<Rightarrow> HeadPage \<Rightarrow> HeadPage" where
  "SetEndLeafPageID pid p = p\<lparr>hp_endLeafPageId := pid, cp_bDirty := True\<rparr>"

definition SetRecordStamp :: "u64 \<Rightarrow> HeadPage \<Rightarrow> HeadPage" where
  "SetRecordStamp stamp p = p\<lparr>hp_currRecordStamp := stamp, cp_bDirty := True\<rparr>"

definition SetTotalPageCount :: "u32 \<Rightarrow> HeadPage \<Rightarrow> HeadPage" where
  "SetTotalPageCount n p = p\<lparr>hp_totalPageCount := n, cp_bDirty := True\<rparr>"

definition SetTotalRecordCount :: "u64 \<Rightarrow> HeadPage \<Rightarrow> HeadPage" where
  "SetTotalRecordCount n p = p\<lparr>hp_totalRecordCount := n, cp_bDirty := True\<rparr>"

definition SetAutoIncrementKey :: "u64 \<Rightarrow> HeadPage \<Rightarrow> HeadPage" where
  "SetAutoIncrementKey key p = p\<lparr>hp_autoIncrementKey := key, cp_bDirty := True\<rparr>"

definition ReadGarbage :: "HeadPage \<Rightarrow> u32 \<times> u32 \<times> u16 \<times> u32" where
  "ReadGarbage p =
     (let b = cp_bysPage p in
      (ReadInt b GRABAGE_TOTAL_ITEMS_OFFSET, ReadInt b GARBAGE_PAGE_OFFSET, ReadShort b GARBAGE_PAGES_NUM_OFFSET,
       ReadInt b GARBAGE_CRC32_OFFSET))"

definition WriteGabage :: "u32 \<Rightarrow> u32 \<Rightarrow> u16 \<Rightarrow> u32 \<Rightarrow> HeadPage \<Rightarrow> HeadPage" where
  "WriteGabage totalPage pageId usedPage crc32 p =
     p\<lparr>cp_bysPage := WriteInt GARBAGE_CRC32_OFFSET crc32
         (WriteInt GRABAGE_TOTAL_ITEMS_OFFSET totalPage
           (WriteShort GARBAGE_PAGES_NUM_OFFSET usedPage (WriteInt GARBAGE_PAGE_OFFSET pageId (cp_bysPage p)))),
       cp_bDirty := True\<rparr>"

section \<open>Saving and reading the head page\<close>

text \<open>The part of the buffer that describes the index agrees with the members.\<close>

definition head_ok :: "HeadPage \<Rightarrow> bool" where
  "head_ok p \<longleftrightarrow> length (cp_bysPage p) = HEAD_PAGE_SIZE \<and> cp_bysPage p ! 0 = of_nat (page_type_code HEAD_PAGE) \<and>
     cp_bysPage p ! 1 = of_nat (index_type_code (hp_indexType p)) \<and> ReadFileVersion (cp_bysPage p) = CURRENT_FILE_VERSION \<and>
     rd 8 (cp_bysPage p) = hp_keyAlterableFieldCount p \<and> rd 10 (cp_bysPage p) = hp_valueAlterableFieldCount p"

lemma nth_wr_other:
  "off + LENGTH('a::len) div 8 \<le> length b \<Longrightarrow> i < off \<or> off + LENGTH('a) div 8 \<le> i \<Longrightarrow> i < length b \<Longrightarrow>
   wr off (w :: 'a word) b ! i = b ! i"
  unfolding wr_def by (subst nth_patch) auto

lemma rd_update_other:
  "i < off \<or> off + LENGTH('a::len) div 8 \<le> i \<Longrightarrow> (rd off (b[i := x]) :: 'a word) = rd off b"
  by (auto simp: rd_def load_def drop_update_swap)

lemma store_zero_extended: "store (ucast (w :: u32) :: u64) = store w @ [0, 0, 0, 0]"
proof -
  have "unat w < 4294967296" using unsigned_less [of w, where ?'a = nat] by simp
  then have "le_dec (store w) = unat w" by (simp add: store_def)
  then have "load (store w @ [0, 0, 0, 0]) = (ucast w :: u64)"
    by (simp add: load_def le_dec_append)
  moreover have "store (load (store w @ [0, 0, 0, 0]) :: u64) = store w @ [0, 0, 0, 0]"
    by (rule store_load) simp_all
  ultimately show ?thesis by simp
qed

lemma rd_low_half [simp]:
  "off + 8 \<le> length b \<Longrightarrow> rd off (wr off (ucast (w :: u32) :: u64) b) = w"
  by (simp add: rd_def wr_def patch_def store_zero_extended)

lemma ucast_rd_byte:
  assumes "off + 4 \<le> length b"
  shows "ucast (rd off b :: u32) = b ! off"
proof -
  have d: "drop off b = b ! off # drop (Suc off) b" using assms by (simp add: Cons_nth_drop_Suc)
  let ?n = "le_dec (take 4 (drop off b))"
  have "?n < 4294967296" using le_dec_bound [of "take 4 (drop off b)"] assms by simp
  then have "ucast (rd off b :: u32) = (of_nat ?n :: byte)"
    by (simp add: rd_def load_def unsigned_of_nat take_bit_nat_eq_self)
  also have "\<dots> = of_nat (unat (b ! off) + 256 * le_dec (take 3 (drop (Suc off) b)))"
    unfolding d by (simp add: numeral_eq_Suc)
  also have "\<dots> = b ! off"
  proof -
    have z: "(256 :: byte) = 0" by simp
    show ?thesis unfolding of_nat_add of_nat_mult of_nat_numeral z by simp
  qed
  finally show ?thesis .
qed

lemma index_type_of_code: "index_type_of (of_nat (index_type_code t)) = Some t"
  by (cases t) (simp_all add: index_type_of_def)

lemma SaveToBuffer_fields:
  assumes "cp_bDirty p" "cp_pageStatus p = PS_VALID" "head_ok p" "SaveToBuffer crc32 p = (r, q)"
  shows "r" "head_ok q" "rd 28 (cp_bysPage q) = hp_totalPageCount p" "rd 32 (cp_bysPage q) = hp_rootPageId p"
    "rd 36 (cp_bysPage q) = hp_beginLeafPageId p" "rd 40 (cp_bysPage q) = hp_endLeafPageId p"
    "rd 48 (cp_bysPage q) = hp_totalRecordCount p" "rd 56 (cp_bysPage q) = hp_autoIncrementKey p"
    "rd 64 (cp_bysPage q) = hp_currRecordStamp p" "cp_bysPage q ! 2 = hp_recordVerCount p"
    "crc32 (take CRC32_HEAD_OFFSET (cp_bysPage q)) = rd CRC32_HEAD_OFFSET (cp_bysPage q)"
proof -
  define b0 where "b0 = (cp_bysPage p)[2 := hp_recordVerCount p]"
  define b1 where "b1 = wr 56 (hp_autoIncrementKey p) (wr 64 (hp_currRecordStamp p) (wr 48 (hp_totalRecordCount p)
    (wr 40 (ucast (hp_endLeafPageId p) :: u64) (wr 36 (ucast (hp_beginLeafPageId p) :: u64)
      (wr 32 (ucast (hp_rootPageId p) :: u64) (wr 28 (ucast (hp_totalPageCount p) :: u64) b0))))))"
  have len: "length b0 = 4096" "length b1 = 4096"
    using assms(3) by (simp_all add: b0_def b1_def head_ok_def HEAD_PAGE_SIZE_def)
  have q: "cp_bysPage q = wr 4092 (crc32 (take 4092 b1)) b1" "r"
    "hp_indexType q = hp_indexType p" "hp_keyAlterableFieldCount q = hp_keyAlterableFieldCount p"
    "hp_valueAlterableFieldCount q = hp_valueAlterableFieldCount p"
    using assms(1,2,4) by (auto simp: SaveToBuffer_def Let_def b0_def b1_def page_consts)
  show "r" by (rule q)
  have "rd 8 (cp_bysPage q) = (rd 8 b0 :: u16)" "rd 10 (cp_bysPage q) = (rd 10 b0 :: u16)" "rd 4 (cp_bysPage q) = (rd 4 b0 :: u16)"
    "cp_bysPage q ! 0 = b0 ! 0" "cp_bysPage q ! 1 = b0 ! 1" "cp_bysPage q ! 6 = b0 ! 6" "cp_bysPage q ! 7 = b0 ! 7"
    using len by (simp_all add: q b1_def rd_wr_other nth_wr_other)
  then show "head_ok q"
    using assms(3) len q by (simp add: head_ok_def b0_def rd_update_other ReadFileVersion_def HEAD_PAGE_SIZE_def)
  show "rd 28 (cp_bysPage q) = hp_totalPageCount p" "rd 32 (cp_bysPage q) = hp_rootPageId p"
    "rd 36 (cp_bysPage q) = hp_beginLeafPageId p" "rd 40 (cp_bysPage q) = hp_endLeafPageId p"
    "rd 48 (cp_bysPage q) = hp_totalRecordCount p" "rd 56 (cp_bysPage q) = hp_autoIncrementKey p"
    "rd 64 (cp_bysPage q) = hp_currRecordStamp p"
    using len by (simp_all add: q b1_def rd_wr_other)
  show "cp_bysPage q ! 2 = hp_recordVerCount p"
    using len by (simp add: q b1_def nth_wr_other) (simp add: b0_def)
  have "take 4092 (cp_bysPage q) = take 4092 b1" using len by (simp add: q wr_def patch_def)
  then show "crc32 (take CRC32_HEAD_OFFSET (cp_bysPage q)) = rd CRC32_HEAD_OFFSET (cp_bysPage q)"
    using len by (simp add: q page_consts)
qed

text \<open>
  C21: the head page survives a restart. A changed head page is saved, and reading the saved buffer into
  a new head page (checksum, page type and version included) gives back the description of the index
  and every counter: page count, root, first and last leaf, record count, key and stamp.
\<close>

theorem HeadPage_save_load:
  assumes "cp_bDirty p" "cp_pageStatus p = PS_VALID" "head_ok p"
  shows "\<exists>q r. SaveToBuffer crc32 p = (True, q) \<and>
    HeadPage_AfterRead crc32 (new\<lparr>cp_bysPage := cp_bysPage q\<rparr>) = Some r \<and>
    hp_indexType r = hp_indexType p \<and> hp_keyAlterableFieldCount r = hp_keyAlterableFieldCount p \<and>
    hp_valueAlterableFieldCount r = hp_valueAlterableFieldCount p \<and> hp_recordVerCount r = hp_recordVerCount p \<and>
    hp_totalPageCount r = hp_totalPageCount p \<and> hp_rootPageId r = hp_rootPageId p \<and>
    hp_beginLeafPageId r = hp_beginLeafPageId p \<and> hp_endLeafPageId r = hp_endLeafPageId p \<and>
    hp_totalRecordCount r = hp_totalRecordCount p \<and> hp_autoIncrementKey r = hp_autoIncrementKey p \<and>
    hp_currRecordStamp r = hp_currRecordStamp p \<and> head_ok r"
proof -
  obtain ok q where s: "SaveToBuffer crc32 p = (ok, q)" by fastforce
  note f = SaveToBuffer_fields [OF assms s]
  have same: "hp_indexType q = hp_indexType p" "hp_keyAlterableFieldCount q = hp_keyAlterableFieldCount p"
    "hp_valueAlterableFieldCount q = hp_valueAlterableFieldCount p"
    using s by (auto simp: SaveToBuffer_def Let_def split: if_splits)
  have len: "length (cp_bysPage q) = 4096" using f(2) by (simp add: head_ok_def HEAD_PAGE_SIZE_def)
  show ?thesis
    using s f same len ucast_rd_byte [of 2 "cp_bysPage q"] index_type_of_code [of "hp_indexType p"]
    by (rule_tac x = q in exI)
      (simp add: HeadPage_AfterRead_def HeadPage_InitParameters_def Let_def head_ok_def)
qed

lemma InitHeadPage_ok: "head_ok (InitHeadPage t vs p)"
proof -
  define z where "z = replicate HEAD_PAGE_SIZE (0 :: byte)"
  define b0 where "b0 = z[0 := of_nat (page_type_code HEAD_PAGE), Suc 0 := of_nat (index_type_code t), 2 := (1 :: byte)]"
  have "length z = HEAD_PAGE_SIZE" unfolding z_def by (rule length_replicate)
  then have "length z = 4096" by (simp add: HEAD_PAGE_SIZE_def)
  then have len: "length b0 = 4096" "b0 ! 0 = of_nat (page_type_code HEAD_PAGE)" "b0 ! Suc 0 = of_nat (index_type_code t)"
    by (simp_all add: b0_def)
  have b: "cp_bysPage (InitHeadPage t vs p) =
      wr 10 (of_nat (length (filter (\<lambda>dv. \<not> IsFixLength (dv_type dv)) vs)) :: u16)
        (wr 8 (0 :: u16) ((wr 4 (1 :: u16) b0)[6 := 0, 7 := 0]))"
    by (simp add: InitHeadPage_def Let_def WriteFileVersion_def CURRENT_FILE_VERSION_def z_def [symmetric] b0_def)
  show ?thesis
    using len unfolding head_ok_def ReadFileVersion_def b HEAD_PAGE_SIZE_def
    by (simp add: rd_wr_other nth_wr_other rd_update_other CURRENT_FILE_VERSION_def InitHeadPage_def Let_def)
qed

definition sample_head :: HeadPage where
  "sample_head = snd (GetAndIncTotalPageCount 3 (InitHeadPage PRIMARY [] (HeadPage_new (\<lambda>n. replicate n 0) 1)))"

theorem HeadPage_save_load_witness:
  "\<exists>q r. SaveToBuffer (\<lambda>_. 7) sample_head = (True, q) \<and>
     HeadPage_AfterRead (\<lambda>_. 7) ((HeadPage_new (\<lambda>n. replicate n 0) 1)\<lparr>cp_bysPage := cp_bysPage q\<rparr>) = Some r \<and>
     hp_totalPageCount r = 3"
proof -
  have "cp_bDirty sample_head" "cp_pageStatus sample_head = PS_VALID" "hp_totalPageCount sample_head = 3"
    by (simp_all add: sample_head_def GetAndIncTotalPageCount_def InitHeadPage_def HeadPage_new_def Let_def)
  moreover have "head_ok sample_head"
    using InitHeadPage_ok [of PRIMARY "[]" "HeadPage_new (\<lambda>n. replicate n 0) 1"]
    by (simp add: sample_head_def GetAndIncTotalPageCount_def head_ok_def)
  ultimately show ?thesis
    using HeadPage_save_load [of sample_head "\<lambda>_. 7" "HeadPage_new (\<lambda>n. replicate n 0) 1"] by auto
qed

end
