(* ===== verification/Garbage_Owner.thy ===== *)
theory Garbage_Owner
  imports Head_Page Leaf_Layout
begin

text \<open>
  The owner of free pages: \<open>core/GarbageOwner.{h,cpp}\<close>. Free pages are kept as ranges, in a map from
  the first page id to the number of pages and in an index from numbers of pages to the ranges of that
  size. The maps (\<open>MTreeMap\<close>) are association lists sorted by key. The order of the elements of a
  hash set is not specified: \<open>pick\<close> is the element that \<open>begin\<close> refers to. The argument \<open>busy\<close> says
  that another thread holds the mutex when \<open>try_lock\<close> is called. \<open>None\<close> is an access through the end
  of a map.
\<close>

section \<open>Ordered maps\<close>

fun om_insert :: "'k::linorder \<Rightarrow> 'v \<Rightarrow> ('k \<times> 'v) list \<Rightarrow> ('k \<times> 'v) list" where
  "om_insert k v [] = [(k, v)]"
| "om_insert k v ((k', v') # m) =
     (if k < k' then (k, v) # (k', v') # m else if k = k' then (k', v') # m else (k', v') # om_insert k v m)"

definition om_erase :: "'k \<Rightarrow> ('k \<times> 'v) list \<Rightarrow> ('k \<times> 'v) list" where
  "om_erase k m = filter (\<lambda>p. fst p \<noteq> k) m"

definition om_set :: "'k \<Rightarrow> 'v \<Rightarrow> ('k \<times> 'v) list \<Rightarrow> ('k \<times> 'v) list" where
  "om_set k v m = map (\<lambda>p. if fst p = k then (k, v) else p) m"

definition upper_bound :: "'k::linorder \<Rightarrow> ('k \<times> 'v) list \<Rightarrow> ('k \<times> 'v) option" where
  "upper_bound k m = find (\<lambda>p. k < fst p) m"

definition lower_bound :: "'k::linorder \<Rightarrow> ('k \<times> 'v) list \<Rightarrow> ('k \<times> 'v) option" where
  "lower_bound k m = find (\<lambda>p. k \<le> fst p) m"

text \<open>The element before \<open>upper_bound(k)\<close>, when that is not the first one.\<close>

definition before_upper :: "'k::linorder \<Rightarrow> ('k \<times> 'v) list \<Rightarrow> ('k \<times> 'v) option" where
  "before_upper k m = (case takeWhile (\<lambda>p. fst p \<le> k) m of [] \<Rightarrow> None | xs \<Rightarrow> Some (last xs))"

section \<open>State and operations\<close>

record GarbageOwner =
  go_totalGarbagePages :: u32
  go_firstPageId :: u32
  go_usedPageNum :: u16
  go_bDirty :: bool
  go_treeFreePage :: "(u32 \<times> u16) list"
  go_rangePage :: "(u16 \<times> u32 list) list"
  go_ovfPage :: "(OverflowPage \<times> PageStatus) option"

definition GarbageOwner_empty :: GarbageOwner where
  "GarbageOwner_empty = \<lparr>go_totalGarbagePages = 0, go_firstPageId = PAGE_NULL_POINTER, go_usedPageNum = 0,
     go_bDirty = False, go_treeFreePage = [], go_rangePage = [], go_ovfPage = None\<rparr>"

definition InsertPage :: "u32 \<Rightarrow> u16 \<Rightarrow> GarbageOwner \<Rightarrow> GarbageOwner" where
  "InsertPage pageId num g =
     (let m = om_insert num [] (go_rangePage g); ids = the (map_of m num) in
      g\<lparr>go_treeFreePage := om_insert pageId num (go_treeFreePage g),
        go_rangePage := om_set num (if pageId \<in> set ids then ids else pageId # ids) m\<rparr>)"

definition ErasePage :: "u32 \<Rightarrow> u16 \<Rightarrow> GarbageOwner \<Rightarrow> GarbageOwner option" where
  "ErasePage pageId num g =
     (case map_of (go_rangePage g) num of
        None \<Rightarrow> None
      | Some ids \<Rightarrow>
          let ids' = removeAll pageId ids in
          Some (g\<lparr>go_treeFreePage := om_erase pageId (go_treeFreePage g),
                  go_rangePage := (if ids' = [] then om_erase num (go_rangePage g) else om_set num ids' (go_rangePage g))\<rparr>))"

text \<open>
  The neighbours of the recycled range are kept in local variables with 16-bit signed numbers of
  pages, so the test that the merged range is not too long is made with these.
\<close>

definition merge_left :: "u32 \<Rightarrow> u16 \<Rightarrow> GarbageOwner \<Rightarrow> (u32 \<times> u16) option" where
  "merge_left pid num g =
     (case before_upper pid (go_treeFreePage g) of
        None \<Rightarrow> None
      | Some (l_id, l_num) \<Rightarrow> if l_id + ucast l_num = pid \<and> uint num + sint l_num < 65535 then Some (l_id, l_num) else None)"

definition RecyclePage :: "u32 \<Rightarrow> u16 \<Rightarrow> GarbageOwner \<Rightarrow> GarbageOwner option" where
  "RecyclePage pid num g =
     (let g = g\<lparr>go_totalGarbagePages := go_totalGarbagePages g + ucast num, go_bDirty := True\<rparr> in
      if go_treeFreePage g = [] then Some (InsertPage pid num g)
      else
        let right = (case upper_bound pid (go_treeFreePage g) of
                       None \<Rightarrow> None
                     | Some (r_id, r_num) \<Rightarrow> if pid + ucast num = r_id then Some (r_id, r_num) else None)
        in case (case merge_left pid num g of
                   None \<Rightarrow> Some (pid, num, g)
                 | Some (l_id, l_num) \<Rightarrow> map_option (\<lambda>g. (l_id, l_num + num, g)) (ErasePage l_id l_num g)) of
             None \<Rightarrow> None
           | Some (pid, num, g) \<Rightarrow>
               (case right of
                  None \<Rightarrow> Some (InsertPage pid num g)
                | Some (r_id, r_num) \<Rightarrow>
                    if uint num + sint r_num < 65535
                    then map_option (InsertPage pid (num + r_num)) (ErasePage r_id r_num g)
                    else Some (InsertPage pid num g)))"

definition GO_ApplyOvfPage :: "(u32 list \<Rightarrow> u32) \<Rightarrow> u16 \<Rightarrow> bool \<Rightarrow> bool \<Rightarrow> GarbageOwner \<Rightarrow> (u32 \<times> GarbageOwner) option" where
  "GO_ApplyOvfPage pick num isLock busy g =
     (if go_totalGarbagePages g < ucast num then Some (PAGE_NULL_POINTER, g)
      else if isLock \<and> busy then Some (PAGE_NULL_POINTER, g)
      else case lower_bound num (go_rangePage g) of
        None \<Rightarrow> Some (PAGE_NULL_POINTER, g)
      | Some (num2, ids) \<Rightarrow>
          let id = pick ids in
          map_option (\<lambda>g. (id, (if num2 > num then InsertPage (id + ucast num) (num2 - num) g else g)
                              \<lparr>go_totalGarbagePages := go_totalGarbagePages g - ucast num, go_bDirty := True\<rparr>))
            (ErasePage id num2 g))"

text \<open>The loop of \<open>ApplyIndexPages\<close>: \<open>i\<close> counts the page ids in \<open>vct\<close>.\<close>

lemma lower_bound_ge: "lower_bound k m = Some (k', v) \<Longrightarrow> k \<le> k'"
  by (auto simp: lower_bound_def find_Some_iff) (metis fst_conv)

function take_pages :: "(u32 list \<Rightarrow> u32) \<Rightarrow> u16 \<Rightarrow> nat \<Rightarrow> u32 list \<Rightarrow> GarbageOwner \<Rightarrow> (u32 list \<times> GarbageOwner) option" where
  "take_pages pick num i vct g =
     (if i \<ge> unat num then Some (vct, g)
      else case lower_bound num (go_rangePage g) of
        None \<Rightarrow> Some (vct, g)
      | Some (num2, ids) \<Rightarrow>
          let id = pick ids; n = min (unat num2) (unat num - i);
              vct = vct @ map (\<lambda>j. id + of_nat j) [0..<n]
          in case ErasePage id num2 g of
               None \<Rightarrow> None
             | Some g \<Rightarrow> take_pages pick num (i + n) vct (if num2 > num then InsertPage (id + ucast num) (num2 - num) g else g))"
  by pat_completeness auto
termination
proof (relation "measure (\<lambda>(pick, num, i, vct, g). unat num - i)")
  fix pick and num :: u16 and i vct g x num2 ids id n and vct' :: "u32 list" and g' g2
  assume "\<not> unat num \<le> i" "lower_bound num (go_rangePage g) = Some x" "(num2, ids) = x" "n = min (unat num2) (unat num - i)"
  moreover then have "unat num \<le> unat num2" using lower_bound_ge by (metis word_le_nat_alt)
  ultimately show "((pick, num, i + n, vct', g2), (pick, num, i, vct, g)) \<in> measure (\<lambda>(pick, num, i, vct, g). unat num - i)"
    by auto
qed simp

definition GO_ApplyIndexPages ::
    "(u32 list \<Rightarrow> u32) \<Rightarrow> u16 \<Rightarrow> bool \<Rightarrow> bool \<Rightarrow> GarbageOwner \<Rightarrow> (u32 list \<times> GarbageOwner) option" where
  "GO_ApplyIndexPages pick num isLock busy g =
     (if go_totalGarbagePages g = 0 then Some ([], g)
      else if isLock \<and> busy then Some ([], g)
      else map_option (\<lambda>(vct, g). (vct, g\<lparr>go_totalGarbagePages := go_totalGarbagePages g - ucast num, go_bDirty := True\<rparr>))
             (take_pages pick num 0 [] g))"

section \<open>Saving and loading\<close>

text \<open>Six bytes for every range: the first page id and the number of pages.\<close>

fun write_items :: "nat \<Rightarrow> (u32 \<times> u16) list \<Rightarrow> buf \<Rightarrow> buf" where
  "write_items count [] b = b"
| "write_items count ((pid, num) # m) b = write_items (count + 6) m (WriteShort (count + 4) num (WriteInt count pid b))"

fun read_items :: "nat \<Rightarrow> nat \<Rightarrow> buf \<Rightarrow> GarbageOwner \<Rightarrow> GarbageOwner" where
  "read_items i 0 b g = g"
| "read_items i (Suc items) b g =
     (let pid = ReadInt b (i * 6); num = ReadShort b (i * 6 + 4) in
      read_items (Suc i) items b ((InsertPage pid num g)\<lparr>go_totalGarbagePages := go_totalGarbagePages g + ucast num\<rparr>))"

text \<open>The constructor; \<open>disk\<close> is what \<open>SyncReadPage\<close> reads. A wrong checksum aborts.\<close>

definition GarbageOwner_load :: "(buf \<Rightarrow> u32) \<Rightarrow> HeadPage \<Rightarrow> buf \<Rightarrow> GarbageOwner option" where
  "GarbageOwner_load crc headPage disk =
     (let (items, firstPageId, usedPageNum, c32) = ReadGarbage headPage;
          g = GarbageOwner_empty\<lparr>go_firstPageId := firstPageId, go_usedPageNum := usedPageNum\<rparr>
      in if usedPageNum = 0 then Some g
         else if crc (take (INDEX_PAGE_SIZE * unat usedPageNum) disk) \<noteq> c32 then None
         else Some (read_items 0 (unat items) disk g))"

definition used_pages :: "(u32 \<times> u16) list \<Rightarrow> u16" where
  "used_pages m = of_nat ((length m * 6 + INDEX_PAGE_SIZE - 1) div INDEX_PAGE_SIZE)"

definition SavePage ::
    "(buf \<Rightarrow> u32) \<Rightarrow> alloc \<Rightarrow> (u32 list \<Rightarrow> u32) \<Rightarrow> HeadPage \<Rightarrow> GarbageOwner \<Rightarrow> (bool \<times> HeadPage \<times> GarbageOwner) option" where
  "SavePage crc alloc pick headPage g =
     (if (case go_ovfPage g of None \<Rightarrow> False | Some (op, st) \<Rightarrow> st \<noteq> PS_VALID) then Some (False, headPage, g)
      else
        let g = g\<lparr>go_bDirty := False\<rparr> in
        case (if go_usedPageNum g > 0 then ErasePage (go_firstPageId g) (go_usedPageNum g) g else Some g) of
          None \<Rightarrow> None
        | Some g \<Rightarrow>
            if go_totalGarbagePages g = 0 then
              Some (True, WriteGabage 0 PAGE_NULL_POINTER 0 0 headPage,
                    g\<lparr>go_firstPageId := PAGE_NULL_POINTER, go_usedPageNum := 0\<rparr>)
            else
              let used = used_pages (go_treeFreePage g) in
              case GO_ApplyOvfPage pick used False False g of
                None \<Rightarrow> None
              | Some (pid, g) \<Rightarrow>
                  let (pid, headPage) = (if pid = PAGE_NULL_POINTER then GetAndIncTotalPageCount (ucast used) headPage
                                         else (pid, headPage));
                      page = write_items 0 (go_treeFreePage g) (op_bysPage (OverflowPage_new alloc pid used))
                  in Some (True,
                       WriteGabage (go_totalGarbagePages g) pid used (crc (take (INDEX_PAGE_SIZE * unat used) page)) headPage,
                       g\<lparr>go_firstPageId := pid, go_usedPageNum := used,
                         go_ovfPage := Some ((OverflowPage_new alloc pid used)\<lparr>op_bysPage := page\<rparr>, PS_VALID)\<rparr>))"

end
