(* ===== verification/Garbage_Refine.thy ===== *)
theory Garbage_Refine
  imports Garbage_Owner
begin

text \<open>
  What the owner of free pages promises: it is a set of page ids. Recycling a range adds its pages to
  the set, applying for pages takes pages out of the set. The ranges are disjoint, the index by size
  lists exactly the ranges and the counter is the number of free pages.
\<close>

section \<open>Ordered maps\<close>

lemma keys_om_insert: "set (map fst (om_insert k v m)) = insert k (set (map fst m))"
  by (induction k v m rule: om_insert.induct) (auto split: if_splits)

lemma set_om_insert: "k \<notin> fst ` set m \<Longrightarrow> set (om_insert k v m) = insert (k, v) (set m)"
  by (induction k v m rule: om_insert.induct) (auto split: if_splits)

lemma sorted_om_insert: "sorted_wrt (<) (map fst m) \<Longrightarrow> sorted_wrt (<) (map fst (om_insert k v m))"
proof (induction k v m rule: om_insert.induct)
  case (2 k v k' v' m)
  then show ?case using keys_om_insert [of k v m] by (auto simp: less_le_trans)
qed simp

lemma map_of_om_insert:
  "sorted_wrt (<) (map fst m) \<Longrightarrow>
   map_of (om_insert k v m) k' = (if k' = k \<and> map_of m k = None then Some v else map_of m k')"
proof (induction m)
  case (Cons p m)
  obtain a b where p: "p = (a, b)" by (cases p)
  have "map_of m k = None" if "k < a"
    using Cons.prems that p by (force simp: map_of_eq_None_iff)
  then show ?case using Cons p by auto
qed simp

lemma keys_om_set: "map fst (om_set k v m) = map fst m"
  by (simp add: om_set_def)

lemma map_of_om_set: "map_of (om_set k v m) k' = (if k' = k \<and> map_of m k \<noteq> None then Some v else map_of m k')"
  by (induction m) (auto simp: om_set_def)

lemma map_of_om_erase: "map_of (om_erase k m) k' = (if k' = k then None else map_of m k')"
  by (induction m) (auto simp: om_erase_def)

lemma sorted_om_erase: "sorted_wrt P m \<Longrightarrow> sorted_wrt P (om_erase k m)"
  by (simp add: om_erase_def sorted_wrt_filter)

section \<open>The invariant\<close>

definition pages_of :: "u32 \<times> u16 \<Rightarrow> nat set" where
  "pages_of r = {unat (fst r)..<unat (fst r) + unat (snd r)}"

definition free_pages :: "GarbageOwner \<Rightarrow> nat set" where
  "free_pages g = \<Union> (pages_of ` set (go_treeFreePage g))"

definition range_before :: "u32 \<times> u16 \<Rightarrow> u32 \<times> u16 \<Rightarrow> bool" where
  "range_before r s \<longleftrightarrow> unat (fst r) + unat (snd r) \<le> unat (fst s)"

definition indexed :: "GarbageOwner \<Rightarrow> u32 \<Rightarrow> u16 \<Rightarrow> bool" where
  "indexed g pid n \<longleftrightarrow> (\<exists>ids. map_of (go_rangePage g) n = Some ids \<and> pid \<in> set ids)"

definition range_ok :: "u32 \<times> u16 \<Rightarrow> bool" where
  "range_ok r \<longleftrightarrow> snd r \<noteq> 0 \<and> unat (fst r) + unat (snd r) < 2 ^ 32"

definition maps_ok :: "GarbageOwner \<Rightarrow> bool" where
  "maps_ok g \<longleftrightarrow> sorted_wrt range_before (go_treeFreePage g) \<and> (\<forall>r \<in> set (go_treeFreePage g). range_ok r) \<and>
     sorted_wrt (<) (map fst (go_rangePage g)) \<and> (\<forall>p \<in> set (go_rangePage g). snd p \<noteq> []) \<and>
     (\<forall>pid n. (pid, n) \<in> set (go_treeFreePage g) \<longleftrightarrow> indexed g pid n)"

definition go_inv :: "GarbageOwner \<Rightarrow> bool" where
  "go_inv g \<longleftrightarrow> maps_ok g \<and> unat (go_totalGarbagePages g) = card (free_pages g)"

lemma range_before_keys:
  assumes "sorted_wrt range_before m" "\<forall>r \<in> set m. range_ok r"
  shows "sorted_wrt (<) (map fst m)"
proof -
  have "sorted_wrt (\<lambda>a b. fst a < fst b) m"
    using assms
  proof (induction m)
    case (Cons a m)
    have "fst a < fst b" if "b \<in> set m" for b
    proof -
      have "range_before a b" "0 < unat (snd a)" using Cons.prems that by (auto simp: range_ok_def unat_gt_0)
      then show ?thesis by (simp add: range_before_def word_less_nat_alt)
    qed
    with Cons show ?case by simp
  qed simp
  then show ?thesis by (simp add: sorted_wrt_map)
qed

lemma fresh_key:
  assumes "\<forall>r \<in> set m. range_ok r" "range_ok (k, v)" "\<forall>r \<in> set m. range_before r (k, v) \<or> range_before (k, v) r"
  shows "k \<notin> fst ` set m"
proof
  assume "k \<in> fst ` set m"
  then obtain b where b: "(k, b) \<in> set m" by auto
  then have "0 < unat b" "0 < unat v" "range_before (k, b) (k, v) \<or> range_before (k, v) (k, b)"
    using assms by (auto simp: range_ok_def unat_gt_0)
  then show False by (auto simp: range_before_def)
qed

lemma sorted_range_insert:
  assumes "sorted_wrt range_before m" "\<forall>r \<in> set m. range_ok r" "range_ok (k, v)"
    and "\<forall>r \<in> set m. range_before r (k, v) \<or> range_before (k, v) r"
  shows "sorted_wrt range_before (om_insert k v m)"
  using assms
proof (induction m)
  case (Cons p m)
  obtain a b where p: "p = (a, b)" by (cases p)
  have pos: "0 < unat b" "0 < unat v" using Cons.prems(2,3) p by (auto simp: range_ok_def unat_gt_0)
  have ne: "k \<noteq> a" using Cons.prems(4) p pos by (auto simp: range_before_def)
  have lt: "k < a \<longleftrightarrow> range_before (k, v) (a, b)" "a < k \<longleftrightarrow> range_before (a, b) (k, v)"
    using Cons.prems(4) p pos by (auto simp: range_before_def word_less_nat_alt)
  have nk: "k \<notin> fst ` set m" by (rule fresh_key) (use Cons.prems in auto)
  show ?case
  proof (cases "k < a")
    case True
    have "range_before (k, v) r" if "r \<in> set m" for r
      using True lt(1) Cons.prems(1) p that by (auto simp: range_before_def)
    then show ?thesis using Cons.prems(1) p True lt(1) by simp
  next
    case False
    then have "range_before (a, b) (k, v)" using ne lt(2) by (metis neqE)
    moreover have "sorted_wrt range_before (om_insert k v m)" using Cons by simp
    ultimately show ?thesis using Cons.prems(1) p False ne set_om_insert [OF nk, of v] by auto
  qed
qed simp

lemma disjoint_ranges:
  assumes "range_ok r" "range_ok s"
  shows "pages_of r \<inter> pages_of s = {} \<longleftrightarrow> range_before r s \<or> range_before s r"
proof -
  have "0 < unat (snd r)" "0 < unat (snd s)" using assms by (auto simp: range_ok_def unat_gt_0)
  then show ?thesis by (auto simp: pages_of_def range_before_def)
qed

section \<open>The two private operations\<close>

lemma indexed_InsertPage:
  assumes "sorted_wrt (<) (map fst (go_rangePage g))"
  shows "indexed (InsertPage p n g) q k \<longleftrightarrow> (q = p \<and> k = n) \<or> indexed g q k"
  using assms
  by (cases "map_of (go_rangePage g) n") (auto simp: indexed_def InsertPage_def Let_def map_of_om_set map_of_om_insert)

lemma sorted_keys_distinct: "sorted_wrt (<) (map fst m) \<Longrightarrow> distinct (map fst (m :: ('k::linorder \<times> 'v) list))"
  by (simp add: strict_sorted_iff)

lemma InsertPage_maps:
  assumes ok: "maps_ok g" and r: "range_ok (p, n)" and dis: "pages_of (p, n) \<inter> free_pages g = {}"
  shows "maps_ok (InsertPage p n g)" "free_pages (InsertPage p n g) = free_pages g \<union> pages_of (p, n)"
    "set (go_treeFreePage (InsertPage p n g)) = insert (p, n) (set (go_treeFreePage g))"
proof -
  let ?m = "go_treeFreePage g" and ?g = "InsertPage p n g" and ?x = "go_rangePage g"
  have all: "\<forall>r \<in> set ?m. range_ok r" and srt: "sorted_wrt range_before ?m" and sx: "sorted_wrt (<) (map fst ?x)"
    using ok by (auto simp: maps_ok_def)
  have sep: "\<forall>r \<in> set ?m. range_before r (p, n) \<or> range_before (p, n) r"
  proof
    fix s assume s: "s \<in> set ?m"
    then have "pages_of s \<inter> pages_of (p, n) = {}" using dis by (auto simp: free_pages_def)
    then show "range_before s (p, n) \<or> range_before (p, n) s" using disjoint_ranges all r s by blast
  qed
  have tree: "go_treeFreePage ?g = om_insert p n ?m" by (simp add: InsertPage_def Let_def)
  show st: "set (go_treeFreePage ?g) = insert (p, n) (set ?m)"
    unfolding tree by (rule set_om_insert) (rule fresh_key [OF all r sep])
  then show "free_pages ?g = free_pages g \<union> pages_of (p, n)" by (auto simp: free_pages_def)
  have "sorted_wrt range_before (go_treeFreePage ?g)" unfolding tree by (rule sorted_range_insert [OF srt all r sep])
  moreover have "\<forall>r \<in> set (go_treeFreePage ?g). range_ok r" using st all r by simp
  moreover have keys: "sorted_wrt (<) (map fst (go_rangePage ?g))"
    using sorted_om_insert [OF sx] by (simp add: InsertPage_def Let_def keys_om_set)
  moreover have "\<forall>q \<in> set (go_rangePage ?g). snd q \<noteq> []"
  proof
    fix q assume q: "q \<in> set (go_rangePage ?g)"
    then have "map_of (go_rangePage ?g) (fst q) = Some (snd q)"
      using sorted_keys_distinct [OF keys] by (simp add: map_of_eq_Some_iff)
    then show "snd q \<noteq> []"
      using ok by (auto simp: InsertPage_def Let_def map_of_om_set map_of_om_insert [OF sx] maps_ok_def split: if_splits option.splits dest!: map_of_SomeD)
  qed
  moreover have "\<forall>q k. (q, k) \<in> set (go_treeFreePage ?g) \<longleftrightarrow> indexed ?g q k"
    using ok st indexed_InsertPage [OF sx] by (auto simp: maps_ok_def)
  ultimately show "maps_ok ?g" by (simp add: maps_ok_def)
qed

lemma ErasePage_maps:
  assumes ok: "maps_ok g" and mem: "(p, n) \<in> set (go_treeFreePage g)"
  obtains g' where "ErasePage p n g = Some g'" "maps_ok g'" "set (go_treeFreePage g') = set (go_treeFreePage g) - {(p, n)}"
    "go_totalGarbagePages g' = go_totalGarbagePages g"
proof -
  let ?m = "go_treeFreePage g" and ?x = "go_rangePage g"
  have all: "\<forall>r \<in> set ?m. range_ok r" and srt: "sorted_wrt range_before ?m" and sx: "sorted_wrt (<) (map fst ?x)"
    and ne: "\<forall>q \<in> set ?x. snd q \<noteq> []" and idx: "\<forall>q k. (q, k) \<in> set ?m \<longleftrightarrow> indexed g q k"
    using ok by (auto simp: maps_ok_def)
  obtain ids where ids: "map_of ?x n = Some ids" "p \<in> set ids" using mem idx by (auto simp: indexed_def)
  define g' where "g' = g\<lparr>go_treeFreePage := om_erase p ?m,
    go_rangePage := (if removeAll p ids = [] then om_erase n ?x else om_set n (removeAll p ids) ?x)\<rparr>"
  have er: "ErasePage p n g = Some g'" using ids by (simp add: ErasePage_def g'_def Let_def)
  have "distinct (map fst ?m)" by (rule sorted_keys_distinct) (rule range_before_keys [OF srt all])
  then have st: "set (go_treeFreePage g') = set ?m - {(p, n)}"
    using mem by (auto simp: g'_def om_erase_def dest: eq_key_imp_eq_value)
  have "sorted_wrt (<) (map fst (om_erase n ?x))"
    using sx by (simp add: om_erase_def sorted_wrt_map sorted_wrt_filter)
  then have keys: "sorted_wrt (<) (map fst (go_rangePage g'))" using sx by (simp add: g'_def keys_om_set)
  have ne': "\<forall>q \<in> set (go_rangePage g'). snd q \<noteq> []"
    using ne by (auto simp: g'_def om_erase_def om_set_def)
  have lk: "map_of (go_rangePage g') k = (if k = n then (if removeAll p ids = [] then None else Some (removeAll p ids)) else map_of ?x k)" for k
    using ids by (auto simp: g'_def map_of_om_erase map_of_om_set)
  have none: "removeAll p ids = [] \<Longrightarrow> set ids \<subseteq> {p}"
    by (metis Diff_eq_empty_iff set_empty set_removeAll)
  have "indexed g' q k \<longleftrightarrow> indexed g q k \<and> (q, k) \<noteq> (p, n)" for q k
    using ids none by (cases "k = n"; cases "removeAll p ids = []") (auto simp: indexed_def lk)
  then have idx': "(q, k) \<in> set (go_treeFreePage g') \<longleftrightarrow> indexed g' q k" for q k
    unfolding st using idx by simp
  have "sorted_wrt range_before (go_treeFreePage g')" using sorted_om_erase [OF srt] by (simp add: g'_def)
  moreover have "\<forall>r \<in> set (go_treeFreePage g'). range_ok r" unfolding st using all by simp
  ultimately have "maps_ok g'" using keys ne' idx' unfolding maps_ok_def by blast
  moreover have "go_totalGarbagePages g' = go_totalGarbagePages g" by (simp add: g'_def)
  ultimately show ?thesis using that [OF er _ st] by blast
qed

lemma free_pages_erase:
  assumes "maps_ok g" "r \<in> set (go_treeFreePage g)" "set (go_treeFreePage g') = set (go_treeFreePage g) - {r}"
  shows "free_pages g' = free_pages g - pages_of r" "pages_of r \<subseteq> free_pages g"
proof -
  have dis: "pages_of r \<inter> pages_of s = {}" if s: "s \<in> set (go_treeFreePage g)" "s \<noteq> r" for s
  proof -
    have srt: "sorted_wrt range_before (go_treeFreePage g)" and "range_ok r" "range_ok s"
      using assms(1,2) s by (auto simp: maps_ok_def)
    obtain i j where ij: "i < length (go_treeFreePage g)" "j < length (go_treeFreePage g)"
      "go_treeFreePage g ! i = r" "go_treeFreePage g ! j = s" using assms(2) s(1) unfolding in_set_conv_nth by blast
    then have "i < j \<or> j < i" using s(2) by (metis nat_neq_iff)
    then have "range_before r s \<or> range_before s r" using srt ij by (auto simp: sorted_wrt_iff_nth_less)
    then show ?thesis using disjoint_ranges \<open>range_ok r\<close> \<open>range_ok s\<close> by blast
  qed
  then show "free_pages g' = free_pages g - pages_of r" using assms(2) unfolding free_pages_def assms(3) by blast
  show "pages_of r \<subseteq> free_pages g" using assms(2) by (auto simp: free_pages_def)
qed

lemma finite_pages [simp]: "finite (pages_of r)" "finite (free_pages g)"
  by (auto simp: pages_of_def free_pages_def)

lemma card_pages_of [simp]: "card (pages_of r) = unat (snd r)"
  by (simp add: pages_of_def)

lemma pages_join:
  assumes "unat a + unat n = unat b" "unat n + unat k < 65536"
  shows "pages_of (a, n + k) = pages_of (a, n) \<union> pages_of (b, k)"
proof -
  have "unat (n + k) = unat n + unat k" using assms(2) by (simp add: unat_word_ariths)
  then show ?thesis using assms(1) by (auto simp: pages_of_def)
qed

lemma next_page:
  assumes "range_ok (a, n)"
  shows "unat (a + ucast n) = unat a + unat n"
proof -
  have "unat (ucast n :: u32) = unat n" by (simp add: unsigned_ucast_eq take_bit_nat_eq_self order_less_le_trans [OF unsigned_less])
  then show ?thesis using assms by (simp add: range_ok_def unat_word_ariths)
qed

text \<open>One merge step of \<open>RecyclePage\<close>: a neighbour is erased and its pages join the recycled range.\<close>

lemma merge_range:
  assumes "maps_ok g" "(a, n) \<in> set (go_treeFreePage g)" "range_ok (b, k)" "pages_of (b, k) \<inter> free_pages g = {}"
    and adj: "a + ucast n = b \<and> c = a \<or> b + ucast k = a \<and> c = b" and "unat n + unat k < 65535"
  obtains g' where "ErasePage a n g = Some g'" "maps_ok g'" "set (go_treeFreePage g') = set (go_treeFreePage g) - {(a, n)}"
    "go_totalGarbagePages g' = go_totalGarbagePages g" "range_ok (c, n + k)" "pages_of (c, n + k) \<inter> free_pages g' = {}"
    "free_pages g' \<union> pages_of (c, n + k) = free_pages g \<union> pages_of (b, k)"
proof -
  obtain g' where g': "ErasePage a n g = Some g'" "maps_ok g'" "set (go_treeFreePage g') = set (go_treeFreePage g) - {(a, n)}"
    "go_totalGarbagePages g' = go_totalGarbagePages g" using ErasePage_maps [OF assms(1,2)] by blast
  have ok: "range_ok (a, n)" using assms(1,2) by (auto simp: maps_ok_def)
  have un: "unat (n + k) = unat n + unat k" using assms(6) by (simp add: unat_word_ariths)
  then have nz: "n + k \<noteq> 0" using ok by (metis add_eq_0_iff_both_eq_0 range_ok_def snd_conv unat_eq_zero unat_0)
  have pages: "pages_of (c, n + k) = pages_of (a, n) \<union> pages_of (b, k) \<and> range_ok (c, n + k)"
    using adj
  proof
    assume "a + ucast n = b \<and> c = a"
    then have e: "unat a + unat n = unat b" "c = a" using next_page [OF ok] by auto
    then have "range_ok (c, n + k)" using un nz assms(3) by (simp add: range_ok_def)
    then show ?thesis using pages_join [of a n b k] e assms(6) by simp
  next
    assume "b + ucast k = a \<and> c = b"
    then have e: "unat b + unat k = unat a" "c = b" using next_page [OF assms(3)] by auto
    then have "range_ok (c, n + k)" using un nz ok by (simp add: range_ok_def)
    then show ?thesis using pages_join [of b k a n] e assms(6) by (simp add: add.commute Un_commute)
  qed
  note fp = free_pages_erase [OF assms(1,2) g'(3)]
  show ?thesis using that [OF g'] pages fp assms(4) by blast
qed

section \<open>Recycling\<close>

lemma upper_bound_in: "upper_bound k m = Some r \<Longrightarrow> r \<in> set m \<and> k < fst r"
  by (auto simp: upper_bound_def find_Some_iff)

lemma before_upper_in:
  assumes "before_upper k m = Some r"
  shows "r \<in> set m \<and> fst r \<le> k"
proof -
  obtain x xs where tw: "takeWhile (\<lambda>p. fst p \<le> k) m = x # xs" "r = last (x # xs)"
    using assms by (auto simp: before_upper_def split: list.splits)
  then have "r \<in> set (takeWhile (\<lambda>p. fst p \<le> k) m)" by (metis last_in_set list.distinct(1))
  then show ?thesis by (auto dest: set_takeWhileD)
qed

lemma range_le_free: "r \<in> set (go_treeFreePage g) \<Longrightarrow> unat (snd r) \<le> card (free_pages g)"
  using card_mono [of "free_pages g" "pages_of r"] by (auto simp: free_pages_def)

lemma free_pages_update [simp]:
  "free_pages (g\<lparr>go_totalGarbagePages := t\<rparr>) = free_pages g" "free_pages (g\<lparr>go_bDirty := d\<rparr>) = free_pages g"
  "maps_ok (g\<lparr>go_totalGarbagePages := t\<rparr>) = maps_ok g" "maps_ok (g\<lparr>go_bDirty := d\<rparr>) = maps_ok g"
  by (simp_all add: free_pages_def maps_ok_def indexed_def)

lemma sint_le_unat: "sint (w :: u16) \<le> int (unat w)"
proof -
  have "0 \<le> uint w" by simp
  then have "- 32768 \<le> uint w" by linarith
  then show ?thesis by (simp add: sint_uint signed_take_bit_int_less_eq_self_iff)
qed

lemma merge_left_step:
  assumes ok: "maps_ok g" and r: "range_ok (pid, num)" and dis: "pages_of (pid, num) \<inter> free_pages g = {}"
    and few: "card (free_pages g) + unat num < 65535"
  obtains pid' num' g' where
    "(case merge_left pid num g of None \<Rightarrow> Some (pid, num, g)
      | Some (l_id, l_num) \<Rightarrow> map_option (\<lambda>g. (l_id, l_num + num, g)) (ErasePage l_id l_num g)) = Some (pid', num', g')"
    "maps_ok g'" "range_ok (pid', num')" "pages_of (pid', num') \<inter> free_pages g' = {}"
    "free_pages g' \<union> pages_of (pid', num') = free_pages g \<union> pages_of (pid, num)"
    "go_totalGarbagePages g' = go_totalGarbagePages g" "pid' + ucast num' = pid + ucast num"
    "\<And>x. x \<in> set (go_treeFreePage g) \<Longrightarrow> pid < fst x \<Longrightarrow> x \<in> set (go_treeFreePage g')"
proof (cases "merge_left pid num g")
  case None
  then show ?thesis using that [of pid num g] assms by simp
next
  case (Some l)
  obtain a n where l: "l = (a, n)" by (cases l)
  have m: "(a, n) \<in> set (go_treeFreePage g)" "a \<le> pid" "a + ucast n = pid"
    using Some l before_upper_in [of pid "go_treeFreePage g"] by (auto simp: merge_left_def split: option.splits prod.splits if_splits)
  have "unat n + unat num < 65535" using range_le_free [OF m(1)] few by simp
  then obtain g' where g': "ErasePage a n g = Some g'" "maps_ok g'" "set (go_treeFreePage g') = set (go_treeFreePage g) - {(a, n)}"
    "go_totalGarbagePages g' = go_totalGarbagePages g" "range_ok (a, n + num)" "pages_of (a, n + num) \<inter> free_pages g' = {}"
    "free_pages g' \<union> pages_of (a, n + num) = free_pages g \<union> pages_of (pid, num)"
    using merge_range [OF ok m(1) r dis, of a] m(3) by blast
  have un: "unat (n + num) = unat n + unat num" using \<open>unat n + unat num < 65535\<close> by (simp add: unat_word_ariths)
  have okn: "range_ok (a, n)" using ok m(1) by (auto simp: maps_ok_def)
  have "unat (a + ucast (n + num)) = unat (pid + ucast num)"
    using next_page [OF g'(5)] next_page [OF okn] next_page [OF r] un m(3) by simp
  then have e: "a + ucast (n + num) = pid + ucast num" by (simp only: word_unat_eq_iff)
  show ?thesis
    by (rule that [of a "n + num" g']) (use Some l g' m e in auto)
qed

lemma InsertPage_total [simp]: "go_totalGarbagePages (InsertPage p n g) = go_totalGarbagePages g"
  by (simp add: InsertPage_def Let_def)

lemma merge_right_step:
  assumes ok: "maps_ok g" "range_ok (pid, num)" "pages_of (pid, num) \<inter> free_pages g = {}"
    and m: "(a, n) \<in> set (go_treeFreePage g)" and adj: "pid + ucast num = a"
    and few: "card (free_pages g \<union> pages_of (pid, num)) < 65535"
  obtains g' where "(if uint num + sint n < 65535 then map_option (InsertPage pid (num + n)) (ErasePage a n g)
      else Some (InsertPage pid num g)) = Some g'" "maps_ok g'" "free_pages g' = free_pages g \<union> pages_of (pid, num)"
    "go_totalGarbagePages g' = go_totalGarbagePages g"
proof -
  have "unat n + unat num = card (pages_of (a, n) \<union> pages_of (pid, num))"
    using ok(3) m by (subst card_Un_disjoint) (auto simp: free_pages_def)
  also have "\<dots> \<le> card (free_pages g \<union> pages_of (pid, num))"
    by (rule card_mono) (use m in \<open>auto simp: free_pages_def pages_of_def\<close>)
  finally have lt: "unat n + unat num < 65535" using few by simp
  then have "int (unat n) + int (unat num) < 65535" by linarith
  then have c: "uint num + sint n < 65535" using sint_le_unat [of n] by simp
  obtain g' where g': "ErasePage a n g = Some g'" "maps_ok g'" "set (go_treeFreePage g') = set (go_treeFreePage g) - {(a, n)}"
    "go_totalGarbagePages g' = go_totalGarbagePages g" "range_ok (pid, n + num)" "pages_of (pid, n + num) \<inter> free_pages g' = {}"
    "free_pages g' \<union> pages_of (pid, n + num) = free_pages g \<union> pages_of (pid, num)"
    using merge_range [OF ok(1) m ok(2,3), of pid] adj lt by metis
  note ins = InsertPage_maps [OF g'(2,5,6)]
  show ?thesis
    by (rule that [of "InsertPage pid (n + num) g'"]) (use c g' ins in \<open>simp_all add: add.commute [of num]\<close>)
qed

lemma RecyclePage_step:
  assumes inv: "go_inv g" and r: "range_ok (pid, num)" and dis: "pages_of (pid, num) \<inter> free_pages g = {}"
    and few: "card (free_pages g) + unat num < 65535"
  obtains g' where "RecyclePage pid num g = Some g'" "maps_ok g'" "free_pages g' = free_pages g \<union> pages_of (pid, num)"
    "go_totalGarbagePages g' = go_totalGarbagePages g + ucast num"
proof -
  define h where "h = g\<lparr>go_totalGarbagePages := go_totalGarbagePages g + ucast num, go_bDirty := True\<rparr>"
  define right where "right = (case upper_bound pid (go_treeFreePage h) of None \<Rightarrow> None
    | Some (r_id, r_num) \<Rightarrow> if pid + ucast num = r_id then Some (r_id, r_num) else None)"
  have h: "maps_ok h" "free_pages h = free_pages g" "go_totalGarbagePages h = go_totalGarbagePages g + ucast num"
    using inv by (simp_all add: h_def go_inv_def)
  have dis': "pages_of (pid, num) \<inter> free_pages h = {}" and few': "card (free_pages h) + unat num < 65535"
    using dis few h by simp_all
  obtain pid' num' g' where g': "(case merge_left pid num h of None \<Rightarrow> Some (pid, num, h)
      | Some (l_id, l_num) \<Rightarrow> map_option (\<lambda>g. (l_id, l_num + num, g)) (ErasePage l_id l_num h)) = Some (pid', num', g')"
    "maps_ok g'" "range_ok (pid', num')" "pages_of (pid', num') \<inter> free_pages g' = {}"
    "free_pages g' \<union> pages_of (pid', num') = free_pages h \<union> pages_of (pid, num)"
    "go_totalGarbagePages g' = go_totalGarbagePages h" "pid' + ucast num' = pid + ucast num"
    "\<And>x. x \<in> set (go_treeFreePage h) \<Longrightarrow> pid < fst x \<Longrightarrow> x \<in> set (go_treeFreePage g')"
    using merge_left_step [OF h(1) r dis' few'] by blast
  have eq: "RecyclePage pid num g = (if go_treeFreePage h = [] then Some (InsertPage pid num h) else
      case right of None \<Rightarrow> Some (InsertPage pid' num' g')
      | Some (r_id, r_num) \<Rightarrow> if uint num' + sint r_num < 65535
          then map_option (InsertPage pid' (num' + r_num)) (ErasePage r_id r_num g') else Some (InsertPage pid' num' g'))"
    unfolding RecyclePage_def Let_def h_def [symmetric] right_def [symmetric] g'(1) by simp
  note base = InsertPage_maps [OF h(1) r dis'] and mid = InsertPage_maps [OF g'(2,3,4)]
  consider "go_treeFreePage h = []" | "go_treeFreePage h \<noteq> []" "right = None"
    | a n where "go_treeFreePage h \<noteq> []" "right = Some (a, n)" by (cases right) auto
  then show ?thesis
  proof cases
    case 1
    then show ?thesis using that [of "InsertPage pid num h"] base eq h by simp
  next
    case 2
    then show ?thesis using that [of "InsertPage pid' num' g'"] mid eq h g' by simp
  next
    case (3 a n)
    then have rt: "(a, n) \<in> set (go_treeFreePage h)" "pid < a" "pid + ucast num = a"
      using upper_bound_in [of pid "go_treeFreePage h"] by (auto simp: right_def split: option.splits prod.splits if_splits)
    then have m: "(a, n) \<in> set (go_treeFreePage g')" using g'(8) by simp
    have few2: "card (free_pages g' \<union> pages_of (pid', num')) < 65535"
      unfolding g'(5) using card_Un_le [of "free_pages h" "pages_of (pid, num)"] few' by simp
    have "pid' + ucast num' = a" using g'(7) rt(3) by simp
    then obtain g2 where g2: "(if uint num' + sint n < 65535 then map_option (InsertPage pid' (num' + n)) (ErasePage a n g')
        else Some (InsertPage pid' num' g')) = Some g2" "maps_ok g2" "free_pages g2 = free_pages g' \<union> pages_of (pid', num')"
      "go_totalGarbagePages g2 = go_totalGarbagePages g'"
      using merge_right_step [OF g'(2-4) m _ few2] by blast
    show ?thesis by (rule that [of g2]) (use 3 eq g2 h g' in simp_all)
  qed
qed

lemma RecyclePage_ok:
  assumes "go_inv g" "range_ok (pid, num)" "pages_of (pid, num) \<inter> free_pages g = {}" "card (free_pages g) + unat num < 65535"
  obtains g' where "RecyclePage pid num g = Some g'" "go_inv g'" "free_pages g' = free_pages g \<union> pages_of (pid, num)"
proof -
  have cnt: "unat (go_totalGarbagePages g) = card (free_pages g)" using assms(1) by (simp add: go_inv_def)
  obtain g' where g': "RecyclePage pid num g = Some g'" "maps_ok g'" "free_pages g' = free_pages g \<union> pages_of (pid, num)"
    "go_totalGarbagePages g' = go_totalGarbagePages g + ucast num" using RecyclePage_step [OF assms] by blast
  have "unat (go_totalGarbagePages g') = unat (go_totalGarbagePages g) + unat num"
    using assms(4) cnt g'(4)
    by (simp add: unat_word_ariths unsigned_ucast_eq take_bit_nat_eq_self order_less_le_trans [OF unsigned_less])
  moreover have "card (free_pages g') = card (free_pages g) + unat num"
    using assms(3) by (simp add: g'(3) card_Un_disjoint Int_commute)
  ultimately have "go_inv g'" using g' cnt by (simp add: go_inv_def)
  then show ?thesis using that g' by blast
qed

section \<open>Applying for pages\<close>

text \<open>The element that \<open>begin\<close> of a hash set refers to is one of its elements.\<close>

definition picks :: "(u32 list \<Rightarrow> u32) \<Rightarrow> bool" where
  "picks pick \<longleftrightarrow> (\<forall>xs. xs \<noteq> [] \<longrightarrow> pick xs \<in> set xs)"

lemma picks_hd: "picks hd"
  by (simp add: picks_def)

lemma lower_bound_pick:
  assumes "maps_ok g" "picks pick" "lower_bound num (go_rangePage g) = Some (num2, ids)"
  shows "(pick ids, num2) \<in> set (go_treeFreePage g)" "num \<le> num2"
proof -
  have mem: "(num2, ids) \<in> set (go_rangePage g)"
    using assms(3) by (auto simp: lower_bound_def find_Some_iff in_set_conv_nth)
  have "distinct (map fst (go_rangePage g))" "ids \<noteq> []"
    using assms(1) mem by (auto simp: maps_ok_def intro!: sorted_keys_distinct)
  then have "indexed g (pick ids) num2" using mem assms(2) by (auto simp: indexed_def picks_def)
  then show "(pick ids, num2) \<in> set (go_treeFreePage g)" using assms(1) by (simp add: maps_ok_def)
  show "num \<le> num2" by (rule lower_bound_ge [OF assms(3)])
qed

text \<open>Both operations take the first \<open>num\<close> pages of a range and put the rest of it back.\<close>

definition rest_back :: "u32 \<Rightarrow> u16 \<Rightarrow> u16 \<Rightarrow> GarbageOwner \<Rightarrow> GarbageOwner" where
  "rest_back pid num num2 g = (if num2 > num then InsertPage (pid + ucast num) (num2 - num) g else g)"

lemma rest_back_step:
  assumes ok: "maps_ok g" and m: "(pid, num2) \<in> set (go_treeFreePage g)" and le: "num \<le> num2"
  obtains g' where "ErasePage pid num2 g = Some g'" "maps_ok (rest_back pid num num2 g')"
    "free_pages (rest_back pid num num2 g') = free_pages g - pages_of (pid, num)" "pages_of (pid, num) \<subseteq> free_pages g"
    "go_totalGarbagePages (rest_back pid num num2 g') = go_totalGarbagePages g" "go_totalGarbagePages g' = go_totalGarbagePages g"
    "pid \<noteq> PAGE_NULL_POINTER"
proof -
  obtain g' where g': "ErasePage pid num2 g = Some g'" "maps_ok g'" "set (go_treeFreePage g') = set (go_treeFreePage g) - {(pid, num2)}"
    "go_totalGarbagePages g' = go_totalGarbagePages g" using ErasePage_maps [OF ok m] by blast
  note fp = free_pages_erase [OF ok m g'(3)]
  have r: "range_ok (pid, num2)" using ok m by (auto simp: maps_ok_def)
  then have "0 < unat num2" "unat pid + unat num2 < 4294967296" by (simp_all add: range_ok_def unat_gt_0)
  then have nn: "pid \<noteq> PAGE_NULL_POINTER" by (auto simp: PAGE_NULL_POINTER_def)
  let ?rest = "(pid + ucast num, num2 - num)"
  have un: "unat (num2 - num) = unat num2 - unat num" "unat num \<le> unat num2"
    using le by (simp_all add: unat_sub word_le_nat_alt)
  have nx: "unat (pid + ucast num) = unat pid + unat num"
    using \<open>unat pid + unat num2 < _\<close> un(2) by (cases "num = 0") (simp_all add: next_page range_ok_def)
  show ?thesis
  proof (cases "num < num2")
    case True
    then have lt: "unat num < unat num2" by (simp add: word_less_nat_alt)
    then have "num2 - num \<noteq> 0" using un by (metis unat_0 zero_less_diff less_numeral_extra(3))
    then have rr: "range_ok ?rest" using un nx r by (simp add: range_ok_def)
    have pg: "pages_of (pid, num2) = pages_of (pid, num) \<union> pages_of ?rest" "pages_of (pid, num) \<inter> pages_of ?rest = {}"
      using un nx lt by (auto simp: pages_of_def)
    have "pages_of ?rest \<inter> free_pages g' = {}" using fp pg by auto
    note ins = InsertPage_maps [OF g'(2) rr this]
    have "go_totalGarbagePages (rest_back pid num num2 g') = go_totalGarbagePages g"
      using g'(4) by (simp add: rest_back_def InsertPage_def Let_def)
    moreover have "free_pages (rest_back pid num num2 g') = free_pages g - pages_of (pid, num)"
      using ins(2) pg fp True unfolding rest_back_def by auto
    moreover have "pages_of (pid, num) \<subseteq> free_pages g" using fp pg by auto
    moreover have "maps_ok (rest_back pid num num2 g')" using ins(1) True by (simp add: rest_back_def)
    ultimately show ?thesis using that [OF g'(1)] g'(4) nn by blast
  next
    case False
    then have "num2 = num" using le by simp
    then show ?thesis using that [OF g'(1)] g' fp nn False by (simp add: rest_back_def)
  qed
qed

lemma counter_taken:
  assumes "unat (t :: u32) = card F" "P \<subseteq> F" "finite F" "card P = unat (num :: u16)"
  shows "unat (t - ucast num) = card (F - P)"
proof -
  have c: "unat (ucast num :: u32) = unat num"
    by (simp add: unsigned_ucast_eq take_bit_nat_eq_self order_less_le_trans [OF unsigned_less])
  have "unat num \<le> unat t" using card_mono [OF assms(3,2)] assms(1,4) by simp
  then have "unat (t - ucast num) = unat t - unat num" by (simp add: unat_sub word_le_nat_alt c)
  then show ?thesis using assms by (simp add: card_Diff_subset finite_subset)
qed

lemma lower_bound_none: "lower_bound k m = None \<longleftrightarrow> (\<forall>p \<in> set m. fst p < k)"
  by (auto simp: lower_bound_def find_None_iff not_le)

lemma no_long_range:
  assumes "maps_ok g"
  shows "lower_bound num (go_rangePage g) = None \<longleftrightarrow> (\<forall>r \<in> set (go_treeFreePage g). snd r < num)"
proof
  assume l: "lower_bound num (go_rangePage g) = None"
  show "\<forall>r \<in> set (go_treeFreePage g). snd r < num"
  proof
    fix r assume "r \<in> set (go_treeFreePage g)"
    then have "(fst r, snd r) \<in> set (go_treeFreePage g)" by simp
    then have "indexed g (fst r) (snd r)" using assms unfolding maps_ok_def by blast
    then obtain ids where "(snd r, ids) \<in> set (go_rangePage g)" by (auto simp: indexed_def dest: map_of_SomeD)
    then show "snd r < num" using l by (auto simp: lower_bound_none)
  qed
next
  assume s: "\<forall>r \<in> set (go_treeFreePage g). snd r < num"
  show "lower_bound num (go_rangePage g) = None"
  proof (cases "lower_bound num (go_rangePage g)")
    case (Some p)
    then show ?thesis using lower_bound_pick [OF assms picks_hd, of num] s by (cases p) force
  qed
qed

lemma GO_ApplyOvfPage_step:
  assumes inv: "go_inv g" and pk: "picks pick"
  obtains pid g' where "GO_ApplyOvfPage pick num isLock busy g = Some (pid, g')" "go_inv g'"
    "pid = PAGE_NULL_POINTER \<Longrightarrow> g' = g \<and> (isLock \<and> busy \<or> (\<forall>r \<in> set (go_treeFreePage g). snd r < num))"
    "pid \<noteq> PAGE_NULL_POINTER \<Longrightarrow> pages_of (pid, num) \<subseteq> free_pages g \<and> free_pages g' = free_pages g - pages_of (pid, num)"
proof -
  have ok: "maps_ok g" and cnt: "unat (go_totalGarbagePages g) = card (free_pages g)" using inv by (auto simp: go_inv_def)
  have few: "snd r < num" if "go_totalGarbagePages g < ucast num" "r \<in> set (go_treeFreePage g)" for r
    using range_le_free [OF that(2)] cnt that(1)
    by (simp add: word_less_nat_alt unsigned_ucast_eq take_bit_nat_eq_self order_less_le_trans [OF unsigned_less])
  consider "go_totalGarbagePages g < ucast num" | "\<not> go_totalGarbagePages g < ucast num" "isLock \<and> busy"
    | "\<not> go_totalGarbagePages g < ucast num" "\<not> (isLock \<and> busy)" "lower_bound num (go_rangePage g) = None"
    | num2 ids where "\<not> go_totalGarbagePages g < ucast num" "\<not> (isLock \<and> busy)" "lower_bound num (go_rangePage g) = Some (num2, ids)"
    by fastforce
  then show ?thesis
  proof cases
    case 1
    then show ?thesis using that [of PAGE_NULL_POINTER g] inv few by (auto simp: GO_ApplyOvfPage_def)
  next
    case 2
    then show ?thesis using that [of PAGE_NULL_POINTER g] inv by (simp add: GO_ApplyOvfPage_def)
  next
    case 3
    then have "\<forall>r \<in> set (go_treeFreePage g). snd r < num" using no_long_range [OF ok] by blast
    moreover have "GO_ApplyOvfPage pick num isLock busy g = Some (PAGE_NULL_POINTER, g)" using 3 by (auto simp: GO_ApplyOvfPage_def)
    ultimately show ?thesis using that [of PAGE_NULL_POINTER g] inv by simp
  next
    case (4 num2 ids)
    note lb = lower_bound_pick [OF ok pk 4(3)]
    obtain g1 where g1: "ErasePage (pick ids) num2 g = Some g1" "maps_ok (rest_back (pick ids) num num2 g1)"
      "free_pages (rest_back (pick ids) num num2 g1) = free_pages g - pages_of (pick ids, num)"
      "pages_of (pick ids, num) \<subseteq> free_pages g" "go_totalGarbagePages g1 = go_totalGarbagePages g" "pick ids \<noteq> PAGE_NULL_POINTER"
      using rest_back_step [OF ok lb] by metis
    let ?g = "(rest_back (pick ids) num num2 g1)\<lparr>go_totalGarbagePages := go_totalGarbagePages g - ucast num, go_bDirty := True\<rparr>"
    have "GO_ApplyOvfPage pick num isLock busy g = Some (pick ids, ?g)"
      using 4 g1(1,5) by (auto simp: GO_ApplyOvfPage_def Let_def rest_back_def)
    moreover have "go_inv ?g" using counter_taken [OF cnt g1(4), of num] g1(2,3) by (simp add: go_inv_def)
    ultimately show ?thesis using that [of "pick ids" ?g] g1(3,4,6) by simp
  qed
qed

lemma take_pages_range:
  assumes ok: "maps_ok g" and pk: "picks pick" and lb: "lower_bound num (go_rangePage g) = Some (num2, ids)" and "num \<noteq> 0"
    and er: "ErasePage (pick ids) num2 g = Some g1"
  shows "take_pages pick num 0 [] g = Some (map (\<lambda>j. pick ids + of_nat j) [0..<unat num], rest_back (pick ids) num num2 g1)"
proof -
  have "unat num \<le> unat num2" using lower_bound_pick [OF ok pk lb] by (simp add: word_le_nat_alt)
  moreover have "0 < unat num" using assms(4) by (simp add: unat_gt_0)
  ultimately show ?thesis
    by (subst take_pages.simps) (simp add: lb er Let_def take_pages.simps [of pick num "unat num"] rest_back_def)
qed

section \<open>Theorems\<close>

definition one_range :: GarbageOwner where
  "one_range = (InsertPage 5 5 GarbageOwner_empty)\<lparr>go_totalGarbagePages := 5\<rparr>"

definition two_ranges :: GarbageOwner where
  "two_ranges = (InsertPage 12 3 (InsertPage 5 5 GarbageOwner_empty))\<lparr>go_totalGarbagePages := 8\<rparr>"

lemma GarbageOwner_empty_ok: "maps_ok GarbageOwner_empty" "free_pages GarbageOwner_empty = {}"
  by (simp_all add: maps_ok_def GarbageOwner_empty_def free_pages_def indexed_def)

lemma insert_five:
  "maps_ok (InsertPage 5 5 GarbageOwner_empty)" "free_pages (InsertPage 5 5 GarbageOwner_empty) = {5..<10}"
  using InsertPage_maps [OF GarbageOwner_empty_ok(1), of 5 5] by (simp_all add: range_ok_def pages_of_def GarbageOwner_empty_ok)

lemma one_range_ok:
  "go_inv one_range" "free_pages one_range = {5..<10}" "go_treeFreePage one_range = [(5, 5)]"
  "go_totalGarbagePages one_range = 5"
  using insert_five by (simp_all add: one_range_def go_inv_def) (simp add: InsertPage_def GarbageOwner_empty_def Let_def)

lemma two_ranges_ok: "go_inv two_ranges" "free_pages two_ranges = {5..<10} \<union> {12..<15}" "go_totalGarbagePages two_ranges = 8"
proof -
  have "maps_ok (InsertPage 12 3 (InsertPage 5 5 GarbageOwner_empty))"
    "free_pages (InsertPage 12 3 (InsertPage 5 5 GarbageOwner_empty)) = {5..<10} \<union> {12..<15}"
    using InsertPage_maps [OF insert_five(1), of 12 3] by (simp_all add: range_ok_def pages_of_def insert_five)
  then show "go_inv two_ranges" "free_pages two_ranges = {5..<10} \<union> {12..<15}"
    by (simp_all add: two_ranges_def go_inv_def card_Un_disjoint)
qed (simp add: two_ranges_def)

text \<open>
  C9: The free pages are a set. With fewer than 65535 free pages in all, the new ones included (the number of pages of a range is a 16-bit number that
  wraps beyond that), \<open>RecyclePage\<close> of a non-empty range of pages that are not free adds exactly these pages, whether the range is merged
  with a neighbour on the left, on the right, on both sides or with none, and it keeps the invariant of the two maps and of the counter.
\<close>
theorem RecyclePage_refines:
  assumes "go_inv g" "num \<noteq> 0" "unat pid + unat num < 2 ^ 32" "pages_of (pid, num) \<inter> free_pages g = {}"
    and "unat (go_totalGarbagePages g) + unat num < 65535"
  shows "\<exists>g'. RecyclePage pid num g = Some g' \<and> go_inv g' \<and> free_pages g' = free_pages g \<union> pages_of (pid, num)"
proof -
  have "range_ok (pid, num)" "card (free_pages g) + unat num < 65535" using assms by (auto simp: range_ok_def go_inv_def)
  then show ?thesis using RecyclePage_ok [OF assms(1) _ assms(4)] by blast
qed

theorem RecyclePage_refines_witness:
  "\<exists>g'. RecyclePage 10 2 two_ranges = Some g' \<and> go_inv g' \<and> go_treeFreePage g' = [(5, 10)] \<and> free_pages g' = {5..<15}"
proof -
  have run: "map_option go_treeFreePage (RecyclePage 10 2 two_ranges) = Some [(5, 10)]"
    by (simp add: two_ranges_def RecyclePage_def InsertPage_def ErasePage_def merge_left_def before_upper_def upper_bound_def
        om_erase_def om_set_def GarbageOwner_empty_def Let_def)
  have "{10..<12} \<inter> ({5..<10} \<union> {12..<15}) = ({} :: nat set)" by auto
  have "{5..<10} \<union> {12..<15} \<union> {10..<12} = {5..<15::nat}" by auto
  moreover obtain g' where "RecyclePage 10 2 two_ranges = Some g'" "go_inv g'" "free_pages g' = {5..<10} \<union> {12..<15} \<union> {10..<12}"
    using RecyclePage_refines [of two_ranges 2 10]
    using \<open>_ = ({} :: nat set)\<close> by (auto simp: pages_of_def two_ranges_ok)
  ultimately show ?thesis using run by simp
qed

text \<open>
  C22: \<open>ApplyOvfPage\<close> either takes \<open>num\<close> consecutive pages out of the set of free pages and returns the
  first one, or returns the null id and changes nothing; the latter only when the mutex is held by
  another thread or no range of \<open>num\<close> pages exists.
\<close>
theorem GO_ApplyOvfPage_refines:
  assumes "go_inv g" "picks pick"
  shows "\<exists>pid g'. GO_ApplyOvfPage pick num isLock busy g = Some (pid, g') \<and> go_inv g' \<and>
     (if pid = PAGE_NULL_POINTER then g' = g \<and> (isLock \<and> busy \<or> (\<forall>r \<in> set (go_treeFreePage g). snd r < num))
      else pages_of (pid, num) \<subseteq> free_pages g \<and> free_pages g' = free_pages g - pages_of (pid, num))"
proof -
  obtain pid g' where "GO_ApplyOvfPage pick num isLock busy g = Some (pid, g')" "go_inv g'"
    "pid = PAGE_NULL_POINTER \<Longrightarrow> g' = g \<and> (isLock \<and> busy \<or> (\<forall>r \<in> set (go_treeFreePage g). snd r < num))"
    "pid \<noteq> PAGE_NULL_POINTER \<Longrightarrow> pages_of (pid, num) \<subseteq> free_pages g \<and> free_pages g' = free_pages g - pages_of (pid, num)"
    using GO_ApplyOvfPage_step [OF assms] by metis
  then show ?thesis by auto
qed

theorem GO_ApplyOvfPage_refines_witness:
  "\<exists>pid g'. GO_ApplyOvfPage hd 2 True False one_range = Some (pid, g') \<and>
     go_inv g' \<and> pid \<noteq> PAGE_NULL_POINTER \<and> pages_of (pid, 2) \<subseteq> {5..<10} \<and> free_pages g' = {5..<10} - pages_of (pid, 2)"
  using GO_ApplyOvfPage_refines [OF one_range_ok(1) picks_hd, of 2 True False]
  by (auto simp: one_range_ok split: if_splits)

text \<open>
  \<open>ApplyIndexPages\<close>, when a range of at least \<open>num\<close> pages is free, returns the ids of \<open>num\<close>
  consecutive free pages and takes exactly these pages out of the set.
\<close>
theorem GO_ApplyIndexPages_range:
  assumes "go_inv g" "picks pick" "num \<noteq> 0" "\<not> (isLock \<and> busy)" "\<exists>r \<in> set (go_treeFreePage g). num \<le> snd r"
  shows "\<exists>pid g'. GO_ApplyIndexPages pick num isLock busy g = Some (map (\<lambda>j. pid + of_nat j) [0..<unat num], g') \<and> go_inv g' \<and>
     pages_of (pid, num) \<subseteq> free_pages g \<and> free_pages g' = free_pages g - pages_of (pid, num)"
proof -
  have ok: "maps_ok g" and cnt: "unat (go_totalGarbagePages g) = card (free_pages g)" using assms(1) by (auto simp: go_inv_def)
  obtain r where r: "r \<in> set (go_treeFreePage g)" "num \<le> snd r" using assms(5) by blast
  then have "lower_bound num (go_rangePage g) \<noteq> None" using no_long_range [OF ok, of num] by (auto simp: not_less)
  then obtain num2 ids where lb: "lower_bound num (go_rangePage g) = Some (num2, ids)" by auto
  note pk = lower_bound_pick [OF ok assms(2) lb]
  obtain g1 where g1: "ErasePage (pick ids) num2 g = Some g1" "maps_ok (rest_back (pick ids) num num2 g1)"
    "free_pages (rest_back (pick ids) num num2 g1) = free_pages g - pages_of (pick ids, num)"
    "pages_of (pick ids, num) \<subseteq> free_pages g" "go_totalGarbagePages (rest_back (pick ids) num num2 g1) = go_totalGarbagePages g"
    using rest_back_step [OF ok pk] by metis
  have "0 < unat num" using assms(3) by (simp add: unat_gt_0)
  then have nz: "go_totalGarbagePages g \<noteq> 0"
    using range_le_free [OF r(1)] r(2) cnt by (auto simp: word_le_nat_alt)
  have "GO_ApplyIndexPages pick num isLock busy g = Some (map (\<lambda>j. pick ids + of_nat j) [0..<unat num],
      (rest_back (pick ids) num num2 g1)\<lparr>go_totalGarbagePages := go_totalGarbagePages g - ucast num, go_bDirty := True\<rparr>)"
    using nz assms(4) take_pages_range [OF ok assms(2) lb assms(3) g1(1)] g1(5) by (auto simp: GO_ApplyIndexPages_def)
  moreover have "unat (go_totalGarbagePages g - ucast num) = card (free_pages g - pages_of (pick ids, num))"
    using counter_taken [OF cnt g1(4)] by simp
  ultimately show ?thesis using g1(2-4) by (auto simp: go_inv_def)
qed

theorem GO_ApplyIndexPages_range_witness:
  "\<exists>pid g'. GO_ApplyIndexPages hd 2 True False one_range = Some ([pid, pid + 1], g') \<and>
     go_inv g' \<and> free_pages g' = {5..<10} - pages_of (pid, 2)"
  using GO_ApplyIndexPages_range [OF one_range_ok(1) picks_hd, of 2 True False]
  by (auto simp: one_range_ok upt_rec)

text \<open>
  When every free range is shorter than \<open>num\<close>, \<open>ApplyIndexPages\<close> returns no page and leaves the maps alone,
  but it still takes \<open>num\<close> off the counter of free pages: the counter is wrong from then on, and it
  wraps around when it was smaller than \<open>num\<close>.
\<close>
theorem GO_ApplyIndexPages_miscounts:
  assumes "go_inv g" "num \<noteq> 0" "go_treeFreePage g \<noteq> []" "\<not> (isLock \<and> busy)" "\<forall>r \<in> set (go_treeFreePage g). snd r < num"
  shows "\<exists>g'. GO_ApplyIndexPages pick num isLock busy g = Some ([], g') \<and> go_treeFreePage g' = go_treeFreePage g \<and>
     go_totalGarbagePages g' = go_totalGarbagePages g - ucast num \<and> \<not> go_inv g'"
proof -
  have ok: "maps_ok g" and cnt: "unat (go_totalGarbagePages g) = card (free_pages g)" using assms(1) by (auto simp: go_inv_def)
  have lb: "lower_bound num (go_rangePage g) = None" using no_long_range [OF ok] assms(5) by blast
  obtain r where r: "r \<in> set (go_treeFreePage g)" using assms(3) by (meson list.set_sel(1))
  then have "0 < unat (snd r)" using ok by (auto simp: maps_ok_def range_ok_def unat_gt_0)
  then have nz: "go_totalGarbagePages g \<noteq> 0" using range_le_free [OF r] cnt by auto
  have "0 < unat num" using assms(2) by (simp add: unat_gt_0)
  then have tk: "take_pages pick num 0 [] g = Some ([], g)" by (subst take_pages.simps) (simp add: lb)
  let ?g = "g\<lparr>go_totalGarbagePages := go_totalGarbagePages g - ucast num, go_bDirty := True\<rparr>"
  have "GO_ApplyIndexPages pick num isLock busy g = Some ([], ?g)" using nz assms(4) tk by (auto simp: GO_ApplyIndexPages_def)
  moreover have "\<not> go_inv ?g"
  proof
    assume "go_inv ?g"
    then have "unat (go_totalGarbagePages g - ucast num) = unat (go_totalGarbagePages g)" using cnt by (simp add: go_inv_def)
    then have "go_totalGarbagePages g - ucast num = go_totalGarbagePages g" by (simp only: word_unat_eq_iff)
    then have "(ucast num :: u32) = 0" by simp
    then have "unat (ucast num :: u32) = 0" by simp
    then show False using \<open>0 < unat num\<close>
      by (simp add: unsigned_ucast_eq take_bit_nat_eq_self order_less_le_trans [OF unsigned_less])
  qed
  ultimately show ?thesis by auto
qed

theorem GO_ApplyIndexPages_miscounts_witness:
  "\<exists>g'. GO_ApplyIndexPages hd 7 True False one_range = Some ([], g') \<and>
     go_treeFreePage g' = [(5, 5)] \<and> go_totalGarbagePages g' = - 2 \<and> \<not> go_inv g'"
  using GO_ApplyIndexPages_miscounts [OF one_range_ok(1), of 7 True False hd]
  by (simp add: one_range_ok)

end
