(* ===== verification/Tree_Alloc.thy ===== *)
theory Tree_Alloc
  imports Garbage_Refine Branch_Page
begin

text \<open>
  What an index tree hands out (\<open>core/IndexTree.{h,cpp}\<close>): page ids, record stamps and auto increment
  keys. Page ids come from the owner of free pages and, when that has none, from the counter of pages in
  the head page. Stamps and keys come from counters of the head page; a tree with several ranges takes
  them in batches, one batch per range, so that the tasks of the ranges seldom meet.

  \<open>pick\<close> and \<open>busy\<close> are those of the owner of free pages; a failed assertion is \<open>None\<close>.
\<close>

section \<open>State\<close>

definition STAMP_BATCH :: u64 where "STAMP_BATCH = 64"
definition INC_KEY_BATCH :: u64 where "INC_KEY_BATCH = 64"

record IndexRange =
  ir_borderRecord :: "BranchRecord option"
  ir_vctRangePage :: "page_ref list"
  ir_startPage :: "page_ref option"
  ir_endPage :: "page_ref option"
  ir_recordNumber :: u64
  ir_recordStampStart :: u64
  ir_recordStampEnd :: u64
  ir_incKeyStart :: u64
  ir_incKeyEnd :: u64

definition IndexRange_new :: IndexRange where
  "IndexRange_new = \<lparr>ir_borderRecord = None, ir_vctRangePage = [], ir_startPage = None, ir_endPage = None,
     ir_recordNumber = 0, ir_recordStampStart = 0, ir_recordStampEnd = 0, ir_incKeyStart = 0, ir_incKeyEnd = 0\<rparr>"

text \<open>The move constructor: the new range and what is left of the source.\<close>

definition IndexRange_move :: "IndexRange \<Rightarrow> IndexRange \<times> IndexRange" where
  "IndexRange_move src =
     (IndexRange_new\<lparr>ir_borderRecord := ir_borderRecord src, ir_vctRangePage := ir_vctRangePage src,
        ir_startPage := ir_startPage src, ir_endPage := ir_endPage src, ir_recordNumber := ir_recordNumber src,
        ir_recordStampStart := ir_recordStampStart src, ir_recordStampEnd := ir_recordStampStart src\<rparr>,
      src\<lparr>ir_borderRecord := None, ir_vctRangePage := [], ir_startPage := None, ir_endPage := None\<rparr>)"

record IndexTree =
  it_headPage :: HeadPage
  it_garbageOwner :: GarbageOwner
  it_rootPage :: "page_ref option"
  it_indexType :: IndexType
  it_splitPageLevel :: byte
  it_vctRange :: "IndexRange list"

definition it_block :: "IndexTree \<Rightarrow> bool" where
  "it_block t \<longleftrightarrow> it_splitPageLevel t \<noteq> 0xFF"

definition IsMultiRange :: "IndexTree \<Rightarrow> bool" where
  "IsMultiRange t \<longleftrightarrow> length (it_vctRange t) > 1"

section \<open>Pages\<close>

definition IT_ApplyOvfPage :: "(u32 list \<Rightarrow> u32) \<Rightarrow> bool \<Rightarrow> u16 \<Rightarrow> IndexTree \<Rightarrow> (u32 \<times> IndexTree) option" where
  "IT_ApplyOvfPage pick busy num t =
     map_option (\<lambda>(pid, g).
        if pid = PAGE_NULL_POINTER
        then (let (pid, h) = GetAndIncTotalPageCount (ucast num) (it_headPage t) in (pid, t\<lparr>it_garbageOwner := g, it_headPage := h\<rparr>))
        else (pid, t\<lparr>it_garbageOwner := g\<rparr>))
       (GO_ApplyOvfPage pick num (it_block t) busy (it_garbageOwner t))"

text \<open>The ids of the pages that \<open>ApplyIndexPages\<close> creates; the number is passed on as a 16-bit number.\<close>

definition IT_ApplyIndexPages :: "(u32 list \<Rightarrow> u32) \<Rightarrow> bool \<Rightarrow> u32 \<Rightarrow> IndexTree \<Rightarrow> (u32 list \<times> IndexTree) option" where
  "IT_ApplyIndexPages pick busy pnum t =
     map_option (\<lambda>(vctId, g).
        let t = t\<lparr>it_garbageOwner := g\<rparr> in
        if length vctId < unat pnum
        then (let len = pnum - of_nat (length vctId); (pid, h) = GetAndIncTotalPageCount len (it_headPage t)
              in (vctId @ map (\<lambda>i. pid + of_nat i) [0..<unat len], t\<lparr>it_headPage := h\<rparr>))
        else (vctId, t))
       (GO_ApplyIndexPages pick (ucast pnum) (it_block t) busy (it_garbageOwner t))"

definition RecyclePageId :: "u32 \<Rightarrow> u16 \<Rightarrow> IndexTree \<Rightarrow> IndexTree option" where
  "RecyclePageId firstId num t = map_option (\<lambda>g. t\<lparr>it_garbageOwner := g\<rparr>) (RecyclePage firstId num (it_garbageOwner t))"

definition UpdateRootPage :: "page_ref \<Rightarrow> u32 \<Rightarrow> IndexTree \<Rightarrow> IndexTree" where
  "UpdateRootPage root pid t = t\<lparr>it_rootPage := Some root, it_headPage := SetRootPageID pid (it_headPage t)\<rparr>"

section \<open>Counters\<close>

definition UpdateRecordNumber :: "int \<Rightarrow> u64 \<Rightarrow> IndexTree \<Rightarrow> IndexTree option" where
  "UpdateRecordNumber iRange recNum t =
     (if length (it_vctRange t) > 1 then
        (if 0 \<le> iRange \<and> iRange < int (length (it_vctRange t)) then
           let r = it_vctRange t ! nat iRange in
           Some (t\<lparr>it_vctRange := (it_vctRange t)[nat iRange := r\<lparr>ir_recordNumber := ir_recordNumber r + recNum\<rparr>]\<rparr>)
         else None)
      else Some (t\<lparr>it_headPage := snd (GetAndIncTotalRecordCount recNum (it_headPage t))\<rparr>))"

definition ApplyStamp :: "int \<Rightarrow> IndexTree \<Rightarrow> (u64 \<times> IndexTree) option" where
  "ApplyStamp iRange t =
     (if length (it_vctRange t) > 1 then
        (if 0 \<le> iRange \<and> iRange < int (length (it_vctRange t)) then
           let range = it_vctRange t ! nat iRange;
               (range, h) =
                 (if ir_recordStampStart range \<ge> ir_recordStampEnd range
                  then (let (s, h) = GetAndIncRecordStamp STAMP_BATCH (it_headPage t)
                        in (range\<lparr>ir_recordStampStart := s, ir_recordStampEnd := s + STAMP_BATCH\<rparr>, h))
                  else (range, it_headPage t));
               tmp = ir_recordStampStart range
           in Some (tmp, t\<lparr>it_headPage := h,
                          it_vctRange := (it_vctRange t)[nat iRange := range\<lparr>ir_recordStampStart := ir_recordStampStart range + 1\<rparr>]\<rparr>)
         else None)
      else let (s, h) = GetAndIncRecordStamp 1 (it_headPage t) in Some (s, t\<lparr>it_headPage := h\<rparr>))"

definition ApplyAutoIncKey :: "int \<Rightarrow> u64 \<Rightarrow> IndexTree \<Rightarrow> (u64 \<times> IndexTree) option" where
  "ApplyAutoIncKey iRange step t =
     (if it_indexType t \<noteq> PRIMARY then None
      else if length (it_vctRange t) > 1 then
        (if 0 \<le> iRange \<and> iRange < int (length (it_vctRange t)) then
           let range = it_vctRange t ! nat iRange;
               (range, h) =
                 (if ir_incKeyStart range \<ge> ir_incKeyEnd range
                  then (let (s, h) = GetAndIncAutoIncrementKey INC_KEY_BATCH (it_headPage t)
                        in (range\<lparr>ir_incKeyStart := s, ir_incKeyEnd := s + INC_KEY_BATCH\<rparr>, h))
                  else (range, it_headPage t));
               tmp = ir_incKeyStart range
           in Some (tmp, t\<lparr>it_headPage := h,
                          it_vctRange := (it_vctRange t)[nat iRange := range\<lparr>ir_incKeyStart := ir_incKeyStart range + step\<rparr>]\<rparr>)
         else None)
      else let (s, h) = GetAndIncAutoIncrementKey step (it_headPage t) in Some (s, t\<lparr>it_headPage := h\<rparr>))"

end
