(* ===== verification/Page_Cache.thy ===== *)
theory Page_Cache
  imports Leaf_Page
begin

text \<open>
  The pages in memory and the pool that owns them: \<open>pool/CachePagePool.{h,cpp}\<close>, the constructors of the pages
  and \<open>CachePage::CalcScore\<close>. Pages are objects of a heap: \<open>ph_pages\<close> maps an address to the page there. The
  pool finds pages by the hash code of file id and page id; pages that are new in the tree wait in a second
  map until the next run of \<open>PoolManage\<close>. A failed assertion and a bad access are \<open>None\<close>. \<open>alloc\<close> is the
  memory that \<open>CachePool\<close> hands out. The operations run under the mutex of the pool and are one step each; only
  \<open>PoolManage\<close> selects its pages before it takes the mutex, and what other threads do in between is an argument.
\<close>

section \<open>Pages as objects\<close>

datatype TreePage = BranchNode BranchPage | LeafNode LeafPage

fun tp_status :: "TreePage \<Rightarrow> PageStatus" where
  "tp_status (BranchNode p) = cp_pageStatus p"
| "tp_status (LeafNode p) = cp_pageStatus p"

fun SetPageStatus :: "PageStatus \<Rightarrow> TreePage \<Rightarrow> TreePage" where
  "SetPageStatus s (BranchNode p) = BranchNode (p\<lparr>cp_pageStatus := s\<rparr>)"
| "SetPageStatus s (LeafNode p) = LeafNode (p\<lparr>cp_pageStatus := s\<rparr>)"

fun tp_SetParentPage :: "page_ref option \<Rightarrow> TreePage \<Rightarrow> TreePage" where
  "tp_SetParentPage parent (BranchNode p) = BranchNode (SetParentPage p parent)"
| "tp_SetParentPage parent (LeafNode p) = LeafNode (SetParentPage p parent)"

fun tp_HashCode :: "TreePage \<Rightarrow> u64" where
  "tp_HashCode (BranchNode p) = HashCode p"
| "tp_HashCode (LeafNode p) = HashCode p"

fun tp_fileId :: "TreePage \<Rightarrow> u32" where
  "tp_fileId (BranchNode p) = cp_fileId p"
| "tp_fileId (LeafNode p) = cp_fileId p"

text \<open>The index tree that a page belongs to, named by its 16-bit file id.\<close>

definition tp_tree :: "TreePage \<Rightarrow> u16" where
  "tp_tree p = ucast (tp_fileId p)"

fun tp_Releaseable :: "TreePage \<Rightarrow> bool" where
  "tp_Releaseable (BranchNode p) = Releaseable p"
| "tp_Releaseable (LeafNode p) = Releaseable p"

fun tp_referred :: "TreePage \<Rightarrow> bool" where
  "tp_referred (BranchNode p) = cp_bRefered p"
| "tp_referred (LeafNode p) = cp_bRefered p"

fun SetReferred :: "IndexType \<Rightarrow> bool \<Rightarrow> TreePage \<Rightarrow> TreePage option" where
  "SetReferred t b (BranchNode p) =
     map_option (\<lambda>p. BranchNode (p\<lparr>cp_bRefered := b\<rparr>))
       (if b then (if cp_pageStatus p = PS_VALID \<and> ip_vctRecord p = [] then BranchPage_LoadRecords t p else Some p)
        else Some (BranchPage_ClearRecords p))"
| "SetReferred t b (LeafNode p) =
     map_option (\<lambda>p. LeafNode (p\<lparr>cp_bRefered := b\<rparr>))
       (if b then (if cp_pageStatus p = PS_VALID \<and> ip_vctRecord p = [] then LeafPage_LoadRecords t p else Some p)
        else Some (LeafPage_ClearRecords p))"

text \<open>The score is multiplied by a floating-point number and truncated; it stays exact at this width.\<close>

definition CalcScore :: "'a CachePage_scheme \<Rightarrow> 'a CachePage_scheme" where
  "CalcScore p =
     (let s = unat (cp_score p) in
      if cp_bRefered p then (if s < 30000 then p\<lparr>cp_score := of_nat (s * 3 div 2)\<rparr> else p)
      else if s > 5 then p\<lparr>cp_score := of_nat (s * 66 div 100)\<rparr> else p)"

fun tp_CalcScore :: "TreePage \<Rightarrow> u32 \<times> TreePage" where
  "tp_CalcScore (BranchNode p) = (let p = CalcScore p in (cp_score p, BranchNode p))"
| "tp_CalcScore (LeafNode p) = (let p = CalcScore p in (cp_score p, LeafNode p))"

text \<open>The constructors for a page of the file that has not been read yet.\<close>

definition BranchPage_existing :: "alloc \<Rightarrow> u32 \<Rightarrow> u32 \<Rightarrow> BranchPage" where
  "BranchPage_existing alloc fileId pageId =
     \<lparr>cp_bysPage = alloc INDEX_PAGE_SIZE, cp_pageId = pageId, cp_fileId = fileId, cp_bDirty = False,
      cp_bRecordUpdated = False, cp_pageStatus = PS_EMPTY, cp_pageType = BRANCH_PAGE, cp_bRefered = True,
      cp_bWriteQueue = False, cp_bNeedDisk = False, cp_score = 100000, cp_waiting = 0, cp_lockOwner = None,
      ip_parentPageId = 0, ip_committedDataLength = 0, ip_tempDataLength = 0, ip_recordNum = 0,
      ip_parentPage = None, ip_vctRecord = []\<rparr>"

definition LeafPage_existing :: "alloc \<Rightarrow> u32 \<Rightarrow> u32 \<Rightarrow> LeafPage" where
  "LeafPage_existing alloc fileId pageId =
     \<lparr>cp_bysPage = alloc INDEX_PAGE_SIZE, cp_pageId = pageId, cp_fileId = fileId, cp_bDirty = False,
      cp_bRecordUpdated = False, cp_pageStatus = PS_EMPTY, cp_pageType = LEAF_PAGE, cp_bRefered = True,
      cp_bWriteQueue = False, cp_bNeedDisk = False, cp_score = 100000, cp_waiting = 0, cp_lockOwner = None,
      ip_parentPageId = 0, ip_committedDataLength = 0, ip_tempDataLength = 0, ip_recordNum = 0,
      ip_parentPage = None, ip_vctRecord = [],
      lp_prevPageId = PAGE_NULL_POINTER, lp_nextPageId = PAGE_NULL_POINTER, lp_prevPage = None, lp_nextPage = None,
      lp_bRangeEndPage = False, lp_bRangeBeginPage = False\<rparr>"

text \<open>The constructors for a page that is new in the tree.\<close>

definition BranchPage_create :: "alloc \<Rightarrow> u32 \<Rightarrow> u32 \<Rightarrow> byte \<Rightarrow> u32 \<Rightarrow> BranchPage" where
  "BranchPage_create alloc fileId pageId pageLevel parentPageId =
     (let p = BranchPage_existing alloc fileId pageId in
      p\<lparr>cp_bysPage := (cp_bysPage p)[PAGE_LEVEL_OFFSET := pageLevel], ip_parentPageId := parentPageId, cp_pageStatus := PS_VALID\<rparr>)"

definition LeafPage_create :: "alloc \<Rightarrow> u32 \<Rightarrow> u32 \<Rightarrow> u32 \<Rightarrow> LeafPage" where
  "LeafPage_create alloc fileId pageId parentPageId =
     (let p = LeafPage_existing alloc fileId pageId in
      p\<lparr>cp_bysPage := (cp_bysPage p)[PAGE_LEVEL_OFFSET := 0], ip_parentPageId := parentPageId, cp_pageStatus := PS_VALID\<rparr>)"

section \<open>The pool\<close>

record PageHeap =
  ph_pages :: "page_ref \<rightharpoonup> TreePage"
  ph_fresh :: page_ref
  ph_mapCache :: "u64 \<rightharpoonup> page_ref"
  ph_tmpCache :: "u64 \<rightharpoonup> page_ref"
  ph_midPage :: u64
  ph_readQueue :: "page_ref list"
  ph_pagesInMem :: "u16 \<rightharpoonup> u32"

text \<open>
  What the pool asks an index tree for. The trees count their pages in memory; \<open>ph_pagesInMem\<close> has the
  counter of every tree that has not been deleted, by file id. A tree deletes itself with its last page.
\<close>

record TreeRef =
  tr_fileId :: u16
  tr_indexType :: IndexType

definition IncPages :: "u16 \<Rightarrow> u32 \<Rightarrow> PageHeap \<Rightarrow> PageHeap option" where
  "IncPages fileId pnum h =
     (case ph_pagesInMem h fileId of
        None \<Rightarrow> None
      | Some old \<Rightarrow> Some (h\<lparr>ph_pagesInMem := (ph_pagesInMem h)(fileId \<mapsto> old + pnum)\<rparr>))"

definition DecPages :: "u16 \<Rightarrow> u32 \<Rightarrow> PageHeap \<Rightarrow> PageHeap option" where
  "DecPages fileId pnum h =
     (case ph_pagesInMem h fileId of
        None \<Rightarrow> None
      | Some old \<Rightarrow>
          if old < pnum then None
          else Some (h\<lparr>ph_pagesInMem := (ph_pagesInMem h)(fileId := (if old = pnum then None else Some (old - pnum)))\<rparr>))"

definition put_page :: "page_ref \<Rightarrow> TreePage \<Rightarrow> PageHeap \<Rightarrow> PageHeap" where
  "put_page r p h = h\<lparr>ph_pages := (ph_pages h)(r \<mapsto> p)\<rparr>"

definition AddPage :: "page_ref \<Rightarrow> PageHeap \<Rightarrow> PageHeap option" where
  "AddPage r h =
     (case ph_pages h r of
        None \<Rightarrow> None
      | Some p \<Rightarrow>
          if ph_mapCache h (tp_HashCode p) = None \<and> ph_tmpCache h (tp_HashCode p) = None
          then Some (h\<lparr>ph_tmpCache := (ph_tmpCache h)(tp_HashCode p \<mapsto> r)\<rparr>)
          else None)"

fun AddPages :: "page_ref list \<Rightarrow> PageHeap \<Rightarrow> PageHeap option" where
  "AddPages [] h = Some h"
| "AddPages (r # rs) h = (case AddPage r h of None \<Rightarrow> None | Some h \<Rightarrow> AddPages rs h)"

definition refer :: "IndexType \<Rightarrow> page_ref \<Rightarrow> PageHeap \<Rightarrow> PageHeap option" where
  "refer t r h =
     (case ph_pages h r of None \<Rightarrow> None | Some p \<Rightarrow> map_option (\<lambda>p. put_page r p h) (SetReferred t True p))"

definition Pool_GetPage ::
    "alloc \<Rightarrow> u32 \<Rightarrow> PageType \<Rightarrow> TreeRef \<Rightarrow> PageHeap \<Rightarrow> (page_ref \<times> PageHeap) option" where
  "Pool_GetPage alloc pageId type tr h =
     (let hashId = CalcHashCode (ucast (tr_fileId tr)) pageId in
      case ph_mapCache h hashId of
        Some r \<Rightarrow> map_option (\<lambda>h. (r, h)) (refer (tr_indexType tr) r h)
      | None \<Rightarrow>
          (case ph_tmpCache h hashId of
             Some r \<Rightarrow> map_option (\<lambda>h. (r, h)) (refer (tr_indexType tr) r h)
           | None \<Rightarrow>
               if type \<noteq> LEAF_PAGE \<and> type \<noteq> BRANCH_PAGE then None
               else
                 let page = (if type = LEAF_PAGE then LeafNode (LeafPage_existing alloc (ucast (tr_fileId tr)) pageId)
                             else BranchNode (BranchPage_existing alloc (ucast (tr_fileId tr)) pageId));
                     r = ph_fresh h
                 in case IncPages (tr_fileId tr) 1 ((put_page r page h)\<lparr>ph_fresh := r + 1\<rparr>) of
                      None \<Rightarrow> None
                    | Some h \<Rightarrow>
                        map_option (\<lambda>h. (r, h\<lparr>ph_mapCache := (ph_mapCache h)(hashId \<mapsto> r)\<rparr>)) (refer (tr_indexType tr) r h)))"

fun get_pages :: "alloc \<Rightarrow> PageType \<Rightarrow> TreeRef \<Rightarrow> u32 list \<Rightarrow> PageHeap \<Rightarrow> (page_ref list \<times> PageHeap) option" where
  "get_pages alloc type tr [] h = Some ([], h)"
| "get_pages alloc type tr (pid # pids) h =
     (case Pool_GetPage alloc pid type tr h of
        None \<Rightarrow> None
      | Some (r, h) \<Rightarrow> map_option (\<lambda>(rs, h). (r # rs, h)) (get_pages alloc type tr pids h))"

definition GetPages :: "alloc \<Rightarrow> PageType \<Rightarrow> TreeRef \<Rightarrow> u32 list \<Rightarrow> PageHeap \<Rightarrow> (page_ref list \<times> PageHeap) option" where
  "GetPages alloc type tr vctPageId h = (if vctPageId = [] then None else get_pages alloc type tr vctPageId h)"

section \<open>Making room\<close>

datatype MemoryStatus = AMPLE | SCARE | CRITICAL | FATAL

definition GetMemoryStatus :: "int \<Rightarrow> int \<Rightarrow> MemoryStatus" where
  "GetMemoryStatus total_size used_mem =
     (let total_mem = total_size div 100 in
      if total_mem * 70 > used_mem then AMPLE
      else if total_mem * 90 > used_mem then SCARE
      else if total_mem * 100 > used_mem then CRITICAL
      else FATAL)"

primrec min_score :: "MemoryStatus \<Rightarrow> u32" where
  "min_score AMPLE = 30"
| "min_score SCARE = 1000"
| "min_score CRITICAL = 30000"
| "min_score FATAL = 65535"

text \<open>
  The scan of \<open>PoolManage\<close> over the hash codes \<open>codes\<close>, the elements of \<open>_mapCache\<close> from the start of the scan on in
  the order of the hash table. It does not take the mutex. It returns the pages to release and whether it stopped
  before the end; \<open>closed\<close> tells of an index tree whether it is closed.
\<close>

fun pool_scan :: "(u16 \<Rightarrow> bool) \<Rightarrow> u32 \<Rightarrow> u64 list \<Rightarrow> nat \<Rightarrow> PageHeap \<Rightarrow> (u64 list \<times> bool \<times> PageHeap) option" where
  "pool_scan closed lim [] n h = Some ([], False, h)"
| "pool_scan closed lim (k # ks) n h =
     (if n \<ge> 100000 then Some ([], True, h)
      else case ph_mapCache h k of
        None \<Rightarrow> None
      | Some r \<Rightarrow>
          (case ph_pages h r of
             None \<Rightarrow> None
           | Some p \<Rightarrow>
               let (score, p) = tp_CalcScore p; h = put_page r p h in
               if \<not> tp_Releaseable p \<or> \<not> closed (tp_tree p) \<and> score > lim then pool_scan closed lim ks n h
               else map_option (\<lambda>(vs, b, h). (k # vs, b, h)) (pool_scan closed lim ks (n + 1) h)))"

text \<open>
  \<open>delete\<close> of a page runs the destructor of \<open>IndexPage\<close>, which takes the page off the counter of its tree. The loop
  of \<open>PoolManage\<close> has done so before, thus a released page is counted off twice.
\<close>

definition IndexPage_delete :: "page_ref \<Rightarrow> PageHeap \<Rightarrow> PageHeap option" where
  "IndexPage_delete r h =
     (case ph_pages h r of
        None \<Rightarrow> None
      | Some p \<Rightarrow> map_option (\<lambda>h. h\<lparr>ph_pages := (ph_pages h)(r := None)\<rparr>) (DecPages (tp_tree p) 1 h))"

definition pool_release :: "u64 \<Rightarrow> PageHeap \<Rightarrow> PageHeap option" where
  "pool_release k h =
     (case ph_mapCache h k of
        None \<Rightarrow> None
      | Some r \<Rightarrow>
          (case ph_pages h r of
             None \<Rightarrow> None
           | Some p \<Rightarrow>
               (case DecPages (tp_tree p) 1 h of
                  None \<Rightarrow> None
                | Some h \<Rightarrow> map_option (\<lambda>h. h\<lparr>ph_mapCache := (ph_mapCache h)(k := None)\<rparr>) (IndexPage_delete r h))))"

fun release_victims :: "u64 list \<Rightarrow> PageHeap \<Rightarrow> PageHeap option" where
  "release_victims [] h = Some h"
| "release_victims (k # ks) h = (case pool_release k h of None \<Rightarrow> None | Some h \<Rightarrow> release_victims ks h)"

text \<open>What is done under the mutex: the selected pages are released and the new pages move into \<open>_mapCache\<close>.\<close>

definition pool_update :: "u64 list \<Rightarrow> u64 list \<Rightarrow> PageHeap \<Rightarrow> PageHeap option" where
  "pool_update victims hits h =
     (case release_victims victims h of
        None \<Rightarrow> None
      | Some h \<Rightarrow>
          if list_ex (\<lambda>k. ph_mapCache h k \<noteq> None) hits then None
          else Some (h\<lparr>ph_mapCache := ph_mapCache h ++ ph_tmpCache h, ph_tmpCache := Map.empty\<rparr>))"

text \<open>
  The new value of \<open>_midPage\<close> is read through \<open>iter\<close> when the scan has reached the end, which is a bad access;
  when it stopped before the end, \<open>_midPage\<close> is reset. \<open>keys\<close> lists the keys of \<open>_tmpCache\<close>; \<open>others\<close> is what the
  other threads do to the pool until \<open>PoolManage\<close> has the mutex.
\<close>

definition PoolManage ::
    "(u16 \<Rightarrow> bool) \<Rightarrow> (PageHeap \<Rightarrow> u64 list) \<Rightarrow> (PageHeap \<Rightarrow> PageHeap) \<Rightarrow> MemoryStatus \<Rightarrow> u64 list \<Rightarrow> PageHeap \<Rightarrow>
       (u64 list \<times> PageHeap) option" where
  "PoolManage closed keys others status codes h =
     (case pool_scan closed (min_score status) codes 0 h of
        None \<Rightarrow> None
      | Some (victims, stopped, h) \<Rightarrow>
          if \<not> stopped then None
          else
            let h = h\<lparr>ph_midPage := 0xFFFFFFFFFFFFFFFF\<rparr> in
            if victims = [] \<and> keys h = [] then Some ([], h)
            else let h = others h in map_option (\<lambda>h. (victims, h)) (pool_update victims (keys h) h))"

section \<open>One object per page\<close>

definition cached :: "PageHeap \<Rightarrow> u64 \<Rightarrow> page_ref option" where
  "cached h k = (case ph_mapCache h k of Some r \<Rightarrow> Some r | None \<Rightarrow> ph_tmpCache h k)"

text \<open>Every entry of the two maps points to a page in memory that has that hash code.\<close>

definition pool_inv :: "PageHeap \<Rightarrow> bool" where
  "pool_inv h \<longleftrightarrow>
     (\<forall>k r. ph_mapCache h k = Some r \<or> ph_tmpCache h k = Some r \<longrightarrow>
        r < ph_fresh h \<and> (\<exists>p. ph_pages h r = Some p \<and> tp_HashCode p = k)) \<and>
     (\<forall>k. ph_mapCache h k = None \<or> ph_tmpCache h k = None)"

lemma SetReferred_props:
  "SetReferred t b p = Some q \<Longrightarrow> tp_HashCode q = tp_HashCode p \<and> tp_referred q = b \<and> tp_status q = tp_status p"
  by (cases p) (auto simp: HashCode_def BranchPage_LoadRecords_def LeafPage_LoadRecords_def BranchPage_ClearRecords_def
      LeafPage_ClearRecords_def split: if_splits)

lemma refer_props:
  assumes "refer t r h = Some h'"
  shows "ph_mapCache h' = ph_mapCache h" "ph_tmpCache h' = ph_tmpCache h" "ph_fresh h' = ph_fresh h"
    "\<exists>p q. ph_pages h r = Some p \<and> ph_pages h' = (ph_pages h)(r \<mapsto> q) \<and> tp_HashCode q = tp_HashCode p \<and> tp_referred q \<and> tp_status q = tp_status p"
  using assms by (auto simp: refer_def put_page_def dest!: SetReferred_props split: option.splits)

lemma refer_inv: "pool_inv h \<Longrightarrow> refer t r h = Some h' \<Longrightarrow> pool_inv h'"
  using refer_props [of t r h h'] unfolding pool_inv_def by (fastforce split: if_splits)

lemma ucast_tree [simp]: "(ucast (ucast (f :: u16) :: u32) :: u64) = ucast f"
  by (rule bit_word_eqI) (auto simp: bit_simps dest: bit_imp_le_length)

lemma new_page_hash:
  "HashCode (LeafPage_existing alloc (ucast (f :: u16)) i) = CalcHashCode (ucast f) i"
  "HashCode (BranchPage_existing alloc (ucast (f :: u16)) i) = CalcHashCode (ucast f) i"
  by (simp_all add: HashCode_def LeafPage_existing_def BranchPage_existing_def)

lemma refer_mapCache:
  "refer t r (h\<lparr>ph_mapCache := m\<rparr>) = map_option (\<lambda>h. h\<lparr>ph_mapCache := m\<rparr>) (refer t r h)"
  unfolding refer_def put_page_def by (cases "ph_pages h r"; cases "SetReferred t True (the (ph_pages h r))") simp_all

lemma insert_page_inv:
  assumes "pool_inv h" "tp_HashCode page = k" "ph_mapCache h k = None" "ph_tmpCache h k = None"
  shows "pool_inv ((put_page (ph_fresh h) page h)\<lparr>ph_fresh := ph_fresh h + 1, ph_mapCache := (ph_mapCache h)(k \<mapsto> ph_fresh h)\<rparr>)"
  using assms unfolding pool_inv_def put_page_def by (fastforce split: if_splits)

lemma IncPages_fields:
  assumes "IncPages f n h = Some h'"
  shows "pool_inv h' = pool_inv h" "ph_mapCache h' = ph_mapCache h" "ph_tmpCache h' = ph_tmpCache h"
    "ph_pages h' = ph_pages h" "ph_fresh h' = ph_fresh h"
  using assms by (auto simp: pool_inv_def IncPages_def split: option.splits)

lemma Pool_GetPage_inv:
  assumes inv: "pool_inv h" and get: "Pool_GetPage alloc pid type tr h = Some (r, h')"
  shows "pool_inv h' \<and> cached h' (CalcHashCode (ucast (tr_fileId tr)) pid) = Some r \<and>
     (\<forall>k s. cached h k = Some s \<longrightarrow> cached h' k = Some s) \<and> (\<exists>q. ph_pages h' r = Some q \<and> tp_referred q)"
proof -
  let ?k = "CalcHashCode (ucast (tr_fileId tr)) pid"
  let ?page = "if type = LEAF_PAGE then LeafNode (LeafPage_existing alloc (ucast (tr_fileId tr)) pid)
    else BranchNode (BranchPage_existing alloc (ucast (tr_fileId tr)) pid)"
  let ?h = "(put_page (ph_fresh h) ?page h)\<lparr>ph_fresh := ph_fresh h + 1\<rparr>"
  let ?m = "(ph_mapCache h)(?k \<mapsto> ph_fresh h)"
  have keep: "pool_inv h' \<and> (\<forall>k. cached h' k = cached h k) \<and> (\<exists>q. ph_pages h' r = Some q \<and> tp_referred q)"
    if "refer (tr_indexType tr) r h = Some h'"
    using refer_inv [OF inv that] refer_props(4) [OF that] unfolding cached_def refer_props(1,2) [OF that] by auto
  show ?thesis
  proof (cases "cached h ?k")
    case (Some s)
    then have "s = r \<and> refer (tr_indexType tr) r h = Some h'"
      using get by (cases "ph_mapCache h ?k") (auto simp: Pool_GetPage_def cached_def Let_def)
    then show ?thesis using keep Some by simp
  next
    case None
    then have no: "ph_mapCache h ?k = None" "ph_tmpCache h ?k = None" by (auto simp: cached_def split: option.splits)
    obtain h0 h1 where new: "r = ph_fresh h" "IncPages (tr_fileId tr) 1 ?h = Some h0" "refer (tr_indexType tr) r h0 = Some h1"
        "h' = h1\<lparr>ph_mapCache := (ph_mapCache h1)(?k \<mapsto> r)\<rparr>"
      using get no by (cases "type = LEAF_PAGE"; cases "type = BRANCH_PAGE") (auto simp: Pool_GetPage_def Let_def split: option.splits)
    note f = IncPages_fields [OF new(2)] refer_props(1-3) [OF new(3)]
    have h': "h' = h1\<lparr>ph_mapCache := ?m\<rparr>" using new(1,4) f by (simp add: put_page_def)
    have "pool_inv ((put_page (ph_fresh h) ?page h)\<lparr>ph_fresh := ph_fresh h + 1, ph_mapCache := ?m\<rparr>)"
      by (rule insert_page_inv [OF inv _ no]) (simp add: new_page_hash)
    then have "pool_inv (h0\<lparr>ph_mapCache := ?m\<rparr>)"
      using f(3-5) by (simp add: pool_inv_def put_page_def)
    then have i: "pool_inv h'" by (rule refer_inv [where t = "tr_indexType tr" and r = r]) (simp add: refer_mapCache new(3) h')
    have m: "ph_mapCache h' = (ph_mapCache h)(?k \<mapsto> r)" "ph_tmpCache h' = ph_tmpCache h"
      using f new(1) h' by (simp_all add: put_page_def)
    have c: "cached h' k = (if k = ?k then Some r else cached h k)" for k by (simp add: cached_def m split: option.split)
    show ?thesis using i c None refer_props(4) [OF new(3)] h' by auto
  qed
qed

text \<open>
  C29: The pool has at most one object for a page. In a pool whose entries point to pages in memory with their hash
  codes, each in one of the two maps only, let \<open>GetPage\<close> of a page return an object and then, after a call of \<open>GetPages\<close>
  for any list of pages of any tree, \<open>GetPage\<close> be called for the same page id and the same tree. If these calls return, the
  last one gives the same object, which is marked as referred, and the pool is again such a pool. No page is
  released in between.
\<close>
theorem Pool_GetPage_same:
  assumes "pool_inv h" "Pool_GetPage alloc pid type tr h = Some (r, h1)"
    and "get_pages alloc type2 tr2 pids h1 = Some (rs, h2)" "Pool_GetPage alloc pid type3 tr h2 = Some (r', h3)"
  shows "r' = r \<and> pool_inv h3 \<and> (\<exists>q. ph_pages h3 r' = Some q \<and> tp_referred q)"
proof -
  have many: "pool_inv h2 \<and> (\<forall>k s. cached h1 k = Some s \<longrightarrow> cached h2 k = Some s)"
    if "pool_inv h1" "get_pages alloc type2 tr2 pids h1 = Some (rs, h2)" for h1 rs
    using that
  proof (induction pids arbitrary: h1 rs)
    case (Cons pid pids)
    obtain r' h' rs' where st: "Pool_GetPage alloc pid type2 tr2 h1 = Some (r', h')"
      "get_pages alloc type2 tr2 pids h' = Some (rs', h2)"
      using Cons.prems(2) by (auto split: option.splits)
    show ?case using Pool_GetPage_inv [OF Cons.prems(1) st(1)] Cons.IH [OF _ st(2)] by auto
  qed simp
  note one = Pool_GetPage_inv [OF assms(1,2)]
  have two: "pool_inv h2" "cached h2 (CalcHashCode (ucast (tr_fileId tr)) pid) = Some r"
    using many [OF _ assms(3)] one by auto
  note three = Pool_GetPage_inv [OF two(1) assms(4)]
  then have "cached h3 (CalcHashCode (ucast (tr_fileId tr)) pid) = Some r'" by simp
  moreover have "cached h3 (CalcHashCode (ucast (tr_fileId tr)) pid) = Some r" using three two(2) by blast
  ultimately show ?thesis using three by simp
qed

definition empty_heap :: PageHeap where
  "empty_heap = \<lparr>ph_pages = Map.empty, ph_fresh = 0, ph_mapCache = Map.empty, ph_tmpCache = Map.empty,
     ph_midPage = 0xFFFFFFFFFFFFFFFF, ph_readQueue = [], ph_pagesInMem = (\<lambda>_. Some 0)\<rparr>"

theorem Pool_GetPage_same_witness:
  "\<exists>h1 rs h2 r' h3. Pool_GetPage (\<lambda>n. replicate n 0) 3 LEAF_PAGE \<lparr>tr_fileId = 1, tr_indexType = PRIMARY\<rparr> empty_heap = Some (0, h1) \<and>
     get_pages (\<lambda>n. replicate n 0) LEAF_PAGE \<lparr>tr_fileId = 1, tr_indexType = PRIMARY\<rparr> [4] h1 = Some (rs, h2) \<and>
     Pool_GetPage (\<lambda>n. replicate n 0) 3 LEAF_PAGE \<lparr>tr_fileId = 1, tr_indexType = PRIMARY\<rparr> h2 = Some (r', h3) \<and> r' = 0"
proof -
  let ?a = "\<lambda>n. replicate n 0" and ?t = "\<lparr>tr_fileId = 1, tr_indexType = PRIMARY\<rparr>"
  obtain h1 where 1: "Pool_GetPage ?a 3 LEAF_PAGE ?t empty_heap = Some (0, h1)"
    "\<exists>p. ph_pages h1 0 = Some (LeafNode p) \<and> cp_pageStatus p = PS_EMPTY" "ph_mapCache h1 = [CalcHashCode 1 3 \<mapsto> 0]" "ph_tmpCache h1 = Map.empty" "ph_fresh h1 = 1"
    "ph_pagesInMem h1 1 = Some 1"
    by (simp add: Pool_GetPage_def empty_heap_def refer_def put_page_def LeafPage_existing_def IncPages_def)
  have ne: "CalcHashCode 1 4 \<noteq> CalcHashCode 1 3" by (simp add: CalcHashCode_def)
  obtain rs h2 where 2: "get_pages ?a LEAF_PAGE ?t [4] h1 = Some (rs, h2)"
    "\<exists>p. ph_pages h2 0 = Some (LeafNode p) \<and> cp_pageStatus p = PS_EMPTY" "ph_mapCache h2 (CalcHashCode 1 3) = Some 0"
    using 1(2-) ne by (auto simp: Pool_GetPage_def refer_def put_page_def LeafPage_existing_def IncPages_def)
  obtain r' h3 where 3: "Pool_GetPage ?a 3 LEAF_PAGE ?t h2 = Some (r', h3)"
    using 2(2-) by (auto simp: Pool_GetPage_def refer_def)
  have "pool_inv empty_heap" by (simp add: pool_inv_def empty_heap_def)
  from Pool_GetPage_same [OF this 1(1) 2(1) 3] show ?thesis using 1(1) 2(1) 3 by blast
qed

section \<open>Only unused pages are released\<close>

lemma CalcScore_fields [simp]:
  "cp_bRefered (CalcScore p) = cp_bRefered p" "cp_pageStatus (CalcScore p) = cp_pageStatus p"
  "cp_fileId (CalcScore p) = cp_fileId p" "cp_pageId (CalcScore p) = cp_pageId p"
  by (simp_all add: CalcScore_def Let_def)

lemma CalcScore_keeps:
  assumes "tp_CalcScore p = (s, q)"
  shows "tp_Releaseable q = tp_Releaseable p" "tp_referred q = tp_referred p" "tp_status q = tp_status p" "tp_HashCode q = tp_HashCode p"
  using assms by (cases p; auto simp: Let_def Releaseable_def HashCode_def)+

lemma Releaseable_iff: "tp_Releaseable p \<longleftrightarrow> \<not> tp_referred p \<and> tp_status p = PS_VALID"
  by (cases p) (simp_all add: Releaseable_def)

text \<open>The scan changes the scores only, and it picks pages that nobody refers to.\<close>

definition same_state :: "PageHeap \<Rightarrow> PageHeap \<Rightarrow> bool" where
  "same_state h h' \<longleftrightarrow> ph_mapCache h' = ph_mapCache h \<and> ph_tmpCache h' = ph_tmpCache h \<and> dom (ph_pages h') = dom (ph_pages h) \<and>
     (\<forall>r p q. ph_pages h r = Some p \<longrightarrow> ph_pages h' r = Some q \<longrightarrow> tp_referred q = tp_referred p \<and> tp_status q = tp_status p)"

lemma same_state_trans: "same_state a b \<Longrightarrow> same_state b c \<Longrightarrow> same_state a c"
  unfolding same_state_def by (metis domIff domD)

lemma pool_scan_victims:
  "pool_scan closed lim ks n h = Some (vs, stopped, h') \<Longrightarrow>
   same_state h h' \<and> (\<forall>k \<in> set vs. \<exists>r p. ph_mapCache h k = Some r \<and> ph_pages h r = Some p \<and> \<not> tp_referred p \<and> tp_status p = PS_VALID)"
proof (induction closed lim ks n h arbitrary: vs stopped h' rule: pool_scan.induct)
  case (1 closed lim n h)
  then show ?case by (auto simp: same_state_def)
next
  case (2 closed lim k ks n h)
  show ?case
  proof (cases "n \<ge> 100000")
    case True
    then show ?thesis using "2.prems" by (auto simp: same_state_def)
  next
    case False
    obtain r p where rp: "ph_mapCache h k = Some r" "ph_pages h r = Some p" using "2.prems" False by (auto split: option.splits)
    obtain s q where q: "tp_CalcScore p = (s, q)" by (cases "tp_CalcScore p")
    let ?h = "put_page r q h"
    note kp = CalcScore_keeps [OF q]
    have st: "same_state h ?h" using rp kp by (auto simp: same_state_def put_page_def)
    have old: "\<exists>r p. ph_mapCache h k = Some r \<and> ph_pages h r = Some p \<and> \<not> tp_referred p \<and> tp_status p = PS_VALID"
      if "\<exists>r p. ph_mapCache ?h k = Some r \<and> ph_pages ?h r = Some p \<and> \<not> tp_referred p \<and> tp_status p = PS_VALID" for k
      using that st rp kp by (auto simp: put_page_def split: if_splits)
    show ?thesis
    proof (cases "\<not> tp_Releaseable q \<or> \<not> closed (tp_tree q) \<and> s > lim")
      case True
      then have "pool_scan closed lim ks n ?h = Some (vs, stopped, h')" using "2.prems" False rp q by simp
      from "2.IH"(1) [OF False rp refl q [symmetric] refl True this]
      show ?thesis using st same_state_trans old by blast
    next
      case F: False
      then obtain vs' where vs': "vs = k # vs'" "pool_scan closed lim ks (n + 1) ?h = Some (vs', stopped, h')"
        using "2.prems" False rp q by auto
      from "2.IH"(2) [OF False rp refl q [symmetric] refl F vs'(2)]
      have ih: "same_state ?h h'" "\<forall>k \<in> set vs'. \<exists>r p. ph_mapCache ?h k = Some r \<and> ph_pages ?h r = Some p \<and> \<not> tp_referred p \<and> tp_status p = PS_VALID"
        by auto
      have "tp_Releaseable p" using F kp by simp
      then show ?thesis using st same_state_trans [OF st ih(1)] ih(2) old rp vs'(1) by (auto simp: Releaseable_iff)
    qed
  qed
qed

lemma DecPages_fields:
  "DecPages f n h = Some h' \<Longrightarrow> ph_pages h' = ph_pages h \<and> ph_mapCache h' = ph_mapCache h"
  by (auto simp: DecPages_def split: option.splits if_splits)

lemma pool_release_fields:
  assumes "pool_release k h = Some h'"
  shows "\<exists>r. ph_mapCache h k = Some r \<and> ph_pages h' = (ph_pages h)(r := None) \<and> ph_mapCache h' = (ph_mapCache h)(k := None)"
  using assms by (auto simp: pool_release_def IndexPage_delete_def split: option.splits dest!: DecPages_fields)

text \<open>What is released under the mutex are the pages that have been selected, and no other page.\<close>

theorem release_victims_other:
  "release_victims vs h = Some h' \<Longrightarrow> \<forall>k \<in> set vs. ph_mapCache h k \<noteq> Some r \<Longrightarrow> ph_pages h' r = ph_pages h r"
proof (induction vs arbitrary: h)
  case (Cons k vs)
  then obtain h1 where h1: "pool_release k h = Some h1" "release_victims vs h1 = Some h'" by (auto split: option.splits)
  obtain x where x: "ph_mapCache h k = Some x" "ph_pages h1 = (ph_pages h)(x := None)" "ph_mapCache h1 = (ph_mapCache h)(k := None)"
    using pool_release_fields [OF h1(1)] by blast
  have "ph_pages h' r = ph_pages h1 r" using Cons.IH [OF h1(2)] Cons.prems(2) x(3) by simp
  then show ?case using Cons.prems(2) x(1,2) by auto
qed simp

text \<open>
  A page that nobody refers to when the scan has ended, and nobody gets before the mutex is taken, is the only
  kind of page that is released: without other threads the pages in use stay in memory.
\<close>

theorem scan_release_keeps_used:
  assumes "pool_scan closed lim codes 0 h = Some (victims, stopped, h1)" "release_victims victims h1 = Some h2"
    and "ph_pages h r = Some p" "tp_referred p \<or> tp_status p \<noteq> PS_VALID"
  shows "\<exists>q. ph_pages h2 r = Some q \<and> tp_referred q = tp_referred p \<and> tp_status q = tp_status p"
proof -
  note vic = pool_scan_victims [OF assms(1)]
  have "r \<in> dom (ph_pages h1)" using vic assms(3) by (auto simp: same_state_def)
  then obtain q where q: "ph_pages h1 r = Some q" by auto
  then have "tp_referred q = tp_referred p" "tp_status q = tp_status p" using vic assms(3) by (auto simp: same_state_def)
  moreover have "\<forall>k \<in> set victims. ph_mapCache h1 k \<noteq> Some r"
    using vic assms(3,4) by (fastforce simp: same_state_def)
  then have "ph_pages h2 r = ph_pages h1 r" by (rule release_victims_other [OF assms(2)])
  ultimately show ?thesis using q by auto
qed

text \<open>A pool with a page that is referred and one that is not; the tree counts its two pages.\<close>

definition two_pages :: PageHeap where
  "two_pages = empty_heap\<lparr>ph_pages := [0 \<mapsto> LeafNode (LeafPage_create (\<lambda>n. replicate n 0) 1 3 0),
     1 \<mapsto> LeafNode ((LeafPage_create (\<lambda>n. replicate n 0) 1 4 0)\<lparr>cp_bRefered := False, cp_score := 20\<rparr>)],
     ph_fresh := 2, ph_mapCache := [CalcHashCode 1 3 \<mapsto> 0, CalcHashCode 1 4 \<mapsto> 1], ph_pagesInMem := [1 \<mapsto> 2]\<rparr>"

text \<open>
  The scan selects the page without a reference. The release counts it off twice, thus the tree deletes itself
  although a task still works on its other page.
\<close>

theorem PoolManage_deletes_tree:
  "\<exists>h1 h2 q. pool_scan (\<lambda>_. False) 30 [CalcHashCode 1 3, CalcHashCode 1 4] 0 two_pages = Some ([CalcHashCode 1 4], False, h1) \<and>
     pool_update [CalcHashCode 1 4] [] h1 = Some h2 \<and> ph_pagesInMem h2 1 = None \<and> ph_pages h2 0 = Some q \<and> tp_referred q"
proof -
  have ne: "CalcHashCode 1 4 \<noteq> CalcHashCode 1 3" by (simp add: CalcHashCode_def)
  show ?thesis using ne
    by (simp add: two_pages_def empty_heap_def put_page_def Releaseable_def CalcScore_def LeafPage_create_def LeafPage_existing_def Let_def
        pool_update_def pool_release_def IndexPage_delete_def DecPages_def tp_tree_def)
qed

text \<open>
  The scan runs without the mutex. A task that gets the selected page before \<open>PoolManage\<close> has the mutex refers to the
  page, and the page is released all the same.
\<close>

theorem PoolManage_releases_referred:
  "\<exists>h1 h2 q h3. pool_scan (\<lambda>_. False) 30 [CalcHashCode 1 3, CalcHashCode 1 4] 0 two_pages = Some ([CalcHashCode 1 4], False, h1) \<and>
     Pool_GetPage (\<lambda>n. replicate n 0) 4 LEAF_PAGE \<lparr>tr_fileId = 1, tr_indexType = PRIMARY\<rparr> h1 = Some (1, h2) \<and>
     ph_pages h2 1 = Some q \<and> tp_referred q \<and> pool_update [CalcHashCode 1 4] [] h2 = Some h3 \<and> ph_pages h3 1 = None"
proof -
  have ne: "CalcHashCode 1 4 \<noteq> CalcHashCode 1 3" by (simp add: CalcHashCode_def)
  show ?thesis using ne
    by (simp add: two_pages_def empty_heap_def put_page_def Releaseable_def CalcScore_def LeafPage_create_def LeafPage_existing_def Let_def
        pool_update_def pool_release_def IndexPage_delete_def DecPages_def tp_tree_def Pool_GetPage_def refer_def LeafPage_LoadRecords_def)
qed

text \<open>
  The scan of \<open>PoolManage\<close> that reaches the end of the hash map (fewer than 100000 pages are to be released) reads
  \<open>iter->first\<close> through the end iterator: the test that should remember where an interrupted scan goes on
  is inverted.
\<close>
theorem PoolManage_reads_end:
  assumes "length codes \<le> 100000"
  shows "PoolManage closed keys others status codes h = None"
proof -
  have "\<not> stopped" if "pool_scan closed lim ks n h = Some (vs, stopped, h')" "n + length ks \<le> 100000" for closed lim ks n h vs stopped h'
    using that
  proof (induction closed lim ks n h arbitrary: vs stopped h' rule: pool_scan.induct)
    case (2 closed lim k ks n h)
    obtain r p where rp: "ph_mapCache h k = Some r" "ph_pages h r = Some p" "\<not> n \<ge> 100000"
      using "2.prems" by (auto split: option.splits if_splits)
    obtain s q where q: "tp_CalcScore p = (s, q)" by (cases "tp_CalcScore p")
    show ?case
    proof (cases "\<not> tp_Releaseable q \<or> \<not> closed (tp_tree q) \<and> s > lim")
      case True
      then show ?thesis using "2.IH"(1) [OF rp(3,1,2) refl q [symmetric] refl True] "2.prems" rp q by simp
    next
      case False
      then obtain vs' where "pool_scan closed lim ks (n + 1) (put_page r q h) = Some (vs', stopped, h')"
        using "2.prems" rp q by auto
      then show ?thesis using "2.IH"(2) [OF rp(3,1,2) refl q [symmetric] refl False] "2.prems"(2) by simp
    qed
  qed simp
  then show ?thesis using assms by (fastforce simp: PoolManage_def split: option.splits)
qed

theorem PoolManage_reads_end_witness: "PoolManage (\<lambda>_. False) (\<lambda>_. []) (\<lambda>h. h) AMPLE [] empty_heap = None"
  by (rule PoolManage_reads_end) simp

end
