(* ===== verification/Tree_Search.thy ===== *)
theory Tree_Search
  imports Tree_Alloc Page_Cache
begin

text \<open>
  Finding the place of a key or record in the tree: \<open>IndexTree::GetPage\<close>, the two \<open>IndexTree::SearchPage\<close>, the two
  \<open>IndexTree::CalcIndexRange\<close> and the two \<open>IndexRange::GetTopPage\<close>. The loops of \<open>SearchPage\<close> go down one level
  per iteration; the model counts the iterations down (\<open>fuel\<close>), \<open>None\<close> is a failed assertion, a bad
  access or the end of the count.
\<close>

section \<open>Ranges\<close>

text \<open>The right borders of all ranges must be set: the search asserts it for those it looks at.\<close>

definition borders :: "IndexTree \<Rightarrow> BranchRecord list option" where
  "borders t =
     (if it_vctRange t \<noteq> [] \<and> list_all (\<lambda>r. ir_borderRecord r \<noteq> None) (it_vctRange t)
      then Some (map (the \<circ> ir_borderRecord) (it_vctRange t)) else None)"

definition CalcIndexRange_rec :: "IndexTree \<Rightarrow> 'a RawRecord_scheme \<Rightarrow> int option" where
  "CalcIndexRange_rec t rr =
     map_option (\<lambda>brs. let num = int (length brs);
                         (found, start) = bsearch (probe (rec_cmp (it_indexType t)) brs rr) (\<lambda>_. False) 0 (num - 1)
                     in if found then start else if start \<ge> num then num - 1 else start)
       (borders t)"

definition CalcIndexRange_key :: "IndexTree \<Rightarrow> RawKey \<Rightarrow> int option" where
  "CalcIndexRange_key t key =
     map_option (\<lambda>brs. let num = int (length brs);
                         bUnique = (it_indexType t \<noteq> NON_UNIQUE);
                         hr = probe CompareKey brs key;
                         (found, start) = bsearch hr (\<lambda>m. \<not> bUnique \<and> hr (m - 1) = 0) 0 (num - 1)
                     in if found then start else if start \<ge> num then num - 1 else start)
       (borders t)"

text \<open>\<open>GetTopPage\<close>: \<open>pages\<close> are the top pages of the range, each with its address.\<close>

definition last_records :: "(page_ref \<times> BranchPage) list \<Rightarrow> BranchRecord list option" where
  "last_records pages =
     (if pages \<noteq> [] \<and> list_all (\<lambda>(r, p). BranchPage_GetRecord INT32_MAX True p \<noteq> None) pages
      then Some (map (\<lambda>(r, p). the (BranchPage_GetRecord INT32_MAX True p)) pages) else None)"

definition GetTopPage_rec :: "IndexType \<Rightarrow> 'a RawRecord_scheme \<Rightarrow> (page_ref \<times> BranchPage) list \<Rightarrow> page_ref option" where
  "GetTopPage_rec type rr pages =
     map_option (\<lambda>brs. let num = int (length brs);
                         (found, start) = bsearch (probe (rec_cmp type) brs rr) (\<lambda>_. False) 0 (num - 1)
                     in fst (pages ! nat (if found then start else if start \<ge> num then num - 1 else start)))
       (last_records pages)"

definition GetTopPage_key :: "IndexType \<Rightarrow> RawKey \<Rightarrow> (page_ref \<times> BranchPage) list \<Rightarrow> page_ref option" where
  "GetTopPage_key type key pages =
     map_option (\<lambda>brs. let num = int (length brs);
                         bUnique = (type \<noteq> NON_UNIQUE);
                         hr = probe CompareKey brs key;
                         (found, start) = bsearch hr (\<lambda>m. \<not> bUnique \<and> hr (m - 1) = 0) 0 (num - 1)
                     in fst (pages ! nat (if found then start else if start \<ge> num then num - 1 else start)))
       (last_records pages)"

section \<open>Getting a page\<close>

text \<open>The memory, the checksum and the content of the file that the model takes as given.\<close>

record PageEnv =
  pe_alloc :: alloc
  pe_crc32 :: "buf \<Rightarrow> u32"
  pe_disk :: "u32 \<Rightarrow> buf"

fun tp_pageId :: "TreePage \<Rightarrow> u32" where
  "tp_pageId (BranchNode p) = cp_pageId p"
| "tp_pageId (LeafNode p) = cp_pageId p"

definition page_id_at :: "PageHeap \<Rightarrow> page_ref option \<Rightarrow> u32 option" where
  "page_id_at h r = (case r of None \<Rightarrow> None | Some r \<Rightarrow> map_option tp_pageId (ph_pages h r))"

text \<open>Reading a page at once: its content comes from the file and \<open>AfterRead\<close> initialises it.\<close>

fun tp_SyncRead :: "PageEnv \<Rightarrow> IndexType \<Rightarrow> PageHeap \<Rightarrow> TreePage \<Rightarrow> TreePage option" where
  "tp_SyncRead e t h (BranchNode p) =
     map_option BranchNode (AfterRead (pe_crc32 e) (BranchPage_InitParameters t (page_id_at h (ip_parentPage p)))
       (p\<lparr>cp_bysPage := pe_disk e (cp_pageId p)\<rparr>))"
| "tp_SyncRead e t h (LeafNode p) =
     map_option LeafNode (AfterRead (pe_crc32 e)
       (LeafPage_InitParameters t (page_id_at h (ip_parentPage p)) (page_id_at h (lp_prevPage p)) (page_id_at h (lp_nextPage p)))
       (p\<lparr>cp_bysPage := pe_disk e (cp_pageId p)\<rparr>))"

definition IT_GetPage ::
    "PageEnv \<Rightarrow> u32 \<Rightarrow> u32 \<Rightarrow> PageType \<Rightarrow> page_ref option \<Rightarrow> bool \<Rightarrow> TreeRef \<Rightarrow> PageHeap
       \<Rightarrow> (page_ref \<times> PageHeap) option" where
  "IT_GetPage e pageCount pageId type parentPage bSyncRead tr h =
     (if \<not> pageId < pageCount then None
      else case Pool_GetPage (pe_alloc e) pageId type tr h of
        None \<Rightarrow> None
      | Some (r, h) \<Rightarrow>
          (case ph_pages h r of
             None \<Rightarrow> None
           | Some p \<Rightarrow>
               let p = (if parentPage \<noteq> None then tp_SetParentPage parentPage p else p); h = put_page r p h in
               if tp_status p = PS_EMPTY then
                 (if bSyncRead
                  then map_option (\<lambda>p. (r, put_page r (SetPageStatus PS_VALID p) h)) (tp_SyncRead e (tr_indexType tr) h p)
                  else Some (r, (put_page r (SetPageStatus READING p) h)\<lparr>ph_readQueue := ph_readQueue h @ [r]\<rparr>))
               else Some (r, h)))"

section \<open>Going down the tree\<close>

definition set_child :: "page_ref \<Rightarrow> nat \<Rightarrow> page_ref \<Rightarrow> PageHeap \<Rightarrow> PageHeap" where
  "set_child r i c h =
     (case ph_pages h r of
        Some (BranchNode p) \<Rightarrow>
          put_page r (BranchNode (p\<lparr>ip_vctRecord := (ip_vctRecord p)[i := (ip_vctRecord p ! i)\<lparr>br_childPage := Some c\<rparr>]\<rparr>)) h
      | _ \<Rightarrow> h)"

definition child_type :: "BranchPage \<Rightarrow> PageType" where
  "child_type p = (if GetPageLevel p = 1 then LEAF_PAGE else BRANCH_PAGE)"

definition usable :: "PageStatus \<Rightarrow> bool" where
  "usable s \<longleftrightarrow> s = PS_VALID \<or> s = WRITING"

fun search_key_loop ::
    "nat \<Rightarrow> PageEnv \<Rightarrow> u32 \<Rightarrow> RawKey \<Rightarrow> page_ref \<Rightarrow> TreeRef \<Rightarrow> PageHeap \<Rightarrow> (bool \<times> page_ref \<times> PageHeap) option" where
  "search_key_loop 0 e pageCount key page tr h = None"
| "search_key_loop (Suc fuel) e pageCount key page tr h =
     (case ph_pages h page of
        None \<Rightarrow> None
      | Some p \<Rightarrow>
          if tp_status p \<noteq> READED \<and> \<not> usable (tp_status p) then Some (False, page, h)
          else
            let h = (if tp_status p = READED then put_page page (SetPageStatus PS_VALID p) h else h) in
            (case p of
               LeafNode _ \<Rightarrow> Some (True, page, h)
             | BranchNode bPage \<Rightarrow>
                 let pos = BranchPage_SearchKey (tr_indexType tr) key bPage in
                 (case BranchPage_GetRecord pos True bPage of
                    None \<Rightarrow> None
                  | Some br \<Rightarrow>
                      (case br_childPage br of
                         Some c \<Rightarrow> search_key_loop fuel e pageCount key c tr h
                       | None \<Rightarrow>
                           (case IT_GetPage e pageCount (GetChildPageId br) (child_type bPage) (Some page) False tr h of
                              None \<Rightarrow> None
                            | Some (c, h) \<Rightarrow> search_key_loop fuel e pageCount key c tr (set_child page (nat pos) c h))))))"

definition SearchPage_key ::
    "nat \<Rightarrow> PageEnv \<Rightarrow> u32 \<Rightarrow> RawKey \<Rightarrow> page_ref \<Rightarrow> TreeRef \<Rightarrow> PageHeap \<Rightarrow> (bool \<times> page_ref \<times> PageHeap) option" where
  "SearchPage_key fuel e pageCount key page tr h =
     (case ph_pages h page of
        None \<Rightarrow> None
      | Some p \<Rightarrow> if \<not> usable (tp_status p) then Some (False, page, h) else search_key_loop fuel e pageCount key page tr h)"

text \<open>
  The search by record declares a second \<open>childPage\<close> in the branch that fetches a missing child. The outer one
  is still null when it becomes the page of the next iteration.
\<close>

fun search_record_loop ::
    "nat \<Rightarrow> PageEnv \<Rightarrow> u32 \<Rightarrow> RawRecord \<Rightarrow> page_ref \<Rightarrow> TreeRef \<Rightarrow> PageHeap \<Rightarrow> (bool \<times> page_ref \<times> PageHeap) option" where
  "search_record_loop 0 e pageCount lr page tr h = None"
| "search_record_loop (Suc fuel) e pageCount lr page tr h =
     (case ph_pages h page of
        None \<Rightarrow> None
      | Some (LeafNode _) \<Rightarrow> Some (True, page, h)
      | Some (BranchNode bPage) \<Rightarrow>
          let pos = BranchPage_SearchRecord (tr_indexType tr) lr bPage in
          (case BranchPage_GetRecord pos True bPage of
             None \<Rightarrow> None
           | Some br \<Rightarrow>
               (case br_childPage br of
                  Some c \<Rightarrow> search_record_loop fuel e pageCount lr c tr h
                | None \<Rightarrow>
                    (case IT_GetPage e pageCount (GetChildPageId br) (child_type bPage) None False tr h of
                       None \<Rightarrow> None
                     | Some (c, h) \<Rightarrow>
                         let h = set_child page (nat pos) c h in
                         (case ph_pages h c of
                            None \<Rightarrow> None
                          | Some q \<Rightarrow>
                              let h = put_page c (tp_SetParentPage (Some page) q) h in
                              if tp_status q \<noteq> PS_VALID then Some (False, page, h) else None)))))"

definition SearchPage_record ::
    "nat \<Rightarrow> PageEnv \<Rightarrow> u32 \<Rightarrow> RawRecord \<Rightarrow> page_ref \<Rightarrow> TreeRef \<Rightarrow> PageHeap \<Rightarrow> (bool \<times> page_ref \<times> PageHeap) option" where
  "SearchPage_record fuel e pageCount lr page tr h =
     (case ph_pages h page of
        None \<Rightarrow> None
      | Some p \<Rightarrow> if \<not> usable (tp_status p) then Some (False, page, h) else search_record_loop fuel e pageCount lr page tr h)"

end
