(* ===== verification/Tree_Unique.thy ===== *)
theory Tree_Unique
  imports Tree_Alloc
begin

text \<open>
  Nothing is handed out twice. Stamps and keys: a shared counter and one batch per range. The locale
  \<open>ticket_source\<close> is the contract of such a source (what it hands out leaves the pool of unused numbers),
  and any sequence of calls, from any ranges in any order, yields distinct numbers. Pages: the locale
  \<open>page_pool\<close> is the contract of the owner of free pages; the pages of the file are split at every moment
  into free pages and pages in use.
\<close>

section \<open>Batches\<close>

text \<open>The lanes (start and end of the batch of each range) and the counter, as numbers only.\<close>

type_synonym lanes = "(u64 \<times> u64) list \<times> u64"

definition batch_step :: "bool \<Rightarrow> nat \<Rightarrow> u64 \<Rightarrow> lanes \<Rightarrow> u64 \<times> lanes" where
  "batch_step multi i step = (\<lambda>(ls, c).
     if multi then
       (if fst (ls ! i) \<ge> snd (ls ! i) then (c, ls[i := (c + step, c + 64)], c + 64)
        else (fst (ls ! i), ls[i := (fst (ls ! i) + step, snd (ls ! i))], c))
     else (c, ls, c + step))"

definition lane :: "u64 \<times> u64 \<Rightarrow> nat set" where
  "lane p = {unat (fst p)..<unat (snd p)}"

definition unused :: "lanes \<Rightarrow> nat set" where
  "unused = (\<lambda>(ls, c). {unat c..} \<union> (\<Union>j < length ls. lane (ls ! j)))"

text \<open>The source can serve \<open>n\<close> more calls with steps of at most \<open>M\<close> before a number wraps around.\<close>

definition lanes_ok :: "nat \<Rightarrow> nat \<Rightarrow> lanes \<Rightarrow> bool" where
  "lanes_ok M n = (\<lambda>(ls, c). M < 2 ^ 62 \<and> unat c + n * (M + 64) < 2 ^ 62 \<and>
     (\<forall>j < length ls. unat (snd (ls ! j)) \<le> unat c \<and> unat (fst (ls ! j)) \<le> unat c + M) \<and>
     (\<forall>j < length ls. \<forall>k < length ls. j \<noteq> k \<longrightarrow> lane (ls ! j) \<inter> lane (ls ! k) = {}))"

lemma unat_add_small: "unat (a :: u64) + unat b < 2 ^ 64 \<Longrightarrow> unat (a + b) = unat a + unat b"
  by (simp add: unat_word_ariths)

text \<open>What a step needs of the invariant, and what it has to give.\<close>

lemma lanes_okD:
  assumes "lanes_ok M (Suc n) (ls, c)"
  shows "M < 2 ^ 62" "unat c + M + 64 + n * (M + 64) < 2 ^ 62" "unat (c + 64) = unat c + 64"
    "\<And>j. j < length ls \<Longrightarrow> unat (snd (ls ! j)) \<le> unat c" "\<And>j. j < length ls \<Longrightarrow> unat (fst (ls ! j)) \<le> unat c + M"
    "\<And>j k. j < length ls \<Longrightarrow> k < length ls \<Longrightarrow> j \<noteq> k \<Longrightarrow> lane (ls ! j) \<inter> lane (ls ! k) = {}"
    "\<And>j. j < length ls \<Longrightarrow> lane (ls ! j) \<subseteq> {..<unat c}"
    "\<And>step. unat step \<le> M \<Longrightarrow> unat (c + step) = unat c + unat step"
proof -
  show b: "M < 2 ^ 62" "unat c + M + 64 + n * (M + 64) < 2 ^ 62" using assms by (auto simp: lanes_ok_def)
  then show "unat (c + 64) = unat c + 64" "\<And>step. unat step \<le> M \<Longrightarrow> unat (c + step) = unat c + unat step"
    by (simp_all add: unat_word_ariths)
  show s: "\<And>j. j < length ls \<Longrightarrow> unat (snd (ls ! j)) \<le> unat c" "\<And>j. j < length ls \<Longrightarrow> unat (fst (ls ! j)) \<le> unat c + M"
    "\<And>j k. j < length ls \<Longrightarrow> k < length ls \<Longrightarrow> j \<noteq> k \<Longrightarrow> lane (ls ! j) \<inter> lane (ls ! k) = {}"
    using assms by (auto simp: lanes_ok_def)
  show "\<And>j. j < length ls \<Longrightarrow> lane (ls ! j) \<subseteq> {..<unat c}" using s(1) by (fastforce simp: lane_def)
qed

definition draws :: "nat \<Rightarrow> nat \<Rightarrow> lanes \<Rightarrow> u64 \<Rightarrow> lanes \<Rightarrow> bool" where
  "draws M n s v s' \<longleftrightarrow> lanes_ok M n s' \<and> unat v \<in> unused s \<and> unused s' \<subseteq> unused s - {unat v} \<and> length (fst s') = length (fst s)"

lemma batch_refill:
  assumes ok: "lanes_ok M (Suc n) (ls, c)" and il: "i < length ls" and st: "0 < unat step" "unat step \<le> M"
  shows "draws M n (ls, c) c (ls[i := (c + step, c + 64)], c + 64)"
proof -
  let ?x = "(c + step, c + 64)"
  note b = lanes_okD [OF ok] and cst = lanes_okD(8) [OF ok st(2)]
  have x: "lane ?x \<subseteq> {Suc (unat c)..<unat c + 64}" using st by (auto simp: lane_def b(3) cst)
  have bd: "unat (snd (ls ! j)) \<le> unat c + 64 \<and> unat (fst (ls ! j)) \<le> unat c + 64 + M" if "j < length ls" for j
    using b(4,5) [OF that] by linarith
  have xd: "lane ?x \<inter> lane (ls ! j) = {}" if "j < length ls" for j using b(7) [OF that] x by fastforce
  have "lane (ls[i := ?x] ! j) \<inter> lane (ls[i := ?x] ! k) = {}" if "j < length ls" "k < length ls" "j \<noteq> k" for j k
    using b(6) [OF that] xd [OF that(1)] xd [OF that(2)] that unfolding nth_list_update [OF il] by auto
  then have "lanes_ok M n (ls[i := ?x], c + 64)"
    using b(1,2) bd st il by (auto simp: lanes_ok_def b(3) cst nth_list_update)
  moreover have "unused (ls[i := ?x], c + 64) \<subseteq> unused (ls, c) - {unat c}"
    using x b(7) il by (fastforce simp: unused_def b(3) nth_list_update split: if_splits)
  ultimately show ?thesis by (simp add: draws_def unused_def)
qed

lemma batch_next:
  assumes ok: "lanes_ok M (Suc n) (ls, c)" and il: "i < length ls" and st: "0 < unat step" "unat step \<le> M"
    and lt: "fst (ls ! i) < snd (ls ! i)"
  shows "draws M n (ls, c) (fst (ls ! i)) (ls[i := (fst (ls ! i) + step, snd (ls ! i))], c)"
proof -
  let ?a = "fst (ls ! i)" and ?b = "snd (ls ! i)"
  let ?ls = "ls[i := (?a + step, ?b)]"
  note b = lanes_okD [OF ok]
  have ab: "unat ?a < unat ?b" using lt by (simp add: word_less_nat_alt)
  have am: "unat ?a + unat step \<le> unat c + M" using ab b(4) [OF il] st by linarith
  then have as: "unat (?a + step) = unat ?a + unat step" using b(2) by (intro unat_add_small) simp
  have x: "lane (?a + step, ?b) \<subseteq> lane (ls ! i) - {unat ?a}" using st by (auto simp: lane_def as)
  have "lane (?ls ! j) \<inter> lane (?ls ! k) = {}" if "j < length ls" "k < length ls" "j \<noteq> k" for j k
    using b(6) [OF that] b(6) [OF il that(1)] b(6) [OF il that(2)] x that unfolding nth_list_update [OF il] by auto
  then have "lanes_ok M n (?ls, c)"
    using b(1,2,4,5) am il by (auto simp: lanes_ok_def as nth_list_update)
  moreover have mem: "unat ?a \<in> lane (ls ! i)" using ab by (simp add: lane_def)
  then have "unat ?a \<in> unused (ls, c)" using il by (auto simp: unused_def)
  moreover have "unused (?ls, c) \<subseteq> unused (ls, c) - {unat ?a}"
  proof
    fix y assume "y \<in> unused (?ls, c)"
    then consider "unat c \<le> y" | j where "j < length ls" "j \<noteq> i" "y \<in> lane (ls ! j)" | "y \<in> lane (?a + step, ?b)"
      using il by (auto simp: unused_def nth_list_update split: if_splits)
    then show "y \<in> unused (ls, c) - {unat ?a}"
      using x il mem b(7) [OF il] b(6) [OF il] by cases (auto simp: unused_def)
  qed
  ultimately show ?thesis by (simp add: draws_def)
qed

lemma batch_single:
  assumes ok: "lanes_ok M (Suc n) (ls, c)" and st: "0 < unat step" "unat step \<le> M"
  shows "draws M n (ls, c) c (ls, c + step)"
proof -
  note b = lanes_okD [OF ok] and cst = lanes_okD(8) [OF ok st(2)]
  have "lanes_ok M n (ls, c + step)" using b st by (fastforce simp: lanes_ok_def cst)
  moreover have "unused (ls, c + step) \<subseteq> unused (ls, c) - {unat c}" using b(7) st by (fastforce simp: unused_def cst)
  ultimately show ?thesis by (simp add: draws_def unused_def)
qed

lemma batch_step_ok:
  assumes "lanes_ok M (Suc n) s" "multi \<Longrightarrow> i < length (fst s)" "0 < unat step" "unat step \<le> M"
    and "batch_step multi i step s = (v, s')"
  shows "draws M n s v s'"
  using assms batch_refill [of M n "fst s" "snd s" i step] batch_next [of M n "fst s" "snd s" i step]
    batch_single [of M n "fst s" "snd s" step]
  by (cases s) (auto simp: batch_step_def not_le split: if_splits)

section \<open>Sources of distinct numbers\<close>

fun tickets :: "('i \<Rightarrow> 's \<Rightarrow> (u64 \<times> 's) option) \<Rightarrow> 'i list \<Rightarrow> 's \<Rightarrow> (u64 list \<times> 's) option" where
  "tickets f [] s = Some ([], s)"
| "tickets f (i # is) s =
     (case f i s of None \<Rightarrow> None | Some (v, s) \<Rightarrow> map_option (\<lambda>(vs, s). (v # vs, s)) (tickets f is s))"

locale ticket_source =
  fixes inv :: "nat \<Rightarrow> 's \<Rightarrow> bool" and pool :: "'s \<Rightarrow> nat set" and valid :: "'i \<Rightarrow> 's \<Rightarrow> bool"
    and draw :: "'i \<Rightarrow> 's \<Rightarrow> (u64 \<times> 's) option"
  assumes draw_ok: "inv (Suc n) s \<Longrightarrow> valid i s \<Longrightarrow>
      \<exists>v s'. draw i s = Some (v, s') \<and> inv n s' \<and> unat v \<in> pool s \<and> pool s' \<subseteq> pool s - {unat v} \<and>
        (\<forall>j. valid j s \<longrightarrow> valid j s')"
begin

lemma tickets_distinct:
  "inv (length is) s \<Longrightarrow> \<forall>i \<in> set is. valid i s \<Longrightarrow>
   \<exists>vs s'. tickets draw is s = Some (vs, s') \<and> distinct vs \<and> length vs = length is \<and>
     unat ` set vs \<subseteq> pool s \<and> pool s' \<subseteq> pool s - unat ` set vs"
proof (induction "is" arbitrary: s)
  case (Cons i "is")
  obtain v s1 where s1: "draw i s = Some (v, s1)" "inv (length is) s1" "unat v \<in> pool s" "pool s1 \<subseteq> pool s - {unat v}"
    "\<forall>j. valid j s \<longrightarrow> valid j s1"
    using draw_ok [of "length is" s i] Cons.prems by auto
  then obtain vs s' where vs: "tickets draw is s1 = Some (vs, s')" "distinct vs" "length vs = length is"
    "unat ` set vs \<subseteq> pool s1" "pool s' \<subseteq> pool s1 - unat ` set vs"
    using Cons.IH [of s1] Cons.prems(2) by auto
  have "v \<notin> set vs" using vs(4) s1(4) by auto
  then show ?case using s1 vs by auto
qed simp

end

section \<open>Stamps and keys\<close>

definition stamp_view :: "IndexTree \<Rightarrow> lanes" where
  "stamp_view t = (map (\<lambda>r. (ir_recordStampStart r, ir_recordStampEnd r)) (it_vctRange t), hp_currRecordStamp (it_headPage t))"

definition key_view :: "IndexTree \<Rightarrow> lanes" where
  "key_view t = (map (\<lambda>r. (ir_incKeyStart r, ir_incKeyEnd r)) (it_vctRange t), hp_autoIncrementKey (it_headPage t))"

definition range_valid :: "int \<Rightarrow> IndexTree \<Rightarrow> bool" where
  "range_valid i t \<longleftrightarrow> (length (it_vctRange t) > 1 \<longrightarrow> 0 \<le> i \<and> i < int (length (it_vctRange t)))"

definition key_valid :: "nat \<Rightarrow> int \<times> u64 \<Rightarrow> IndexTree \<Rightarrow> bool" where
  "key_valid M = (\<lambda>(i, step) t. range_valid i t \<and> 0 < unat step \<and> unat step \<le> M \<and> it_indexType t = PRIMARY)"

lemma ApplyStamp_view:
  "ApplyStamp i t = Some (v, t') \<Longrightarrow>
   batch_step (length (it_vctRange t) > 1) (nat i) 1 (stamp_view t) = (v, stamp_view t') \<and>
   length (it_vctRange t') = length (it_vctRange t)"
  by (auto simp: ApplyStamp_def batch_step_def stamp_view_def GetAndIncRecordStamp_def STAMP_BATCH_def Let_def map_update split: if_splits)

lemma ApplyStamp_valid: "range_valid i t \<Longrightarrow> \<exists>v t'. ApplyStamp i t = Some (v, t')"
  by (auto simp: ApplyStamp_def range_valid_def Let_def split: prod.splits)

lemma ApplyAutoIncKey_view:
  "ApplyAutoIncKey i step t = Some (v, t') \<Longrightarrow>
   batch_step (length (it_vctRange t) > 1) (nat i) step (key_view t) = (v, key_view t') \<and>
   length (it_vctRange t') = length (it_vctRange t) \<and> it_indexType t' = it_indexType t"
  by (auto simp: ApplyAutoIncKey_def batch_step_def key_view_def GetAndIncAutoIncrementKey_def INC_KEY_BATCH_def Let_def map_update split: if_splits)

lemma ApplyAutoIncKey_valid: "range_valid i t \<Longrightarrow> it_indexType t = PRIMARY \<Longrightarrow> \<exists>v t'. ApplyAutoIncKey i step t = Some (v, t')"
  by (auto simp: ApplyAutoIncKey_def range_valid_def Let_def split: prod.splits)

interpretation stamps: ticket_source "\<lambda>n t. lanes_ok 1 n (stamp_view t)" "\<lambda>t. unused (stamp_view t)" range_valid ApplyStamp
proof
  fix n t i assume ok: "lanes_ok 1 (Suc n) (stamp_view t)" and v: "range_valid i t"
  obtain v t' where t': "ApplyStamp i t = Some (v, t')"
    "batch_step (length (it_vctRange t) > 1) (nat i) 1 (stamp_view t) = (v, stamp_view t')"
    "length (it_vctRange t') = length (it_vctRange t)" using ApplyStamp_valid [OF v] ApplyStamp_view by blast
  have "length (it_vctRange t) > 1 \<Longrightarrow> nat i < length (fst (stamp_view t))"
    using v by (auto simp: range_valid_def stamp_view_def)
  then show "\<exists>v t'. ApplyStamp i t = Some (v, t') \<and> lanes_ok 1 n (stamp_view t') \<and> unat v \<in> unused (stamp_view t) \<and>
      unused (stamp_view t') \<subseteq> unused (stamp_view t) - {unat v} \<and> (\<forall>j. range_valid j t \<longrightarrow> range_valid j t')"
    using batch_step_ok [OF ok _ _ _ t'(2)] t'(1,3) by (auto simp: range_valid_def draws_def)
qed

interpretation keys: ticket_source "\<lambda>n t. lanes_ok M n (key_view t)" "\<lambda>t. unused (key_view t)" "key_valid M"
  "\<lambda>(i, step). ApplyAutoIncKey i step" for M
proof
  fix n t x assume ok: "lanes_ok M (Suc n) (key_view t)" and v: "key_valid M x t"
  obtain i step where x: "x = (i, step)" by (cases x)
  have v': "range_valid i t" "it_indexType t = PRIMARY" "0 < unat step" "unat step \<le> M" using v by (auto simp: key_valid_def x)
  obtain v t' where t': "ApplyAutoIncKey i step t = Some (v, t')"
    "batch_step (length (it_vctRange t) > 1) (nat i) step (key_view t) = (v, key_view t')"
    "length (it_vctRange t') = length (it_vctRange t)" "it_indexType t' = PRIMARY" using ApplyAutoIncKey_valid [OF v'(1,2)] ApplyAutoIncKey_view v'(2) by metis
  have "length (it_vctRange t) > 1 \<Longrightarrow> nat i < length (fst (key_view t))"
    using v' by (auto simp: range_valid_def key_view_def)
  then show "\<exists>v t'. (case x of (i, step) \<Rightarrow> ApplyAutoIncKey i step) t = Some (v, t') \<and> lanes_ok M n (key_view t') \<and>
      unat v \<in> unused (key_view t) \<and> unused (key_view t') \<subseteq> unused (key_view t) - {unat v} \<and> (\<forall>j. key_valid M j t \<longrightarrow> key_valid M j t')"
    using batch_step_ok [OF ok _ v'(3,4) t'(2)] t'(1,3,4) by (auto simp: range_valid_def key_valid_def x draws_def)
qed

text \<open>
  Any sequence of calls of \<open>ApplyStamp\<close>, from any ranges of the tree in any order, returns pairwise distinct stamps, none
  of which was used before (the stamps below the counter of the head page that lie in no batch). The
  tree may have one range or several; the counter must not wrap around meanwhile.
\<close>
theorem ApplyStamp_distinct:
  assumes "lanes_ok 1 (length is) (stamp_view t)" "\<forall>i \<in> set is. range_valid i t"
  shows "\<exists>vs t'. tickets ApplyStamp is t = Some (vs, t') \<and> distinct vs \<and> length vs = length is \<and>
     unat ` set vs \<subseteq> unused (stamp_view t) \<and> unused (stamp_view t') \<subseteq> unused (stamp_view t) - unat ` set vs"
  using assms by (rule stamps.tickets_distinct)

definition sample_tree :: IndexTree where
  "sample_tree = \<lparr>it_headPage = HeadPage_new (\<lambda>n. replicate n 0) 1, it_garbageOwner = GarbageOwner_empty, it_rootPage = None,
     it_indexType = PRIMARY, it_splitPageLevel = 1, it_vctRange = [IndexRange_new, IndexRange_new]\<rparr>"

lemma sample_tree_lanes: "lanes_ok 1 3 (stamp_view sample_tree)" "lanes_ok 100 3 (key_view sample_tree)"
  by (simp_all add: lanes_ok_def stamp_view_def key_view_def sample_tree_def HeadPage_new_def IndexRange_new_def lane_def nth_Cons split: nat.splits)

lemma sample_tree_valid: "range_valid 0 sample_tree" "range_valid 1 sample_tree" "it_indexType sample_tree = PRIMARY"
  by (simp_all add: range_valid_def sample_tree_def)

theorem ApplyStamp_distinct_witness:
  "\<exists>vs t'. tickets ApplyStamp [0, 1, 0] sample_tree = Some (vs, t') \<and> distinct vs \<and> length vs = 3"
  using ApplyStamp_distinct [of "[0, 1, 0]" sample_tree] sample_tree_lanes(1)
  by (auto simp: sample_tree_valid numeral_3_eq_3 simp del: tickets.simps)

text \<open>
  Any sequence of calls of \<open>ApplyAutoIncKey\<close>, from any ranges and with any positive steps, returns pairwise distinct
  keys, also when a step is larger than a batch.
\<close>
theorem ApplyAutoIncKey_distinct:
  assumes "lanes_ok M (length is) (key_view t)" "\<forall>x \<in> set is. key_valid M x t"
  shows "\<exists>vs t'. tickets (\<lambda>(i, step). ApplyAutoIncKey i step) is t = Some (vs, t') \<and> distinct vs \<and> length vs = length is \<and>
     unat ` set vs \<subseteq> unused (key_view t) \<and> unused (key_view t') \<subseteq> unused (key_view t) - unat ` set vs"
  using assms by (rule keys.tickets_distinct)

theorem ApplyAutoIncKey_distinct_witness:
  "\<exists>vs t'. tickets (\<lambda>(i, step). ApplyAutoIncKey i step) [(0, 1), (1, 100), (0, 7)] sample_tree = Some (vs, t') \<and> distinct vs \<and> length vs = 3"
  using ApplyAutoIncKey_distinct [of 100 "[(0, 1), (1, 100), (0, 7)]" sample_tree] sample_tree_lanes(2)
  by (auto simp: key_valid_def sample_tree_valid numeral_3_eq_3 simp del: tickets.simps)

section \<open>Pages\<close>

text \<open>The pages of a file of \<open>c\<close> pages are free or in use, never both.\<close>

definition file_split :: "nat set \<Rightarrow> u32 \<Rightarrow> nat set \<Rightarrow> bool" where
  "file_split free c used \<longleftrightarrow> free \<union> used = {0..<unat c} \<and> free \<inter> used = {}"

lemma file_split_extend:
  assumes "file_split free c used" "unat c + unat n < 2 ^ 32"
  shows "file_split free (c + ucast n) (used \<union> pages_of (c, n))" "pages_of (c, n) \<inter> used = {}"
proof -
  have c: "unat (c + ucast n) = unat c + unat n"
    using assms(2) by (simp add: unat_word_ariths unsigned_ucast_eq take_bit_nat_eq_self order_less_le_trans [OF unsigned_less])
  have "{0..<unat c + unat n} = {0..<unat c} \<union> pages_of (c, n)" "pages_of (c, n) \<inter> {0..<unat c} = {}"
    by (auto simp: pages_of_def)
  then show "file_split free (c + ucast n) (used \<union> pages_of (c, n))" "pages_of (c, n) \<inter> used = {}"
    using assms(1) c by (auto simp: file_split_def)
qed

text \<open>
  The contract of the owner of free pages: it takes back ranges of pages that it does not have and hands out
  ranges of pages that it has.
\<close>

locale page_pool =
  fixes inv :: "'s \<Rightarrow> bool" and free :: "'s \<Rightarrow> nat set" and give :: "u32 \<Rightarrow> u16 \<Rightarrow> 's \<Rightarrow> 's option"
    and draw :: "'p \<Rightarrow> u16 \<Rightarrow> 's \<Rightarrow> (u32 \<times> 's) option" and okp :: "'p \<Rightarrow> bool"
  assumes give_ok: "inv s \<Longrightarrow> n \<noteq> 0 \<Longrightarrow> unat p + unat n < 2 ^ 32 \<Longrightarrow> pages_of (p, n) \<inter> free s = {} \<Longrightarrow>
      card (free s) + unat n < 65535 \<Longrightarrow> \<exists>s'. give p n s = Some s' \<and> inv s' \<and> free s' = free s \<union> pages_of (p, n)"
    and draw_ok: "inv s \<Longrightarrow> okp q \<Longrightarrow> \<exists>p s'. draw q n s = Some (p, s') \<and> inv s' \<and>
      (if p = PAGE_NULL_POINTER then s' = s else pages_of (p, n) \<subseteq> free s \<and> free s' = free s - pages_of (p, n))"
begin

text \<open>A range from the pool, or from the end of the file when the pool has none.\<close>

lemma draw_or_extend:
  assumes "inv s" "file_split (free s) c used" "okp q" "unat c + unat n < 2 ^ 32"
  obtains p s' p' c' where "draw q n s = Some (p, s')"
    "(p', c') = (if p = PAGE_NULL_POINTER then (c, c + ucast n) else (p, c))"
    "inv s'" "file_split (free s') c' (used \<union> pages_of (p', n))" "pages_of (p', n) \<inter> used = {}"
proof -
  obtain p s' where d: "draw q n s = Some (p, s')" "inv s'"
    "if p = PAGE_NULL_POINTER then s' = s else pages_of (p, n) \<subseteq> free s \<and> free s' = free s - pages_of (p, n)"
    using draw_ok [of s q n] assms by auto
  show ?thesis
  proof (cases "p = PAGE_NULL_POINTER")
    case True
    then show ?thesis using that [OF d(1), of c "c + ucast n"] d(2,3) file_split_extend [OF assms(2,4)] by simp
  next
    case False
    then have "file_split (free s') c (used \<union> pages_of (p, n))" "pages_of (p, n) \<inter> used = {}"
      using d(3) assms(2) by (auto simp: file_split_def)
    then show ?thesis using that [OF d(1), of p c] d(2) False by simp
  qed
qed

lemma give_back:
  assumes "inv s" "file_split (free s) c used" "n \<noteq> 0" "pages_of (p, n) \<subseteq> used" "card (free s) + unat n < 65535"
  obtains s' where "give p n s = Some s'" "inv s'" "file_split (free s') c (used - pages_of (p, n))"
proof -
  have f: "free s \<union> used = {0..<unat c}" "free s \<inter> used = {}" using assms(2) by (auto simp: file_split_def)
  have "0 < unat n" using assms(3) by (simp add: unat_gt_0)
  then have "unat p + unat n - 1 \<in> pages_of (p, n)" by (auto simp: pages_of_def)
  then have "unat p + unat n - 1 < unat c" using assms(4) f(1) by auto
  moreover have "unat c < 4294967296" using unsigned_less [of c, where ?'a = nat] by simp
  ultimately have "unat p + unat n < 2 ^ 32" by simp
  moreover have "pages_of (p, n) \<inter> free s = {}" using assms(4) f by blast
  ultimately obtain s' where s': "give p n s = Some s'" "inv s'" "free s' = free s \<union> pages_of (p, n)"
    using give_ok assms(1,3,5) by blast
  moreover have "file_split (free s') c (used - pages_of (p, n))" using f assms(4) by (auto simp: file_split_def s'(3))
  ultimately show ?thesis using that by blast
qed

end

interpretation garbage: page_pool go_inv free_pages RecyclePage "\<lambda>(pick, isLock, busy) n. GO_ApplyOvfPage pick n isLock busy"
  "\<lambda>(pick, isLock, busy). picks pick"
proof
  fix g n p assume a: "go_inv g" "n \<noteq> 0" "unat (p :: u32) + unat (n :: u16) < 2 ^ 32" "pages_of (p, n) \<inter> free_pages g = {}"
    "card (free_pages g) + unat n < 65535"
  then have "range_ok (p, n)" by (simp add: range_ok_def)
  then show "\<exists>g'. RecyclePage p n g = Some g' \<and> go_inv g' \<and> free_pages g' = free_pages g \<union> pages_of (p, n)"
    using RecyclePage_ok [OF a(1) _ a(4,5)] by blast
next
  fix g n and q :: "(u32 list \<Rightarrow> u32) \<times> bool \<times> bool" assume a: "go_inv g" "case q of (pick, isLock, busy) \<Rightarrow> picks pick"
  obtain pick isLock busy where q: "q = (pick, isLock, busy)" by (cases q)
  then have "picks pick" using a(2) by simp
  from GO_ApplyOvfPage_step [OF a(1) this, of n isLock busy]
  show "\<exists>p s'. (case q of (pick, isLock, busy) \<Rightarrow> \<lambda>n. GO_ApplyOvfPage pick n isLock busy) n g = Some (p, s') \<and> go_inv s' \<and>
      (if p = PAGE_NULL_POINTER then s' = g else pages_of (p, n) \<subseteq> free_pages g \<and> free_pages s' = free_pages g - pages_of (p, n))"
    by (simp add: q) metis
qed

section \<open>The pages of an index tree\<close>

definition total_pages :: "IndexTree \<Rightarrow> u32" where
  "total_pages t = hp_totalPageCount (it_headPage t)"

definition pages_inv :: "IndexTree \<Rightarrow> nat set \<Rightarrow> bool" where
  "pages_inv t used \<longleftrightarrow> go_inv (it_garbageOwner t) \<and> file_split (free_pages (it_garbageOwner t)) (total_pages t) used"

lemma IT_ApplyOvfPage_ok:
  assumes "pages_inv t used" "picks pick" "unat (total_pages t) + unat num < 2 ^ 32"
  obtains pid t' where "IT_ApplyOvfPage pick busy num t = Some (pid, t')" "pages_inv t' (used \<union> pages_of (pid, num))"
    "pages_of (pid, num) \<inter> used = {}"
proof -
  let ?g = "it_garbageOwner t" and ?c = "total_pages t"
  have pre: "go_inv ?g" "file_split (free_pages ?g) ?c used" using assms(1) by (auto simp: pages_inv_def)
  have okp: "case (pick, it_block t, busy) of (pick, isLock, busy) \<Rightarrow> picks pick" using assms(2) by simp
  show ?thesis
  proof (rule garbage.draw_or_extend [OF pre okp assms(3)])
    fix p g' p' c'
    assume "(case (pick, it_block t, busy) of (pick, isLock, busy) \<Rightarrow> \<lambda>n. GO_ApplyOvfPage pick n isLock busy) num ?g = Some (p, g')"
    then have d: "GO_ApplyOvfPage pick num (it_block t) busy ?g = Some (p, g')" by simp
    assume d': "(p', c') = (if p = PAGE_NULL_POINTER then (?c, ?c + ucast num) else (p, ?c))" "go_inv g'"
      "file_split (free_pages g') c' (used \<union> pages_of (p', num))" "pages_of (p', num) \<inter> used = {}"
    show ?thesis
    proof (cases "p = PAGE_NULL_POINTER")
      case True
      then show ?thesis
        using that [of p' "t\<lparr>it_garbageOwner := g', it_headPage := snd (GetAndIncTotalPageCount (ucast num) (it_headPage t))\<rparr>"] d d'
        by (simp add: IT_ApplyOvfPage_def GetAndIncTotalPageCount_def pages_inv_def total_pages_def)
    next
      case False
      then show ?thesis using that [of p' "t\<lparr>it_garbageOwner := g'\<rparr>"] d d' by (simp add: IT_ApplyOvfPage_def pages_inv_def total_pages_def)
    qed
  qed
qed

lemma RecyclePageId_ok:
  assumes "pages_inv t used" "num \<noteq> 0" "pages_of (pid, num) \<subseteq> used"
    and "card (free_pages (it_garbageOwner t)) + unat num < 65535"
  obtains t' where "RecyclePageId pid num t = Some t'" "pages_inv t' (used - pages_of (pid, num))"
proof -
  have pre: "go_inv (it_garbageOwner t)" "file_split (free_pages (it_garbageOwner t)) (total_pages t) used"
    using assms(1) by (auto simp: pages_inv_def)
  obtain g' where "RecyclePage pid num (it_garbageOwner t) = Some g'" "go_inv g'"
    "file_split (free_pages g') (total_pages t) (used - pages_of (pid, num))"
    using garbage.give_back [OF pre assms(2-4)] by blast
  then show ?thesis using that [of "t\<lparr>it_garbageOwner := g'\<rparr>"] by (simp add: pages_inv_def RecyclePageId_def total_pages_def)
qed

text \<open>
  The life of the pages: a tree applies for a range and uses it, or recycles a range that it uses. The
  second component is the set of pages in use.
\<close>

inductive page_step :: "IndexTree \<times> nat set \<Rightarrow> IndexTree \<times> nat set \<Rightarrow> bool" where
  apply_ovf: "picks pick \<Longrightarrow> unat (total_pages t) + unat num < 2 ^ 32 \<Longrightarrow> IT_ApplyOvfPage pick busy num t = Some (pid, t') \<Longrightarrow>
    page_step (t, used) (t', used \<union> pages_of (pid, num))"
| recycle: "num \<noteq> 0 \<Longrightarrow> pages_of (pid, num) \<subseteq> used \<Longrightarrow> card (free_pages (it_garbageOwner t)) + unat num < 65535 \<Longrightarrow>
    RecyclePageId pid num t = Some t' \<Longrightarrow> page_step (t, used) (t', used - pages_of (pid, num))"

inductive_cases page_stepE: "page_step (t, used) s"

lemma page_step_inv: "page_step s s' \<Longrightarrow> pages_inv (fst s) (snd s) \<Longrightarrow> pages_inv (fst s') (snd s')"
proof (induction rule: page_step.induct)
  case (apply_ovf pick t num busy pid t' used)
  then show ?case using IT_ApplyOvfPage_ok [of t used pick num busy] by force
next
  case (recycle num pid used t t')
  then show ?case using RecyclePageId_ok [of t used num pid] by force
qed

text \<open>
  C7: Whatever sequence of \<open>ApplyOvfPage\<close> and \<open>RecyclePageId\<close> an index tree runs, as long as each recycled range is in use
  and, with it, there are fewer than 65535 free pages (the length of a merged range has 16 bits), and the page count of the file stays below \<open>2
  ^ 32\<close>: the pages of the file stay split into the free ones and those in use, and the next range that \<open>ApplyOvfPage\<close> returns
  contains no page that is in use, whether it comes from the owner of free pages or from the end of the file.
\<close>
theorem pages_never_shared:
  assumes "page_step\<^sup>*\<^sup>* (t0, used0) (t, used)" "pages_inv t0 used0" "picks pick" "unat (total_pages t) + unat num < 2 ^ 32"
  shows "\<exists>pid t'. IT_ApplyOvfPage pick busy num t = Some (pid, t') \<and> pages_of (pid, num) \<inter> used = {} \<and>
     pages_inv t' (used \<union> pages_of (pid, num))"
proof -
  have "pages_inv (fst (t, used)) (snd (t, used))"
    using assms(1) by (induction rule: rtranclp_induct) (use assms(2) page_step_inv in auto)
  then have "pages_inv t used" by simp
  then show ?thesis using IT_ApplyOvfPage_ok [OF _ assms(3,4)] by metis
qed

lemma sample_tree_pages: "pages_inv sample_tree {}"
  using GarbageOwner_empty_ok
  by (simp add: pages_inv_def sample_tree_def total_pages_def go_inv_def file_split_def HeadPage_new_def)
     (simp add: GarbageOwner_empty_def)

theorem pages_never_shared_witness:
  "\<exists>t pid t'. page_step (sample_tree, {}) (t, pages_of (0, 3)) \<and> IT_ApplyOvfPage hd False 2 t = Some (pid, t') \<and>
     pages_of (pid, 2) \<inter> {0, 1, 2} = {}"
proof -
  define t where "t = sample_tree\<lparr>it_headPage := (it_headPage sample_tree)\<lparr>cp_bDirty := True, hp_totalPageCount := 3\<rparr>\<rparr>"
  have "IT_ApplyOvfPage hd False 3 sample_tree = Some (0, t)"
    by (simp add: IT_ApplyOvfPage_def t_def sample_tree_def GO_ApplyOvfPage_def GarbageOwner_empty_def GetAndIncTotalPageCount_def HeadPage_new_def)
  then have s: "page_step (sample_tree, {}) (t, {} \<union> pages_of (0, 3))"
    by (intro page_step.apply_ovf [OF picks_hd]) (simp_all add: total_pages_def sample_tree_def HeadPage_new_def)
  have "pages_of (0, 3) = {0, 1, 2}" by (auto simp: pages_of_def)
  with s show ?thesis
    using pages_never_shared [of sample_tree "{}" t "pages_of (0, 3)" hd 2 False] sample_tree_pages picks_hd
    by (auto simp: total_pages_def t_def)
qed

end
