(* ===== verification/Tree_Find.thy ===== *)
theory Tree_Find
  imports Tree_Search Tree_Unique
begin

text \<open>
  The searches of the tree are right: the range and the top page that a record or key is sent to, and the leaf
  that \<open>SearchPage\<close> ends in. The invariant \<open>tree_inv\<close> is that of a B+ tree whose pages are in memory: the records
  below an entry of a branch page lie between the entry before and the entry, the last entry being open.
\<close>

section \<open>Ranges and top pages\<close>

lemma nth_in_take: "j < n \<Longrightarrow> j < length xs \<Longrightarrow> xs ! j \<in> set (take n xs)"
  by (auto simp: in_set_conv_nth intro!: exI [of _ j])

lemma routes_le:
  assumes "routes f rs k p" "routes g rs l q" "\<And>r. r \<in> set rs \<Longrightarrow> f r k < 0 \<longleftrightarrow> g r l < 0"
  shows "\<not> p < q"
proof
  assume pq: "p < q"
  then have i: "nat p < nat q" "nat p < length rs" "0 \<le> p" "q < int (length rs)" using assms(1,2) by (auto simp: routes_def)
  then have "g (rs ! nat p) l < 0" using assms(2) nth_in_take [of "nat p" "nat q" rs] by (auto simp: routes_def)
  then have "f (rs ! nat p) k < 0" using assms(3) i(2) by simp
  then show False using assms(1) i pq by (auto simp: routes_def)
qed

lemma routes_unique:
  assumes "routes f rs k p" "routes g rs l q" "\<And>r. r \<in> set rs \<Longrightarrow> f r k < 0 \<longleftrightarrow> g r l < 0"
  shows "p = q"
  using routes_le [OF assms] routes_le [OF assms(2,1)] assms(3) by force

definition range_borders_ok :: "IndexType \<Rightarrow> BranchRecord list \<Rightarrow> bool" where
  "range_borders_ok t brs \<longleftrightarrow> sorted_wrt (rec_before t) brs \<and> (\<forall>r \<in> set brs. rec_wf t r \<and> branch_ok r) \<and>
     (t = NON_UNIQUE \<longrightarrow> prefix_free (map rec_key brs))"

lemma borders_ne: "borders t = Some brs \<Longrightarrow> brs \<noteq> []"
  by (auto simp: borders_def split: if_splits)

lemma CalcIndexRange_rec_routes:
  assumes "borders t = Some brs" "range_borders_ok (it_indexType t) brs" "rec_wf (it_indexType t) rr"
  obtains pos where "CalcIndexRange_rec t rr = Some pos" "routes (rec_cmp (it_indexType t)) brs rr pos"
proof -
  have "routes (rec_cmp (it_indexType t)) brs rr (route (probe (rec_cmp (it_indexType t)) brs rr) (\<lambda>_. False) (int (length brs)))"
    using assms borders_ne [OF assms(1)] by (intro route_record) (auto simp: range_borders_ok_def)
  then show ?thesis using that assms(1) by (simp add: CalcIndexRange_rec_def route_def Let_def)
qed

lemma CalcIndexRange_key_routes:
  assumes "borders t = Some brs" "range_borders_ok (it_indexType t) brs" "key_ok k"
  obtains pos where "CalcIndexRange_key t k = Some pos" "routes CompareKey brs k pos"
proof -
  have "routes CompareKey brs k (route (probe CompareKey brs k)
      (\<lambda>m. \<not> it_indexType t \<noteq> NON_UNIQUE \<and> probe CompareKey brs k (m - 1) = 0) (int (length brs)))"
    using assms borders_ne [OF assms(1)] by (intro route_key) (auto simp: range_borders_ok_def)
  then show ?thesis using that assms(1) by (simp add: CalcIndexRange_key_def route_def Let_def)
qed

text \<open>
  In a unique index, the search of a range by record and the search by the key of that record agree: all statements
  on one key are sent to the task of one range. The range is the first one whose right border is not
  smaller than the record, or the last one.
\<close>
theorem CalcIndexRange_agree:
  assumes "borders t = Some brs" "range_borders_ok (it_indexType t) brs" "it_indexType t \<noteq> NON_UNIQUE"
    and "rec_wf (it_indexType t) rr" "key_ok k" "key_bytes k = rec_key rr"
  shows "\<exists>pos. CalcIndexRange_rec t rr = Some pos \<and> CalcIndexRange_key t k = Some pos \<and>
     routes (rec_cmp (it_indexType t)) brs rr pos"
proof -
  obtain p where p: "CalcIndexRange_rec t rr = Some p" "routes (rec_cmp (it_indexType t)) brs rr p"
    using CalcIndexRange_rec_routes [OF assms(1,2,4)] by blast
  obtain q where q: "CalcIndexRange_key t k = Some q" "routes CompareKey brs k q"
    using CalcIndexRange_key_routes [OF assms(1,2,5)] by blast
  have "rec_cmp (it_indexType t) r rr = CompareKey r k" if "r \<in> set brs" for r
  proof -
    have "rec_wf (it_indexType t) r" using that assms(2) by (auto simp: range_borders_ok_def)
    then show ?thesis
      using assms(3-6) by (simp add: rec_cmp_bytes order_bytes_def CompareKey_bytes rec_wf_def)
  qed
  then have "p = q" using routes_unique [OF p(2) q(2)] by simp
  then show ?thesis using p q by simp
qed

lemma GetTopPage_routes:
  assumes "last_records pages = Some brs" "range_borders_ok t brs"
  shows "rec_wf t rr \<Longrightarrow> \<exists>pos. GetTopPage_rec t rr pages = Some (fst (pages ! nat pos)) \<and> routes (rec_cmp t) brs rr pos"
    and "key_ok k \<Longrightarrow> \<exists>pos. GetTopPage_key t k pages = Some (fst (pages ! nat pos)) \<and> routes CompareKey brs k pos"
proof -
  have ne: "brs \<noteq> []" using assms(1) by (auto simp: last_records_def split: if_splits)
  { assume "rec_wf t rr"
    then have "routes (rec_cmp t) brs rr (route (probe (rec_cmp t) brs rr) (\<lambda>_. False) (int (length brs)))"
      using assms ne by (intro route_record) (auto simp: range_borders_ok_def)
    then show "\<exists>pos. GetTopPage_rec t rr pages = Some (fst (pages ! nat pos)) \<and> routes (rec_cmp t) brs rr pos"
      using assms(1) by (auto simp: GetTopPage_rec_def route_def Let_def split: prod.splits) }
  { assume "key_ok k"
    then have "routes CompareKey brs k (route (probe CompareKey brs k) (\<lambda>m. \<not> t \<noteq> NON_UNIQUE \<and> probe CompareKey brs k (m - 1) = 0) (int (length brs)))"
      using assms ne by (intro route_key) (auto simp: range_borders_ok_def)
    then show "\<exists>pos. GetTopPage_key t k pages = Some (fst (pages ! nat pos)) \<and> routes CompareKey brs k pos"
      using assms(1) by (auto simp: GetTopPage_key_def route_def Let_def split: prod.splits) }
qed

section \<open>The tree\<close>

text \<open>The records below a page of level \<open>n\<close>.\<close>

fun subtree :: "nat \<Rightarrow> PageHeap \<Rightarrow> page_ref \<Rightarrow> RawRecord set" where
  "subtree 0 h r = (case ph_pages h r of Some (LeafNode p) \<Rightarrow> lr_raw ` set (ip_vctRecord p) | _ \<Rightarrow> {})"
| "subtree (Suc n) h r =
     (case ph_pages h r of
        Some (BranchNode p) \<Rightarrow> (\<Union>i < length (ip_vctRecord p). case br_childPage (ip_vctRecord p ! i) of None \<Rightarrow> {} | Some c \<Rightarrow> subtree n h c)
      | _ \<Rightarrow> {})"

definition between :: "IndexType \<Rightarrow> BranchRecord list \<Rightarrow> nat \<Rightarrow> RawRecord \<Rightarrow> bool" where
  "between t rs i r \<longleftrightarrow> (0 < i \<longrightarrow> lexcmp (order_bytes t (rs ! (i - 1))) (order_bytes t r) < 0) \<and>
     (Suc i < length rs \<longrightarrow> lexcmp (order_bytes t r) (order_bytes t (rs ! i)) \<le> 0)"

definition ready :: "PageStatus \<Rightarrow> bool" where
  "ready s \<longleftrightarrow> s = READED \<or> usable s"

fun tree_inv :: "IndexType \<Rightarrow> nat \<Rightarrow> PageHeap \<Rightarrow> page_ref \<Rightarrow> bool" where
  "tree_inv t 0 h r \<longleftrightarrow> (case ph_pages h r of Some (LeafNode p) \<Rightarrow> ready (cp_pageStatus p) | _ \<Rightarrow> False)"
| "tree_inv t (Suc n) h r \<longleftrightarrow>
     (case ph_pages h r of
        Some (BranchNode p) \<Rightarrow>
          ready (cp_pageStatus p) \<and> branch_inv t p \<and> ip_vctRecord p \<noteq> [] \<and>
          (\<forall>i < length (ip_vctRecord p).
             case br_childPage (ip_vctRecord p ! i) of
               None \<Rightarrow> False
             | Some c \<Rightarrow> tree_inv t n h c \<and> (\<forall>x \<in> subtree n h c. between t (ip_vctRecord p) i x))
      | _ \<Rightarrow> False)"

lemma routes_cong: "(\<And>r. r \<in> set rs \<Longrightarrow> f r k < 0 \<longleftrightarrow> g r l < 0) \<Longrightarrow> routes f rs k p \<longleftrightarrow> routes g rs l p"
proof -
  assume c: "\<And>r. r \<in> set rs \<Longrightarrow> f r k < 0 \<longleftrightarrow> g r l < 0"
  have "f (rs ! nat p) k \<ge> 0 \<longleftrightarrow> g (rs ! nat p) l \<ge> 0" if "0 \<le> p" "p < int (length rs)"
    using c [of "rs ! nat p"] that by (simp add: not_less [symmetric] nat_less_iff)
  then show ?thesis using c by (auto simp: routes_def dest: in_set_takeD)
qed

text \<open>A record that lies below entry \<open>i\<close> is sent to entry \<open>i\<close>.\<close>

lemma routes_between:
  assumes "sorted_wrt (rec_before t) rs" "routes (\<lambda>r b. lexcmp (order_bytes t r) b) rs (order_bytes t x) pos"
    and "i < length rs" "between t rs i x"
  shows "nat pos = i"
proof (rule ccontr)
  let ?b = "\<lambda>i. order_bytes t (rs ! i)" and ?x = "order_bytes t x"
  have r: "0 \<le> pos" "pos < int (length rs)" "\<forall>r \<in> set (take (nat pos) rs). lexcmp (order_bytes t r) ?x < 0"
    "lexcmp (?b (nat pos)) ?x \<ge> 0 \<or> pos = int (length rs) - 1"
    using assms(2) by (auto simp: routes_def)
  have pos: "nat pos < length rs" "lexcmp (?b (nat pos)) ?x \<ge> 0 \<or> nat pos = length rs - 1" using r by auto
  have before: "lexcmp (?b j) ?x < 0" if "j < nat pos" for j
    using r(3) nth_in_take [of j "nat pos" rs] that pos(1) by auto
  assume "nat pos \<noteq> i"
  then consider "i < nat pos" | "nat pos < i" by linarith
  then show False
  proof cases
    case 1
    then have "lexcmp (?b i) ?x < 0" "lexcmp ?x (?b i) \<le> 0" using pos before assms(4) by (auto simp: between_def)
    then show False using lexcmp_swap [of "?b i" ?x] by simp
  next
    case 2
    then have ge: "lexcmp (?b (nat pos)) ?x \<ge> 0" "lexcmp (?b (i - 1)) ?x < 0"
      using pos assms(3,4) by (auto simp: between_def)
    have "lexcmp (?b (nat pos)) (?b (i - 1)) \<le> 0"
    proof (cases "nat pos = i - 1")
      case False
      then have "rec_before t (rs ! nat pos) (rs ! (i - 1))" using 2 assms(1,3) by (simp add: sorted_wrt_nth_less)
      then show ?thesis by (simp add: rec_before_def)
    qed simp
    then have "lexcmp (?b (nat pos)) ?x \<le> 0" using lexcmp_trans ge(2) by (meson less_imp_le)
    then have "?b (nat pos) = ?x" using ge(1) by simp
    then show False using \<open>lexcmp (?b (nat pos)) (?b (i - 1)) \<le> 0\<close> ge(2) lexcmp_swap [of ?x "?b (i - 1)"] by simp
  qed
qed

section \<open>Marking read pages as valid changes nothing else\<close>

definition validate :: "page_ref \<Rightarrow> PageHeap \<Rightarrow> PageHeap" where
  "validate r h = (case ph_pages h r of
     Some p \<Rightarrow> if tp_status p = READED then put_page r (SetPageStatus PS_VALID p) h else h | None \<Rightarrow> h)"

lemma branch_inv_status [simp]: "branch_inv t (p\<lparr>cp_pageStatus := s\<rparr>) = branch_inv t p"
  by (simp add: branch_inv_def)

lemma validate_pages:
  "ph_pages (validate r h) x = (case ph_pages h x of
     Some p \<Rightarrow> Some (if x = r \<and> tp_status p = READED then SetPageStatus PS_VALID p else p) | None \<Rightarrow> None)"
  by (auto simp: validate_def put_page_def split: option.splits)

lemma subtree_validate [simp]: "subtree n (validate r h) x = subtree n h x"
proof (induction n arbitrary: x)
  case 0
  show ?case by (auto simp: validate_pages split: option.splits TreePage.splits)
next
  case (Suc n)
  show ?case
  proof (cases "ph_pages h x")
    case None
    then show ?thesis by (simp add: validate_pages)
  next
    case (Some p)
    then show ?thesis using Suc by (cases p) (simp_all add: validate_pages cong: option.case_cong)
  qed
qed

lemma tree_inv_validate [simp]: "tree_inv t n h x \<Longrightarrow> tree_inv t n (validate r h) x"
proof (induction n arbitrary: x)
  case 0
  then show ?case by (auto simp: validate_pages ready_def usable_def split: option.splits TreePage.splits)
next
  case (Suc n)
  then obtain p where p: "ph_pages h x = Some (BranchNode p)" by (auto split: option.splits TreePage.splits)
  define q where "q = (if x = r \<and> cp_pageStatus p = READED then p\<lparr>cp_pageStatus := PS_VALID\<rparr> else p)"
  have q: "ph_pages (validate r h) x = Some (BranchNode q)" "ip_vctRecord q = ip_vctRecord p" "branch_inv t q = branch_inv t p"
    "ready (cp_pageStatus p) \<Longrightarrow> ready (cp_pageStatus q)"
    using p by (auto simp: validate_pages q_def ready_def usable_def)
  show ?case using Suc.prems p q Suc.IH by (fastforce split: option.splits)
qed

section \<open>The searches\<close>

abbreviation sends :: "IndexType \<Rightarrow> BranchRecord list \<Rightarrow> buf \<Rightarrow> int \<Rightarrow> bool" where
  "sends t \<equiv> routes (\<lambda>r. lexcmp (order_bytes t r))"

lemma SearchKey_sends:
  assumes "branch_inv t p" "ip_vctRecord p \<noteq> []" "t \<noteq> NON_UNIQUE" "key_ok k"
  shows "sends t (ip_vctRecord p) (key_bytes k) (BranchPage_SearchKey t k p)"
proof -
  have "CompareKey x k < 0 \<longleftrightarrow> lexcmp (order_bytes t x) (key_bytes k) < 0" if "x \<in> set (ip_vctRecord p)" for x
    using branch_invD(5) [OF assms(1)] that assms(3,4)
    by (auto simp: CompareKey_bytes rec_wf_def order_bytes_def bytes_cmp_iffs key_cmp_len)
  then have "routes CompareKey (ip_vctRecord p) k pos = sends t (ip_vctRecord p) (key_bytes k) pos" for pos by (rule routes_cong)
  then show ?thesis using SearchKey_spec [OF assms(1,2,4)] assms(3) by blast
qed

lemma SearchRecord_sends:
  assumes "branch_inv t p" "ip_vctRecord p \<noteq> []" "rec_wf t rr"
  shows "sends t (ip_vctRecord p) (order_bytes t rr) (BranchPage_SearchRecord t rr p)"
proof -
  have "rec_cmp t x rr < 0 \<longleftrightarrow> lexcmp (order_bytes t x) (order_bytes t rr) < 0" if "x \<in> set (ip_vctRecord p)" for x
    using branch_invD(5) [OF assms(1)] that assms(3) by (auto simp: rec_cmp_bytes bytes_cmp_iffs)
  then have "routes (rec_cmp t) (ip_vctRecord p) rr pos = sends t (ip_vctRecord p) (order_bytes t rr) pos" for pos by (rule routes_cong)
  then show ?thesis using SearchRecord_spec [OF assms] by blast
qed

text \<open>One step down: \<open>f\<close> is the search in the page, \<open>b\<close> the bytes that are looked for.\<close>

lemma search_step:
  assumes "tree_inv t (Suc n) h page"
    and f: "\<And>p. branch_inv t p \<Longrightarrow> ip_vctRecord p \<noteq> [] \<Longrightarrow> sends t (ip_vctRecord p) b (f p)"
  obtains p br c where "ph_pages h page = Some (BranchNode p)" "ready (cp_pageStatus p)"
    "BranchPage_GetRecord (f p) True p = Some br" "br_childPage br = Some c" "tree_inv t n h c"
    "\<And>x. x \<in> subtree (Suc n) h page \<Longrightarrow> order_bytes t x = b \<Longrightarrow> x \<in> subtree n h c"
proof -
  obtain p where p: "ph_pages h page = Some (BranchNode p)" "ready (cp_pageStatus p)" "branch_inv t p" "ip_vctRecord p \<noteq> []"
    using assms(1) by (auto split: option.splits TreePage.splits)
  let ?rs = "ip_vctRecord p" and ?pos = "f p"
  have ch: "case br_childPage (?rs ! i) of None \<Rightarrow> False
      | Some c \<Rightarrow> tree_inv t n h c \<and> (\<forall>x \<in> subtree n h c. between t ?rs i x)" if "i < length ?rs" for i
    using assms(1) p(1) that by simp
  note inv = branch_invD [OF p(3)] and lex = f [OF p(3,4)]
  have "0 \<le> ?pos" "?pos < int (length ?rs)" using lex by (simp_all add: routes_def)
  then have i: "nat ?pos < length ?rs" "0 \<le> ?pos" by linarith+
  obtain c where c: "br_childPage (?rs ! nat ?pos) = Some c" "tree_inv t n h c" using ch [OF i(1)] by (auto split: option.splits)
  have gr: "BranchPage_GetRecord ?pos True p = Some (?rs ! nat ?pos)"
    using i inv(2) by (auto simp: BranchPage_GetRecord_def Let_def)
  have "x \<in> subtree n h c" if x: "x \<in> subtree (Suc n) h page" "order_bytes t x = b" for x
  proof -
    obtain j d where j: "j < length ?rs" "br_childPage (?rs ! j) = Some d" "x \<in> subtree n h d"
      using x(1) p(1) by (auto split: option.splits)
    then have "between t ?rs j x" using ch [OF j(1)] by auto
    then have "nat ?pos = j" using routes_between [OF inv(4) _ j(1)] lex x(2) by metis
    then show ?thesis using j c by simp
  qed
  then show ?thesis using that [OF p(1,2) gr c] by blast
qed

lemma search_key_loop_finds:
  assumes "tree_inv t n h page" "tr_indexType tr = t" "t \<noteq> NON_UNIQUE" "key_ok k"
  shows "\<exists>c h'. search_key_loop (Suc n) e cnt k page tr h = Some (True, c, h') \<and> (\<exists>p. ph_pages h c = Some (LeafNode p)) \<and>
     (\<forall>x \<in> subtree n h page. order_bytes t x = key_bytes k \<longrightarrow> x \<in> subtree 0 h c) \<and>
     (\<forall>m r. subtree m h' r = subtree m h r) \<and> (\<forall>m r. tree_inv t m h r \<longrightarrow> tree_inv t m h' r)"
  using assms(1)
proof (induction n arbitrary: h page)
  case 0
  then obtain p where p: "ph_pages h page = Some (LeafNode p)" "ready (cp_pageStatus p)" by (auto split: option.splits TreePage.splits)
  then have "search_key_loop (Suc 0) e cnt k page tr h = Some (True, page, validate page h)"
    by (auto simp: validate_def Let_def ready_def usable_def)
  then show ?case using p by auto
next
  case (Suc n)
  obtain p br c where st: "ph_pages h page = Some (BranchNode p)" "ready (cp_pageStatus p)"
    "BranchPage_GetRecord (BranchPage_SearchKey t k p) True p = Some br" "br_childPage br = Some c" "tree_inv t n h c"
    "\<And>x. x \<in> subtree (Suc n) h page \<Longrightarrow> order_bytes t x = key_bytes k \<Longrightarrow> x \<in> subtree n h c"
    using search_step [OF Suc.prems, of "key_bytes k" "BranchPage_SearchKey t k"] SearchKey_sends [OF _ _ assms(3,4)] by blast
  have step: "search_key_loop (Suc (Suc n)) e cnt k page tr h = search_key_loop (Suc n) e cnt k c tr (validate page h)"
    by (subst search_key_loop.simps(2)) (use st(1-4) assms(2) in \<open>auto simp: validate_def Let_def ready_def usable_def\<close>)
  obtain d h' where ih: "search_key_loop (Suc n) e cnt k c tr (validate page h) = Some (True, d, h')"
    "\<exists>p. ph_pages (validate page h) d = Some (LeafNode p)"
    "\<forall>x \<in> subtree n (validate page h) c. order_bytes t x = key_bytes k \<longrightarrow> x \<in> subtree 0 (validate page h) d"
    "\<forall>m r. subtree m h' r = subtree m (validate page h) r" "\<forall>m r. tree_inv t m (validate page h) r \<longrightarrow> tree_inv t m h' r"
    using Suc.IH [OF tree_inv_validate [OF st(5)]] by blast
  have "\<exists>p. ph_pages h d = Some (LeafNode p)"
    using ih(2) by (auto simp: validate_pages split: option.splits if_splits) (metis SetPageStatus.simps(1) TreePage.exhaust TreePage.distinct(1))
  then show ?case using step ih(1,3-5) st(6) by (metis subtree_validate tree_inv_validate)
qed

lemma search_record_loop_finds:
  assumes "tree_inv t n h page" "tr_indexType tr = t" "rec_wf t rr"
  shows "\<exists>c. search_record_loop (Suc n) e cnt rr page tr h = Some (True, c, h) \<and> (\<exists>p. ph_pages h c = Some (LeafNode p)) \<and>
     (\<forall>x \<in> subtree n h page. order_bytes t x = order_bytes t rr \<longrightarrow> x \<in> subtree 0 h c)"
  using assms(1)
proof (induction n arbitrary: page)
  case 0
  then obtain p where "ph_pages h page = Some (LeafNode p)" by (auto split: option.splits TreePage.splits)
  then show ?case by simp
next
  case (Suc n)
  obtain p br c where st: "ph_pages h page = Some (BranchNode p)" "ready (cp_pageStatus p)"
    "BranchPage_GetRecord (BranchPage_SearchRecord t rr p) True p = Some br" "br_childPage br = Some c" "tree_inv t n h c"
    "\<And>x. x \<in> subtree (Suc n) h page \<Longrightarrow> order_bytes t x = order_bytes t rr \<Longrightarrow> x \<in> subtree n h c"
    using search_step [OF Suc.prems, of "order_bytes t rr" "BranchPage_SearchRecord t rr"] SearchRecord_sends [OF _ _ assms(3)] by blast
  have step: "search_record_loop (Suc (Suc n)) e cnt rr page tr h = search_record_loop (Suc n) e cnt rr c tr h"
    by (subst search_record_loop.simps(2)) (use st(1-4) assms(2) in \<open>auto simp: Let_def\<close>)
  then show ?case using Suc.IH [OF st(5)] st(6) by metis
qed

text \<open>
  C1: On a B+ tree of a primary or unique index with \<open>n\<close> branch levels, whose pages are all in memory, not being read, and linked from
  the records of their parents, \<open>SearchPage\<close> with a key (less than \<open>2 ^ 31\<close> bytes) returns after at most \<open>n +
  1\<close> iterations with a leaf page, and that leaf holds every record of the tree that has the key. Pages that were read and not yet marked valid
  are marked on the way; the tree stays what it is. In a non-unique index, which is excluded, the records of one key may be in several leaves.
\<close>
theorem SearchPage_key_finds:
  assumes "tree_inv t n h root" "ph_pages h root = Some p" "usable (tp_status p)" "tr_indexType tr = t" "t \<noteq> NON_UNIQUE" "key_ok k"
  shows "\<exists>c h'. SearchPage_key (Suc n) e cnt k root tr h = Some (True, c, h') \<and> (\<exists>p. ph_pages h c = Some (LeafNode p)) \<and>
     (\<forall>x \<in> subtree n h root. rec_key x = key_bytes k \<longrightarrow> x \<in> subtree 0 h c) \<and>
     (\<forall>m r. subtree m h' r = subtree m h r) \<and> (\<forall>m r. tree_inv t m h r \<longrightarrow> tree_inv t m h' r)"
proof -
  have "order_bytes t x = rec_key x" for x :: RawRecord using assms(5) by (simp add: order_bytes_def)
  then show ?thesis
    using search_key_loop_finds [OF assms(1,4-6), of e cnt] assms(2,3) by (auto simp: SearchPage_key_def simp del: search_key_loop.simps)
qed

text \<open>
  The same for \<open>SearchPage\<close> with a record, in every kind of index: the leaf it ends in holds every record of the
  tree that compares equal to the one looked for (by key in a unique index, by key and value in a
  non-unique one).
\<close>
theorem SearchPage_record_finds:
  assumes "tree_inv t n h root" "ph_pages h root = Some p" "usable (tp_status p)" "tr_indexType tr = t" "rec_wf t rr"
  shows "\<exists>c. SearchPage_record (Suc n) e cnt rr root tr h = Some (True, c, h) \<and> (\<exists>p. ph_pages h c = Some (LeafNode p)) \<and>
     (\<forall>x \<in> subtree n h root. order_bytes t x = order_bytes t rr \<longrightarrow> x \<in> subtree 0 h c)"
  using search_record_loop_finds [OF assms(1,4,5), of e cnt] assms(2,3) by (auto simp: SearchPage_record_def simp del: search_record_loop.simps)

text \<open>
  \<open>SearchPage\<close> with a record never returns when the entry it follows has no child pointer but the child is in the
  pool and valid: the page it fetched is stored in a variable that hides the one the loop goes on with,
  and the next iteration uses a null pointer.
\<close>
theorem SearchPage_record_null:
  assumes "ph_pages h page = Some (BranchNode p)" "usable (cp_pageStatus p)"
    and "BranchPage_GetRecord (BranchPage_SearchRecord (tr_indexType tr) rr p) True p = Some br" "br_childPage br = None"
    and "cached h (CalcHashCode (ucast (tr_fileId tr)) (GetChildPageId br)) = Some c" "ph_pages h c = Some q" "tp_status q = PS_VALID"
  shows "SearchPage_record fuel e cnt rr page tr h = None"
proof (cases fuel)
  case 0
  then show ?thesis using assms(1,2) by (simp add: SearchPage_record_def)
next
  case (Suc fuel')
  let ?id = "GetChildPageId br"
  have valid: "\<exists>q. ph_pages h' c' = Some q \<and> tp_status q = PS_VALID"
    if "IT_GetPage e cnt ?id (child_type p) None False tr h = Some (c', h')" for c' h'
  proof -
    have pool: "Pool_GetPage (pe_alloc e) ?id (child_type p) tr h = map_option (\<lambda>h. (c, h)) (refer (tr_indexType tr) c h)"
      using assms(5) by (auto simp: Pool_GetPage_def cached_def Let_def split: option.splits)
    then have "refer (tr_indexType tr) c h \<noteq> None" using that by (auto simp: IT_GetPage_def split: if_splits option.splits)
    then obtain h1 where h1: "Pool_GetPage (pe_alloc e) ?id (child_type p) tr h = Some (c, h1)" "refer (tr_indexType tr) c h = Some h1"
      using pool by auto
    obtain q1 where q1: "ph_pages h1 c = Some q1" "tp_status q1 = PS_VALID" using refer_props(4) [OF h1(2)] assms(6,7) by auto
    have "IT_GetPage e cnt ?id (child_type p) None False tr h = Some (c, put_page c q1 h1)"
      using that h1(1) q1 by (auto simp: IT_GetPage_def Let_def split: if_splits)
    then show ?thesis using that q1 by (simp add: put_page_def)
  qed
  have keep: "tp_status q' = PS_VALID" if "ph_pages h' c' = Some q0" "tp_status q0 = PS_VALID" "ph_pages (set_child page i c' h') c' = Some q'" for h' c' q0 q' i
    using that by (auto simp: set_child_def put_page_def split: option.splits TreePage.splits if_splits)
  have "search_record_loop fuel e cnt rr page tr h = None"
  proof (cases "IT_GetPage e cnt ?id (child_type p) None False tr h")
    case None
    then show ?thesis unfolding Suc by (subst search_record_loop.simps(2)) (simp add: assms(1,3,4) Let_def)
  next
    case (Some x)
    obtain c' h' where x: "x = (c', h')" by (cases x)
    let ?h = "set_child page (nat (BranchPage_SearchRecord (tr_indexType tr) rr p)) c' h'"
    have "tp_status q' = PS_VALID" if "ph_pages ?h c' = Some q'" for q' using valid Some x keep that by blast
    then show ?thesis unfolding Suc
      by (subst search_record_loop.simps(2)) (cases "ph_pages ?h c'"; simp add: assms(1,3,4) Some x Let_def)
  qed
  then show ?thesis using assms(1,2) by (simp add: SearchPage_record_def)
qed

section \<open>A small tree\<close>

text \<open>A branch page with two entries over two leaves with one record each.\<close>

definition small_leaf :: "byte \<Rightarrow> LeafPage" where
  "small_leaf k = (LeafPage_create (\<lambda>n. replicate n 0) 1 0 2)
     \<lparr>ip_vctRecord := [LeafRecord (RawRecord.truncate (sample_entry k 0)) None None]\<rparr>"

definition small_tree :: PageHeap where
  "small_tree = empty_heap\<lparr>ph_pages := [0 \<mapsto> LeafNode ((small_leaf 4)\<lparr>cp_pageStatus := READED\<rparr>), 1 \<mapsto> LeafNode (small_leaf 8),
     2 \<mapsto> BranchNode (sample_branch [(sample_entry 5 1)\<lparr>br_childPage := Some 0\<rparr>, (sample_entry 9 2)\<lparr>br_childPage := Some 1\<rparr>] False)],
     ph_fresh := 3\<rparr>"

lemma child_fields [simp]:
  "branch_ok (b\<lparr>br_childPage := c\<rparr>) = branch_ok b" "rec_wf t (b\<lparr>br_childPage := c\<rparr>) = rec_wf t b"
  "rec_size (b\<lparr>br_childPage := c\<rparr>) = rec_size b" "order_bytes t (b\<lparr>br_childPage := c\<rparr>) = order_bytes t b"
  by (simp_all add: branch_ok_def rec_wf_def rec_fits_def order_bytes_def rec_key_def rec_data_def GetKeyLength_def
      GetTotalLength_def GetDataLength_def GetValueLength_def split: RecClass.split)

lemma truncate_key [simp]: "rec_key (RawRecord.truncate (b :: BranchRecord)) = rec_key b"
  by (simp add: RawRecord.truncate_def rec_key_def GetKeyLength_def)

lemma sample_order [simp]: "order_bytes UNIQUE (sample_entry k pid) = [k]" "order_bytes UNIQUE (RawRecord.truncate (sample_entry k pid)) = [k]"
  by (simp_all add: order_bytes_def)

lemma truncate_wf: "rec_wf UNIQUE (RawRecord.truncate (sample_entry k pid))"
  using sample_entry_ok(2) [of k pid] by (simp add: rec_wf_def rec_fits_def RawRecord.truncate_def GetKeyLength_def GetTotalLength_def GetDataLength_def)

lemma small_tree_inv: "tree_inv UNIQUE 1 small_tree 2"
  by (simp add: small_tree_def sample_branch_def less_Suc_eq nth_Cons' branch_inv_def small_leaf_def LeafPage_create_def
      LeafPage_existing_def ready_def usable_def page_consts between_def rec_before_def Let_def)

definition small_ref :: TreeRef where
  "small_ref = \<lparr>tr_fileId = 1, tr_indexType = UNIQUE\<rparr>"

definition small_env :: PageEnv where
  "small_env = \<lparr>pe_alloc = (\<lambda>n. replicate n 0), pe_crc32 = (\<lambda>_. 7), pe_disk = (\<lambda>_. [])\<rparr>"

lemma small_tree_root: "\<exists>p. ph_pages small_tree 2 = Some (BranchNode p) \<and> cp_pageStatus p = PS_VALID"
  by (simp add: small_tree_def sample_branch_def)

lemma small_tree_record: "RawRecord.truncate (sample_entry 4 0) \<in> subtree 1 small_tree 2"
  by (simp add: small_tree_def sample_branch_def small_leaf_def) (rule bexI [of _ 0]; simp)

theorem SearchPage_key_finds_witness:
  "\<exists>c h'. SearchPage_key 2 small_env 3 (RawKey_wrap [4] 1 False) 2 small_ref small_tree = Some (True, c, h') \<and>
     RawRecord.truncate (sample_entry 4 0) \<in> subtree 0 small_tree c"
proof -
  obtain p where p: "ph_pages small_tree 2 = Some (BranchNode p)" "cp_pageStatus p = PS_VALID" using small_tree_root by blast
  have k: "key_ok (RawKey_wrap [4] 1 False)" "key_bytes (RawKey_wrap [4] 1 False) = [4]"
    by (simp_all add: key_ok_def key_bytes_def RawKey_wrap_def)
  show ?thesis
    using SearchPage_key_finds [OF small_tree_inv p(1), of small_ref "RawKey_wrap [4] 1 False" small_env 3] p(2) k small_tree_record
    by (fastforce simp: small_ref_def usable_def numeral_2_eq_2 simp del: subtree.simps)
qed

theorem SearchPage_record_finds_witness:
  "\<exists>c. SearchPage_record 2 small_env 3 (RawRecord.truncate (sample_entry 4 0)) 2 small_ref small_tree = Some (True, c, small_tree) \<and>
     RawRecord.truncate (sample_entry 4 0) \<in> subtree 0 small_tree c"
proof -
  obtain p where p: "ph_pages small_tree 2 = Some (BranchNode p)" "cp_pageStatus p = PS_VALID" using small_tree_root by blast
  show ?thesis
    using SearchPage_record_finds [OF small_tree_inv p(1), of small_ref "RawRecord.truncate (sample_entry 4 0)" small_env 3] p(2) small_tree_record truncate_wf
    by (fastforce simp: small_ref_def usable_def numeral_2_eq_2 simp del: subtree.simps)
qed

theorem CalcIndexRange_agree_witness:
  "\<exists>pos. CalcIndexRange_rec (sample_tree\<lparr>it_indexType := UNIQUE, it_vctRange := [IndexRange_new\<lparr>ir_borderRecord := Some (sample_entry 5 1)\<rparr>,
       IndexRange_new\<lparr>ir_borderRecord := Some (sample_entry 9 2)\<rparr>]\<rparr>) (sample_entry 7 0) = Some pos \<and>
     CalcIndexRange_key (sample_tree\<lparr>it_indexType := UNIQUE, it_vctRange := [IndexRange_new\<lparr>ir_borderRecord := Some (sample_entry 5 1)\<rparr>,
       IndexRange_new\<lparr>ir_borderRecord := Some (sample_entry 9 2)\<rparr>]\<rparr>) (RawKey_wrap [7] 1 False) = Some pos"
proof -
  let ?t = "sample_tree\<lparr>it_indexType := UNIQUE, it_vctRange := [IndexRange_new\<lparr>ir_borderRecord := Some (sample_entry 5 1)\<rparr>,
       IndexRange_new\<lparr>ir_borderRecord := Some (sample_entry 9 2)\<rparr>]\<rparr>"
  have b: "borders ?t = Some two_entries" by (simp add: borders_def two_entries_def)
  have "range_borders_ok UNIQUE two_entries" by (simp add: range_borders_ok_def two_entries_def)
  then show ?thesis
    using CalcIndexRange_agree [OF b, of "sample_entry 7 0" "RawKey_wrap [7] 1 False"]
    by (auto simp: key_ok_def key_bytes_def RawKey_wrap_def)
qed

text \<open>The same tree with the first child pointer missing, the leaf being in the pool.\<close>

definition cut_tree :: PageHeap where
  "cut_tree = small_tree\<lparr>ph_pages := (ph_pages small_tree)(0 \<mapsto> LeafNode (small_leaf 4), 2 \<mapsto> BranchNode (sample_branch two_entries False)),
     ph_mapCache := [CalcHashCode 1 1 \<mapsto> 0]\<rparr>"

theorem SearchPage_record_null_witness:
  "SearchPage_record 2 small_env 3 (RawRecord.truncate (sample_entry 4 0)) 2 small_ref cut_tree = None"
proof -
  let ?p = "sample_branch two_entries False" and ?r = "RawRecord.truncate (sample_entry 4 0)"
  have "rec_cmp UNIQUE (sample_entry 5 1) ?r > 0" "rec_cmp UNIQUE (sample_entry 9 2) ?r > 0"
    using truncate_wf [of 4 0] by (simp_all add: rec_cmp_bytes bytes_cmp_iffs cmp_len_def)
  then have pos: "BranchPage_SearchRecord UNIQUE ?r ?p = 0"
    by (simp add: BranchPage_SearchRecord_def sample_branch_def two_entries_def bsearch.simps probe_def Let_def)
  have f: "cp_pageStatus ?p = PS_VALID" "BranchPage_GetRecord 0 True ?p = Some (sample_entry 5 1)"
    by (simp_all add: sample_branch_def two_entries_def BranchPage_GetRecord_def)
  have e: "br_childPage (sample_entry 5 1) = None" "GetChildPageId (sample_entry 5 1) = 1"
    by (simp_all add: sample_entry_def BranchRecord_load_def GetChildPageId_def GetTotalLength_def) (simp add: rd_def)
  have l: "cp_pageStatus (small_leaf 4) = PS_VALID" by (simp add: small_leaf_def LeafPage_create_def Let_def)
  show ?thesis
    by (rule SearchPage_record_null [of _ _ ?p _ _ "sample_entry 5 1" 0 "LeafNode (small_leaf 4)"])
      (simp_all add: pos f e l cut_tree_def small_ref_def usable_def cached_def)
qed

end
