(* ===== verification/Rapid_Queue.thy ===== *)
theory Rapid_Queue
  imports Core_Enums
begin

text \<open>
  The queues between threads: \<open>utils/RapidQueue.h\<close>. A \<open>LineQueue\<close> has one thread that pushes and one that pops; it is a
  chain of blocks of 32 elements, from \<open>_endNode\<close> (the first block here) to \<open>_startNode\<close> (the last one). The
  positions are 64-bit numbers that wrap around. A \<open>RapidQueue\<close> has one line per pushing thread. A null
  pointer in a block is \<open>None\<close>; \<open>junk\<close> is the content of a new block. A failed assertion is \<open>None\<close>.
\<close>

section \<open>Line queues\<close>

definition ELE_SIZE :: nat where "ELE_SIZE = 32"

record 'a LineQueue =
  lq_blocks :: "'a option list list"
  lq_head :: u64
  lq_submited :: u64
  lq_tail :: u64

definition LineQueue_new :: "'a option list \<Rightarrow> 'a LineQueue" where
  "LineQueue_new junk = \<lparr>lq_blocks = [junk], lq_head = 0, lq_submited = 0, lq_tail = 0\<rparr>"

definition block_pos :: "u64 \<Rightarrow> nat" where
  "block_pos w = unat w mod ELE_SIZE"

definition LQ_Push :: "'a option list \<Rightarrow> 'a option \<Rightarrow> bool \<Rightarrow> 'a LineQueue \<Rightarrow> 'a LineQueue" where
  "LQ_Push junk ele submit q =
     (let pos = block_pos (lq_head q);
          (submit, blocks) = (if pos = 0 then (True, lq_blocks q @ [junk]) else (submit, lq_blocks q));
          blocks = butlast blocks @ [(last blocks)[pos := ele]];
          q = q\<lparr>lq_blocks := blocks, lq_head := lq_head q + 1\<rparr>
      in if submit then q\<lparr>lq_submited := lq_head q\<rparr> else q)"

definition LQ_Submit :: "'a LineQueue \<Rightarrow> 'a LineQueue" where
  "LQ_Submit q = (if lq_head q \<noteq> lq_submited q then q\<lparr>lq_submited := lq_head q\<rparr> else q)"

text \<open>The body of the two loops of \<open>Pop\<close>.\<close>

definition pop_one :: "'a LineQueue \<Rightarrow> ('a \<times> 'a LineQueue) option" where
  "pop_one q =
     (let pos = block_pos (lq_tail q); blocks = (if pos = 0 then tl (lq_blocks q) else lq_blocks q) in
      case blocks of
        [] \<Rightarrow> None
      | b # _ \<Rightarrow> map_option (\<lambda>x. (x, q\<lparr>lq_blocks := blocks, lq_tail := lq_tail q + 1\<rparr>)) (b ! pos))"

text \<open>The first loop runs while the position has to wrap around, the second one up to \<open>head\<close>.\<close>

lemma pop_one_tail: "pop_one q = Some (x, q') \<Longrightarrow> lq_tail q' = lq_tail q + 1"
  by (auto simp: pop_one_def Let_def split: list.splits)

lemma unat_inc: "unat ((t :: u64) + 1) = (if unat t + 1 = 2 ^ 64 then 0 else unat t + 1)"
proof -
  have "unat (t + 1) = (unat t + 1) mod 2 ^ 64" by (simp add: unat_word_ariths)
  moreover have "unat t + 1 \<le> 2 ^ 64" using unsigned_less [of t, where ?'a = nat] by simp
  ultimately show ?thesis by (metis mod_less mod_self order_le_neq_trans)
qed

lemma unat_inc_below: "(t :: u64) < h \<Longrightarrow> unat (t + 1) = unat t + 1"
  using unsigned_less [of h, where ?'a = nat] by (simp add: unat_inc word_less_nat_alt)

lemma unat_inc_above: "h < (t :: u64) \<Longrightarrow> h < t + 1 \<Longrightarrow> 2 ^ 64 - unat (t + 1) < 2 ^ 64 - unat t"
  using unsigned_less [of t, where ?'a = nat] unsigned_less [of "t + 1", where ?'a = nat]
  by (simp add: unat_inc word_less_nat_alt split: if_splits)

function pop_above :: "u64 \<Rightarrow> 'a list \<Rightarrow> 'a LineQueue \<Rightarrow> ('a list \<times> 'a LineQueue) option" where
  "pop_above head lst q =
     (if head < lq_tail q
      then (case pop_one q of None \<Rightarrow> None | Some (x, q') \<Rightarrow> pop_above head (lst @ [x]) q')
      else Some (lst, q))"
  by pat_completeness auto
termination
  by (relation "measure (\<lambda>(head, lst, q). if head < lq_tail q then 2 ^ 64 - unat (lq_tail q) else 0)")
    (use unsigned_less [where ?'a = nat and ?'b = 64] in \<open>auto simp: pop_one_tail unat_inc_above [simplified]\<close>)

function pop_upto :: "u64 \<Rightarrow> 'a list \<Rightarrow> 'a LineQueue \<Rightarrow> ('a list \<times> 'a LineQueue) option" where
  "pop_upto head lst q =
     (if lq_tail q < head
      then (case pop_one q of None \<Rightarrow> None | Some (x, q') \<Rightarrow> pop_upto head (lst @ [x]) q')
      else Some (lst, q))"
  by pat_completeness auto
termination
  by (relation "measure (\<lambda>(head, lst, q). unat head - unat (lq_tail q))")
    (auto simp: pop_one_tail unat_inc_below word_less_nat_alt)

declare pop_above.simps [simp del] pop_upto.simps [simp del]

definition LQ_Pop :: "'a list \<Rightarrow> 'a LineQueue \<Rightarrow> ('a list \<times> 'a LineQueue) option" where
  "LQ_Pop lst q =
     (let head = lq_submited q in
      if head = lq_tail q then Some (lst, q)
      else case pop_above head lst q of None \<Rightarrow> None | Some (lst, q) \<Rightarrow> pop_upto head lst q)"

definition LQ_IsEmpty :: "'a LineQueue \<Rightarrow> bool" where
  "LQ_IsEmpty q = (let submit = lq_submited q in lq_tail q = submit \<and> lq_head q = submit)"

definition LQ_RoughSize :: "'a LineQueue \<Rightarrow> u64" where
  "LQ_RoughSize q =
     (let submit = lq_submited q in
      if submit < lq_tail q then submit + (0xFFFFFFFFFFFFFFFF - lq_tail q + 1) else submit - lq_tail q)"

text \<open>\<open>LineQueue(LineQueue &&src)\<close>: the new queue and what is left of the old one.\<close>

definition LineQueue_move :: "'a LineQueue \<Rightarrow> 'a LineQueue \<times> 'a LineQueue" where
  "LineQueue_move src = (src, \<lparr>lq_blocks = [], lq_head = 0, lq_submited = 0, lq_tail = 0\<rparr>)"

section \<open>Queues of several threads\<close>

record 'a RapidQueue =
  rq_maxThreadNum :: u16
  rq_currAlivedThreads :: u16
  rq_lastSetThreads :: u16
  rq_popNum :: int
  rq_vctLine :: "'a LineQueue list"

definition RapidQueue_new :: "(nat \<Rightarrow> 'a option list) \<Rightarrow> u16 \<Rightarrow> u16 \<Rightarrow> 'a RapidQueue option" where
  "RapidQueue_new junk maxThreadNum threadNum =
     (if threadNum \<le> maxThreadNum then
        Some \<lparr>rq_maxThreadNum = maxThreadNum,
          rq_currAlivedThreads = (if threadNum = 0 then maxThreadNum else threadNum),
          rq_lastSetThreads = (if threadNum = 0 then maxThreadNum else threadNum), rq_popNum = 0,
          rq_vctLine = map (\<lambda>i. LineQueue_new (junk i)) [0..<unat maxThreadNum]\<rparr>
      else None)"

definition ResetLiveThreadNumber :: "u16 \<Rightarrow> 'a RapidQueue \<Rightarrow> 'a RapidQueue option" where
  "ResetLiveThreadNumber threadNum rq =
     (if threadNum \<le> rq_maxThreadNum rq then
        (let rq = rq\<lparr>rq_lastSetThreads := threadNum\<rparr> in
         if threadNum < rq_currAlivedThreads rq then Some (rq\<lparr>rq_popNum := 5\<rparr>)
         else Some (rq\<lparr>rq_currAlivedThreads := threadNum\<rparr>))
      else None)"

definition RQ_Push :: "'a option list \<Rightarrow> u16 \<Rightarrow> 'a option \<Rightarrow> bool \<Rightarrow> 'a RapidQueue \<Rightarrow> 'a RapidQueue option" where
  "RQ_Push junk tid ele submit rq =
     (if tid < rq_lastSetThreads rq then
        Some (rq\<lparr>rq_vctLine := (rq_vctLine rq)[unat tid := LQ_Push junk ele submit (rq_vctLine rq ! unat tid)]\<rparr>)
      else None)"

definition RQ_Submit :: "u32 \<Rightarrow> 'a RapidQueue \<Rightarrow> 'a RapidQueue option" where
  "RQ_Submit tid rq =
     (if tid < ucast (rq_lastSetThreads rq) then
        Some (rq\<lparr>rq_vctLine := (rq_vctLine rq)[unat tid := LQ_Submit (rq_vctLine rq ! unat tid)]\<rparr>)
      else None)"

primrec pop_lines :: "nat list \<Rightarrow> 'a list \<Rightarrow> 'a LineQueue list \<Rightarrow> ('a list \<times> 'a LineQueue list) option" where
  "pop_lines [] lst ls = Some (lst, ls)"
| "pop_lines (i # js) lst ls =
     (case LQ_Pop lst (ls ! i) of None \<Rightarrow> None | Some (lst, q) \<Rightarrow> pop_lines js lst (ls[i := q]))"

definition RQ_Pop :: "'a list \<Rightarrow> 'a RapidQueue \<Rightarrow> ('a list \<times> 'a RapidQueue) option" where
  "RQ_Pop lst rq =
     (case pop_lines [0..<unat (rq_currAlivedThreads rq)] lst (rq_vctLine rq) of
        None \<Rightarrow> None
      | Some (lst, ls) \<Rightarrow>
          let rq = rq\<lparr>rq_vctLine := ls\<rparr> in
          Some (lst,
            if 0 < rq_popNum rq then
              (let rq = rq\<lparr>rq_popNum := rq_popNum rq - 1\<rparr> in
               if rq_popNum rq = 0 then rq\<lparr>rq_currAlivedThreads := rq_lastSetThreads rq\<rparr> else rq)
            else rq))"

definition RQ_IsEmpty :: "'a RapidQueue \<Rightarrow> bool" where
  "RQ_IsEmpty rq = list_all (\<lambda>i. LQ_IsEmpty (rq_vctLine rq ! i)) [0..<unat (rq_maxThreadNum rq)]"

definition RQ_RoughSize :: "'a RapidQueue \<Rightarrow> u64" where
  "RQ_RoughSize rq =
     fold (\<lambda>i sz. sz + LQ_RoughSize (rq_vctLine rq ! i)) [0..<unat (rq_currAlivedThreads rq)] 0"

text \<open>The assertion of the destructor.\<close>

definition RapidQueue_delete :: "'a RapidQueue \<Rightarrow> unit option" where
  "RapidQueue_delete rq = (if RQ_RoughSize rq = 0 then Some () else None)"

definition RQ_Resize :: "(nat \<Rightarrow> 'a option list) \<Rightarrow> u16 \<Rightarrow> 'a RapidQueue \<Rightarrow> 'a RapidQueue option" where
  "RQ_Resize junk newSize rq =
     (if \<not> RQ_IsEmpty rq then None
      else if rq_maxThreadNum rq = newSize then Some rq
      else Some \<lparr>rq_maxThreadNum = newSize, rq_currAlivedThreads = newSize, rq_lastSetThreads = newSize, rq_popNum = 0,
        rq_vctLine = (let ls = rq_vctLine rq in
          take (unat newSize) ls @ map (\<lambda>i. LineQueue_new (junk i)) [length ls..<unat newSize])\<rparr>)"

section \<open>What a line holds\<close>

text \<open>
  \<open>LQ_rep q vis pend\<close>: the queue \<open>q\<close> holds the elements \<open>vis\<close>, which the receiver can see, and then \<open>pend\<close>, which are
  not submitted. \<open>LQ_flat q pre xs\<close> is the layout: \<open>xs\<close> lies behind the part \<open>pre\<close> of the first block that is used up.
\<close>

definition LQ_flat :: "'a LineQueue \<Rightarrow> 'a option list \<Rightarrow> 'a list \<Rightarrow> 'a option list \<Rightarrow> bool" where
  "LQ_flat q pre xs post \<longleftrightarrow>
     list_all (\<lambda>b. length b = 32) (lq_blocks q) \<and> concat (lq_blocks q) = pre @ map Some xs @ post \<and>
     length pre = (if block_pos (lq_tail q) = 0 then 32 else block_pos (lq_tail q)) \<and> length post < 32 \<and>
     lq_head q = lq_tail q + of_nat (length xs)"

definition LQ_rep :: "'a LineQueue \<Rightarrow> 'a list \<Rightarrow> 'a list \<Rightarrow> bool" where
  "LQ_rep q vis pend \<longleftrightarrow> (\<exists>pre post. LQ_flat q pre (vis @ pend) post) \<and>
     lq_submited q = lq_tail q + of_nat (length vis) \<and> length vis + length pend < 2 ^ 64"

lemma length_concat_blocks: "list_all (\<lambda>b. length b = 32) bs \<Longrightarrow> length (concat bs) = 32 * length bs"
  by (induction bs) auto

lemma block_pos_add: "block_pos (w + of_nat n) = (block_pos w + n) mod 32"
proof -
  have "unat (w + of_nat n) = (unat w + n) mod 2 ^ 64"
    by (simp add: unat_word_ariths unat_of_nat mod_add_right_eq)
  then have "unat (w + of_nat n) mod 32 = (unat w + n) mod 2 ^ 64 mod 32" by simp
  also have "\<dots> = (unat w + n) mod 32" by (rule mod_mod_cancel) simp
  finally show ?thesis by (simp add: block_pos_def ELE_SIZE_def mod_add_left_eq)
qed

lemma block_pos_less [simp]: "block_pos w < 32"
  by (simp add: block_pos_def ELE_SIZE_def)

lemma LQ_flatD:
  assumes "LQ_flat q pre xs post"
  shows "list_all (\<lambda>b. length b = 32) (lq_blocks q)" "concat (lq_blocks q) = pre @ map Some xs @ post"
    "length pre mod 32 = block_pos (lq_tail q)" "length pre \<noteq> 0" "length pre \<le> 32" "length post < 32"
    "lq_head q = lq_tail q + of_nat (length xs)" "length pre + length xs + length post = 32 * length (lq_blocks q)"
proof -
  show a: "list_all (\<lambda>b. length b = 32) (lq_blocks q)" "concat (lq_blocks q) = pre @ map Some xs @ post"
    "lq_head q = lq_tail q + of_nat (length xs)" "length post < 32" using assms by (auto simp: LQ_flat_def)
  have p: "length pre = (if block_pos (lq_tail q) = 0 then 32 else block_pos (lq_tail q))" using assms by (simp add: LQ_flat_def)
  show "length pre mod 32 = block_pos (lq_tail q)" "length pre \<noteq> 0" "length pre \<le> 32"
    using block_pos_less [of "lq_tail q"] by (auto simp: p less_imp_le split: if_splits)
  show "length pre + length xs + length post = 32 * length (lq_blocks q)"
    using length_concat_blocks [OF a(1)] by (simp add: a(2))
qed

text \<open>The place of the next element: the first one of \<open>post\<close>, or of a new block.\<close>

lemma head_pos:
  assumes "LQ_flat q pre xs post"
  shows "block_pos (lq_head q) = (if post = [] then 0 else 32 - length post)"
    "post \<noteq> [] \<Longrightarrow> length pre + length xs = 32 * (length (lq_blocks q) - 1) + block_pos (lq_head q)"
proof -
  note f = LQ_flatD [OF assms]
  have "block_pos (lq_head q) = (length pre + length xs) mod 32"
    by (simp add: f(7) block_pos_add flip: f(3)) (simp add: mod_add_left_eq)
  moreover have "length pre + length xs = 32 * length (lq_blocks q) - length post" using f(8) by linarith
  moreover have "length (lq_blocks q) \<noteq> 0" using f(4,8) by (intro notI) simp
  then obtain m where m: "length (lq_blocks q) = Suc m" using not0_implies_Suc by blast
  moreover have "post \<noteq> [] \<Longrightarrow> 32 * Suc m - length post = 32 * m + (32 - length post)" using f(6) by simp
  ultimately show "block_pos (lq_head q) = (if post = [] then 0 else 32 - length post)"
    "post \<noteq> [] \<Longrightarrow> length pre + length xs = 32 * (length (lq_blocks q) - 1) + block_pos (lq_head q)"
    by auto
qed

lemma concat_update_last:
  "list_all (\<lambda>b. length b = 32) bs \<Longrightarrow> bs \<noteq> [] \<Longrightarrow> pos < 32 \<Longrightarrow>
     concat (butlast bs @ [(last bs)[pos := e]]) = (concat bs)[32 * (length bs - 1) + pos := e]"
  by (cases bs rule: rev_cases) (simp_all add: list_update_append length_concat_blocks)

lemma LQ_flat_new: "length junk = 32 \<Longrightarrow> LQ_flat (LineQueue_new junk) junk [] []"
  by (simp add: LQ_flat_def LineQueue_new_def block_pos_def)

lemma LQ_flat_push:
  assumes fl: "LQ_flat q pre xs post" and j: "length junk = 32"
  shows "\<exists>post. LQ_flat (LQ_Push junk (Some x) submit q) pre (xs @ [x]) post"
proof -
  note f = LQ_flatD [OF fl] and h = head_pos [OF fl]
  have t: "lq_tail (LQ_Push junk (Some x) submit q) = lq_tail q" "lq_head (LQ_Push junk (Some x) submit q) = lq_head q + 1"
    by (auto simp: LQ_Push_def Let_def)
  have "\<exists>post'. list_all (\<lambda>b. length b = 32) (lq_blocks (LQ_Push junk (Some x) submit q)) \<and>
    concat (lq_blocks (LQ_Push junk (Some x) submit q)) = pre @ map Some (xs @ [x]) @ post' \<and> length post' < 32"
  proof (cases "post = []")
    case True
    then have "lq_blocks (LQ_Push junk (Some x) submit q) = lq_blocks q @ [junk[0 := Some x]]"
      by (simp add: LQ_Push_def Let_def h(1) butlast_append)
    then show ?thesis using f(1,2) j True by (cases junk) (auto simp: list_all_iff)
  next
    case False
    then have p: "block_pos (lq_head q) \<noteq> 0" using f(6) by (simp add: h(1))
    have ne: "lq_blocks q \<noteq> []" using f(4,8) by auto
    have b: "lq_blocks (LQ_Push junk (Some x) submit q) =
      butlast (lq_blocks q) @ [(last (lq_blocks q))[block_pos (lq_head q) := Some x]]"
      by (simp add: LQ_Push_def Let_def p)
    have "concat (lq_blocks (LQ_Push junk (Some x) submit q)) = (pre @ map Some xs @ post)[length pre + length xs := Some x]"
      unfolding b h(2) [OF False] f(2) [symmetric] by (rule concat_update_last [OF f(1) ne block_pos_less])
    then have "concat (lq_blocks (LQ_Push junk (Some x) submit q)) = pre @ map Some (xs @ [x]) @ tl post"
      using False by (cases post) (simp_all add: list_update_append)
    moreover have "list_all (\<lambda>b. length b = 32) (lq_blocks (LQ_Push junk (Some x) submit q))"
      using f(1) ne unfolding b by (auto simp: list_all_iff dest: in_set_butlastD)
    ultimately show ?thesis using f(6) by (intro exI [of _ "tl post"]) simp
  qed
  then show ?thesis using fl by (auto simp: LQ_flat_def t)
qed

lemma LQ_rep_new: "length junk = 32 \<Longrightarrow> LQ_rep (LineQueue_new junk) [] []"
  using LQ_flat_new [of junk] by (auto simp: LQ_rep_def LineQueue_new_def)

text \<open>The first element of a new block is submitted at once, whatever the caller asks for.\<close>

theorem LQ_rep_push:
  assumes r: "LQ_rep q vis pend" and j: "length junk = 32" and n: "length vis + length pend + 1 < 2 ^ 64"
  shows "if submit \<or> block_pos (lq_head q) = 0 then LQ_rep (LQ_Push junk (Some x) submit q) (vis @ pend @ [x]) []
    else LQ_rep (LQ_Push junk (Some x) submit q) vis (pend @ [x])"
proof -
  obtain pre post where fl: "LQ_flat q pre (vis @ pend) post" using r by (auto simp: LQ_rep_def)
  have h: "lq_head q = lq_tail q + of_nat (length vis) + of_nat (length pend)" using LQ_flatD(7) [OF fl] by simp
  have s: "\<And>submit. lq_tail (LQ_Push junk (Some x) submit q) = lq_tail q"
    "\<And>submit. lq_submited (LQ_Push junk (Some x) submit q) =
      (if submit \<or> block_pos (lq_head q) = 0 then lq_head q + 1 else lq_submited q)"
    by (auto simp: LQ_Push_def Let_def)
  have e: "\<exists>pre post. LQ_flat (LQ_Push junk (Some x) submit q) pre (vis @ pend @ [x]) post" for submit
    using LQ_flat_push [OF fl j, of x submit] by auto
  show ?thesis using e r n by (cases "submit \<or> block_pos (lq_head q) = 0") (auto simp: LQ_rep_def s h)
qed

theorem LQ_rep_submit: "LQ_rep q vis pend \<Longrightarrow> LQ_rep (LQ_Submit q) (vis @ pend) []"
proof -
  assume r: "LQ_rep q vis pend"
  then obtain pre post where fl: "LQ_flat q pre (vis @ pend) post" by (auto simp: LQ_rep_def)
  have "lq_submited (LQ_Submit q) = lq_head q" by (simp add: LQ_Submit_def)
  moreover have "LQ_flat (LQ_Submit q) pre (vis @ pend) post" using fl by (simp add: LQ_flat_def LQ_Submit_def)
  moreover have "lq_tail (LQ_Submit q) = lq_tail q" by (simp add: LQ_Submit_def)
  ultimately show ?thesis using r LQ_flatD(7) [OF fl] by (auto simp: LQ_rep_def)
qed

lemma pop_one_flat:
  assumes fl: "LQ_flat q pre (x # xs) post"
  shows "\<exists>q' pre'. pop_one q = Some (x, q') \<and> LQ_flat q' pre' xs post \<and> lq_tail q' = lq_tail q + 1 \<and> lq_submited q' = lq_submited q"
proof -
  note f = LQ_flatD [OF fl]
  have bp: "block_pos (lq_tail q + 1) = (block_pos (lq_tail q) + 1) mod 32" using block_pos_add [of "lq_tail q" 1] by simp
  obtain b bs where b: "lq_blocks q = b # bs" "length b = 32"
    using f(1,4,8) by (cases "lq_blocks q") auto
  show ?thesis
  proof (cases "block_pos (lq_tail q) = 0")
    case True
    then have p: "length pre = 32" using fl by (simp add: LQ_flat_def)
    then have c: "b = pre" "concat bs = Some x # map Some xs @ post" using f(2) b by auto
    then obtain d ds where d: "bs = d # ds" "length d = 32" using f(1) b by (cases bs) auto
    then have "hd d = Some x" "d \<noteq> []" using c(2) by (cases d; simp)+
    then have "pop_one q = Some (x, q\<lparr>lq_blocks := bs, lq_tail := lq_tail q + 1\<rparr>)"
      by (simp add: pop_one_def True b d hd_conv_nth flip: hd_conv_nth)
    moreover have "LQ_flat (q\<lparr>lq_blocks := bs, lq_tail := lq_tail q + 1\<rparr>) [Some x] xs post"
      using fl c f(1) b by (simp add: LQ_flat_def bp True)
    ultimately show ?thesis by auto
  next
    case False
    then have p: "length pre = block_pos (lq_tail q)" using fl by (simp add: LQ_flat_def)
    have "b ! block_pos (lq_tail q) = concat (lq_blocks q) ! block_pos (lq_tail q)"
      by (simp add: b nth_append)
    then have "b ! block_pos (lq_tail q) = Some x" unfolding f(2) p [symmetric] by simp
    then have "pop_one q = Some (x, q\<lparr>lq_tail := lq_tail q + 1\<rparr>)" by (simp add: pop_one_def False b)
    moreover have "length (pre @ [Some x]) = (if block_pos (lq_tail q + 1) = 0 then 32 else block_pos (lq_tail q + 1))"
      using block_pos_less [of "lq_tail q"] by (auto simp: bp p mod_Suc)
    then have "LQ_flat (q\<lparr>lq_tail := lq_tail q + 1\<rparr>) (pre @ [Some x]) xs post" using fl by (simp add: LQ_flat_def)
    ultimately show ?thesis by auto
  qed
qed

text \<open>The two loops together are one loop that runs as often as there are visible elements.\<close>

primrec pops :: "nat \<Rightarrow> 'a list \<Rightarrow> 'a LineQueue \<Rightarrow> ('a list \<times> 'a LineQueue) option" where
  "pops 0 lst q = Some (lst, q)"
| "pops (Suc n) lst q = (case pop_one q of None \<Rightarrow> None | Some (x, q') \<Rightarrow> pops n (lst @ [x]) q')"

lemma pops_add:
  "pops (m + n) lst q = (case pops m lst q of None \<Rightarrow> None | Some (lst, q) \<Rightarrow> pops n lst q)"
  by (induction m arbitrary: lst q) (auto split: option.split)

lemma pops_tail: "pops n lst q = Some (lst', q') \<Longrightarrow> lq_tail q' = lq_tail q + of_nat n"
  by (induction n arbitrary: lst q) (auto simp: pop_one_tail algebra_simps split: option.splits)

lemma pop_upto_pops: "pop_upto head lst q = pops (unat head - unat (lq_tail q)) lst q"
proof (induction head lst q rule: pop_upto.induct)
  case (1 head lst q)
  show ?case
  proof (cases "lq_tail q < head")
    case True
    then have "unat head - unat (lq_tail q) = Suc (unat head - unat (lq_tail q + 1))"
      by (simp add: unat_inc_below word_less_nat_alt Suc_diff_Suc)
    then show ?thesis using 1 True
      by (simp add: pop_upto.simps [of head lst q] pop_one_tail split: option.split)
  next
    case False
    then show ?thesis by (simp add: pop_upto.simps [of head lst q] word_less_nat_alt)
  qed
qed

lemma pop_above_pops: "pop_above head lst q = pops (if head < lq_tail q then 2 ^ 64 - unat (lq_tail q) else 0) lst q"
proof (induction head lst q rule: pop_above.induct)
  case (1 head lst q)
  show ?case
  proof (cases "head < lq_tail q")
    case True
    have "unat (lq_tail q) < 2 ^ 64" using unsigned_less [of "lq_tail q", where ?'a = nat] by simp
    then have "2 ^ 64 - unat (lq_tail q) = Suc (if head < lq_tail q + 1 then 2 ^ 64 - unat (lq_tail q + 1) else 0)"
      using True by (cases "unat (lq_tail q) + 1 = 2 ^ 64") (auto simp: unat_inc word_less_nat_alt)
    then show ?thesis using 1 True
      by (simp add: pop_above.simps [of head lst q] pop_one_tail del: One_nat_def split: option.split)
  next
    case False
    then show ?thesis by (simp add: pop_above.simps [of head lst q])
  qed
qed

lemma unat_diff_wrap: "unat ((a :: u64) - b) = (if a < b then 2 ^ 64 - unat b + unat a else unat a - unat b)"
  using unsigned_less [of b, where ?'a = nat] by (auto simp: unat_sub_if' word_less_nat_alt)

theorem LQ_Pop_pops: "LQ_Pop lst q = pops (unat (lq_submited q - lq_tail q)) lst q"
proof (cases "lq_submited q < lq_tail q")
  case True
  then have "LQ_Pop lst q = (case pops (2 ^ 64 - unat (lq_tail q)) lst q of None \<Rightarrow> None
    | Some (lst, q') \<Rightarrow> pops (unat (lq_submited q) - unat (lq_tail q')) lst q')"
    by (auto simp: LQ_Pop_def Let_def pop_above_pops pop_upto_pops split: option.split)
  moreover have "lq_tail q + of_nat (2 ^ 64 - unat (lq_tail q)) = 0"
    using unsigned_less [of "lq_tail q", where ?'a = nat]
    by (simp add: word_unat_eq_iff unat_word_ariths unat_of_nat mod_add_right_eq)
  ultimately show ?thesis by (auto simp: unat_diff_wrap True pops_add pops_tail split: option.split)
next
  case False
  then show ?thesis by (simp add: LQ_Pop_def Let_def pop_above_pops pop_upto_pops unat_diff_wrap)
qed

lemma pops_flat:
  "LQ_flat q pre (vs @ xs) post \<Longrightarrow>
     \<exists>q' pre'. pops (length vs) lst q = Some (lst @ vs, q') \<and> LQ_flat q' pre' xs post \<and> lq_submited q' = lq_submited q"
proof (induction vs arbitrary: q pre lst)
  case Nil
  then show ?case by auto
next
  case (Cons x vs)
  then obtain q1 pre1 where 1: "pop_one q = Some (x, q1)" "LQ_flat q1 pre1 (vs @ xs) post" "lq_submited q1 = lq_submited q"
    using pop_one_flat [of q pre x "vs @ xs" post] by auto
  then show ?case using Cons.IH [OF 1(2), of "lst @ [x]"] by auto
qed

theorem LQ_rep_pop:
  assumes r: "LQ_rep q vis pend"
  shows "\<exists>q'. LQ_Pop lst q = Some (lst @ vis, q') \<and> LQ_rep q' [] pend"
proof -
  obtain pre post where fl: "LQ_flat q pre (vis @ pend) post" using r by (auto simp: LQ_rep_def)
  have n: "unat (lq_submited q - lq_tail q) = length vis" using r by (simp add: LQ_rep_def unat_of_nat)
  obtain q' pre' where q: "pops (length vis) lst q = Some (lst @ vis, q')" "LQ_flat q' pre' pend post"
    "lq_submited q' = lq_submited q" using pops_flat [OF fl] by blast
  have "lq_submited q' = lq_tail q'" using r pops_tail [OF q(1)] by (simp add: q(3) LQ_rep_def)
  then have "LQ_rep q' [] pend" using q(2) r by (auto simp: LQ_rep_def)
  moreover have "LQ_Pop lst q = Some (lst @ vis, q')" by (simp only: LQ_Pop_pops n q(1))
  ultimately show ?thesis by blast
qed

lemma LQ_rep_sizes:
  assumes r: "LQ_rep q vis pend"
  shows "LQ_IsEmpty q \<longleftrightarrow> vis = [] \<and> pend = []" "LQ_RoughSize q = of_nat (length vis)"
proof -
  obtain pre post where fl: "LQ_flat q pre (vis @ pend) post" using r by (auto simp: LQ_rep_def)
  have b: "length vis < 2 ^ 64" "length pend < 2 ^ 64" "lq_submited q = lq_tail q + of_nat (length vis)"
    "lq_head q = lq_tail q + of_nat (length vis) + of_nat (length pend)"
    using r LQ_flatD(7) [OF fl] by (auto simp: LQ_rep_def)
  have z: "(of_nat n :: u64) = 0 \<longleftrightarrow> n = 0" if "n < 2 ^ 64" for n
    using that by (simp add: word_unat_eq_iff unat_of_nat)
  show "LQ_IsEmpty q \<longleftrightarrow> vis = [] \<and> pend = []" using z [OF b(1)] z [OF b(2)] by (auto simp: LQ_IsEmpty_def Let_def b(3,4))
  show "LQ_RoughSize q = of_nat (length vis)" by (simp add: LQ_RoughSize_def Let_def b(3))
qed

section \<open>First in, first out\<close>

text \<open>
  The contract between the two threads of a line: a queue holds visible and pending elements; nothing is lost,
  nothing is reordered, and the receiver gets what is visible.
\<close>

locale spsc_queue =
  fixes push :: "'j \<Rightarrow> 'a \<Rightarrow> bool \<Rightarrow> 'q \<Rightarrow> 'q" and submit :: "'q \<Rightarrow> 'q"
    and pop :: "'a list \<Rightarrow> 'q \<Rightarrow> ('a list \<times> 'q) option"
    and rep :: "'q \<Rightarrow> 'a list \<Rightarrow> 'a list \<Rightarrow> bool" and fit :: "'j \<Rightarrow> bool" and cap :: nat
  assumes push: "rep q vis pend \<Longrightarrow> fit j \<Longrightarrow> length vis + length pend + 1 < cap \<Longrightarrow>
      \<exists>vis' pend'. rep (push j x s q) vis' pend' \<and> vis' @ pend' = vis @ pend @ [x] \<and> (s \<longrightarrow> pend' = [])"
    and submit: "rep q vis pend \<Longrightarrow> rep (submit q) (vis @ pend) []"
    and pop: "rep q vis pend \<Longrightarrow> \<exists>q'. pop lst q = Some (lst @ vis, q') \<and> rep q' [] pend"

datatype ('j, 'a) queue_op = PushOp 'j 'a bool | SubmitOp | PopOp

fun queue_run ::
  "('j \<Rightarrow> 'a \<Rightarrow> bool \<Rightarrow> 'q \<Rightarrow> 'q) \<Rightarrow> ('q \<Rightarrow> 'q) \<Rightarrow> ('a list \<Rightarrow> 'q \<Rightarrow> ('a list \<times> 'q) option) \<Rightarrow>
     ('j, 'a) queue_op list \<Rightarrow> 'a list \<Rightarrow> 'q \<Rightarrow> ('a list \<times> 'q) option" where
  "queue_run push submit pop [] lst q = Some (lst, q)"
| "queue_run push submit pop (PushOp j x s # ops) lst q = queue_run push submit pop ops lst (push j x s q)"
| "queue_run push submit pop (SubmitOp # ops) lst q = queue_run push submit pop ops lst (submit q)"
| "queue_run push submit pop (PopOp # ops) lst q =
     (case pop lst q of None \<Rightarrow> None | Some (lst, q) \<Rightarrow> queue_run push submit pop ops lst q)"

fun pushed :: "('j, 'a) queue_op list \<Rightarrow> 'a list" where
  "pushed [] = []"
| "pushed (PushOp j x s # ops) = x # pushed ops"
| "pushed (SubmitOp # ops) = pushed ops"
| "pushed (PopOp # ops) = pushed ops"

fun fits :: "('j \<Rightarrow> bool) \<Rightarrow> ('j, 'a) queue_op list \<Rightarrow> bool" where
  "fits fit [] = True"
| "fits fit (PushOp j x s # ops) = (fit j \<and> fits fit ops)"
| "fits fit (SubmitOp # ops) = fits fit ops"
| "fits fit (PopOp # ops) = fits fit ops"

context spsc_queue
begin

lemma run_fifo:
  "rep q vis pend \<Longrightarrow> fits fit ops \<Longrightarrow> length vis + length pend + length ops < cap \<Longrightarrow>
     \<exists>lst' q' vis' pend'. queue_run push submit pop ops lst q = Some (lst', q') \<and> rep q' vis' pend' \<and>
       lst' @ vis' @ pend' = lst @ vis @ pend @ pushed ops"
proof (induction ops arbitrary: q vis pend lst)
  case Nil
  then show ?case by auto
next
  case (Cons p ops)
  show ?case
  proof (cases p)
    case (PushOp j x s)
    then obtain vis' pend' where 1: "rep (push j x s q) vis' pend'" "vis' @ pend' = vis @ pend @ [x]"
      using push [OF Cons.prems(1), of j x s] Cons.prems by auto
    have "length vis' + length pend' = length vis + length pend + 1" using arg_cong [OF 1(2), of length] by simp
    then show ?thesis using Cons.IH [OF 1(1), of lst] Cons.prems 1(2) PushOp
      by (auto simp flip: append_assoc) (auto simp: append_assoc 1(2))
  next
    case SubmitOp
    then show ?thesis using Cons.IH [OF submit [OF Cons.prems(1)], of lst] Cons.prems by auto
  next
    case PopOp
    obtain q' where q: "pop lst q = Some (lst @ vis, q')" "rep q' [] pend" using pop [OF Cons.prems(1)] by blast
    then show ?thesis using Cons.IH [OF q(2), of "lst @ vis"] Cons.prems PopOp by auto
  qed
qed

end

interpretation line: spsc_queue "\<lambda>junk x. LQ_Push junk (Some x)" LQ_Submit LQ_Pop LQ_rep "\<lambda>junk. length junk = 32" "2 ^ 64"
proof unfold_locales
  fix q :: "'a LineQueue" and vis pend x s and junk :: "'a option list"
  assume "LQ_rep q vis pend" "length junk = 32" "length vis + length pend + 1 < 2 ^ 64"
  from LQ_rep_push [OF this, of s x]
  show "\<exists>vis' pend'. LQ_rep (LQ_Push junk (Some x) s q) vis' pend' \<and> vis' @ pend' = vis @ pend @ [x] \<and> (s \<longrightarrow> pend' = [])"
    by (auto split: if_splits)
qed (simp_all add: LQ_rep_submit LQ_rep_pop)

section \<open>All lines of a queue\<close>

datatype 'a rq_op = RPush "'a option list" u16 'a bool | RSubmit u32 | RPop | RReset u16

fun rq_step :: "'a rq_op \<Rightarrow> 'a list \<Rightarrow> 'a RapidQueue \<Rightarrow> ('a list \<times> 'a RapidQueue) option" where
  "rq_step (RPush junk tid x s) lst rq = map_option (Pair lst) (RQ_Push junk tid (Some x) s rq)"
| "rq_step (RSubmit tid) lst rq = map_option (Pair lst) (RQ_Submit tid rq)"
| "rq_step RPop lst rq = RQ_Pop lst rq"
| "rq_step (RReset n) lst rq = map_option (Pair lst) (ResetLiveThreadNumber n rq)"

fun rq_run :: "'a rq_op list \<Rightarrow> 'a list \<Rightarrow> 'a RapidQueue \<Rightarrow> ('a list \<times> 'a RapidQueue) option" where
  "rq_run [] lst rq = Some (lst, rq)"
| "rq_run (p # ops) lst rq = (case rq_step p lst rq of None \<Rightarrow> None | Some (lst, rq) \<Rightarrow> rq_run ops lst rq)"

text \<open>What a correct caller does: thread numbers below the last number set, which is at most the maximum.\<close>

fun rq_legal :: "u16 \<Rightarrow> u16 \<Rightarrow> 'a rq_op list \<Rightarrow> bool" where
  "rq_legal m n [] = True"
| "rq_legal m n (RPush junk tid x s # ops) = (tid < n \<and> length junk = 32 \<and> rq_legal m n ops)"
| "rq_legal m n (RSubmit tid # ops) = (tid < ucast n \<and> rq_legal m n ops)"
| "rq_legal m n (RPop # ops) = rq_legal m n ops"
| "rq_legal m n (RReset k # ops) = (k \<le> m \<and> rq_legal m k ops)"

text \<open>\<open>src x\<close> is the thread that pushes \<open>x\<close>.\<close>

fun tagged :: "('a \<Rightarrow> nat) \<Rightarrow> 'a rq_op \<Rightarrow> bool" where
  "tagged src (RPush junk tid x s) = (src x = unat tid)"
| "tagged src _ = True"

fun pushed_by :: "nat \<Rightarrow> 'a rq_op list \<Rightarrow> 'a list" where
  "pushed_by t [] = []"
| "pushed_by t (RPush junk tid x s # ops) = (if unat tid = t then x # pushed_by t ops else pushed_by t ops)"
| "pushed_by t (_ # ops) = pushed_by t ops"

definition RQ_rep :: "('a \<Rightarrow> nat) \<Rightarrow> nat \<Rightarrow> 'a RapidQueue \<Rightarrow> (nat \<Rightarrow> 'a list) \<Rightarrow> (nat \<Rightarrow> 'a list) \<Rightarrow> bool" where
  "RQ_rep src k rq vis pend \<longleftrightarrow>
     length (rq_vctLine rq) = unat (rq_maxThreadNum rq) \<and> rq_currAlivedThreads rq \<le> rq_maxThreadNum rq \<and>
     rq_lastSetThreads rq \<le> rq_maxThreadNum rq \<and>
     (\<forall>i < length (rq_vctLine rq). LQ_rep (rq_vctLine rq ! i) (vis i) (pend i)) \<and>
     (\<forall>i \<ge> length (rq_vctLine rq). vis i = [] \<and> pend i = []) \<and>
     (\<forall>i. \<forall>x \<in> set (vis i @ pend i). src x = i) \<and> (\<forall>i. length (vis i) + length (pend i) + k < 2 ^ 64)"

lemma pop_lines_rep:
  "\<forall>i < length ls. LQ_rep (ls ! i) (vis i) (pend i) \<Longrightarrow> distinct is \<Longrightarrow> \<forall>i \<in> set is. i < length ls \<Longrightarrow>
     \<exists>ls'. pop_lines is lst ls = Some (lst @ concat (map vis is), ls') \<and> length ls' = length ls \<and>
       (\<forall>i < length ls. LQ_rep (ls' ! i) (if i \<in> set is then [] else vis i) (pend i))"
proof (induction "is" arbitrary: lst ls vis)
  case Nil
  then show ?case by auto
next
  case (Cons j js)
  obtain q where q: "LQ_Pop lst (ls ! j) = Some (lst @ vis j, q)" "LQ_rep q [] (pend j)"
    using LQ_rep_pop [of "ls ! j" "vis j" "pend j" lst] Cons.prems by auto
  have "\<forall>i < length (ls[j := q]). LQ_rep (ls[j := q] ! i) ((vis(j := [])) i) (pend i)"
    using Cons.prems q(2) by (auto simp: nth_list_update)
  moreover have "distinct js" "\<forall>i \<in> set js. i < length (ls[j := q])" using Cons.prems by auto
  moreover have m: "map (vis(j := [])) js = map vis js" using Cons.prems(2) by auto
  ultimately have "\<exists>ls'. pop_lines js (lst @ vis j) (ls[j := q]) = Some (lst @ vis j @ concat (map vis js), ls') \<and>
    length ls' = length ls \<and> (\<forall>i < length ls. LQ_rep (ls' ! i) (if i \<in> set js then [] else (vis(j := [])) i) (pend i))"
    using Cons.IH [of "ls[j := q]" "vis(j := [])" "lst @ vis j"] unfolding m by simp
  then obtain ls' where l: "pop_lines js (lst @ vis j) (ls[j := q]) = Some (lst @ vis j @ concat (map vis js), ls')"
    "length ls' = length ls" "\<forall>i < length ls. LQ_rep (ls' ! i) (if i \<in> set js then [] else (vis(j := [])) i) (pend i)"
    by auto
  have "LQ_rep (ls' ! i) (if i \<in> set (j # js) then [] else vis i) (pend i)" if "i < length ls" for i
    using l(3) [rule_format, OF that] by (cases "i = j") (simp_all split: if_splits)
  then show ?case using l(1,2) q(1) by simp
qed

lemma filter_lines:
  assumes "\<forall>i. \<forall>x \<in> set (vis i). src x = i"
  shows "filter (\<lambda>x. src x = t) (concat (map vis [0..<n])) = (if t < n then vis t else [])"
proof (induction n)
  case (Suc n)
  have "filter (\<lambda>x. src x = t) (vis n) = (if t = n then vis n else [])" using assms by (auto simp: filter_id_conv filter_empty_conv)
  then show ?case using Suc by auto
qed simp

lemma RQ_rep_new:
  assumes "RapidQueue_new junk m n = Some rq" "\<forall>i. length (junk i) = 32" "k < 2 ^ 64"
  shows "RQ_rep src k rq (\<lambda>i. []) (\<lambda>i. [])"
  using assms by (auto simp: RapidQueue_new_def RQ_rep_def LQ_rep_new split: if_splits)

lemma RapidQueue_new_sizes:
  "RapidQueue_new junk m n = Some rq \<Longrightarrow> rq_maxThreadNum rq = m \<and> rq_lastSetThreads rq = (if n = 0 then m else n)"
  by (auto simp: RapidQueue_new_def split: if_splits)

lemma RQ_repD:
  assumes "RQ_rep src k rq vis pend"
  shows "length (rq_vctLine rq) = unat (rq_maxThreadNum rq)" "rq_currAlivedThreads rq \<le> rq_maxThreadNum rq"
    "rq_lastSetThreads rq \<le> rq_maxThreadNum rq"
    "\<And>i. i < length (rq_vctLine rq) \<Longrightarrow> LQ_rep (rq_vctLine rq ! i) (vis i) (pend i)"
    "\<And>i. length (rq_vctLine rq) \<le> i \<Longrightarrow> vis i = [] \<and> pend i = []"
    "\<And>i x. x \<in> set (vis i @ pend i) \<Longrightarrow> src x = i" "\<And>i. length (vis i) + length (pend i) + k < 2 ^ 64"
  using assms unfolding RQ_rep_def by blast+

lemma RQ_repI:
  assumes "length (rq_vctLine rq) = unat (rq_maxThreadNum rq)" "rq_currAlivedThreads rq \<le> rq_maxThreadNum rq"
    "rq_lastSetThreads rq \<le> rq_maxThreadNum rq"
    "\<And>i. i < length (rq_vctLine rq) \<Longrightarrow> LQ_rep (rq_vctLine rq ! i) (vis i) (pend i)"
    "\<And>i. length (rq_vctLine rq) \<le> i \<Longrightarrow> vis i = [] \<and> pend i = []"
    "\<And>i x. x \<in> set (vis i @ pend i) \<Longrightarrow> src x = i" "\<And>i. length (vis i) + length (pend i) + k < 2 ^ 64"
  shows "RQ_rep src k rq vis pend"
  unfolding RQ_rep_def using assms by blast

text \<open>A step on one line.\<close>

lemma RQ_rep_line:
  assumes r: "RQ_rep src (Suc k) rq vis pend" and i: "i < length (rq_vctLine rq)" and q: "LQ_rep q v p"
    and l: "length v + length p \<le> length (vis i) + length (pend i) + 1" and t: "\<And>x. x \<in> set (v @ p) \<Longrightarrow> src x = i"
  shows "RQ_rep src k (rq\<lparr>rq_vctLine := (rq_vctLine rq)[i := q]\<rparr>) (vis(i := v)) (pend(i := p))"
proof (rule RQ_repI)
  note r = RQ_repD [OF r]
  fix j
  show "length ((vis(i := v)) j) + length ((pend(i := p)) j) + k < 2 ^ 64"
    using r(7) [of j] r(7) [of i] l by (cases "j = i") simp_all
  show "src x = j" if "x \<in> set ((vis(i := v)) j @ (pend(i := p)) j)" for x
    using that r(6) [of x j] t [of x] by (cases "j = i") simp_all
qed (use RQ_repD [OF r] i q in \<open>auto simp: nth_list_update\<close>)

lemma RQ_rep_weaken: "RQ_rep src (Suc k) rq vis pend \<Longrightarrow> RQ_rep src k rq vis pend"
proof (rule RQ_repI)
  assume r: "RQ_rep src (Suc k) rq vis pend"
  fix j
  show "length (vis j) + length (pend j) + k < 2 ^ 64" using RQ_repD(7) [OF r, of j] by simp
qed (simp_all add: RQ_repD)

lemma RQ_rep_pop:
  assumes r: "RQ_rep src k rq vis pend"
  shows "\<exists>rq'. RQ_Pop lst rq = Some (lst @ concat (map vis [0..<unat (rq_currAlivedThreads rq)]), rq') \<and>
    RQ_rep src k rq' (\<lambda>i. if i < unat (rq_currAlivedThreads rq) then [] else vis i) pend \<and>
    rq_maxThreadNum rq' = rq_maxThreadNum rq \<and> rq_lastSetThreads rq' = rq_lastSetThreads rq"
proof -
  let ?c = "unat (rq_currAlivedThreads rq)"
  have c: "?c \<le> length (rq_vctLine rq)" using r by (simp add: RQ_rep_def word_le_nat_alt)
  have "\<forall>i < length (rq_vctLine rq). LQ_rep (rq_vctLine rq ! i) (vis i) (pend i)" using r by (simp add: RQ_rep_def)
  from pop_lines_rep [OF this, of "[0..<?c]" lst] c
  obtain ls' where l: "pop_lines [0..<?c] lst (rq_vctLine rq) = Some (lst @ concat (map vis [0..<?c]), ls')"
    "length ls' = length (rq_vctLine rq)"
    "\<forall>i < length ls'. LQ_rep (ls' ! i) (if i < ?c then [] else vis i) (pend i)" by auto
  have "length (pend i) + k < 2 ^ 64" for i using RQ_repD(7) [OF r, of i] by simp
  then have "RQ_rep src k (rq\<lparr>rq_vctLine := ls'\<rparr>) (\<lambda>i. if i < ?c then [] else vis i) pend"
    using RQ_repD [OF r] l(2,3) by (intro RQ_repI) (auto split: if_splits)
  then show ?thesis by (auto simp: RQ_Pop_def l(1) Let_def RQ_rep_def)
qed

text \<open>What each thread has pushed so far, popped or not, in order.\<close>

definition history :: "('a \<Rightarrow> nat) \<Rightarrow> 'a list \<Rightarrow> (nat \<Rightarrow> 'a list) \<Rightarrow> (nat \<Rightarrow> 'a list) \<Rightarrow> nat \<Rightarrow> 'a list" where
  "history src lst vis pend t = filter (\<lambda>x. src x = t) lst @ vis t @ pend t"

definition step_ok :: "('a \<Rightarrow> nat) \<Rightarrow> nat \<Rightarrow> 'a rq_op \<Rightarrow> 'a list \<Rightarrow> 'a RapidQueue \<Rightarrow> (nat \<Rightarrow> 'a list) \<Rightarrow> (nat \<Rightarrow> 'a list) \<Rightarrow> bool" where
  "step_ok src k op lst rq vis pend \<longleftrightarrow> (\<exists>lst' rq' vis' pend'. rq_step op lst rq = Some (lst', rq') \<and>
     RQ_rep src k rq' vis' pend' \<and> rq_maxThreadNum rq' = rq_maxThreadNum rq \<and>
     rq_lastSetThreads rq' = (case op of RReset n \<Rightarrow> n | _ \<Rightarrow> rq_lastSetThreads rq) \<and>
     (\<forall>t. history src lst' vis' pend' t = history src lst vis pend t @ pushed_by t [op]))"

lemma step_okI:
  assumes "rq_step op lst rq = Some (lst', rq')" "RQ_rep src k rq' vis' pend'" "rq_maxThreadNum rq' = rq_maxThreadNum rq"
    "rq_lastSetThreads rq' = (case op of RReset n \<Rightarrow> n | _ \<Rightarrow> rq_lastSetThreads rq)"
    "\<And>t. history src lst' vis' pend' t = history src lst vis pend t @ pushed_by t [op]"
  shows "step_ok src k op lst rq vis pend"
  unfolding step_ok_def using assms by blast

lemma push_step:
  assumes r: "RQ_rep src (Suc k) rq vis pend" and t: "tid < rq_lastSetThreads rq" "length junk = 32" "src x = unat tid"
  shows "step_ok src k (RPush junk tid x s) lst rq vis pend"
proof -
  let ?i = "unat tid" and ?q = "LQ_Push junk (Some x) s (rq_vctLine rq ! unat tid)"
  have i: "?i < length (rq_vctLine rq)" using t(1) RQ_repD(1,3) [OF r] by (simp add: word_less_nat_alt word_le_nat_alt)
  have q: "LQ_rep (rq_vctLine rq ! ?i) (vis ?i) (pend ?i)" by (rule RQ_repD(4) [OF r i])
  have "length (vis ?i) + length (pend ?i) + 1 < 2 ^ 64" using RQ_repD(7) [OF r, of ?i] by simp
  then obtain v p where v: "LQ_rep ?q v p" "v @ p = vis ?i @ pend ?i @ [x]" using line.push [OF q t(2)] by blast
  have l: "length v + length p = length (vis ?i) + length (pend ?i) + 1" using arg_cong [OF v(2), of length] by simp
  have "src y = ?i" if "y \<in> set (v @ p)" for y using that RQ_repD(6) [OF r, of y ?i] t(3) unfolding v(2) by auto
  with l have "RQ_rep src k (rq\<lparr>rq_vctLine := (rq_vctLine rq)[?i := ?q]\<rparr>) (vis(?i := v)) (pend(?i := p))"
    by (intro RQ_rep_line [OF r i v(1)]) simp_all
  then show ?thesis by (rule step_okI [rotated]) (simp_all add: RQ_Push_def t(1) history_def v(2))
qed

lemma submit_step:
  assumes r: "RQ_rep src (Suc k) rq vis pend" and t: "tid < ucast (rq_lastSetThreads rq)"
  shows "step_ok src k (RSubmit tid) lst rq vis pend"
proof -
  let ?i = "unat tid" and ?q = "LQ_Submit (rq_vctLine rq ! unat tid)"
  have "unat (ucast (rq_lastSetThreads rq) :: u32) = unat (rq_lastSetThreads rq)"
    by (simp add: unsigned_ucast_eq take_bit_nat_eq_self order_less_le_trans [OF unsigned_less])
  then have i: "?i < length (rq_vctLine rq)" using t RQ_repD(1,3) [OF r] by (simp add: word_less_nat_alt word_le_nat_alt)
  have q: "LQ_rep ?q (vis ?i @ pend ?i) []" by (rule line.submit [OF RQ_repD(4) [OF r i]])
  have "RQ_rep src k (rq\<lparr>rq_vctLine := (rq_vctLine rq)[?i := ?q]\<rparr>) (vis(?i := vis ?i @ pend ?i)) (pend(?i := []))"
    using RQ_repD(6) [OF r, of _ ?i] by (intro RQ_rep_line [OF r i q]) simp_all
  then show ?thesis by (rule step_okI [rotated]) (simp_all add: RQ_Submit_def t history_def)
qed

lemma pop_step:
  assumes r: "RQ_rep src (Suc k) rq vis pend"
  shows "step_ok src k RPop lst rq vis pend"
proof -
  let ?c = "unat (rq_currAlivedThreads rq)"
  obtain rq' where p: "RQ_Pop lst rq = Some (lst @ concat (map vis [0..<?c]), rq')"
    "RQ_rep src k rq' (\<lambda>i. if i < ?c then [] else vis i) pend"
    "rq_maxThreadNum rq' = rq_maxThreadNum rq" "rq_lastSetThreads rq' = rq_lastSetThreads rq"
    using RQ_rep_pop [OF RQ_rep_weaken [OF r], of lst] by blast
  have "\<forall>i. \<forall>x \<in> set (vis i). src x = i" using RQ_repD(6) [OF r] by auto
  note f = filter_lines [OF this]
  show ?thesis
  proof (rule step_okI [OF _ p(2)])
    show "rq_step RPop lst rq = Some (lst @ concat (map vis [0..<?c]), rq')" by (simp add: p(1))
  qed (simp_all add: history_def f p(3,4))
qed

lemma reset_step:
  assumes r: "RQ_rep src (Suc k) rq vis pend" and n: "n \<le> rq_maxThreadNum rq"
  shows "step_ok src k (RReset n) lst rq vis pend"
proof -
  let ?rq = "if n < rq_currAlivedThreads rq then rq\<lparr>rq_lastSetThreads := n, rq_popNum := 5\<rparr>
    else rq\<lparr>rq_lastSetThreads := n, rq_currAlivedThreads := n\<rparr>"
  have "RQ_rep src k ?rq vis pend" using RQ_rep_weaken [OF r] n by (simp add: RQ_rep_def)
  then show ?thesis
  proof (rule step_okI [rotated])
    show "rq_step (RReset n) lst rq = Some (lst, ?rq)" using n by (simp add: ResetLiveThreadNumber_def)
  qed simp_all
qed

text \<open>
  Every thread's elements come out in the order pushed, none lost and none twice, whatever the calls and their
  order, and no assertion fails.
\<close>

lemma rq_run_history:
  "RQ_rep src (length ops) rq vis pend \<Longrightarrow> rq_legal (rq_maxThreadNum rq) (rq_lastSetThreads rq) ops \<Longrightarrow> list_all (tagged src) ops \<Longrightarrow>
     \<exists>lst' rq' vis' pend'. rq_run ops lst rq = Some (lst', rq') \<and> RQ_rep src 0 rq' vis' pend' \<and>
       (\<forall>t. history src lst' vis' pend' t = history src lst vis pend t @ pushed_by t ops)"
proof (induction ops arbitrary: lst rq vis pend)
  case Nil
  then show ?case by auto
next
  case (Cons op ops)
  have "step_ok src (length ops) op lst rq vis pend"
    using Cons.prems by (cases op) (auto intro: push_step submit_step pop_step reset_step)
  then obtain lst1 rq1 vis1 pend1 where 1: "rq_step op lst rq = Some (lst1, rq1)" "RQ_rep src (length ops) rq1 vis1 pend1"
    "rq_maxThreadNum rq1 = rq_maxThreadNum rq" "rq_lastSetThreads rq1 = (case op of RReset n \<Rightarrow> n | _ \<Rightarrow> rq_lastSetThreads rq)"
    and h: "\<And>t. history src lst1 vis1 pend1 t = history src lst vis pend t @ pushed_by t [op]"
    unfolding step_ok_def by blast
  have "pushed_by t (op # ops) = pushed_by t [op] @ pushed_by t ops" for t by (cases op) auto
  moreover have "rq_legal (rq_maxThreadNum rq1) (rq_lastSetThreads rq1) ops"
    using Cons.prems(2) by (cases op) (simp_all add: 1(3,4))
  ultimately show ?case using Cons.IH [OF 1(2), of lst1] Cons.prems(3) by (simp add: 1(1) h)
qed

section \<open>Properties\<close>

text \<open>
  C33: a line queue is first in, first out. From any state that holds the visible elements \<open>vis\<close> and the pending ones
  \<open>pend\<close>, wherever its 64-bit positions stand and also when they wrap around on the way, every sequence of pushes
  (submitted or not), submits and pops runs without a failed assertion, and what has been popped, followed by what is
  still inside, is what was inside followed by what has been pushed, in order.
\<close>

theorem LineQueue_fifo:
  assumes "LQ_rep q vis pend" "fits (\<lambda>junk. length junk = 32) ops" "length vis + length pend + length ops < 2 ^ 64"
  shows "\<exists>lst' q' vis' pend'. queue_run (\<lambda>junk x. LQ_Push junk (Some x)) LQ_Submit LQ_Pop ops lst q = Some (lst', q') \<and>
    LQ_rep q' vis' pend' \<and> lst' @ vis' @ pend' = lst @ vis @ pend @ pushed ops"
  using assms by (rule line.run_fifo)

text \<open>A queue whose positions are about to wrap around.\<close>

definition wrap_queue :: "nat LineQueue" where
  "wrap_queue = \<lparr>lq_blocks = [replicate 32 None], lq_head = 0xFFFFFFFFFFFFFFFF, lq_submited = 0xFFFFFFFFFFFFFFFF,
     lq_tail = 0xFFFFFFFFFFFFFFFF\<rparr>"

lemma wrap_queue_rep: "LQ_rep wrap_queue [] []"
proof -
  have "block_pos 0xFFFFFFFFFFFFFFFF = 31" by (simp add: block_pos_def ELE_SIZE_def)
  moreover have "replicate 32 (None :: nat option) = replicate 31 None @ [None]"
    by (simp flip: replicate_append_same add: numeral_eq_Suc)
  ultimately have "LQ_flat wrap_queue (replicate 31 None) [] [None]" by (simp add: LQ_flat_def wrap_queue_def)
  then show ?thesis by (auto simp: LQ_rep_def wrap_queue_def)
qed

theorem LineQueue_fifo_witness:
  "\<exists>lst' q' vis' pend'. queue_run (\<lambda>junk x. LQ_Push junk (Some x)) LQ_Submit LQ_Pop
     [PushOp (replicate 32 None) 7 False, PushOp (replicate 32 None) 8 False, PopOp] [] wrap_queue = Some (lst', q') \<and>
    LQ_rep q' vis' pend' \<and> lst' @ vis' @ pend' = [7, 8]"
  using LineQueue_fifo [OF wrap_queue_rep, where lst = "[]" and
      ops = "[PushOp (replicate 32 None) 7 False, PushOp (replicate 32 None) 8 False, PopOp]"] by simp

text \<open>
  C34: a queue of several threads keeps every thread's order. After any legal sequence of pushes, submits, pops and
  changes of the number of live threads, no assertion has failed; and for every thread the popped elements that it has pushed,
  followed by the visible and the pending ones of its line, are its pushes in order: none lost, none twice.
\<close>

theorem RapidQueue_per_thread_fifo:
  assumes "RapidQueue_new junk m n = Some rq" "\<forall>i. length (junk i) = 32" "rq_legal m (if n = 0 then m else n) ops"
    "list_all (tagged src) ops" "length ops < 2 ^ 64"
  shows "\<exists>lst rq' vis pend. rq_run ops [] rq = Some (lst, rq') \<and> RQ_rep src 0 rq' vis pend \<and>
    (\<forall>t. filter (\<lambda>x. src x = t) lst @ vis t @ pend t = pushed_by t ops)"
  using rq_run_history [OF RQ_rep_new [OF assms(1,2,5)] _ assms(4), where lst = "[]"] RapidQueue_new_sizes [OF assms(1)] assms(3)
  by (simp add: history_def)

definition two_lines :: "(nat \<times> nat) rq_op list" where
  "two_lines = [RPush (replicate 32 None) 1 (1, 7) True, RPush (replicate 32 None) 0 (0, 5) True,
     RPush (replicate 32 None) 1 (1, 8) False, RPop, RSubmit 1, RReset 1, RPop]"

theorem RapidQueue_per_thread_fifo_witness:
  "\<exists>rq0 lst rq' vis pend. RapidQueue_new (\<lambda>i. replicate 32 None) 2 0 = Some rq0 \<and>
    rq_run two_lines [] rq0 = Some (lst, rq') \<and> RQ_rep fst 0 rq' vis pend \<and>
    filter (\<lambda>x. fst x = 1) lst @ vis 1 @ pend 1 = [(1, 7), (1, 8)]"
proof -
  obtain rq0 :: "(nat \<times> nat) RapidQueue" where n: "RapidQueue_new (\<lambda>i. replicate 32 None) 2 0 = Some rq0"
    by (simp add: RapidQueue_new_def)
  have l: "rq_legal 2 (if (0 :: u16) = 0 then 2 else 0) two_lines" "list_all (tagged fst) two_lines" "length two_lines < 2 ^ 64"
    by (simp_all add: two_lines_def)
  have "pushed_by 1 two_lines = [(1, 7), (1, 8)]" by (simp add: two_lines_def)
  then show ?thesis using RapidQueue_per_thread_fifo [OF n _ l] n by fastforce
qed

text \<open>
  \<open>ResetLiveThreadNumber\<close> strands what is not submitted. Once the pops have gone down to a smaller number of
  threads, no push, submit or pop changes the lines above it: the assertions keep their threads out, and \<open>Pop\<close> does not
  look. The pending elements there are never delivered, although \<open>RoughSize\<close> is zero and the assertion of the destructor holds.
\<close>

definition no_reset :: "'a rq_op \<Rightarrow> bool" where
  "no_reset p = (case p of RReset n \<Rightarrow> False | _ \<Rightarrow> True)"

lemma pop_lines_other: "pop_lines is lst ls = Some (lst', ls') \<Longrightarrow> t \<notin> set is \<Longrightarrow> ls' ! t = ls ! t"
  by (induction "is" arbitrary: lst ls) (auto split: option.splits)

lemma rq_step_other:
  assumes "rq_step p lst rq = Some (lst', rq')" "no_reset p" "unat (rq_currAlivedThreads rq) \<le> t" "unat (rq_lastSetThreads rq) \<le> t"
  shows "rq_vctLine rq' ! t = rq_vctLine rq ! t \<and> unat (rq_currAlivedThreads rq') \<le> t \<and> unat (rq_lastSetThreads rq') \<le> t"
proof (cases p)
  case (RSubmit tid)
  have "unat (ucast (rq_lastSetThreads rq) :: u32) = unat (rq_lastSetThreads rq)"
    by (simp add: unsigned_ucast_eq take_bit_nat_eq_self order_less_le_trans [OF unsigned_less])
  then show ?thesis using assms RSubmit by (auto simp: RQ_Submit_def word_less_nat_alt split: if_splits)
next
  case RPop
  then show ?thesis using assms by (auto simp: RQ_Pop_def Let_def pop_lines_other split: option.splits)
qed (use assms in \<open>auto simp: RQ_Push_def no_reset_def word_less_nat_alt split: if_splits\<close>)

theorem dropped_line_stranded:
  "rq_run ops lst rq = Some (lst', rq') \<Longrightarrow> list_all no_reset ops \<Longrightarrow> unat (rq_currAlivedThreads rq) \<le> t \<Longrightarrow>
     unat (rq_lastSetThreads rq) \<le> t \<Longrightarrow> rq_vctLine rq' ! t = rq_vctLine rq ! t"
proof (induction ops arbitrary: lst rq)
  case (Cons p ops)
  then obtain lst1 rq1 where "rq_step p lst rq = Some (lst1, rq1)" "rq_run ops lst1 rq1 = Some (lst', rq')"
    by (auto split: option.splits)
  then show ?case using Cons rq_step_other [of p lst rq lst1 rq1 t] by simp
qed simp

text \<open>Two elements of thread 1, the second one not submitted; then the number of threads goes down to 1.\<close>

definition stranded_queue :: "nat RapidQueue" where
  "stranded_queue = \<lparr>rq_maxThreadNum = 2, rq_currAlivedThreads = 1, rq_lastSetThreads = 1, rq_popNum = 0,
     rq_vctLine = [LineQueue_new (replicate 32 None),
       \<lparr>lq_blocks = [[Some 7, Some 8] @ replicate 30 None], lq_head = 2, lq_submited = 1, lq_tail = 1\<rparr>]\<rparr>"

lemma stranded_reached:
  "rq_run [RPush (replicate 32 None) 1 7 True, RPush (replicate 32 None) 1 8 False, RPop, RReset 1, RPop, RPop, RPop, RPop, RPop]
     [] (the (RapidQueue_new (\<lambda>i. replicate 32 None) 2 0)) = Some ([7], stranded_queue)"
  "RapidQueue_delete stranded_queue = Some ()" "RQ_Submit 1 stranded_queue = None"
  by code_simp+

theorem dropped_line_stranded_witness:
  "\<exists>lst' rq'. rq_run [RPush (replicate 32 None) 0 9 True, RPop, RPop] [] stranded_queue = Some (lst', rq') \<and>
     lst' = [9] \<and> rq_vctLine rq' ! 1 = rq_vctLine stranded_queue ! 1 \<and> RapidQueue_delete rq' = Some ()"
proof -
  let ?ops = "[RPush (replicate 32 None) 0 9 True, RPop, RPop]"
  have "case rq_run ?ops [] stranded_queue of None \<Rightarrow> False | Some (l, rq) \<Rightarrow> l = [9] \<and> RapidQueue_delete rq = Some ()"
    by code_simp
  then obtain rq' where r: "rq_run ?ops [] stranded_queue = Some ([9], rq')" "RapidQueue_delete rq' = Some ()"
    by (auto split: option.splits)
  have "rq_vctLine rq' ! 1 = rq_vctLine stranded_queue ! 1"
    by (rule dropped_line_stranded [OF r(1)]) (simp_all add: no_reset_def stranded_queue_def)
  with r show ?thesis by blast
qed

end
