(* ===== verification/Spin_Mutex.thy ===== *)
theory Spin_Mutex
  imports Prelude
begin

text \<open>
  The spin locks of \<open>utils/SpinMutex.h\<close> under interleaving. Every thread has a program counter; a step of the system is
  one access of one thread to the shared memory, so that every order of the accesses is a run. The accesses are atomic and happen in
  the order written (sequential consistency): the memory orders of the source, several of which are relaxed, are not modelled.
  This theory has the interleaving of threads, \<open>SpinMutex\<close> and \<open>SharedSpinMutex\<close>. A failed assertion leads to the
  program counter \<open>Dead\<close>.
\<close>

section \<open>Threads\<close>

text \<open>
  \<open>step i s pc\<close> lists what thread \<open>i\<close> may do next: the new shared state and its new program counter.
\<close>

inductive thread_step :: "(nat \<Rightarrow> 's \<Rightarrow> 'pc \<Rightarrow> ('s \<times> 'pc) list) \<Rightarrow> 's \<times> 'pc list \<Rightarrow> 's \<times> 'pc list \<Rightarrow> bool"
  for step where
  "i < length pcs \<Longrightarrow> (s', pc') \<in> set (step i s (pcs ! i)) \<Longrightarrow> thread_step step (s, pcs) (s', pcs[i := pc'])"

inductive_cases thread_stepE: "thread_step step (s, pcs) c"

definition reach :: "(nat \<Rightarrow> 's \<Rightarrow> 'pc \<Rightarrow> ('s \<times> 'pc) list) \<Rightarrow> 's \<Rightarrow> 'pc \<Rightarrow> nat \<Rightarrow> 's \<times> 'pc list \<Rightarrow> bool" where
  "reach step s0 pc0 n = (thread_step step)\<^sup>*\<^sup>* (s0, replicate n pc0)"

text \<open>A schedule names the thread of each step and which of its steps it does.\<close>

fun run_schedule :: "(nat \<Rightarrow> 's \<Rightarrow> 'pc \<Rightarrow> ('s \<times> 'pc) list) \<Rightarrow> (nat \<times> nat) list \<Rightarrow> 's \<times> 'pc list \<Rightarrow> ('s \<times> 'pc list) option" where
  "run_schedule step [] c = Some c"
| "run_schedule step ((i, k) # sched) (s, pcs) =
     (if i < length pcs \<and> k < length (step i s (pcs ! i))
      then let (s', pc') = step i s (pcs ! i) ! k in run_schedule step sched (s', pcs[i := pc'])
      else None)"

lemma run_schedule_steps: "run_schedule step sched c = Some c' \<Longrightarrow> (thread_step step)\<^sup>*\<^sup>* c c'"
proof (induction step sched c rule: run_schedule.induct)
  case (2 step i k sched s pcs)
  obtain s1 pc1 where 1: "step i s (pcs ! i) ! k = (s1, pc1)" by (cases "step i s (pcs ! i) ! k")
  with 2 have r: "i < length pcs" "k < length (step i s (pcs ! i))" "(thread_step step)\<^sup>*\<^sup>* (s1, pcs[i := pc1]) c'"
    by (auto split: if_splits)
  then have "thread_step step (s, pcs) (s1, pcs[i := pc1])" using nth_mem [OF r(2)] by (auto intro: thread_step.intros simp: 1)
  then show ?case using r(3) by (rule converse_rtranclp_into_rtranclp)
qed simp

lemma run_schedule_reach: "run_schedule step sched (s0, replicate n pc0) = Some c \<Longrightarrow> reach step s0 pc0 n c"
  by (simp add: reach_def run_schedule_steps)

text \<open>The contract between a lock and the proofs about it: an invariant of every interleaving.\<close>

locale interleaved =
  fixes step :: "nat \<Rightarrow> 's \<Rightarrow> 'pc \<Rightarrow> ('s \<times> 'pc) list" and s0 :: 's and pc0 :: 'pc and n :: nat
    and inv :: "'s \<times> 'pc list \<Rightarrow> bool"
  assumes start: "inv (s0, replicate n pc0)"
    and keep: "\<lbrakk>inv (s, pcs); length pcs = n; i < n; (s', pc') \<in> set (step i s (pcs ! i))\<rbrakk> \<Longrightarrow> inv (s', pcs[i := pc'])"
begin

lemma reach_inv: "reach step s0 pc0 n c \<Longrightarrow> inv c \<and> length (snd c) = n"
  unfolding reach_def
proof (induction rule: rtranclp_induct)
  case base
  then show ?case by (simp add: start)
next
  case (step c c')
  then show ?case by (cases c) (auto elim!: thread_stepE intro: keep)
qed

end

text \<open>How many threads are at certain places.\<close>

definition cnt :: "('pc \<Rightarrow> bool) \<Rightarrow> 'pc list \<Rightarrow> nat" where
  "cnt P pcs = length (filter P pcs)"

lemma cnt_update:
  assumes "i < length pcs"
  shows "cnt P (pcs[i := pc]) + of_bool (P (pcs ! i)) = cnt P pcs + of_bool (P pc)"
proof -
  have "cnt P pcs = cnt P (take i pcs) + of_bool (P (pcs ! i)) + cnt P (drop (Suc i) pcs)"
    using assms by (subst id_take_nth_drop [OF assms]) (simp add: cnt_def)
  then show ?thesis using assms by (simp add: upd_conv_take_nth_drop cnt_def)
qed

lemma cnt_zero: "cnt P pcs = 0 \<Longrightarrow> i < length pcs \<Longrightarrow> \<not> P (pcs ! i)"
  by (auto simp: cnt_def filter_empty_conv)

lemma cnt_replicate: "\<not> P pc \<Longrightarrow> cnt P (replicate n pc) = 0"
  by (simp add: cnt_def)

lemma cnt_unique:
  assumes "cnt P pcs \<le> 1" "i < length pcs" "j < length pcs" "P (pcs ! i)" "P (pcs ! j)"
  shows "i = j"
proof (rule ccontr)
  assume "i \<noteq> j"
  have "card {i, j} \<le> card {k. k < length pcs \<and> P (pcs ! k)}" using assms by (intro card_mono) auto
  then show False using assms(1) \<open>i \<noteq> j\<close> by (simp add: cnt_def length_filter_conv_card)
qed

section \<open>SpinMutex\<close>

record SpinMutex =
  sm_flag :: bool
  sm_owner :: u32

definition SpinMutex_new :: SpinMutex where
  "SpinMutex_new = \<lparr>sm_flag = False, sm_owner = 0\<rparr>"

datatype spin_pc = S_Idle | S_Lock | S_LockOwner | S_Try | S_TryXchg | S_TryOwner | S_Held | S_Unlock | S_UnOwner | S_UnFlag | S_Dead

text \<open>\<open>g\<close> is \<open>g_threadId\<close> of the thread. An operation starts at \<open>S_Idle\<close> (\<open>unlock\<close>: at \<open>S_Held\<close>, by the thread that has the lock).\<close>

definition SpinMutex_lock :: "u32 \<Rightarrow> SpinMutex \<Rightarrow> spin_pc \<Rightarrow> (SpinMutex \<times> spin_pc) list" where
  "SpinMutex_lock g m pc = (case pc of
      S_Idle \<Rightarrow> [(m, S_Lock)]
    | S_Lock \<Rightarrow> [(m\<lparr>sm_flag := True\<rparr>, if sm_flag m then S_Lock else S_LockOwner)]
    | S_LockOwner \<Rightarrow> [(m\<lparr>sm_owner := g\<rparr>, S_Held)]
    | _ \<Rightarrow> [])"

definition SpinMutex_try_lock :: "u32 \<Rightarrow> SpinMutex \<Rightarrow> spin_pc \<Rightarrow> (SpinMutex \<times> spin_pc) list" where
  "SpinMutex_try_lock g m pc = (case pc of
      S_Idle \<Rightarrow> [(m, S_Try)]
    | S_Try \<Rightarrow> [(m, if sm_flag m then S_Idle else S_TryXchg)]
    | S_TryXchg \<Rightarrow> [(m\<lparr>sm_flag := True\<rparr>, if sm_flag m then S_Idle else S_TryOwner)]
    | S_TryOwner \<Rightarrow> [(m\<lparr>sm_owner := g\<rparr>, S_Held)]
    | _ \<Rightarrow> [])"

definition SpinMutex_unlock :: "u32 \<Rightarrow> SpinMutex \<Rightarrow> spin_pc \<Rightarrow> (SpinMutex \<times> spin_pc) list" where
  "SpinMutex_unlock g m pc = (case pc of
      S_Held \<Rightarrow> [(m, S_Unlock)]
    | S_Unlock \<Rightarrow> [(m, if sm_owner m = g then S_UnOwner else S_Dead)]
    | S_UnOwner \<Rightarrow> [(m\<lparr>sm_owner := 0\<rparr>, S_UnFlag)]
    | S_UnFlag \<Rightarrow> [(m\<lparr>sm_flag := False\<rparr>, S_Idle)]
    | _ \<Rightarrow> [])"

definition SpinMutex_step :: "(nat \<Rightarrow> u32) \<Rightarrow> nat \<Rightarrow> SpinMutex \<Rightarrow> spin_pc \<Rightarrow> (SpinMutex \<times> spin_pc) list" where
  "SpinMutex_step gid i m pc =
     SpinMutex_lock (gid i) m pc @ SpinMutex_try_lock (gid i) m pc @ SpinMutex_unlock (gid i) m pc"

definition SpinMutex_is_locked :: "SpinMutex \<Rightarrow> bool" where
  "SpinMutex_is_locked m = sm_flag m"

definition SpinMutex_get_owner :: "SpinMutex \<Rightarrow> u32" where
  "SpinMutex_get_owner m = sm_owner m"

text \<open>The assertion of the destructor.\<close>

definition SpinMutex_delete :: "SpinMutex \<Rightarrow> unit option" where
  "SpinMutex_delete m = (if sm_flag m then None else Some ())"

text \<open>The thread that has won the exchange and not yet given the flag back (or has stopped there).\<close>

definition s_owns :: "spin_pc \<Rightarrow> bool" where
  "s_owns pc \<longleftrightarrow> pc \<in> {S_LockOwner, S_TryOwner, S_Held, S_Unlock, S_UnOwner, S_UnFlag, S_Dead}"

definition SpinMutex_inv :: "(nat \<Rightarrow> u32) \<Rightarrow> SpinMutex \<times> spin_pc list \<Rightarrow> bool" where
  "SpinMutex_inv gid = (\<lambda>(m, pcs). cnt s_owns pcs = of_bool (sm_flag m) \<and>
     (\<forall>i < length pcs. pcs ! i \<in> {S_Held, S_Unlock, S_UnOwner} \<longrightarrow> sm_owner m = gid i) \<and>
     (\<forall>i < length pcs. pcs ! i \<noteq> S_Dead))"

lemmas SpinMutex_step_defs = SpinMutex_step_def SpinMutex_lock_def SpinMutex_try_lock_def SpinMutex_unlock_def s_owns_def

text \<open>What a step does to its own thread, and what it leaves to the others.\<close>

lemma SpinMutex_step_flag:
  "(m', pc') \<in> set (SpinMutex_step gid i m pc) \<Longrightarrow> s_owns pc \<Longrightarrow> sm_flag m \<Longrightarrow> sm_flag m' = s_owns pc'"
  "(m', pc') \<in> set (SpinMutex_step gid i m pc) \<Longrightarrow> \<not> s_owns pc \<Longrightarrow> sm_flag m' = (sm_flag m \<or> s_owns pc')"
  "(m', pc') \<in> set (SpinMutex_step gid i m pc) \<Longrightarrow> \<not> s_owns pc \<Longrightarrow> s_owns pc' \<Longrightarrow> \<not> sm_flag m"
  by (cases pc; auto simp: SpinMutex_step_defs; fail)+

lemma SpinMutex_step_owner:
  "(m', pc') \<in> set (SpinMutex_step gid i m pc) \<Longrightarrow> \<not> s_owns pc \<Longrightarrow> sm_owner m' = sm_owner m"
  "(m', pc') \<in> set (SpinMutex_step gid i m pc) \<Longrightarrow> (pc \<in> {S_Held, S_Unlock, S_UnOwner} \<longrightarrow> sm_owner m = gid i) \<Longrightarrow> pc \<noteq> S_Dead \<Longrightarrow>
     (pc' \<in> {S_Held, S_Unlock, S_UnOwner} \<longrightarrow> sm_owner m' = gid i) \<and> pc' \<noteq> S_Dead"
  by (cases pc; auto simp: SpinMutex_step_defs; fail)+

lemma SpinMutex_inv_keep:
  assumes inv: "SpinMutex_inv gid (m, pcs)" and i: "i < length pcs" and st: "(m', pc') \<in> set (SpinMutex_step gid i m (pcs ! i))"
  shows "SpinMutex_inv gid (m', pcs[i := pc'])"
proof -
  have c: "cnt s_owns pcs = of_bool (sm_flag m)" and d: "\<And>j. j < length pcs \<Longrightarrow> pcs ! j \<noteq> S_Dead"
    and h: "\<And>j. j < length pcs \<Longrightarrow> pcs ! j \<in> {S_Held, S_Unlock, S_UnOwner} \<longrightarrow> sm_owner m = gid j"
    using inv by (auto simp: SpinMutex_inv_def)
  have u: "\<not> s_owns (pcs ! i)" if "j < length pcs" "j \<noteq> i" "s_owns (pcs ! j)" for j
    using cnt_unique [of s_owns pcs j i] that i c by (cases "sm_flag m") auto
  have "s_owns (pcs ! i) \<Longrightarrow> sm_flag m" using cnt_zero [OF _ i, of s_owns] c by auto
  then have "cnt s_owns (pcs[i := pc']) = of_bool (sm_flag m')"
    using SpinMutex_step_flag [OF st] cnt_update [OF i, of s_owns pc'] c by (cases "s_owns (pcs ! i)") auto
  moreover have "(pcs[i := pc'] ! j \<in> {S_Held, S_Unlock, S_UnOwner} \<longrightarrow> sm_owner m' = gid j) \<and> pcs[i := pc'] ! j \<noteq> S_Dead"
    if "j < length pcs" for j
  proof (cases "j = i")
    case True
    then show ?thesis using SpinMutex_step_owner(2) [OF st h [OF i] d [OF i]] i by simp
  next
    case False
    then show ?thesis using SpinMutex_step_owner(1) [OF st u] h [OF that] d [OF that] that by (auto simp: s_owns_def)
  qed
  ultimately show ?thesis by (simp add: SpinMutex_inv_def)
qed

lemma SpinMutex_inv_start: "SpinMutex_inv gid (SpinMutex_new, replicate n S_Idle)"
  by (simp add: SpinMutex_inv_def SpinMutex_new_def s_owns_def cnt_replicate)

interpretation spin: interleaved "SpinMutex_step gid" SpinMutex_new S_Idle n "SpinMutex_inv gid" for gid n
  by unfold_locales (auto intro: SpinMutex_inv_start SpinMutex_inv_keep)

section \<open>SharedSpinMutex\<close>

record SharedSpinMutex =
  sh_readCount :: "32 word"
  sh_writeFlag :: bool
  sh_owner :: u32

definition SharedSpinMutex_new :: SharedSpinMutex where
  "SharedSpinMutex_new = \<lparr>sh_readCount = 0, sh_writeFlag = False, sh_owner = 0\<rparr>"

text \<open>Writers have the places \<open>W_\<close>, readers \<open>R_\<close>.\<close>

datatype shared_pc = Sh_Idle
  | W_Xchg | W_Wait | W_Owner | W_Try | W_TryXchg | W_TryCount | W_TryBack | W_Held | W_Unlock | W_UnOwner | W_UnFlag
  | R_Add | R_Check | R_Sub | R_Try | R_TryAdd | R_TryCheck | R_TryBack | R_Held | R_Unlock | R_UnSub | Sh_Dead

definition Shared_lock :: "u32 \<Rightarrow> SharedSpinMutex \<Rightarrow> shared_pc \<Rightarrow> (SharedSpinMutex \<times> shared_pc) list" where
  "Shared_lock g m pc = (case pc of
      Sh_Idle \<Rightarrow> [(m, W_Xchg)]
    | W_Xchg \<Rightarrow> [(m\<lparr>sh_writeFlag := True\<rparr>, if sh_writeFlag m then W_Xchg else W_Wait)]
    | W_Wait \<Rightarrow> [(m, if 0 < sint (sh_readCount m) then W_Wait else W_Owner)]
    | W_Owner \<Rightarrow> [(m\<lparr>sh_owner := g\<rparr>, W_Held)]
    | _ \<Rightarrow> [])"

definition Shared_try_lock :: "u32 \<Rightarrow> SharedSpinMutex \<Rightarrow> shared_pc \<Rightarrow> (SharedSpinMutex \<times> shared_pc) list" where
  "Shared_try_lock g m pc = (case pc of
      Sh_Idle \<Rightarrow> [(m, W_Try)]
    | W_Try \<Rightarrow> [(m, if sh_readCount m = 0 then W_TryXchg else Sh_Idle)]
    | W_TryXchg \<Rightarrow> [(m\<lparr>sh_writeFlag := True\<rparr>, if sh_writeFlag m then Sh_Idle else W_TryCount)]
    | W_TryCount \<Rightarrow> [(m, if 0 < sint (sh_readCount m) then W_TryBack else W_Owner)]
    | W_TryBack \<Rightarrow> [(m\<lparr>sh_writeFlag := False\<rparr>, Sh_Idle)]
    | _ \<Rightarrow> [])"

definition Shared_unlock :: "u32 \<Rightarrow> SharedSpinMutex \<Rightarrow> shared_pc \<Rightarrow> (SharedSpinMutex \<times> shared_pc) list" where
  "Shared_unlock g m pc = (case pc of
      W_Held \<Rightarrow> [(m, W_Unlock)]
    | W_Unlock \<Rightarrow> [(m, if sh_owner m = g then W_UnOwner else Sh_Dead)]
    | W_UnOwner \<Rightarrow> [(m\<lparr>sh_owner := 0\<rparr>, W_UnFlag)]
    | W_UnFlag \<Rightarrow> [(m\<lparr>sh_writeFlag := False\<rparr>, Sh_Idle)]
    | _ \<Rightarrow> [])"

definition Shared_lock_shared :: "SharedSpinMutex \<Rightarrow> shared_pc \<Rightarrow> (SharedSpinMutex \<times> shared_pc) list" where
  "Shared_lock_shared m pc = (case pc of
      Sh_Idle \<Rightarrow> [(m, R_Add)]
    | R_Add \<Rightarrow> [(m\<lparr>sh_readCount := sh_readCount m + 1\<rparr>, R_Check)]
    | R_Check \<Rightarrow> [(m, if sh_writeFlag m then R_Sub else R_Held)]
    | R_Sub \<Rightarrow> [(m\<lparr>sh_readCount := sh_readCount m - 1\<rparr>, R_Add)]
    | _ \<Rightarrow> [])"

definition Shared_try_lock_shared :: "SharedSpinMutex \<Rightarrow> shared_pc \<Rightarrow> (SharedSpinMutex \<times> shared_pc) list" where
  "Shared_try_lock_shared m pc = (case pc of
      Sh_Idle \<Rightarrow> [(m, R_Try)]
    | R_Try \<Rightarrow> [(m, if sh_writeFlag m then Sh_Idle else R_TryAdd)]
    | R_TryAdd \<Rightarrow> [(m\<lparr>sh_readCount := sh_readCount m + 1\<rparr>, R_TryCheck)]
    | R_TryCheck \<Rightarrow> [(m, if sh_writeFlag m then R_TryBack else R_Held)]
    | R_TryBack \<Rightarrow> [(m\<lparr>sh_readCount := sh_readCount m - 1\<rparr>, Sh_Idle)]
    | _ \<Rightarrow> [])"

definition Shared_unlock_shared :: "SharedSpinMutex \<Rightarrow> shared_pc \<Rightarrow> (SharedSpinMutex \<times> shared_pc) list" where
  "Shared_unlock_shared m pc = (case pc of
      R_Held \<Rightarrow> [(m, R_Unlock)]
    | R_Unlock \<Rightarrow> [(m, if sh_owner m = 0 then R_UnSub else Sh_Dead)]
    | R_UnSub \<Rightarrow> [(m\<lparr>sh_readCount := sh_readCount m - 1\<rparr>, Sh_Idle)]
    | _ \<Rightarrow> [])"

definition Shared_step :: "(nat \<Rightarrow> u32) \<Rightarrow> nat \<Rightarrow> SharedSpinMutex \<Rightarrow> shared_pc \<Rightarrow> (SharedSpinMutex \<times> shared_pc) list" where
  "Shared_step gid i m pc =
     Shared_lock (gid i) m pc @ Shared_try_lock (gid i) m pc @ Shared_unlock (gid i) m pc @
     Shared_lock_shared m pc @ Shared_try_lock_shared m pc @ Shared_unlock_shared m pc"

definition Shared_is_write_locked :: "SharedSpinMutex \<Rightarrow> bool" where
  "Shared_is_write_locked m = sh_writeFlag m"

definition Shared_read_locked_count :: "SharedSpinMutex \<Rightarrow> 32 word" where
  "Shared_read_locked_count m = sh_readCount m"

definition Shared_is_locked :: "SharedSpinMutex \<Rightarrow> bool" where
  "Shared_is_locked m = (sh_writeFlag m \<or> 0 < sint (sh_readCount m))"

text \<open>
  \<open>w_owns\<close>: the thread has the write flag; \<open>w_in\<close>: and has seen that there are no readers; \<open>w_named\<close>: and has its id in \<open>_owner\<close>.
  \<open>r_counts\<close>: the thread is counted as a reader; \<open>r_in\<close>: and has seen that there is no writer.
\<close>

definition w_owns :: "shared_pc \<Rightarrow> bool" where
  "w_owns pc \<longleftrightarrow> pc \<in> {W_Wait, W_Owner, W_TryCount, W_TryBack, W_Held, W_Unlock, W_UnOwner, W_UnFlag}"

definition w_in :: "shared_pc \<Rightarrow> bool" where
  "w_in pc \<longleftrightarrow> pc \<in> {W_Owner, W_Held, W_Unlock, W_UnOwner, W_UnFlag}"

definition w_named :: "shared_pc \<Rightarrow> bool" where
  "w_named pc \<longleftrightarrow> pc \<in> {W_Held, W_Unlock, W_UnOwner}"

definition r_counts :: "shared_pc \<Rightarrow> bool" where
  "r_counts pc \<longleftrightarrow> pc \<in> {R_Check, R_Sub, R_TryCheck, R_TryBack, R_Held, R_Unlock, R_UnSub}"

definition r_in :: "shared_pc \<Rightarrow> bool" where
  "r_in pc \<longleftrightarrow> pc \<in> {R_Held, R_Unlock, R_UnSub}"

text \<open>
  Flag and counter are the numbers of threads at the places that stand for them, nobody reads while a writer is in, and
  \<open>_owner\<close> is the id of the writer, if any.
\<close>

definition Shared_inv :: "(nat \<Rightarrow> u32) \<Rightarrow> SharedSpinMutex \<times> shared_pc list \<Rightarrow> bool" where
  "Shared_inv gid = (\<lambda>(m, pcs). cnt w_owns pcs = of_bool (sh_writeFlag m) \<and> sh_readCount m = of_nat (cnt r_counts pcs) \<and>
     (\<forall>i < length pcs. \<forall>j < length pcs. w_in (pcs ! i) \<longrightarrow> \<not> r_in (pcs ! j)) \<and>
     (\<forall>i < length pcs. w_named (pcs ! i) \<longrightarrow> sh_owner m = gid i) \<and>
     (sh_owner m \<noteq> 0 \<longrightarrow> (\<exists>i < length pcs. w_named (pcs ! i))) \<and> (\<forall>i < length pcs. pcs ! i \<noteq> Sh_Dead))"

lemmas Shared_step_defs = Shared_step_def Shared_lock_def Shared_try_lock_def Shared_unlock_def Shared_lock_shared_def
  Shared_try_lock_shared_def Shared_unlock_shared_def
lemmas Shared_places = w_owns_def w_in_def w_named_def r_counts_def r_in_def

lemma Shared_step_flag:
  "(m', pc') \<in> set (Shared_step gid i m pc) \<Longrightarrow> pc \<noteq> Sh_Dead \<Longrightarrow> w_owns pc \<Longrightarrow> sh_writeFlag m \<Longrightarrow> sh_writeFlag m' = (w_owns pc' \<or> pc' = Sh_Dead)"
  "(m', pc') \<in> set (Shared_step gid i m pc) \<Longrightarrow> pc \<noteq> Sh_Dead \<Longrightarrow> \<not> w_owns pc \<Longrightarrow> sh_writeFlag m' = (sh_writeFlag m \<or> w_owns pc')"
  "(m', pc') \<in> set (Shared_step gid i m pc) \<Longrightarrow> pc \<noteq> Sh_Dead \<Longrightarrow> \<not> w_owns pc \<Longrightarrow> w_owns pc' \<Longrightarrow> \<not> sh_writeFlag m"
  by (cases pc; auto simp: Shared_step_defs Shared_places split: if_splits; fail)+

lemma Shared_step_count:
  "(m', pc') \<in> set (Shared_step gid i m pc) \<Longrightarrow> pc \<noteq> Sh_Dead \<Longrightarrow> pc' \<noteq> Sh_Dead \<Longrightarrow> sh_readCount m' + of_bool (r_counts pc) = sh_readCount m + of_bool (r_counts pc')"
  by (cases pc; auto simp: Shared_step_defs Shared_places split: if_splits; fail)+

lemma Shared_step_in:
  "(m', pc') \<in> set (Shared_step gid i m pc) \<Longrightarrow> pc \<noteq> Sh_Dead \<Longrightarrow> w_in pc' \<Longrightarrow> w_in pc \<or> w_owns pc \<and> \<not> 0 < sint (sh_readCount m)"
  "(m', pc') \<in> set (Shared_step gid i m pc) \<Longrightarrow> pc \<noteq> Sh_Dead \<Longrightarrow> r_in pc' \<Longrightarrow> r_in pc \<or> \<not> sh_writeFlag m"
  by (cases pc; auto simp: Shared_step_defs Shared_places split: if_splits; fail)+

lemma Shared_step_owner:
  "(m', pc') \<in> set (Shared_step gid i m pc) \<Longrightarrow> pc \<noteq> Sh_Dead \<Longrightarrow> \<not> w_owns pc \<Longrightarrow> sh_owner m' = sh_owner m"
  "(m', pc') \<in> set (Shared_step gid i m pc) \<Longrightarrow> pc \<noteq> Sh_Dead \<Longrightarrow> (w_named pc \<Longrightarrow> sh_owner m = gid i) \<Longrightarrow> w_named pc' \<Longrightarrow> sh_owner m' = gid i"
  "(m', pc') \<in> set (Shared_step gid i m pc) \<Longrightarrow> pc \<noteq> Sh_Dead \<Longrightarrow> (w_named pc \<Longrightarrow> sh_owner m = gid i) \<Longrightarrow> (r_in pc \<Longrightarrow> sh_owner m = 0) \<Longrightarrow> pc' \<noteq> Sh_Dead"
  "(m', pc') \<in> set (Shared_step gid i m pc) \<Longrightarrow> pc \<noteq> Sh_Dead \<Longrightarrow> w_named pc \<Longrightarrow> pc' \<noteq> Sh_Dead \<Longrightarrow> w_named pc' \<or> sh_owner m' = 0"
  "(m', pc') \<in> set (Shared_step gid i m pc) \<Longrightarrow> pc \<noteq> Sh_Dead \<Longrightarrow> \<not> w_named pc \<Longrightarrow> w_named pc' \<or> sh_owner m' = sh_owner m"
  by (cases pc; auto simp: Shared_step_defs Shared_places split: if_splits; fail)+

lemma Shared_places_order: "w_named pc \<Longrightarrow> w_in pc" "w_in pc \<Longrightarrow> w_owns pc" "r_in pc \<Longrightarrow> r_counts pc" "w_in pc \<Longrightarrow> \<not> r_in pc"
  by (auto simp: Shared_places)

lemma sint_count: "n < 2 ^ 31 \<Longrightarrow> sint (of_nat n :: 32 word) = int n"
  by (simp add: signed_of_nat signed_take_bit_int_eq_self)

lemma Shared_invD:
  assumes "Shared_inv gid (m, pcs)"
  shows "cnt w_owns pcs = of_bool (sh_writeFlag m)" "sh_readCount m = of_nat (cnt r_counts pcs)"
    "\<And>a b. a < length pcs \<Longrightarrow> b < length pcs \<Longrightarrow> w_in (pcs ! a) \<Longrightarrow> \<not> r_in (pcs ! b)"
    "\<And>a. a < length pcs \<Longrightarrow> w_named (pcs ! a) \<Longrightarrow> sh_owner m = gid a"
    "sh_owner m \<noteq> 0 \<Longrightarrow> \<exists>a < length pcs. w_named (pcs ! a)" "\<And>a. a < length pcs \<Longrightarrow> pcs ! a \<noteq> Sh_Dead"
    "\<And>a. a < length pcs \<Longrightarrow> w_owns (pcs ! a) \<Longrightarrow> sh_writeFlag m"
    "\<And>a b. a < length pcs \<Longrightarrow> b < length pcs \<Longrightarrow> w_owns (pcs ! a) \<Longrightarrow> w_owns (pcs ! b) \<Longrightarrow> a = b"
proof -
  show c: "cnt w_owns pcs = of_bool (sh_writeFlag m)" using assms by (simp add: Shared_inv_def)
  show "\<And>a. a < length pcs \<Longrightarrow> w_owns (pcs ! a) \<Longrightarrow> sh_writeFlag m" using cnt_zero [of w_owns pcs] c by (cases "sh_writeFlag m") auto
  show "\<And>a b. a < length pcs \<Longrightarrow> b < length pcs \<Longrightarrow> w_owns (pcs ! a) \<Longrightarrow> w_owns (pcs ! b) \<Longrightarrow> a = b"
    using cnt_unique [of w_owns pcs] c by (cases "sh_writeFlag m") auto
qed (use assms in \<open>auto simp: Shared_inv_def\<close>)

lemma Shared_inv_no_reader:
  assumes inv: "Shared_inv gid (m, pcs)" and n: "length pcs < 2 ^ 31" and z: "\<not> 0 < sint (sh_readCount m)" and b: "b < length pcs"
  shows "\<not> r_counts (pcs ! b)"
proof -
  have "cnt r_counts pcs < 2 ^ 31" using n by (simp add: cnt_def order_le_less_trans [OF length_filter_le])
  then have "cnt r_counts pcs = 0" using z by (simp add: Shared_invD(2) [OF inv] sint_count)
  then show ?thesis using b by (rule cnt_zero)
qed

lemma Shared_inv_excl:
  assumes inv: "Shared_inv gid (m, pcs)" and n: "length pcs < 2 ^ 31" and i: "i < length pcs"
    and st: "(m', pc') \<in> set (Shared_step gid i m (pcs ! i))"
    and a: "a < length pcs" "w_in (pcs[i := pc'] ! a)" and b: "b < length pcs" "r_in (pcs[i := pc'] ! b)"
  shows False
proof -
  note d = Shared_invD [OF inv]
  note ord = Shared_places_order
  note st = Shared_step_in [OF st d(6) [OF i]]
  consider "a = i" "b \<noteq> i" | "a \<noteq> i" "b = i" | "a \<noteq> i" "b \<noteq> i" using a b ord(4) by (cases "a = i"; cases "b = i") auto
  then show False
  proof cases
    case 1
    then have "r_in (pcs ! b)" "w_in pc'" using a b i by auto
    then show ?thesis using st(1) d(3) [OF i b(1)] Shared_inv_no_reader [OF inv n _ b(1)] ord(3) by blast
  next
    case 2
    then have "w_in (pcs ! a)" "r_in pc'" using a b i by auto
    then show ?thesis using st(2) d(3) [OF a(1) i] d(7) [OF a(1)] ord(2) by blast
  next
    case 3
    then show ?thesis using a b d(3) by auto
  qed
qed

lemma Shared_inv_keep:
  assumes inv: "Shared_inv gid (m, pcs)" and n: "length pcs < 2 ^ 31" and i: "i < length pcs"
    and st: "(m', pc') \<in> set (Shared_step gid i m (pcs ! i))"
  shows "Shared_inv gid (m', pcs[i := pc'])"
proof -
  note d = Shared_invD [OF inv]
  note ord = Shared_places_order
  note st = st d(6) [OF i]
  have own: "sh_owner m = 0" if "r_in (pcs ! i)" using d(5) d(3) [OF _ i] ord(1) that by blast
  have nd: "pc' \<noteq> Sh_Dead" by (rule Shared_step_owner(3) [OF st d(4) [OF i] own])
  have "cnt w_owns (pcs[i := pc']) = of_bool (sh_writeFlag m')"
    using Shared_step_flag [OF st] cnt_update [OF i, of w_owns pc'] d(1) d(7) [OF i] nd by (cases "w_owns (pcs ! i)") auto
  moreover have "sh_readCount m' = of_nat (cnt r_counts (pcs[i := pc']))"
  proof (rule add_right_imp_eq [where a = "of_bool (r_counts (pcs ! i))"])
    show "sh_readCount m' + of_bool (r_counts (pcs ! i)) = of_nat (cnt r_counts (pcs[i := pc'])) + of_bool (r_counts (pcs ! i))"
      using Shared_step_count [OF st nd] arg_cong [OF cnt_update [OF i, of r_counts pc'], of "of_nat :: nat \<Rightarrow> 32 word"] d(2)
      by simp
  qed
  moreover have "\<forall>a < length pcs. \<forall>b < length pcs. w_in (pcs[i := pc'] ! a) \<longrightarrow> \<not> r_in (pcs[i := pc'] ! b)"
    using Shared_inv_excl [OF inv n i st(1)] by blast
  moreover have "sh_owner m' = gid a" if a: "a < length pcs" "w_named (pcs[i := pc'] ! a)" for a
  proof (cases "a = i")
    case True
    then show ?thesis using Shared_step_owner(2) [OF st d(4) [OF i]] a by simp
  next
    case False
    then have w: "w_named (pcs ! a)" using a by simp
    then have "\<not> w_owns (pcs ! i)" using d(8) [OF a(1) i] False ord(1,2) by blast
    then show ?thesis using Shared_step_owner(1) [OF st] d(4) [OF a(1) w] by simp
  qed
  moreover have "\<exists>a < length pcs. w_named (pcs[i := pc'] ! a)" if "sh_owner m' \<noteq> 0"
  proof (cases "w_named pc'")
    case True
    then show ?thesis using i by (intro exI [of _ i]) simp
  next
    case False
    then have "\<not> w_named (pcs ! i)" "sh_owner m' = sh_owner m" using Shared_step_owner(4,5) [OF st] nd that by auto
    then show ?thesis using d(5) that by (metis nth_list_update_neq)
  qed
  moreover have "pcs[i := pc'] ! a \<noteq> Sh_Dead" if "a < length pcs" for a using d(6) [OF that] nd that by (cases "a = i") simp_all
  ultimately show ?thesis by (simp add: Shared_inv_def)
qed

lemma Shared_inv_start: "Shared_inv gid (SharedSpinMutex_new, replicate n Sh_Idle)"
  by (simp add: Shared_inv_def SharedSpinMutex_new_def Shared_places cnt_replicate)

interpretation shared: interleaved "Shared_step gid" SharedSpinMutex_new Sh_Idle "min n (2 ^ 31 - 1)" "Shared_inv gid" for gid n
  by unfold_locales (auto intro: Shared_inv_start Shared_inv_keep)

section \<open>Properties\<close>

text \<open>
  Mutual exclusion of \<open>SpinMutex\<close>. In every run of any number of threads that call \<open>lock\<close>, \<open>try_lock\<close> and \<open>unlock\<close>, with every
  interleaving of their memory accesses, two threads never hold the lock together, a thread that holds it finds its own id in \<open>_owner\<close>
  and the flag set, and the assertion of \<open>unlock\<close> never fails.
\<close>

theorem SpinMutex_exclusive:
  assumes "reach (SpinMutex_step gid) SpinMutex_new S_Idle n (m, pcs)" "i < n" "pcs ! i = S_Held"
  shows "SpinMutex_is_locked m \<and> SpinMutex_get_owner m = gid i \<and> (\<forall>j < n. pcs ! j \<noteq> S_Dead \<and> (pcs ! j = S_Held \<longrightarrow> j = i))"
proof -
  have r: "SpinMutex_inv gid (m, pcs)" "length pcs = n" using spin.reach_inv [OF assms(1)] by auto
  then have c: "cnt s_owns pcs = of_bool (sm_flag m)" by (simp add: SpinMutex_inv_def)
  have "sm_flag m" using cnt_zero [of s_owns pcs i] c assms r(2) by (cases "sm_flag m") (auto simp: s_owns_def)
  moreover have "j = i" if "j < n" "pcs ! j = S_Held" for j
    using cnt_unique [of s_owns pcs j i] c that assms(2,3) r(2) by (cases "sm_flag m") (auto simp: s_owns_def)
  moreover have "sm_owner m = gid i" "\<forall>j < n. pcs ! j \<noteq> S_Dead" using r assms(2,3) by (auto simp: SpinMutex_inv_def)
  ultimately show ?thesis by (auto simp: SpinMutex_is_locked_def SpinMutex_get_owner_def)
qed

text \<open>Thread 0 locks, thread 1 waits, thread 2 tries and gives up.\<close>

definition spin_schedule :: "(nat \<times> nat) list" where
  "spin_schedule = [(0, 0), (1, 0), (0, 0), (1, 0), (2, 1), (2, 0), (1, 0), (0, 0)]"

theorem SpinMutex_exclusive_witness:
  "\<exists>m pcs. run_schedule (SpinMutex_step of_nat) spin_schedule (SpinMutex_new, replicate 3 S_Idle) = Some (m, pcs) \<and>
    SpinMutex_is_locked m \<and> SpinMutex_get_owner m = 0 \<and> pcs ! 1 \<noteq> S_Held"
proof -
  have r: "run_schedule (SpinMutex_step of_nat) spin_schedule (SpinMutex_new, replicate 3 S_Idle) =
      Some (\<lparr>sm_flag = True, sm_owner = 0\<rparr>, [S_Held, S_Lock, S_Idle])" by code_simp
  from SpinMutex_exclusive [OF run_schedule_reach [OF r], of 0] r show ?thesis by auto
qed

text \<open>
  C35: readers and writers of \<open>SharedSpinMutex\<close> exclude each other. With fewer than \<open>2 ^ 31\<close> threads, in every interleaving of the
  atomic accesses of the six operations: no assertion of any thread ever fails (that of \<open>unlock\<close>, that the thread is the owner, and that of
  \<open>unlock_shared\<close>, that there is none); while a thread holds the lock for writing the flag is set, \<open>_owner\<close> is its id and no other thread
  holds the lock in either way; while a thread holds it for reading there is no owner; the counter is never smaller than the number of
  readers; and when no thread is inside of an operation or holds the lock, it is as it was when it was made. The accesses are taken to be
  sequentially consistent.
\<close>

theorem SharedSpinMutex_exclusive:
  assumes "reach (Shared_step gid) SharedSpinMutex_new Sh_Idle n (m, pcs)" "n < 2 ^ 31"
  shows "(\<forall>i < n. pcs ! i \<noteq> Sh_Dead) \<and>
    (\<forall>i < n. pcs ! i = W_Held \<longrightarrow> Shared_is_write_locked m \<and> sh_owner m = gid i \<and> (\<forall>j < n. j \<noteq> i \<longrightarrow> pcs ! j \<noteq> W_Held \<and> pcs ! j \<noteq> R_Held)) \<and>
    (\<forall>i < n. pcs ! i = R_Held \<longrightarrow> sh_owner m = 0) \<and> cnt r_in pcs \<le> unat (Shared_read_locked_count m) \<and>
    ((\<forall>i < n. pcs ! i = Sh_Idle) \<longrightarrow> m = SharedSpinMutex_new)"
proof -
  have "min n (2 ^ 31 - 1) = n" using assms(2) by simp
  then have r: "Shared_inv gid (m, pcs)" "length pcs = n"
    using shared.reach_inv [of gid n "(m, pcs)"] assms(1) by auto
  note d = Shared_invD [OF r(1), unfolded r(2)]
  have "cnt r_counts pcs < 2 ^ 31" using assms(2) r(2) by (simp add: cnt_def order_le_less_trans [OF length_filter_le])
  then have "unat (sh_readCount m) = cnt r_counts pcs" by (simp add: d(2) unat_of_nat)
  moreover have "cnt r_in pcs \<le> cnt r_counts pcs" unfolding cnt_def by (induction pcs) (auto simp: Shared_places)
  ultimately have count: "cnt r_in pcs \<le> unat (Shared_read_locked_count m)" by (simp add: Shared_read_locked_count_def)
  have writer: "Shared_is_write_locked m \<and> sh_owner m = gid i \<and> (\<forall>j < n. j \<noteq> i \<longrightarrow> pcs ! j \<noteq> W_Held \<and> pcs ! j \<noteq> R_Held)"
    if i: "i < n" "pcs ! i = W_Held" for i
  proof -
    have w: "w_in (pcs ! i)" "w_owns (pcs ! i)" "w_named (pcs ! i)" using i(2) by (auto simp: Shared_places)
    have "\<not> r_in (pcs ! j)" "\<not> w_owns (pcs ! j)" if "j < n" "j \<noteq> i" for j
      using d(3) [OF i(1) that(1) w(1)] d(8) [OF i(1) that(1) w(2)] that(2) by auto
    then show ?thesis using d(4) [OF i(1) w(3)] d(7) [OF i(1) w(2)] by (auto simp: Shared_is_write_locked_def Shared_places)
  qed
  have reader: "sh_owner m = 0" if i: "i < n" "pcs ! i = R_Held" for i
    using d(5) d(3) [OF _ i(1)] Shared_places_order(1) i(2) by (auto simp: r_in_def)
  have free: "m = SharedSpinMutex_new" if "\<forall>i < n. pcs ! i = Sh_Idle"
  proof -
    have "\<forall>pc \<in> set pcs. pc = Sh_Idle" using that r(2) by (auto simp: in_set_conv_nth)
    then have "cnt w_owns pcs = 0" "cnt r_counts pcs = 0" "\<not> (\<exists>a < n. w_named (pcs ! a))"
      using that by (auto simp: cnt_def filter_empty_conv Shared_places)
    then have "\<not> sh_writeFlag m" "sh_readCount m = 0" "sh_owner m = 0" using d(1,2,5) by (auto split: if_splits)
    then show ?thesis by (cases m) (simp add: SharedSpinMutex_new_def)
  qed
  show ?thesis
  proof (intro conjI)
    show "\<forall>i < n. pcs ! i \<noteq> Sh_Dead" using d(6) by blast
    show "\<forall>i < n. pcs ! i = W_Held \<longrightarrow> Shared_is_write_locked m \<and> sh_owner m = gid i \<and> (\<forall>j < n. j \<noteq> i \<longrightarrow> pcs ! j \<noteq> W_Held \<and> pcs ! j \<noteq> R_Held)"
      using writer by blast
    show "\<forall>i < n. pcs ! i = R_Held \<longrightarrow> sh_owner m = 0" using reader by blast
    show "(\<forall>i < n. pcs ! i = Sh_Idle) \<longrightarrow> m = SharedSpinMutex_new" using free by blast
  qed (rule count)
qed

text \<open>A reader enters and leaves; the writer, which was waiting, enters; another reader steps back.\<close>

definition shared_schedule :: "(nat \<times> nat) list" where
  "shared_schedule = [(1, 2), (1, 0), (0, 0), (1, 0), (0, 0), (0, 0), (1, 0), (1, 0), (1, 0), (2, 2), (0, 0), (0, 0), (2, 0), (2, 0)]"

theorem SharedSpinMutex_exclusive_witness:
  "\<exists>m pcs. run_schedule (Shared_step (\<lambda>i. of_nat (i + 1))) shared_schedule (SharedSpinMutex_new, replicate 3 Sh_Idle) = Some (m, pcs) \<and>
    Shared_is_write_locked m \<and> sh_owner m = 1 \<and> pcs ! 2 \<noteq> R_Held \<and> pcs ! 1 \<noteq> Sh_Dead \<and> cnt r_in pcs \<le> 1"
proof -
  have r: "run_schedule (Shared_step (\<lambda>i. of_nat (i + 1))) shared_schedule (SharedSpinMutex_new, replicate 3 Sh_Idle) =
      Some (\<lparr>sh_readCount = 1, sh_writeFlag = True, sh_owner = 1\<rparr>, [W_Held, Sh_Idle, R_Sub])" by code_simp
  note e = SharedSpinMutex_exclusive [OF run_schedule_reach [OF r]]
  have "Shared_is_write_locked \<lparr>sh_readCount = 1, sh_writeFlag = True, sh_owner = 1\<rparr>" "cnt r_in [W_Held, Sh_Idle, R_Sub] \<le> 1"
    using e by (auto simp: Shared_read_locked_count_def dest: spec [of _ 0])
  then show ?thesis using r by simp
qed

end
