(* ===== verification/Reentrant_Mutex.thy ===== *)
theory Reentrant_Mutex
  imports Spin_Mutex
begin

text \<open>
  \<open>ReentrantSpinMutex\<close> of \<open>utils/SpinMutex.h\<close>, in the interleaving model of \<open>Spin_Mutex\<close>. A thread that holds the lock may
  lock it again; \<open>E_Out d\<close> is a thread outside of the operations that holds the lock \<open>d\<close> times. The nesting counter has 32 bits; the
  increment that overflows it, which is undefined behaviour, leads to the program counter \<open>E_Over\<close>, where the thread stays.
\<close>

record ReentrantSpinMutex =
  re_flag :: bool
  re_owner :: u32
  re_reenCount :: "32 word"

definition ReentrantSpinMutex_new :: ReentrantSpinMutex where
  "ReentrantSpinMutex_new = \<lparr>re_flag = False, re_owner = 0, re_reenCount = 0\<rparr>"

datatype reen_pc = E_Out nat | E_Lock nat | E_Inc nat | E_Xchg nat | E_Assert nat | E_Owner nat | E_Count nat
  | E_Try nat | E_TryLoad nat | E_TryXchg nat | E_TryAssert nat
  | E_Unlock nat | E_Dec nat | E_UnTest nat | E_UnOwner nat | E_UnFlag nat | E_Over | E_Dead

definition Reentrant_lock :: "u32 \<Rightarrow> ReentrantSpinMutex \<Rightarrow> reen_pc \<Rightarrow> (ReentrantSpinMutex \<times> reen_pc) list" where
  "Reentrant_lock g m pc = (case pc of
      E_Out d \<Rightarrow> [(m, E_Lock d)]
    | E_Lock d \<Rightarrow> [(m, if re_owner m = g then E_Inc d else E_Xchg d)]
    | E_Inc d \<Rightarrow> [(m\<lparr>re_reenCount := re_reenCount m + 1\<rparr>, if re_reenCount m = 0x7FFFFFFF then E_Over else E_Out (Suc d))]
    | E_Xchg d \<Rightarrow> [(m\<lparr>re_flag := True\<rparr>, if re_flag m then E_Xchg d else E_Assert d)]
    | E_Assert d \<Rightarrow> [(m, if re_reenCount m = 0 \<and> re_owner m = 0 then E_Owner d else E_Dead)]
    | E_Owner d \<Rightarrow> [(m\<lparr>re_owner := g\<rparr>, E_Count d)]
    | E_Count d \<Rightarrow> [(m\<lparr>re_reenCount := 1\<rparr>, E_Out (Suc d))]
    | _ \<Rightarrow> [])"

text \<open>The end of \<open>try_lock\<close> is the same as that of \<open>lock\<close>: increment, or owner and counter.\<close>

definition Reentrant_try_lock :: "u32 \<Rightarrow> ReentrantSpinMutex \<Rightarrow> reen_pc \<Rightarrow> (ReentrantSpinMutex \<times> reen_pc) list" where
  "Reentrant_try_lock g m pc = (case pc of
      E_Out d \<Rightarrow> [(m, E_Try d)]
    | E_Try d \<Rightarrow> [(m, if re_owner m = g then E_Inc d else E_TryLoad d)]
    | E_TryLoad d \<Rightarrow> [(m, if re_flag m then E_Out d else E_TryXchg d)]
    | E_TryXchg d \<Rightarrow> [(m\<lparr>re_flag := True\<rparr>, if re_flag m then E_Out d else E_TryAssert d)]
    | E_TryAssert d \<Rightarrow> [(m, if re_reenCount m = 0 then E_Owner d else E_Dead)]
    | _ \<Rightarrow> [])"

definition Reentrant_unlock :: "u32 \<Rightarrow> ReentrantSpinMutex \<Rightarrow> reen_pc \<Rightarrow> (ReentrantSpinMutex \<times> reen_pc) list" where
  "Reentrant_unlock g m pc = (case pc of
      E_Out (Suc d) \<Rightarrow> [(m, E_Unlock d)]
    | E_Unlock d \<Rightarrow> [(m, if re_owner m = g then E_Dec d else E_Dead)]
    | E_Dec d \<Rightarrow> [(m\<lparr>re_reenCount := re_reenCount m - 1\<rparr>, E_UnTest d)]
    | E_UnTest d \<Rightarrow> [(m, if re_reenCount m = 0 then E_UnOwner d else E_Out d)]
    | E_UnOwner d \<Rightarrow> [(m\<lparr>re_owner := 0\<rparr>, E_UnFlag d)]
    | E_UnFlag d \<Rightarrow> [(m\<lparr>re_flag := False\<rparr>, E_Out d)]
    | _ \<Rightarrow> [])"

definition Reentrant_step :: "(nat \<Rightarrow> u32) \<Rightarrow> nat \<Rightarrow> ReentrantSpinMutex \<Rightarrow> reen_pc \<Rightarrow> (ReentrantSpinMutex \<times> reen_pc) list" where
  "Reentrant_step gid i m pc =
     Reentrant_lock (gid i) m pc @ Reentrant_try_lock (gid i) m pc @ Reentrant_unlock (gid i) m pc"

definition Reentrant_is_locked :: "ReentrantSpinMutex \<Rightarrow> bool" where
  "Reentrant_is_locked m = re_flag m"

definition Reentrant_count :: "ReentrantSpinMutex \<Rightarrow> 32 word" where
  "Reentrant_count m = re_reenCount m"

section \<open>The invariant\<close>

text \<open>The thread has the flag; and what it knows of the lock then (\<open>o\<close> and \<open>c\<close>: owner and counter).\<close>

fun e_owns :: "reen_pc \<Rightarrow> bool" where
  "e_owns (E_Out d) = (d \<noteq> 0)"
| "e_owns (E_Lock d) = (d \<noteq> 0)"
| "e_owns (E_Try d) = (d \<noteq> 0)"
| "e_owns (E_Xchg d) = False"
| "e_owns (E_TryLoad d) = False"
| "e_owns (E_TryXchg d) = False"
| "e_owns _ = True"

definition depth_is :: "32 word \<Rightarrow> nat \<Rightarrow> bool" where
  "depth_is c d \<longleftrightarrow> c = of_nat d \<and> d < 2 ^ 31"

fun e_ok :: "u32 \<Rightarrow> u32 \<Rightarrow> 32 word \<Rightarrow> reen_pc \<Rightarrow> bool" where
  "e_ok g w c (E_Out d) = (d \<noteq> 0 \<longrightarrow> w = g \<and> depth_is c d)"
| "e_ok g w c (E_Lock d) = (d \<noteq> 0 \<longrightarrow> w = g \<and> depth_is c d)"
| "e_ok g w c (E_Try d) = (d \<noteq> 0 \<longrightarrow> w = g \<and> depth_is c d)"
| "e_ok g w c (E_Inc d) = (d \<noteq> 0 \<and> w = g \<and> depth_is c d)"
| "e_ok g w c (E_Xchg d) = (d = 0)"
| "e_ok g w c (E_TryLoad d) = (d = 0)"
| "e_ok g w c (E_TryXchg d) = (d = 0)"
| "e_ok g w c (E_Assert d) = (d = 0 \<and> w = 0 \<and> c = 0)"
| "e_ok g w c (E_TryAssert d) = (d = 0 \<and> w = 0 \<and> c = 0)"
| "e_ok g w c (E_Owner d) = (d = 0 \<and> w = 0 \<and> c = 0)"
| "e_ok g w c (E_Count d) = (d = 0 \<and> w = g \<and> c = 0)"
| "e_ok g w c (E_Unlock d) = (w = g \<and> depth_is c (Suc d))"
| "e_ok g w c (E_Dec d) = (w = g \<and> depth_is c (Suc d))"
| "e_ok g w c (E_UnTest d) = (w = g \<and> depth_is c d)"
| "e_ok g w c (E_UnOwner d) = (d = 0 \<and> w = g \<and> c = 0)"
| "e_ok g w c (E_UnFlag d) = (d = 0 \<and> w = 0 \<and> c = 0)"
| "e_ok g w c E_Over = (w = g)"
| "e_ok g w c E_Dead = False"

lemma depth_0: "depth_is c d \<Longrightarrow> c = 0 \<longleftrightarrow> d = 0"
proof
  assume "depth_is c d" "c = 0"
  then have "unat (of_nat d :: 32 word) = 0" "d < 2 ^ 31" by (simp_all add: depth_is_def)
  then show "d = 0" by (simp add: unat_of_nat)
qed (simp add: depth_is_def)

lemma depth_Suc: "depth_is c d \<Longrightarrow> c \<noteq> 0x7FFFFFFF \<Longrightarrow> depth_is (c + 1) (Suc d)"
proof -
  assume d: "depth_is c d" "c \<noteq> 0x7FFFFFFF"
  have "d \<noteq> 2 ^ 31 - 1"
  proof
    assume "d = 2 ^ 31 - 1"
    then show False using d by (simp add: depth_is_def)
  qed
  then show ?thesis using d(1) by (simp add: depth_is_def)
qed

lemma depth_pred: "depth_is c (Suc d) \<Longrightarrow> depth_is (c - 1) d"
  by (simp add: depth_is_def)

lemma depth_1 [simp]: "depth_is 1 (Suc 0)"
  by (simp add: depth_is_def)

lemma depth_sint: "depth_is c d \<Longrightarrow> sint c = int d"
  by (simp add: depth_is_def sint_count)

definition Reentrant_inv :: "(nat \<Rightarrow> u32) \<Rightarrow> ReentrantSpinMutex \<times> reen_pc list \<Rightarrow> bool" where
  "Reentrant_inv gid = (\<lambda>(m, pcs). cnt e_owns pcs = of_bool (re_flag m) \<and>
     (\<forall>i < length pcs. e_ok (gid i) (re_owner m) (re_reenCount m) (pcs ! i)) \<and>
     (\<not> re_flag m \<longrightarrow> re_owner m = 0 \<and> re_reenCount m = 0))"

lemmas Reentrant_step_defs = Reentrant_step_def Reentrant_lock_def Reentrant_try_lock_def Reentrant_unlock_def

lemma Reentrant_step_flag:
  "(m', pc') \<in> set (Reentrant_step gid i m pc) \<Longrightarrow> e_ok (gid i) (re_owner m) (re_reenCount m) pc \<Longrightarrow>
     e_owns pc \<Longrightarrow> re_flag m \<Longrightarrow> re_flag m' = e_owns pc'"
  "(m', pc') \<in> set (Reentrant_step gid i m pc) \<Longrightarrow> e_ok (gid i) (re_owner m) (re_reenCount m) pc \<Longrightarrow>
     \<not> e_owns pc \<Longrightarrow> re_owner m \<noteq> gid i \<Longrightarrow> re_flag m' = (re_flag m \<or> e_owns pc')"
  "(m', pc') \<in> set (Reentrant_step gid i m pc) \<Longrightarrow> e_ok (gid i) (re_owner m) (re_reenCount m) pc \<Longrightarrow>
     \<not> e_owns pc \<Longrightarrow> re_owner m \<noteq> gid i \<Longrightarrow> e_owns pc' \<Longrightarrow> \<not> re_flag m"
  by (cases pc; auto simp: Reentrant_step_defs depth_0 split: nat.splits if_splits; fail)+

lemma Reentrant_step_others:
  "(m', pc') \<in> set (Reentrant_step gid i m pc) \<Longrightarrow> \<not> e_owns pc \<Longrightarrow> re_owner m \<noteq> gid i \<Longrightarrow>
     re_owner m' = re_owner m \<and> re_reenCount m' = re_reenCount m"
  by (cases pc; auto simp: Reentrant_step_defs split: nat.splits if_splits; fail)

lemma Reentrant_step_ok:
  "(m', pc') \<in> set (Reentrant_step gid i m pc) \<Longrightarrow> e_ok (gid i) (re_owner m) (re_reenCount m) pc \<Longrightarrow>
     (e_owns pc \<longrightarrow> re_flag m) \<Longrightarrow> (\<not> e_owns pc \<longrightarrow> re_owner m \<noteq> gid i) \<Longrightarrow> (\<not> re_flag m \<longrightarrow> re_owner m = 0 \<and> re_reenCount m = 0) \<Longrightarrow>
     e_ok (gid i) (re_owner m') (re_reenCount m') pc' \<and> (\<not> re_flag m' \<longrightarrow> re_owner m' = 0 \<and> re_reenCount m' = 0)"
  by (cases pc; auto simp: Reentrant_step_defs depth_Suc depth_pred depth_0 split: nat.splits if_splits; fail)

text \<open>What is known of the lock does not concern a thread without the flag.\<close>

lemma e_ok_other: "e_ok g w c pc \<Longrightarrow> \<not> e_owns pc \<Longrightarrow> e_ok g w' c' pc"
  by (cases pc) auto

text \<open>A thread that owns the lock is named by \<open>_owner\<close>, or \<open>_owner\<close> is 0.\<close>

lemma e_ok_owner: "e_ok g w c pc \<Longrightarrow> e_owns pc \<Longrightarrow> w = g \<or> w = 0"
  by (cases pc) auto

lemma Reentrant_invD:
  assumes "Reentrant_inv gid (m, pcs)"
  shows "cnt e_owns pcs = of_bool (re_flag m)" "\<And>a. a < length pcs \<Longrightarrow> e_ok (gid a) (re_owner m) (re_reenCount m) (pcs ! a)"
    "\<not> re_flag m \<longrightarrow> re_owner m = 0 \<and> re_reenCount m = 0" "\<And>a. a < length pcs \<Longrightarrow> e_owns (pcs ! a) \<Longrightarrow> re_flag m"
    "\<And>a b. a < length pcs \<Longrightarrow> b < length pcs \<Longrightarrow> e_owns (pcs ! a) \<Longrightarrow> e_owns (pcs ! b) \<Longrightarrow> a = b"
proof -
  show c: "cnt e_owns pcs = of_bool (re_flag m)" using assms by (simp add: Reentrant_inv_def)
  show "\<And>a. a < length pcs \<Longrightarrow> e_owns (pcs ! a) \<Longrightarrow> re_flag m" using cnt_zero [of e_owns pcs] c by (cases "re_flag m") auto
  show "\<And>a b. a < length pcs \<Longrightarrow> b < length pcs \<Longrightarrow> e_owns (pcs ! a) \<Longrightarrow> e_owns (pcs ! b) \<Longrightarrow> a = b"
    using cnt_unique [of e_owns pcs] c by (cases "re_flag m") auto
qed (use assms in \<open>auto simp: Reentrant_inv_def\<close>)

text \<open>With distinct ids other than 0 only the thread that has the flag finds its own id.\<close>

lemma Reentrant_inv_owner:
  assumes inv: "Reentrant_inv gid (m, pcs)" and i: "i < length pcs" "\<not> e_owns (pcs ! i)"
    and g: "inj_on gid {..<length pcs}" "\<forall>a < length pcs. gid a \<noteq> 0"
  shows "re_owner m \<noteq> gid i"
proof
  note d = Reentrant_invD [OF inv]
  assume o: "re_owner m = gid i"
  then have "re_owner m \<noteq> 0" using g(2) i(1) by simp
  then have "cnt e_owns pcs \<noteq> 0" using d(1,3) by auto
  then obtain a where a: "a < length pcs" "e_owns (pcs ! a)" by (auto simp: cnt_def filter_empty_conv in_set_conv_nth)
  then have "re_owner m = gid a" using e_ok_owner [OF d(2)] \<open>re_owner m \<noteq> 0\<close> by blast
  then have "a = i" using o g(1) a(1) i(1) by (auto dest: inj_onD)
  then show False using a i by simp
qed

lemma Reentrant_inv_keep:
  assumes inv: "Reentrant_inv gid (m, pcs)" and g: "inj_on gid {..<length pcs}" "\<forall>a < length pcs. gid a \<noteq> 0"
    and i: "i < length pcs" and st: "(m', pc') \<in> set (Reentrant_step gid i m (pcs ! i))"
  shows "Reentrant_inv gid (m', pcs[i := pc'])"
proof -
  note d = Reentrant_invD [OF inv]
  have no: "\<not> e_owns (pcs ! i) \<longrightarrow> re_owner m \<noteq> gid i" using Reentrant_inv_owner [OF inv i _ g] by blast
  have fl: "e_owns (pcs ! i) \<longrightarrow> re_flag m" using d(4) [OF i] by blast
  note ok = Reentrant_step_ok [OF st d(2) [OF i] fl no d(3)]
  have "cnt e_owns (pcs[i := pc']) = of_bool (re_flag m')"
    using Reentrant_step_flag [OF st d(2) [OF i]] cnt_update [OF i, of e_owns pc'] d(1) fl no by (cases "e_owns (pcs ! i)") auto
  moreover have "e_ok (gid a) (re_owner m') (re_reenCount m') (pcs[i := pc'] ! a)" if a: "a < length pcs" for a
  proof (cases "a = i")
    case True
    then show ?thesis using ok i by simp
  next
    case False
    show ?thesis
    proof (cases "e_owns (pcs ! i)")
      case True
      then have "\<not> e_owns (pcs ! a)" using d(5) [OF a i] False by blast
      then show ?thesis using e_ok_other [OF d(2) [OF a]] False by simp
    next
      case no_own: False
      then show ?thesis using Reentrant_step_others [OF st] no d(2) [OF a] False by simp
    qed
  qed
  ultimately show ?thesis using ok by (simp add: Reentrant_inv_def)
qed

definition good_ids :: "(nat \<Rightarrow> u32) \<Rightarrow> nat \<Rightarrow> bool" where
  "good_ids gid n \<longleftrightarrow> inj_on gid {..<n} \<and> (\<forall>a < n. gid a \<noteq> 0)"

lemma Reentrant_inv_start: "Reentrant_inv gid (ReentrantSpinMutex_new, replicate n (E_Out 0))"
  by (simp add: Reentrant_inv_def ReentrantSpinMutex_new_def cnt_replicate)

interpretation reentrant: interleaved "Reentrant_step gid" ReentrantSpinMutex_new "E_Out 0" n
    "\<lambda>c. good_ids gid n \<longrightarrow> Reentrant_inv gid c" for gid n
  by unfold_locales (auto simp: good_ids_def intro: Reentrant_inv_start Reentrant_inv_keep)

section \<open>Properties\<close>

text \<open>
  C36: \<open>ReentrantSpinMutex\<close>. When the ids of the threads are distinct and not 0, in every interleaving of their accesses: no assertion of
  any thread fails; at most one thread holds the lock, and while it does outside of the operations, the flag is set, \<open>_owner\<close> is its id and
  the counter is the number of times it has locked it, which is below \<open>2 ^ 31\<close>; and when no thread is inside of an operation or holds the
  lock, it is as it was when it was made. A thread that would nest the lock \<open>2 ^ 31\<close> times stays at the overflowing increment for ever.
  The accesses are taken to be sequentially consistent.
\<close>

theorem Reentrant_exclusive:
  assumes "reach (Reentrant_step gid) ReentrantSpinMutex_new (E_Out 0) n (m, pcs)" "good_ids gid n"
  shows "(\<forall>i < n. pcs ! i \<noteq> E_Dead) \<and>
    (\<forall>i < n. \<forall>d. pcs ! i = E_Out (Suc d) \<longrightarrow>
      Reentrant_is_locked m \<and> re_owner m = gid i \<and> sint (Reentrant_count m) = int (Suc d) \<and> Suc d < 2 ^ 31 \<and>
      (\<forall>j < n. j \<noteq> i \<longrightarrow> (\<forall>k. pcs ! j \<noteq> E_Out (Suc k)))) \<and>
    ((\<forall>i < n. pcs ! i = E_Out 0) \<longrightarrow> m = ReentrantSpinMutex_new)"
proof -
  have r: "Reentrant_inv gid (m, pcs)" "length pcs = n" using reentrant.reach_inv [OF assms(1)] assms(2) by auto
  note d = Reentrant_invD [OF r(1), unfolded r(2)]
  have dead: "pcs ! i \<noteq> E_Dead" if "i < n" for i using d(2) [OF that] by auto
  have held: "Reentrant_is_locked m \<and> re_owner m = gid i \<and> sint (Reentrant_count m) = int (Suc d) \<and> Suc d < 2 ^ 31 \<and>
      (\<forall>j < n. j \<noteq> i \<longrightarrow> (\<forall>k. pcs ! j \<noteq> E_Out (Suc k)))" if i: "i < n" "pcs ! i = E_Out (Suc d)" for i d
  proof -
    have "j = i" if "j < n" "pcs ! j = E_Out (Suc k)" for j k using d(5) [OF that(1) i(1)] that(2) i(2) by simp
    moreover have "re_flag m" using d(4) [OF i(1)] i(2) by simp
    moreover have "re_owner m = gid i \<and> depth_is (re_reenCount m) (Suc d)" using d(2) [OF i(1)] i(2) by simp
    ultimately show ?thesis by (auto simp: Reentrant_is_locked_def Reentrant_count_def depth_sint) (simp add: depth_is_def)
  qed
  have free: "m = ReentrantSpinMutex_new" if "\<forall>i < n. pcs ! i = E_Out 0"
  proof -
    have "\<forall>pc \<in> set pcs. \<not> e_owns pc" using that r(2) by (auto simp: in_set_conv_nth)
    then have "cnt e_owns pcs = 0" by (simp add: cnt_def filter_empty_conv)
    then have "\<not> re_flag m" using d(1) by (cases "re_flag m") auto
    then show ?thesis using d(3) by (simp add: ReentrantSpinMutex_new_def)
  qed
  show ?thesis
  proof (intro conjI)
    show "\<forall>i < n. pcs ! i \<noteq> E_Dead" using dead by blast
    show "\<forall>i < n. \<forall>d. pcs ! i = E_Out (Suc d) \<longrightarrow>
      Reentrant_is_locked m \<and> re_owner m = gid i \<and> sint (Reentrant_count m) = int (Suc d) \<and> Suc d < 2 ^ 31 \<and>
      (\<forall>j < n. j \<noteq> i \<longrightarrow> (\<forall>k. pcs ! j \<noteq> E_Out (Suc k)))" using held by blast
    show "(\<forall>i < n. pcs ! i = E_Out 0) \<longrightarrow> m = ReentrantSpinMutex_new" using free by blast
  qed
qed

text \<open>Thread 0 locks twice and unlocks once while thread 1 waits.\<close>

definition reentrant_schedule :: "(nat \<times> nat) list" where
  "reentrant_schedule = [(0, 0), (0, 0), (1, 0), (0, 0), (0, 0), (0, 0), (0, 0), (1, 0), (1, 0), (0, 0), (0, 0), (0, 0),
     (0, 2), (0, 0), (0, 0), (0, 0)]"

theorem Reentrant_exclusive_witness:
  "\<exists>m pcs. run_schedule (Reentrant_step (\<lambda>i. of_nat (i + 1))) reentrant_schedule (ReentrantSpinMutex_new, replicate 2 (E_Out 0)) = Some (m, pcs) \<and>
    Reentrant_is_locked m \<and> Reentrant_count m = 1 \<and> pcs ! 1 \<noteq> E_Out 1"
proof -
  have r: "run_schedule (Reentrant_step (\<lambda>i. of_nat (i + 1))) reentrant_schedule (ReentrantSpinMutex_new, replicate 2 (E_Out 0)) =
      Some (\<lparr>re_flag = True, re_owner = 1, re_reenCount = 1\<rparr>, [E_Out (Suc 0), E_Xchg 0])" by code_simp
  have "good_ids (\<lambda>i. of_nat (i + 1)) 2"
    by (auto simp: good_ids_def inj_on_def less_2_cases_iff)
  note e = Reentrant_exclusive [OF run_schedule_reach [OF r] this]
  have "Reentrant_is_locked \<lparr>re_flag = True, re_owner = 1, re_reenCount = 1\<rparr>"
    using e [THEN conjunct2, THEN conjunct1, rule_format, of 0 0] by simp
  then show ?thesis using r by (simp add: Reentrant_count_def)
qed

text \<open>
  The ids matter: a thread whose \<open>g_threadId\<close> is 0 finds itself the owner of a free lock. It gets in without the flag, and the next
  thread to lock fails its assertion.
\<close>

theorem Reentrant_zero_id:
  "run_schedule (Reentrant_step of_nat) [(0, 0), (0, 0), (0, 0), (1, 0), (1, 0), (1, 0), (1, 0)]
     (ReentrantSpinMutex_new, replicate 2 (E_Out 0)) =
   Some (\<lparr>re_flag = True, re_owner = 0, re_reenCount = 1\<rparr>, [E_Out 1, E_Dead])"
  by code_simp

end
