(* ===== verification/Buffer_Pool.thy ===== *)
theory Buffer_Pool
  imports Prelude
begin

text \<open>
  The memory allocator: \<open>cache/BufferPool\<close> and \<open>cache/CachePool\<close>. Memory comes from the operating system in aligned buffers of
  128 KiB, each cut into elements of one of 28 sizes; a \<open>BufferPool\<close> has the buffers of one size, and every thread keeps a few free
  elements of each size in its \<open>LocalMap\<close>. An address is a 64-bit number. Parameters: \<open>os\<close>, the addresses that
  \<open>aligned_alloc\<close> returns during the call, and \<open>first\<close>, the key that \<open>begin()\<close> of an unordered map yields. The members of
  both maps of a pool are the same objects, so the map of buffers with free elements has their keys only. \<open>None\<close> is a failed
  assertion, a failed allocation, or the use of the end iterator.
\<close>

section \<open>Sizes\<close>

definition arrSzMap :: "nat list" where
  "arrSzMap = [16, 32, 48, 64, 96, 128, 160, 192, 224, 256, 384, 512, 640, 768, 896, 1024, 1536, 2048, 2560, 3072, 3584, 4096,
     6144, 8192, 10240, 12288, 14336, 16384]"

definition PAGE_POS :: nat where "PAGE_POS = 27"

definition CalcBufSize :: "u32 \<Rightarrow> u32" where
  "CalcBufSize sz =
     (if sz \<le> 64 then drop_bit 4 (sz - 1)
      else if sz \<le> 256 then drop_bit 5 (sz - 1) + 2
      else if sz \<le> 1024 then drop_bit 7 (sz - 1) + 8
      else if sz \<le> 4096 then drop_bit 9 (sz - 1) + 14
      else if sz \<le> 16384 then drop_bit 11 (sz - 1) + 20
      else 0xFFFFFFFF)"

definition CacheBlockSize :: u64 where "CacheBlockSize = 131072"
definition MaxFreeBufferCount :: nat where "MaxFreeBufferCount = 128"
definition BUFFER_MASK :: u64 where "BUFFER_MASK = CacheBlockSize - 1"
definition BUFFER_MASK_N :: u64 where "BUFFER_MASK_N = NOT (CacheBlockSize - 1)"

section \<open>Buffers\<close>

record Buffer =
  bf_pBuf :: u64
  bf_eleSize :: u16
  bf_maxEle :: u16
  bf_vctFree :: "u16 list"

definition CalcAddr :: "u64 \<Rightarrow> u64" where
  "CalcAddr sAddr = sAddr AND BUFFER_MASK_N"

definition Buffer_Init :: "u16 \<Rightarrow> Buffer \<Rightarrow> Buffer" where
  "Buffer_Init eleSize b =
     (let maxEle = (ucast ((ucast CacheBlockSize :: u32) div ucast eleSize) :: u16) in
      b\<lparr>bf_eleSize := eleSize, bf_maxEle := maxEle, bf_vctFree := map of_nat [0..<unat maxEle]\<rparr>)"

definition Buffer_new :: "u64 \<Rightarrow> u16 \<Rightarrow> Buffer" where
  "Buffer_new addr eleSize = Buffer_Init eleSize \<lparr>bf_pBuf = addr, bf_eleSize = eleSize, bf_maxEle = 0, bf_vctFree = []\<rparr>"

definition Buffer_IsEmpty :: "Buffer \<Rightarrow> bool" where
  "Buffer_IsEmpty b \<longleftrightarrow> length (bf_vctFree b) = 0"

definition Buffer_IsFull :: "Buffer \<Rightarrow> bool" where
  "Buffer_IsFull b \<longleftrightarrow> length (bf_vctFree b) = unat (bf_maxEle b)"

text \<open>\<open>&_pBuf[_eleSize * index]\<close> and the way back.\<close>

definition ele_addr :: "Buffer \<Rightarrow> u16 \<Rightarrow> u64" where
  "ele_addr b index = bf_pBuf b + ucast (bf_eleSize b) * ucast index"

definition ele_index :: "Buffer \<Rightarrow> u64 \<Rightarrow> u16" where
  "ele_index b bys = ucast ((bys AND BUFFER_MASK) div ucast (bf_eleSize b))"

definition Buffer_ApplyOne :: "Buffer \<Rightarrow> (u64 \<times> Buffer) option" where
  "Buffer_ApplyOne b =
     (if Buffer_IsEmpty b then None
      else Some (ele_addr b (last (bf_vctFree b)), b\<lparr>bf_vctFree := butlast (bf_vctFree b)\<rparr>))"

definition Buffer_ReleaseOne :: "u64 \<Rightarrow> Buffer \<Rightarrow> Buffer" where
  "Buffer_ReleaseOne bys b = b\<lparr>bf_vctFree := bf_vctFree b @ [ele_index b bys]\<rparr>"

text \<open>A vector is its elements and its capacity \<open>cap\<close>. It is filled up to three quarters, and emptied down to one.\<close>

definition fill_to :: "nat \<Rightarrow> nat" where "fill_to cap = cap - cap div 4"
definition drain_to :: "bool \<Rightarrow> nat \<Rightarrow> nat" where "drain_to bAll cap = (if bAll then 0 else cap div 4)"

function buffer_apply_loop :: "nat \<Rightarrow> u64 list \<Rightarrow> Buffer \<Rightarrow> u64 list \<times> Buffer" where
  "buffer_apply_loop cap vct b =
     (if length vct < fill_to cap \<and> \<not> Buffer_IsEmpty b
      then buffer_apply_loop cap (vct @ [ele_addr b (last (bf_vctFree b))]) (b\<lparr>bf_vctFree := butlast (bf_vctFree b)\<rparr>)
      else (vct, b))"
  by pat_completeness auto
termination
  by (relation "measure (\<lambda>(cap, vct, b). length (bf_vctFree b))") (auto simp: Buffer_IsEmpty_def)

declare buffer_apply_loop.simps [simp del]

definition Buffer_Apply :: "nat \<Rightarrow> u64 list \<Rightarrow> Buffer \<Rightarrow> (u64 list \<times> Buffer) option" where
  "Buffer_Apply cap vct b = (if Buffer_IsEmpty b then None else Some (buffer_apply_loop cap vct b))"

fun buffer_release_loop :: "nat \<Rightarrow> nat \<Rightarrow> u64 list \<Rightarrow> Buffer \<Rightarrow> u64 list \<times> Buffer" where
  "buffer_release_loop cap 0 vct b = (vct, b)"
| "buffer_release_loop cap (Suc i) vct b =
     (let bys = vct ! i in
      if CacheBlockSize < bys XOR bf_pBuf b then buffer_release_loop cap i vct b
      else
        let b = Buffer_ReleaseOne bys b; vct = take i vct @ drop (Suc i) vct in
        if length vct = cap then (vct, b) else buffer_release_loop cap i vct b)"

definition Buffer_Release :: "bool \<Rightarrow> nat \<Rightarrow> u64 list \<Rightarrow> Buffer \<Rightarrow> u64 list \<times> Buffer" where
  "Buffer_Release bAll cap vct b = buffer_release_loop (drain_to bAll cap) (length vct) vct b"

section \<open>The pool of a size, and the pool of buffers\<close>

record BufferPool =
  bp_mapBuffer :: "u64 \<Rightarrow> Buffer option"
  bp_mapFreeBuffer :: "u64 list"
  bp_eleSize :: u16

definition BufferPool_new :: "u16 \<Rightarrow> BufferPool" where
  "BufferPool_new eleSize = \<lparr>bp_mapBuffer = (\<lambda>_. None), bp_mapFreeBuffer = [], bp_eleSize = eleSize\<rparr>"

text \<open>The members of \<open>CachePool\<close> that the pools of all sizes share: the free buffers and the amount of memory.\<close>

record FreeBuffers =
  fb_vctFreeBuf :: "Buffer list"
  fb_szMemAllocated :: u64

definition AllocateBuffer :: "u16 \<Rightarrow> u64 list \<Rightarrow> FreeBuffers \<Rightarrow> (Buffer \<times> u64 list \<times> FreeBuffers) option" where
  "AllocateBuffer eleLen os cp =
     (if length (fb_vctFreeBuf cp) > 0
      then Some (Buffer_Init eleLen (last (fb_vctFreeBuf cp)), os, cp\<lparr>fb_vctFreeBuf := butlast (fb_vctFreeBuf cp)\<rparr>)
      else case os of
          [] \<Rightarrow> None
        | addr # os \<Rightarrow> Some (Buffer_new addr eleLen, os, cp\<lparr>fb_szMemAllocated := fb_szMemAllocated cp + CacheBlockSize\<rparr>))"

definition RecycleBuffer :: "Buffer \<Rightarrow> FreeBuffers \<Rightarrow> FreeBuffers" where
  "RecycleBuffer buf cp =
     (if length (fb_vctFreeBuf cp) > MaxFreeBufferCount
      then cp\<lparr>fb_szMemAllocated := fb_szMemAllocated cp - CacheBlockSize\<rparr>
      else cp\<lparr>fb_vctFreeBuf := fb_vctFreeBuf cp @ [buf]\<rparr>)"

text \<open>One round of the loop of \<open>BufferPool::Apply\<close>: a buffer with free elements, a new one if there is none, gives what it has.\<close>

definition pool_apply_round ::
  "(u64 list \<Rightarrow> u64) \<Rightarrow> nat \<Rightarrow> u64 list \<Rightarrow> u64 list \<Rightarrow> FreeBuffers \<Rightarrow> BufferPool \<Rightarrow>
     (u64 list \<times> u64 list \<times> FreeBuffers \<times> BufferPool) option" where
  "pool_apply_round first cap vct os cp bp =
     (case (if bp_mapFreeBuffer bp = []
            then (case AllocateBuffer (bp_eleSize bp) os cp of
                None \<Rightarrow> None
              | Some (buff, os, cp) \<Rightarrow>
                  Some (bf_pBuf buff, os, cp, bp\<lparr>bp_mapBuffer := (bp_mapBuffer bp)(bf_pBuf buff \<mapsto> buff),
                    bp_mapFreeBuffer := [bf_pBuf buff]\<rparr>))
            else Some (first (bp_mapFreeBuffer bp), os, cp, bp)) of
        None \<Rightarrow> None
      | Some (key, os, cp, bp) \<Rightarrow>
          (case bp_mapBuffer bp key of
             None \<Rightarrow> None
           | Some buff \<Rightarrow>
               (case Buffer_Apply cap vct buff of
                  None \<Rightarrow> None
                | Some (vct, buff) \<Rightarrow>
                    Some (vct, os, cp, bp\<lparr>bp_mapBuffer := (bp_mapBuffer bp)(key \<mapsto> buff),
                      bp_mapFreeBuffer := (if Buffer_IsEmpty buff then removeAll key (bp_mapFreeBuffer bp) else bp_mapFreeBuffer bp)\<rparr>))))"

lemma buffer_apply_loop_len: "buffer_apply_loop cap vct b = (vct', b') \<Longrightarrow> length vct \<le> length vct'"
proof (induction cap vct b rule: buffer_apply_loop.induct)
  case (1 cap vct b)
  show ?case
  proof (cases "length vct < fill_to cap \<and> \<not> Buffer_IsEmpty b")
    case True
    then show ?thesis using 1 by (subst (asm) buffer_apply_loop.simps [of cap vct b]) auto
  next
    case False
    then show ?thesis using 1(2) by (subst (asm) buffer_apply_loop.simps) auto
  qed
qed

lemma Buffer_Apply_len:
  "Buffer_Apply cap vct b = Some (vct', b') \<Longrightarrow> length vct < fill_to cap \<Longrightarrow> length vct < length vct'"
  using buffer_apply_loop_len
  by (subst (asm) Buffer_Apply_def, subst (asm) buffer_apply_loop.simps) (fastforce split: if_splits)

lemma pool_apply_round_len:
  "pool_apply_round first cap vct os cp bp = Some (vct', r) \<Longrightarrow> length vct < fill_to cap \<Longrightarrow> length vct < length vct'"
  by (auto simp: pool_apply_round_def Buffer_Apply_len split: option.splits if_splits prod.splits)

function BufferPool_Apply ::
  "(u64 list \<Rightarrow> u64) \<Rightarrow> nat \<Rightarrow> u64 list \<Rightarrow> u64 list \<Rightarrow> FreeBuffers \<Rightarrow> BufferPool \<Rightarrow>
     (u64 list \<times> u64 list \<times> FreeBuffers \<times> BufferPool) option" where
  "BufferPool_Apply first cap vct os cp bp =
     (if length vct < fill_to cap
      then (case pool_apply_round first cap vct os cp bp of
          None \<Rightarrow> None
        | Some (vct, os, cp, bp) \<Rightarrow> BufferPool_Apply first cap vct os cp bp)
      else Some (vct, os, cp, bp))"
  by pat_completeness auto
termination
  by (relation "measure (\<lambda>(first, cap, vct, os, cp, bp). fill_to cap - length vct)")
    (auto dest!: pool_apply_round_len)

declare BufferPool_Apply.simps [simp del]

text \<open>
  One round of the loop of \<open>BufferPool::Release\<close>: the buffer of the first element takes back its elements; a buffer that is complete
  again is given away. The loop has no bound in the code: that it ends is proved, for well-formed pools.
\<close>

definition pool_release_round ::
  "bool \<Rightarrow> nat \<Rightarrow> u64 list \<Rightarrow> FreeBuffers \<Rightarrow> BufferPool \<Rightarrow> (u64 list \<times> FreeBuffers \<times> BufferPool) option" where
  "pool_release_round bAll cap vct cp bp =
     (let buf = CalcAddr (vct ! 0) in
      case bp_mapBuffer bp buf of
        None \<Rightarrow> None
      | Some buff \<Rightarrow>
          let frees = (if Buffer_IsEmpty buff \<and> buf \<notin> set (bp_mapFreeBuffer bp) then bp_mapFreeBuffer bp @ [buf]
                       else bp_mapFreeBuffer bp);
              (vct, buff) = Buffer_Release bAll cap vct buff in
          if Buffer_IsFull buff
          then Some (vct, RecycleBuffer buff cp,
                 bp\<lparr>bp_mapBuffer := (bp_mapBuffer bp)(buf := None), bp_mapFreeBuffer := removeAll buf frees\<rparr>)
          else Some (vct, cp, bp\<lparr>bp_mapBuffer := (bp_mapBuffer bp)(buf \<mapsto> buff), bp_mapFreeBuffer := frees\<rparr>))"

partial_function (option) BufferPool_Release ::
  "bool \<Rightarrow> nat \<Rightarrow> u64 list \<Rightarrow> FreeBuffers \<Rightarrow> BufferPool \<Rightarrow> (u64 list \<times> FreeBuffers \<times> BufferPool) option" where
  "BufferPool_Release bAll cap vct cp bp =
     (if drain_to bAll cap < length vct
      then (case pool_release_round bAll cap vct cp bp of
          None \<Rightarrow> None
        | Some (vct, cp, bp) \<Rightarrow> BufferPool_Release bAll cap vct cp bp)
      else Some (vct, cp, bp))"

text \<open>The functions of \<open>BufferPool\<close> for one element.\<close>

definition BufferPool_ApplyOne ::
  "(u64 list \<Rightarrow> u64) \<Rightarrow> u64 list \<Rightarrow> FreeBuffers \<Rightarrow> BufferPool \<Rightarrow> (u64 \<times> u64 list \<times> FreeBuffers \<times> BufferPool) option" where
  "BufferPool_ApplyOne first os cp bp =
     (if bp_mapFreeBuffer bp = []
      then (case AllocateBuffer (bp_eleSize bp) os cp of
          None \<Rightarrow> None
        | Some (buff, os, cp) \<Rightarrow>
            (case Buffer_ApplyOne buff of
               None \<Rightarrow> None
             | Some (bys, buff) \<Rightarrow>
                 Some (bys, os, cp, bp\<lparr>bp_mapBuffer := (bp_mapBuffer bp)(bf_pBuf buff \<mapsto> buff), bp_mapFreeBuffer := [bf_pBuf buff]\<rparr>)))
      else
        let key = first (bp_mapFreeBuffer bp) in
        case bp_mapBuffer bp key of
          None \<Rightarrow> None
        | Some buff \<Rightarrow>
            (case Buffer_ApplyOne buff of
               None \<Rightarrow> None
             | Some (bys, buff) \<Rightarrow>
                 Some (bys, os, cp, bp\<lparr>bp_mapBuffer := (bp_mapBuffer bp)(key \<mapsto> buff),
                   bp_mapFreeBuffer := (if Buffer_IsEmpty buff then removeAll key (bp_mapFreeBuffer bp) else bp_mapFreeBuffer bp)\<rparr>)))"

definition BufferPool_ReleaseOne :: "u64 \<Rightarrow> FreeBuffers \<Rightarrow> BufferPool \<Rightarrow> (FreeBuffers \<times> BufferPool) option" where
  "BufferPool_ReleaseOne bys cp bp =
     (let buf = CalcAddr bys in
      case bp_mapBuffer bp buf of
        None \<Rightarrow> None
      | Some buff \<Rightarrow>
          let buff = Buffer_ReleaseOne bys buff in
          if Buffer_IsFull buff
          then Some (RecycleBuffer buff cp,
                 bp\<lparr>bp_mapBuffer := (bp_mapBuffer bp)(buf := None), bp_mapFreeBuffer := removeAll buf (bp_mapFreeBuffer bp)\<rparr>)
          else Some (cp, bp\<lparr>bp_mapBuffer := (bp_mapBuffer bp)(buf \<mapsto> buff)\<rparr>))"

section \<open>The elements of a thread\<close>

text \<open>The vectors of a \<open>LocalMap\<close>, and their capacities after \<open>reserve\<close> (at least what is asked for).\<close>

record LocalMap =
  lm_arrVctByte :: "u64 list list"
  lm_capacity :: "nat list"
  lm_memStat :: u64

definition reserve_size :: "nat \<Rightarrow> nat" where
  "reserve_size sz = (if 512 \<le> sz then 32 else 16384 div sz)"

definition LocalMap_new :: "nat list \<Rightarrow> LocalMap" where
  "LocalMap_new caps = \<lparr>lm_arrVctByte = replicate 28 [], lm_capacity = caps, lm_memStat = 0\<rparr>"

text \<open>The pools of all sizes (\<open>_arrayPool\<close>).\<close>

record CachePool =
  cp_arrayPool :: "BufferPool list"
  cp_buffers :: FreeBuffers

definition CachePool_new :: CachePool where
  "CachePool_new = \<lparr>cp_arrayPool = map (\<lambda>sz. BufferPool_new (of_nat sz)) arrSzMap,
     cp_buffers = \<lparr>fb_vctFreeBuf = [], fb_szMemAllocated = 0\<rparr>\<rparr>"

definition BatchApply :: "(u64 list \<Rightarrow> u64) \<Rightarrow> nat \<Rightarrow> nat \<Rightarrow> u64 list \<Rightarrow> u64 list \<Rightarrow> CachePool \<Rightarrow> (u64 list \<times> u64 list \<times> CachePool) option" where
  "BatchApply first pos cap vct os cp =
     map_option (\<lambda>(vct, os, fb, bp). (vct, os, \<lparr>cp_arrayPool = (cp_arrayPool cp)[pos := bp], cp_buffers = fb\<rparr>))
       (BufferPool_Apply first cap vct os (cp_buffers cp) (cp_arrayPool cp ! pos))"

definition BatchRelease :: "nat \<Rightarrow> nat \<Rightarrow> u64 list \<Rightarrow> bool \<Rightarrow> CachePool \<Rightarrow> (u64 list \<times> CachePool) option" where
  "BatchRelease pos cap vct bAll cp =
     map_option (\<lambda>(vct, fb, bp). (vct, \<lparr>cp_arrayPool = (cp_arrayPool cp)[pos := bp], cp_buffers = fb\<rparr>))
       (BufferPool_Release bAll cap vct (cp_buffers cp) (cp_arrayPool cp ! pos))"

definition LocalMap_Push :: "u64 \<Rightarrow> u16 \<Rightarrow> LocalMap \<Rightarrow> CachePool \<Rightarrow> (LocalMap \<times> CachePool) option" where
  "LocalMap_Push pBuf pos lm cp =
     (if \<not> pos < 28 then None
      else let i = unat pos; vct = lm_arrVctByte lm ! i; cap = lm_capacity lm ! i in
        case (if cap \<le> length vct then BatchRelease i cap vct False cp else Some (vct, cp)) of
          None \<Rightarrow> None
        | Some (vct, cp) \<Rightarrow>
            Some (lm\<lparr>lm_arrVctByte := (lm_arrVctByte lm)[i := vct @ [pBuf]],
                     lm_memStat := lm_memStat lm - of_nat (arrSzMap ! i)\<rparr>, cp))"

definition LocalMap_Pop ::
  "(u64 list \<Rightarrow> u64) \<Rightarrow> u16 \<Rightarrow> u64 list \<Rightarrow> LocalMap \<Rightarrow> CachePool \<Rightarrow> (u64 \<times> u64 list \<times> LocalMap \<times> CachePool) option" where
  "LocalMap_Pop first pos os lm cp =
     (if \<not> pos < 28 then None
      else let i = unat pos; vct = lm_arrVctByte lm ! i; cap = lm_capacity lm ! i in
        case (if length vct = 0 then BatchApply first i cap vct os cp else Some (vct, os, cp)) of
          None \<Rightarrow> None
        | Some (vct, os, cp) \<Rightarrow>
            Some (last vct, os,
              lm\<lparr>lm_arrVctByte := (lm_arrVctByte lm)[i := butlast vct], lm_memStat := lm_memStat lm + of_nat (arrSzMap ! i)\<rparr>, cp))"

text \<open>The end of a thread (\<open>~LocalMap\<close>): everything goes back.\<close>

primrec release_all :: "nat list \<Rightarrow> LocalMap \<Rightarrow> CachePool \<Rightarrow> (LocalMap \<times> CachePool) option" where
  "release_all [] lm cp = Some (lm, cp)"
| "release_all (i # js) lm cp =
     (case BatchRelease i (lm_capacity lm ! i) (lm_arrVctByte lm ! i) True cp of
        None \<Rightarrow> None
      | Some (vct, cp) \<Rightarrow> release_all js (lm\<lparr>lm_arrVctByte := (lm_arrVctByte lm)[i := vct]\<rparr>) cp)"

definition LocalMap_delete :: "LocalMap \<Rightarrow> CachePool \<Rightarrow> (LocalMap \<times> CachePool) option" where
  "LocalMap_delete lm cp = release_all [0..<28] lm cp"

section \<open>Blocks of any size\<close>

text \<open>Where a large block comes from, and how it is given back.\<close>

datatype Source = AlignedAlloc | NewArray

definition MallocLargeBlock :: "u32 \<Rightarrow> Source" where
  "MallocLargeBlock bufsize = (if bufsize AND 0x3FFF = 0 then AlignedAlloc else NewArray)"

definition FreeLargeBlock :: "u32 \<Rightarrow> Source" where
  "FreeLargeBlock bufsize = (if bufsize AND 0xFFF = 0 then AlignedAlloc else NewArray)"

text \<open>A block is an element of size class \<open>pos\<close>, or large. The second result is the actual size.\<close>

datatype Block = Element nat u64 | Large Source u64

definition CachePool_Apply ::
  "(u64 list \<Rightarrow> u64) \<Rightarrow> u64 \<Rightarrow> u32 \<Rightarrow> u64 list \<Rightarrow> LocalMap \<Rightarrow> CachePool \<Rightarrow> (Block \<times> u32 \<times> u64 list \<times> LocalMap \<times> CachePool) option" where
  "CachePool_Apply first large bufSize os lm cp =
     (let pos = CalcBufSize bufSize in
      if pos = 0xFFFFFFFF then Some (Large (MallocLargeBlock bufSize) large, bufSize, os, lm, cp)
      else map_option (\<lambda>(bys, os, lm, cp). (Element (unat pos) bys, of_nat (arrSzMap ! unat pos), os, lm, cp))
             (LocalMap_Pop first (ucast pos) os lm cp))"

definition CachePool_Release :: "u64 \<Rightarrow> u32 \<Rightarrow> LocalMap \<Rightarrow> CachePool \<Rightarrow> (LocalMap \<times> CachePool) option" where
  "CachePool_Release pBuf bufSize lm cp =
     (let pos = CalcBufSize bufSize in
      if pos = 0xFFFFFFFF then Some (lm, cp) else LocalMap_Push pBuf (ucast pos) lm cp)"

definition ApplyPage :: "(u64 list \<Rightarrow> u64) \<Rightarrow> u64 list \<Rightarrow> LocalMap \<Rightarrow> CachePool \<Rightarrow> (u64 \<times> u64 list \<times> LocalMap \<times> CachePool) option" where
  "ApplyPage first os lm cp = LocalMap_Pop first (of_nat PAGE_POS) os lm cp"

definition ReleasePage :: "u64 \<Rightarrow> LocalMap \<Rightarrow> CachePool \<Rightarrow> (LocalMap \<times> CachePool) option" where
  "ReleasePage page lm cp = LocalMap_Push page (of_nat PAGE_POS) lm cp"

section \<open>Properties of the sizes\<close>

text \<open>The sizes grow in five segments of constant width.\<close>

lemma arrSzMap_segments:
  "k < 4 \<Longrightarrow> arrSzMap ! k = Suc k * 16 \<and> (k \<noteq> 0 \<longrightarrow> arrSzMap ! (k - 1) = k * 16)"
  "2 \<le> k \<Longrightarrow> k < 8 \<Longrightarrow> arrSzMap ! (k + 2) = Suc k * 32 \<and> arrSzMap ! (k + 1) = k * 32"
  "2 \<le> k \<Longrightarrow> k < 8 \<Longrightarrow> arrSzMap ! (k + 8) = Suc k * 128 \<and> arrSzMap ! (k + 7) = k * 128"
  "2 \<le> k \<Longrightarrow> k < 8 \<Longrightarrow> arrSzMap ! (k + 14) = Suc k * 512 \<and> arrSzMap ! (k + 13) = k * 512"
  "2 \<le> k \<Longrightarrow> k < 8 \<Longrightarrow> arrSzMap ! (k + 20) = Suc k * 2048 \<and> arrSzMap ! (k + 19) = k * 2048"
proof -
  have "k \<in> {0, 1, 2, 3}" if "k < 4" using that by auto
  then show "k < 4 \<Longrightarrow> arrSzMap ! k = Suc k * 16 \<and> (k \<noteq> 0 \<longrightarrow> arrSzMap ! (k - 1) = k * 16)"
    by (auto simp: arrSzMap_def)
  assume "2 \<le> k" "k < 8"
  then have "k \<in> {2, 3, 4, 5, 6, 7}" by auto
  then show "arrSzMap ! (k + 2) = Suc k * 32 \<and> arrSzMap ! (k + 1) = k * 32" "arrSzMap ! (k + 8) = Suc k * 128 \<and> arrSzMap ! (k + 7) = k * 128"
    "arrSzMap ! (k + 14) = Suc k * 512 \<and> arrSzMap ! (k + 13) = k * 512" "arrSzMap ! (k + 20) = Suc k * 2048 \<and> arrSzMap ! (k + 19) = k * 2048"
    by (auto simp: arrSzMap_def)
qed

lemma unat_drop_pred:
  assumes "sz \<noteq> 0"
  shows "unat (drop_bit n ((sz :: u32) - 1)) = (unat sz - 1) div 2 ^ n"
proof -
  have "unat sz - 1 < 2 ^ 32" using unsigned_less [of sz, where ?'a = nat] by simp
  then have "take_bit 32 (unat sz - 1) = unat sz - 1" by (simp add: take_bit_nat_eq_self)
  then show ?thesis using assms by (simp add: unsigned_drop_bit_eq unat_minus_one) (simp add: drop_bit_eq_div)
qed

lemma div_bounds:
  fixes n w :: nat
  assumes "0 < n"
  shows "(n - 1) div w * w < n" "0 < w \<Longrightarrow> n \<le> Suc ((n - 1) div w) * w"
proof -
  have "(n - 1) div w * w \<le> n - 1" by (rule div_times_less_eq_dividend)
  then show "(n - 1) div w * w < n" using assms by linarith
  show "n \<le> Suc ((n - 1) div w) * w" if "0 < w"
    using dividend_less_times_div [OF that, of "n - 1"] by (simp add: mult.commute)
qed

lemma CalcBufSize_unat:
  assumes "sz \<noteq> 0" "unat sz \<le> 16384"
  shows "\<exists>w. unat (CalcBufSize sz) < 28 \<and> 0 < w \<and> arrSzMap ! unat (CalcBufSize sz) = Suc ((unat sz - 1) div w) * w \<and>
    (CalcBufSize sz \<noteq> 0 \<longrightarrow> arrSzMap ! (unat (CalcBufSize sz) - 1) = (unat sz - 1) div w * w)"
proof -
  let ?n = "unat sz"
  note u = unat_drop_pred [OF assms(1)]
  have n: "0 < ?n" using assms(1) by (simp add: unat_gt_0)
  consider "?n \<le> 64" | "64 < ?n" "?n \<le> 256" | "256 < ?n" "?n \<le> 1024" | "1024 < ?n" "?n \<le> 4096" | "4096 < ?n" using assms(2) by linarith
  then show ?thesis
  proof cases
    case 1
    then have c: "unat (CalcBufSize sz) = (?n - 1) div 16" using u [of 4] by (simp add: CalcBufSize_def word_le_nat_alt)
    moreover have "(?n - 1) div 16 < 4" using 1 n by simp
    ultimately show ?thesis using arrSzMap_segments(1) [of "(?n - 1) div 16"] c
      by (intro exI [of _ 16]) (auto simp: unat_eq_zero [symmetric])
  next
    case 2
    then have k: "2 \<le> (?n - 1) div 32" "(?n - 1) div 32 < 8" by auto
    have c: "unat (CalcBufSize sz) = (?n - 1) div 32 + 2" using u [of 5] 2 k by (simp add: CalcBufSize_def word_le_nat_alt unat_word_ariths)
    then show ?thesis using arrSzMap_segments(2) [OF k] k by (intro exI [of _ 32]) (simp add: add.commute)
  next
    case 3
    then have k: "2 \<le> (?n - 1) div 128" "(?n - 1) div 128 < 8" by auto
    have c: "unat (CalcBufSize sz) = (?n - 1) div 128 + 8" using u [of 7] 3 k by (simp add: CalcBufSize_def word_le_nat_alt unat_word_ariths)
    then show ?thesis using arrSzMap_segments(3) [OF k] k by (intro exI [of _ 128]) (simp add: add.commute)
  next
    case 4
    then have k: "2 \<le> (?n - 1) div 512" "(?n - 1) div 512 < 8" by auto
    have c: "unat (CalcBufSize sz) = (?n - 1) div 512 + 14" using u [of 9] 4 k by (simp add: CalcBufSize_def word_le_nat_alt unat_word_ariths)
    then show ?thesis using arrSzMap_segments(4) [OF k] k by (intro exI [of _ 512]) (simp add: add.commute)
  next
    case 5
    then have k: "2 \<le> (?n - 1) div 2048" "(?n - 1) div 2048 < 8" using assms(2) by auto
    have c: "unat (CalcBufSize sz) = (?n - 1) div 2048 + 20" using u [of 11] 5 k assms(2) by (simp add: CalcBufSize_def word_le_nat_alt unat_word_ariths)
    then show ?thesis using arrSzMap_segments(5) [OF k] k by (intro exI [of _ 2048]) (simp add: add.commute)
  qed
qed

text \<open>
  \<open>CalcBufSize\<close> picks the smallest size that is large enough: for every request of 1 to 16384 bytes the index is one of the 28,
  its size is at least the request, and the next smaller size is too small; a larger request is a large block.
\<close>

theorem CalcBufSize_best:
  assumes "sz \<noteq> 0"
  shows "if sz \<le> 16384
    then CalcBufSize sz < 28 \<and> unat sz \<le> arrSzMap ! unat (CalcBufSize sz) \<and>
      (CalcBufSize sz = 0 \<or> arrSzMap ! (unat (CalcBufSize sz) - 1) < unat sz)
    else CalcBufSize sz = 0xFFFFFFFF"
proof (cases "sz \<le> 16384")
  case True
  then have n: "unat sz \<le> 16384" by (simp add: word_le_nat_alt)
  obtain w where k: "unat (CalcBufSize sz) < 28" "0 < w" "arrSzMap ! unat (CalcBufSize sz) = Suc ((unat sz - 1) div w) * w"
    "CalcBufSize sz \<noteq> 0 \<longrightarrow> arrSzMap ! (unat (CalcBufSize sz) - 1) = (unat sz - 1) div w * w"
    using CalcBufSize_unat [OF assms n] by blast
  have "0 < unat sz" using assms by (simp add: unat_gt_0)
  then show ?thesis using True k div_bounds [of "unat sz" w] by (auto simp: word_less_nat_alt)
next
  case False
  then have "\<not> sz \<le> 4096" "\<not> sz \<le> 1024" "\<not> sz \<le> 256" "\<not> sz \<le> 64" by (auto simp: word_le_nat_alt)
  then show ?thesis using False by (simp add: CalcBufSize_def)
qed

theorem CalcBufSize_best_witness:
  "CalcBufSize 385 < 28 \<and> 385 \<le> arrSzMap ! unat (CalcBufSize 385) \<and>
   (CalcBufSize 385 = 0 \<or> arrSzMap ! (unat (CalcBufSize 385) - 1) < 385)"
  using CalcBufSize_best [of 385] by simp

end
