(* ===== verification/Buffer_Safe.thy ===== *)
theory Buffer_Safe
  imports Buffer_Pool "HOL-Library.Multiset"
begin

text \<open>
  No element of memory is given to two owners. The blocks of a pool are the elements of its buffers; at every moment each of them is
  either free in its buffer or with exactly one owner (the vector of a thread, or the program). Release finds the buffer of an element by
  the distance of their addresses, which is right as long as no two buffers lie exactly one buffer size apart in the sense of XOR
  (\<open>apart\<close>); without this, it is wrong (\<open>Buffer_Release_sibling\<close>).
\<close>

section \<open>Addresses\<close>

definition base_ok :: "u64 \<Rightarrow> bool" where
  "base_ok a \<longleftrightarrow> take_bit 17 a = 0"

definition size_ok :: "nat \<Rightarrow> bool" where
  "size_ok s \<longleftrightarrow> s \<in> set arrSzMap"

lemma size_ok_bounds: "size_ok s \<Longrightarrow> 16 \<le> s \<and> s \<le> 16384"
  by (auto simp: size_ok_def arrSzMap_def)

lemma length_arrSzMap [simp]: "length arrSzMap = 28"
  by (simp add: arrSzMap_def)

lemma size_ok_nth: "p < 28 \<Longrightarrow> size_ok (arrSzMap ! p)"
  by (simp add: size_ok_def)

lemma masks: "BUFFER_MASK = mask 17" "BUFFER_MASK_N = NOT (mask 17)" "CacheBlockSize = push_bit 17 1"
  by (simp_all add: BUFFER_MASK_def BUFFER_MASK_N_def CacheBlockSize_def mask_eq_exp_minus_1)

definition buf_ok :: "nat \<Rightarrow> Buffer \<Rightarrow> bool" where
  "buf_ok s b \<longleftrightarrow> base_ok (bf_pBuf b) \<and> unat (bf_eleSize b) = s \<and> unat (bf_maxEle b) = 131072 div s \<and>
     distinct (bf_vctFree b) \<and> (\<forall>i \<in> set (bf_vctFree b). unat i < 131072 div s)"

text \<open>An element inside its buffer: the offset has no carry into the base.\<close>

lemma offset_bound:
  assumes "i < 131072 div s"
  shows "s * i + s \<le> (131072 :: nat)"
proof -
  have "s * Suc i \<le> s * (131072 div s)" using assms by (intro mult_le_mono2) simp
  also have "\<dots> \<le> 131072" by (rule times_div_less_eq_dividend)
  finally show ?thesis by simp
qed

lemma unat_ucast16: "unat (ucast (z :: u16) :: u64) = unat z"
  by (simp add: unsigned_ucast_eq take_bit_nat_eq_self order_less_le_trans [OF unsigned_less])

lemma ele_offset:
  assumes "size_ok s" "unat (z :: u16) = s" "unat (i :: u16) < 131072 div s"
  shows "unat (ucast z * ucast i :: u64) = s * unat i" "s * unat i < 131072"
proof -
  show b: "s * unat i < 131072" using offset_bound [OF assms(3)] size_ok_bounds [OF assms(1)] by linarith
  show "unat (ucast z * ucast i :: u64) = s * unat i" using b assms(2) by (simp add: unat_word_ariths unat_ucast16)
qed

lemma base_add:
  assumes "base_ok a" "unat k < 131072"
  shows "take_bit 17 (a + k) = k" "(a + k) AND NOT (mask 17) = a" "unat (a + k) = unat a + unat k"
proof -
  have k: "take_bit 17 k = k" using assms(2) by (simp add: word_unat_eq_iff unsigned_take_bit_eq take_bit_nat_eq_self)
  have "a AND k = 0"
    using assms(1) k by (auto simp: base_ok_def bit_eq_iff bit_simps)
  then have o: "a + k = a OR k" by (rule disjunctive_add_eq_or)
  show "take_bit 17 (a + k) = k" using assms(1) by (simp add: o base_ok_def k)
  show "(a + k) AND NOT (mask 17) = a"
    using assms(1) k by (auto simp: o base_ok_def bit_eq_iff bit_simps)
  have "take_bit 17 (unat a) = 0" using arg_cong [OF assms(1) [unfolded base_ok_def], of unat] by (simp only: unsigned_take_bit_eq unsigned_0)
  then have "unat a mod 131072 = 0" by (simp add: take_bit_eq_mod)
  moreover have "unat a < 2 ^ 64" using unsigned_less [of a, where ?'a = nat] by simp
  ultimately have "unat a + unat k < 2 ^ 64" using assms(2) by (auto elim!: dvdE simp: mod_eq_0_iff_dvd)
  then show "unat (a + k) = unat a + unat k" by (simp add: unat_word_ariths)
qed

text \<open>The distance of an element to a buffer.\<close>

lemma base_xor:
  assumes a: "base_ok a" "unat k < 131072" and b: "base_ok b"
  shows "CacheBlockSize < (a + k) XOR b \<longleftrightarrow> a \<noteq> b \<and> \<not> (a XOR b = CacheBlockSize \<and> k = 0)"
proof -
  let ?d = "drop_bit 17 a XOR drop_bit 17 b"
  have tk: "take_bit 17 ((a + k) XOR b) = k" using base_add(1) [OF a] b by (simp add: base_ok_def)
  have k: "take_bit 17 k = k" using a(2) by (simp add: word_unat_eq_iff unsigned_take_bit_eq take_bit_nat_eq_self)
  have "drop_bit 17 ((a + k) AND NOT (mask 17)) = drop_bit 17 (a + k)"
    by (auto simp: bit_eq_iff bit_simps dest: bit_imp_le_length)
  then have dr: "drop_bit 17 ((a + k) XOR b) = ?d" by (simp add: base_add(2) [OF a])
  have recon: "unat x = 131072 * unat (drop_bit 17 x) + unat (take_bit 17 x)" for x :: u64
  proof -
    have "unat x = 131072 * (unat x div 131072) + unat x mod 131072" by simp
    moreover have "unat (drop_bit 17 x) = unat x div 131072"
      using unsigned_less [of x, where ?'a = nat] by (simp only: unsigned_drop_bit_eq) (simp add: drop_bit_eq_div take_bit_nat_eq_self)
    moreover have "unat (take_bit 17 x) = unat x mod 131072" by (simp only: unsigned_take_bit_eq) (simp add: take_bit_eq_mod)
    ultimately show ?thesis by simp
  qed
  have u: "unat ((a + k) XOR b) = 131072 * unat ?d + unat k" using recon [of "(a + k) XOR b"] unfolding tk dr .
  have v: "unat (a XOR b) = 131072 * unat ?d" using recon [of "a XOR b"] a(1) b by (simp add: base_ok_def)
  have "a XOR b = 0 \<longleftrightarrow> a = b" by (auto simp: bit_eq_iff bit_simps)
  moreover have "a XOR b = 0 \<longleftrightarrow> unat ?d = 0" unfolding unat_eq_zero [symmetric, of "a XOR b"] v by simp
  ultimately have e: "a = b \<longleftrightarrow> unat ?d = 0" by simp
  have "a XOR b = CacheBlockSize \<longleftrightarrow> unat ?d = 1" by (simp add: word_unat_eq_iff v CacheBlockSize_def)
  moreover have "CacheBlockSize < (a + k) XOR b \<longleftrightarrow> 131072 < 131072 * unat ?d + unat k"
    by (simp add: word_less_nat_alt u CacheBlockSize_def)
  ultimately show ?thesis using a(2) e unat_eq_zero [of k] by (cases "unat ?d = 0"; cases "unat ?d = 1") auto
qed

text \<open>What the code computes from the address of an element.\<close>

lemma ele_facts:
  assumes ok: "size_ok s" "buf_ok s b" and i: "unat i < 131072 div s"
  shows "CalcAddr (ele_addr b i) = bf_pBuf b" "ele_index b (ele_addr b i) = i"
    "unat (ele_addr b i) = unat (bf_pBuf b) + s * unat i"
    "base_ok q \<Longrightarrow> CacheBlockSize < ele_addr b i XOR q \<longleftrightarrow> bf_pBuf b \<noteq> q \<and> \<not> (bf_pBuf b XOR q = CacheBlockSize \<and> unat i = 0)"
proof -
  let ?k = "ucast (bf_eleSize b) * ucast i :: u64"
  have b: "base_ok (bf_pBuf b)" "unat (bf_eleSize b) = s" using ok(2) by (auto simp: buf_ok_def)
  note k = ele_offset [OF ok(1) b(2) i]
  have k': "unat ?k < 131072" using k by simp
  have a: "ele_addr b i = bf_pBuf b + ?k" by (simp add: ele_addr_def)
  show "CalcAddr (ele_addr b i) = bf_pBuf b" unfolding a CalcAddr_def masks by (rule base_add(2) [OF b(1) k'])
  show "unat (ele_addr b i) = unat (bf_pBuf b) + s * unat i" unfolding a base_add(3) [OF b(1) k'] k(1) ..
  have s: "0 < s" using size_ok_bounds [OF ok(1)] by simp
  have "unat (ucast (bf_eleSize b) :: u64) = s" using b(2) by (simp add: unat_ucast16)
  moreover have "ele_addr b i AND BUFFER_MASK = ?k" unfolding a masks take_bit_eq_mask [symmetric] by (rule base_add(1) [OF b(1) k'])
  ultimately have "unat ((ele_addr b i AND BUFFER_MASK) div ucast (bf_eleSize b)) = unat i" using k(1) s by (simp add: unat_div_distrib)
  moreover have "unat i < 2 ^ 16" using unsigned_less [of i, where ?'a = nat] by simp
  ultimately show "ele_index b (ele_addr b i) = i"
    by (simp add: ele_index_def word_unat_eq_iff unsigned_ucast_eq take_bit_nat_eq_self)
  show "CacheBlockSize < ele_addr b i XOR q \<longleftrightarrow> bf_pBuf b \<noteq> q \<and> \<not> (bf_pBuf b XOR q = CacheBlockSize \<and> unat i = 0)" if q: "base_ok q"
  proof -
    have "?k = 0 \<longleftrightarrow> unat i = 0" using k(1) s by (metis mult_eq_0_iff not_gr_zero unat_eq_zero)
    then show ?thesis unfolding a using base_xor [OF b(1) k' q] by simp
  qed
qed

section \<open>One buffer\<close>

text \<open>The elements of a buffer that are with an owner.\<close>

definition taken :: "nat \<Rightarrow> Buffer \<Rightarrow> u64 set" where
  "taken s b = ele_addr b ` {i. unat i < 131072 div s \<and> i \<notin> set (bf_vctFree b)}"

lemma ele_addr_free: "ele_addr (b\<lparr>bf_vctFree := fr\<rparr>) = ele_addr b" "ele_index (b\<lparr>bf_vctFree := fr\<rparr>) = ele_index b"
  by (simp_all add: ele_addr_def ele_index_def fun_eq_iff)

lemma taken_facts:
  assumes "size_ok s" "buf_ok s b" "x \<in> taken s b"
  shows "CalcAddr x = bf_pBuf b" "unat (ele_index b x) < 131072 div s" "ele_index b x \<notin> set (bf_vctFree b)" "ele_addr b (ele_index b x) = x"
    "base_ok q \<Longrightarrow> bf_pBuf b XOR q \<noteq> CacheBlockSize \<Longrightarrow> CacheBlockSize < x XOR q \<longleftrightarrow> bf_pBuf b \<noteq> q"
proof -
  obtain i where i: "unat i < 131072 div s" "i \<notin> set (bf_vctFree b)" "x = ele_addr b i" using assms(3) by (auto simp: taken_def)
  note e = ele_facts [OF assms(1,2) i(1)]
  show "CalcAddr x = bf_pBuf b" "unat (ele_index b x) < 131072 div s" "ele_index b x \<notin> set (bf_vctFree b)" "ele_addr b (ele_index b x) = x"
    using e i by simp_all
  show "base_ok q \<Longrightarrow> bf_pBuf b XOR q \<noteq> CacheBlockSize \<Longrightarrow> CacheBlockSize < x XOR q \<longleftrightarrow> bf_pBuf b \<noteq> q" using e(4) i by simp
qed

lemma taken_new: "taken s (Buffer_Init sz b) = {}" if "unat (bf_maxEle (Buffer_Init sz b)) = 131072 div s"
proof -
  let ?m = "bf_maxEle (Buffer_Init sz b)"
  have "bf_vctFree (Buffer_Init sz b) = map of_nat [0..<unat ?m]" by (simp add: Buffer_Init_def Let_def)
  then have "i \<in> set (bf_vctFree (Buffer_Init sz b))" if "unat i < unat ?m" for i
    using that by (auto intro!: image_eqI [of _ _ "unat i"])
  then show ?thesis using that by (auto simp: taken_def)
qed

lemma buf_ok_init:
  assumes "size_ok s" "base_ok (bf_pBuf b)"
  shows "buf_ok s (Buffer_Init (of_nat s) b)" "bf_vctFree (Buffer_Init (of_nat s) b) \<noteq> []" "taken s (Buffer_Init (of_nat s) b) = {}"
    "bf_pBuf (Buffer_Init (of_nat s) b) = bf_pBuf b"
proof -
  have s: "16 \<le> s" "s \<le> 16384" using size_ok_bounds [OF assms(1)] by auto
  have u: "unat (of_nat s :: u16) = s" "unat (ucast (of_nat s :: u16) :: u32) = s"
    using s by (simp_all add: unat_of_nat unsigned_ucast_eq take_bit_nat_eq_self)
  have d: "131072 div s \<le> 8192" using s(1) div_le_mono2 [of 16 s 131072] by simp
  then have m: "unat (bf_maxEle (Buffer_Init (of_nat s) b)) = 131072 div s"
    using s(2) by (simp add: Buffer_Init_def Let_def CacheBlockSize_def unsigned_ucast_eq unat_div_distrib u take_bit_nat_eq_self)
  have v: "bf_vctFree (Buffer_Init (of_nat s) b) = map of_nat [0..<131072 div s]"
    by (simp add: Buffer_Init_def Let_def flip: m)
  have n: "unat (of_nat i :: u16) = i" if "i < 131072 div s" for i using that d by (simp add: unat_of_nat)
  have "distinct (map (of_nat :: nat \<Rightarrow> u16) [0..<131072 div s])"
    by (auto simp: distinct_map inj_on_def dest: arg_cong [of _ _ unat] simp: n)
  then show "buf_ok s (Buffer_Init (of_nat s) b)" unfolding buf_ok_def v m
    using assms(2) u(1) by (auto simp: n) (simp_all add: Buffer_Init_def Let_def u)
  have "0 < 131072 div s" using s by (simp add: div_greater_zero_iff)
  then show "bf_vctFree (Buffer_Init (of_nat s) b) \<noteq> []" by (simp add: v)
  show "taken s (Buffer_Init (of_nat s) b) = {}" by (rule taken_new [OF m])
  show "bf_pBuf (Buffer_Init (of_nat s) b) = bf_pBuf b" by (simp add: Buffer_Init_def Let_def)
qed

lemma buffer_apply_loop_split:
  "buffer_apply_loop cap vct b = (vct', b') \<Longrightarrow>
     \<exists>N fr. vct' = vct @ map (ele_addr b) N \<and> b' = b\<lparr>bf_vctFree := fr\<rparr> \<and> bf_vctFree b = fr @ rev N"
proof (induction cap vct b rule: buffer_apply_loop.induct)
  case (1 cap vct b)
  show ?case
  proof (cases "length vct < fill_to cap \<and> \<not> Buffer_IsEmpty b")
    case True
    let ?b = "b\<lparr>bf_vctFree := butlast (bf_vctFree b)\<rparr>" and ?i = "last (bf_vctFree b)"
    have "buffer_apply_loop cap (vct @ [ele_addr b ?i]) ?b = (vct', b')"
      using 1(2) True by (subst (asm) buffer_apply_loop.simps) simp
    then obtain N fr where "vct' = (vct @ [ele_addr b ?i]) @ map (ele_addr ?b) N" "b' = ?b\<lparr>bf_vctFree := fr\<rparr>"
      "bf_vctFree ?b = fr @ rev N" using 1(1) True by blast
    moreover have "bf_vctFree b = butlast (bf_vctFree b) @ [?i]" using True by (simp add: Buffer_IsEmpty_def)
    ultimately show ?thesis by (intro exI [of _ "?i # N"] exI [of _ fr]) (simp add: ele_addr_free)
  next
    case False
    then show ?thesis using 1(2) by (subst (asm) buffer_apply_loop.simps) (auto intro: exI [of _ "[]"] exI [of _ "bf_vctFree b"])
  qed
qed

lemma Buffer_Apply_spec:
  assumes ok: "size_ok s" "buf_ok s b" and a: "Buffer_Apply cap vct b = Some (vct', b')"
  shows "\<exists>X. vct' = vct @ X \<and> distinct X \<and> set X \<inter> taken s b = {} \<and> taken s b' = taken s b \<union> set X \<and> buf_ok s b' \<and> bf_pBuf b' = bf_pBuf b"
proof -
  obtain N fr where N: "vct' = vct @ map (ele_addr b) N" "b' = b\<lparr>bf_vctFree := fr\<rparr>" "bf_vctFree b = fr @ rev N"
    using a buffer_apply_loop_split [of cap vct b] by (auto simp: Buffer_Apply_def split: if_splits)
  have v: "\<forall>i \<in> set fr \<union> set N. unat i < 131072 div s" "distinct (fr @ rev N)" using ok(2) by (auto simp: buf_ok_def N(3))
  have inv: "ele_index b (ele_addr b i) = i" if "unat i < 131072 div s" for i by (rule ele_facts(2) [OF ok that])
  have "distinct (map (ele_addr b) N)" using v by (auto simp: distinct_map inj_on_def) (metis UnCI inv)
  moreover have "set (map (ele_addr b) N) \<inter> taken s b = {}"
    using v by (auto simp: taken_def N(3)) (metis UnCI inv)
  moreover have "taken s b' = taken s b \<union> set (map (ele_addr b) N)"
    using v by (auto simp: taken_def N(2,3) ele_addr_free)
  moreover have "buf_ok s b'" using ok(2) v by (simp add: buf_ok_def N(2))
  ultimately show ?thesis by (intro exI [of _ "map (ele_addr b) N"]) (simp add: N(1,2))
qed

text \<open>What the release loop takes out of the vector: elements of this buffer, and the first one if it is of this buffer.\<close>

lemma buffer_release_loop_split:
  "buffer_release_loop cap i vct b = (vct', b') \<Longrightarrow> i \<le> length vct \<Longrightarrow>
     \<exists>X. mset vct = mset vct' + mset X \<and> b' = b\<lparr>bf_vctFree := bf_vctFree b @ map (ele_index b) X\<rparr> \<and>
       (\<forall>x \<in> set X. \<not> CacheBlockSize < x XOR bf_pBuf b) \<and> (i \<noteq> 0 \<longrightarrow> \<not> CacheBlockSize < vct ! 0 XOR bf_pBuf b \<longrightarrow> X \<noteq> [])"
proof (induction i arbitrary: vct b)
  case 0
  then show ?case by (auto intro: exI [of _ "[]"])
next
  case (Suc i)
  let ?x = "vct ! i" and ?v = "take i vct @ drop (Suc i) vct" and ?b = "Buffer_ReleaseOne (vct ! i) b"
  show ?case
  proof (cases "CacheBlockSize < ?x XOR bf_pBuf b")
    case True
    then have "buffer_release_loop cap i vct b = (vct', b')" using Suc.prems(1) by (simp add: Let_def)
    then show ?thesis using Suc.IH [of vct b] Suc.prems(2) True by (cases i) auto
  next
    case False
    have "vct = take i vct @ ?x # drop (Suc i) vct" using Suc.prems(2) by (simp add: id_take_nth_drop)
    then have m: "mset vct = add_mset ?x (mset ?v)" by (metis mset.simps(2) mset_append union_mset_add_mset_right)
    have b: "?b = b\<lparr>bf_vctFree := bf_vctFree b @ [ele_index b ?x]\<rparr>" by (simp add: Buffer_ReleaseOne_def)
    show ?thesis
    proof (cases "length ?v = cap")
      case True
      then have "vct' = ?v" "b' = ?b" using Suc.prems(1) False by (simp_all add: Let_def)
      then show ?thesis using False m b by (intro exI [of _ "[?x]"]) auto
    next
      case more: False
      have l: "i \<le> length ?v" using Suc.prems(2) by simp
      have "buffer_release_loop cap i ?v ?b = (vct', b')" using more Suc.prems(1) False by (simp add: Let_def)
      then obtain X where "mset ?v = mset vct' + mset X" "b' = ?b\<lparr>bf_vctFree := bf_vctFree ?b @ map (ele_index ?b) X\<rparr>"
        "\<forall>x \<in> set X. \<not> CacheBlockSize < x XOR bf_pBuf ?b" using Suc.IH [of ?v ?b] l by blast
      then show ?thesis using False m b by (intro exI [of _ "?x # X"]) (auto simp: ele_addr_free)
    qed
  qed
qed

lemma Buffer_Release_spec:
  assumes ok: "size_ok s" "buf_ok s b" and v: "distinct vct" "vct \<noteq> []" "vct ! 0 \<in> taken s b"
    and near: "\<And>x. x \<in> set vct \<Longrightarrow> \<not> CacheBlockSize < x XOR bf_pBuf b \<Longrightarrow> x \<in> taken s b"
    and r: "Buffer_Release bAll cap vct b = (vct', b')"
  shows "\<exists>X. mset vct = mset vct' + mset X \<and> X \<noteq> [] \<and> set X \<subseteq> taken s b \<and> taken s b' = taken s b - set X \<and> buf_ok s b' \<and>
    bf_pBuf b' = bf_pBuf b \<and> bf_vctFree b' \<noteq> []"
proof -
  have b: "base_ok (bf_pBuf b)" using ok(2) by (simp add: buf_ok_def)
  have n: "\<not> CacheBlockSize < vct ! 0 XOR bf_pBuf b" using taken_facts(5) [OF ok v(3) b] by (simp add: CacheBlockSize_def)
  obtain X where X: "mset vct = mset vct' + mset X" "b' = b\<lparr>bf_vctFree := bf_vctFree b @ map (ele_index b) X\<rparr>" "X \<noteq> []"
    "\<forall>x \<in> set X. \<not> CacheBlockSize < x XOR bf_pBuf b"
    using buffer_release_loop_split [of "drain_to bAll cap" "length vct" vct b vct' b'] r v(2) n by (auto simp: Buffer_Release_def)
  have "set X \<subseteq> set vct" using arg_cong [OF X(1), of set_mset] by auto
  then have t: "set X \<subseteq> taken s b" using X(4) near by blast
  note f = taken_facts [OF ok]
  have "distinct vct' \<and> distinct X" using v(1) X(1) by (metis distinct_append mset_append mset_eq_imp_distinct_iff)
  then have "distinct X" ..
  then have "distinct (map (ele_index b) X)" using t f(4) by (auto simp: distinct_map inj_on_def) (metis subsetD)
  then have "buf_ok s b'" using ok(2) t f(2,3) by (fastforce simp: buf_ok_def X(2))
  moreover have "taken s b' = taken s b - set X"
  proof -
    have "i \<in> ele_index b ` set X \<longleftrightarrow> ele_addr b i \<in> set X" if "unat i < 131072 div s" for i
      using ele_facts(2) [OF ok that] t f(4) by force
    then show ?thesis by (auto simp: taken_def X(2) ele_addr_free)
  qed
  ultimately show ?thesis using X(1,3) t by (auto simp: X(2))
qed

text \<open>A complete buffer has no element outside.\<close>

lemma full_not_taken:
  assumes "size_ok s" "buf_ok s b" "Buffer_IsFull b"
  shows "taken s b = {}"
proof -
  let ?F = "unat ` set (bf_vctFree b)"
  have d: "distinct (bf_vctFree b)" "\<forall>i \<in> set (bf_vctFree b). unat i < 131072 div s" "length (bf_vctFree b) = 131072 div s"
    using assms(2,3) by (auto simp: buf_ok_def Buffer_IsFull_def)
  have "inj_on unat (set (bf_vctFree b))" by (rule inj_onI) (simp add: word_unat_eq_iff)
  then have "card ?F = 131072 div s" using d(1,3) by (simp add: card_image distinct_card)
  then have "?F = {..<131072 div s}" using d(2) by (intro card_subset_eq) auto
  then have "i \<in> set (bf_vctFree b)" if "unat i < 131072 div s" for i using that by (metis imageE lessThan_iff word_unat_eq_iff)
  then show ?thesis by (auto simp: taken_def)
qed

section \<open>A pool\<close>

text \<open>\<open>pool_ok s bp Out\<close>: the pool of size \<open>s\<close> is well formed and its elements outside are \<open>Out\<close>.\<close>

definition pool_ok :: "nat \<Rightarrow> BufferPool \<Rightarrow> u64 set \<Rightarrow> bool" where
  "pool_ok s bp Out \<longleftrightarrow> size_ok s \<and> bp_eleSize bp = of_nat s \<and>
     (\<forall>k b. bp_mapBuffer bp k = Some b \<longrightarrow> buf_ok s b \<and> bf_pBuf b = k) \<and>
     (\<forall>k. k \<in> set (bp_mapFreeBuffer bp) \<longleftrightarrow> (\<exists>b. bp_mapBuffer bp k = Some b \<and> bf_vctFree b \<noteq> [])) \<and>
     (\<forall>x. x \<in> Out \<longleftrightarrow> (\<exists>k b. bp_mapBuffer bp k = Some b \<and> x \<in> taken s b))"

lemma pool_okD:
  assumes "pool_ok s bp Out"
  shows "size_ok s" "bp_eleSize bp = of_nat s" "\<And>k b. bp_mapBuffer bp k = Some b \<Longrightarrow> buf_ok s b \<and> bf_pBuf b = k"
    "\<And>k. k \<in> set (bp_mapFreeBuffer bp) \<longleftrightarrow> (\<exists>b. bp_mapBuffer bp k = Some b \<and> bf_vctFree b \<noteq> [])"
    "\<And>x. x \<in> Out \<longleftrightarrow> (\<exists>k b. bp_mapBuffer bp k = Some b \<and> x \<in> taken s b)"
  using assms by (auto simp: pool_ok_def)

lemma pool_element:
  assumes ok: "pool_ok s bp Out" and x: "x \<in> Out"
  shows "\<exists>b. bp_mapBuffer bp (CalcAddr x) = Some b \<and> x \<in> taken s b \<and> buf_ok s b \<and> bf_pBuf b = CalcAddr x"
proof -
  obtain k b where k: "bp_mapBuffer bp k = Some b" "x \<in> taken s b" using x pool_okD(5) [OF ok] by blast
  then show ?thesis using pool_okD(3) [OF ok k(1)] taken_facts(1) [OF pool_okD(1) [OF ok] _ k(2)] by auto
qed

text \<open>Replacing a buffer of the pool.\<close>

lemma pool_ok_update:
  assumes ok: "pool_ok s bp Out" and b: "buf_ok s b" "bf_pBuf b = k"
    and fr: "\<And>j. j \<in> set frees \<longleftrightarrow> (if j = k then bf_vctFree b \<noteq> [] else j \<in> set (bp_mapFreeBuffer bp))"
    and out: "\<And>x. x \<in> Out' \<longleftrightarrow> (if CalcAddr x = k then x \<in> taken s b else x \<in> Out)"
  shows "pool_ok s (bp\<lparr>bp_mapBuffer := (bp_mapBuffer bp)(k \<mapsto> b), bp_mapFreeBuffer := frees\<rparr>) Out'"
proof -
  note d = pool_okD [OF ok]
  have c: "CalcAddr x = j" if "x \<in> taken s b'" "bp_mapBuffer bp j = Some b'" for x j b'
    using taken_facts(1) [OF d(1) _ that(1)] d(3) [OF that(2)] by auto
  have c': "CalcAddr x = k" if "x \<in> taken s b" for x using taken_facts(1) [OF d(1) b(1) that] b(2) by simp
  have "x \<in> Out' \<longleftrightarrow> (\<exists>j b'. ((bp_mapBuffer bp)(k \<mapsto> b)) j = Some b' \<and> x \<in> taken s b')" for x
  proof (cases "CalcAddr x = k")
    case True
    then show ?thesis using out [of x] c [of x] by (auto split: if_splits)
  next
    case False
    then show ?thesis using out [of x] d(5) [of x] c [of x] c' [of x] by (auto split: if_splits)
  qed
  then show ?thesis unfolding pool_ok_def using d b fr by (auto split: if_splits)
qed

section \<open>A pool among the others\<close>

text \<open>
  \<open>bases bp fb R\<close>: where the buffers of the pool, the free buffers and the buffers of the other pools (\<open>R\<close>) lie. \<open>fresh\<close> is
  what is known of addresses from \<open>aligned_alloc\<close>: aligned, distinct from each other and from all live buffers. \<open>separate\<close> is more:
  that there are no siblings among them and the live buffers.
\<close>

definition bases :: "BufferPool \<Rightarrow> FreeBuffers \<Rightarrow> u64 set \<Rightarrow> u64 set" where
  "bases bp fb R = dom (bp_mapBuffer bp) \<union> bf_pBuf ` set (fb_vctFreeBuf fb) \<union> R"

definition apart :: "u64 set \<Rightarrow> bool" where
  "apart A \<longleftrightarrow> (\<forall>a \<in> A. \<forall>b \<in> A. a XOR b \<noteq> CacheBlockSize)"

definition fresh :: "u64 list \<Rightarrow> u64 set \<Rightarrow> bool" where
  "fresh os U \<longleftrightarrow> distinct os \<and> (\<forall>a \<in> set os. base_ok a \<and> a \<notin> U)"

definition separate :: "u64 list \<Rightarrow> u64 set \<Rightarrow> bool" where
  "separate os U \<longleftrightarrow> distinct os \<and> (\<forall>a \<in> set os. base_ok a \<and> a \<notin> U) \<and> apart (U \<union> set os)"

lemma separate_fresh: "separate os U \<longleftrightarrow> fresh os U \<and> apart (U \<union> set os)"
  by (auto simp: separate_def fresh_def)

definition pool_env :: "nat \<Rightarrow> BufferPool \<Rightarrow> FreeBuffers \<Rightarrow> u64 set \<Rightarrow> u64 set \<Rightarrow> bool" where
  "pool_env s bp fb R Out \<longleftrightarrow> pool_ok s bp Out \<and> distinct (map bf_pBuf (fb_vctFreeBuf fb)) \<and>
     (\<forall>b \<in> set (fb_vctFreeBuf fb). base_ok (bf_pBuf b) \<and> bp_mapBuffer bp (bf_pBuf b) = None \<and> bf_pBuf b \<notin> R) \<and>
     (\<forall>a \<in> R. bp_mapBuffer bp a = None) \<and> apart (bases bp fb R)"

definition picks :: "(u64 list \<Rightarrow> u64) \<Rightarrow> bool" where
  "picks first \<longleftrightarrow> (\<forall>xs. xs \<noteq> [] \<longrightarrow> first xs \<in> set xs)"

lemma apart_subset: "apart A \<Longrightarrow> B \<subseteq> A \<Longrightarrow> apart B"
  by (auto simp: apart_def)

lemma pool_env_apply:
  assumes env: "pool_env s bp fb R Out" and k: "bp_mapBuffer bp k = Some b" and a: "Buffer_Apply cap vct b = Some (vct', b')"
  shows "\<exists>X. vct' = vct @ X \<and> distinct X \<and> set X \<inter> Out = {} \<and>
    pool_env s (bp\<lparr>bp_mapBuffer := (bp_mapBuffer bp)(k \<mapsto> b'),
      bp_mapFreeBuffer := (if Buffer_IsEmpty b' then removeAll k (bp_mapFreeBuffer bp) else bp_mapFreeBuffer bp)\<rparr>) fb R (Out \<union> set X)"
proof -
  let ?f = "if Buffer_IsEmpty b' then removeAll k (bp_mapFreeBuffer bp) else bp_mapFreeBuffer bp"
  have ok: "pool_ok s bp Out" using env by (simp add: pool_env_def)
  note d = pool_okD [OF ok]
  have b: "buf_ok s b" "bf_pBuf b = k" using d(3) [OF k] by auto
  obtain X where X: "vct' = vct @ X" "distinct X" "set X \<inter> taken s b = {}" "taken s b' = taken s b \<union> set X" "buf_ok s b'" "bf_pBuf b' = bf_pBuf b"
    using Buffer_Apply_spec [OF d(1) b(1) a] by blast
  have ne: "bf_vctFree b \<noteq> []" using a by (auto simp: Buffer_Apply_def Buffer_IsEmpty_def split: if_splits)
  then have kf: "k \<in> set (bp_mapFreeBuffer bp)" using d(4) k by blast
  have c: "CalcAddr x = k" if "x \<in> taken s b'" for x using taken_facts(1) [OF d(1) X(5) that] X(6) b(2) by simp
  have o: "x \<in> Out \<longleftrightarrow> x \<in> taken s b" if "CalcAddr x = k" for x
    using pool_element [OF ok, of x] d(5) [of x] that k by auto
  have "pool_ok s (bp\<lparr>bp_mapBuffer := (bp_mapBuffer bp)(k \<mapsto> b'), bp_mapFreeBuffer := ?f\<rparr>) (Out \<union> set X)"
  proof (rule pool_ok_update [OF ok X(5)])
    show "bf_pBuf b' = k" using X(6) b(2) by simp
    show "j \<in> set ?f \<longleftrightarrow> (if j = k then bf_vctFree b' \<noteq> [] else j \<in> set (bp_mapFreeBuffer bp))" for j
      using kf by (auto simp: Buffer_IsEmpty_def)
    show "x \<in> Out \<union> set X \<longleftrightarrow> (if CalcAddr x = k then x \<in> taken s b' else x \<in> Out)" for x
      using o [of x] c [of x] X(4) by auto
  qed
  moreover have "set X \<inter> Out = {}" using X(3,4) c o by blast
  moreover have "bases (bp\<lparr>bp_mapBuffer := (bp_mapBuffer bp)(k \<mapsto> b'), bp_mapFreeBuffer := ?f\<rparr>) fb R = bases bp fb R"
    using k by (auto simp: bases_def)
  ultimately show ?thesis using env X(1,2) k by (intro exI [of _ X]) (auto simp: pool_env_def)
qed

text \<open>A buffer is added to a pool, from the free buffers or from the operating system.\<close>

lemma pool_env_allocate:
  assumes env: "pool_env s bp fb R Out" and os: "separate os (bases bp fb R)" and a: "AllocateBuffer (bp_eleSize bp) os fb = Some (b, os', fb')"
    and e: "bp_mapFreeBuffer bp = []"
  shows "bp_mapBuffer bp (bf_pBuf b) = None" "bf_vctFree b \<noteq> []"
    "pool_env s (bp\<lparr>bp_mapBuffer := (bp_mapBuffer bp)(bf_pBuf b \<mapsto> b), bp_mapFreeBuffer := [bf_pBuf b]\<rparr>) fb' R Out"
    "separate os' (bases (bp\<lparr>bp_mapBuffer := (bp_mapBuffer bp)(bf_pBuf b \<mapsto> b), bp_mapFreeBuffer := [bf_pBuf b]\<rparr>) fb' R)"
proof -
  let ?k = "bf_pBuf b" and ?bp = "bp\<lparr>bp_mapBuffer := (bp_mapBuffer bp)(bf_pBuf b \<mapsto> b), bp_mapFreeBuffer := [bf_pBuf b]\<rparr>"
  have ok: "pool_ok s bp Out" using env by (simp add: pool_env_def)
  note d = pool_okD [OF ok]
  have st: "base_ok ?k \<and> bp_mapBuffer bp ?k = None \<and> ?k \<notin> R \<and> buf_ok s b \<and> bf_vctFree b \<noteq> [] \<and> taken s b = {} \<and>
    distinct (map bf_pBuf (fb_vctFreeBuf fb')) \<and> set (fb_vctFreeBuf fb') \<subseteq> set (fb_vctFreeBuf fb) \<and> (\<forall>c \<in> set (fb_vctFreeBuf fb'). bf_pBuf c \<noteq> ?k) \<and>
    separate os' (insert ?k (bases bp fb' R))"
  proof (cases "fb_vctFreeBuf fb = []")
    case False
    let ?b = "last (fb_vctFreeBuf fb)"
    have l: "fb_vctFreeBuf fb = butlast (fb_vctFreeBuf fb) @ [?b]" using False by simp
    have r: "b = Buffer_Init (of_nat s) ?b" "os' = os" "fb' = fb\<lparr>fb_vctFreeBuf := butlast (fb_vctFreeBuf fb)\<rparr>"
      using a False d(2) by (auto simp: AllocateBuffer_def)
    have b: "base_ok (bf_pBuf ?b)" "bp_mapBuffer bp (bf_pBuf ?b) = None" "bf_pBuf ?b \<notin> R" using env False by (auto simp: pool_env_def)
    note i = buf_ok_init [OF d(1) b(1)]
    have dd: "distinct (map bf_pBuf (butlast (fb_vctFreeBuf fb) @ [?b]))" using env unfolding l [symmetric] by (simp add: pool_env_def)
    have "insert (bf_pBuf ?b) (bases bp fb' R) = bases bp fb R" by (subst (2) bases_def, subst l) (auto simp: bases_def r(3))
    then show ?thesis using b i dd os by (auto simp: r image_iff in_set_butlastD)
  next
    case True
    then obtain k where o: "os = k # os'" using a by (auto simp: AllocateBuffer_def split: list.splits)
    have r: "b = Buffer_new k (of_nat s)" "fb' = fb\<lparr>fb_szMemAllocated := fb_szMemAllocated fb + CacheBlockSize\<rparr>"
      using a True d(2) by (auto simp: AllocateBuffer_def o)
    let ?e = "\<lparr>bf_pBuf = k, bf_eleSize = of_nat s, bf_maxEle = 0, bf_vctFree = []\<rparr>"
    have k: "base_ok k" "k \<notin> bases bp fb R" using os by (auto simp: separate_def o)
    note i = buf_ok_init [of s ?e, OF d(1)]
    have "bases bp fb' R = bases bp fb R" by (simp add: bases_def r(2))
    then show ?thesis using k i os env by (auto simp: r(1) Buffer_new_def bases_def True separate_def o pool_env_def r(2))
  qed
  show "bp_mapBuffer bp ?k = None" "bf_vctFree b \<noteq> []" using st by auto
  have eq: "bases ?bp fb' R = insert ?k (bases bp fb' R)" by (auto simp: bases_def)
  show fr: "separate os' (bases ?bp fb' R)" using st by (simp add: eq)
  have o: "CalcAddr x = ?k \<Longrightarrow> x \<notin> Out" for x using pool_element [OF ok, of x] st by auto
  have "pool_ok s ?bp Out"
    using st e o by (intro pool_ok_update [OF ok]) auto
  moreover have "apart (bases ?bp fb' R)" using fr by (auto simp: separate_def intro: apart_subset)
  ultimately show "pool_env s ?bp fb' R Out" using st env by (auto simp: pool_env_def)
qed

lemma pool_env_round:
  assumes env: "pool_env s bp fb R Out" and os: "separate os (bases bp fb R)" and p: "picks first"
    and r: "pool_apply_round first cap vct os fb bp = Some (vct', os', fb', bp')"
  shows "\<exists>X. vct' = vct @ X \<and> distinct X \<and> set X \<inter> Out = {} \<and> pool_env s bp' fb' R (Out \<union> set X) \<and> separate os' (bases bp' fb' R)"
proof -
  obtain key os1 fb1 bp1 buff where 1: "pool_env s bp1 fb1 R Out" "separate os1 (bases bp1 fb1 R)" "bp_mapBuffer bp1 key = Some buff"
    and a: "(case Buffer_Apply cap vct buff of None \<Rightarrow> None
      | Some (vct, buff) \<Rightarrow> Some (vct, os1, fb1, bp1\<lparr>bp_mapBuffer := (bp_mapBuffer bp1)(key \<mapsto> buff),
          bp_mapFreeBuffer := (if Buffer_IsEmpty buff then removeAll key (bp_mapFreeBuffer bp1) else bp_mapFreeBuffer bp1)\<rparr>)) =
      Some (vct', os', fb', bp')"
  proof (cases "bp_mapFreeBuffer bp = []")
    case True
    then obtain b osb fbb where b: "AllocateBuffer (bp_eleSize bp) os fb = Some (b, osb, fbb)"
      using r by (auto simp: pool_apply_round_def split: option.splits)
    note e = pool_env_allocate [OF env os b True]
    show ?thesis by (rule that [OF e(3,4)]) (use r True b in \<open>simp_all add: pool_apply_round_def\<close>)
  next
    case False
    then obtain b where "bp_mapBuffer bp (first (bp_mapFreeBuffer bp)) = Some b"
      using r by (auto simp: pool_apply_round_def split: option.splits)
    then show ?thesis using that [OF env os] r False by (simp add: pool_apply_round_def)
  qed
  obtain v b where ab: "Buffer_Apply cap vct buff = Some (v, b)" using a by (cases "Buffer_Apply cap vct buff") auto
  then have r: "v = vct'" "os1 = os'" "fb1 = fb'" and bp': "bp' = bp1\<lparr>bp_mapBuffer := (bp_mapBuffer bp1)(key \<mapsto> b),
      bp_mapFreeBuffer := (if Buffer_IsEmpty b then removeAll key (bp_mapFreeBuffer bp1) else bp_mapFreeBuffer bp1)\<rparr>"
    using a by auto
  have "bases bp' fb' R = bases bp1 fb1 R" using 1(3) by (auto simp: bases_def bp' r)
  then show ?thesis using pool_env_apply [OF 1(1,3) ab] 1(2) unfolding bp' r by auto
qed

theorem BufferPool_Apply_spec:
  "pool_env s bp fb R Out \<Longrightarrow> separate os (bases bp fb R) \<Longrightarrow> picks first \<Longrightarrow>
     BufferPool_Apply first cap vct os fb bp = Some (vct', os', fb', bp') \<Longrightarrow>
     \<exists>X. vct' = vct @ X \<and> distinct X \<and> set X \<inter> Out = {} \<and> pool_env s bp' fb' R (Out \<union> set X) \<and> fill_to cap \<le> length vct'"
proof (induction first cap vct os fb bp arbitrary: Out rule: BufferPool_Apply.induct)
  case (1 first cap vct os fb bp)
  show ?case
  proof (cases "length vct < fill_to cap")
    case False
    then show ?thesis using 1(2,5) by (subst (asm) BufferPool_Apply.simps) (auto intro: exI [of _ "[]"])
  next
    case True
    then obtain v1 os1 fb1 bp1 where r: "pool_apply_round first cap vct os fb bp = Some (v1, os1, fb1, bp1)"
      and a: "BufferPool_Apply first cap v1 os1 fb1 bp1 = Some (vct', os', fb', bp')"
      using 1(5) by (subst (asm) BufferPool_Apply.simps) (auto split: option.splits)
    obtain X where X: "v1 = vct @ X" "distinct X" "set X \<inter> Out = {}" "pool_env s bp1 fb1 R (Out \<union> set X)" "separate os1 (bases bp1 fb1 R)"
      using pool_env_round [OF 1(2,3,4) r] by blast
    obtain Y where Y: "vct' = v1 @ Y" "distinct Y" "set Y \<inter> (Out \<union> set X) = {}" "pool_env s bp' fb' R (Out \<union> set X \<union> set Y)"
      "fill_to cap \<le> length vct'"
      using 1(1) [OF True r _ _ _ X(4,5) 1(4) a] by blast
    show ?thesis using X Y by (intro exI [of _ "X @ Y"]) (auto simp: Un_assoc)
  qed
qed

lemma pool_env_near:
  assumes env: "pool_env s bp fb R Out" and x: "x \<in> Out" and k: "bp_mapBuffer bp k = Some b" and n: "\<not> CacheBlockSize < x XOR k"
  shows "x \<in> taken s b"
proof -
  have ok: "pool_ok s bp Out" using env by (simp add: pool_env_def)
  note d = pool_okD [OF ok]
  obtain c where c: "bp_mapBuffer bp (CalcAddr x) = Some c" "x \<in> taken s c" "buf_ok s c" "bf_pBuf c = CalcAddr x"
    using pool_element [OF ok x] by blast
  have "base_ok k" using d(3) [OF k] by (auto simp: buf_ok_def)
  moreover have "CalcAddr x \<in> bases bp fb R" "k \<in> bases bp fb R" using c(1) k by (auto simp: bases_def)
  then have "bf_pBuf c XOR k \<noteq> CacheBlockSize" using env unfolding c(4) by (auto simp: pool_env_def apart_def)
  ultimately have "bf_pBuf c = k" using taken_facts(5) [OF d(1) c(3,2)] n by blast
  then show ?thesis using c k by simp
qed

lemma pool_env_release:
  assumes env: "pool_env s bp fb R Out" and v: "distinct vct" "set vct \<subseteq> Out" "vct \<noteq> []"
  shows "\<exists>vct' fb' bp' X. pool_release_round bAll cap vct fb bp = Some (vct', fb', bp') \<and> mset vct = mset vct' + mset X \<and> X \<noteq> [] \<and>
    pool_env s bp' fb' R (Out - set X)"
proof -
  let ?k = "CalcAddr (vct ! 0)"
  have ok: "pool_ok s bp Out" using env by (simp add: pool_env_def)
  note d = pool_okD [OF ok]
  have x0: "vct ! 0 \<in> Out" using v by (cases vct) auto
  obtain b where b: "bp_mapBuffer bp ?k = Some b" "vct ! 0 \<in> taken s b" "buf_ok s b" "bf_pBuf b = ?k" using pool_element [OF ok x0] by blast
  obtain vct' b' where r: "Buffer_Release bAll cap vct b = (vct', b')" by (cases "Buffer_Release bAll cap vct b")
  have "x \<in> taken s b" if "x \<in> set vct" "\<not> CacheBlockSize < x XOR bf_pBuf b" for x
    using pool_env_near [OF env _ b(1), of x] that v(2) b(4) by auto
  then obtain X where X: "mset vct = mset vct' + mset X" "X \<noteq> []" "set X \<subseteq> taken s b" "taken s b' = taken s b - set X" "buf_ok s b'"
    "bf_pBuf b' = ?k" "bf_vctFree b' \<noteq> []"
    using Buffer_Release_spec [OF d(1) b(3) v(1,3) b(2) _ r] b(4) by auto
  let ?f = "if Buffer_IsEmpty b \<and> ?k \<notin> set (bp_mapFreeBuffer bp) then bp_mapFreeBuffer bp @ [?k] else bp_mapFreeBuffer bp"
  let ?bp = "bp\<lparr>bp_mapBuffer := (bp_mapBuffer bp)(?k \<mapsto> b'), bp_mapFreeBuffer := ?f\<rparr>"
  have c: "CalcAddr x = ?k" if "x \<in> taken s b" for x using taken_facts(1) [OF d(1) b(3) that] b(4) by simp
  have o: "x \<in> Out \<longleftrightarrow> x \<in> taken s b" if "CalcAddr x = ?k" for x using pool_element [OF ok, of x] d(5) [of x] that b(1) by auto
  have "?k \<in> set ?f" using d(4) [of ?k] b(1) by (auto simp: Buffer_IsEmpty_def)
  then have f: "j \<in> set ?f \<longleftrightarrow> (if j = ?k then bf_vctFree b' \<noteq> [] else j \<in> set (bp_mapFreeBuffer bp))" for j using X(7) by auto
  have ok': "pool_ok s ?bp (Out - set X)"
    by (rule pool_ok_update [OF ok X(5,6) f]) (use o c X(3,4) in auto)
  have bs: "bases ?bp fb R = bases bp fb R" using b(1) by (auto simp: bases_def)
  show ?thesis
  proof (cases "Buffer_IsFull b'")
    case False
    then have "pool_release_round bAll cap vct fb bp = Some (vct', fb, ?bp)" by (simp add: pool_release_round_def b(1) r Let_def)
    moreover have "pool_env s ?bp fb R (Out - set X)" using env ok' bs b(1) by (auto simp: pool_env_def)
    ultimately show ?thesis using X(1,2) by blast
  next
    case True
    let ?bp' = "bp\<lparr>bp_mapBuffer := (bp_mapBuffer bp)(?k := None), bp_mapFreeBuffer := removeAll ?k ?f\<rparr>"
    have t: "taken s b' = {}" by (rule full_not_taken [OF d(1) X(5) True])
    note d' = pool_okD [OF ok']
    have ok2: "pool_ok s ?bp' (Out - set X)" unfolding pool_ok_def
    proof (intro conjI allI impI)
      show "size_ok s" "bp_eleSize ?bp' = of_nat s" using d(1,2) by auto
      have "buf_ok s c \<and> bf_pBuf c = j" if "bp_mapBuffer ?bp' j = Some c" for j c using that d(3) [of j c] by (auto split: if_splits)
      then show "bp_mapBuffer ?bp' j = Some c \<Longrightarrow> buf_ok s c" "bp_mapBuffer ?bp' j = Some c \<Longrightarrow> bf_pBuf c = j" for j c by auto
      show "j \<in> set (bp_mapFreeBuffer ?bp') \<longleftrightarrow> (\<exists>c. bp_mapBuffer ?bp' j = Some c \<and> bf_vctFree c \<noteq> [])" for j
        using d(4) [of j] by auto
      show "x \<in> Out - set X \<longleftrightarrow> (\<exists>j c. bp_mapBuffer ?bp' j = Some c \<and> x \<in> taken s c)" for x
        using d'(5) [of x] t by (auto split: if_splits)
    qed
    have "pool_env s ?bp' (RecycleBuffer b' fb) R (Out - set X)"
      using env ok2 b(1) X(5,6) unfolding pool_env_def
      by (auto simp: RecycleBuffer_def buf_ok_def bases_def elim!: apart_subset)
    moreover have "pool_release_round bAll cap vct fb bp = Some (vct', RecycleBuffer b' fb, ?bp')"
      using True by (simp add: pool_release_round_def b(1) r Let_def)
    ultimately show ?thesis using X(1,2) by blast
  qed
qed

text \<open>Release ends, without a failed look-up, and gives the elements back to the buffers they came from.\<close>

theorem BufferPool_Release_spec:
  "pool_env s bp fb R Out \<Longrightarrow> distinct vct \<Longrightarrow> set vct \<subseteq> Out \<Longrightarrow>
     \<exists>vct' fb' bp' X. BufferPool_Release bAll cap vct fb bp = Some (vct', fb', bp') \<and> mset vct = mset vct' + mset X \<and>
       length vct' \<le> drain_to bAll cap \<and> pool_env s bp' fb' R (Out - set X)"
proof (induction "length vct" arbitrary: vct fb bp Out rule: less_induct)
  case less
  show ?case
  proof (cases "drain_to bAll cap < length vct")
    case False
    then show ?thesis using less.prems by (subst BufferPool_Release.simps) (auto intro!: exI [of _ "[]"])
  next
    case True
    then have "vct \<noteq> []" by auto
    then obtain v1 fb1 bp1 X where r: "pool_release_round bAll cap vct fb bp = Some (v1, fb1, bp1)" "mset vct = mset v1 + mset X" "X \<noteq> []"
      "pool_env s bp1 fb1 R (Out - set X)" using pool_env_release [OF less.prems] by blast
    have l: "length vct = length v1 + length X" using arg_cong [OF r(2), of size] by simp
    have dv: "distinct (v1 @ X)" using less.prems(2) r(2) by (metis mset_append mset_eq_imp_distinct_iff)
    have "set v1 \<subseteq> Out - set X" using arg_cong [OF r(2), of set_mset] less.prems(3) dv by auto
    then obtain v2 fb2 bp2 Y where i: "BufferPool_Release bAll cap v1 fb1 bp1 = Some (v2, fb2, bp2)" "mset v1 = mset v2 + mset Y"
      "length v2 \<le> drain_to bAll cap" "pool_env s bp2 fb2 R (Out - set X - set Y)"
      using less.hyps [of v1 bp1 fb1 "Out - set X"] r(3,4) l dv by auto
    then show ?thesis using True r i
      by (subst BufferPool_Release.simps) (auto intro!: exI [of _ "X @ Y"] simp: Diff_eq Int_assoc)
  qed
qed

section \<open>All pools\<close>

definition others :: "CachePool \<Rightarrow> nat \<Rightarrow> u64 set" where
  "others cp p = (\<Union>q \<in> {..<28} - {p}. dom (bp_mapBuffer (cp_arrayPool cp ! q)))"

definition all_bases :: "CachePool \<Rightarrow> u64 set" where
  "all_bases cp = (\<Union>q \<in> {..<28}. dom (bp_mapBuffer (cp_arrayPool cp ! q))) \<union> bf_pBuf ` set (fb_vctFreeBuf (cp_buffers cp))"

definition cache_ok :: "CachePool \<Rightarrow> (nat \<Rightarrow> u64 set) \<Rightarrow> bool" where
  "cache_ok cp Outs \<longleftrightarrow> length (cp_arrayPool cp) = 28 \<and>
     (\<forall>p < 28. pool_env (arrSzMap ! p) (cp_arrayPool cp ! p) (cp_buffers cp) (others cp p) (Outs p))"

lemma bases_all: "p < 28 \<Longrightarrow> bases (cp_arrayPool cp ! p) (cp_buffers cp) (others cp p) = all_bases cp"
  by (auto simp: bases_def others_def all_bases_def)

text \<open>A step of one pool leaves the others as they are.\<close>

lemma cache_ok_update:
  assumes ok: "cache_ok cp Outs" and p: "p < 28" and env: "pool_env (arrSzMap ! p) bp' fb' (others cp p) O'"
  shows "cache_ok \<lparr>cp_arrayPool = (cp_arrayPool cp)[p := bp'], cp_buffers = fb'\<rparr> (Outs(p := O'))"
proof -
  let ?cp = "\<lparr>cp_arrayPool = (cp_arrayPool cp)[p := bp'], cp_buffers = fb'\<rparr>"
  have l: "length (cp_arrayPool cp) = 28" using ok by (simp add: cache_ok_def)
  have o: "others ?cp p = others cp p" by (auto simp: others_def)
  have "pool_env (arrSzMap ! q) (cp_arrayPool ?cp ! q) fb' (others ?cp q) ((Outs(p := O')) q)" if q: "q < 28" for q
  proof (cases "q = p")
    case True
    then show ?thesis using env l p o by simp
  next
    case False
    let ?bp = "cp_arrayPool cp ! q"
    have e: "pool_env (arrSzMap ! q) ?bp (cp_buffers cp) (others cp q) (Outs q)" using ok q by (simp add: cache_ok_def)
    have nth: "cp_arrayPool ?cp ! q = ?bp" using False by simp
    have sub: "dom (bp_mapBuffer ?bp) \<subseteq> others cp p" using False q by (auto simp: others_def)
    have rest: "bp_mapBuffer ?bp a = None" if "a \<in> others ?cp q" for a
    proof -
      have "a \<in> dom (bp_mapBuffer bp') \<or> a \<in> others cp q"
        using that l p by (auto simp: others_def nth_list_update split: if_splits)
      then show ?thesis using e env sub by (auto simp: pool_env_def)
    qed
    have "bf_pBuf b \<notin> others ?cp q" if "b \<in> set (fb_vctFreeBuf fb')" for b
    proof
      assume "bf_pBuf b \<in> others ?cp q"
      then have "bf_pBuf b \<in> dom (bp_mapBuffer bp') \<or> bf_pBuf b \<in> others cp p"
        using l p by (auto simp: others_def nth_list_update split: if_splits)
      then show False using env that by (auto simp: pool_env_def)
    qed
    moreover have "bases ?bp fb' (others ?cp q) = bases bp' fb' (others cp p)"
      using bases_all [of q ?cp] bases_all [of p ?cp] q p l False by (simp add: o)
    ultimately show ?thesis using e env rest sub False unfolding pool_env_def nth by (auto simp: in_mono)
  qed
  then show ?thesis using l by (simp add: cache_ok_def)
qed

lemma BatchApply_spec:
  assumes ok: "cache_ok cp Outs" and p: "p < 28" "picks first" "separate os (all_bases cp)" and r: "BatchApply first p cap vct os cp = Some (vct', os', cp')"
  shows "\<exists>X. vct' = vct @ X \<and> distinct X \<and> set X \<inter> Outs p = {} \<and> cache_ok cp' (Outs(p := Outs p \<union> set X)) \<and> fill_to cap \<le> length vct'"
proof -
  obtain fb bp where a: "BufferPool_Apply first cap vct os (cp_buffers cp) (cp_arrayPool cp ! p) = Some (vct', os', fb, bp)"
    and cp': "cp' = \<lparr>cp_arrayPool = (cp_arrayPool cp)[p := bp], cp_buffers = fb\<rparr>"
    using r by (auto simp: BatchApply_def)
  have env: "pool_env (arrSzMap ! p) (cp_arrayPool cp ! p) (cp_buffers cp) (others cp p) (Outs p)" using ok p(1) by (simp add: cache_ok_def)
  obtain X where "vct' = vct @ X" "distinct X" "set X \<inter> Outs p = {}" "fill_to cap \<le> length vct'"
    "pool_env (arrSzMap ! p) bp fb (others cp p) (Outs p \<union> set X)"
    using BufferPool_Apply_spec [OF env _ p(2) a] p(3) bases_all [OF p(1)] by auto
  then show ?thesis using cache_ok_update [OF ok p(1)] cp' by blast
qed

lemma BatchRelease_spec:
  assumes ok: "cache_ok cp Outs" and p: "p < 28" and v: "distinct vct" "set vct \<subseteq> Outs p"
  shows "\<exists>vct' cp' X. BatchRelease p cap vct bAll cp = Some (vct', cp') \<and> mset vct = mset vct' + mset X \<and>
    cache_ok cp' (Outs(p := Outs p - set X)) \<and> length vct' \<le> drain_to bAll cap"
proof -
  have env: "pool_env (arrSzMap ! p) (cp_arrayPool cp ! p) (cp_buffers cp) (others cp p) (Outs p)" using ok p(1) by (simp add: cache_ok_def)
  obtain vct' fb bp X where "BufferPool_Release bAll cap vct (cp_buffers cp) (cp_arrayPool cp ! p) = Some (vct', fb, bp)"
    "mset vct = mset vct' + mset X" "length vct' \<le> drain_to bAll cap" "pool_env (arrSzMap ! p) bp fb (others cp p) (Outs p - set X)"
    using BufferPool_Release_spec [OF env v] by blast
  then show ?thesis using cache_ok_update [OF ok p] by (auto simp: BatchRelease_def)
qed

section \<open>The program\<close>

text \<open>The vectors of all threads, the pools, and what the program has: elements with the index of their size.\<close>

record Memory =
  mem_maps :: "LocalMap list"
  mem_pool :: CachePool
  mem_used :: "(nat \<times> u64) list"

text \<open>
  The steps: a thread starts, with vectors of some capacity; a thread applies for an element; the program gives an element back to
  any thread; a thread ends.
\<close>

inductive memory_step :: "(u64 list \<Rightarrow> u64) \<Rightarrow> u64 list \<Rightarrow> Memory \<Rightarrow> Memory \<Rightarrow> bool" for first where
  start: "length caps = 28 \<Longrightarrow> \<forall>p < 28. reserve_size (arrSzMap ! p) \<le> caps ! p \<Longrightarrow>
    memory_step first [] M (M\<lparr>mem_maps := mem_maps M @ [LocalMap_new caps]\<rparr>)"
| pop: "t < length (mem_maps M) \<Longrightarrow> fresh os (all_bases (mem_pool M)) \<Longrightarrow>
    LocalMap_Pop first pos os (mem_maps M ! t) (mem_pool M) = Some (bys, os', lm', cp') \<Longrightarrow>
    memory_step first os M \<lparr>mem_maps = (mem_maps M)[t := lm'], mem_pool = cp', mem_used = (unat pos, bys) # mem_used M\<rparr>"
| push: "t < length (mem_maps M) \<Longrightarrow> (unat pos, bys) \<in> set (mem_used M) \<Longrightarrow>
    LocalMap_Push bys pos (mem_maps M ! t) (mem_pool M) = Some (lm', cp') \<Longrightarrow>
    memory_step first [] M \<lparr>mem_maps = (mem_maps M)[t := lm'], mem_pool = cp', mem_used = remove1 (unat pos, bys) (mem_used M)\<rparr>"
| stop: "t < length (mem_maps M) \<Longrightarrow> LocalMap_delete (mem_maps M ! t) (mem_pool M) = Some (lm', cp') \<Longrightarrow>
    memory_step first [] M \<lparr>mem_maps = take t (mem_maps M) @ drop (Suc t) (mem_maps M), mem_pool = cp', mem_used = mem_used M\<rparr>"

text \<open>
  A run without siblings: \<open>aligned_alloc\<close> has never returned a buffer whose address differs from that of a live one, or of another that it
  returned for the same call, in exactly the bit of the buffer size. Nothing in \<open>aligned_alloc\<close> ensures this.
\<close>

definition no_siblings :: "u64 list \<Rightarrow> Memory \<Rightarrow> bool" where
  "no_siblings os M \<longleftrightarrow> apart (all_bases (mem_pool M) \<union> set os)"

definition sibling_free_step :: "(u64 list \<Rightarrow> u64) \<Rightarrow> Memory \<Rightarrow> Memory \<Rightarrow> bool" where
  "sibling_free_step first M M' \<longleftrightarrow> (\<exists>os. memory_step first os M M' \<and> no_siblings os M)"

definition Memory_start :: Memory where
  "Memory_start = \<lparr>mem_maps = [], mem_pool = CachePool_new, mem_used = []\<rparr>"

text \<open>The owners of the elements of size \<open>p\<close>, all in one list.\<close>

definition in_maps :: "nat \<Rightarrow> LocalMap list \<Rightarrow> u64 list" where
  "in_maps p lms = concat (map (\<lambda>lm. lm_arrVctByte lm ! p) lms)"

definition in_use :: "nat \<Rightarrow> (nat \<times> u64) list \<Rightarrow> u64 list" where
  "in_use p us = map snd (filter (\<lambda>u. fst u = p) us)"

definition owners :: "nat \<Rightarrow> Memory \<Rightarrow> u64 list" where
  "owners p M = in_maps p (mem_maps M) @ in_use p (mem_used M)"

definition map_ok :: "LocalMap \<Rightarrow> bool" where
  "map_ok lm \<longleftrightarrow> length (lm_arrVctByte lm) = 28 \<and> length (lm_capacity lm) = 28 \<and> (\<forall>p < 28. 0 < lm_capacity lm ! p)"

definition memory_inv :: "Memory \<Rightarrow> bool" where
  "memory_inv M \<longleftrightarrow> (\<forall>lm \<in> set (mem_maps M). map_ok lm) \<and> (\<forall>u \<in> set (mem_used M). fst u < 28) \<and>
     (\<forall>p < 28. distinct (owners p M)) \<and> cache_ok (mem_pool M) (\<lambda>p. set (owners p M))"

text \<open>What a step of size \<open>p\<close> of thread \<open>t\<close> does to the list of owners, as multisets.\<close>

lemma in_maps_update:
  "t < length lms \<Longrightarrow> mset (in_maps p (lms[t := lm])) + mset (lm_arrVctByte (lms ! t) ! p) = mset (in_maps p lms) + mset (lm_arrVctByte lm ! p)"
proof (induction lms arbitrary: t)
  case (Cons a lms)
  then show ?case by (cases t) (auto simp: in_maps_def ac_simps)
qed simp

lemma in_maps_remove:
  "t < length lms \<Longrightarrow> mset (in_maps p lms) = mset (in_maps p (take t lms @ drop (Suc t) lms)) + mset (lm_arrVctByte (lms ! t) ! p)"
  by (subst id_take_nth_drop) (auto simp: in_maps_def ac_simps)

lemma in_use_remove1: "u \<in> set us \<Longrightarrow> mset (in_use p us) = mset (in_use p (remove1 u us)) + (if fst u = p then {#snd u#} else {#})"
  by (induction us) (auto simp: in_use_def)

lemma in_use_Cons: "mset (in_use p (u # us)) = mset (in_use p us) + (if fst u = p then {#snd u#} else {#})"
  by (simp add: in_use_def)

text \<open>The invariant in terms of multisets.\<close>

lemma cache_ok_cong: "cache_ok cp Outs \<Longrightarrow> (\<And>p. p < 28 \<Longrightarrow> Outs p = Outs' p) \<Longrightarrow> cache_ok cp Outs'"
  by (simp add: cache_ok_def)

lemma distinct_set_mset: "mset xs = mset ys \<Longrightarrow> distinct ys \<Longrightarrow> distinct xs \<and> set xs = set ys"
  by (metis mset_eq_imp_distinct_iff mset_eq_setD)

lemma map_ok_parts: "map_ok lm \<Longrightarrow> p < 28 \<Longrightarrow> p < length (lm_arrVctByte lm) \<and> p < length (lm_capacity lm) \<and> 0 < lm_capacity lm ! p"
  by (simp add: map_ok_def)

lemma map_ok_update: "map_ok lm \<Longrightarrow> map_ok (lm\<lparr>lm_arrVctByte := (lm_arrVctByte lm)[p := v], lm_memStat := n\<rparr>)"
  "map_ok lm \<Longrightarrow> map_ok (lm\<lparr>lm_arrVctByte := (lm_arrVctByte lm)[p := v]\<rparr>)"
  by (simp_all add: map_ok_def)

lemma owner_parts:
  assumes "memory_inv M" "t < length (mem_maps M)" "p < 28"
  shows "distinct (lm_arrVctByte (mem_maps M ! t) ! p)" "set (lm_arrVctByte (mem_maps M ! t) ! p) \<subseteq> set (owners p M)" "map_ok (mem_maps M ! t)"
proof -
  have m: "mset (owners p M) = mset (lm_arrVctByte (mem_maps M ! t) ! p) + (mset (in_maps p (take t (mem_maps M) @ drop (Suc t) (mem_maps M))) +
    mset (in_use p (mem_used M)))" using in_maps_remove [OF assms(2), of p] by (simp add: owners_def ac_simps)
  have "distinct (owners p M)" using assms by (simp add: memory_inv_def)
  then show "distinct (lm_arrVctByte (mem_maps M ! t) ! p)" by (metis m distinct_append mset_append mset_eq_imp_distinct_iff)
  show "set (lm_arrVctByte (mem_maps M ! t) ! p) \<subseteq> set (owners p M)" using arg_cong [OF m, of set_mset] by auto
  show "map_ok (mem_maps M ! t)" using assms by (auto simp: memory_inv_def)
qed

text \<open>A step changes one vector of one thread, from \<open>v\<close> to \<open>v'\<close>, and the program's elements; \<open>Y\<close> comes from the pool, \<open>X\<close> goes back.\<close>

lemma memory_inv_change:
  assumes inv: "memory_inv M" and t: "t < length (mem_maps M)" and i: "i < 28"
    and lm: "map_ok lm'" "lm_arrVctByte lm' = (lm_arrVctByte (mem_maps M ! t))[i := v']"
    and us: "\<forall>u \<in> set us'. fst u < 28" "\<And>p. p \<noteq> i \<Longrightarrow> mset (in_use p us') = mset (in_use p (mem_used M))"
    and m: "mset v' + mset (in_use i us') + mset X = mset (lm_arrVctByte (mem_maps M ! t) ! i) + mset (in_use i (mem_used M)) + mset Y"
    and Y: "distinct Y" "set Y \<inter> set (owners i M) = {}"
    and cp: "cache_ok cp' ((\<lambda>p. set (owners p M))(i := set (owners i M) \<union> set Y - set X))"
  shows "memory_inv \<lparr>mem_maps = (mem_maps M)[t := lm'], mem_pool = cp', mem_used = us'\<rparr>" (is "memory_inv ?M")
proof -
  have ar: "i < length (lm_arrVctByte (mem_maps M ! t))" using map_ok_parts [OF owner_parts(3) [OF inv t i] i] by blast
  have d: "distinct (owners p M)" if "p < 28" for p using inv that by (simp add: memory_inv_def)
  have o: "distinct (owners p ?M) \<and> set (owners p ?M) = ((\<lambda>p. set (owners p M))(i := set (owners i M) \<union> set Y - set X)) p" if p: "p < 28" for p
  proof (cases "p = i")
    case False
    have "mset (owners p ?M) = mset (owners p M)"
      using in_maps_update [OF t, of p lm'] us(2) [OF False] False by (simp add: owners_def lm(2))
    from distinct_set_mset [OF this d [OF p]] show ?thesis using False by simp
  next
    case True
    have "mset (in_maps i ((mem_maps M)[t := lm'])) + mset (lm_arrVctByte (mem_maps M ! t) ! i) = mset (in_maps i (mem_maps M)) + mset v'"
      using in_maps_update [OF t, of i lm'] ar by (simp add: lm(2))
    then have "mset (owners i ?M) + mset X + mset (lm_arrVctByte (mem_maps M ! t) ! i) + mset (in_use i (mem_used M)) =
      mset (in_maps i (mem_maps M)) + (mset v' + mset (in_use i us') + mset X) + mset (in_use i (mem_used M))"
      by (simp add: owners_def ac_simps)
    then have "mset (owners i ?M @ X) = mset (owners i M @ Y)" unfolding m by (simp add: owners_def ac_simps)
    moreover have "distinct (owners i M @ Y)" using d [OF i] Y by auto
    ultimately have "distinct (owners i ?M @ X) \<and> set (owners i ?M @ X) = set (owners i M @ Y)" by (rule distinct_set_mset)
    then show ?thesis using True by auto
  qed
  have "\<forall>lm \<in> set ((mem_maps M)[t := lm']). map_ok lm" using inv lm(1) by (auto simp: memory_inv_def dest!: set_update_subset_insert [THEN subsetD])
  then show ?thesis using o us(1) cache_ok_cong [OF cp] by (simp add: memory_inv_def)
qed

lemma mset_butlast_last: "w \<noteq> [] \<Longrightarrow> add_mset (last w) (mset (butlast w)) = mset w"
  by (cases w rule: rev_cases) auto

lemma memory_inv_pop:
  assumes inv: "memory_inv M" and t: "t < length (mem_maps M)" and os: "picks first" "separate os (all_bases (mem_pool M))"
    and r: "LocalMap_Pop first pos os (mem_maps M ! t) (mem_pool M) = Some (bys, os', lm', cp')"
  shows "memory_inv \<lparr>mem_maps = (mem_maps M)[t := lm'], mem_pool = cp', mem_used = (unat pos, bys) # mem_used M\<rparr>"
proof -
  let ?lm = "mem_maps M ! t" and ?i = "unat pos"
  let ?v = "lm_arrVctByte ?lm ! ?i" and ?Outs = "\<lambda>p. set (owners p M)"
  have i: "?i < 28" using r by (auto simp: LocalMap_Pop_def word_less_nat_alt split: if_splits)
  note mo = owner_parts [OF inv t i]
  have cap: "0 < lm_capacity ?lm ! ?i" using map_ok_parts [OF mo(3) i] by blast
  have ok: "cache_ok (mem_pool M) ?Outs" using inv by (simp add: memory_inv_def)
  have "\<exists>X os1. (if length ?v = 0 then BatchApply first ?i (lm_capacity ?lm ! ?i) ?v os (mem_pool M) else Some (?v, os, mem_pool M)) =
      Some (?v @ X, os1, cp') \<and> ?v @ X \<noteq> [] \<and> distinct X \<and> set X \<inter> ?Outs ?i = {} \<and> cache_ok cp' (?Outs(?i := ?Outs ?i \<union> set X)) \<and>
      bys = last (?v @ X) \<and> lm' = ?lm\<lparr>lm_arrVctByte := (lm_arrVctByte ?lm)[?i := butlast (?v @ X)], lm_memStat := lm_memStat ?lm + of_nat (arrSzMap ! ?i)\<rparr>"
  proof (cases "length ?v = 0")
    case False
    then show ?thesis using r ok i by (intro exI [of _ "[]"] exI [of _ os]) (auto simp: LocalMap_Pop_def Let_def word_less_nat_alt fun_upd_idem)
  next
    case True
    then obtain vct1 where a: "BatchApply first ?i (lm_capacity ?lm ! ?i) ?v os (mem_pool M) = Some (vct1, os', cp')"
      and b: "bys = last vct1" "lm' = ?lm\<lparr>lm_arrVctByte := (lm_arrVctByte ?lm)[?i := butlast vct1], lm_memStat := lm_memStat ?lm + of_nat (arrSzMap ! ?i)\<rparr>"
      using r i by (auto simp: LocalMap_Pop_def Let_def word_less_nat_alt split: option.splits)
    have "0 < fill_to (lm_capacity ?lm ! ?i)" using cap by (simp add: fill_to_def)
    then show ?thesis using BatchApply_spec [OF ok i os a] True a b by (auto simp del: length_0_conv)
  qed
  then obtain X where X: "?v @ X \<noteq> []" "distinct X" "set X \<inter> ?Outs ?i = {}" "cache_ok cp' (?Outs(?i := ?Outs ?i \<union> set X))"
    "bys = last (?v @ X)" "lm' = ?lm\<lparr>lm_arrVctByte := (lm_arrVctByte ?lm)[?i := butlast (?v @ X)], lm_memStat := lm_memStat ?lm + of_nat (arrSzMap ! ?i)\<rparr>"
    by blast
  have "mset (butlast (?v @ X)) + {#bys#} = mset ?v + mset X" using mset_butlast_last [OF X(1)] by (simp add: X(5))
  then show ?thesis
    using X i inv by (intro memory_inv_change [OF inv t i, of _ "butlast (?v @ X)" _ "[]" X])
      (auto simp: map_ok_update mo(3) in_use_Cons memory_inv_def)
qed

lemma memory_inv_release:
  assumes inv: "memory_inv M" and t: "t < length (mem_maps M)" and i: "i < 28"
  shows "\<exists>vct' cp' X. BatchRelease i cap (lm_arrVctByte (mem_maps M ! t) ! i) bAll (mem_pool M) = Some (vct', cp') \<and>
    mset (lm_arrVctByte (mem_maps M ! t) ! i) = mset vct' + mset X \<and> length vct' \<le> drain_to bAll cap \<and>
    cache_ok cp' ((\<lambda>p. set (owners p M))(i := set (owners i M) - set X))"
proof -
  note mo = owner_parts [OF inv t i]
  have "cache_ok (mem_pool M) (\<lambda>p. set (owners p M))" using inv by (simp add: memory_inv_def)
  from BatchRelease_spec [OF this i mo(1,2)] show ?thesis by blast
qed

text \<open>Giving an element back always succeeds: the loops end, and no look-up or assertion fails.\<close>

lemma memory_inv_push:
  assumes inv: "memory_inv M" and t: "t < length (mem_maps M)" and u: "(unat pos, bys) \<in> set (mem_used M)"
  shows "\<exists>lm' cp'. LocalMap_Push bys pos (mem_maps M ! t) (mem_pool M) = Some (lm', cp') \<and>
    memory_inv \<lparr>mem_maps = (mem_maps M)[t := lm'], mem_pool = cp', mem_used = remove1 (unat pos, bys) (mem_used M)\<rparr>"
proof -
  let ?lm = "mem_maps M ! t" and ?i = "unat pos" and ?Outs = "\<lambda>p. set (owners p M)"
  let ?v = "lm_arrVctByte ?lm ! ?i" and ?us = "remove1 (unat pos, bys) (mem_used M)"
  have i: "?i < 28" using inv u by (auto simp: memory_inv_def)
  then have p: "pos < 28" by (simp add: word_less_nat_alt)
  have ok: "cache_ok (mem_pool M) ?Outs" using inv by (simp add: memory_inv_def)
  obtain vct' cp' X where r: "(if lm_capacity ?lm ! ?i \<le> length ?v then BatchRelease ?i (lm_capacity ?lm ! ?i) ?v False (mem_pool M)
      else Some (?v, mem_pool M)) = Some (vct', cp')" "mset ?v = mset vct' + mset X" "cache_ok cp' (?Outs(?i := ?Outs ?i - set X))"
  proof (cases "lm_capacity ?lm ! ?i \<le> length ?v")
    case True
    then show ?thesis using memory_inv_release [OF inv t i, of "lm_capacity ?lm ! ?i" False] that by auto
  next
    case False
    then show ?thesis using that [of ?v "mem_pool M" "[]"] ok by (simp add: fun_upd_idem)
  qed
  let ?lm' = "?lm\<lparr>lm_arrVctByte := (lm_arrVctByte ?lm)[?i := vct' @ [bys]], lm_memStat := lm_memStat ?lm - of_nat (arrSzMap ! ?i)\<rparr>"
  have "LocalMap_Push bys pos ?lm (mem_pool M) = Some (?lm', cp')" using r(1) p by (simp add: LocalMap_Push_def Let_def split: if_splits)
  moreover have "memory_inv \<lparr>mem_maps = (mem_maps M)[t := ?lm'], mem_pool = cp', mem_used = ?us\<rparr>"
    using r(2,3) in_use_remove1 [OF u] inv owner_parts(3) [OF inv t i]
    by (intro memory_inv_change [OF inv t i, of _ "vct' @ [bys]" _ X "[]"])
      (auto simp: map_ok_update memory_inv_def dest: notin_set_remove1 in_set_remove1 [THEN iffD1] set_remove1_subset [THEN subsetD])
  ultimately show ?thesis by blast
qed

lemma memory_inv_release_all:
  "memory_inv M \<Longrightarrow> t < length (mem_maps M) \<Longrightarrow> set js \<subseteq> {..<28} \<Longrightarrow>
     \<exists>lm' cp'. release_all js (mem_maps M ! t) (mem_pool M) = Some (lm', cp') \<and>
       memory_inv \<lparr>mem_maps = (mem_maps M)[t := lm'], mem_pool = cp', mem_used = mem_used M\<rparr> \<and>
       (\<forall>j < 28. j \<in> set js \<or> lm_arrVctByte (mem_maps M ! t) ! j = [] \<longrightarrow> lm_arrVctByte lm' ! j = [])"
proof (induction js arbitrary: M)
  case Nil
  then show ?case by (cases M) simp
next
  case (Cons i js)
  let ?lm = "mem_maps M ! t"
  have i: "i < 28" using Cons.prems(3) by simp
  obtain vct' cp1 X where r: "BatchRelease i (lm_capacity ?lm ! i) (lm_arrVctByte ?lm ! i) True (mem_pool M) = Some (vct', cp1)"
    "mset (lm_arrVctByte ?lm ! i) = mset vct' + mset X" "length vct' \<le> drain_to True (lm_capacity ?lm ! i)"
    "cache_ok cp1 ((\<lambda>p. set (owners p M))(i := set (owners i M) - set X))"
    using memory_inv_release [OF Cons.prems(1,2) i] by blast
  let ?lm1 = "?lm\<lparr>lm_arrVctByte := (lm_arrVctByte ?lm)[i := vct']\<rparr>"
  let ?M1 = "\<lparr>mem_maps = (mem_maps M)[t := ?lm1], mem_pool = cp1, mem_used = mem_used M\<rparr>"
  have mo: "map_ok ?lm" by (rule owner_parts(3) [OF Cons.prems(1,2) i])
  have e: "vct' = []" using r(3) by (simp add: drain_to_def)
  have m1: "memory_inv ?M1"
    using r(2,4) Cons.prems(1) mo by (intro memory_inv_change [OF Cons.prems(1,2) i, of _ vct' _ X "[]"]) (auto simp: map_ok_update memory_inv_def)
  then obtain lm' cp' where l: "release_all js ?lm1 cp1 = Some (lm', cp')"
    "memory_inv \<lparr>mem_maps = (mem_maps M)[t := lm'], mem_pool = cp', mem_used = mem_used M\<rparr>"
    "\<forall>j < 28. j \<in> set js \<or> lm_arrVctByte ?lm1 ! j = [] \<longrightarrow> lm_arrVctByte lm' ! j = []"
    using Cons.IH [of ?M1] Cons.prems(2,3) by auto
  have "lm_arrVctByte ?lm1 ! j = []" if "j < 28" "j = i \<or> lm_arrVctByte ?lm ! j = []" for j
    using that e map_ok_parts [OF mo that(1)] by (cases "j = i") auto
  then show ?case using r(1) l by auto
qed

lemma memory_inv_stop:
  assumes inv: "memory_inv M" and t: "t < length (mem_maps M)"
  shows "\<exists>lm' cp'. LocalMap_delete (mem_maps M ! t) (mem_pool M) = Some (lm', cp') \<and>
    memory_inv \<lparr>mem_maps = take t (mem_maps M) @ drop (Suc t) (mem_maps M), mem_pool = cp', mem_used = mem_used M\<rparr>"
proof -
  obtain lm' cp' where r: "LocalMap_delete (mem_maps M ! t) (mem_pool M) = Some (lm', cp')"
    "memory_inv \<lparr>mem_maps = (mem_maps M)[t := lm'], mem_pool = cp', mem_used = mem_used M\<rparr>" "\<forall>j < 28. lm_arrVctByte lm' ! j = []"
    using memory_inv_release_all [OF inv t, of "[0..<28]"] by (auto simp: LocalMap_delete_def atLeast0LessThan)
  let ?M1 = "\<lparr>mem_maps = (mem_maps M)[t := lm'], mem_pool = cp', mem_used = mem_used M\<rparr>"
  let ?M2 = "\<lparr>mem_maps = take t (mem_maps M) @ drop (Suc t) (mem_maps M), mem_pool = cp', mem_used = mem_used M\<rparr>"
  have e: "mset (owners p ?M2) = mset (owners p ?M1)" if "p < 28" for p
    using in_maps_remove [of t "(mem_maps M)[t := lm']" p] t r(3) that by (simp add: owners_def)
  have o: "distinct (owners p ?M2) \<and> set (owners p ?M2) = set (owners p ?M1)" if "p < 28" for p
    by (rule distinct_set_mset [OF e [OF that]]) (use r(2) that in \<open>simp add: memory_inv_def\<close>)
  have "cache_ok cp' (\<lambda>p. set (owners p ?M2))" using r(2) cache_ok_cong [of cp' "\<lambda>p. set (owners p ?M1)"] o by (simp add: memory_inv_def)
  moreover have "\<forall>lm \<in> set (mem_maps ?M2). map_ok lm" using inv by (auto simp: memory_inv_def dest: in_set_takeD in_set_dropD)
  ultimately show ?thesis using r(1) o inv by (simp add: memory_inv_def)
qed

lemma memory_inv_apart: "memory_inv M \<Longrightarrow> apart (all_bases (mem_pool M))"
  using bases_all [of 0 "mem_pool M"] by (force simp: memory_inv_def cache_ok_def pool_env_def)

lemma memory_inv_start: "memory_inv Memory_start"
proof -
  have "pool_env (arrSzMap ! p) (cp_arrayPool CachePool_new ! p) (cp_buffers CachePool_new) (others CachePool_new p) {}" if p: "p < 28" for p
  proof -
    have n: "cp_arrayPool CachePool_new ! q = BufferPool_new (of_nat (arrSzMap ! q))" if "q < 28" for q
      using that by (simp add: CachePool_new_def)
    have "others CachePool_new p = {}" by (auto simp: others_def n BufferPool_new_def)
    moreover note size_ok_nth [OF p]
    ultimately show ?thesis
      by (simp add: n [OF p] pool_env_def pool_ok_def BufferPool_new_def bases_def apart_def) (simp add: CachePool_new_def)
  qed
  moreover have "length (cp_arrayPool CachePool_new) = 28" by (simp add: CachePool_new_def)
  ultimately show ?thesis by (simp add: memory_inv_def Memory_start_def owners_def in_maps_def in_use_def cache_ok_def)
qed

lemma memory_inv_new_thread:
  assumes "memory_inv M" "length caps = 28" "\<forall>p < 28. reserve_size (arrSzMap ! p) \<le> caps ! p"
  shows "memory_inv (M\<lparr>mem_maps := mem_maps M @ [LocalMap_new caps]\<rparr>)"
proof -
  have "0 < reserve_size (arrSzMap ! p)" if "p < 28" for p
    using size_ok_bounds [OF size_ok_nth [OF that]] by (simp add: reserve_size_def div_greater_zero_iff)
  then have "map_ok (LocalMap_new caps)" using assms(2,3) by (fastforce simp: map_ok_def LocalMap_new_def)
  moreover have "owners p (M\<lparr>mem_maps := mem_maps M @ [LocalMap_new caps]\<rparr>) = owners p M" if "p < 28" for p
    using that by (simp add: owners_def in_maps_def LocalMap_new_def)
  ultimately show ?thesis using assms(1) cache_ok_cong [of "mem_pool M" "\<lambda>p. set (owners p M)"] by (simp add: memory_inv_def)
qed

lemma memory_step_inv: "memory_step first os M M' \<Longrightarrow> no_siblings os M \<Longrightarrow> picks first \<Longrightarrow> memory_inv M \<Longrightarrow> memory_inv M'"
proof (induction rule: memory_step.induct)
  case (pop t M os pos bys os' lm' cp')
  then show ?case using memory_inv_pop [of M t first os pos bys os' lm' cp'] by (simp add: separate_fresh no_siblings_def)
next
  case (push t M pos bys lm' cp')
  then show ?case using memory_inv_push [of M t pos bys] by auto
next
  case (stop t M lm' cp')
  then show ?case using memory_inv_stop [of M t] by auto
qed (simp_all add: memory_inv_new_thread)

lemma memory_reach_inv: "(sibling_free_step first)\<^sup>*\<^sup>* Memory_start M \<Longrightarrow> picks first \<Longrightarrow> memory_inv M"
  by (induction rule: rtranclp_induct) (auto simp: memory_inv_start sibling_free_step_def intro: memory_step_inv)

section \<open>Properties\<close>

text \<open>The bytes of an element.\<close>

definition block :: "nat \<times> u64 \<Rightarrow> nat set" where
  "block u = {unat (snd u)..<unat (snd u) + arrSzMap ! fst u}"

lemma base_multiple: "base_ok a \<Longrightarrow> \<exists>m. unat a = 131072 * m"
proof -
  assume "base_ok a"
  then have "take_bit 17 (unat a) = 0" unfolding base_ok_def by (metis unsigned_0 unsigned_take_bit_eq)
  then have "131072 dvd unat a" by (simp add: take_bit_eq_mod mod_eq_0_iff_dvd)
  then show ?thesis by (auto elim: dvdE)
qed

lemma used_element:
  assumes inv: "memory_inv M" and u: "u \<in> set (mem_used M)"
  shows "\<exists>k i. bp_mapBuffer (cp_arrayPool (mem_pool M) ! fst u) k \<noteq> None \<and> base_ok k \<and> unat (snd u) = unat k + arrSzMap ! fst u * i \<and>
    arrSzMap ! fst u * i + arrSzMap ! fst u \<le> 131072"
proof -
  let ?p = "fst u"
  have p: "?p < 28" using inv u by (auto simp: memory_inv_def)
  have "snd u \<in> set (owners ?p M)" using u by (auto simp: owners_def in_use_def intro!: image_eqI [of _ _ u])
  moreover have ok: "pool_ok (arrSzMap ! ?p) (cp_arrayPool (mem_pool M) ! ?p) (set (owners ?p M))"
    using inv p by (simp add: memory_inv_def cache_ok_def pool_env_def)
  ultimately obtain b where b: "bp_mapBuffer (cp_arrayPool (mem_pool M) ! ?p) (CalcAddr (snd u)) = Some b"
    "snd u \<in> taken (arrSzMap ! ?p) b" "buf_ok (arrSzMap ! ?p) b" "bf_pBuf b = CalcAddr (snd u)" using pool_element by blast
  obtain i where i: "unat i < 131072 div arrSzMap ! ?p" "snd u = ele_addr b i" using b(2) by (auto simp: taken_def)
  have "unat (snd u) = unat (bf_pBuf b) + arrSzMap ! ?p * unat i" unfolding i(2) by (rule ele_facts(3) [OF size_ok_nth [OF p] b(3) i(1)])
  moreover have "base_ok (bf_pBuf b)" using b(3) by (simp add: buf_ok_def)
  ultimately show ?thesis using b(1,4) offset_bound [OF i(1)] by (intro exI [of _ "CalcAddr (snd u)"] exI [of _ "unat i"]) simp
qed

lemma pools_disjoint:
  assumes inv: "memory_inv M" and pq: "p < 28" "q < 28"
    and k: "bp_mapBuffer (cp_arrayPool (mem_pool M) ! p) k \<noteq> None" "bp_mapBuffer (cp_arrayPool (mem_pool M) ! q) k \<noteq> None"
  shows "p = q"
proof (rule ccontr)
  assume "p \<noteq> q"
  then have "k \<in> others (mem_pool M) p" using pq(2) k(2) by (auto simp: others_def)
  then show False using inv pq(1) k(1) by (auto simp: memory_inv_def cache_ok_def pool_env_def)
qed

lemma grid_disjoint:
  assumes "s * i + s \<le> (131072 :: nat)" "t * j + t \<le> 131072" "a = 131072 * m" "b = 131072 * n" "a = b \<longrightarrow> s = t \<and> i \<noteq> j"
  shows "{a + s * i..<a + s * i + s} \<inter> {b + t * j..<b + t * j + t} = {}"
proof (cases "a = b")
  case True
  then have "s = t" "i \<noteq> j" using assms(5) by auto
  moreover have "s * i + s \<le> s * j" if "i < j" using mult_le_mono2 [of "Suc i" j s] that by simp
  moreover have "s * j + s \<le> s * i" if "j < i" using mult_le_mono2 [of "Suc j" i s] that by simp
  ultimately show ?thesis using True by (cases "i < j") auto
next
  case False
  then have "a + 131072 \<le> b \<or> b + 131072 \<le> a" using assms(3,4) by (cases "m < n") auto
  then show ?thesis using assms(1,2) by auto
qed

lemma distinct_in_use: "(\<forall>p < 28. distinct (in_use p us)) \<Longrightarrow> (\<forall>u \<in> set us. fst u < 28) \<Longrightarrow> distinct us"
proof (induction us)
  case (Cons u us)
  have "distinct (in_use p us)" if "p < 28" for p using Cons.prems(1) that by (auto simp: in_use_def split: if_splits)
  moreover have "u \<notin> set us" using Cons.prems by (force simp: in_use_def)
  ultimately show ?case using Cons by simp
qed simp

text \<open>
  C37: the allocator never gives the same memory twice, as long as no two buffers are siblings. In a run in which \<open>aligned_alloc\<close>, which
  returns aligned buffers distinct from the live ones, has not returned a buffer whose address differs from that of a live one in exactly the
  bit of the buffer size, after any sequence of steps of any number of threads (start, apply, release, end,
  with elements released to other threads than they came from), the bytes of two elements that the program holds are disjoint, of whatever
  sizes. With siblings it is false (\<open>Buffer_Release_sibling\<close>); \<open>begin()\<close> is taken to give some key of the map.
\<close>

theorem memory_blocks_disjoint:
  assumes "(sibling_free_step first)\<^sup>*\<^sup>* Memory_start M" "picks first" "i < length (mem_used M)" "j < length (mem_used M)" "i \<noteq> j"
  shows "block (mem_used M ! i) \<inter> block (mem_used M ! j) = {}"
proof -
  let ?u = "mem_used M ! i" and ?w = "mem_used M ! j"
  have inv: "memory_inv M" by (rule memory_reach_inv [OF assms(1,2)])
  have p: "fst ?u < 28" "fst ?w < 28" using inv assms(3,4) by (auto simp: memory_inv_def)
  have "distinct (mem_used M)"
    using inv distinct_in_use [of "mem_used M"] by (auto simp: memory_inv_def owners_def)
  then have ne: "?u \<noteq> ?w" using assms(3-5) by (simp add: nth_eq_iff_index_eq)
  obtain k a where k: "bp_mapBuffer (cp_arrayPool (mem_pool M) ! fst ?u) k \<noteq> None" "base_ok k" "unat (snd ?u) = unat k + arrSzMap ! fst ?u * a"
    "arrSzMap ! fst ?u * a + arrSzMap ! fst ?u \<le> 131072" using used_element [OF inv, of ?u] assms(3) by auto
  obtain l b where l: "bp_mapBuffer (cp_arrayPool (mem_pool M) ! fst ?w) l \<noteq> None" "base_ok l" "unat (snd ?w) = unat l + arrSzMap ! fst ?w * b"
    "arrSzMap ! fst ?w * b + arrSzMap ! fst ?w \<le> 131072" using used_element [OF inv, of ?w] assms(4) by auto
  obtain m n where mn: "unat k = 131072 * m" "unat l = 131072 * n" using base_multiple [OF k(2)] base_multiple [OF l(2)] by blast
  have "arrSzMap ! fst ?u = arrSzMap ! fst ?w \<and> a \<noteq> b" if "unat k = unat l"
  proof -
    have "k = l" using that by (simp only: word_unat_eq_iff)
    then have "fst ?u = fst ?w" using pools_disjoint [OF inv p k(1)] l(1) by simp
    moreover have "a \<noteq> b" using ne k(3) l(3) that \<open>fst ?u = fst ?w\<close> by (auto simp: prod_eq_iff word_unat_eq_iff)
    ultimately show ?thesis by simp
  qed
  then show ?thesis unfolding block_def k(3) l(3) by (intro grid_disjoint [OF k(4) l(4) mn]) simp
qed

text \<open>A run: one thread starts and applies for two pages, the first one with three buffers from the operating system.\<close>

lemma two_pages_reached:
  "\<exists>M. (sibling_free_step hd)\<^sup>*\<^sup>* Memory_start M \<and> length (mem_maps M) = 1 \<and> mem_used M = [(27, 0x104000), (27, 0x100000)]"
proof -
  let ?caps = "map reserve_size arrSzMap" and ?os = "[0x20000, 0x80000, 0x100000] :: u64 list"
  let ?lm = "LocalMap_new ?caps"
  let ?M1 = "Memory_start\<lparr>mem_maps := mem_maps Memory_start @ [?lm]\<rparr>"
  have M1: "?M1 = \<lparr>mem_maps = [?lm], mem_pool = CachePool_new, mem_used = []\<rparr>" by (simp add: Memory_start_def)
  have "all_bases CachePool_new = {}" by (auto simp: all_bases_def CachePool_new_def BufferPool_new_def)
  then have none: "no_siblings [] Memory_start" "no_siblings ?os ?M1" "fresh ?os (all_bases CachePool_new)"
    by (simp_all add: no_siblings_def Memory_start_def fresh_def base_ok_def apart_def CacheBlockSize_def)
  have "memory_step hd [] Memory_start ?M1" by (rule memory_step.start) simp_all
  then have s1: "sibling_free_step hd Memory_start ?M1" using none(1) sibling_free_step_def by blast
  let ?fb = "\<lparr>fb_vctFreeBuf = [], fb_szMemAllocated = 0\<rparr>"
  let ?out = "[0x3C000, 0x38000, 0x34000, 0x30000, 0x2C000, 0x28000, 0x24000, 0x20000, 0x9C000, 0x98000, 0x94000, 0x90000, 0x8C000, 0x88000,
    0x84000, 0x80000, 0x11C000, 0x118000, 0x114000, 0x110000, 0x10C000, 0x108000, 0x104000, 0x100000] :: u64 list"
  have c: "cp_arrayPool CachePool_new ! 27 = BufferPool_new 16384" "cp_buffers CachePool_new = ?fb" "reserve_size (arrSzMap ! 27) = 32"
    "lm_arrVctByte ?lm ! 27 = []" "length (lm_arrVctByte ?lm) = 28" "lm_capacity ?lm = ?caps"
    by (simp_all add: CachePool_new_def arrSzMap_def LocalMap_new_def reserve_size_def)
  have "map_option (\<lambda>(a, b, rest). (a, b)) (BufferPool_Apply hd 32 [] ?os ?fb (BufferPool_new 16384)) = Some (?out, [])"
    by code_simp
  then obtain fb bp where a: "BufferPool_Apply hd 32 [] ?os ?fb (BufferPool_new 16384) = Some (?out, [], fb, bp)" by auto
  let ?cp = "\<lparr>cp_arrayPool = (cp_arrayPool CachePool_new)[27 := bp], cp_buffers = fb\<rparr>"
  let ?lm1 = "?lm\<lparr>lm_arrVctByte := (lm_arrVctByte ?lm)[27 := butlast ?out], lm_memStat := lm_memStat ?lm + of_nat (arrSzMap ! 27)\<rparr>"
  let ?lm2 = "?lm1\<lparr>lm_arrVctByte := (lm_arrVctByte ?lm1)[27 := butlast (butlast ?out)], lm_memStat := lm_memStat ?lm1 + of_nat (arrSzMap ! 27)\<rparr>"
  have "LocalMap_Pop hd 27 ?os ?lm CachePool_new = Some (0x100000, [], ?lm1, ?cp)"
    by (simp add: LocalMap_Pop_def BatchApply_def c a)
  moreover have "LocalMap_Pop hd 27 [] ?lm1 ?cp = Some (0x104000, [], ?lm2, ?cp)"
    by (simp add: LocalMap_Pop_def c)
  ultimately obtain os1 lm1 cp1 os2 lm2 cp2 where p: "LocalMap_Pop hd 27 ?os ?lm CachePool_new = Some (0x100000, os1, lm1, cp1)"
    "LocalMap_Pop hd 27 [] lm1 cp1 = Some (0x104000, os2, lm2, cp2)"
    by blast
  let ?M2 = "\<lparr>mem_maps = [lm1], mem_pool = cp1, mem_used = [(27, 0x100000)]\<rparr>"
  let ?M3 = "\<lparr>mem_maps = [lm2], mem_pool = cp2, mem_used = [(27, 0x104000), (27, 0x100000)]\<rparr>"
  have "memory_step hd ?os ?M1 ?M2"
    using memory_step.pop [of 0 ?M1 ?os hd 27 "0x100000" os1 lm1 cp1] p(1) none(3) unfolding M1 by simp
  then have s2: "sibling_free_step hd ?M1 ?M2" using none(2) sibling_free_step_def by blast
  have r2: "(sibling_free_step hd)\<^sup>*\<^sup>* Memory_start ?M2" using r_into_rtranclp [of "sibling_free_step hd", OF s1] s2 by (rule rtranclp.rtrancl_into_rtrancl)
  have "picks hd" by (simp add: picks_def)
  then have inv: "memory_inv ?M2" by (rule memory_reach_inv [OF r2])
  have "fresh [] (all_bases cp1)" "no_siblings [] ?M2" using memory_inv_apart [OF inv] by (simp_all add: fresh_def no_siblings_def)
  moreover from this have "memory_step hd [] ?M2 ?M3"
    using memory_step.pop [of 0 ?M2 "[]" hd 27 "0x104000" os2 lm2 cp2] p(2) by simp
  ultimately have s3: "sibling_free_step hd ?M2 ?M3" using sibling_free_step_def by blast
  show ?thesis using rtranclp.rtrancl_into_rtrancl [of "sibling_free_step hd", OF r2 s3] by (intro exI [of _ ?M3]) simp
qed

theorem memory_blocks_disjoint_witness:
  "\<exists>M. (sibling_free_step hd)\<^sup>*\<^sup>* Memory_start M \<and> mem_used M = [(27, 0x104000), (27, 0x100000)] \<and>
     block (27, 0x104000) \<inter> block (27, 0x100000) = {}"
proof -
  obtain M where M: "(sibling_free_step hd)\<^sup>*\<^sup>* Memory_start M" "mem_used M = [(27, 0x104000), (27, 0x100000)]" using two_pages_reached by blast
  have "picks hd" by (simp add: picks_def)
  then have "block (mem_used M ! 0) \<inter> block (mem_used M ! 1) = {}" using M by (intro memory_blocks_disjoint [of hd M 0 1]) simp_all
  then show ?thesis using M by auto
qed

text \<open>
  C38: giving memory back ends and does not fail, in a run without sibling buffers. The loop of \<open>BufferPool::Release\<close> has no bound of its own, looks up the buffer of
  the first element of the vector in every round and asserts that it is found. In every state that is reached
  without sibling buffers from \<open>aligned_alloc\<close>, for every element that the program
  holds and every thread, \<open>Push\<close> returns (the loops end, every look-up succeeds), and so does the end of the thread, which returns all
  elements of its vectors.
\<close>

theorem memory_release_returns:
  assumes "(sibling_free_step first)\<^sup>*\<^sup>* Memory_start M" "picks first" "t < length (mem_maps M)" "(unat pos, bys) \<in> set (mem_used M)"
  shows "LocalMap_Push bys pos (mem_maps M ! t) (mem_pool M) \<noteq> None \<and>
    LocalMap_delete (mem_maps M ! t) (mem_pool M) \<noteq> None"
  using memory_inv_push [OF memory_reach_inv [OF assms(1,2)] assms(3,4)] memory_inv_stop [OF memory_reach_inv [OF assms(1,2)] assms(3)] by auto

theorem memory_release_returns_witness:
  "\<exists>M. (sibling_free_step hd)\<^sup>*\<^sup>* Memory_start M \<and> mem_used M = [(27, 0x104000), (27, 0x100000)] \<and>
     LocalMap_Push 0x100000 27 (mem_maps M ! 0) (mem_pool M) \<noteq> None \<and> LocalMap_delete (mem_maps M ! 0) (mem_pool M) \<noteq> None"
proof -
  obtain M where M: "(sibling_free_step hd)\<^sup>*\<^sup>* Memory_start M" "length (mem_maps M) = 1" "mem_used M = [(27, 0x104000), (27, 0x100000)]"
    using two_pages_reached by blast
  have "picks hd" by (simp add: picks_def)
  then show ?thesis using memory_release_returns [of hd M 0 27 "0x100000"] M by auto
qed

section \<open>Where the code is wrong\<close>

text \<open>
  The comparison of \<open>Buffer::Release\<close> is \<open>>\<close> where it should be \<open>>=\<close>: the first element of the sibling
  buffer has distance exactly \<open>CacheBlockSize\<close> and is taken for element 0 of this buffer.
\<close>

lemma Buffer_Release_sibling:
  "Buffer_Release True 32 [0x44000, 0x60000] \<lparr>bf_pBuf = 0x40000, bf_eleSize = 16384, bf_maxEle = 8, bf_vctFree = [2, 3]\<rparr> =
     ([], \<lparr>bf_pBuf = 0x40000, bf_eleSize = 16384, bf_maxEle = 8, bf_vctFree = [2, 3, 0, 1]\<rparr>)"
  by code_simp

text \<open>A large block of a multiple of 4 but not of 16 KiB comes from \<open>new[]\<close> and is given to \<open>free\<close>.\<close>

lemma large_block_mismatch: "MallocLargeBlock 0x5000 = NewArray \<and> FreeLargeBlock 0x5000 = AlignedAlloc"
  by (simp add: MallocLargeBlock_def FreeLargeBlock_def)

end
