(* ===== verification/Str_Buff.thy ===== *)
theory Str_Buff
  imports Data_Value Buffer_Pool
begin

text \<open>
  Text buffers (\<open>cache/StrBuff.h\<close>), the \<open>ToString\<close> of the value classes, and \<open>DataValueNull\<close>. A buffer has the size
  class of the allocator that fits the request; \<open>alloc\<close> gives its contents. \<open>None\<close> is an access beyond the end of a buffer, a
  text without its end, a null pointer, or a request of 0 bytes, which the allocator refuses by an assertion. The text of a floating-point
  number (\<open>printf\<close> with \<open>%f\<close>) is the parameter \<open>ftext\<close>.
\<close>

section \<open>Texts in memory\<close>

text \<open>The characters up to the terminating zero.\<close>

fun c_str :: "buf \<Rightarrow> buf option" where
  "c_str [] = None"
| "c_str (c # cs) = (if c = 0 then Some [] else map_option (Cons c) (c_str cs))"

definition put_bytes :: "nat \<Rightarrow> buf \<Rightarrow> buf \<Rightarrow> buf option" where
  "put_bytes off xs b = (if off + length xs \<le> length b then Some (patch off xs b) else None)"

definition strcpy :: "buf \<Rightarrow> buf \<Rightarrow> buf option" where
  "strcpy dest src = Option.bind (c_str src) (\<lambda>s. put_bytes 0 (s @ [0]) dest)"

definition strcat :: "buf \<Rightarrow> buf \<Rightarrow> buf option" where
  "strcat dest src = Option.bind (c_str dest) (\<lambda>d. Option.bind (c_str src) (\<lambda>s. put_bytes (length d) (s @ [0]) dest))"

definition CachePool_ApplyReal :: "alloc \<Rightarrow> u32 \<Rightarrow> buf option" where
  "CachePool_ApplyReal alloc bufSize =
     (let pos = CalcBufSize bufSize in
      if pos = 0xFFFFFFFF then Some (alloc (unat bufSize))
      else if pos < 28 then Some (alloc (arrSzMap ! unat pos))
      else None)"

section \<open>The class\<close>

record StrBuff =
  sb_buf :: "buf option"
  sb_strLen :: u32

definition sb_bufLen :: "StrBuff \<Rightarrow> u32" where
  "sb_bufLen sb = (case sb_buf sb of None \<Rightarrow> 0 | Some b \<Rightarrow> of_nat (length b))"

definition sb_GetFreeLen :: "StrBuff \<Rightarrow> u32" where
  "sb_GetFreeLen sb = sb_bufLen sb - sb_strLen sb"

definition StrBuff_new :: "alloc \<Rightarrow> u32 \<Rightarrow> StrBuff option" where
  "StrBuff_new alloc len =
     (if len > 0 then map_option (\<lambda>b. \<lparr>sb_buf = Some (b[0 := 0]), sb_strLen = 0\<rparr>) (CachePool_ApplyReal alloc len)
      else Some \<lparr>sb_buf = None, sb_strLen = 0\<rparr>)"

definition StrBuff_of :: "alloc \<Rightarrow> u32 \<Rightarrow> buf \<Rightarrow> StrBuff option" where
  "StrBuff_of alloc len src =
     Option.bind (c_str src) (\<lambda>s.
       let n = of_nat (length s); len = (if len + 1 < n then n + 16 else len) in
       Option.bind (CachePool_ApplyReal alloc len) (\<lambda>b.
         map_option (\<lambda>b. \<lparr>sb_buf = Some b, sb_strLen = n\<rparr>) (strcpy b src)))"

definition sb_Resize :: "alloc \<Rightarrow> u32 \<Rightarrow> StrBuff \<Rightarrow> StrBuff option" where
  "sb_Resize alloc len sb =
     (if len > sb_bufLen sb
      then Option.bind (CachePool_ApplyReal alloc len) (\<lambda>b.
             case sb_buf sb of
               None \<Rightarrow> Some (sb\<lparr>sb_buf := Some b\<rparr>)
             | Some obuf \<Rightarrow> map_option (\<lambda>b. sb\<lparr>sb_buf := Some b\<rparr>) (strcpy b obuf))
      else Some sb)"

definition sb_Copy :: "alloc \<Rightarrow> buf \<Rightarrow> u32 \<Rightarrow> StrBuff \<Rightarrow> StrBuff option" where
  "sb_Copy alloc src len sb =
     Option.bind (if len + 1 \<ge> sb_bufLen sb then CachePool_ApplyReal alloc len else sb_buf sb) (\<lambda>b.
       map_option (\<lambda>b. \<lparr>sb_buf = Some b, sb_strLen = len\<rparr>) (strcpy b src))"

definition sb_Cat :: "alloc \<Rightarrow> buf \<Rightarrow> u32 \<Rightarrow> StrBuff \<Rightarrow> StrBuff option" where
  "sb_Cat alloc src len sb =
     Option.bind
       (if len + 1 \<ge> sb_bufLen sb
        then Option.bind (CachePool_ApplyReal alloc (len + 1)) (\<lambda>b.
               case sb_buf sb of None \<Rightarrow> Some (b[0 := 0]) | Some obuf \<Rightarrow> strcpy b obuf)
        else sb_buf sb)
       (\<lambda>b. map_option (\<lambda>b. \<lparr>sb_buf = Some b, sb_strLen = sb_strLen sb + len\<rparr>) (strcat b src))"

text \<open>\<open>operator==\<close> returns the result of \<open>memcmp\<close>, which is zero for equal bytes.\<close>

definition sb_op_eq :: "StrBuff \<Rightarrow> StrBuff \<Rightarrow> bool option" where
  "sb_op_eq a b =
     (if sb_strLen a \<noteq> sb_strLen b then Some False
      else let n = unat (sb_strLen a) in
        case (sb_buf a, sb_buf b) of
          (Some x, Some y) \<Rightarrow> if n \<le> length x \<and> n \<le> length y then Some (take n x \<noteq> take n y) else None
        | _ \<Rightarrow> None)"

text \<open>Text written behind the length (\<open>GetFreeBuff\<close>, then \<open>SetStrLen\<close>).\<close>

definition sb_print :: "buf \<Rightarrow> StrBuff \<Rightarrow> StrBuff option" where
  "sb_print txt sb =
     Option.bind (sb_buf sb) (\<lambda>b.
       map_option (\<lambda>b. \<lparr>sb_buf = Some b, sb_strLen = sb_strLen sb + of_nat (length txt)\<rparr>)
         (put_bytes (unat (sb_strLen sb)) (txt @ [0]) b))"

section \<open>Texts of values\<close>

fun dec_nat :: "nat \<Rightarrow> buf" where
  "dec_nat n = (if n < 10 then [48 + of_nat n] else dec_nat (n div 10) @ [48 + of_nat (n mod 10)])"

declare dec_nat.simps [simp del]

definition dec_int :: "int \<Rightarrow> buf" where
  "dec_int i = (if i < 0 then 45 # dec_nat (nat (- i)) else dec_nat (nat i))"

text \<open>\<open>Sprintf\<close>: a \<open>UINT\<close> is printed with \<open>%d\<close>.\<close>

fun Sprintf :: "(DataType \<Rightarrow> u64 \<Rightarrow> buf) \<Rightarrow> DataType \<Rightarrow> u64 \<Rightarrow> buf" where
  "Sprintf ftext DT_UINT v = dec_int (sint (ucast v :: u32))"
| "Sprintf ftext DT_BOOL v = (if v \<noteq> 0 then [116, 114, 117, 101] else [102, 97, 108, 115, 101])"
| "Sprintf ftext DT_FLOAT v = ftext DT_FLOAT v"
| "Sprintf ftext DT_DOUBLE v = ftext DT_DOUBLE v"
| "Sprintf ftext dt v = dec_int (digit_value dt v)"

definition Digit_ToString :: "alloc \<Rightarrow> (DataType \<Rightarrow> u64 \<Rightarrow> buf) \<Rightarrow> DataValueDigit \<Rightarrow> StrBuff \<Rightarrow> StrBuff option" where
  "Digit_ToString alloc ftext dv sb =
     (let need = (if dg_type dv = DT_DATETIME then 22 else 24) in
      if dg_valType dv = NULL_VALUE then Some sb
      else Option.bind (if need > sb_GetFreeLen sb then sb_Resize alloc (sb_strLen sb + need) sb else Some sb)
             (sb_print (Sprintf ftext (dg_type dv) (dg_value dv))))"

definition FixChar_ToString :: "alloc \<Rightarrow> CharsValue \<Rightarrow> StrBuff \<Rightarrow> StrBuff option" where
  "FixChar_ToString alloc dv sb =
     (if ch_valType dv = NULL_VALUE then Some sb else sb_Cat alloc (ch_bysValue dv) (ch_maxLength dv) sb)"

definition VarChar_ToString :: "alloc \<Rightarrow> CharsValue \<Rightarrow> StrBuff \<Rightarrow> StrBuff option" where
  "VarChar_ToString alloc dv sb =
     (if ch_valType dv = NULL_VALUE then Some sb else sb_Cat alloc (ch_bysValue dv) (ch_soleLength dv) sb)"

definition hex_digit :: "nat \<Rightarrow> byte" where
  "hex_digit n = (if n < 10 then 48 + of_nat n else 55 + of_nat n)"

definition hex_byte :: "byte \<Rightarrow> buf" where
  "hex_byte b = [hex_digit (unat b div 16), hex_digit (unat b mod 16)]"

definition Blob_ToString :: "alloc \<Rightarrow> CharsValue \<Rightarrow> StrBuff \<Rightarrow> StrBuff option" where
  "Blob_ToString alloc dv sb =
     (let n = ch_soleLength dv in
      if ch_valType dv = NULL_VALUE then Some sb
      else if length (ch_bysValue dv) < unat n then None
      else Option.bind (if n * 2 + 3 > sb_GetFreeLen sb then sb_Resize alloc (sb_strLen sb + n * 2 + 3) sb else Some sb)
             (sb_print ([48, 120] @ concat (map hex_byte (take (unat n) (ch_bysValue dv))))))"

section \<open>Values with \<open>DataValueNull\<close>\<close>

datatype ExprValue = EV_Null | EV DataValue

fun ev_type :: "ExprValue \<Rightarrow> DataType" where
  "ev_type EV_Null = DT_VAL_NULL"
| "ev_type (EV v) = dv_type v"

fun ev_IsNull :: "ExprValue \<Rightarrow> bool" where
  "ev_IsNull EV_Null = True"
| "ev_IsNull (EV v) = dv_IsNull v"

fun ev_GetDataLength :: "ExprValue \<Rightarrow> u32" where
  "ev_GetDataLength EV_Null = 0"
| "ev_GetDataLength (EV v) = dv_GetDataLength v"

fun ev_GetLong :: "fp_ops \<Rightarrow> ExprValue \<Rightarrow> u64" where
  "ev_GetLong fp EV_Null = 0"
| "ev_GetLong fp (EV v) = dv_GetLong fp v"

fun ev_GetDouble :: "fp_ops \<Rightarrow> ExprValue \<Rightarrow> u64" where
  "ev_GetDouble fp EV_Null = 0"
| "ev_GetDouble fp (EV v) = dv_GetDouble fp v"

fun ev_ToString :: "alloc \<Rightarrow> (DataType \<Rightarrow> u64 \<Rightarrow> buf) \<Rightarrow> ExprValue \<Rightarrow> StrBuff \<Rightarrow> StrBuff option" where
  "ev_ToString alloc ftext EV_Null sb = Some sb"
| "ev_ToString alloc ftext (EV (DV_Digit d)) sb = Digit_ToString alloc ftext d sb"
| "ev_ToString alloc ftext (EV (DV_FixChar c)) sb = FixChar_ToString alloc c sb"
| "ev_ToString alloc ftext (EV (DV_VarChar c)) sb = VarChar_ToString alloc c sb"
| "ev_ToString alloc ftext (EV (DV_Blob c)) sb = Blob_ToString alloc c sb"

text \<open>\<open>Clone(true)\<close>: a copy with its value.\<close>

fun ev_Clone :: "ExprValue \<Rightarrow> ExprValue" where
  "ev_Clone EV_Null = EV_Null"
| "ev_Clone (EV (DV_Digit d)) = EV (DV_Digit (Digit_Clone d))"
| "ev_Clone (EV (DV_FixChar c)) = EV (DV_FixChar (c\<lparr>ch_refCount := 1\<rparr>))"
| "ev_Clone (EV (DV_VarChar c)) = EV (DV_VarChar (c\<lparr>ch_refCount := 1\<rparr>))"
| "ev_Clone (EV (DV_Blob c)) = EV (DV_Blob (c\<lparr>ch_refCount := 1\<rparr>))"

lemma ev_type_Clone [simp]: "ev_type (ev_Clone v) = ev_type v"
  by (cases v rule: ev_Clone.cases) (simp_all add: Digit_Clone_def)

text \<open>\<open>AbleCompare\<close>, and the operators of \<open>DataValueFactory.h\<close> when an operand may be \<open>DataValueNull\<close>.\<close>

definition AbleCompare :: "ExprValue \<Rightarrow> ExprValue \<Rightarrow> bool" where
  "AbleCompare a b \<longleftrightarrow> ev_type a = ev_type b \<or> IsDigital (ev_type a) \<and> IsDigital (ev_type b) \<or>
     IsArrayType (ev_type a) \<and> IsArrayType (ev_type b)"

fun ev_op_eq :: "fp_ops \<Rightarrow> ExprValue \<Rightarrow> ExprValue \<Rightarrow> bool option" where
  "ev_op_eq fp EV_Null EV_Null = Some True"
| "ev_op_eq fp EV_Null (EV w) = Some False"
| "ev_op_eq fp (EV v) EV_Null =
     Some (IsArrayType (dv_type v) \<and> \<not> BytesEqual (dv_GetBuff v) (ucast (dv_GetDataLength v)) [] 0)"
| "ev_op_eq fp (EV v) (EV w) = dv_op_eq fp v w"

fun ev_op_gt :: "fp_ops \<Rightarrow> ExprValue \<Rightarrow> ExprValue \<Rightarrow> bool option" where
  "ev_op_gt fp EV_Null EV_Null = Some False"
| "ev_op_gt fp EV_Null (EV w) = Some True"
| "ev_op_gt fp (EV v) EV_Null =
     Some (if IsArrayType (dv_type v) then BytesCompare (dv_GetBuff v) (ucast (dv_GetDataLength v)) [] 0 > 0
           else \<not> IsDigital (dv_type v))"
| "ev_op_gt fp (EV v) (EV w) = dv_op_gt fp v w"

fun ev_op_ge :: "fp_ops \<Rightarrow> ExprValue \<Rightarrow> ExprValue \<Rightarrow> bool option" where
  "ev_op_ge fp EV_Null EV_Null = Some True"
| "ev_op_ge fp EV_Null (EV w) = Some True"
| "ev_op_ge fp (EV v) EV_Null =
     Some (if IsArrayType (dv_type v) then BytesCompare (dv_GetBuff v) (ucast (dv_GetDataLength v)) [] 0 \<ge> 0
           else \<not> IsDigital (dv_type v))"
| "ev_op_ge fp (EV v) (EV w) = dv_op_ge fp v w"

definition ev_op_ne :: "fp_ops \<Rightarrow> ExprValue \<Rightarrow> ExprValue \<Rightarrow> bool option" where
  "ev_op_ne fp a b = map_option Not (ev_op_eq fp a b)"

definition ev_op_lt :: "fp_ops \<Rightarrow> ExprValue \<Rightarrow> ExprValue \<Rightarrow> bool option" where
  "ev_op_lt fp a b = map_option Not (ev_op_ge fp a b)"

definition ev_op_le :: "fp_ops \<Rightarrow> ExprValue \<Rightarrow> ExprValue \<Rightarrow> bool option" where
  "ev_op_le fp a b = map_option Not (ev_op_gt fp a b)"

section \<open>The operators with their operands exchanged\<close>

text \<open>The bit pattern of a NaN of type \<open>double\<close>; the comparison of doubles that are no NaN is total.\<close>

definition is_nan :: "u64 \<Rightarrow> bool" where
  "is_nan x \<longleftrightarrow> x AND 0x7FF0000000000000 = 0x7FF0000000000000 \<and> x AND 0x000FFFFFFFFFFFFF \<noteq> 0"

definition fp_total :: "fp_ops \<Rightarrow> bool" where
  "fp_total fp \<longleftrightarrow> (\<forall>x y. \<not> is_nan x \<and> \<not> is_nan y \<longrightarrow>
     fp_eq fp x y = fp_eq fp y x \<and> (fp_lt fp x y \<longleftrightarrow> \<not> (fp_lt fp y x \<or> fp_eq fp y x)))"

text \<open>A text whose bytes are there, less than 2 GiB of them; a number that is no NaN.\<close>

fun ev_ok :: "fp_ops \<Rightarrow> ExprValue \<Rightarrow> bool" where
  "ev_ok fp (EV (DV_FixChar c)) = (ch_valType c = NULL_VALUE \<or> unat (ch_maxLength c) \<le> length (ch_bysValue c) \<and> unat (ch_maxLength c) < 2 ^ 31)"
| "ev_ok fp (EV (DV_VarChar c)) = (ch_valType c = NULL_VALUE \<or> unat (ch_soleLength c) \<le> length (ch_bysValue c) \<and> unat (ch_soleLength c) < 2 ^ 31)"
| "ev_ok fp (EV (DV_Blob c)) = (ch_valType c = NULL_VALUE \<or> unat (ch_soleLength c) \<le> length (ch_bysValue c) \<and> unat (ch_soleLength c) < 2 ^ 31)"
| "ev_ok fp (EV (DV_Digit d)) \<longleftrightarrow> digit_type (dg_type d) \<and> \<not> is_nan (Digit_GetDouble fp d)"
| "ev_ok fp EV_Null = True"

lemma BytesEqual_sym: "BytesEqual a l b k = BytesEqual b k a l"
proof -
  have c: "equal_chunks n x y = equal_chunks n y x" for n and x y :: buf by (induction n x y rule: equal_chunks.induct) auto
  have r: "equal_rest n x y = equal_rest n y x" for n and x y :: buf by (induction n x y rule: equal_rest.induct) auto
  show ?thesis unfolding BytesEqual_def Let_def using c r by (cases "l = k") auto
qed

lemma BytesCompare_swap:
  fixes k l :: u32
  assumes "unat l \<le> length a" "unat k \<le> length b" "unat l < 2 ^ 31" "unat k < 2 ^ 31"
  shows "BytesCompare a (ucast l) b (ucast k) = 0 \<longleftrightarrow> BytesCompare b (ucast k) a (ucast l) = 0"
    "0 < BytesCompare a (ucast l) b (ucast k) \<longleftrightarrow> BytesCompare b (ucast k) a (ucast l) < 0"
    "0 \<le> BytesCompare a (ucast l) b (ucast k) \<longleftrightarrow> BytesCompare b (ucast k) a (ucast l) \<le> 0"
proof -
  have u: "unat (ucast n :: u64) = unat n" for n :: u32 using unsigned_less [of n, where ?'a = nat] by (simp add: unsigned_ucast_eq take_bit_nat_eq_self)
  have "sgn (BytesCompare a (ucast l) b (ucast k)) = - sgn (BytesCompare b (ucast k) a (ucast l))"
    using assms bytes_cmp_sgn [of "take (unat l) a" "take (unat k) b"] bytes_cmp_sgn [of "take (unat k) b" "take (unat l) a"]
      lexcmp_swap [of "take (unat l) a" "take (unat k) b"] by (simp add: BytesCompare_take u)
  then show "BytesCompare a (ucast l) b (ucast k) = 0 \<longleftrightarrow> BytesCompare b (ucast k) a (ucast l) = 0"
    "0 < BytesCompare a (ucast l) b (ucast k) \<longleftrightarrow> BytesCompare b (ucast k) a (ucast l) < 0"
    "0 \<le> BytesCompare a (ucast l) b (ucast k) \<longleftrightarrow> BytesCompare b (ucast k) a (ucast l) \<le> 0"
    by (auto simp: sgn_if split: if_splits)
qed

lemma fp_totalD:
  assumes "fp_total fp" "\<not> is_nan x" "\<not> is_nan y"
  shows "fp_eq fp x y = fp_eq fp y x" "fp_lt fp x y \<longleftrightarrow> \<not> (fp_lt fp y x \<or> fp_eq fp y x)"
  using assms unfolding fp_total_def by blast+

lemma val_swap:
  assumes "fp_total fp" "\<not> is_nan (fp_double fp dt x)" "\<not> is_nan (fp_double fp dt y)"
  shows "val_eq fp dt x y = val_eq fp dt y x" "val_gt fp dt x y = (\<not> val_ge fp dt y x)"
proof -
  let ?x = "fp_double fp dt x" and ?y = "fp_double fp dt y"
  note t = fp_totalD [OF assms] fp_totalD(2) [OF assms(1,3,2)]
  show "val_eq fp dt x y = val_eq fp dt y x"
    unfolding val_eq_def using t(1) eq_commute [of "digit_value dt x" "digit_value dt y"] by argo
  show "val_gt fp dt x y = (\<not> val_ge fp dt y x)"
  proof (cases "is_float dt")
    case True
    then show ?thesis unfolding val_gt_def val_ge_def val_eq_def if_P [OF True] using t by blast
  next
    case False
    then show ?thesis by (auto simp: val_gt_def val_ge_def val_eq_def)
  qed
qed

lemma Digit_swap:
  assumes "fp_total fp" "dg_type a = dg_type b" "\<not> is_nan (Digit_GetDouble fp a)" "\<not> is_nan (Digit_GetDouble fp b)"
  shows "Digit_EQ fp a b = Digit_EQ fp b a" "Digit_GT fp a b = Digit_LT fp b a"
proof -
  have sw: "val_eq fp (dg_type a) (dg_value a) (dg_value b) = val_eq fp (dg_type a) (dg_value b) (dg_value a) \<and>
      val_gt fp (dg_type a) (dg_value a) (dg_value b) = (\<not> val_ge fp (dg_type a) (dg_value b) (dg_value a))"
    if "dg_valType a \<noteq> NULL_VALUE" "dg_valType b \<noteq> NULL_VALUE"
    using val_swap [OF assms(1), of "dg_type a" "dg_value a" "dg_value b"] assms(2-4) that by (simp add: Digit_GetDouble_def)
  have "Digit_op_eq fp a b = Digit_op_eq fp b a"
    using sw by (cases "dg_valType a = NULL_VALUE"; cases "dg_valType b = NULL_VALUE") (simp_all add: Digit_op_eq_def assms(2))
  then show "Digit_EQ fp a b = Digit_EQ fp b a" by (simp add: Digit_EQ_def assms(2))
  have "Digit_op_gt fp a b = Digit_op_lt fp b a"
    using sw by (cases "dg_valType a = NULL_VALUE"; cases "dg_valType b = NULL_VALUE")
      (simp_all add: Digit_op_gt_def Digit_op_lt_def Digit_op_ge_def assms(2))
  then show "Digit_GT fp a b = Digit_LT fp b a" by (simp add: Digit_GT_def Digit_LT_def assms(2))
qed

lemma Chars_swap:
  "ev_ok fp (EV (DV_FixChar a)) \<Longrightarrow> ev_ok fp (EV (DV_FixChar b)) \<Longrightarrow> FixChar_op_eq a b = FixChar_op_eq b a \<and> FixChar_op_gt a b = FixChar_op_lt b a"
  "ev_ok fp (EV (DV_VarChar a)) \<Longrightarrow> ev_ok fp (EV (DV_VarChar b)) \<Longrightarrow> VarChar_op_eq a b = VarChar_op_eq b a \<and> VarChar_op_gt a b = VarChar_op_lt b a"
  "ev_ok fp (EV (DV_Blob a)) \<Longrightarrow> ev_ok fp (EV (DV_Blob b)) \<Longrightarrow> Blob_op_eq a b = Blob_op_eq b a"
  using BytesCompare_swap [of "ch_maxLength a" "ch_bysValue a" "ch_maxLength b" "ch_bysValue b"]
    BytesCompare_swap [of "ch_soleLength a" "ch_bysValue a" "ch_soleLength b" "ch_bysValue b"]
  by (auto simp: FixChar_op_eq_def FixChar_op_gt_def FixChar_op_lt_def FixChar_op_ge_def FixChar_cmp_def VarChar_op_eq_def VarChar_op_gt_def
      VarChar_op_lt_def VarChar_op_ge_def VarChar_cmp_def Blob_op_eq_def VarChar_GetDataLength_def Blob_GetDataLength_def Let_def)

lemma same_type_swap:
  assumes "fp_total fp" "dv_type v = dv_type w" "ev_ok fp (EV v)" "ev_ok fp (EV w)"
  shows "dv_EQ fp v w = dv_EQ fp w v" "dv_GT fp v w = dv_LT fp w v"
  using assms Digit_swap [OF assms(1)] Chars_swap [where fp = fp]
  by (cases v; cases w; simp; blast)+

lemma digit_no_array: "digit_type dt \<Longrightarrow> \<not> IsArrayType dt" "digit_type dt \<Longrightarrow> dt \<noteq> DT_VAL_NULL"
  by (auto simp: digit_type_def data_type_flags)

text \<open>The bytes of an array value as the operators see them.\<close>

lemma array_swap:
  assumes "IsArrayType (dv_type v)" "IsArrayType (dv_type w)" "ev_ok fp (EV v)" "ev_ok fp (EV w)"
  shows "BytesCompare (dv_GetBuff v) (ucast (dv_GetDataLength v)) (dv_GetBuff w) (ucast (dv_GetDataLength w)) > 0 \<longleftrightarrow>
      BytesCompare (dv_GetBuff w) (ucast (dv_GetDataLength w)) (dv_GetBuff v) (ucast (dv_GetDataLength v)) < 0"
    "BytesCompare (dv_GetBuff v) (ucast (dv_GetDataLength v)) (dv_GetBuff w) (ucast (dv_GetDataLength w)) \<ge> 0 \<longleftrightarrow>
      BytesCompare (dv_GetBuff w) (ucast (dv_GetDataLength w)) (dv_GetBuff v) (ucast (dv_GetDataLength v)) \<le> 0"
proof -
  have l: "unat (dv_GetDataLength x) \<le> length (dv_GetBuff x) \<and> unat (dv_GetDataLength x) < 2 ^ 31"
    if "ev_ok fp (EV x)" "IsArrayType (dv_type x)" for x
    using that digit_no_array by (cases x) (auto simp: FixChar_GetDataLength_def VarChar_GetDataLength_def Blob_GetDataLength_def Digit_GetDataLength_def)
  show "BytesCompare (dv_GetBuff v) (ucast (dv_GetDataLength v)) (dv_GetBuff w) (ucast (dv_GetDataLength w)) > 0 \<longleftrightarrow>
      BytesCompare (dv_GetBuff w) (ucast (dv_GetDataLength w)) (dv_GetBuff v) (ucast (dv_GetDataLength v)) < 0"
    "BytesCompare (dv_GetBuff v) (ucast (dv_GetDataLength v)) (dv_GetBuff w) (ucast (dv_GetDataLength w)) \<ge> 0 \<longleftrightarrow>
      BytesCompare (dv_GetBuff w) (ucast (dv_GetDataLength w)) (dv_GetBuff v) (ucast (dv_GetDataLength v)) \<le> 0"
    using BytesCompare_swap [of "dv_GetDataLength v" "dv_GetBuff v" "dv_GetDataLength w" "dv_GetBuff w"] l assms by auto
qed

lemma dv_op_swap:
  assumes "fp_total fp" "AbleCompare (EV v) (EV w)" "ev_ok fp (EV v)" "ev_ok fp (EV w)"
  shows "dv_op_eq fp v w = dv_op_eq fp w v" "dv_op_gt fp v w = dv_op_lt fp w v" "dv_op_ge fp v w = dv_op_le fp w v"
proof -
  have t: "dv_type v = dv_type w \<or> dv_type v \<noteq> dv_type w \<and> IsDigital (dv_type v) \<and> IsDigital (dv_type w) \<or>
    dv_type v \<noteq> dv_type w \<and> \<not> IsDigital (dv_type v) \<and> \<not> IsAutoPrimaryKey (dv_type v) \<and>
    \<not> IsDigital (dv_type w) \<and> \<not> IsAutoPrimaryKey (dv_type w) \<and> IsArrayType (dv_type v) \<and> IsArrayType (dv_type w)"
    using assms(2) by (cases "dv_type v"; cases "dv_type w"; simp add: AbleCompare_def data_type_flags)
  note st = same_type_swap [OF assms(1) _ assms(3,4)] same_type_swap [OF assms(1) _ assms(4,3)]
  note ar = array_swap [OF _ _ assms(3,4)] array_swap [OF _ _ assms(4,3)]
  consider (same) "dv_type v = dv_type w" | (digit) "dv_type v \<noteq> dv_type w" "IsDigital (dv_type v)" "IsDigital (dv_type w)"
    | (chars) "dv_type v \<noteq> dv_type w" "\<not> IsDigital (dv_type v)" "\<not> IsAutoPrimaryKey (dv_type v)"
        "\<not> IsDigital (dv_type w)" "\<not> IsAutoPrimaryKey (dv_type w)" "IsArrayType (dv_type v)" "IsArrayType (dv_type w)"
    using t by blast
  then have all: "dv_op_eq fp v w = dv_op_eq fp w v \<and> dv_op_gt fp v w = dv_op_lt fp w v \<and> dv_op_ge fp v w = dv_op_le fp w v"
  proof cases
    case same
    then show ?thesis using st
      by (simp add: dv_op_eq_def dv_op_gt_def dv_op_ge_def dv_op_lt_def dv_op_le_def option.map_comp o_def option.map_ident)
  next
    case digit
    then have "\<not> is_nan (dv_GetDouble fp v)" "\<not> is_nan (dv_GetDouble fp w)"
      using assms(3,4) by (cases v; cases w; simp add: data_type_flags)+
    note fl = fp_totalD [OF assms(1) this] fp_totalD(2) [OF assms(1) this(2,1)]
    from digit show ?thesis using fl by (auto simp: dv_op_eq_def dv_op_gt_def dv_op_ge_def dv_op_lt_def dv_op_le_def)
  next
    case chars
    then show ?thesis using ar BytesEqual_sym [of "dv_GetBuff v" _ "dv_GetBuff w"]
      by (auto simp: dv_op_eq_def dv_op_gt_def dv_op_ge_def dv_op_lt_def dv_op_le_def)
  qed
  then show "dv_op_eq fp v w = dv_op_eq fp w v" "dv_op_gt fp v w = dv_op_lt fp w v" "dv_op_ge fp v w = dv_op_le fp w v" by blast+
qed

text \<open>Exchanging the operands of a comparison that the types allow.\<close>

lemma ev_op_swap:
  assumes "fp_total fp" "AbleCompare a b" "ev_ok fp a" "ev_ok fp b"
  shows "ev_op_eq fp a b = ev_op_eq fp b a" "ev_op_gt fp a b = ev_op_lt fp b a" "ev_op_ge fp a b = ev_op_le fp b a"
proof -
  have n: "\<not> AbleCompare EV_Null (EV v)" "\<not> AbleCompare (EV v) EV_Null" if "ev_ok fp (EV v)" for v
    using that digit_no_array(2) by (cases v; force simp: AbleCompare_def data_type_flags)+
  have "ev_op_eq fp a b = ev_op_eq fp b a \<and> ev_op_gt fp a b = ev_op_lt fp b a \<and> ev_op_ge fp a b = ev_op_le fp b a"
  proof (cases a)
    case EV_Null
    then have "b = EV_Null" using n(1) assms(2,4) by (cases b) auto
    then show ?thesis using EV_Null by (simp add: ev_op_lt_def ev_op_le_def)
  next
    case (EV v)
    then obtain w where w: "b = EV w" using n(2) assms(2,3) by (cases b) auto
    show ?thesis using dv_op_swap [OF assms(1), of v w] assms(2-4)
      by (simp add: EV w ev_op_lt_def ev_op_le_def dv_op_lt_def dv_op_le_def)
  qed
  then show "ev_op_eq fp a b = ev_op_eq fp b a" "ev_op_gt fp a b = ev_op_lt fp b a" "ev_op_ge fp a b = ev_op_le fp b a" by blast+
qed

end
