(* ===== verification/Expr_Data.thy ===== *)
theory Expr_Data
  imports Str_Buff "HOL-Library.Signed_Division"
begin

text \<open>
  Expressions over values: \<open>expr/ExprData.h\<close> and the aggregates of \<open>expr/ExprAggr.h\<close>. A class is a constructor of the
  datatype, its \<open>Calc\<close> an equation; the values of the row and of the parameters are lists. The outer \<open>None\<close> is a null pointer
  that is used, an index outside a vector, a signed overflow, a failed assertion or an uncaught exception; \<open>Some None\<close> is the null
  pointer that \<open>Calc\<close> may return. Reference counts are left out: a value that is shared is the same value. What C++ does with
  floating-point numbers and what the allocator gives are the fields of \<open>externals\<close>.
\<close>

record externals =
  x_fp :: fp_ops
  x_sub :: "u64 \<Rightarrow> u64 \<Rightarrow> u64"
  x_mul :: "u64 \<Rightarrow> u64 \<Rightarrow> u64"
  x_div :: "u64 \<Rightarrow> u64 \<Rightarrow> u64"
  x_text :: "DataType \<Rightarrow> u64 \<Rightarrow> buf"
  x_alloc :: alloc

section \<open>Kinds of expressions\<close>

datatype ExprType = EXPR_BASE | EXPR_STAR | EXPR_ARRAY
  | EXPR_CONST | EXPR_PARAMETER | EXPR_FIELD | EXPR_ADD | EXPR_SUB | EXPR_MUL | EXPR_DIV | EXPR_MINUS | EXPR_DATA_END
  | EXPR_COUNT | EXPR_SUM | EXPR_MAX | EXPR_MIN | EXPR_AVG | EXPR_AGGR_END
  | EXPR_COMP | EXPR_IN_OR_NOT | EXPR_IS_NULL_NOT | EXPR_BETWEEN | EXPR_LIKE | EXPR_EXIST | EXPR_NOT_EXIST
  | EXPR_AND | EXPR_OR | EXPR_NOT | EXPR_LOGIC_END

datatype CompType = EQ | GT | GE | LT | LE | NE

datatype ExprData = ExprConst ExprValue | ExprField int | ExprParameter int
  | ExprAdd ExprData ExprData | ExprSub ExprData ExprData | ExprMul ExprData ExprData | ExprDiv ExprData ExprData
  | ExprMinus ExprData

fun ExprData_GetType :: "ExprData \<Rightarrow> ExprType" where
  "ExprData_GetType (ExprConst v) = EXPR_CONST"
| "ExprData_GetType (ExprField pos) = EXPR_FIELD"
| "ExprData_GetType (ExprParameter pos) = EXPR_PARAMETER"
| "ExprData_GetType (ExprAdd l r) = EXPR_ADD"
| "ExprData_GetType (ExprSub l r) = EXPR_SUB"
| "ExprData_GetType (ExprMul l r) = EXPR_MUL"
| "ExprData_GetType (ExprDiv l r) = EXPR_DIV"
| "ExprData_GetType (ExprMinus e) = EXPR_MINUS"

fun IsConstValue :: "ExprData \<Rightarrow> bool" where
  "IsConstValue (ExprConst v) = True"
| "IsConstValue (ExprField pos) = False"
| "IsConstValue (ExprParameter pos) = True"
| "IsConstValue (ExprAdd l r) = (IsConstValue l \<and> IsConstValue r)"
| "IsConstValue (ExprSub l r) = (IsConstValue l \<and> IsConstValue r)"
| "IsConstValue (ExprMul l r) = (IsConstValue l \<and> IsConstValue r)"
| "IsConstValue (ExprDiv l r) = (IsConstValue l \<and> IsConstValue r)"
| "IsConstValue (ExprMinus e) = IsConstValue e"

fun ExprConst_IsNull :: "ExprData \<Rightarrow> bool" where
  "ExprConst_IsNull (ExprConst v) = (ev_type v = DT_VAL_NULL)"
| "ExprConst_IsNull e = False"

text \<open>The elements of a type, appended to \<open>vctElem\<close>.\<close>

fun ExprData_CollectElem :: "ExprType \<Rightarrow> ExprData \<Rightarrow> ExprData list \<Rightarrow> ExprData list" where
  "ExprData_CollectElem type (ExprConst v) vct = (if type = EXPR_CONST then vct @ [ExprConst v] else vct)"
| "ExprData_CollectElem type (ExprField pos) vct = (if type = EXPR_FIELD then vct @ [ExprField pos] else vct)"
| "ExprData_CollectElem type (ExprParameter pos) vct = (if type = EXPR_PARAMETER then vct @ [ExprParameter pos] else vct)"
| "ExprData_CollectElem type (ExprAdd l r) vct =
     ExprData_CollectElem type r (ExprData_CollectElem type l (if type = EXPR_ADD then vct @ [ExprAdd l r] else vct))"
| "ExprData_CollectElem type (ExprSub l r) vct =
     ExprData_CollectElem type r (ExprData_CollectElem type l (if type = EXPR_SUB then vct @ [ExprSub l r] else vct))"
| "ExprData_CollectElem type (ExprMul l r) vct =
     ExprData_CollectElem type r (ExprData_CollectElem type l (if type = EXPR_MUL then vct @ [ExprMul l r] else vct))"
| "ExprData_CollectElem type (ExprDiv l r) vct =
     ExprData_CollectElem type r (ExprData_CollectElem type l (if type = EXPR_DIV then vct @ [ExprDiv l r] else vct))"
| "ExprData_CollectElem type (ExprMinus e) vct =
     ExprData_CollectElem type e (if type = EXPR_MINUS then vct @ [ExprMinus e] else vct)"

section \<open>Arithmetic\<close>

definition new_long :: "int \<Rightarrow> ExprValue option" where
  "new_long i = (if -(2 ^ 63) \<le> i \<and> i < 2 ^ 63 then Some (EV (DV_Digit (Digit_new DT_LONG (of_int i)))) else None)"

definition new_double :: "u64 \<Rightarrow> ExprValue" where
  "new_double d = EV (DV_Digit (Digit_new DT_DOUBLE d))"

definition both_long :: "ExprValue \<Rightarrow> ExprValue \<Rightarrow> bool" where
  "both_long l r \<longleftrightarrow> IsAutoPrimaryKey (ev_type l) \<and> IsAutoPrimaryKey (ev_type r)"

definition both_digital :: "ExprValue \<Rightarrow> ExprValue \<Rightarrow> bool" where
  "both_digital l r \<longleftrightarrow> IsDigital (ev_type l) \<and> IsDigital (ev_type r)"

text \<open>The \<open>StrBuff\<close> that gets both texts; the new value has all its \<open>_strLen\<close> bytes.\<close>

definition concat_texts :: "externals \<Rightarrow> ExprValue \<Rightarrow> ExprValue \<Rightarrow> ExprValue option" where
  "concat_texts X l r =
     Option.bind (StrBuff_new (x_alloc X) (ev_GetDataLength l * 2 + ev_GetDataLength r * 2)) (\<lambda>sb.
     Option.bind (ev_ToString (x_alloc X) (x_text X) l sb) (\<lambda>sb.
     Option.bind (ev_ToString (x_alloc X) (x_text X) r sb) (\<lambda>sb.
     Option.bind (sb_buf sb) (\<lambda>b.
       if unat (sb_strLen sb) \<le> length b \<and> CachePool_ApplyReal (x_alloc X) (sb_strLen sb) \<noteq> None
       then Some (EV (DV_VarChar (VarChar_new b (sb_strLen sb) 0xFFFFFFFF))) else None))))"

definition Add_values :: "externals \<Rightarrow> ExprValue \<Rightarrow> ExprValue \<Rightarrow> ExprValue option" where
  "Add_values X l r =
     (let fp = x_fp X in
      if both_long l r then new_long (sint (ev_GetLong fp l) + sint (ev_GetLong fp r))
      else if both_digital l r then Some (new_double (fp_add fp DT_DOUBLE (ev_GetDouble fp l) (ev_GetDouble fp r)))
      else if IsStringType (ev_type l) \<or> IsStringType (ev_type r) then concat_texts X l r
      else Some (ev_Clone l))"

definition Sub_values :: "externals \<Rightarrow> ExprValue \<Rightarrow> ExprValue \<Rightarrow> ExprValue option" where
  "Sub_values X l r =
     (let fp = x_fp X in
      if both_long l r then new_long (sint (ev_GetLong fp l) - sint (ev_GetLong fp r))
      else if both_digital l r then Some (new_double (x_sub X (ev_GetDouble fp l) (ev_GetDouble fp r)))
      else Some (ev_Clone l))"

definition Mul_values :: "externals \<Rightarrow> ExprValue \<Rightarrow> ExprValue \<Rightarrow> ExprValue option" where
  "Mul_values X l r =
     (let fp = x_fp X in
      if both_long l r then new_long (sint (ev_GetLong fp l) * sint (ev_GetLong fp r))
      else if both_digital l r then Some (new_double (x_mul X (ev_GetDouble fp l) (ev_GetDouble fp r)))
      else Some (ev_Clone l))"

definition Div_values :: "externals \<Rightarrow> ExprValue \<Rightarrow> ExprValue \<Rightarrow> ExprValue option" where
  "Div_values X l r =
     (let fp = x_fp X in
      if both_long l r \<and> sint (ev_GetLong fp r) \<noteq> 0 then new_long (sint (ev_GetLong fp l) sdiv sint (ev_GetLong fp r))
      else if \<not> both_long l r \<and> both_digital l r \<and> \<not> fp_eq fp (ev_GetDouble fp r) 0
      then Some (new_double (x_div X (ev_GetDouble fp l) (ev_GetDouble fp r)))
      else Some (ev_Clone l))"

definition Minus_value :: "externals \<Rightarrow> ExprValue \<Rightarrow> ExprValue option" where
  "Minus_value X v =
     (let fp = x_fp X in
      if IsAutoPrimaryKey (ev_type v) then Some (EV (DV_Digit (Digit_new DT_LONG (ev_GetLong fp v))))
      else if IsDigital (ev_type v) \<and> \<not> fp_eq fp (ev_GetDouble fp v) 0 then Some (new_double (ev_GetDouble fp v))
      else None)"

text \<open>Both operands are calculated before the first one is used.\<close>

definition with_values :: "(ExprValue \<Rightarrow> ExprValue \<Rightarrow> ExprValue option) \<Rightarrow> ExprValue option option \<Rightarrow> ExprValue option option \<Rightarrow>
    ExprValue option option" where
  "with_values f left right =
     (case (left, right) of (Some (Some l), Some (Some r)) \<Rightarrow> map_option Some (f l r) | _ \<Rightarrow> None)"

definition value_at :: "ExprValue list \<Rightarrow> int \<Rightarrow> ExprValue option option" where
  "value_at vd pos = (if 0 \<le> pos \<and> nat pos < length vd then Some (Some (vd ! nat pos)) else None)"

fun ExprData_Calc :: "externals \<Rightarrow> ExprValue list \<Rightarrow> ExprValue list \<Rightarrow> ExprData \<Rightarrow> ExprValue option option" where
  "ExprData_Calc X vdParas vdRow (ExprConst v) = Some (Some v)"
| "ExprData_Calc X vdParas vdRow (ExprField pos) = value_at vdRow pos"
| "ExprData_Calc X vdParas vdRow (ExprParameter pos) = value_at vdParas pos"
| "ExprData_Calc X vdParas vdRow (ExprAdd l r) =
     with_values (Add_values X) (ExprData_Calc X vdParas vdRow l) (ExprData_Calc X vdParas vdRow r)"
| "ExprData_Calc X vdParas vdRow (ExprSub l r) =
     with_values (Sub_values X) (ExprData_Calc X vdParas vdRow l) (ExprData_Calc X vdParas vdRow r)"
| "ExprData_Calc X vdParas vdRow (ExprMul l r) =
     with_values (Mul_values X) (ExprData_Calc X vdParas vdRow l) (ExprData_Calc X vdParas vdRow r)"
| "ExprData_Calc X vdParas vdRow (ExprDiv l r) =
     with_values (Div_values X) (ExprData_Calc X vdParas vdRow l) (ExprData_Calc X vdParas vdRow r)"
| "ExprData_Calc X vdParas vdRow (ExprMinus e) =
     (case ExprData_Calc X vdParas vdRow e of Some (Some v) \<Rightarrow> Some (Minus_value X v) | _ \<Rightarrow> None)"

section \<open>Aggregates\<close>

text \<open>
  \<open>Copy\<close> through the interface. What becomes of a source that is moved from is not kept, and the aggregates copy it, which gives the
  same content. The text of a string is not an \<open>MString\<close>, which a number expects: the cast throws.
\<close>

definition Digit_Copy :: "fp_ops \<Rightarrow> ExprValue \<Rightarrow> DataValueDigit \<Rightarrow> (DvError + DataValueDigit) option" where
  "Digit_Copy fp src dv =
     (let dt = dg_type dv; set = (\<lambda>v. Some (Inr (dv\<lparr>dg_value := v, dg_valType := SOLE_VALUE\<rparr>))) in
      if ev_IsNull src then Some (Inr (dv\<lparr>dg_valType := NULL_VALUE\<rparr>))
      else case src of
        EV (DV_Digit s) \<Rightarrow>
          if dg_type s = dt then set (dg_value s)
          else if \<not> IsDigital (dg_type s) then Some (Inl DT_UNSUPPORT_CONVERT)
          else if IsAutoPrimaryKey dt then set (digit_cast fp dt (Digit_GetLong fp s))
          else set (fp_cast fp dt (Digit_GetDouble fp s))
      | EV (DV_Blob s) \<Rightarrow> Some (Inl DT_UNSUPPORT_CONVERT)
      | _ \<Rightarrow> None)"

definition copy_source :: "externals \<Rightarrow> ExprValue \<Rightarrow> CopySource option" where
  "copy_source X src =
     (if ev_IsNull src then Some (TextSource None)
      else case src of
        EV (DV_FixChar c) \<Rightarrow> Some (FixSource c)
      | EV (DV_VarChar c) \<Rightarrow> Some (VarSource c)
      | _ \<Rightarrow> Option.bind (StrBuff_new (x_alloc X) 0) (\<lambda>sb.
               Option.bind (ev_ToString (x_alloc X) (x_text X) src sb) (\<lambda>sb.
                 Option.bind (sb_buf sb) (\<lambda>b.
                   if unat (sb_strLen sb) \<le> length b then Some (TextSource (Some (take (unat (sb_strLen sb)) b))) else None))))"

fun dv_Copy :: "externals \<Rightarrow> bool \<Rightarrow> ExprValue \<Rightarrow> DataValue \<Rightarrow> (DvError + DataValue) option" where
  "dv_Copy X bMove src (DV_Digit d) = map_option (map_sum id DV_Digit) (Digit_Copy (x_fp X) src d)"
| "dv_Copy X bMove src (DV_FixChar c) =
     Option.bind (copy_source X src) (\<lambda>s. map_option (map_sum id (\<lambda>r. DV_FixChar (fst r))) (FixChar_Copy (x_alloc X) s bMove c))"
| "dv_Copy X bMove src (DV_VarChar c) =
     Option.bind (copy_source X src) (\<lambda>s. map_option (map_sum id (\<lambda>r. DV_VarChar (fst r))) (VarChar_Copy (x_alloc X) s bMove c))"
| "dv_Copy X bMove src (DV_Blob c) =
     (case src of
        EV (DV_Blob s) \<Rightarrow> Some (map_sum id (\<lambda>r. DV_Blob (fst r)) (Blob_Copy (x_alloc X) DT_BLOB s bMove c))
      | _ \<Rightarrow> Some (Inl DT_UNSUPPORT_CONVERT))"

text \<open>\<open>Add(int64_t)\<close> and \<open>Add(double)\<close>; only numbers have them.\<close>

fun dv_AddLong :: "fp_ops \<Rightarrow> u64 \<Rightarrow> DataValue \<Rightarrow> DataValue option" where
  "dv_AddLong fp val (DV_Digit d) = map_option DV_Digit (Digit_AddLong fp val d)"
| "dv_AddLong fp val v = Some v"

definition Digit_AddDouble :: "fp_ops \<Rightarrow> u64 \<Rightarrow> DataValueDigit \<Rightarrow> DataValueDigit option" where
  "Digit_AddDouble fp val dv =
     (let dt = dg_type dv in
      if dt = DT_BOOL then Some dv
      else if is_float dt then Some (dv\<lparr>dg_value := fp_add fp dt (dg_value dv) (fp_cast fp dt val)\<rparr>)
      else map_option (\<lambda>s. dv\<lparr>dg_value := s\<rparr>) (add_assign fp dt (dg_value dv) (fp_cast fp dt val)))"

fun dv_AddDouble :: "fp_ops \<Rightarrow> u64 \<Rightarrow> DataValue \<Rightarrow> DataValue option" where
  "dv_AddDouble fp val (DV_Digit d) = map_option DV_Digit (Digit_AddDouble fp val d)"
| "dv_AddDouble fp val v = Some v"

text \<open>\<open>GetDouble\<close> of a string asserts.\<close>

fun GetDouble_or_assert :: "fp_ops \<Rightarrow> ExprValue \<Rightarrow> u64 option" where
  "GetDouble_or_assert fp EV_Null = Some 0"
| "GetDouble_or_assert fp (EV (DV_Digit d)) = Some (Digit_GetDouble fp d)"
| "GetDouble_or_assert fp v = None"

datatype ExprAggr = ExprCount "ExprData option" bool | ExprSum ExprData | ExprMax ExprData | ExprMin ExprData | ExprAvg ExprData

text \<open>The constructor of \<open>ExprCount\<close> asserts that there is an expression or a star, not both.\<close>

definition ExprCount_new :: "ExprData option \<Rightarrow> bool \<Rightarrow> ExprAggr option" where
  "ExprCount_new e bStar = (if (e \<noteq> None) \<noteq> bStar then Some (ExprCount e bStar) else None)"

fun ExprAggr_GetType :: "ExprAggr \<Rightarrow> ExprType" where
  "ExprAggr_GetType (ExprCount e bStar) = EXPR_COUNT"
| "ExprAggr_GetType (ExprSum e) = EXPR_SUM"
| "ExprAggr_GetType (ExprMax e) = EXPR_MAX"
| "ExprAggr_GetType (ExprMin e) = EXPR_MIN"
| "ExprAggr_GetType (ExprAvg e) = EXPR_AVG"

text \<open>The result of \<open>Calc\<close> and the accumulator; an error leaves it as it is.\<close>

definition aggr_step :: "ExprValue option option \<Rightarrow> DataValue \<Rightarrow> (ExprValue \<Rightarrow> DataValue option) \<Rightarrow> (bool \<times> DataValue) option" where
  "aggr_step val dv f =
     (case val of None \<Rightarrow> None | Some None \<Rightarrow> Some (False, dv) | Some (Some v) \<Rightarrow> map_option (Pair True) (f v))"

definition copy_if :: "externals \<Rightarrow> bool option \<Rightarrow> ExprValue \<Rightarrow> DataValue \<Rightarrow> DataValue option" where
  "copy_if X c v dv =
     (case c of None \<Rightarrow> None | Some False \<Rightarrow> Some dv
      | Some True \<Rightarrow> map_option (\<lambda>r. case r of Inl _ \<Rightarrow> dv | Inr d \<Rightarrow> d) (dv_Copy X False v dv))"

fun ExprAggr_Calc :: "externals \<Rightarrow> ExprValue list \<Rightarrow> ExprValue list \<Rightarrow> ExprAggr \<Rightarrow> DataValue \<Rightarrow> (bool \<times> DataValue) option" where
  "ExprAggr_Calc X vdParas vdRow (ExprCount e bStar) dv =
     (if bStar then map_option (Pair True) (dv_AddLong (x_fp X) 1 dv)
      else case e of None \<Rightarrow> None
        | Some e \<Rightarrow> aggr_step (ExprData_Calc X vdParas vdRow e) dv (\<lambda>v. if \<not> ev_IsNull v then dv_AddLong (x_fp X) 1 dv else Some dv))"
| "ExprAggr_Calc X vdParas vdRow (ExprSum e) dv =
     aggr_step (ExprData_Calc X vdParas vdRow e) dv
       (\<lambda>v. if \<not> ev_IsNull v then Option.bind (GetDouble_or_assert (x_fp X) v) (\<lambda>d. dv_AddDouble (x_fp X) d dv) else Some dv)"
| "ExprAggr_Calc X vdParas vdRow (ExprMax e) dv =
     aggr_step (ExprData_Calc X vdParas vdRow e) dv (\<lambda>v. copy_if X (ev_op_gt (x_fp X) v (EV dv)) v dv)"
| "ExprAggr_Calc X vdParas vdRow (ExprMin e) dv =
     aggr_step (ExprData_Calc X vdParas vdRow e) dv (\<lambda>v. copy_if X (ev_op_lt (x_fp X) v (EV dv)) v dv)"
| "ExprAggr_Calc X vdParas vdRow (ExprAvg e) dv =
     aggr_step (ExprData_Calc X vdParas vdRow e) dv
       (\<lambda>v. if \<not> ev_IsNull v then Option.bind (GetDouble_or_assert (x_fp X) v) (\<lambda>d. dv_AddDouble (x_fp X) d dv) else Some dv)"

section \<open>Types of results\<close>

text \<open>The types that a result can have. A division by zero gives the left operand.\<close>

definition add_types :: "DataType \<Rightarrow> DataType \<Rightarrow> DataType list" where
  "add_types l r =
     (if IsAutoPrimaryKey l \<and> IsAutoPrimaryKey r then [DT_LONG] else if IsDigital l \<and> IsDigital r then [DT_DOUBLE]
      else if IsStringType l \<or> IsStringType r then [DT_VARCHAR] else [l])"

definition mul_types :: "DataType \<Rightarrow> DataType \<Rightarrow> DataType list" where
  "mul_types l r =
     (if IsAutoPrimaryKey l \<and> IsAutoPrimaryKey r then [DT_LONG] else if IsDigital l \<and> IsDigital r then [DT_DOUBLE] else [l])"

definition div_types :: "DataType \<Rightarrow> DataType \<Rightarrow> DataType list" where
  "div_types l r =
     (if IsAutoPrimaryKey l \<and> IsAutoPrimaryKey r then [DT_LONG, l] else if IsDigital l \<and> IsDigital r then [DT_DOUBLE, l] else [l])"

definition minus_types :: "DataType \<Rightarrow> DataType list" where
  "minus_types t = (if IsAutoPrimaryKey t then [DT_LONG] else if IsDigital t then [DT_DOUBLE] else [])"

definition pair_types :: "(DataType \<Rightarrow> DataType \<Rightarrow> DataType list) \<Rightarrow> DataType list \<Rightarrow> DataType list \<Rightarrow> DataType list" where
  "pair_types f ls rs = concat (map (\<lambda>l. concat (map (f l) rs)) ls)"

definition type_at :: "DataType list \<Rightarrow> int \<Rightarrow> DataType list" where
  "type_at ts pos = (if 0 \<le> pos \<and> nat pos < length ts then [ts ! nat pos] else [])"

fun result_types :: "DataType list \<Rightarrow> DataType list \<Rightarrow> ExprData \<Rightarrow> DataType list" where
  "result_types paras row (ExprConst v) = [ev_type v]"
| "result_types paras row (ExprField pos) = type_at row pos"
| "result_types paras row (ExprParameter pos) = type_at paras pos"
| "result_types paras row (ExprAdd l r) = pair_types add_types (result_types paras row l) (result_types paras row r)"
| "result_types paras row (ExprSub l r) = pair_types mul_types (result_types paras row l) (result_types paras row r)"
| "result_types paras row (ExprMul l r) = pair_types mul_types (result_types paras row l) (result_types paras row r)"
| "result_types paras row (ExprDiv l r) = pair_types div_types (result_types paras row l) (result_types paras row r)"
| "result_types paras row (ExprMinus e) = concat (map minus_types (result_types paras row e))"

lemma with_values_Some: "with_values f l r = Some x \<longleftrightarrow> (\<exists>a b v. l = Some (Some a) \<and> r = Some (Some b) \<and> f a b = Some v \<and> x = Some v)"
  by (auto simp: with_values_def split: option.splits)

lemma in_pair_types: "a \<in> set ls \<Longrightarrow> b \<in> set rs \<Longrightarrow> t \<in> set (f a b) \<Longrightarrow> t \<in> set (pair_types f ls rs)"
  by (auto simp: pair_types_def)

lemma values_types:
  "Add_values X l r = Some v \<Longrightarrow> ev_type v \<in> set (add_types (ev_type l) (ev_type r))"
  "Sub_values X l r = Some v \<Longrightarrow> ev_type v \<in> set (mul_types (ev_type l) (ev_type r))"
  "Mul_values X l r = Some v \<Longrightarrow> ev_type v \<in> set (mul_types (ev_type l) (ev_type r))"
  "Div_values X l r = Some v \<Longrightarrow> ev_type v \<in> set (div_types (ev_type l) (ev_type r))"
  "Minus_value X l = Some v \<Longrightarrow> ev_type v \<in> set (minus_types (ev_type l))"
proof -
  have c: "concat_texts X l r = Some v \<Longrightarrow> ev_type v = DT_VARCHAR"
    by (auto simp: concat_texts_def bind_eq_Some_conv split: if_splits)
  have n: "new_long i = Some v \<Longrightarrow> ev_type v = DT_LONG" for i by (auto simp: new_long_def Digit_new_def split: if_splits)
  have d: "ev_type (new_double x) = DT_DOUBLE" for x by (simp add: new_double_def Digit_new_def)
  show "Add_values X l r = Some v \<Longrightarrow> ev_type v \<in> set (add_types (ev_type l) (ev_type r))"
    using c n d by (auto simp: Add_values_def add_types_def both_long_def both_digital_def Let_def split: if_splits)
  show "Sub_values X l r = Some v \<Longrightarrow> ev_type v \<in> set (mul_types (ev_type l) (ev_type r))"
    using n d by (auto simp: Sub_values_def mul_types_def both_long_def both_digital_def Let_def split: if_splits)
  show "Mul_values X l r = Some v \<Longrightarrow> ev_type v \<in> set (mul_types (ev_type l) (ev_type r))"
    using n d by (auto simp: Mul_values_def mul_types_def both_long_def both_digital_def Let_def split: if_splits)
  show "Div_values X l r = Some v \<Longrightarrow> ev_type v \<in> set (div_types (ev_type l) (ev_type r))"
    using n d by (auto simp: Div_values_def div_types_def both_long_def both_digital_def Let_def split: if_splits)
  show "Minus_value X l = Some v \<Longrightarrow> ev_type v \<in> set (minus_types (ev_type l))"
    using d by (auto simp: Minus_value_def minus_types_def Let_def Digit_new_def split: if_splits)
qed

lemma with_values_types:
  assumes "with_values f L R = Some res" "\<And>a b v. f a b = Some v \<Longrightarrow> ev_type v \<in> set (g (ev_type a) (ev_type b))"
    "\<And>x. L = Some x \<Longrightarrow> case x of Some v \<Rightarrow> ev_type v \<in> set ls | None \<Rightarrow> A"
    "\<And>x. R = Some x \<Longrightarrow> case x of Some v \<Rightarrow> ev_type v \<in> set rs | None \<Rightarrow> B"
  shows "case res of Some v \<Rightarrow> ev_type v \<in> set (pair_types g ls rs) | None \<Rightarrow> C"
proof -
  obtain a b v where v: "L = Some (Some a)" "R = Some (Some b)" "f a b = Some v" "res = Some v"
    using assms(1) by (auto simp: with_values_Some)
  then show ?thesis
    using assms(3) [OF v(1)] assms(4) [OF v(2)] assms(2) [OF v(3)] in_pair_types [of "ev_type a" ls "ev_type b" rs "ev_type v" g] by simp
qed

text \<open>
  C40: the type of a result follows from the types of the columns and parameters: \<open>result_types\<close> computes, without any value, the types
  that \<open>Calc\<close> can return (one, but for a division), and a null pointer is only returned by a minus at the top of the expression.
\<close>

theorem ExprData_Calc_type:
  assumes "ExprData_Calc X vdParas vdRow e = Some res"
  shows "case res of Some v \<Rightarrow> ev_type v \<in> set (result_types (map ev_type vdParas) (map ev_type vdRow) e)
    | None \<Rightarrow> ExprData_GetType e = EXPR_MINUS"
  using assms
proof (induction e arbitrary: res)
  case (ExprMinus e)
  obtain v where v: "ExprData_Calc X vdParas vdRow e = Some (Some v)" "res = Minus_value X v"
    using ExprMinus.prems by (auto split: option.splits)
  then show ?case using ExprMinus.IH [OF v(1)] values_types(5) [of X v] unfolding v(2)
    by (cases "Minus_value X v") auto
next
  case (ExprAdd l r)
  then show ?case unfolding ExprData_Calc.simps result_types.simps
    by (intro with_values_types [where f = "Add_values X" and g = add_types, OF _ values_types(1)])
next
  case (ExprSub l r)
  then show ?case unfolding ExprData_Calc.simps result_types.simps
    by (intro with_values_types [where f = "Sub_values X" and g = mul_types, OF _ values_types(2)])
next
  case (ExprMul l r)
  then show ?case unfolding ExprData_Calc.simps result_types.simps
    by (intro with_values_types [where f = "Mul_values X" and g = mul_types, OF _ values_types(3)])
next
  case (ExprDiv l r)
  then show ?case unfolding ExprData_Calc.simps result_types.simps
    by (intro with_values_types [where f = "Div_values X" and g = div_types, OF _ values_types(4)])
qed (auto simp: value_at_def type_at_def split: if_splits)

theorem ExprData_Calc_type_witness:
  "\<exists>X :: externals. ExprData_Calc X [] [EV (DV_Digit (Digit_new DT_INT 7))] (ExprDiv (ExprField 0) (ExprConst (EV (DV_Digit (Digit_new DT_INT 0))))) =
      Some (Some (EV (DV_Digit (Digit_new DT_INT 7)))) \<and>
    DT_INT \<in> set (result_types [] [DT_INT] (ExprDiv (ExprField 0) (ExprConst (EV (DV_Digit (Digit_new DT_INT 0))))))"
proof -
  fix X :: externals
  let ?e = "ExprDiv (ExprField 0) (ExprConst (EV (DV_Digit (Digit_new DT_INT 0))))" and ?v = "EV (DV_Digit (Digit_new DT_INT 7))"
  have c: "ExprData_Calc X [] [?v] ?e = Some (Some ?v)"
    by (simp add: value_at_def with_values_def Div_values_def both_long_def both_digital_def data_type_flags Digit_new_def
        Digit_GetLong_def is_float_def Let_def Digit_Clone_def)
  show ?thesis using c ExprData_Calc_type [OF c] by (intro exI [of _ X]) (simp add: Digit_new_def)
qed

text \<open>A constant expression does not look at the row.\<close>

lemma IsConstValue_Calc: "IsConstValue e \<Longrightarrow> ExprData_Calc X vdParas vdRow e = ExprData_Calc X vdParas vdRow' e"
  by (induction e) simp_all

section \<open>Where the code is wrong\<close>

text \<open>The minus of an integer is the integer.\<close>

lemma minus_keeps_sign:
  "ExprData_Calc X vdParas vdRow (ExprMinus (ExprConst (EV (DV_Digit (Digit_new DT_INT 5))))) = Some (Some (EV (DV_Digit (Digit_new DT_LONG 5))))"
  by (simp add: Minus_value_def data_type_flags Digit_new_def Digit_GetLong_def is_float_def Let_def)

text \<open>
  The sum of two strings: the terminating zeros count as characters, the texts are joined without them, and the new value ends with bytes
  of the buffer that were never written. A constant string has no terminating zero: joining reads beyond its end.
\<close>

definition some_externals :: "fp_ops \<Rightarrow> externals" where
  "some_externals fp = \<lparr>x_fp = fp, x_sub = (\<lambda>_ _. 0), x_mul = (\<lambda>_ _. 0), x_div = (\<lambda>_ _. 0), x_text = (\<lambda>_ _. []),
     x_alloc = (\<lambda>n. replicate n 0xAA)\<rparr>"

lemma text_sum_garbage:
  "concat_texts (some_externals fp) (EV (DV_VarChar (VarChar_new [97, 98, 0] 3 10))) (EV (DV_VarChar (VarChar_new [99, 100, 0] 3 10))) =
     Some (EV (DV_VarChar (VarChar_new [97, 98, 99, 100, 0, 0xAA] 6 6)))"
  by code_simp

lemma text_sum_constant:
  "concat_texts (some_externals fp) (EV (DV_VarChar (VarChar_new [97, 98] 2 2))) (EV (DV_VarChar (VarChar_new [99, 100, 0] 3 10))) = None"
  by code_simp

text \<open>Two strings that are null: the buffer of the result is a request for 0 bytes, which the allocator refuses.\<close>

lemma text_sum_nulls:
  "concat_texts X (EV (DV_VarChar (VarChar_null 10))) (EV (DV_VarChar (VarChar_null 10))) = None"
  by (simp add: concat_texts_def VarChar_null_def StrBuff_new_def VarChar_GetDataLength_def VarChar_ToString_def)

text \<open>A minimum that starts with null stays null.\<close>

lemma min_stays_null:
  assumes "dg_type d = dg_type m" "IsDigital (dg_type m)" "dg_valType m = NULL_VALUE" "ExprData_Calc X vdParas vdRow e = Some (Some (EV (DV_Digit d)))"
  shows "ExprAggr_Calc X vdParas vdRow (ExprMin e) (DV_Digit m) = Some (True, DV_Digit m)"
  using assms by (simp add: aggr_step_def copy_if_def ev_op_lt_def dv_op_ge_def Digit_LT_def Digit_op_lt_def Digit_op_ge_def)

end
