(* ===== verification/Expr_Logic.thy ===== *)
theory Expr_Logic
  imports Expr_Data "HOL-Library.Multiset"
begin

text \<open>
  Conditions: \<open>expr/ExprLogic.h\<close>, \<open>ExprArray\<close> of \<open>expr/BaseExpr.h\<close>, and how an index condition is picked from a
  condition. \<open>None\<close> is a null pointer that is used or a failed assertion. The set of an \<open>ExprArray\<close> is the list of its elements
  in their order; as documented for \<open>std::set\<close>, an element is found when neither it nor the key is smaller.
\<close>

section \<open>Conditions and their values\<close>

datatype TriBool = TB_Error | TB_False | TB_True

fun tribool_code :: "TriBool \<Rightarrow> int" where
  "tribool_code TB_Error = -1" | "tribool_code TB_False = 0" | "tribool_code TB_True = 1"

definition tri :: "bool \<Rightarrow> TriBool" where
  "tri b = (if b then TB_True else TB_False)"

datatype ExprLogic = ExprComp CompType ExprData ExprData | ExprInNot ExprData "ExprValue list" bool | ExprIsNullNot ExprData bool
  | ExprBetween ExprData ExprData ExprData | ExprLike ExprData DataValue bool | ExprNot ExprLogic
  | ExprAnd "ExprLogic list" | ExprOr "ExprLogic list"

fun ExprLogic_GetType :: "ExprLogic \<Rightarrow> ExprType" where
  "ExprLogic_GetType (ExprComp c l r) = EXPR_COMP"
| "ExprLogic_GetType (ExprInNot e a bIn) = EXPR_IN_OR_NOT"
| "ExprLogic_GetType (ExprIsNullNot e bNull) = EXPR_IS_NULL_NOT"
| "ExprLogic_GetType (ExprBetween e l r) = EXPR_BETWEEN"
| "ExprLogic_GetType (ExprLike e p bLike) = EXPR_LIKE"
| "ExprLogic_GetType (ExprNot e) = EXPR_NOT"
| "ExprLogic_GetType (ExprAnd es) = EXPR_AND"
| "ExprLogic_GetType (ExprOr es) = EXPR_OR"

definition ExprLike_new :: "ExprData \<Rightarrow> DataValue \<Rightarrow> bool \<Rightarrow> ExprLogic option" where
  "ExprLike_new e dvPatten bLike = (if IsStringType (dv_type dvPatten) then Some (ExprLike e dvPatten bLike) else None)"

text \<open>\<open>ExprArray\<close>.\<close>

fun Exist :: "fp_ops \<Rightarrow> ExprValue \<Rightarrow> ExprValue list \<Rightarrow> bool option" where
  "Exist fp pdv [] = Some False"
| "Exist fp pdv (e # es) =
     (case (ev_op_lt fp e pdv, ev_op_lt fp pdv e) of
        (Some False, Some False) \<Rightarrow> Some True
      | (Some _, Some _) \<Rightarrow> Exist fp pdv es
      | _ \<Rightarrow> None)"

fun AddElem :: "fp_ops \<Rightarrow> ExprValue \<Rightarrow> ExprValue list \<Rightarrow> ExprValue list option" where
  "AddElem fp dv [] = Some [dv]"
| "AddElem fp dv (e # es) =
     (case (ev_op_lt fp e dv, ev_op_lt fp dv e) of
        (Some False, Some False) \<Rightarrow> Some (e # es)
      | (Some False, Some True) \<Rightarrow> Some (dv # e # es)
      | (Some True, Some _) \<Rightarrow> map_option (Cons e) (AddElem fp dv es)
      | _ \<Rightarrow> None)"

fun compare_with :: "fp_ops \<Rightarrow> CompType \<Rightarrow> ExprValue \<Rightarrow> ExprValue \<Rightarrow> bool option" where
  "compare_with fp EQ l r = ev_op_eq fp l r"
| "compare_with fp GT l r = ev_op_gt fp l r"
| "compare_with fp GE l r = ev_op_ge fp l r"
| "compare_with fp LT l r = ev_op_lt fp l r"
| "compare_with fp LE l r = ev_op_le fp l r"
| "compare_with fp NE l r = ev_op_ne fp l r"

text \<open>Two null pointers: \<open>right->DecRef()\<close> is called on one of them.\<close>

definition Comp_Calc :: "fp_ops \<Rightarrow> CompType \<Rightarrow> ExprValue option \<Rightarrow> ExprValue option \<Rightarrow> TriBool option" where
  "Comp_Calc fp c left right =
     (case (left, right) of
        (None, None) \<Rightarrow> None
      | (Some l, Some r) \<Rightarrow> if \<not> AbleCompare l r then Some TB_Error else map_option tri (compare_with fp c l r)
      | _ \<Rightarrow> Some TB_Error)"

definition Between_Calc :: "fp_ops \<Rightarrow> ExprValue option \<Rightarrow> ExprValue option \<Rightarrow> ExprValue option \<Rightarrow> TriBool option" where
  "Between_Calc fp pdv left right =
     (case (pdv, left, right) of
        (Some v, Some l, Some r) \<Rightarrow>
          if \<not> AbleCompare v l \<or> \<not> AbleCompare v r then Some TB_Error
          else (case ev_op_ge fp v l of
                  None \<Rightarrow> None | Some False \<Rightarrow> Some TB_False | Some True \<Rightarrow> map_option tri (ev_op_le fp v r))
      | _ \<Rightarrow> Some TB_Error)"

definition on_value :: "(ExprValue \<Rightarrow> bool option) \<Rightarrow> bool \<Rightarrow> ExprValue option \<Rightarrow> TriBool option" where
  "on_value test bWant pdv = (case pdv of None \<Rightarrow> Some TB_Error | Some v \<Rightarrow> map_option (\<lambda>b. tri (bWant = b)) (test v))"

fun ExprLogic_Calc :: "externals \<Rightarrow> ExprValue list \<Rightarrow> ExprValue list \<Rightarrow> ExprLogic \<Rightarrow> TriBool option"
  and And_Calc :: "externals \<Rightarrow> ExprValue list \<Rightarrow> ExprValue list \<Rightarrow> ExprLogic list \<Rightarrow> TriBool option"
  and Or_Calc :: "externals \<Rightarrow> ExprValue list \<Rightarrow> ExprValue list \<Rightarrow> ExprLogic list \<Rightarrow> TriBool option" where
  "ExprLogic_Calc X vdParas vdRow (ExprComp c l r) =
     Option.bind (ExprData_Calc X vdParas vdRow l) (\<lambda>left. Option.bind (ExprData_Calc X vdParas vdRow r) (\<lambda>right.
       Comp_Calc (x_fp X) c left right))"
| "ExprLogic_Calc X vdParas vdRow (ExprInNot e a bIn) =
     Option.bind (ExprData_Calc X vdParas vdRow e) (on_value (\<lambda>v. Exist (x_fp X) v a) bIn)"
| "ExprLogic_Calc X vdParas vdRow (ExprIsNullNot e bNull) =
     Option.bind (ExprData_Calc X vdParas vdRow e) (on_value (\<lambda>v. Some (ev_IsNull v)) bNull)"
| "ExprLogic_Calc X vdParas vdRow (ExprBetween e l r) =
     Option.bind (ExprData_Calc X vdParas vdRow e) (\<lambda>pdv. Option.bind (ExprData_Calc X vdParas vdRow l) (\<lambda>left.
       Option.bind (ExprData_Calc X vdParas vdRow r) (\<lambda>right. Between_Calc (x_fp X) pdv left right)))"
| "ExprLogic_Calc X vdParas vdRow (ExprLike e p bLike) = Some TB_False"
| "ExprLogic_Calc X vdParas vdRow (ExprNot e) =
     (case ExprLogic_Calc X vdParas vdRow e of
        None \<Rightarrow> None | Some TB_Error \<Rightarrow> Some TB_Error | Some t \<Rightarrow> Some (tri (t \<noteq> TB_True)))"
| "ExprLogic_Calc X vdParas vdRow (ExprAnd es) = And_Calc X vdParas vdRow es"
| "ExprLogic_Calc X vdParas vdRow (ExprOr es) = Or_Calc X vdParas vdRow es"
| "And_Calc X vdParas vdRow [] = Some TB_True"
| "And_Calc X vdParas vdRow (e # es) =
     (case ExprLogic_Calc X vdParas vdRow e of
        None \<Rightarrow> None
      | Some t \<Rightarrow> if t = TB_Error \<or> t = TB_False then Some t else And_Calc X vdParas vdRow es)"
| "Or_Calc X vdParas vdRow [] = Some TB_False"
| "Or_Calc X vdParas vdRow (e # es) =
     (case ExprLogic_Calc X vdParas vdRow e of
        None \<Rightarrow> None
      | Some t \<Rightarrow> if t = TB_Error \<or> t = TB_True then Some t else Or_Calc X vdParas vdRow es)"

section \<open>Elements of a type\<close>

datatype ExprElem = ElemData ExprData | ElemAggr ExprAggr | ElemLogic ExprLogic

definition collect_data :: "ExprType \<Rightarrow> ExprData \<Rightarrow> ExprElem list \<Rightarrow> ExprElem list" where
  "collect_data type e vct = vct @ map ElemData (ExprData_CollectElem type e [])"

fun ExprLogic_CollectElem :: "ExprType \<Rightarrow> ExprLogic \<Rightarrow> ExprElem list \<Rightarrow> ExprElem list"
  and collect_children :: "ExprType \<Rightarrow> ExprLogic list \<Rightarrow> ExprElem list \<Rightarrow> ExprElem list" where
  "ExprLogic_CollectElem type (ExprComp c l r) vct =
     collect_data type r (collect_data type l (if type = EXPR_COMP then vct @ [ElemLogic (ExprComp c l r)] else vct))"
| "ExprLogic_CollectElem type (ExprInNot e a bIn) vct =
     collect_data type e (if type = EXPR_IN_OR_NOT then vct @ [ElemLogic (ExprInNot e a bIn)] else vct)"
| "ExprLogic_CollectElem type (ExprIsNullNot e bNull) vct =
     collect_data type e (if type = EXPR_IS_NULL_NOT then vct @ [ElemLogic (ExprIsNullNot e bNull)] else vct)"
| "ExprLogic_CollectElem type (ExprBetween e l r) vct =
     collect_data type r (collect_data type l (collect_data type e
       (if type = EXPR_BETWEEN then vct @ [ElemLogic (ExprBetween e l r)] else vct)))"
| "ExprLogic_CollectElem type (ExprLike e p bLike) vct =
     collect_data type e (if type = EXPR_LIKE then vct @ [ElemLogic (ExprLike e p bLike)] else vct)"
| "ExprLogic_CollectElem type (ExprNot e) vct =
     ExprLogic_CollectElem type e (if type = EXPR_NOT then vct @ [ElemLogic (ExprNot e)] else vct)"
| "ExprLogic_CollectElem type (ExprAnd es) vct =
     collect_children type es (if type = EXPR_AND then vct @ [ElemLogic (ExprAnd es)] else vct)"
| "ExprLogic_CollectElem type (ExprOr es) vct =
     collect_children type es (if type = EXPR_OR then vct @ [ElemLogic (ExprOr es)] else vct)"
| "collect_children type [] vct = vct"
| "collect_children type (e # es) vct = collect_children type es (ExprLogic_CollectElem type e vct)"

text \<open>\<open>COUNT(*)\<close> has no expression, and asks it for its elements.\<close>

fun ExprAggr_CollectElem :: "ExprType \<Rightarrow> ExprAggr \<Rightarrow> ExprElem list \<Rightarrow> ExprElem list option" where
  "ExprAggr_CollectElem type (ExprCount e bStar) vct =
     map_option (\<lambda>d. collect_data type d (if type = EXPR_COUNT then vct @ [ElemAggr (ExprCount e bStar)] else vct)) e"
| "ExprAggr_CollectElem type (ExprSum e) vct =
     Some (collect_data type e (if type = EXPR_SUM then vct @ [ElemAggr (ExprSum e)] else vct))"
| "ExprAggr_CollectElem type (ExprMax e) vct =
     Some (collect_data type e (if type = EXPR_MAX then vct @ [ElemAggr (ExprMax e)] else vct))"
| "ExprAggr_CollectElem type (ExprMin e) vct =
     Some (collect_data type e (if type = EXPR_MIN then vct @ [ElemAggr (ExprMin e)] else vct))"
| "ExprAggr_CollectElem type (ExprAvg e) vct =
     Some (collect_data type e (if type = EXPR_AVG then vct @ [ElemAggr (ExprAvg e)] else vct))"

section \<open>Index conditions\<close>

fun reverse_type :: "CompType \<Rightarrow> CompType" where
  "reverse_type EQ = EQ" | "reverse_type GT = LT" | "reverse_type GE = LE"
| "reverse_type LT = GT" | "reverse_type LE = GE" | "reverse_type NE = NE"

fun Reverse :: "ExprLogic \<Rightarrow> ExprLogic" where
  "Reverse (ExprComp c l r) = ExprComp (reverse_type c) r l"
| "Reverse e = e"

text \<open>The vector of columns of an index: their positions in the table. \<open>ExprLogic\<close> itself returns -1.\<close>

fun find_col :: "int \<Rightarrow> nat \<Rightarrow> int list \<Rightarrow> int" where
  "find_col pos i [] = -1"
| "find_col pos i (c # cs) = (if c = pos then int i else find_col pos (Suc i) cs)"

fun CombinedIndexCondition :: "int list \<Rightarrow> ExprLogic \<Rightarrow> int option" where
  "CombinedIndexCondition vctCol (ExprComp c (ExprField pos) r) = (if c \<noteq> EQ then Some (-1) else Some (find_col pos 0 vctCol))"
| "CombinedIndexCondition vctCol (ExprComp c l r) = None"
| "CombinedIndexCondition vctCol e = Some (-1)"

text \<open>
  \<open>PickIndexCondition\<close>: the result, the position of the index (with \<open>TB_True\<close> only), what is pushed to \<open>vctExpr\<close>, and the
  condition afterwards: comparisons are reversed in place, and an \<open>AND\<close> loses the children that are picked. \<open>firstField\<close> is
  \<open>GetIndexFirstFieldMap\<close> of the table, \<open>bVct\<close> that \<open>vctExpr\<close> is not null.
\<close>

definition look_up :: "(int \<Rightarrow> int option) \<Rightarrow> int \<Rightarrow> ExprLogic \<Rightarrow> (TriBool \<times> int \<times> ExprLogic list \<times> ExprLogic) option" where
  "look_up firstField pos e =
     (case firstField pos of None \<Rightarrow> Some (TB_False, 0, [], e) | Some i \<Rightarrow> Some (TB_True, i, [], e))"

fun pick_comp :: "(int \<Rightarrow> int option) \<Rightarrow> ExprLogic \<Rightarrow> (TriBool \<times> int \<times> ExprLogic list \<times> ExprLogic) option" where
  "pick_comp firstField (ExprComp c (ExprField pos) r) =
     (if IsConstValue r then look_up firstField pos (ExprComp c (ExprField pos) r) else Some (TB_False, 0, [], ExprComp c (ExprField pos) r))"
| "pick_comp firstField e = Some (TB_False, 0, [], e)"

definition turn :: "ExprLogic \<Rightarrow> ExprLogic" where
  "turn e = (case e of ExprComp c l r \<Rightarrow> if ExprData_GetType r = EXPR_FIELD \<and> IsConstValue l then Reverse e else e | _ \<Rightarrow> e)"

fun take_out :: "(nat \<times> int) list \<Rightarrow> ExprLogic list \<Rightarrow> ExprLogic list \<Rightarrow> ExprLogic list \<times> ExprLogic list" where
  "take_out [] vctExpr es = (vctExpr, es)"
| "take_out ((i, p) # il) vctExpr es = take_out il (vctExpr @ [es ! i]) (remove_at i es)"

definition better :: "(nat \<times> int) list \<Rightarrow> int \<Rightarrow> (nat \<times> int) list" where
  "better vctIL pos = (if vctIL \<noteq> [] \<and> snd (hd vctIL) > pos then [] else vctIL)"

fun PickIndexCondition :: "(int \<Rightarrow> int option) \<Rightarrow> bool \<Rightarrow> ExprLogic \<Rightarrow> (TriBool \<times> int \<times> ExprLogic list \<times> ExprLogic) option"
  and and_scan :: "(int \<Rightarrow> int option) \<Rightarrow> nat \<Rightarrow> ExprLogic list \<Rightarrow> (nat \<times> int) list \<Rightarrow> ((nat \<times> int) list option \<times> ExprLogic list) option"
  and or_scan :: "(int \<Rightarrow> int option) \<Rightarrow> ExprLogic list \<Rightarrow> int \<Rightarrow> (TriBool \<times> int \<times> ExprLogic list) option" where
  "PickIndexCondition firstField bVct (ExprComp c l r) = pick_comp firstField (turn (ExprComp c l r))"
| "PickIndexCondition firstField bVct (ExprInNot e a bIn) =
     (case e of
        ExprField pos \<Rightarrow> if bIn then look_up firstField pos (ExprInNot e a bIn) else Some (TB_False, 0, [], ExprInNot e a bIn)
      | _ \<Rightarrow> Some (TB_False, 0, [], ExprInNot e a bIn))"
| "PickIndexCondition firstField bVct (ExprBetween e l r) =
     (if ExprData_GetType e \<noteq> EXPR_FIELD \<or> \<not> IsConstValue l \<or> \<not> IsConstValue r then Some (TB_False, 0, [], ExprBetween e l r)
      else case l of ExprField pos \<Rightarrow> look_up firstField pos (ExprBetween e l r) | _ \<Rightarrow> None)"
| "PickIndexCondition firstField bVct (ExprAnd es) =
     (case and_scan firstField 0 es [] of
        None \<Rightarrow> None
      | Some (None, es') \<Rightarrow> Some (TB_Error, 0, [], ExprAnd es')
      | Some (Some vctIL, es') \<Rightarrow>
          if vctIL = [] then Some (TB_False, 0, [], ExprAnd es')
          else if \<not> bVct then None
          else (case take_out (rev vctIL) [] es' of (vctExpr, rest) \<Rightarrow> Some (TB_True, snd (hd vctIL), vctExpr, ExprAnd rest)))"
| "PickIndexCondition firstField bVct (ExprOr es) =
     map_option (\<lambda>(b, pos, es'). (b, pos, [], ExprOr es')) (or_scan firstField es (-1))"
| "PickIndexCondition firstField bVct e = Some (TB_False, 0, [], e)"
| "and_scan firstField i [] vctIL = Some (Some vctIL, [])"
| "and_scan firstField i (e # es) vctIL =
     (let go = (\<lambda>e il. map_option (map_prod id (Cons e)) (and_scan firstField (Suc i) es il)) in
      if ExprLogic_GetType e = EXPR_AND then go e vctIL
      else (case PickIndexCondition firstField False e of
          None \<Rightarrow> None
        | Some (b, pos, _, e') \<Rightarrow>
            if b = TB_Error then Some (None, e' # es)
            else if b = TB_False then go e' vctIL
            else if vctIL \<noteq> [] \<and> snd (hd vctIL) < pos then go e' vctIL
            else if ExprLogic_GetType e' = EXPR_OR
            then Some (Some (if better vctIL pos = [] then [(i, pos)] else better vctIL pos), e' # es)
            else go e' (better vctIL pos @ [(i, pos)])))"
| "or_scan firstField [] idxPos = Some (TB_True, idxPos, [])"
| "or_scan firstField (e # es) idxPos =
     (case PickIndexCondition firstField False e of
        None \<Rightarrow> None
      | Some (b, ipos, _, e') \<Rightarrow>
          if b \<noteq> TB_True then Some (b, idxPos, e' # es)
          else if idxPos = -1 \<or> idxPos = ipos
          then map_option (\<lambda>(b, pos, es'). (b, pos, e' # es')) (or_scan firstField es ipos)
          else Some (TB_False, idxPos, e' # es))"

section \<open>Logic\<close>

lemma And_Calc_append:
  "And_Calc X vdParas vdRow (es @ fs) =
     (if And_Calc X vdParas vdRow es = Some TB_True then And_Calc X vdParas vdRow fs else And_Calc X vdParas vdRow es)"
  by (induction es) (auto split: option.split)

lemma Or_Calc_append:
  "Or_Calc X vdParas vdRow (es @ fs) =
     (if Or_Calc X vdParas vdRow es = Some TB_False then Or_Calc X vdParas vdRow fs else Or_Calc X vdParas vdRow es)"
proof (induction es)
  case (Cons e es)
  then show ?case by (cases "ExprLogic_Calc X vdParas vdRow e"; cases "the (ExprLogic_Calc X vdParas vdRow e)") auto
qed simp

lemma Not_And: "ExprLogic_Calc X vdParas vdRow (ExprNot (ExprAnd es)) = Or_Calc X vdParas vdRow (map ExprNot es)"
proof (induction es)
  case (Cons e es)
  then show ?case
    by (cases "ExprLogic_Calc X vdParas vdRow e"; cases "the (ExprLogic_Calc X vdParas vdRow e)") (auto simp: tri_def)
qed (simp add: tri_def)

lemma Not_Or: "ExprLogic_Calc X vdParas vdRow (ExprNot (ExprOr es)) = And_Calc X vdParas vdRow (map ExprNot es)"
proof (induction es)
  case (Cons e es)
  then show ?case
    by (cases "ExprLogic_Calc X vdParas vdRow e"; cases "the (ExprLogic_Calc X vdParas vdRow e)") (auto simp: tri_def)
qed (simp add: tri_def)

lemma And_True: "And_Calc X vdParas vdRow es = Some TB_True \<longleftrightarrow> (\<forall>e \<in> set es. ExprLogic_Calc X vdParas vdRow e = Some TB_True)"
proof (induction es)
  case (Cons e es)
  then show ?case by (cases "ExprLogic_Calc X vdParas vdRow e"; cases "the (ExprLogic_Calc X vdParas vdRow e)") auto
qed simp

text \<open>
  The laws of three-valued logic hold exactly, errors, crashes and the order of evaluation included: De Morgan for both connectives,
  and a nested conjunction or disjunction may be flattened into its parent.
\<close>

theorem logic_laws:
  "ExprLogic_Calc X vdParas vdRow (ExprNot (ExprAnd es)) = ExprLogic_Calc X vdParas vdRow (ExprOr (map ExprNot es)) \<and>
   ExprLogic_Calc X vdParas vdRow (ExprNot (ExprOr es)) = ExprLogic_Calc X vdParas vdRow (ExprAnd (map ExprNot es)) \<and>
   ExprLogic_Calc X vdParas vdRow (ExprAnd (fs @ ExprAnd es # gs)) = ExprLogic_Calc X vdParas vdRow (ExprAnd (fs @ es @ gs)) \<and>
   ExprLogic_Calc X vdParas vdRow (ExprOr (fs @ ExprOr es # gs)) = ExprLogic_Calc X vdParas vdRow (ExprOr (fs @ es @ gs))"
proof -
  have "And_Calc X vdParas vdRow (ExprAnd es # gs) = And_Calc X vdParas vdRow (es @ gs)"
    unfolding And_Calc_append by (cases "And_Calc X vdParas vdRow es"; cases "the (And_Calc X vdParas vdRow es)") auto
  moreover have "Or_Calc X vdParas vdRow (ExprOr es # gs) = Or_Calc X vdParas vdRow (es @ gs)"
    unfolding Or_Calc_append by (cases "Or_Calc X vdParas vdRow es"; cases "the (Or_Calc X vdParas vdRow es)") auto
  ultimately show ?thesis using Not_And Not_Or by (simp add: And_Calc_append Or_Calc_append del: And_Calc.simps(2) Or_Calc.simps(2))
qed

section \<open>Picking an index condition is sound\<close>

fun operands :: "ExprLogic \<Rightarrow> ExprData list" and operands_list :: "ExprLogic list \<Rightarrow> ExprData list" where
  "operands (ExprComp c l r) = [l, r]"
| "operands (ExprAnd es) = operands_list es"
| "operands (ExprOr es) = operands_list es"
| "operands e = []"
| "operands_list [] = []"
| "operands_list (e # es) = operands e @ operands_list es"

text \<open>The values of the operands of comparisons are no NaN, and texts have their bytes, less than 2 GiB.\<close>

definition sized :: "externals \<Rightarrow> ExprValue list \<Rightarrow> ExprValue list \<Rightarrow> ExprData list \<Rightarrow> bool" where
  "sized X vdParas vdRow ds \<longleftrightarrow>
     list_all (\<lambda>d. case ExprData_Calc X vdParas vdRow d of Some (Some v) \<Rightarrow> ev_ok (x_fp X) v | _ \<Rightarrow> True) ds"

lemma sized_simps [simp]:
  "sized X P R []" "sized X P R (d # d2 # ds) \<longleftrightarrow> sized X P R [d] \<and> sized X P R (d2 # ds)" "sized X P R (ds @ ds') \<longleftrightarrow> sized X P R ds \<and> sized X P R ds'"
  by (auto simp: sized_def)

lemma sizedD: "sized X P R [d] \<Longrightarrow> ExprData_Calc X P R d = Some (Some v) \<Longrightarrow> ev_ok (x_fp X) v"
  by (simp add: sized_def)

lemma Comp_Calc_swap:
  assumes "fp_total fp" "\<And>v. l = Some v \<Longrightarrow> ev_ok fp v" "\<And>v. r = Some v \<Longrightarrow> ev_ok fp v"
  shows "Comp_Calc fp (reverse_type c) r l = Comp_Calc fp c l r"
proof (cases l; cases r)
  fix a b assume lr: "l = Some a" "r = Some b"
  have ac: "AbleCompare b a = AbleCompare a b" by (auto simp: AbleCompare_def)
  show ?thesis
  proof (cases "AbleCompare a b")
    case True
    have ok: "ev_ok fp a" "ev_ok fp b" using assms(2,3) lr by auto
    have t: "AbleCompare b a" using True ac by simp
    note sw = ev_op_swap [OF assms(1) True ok] ev_op_swap [OF assms(1) t ok(2,1)]
    have "compare_with fp (reverse_type c) b a = compare_with fp c a b" using sw by (cases c) (simp_all add: ev_op_ne_def)
    then show ?thesis using True t by (simp add: Comp_Calc_def lr)
  qed (simp add: Comp_Calc_def lr ac)
qed (simp_all add: Comp_Calc_def)

lemma turn_Calc:
  assumes "fp_total (x_fp X)" "sized X P R (operands e)"
  shows "ExprLogic_Calc X P R (turn e) = ExprLogic_Calc X P R e"
proof (cases e)
  case (ExprComp c l r)
  have "ExprLogic_Calc X P R (Reverse e) = ExprLogic_Calc X P R e"
  proof (cases "ExprData_Calc X P R l"; cases "ExprData_Calc X P R r")
    fix a b assume ab: "ExprData_Calc X P R l = Some a" "ExprData_Calc X P R r = Some b"
    have ok: "sized X P R [l]" "sized X P R [r]" using assms(2) by (simp_all add: ExprComp)
    have "Comp_Calc (x_fp X) (reverse_type c) b a = Comp_Calc (x_fp X) c a b"
      using sizedD [OF ok(1)] sizedD [OF ok(2)] ab by (intro Comp_Calc_swap [OF assms(1)]) simp_all
    then show ?thesis using ab by (simp add: ExprComp)
  qed (simp_all add: ExprComp)
  then show ?thesis by (simp add: ExprComp turn_def)
qed (simp_all add: turn_def)

text \<open>A condition on the first column of the index: a comparison of the column with a constant, a list, or alternatives of such.\<close>

fun on_index :: "(int \<Rightarrow> int option) \<Rightarrow> int \<Rightarrow> ExprLogic \<Rightarrow> bool" where
  "on_index firstField i (ExprComp c l r) \<longleftrightarrow> (case l of ExprField pos \<Rightarrow> firstField pos = Some i \<and> IsConstValue r | _ \<Rightarrow> False)"
| "on_index firstField i (ExprInNot e a bIn) \<longleftrightarrow> bIn \<and> (case e of ExprField pos \<Rightarrow> firstField pos = Some i | _ \<Rightarrow> False)"
| "on_index firstField i (ExprOr es) \<longleftrightarrow> (\<forall>e \<in> set es. on_index firstField i e)"
| "on_index firstField i e \<longleftrightarrow> False"

definition same_value :: "externals \<Rightarrow> ExprValue list \<Rightarrow> ExprValue list \<Rightarrow> ExprLogic \<Rightarrow> ExprLogic \<Rightarrow> bool" where
  "same_value X P R e e' \<longleftrightarrow> ExprLogic_Calc X P R e' = ExprLogic_Calc X P R e"

lemma same_value_refl [simp]: "same_value X P R e e"
  by (simp add: same_value_def)

lemma same_values_refl [simp]: "list_all2 (same_value X P R) es es"
  by (simp add: list.rel_refl)

lemma same_values:
  assumes "list_all2 (same_value X P R) es es'"
  shows "And_Calc X P R es' = And_Calc X P R es" "Or_Calc X P R es' = Or_Calc X P R es"
  using assms by (induction rule: list_all2_induct) (simp_all add: same_value_def split: option.split)

lemma same_value_children:
  "list_all2 (same_value X P R) es es' \<Longrightarrow> same_value X P R (ExprAnd es) (ExprAnd es')"
  "list_all2 (same_value X P R) es es' \<Longrightarrow> same_value X P R (ExprOr es) (ExprOr es')"
  by (simp_all add: same_value_def same_values)

text \<open>The entries of \<open>vctIL\<close>: ascending places, one index, and a condition of this index at every new place.\<close>

definition entries_ok :: "(int \<Rightarrow> int option) \<Rightarrow> nat \<Rightarrow> ExprLogic list \<Rightarrow> (nat \<times> int) list \<Rightarrow> (nat \<times> int) list \<Rightarrow> bool" where
  "entries_ok ff i es old il \<longleftrightarrow> sorted_wrt (<) (map fst il) \<and> (\<exists>p. \<forall>x \<in> set il. snd x = p) \<and>
     (\<forall>(j, p) \<in> set il. j < i + length es \<and> ((j, p) \<in> set old \<or> i \<le> j \<and> on_index ff p (es ! (j - i))))"

lemma look_up_cases:
  "look_up ff pos e = Some (b, p, picked, e') \<Longrightarrow> picked = [] \<and> e' = e \<and> b \<noteq> TB_Error \<and> (b = TB_True \<longrightarrow> ff pos = Some p)"
  by (auto simp: look_up_def split: option.splits)

lemma turn_type: "ExprLogic_GetType (turn e) = ExprLogic_GetType e"
  by (cases e) (auto simp: turn_def)

lemma pick_comp_cases:
  assumes "pick_comp ff e = Some (b, p, picked, e')" "ExprLogic_GetType e = EXPR_COMP"
  shows "picked = [] \<and> e' = e \<and> (b = TB_True \<longrightarrow> on_index ff p e)"
proof -
  obtain c l r where e: "e = ExprComp c l r" using assms(2) by (cases e) auto
  show ?thesis using assms(1) look_up_cases unfolding e by (cases l) (fastforce split: if_splits)+
qed

definition il_ok :: "nat \<Rightarrow> (nat \<times> int) list \<Rightarrow> bool" where
  "il_ok i il \<longleftrightarrow> sorted_wrt (<) (map fst il) \<and> (\<forall>x \<in> set il. fst x < i) \<and> (\<exists>p. \<forall>x \<in> set il. snd x = p)"

lemma il_ok_Suc: "il_ok i il \<Longrightarrow> il_ok (Suc i) il"
  by (auto simp: il_ok_def)

lemma better_cases:
  assumes "il_ok i il" "\<not> (il \<noteq> [] \<and> snd (hd il) < p)"
  shows "better il p = [] \<or> better il p = il \<and> (\<forall>x \<in> set il. snd x = p)"
proof (cases il)
  case (Cons a as)
  obtain k where "\<forall>x \<in> set il. snd x = k" using assms(1) unfolding il_ok_def by blast
  then show ?thesis using assms(2) Cons by (auto simp: better_def)
qed (simp add: better_def)

lemma il_ok_push:
  assumes "il_ok i il" "\<not> (il \<noteq> [] \<and> snd (hd il) < p)"
  shows "il_ok (Suc i) (better il p @ [(i, p)])"
  using better_cases [OF assms] assms(1) by (fastforce simp: il_ok_def sorted_wrt_append)

lemma entries_step:
  assumes "entries_ok ff (Suc i) es il2 il'" "\<forall>x \<in> set il2. x \<in> set il \<or> x = (i, p) \<and> on_index ff p e"
  shows "entries_ok ff i (e # es) il il'"
proof -
  have "j < i + length (e # es) \<and> ((j, q) \<in> set il \<or> i \<le> j \<and> on_index ff q ((e # es) ! (j - i)))" if jq: "(j, q) \<in> set il'" for j q
  proof -
    have b: "j < Suc i + length es \<and> ((j, q) \<in> set il2 \<or> Suc i \<le> j \<and> on_index ff q (es ! (j - Suc i)))"
      using assms(1) jq by (auto simp: entries_ok_def)
    show ?thesis
    proof (cases "(j, q) \<in> set il2")
      case True
      then show ?thesis using b assms(2) by fastforce
    next
      case False
      then have "Suc i \<le> j" "on_index ff q (es ! (j - Suc i))" using b by auto
      moreover from this have "(e # es) ! (j - i) = es ! (j - Suc i)" by (simp add: nth_Cons')
      ultimately show ?thesis using b by simp
    qed
  qed
  then show ?thesis using assms(1) by (auto simp: entries_ok_def)
qed

lemma entries_stop:
  assumes "il_ok i il" "\<not> (il \<noteq> [] \<and> snd (hd il) < p)" "on_index ff p e"
  shows "entries_ok ff i (e # es) il (if better il p = [] then [(i, p)] else better il p)"
proof (cases "better il p = []")
  case True
  then show ?thesis using assms(3) by (simp add: entries_ok_def)
next
  case False
  then have "better il p = il" using better_cases [OF assms(1,2)] by blast
  then show ?thesis using False assms(1) by (fastforce simp: entries_ok_def il_ok_def)
qed

text \<open>What holds of all three loops.\<close>

definition pick_ok :: "externals \<Rightarrow> ExprValue list \<Rightarrow> ExprValue list \<Rightarrow> (int \<Rightarrow> int option) \<Rightarrow> ExprLogic \<Rightarrow>
    TriBool \<times> int \<times> ExprLogic list \<times> ExprLogic \<Rightarrow> bool" where
  "pick_ok X P R ff e res \<longleftrightarrow> (case res of (b, p, picked, e') \<Rightarrow>
     same_value X P R e e' \<and> b \<noteq> TB_Error \<and> (b = TB_True \<longrightarrow> (\<forall>q. q = p \<or> p = -1 \<longrightarrow> on_index ff q e')))"

definition scan_ok :: "externals \<Rightarrow> ExprValue list \<Rightarrow> ExprValue list \<Rightarrow> (int \<Rightarrow> int option) \<Rightarrow> nat \<Rightarrow> ExprLogic list \<Rightarrow> (nat \<times> int) list \<Rightarrow>
    (nat \<times> int) list option \<times> ExprLogic list \<Rightarrow> bool" where
  "scan_ok X P R ff i es il res \<longleftrightarrow> (case res of (r, es') \<Rightarrow>
     list_all2 (same_value X P R) es es' \<and> (\<exists>il'. r = Some il' \<and> entries_ok ff i es' il il'))"

definition or_ok :: "externals \<Rightarrow> ExprValue list \<Rightarrow> ExprValue list \<Rightarrow> (int \<Rightarrow> int option) \<Rightarrow> ExprLogic list \<Rightarrow> int \<Rightarrow>
    TriBool \<times> int \<times> ExprLogic list \<Rightarrow> bool" where
  "or_ok X P R ff es idx res \<longleftrightarrow> (case res of (b, p, es') \<Rightarrow>
     list_all2 (same_value X P R) es es' \<and> b \<noteq> TB_Error \<and>
     (b = TB_True \<longrightarrow> (idx \<noteq> -1 \<longrightarrow> p = idx) \<and> (\<forall>q. q = p \<or> p = -1 \<longrightarrow> (\<forall>e \<in> set es'. on_index ff q e))))"

lemma and_scan_go:
  assumes go: "map_option (map_prod id (Cons e')) (and_scan ff (Suc i) es il2) = Some res"
    and IH: "\<And>res. and_scan ff (Suc i) es il2 = Some res \<Longrightarrow> scan_ok X P R ff (Suc i) es il2 res"
    and e: "same_value X P R e e'" "\<forall>x \<in> set il2. x \<in> set il \<or> x = (i, p) \<and> on_index ff p e'"
  shows "scan_ok X P R ff i (e # es) il res"
proof -
  obtain r es' where r: "and_scan ff (Suc i) es il2 = Some (r, es')" "res = (r, e' # es')" using go by auto
  then obtain il' where "r = Some il'" "list_all2 (same_value X P R) es es'" "entries_ok ff (Suc i) es' il2 il'"
    using IH [OF r(1)] by (auto simp: scan_ok_def)
  then show ?thesis using e(1) entries_step [OF _ e(2)] by (simp add: scan_ok_def r(2))
qed

text \<open>Positions of indices are not negative.\<close>

definition positions :: "(int \<Rightarrow> int option) \<Rightarrow> bool" where
  "positions ff \<longleftrightarrow> (\<forall>f p. ff f = Some p \<longrightarrow> 0 \<le> p)"

lemma positionsD: "positions ff \<Longrightarrow> ff f = Some p \<Longrightarrow> 0 \<le> p"
  by (simp add: positions_def)

lemma pick_simple:
  assumes "positions ff" "same_value X P R e e'" "b \<noteq> TB_Error" "b = TB_True \<Longrightarrow> 0 \<le> p \<and> on_index ff p e'"
  shows "pick_ok X P R ff e (b, p, picked, e')"
  using assms by (auto simp: pick_ok_def)

lemma pick_comp_ok:
  assumes "positions ff" "fp_total (x_fp X)" "sized X P R (operands (ExprComp c l r))" "pick_comp ff (turn (ExprComp c l r)) = Some res"
  shows "pick_ok X P R ff (ExprComp c l r) res"
proof -
  obtain c' l' r' where t: "turn (ExprComp c l r) = ExprComp c' l' r'" by (cases "turn (ExprComp c l r)") (auto simp: turn_def split: if_splits)
  have v: "same_value X P R (ExprComp c l r) (ExprComp c' l' r')"
    using turn_Calc [OF assms(2,3)] unfolding t by (simp add: same_value_def)
  obtain b p picked e' where res: "res = (b, p, picked, e')" by (cases res) auto
  have "e' = ExprComp c' l' r' \<and> b \<noteq> TB_Error \<and> (b = TB_True \<longrightarrow> 0 \<le> p \<and> on_index ff p e')"
    using assms(1,4) unfolding t res positions_def
    by (cases l') (auto split: if_splits option.splits simp: look_up_def)
  then show ?thesis using v unfolding res by (intro pick_simple [OF assms(1)]) auto
qed

lemma pick_loops:
  assumes fp: "fp_total (x_fp X)"
  shows "positions ff \<Longrightarrow> sized X P R (operands e) \<Longrightarrow> (bVct \<longrightarrow> ExprLogic_GetType e \<noteq> EXPR_AND) \<Longrightarrow>
      PickIndexCondition ff bVct e = Some res \<Longrightarrow> pick_ok X P R ff e res"
    "positions ff \<Longrightarrow> sized X P R (operands_list es) \<Longrightarrow> il_ok i il \<Longrightarrow> and_scan ff i es il = Some res' \<Longrightarrow> scan_ok X P R ff i es il res'"
    "positions ff \<Longrightarrow> sized X P R (operands_list es) \<Longrightarrow> or_scan ff es idx = Some res'' \<Longrightarrow> or_ok X P R ff es idx res''"
proof (induction ff bVct e and ff i es il and ff es idx arbitrary: res and res' and res'' rule: PickIndexCondition_and_scan_or_scan.induct)
  case (1 ff bVct c l r)
  then show ?case using pick_comp_ok [OF _ fp] by simp
next
  case (2 ff bVct e a bIn)
  then show ?case
    by (cases e) (auto simp: look_up_def intro!: pick_simple dest: positionsD split: if_splits option.splits)
next
  case (3 ff bVct e l r)
  then show ?case
    by (cases l) (auto simp: pick_ok_def split: if_splits)
next
  case (4 ff bVct es)
  obtain r es' where r: "and_scan ff 0 es [] = Some (r, es')" using 4 by (auto split: option.splits)
  have "scan_ok X P R ff 0 es [] (r, es')" using 4 r by (intro "4.IH") (simp_all add: il_ok_def)
  then show ?case using "4.prems" r same_value_children(1)
    by (auto simp: scan_ok_def pick_ok_def split: if_splits option.splits)
next
  case (5 ff bVct es)
  obtain b p es' where r: "or_scan ff es (-1) = Some (b, p, es')" "res = (b, p, [], ExprOr es')" using 5 by auto
  have "or_ok X P R ff es (-1) (b, p, es')" using 5 r by (intro "5.IH") simp_all
  then show ?case using same_value_children(2) by (auto simp: or_ok_def pick_ok_def r(2))
next
  case (7 ff i il)
  then show ?case by (fastforce simp: scan_ok_def entries_ok_def il_ok_def)
next
  case (8 ff i e es il)
  have ok: "il_ok (Suc i) il" by (rule il_ok_Suc [OF "8.prems"(3)])
  have go: "scan_ok X P R ff i (e # es) il res'"
    if "map_option (map_prod id (Cons e')) (and_scan ff (Suc i) es il2) = Some res'" "il_ok (Suc i) il2" "same_value X P R e e'"
      "\<forall>x \<in> set il2. x \<in> set il \<or> x = (i, p) \<and> on_index ff p e'" for e' il2 p
    using and_scan_go [OF that(1) _ that(3,4)] "8.IH"(1) [OF "8.prems"(1) _ that(2)] "8.prems"(2) by simp
  show ?case
  proof (cases "ExprLogic_GetType e = EXPR_AND")
    case True
    then show ?thesis using go [of e il] ok "8.prems"(4) by simp
  next
    case False
    then obtain b p pk e' where r: "PickIndexCondition ff False e = Some (b, p, pk, e')"
      using "8.prems"(4) by (auto simp: Let_def split: option.splits)
    have "pick_ok X P R ff e (b, p, pk, e')" using "8.IH"(2) [OF refl False "8.prems"(1) _ _ r] "8.prems"(2) by simp
    then have e: "same_value X P R e e'" "b \<noteq> TB_Error" "b = TB_True \<Longrightarrow> on_index ff p e'" by (auto simp: pick_ok_def)
    show ?thesis
    proof (cases "b = TB_False \<or> il \<noteq> [] \<and> snd (hd il) < p")
      case True
      then have "map_option (map_prod id (Cons e')) (and_scan ff (Suc i) es il) = Some res'"
        using "8.prems"(4) False r e(2) by (cases b) (simp_all add: Let_def del: map_option_eq_Some split: if_splits)
      then show ?thesis using ok e(1) by (rule go [where p = p]) simp
    next
      case nb: False
      then have t: "b = TB_True" "\<not> (il \<noteq> [] \<and> snd (hd il) < p)" using e(2) by (cases b; blast)+
      show ?thesis
      proof (cases "ExprLogic_GetType e' = EXPR_OR")
        case True
        then show ?thesis using "8.prems"(4) False r t entries_stop [OF "8.prems"(3) t(2) e(3) [OF t(1)], of es] e(1)
          by (auto simp: Let_def scan_ok_def)
      next
        case no: False
        have "\<forall>x \<in> set (better il p @ [(i, p)]). x \<in> set il \<or> x = (i, p) \<and> on_index ff p e'"
          using better_cases [OF "8.prems"(3) t(2)] e(3) [OF t(1)] by auto
        moreover have "map_option (map_prod id (Cons e')) (and_scan ff (Suc i) es (better il p @ [(i, p)])) = Some res'"
          using "8.prems"(4) False r t no by (simp add: Let_def del: map_option_eq_Some split: if_splits)
        ultimately show ?thesis using il_ok_push [OF "8.prems"(3) t(2)] e(1) by (intro go)
      qed
    qed
  qed
next
  case (9 ff idx)
  then show ?case by (auto simp: or_ok_def)
next
  case (10 ff e es idx)
  obtain b ip pk e' where r: "PickIndexCondition ff False e = Some (b, ip, pk, e')"
    using "10.prems"(3) by (auto split: option.splits)
  have "pick_ok X P R ff e (b, ip, pk, e')" using "10.IH"(1) [OF "10.prems"(1) _ _ r] "10.prems"(2) by simp
  then have e: "same_value X P R e e'" "b \<noteq> TB_Error" "b = TB_True \<Longrightarrow> q = ip \<or> ip = -1 \<Longrightarrow> on_index ff q e'" for q
    by (auto simp: pick_ok_def)
  show ?case
  proof (cases "b = TB_True \<and> (idx = -1 \<or> idx = ip)")
    case True
    then obtain b2 p es' where r2: "or_scan ff es ip = Some (b2, p, es')" "res'' = (b2, p, e' # es')"
      using "10.prems"(3) r by auto
    have "or_ok X P R ff es ip (b2, p, es')" using "10.IH"(2) [OF r refl refl refl _ _ "10.prems"(1) _ r2(1)] True "10.prems"(2) by simp
    then show ?thesis using e True unfolding r2(2) or_ok_def by auto
  next
    case False
    then show ?thesis using "10.prems"(3) r e(1,2) by (auto simp: or_ok_def split: if_splits)
  qed
qed (auto simp: pick_ok_def)

lemma take_out_parts:
  "sorted_wrt (>) (map fst il) \<Longrightarrow> \<forall>x \<in> set il. fst x < length es \<Longrightarrow> take_out il vct es = (vct', rest) \<Longrightarrow>
     vct' = vct @ map (\<lambda>x. es ! fst x) il \<and> mset rest + mset (map (\<lambda>x. es ! fst x) il) = mset es"
proof (induction il arbitrary: vct es)
  case (Cons a il)
  let ?i = "fst a" and ?es = "remove_at (fst a) es"
  have i: "?i < length es" using Cons.prems(2) by simp
  have lt: "fst x < ?i" if "x \<in> set il" for x using Cons.prems(1) that by auto
  then have nth: "map (\<lambda>x. ?es ! fst x) il = map (\<lambda>x. es ! fst x) il" using i by (auto simp: remove_at_def nth_append)
  have "take_out il (vct @ [es ! ?i]) ?es = (vct', rest)" using Cons.prems(3) by (cases a) simp
  moreover have "\<forall>x \<in> set il. fst x < length ?es" using lt i by fastforce
  ultimately have IH: "vct' = vct @ [es ! ?i] @ map (\<lambda>x. es ! fst x) il" "mset rest + mset (map (\<lambda>x. es ! fst x) il) = mset ?es"
    using Cons.IH [of ?es "vct @ [es ! ?i]"] Cons.prems(1) unfolding nth by auto
  have "mset es = add_mset (es ! ?i) (mset ?es)"
    using arg_cong [OF insert_remove_at [OF i], of mset] i by (simp add: insert_at_def remove_at_def)
  then show ?case using IH by simp
qed simp

text \<open>
  C39: picking an index condition from a conjunction is sound. When \<open>PickIndexCondition\<close> succeeds, with positions of indices that are not
  negative, the conditions it moves to \<open>vctExpr\<close> are at least one, all of them restrict the first column of the index that it reports by
  a constant or a list (or alternatives of such), and for every row for which the operands of the comparisons are no NaN the original condition is
  true exactly when all picked conditions and what is left are true, though comparisons have been turned around in place. Turning a comparison with a
  NaN around changes it, since \<open>operator<\<close> is the negation of \<open>operator>=\<close>. The floating-point comparison is only assumed to
  be total on the other values; a text has its bytes, less than 2 GiB of them.
\<close>

theorem PickIndexCondition_sound:
  assumes "PickIndexCondition firstField True (ExprAnd es) = Some (TB_True, idxPos, picked, rest)"
    and "positions firstField" "fp_total (x_fp X)" "sized X vdParas vdRow (operands (ExprAnd es))"
  shows "picked \<noteq> [] \<and> list_all (on_index firstField idxPos) picked \<and>
    (ExprLogic_Calc X vdParas vdRow (ExprAnd es) = Some TB_True \<longleftrightarrow>
      ExprLogic_Calc X vdParas vdRow (ExprAnd picked) = Some TB_True \<and> ExprLogic_Calc X vdParas vdRow rest = Some TB_True)"
proof -
  obtain il es' rest' where r: "and_scan firstField 0 es [] = Some (Some il, es')" "il \<noteq> []" "idxPos = snd (hd il)"
    "take_out (rev il) [] es' = (picked, rest')" "rest = ExprAnd rest'"
    using assms(1) by (auto split: option.splits if_splits prod.splits)
  have "scan_ok X vdParas vdRow firstField 0 es [] (Some il, es')"
    using assms(4) by (intro pick_loops(2) [OF assms(3,2) _ _ r(1)]) (simp_all add: il_ok_def)
  then have il: "list_all2 (same_value X vdParas vdRow) es es'" "entries_ok firstField 0 es' [] il" by (auto simp: scan_ok_def)
  then have pos: "snd x = idxPos" if "x \<in> set il" for x using that r(2,3) by (auto simp: entries_ok_def)
  have e: "fst x < length es' \<and> on_index firstField idxPos (es' ! fst x)" if "x \<in> set il" for x
    using il(2) pos [OF that] that by (cases x) (auto simp: entries_ok_def)
  have "sorted_wrt (>) (map fst (rev il))" using il(2) by (simp add: entries_ok_def sorted_wrt_rev flip: rev_map)
  then have p: "picked = map (\<lambda>x. es' ! fst x) (rev il)" "mset rest' + mset picked = mset es'"
    using take_out_parts [OF _ _ r(4)] e by auto
  have "set es' = set rest' \<union> set picked" using arg_cong [OF p(2), of set_mset] by simp
  then have "And_Calc X vdParas vdRow es' = Some TB_True \<longleftrightarrow>
      And_Calc X vdParas vdRow picked = Some TB_True \<and> And_Calc X vdParas vdRow rest' = Some TB_True"
    unfolding And_True by auto
  then show ?thesis using r(2) e same_values(1) [OF il(1)] by (auto simp: p(1) r(5) list_all_iff)
qed

theorem PickIndexCondition_sound_witness:
  "\<exists>X :: externals. \<exists>firstField :: int \<Rightarrow> int option.
     let five = ExprConst (EV (DV_Digit (Digit_new DT_INT 5))); row = [EV (DV_Digit (Digit_new DT_INT 7)), EV_Null];
         conds = [ExprComp LT five (ExprField 0), ExprIsNullNot (ExprField 1) True] in
     PickIndexCondition firstField True (ExprAnd conds) =
       Some (TB_True, 2, [ExprComp GT (ExprField 0) five], ExprAnd [ExprIsNullNot (ExprField 1) True]) \<and>
     (ExprLogic_Calc X [] row (ExprAnd conds) = Some TB_True \<longleftrightarrow>
       ExprLogic_Calc X [] row (ExprAnd [ExprComp GT (ExprField 0) five]) = Some TB_True \<and>
       ExprLogic_Calc X [] row (ExprAnd [ExprIsNullNot (ExprField 1) True]) = Some TB_True)"
proof -
  define fp :: fp_ops where "fp = \<lparr>fp_double = (\<lambda>_ v. v), fp_long = (\<lambda>_ v. v), fp_cast = (\<lambda>_ v. v), fp_of_long = (\<lambda>_ v. v),
    fp_add = (\<lambda>_ a b. a + b), fp_eq = (=), fp_lt = (<)\<rparr>"
  let ?X = "some_externals fp" and ?ff = "\<lambda>f :: int. if f = 0 then Some (2 :: int) else None"
  let ?five = "ExprConst (EV (DV_Digit (Digit_new DT_INT 5)))" and ?row = "[EV (DV_Digit (Digit_new DT_INT 7)), EV_Null]"
  let ?conds = "[ExprComp LT ?five (ExprField 0), ExprIsNullNot (ExprField 1) True]"
  have p: "PickIndexCondition ?ff True (ExprAnd ?conds) =
      Some (TB_True, 2, [ExprComp GT (ExprField 0) ?five], ExprAnd [ExprIsNullNot (ExprField 1) True])"
    by (simp add: turn_def look_up_def better_def remove_at_def)
  have "positions ?ff" by (auto simp: positions_def)
  moreover have "fp_total (x_fp ?X)" by (auto simp: fp_total_def some_externals_def fp_def)
  moreover have "sized ?X [] ?row (operands (ExprAnd ?conds))"
    by (simp add: sized_def value_at_def Digit_new_def digit_type_def Digit_GetDouble_def some_externals_def fp_def is_nan_def)
  ultimately show ?thesis using PickIndexCondition_sound [OF p] p by (intro exI [of _ ?X] exI [of _ ?ff]) (simp only: Let_def simp_thms)
qed

section \<open>Where the code is wrong\<close>

text \<open>
  A range condition on a column with constant bounds is never picked: the column is taken from the lower bound, which is a constant. Every
  search for an index condition in a conjunction with such a range uses a null pointer.
\<close>

lemma between_never_picked:
  assumes "ExprData_GetType e = EXPR_FIELD" "IsConstValue l" "IsConstValue r"
  shows "PickIndexCondition firstField bVct (ExprBetween e l r) = None"
  using assms by (cases l) auto

text \<open>A disjunction that holds a conjunction with an index condition: \<open>vctExpr\<close> is null there, and is used.\<close>

lemma or_of_and_crashes:
  assumes "firstField f = Some i" "IsConstValue c"
  shows "PickIndexCondition firstField True (ExprOr (ExprAnd [ExprComp EQ (ExprField f) c] # es)) = None"
proof -
  have "turn (ExprComp EQ (ExprField f) c) = ExprComp EQ (ExprField f) c" by (cases c) (auto simp: turn_def)
  then show ?thesis using assms by (simp add: look_up_def better_def)
qed

text \<open>A comparison of two null pointers uses one of them.\<close>

lemma comp_null_null: "Comp_Calc fp c None None = None"
  by (simp add: Comp_Calc_def)

text \<open>\<open>LIKE\<close> is false for every value.\<close>

lemma like_false: "ExprLogic_Calc X vdParas vdRow (ExprLike e p bLike) = Some TB_False"
  by simp

end
