(* ===== verification/Query_Range.thy ===== *)
theory Query_Range
  imports Expr_Logic "HOL-Library.Monad_Syntax" "HOL-Library.Option_ord" "HOL-Library.List_Lexorder"
begin

text \<open>
  Ranges of an indexed column: \<open>QueryRange\<close> of \<open>statement/Statement.h\<close>, and of \<open>statement/Statement.cpp\<close> the order check, the two
  merges and \<open>ConditionConvert\<close>. A border is a value with the address of its object, because an assertion compares the pointers of the
  borders; the reference counts of the values are not followed. \<open>None\<close> is a failed assertion, \<open>abort\<close>, or a null pointer that is used.
\<close>

section \<open>Ranges\<close>

record ValueRef =
  vr_addr :: nat
  vr_val :: ExprValue

record QueryRange =
  qr_dvLeft :: ValueRef
  qr_dvRight :: ValueRef
  qr_bRange :: bool
  qr_bIncLeft :: bool
  qr_bIncRight :: bool

abbreviation left_of :: "QueryRange \<Rightarrow> ExprValue" where
  "left_of q \<equiv> vr_val (qr_dvLeft q)"

abbreviation right_of :: "QueryRange \<Rightarrow> ExprValue" where
  "right_of q \<equiv> vr_val (qr_dvRight q)"

definition check_range :: "fp_ops \<Rightarrow> QueryRange \<Rightarrow> bool option" where
  "check_range fp q = do {
     gt \<leftarrow> ev_op_gt fp (left_of q) (right_of q);
     if gt then Some False
     else do {
       eq \<leftarrow> ev_op_eq fp (left_of q) (right_of q);
       Some (\<not> (eq \<and> (qr_bRange q \<or> \<not> qr_bIncLeft q \<or> \<not> qr_bIncRight q)))
     }
   }"

definition check_next :: "fp_ops \<Rightarrow> QueryRange \<Rightarrow> QueryRange \<Rightarrow> bool option" where
  "check_next fp itPrev iter = do {
     gt \<leftarrow> ev_op_gt fp (right_of itPrev) (left_of iter);
     if gt then Some False
     else do {
       eq \<leftarrow> ev_op_eq fp (right_of itPrev) (left_of iter);
       Some (\<not> (eq \<and> (qr_bIncRight itPrev \<or> qr_bIncLeft iter)))
     }
   }"

fun CheckQueryRangeOrder :: "fp_ops \<Rightarrow> QueryRange list \<Rightarrow> bool option" where
  "CheckQueryRangeOrder fp [] = Some True"
| "CheckQueryRangeOrder fp [q] = check_range fp q"
| "CheckQueryRangeOrder fp (q # q2 # qs) = do {
     b \<leftarrow> check_range fp q;
     if \<not> b then Some False
     else do {
       b \<leftarrow> check_next fp q q2;
       if \<not> b then Some False else CheckQueryRangeOrder fp (q2 # qs)
     }
   }"

section \<open>The merge of two vectors by AND\<close>

text \<open>Two ranges, the one with the smaller left border first: the range they share, if there is one.\<close>

definition and_ordered :: "fp_ops \<Rightarrow> QueryRange \<Rightarrow> QueryRange \<Rightarrow> QueryRange list option" where
  "and_ordered fp v1 v2 = do {
     ge \<leftarrow> ev_op_ge fp (right_of v1) (left_of v2);
     if \<not> ge then Some []
     else do {
       eq \<leftarrow> ev_op_eq fp (left_of v1) (left_of v2);
       let incLeft = (if eq then qr_bIncLeft v1 \<and> qr_bIncLeft v2 else qr_bIncLeft v2);
       gt \<leftarrow> ev_op_gt fp (right_of v1) (right_of v2);
       (dvRight, incRight) \<leftarrow>
         (if gt then Some (qr_dvRight v2, qr_bIncRight v2)
          else do {
            eq \<leftarrow> ev_op_eq fp (right_of v1) (right_of v2);
            Some (qr_dvRight v1, if eq then qr_bIncRight v1 \<and> qr_bIncRight v2 else qr_bIncRight v1)
          });
       eq \<leftarrow> ev_op_eq fp (left_of v2) (vr_val dvRight);
       Some (if eq \<and> (\<not> incLeft \<or> \<not> incRight) then []
             else [\<lparr>qr_dvLeft = qr_dvLeft v2, qr_dvRight = dvRight, qr_bRange = \<not> eq, qr_bIncLeft = incLeft, qr_bIncRight = incRight\<rparr>])
     }
   }"

definition and_pair :: "fp_ops \<Rightarrow> QueryRange \<Rightarrow> QueryRange \<Rightarrow> QueryRange list option" where
  "and_pair fp v1 v2 = do {
     swap \<leftarrow> ev_op_gt fp (left_of v1) (left_of v2);
     if swap then and_ordered fp v2 v1 else and_ordered fp v1 v2
   }"

text \<open>The asserted form of a point: both borders are one object.\<close>

definition one_object :: "QueryRange \<Rightarrow> bool" where
  "one_object q \<longleftrightarrow> qr_bRange q \<or> vr_addr (qr_dvLeft q) = vr_addr (qr_dvRight q)"

fun and_loop :: "fp_ops \<Rightarrow> QueryRange list \<Rightarrow> QueryRange list \<Rightarrow> QueryRange list option" where
  "and_loop fp [] rs = Some []"
| "and_loop fp ls [] = Some []"
| "and_loop fp (v1 # ls) (v2 # rs) =
     (if \<not> one_object v1 \<or> \<not> one_object v2 then None
      else do {
        gt \<leftarrow> ev_op_gt fp (right_of v1) (right_of v2);
        val \<leftarrow> and_pair fp v1 v2;
        rest \<leftarrow> (if gt then and_loop fp (v1 # ls) rs else and_loop fp ls (v2 # rs));
        Some (val @ rest)
      })"

definition MergeAndQueryRange :: "fp_ops \<Rightarrow> QueryRange list \<Rightarrow> QueryRange list \<Rightarrow> QueryRange list option" where
  "MergeAndQueryRange fp vctLeft vctRight = do {
     bl \<leftarrow> CheckQueryRangeOrder fp vctLeft;
     br \<leftarrow> CheckQueryRangeOrder fp vctRight;
     if bl \<and> br then and_loop fp vctLeft vctRight else None
   }"

section \<open>The merge of two vectors by OR\<close>

fun by_left :: "fp_ops \<Rightarrow> QueryRange list \<Rightarrow> QueryRange list \<Rightarrow> QueryRange list option" where
  "by_left fp [] ss = Some ss"
| "by_left fp rs [] = Some rs"
| "by_left fp (v1 # rs) (v2 # ss) = do {
     gt \<leftarrow> ev_op_gt fp (left_of v1) (left_of v2);
     if gt then map_option (Cons v2) (by_left fp (v1 # rs) ss) else map_option (Cons v1) (by_left fp rs (v2 # ss))
   }"

definition overlap :: "fp_ops \<Rightarrow> QueryRange \<Rightarrow> QueryRange \<Rightarrow> bool option" where
  "overlap fp itprev iter = do {
     gt \<leftarrow> ev_op_gt fp (right_of itprev) (left_of iter);
     if gt then Some True
     else do {
       eq \<leftarrow> ev_op_eq fp (right_of itprev) (left_of iter);
       Some (eq \<and> (qr_bIncRight itprev \<or> qr_bIncLeft iter))
     }
   }"

definition widen :: "fp_ops \<Rightarrow> QueryRange \<Rightarrow> QueryRange \<Rightarrow> QueryRange option" where
  "widen fp itprev iter = do {
     lt \<leftarrow> ev_op_lt fp (right_of itprev) (right_of iter);
     if lt then Some (itprev\<lparr>qr_dvRight := qr_dvRight iter, qr_bIncRight := qr_bIncRight iter\<rparr>)
     else do {
       eq \<leftarrow> ev_op_eq fp (right_of itprev) (right_of iter);
       Some (if eq then itprev\<lparr>qr_bIncRight := qr_bIncRight itprev \<or> qr_bIncRight iter\<rparr> else itprev)
     }
   }"

fun join_ranges :: "fp_ops \<Rightarrow> QueryRange \<Rightarrow> QueryRange list \<Rightarrow> QueryRange list option" where
  "join_ranges fp itprev [] = Some [itprev]"
| "join_ranges fp itprev (iter # qs) = do {
     b \<leftarrow> overlap fp itprev iter;
     if b then do { q \<leftarrow> widen fp itprev iter; join_ranges fp q qs }
     else map_option (Cons itprev) (join_ranges fp iter qs)
   }"

definition MergeOrQueryRange :: "fp_ops \<Rightarrow> QueryRange list \<Rightarrow> QueryRange list \<Rightarrow> QueryRange list option" where
  "MergeOrQueryRange fp vctResult vctSrc = do {
     b \<leftarrow> CheckQueryRangeOrder fp vctSrc;
     if \<not> b then None
     else do {
       vct \<leftarrow> by_left fp vctResult vctSrc;
       vct \<leftarrow> (case vct of [] \<Rightarrow> None | q # qs \<Rightarrow> join_ranges fp q qs);
       b \<leftarrow> CheckQueryRangeOrder fp vct;
       if b then Some vct else None
     }
   }"

section \<open>The ranges of a condition\<close>

fun dv_SetMinValue :: "DataValue \<Rightarrow> DataValue" where
  "dv_SetMinValue (DV_Digit d) = DV_Digit (Digit_SetMinValue d)"
| "dv_SetMinValue (DV_FixChar c) = DV_FixChar (FixChar_SetMinValue c)"
| "dv_SetMinValue (DV_VarChar c) = DV_VarChar (VarChar_SetMinValue c)"
| "dv_SetMinValue (DV_Blob c) = DV_Blob (Blob_SetMinValue c)"

fun dv_SetMaxValue :: "DataValue \<Rightarrow> DataValue" where
  "dv_SetMaxValue (DV_Digit d) = DV_Digit (Digit_SetMaxValue d)"
| "dv_SetMaxValue (DV_FixChar c) = DV_FixChar (FixChar_SetMaxValue c)"
| "dv_SetMaxValue (DV_VarChar c) = DV_VarChar (VarChar_SetMaxValue c)"
| "dv_SetMaxValue (DV_Blob c) = DV_Blob (Blob_SetMaxValue c)"

text \<open>The border of a half-open range: a clone that is set to the least or the greatest value of its type.\<close>

fun min_border :: "ExprValue \<Rightarrow> ExprValue" where
  "min_border EV_Null = EV_Null"
| "min_border (EV v) = EV (dv_SetMinValue (dv_Clone v))"

fun max_border :: "ExprValue \<Rightarrow> ExprValue" where
  "max_border EV_Null = EV_Null"
| "max_border (EV v) = EV (dv_SetMaxValue (dv_Clone v))"

text \<open>The new objects have the addresses from \<open>n\<close> on: the computed value, the border, and the second border of \<open>NE\<close>.\<close>

fun comp_ranges :: "CompType \<Rightarrow> ExprValue \<Rightarrow> nat \<Rightarrow> QueryRange list" where
  "comp_ranges EQ dv n = [\<lparr>qr_dvLeft = \<lparr>vr_addr = n, vr_val = dv\<rparr>, qr_dvRight = \<lparr>vr_addr = n, vr_val = dv\<rparr>, qr_bRange = False, qr_bIncLeft = True, qr_bIncRight = True\<rparr>]"
| "comp_ranges GT dv n = [\<lparr>qr_dvLeft = \<lparr>vr_addr = n, vr_val = dv\<rparr>, qr_dvRight = \<lparr>vr_addr = n + 1, vr_val = max_border dv\<rparr>, qr_bRange = True, qr_bIncLeft = False, qr_bIncRight = True\<rparr>]"
| "comp_ranges GE dv n = [\<lparr>qr_dvLeft = \<lparr>vr_addr = n, vr_val = dv\<rparr>, qr_dvRight = \<lparr>vr_addr = n + 1, vr_val = max_border dv\<rparr>, qr_bRange = True, qr_bIncLeft = True, qr_bIncRight = True\<rparr>]"
| "comp_ranges LT dv n = [\<lparr>qr_dvLeft = \<lparr>vr_addr = n + 1, vr_val = min_border dv\<rparr>, qr_dvRight = \<lparr>vr_addr = n, vr_val = dv\<rparr>, qr_bRange = True, qr_bIncLeft = True, qr_bIncRight = False\<rparr>]"
| "comp_ranges LE dv n = [\<lparr>qr_dvLeft = \<lparr>vr_addr = n + 1, vr_val = min_border dv\<rparr>, qr_dvRight = \<lparr>vr_addr = n, vr_val = dv\<rparr>, qr_bRange = True, qr_bIncLeft = True, qr_bIncRight = True\<rparr>]"
| "comp_ranges NE dv n = [
     \<lparr>qr_dvLeft = \<lparr>vr_addr = n + 1, vr_val = min_border dv\<rparr>, qr_dvRight = \<lparr>vr_addr = n, vr_val = dv\<rparr>, qr_bRange = True, qr_bIncLeft = True, qr_bIncRight = False\<rparr>,
     \<lparr>qr_dvLeft = \<lparr>vr_addr = n, vr_val = dv\<rparr>, qr_dvRight = \<lparr>vr_addr = n + 2, vr_val = max_border dv\<rparr>, qr_bRange = True, qr_bIncLeft = False, qr_bIncRight = True\<rparr>]"

fun in_points :: "ExprValue list \<Rightarrow> nat \<Rightarrow> QueryRange list" where
  "in_points [] n = []"
| "in_points (dv # dvs) n = \<lparr>qr_dvLeft = \<lparr>vr_addr = n, vr_val = dv\<rparr>, qr_dvRight = \<lparr>vr_addr = n, vr_val = dv\<rparr>, qr_bRange = False, qr_bIncLeft = True, qr_bIncRight = True\<rparr>
     # in_points dvs (n + 1)"

definition between_ranges :: "fp_ops \<Rightarrow> ExprValue \<Rightarrow> ExprValue \<Rightarrow> nat \<Rightarrow> QueryRange list option" where
  "between_ranges fp dvL dvR n = do {
     gt \<leftarrow> ev_op_gt fp dvL dvR;
     if gt then Some []
     else do {
       eq \<leftarrow> ev_op_eq fp dvL dvR;
       Some [\<lparr>qr_dvLeft = \<lparr>vr_addr = n, vr_val = dvL\<rparr>, qr_dvRight = \<lparr>vr_addr = n + 1, vr_val = dvR\<rparr>, qr_bRange = \<not> eq, qr_bIncLeft = True, qr_bIncRight = True\<rparr>]
     }
   }"

text \<open>
  \<open>ConditionConvert\<close>: the ranges, the condition afterwards (an \<open>IN\<close> hands its values over and is left without any), and the next
  address. The values of operands are computed without a row. A value computed for an operand is an object of its own.
\<close>

fun ConditionConvert :: "externals \<Rightarrow> ExprValue list \<Rightarrow> ExprLogic \<Rightarrow> nat \<Rightarrow> (QueryRange list \<times> ExprLogic \<times> nat) option"
  and and_convert :: "externals \<Rightarrow> ExprValue list \<Rightarrow> QueryRange list \<Rightarrow> ExprLogic list \<Rightarrow> nat \<Rightarrow> (QueryRange list \<times> ExprLogic list \<times> nat) option"
  and or_convert :: "externals \<Rightarrow> ExprValue list \<Rightarrow> QueryRange list \<Rightarrow> ExprLogic list \<Rightarrow> nat \<Rightarrow> (QueryRange list \<times> ExprLogic list \<times> nat) option" where
  "ConditionConvert X paras (ExprComp c l r) n =
     (if ExprData_GetType l \<noteq> EXPR_FIELD then None
      else do {
        dv \<leftarrow> ExprData_Calc X paras [] r;
        dv \<leftarrow> dv;
        Some (comp_ranges c dv n, ExprComp c l r, n + 3)
      })"
| "ConditionConvert X paras (ExprInNot e a bIn) n =
     (if \<not> bIn \<or> ExprData_GetType e \<noteq> EXPR_FIELD then None
      else Some (in_points a n, ExprInNot e [] bIn, n + length a))"
| "ConditionConvert X paras (ExprBetween e l r) n =
     (if ExprData_GetType e \<noteq> EXPR_FIELD then None
      else do {
        dvL \<leftarrow> ExprData_Calc X paras [] l;
        dvR \<leftarrow> ExprData_Calc X paras [] r;
        dvL \<leftarrow> dvL;
        dvR \<leftarrow> dvR;
        qs \<leftarrow> between_ranges (x_fp X) dvL dvR n;
        Some (qs, ExprBetween e l r, n + 2)
      })"
| "ConditionConvert X paras (ExprAnd es) n = map_option (\<lambda>(qs, es', n). (qs, ExprAnd es', n)) (and_convert X paras [] es n)"
| "ConditionConvert X paras (ExprOr es) n = map_option (\<lambda>(qs, es', n). (qs, ExprOr es', n)) (or_convert X paras [] es n)"
| "ConditionConvert X paras (ExprIsNullNot e bNull) n = None"
| "ConditionConvert X paras (ExprLike e p bLike) n = None"
| "ConditionConvert X paras (ExprNot e) n = None"
| "and_convert X paras vctVal [] n = Some (vctVal, [], n)"
| "and_convert X paras vctVal (e # es) n = do {
     (vctRes, e', n) \<leftarrow> ConditionConvert X paras e n;
     vctVal \<leftarrow> (if vctVal \<noteq> [] then MergeAndQueryRange (x_fp X) vctVal vctRes else Some vctRes);
     (qs, es', n) \<leftarrow> and_convert X paras vctVal es n;
     Some (qs, e' # es', n)
   }"
| "or_convert X paras vctVal [] n = Some (vctVal, [], n)"
| "or_convert X paras vctVal (e # es) n = do {
     (vctRes, e', n) \<leftarrow> ConditionConvert X paras e n;
     vctVal \<leftarrow> MergeOrQueryRange (x_fp X) vctVal vctRes;
     (qs, es', n) \<leftarrow> or_convert X paras vctVal es n;
     Some (qs, e' # es', n)
   }"

text \<open>The column a condition is about; \<open>None\<close> is \<open>abort\<close> or the first child of an empty condition.\<close>

fun GetFieldFromExprLogic :: "ExprLogic \<Rightarrow> ExprData option option" where
  "GetFieldFromExprLogic (ExprComp c l r) = Some (if ExprData_GetType l = EXPR_FIELD then Some l else None)"
| "GetFieldFromExprLogic (ExprInNot e a bIn) = Some (if ExprData_GetType e = EXPR_FIELD then Some e else None)"
| "GetFieldFromExprLogic (ExprBetween e l r) = Some (if ExprData_GetType e = EXPR_FIELD then Some e else None)"
| "GetFieldFromExprLogic (ExprAnd (e # es)) = GetFieldFromExprLogic e"
| "GetFieldFromExprLogic (ExprOr (e # es)) = GetFieldFromExprLogic e"
| "GetFieldFromExprLogic e = None"

section \<open>What ranges mean\<close>

text \<open>
  The values in a range, as the key range built from it is searched: a point has the value of its left border, whatever its flags say.
  \<open>rank\<close> places a value in a linear order.
\<close>

definition from_left :: "'r :: linorder \<Rightarrow> bool \<Rightarrow> 'r \<Rightarrow> bool" where
  "from_left l inc x \<longleftrightarrow> l < x \<or> inc \<and> l = x"

definition to_right :: "'r :: linorder \<Rightarrow> bool \<Rightarrow> 'r \<Rightarrow> bool" where
  "to_right r inc x \<longleftrightarrow> x < r \<or> inc \<and> x = r"

definition in_range :: "(ExprValue \<Rightarrow> 'r :: linorder) \<Rightarrow> 'r \<Rightarrow> QueryRange \<Rightarrow> bool" where
  "in_range rank x q \<longleftrightarrow>
     (if qr_bRange q then from_left (rank (left_of q)) (qr_bIncLeft q) x \<and> to_right (rank (right_of q)) (qr_bIncRight q) x
      else x = rank (left_of q))"

abbreviation in_ranges :: "(ExprValue \<Rightarrow> 'r :: linorder) \<Rightarrow> 'r \<Rightarrow> QueryRange list \<Rightarrow> bool" where
  "in_ranges rank x qs \<equiv> \<exists>q \<in> set qs. in_range rank x q"

definition range_ok :: "(ExprValue \<Rightarrow> 'r :: linorder) \<Rightarrow> QueryRange \<Rightarrow> bool" where
  "range_ok rank q \<longleftrightarrow>
     rank (left_of q) < rank (right_of q) \<and> qr_bRange q \<or>
     rank (left_of q) = rank (right_of q) \<and> \<not> qr_bRange q \<and> qr_bIncLeft q \<and> qr_bIncRight q"

definition before :: "(ExprValue \<Rightarrow> 'r :: linorder) \<Rightarrow> QueryRange \<Rightarrow> QueryRange \<Rightarrow> bool" where
  "before rank p q \<longleftrightarrow>
     rank (right_of p) < rank (left_of q) \<or> rank (right_of p) = rank (left_of q) \<and> \<not> qr_bIncRight p \<and> \<not> qr_bIncLeft q"

definition ranges_ok :: "(ExprValue \<Rightarrow> 'r :: linorder) \<Rightarrow> QueryRange list \<Rightarrow> bool" where
  "ranges_ok rank qs \<longleftrightarrow> list_all (range_ok rank) qs \<and> sorted_wrt (before rank) qs"

text \<open>The values of the borders.\<close>

definition borders_ok :: "(ExprValue \<Rightarrow> bool) \<Rightarrow> QueryRange list \<Rightarrow> bool" where
  "borders_ok ok qs \<longleftrightarrow> list_all (\<lambda>q. ok (left_of q) \<and> ok (right_of q)) qs"

lemma borders_ok_simps [simp]:
  "borders_ok ok []" "borders_ok ok (q # qs) \<longleftrightarrow> ok (left_of q) \<and> ok (right_of q) \<and> borders_ok ok qs" "borders_ok ok (ps @ qs) \<longleftrightarrow> borders_ok ok ps \<and> borders_ok ok qs"
  by (auto simp: borders_ok_def)

lemma ranges_ok_Nil [simp]: "ranges_ok rank []"
  by (simp add: ranges_ok_def)

lemma ranges_ok_Cons: "ranges_ok rank (q # qs) \<longleftrightarrow> range_ok rank q \<and> (\<forall>p \<in> set qs. before rank q p) \<and> ranges_ok rank qs"
  by (auto simp: ranges_ok_def)

text \<open>\<open>sub q p\<close>: the range \<open>q\<close> is within the range \<open>p\<close>.\<close>

definition sub :: "(ExprValue \<Rightarrow> 'r :: linorder) \<Rightarrow> QueryRange \<Rightarrow> QueryRange \<Rightarrow> bool" where
  "sub rank q p \<longleftrightarrow>
     (rank (left_of p) < rank (left_of q) \<or> rank (left_of p) = rank (left_of q) \<and> (qr_bIncLeft q \<longrightarrow> qr_bIncLeft p)) \<and>
     (rank (right_of q) < rank (right_of p) \<or> rank (right_of q) = rank (right_of p) \<and> (qr_bIncRight q \<longrightarrow> qr_bIncRight p))"

lemma sub_before: "before rank p q \<Longrightarrow> sub rank p' p \<Longrightarrow> sub rank q' q \<Longrightarrow> before rank p' q'"
  by (auto simp: before_def sub_def)

lemma before_trans: "before rank p q \<Longrightarrow> range_ok rank q \<Longrightarrow> before rank q r \<Longrightarrow> before rank p r"
  by (auto simp: before_def range_ok_def)

lemma in_range_ok:
  "range_ok rank q \<Longrightarrow>
     in_range rank x q \<longleftrightarrow> from_left (rank (left_of q)) (qr_bIncLeft q) x \<and> to_right (rank (right_of q)) (qr_bIncRight q) x"
  by (auto simp: in_range_def range_ok_def from_left_def to_right_def)

lemma left_meet:
  fixes l :: "'r :: linorder"
  shows "l \<le> l2 \<Longrightarrow> from_left l i x \<and> from_left l2 j x \<longleftrightarrow> from_left l2 (if l = l2 then i \<and> j else j) x"
  by (auto simp: from_left_def)

lemma right_meet:
  fixes r :: "'r :: linorder"
  shows "to_right r i x \<and> to_right r2 j x \<longleftrightarrow> to_right (min r r2) (if r2 < r then j else if r = r2 then i \<and> j else i) x"
  by (auto simp: to_right_def min_def)

lemma no_value: "r < l \<or> r = l \<and> \<not> (i \<and> j) \<Longrightarrow> \<not> (from_left l i x \<and> to_right r j x)"
  by (auto simp: from_left_def to_right_def)

lemma one_value: "from_left l True x \<and> to_right l True x \<longleftrightarrow> x = l"
  by (auto simp: from_left_def to_right_def)

text \<open>Sorted by the left border; where two left borders are equal, the first range includes what the second has of the border.\<close>

definition covers :: "(ExprValue \<Rightarrow> 'r :: linorder) \<Rightarrow> QueryRange \<Rightarrow> QueryRange \<Rightarrow> bool" where
  "covers rank q r \<longleftrightarrow> (qr_bRange r \<longrightarrow> qr_bRange q) \<and> (qr_bIncLeft r \<longrightarrow> qr_bIncLeft q)"

definition left_order :: "(ExprValue \<Rightarrow> 'r :: linorder) \<Rightarrow> QueryRange \<Rightarrow> QueryRange \<Rightarrow> bool" where
  "left_order rank q r \<longleftrightarrow> rank (left_of q) < rank (left_of r) \<or> rank (left_of q) = rank (left_of r) \<and> covers rank q r"

lemma before_left: "before rank p q \<Longrightarrow> range_ok rank p \<Longrightarrow> rank (left_of p) < rank (left_of q)"
  by (auto simp: before_def range_ok_def)

lemma left_order_ok: "ranges_ok rank qs \<Longrightarrow> sorted_wrt (left_order rank) qs"
  unfolding ranges_ok_def
  by (induction qs) (auto simp: left_order_def before_left)

section \<open>Values with an order\<close>

locale ordered_values =
  fixes fp :: fp_ops and ok :: "ExprValue \<Rightarrow> bool" and rank :: "ExprValue \<Rightarrow> 'r :: linorder"
  assumes gt [simp]: "ok a \<Longrightarrow> ok b \<Longrightarrow> ev_op_gt fp a b = Some (rank b < rank a)"
    and ge [simp]: "ok a \<Longrightarrow> ok b \<Longrightarrow> ev_op_ge fp a b = Some (rank b \<le> rank a)"
    and eq [simp]: "ok a \<Longrightarrow> ok b \<Longrightarrow> ev_op_eq fp a b = Some (rank a = rank b)"
begin

lemma lt [simp]: "ok a \<Longrightarrow> ok b \<Longrightarrow> ev_op_lt fp a b = Some (rank a < rank b)"
  by (auto simp: ev_op_lt_def)

lemma check_range_ok: "range_ok rank q \<Longrightarrow> ok (left_of q) \<Longrightarrow> ok (right_of q) \<Longrightarrow> check_range fp q = Some True"
  by (auto simp: check_range_def range_ok_def)

lemma check_next_before: "ok (right_of p) \<Longrightarrow> ok (left_of q) \<Longrightarrow> check_next fp p q = Some (before rank p q)"
  by (auto simp: check_next_def before_def)

text \<open>The order check accepts what is in order, and the pairwise order of neighbours is enough.\<close>

lemma check_order: "ranges_ok rank qs \<Longrightarrow> borders_ok ok qs \<Longrightarrow> CheckQueryRangeOrder fp qs = Some True"
  by (induction qs rule: induct_list012) (auto simp: ranges_ok_Cons check_range_ok check_next_before)

text \<open>One step of the merge by AND, in terms of the ranks.\<close>

lemma and_ordered_eq:
  assumes "borders_ok ok [p, q]"
  shows "and_ordered fp p q =
    (let rp = rank (right_of p); rq = rank (right_of q); l = rank (left_of q);
         r = (if rq < rp then qr_dvRight q else qr_dvRight p);
         incL = (if rank (left_of p) = l then qr_bIncLeft p \<and> qr_bIncLeft q else qr_bIncLeft q);
         incR = (if rq < rp then qr_bIncRight q else if rp = rq then qr_bIncRight p \<and> qr_bIncRight q else qr_bIncRight p);
         e = (l = min rp rq) in
     Some (if rp < l \<or> e \<and> (\<not> incL \<or> \<not> incR) then []
           else [\<lparr>qr_dvLeft = qr_dvLeft q, qr_dvRight = r, qr_bRange = \<not> e, qr_bIncLeft = incL, qr_bIncRight = incR\<rparr>]))"
proof (cases "rank (right_of p) < rank (left_of q)")
  case False
  show ?thesis
  proof (cases "rank (right_of p)" "rank (right_of q)" rule: linorder_cases)
    case less
    then have "\<not> rank (right_of p) < rank (left_of q)" "rank (left_of q) \<le> rank (right_of p)" "\<not> rank (right_of q) < rank (right_of p)" "rank (right_of p) \<noteq> rank (right_of q)"
      using False by auto
    then show ?thesis using assms less by (simp add: and_ordered_def Let_def)
  next
    case equal
    then have "\<not> rank (right_of q) < rank (left_of q)" "rank (left_of q) \<le> rank (right_of q)" using False by simp_all
    then show ?thesis using assms equal by (simp add: and_ordered_def Let_def)
  next
    case greater
    then have "min (rank (right_of p)) (rank (right_of q)) = rank (right_of q)" by simp
    then show ?thesis using assms greater False by (simp add: and_ordered_def Let_def not_less)
  qed
next
  case True
  then have "\<not> rank (left_of q) \<le> rank (right_of p)" by simp
  then show ?thesis using assms True by (simp add: and_ordered_def Let_def)
qed

lemma and_ordered_spec:
  fixes x :: 'r
  assumes ok: "range_ok rank p" "range_ok rank q" and bord: "borders_ok ok [p, q]" and le: "rank (left_of p) \<le> rank (left_of q)"
    and e: "and_ordered fp p q = Some vs"
  shows "borders_ok ok vs" "\<forall>v \<in> set vs. range_ok rank v \<and> sub rank v p \<and> sub rank v q" "length vs \<le> 1"
    "in_ranges rank x vs \<longleftrightarrow> in_range rank x p \<and> in_range rank x q"
proof -
  define rp rq l where "rp = rank (right_of p)" and "rq = rank (right_of q)" and "l = rank (left_of q)"
  define r where "r = (if rq < rp then qr_dvRight q else qr_dvRight p)"
  define incL where "incL = (if rank (left_of p) = l then qr_bIncLeft p \<and> qr_bIncLeft q else qr_bIncLeft q)"
  define incR where "incR = (if rq < rp then qr_bIncRight q else if rp = rq then qr_bIncRight p \<and> qr_bIncRight q else qr_bIncRight p)"
  let ?v = "\<lparr>qr_dvLeft = qr_dvLeft q, qr_dvRight = r, qr_bRange = l \<noteq> min rp rq, qr_bIncLeft = incL, qr_bIncRight = incR\<rparr>"
  have vs: "vs = (if rp < l \<or> l = min rp rq \<and> (\<not> incL \<or> \<not> incR) then [] else [?v])"
    using e unfolding and_ordered_eq [OF bord] Let_def rp_def rq_def l_def r_def incL_def incR_def by simp
  have r: "rank (vr_val r) = min rp rq" "ok (vr_val r)" using bord by (auto simp: r_def rp_def rq_def min_def)
  have lq: "l \<le> rq" using ok(2) by (auto simp: range_ok_def rq_def l_def)
  show "borders_ok ok vs" "length vs \<le> 1" using bord r(2) by (simp_all add: vs)
  have "rank (left_of p) \<le> l" using le by (simp add: l_def)
  then have "sub rank ?v p" "sub rank ?v q"
    unfolding sub_def by (auto simp: r(1) rp_def [symmetric] rq_def [symmetric] l_def [symmetric] min_def incL_def incR_def)
  moreover have "range_ok rank ?v" if "\<not> (rp < l \<or> l = min rp rq \<and> (\<not> incL \<or> \<not> incR))"
    using that lq by (auto simp: range_ok_def r(1) l_def [symmetric] min_def)
  ultimately show "\<forall>v \<in> set vs. range_ok rank v \<and> sub rank v p \<and> sub rank v q" by (auto simp: vs)
  have both: "in_range rank x p \<and> in_range rank x q \<longleftrightarrow> from_left l incL x \<and> to_right (min rp rq) incR x"
    unfolding in_range_ok [OF ok(1)] in_range_ok [OF ok(2)]
    using left_meet [OF le, where i = "qr_bIncLeft p" and j = "qr_bIncLeft q" and x = x]
      right_meet [where r = "rank (right_of p)" and i = "qr_bIncRight p" and x = x and ?r2.0 = "rank (right_of q)" and j = "qr_bIncRight q"]
    unfolding incL_def incR_def l_def rp_def rq_def by argo
  show "in_ranges rank x vs \<longleftrightarrow> in_range rank x p \<and> in_range rank x q"
  proof (cases "rp < l \<or> l = min rp rq \<and> (\<not> incL \<or> \<not> incR)")
    case True
    then have "min rp rq < l \<or> min rp rq = l \<and> \<not> (incL \<and> incR)" by (auto simp: min_def)
    then have "\<not> (from_left l incL x \<and> to_right (min rp rq) incR x)" by (rule no_value)
    then show ?thesis using True unfolding both vs by simp
  next
    case False
    then show ?thesis unfolding both using one_value [of l x]
      by (auto simp: vs in_range_def r(1) l_def [symmetric])
  qed
qed

lemma and_pair_spec:
  fixes x :: 'r
  assumes ok: "range_ok rank p" "range_ok rank q" and bord: "borders_ok ok [p, q]" and e: "and_pair fp p q = Some vs"
  shows "borders_ok ok vs" "\<forall>v \<in> set vs. range_ok rank v \<and> sub rank v p \<and> sub rank v q" "length vs \<le> 1"
    "in_ranges rank x vs \<longleftrightarrow> in_range rank x p \<and> in_range rank x q"
proof -
  have "borders_ok ok vs \<and> (\<forall>v \<in> set vs. range_ok rank v \<and> sub rank v p \<and> sub rank v q) \<and> length vs \<le> 1 \<and>
      (in_ranges rank x vs \<longleftrightarrow> in_range rank x p \<and> in_range rank x q)"
  proof (cases "rank (left_of q) < rank (left_of p)")
    case True
    then have e': "and_ordered fp q p = Some vs" using e bord by (simp add: and_pair_def)
    show ?thesis using and_ordered_spec [OF ok(2,1) _ _ e'] True bord by auto
  next
    case False
    then have e': "and_ordered fp p q = Some vs" using e bord by (simp add: and_pair_def)
    show ?thesis using and_ordered_spec [OF ok bord _ e'] False by auto
  qed
  then show "borders_ok ok vs" "\<forall>v \<in> set vs. range_ok rank v \<and> sub rank v p \<and> sub rank v q" "length vs \<le> 1"
    "in_ranges rank x vs \<longleftrightarrow> in_range rank x p \<and> in_range rank x q" by blast+
qed

lemma and_pair_some: "borders_ok ok [p, q] \<Longrightarrow> \<exists>vs. and_pair fp p q = Some vs"
  by (auto simp: and_pair_def and_ordered_eq Let_def)

lemma sub_disjoint: "range_ok rank p \<Longrightarrow> range_ok rank r \<Longrightarrow> before rank q r \<Longrightarrow> rank (right_of p) \<le> rank (right_of q) \<Longrightarrow> \<not> (in_range rank x p \<and> in_range rank x r)"
  by (auto simp: before_def in_range_def range_ok_def from_left_def to_right_def)

text \<open>The loop: what it emits is in a range of either side, in order, and nothing else is lost.\<close>

lemma and_loop_spec:
  assumes "ranges_ok rank ls" "ranges_ok rank rs" "borders_ok ok ls" "borders_ok ok rs" "list_all one_object ls" "list_all one_object rs"
  shows "\<exists>vs. and_loop fp ls rs = Some vs \<and> borders_ok ok vs \<and> ranges_ok rank vs \<and>
    (\<forall>v \<in> set vs. (\<exists>p \<in> set ls. sub rank v p) \<and> (\<exists>q \<in> set rs. sub rank v q)) \<and>
    (\<forall>x. in_ranges rank x vs \<longleftrightarrow> in_ranges rank x ls \<and> in_ranges rank x rs)"
  using assms
proof (induction "length ls + length rs" arbitrary: ls rs rule: less_induct)
  case less
  show ?case
  proof (cases ls; cases rs)
    fix v1 ls' v2 rs'
    assume ls: "ls = v1 # ls'" and rs: "rs = v2 # rs'"
    have ok: "range_ok rank v1" "range_ok rank v2" "borders_ok ok [v1, v2]" using less.prems by (simp_all add: ranges_ok_Cons ls rs)
    obtain vs where vs: "and_pair fp v1 v2 = Some vs" using and_pair_some [OF ok(3)] by blast
    note pair = and_pair_spec [OF ok vs]
    let ?gt = "rank (right_of v2) < rank (right_of v1)"
    let ?L = "if ?gt then v1 # ls' else ls'" and ?R = "if ?gt then rs' else v2 # rs'"
    have m: "length ?L + length ?R < length ls + length rs" "ranges_ok rank ?L" "ranges_ok rank ?R" "borders_ok ok ?L" "borders_ok ok ?R"
      "list_all one_object ?L" "list_all one_object ?R"
      using less.prems by (simp_all add: ls rs ranges_ok_Cons)
    obtain ws where ws: "and_loop fp ?L ?R = Some ws" "borders_ok ok ws" "ranges_ok rank ws"
        "\<forall>v \<in> set ws. (\<exists>p \<in> set ?L. sub rank v p) \<and> (\<exists>q \<in> set ?R. sub rank v q)"
        "\<forall>x. in_ranges rank x ws \<longleftrightarrow> in_ranges rank x ?L \<and> in_ranges rank x ?R"
      using less.hyps [OF m] by blast
    have bef: "\<forall>p \<in> set ls'. before rank v1 p" "\<forall>q \<in> set rs'. before rank v2 q" "\<forall>p \<in> set ls'. range_ok rank p" "\<forall>q \<in> set rs'. range_ok rank q"
      using less.prems by (auto simp: ls rs ranges_ok_def list_all_iff)
    have sub: "\<exists>p \<in> set ls. sub rank v p" "\<exists>q \<in> set rs. sub rank v q" if "v \<in> set (vs @ ws)" for v
      using that pair(2) ws(4) by (auto simp: ls rs split: if_splits)
    have "before rank v w" if v: "v \<in> set vs" and w: "w \<in> set ws" for v w
    proof (cases ?gt)
      case True
      then obtain q where "q \<in> set rs'" "sub rank w q" using ws(4) w by auto
      then show ?thesis using sub_before bef(2) pair(2) v by blast
    next
      case False
      then obtain p where "p \<in> set ls'" "sub rank w p" using ws(4) w by auto
      then show ?thesis using sub_before bef(1) pair(2) v by blast
    qed
    moreover have "ranges_ok rank vs" using pair(2,3) by (cases vs) (auto simp: ranges_ok_Cons)
    ultimately have rok: "ranges_ok rank (vs @ ws)" using ws(3) by (auto simp: ranges_ok_def sorted_wrt_append)
    have den: "in_ranges rank x (vs @ ws) \<longleftrightarrow> in_ranges rank x ls \<and> in_ranges rank x rs" for x
    proof (cases ?gt)
      case True
      then have "\<not> (in_range rank x v2 \<and> in_ranges rank x ls')" using sub_disjoint [OF ok(2)] bef(1,3) by fastforce
      then show ?thesis using ws(5) [rule_format, of x] pair(4) [of x] True by (simp add: ls rs bex_Un) blast
    next
      case False
      then have "\<not> (in_range rank x v1 \<and> in_ranges rank x rs')" using sub_disjoint [OF ok(1)] bef(2,4) by fastforce
      then show ?thesis using ws(5) [rule_format, of x] pair(4) [of x] False by (simp add: ls rs bex_Un) blast
    qed
    have "and_loop fp ls rs = Some (vs @ ws)"
      using less.prems ok(3) vs ws(1) by (cases ?gt) (simp_all add: ls rs)
    then show ?thesis using rok den sub pair(1) ws(2) by simp
  qed (use less.prems in simp_all)
qed

lemma MergeAnd_spec:
  assumes "ranges_ok rank ls" "ranges_ok rank rs" "borders_ok ok ls" "borders_ok ok rs" "list_all one_object ls" "list_all one_object rs"
  shows "\<exists>vs. MergeAndQueryRange fp ls rs = Some vs \<and> CheckQueryRangeOrder fp vs = Some True \<and>
    (\<forall>x. in_ranges rank x vs \<longleftrightarrow> in_ranges rank x ls \<and> in_ranges rank x rs)"
proof -
  obtain vs where "and_loop fp ls rs = Some vs" "borders_ok ok vs" "ranges_ok rank vs"
      "\<forall>x. in_ranges rank x vs \<longleftrightarrow> in_ranges rank x ls \<and> in_ranges rank x rs"
    using and_loop_spec [OF assms] by blast
  then show ?thesis using assms(1-4) by (simp add: MergeAndQueryRange_def check_order)
qed

lemma by_left_spec:
  assumes "sorted_wrt (left_order rank) rs" "sorted_wrt (left_order rank) ss" "borders_ok ok rs" "borders_ok ok ss"
    and "\<forall>q \<in> set rs. \<forall>r \<in> set ss. rank (left_of q) = rank (left_of r) \<longrightarrow> covers rank q r"
  shows "\<exists>vs. by_left fp rs ss = Some vs \<and> set vs = set rs \<union> set ss \<and> sorted_wrt (left_order rank) vs \<and> borders_ok ok vs"
  using assms
proof (induction "length rs + length ss" arbitrary: rs ss rule: less_induct)
  case less
  show ?case
  proof (cases rs; cases ss)
    fix v1 rs' v2 ss'
    assume rs: "rs = v1 # rs'" and ss: "ss = v2 # ss'"
    show ?thesis
    proof (cases "rank (left_of v2) < rank (left_of v1)")
      case True
      then obtain vs where "by_left fp rs ss' = Some vs" "set vs = set rs \<union> set ss'" "sorted_wrt (left_order rank) vs" "borders_ok ok vs"
        using less.hyps [of rs ss'] less.prems by (auto simp: ss)
      moreover have "left_order rank v2 v" if "v \<in> set rs \<union> set ss'" for v
        using that True less.prems(1,2) by (force simp: rs ss left_order_def)
      ultimately show ?thesis using True less.prems(3,4) by (simp add: rs ss)
    next
      case False
      then obtain vs where "by_left fp rs' ss = Some vs" "set vs = set rs' \<union> set ss" "sorted_wrt (left_order rank) vs" "borders_ok ok vs"
        using less.hyps [of rs' ss] less.prems by (auto simp: rs)
      moreover have "left_order rank v1 v" if "v \<in> set rs' \<union> set ss" for v
      proof -
        have "left_order rank v1 v2" using False less.prems(5) by (auto simp: rs ss left_order_def)
        then show ?thesis using that less.prems(1,2,5) by (fastforce simp: rs ss left_order_def)
      qed
      ultimately show ?thesis using False less.prems(3,4) by (simp add: rs ss insert_commute)
    qed
  qed (use less.prems in auto)
qed

lemma overlap_rank: "ok (right_of p) \<Longrightarrow> ok (left_of q) \<Longrightarrow> overlap fp p q = Some (\<not> before rank p q)"
  by (auto simp: overlap_def before_def)

lemma widen_spec:
  assumes "range_ok rank q" "range_ok rank r" "left_order rank q r" "\<not> before rank q r" "borders_ok ok [q, r]"
  shows "\<exists>q'. widen fp q r = Some q' \<and> qr_dvLeft q' = qr_dvLeft q \<and> qr_bRange q' = qr_bRange q \<and> qr_bIncLeft q' = qr_bIncLeft q \<and>
    ok (right_of q') \<and> range_ok rank q' \<and> (\<forall>x. in_range rank x q' \<longleftrightarrow> in_range rank x q \<or> in_range rank x r)"
proof (cases "qr_bRange q")
  case True
  then show ?thesis
  proof (cases "rank (right_of q)" "rank (right_of r)" rule: linorder_cases)
    case less
    have "from_left (rank (left_of q)) (qr_bIncLeft q) x \<and> to_right (rank (right_of r)) (qr_bIncRight r) x \<longleftrightarrow>
        in_range rank x q \<or> in_range rank x r" for x
      using True assms(1-4) less
      by (auto simp: in_range_ok range_ok_def left_order_def covers_def before_def from_left_def to_right_def)
    then show ?thesis using assms less True by (simp add: widen_def range_ok_def in_range_def)
  next
    case equal
    have "from_left (rank (left_of q)) (qr_bIncLeft q) x \<and> to_right (rank (right_of q)) (qr_bIncRight q \<or> qr_bIncRight r) x \<longleftrightarrow>
        in_range rank x q \<or> in_range rank x r" for x
      using True assms(1-4) equal
      by (auto simp: in_range_ok range_ok_def left_order_def covers_def before_def from_left_def to_right_def)
    then show ?thesis using assms equal True by (simp add: widen_def range_ok_def in_range_def)
  next
    case greater
    have "in_range rank x r \<longrightarrow> in_range rank x q" for x
      using True assms(1-4) greater
      by (auto simp: in_range_ok range_ok_def left_order_def covers_def before_def from_left_def to_right_def)
    then show ?thesis using assms greater True by (auto simp: widen_def)
  qed
next
  case False
  then have "rank (left_of r) = rank (left_of q)" "rank (right_of q) = rank (left_of q)" "rank (right_of r) = rank (left_of q)"
      "\<not> qr_bRange r" "qr_bIncRight q" "qr_bIncLeft q"
    using assms(1-4) by (auto simp: range_ok_def left_order_def covers_def before_def)
  then show ?thesis using False assms(5) by (simp add: widen_def range_ok_def in_range_def)
qed

lemma join_ranges_spec:
  assumes "sorted_wrt (left_order rank) (q # qs)" "list_all (range_ok rank) (q # qs)" "borders_ok ok (q # qs)"
  shows "\<exists>v vs. join_ranges fp q qs = Some (v # vs) \<and> qr_dvLeft v = qr_dvLeft q \<and> qr_bIncLeft v = qr_bIncLeft q \<and>
    ranges_ok rank (v # vs) \<and> borders_ok ok (v # vs) \<and> (\<forall>x. in_ranges rank x (v # vs) \<longleftrightarrow> in_ranges rank x (q # qs))"
  using assms
proof (induction qs arbitrary: q)
  case (Cons r qs)
  show ?case
  proof (cases "before rank q r")
    case True
    obtain v vs where v: "join_ranges fp r qs = Some (v # vs)" "qr_dvLeft v = qr_dvLeft r" "qr_bIncLeft v = qr_bIncLeft r"
        "ranges_ok rank (v # vs)" "borders_ok ok (v # vs)" "\<forall>x. in_ranges rank x (v # vs) \<longleftrightarrow> in_ranges rank x (r # qs)"
      using Cons.IH [of r] Cons.prems by auto
    have v1: "before rank q v" "range_ok rank v" using True v(2-4) by (simp_all add: before_def ranges_ok_Cons)
    then have "\<forall>w \<in> set (v # vs). before rank q w" using before_trans [OF v1] v(4) by (auto simp: ranges_ok_Cons)
    then show ?thesis using True v Cons.prems(2,3) by (simp add: overlap_rank ranges_ok_Cons)
  next
    case False
    obtain q' where q': "widen fp q r = Some q'" "qr_dvLeft q' = qr_dvLeft q" "qr_bRange q' = qr_bRange q" "qr_bIncLeft q' = qr_bIncLeft q"
        "ok (right_of q')" "range_ok rank q'" "\<forall>x. in_range rank x q' \<longleftrightarrow> in_range rank x q \<or> in_range rank x r"
      using widen_spec [OF _ _ _ False] Cons.prems by auto
    have "left_order rank q' w" if "w \<in> set qs" for w using that Cons.prems(1) q'(2-4) by (simp add: left_order_def covers_def)
    then have "sorted_wrt (left_order rank) (q' # qs)" using Cons.prems(1) by simp
    then obtain v vs where v: "join_ranges fp q' qs = Some (v # vs)" "qr_dvLeft v = qr_dvLeft q'" "qr_bIncLeft v = qr_bIncLeft q'"
        "ranges_ok rank (v # vs)" "borders_ok ok (v # vs)" "\<forall>x. in_ranges rank x (v # vs) \<longleftrightarrow> in_ranges rank x (q' # qs)"
      using Cons.IH [of q'] Cons.prems(2,3) q'(2,5,6) by auto
    have "\<forall>x. in_ranges rank x (v # vs) \<longleftrightarrow> in_ranges rank x (q # r # qs)" unfolding v(6) [rule_format] using q'(7) by auto
    then show ?thesis using False v(1-5) q'(1,2,4) Cons.prems(3) by (simp add: overlap_rank)
  qed
qed (auto simp: ranges_ok_def)

lemma MergeOr_spec:
  assumes "ranges_ok rank rs" "ranges_ok rank ss" "borders_ok ok rs" "borders_ok ok ss" "rs \<noteq> [] \<or> ss \<noteq> []"
    and "\<forall>q \<in> set rs. \<forall>r \<in> set ss. rank (left_of q) = rank (left_of r) \<longrightarrow> covers rank q r"
  shows "\<exists>vs. MergeOrQueryRange fp rs ss = Some vs \<and> ranges_ok rank vs \<and>
    (\<forall>x. in_ranges rank x vs \<longleftrightarrow> in_ranges rank x rs \<or> in_ranges rank x ss)"
proof -
  obtain vs where vs: "by_left fp rs ss = Some vs" "set vs = set rs \<union> set ss" "sorted_wrt (left_order rank) vs" "borders_ok ok vs"
    using by_left_spec [OF left_order_ok left_order_ok assms(3,4,6)] assms(1,2) by blast
  then obtain q qs where q: "vs = q # qs" using assms(5) by (cases vs) auto
  have "list_all (range_ok rank) vs" using assms(1,2) vs(2) by (auto simp: ranges_ok_def list_all_iff)
  then obtain v ws where ws: "join_ranges fp q qs = Some (v # ws)" "ranges_ok rank (v # ws)" "borders_ok ok (v # ws)"
      "\<forall>x. in_ranges rank x (v # ws) \<longleftrightarrow> in_ranges rank x vs"
    using join_ranges_spec [of q qs] vs(3,4) unfolding q by blast
  have "\<forall>x. in_ranges rank x (v # ws) \<longleftrightarrow> in_ranges rank x rs \<or> in_ranges rank x ss"
    unfolding ws(4) [rule_format] vs(2) bex_Un by blast
  then show ?thesis using vs(1) ws(1-3) check_order [OF assms(2,4)] check_order [OF ws(2,3)]
    by (simp add: MergeOrQueryRange_def q del: ex_disj_distrib)
qed

end

section \<open>Columns of numbers and of text\<close>

fun int_ok :: "DataType \<Rightarrow> ExprValue \<Rightarrow> bool" where
  "int_ok dt (EV (DV_Digit d)) = (dg_type d = dt \<and> IsDigital dt \<and> \<not> is_float dt)"
| "int_ok dt v = False"

fun int_rank :: "ExprValue \<Rightarrow> int option" where
  "int_rank (EV (DV_Digit d)) = (if dg_valType d = NULL_VALUE then None else Some (digit_value (dg_type d) (dg_value d)))"
| "int_rank v = None"

lemma int_okE:
  assumes "int_ok dt v"
  obtains d where "v = EV (DV_Digit d)" "dg_type d = dt" "IsDigital dt" "\<not> is_float dt"
  using assms by (cases v; cases "case v of EV w \<Rightarrow> w") auto

interpretation ir: ordered_values fp "int_ok dt" int_rank for fp dt
  by unfold_locales
    (elim int_okE; auto simp: dv_op_gt_def dv_op_ge_def dv_op_eq_def Digit_GT_def Digit_LT_def Digit_EQ_def Digit_op_gt_def Digit_op_lt_def
      Digit_op_ge_def Digit_op_eq_def val_gt_def val_ge_def val_eq_def)+

fun text_ok :: "ExprValue \<Rightarrow> bool" where
  "text_ok (EV (DV_VarChar c)) = (ch_valType c = NULL_VALUE \<or> unat (ch_soleLength c) \<le> length (ch_bysValue c) \<and> unat (ch_soleLength c) < 2 ^ 31)"
| "text_ok v = False"

fun text_rank :: "ExprValue \<Rightarrow> buf option" where
  "text_rank (EV (DV_VarChar c)) = (if ch_valType c = NULL_VALUE then None else Some (take (unat (ch_soleLength c)) (ch_bysValue c)))"
| "text_rank v = None"

lemma lexcmp_less: "lexcmp xs ys < 0 \<longleftrightarrow> xs < ys"
  by (induction xs ys rule: lexcmp.induct) auto

lemma text_cmp:
  assumes "text_ok (EV (DV_VarChar a))" "text_ok (EV (DV_VarChar b))" "ch_valType a \<noteq> NULL_VALUE" "ch_valType b \<noteq> NULL_VALUE"
  shows "sgn (VarChar_cmp a b) = lexcmp (take (unat (ch_soleLength a)) (ch_bysValue a)) (take (unat (ch_soleLength b)) (ch_bysValue b))"
proof -
  have u: "unat (ucast n :: u64) = unat n" for n :: u32 using unsigned_less [of n, where ?'a = nat] by (simp add: unsigned_ucast_eq take_bit_nat_eq_self)
  show ?thesis using assms bytes_cmp_sgn [of "take (unat (ch_soleLength a)) (ch_bysValue a)" "take (unat (ch_soleLength b)) (ch_bysValue b)"]
    by (simp add: VarChar_cmp_def BytesCompare_take u)
qed

lemma text_order:
  assumes "text_ok (EV (DV_VarChar a))" "text_ok (EV (DV_VarChar b))"
  shows "VarChar_op_gt a b \<longleftrightarrow> text_rank (EV (DV_VarChar b)) < text_rank (EV (DV_VarChar a))"
    "VarChar_op_ge a b \<longleftrightarrow> text_rank (EV (DV_VarChar b)) \<le> text_rank (EV (DV_VarChar a))"
    "VarChar_op_eq a b \<longleftrightarrow> text_rank (EV (DV_VarChar a)) = text_rank (EV (DV_VarChar b))"
proof -
  let ?a = "take (unat (ch_soleLength a)) (ch_bysValue a)" and ?b = "take (unat (ch_soleLength b)) (ch_bysValue b)"
  have s: "VarChar_cmp a b > 0 \<longleftrightarrow> ?b < ?a" "VarChar_cmp a b \<ge> 0 \<longleftrightarrow> ?b \<le> ?a" "VarChar_cmp a b = 0 \<longleftrightarrow> ?a = ?b"
    if "ch_valType a \<noteq> NULL_VALUE" "ch_valType b \<noteq> NULL_VALUE"
    using text_cmp [OF assms that] lexcmp_less [of ?a ?b] lexcmp_less [of ?b ?a] lexcmp_swap [of ?a ?b] lexcmp_eq_0 [of ?a ?b]
    by (auto simp: sgn_if not_less [symmetric] split: if_splits)
  have l: "length ?a = unat (ch_soleLength a)" "length ?b = unat (ch_soleLength b)"
    if "ch_valType a \<noteq> NULL_VALUE" "ch_valType b \<noteq> NULL_VALUE"
    using assms that by auto
  show "VarChar_op_gt a b \<longleftrightarrow> text_rank (EV (DV_VarChar b)) < text_rank (EV (DV_VarChar a))"
    "VarChar_op_ge a b \<longleftrightarrow> text_rank (EV (DV_VarChar b)) \<le> text_rank (EV (DV_VarChar a))"
    using s(1,2) by (auto simp: VarChar_op_gt_def VarChar_op_ge_def)
  show "VarChar_op_eq a b \<longleftrightarrow> text_rank (EV (DV_VarChar a)) = text_rank (EV (DV_VarChar b))"
  proof (cases "ch_valType a = NULL_VALUE \<or> ch_valType b = NULL_VALUE")
    case False
    then have "?a = ?b \<longrightarrow> ch_soleLength a = ch_soleLength b" using l by (metis word_unat_eq_iff)
    then show ?thesis using False s(3) by (auto simp: VarChar_op_eq_def VarChar_GetDataLength_def)
  qed (auto simp: VarChar_op_eq_def)
qed

lemma text_okE:
  assumes "text_ok v"
  obtains c where "v = EV (DV_VarChar c)" "text_ok (EV (DV_VarChar c))"
  using assms by (cases v; cases "case v of EV w \<Rightarrow> w") auto

lemma text_ops:
  assumes "text_ok v" "text_ok w"
  shows "ev_op_gt fp v w = Some (text_rank w < text_rank v)" "ev_op_ge fp v w = Some (text_rank w \<le> text_rank v)"
    "ev_op_eq fp v w = Some (text_rank v = text_rank w)"
proof -
  obtain a where a: "v = EV (DV_VarChar a)" "text_ok (EV (DV_VarChar a))" using assms(1) by (rule text_okE)
  obtain b where b: "w = EV (DV_VarChar b)" "text_ok (EV (DV_VarChar b))" using assms(2) by (rule text_okE)
  note t = text_order [OF a(2) b(2)]
  show "ev_op_gt fp v w = Some (text_rank w < text_rank v)" unfolding a(1) b(1) t(1) [symmetric] by (simp add: dv_op_gt_def)
  show "ev_op_ge fp v w = Some (text_rank w \<le> text_rank v)"
    unfolding a(1) b(1) t(2) [symmetric] by (simp add: dv_op_ge_def VarChar_op_lt_def)
  show "ev_op_eq fp v w = Some (text_rank v = text_rank w)" unfolding a(1) b(1) t(3) [symmetric] by (simp add: dv_op_eq_def)
qed

interpretation tr: ordered_values fp text_ok text_rank for fp
  by unfold_locales (fact text_ops)+

section \<open>The merges\<close>

text \<open>
  C25: The merge by AND of two ordered vectors of ranges, whose borders are values of one type of integers or booleans and whose points have one
  object for both borders (those that the merge itself makes of two touching ranges have two, \<open>and_point_aborts\<close>), returns, no assertion
  fails, its result is in order again, and a value is in one of its ranges exactly when it is in a range of each operand.
\<close>

theorem MergeAnd_intersection:
  assumes "ranges_ok int_rank vctLeft" "ranges_ok int_rank vctRight" "borders_ok (int_ok dt) vctLeft" "borders_ok (int_ok dt) vctRight"
    and "list_all one_object vctLeft" "list_all one_object vctRight"
  shows "\<exists>vctVal. MergeAndQueryRange fp vctLeft vctRight = Some vctVal \<and> CheckQueryRangeOrder fp vctVal = Some True \<and>
    (\<forall>x. in_ranges int_rank x vctVal \<longleftrightarrow> in_ranges int_rank x vctLeft \<and> in_ranges int_rank x vctRight)"
  using assms by (rule ir.MergeAnd_spec)

text \<open>
  C26: The merge by OR of two ordered vectors, not both empty (\<open>or_empty_aborts\<close>), of ranges whose borders are values of one type of
  integers or booleans returns, no assertion fails, its result is in order again, and a value is in one of its ranges exactly when it is in a range of
  one of the operands, provided that where a range of each starts at one border, the range of the first vector covers the border as the second one's
  does.
\<close>

theorem MergeOr_union:
  assumes "ranges_ok int_rank vctResult" "ranges_ok int_rank vctSrc" "borders_ok (int_ok dt) vctResult" "borders_ok (int_ok dt) vctSrc"
    and "vctResult \<noteq> [] \<or> vctSrc \<noteq> []"
    and "\<forall>q \<in> set vctResult. \<forall>r \<in> set vctSrc. int_rank (left_of q) = int_rank (left_of r) \<longrightarrow> covers int_rank q r"
  shows "\<exists>vct. MergeOrQueryRange fp vctResult vctSrc = Some vct \<and> ranges_ok int_rank vct \<and>
    (\<forall>x. in_ranges int_rank x vct \<longleftrightarrow> in_ranges int_rank x vctResult \<or> in_ranges int_rank x vctSrc)"
  using assms by (rule ir.MergeOr_spec)

text \<open>The same for columns of text.\<close>

lemmas MergeAnd_text = tr.MergeAnd_spec

lemmas MergeOr_text = tr.MergeOr_spec

definition int_border :: "nat \<Rightarrow> u64 \<Rightarrow> ValueRef" where
  "int_border a v = \<lparr>vr_addr = a, vr_val = EV (DV_Digit (Digit_new DT_INT v))\<rparr>"

definition int_range :: "nat \<Rightarrow> u64 \<Rightarrow> bool \<Rightarrow> u64 \<Rightarrow> bool \<Rightarrow> QueryRange" where
  "int_range a l incLeft r incRight =
     \<lparr>qr_dvLeft = int_border a l, qr_dvRight = int_border (if l = r then a else a + 1) r, qr_bRange = (l \<noteq> r), qr_bIncLeft = incLeft, qr_bIncRight = incRight\<rparr>"

lemmas witness_ranges =
  int_range_def int_border_def Digit_new_def ranges_ok_def range_ok_def before_def covers_def one_object_def data_type_flags is_float_def

theorem MergeAnd_intersection_witness:
  "\<exists>vctVal. MergeAndQueryRange plain_fp [int_range 0 1 False 5 True] [int_range 2 2 True 4 False, int_range 4 5 True 5 True] = Some vctVal \<and>
     in_ranges int_rank (Some 3) vctVal \<and> in_ranges int_rank (Some 5) vctVal \<and> \<not> in_ranges int_rank (Some 4) vctVal"
proof -
  have "\<exists>vctVal. MergeAndQueryRange plain_fp [int_range 0 1 False 5 True] [int_range 2 2 True 4 False, int_range 4 5 True 5 True] = Some vctVal \<and>
      CheckQueryRangeOrder plain_fp vctVal = Some True \<and>
      (\<forall>x. in_ranges int_rank x vctVal \<longleftrightarrow> in_ranges int_rank x [int_range 0 1 False 5 True] \<and>
        in_ranges int_rank x [int_range 2 2 True 4 False, int_range 4 5 True 5 True])"
    by (rule MergeAnd_intersection [where dt = DT_INT]) (simp_all add: witness_ranges)
  then obtain vctVal where m: "MergeAndQueryRange plain_fp [int_range 0 1 False 5 True] [int_range 2 2 True 4 False, int_range 4 5 True 5 True] = Some vctVal" and
      d: "\<And>x. in_ranges int_rank x vctVal \<longleftrightarrow> in_ranges int_rank x [int_range 0 1 False 5 True] \<and>
        in_ranges int_rank x [int_range 2 2 True 4 False, int_range 4 5 True 5 True]" by blast
  show ?thesis
    by (intro exI [of _ vctVal] conjI, rule m, unfold d)
      (simp_all add: in_range_def from_left_def to_right_def int_range_def int_border_def Digit_new_def)
qed

theorem MergeOr_union_witness:
  "\<exists>vct. MergeOrQueryRange plain_fp [int_range 0 1 True 5 True] [int_range 2 1 False 3 True, int_range 4 5 True 7 False] = Some vct \<and>
     in_ranges int_rank (Some 1) vct \<and> in_ranges int_rank (Some 6) vct \<and> \<not> in_ranges int_rank (Some 7) vct"
proof -
  have "\<exists>vct. MergeOrQueryRange plain_fp [int_range 0 1 True 5 True] [int_range 2 1 False 3 True, int_range 4 5 True 7 False] = Some vct \<and>
      ranges_ok int_rank vct \<and>
      (\<forall>x. in_ranges int_rank x vct \<longleftrightarrow> in_ranges int_rank x [int_range 0 1 True 5 True] \<or>
        in_ranges int_rank x [int_range 2 1 False 3 True, int_range 4 5 True 7 False])"
    by (rule MergeOr_union [where dt = DT_INT]) (simp_all add: witness_ranges)
  then obtain vct where m: "MergeOrQueryRange plain_fp [int_range 0 1 True 5 True] [int_range 2 1 False 3 True, int_range 4 5 True 7 False] = Some vct" and
      d: "\<And>x. in_ranges int_rank x vct \<longleftrightarrow> in_ranges int_rank x [int_range 0 1 True 5 True] \<or>
        in_ranges int_rank x [int_range 2 1 False 3 True, int_range 4 5 True 7 False]" by blast
  show ?thesis
    by (intro exI [of _ vct] conjI, rule m, unfold d)
      (simp_all add: in_range_def from_left_def to_right_def int_range_def int_border_def Digit_new_def)
qed

section \<open>Comparisons and their ranges\<close>

lemma const_row: "IsConstValue e \<Longrightarrow> ExprData_Calc X P row e = ExprData_Calc X P row' e"
  by (induction e) auto

lemma digit_bounds:
  assumes "IsDigital dt" "\<not> is_float dt" "digit_ok dt v"
  shows "digit_value dt (MinValue dt) \<le> digit_value dt v" "digit_value dt v \<le> digit_value dt (MaxValue dt)"
proof -
  show "digit_value dt (MinValue dt) \<le> digit_value dt v"
    using assms sint_ge [of "ucast v :: 8 word"] sint_ge [of "ucast v :: 16 word"] sint_ge [of "ucast v :: 32 word"] sint_ge [of v]
    by (cases dt) (simp_all add: data_type_flags is_float_def)
  show "digit_value dt v \<le> digit_value dt (MaxValue dt)"
    using assms sint_lt [of "ucast v :: 8 word"] sint_lt [of "ucast v :: 16 word"] sint_lt [of "ucast v :: 32 word"] sint_lt [of v]
      uint_lt2p [of "ucast v :: 8 word"] uint_lt2p [of "ucast v :: 16 word"] uint_lt2p [of "ucast v :: 32 word"] uint_lt2p [of v]
    by (cases dt) (auto simp add: data_type_flags is_float_def digit_ok_def)
qed

text \<open>A value of the column that is not null, and one that is neither the least nor the greatest of its type.\<close>

fun column_value :: "DataType \<Rightarrow> ExprValue \<Rightarrow> bool" where
  "column_value dt (EV (DV_Digit d)) =
     (dg_type d = dt \<and> IsDigital dt \<and> \<not> is_float dt \<and> dg_valType d \<noteq> NULL_VALUE \<and> digit_ok dt (dg_value d))"
| "column_value dt v = False"

definition inner_value :: "DataType \<Rightarrow> ExprValue \<Rightarrow> bool" where
  "inner_value dt v \<longleftrightarrow> column_value dt v \<and> int_rank (min_border v) < int_rank v \<and> int_rank v < int_rank (max_border v)"

lemma column_valueE:
  assumes "column_value dt v"
  obtains d where "v = EV (DV_Digit d)" "dg_type d = dt" "IsDigital dt" "\<not> is_float dt" "dg_valType d \<noteq> NULL_VALUE" "digit_ok dt (dg_value d)"
  using assms by (cases v; cases "case v of EV w \<Rightarrow> w") auto

lemma column_int: "column_value dt v \<Longrightarrow> int_ok dt v"
  by (elim column_valueE) simp

lemma border_values:
  assumes "column_value dt v" "column_value dt x"
  shows "int_ok dt (min_border v)" "int_ok dt (max_border v)" "int_rank (min_border v) \<le> int_rank x" "int_rank x \<le> int_rank (max_border v)"
  using assms digit_bounds
  by (auto elim!: column_valueE simp: Digit_Clone_def Digit_SetMinValue_def Digit_SetMaxValue_def)

lemma comp_ranges_ok:
  assumes "inner_value dt v"
  shows "ranges_ok int_rank (comp_ranges c v n)" "borders_ok (int_ok dt) (comp_ranges c v n)" "list_all one_object (comp_ranges c v n)"
    "comp_ranges c v n \<noteq> []"
proof -
  have v: "column_value dt v" and b: "int_rank (min_border v) < int_rank v" "int_rank v < int_rank (max_border v)"
    using assms by (simp_all add: inner_value_def)
  show "ranges_ok int_rank (comp_ranges c v n)"
    using b by (cases c) (simp_all add: ranges_ok_def range_ok_def before_def)
  show "borders_ok (int_ok dt) (comp_ranges c v n)" using border_values [OF v v] column_int [OF v] by (cases c) simp_all
  show "list_all one_object (comp_ranges c v n)" "comp_ranges c v n \<noteq> []" by (cases c; simp add: one_object_def)+
qed

lemma comp_ranges_values:
  assumes "column_value dt v" "column_value dt x"
  shows "in_ranges int_rank (int_rank x) (comp_ranges c v n) \<longleftrightarrow> compare_with fp c x v = Some True"
proof -
  have ok: "int_ok dt v" "int_ok dt x" using assms column_int by blast+
  have le: "ev_op_le fp x v = Some (int_rank x \<le> int_rank v)" by (auto simp: ev_op_le_def ir.gt [OF ok(2,1)])
  have ne: "ev_op_ne fp x v = Some (int_rank x \<noteq> int_rank v)" by (auto simp: ev_op_ne_def ir.eq [OF ok(2,1)])
  show ?thesis using border_values(3,4) [OF assms]
    by (cases c) (auto simp: in_range_def from_left_def to_right_def le ne ir.gt [OF ok(2,1)] ir.ge [OF ok(2,1)] ir.eq [OF ok(2,1)] ir.lt [OF ok(2,1)])
qed

lemma AbleCompare_column: "column_value dt v \<Longrightarrow> column_value dt x \<Longrightarrow> AbleCompare x v"
  by (auto elim!: column_valueE simp: AbleCompare_def)

lemma comp_condition:
  assumes "IsConstValue r" "ExprData_Calc X P [] r = Some (Some v)" "column_value dt v" "column_value dt x" "value_at row pos = Some (Some x)"
  shows "ExprLogic_Calc X P row (ExprComp c (ExprField pos) r) = Some TB_True \<longleftrightarrow>
    in_ranges int_rank (int_rank x) (comp_ranges c v n)"
proof -
  have "ExprLogic_Calc X P row (ExprComp c (ExprField pos) r) = map_option tri (compare_with (x_fp X) c x v)"
    using assms(2,5) const_row [OF assms(1), of X P row "[]"] AbleCompare_column [OF assms(3,4)] by (simp add: Comp_Calc_def)
  then show ?thesis unfolding comp_ranges_values [OF assms(3,4), where fp = "x_fp X"] by (auto simp: tri_def)
qed

text \<open>
  C18: A conjunction of two comparisons of one column of integers or booleans with constants is converted to ranges, without a failed assertion, when
  the constants are values of the column's type, not null, and neither its least nor its greatest value: the ranges are in order, and a row whose
  column is not null is in one of them exactly when the condition is true for the row.
\<close>

theorem ConditionConvert_conjunction:
  assumes "IsConstValue r1" "ExprData_Calc X paras [] r1 = Some (Some v1)" "inner_value dt v1"
    and "IsConstValue r2" "ExprData_Calc X paras [] r2 = Some (Some v2)" "inner_value dt v2"
  shows "\<exists>qs n'. ConditionConvert X paras (ExprAnd [ExprComp c1 (ExprField pos) r1, ExprComp c2 (ExprField pos) r2]) n =
      Some (qs, ExprAnd [ExprComp c1 (ExprField pos) r1, ExprComp c2 (ExprField pos) r2], n') \<and>
    CheckQueryRangeOrder (x_fp X) qs = Some True \<and>
    (\<forall>row x. value_at row pos = Some (Some x) \<longrightarrow> column_value dt x \<longrightarrow>
      (in_ranges int_rank (int_rank x) qs \<longleftrightarrow>
       ExprLogic_Calc X paras row (ExprAnd [ExprComp c1 (ExprField pos) r1, ExprComp c2 (ExprField pos) r2]) = Some TB_True))"
proof -
  note ok1 = comp_ranges_ok [OF assms(3), of c1 n] and ok2 = comp_ranges_ok [OF assms(6), of c2 "n + 3"]
  obtain qs where qs: "MergeAndQueryRange (x_fp X) (comp_ranges c1 v1 n) (comp_ranges c2 v2 (n + 3)) = Some qs"
      "CheckQueryRangeOrder (x_fp X) qs = Some True"
      "\<And>x. in_ranges int_rank x qs \<longleftrightarrow> in_ranges int_rank x (comp_ranges c1 v1 n) \<and> in_ranges int_rank x (comp_ranges c2 v2 (n + 3))"
    using ir.MergeAnd_spec [OF ok1(1) ok2(1) ok1(2) ok2(2) ok1(3) ok2(3)] by blast
  have v: "column_value dt v1" "column_value dt v2" using assms(3,6) by (simp_all add: inner_value_def)
  have "in_ranges int_rank (int_rank x) qs \<longleftrightarrow>
      ExprLogic_Calc X paras row (ExprAnd [ExprComp c1 (ExprField pos) r1, ExprComp c2 (ExprField pos) r2]) = Some TB_True"
    if x: "value_at row pos = Some (Some x)" "column_value dt x" for row x
    unfolding qs(3) comp_condition [OF assms(1,2) v(1) x(2,1), symmetric] comp_condition [OF assms(4,5) v(2) x(2,1), symmetric]
    by (simp add: And_True del: ExprLogic_Calc.simps(1) And_Calc.simps(2)) 
  then show ?thesis using qs(1,2) ok1(4) assms(2,5) by simp
qed

theorem ConditionConvert_conjunction_witness:
  "let cond = ExprAnd [ExprComp GT (ExprField 0) (ExprConst (EV (DV_Digit (Digit_new DT_INT 5)))),
       ExprComp LE (ExprField 0) (ExprConst (EV (DV_Digit (Digit_new DT_INT 9))))] in
   \<exists>qs n'. ConditionConvert (some_externals plain_fp) [] cond 0 = Some (qs, cond, n') \<and>
     CheckQueryRangeOrder plain_fp qs = Some True \<and> in_ranges int_rank (Some 7) qs"
proof -
  let ?X = "some_externals plain_fp" and ?v = "\<lambda>n. EV (DV_Digit (Digit_new DT_INT n))"
  let ?cond = "ExprAnd [ExprComp GT (ExprField 0) (ExprConst (?v 5)), ExprComp LE (ExprField 0) (ExprConst (?v 9))]"
  have inner: "inner_value DT_INT (?v 5)" "inner_value DT_INT (?v 9)"
    by (simp_all add: inner_value_def Digit_new_def data_type_flags is_float_def digit_ok_def Digit_Clone_def Digit_SetMinValue_def Digit_SetMaxValue_def)
  have row: "value_at [?v 7] 0 = Some (Some (?v 7))" "column_value DT_INT (?v 7)" "int_rank (?v 7) = Some 7"
    by (simp_all add: value_at_def Digit_new_def data_type_flags is_float_def digit_ok_def)
  have calc: "ExprLogic_Calc ?X [] [?v 7] ?cond = Some TB_True"
    by (simp add: value_at_def Digit_new_def Comp_Calc_def AbleCompare_def dv_op_gt_def ev_op_le_def Digit_GT_def Digit_op_gt_def val_gt_def is_float_def
        data_type_flags tri_def)
  obtain qs n' where q: "ConditionConvert ?X [] ?cond 0 = Some (qs, ?cond, n')" "CheckQueryRangeOrder (x_fp ?X) qs = Some True"
      "\<forall>row x. value_at row 0 = Some (Some x) \<longrightarrow> column_value DT_INT x \<longrightarrow>
        (in_ranges int_rank (int_rank x) qs \<longleftrightarrow> ExprLogic_Calc ?X [] row ?cond = Some TB_True)"
    using ConditionConvert_conjunction [of "ExprConst (?v 5)" ?X "[]" "?v 5" DT_INT "ExprConst (?v 9)" "?v 9" GT 0 LE 0] inner by auto
  have "in_ranges int_rank (Some 7) qs" using q(3) row calc by metis
  moreover have "x_fp ?X = plain_fp" by (simp add: some_externals_def)
  ultimately show ?thesis using q(1,2) by (auto simp: Let_def)
qed

section \<open>Where the code is wrong\<close>

text \<open>\<open>a > 5 OR a = 5\<close>: the ranges are joined, but the left border stays excluded. The value 5 is lost.\<close>

lemma or_loses_border:
  "\<exists>q. MergeOrQueryRange plain_fp [int_range 0 5 False 9 True] [int_range 2 5 True 5 True] = Some [q] \<and> \<not> in_range int_rank (Some 5) q"
  by (simp add: MergeOrQueryRange_def check_range_def overlap_def widen_def dv_op_gt_def dv_op_eq_def ev_op_lt_def dv_op_ge_def Digit_GT_def Digit_LT_def
      Digit_EQ_def Digit_op_gt_def Digit_op_lt_def Digit_op_ge_def Digit_op_eq_def val_gt_def val_ge_def val_eq_def in_range_def from_left_def to_right_def
      witness_ranges)

text \<open>\<open>a = 5 OR a > 5\<close>: the point is widened but stays a point. All values above 5 are lost.\<close>

lemma or_keeps_point:
  "\<exists>q. MergeOrQueryRange plain_fp [int_range 0 5 True 5 True] [int_range 2 5 False 9 True] = Some [q] \<and> \<not> qr_bRange q \<and> \<not> in_range int_rank (Some 7) q"
  by (simp add: MergeOrQueryRange_def check_range_def overlap_def widen_def dv_op_gt_def dv_op_eq_def ev_op_lt_def dv_op_ge_def Digit_GT_def Digit_LT_def
      Digit_EQ_def Digit_op_gt_def Digit_op_lt_def Digit_op_ge_def Digit_op_eq_def val_gt_def val_ge_def val_eq_def in_range_def from_left_def to_right_def
      witness_ranges)

text \<open>A disjunction that starts with a range without values, as \<open>a BETWEEN 5 AND 1\<close>, fails an assertion.\<close>

lemma or_empty_aborts: "MergeOrQueryRange fp [] [] = None"
  by (simp add: MergeOrQueryRange_def)

text \<open>A conjunction whose first conditions exclude each other starts again with the next one: \<open>a = 1 AND a = 2 AND a = 3\<close> finds 3.\<close>

lemma and_forgets_empty:
  assumes "ConditionConvert X paras e1 n = Some (qs1, e1', n1)" "ConditionConvert X paras e2 n1 = Some (qs2, e2', n2)" "qs1 \<noteq> []"
    and "MergeAndQueryRange (x_fp X) qs1 qs2 = Some []" "ConditionConvert X paras e3 n2 = Some (qs3, e3', n3)"
  shows "ConditionConvert X paras (ExprAnd [e1, e2, e3]) n = Some (qs3, ExprAnd [e1', e2', e3'], n3)"
  using assms by simp

text \<open>\<open>IN\<close> gives its values away: the second execution of a statement finds none.\<close>

lemma in_runs_once:
  assumes "ConditionConvert X paras (ExprInNot (ExprField pos) vs True) n = Some (qs, cond, n')"
  shows "ConditionConvert X paras2 cond m = Some ([], cond, m)"
  using assms by auto

text \<open>
  A range that two conditions narrow to one value has two objects for it; with a third condition the merge aborts: \<open>a >= 5 AND a <= 5\<close>
  and then anything.
\<close>

lemma and_point_aborts:
  assumes "\<not> qr_bRange q" "vr_addr (qr_dvLeft q) \<noteq> vr_addr (qr_dvRight q)"
  shows "MergeAndQueryRange fp (q # ls) (r # rs) = None"
  using assms by (auto simp: MergeAndQueryRange_def one_object_def split: bind_split)

text \<open>\<open>a >= MAX\<close> is a range of one value that is no point, which the order check refuses.\<close>

lemma greatest_aborts:
  "CheckQueryRangeOrder plain_fp (comp_ranges GE (EV (DV_Digit (Digit_new DT_INT 0x7FFFFFFF))) n) = Some False"
  by (simp add: check_range_def Digit_new_def Digit_Clone_def Digit_SetMaxValue_def dv_op_gt_def dv_op_eq_def Digit_GT_def Digit_EQ_def
      Digit_op_gt_def Digit_op_eq_def val_gt_def val_eq_def data_type_flags is_float_def)

text \<open>A null compares smaller than every number, so \<open>a < 5\<close> is true for it; the ranges of the condition do not contain it.\<close>

lemma null_not_in_range:
  "ExprLogic_Calc (some_externals plain_fp) [] [EV (DV_Digit (Digit_null DT_INT))] (ExprComp LT (ExprField 0) (ExprConst (EV (DV_Digit (Digit_new DT_INT 5))))) = Some TB_True"
  "\<not> in_ranges int_rank (int_rank (EV (DV_Digit (Digit_null DT_INT)))) (comp_ranges LT (EV (DV_Digit (Digit_new DT_INT 5))) n)"
  by (simp_all add: value_at_def Digit_null_def Digit_new_def Comp_Calc_def AbleCompare_def ev_op_lt_def dv_op_ge_def Digit_LT_def Digit_op_lt_def Digit_op_ge_def
      data_type_flags tri_def in_range_def from_left_def to_right_def Digit_Clone_def Digit_SetMinValue_def some_externals_def plain_fp_def)

end
