(* ===== verification/Index_Scan.thy ===== *)
theory Index_Scan
  imports Query_Range Leaf_Update
begin

text \<open>
  The scan of an index: \<open>RawKey\<close> of a vector of values (\<open>core/RawKey.h\<close>), \<open>KeyRange\<close> (\<open>statement/Statement.h\<close>),
  \<open>GenIndexSearchKey\<close> and the part of \<open>SacnIndex\<close> (\<open>statement/Statement.cpp\<close>) that walks over the records of leaf pages, on the primary
  index. The virtual \<open>HandleLeafRecord\<close> of the statement is the parameter \<open>handle\<close>. The columns of
  the index are numeric. \<open>None\<close> is a null pointer that is used, an uncaught exception, or a record beyond the end of a page.
\<close>

section \<open>Keys of values\<close>

definition key_length :: "DataValue list \<Rightarrow> u32 option" where
  "key_length vctKey =
     (if \<exists>v \<in> set vctKey. dv_GetPersistenceLength v KEY = None then None
      else Some (sum_list (map (\<lambda>v. the (dv_GetPersistenceLength v KEY)) vctKey)))"

text \<open>The bytes written one after the other, each where the returned lengths of those before end.\<close>

fun write_keys :: "DataValue list \<Rightarrow> nat \<Rightarrow> buf \<Rightarrow> buf option" where
  "write_keys [] pos b = Some b"
| "write_keys (v # vs) pos b =
     (case dv_WriteData v KEY of
        None \<Rightarrow> None
      | Some (bys, n) \<Rightarrow> Option.bind (put_bytes pos bys b) (write_keys vs (pos + unat n)))"

definition RawKey_of_values :: "alloc \<Rightarrow> DataValue list \<Rightarrow> RawKey option" where
  "RawKey_of_values alloc vctKey = do {
     len \<leftarrow> key_length vctKey;
     b \<leftarrow> CachePool_ApplyReal alloc len;
     b \<leftarrow> write_keys vctKey 0 b;
     Some \<lparr>rk_bysVal = b, rk_length = len, rk_bSole = True\<rparr>
   }"

record KeyRange =
  kr_startKey :: RawKey
  kr_endKey :: "RawKey option"
  kr_bRange :: bool
  kr_bIncLeft :: bool
  kr_bIncRight :: bool

text \<open>\<open>vdv\<close> are the clones of the index columns. An error of \<open>Copy\<close> is not looked at: the column keeps the value it has.\<close>

definition copied :: "(DvError + DataValueDigit) option \<Rightarrow> DataValueDigit \<Rightarrow> DataValueDigit option" where
  "copied r d = map_option (\<lambda>x. case x of Inl e \<Rightarrow> d | Inr d' \<Rightarrow> d') r"

definition GenIndexSearchKey ::
    "fp_ops \<Rightarrow> alloc \<Rightarrow> DataValueDigit list \<Rightarrow> QueryRange \<Rightarrow> KeyRange option" where
  "GenIndexSearchKey fp alloc vdv q =
     (case map Digit_Clone vdv of
        [] \<Rightarrow> None
      | d # ds \<Rightarrow> do {
          d \<leftarrow> copied (Digit_Copy fp (left_of q) d) d;
          sKey \<leftarrow> RawKey_of_values alloc (map DV_Digit (d # map Digit_SetMinValue ds));
          eKey \<leftarrow> (if qr_bRange q \<or> ds \<noteq> [] then do {
                     d \<leftarrow> (if qr_bRange q then copied (Digit_Copy fp (right_of q) d) d else Some d);
                     map_option Some (RawKey_of_values alloc (map DV_Digit (d # map Digit_SetMaxValue ds)))
                   } else Some None);
          Some \<lparr>kr_startKey = sKey, kr_endKey = eKey, kr_bRange = qr_bRange q, kr_bIncLeft = qr_bIncLeft q, kr_bIncRight = qr_bIncRight q\<rparr>
        })"

section \<open>The records of a page\<close>

text \<open>
  The records that are handled in order, and how the page ends: \<open>Some bEnd\<close>, or \<open>None\<close> when the statement has failed. \<open>lrs\<close> are the
  records from position \<open>pos\<close> on.
\<close>

fun scan_page_records :: "(LeafPage \<Rightarrow> nat \<Rightarrow> TriBool) \<Rightarrow> KeyRange \<Rightarrow> LeafPage \<Rightarrow> nat \<Rightarrow> LeafRecord list \<Rightarrow> (LeafRecord list \<times> bool option) option" where
  "scan_page_records handle kr p pos [] = Some ([], Some False)"
| "scan_page_records handle kr p pos (lr # lrs) =
     (case kr_endKey kr of
        None \<Rightarrow> None
      | Some endKey \<Rightarrow>
          let res = CompareKey (lr_raw lr) endKey in
          if res = 0 \<and> \<not> kr_bIncRight kr \<or> res > 0 then Some ([], Some True)
          else if handle p pos = TB_Error then Some ([lr], None)
          else map_option (map_prod (Cons lr) id) (scan_page_records handle kr p (Suc pos) lrs))"

definition first_pos :: "IndexType \<Rightarrow> KeyRange \<Rightarrow> bool \<Rightarrow> LeafPage \<Rightarrow> bool \<times> nat" where
  "first_pos t kr bFromPageBegin p =
     (if bFromPageBegin then (True, 0)
      else case LeafPage_SearchKey t (kr_startKey kr) 0 INT32_MAX p of
        (bFind, pos) \<Rightarrow> (bFind, if \<not> kr_bIncLeft kr \<and> bFind then nat pos + 1 else nat pos))"

definition scan_leaf :: "(LeafPage \<Rightarrow> nat \<Rightarrow> TriBool) \<Rightarrow> IndexType \<Rightarrow> KeyRange \<Rightarrow> bool \<Rightarrow> LeafPage \<Rightarrow> (LeafRecord list \<times> bool option) option" where
  "scan_leaf handle t kr bFromPageBegin p =
     (case first_pos t kr bFromPageBegin p of
        (bFind, pos) \<Rightarrow>
          if \<not> kr_bRange kr \<and> t \<noteq> NON_UNIQUE
          then if \<not> bFind then Some ([], Some True)
               else if pos < length (ip_vctRecord p)
               then Some ([ip_vctRecord p ! pos], if handle p pos = TB_Error then None else Some True)
               else None
          else scan_page_records handle kr p pos (drop pos (ip_vctRecord p)))"

text \<open>One key range over the pages of an index range, from the page where the search for the start key ends.\<close>

fun scan_leaves :: "(LeafPage \<Rightarrow> nat \<Rightarrow> TriBool) \<Rightarrow> IndexType \<Rightarrow> KeyRange \<Rightarrow> bool \<Rightarrow> LeafPage list \<Rightarrow> (LeafRecord list \<times> bool option) option" where
  "scan_leaves handle t kr bFromPageBegin [] = Some ([], Some False)"
| "scan_leaves handle t kr bFromPageBegin (p # ps) =
     (case scan_leaf handle t kr bFromPageBegin p of
        None \<Rightarrow> None
      | Some (lrs, Some False) \<Rightarrow> map_option (map_prod (append lrs) id) (scan_leaves handle t kr True ps)
      | Some (lrs, r) \<Rightarrow> Some (lrs, r))"

section \<open>A scan handles the records of its range\<close>

definition right_of_start :: "KeyRange \<Rightarrow> RawRecord \<Rightarrow> bool" where
  "right_of_start kr r \<longleftrightarrow>
     CompareKey r (kr_startKey kr) > 0 \<or> kr_bIncLeft kr \<and> CompareKey r (kr_startKey kr) = 0"

definition left_of_end :: "KeyRange \<Rightarrow> RawRecord \<Rightarrow> bool" where
  "left_of_end kr r \<longleftrightarrow>
     (case kr_endKey kr of None \<Rightarrow> False | Some k \<Rightarrow> CompareKey r k < 0 \<or> kr_bIncRight kr \<and> CompareKey r k = 0)"

lemma scan_page_records_spec:
  assumes "kr_endKey kr = Some k" "\<And>p i. handle p i \<noteq> TB_Error" "key_ok k"
    and "sorted_wrt key_before (map lr_raw lrs)" "\<forall>lr \<in> set lrs. rec_fits (lr_raw lr)"
  shows "\<exists>vs. scan_page_records handle kr p pos lrs = Some (vs, Some (\<exists>lr \<in> set lrs. \<not> left_of_end kr (lr_raw lr))) \<and>
    vs = filter (\<lambda>lr. left_of_end kr (lr_raw lr)) lrs"
  using assms(4,5)
proof (induction lrs arbitrary: pos)
  case (Cons lr lrs)
  have e: "left_of_end kr (lr_raw r) \<longleftrightarrow> \<not> (CompareKey (lr_raw r) k = 0 \<and> \<not> kr_bIncRight kr \<or> CompareKey (lr_raw r) k > 0)" for r
    using assms(1) by (auto simp: left_of_end_def)
  show ?case
  proof (cases "left_of_end kr (lr_raw lr)")
    case True
    then show ?thesis using Cons.IH [of "Suc pos"] Cons.prems assms(1,2) e [of lr] by (auto simp: Let_def)
  next
    case False
    have "\<not> left_of_end kr (lr_raw r)" if r: "r \<in> set lrs" for r
    proof -
      have b: "key_before (lr_raw lr) (lr_raw r)" "rec_fits (lr_raw lr)" "rec_fits (lr_raw r)" using Cons.prems r by auto
      have "CompareKey (lr_raw lr) k > 0 \<longrightarrow> CompareKey (lr_raw r) k > 0"
        using by_key.cmp_up [OF b(2,3) assms(3) b(1)] by blast
      moreover have "CompareKey (lr_raw r) k < 0 \<longrightarrow> CompareKey (lr_raw lr) k < 0"
        using by_key.cmp_down [OF b(2,3) assms(3) b(1)] by blast
      ultimately show ?thesis using False e by fastforce
    qed
    then have "filter (\<lambda>lr. left_of_end kr (lr_raw lr)) lrs = []" by (simp add: filter_empty_conv)
    then show ?thesis using False e [of lr] assms(1) by (auto simp: Let_def)
  qed
qed simp

lemma filter_drop:
  assumes "\<forall>x \<in> set (take n xs). \<not> P x" "\<forall>x \<in> set (drop n xs). P x"
  shows "filter P xs = drop n xs"
proof -
  have "filter P xs = filter P (take n xs @ drop n xs)" by simp
  then show ?thesis unfolding filter_append using assms by (metis append_Nil filter_False filter_True)
qed

text \<open>The key of each record against the start key, in a page that is sorted by key.\<close>

lemma start_order:
  assumes "sorted_wrt key_before rs" "\<forall>r \<in> set rs. rec_fits r" "key_ok k" "i \<le> j" "j < length rs"
  shows "CompareKey (rs ! j) k < 0 \<Longrightarrow> CompareKey (rs ! i) k < 0" "CompareKey (rs ! i) k > 0 \<Longrightarrow> CompareKey (rs ! j) k > 0"
proof -
  have "i = j \<or> key_before (rs ! i) (rs ! j)" using assms(1,4,5) by (metis le_neq_implies_less sorted_wrt_nth_less)
  moreover have "rec_fits (rs ! i)" "rec_fits (rs ! j)" using assms(2,4,5) by auto
  ultimately show "CompareKey (rs ! j) k < 0 \<Longrightarrow> CompareKey (rs ! i) k < 0" "CompareKey (rs ! i) k > 0 \<Longrightarrow> CompareKey (rs ! j) k > 0"
    using by_key.cmp_down by_key.cmp_up assms(3) by blast+
qed

text \<open>A unique index has no two equal keys.\<close>

lemma unique_key:
  assumes "sorted_wrt (rec_before t) rs" "t \<noteq> NON_UNIQUE" "\<forall>r \<in> set rs. rec_fits r" "key_ok k" "i < length rs" "j < length rs"
    and "CompareKey (rs ! i) k = 0" "CompareKey (rs ! j) k = 0"
  shows "i = j"
proof (rule ccontr)
  assume "i \<noteq> j"
  then have "rec_before t (rs ! i) (rs ! j) \<or> rec_before t (rs ! j) (rs ! i)"
    using assms(1,5,6) by (metis linorder_neqE_nat sorted_wrt_nth_less)
  moreover have "rec_key (rs ! i) = key_bytes k" "rec_key (rs ! j) = key_bytes k"
    using assms(3-8) by (simp_all add: CompareKey_bytes bytes_cmp_iffs key_cmp_len)
  ultimately show False using assms(2) by (simp add: rec_before_def order_bytes_def)
qed

lemma nth_in_set_tail:
  "i < length xs \<Longrightarrow> i < n \<Longrightarrow> xs ! i \<in> set (take n xs)" "i < length xs \<Longrightarrow> n \<le> i \<Longrightarrow> xs ! i \<in> set (drop n xs)"
  by (auto simp: in_set_conv_nth) (auto intro!: exI [of _ "i - n"])

lemma first_pos_spec:
  assumes "leaf_inv t p" "sorted_wrt key_before (raws p)" "key_ok (kr_startKey kr)" "t \<noteq> NON_UNIQUE \<or> kr_bIncLeft kr"
    and "first_pos t kr False p = (f, pos)"
  shows "drop pos (ip_vctRecord p) = filter (\<lambda>lr. right_of_start kr (lr_raw lr)) (ip_vctRecord p)"
proof -
  let ?k = "kr_startKey kr" and ?rs = "raws p"
  note inv = leaf_invD [OF assms(1)]
  obtain s where s: "LeafPage_SearchKey t ?k 0 INT32_MAX p = (f, s)" "pos = (if \<not> kr_bIncLeft kr \<and> f then nat s + 1 else nat s)"
    using assms(5) by (auto simp: first_pos_def split: prod.splits if_splits)
  have fits: "\<forall>r \<in> set ?rs. rec_fits r" using inv(3) by (auto simp: rec_wf_def)
  have "int (length (ip_vctRecord p)) \<le> INT32_MAX" using assms(1) by (simp add: leaf_inv_def INT32_MAX_def)
  then have b: "bsearch (probe CompareKey ?rs ?k) (\<lambda>m. \<not> t \<noteq> NON_UNIQUE \<and> probe CompareKey ?rs ?k (m - 1) = 0) 0 (int (length ?rs) - 1) = (f, s)"
    using s(1) by (simp add: LeafPage_SearchKey_def clip_end_def inv(1) Let_def)
  note srch = by_key.search_whole [OF assms(2) fits assms(3) _ b, simplified]
  note ord = start_order [OF assms(2) fits assms(3)]
  have "right_of_start kr (?rs ! i) \<longleftrightarrow> pos \<le> i" if i: "i < length ?rs" for i
  proof (cases f)
    case False
    then have "i < nat s \<Longrightarrow> CompareKey (?rs ! i) ?k < 0" "nat s \<le> i \<Longrightarrow> CompareKey (?rs ! i) ?k > 0"
      using srch(3) i nth_in_set_tail [of i ?rs "nat s"] by auto
    then show ?thesis using s(2) False by (auto simp: right_of_start_def not_less [symmetric])
  next
    case True
    then have at: "nat s < length ?rs" "CompareKey (?rs ! nat s) ?k = 0" using srch(2) by auto
    have lt: "CompareKey (?rs ! i) ?k < 0" if "i < nat s"
    proof (cases "t = NON_UNIQUE")
      case True
      then show ?thesis
        using by_key.search_first [OF assms(2) fits assms(3) _ b [unfolded \<open>f\<close> [THEN eqTrueI]]] nth_in_set_tail [of i ?rs "nat s"] i that by auto
    next
      case False
      then have "CompareKey (?rs ! i) ?k \<noteq> 0" using unique_key [OF inv(2) False fits assms(3) i at(1) _ at(2)] that by auto
      moreover have "\<not> CompareKey (?rs ! i) ?k > 0" using ord(2) [of i "nat s"] at that by auto
      ultimately show ?thesis by simp
    qed
    have ge: "CompareKey (?rs ! i) ?k \<ge> 0" if "nat s \<le> i" using ord(1) [of "nat s" i] at that i by force
    show ?thesis
    proof (cases "kr_bIncLeft kr")
      case True
      then show ?thesis using lt ge s(2) by (auto simp: right_of_start_def not_less [symmetric])
    next
      case False
      then have "CompareKey (?rs ! i) ?k = 0 \<longleftrightarrow> i = nat s" using unique_key [OF inv(2) _ fits assms(3) i at(1) _ at(2)] assms(4) at(2) by auto
      then show ?thesis using lt ge s(2) False \<open>f\<close> by (cases i "nat s" rule: linorder_cases) (auto simp: right_of_start_def)
    qed
  qed
  then have "(\<forall>r \<in> set (take pos ?rs). \<not> right_of_start kr r) \<and> (\<forall>r \<in> set (drop pos ?rs). right_of_start kr r)"
    by (auto simp: in_set_conv_nth)
  then have "(\<forall>lr \<in> set (take pos (ip_vctRecord p)). \<not> right_of_start kr (lr_raw lr)) \<and>
      (\<forall>lr \<in> set (drop pos (ip_vctRecord p)). right_of_start kr (lr_raw lr))"
    by (simp add: take_map drop_map)
  then show ?thesis using filter_drop by (metis (mono_tags, lifting))
qed

definition in_key_range :: "KeyRange \<Rightarrow> LeafRecord \<Rightarrow> bool" where
  "in_key_range kr lr \<longleftrightarrow> right_of_start kr (lr_raw lr) \<and> left_of_end kr (lr_raw lr)"

text \<open>The scan passes a record behind the end of the range.\<close>

definition beyond :: "KeyRange \<Rightarrow> LeafRecord list \<Rightarrow> bool" where
  "beyond kr lrs \<longleftrightarrow> (\<exists>lr \<in> set lrs. right_of_start kr (lr_raw lr) \<and> \<not> left_of_end kr (lr_raw lr))"

lemma beyond_append [simp]: "beyond kr (xs @ ys) \<longleftrightarrow> beyond kr xs \<or> beyond kr ys" "\<not> beyond kr []"
  by (auto simp: beyond_def)

text \<open>The pages of a scan: each one is valid, and they are in the order of their keys.\<close>

definition pages_ok :: "IndexType \<Rightarrow> LeafPage list \<Rightarrow> bool" where
  "pages_ok t ps \<longleftrightarrow> (\<forall>p \<in> set ps. leaf_inv t p) \<and> sorted_wrt key_before (map lr_raw (concat (map ip_vctRecord ps)))"

lemma pages_ok_Cons:
  assumes "pages_ok t (p # ps)"
  shows "leaf_inv t p" "sorted_wrt key_before (raws p)" "pages_ok t ps" "\<forall>lr \<in> set (ip_vctRecord p). rec_fits (lr_raw lr)"
    "\<And>l m. l \<in> set (ip_vctRecord p) \<Longrightarrow> m \<in> set (concat (map ip_vctRecord ps)) \<Longrightarrow> key_before (lr_raw l) (lr_raw m)"
  using assms leaf_invD(3) [of t p] by (auto simp: pages_ok_def sorted_wrt_append rec_wf_def)

lemma pages_fit: "pages_ok t ps \<Longrightarrow> lr \<in> set (concat (map ip_vctRecord ps)) \<Longrightarrow> rec_fits (lr_raw lr)"
  using leaf_invD(3) by (fastforce simp: pages_ok_def rec_wf_def)

lemma not_left_mono:
  assumes "kr_endKey kr = Some k" "key_ok k" "rec_fits a" "rec_fits b" "key_before a b" "\<not> left_of_end kr a"
  shows "\<not> left_of_end kr b"
proof -
  have "CompareKey a k > 0 \<longrightarrow> CompareKey b k > 0" "CompareKey b k < 0 \<longrightarrow> CompareKey a k < 0"
    using by_key.cmp_up [OF assms(3,4,2,5)] by_key.cmp_down [OF assms(3,4,2,5)] by blast+
  then show ?thesis using assms(1,6) by (auto simp: left_of_end_def)
qed

lemma scan_leaf_spec:
  assumes "pages_ok t [p]" "key_ok (kr_startKey kr)" "kr_endKey kr = Some k" "key_ok k" "\<And>p i. handle p i \<noteq> TB_Error"
    and "t \<noteq> NON_UNIQUE \<or> kr_bIncLeft kr" "kr_bRange kr \<or> t = NON_UNIQUE"
    and "fb \<Longrightarrow> \<forall>lr \<in> set (ip_vctRecord p). right_of_start kr (lr_raw lr)"
  shows "scan_leaf handle t kr fb p = Some (filter (in_key_range kr) (ip_vctRecord p), Some (beyond kr (ip_vctRecord p)))"
proof -
  note ok = pages_ok_Cons [OF assms(1)]
  obtain f pos where fp: "first_pos t kr fb p = (f, pos)" by fastforce
  have d: "drop pos (ip_vctRecord p) = filter (\<lambda>lr. right_of_start kr (lr_raw lr)) (ip_vctRecord p)"
  proof (cases fb)
    case True
    then show ?thesis using fp assms(8) by (simp add: first_pos_def filter_id_conv)
  next
    case False
    then show ?thesis using first_pos_spec [OF ok(1,2) assms(2,6)] fp by simp
  qed
  have srt: "sorted_wrt key_before (map lr_raw (drop pos (ip_vctRecord p)))"
    using ok(2) by (metis drop_map sorted_wrt_drop)
  have fits: "\<forall>lr \<in> set (drop pos (ip_vctRecord p)). rec_fits (lr_raw lr)" using ok(4) by (auto dest: in_set_dropD)
  have "scan_leaf handle t kr fb p = scan_page_records handle kr p pos (drop pos (ip_vctRecord p))"
    using assms(7) fp by (auto simp: scan_leaf_def)
  also have "\<dots> = Some (filter (\<lambda>lr. left_of_end kr (lr_raw lr)) (drop pos (ip_vctRecord p)),
      Some (\<exists>lr \<in> set (drop pos (ip_vctRecord p)). \<not> left_of_end kr (lr_raw lr)))"
    using scan_page_records_spec [OF assms(3,5,4) srt fits] by auto
  finally show ?thesis unfolding d filter_filter by (auto simp: in_key_range_def [abs_def] beyond_def conj_commute)
qed

lemma scan_leaves_spec:
  assumes "pages_ok t ps" "key_ok (kr_startKey kr)" "kr_endKey kr = Some k" "key_ok k" "\<And>p i. handle p i \<noteq> TB_Error"
    and "t \<noteq> NON_UNIQUE \<or> kr_bIncLeft kr" "kr_bRange kr \<or> t = NON_UNIQUE"
    and "\<forall>lr \<in> set (concat (map ip_vctRecord (if fb then ps else tl ps))). right_of_start kr (lr_raw lr)"
  shows "scan_leaves handle t kr fb ps =
    Some (filter (in_key_range kr) (concat (map ip_vctRecord ps)), Some (beyond kr (concat (map ip_vctRecord ps))))"
  using assms(1,8)
proof (induction ps arbitrary: fb)
  case Nil
  then show ?case by simp
next
  case (Cons p ps)
  note ok = pages_ok_Cons [OF Cons.prems(1)]
  have one: "pages_ok t [p]" using ok(1,2) by (simp add: pages_ok_def)
  have leaf: "scan_leaf handle t kr fb p = Some (filter (in_key_range kr) (ip_vctRecord p), Some (beyond kr (ip_vctRecord p)))"
    by (rule scan_leaf_spec [OF one assms(2-7)]) (use Cons.prems(2) in auto)
  show ?case
  proof (cases "beyond kr (ip_vctRecord p)")
    case True
    then obtain l where l: "l \<in> set (ip_vctRecord p)" "\<not> left_of_end kr (lr_raw l)" by (auto simp: beyond_def)
    have "\<not> left_of_end kr (lr_raw m)" if m: "m \<in> set (concat (map ip_vctRecord ps))" for m
      using not_left_mono [OF assms(3,4) _ pages_fit [OF ok(3) m] ok(5) [OF l(1) m] l(2)] ok(4) l(1) by blast
    then have "filter (in_key_range kr) (concat (map ip_vctRecord ps)) = []" by (auto simp: filter_empty_conv in_key_range_def)
    then show ?thesis using leaf True by simp
  next
    case False
    have "scan_leaves handle t kr True ps =
        Some (filter (in_key_range kr) (concat (map ip_vctRecord ps)), Some (beyond kr (concat (map ip_vctRecord ps))))"
      by (rule Cons.IH [OF ok(3)]) (use Cons.prems(2) in \<open>auto split: if_splits\<close>)
    then show ?thesis using leaf False by simp
  qed
qed

lemma filter_one:
  assumes "i < length xs" "\<And>j. j < length xs \<Longrightarrow> P (xs ! j) \<longleftrightarrow> j = i"
  shows "filter P xs = [xs ! i]"
proof -
  have "filter P (take i xs) = []" "filter P (drop (Suc i) xs) = []"
    using assms by (auto simp: filter_empty_conv in_set_conv_nth)
  then show ?thesis using assms by (subst id_take_nth_drop [OF assms(1)]) simp
qed

text \<open>A point of a unique index: the record that has the key, on the page where the search for it ends.\<close>

lemma scan_point:
  assumes "pages_ok t [p]" "key_ok (kr_startKey kr)" "\<And>p i. handle p i \<noteq> TB_Error" "t \<noteq> NON_UNIQUE" "\<not> kr_bRange kr" "kr_bIncLeft kr"
  shows "scan_leaf handle t kr False p =
    Some (filter (\<lambda>lr. CompareKey (lr_raw lr) (kr_startKey kr) = 0) (ip_vctRecord p), Some True)"
proof -
  let ?k = "kr_startKey kr" and ?rs = "raws p"
  note ok = pages_ok_Cons [OF assms(1)] and inv = leaf_invD [OF pages_ok_Cons(1) [OF assms(1)]]
  obtain f s where s: "LeafPage_SearchKey t ?k 0 INT32_MAX p = (f, s)" by fastforce
  have fits: "\<forall>r \<in> set ?rs. rec_fits r" using inv(3) by (auto simp: rec_wf_def)
  have "int (length (ip_vctRecord p)) \<le> INT32_MAX" using ok(1) by (simp add: leaf_inv_def INT32_MAX_def)
  then have b: "bsearch (probe CompareKey ?rs ?k) (\<lambda>m. \<not> t \<noteq> NON_UNIQUE \<and> probe CompareKey ?rs ?k (m - 1) = 0) 0 (int (length ?rs) - 1) = (f, s)"
    using s by (simp add: LeafPage_SearchKey_def clip_end_def inv(1) Let_def)
  note srch = by_key.search_whole [OF ok(2) fits assms(2) _ b, simplified]
  have "scan_leaf handle t kr False p = (if f then if nat s < length (ip_vctRecord p) then Some ([ip_vctRecord p ! nat s], Some True) else None else Some ([], Some True))"
    using s assms(3-6) by (simp add: scan_leaf_def first_pos_def)
  moreover have "filter (\<lambda>lr. CompareKey (lr_raw lr) ?k = 0) (ip_vctRecord p) = (if f then [ip_vctRecord p ! nat s] else [])"
  proof (cases f)
    case False
    then show ?thesis using srch(1) by (auto simp: filter_empty_conv)
  next
    case True
    then have at: "nat s < length ?rs" "CompareKey (?rs ! nat s) ?k = 0" using srch(2) by auto
    have "CompareKey (lr_raw (ip_vctRecord p ! i)) ?k = 0 \<longleftrightarrow> i = nat s" if "i < length (ip_vctRecord p)" for i
      using unique_key [OF inv(2) assms(4) fits assms(2) _ at(1) _ at(2), of i] that at by auto
    then show ?thesis using filter_one [of "nat s" "ip_vctRecord p" "\<lambda>lr. CompareKey (lr_raw lr) ?k = 0"] at(1) True by simp
  qed
  moreover have "f \<Longrightarrow> nat s < length (ip_vctRecord p)" using srch(2) by auto
  ultimately show ?thesis by auto
qed

section \<open>The keys of a query range\<close>

lemma small_buffer:
  assumes "alloc_ok alloc" "n \<in> {1, 2, 4, 8 :: nat}"
  shows "\<exists>b. CachePool_ApplyReal alloc (of_nat n) = Some b \<and> n \<le> length b"
proof -
  have "CalcBufSize (of_nat m) \<noteq> 0xFFFFFFFF \<and> unat (CalcBufSize (of_nat m)) < 28 \<and> m \<le> arrSzMap ! unat (CalcBufSize (of_nat m))"
    if "m \<in> {1, 2, 4, 8}" for m :: nat
    using that by (elim insertE) (simp_all add: CalcBufSize_def arrSzMap_def)
  then show ?thesis using assms by (auto simp: CachePool_ApplyReal_def Let_def alloc_ok_def word_less_nat_alt)
qed

text \<open>The key of one number: its bytes in key form.\<close>

lemma digit_key:
  assumes "alloc_ok alloc" "digit_type (dg_type d)" "dg_valType d \<noteq> NULL_VALUE"
  shows "\<exists>k. RawKey_of_values alloc [DV_Digit d] = Some k \<and> key_ok k \<and> key_bytes k = DigitalToBytes (dg_type d) (dg_value d) True"
proof -
  have n: "sizeof (dg_type d) \<in> {1, 2, 4, 8}" using sizeof_cases [of "dg_type d"] assms(2) by (auto simp: digit_type_def)
  obtain b where b: "CachePool_ApplyReal alloc (of_nat (sizeof (dg_type d))) = Some b" "sizeof (dg_type d) \<le> length b"
    using small_buffer [OF assms(1) n] by blast
  let ?x = "DigitalToBytes (dg_type d) (dg_value d) True"
  have "RawKey_of_values alloc [DV_Digit d] =
      Some \<lparr>rk_bysVal = patch 0 ?x b, rk_length = of_nat (sizeof (dg_type d)), rk_bSole = True\<rparr>"
    using assms(3) b by (simp add: RawKey_of_values_def key_length_def Digit_GetPersistenceLength_def Digit_WriteData_def put_bytes_def
        length_DigitalToBytes Let_def)
  moreover have "unat (of_nat (sizeof (dg_type d)) :: u32) = sizeof (dg_type d)" "sizeof (dg_type d) < 2 ^ 31"
    using unat_sizeof [of "dg_type d"] n by auto
  ultimately show ?thesis using b(2) by (simp add: key_ok_def key_bytes_def length_DigitalToBytes patch_def)
qed

text \<open>Records of an index over one column: the key is the value of the column.\<close>

definition has_key :: "DataType \<Rightarrow> u64 \<Rightarrow> RawRecord \<Rightarrow> bool" where
  "has_key dt v r \<longleftrightarrow> rec_fits r \<and> rec_key r = DigitalToBytes dt v True"

lemma key_order:
  assumes "ordered_type dt" "has_key dt v r" "key_ok k" "key_bytes k = DigitalToBytes dt w True"
  shows "CompareKey r k < 0 \<longleftrightarrow> digit_value dt v < digit_value dt w" "CompareKey r k > 0 \<longleftrightarrow> digit_value dt w < digit_value dt v"
    "CompareKey r k = 0 \<longleftrightarrow> digit_value dt v = digit_value dt w"
proof -
  let ?a = "DigitalToBytes dt v True" and ?b = "DigitalToBytes dt w True"
  have c: "CompareKey r k = bytes_cmp ?a ?b" "cmp_len ?a" "cmp_len ?b"
    using assms(2-4) order_cmp_len(1) [of r] key_cmp_len [OF assms(3)] by (simp_all add: has_key_def CompareKey_bytes)
  note l = DigitalToBytes_less [OF assms(1), of v w] DigitalToBytes_less [OF assms(1), of w v] lexcmp_swap [of ?a ?b]
  show "CompareKey r k < 0 \<longleftrightarrow> digit_value dt v < digit_value dt w" using l(1) c by (simp add: bytes_cmp_iffs)
  show "CompareKey r k > 0 \<longleftrightarrow> digit_value dt w < digit_value dt v" using l(2,3) c by (simp add: bytes_cmp_iffs)
  have "lexcmp ?a ?b = 0 \<longleftrightarrow> digit_value dt v = digit_value dt w" using l by linarith
  then show "CompareKey r k = 0 \<longleftrightarrow> digit_value dt v = digit_value dt w" using c by (simp add: bytes_cmp_iffs)
qed

lemma range_keys:
  assumes "alloc_ok alloc" "ordered_type (dg_type d)" "column_value (dg_type d) (left_of q)" "column_value (dg_type d) (right_of q)" "qr_bRange q"
  shows "\<exists>kr ek. GenIndexSearchKey fp alloc [d] q = Some kr \<and> key_ok (kr_startKey kr) \<and> kr_endKey kr = Some ek \<and> key_ok ek \<and>
    kr_bRange kr \<and> kr_bIncLeft kr = qr_bIncLeft q \<and>
    (\<forall>v r. has_key (dg_type d) v r \<longrightarrow>
      (right_of_start kr r \<longleftrightarrow> from_left (int_rank (left_of q)) (qr_bIncLeft q) (Some (digit_value (dg_type d) v))) \<and>
      (left_of_end kr r \<longleftrightarrow> to_right (int_rank (right_of q)) (qr_bIncRight q) (Some (digit_value (dg_type d) v))))"
proof -
  let ?dt = "dg_type d"
  obtain l where l: "left_of q = EV (DV_Digit l)" "dg_type l = ?dt" "dg_valType l \<noteq> NULL_VALUE" using assms(3) by (elim column_valueE) auto
  obtain r where r: "right_of q = EV (DV_Digit r)" "dg_type r = ?dt" "dg_valType r \<noteq> NULL_VALUE" using assms(4) by (elim column_valueE) auto
  have dt: "digit_type ?dt" using assms(2) by (auto simp: ordered_type_def data_type_flags digit_type_def)
  let ?l = "d\<lparr>dg_refCount := 1, dg_value := dg_value l, dg_valType := SOLE_VALUE\<rparr>"
  let ?r = "?l\<lparr>dg_value := dg_value r, dg_valType := SOLE_VALUE\<rparr>"
  obtain sk where sk: "RawKey_of_values alloc [DV_Digit ?l] = Some sk" "key_ok sk" "key_bytes sk = DigitalToBytes ?dt (dg_value l) True"
    using digit_key [OF assms(1), of ?l] dt by auto
  obtain ek where ek: "RawKey_of_values alloc [DV_Digit ?r] = Some ek" "key_ok ek" "key_bytes ek = DigitalToBytes ?dt (dg_value r) True"
    using digit_key [OF assms(1), of ?r] dt by auto
  let ?kr = "\<lparr>kr_startKey = sk, kr_endKey = Some ek, kr_bRange = True, kr_bIncLeft = qr_bIncLeft q, kr_bIncRight = qr_bIncRight q\<rparr>"
  have "GenIndexSearchKey fp alloc [d] q = Some ?kr"
    using sk(1) ek(1) l r assms(5) by (simp add: GenIndexSearchKey_def Digit_Clone_def Digit_Copy_def copied_def Let_def)
  moreover have "right_of_start ?kr x \<longleftrightarrow> from_left (int_rank (left_of q)) (qr_bIncLeft q) (Some (digit_value ?dt v))"
      "left_of_end ?kr x \<longleftrightarrow> to_right (int_rank (right_of q)) (qr_bIncRight q) (Some (digit_value ?dt v))" if "has_key ?dt v x" for v x
    using key_order [OF assms(2) that sk(2,3)] key_order [OF assms(2) that ek(2,3)] l r
    by (auto simp: right_of_start_def left_of_end_def from_left_def to_right_def)
  ultimately show ?thesis using sk(2) ek(2) by (intro exI [of _ ?kr] exI [of _ ek]) simp
qed

section \<open>A scan is exact\<close>

text \<open>
  C17: Let a key range have a start and an end key, be a true range unless the index is not unique, and include its left border unless the index is
  unique; let the pages be valid and in the order of their keys, let the search for the start key have ended in the first one, and let no record be
  refused. Then the scan over the leaf pages handles exactly the records whose key is in the range, each once and in the order of the index, and ends
  early exactly when a record lies behind the range. (\<open>nonunique_exclusive\<close> is the case that is left out.)
\<close>

theorem scan_leaves_exact:
  assumes "pages_ok t ps" "key_ok (kr_startKey kr)" "kr_endKey kr = Some k" "key_ok k" "\<And>p i. handle p i \<noteq> TB_Error"
    and "t \<noteq> NON_UNIQUE \<or> kr_bIncLeft kr" "kr_bRange kr \<or> t = NON_UNIQUE"
    and "\<forall>lr \<in> set (concat (map ip_vctRecord (tl ps))). right_of_start kr (lr_raw lr)"
  shows "scan_leaves handle t kr False ps =
    Some (filter (in_key_range kr) (concat (map ip_vctRecord ps)), Some (beyond kr (concat (map ip_vctRecord ps))))"
  by (rule scan_leaves_spec [OF assms(1-7)]) (use assms(8) in simp)

text \<open>
  C16: From a query range to rows. For a primary or unique index over exactly one integer column, with valid leaf pages in the order of their keys,
  and a range (no point) with borders that are values of the column's type and not null, the keys built for the range make the scan handle exactly the
  records whose column value is in the range, when no record is refused and the search for the start key ended in the first page (the records of the
  later pages are right of the left border).
\<close>

theorem scan_query_range:
  assumes "alloc_ok alloc" "ordered_type (dg_type d)" "column_value (dg_type d) (left_of q)" "column_value (dg_type d) (right_of q)" "qr_bRange q"
    and "pages_ok t ps" "t \<noteq> NON_UNIQUE" "\<And>p i. handle p i \<noteq> TB_Error"
    and "\<forall>lr \<in> set (concat (map ip_vctRecord ps)). has_key (dg_type d) (val lr) (lr_raw lr)"
    and "\<forall>lr \<in> set (concat (map ip_vctRecord (tl ps))). from_left (int_rank (left_of q)) (qr_bIncLeft q) (Some (digit_value (dg_type d) (val lr)))"
  shows "\<exists>kr bEnd. GenIndexSearchKey fp alloc [d] q = Some kr \<and>
    scan_leaves handle t kr False ps =
      Some (filter (\<lambda>lr. in_range int_rank (Some (digit_value (dg_type d) (val lr))) q) (concat (map ip_vctRecord ps)), Some bEnd)"
proof -
  obtain kr ek where kr: "GenIndexSearchKey fp alloc [d] q = Some kr" "key_ok (kr_startKey kr)" "kr_endKey kr = Some ek" "key_ok ek" "kr_bRange kr"
      "\<forall>v r. has_key (dg_type d) v r \<longrightarrow>
        (right_of_start kr r \<longleftrightarrow> from_left (int_rank (left_of q)) (qr_bIncLeft q) (Some (digit_value (dg_type d) v))) \<and>
        (left_of_end kr r \<longleftrightarrow> to_right (int_rank (right_of q)) (qr_bIncRight q) (Some (digit_value (dg_type d) v)))"
    using range_keys [OF assms(1-5)] by blast
  have "set (concat (map ip_vctRecord (tl ps))) \<subseteq> set (concat (map ip_vctRecord ps))" by (cases ps) auto
  then have "\<forall>lr \<in> set (concat (map ip_vctRecord (tl ps))). right_of_start kr (lr_raw lr)" using kr(6) assms(9,10) by blast
  then have "scan_leaves handle t kr False ps =
      Some (filter (in_key_range kr) (concat (map ip_vctRecord ps)), Some (beyond kr (concat (map ip_vctRecord ps))))"
    by (intro scan_leaves_spec [OF assms(6) kr(2-4) assms(8)]) (use assms(7) kr(5) in simp_all)
  moreover have "filter (in_key_range kr) (concat (map ip_vctRecord ps)) =
      filter (\<lambda>lr. in_range int_rank (Some (digit_value (dg_type d) (val lr))) q) (concat (map ip_vctRecord ps))"
    using kr(6) assms(5,9) by (intro filter_cong) (auto simp: in_key_range_def in_range_def)
  ultimately show ?thesis using kr(1) by auto
qed

definition small_range :: "byte \<Rightarrow> byte \<Rightarrow> bool \<Rightarrow> bool \<Rightarrow> KeyRange" where
  "small_range a b incLeft incRight =
     \<lparr>kr_startKey = RawKey_wrap [a] 1 False, kr_endKey = Some (RawKey_wrap [b] 1 False), kr_bRange = True, kr_bIncLeft = incLeft, kr_bIncRight = incRight\<rparr>"

lemma small_key: "key_ok (RawKey_wrap [a] 1 False)" "key_bytes (RawKey_wrap [a] 1 False) = [a]"
  by (simp_all add: key_ok_def key_bytes_def RawKey_wrap_def)

lemma small_compare:
  "CompareKey (small_raw UNIQUE a v False) (RawKey_wrap [b] 1 False) > 0 \<longleftrightarrow> b < a"
  "CompareKey (small_raw UNIQUE a v False) (RawKey_wrap [b] 1 False) < 0 \<longleftrightarrow> a < b"
  "CompareKey (small_raw UNIQUE a v False) (RawKey_wrap [b] 1 False) = 0 \<longleftrightarrow> a = b"
  using small_wf(2) [of a v False] by (auto simp: CompareKey_bytes rec_wf_def small_key bytes_cmp_iffs cmp_len_def)

lemma small_pages: "pages_ok UNIQUE [sample_leaf [small_rec 3 1, small_rec 8 1], sample_leaf [small_rec 9 1]]"
  using small_page sample_leaf_inv [of "[small_rec 9 1]"] by (simp add: pages_ok_def sample_leaf_def small_rec_def key_before_def)

theorem scan_leaves_exact_witness:
  "scan_leaves (\<lambda>_ _. TB_True) UNIQUE (small_range 3 9 False False) False [sample_leaf [small_rec 3 1, small_rec 8 1], sample_leaf [small_rec 9 1]] =
    Some ([small_rec 8 1], Some True)"
  by (subst scan_leaves_exact [OF small_pages, where k = "RawKey_wrap [9] 1 False"])
    (simp_all add: small_range_def small_key sample_leaf_def small_rec_def right_of_start_def left_of_end_def in_key_range_def beyond_def small_compare)

definition byte_value :: "byte \<Rightarrow> ExprValue" where
  "byte_value b = EV (DV_Digit (Digit_new DT_BYTE (ucast b)))"

definition byte_range :: "byte \<Rightarrow> bool \<Rightarrow> byte \<Rightarrow> bool \<Rightarrow> QueryRange" where
  "byte_range a incLeft b incRight =
     \<lparr>qr_dvLeft = \<lparr>vr_addr = 0, vr_val = byte_value a\<rparr>, qr_dvRight = \<lparr>vr_addr = 1, vr_val = byte_value b\<rparr>, qr_bRange = True,
      qr_bIncLeft = incLeft, qr_bIncRight = incRight\<rparr>"

theorem scan_query_range_witness:
  "\<exists>kr bEnd. GenIndexSearchKey plain_fp (\<lambda>n. replicate n 0) [Digit_new DT_BYTE 0] (byte_range 3 False 8 True) = Some kr \<and>
    scan_leaves (\<lambda>_ _. TB_True) UNIQUE kr False [sample_leaf [small_rec 3 1, small_rec 8 1], sample_leaf [small_rec 9 1]] = Some ([small_rec 8 1], Some bEnd)"
proof -
  have id: "ucast (ucast b :: u64) = b" for b :: byte by (rule bit_word_eqI) (simp add: bit_ucast_iff)
  have k: "has_key DT_BYTE (ucast b) (small_raw UNIQUE b v False)" for b v
    using small_wf(2) [of b v False] by (simp add: has_key_def rec_wf_def id UInt8ToBytes_def store_byte)
  have "\<exists>kr bEnd. GenIndexSearchKey plain_fp (\<lambda>n. replicate n 0) [Digit_new DT_BYTE 0] (byte_range 3 False 8 True) = Some kr \<and>
    scan_leaves (\<lambda>_ _. TB_True) UNIQUE kr False [sample_leaf [small_rec 3 1, small_rec 8 1], sample_leaf [small_rec 9 1]] =
      Some (filter (\<lambda>lr. in_range int_rank (Some (digit_value (dg_type (Digit_new DT_BYTE 0)) (ucast (hd (rec_key (lr_raw lr)))))) (byte_range 3 False 8 True))
        (concat (map ip_vctRecord [sample_leaf [small_rec 3 1, small_rec 8 1], sample_leaf [small_rec 9 1]])), Some bEnd)"
    by (rule scan_query_range [OF _ _ _ _ _ small_pages])
      (use k [of 3 1] k [of 8 1] k [of 9 1] in
        \<open>simp_all add: byte_range_def sample_leaf_def small_rec_def from_left_def byte_value_def Digit_new_def alloc_ok_def digit_ok_def is_float_def ordered_type_def data_type_flags\<close>)
  then show ?thesis
    by (simp add: sample_leaf_def small_rec_def in_range_def from_left_def to_right_def byte_range_def byte_value_def Digit_new_def)
qed

section \<open>Where the code is wrong\<close>

text \<open>
  An equality on a non-unique index of one column, as an \<open>IN\<close> makes it: no end key is built, and the scan uses it on the first record.
\<close>

lemma nonunique_point_crashes:
  assumes "GenIndexSearchKey fp alloc [d] q = Some kr" "\<not> qr_bRange q" "first_pos NON_UNIQUE kr fb p = (f, pos)" "pos < length (ip_vctRecord p)"
  shows "scan_leaf handle NON_UNIQUE kr fb p = None"
proof -
  have "kr_endKey kr = None" using assms(1,2) by (auto simp: GenIndexSearchKey_def split: bind_splits)
  then show ?thesis using assms(3,4) by (simp add: scan_leaf_def Cons_nth_drop_Suc [symmetric])
qed

text \<open>
  An index over two columns: the start key of a range over the first one ends with the least value of the second one. With \<open>a > 5\<close> the row (5, 1)
  lies behind the excluded key (5, 0) and is scanned as well, and \<open>PickIndexCondition\<close> has removed the condition from what is checked later. An
  equality on the first column of a unique index is searched as the one key (5, 0).
\<close>

lemma composite_start_key:
  "write_keys (DV_Digit (Digit_new DT_BYTE 5) # map DV_Digit (map Digit_SetMinValue [Digit_new DT_BYTE 7])) 0 [0, 0] = Some [5, 0]"
  "lexcmp [5, 1] [5, 0] > 0"
  by code_simp+

text \<open>A range of a non-unique index that excludes its left border skips one record of that key only.\<close>

lemma nonunique_exclusive:
  assumes "leaf_inv NON_UNIQUE p" "sorted_wrt key_before (raws p)" "key_ok (kr_startKey kr)" "\<not> kr_bIncLeft kr"
    and "i < j" "j < length (ip_vctRecord p)" "CompareKey (raws p ! i) (kr_startKey kr) = 0" "CompareKey (raws p ! j) (kr_startKey kr) = 0"
  shows "\<exists>pos. first_pos NON_UNIQUE kr False p = (True, pos) \<and> pos \<le> j"
proof -
  let ?k = "kr_startKey kr" and ?rs = "raws p"
  note inv = leaf_invD [OF assms(1)]
  obtain f s where s: "LeafPage_SearchKey NON_UNIQUE ?k 0 INT32_MAX p = (f, s)" by fastforce
  have fits: "\<forall>r \<in> set ?rs. rec_fits r" using inv(3) by (auto simp: rec_wf_def)
  have "int (length (ip_vctRecord p)) \<le> INT32_MAX" using assms(1) by (simp add: leaf_inv_def INT32_MAX_def)
  then have b: "bsearch (probe CompareKey ?rs ?k) (\<lambda>m. probe CompareKey ?rs ?k (m - 1) = 0) 0 (int (length ?rs) - 1) = (f, s)"
    using s by (simp add: LeafPage_SearchKey_def clip_end_def inv(1) Let_def)
  note srch = by_key.search_whole [OF assms(2) fits assms(3) _ b, simplified]
  have f using srch(1) assms(5-7) by (auto intro!: bexI [of _ "ip_vctRecord p ! i"])
  then have "\<forall>r \<in> set (take (nat s) ?rs). CompareKey r ?k < 0"
    using by_key.search_first [OF assms(2) fits assms(3) _ b [unfolded \<open>f\<close> [THEN eqTrueI]]] by blast
  then have "nat s \<le> i" using assms(5-7) nth_in_set_tail(1) [of i ?rs "nat s"] by (cases "i < nat s") auto
  then show ?thesis using \<open>f\<close> s assms(4,5) by (simp add: first_pos_def)
qed

end
