(* ===== verification/Query_Keys.thy ===== *)
theory Query_Keys
  imports Index_Scan
begin

text \<open>
  From the condition of an update, delete or query to the key ranges of its scan: the first part of their \<open>SessionExec\<close>
  (\<open>statement/UpdateStatement.cpp\<close>, \<open>DeleteStatement.cpp\<close>, \<open>TableSelectStatement.cpp\<close>, where it is written three times) and \<open>IndexSearch\<close>
  (\<open>expr/ExprStatement.h\<close>). The columns of the index are numeric. \<open>None\<close> is a failed assertion, a null pointer, or an uncaught exception.
\<close>

section \<open>Key ranges\<close>

record IndexSearch =
  is_idxLogic :: "ExprLogic option"
  is_vctPointCond :: "ExprLogic list"
  is_indexPos :: nat
  is_bPointQuery :: bool

text \<open>The values of the point conditions go to the first columns. The inner \<open>None\<close>: a value cannot be computed or stored.\<close>

fun point_values :: "externals \<Rightarrow> ExprValue list \<Rightarrow> ExprLogic list \<Rightarrow> DataValueDigit list \<Rightarrow> DataValueDigit list option option" where
  "point_values X paras [] ds = Some (Some ds)"
| "point_values X paras (ExprComp EQ l r # cs) (d # ds) = do {
     dv \<leftarrow> ExprData_Calc X paras [] r;
     case dv of
       None \<Rightarrow> Some None
     | Some v \<Rightarrow> do {
         c \<leftarrow> Digit_Copy (x_fp X) v d;
         case c of
           Inl e \<Rightarrow> Some None
         | Inr d' \<Rightarrow> map_option (map_option (Cons d')) (point_values X paras cs ds)
       }
   }"
| "point_values X paras (c # cs) ds = None"

text \<open>The range of keys that have the given first columns: the others are filled up with their least and greatest values.\<close>

definition point_range :: "alloc \<Rightarrow> IndexType \<Rightarrow> nat \<Rightarrow> DataValueDigit list \<Rightarrow> KeyRange option" where
  "point_range alloc t n ds = do {
     let lo = take n ds @ map Digit_SetMinValue (drop n ds);
     sKey \<leftarrow> RawKey_of_values alloc (map DV_Digit lo);
     eKey \<leftarrow> (if n < length ds \<or> t = NON_UNIQUE
       then map_option Some (RawKey_of_values alloc (map DV_Digit (take n ds @ map Digit_SetMaxValue (drop n lo))))
       else Some None);
     Some \<lparr>kr_startKey = sKey, kr_endKey = eKey, kr_bRange = (eKey \<noteq> None), kr_bIncLeft = True, kr_bIncRight = True\<rparr>
   }"

fun gen_keys :: "fp_ops \<Rightarrow> alloc \<Rightarrow> DataValueDigit list \<Rightarrow> QueryRange list \<Rightarrow> KeyRange list option" where
  "gen_keys fp alloc ds [] = Some []"
| "gen_keys fp alloc ds (q # qs) = do {
     kr \<leftarrow> GenIndexSearchKey fp alloc ds q;
     map_option (Cons kr) (gen_keys fp alloc ds qs)
   }"

text \<open>
  The key ranges of a statement. \<open>ds\<close> are the columns of the index and \<open>t\<close> is its kind; the inner \<open>None\<close> is the error. The condition is
  used although a statement without a condition on an index has none.
\<close>

definition query_keys :: "externals \<Rightarrow> alloc \<Rightarrow> IndexType \<Rightarrow> ExprValue list \<Rightarrow> DataValueDigit list \<Rightarrow> IndexSearch option \<Rightarrow> KeyRange list option option" where
  "query_keys X alloc t paras ds idxSearch = do {
     is \<leftarrow> idxSearch;
     if is_bPointQuery is then do {
       vals \<leftarrow> point_values X paras (is_vctPointCond is) (map Digit_Clone ds);
       case vals of
         None \<Rightarrow> Some None
       | Some vs \<Rightarrow> map_option (\<lambda>kr. Some [kr]) (point_range alloc t (length (is_vctPointCond is)) vs)
     }
     else do {
       logic \<leftarrow> is_idxLogic is;
       (qs, logic, n) \<leftarrow> ConditionConvert X paras logic 0;
       GetFieldFromExprLogic logic;
       map_option Some (gen_keys (x_fp X) alloc ds qs)
     }
   }"

section \<open>Keys of several columns\<close>

fun col_bytes :: "DataType list \<Rightarrow> u64 list \<Rightarrow> buf" where
  "col_bytes (dt # dts) (v # vs) = DigitalToBytes dt v True @ col_bytes dts vs"
| "col_bytes _ _ = []"

fun cols_ok :: "DataType list \<Rightarrow> u64 list \<Rightarrow> bool" where
  "cols_ok [] [] = True"
| "cols_ok (dt # dts) (v # vs) = (ordered_type dt \<and> digit_ok dt v \<and> cols_ok dts vs)"
| "cols_ok _ _ = False"

definition col_size :: "DataType list \<Rightarrow> nat" where
  "col_size dts = sum_list (map sizeof dts)"

lemma cols_ok_length: "cols_ok dts vs \<Longrightarrow> length vs = length dts"
  by (induction dts vs rule: cols_ok.induct) auto

lemma length_col_bytes: "length vs = length dts \<Longrightarrow> length (col_bytes dts vs) = col_size dts"
  by (induction dts vs rule: col_bytes.induct) (auto simp: length_DigitalToBytes col_size_def)

lemma cols_ok_append: "length ds = length us \<Longrightarrow> cols_ok (ds @ es) (us @ vs) \<longleftrightarrow> cols_ok ds us \<and> cols_ok es vs"
  by (induction ds us rule: list_induct2) auto

lemma cols_ok_take: "cols_ok dts vs \<Longrightarrow> cols_ok (take n dts) (take n vs)"
  using cols_ok_append [of "take n dts" "take n vs" "drop n dts" "drop n vs"] cols_ok_length [of dts vs] by simp

lemma col_bytes_append: "length ds = length us \<Longrightarrow> col_bytes (ds @ es) (us @ vs) = col_bytes ds us @ col_bytes es vs"
  by (induction ds us rule: list_induct2) auto

lemma ordered_bounds:
  assumes "ordered_type dt" "digit_ok dt v"
  shows "digit_value dt (MinValue dt) \<le> digit_value dt v" "digit_value dt v \<le> digit_value dt (MaxValue dt)" "digit_type dt"
proof -
  have "digit_value dt (MinValue dt) \<le> digit_value dt v \<and> digit_value dt v \<le> digit_value dt (MaxValue dt)"
  proof (cases "dt = DT_DATETIME")
    case True
    then show ?thesis using uint_lt2p [of v] by simp
  next
    case False
    then have "IsDigital dt" "\<not> is_float dt" using assms(1) by (auto simp: ordered_type_def data_type_flags is_float_def)
    then show ?thesis using digit_bounds assms(2) by blast
  qed
  then show "digit_value dt (MinValue dt) \<le> digit_value dt v" "digit_value dt v \<le> digit_value dt (MaxValue dt)" by blast+
  show "digit_type dt" using assms(1) by (auto simp: ordered_type_def data_type_flags digit_type_def)
qed

lemma lexcmp_columns:
  assumes "length as = length bs"
  shows "lexcmp (as @ xs) (bs @ ys) = (if as = bs then lexcmp xs ys else lexcmp as bs)"
  using assms lexcmp_prefix_differs lexcmp_append_same by auto

lemma digit_le: "ordered_type dt \<Longrightarrow> digit_value dt v \<le> digit_value dt w \<Longrightarrow> lexcmp (DigitalToBytes dt v True) (DigitalToBytes dt w True) \<le> 0"
  using DigitalToBytes_less [of dt w v] lexcmp_swap [of "DigitalToBytes dt v True" "DigitalToBytes dt w True"] by auto

text \<open>Every key lies between the one of least values and the one of greatest values.\<close>

lemma columns_between:
  "cols_ok dts vs \<Longrightarrow> lexcmp (col_bytes dts (map MinValue dts)) (col_bytes dts vs) \<le> 0 \<and> lexcmp (col_bytes dts vs) (col_bytes dts (map MaxValue dts)) \<le> 0"
proof (induction dts vs rule: cols_ok.induct)
  case (2 dt dts v vs)
  note b = ordered_bounds [of dt v]
  have "lexcmp (DigitalToBytes dt (MinValue dt) True) (DigitalToBytes dt v True) \<le> 0" "lexcmp (DigitalToBytes dt v True) (DigitalToBytes dt (MaxValue dt) True) \<le> 0"
    using 2 b digit_le by simp_all
  then show ?case using 2 by (auto simp: lexcmp_columns length_DigitalToBytes)
qed auto

lemma columns_equal:
  "cols_ok dts vs \<Longrightarrow> cols_ok dts ws \<Longrightarrow> col_bytes dts vs = col_bytes dts ws \<longleftrightarrow> list_all2 (\<lambda>dt (v, w). digit_value dt v = digit_value dt w) dts (zip vs ws)"
proof (induction dts vs arbitrary: ws rule: cols_ok.induct)
  case (2 dt dts v vs)
  then obtain w ws' where ws: "ws = w # ws'" "ordered_type dt" "cols_ok dts ws'" by (cases ws) auto
  have "DigitalToBytes dt v True = DigitalToBytes dt w True \<longleftrightarrow> digit_value dt v = digit_value dt w"
    using DigitalToBytes_less [OF ws(2), of v w] DigitalToBytes_less [OF ws(2), of w v] lexcmp_eq_0 [of "DigitalToBytes dt v True" "DigitalToBytes dt w True"]
      lexcmp_swap [of "DigitalToBytes dt v True" "DigitalToBytes dt w True"] by linarith
  then show ?case using 2 ws by (simp add: length_DigitalToBytes append_eq_append_conv)
qed auto

text \<open>The order of rows by their columns.\<close>

fun columns_less :: "DataType list \<Rightarrow> u64 list \<Rightarrow> u64 list \<Rightarrow> bool" where
  "columns_less (dt # dts) (v # vs) (w # ws) =
     (digit_value dt v < digit_value dt w \<or> digit_value dt v = digit_value dt w \<and> columns_less dts vs ws)"
| "columns_less _ _ _ = False"

lemma columns_less_bytes:
  "cols_ok dts vs \<Longrightarrow> cols_ok dts ws \<Longrightarrow> lexcmp (col_bytes dts vs) (col_bytes dts ws) < 0 \<longleftrightarrow> columns_less dts vs ws"
proof (induction dts vs arbitrary: ws rule: cols_ok.induct)
  case (2 dt dts v vs)
  then obtain w ws' where ws: "ws = w # ws'" "ordered_type dt" "cols_ok dts ws'" by (cases ws) auto
  have "DigitalToBytes dt v True = DigitalToBytes dt w True \<longleftrightarrow> digit_value dt v = digit_value dt w"
    using columns_equal [of "[dt]" "[v]" "[w]"] 2 ws by simp
  then show ?case using 2 ws DigitalToBytes_less [OF ws(2), of v w] by (auto simp: lexcmp_columns length_DigitalToBytes)
qed auto

text \<open>The constructor of a key writes the columns one after the other.\<close>

lemma write_keys_columns:
  assumes "\<forall>d \<in> set ds. dg_valType d \<noteq> NULL_VALUE" "pos + col_size (map dg_type ds) \<le> length b"
  shows "write_keys (map DV_Digit ds) pos b = Some (patch pos (col_bytes (map dg_type ds) (map dg_value ds)) b)"
  using assms
proof (induction ds arbitrary: pos b)
  case Nil
  then show ?case by (simp add: patch_def)
next
  case (Cons d ds)
  let ?x = "DigitalToBytes (dg_type d) (dg_value d) True"
  have w: "dv_WriteData (DV_Digit d) KEY = Some (?x, of_nat (sizeof (dg_type d)))"
    using Cons.prems(1) by (simp add: Digit_WriteData_def Let_def)
  have l: "length ?x = sizeof (dg_type d)" by (rule length_DigitalToBytes)
  have fits: "pos + sizeof (dg_type d) + col_size (map dg_type ds) \<le> length b" using Cons.prems(2) by (simp add: col_size_def)
  then have "write_keys (map DV_Digit (d # ds)) pos b = write_keys (map DV_Digit ds) (pos + sizeof (dg_type d)) (patch pos ?x b)"
    using w l unat_sizeof [of "dg_type d"] by (simp add: put_bytes_def)
  also have "\<dots> = Some (patch (pos + sizeof (dg_type d)) (col_bytes (map dg_type ds) (map dg_value ds)) (patch pos ?x b))"
    using Cons.IH Cons.prems(1) fits l by simp
  also have "patch (pos + sizeof (dg_type d)) (col_bytes (map dg_type ds) (map dg_value ds)) (patch pos ?x b) =
      patch pos (?x @ col_bytes (map dg_type ds) (map dg_value ds)) b"
    using fits l by (simp add: patch_def ac_simps)
  finally show ?case by simp
qed

lemma columns_key:
  assumes "alloc_ok alloc" "ds \<noteq> []" "length ds \<le> 2048" "\<forall>d \<in> set ds. dg_valType d \<noteq> NULL_VALUE" "\<forall>d \<in> set ds. digit_type (dg_type d)"
  shows "\<exists>k. RawKey_of_values alloc (map DV_Digit ds) = Some k \<and> key_ok k \<and> key_bytes k = col_bytes (map dg_type ds) (map dg_value ds)"
proof -
  let ?n = "col_size (map dg_type ds)" and ?x = "col_bytes (map dg_type ds) (map dg_value ds)"
  have le: "col_size (map dg_type es) \<le> 8 * length es" for es :: "DataValueDigit list"
  proof (induction es)
    case (Cons d es)
    then show ?case using sizeof_cases [of "dg_type d"] by (auto simp: col_size_def)
  qed (simp add: col_size_def)
  have n: "?n \<le> 16384" "0 < ?n" using le [of ds] assms(2,3,5) by (auto simp: col_size_def digit_type_def neq_Nil_conv)
  then have u: "unat (of_nat ?n :: u32) = ?n" by (simp add: unat_of_nat)
  have "of_nat ?n \<noteq> (0 :: u32)" "of_nat ?n \<le> (16384 :: u32)" using n u by (metis unat_0 less_irrefl, simp add: word_le_nat_alt)
  then have c: "CalcBufSize (of_nat ?n) < 28" "?n \<le> arrSzMap ! unat (CalcBufSize (of_nat ?n))"
    using CalcBufSize_best [of "of_nat ?n"] u by (simp_all add: word_less_nat_alt)
  then have "CalcBufSize (of_nat ?n) \<noteq> 0xFFFFFFFF" by auto
  then obtain b where b: "CachePool_ApplyReal alloc (of_nat ?n) = Some b" "?n \<le> length b"
    using c assms(1) by (simp add: CachePool_ApplyReal_def Let_def alloc_ok_def)
  have len: "length ?x = ?n" by (simp add: length_col_bytes)
  have sizes: "key_length (map DV_Digit ds) = Some (of_nat ?n)"
  proof -
    have "sum_list (map (\<lambda>v. the (dv_GetPersistenceLength v KEY)) (map DV_Digit es)) = of_nat (col_size (map dg_type es))" for es
      by (induction es) (simp_all add: col_size_def Digit_GetPersistenceLength_def)
    moreover have "\<forall>v \<in> set (map DV_Digit ds). dv_GetPersistenceLength v KEY \<noteq> None" by (auto simp: Digit_GetPersistenceLength_def)
    ultimately show ?thesis by (auto simp: key_length_def)
  qed
  have "RawKey_of_values alloc (map DV_Digit ds) = Some \<lparr>rk_bysVal = patch 0 ?x b, rk_length = of_nat ?n, rk_bSole = True\<rparr>"
    using sizes b write_keys_columns [OF assms(4), of 0 b] by (simp add: RawKey_of_values_def)
  then show ?thesis using b(2) n u len by (simp add: key_ok_def key_bytes_def patch_def)
qed

section \<open>A point search is exact\<close>

text \<open>The record's key are the columns \<open>vs\<close>.\<close>

definition has_columns :: "DataType list \<Rightarrow> u64 list \<Rightarrow> RawRecord \<Rightarrow> bool" where
  "has_columns dts vs r \<longleftrightarrow> rec_fits r \<and> cols_ok dts vs \<and> rec_key r = col_bytes dts vs"

text \<open>The first \<open>n\<close> columns of \<open>vs\<close> are those of \<open>ws\<close>.\<close>

definition same_columns :: "nat \<Rightarrow> DataType list \<Rightarrow> u64 list \<Rightarrow> u64 list \<Rightarrow> bool" where
  "same_columns n dts vs ws \<longleftrightarrow> (\<forall>i < n. digit_value (dts ! i) (vs ! i) = digit_value (dts ! i) (ws ! i))"

lemma key_cmp:
  assumes "has_columns dts vs r" "key_ok k"
  shows "CompareKey r k < 0 \<longleftrightarrow> lexcmp (col_bytes dts vs) (key_bytes k) < 0" "CompareKey r k > 0 \<longleftrightarrow> lexcmp (col_bytes dts vs) (key_bytes k) > 0"
    "CompareKey r k = 0 \<longleftrightarrow> col_bytes dts vs = key_bytes k"
  using assms order_cmp_len(1) [of r] key_cmp_len [OF assms(2)] by (simp_all add: has_columns_def CompareKey_bytes bytes_cmp_iffs)

lemma same_columns_bytes:
  assumes "cols_ok dts vs" "cols_ok dts ws" "n \<le> length dts"
  shows "col_bytes (take n dts) (take n vs) = col_bytes (take n dts) (take n ws) \<longleftrightarrow> same_columns n dts vs ws"
proof -
  have l: "length vs = length dts" "length ws = length dts" using cols_ok_length assms by blast+
  have "col_bytes (take n dts) (take n vs) = col_bytes (take n dts) (take n ws) \<longleftrightarrow>
      list_all2 (\<lambda>dt (v, w). digit_value dt v = digit_value dt w) (take n dts) (zip (take n vs) (take n ws))"
    using columns_equal cols_ok_take assms by blast
  also have "\<dots> \<longleftrightarrow> same_columns n dts vs ws"
    using l assms(3) by (simp add: list_all2_conv_all_nth same_columns_def)
  finally show ?thesis .
qed

lemma point_range_cmp:
  assumes "alloc_ok alloc" "ds \<noteq> []" "length ds \<le> 2048" "\<forall>d \<in> set ds. dg_valType d \<noteq> NULL_VALUE" "cols_ok (map dg_type ds) (map dg_value ds)"
    "n \<le> length ds" "n < length ds \<or> t = NON_UNIQUE"
  shows "\<exists>kr ek. point_range alloc t n ds = Some kr \<and> key_ok (kr_startKey kr) \<and> kr_endKey kr = Some ek \<and> key_ok ek \<and> kr_bRange kr \<and> kr_bIncLeft kr \<and>
    (\<forall>vs r. has_columns (map dg_type ds) vs r \<longrightarrow>
      (let c = lexcmp (col_bytes (take n (map dg_type ds)) (take n vs)) (col_bytes (take n (map dg_type ds)) (take n (map dg_value ds))) in
       (right_of_start kr r \<longleftrightarrow> c \<ge> 0) \<and> (left_of_end kr r \<longleftrightarrow> c \<le> 0)))"
proof -
  let ?dts = "map dg_type ds"
  let ?P = "col_bytes (take n ?dts) (take n (map dg_value ds))"
  let ?min = "col_bytes (drop n ?dts) (map MinValue (drop n ?dts))" and ?max = "col_bytes (drop n ?dts) (map MaxValue (drop n ?dts))"
  have types: "\<forall>d \<in> set ds. digit_type (dg_type d)"
    using assms(5) ordered_bounds(3) by (induction ds) auto
  let ?lo = "take n ds @ map Digit_SetMinValue (drop n ds)" and ?hi = "take n ds @ map Digit_SetMaxValue (drop n ds)"
  have nn: "\<forall>d \<in> set ?lo. dg_valType d \<noteq> NULL_VALUE" "\<forall>d \<in> set ?hi. dg_valType d \<noteq> NULL_VALUE" "\<forall>d \<in> set ?lo. digit_type (dg_type d)"
      "\<forall>d \<in> set ?hi. digit_type (dg_type d)" "?lo \<noteq> []" "?hi \<noteq> []" "length ?lo \<le> 2048" "length ?hi \<le> 2048"
    using assms(2-4) types by (auto simp: Digit_SetMinValue_def Digit_SetMaxValue_def dest: in_set_takeD in_set_dropD)
  have bytes: "col_bytes (map dg_type ?lo) (map dg_value ?lo) = ?P @ ?min" "col_bytes (map dg_type ?hi) (map dg_value ?hi) = ?P @ ?max"
    by (simp_all add: col_bytes_append Digit_SetMinValue_def Digit_SetMaxValue_def take_map drop_map comp_def)
  obtain sk where sk: "RawKey_of_values alloc (map DV_Digit ?lo) = Some sk" "key_ok sk" "key_bytes sk = ?P @ ?min"
    using columns_key [OF assms(1) nn(5,7,1,3)] bytes by auto
  obtain ek where ek: "RawKey_of_values alloc (map DV_Digit ?hi) = Some ek" "key_ok ek" "key_bytes ek = ?P @ ?max"
    using columns_key [OF assms(1) nn(6,8,2,4)] bytes by auto
  let ?kr = "\<lparr>kr_startKey = sk, kr_endKey = Some ek, kr_bRange = True, kr_bIncLeft = True, kr_bIncRight = True\<rparr>"
  have hi: "take n ds @ map Digit_SetMaxValue (drop n ?lo) = ?hi"
    using assms(6) by (simp add: Digit_SetMinValue_def Digit_SetMaxValue_def comp_def)
  have kr: "point_range alloc t n ds = Some ?kr"
    unfolding point_range_def Let_def hi sk(1) ek(1) using assms(7) by auto
  have "right_of_start ?kr r \<longleftrightarrow> lexcmp (col_bytes (take n ?dts) (take n vs)) ?P \<ge> 0"
      "left_of_end ?kr r \<longleftrightarrow> lexcmp (col_bytes (take n ?dts) (take n vs)) ?P \<le> 0" if h: "has_columns ?dts vs r" for vs r
  proof -
    let ?Q = "col_bytes (take n ?dts) (take n vs)" and ?R = "col_bytes (drop n ?dts) (drop n vs)"
    have v: "cols_ok ?dts vs" "length vs = length ds" using h cols_ok_length by (fastforce simp: has_columns_def)+
    have split: "col_bytes ?dts vs = ?Q @ ?R"
      using col_bytes_append [of "take n ?dts" "take n vs" "drop n ?dts" "drop n vs"] v(2) by simp
    have "cols_ok (drop n ?dts) (drop n vs)"
      using cols_ok_append [of "take n ?dts" "take n vs" "drop n ?dts" "drop n vs"] v by simp
    note between = columns_between [OF this]
    have R: "lexcmp ?R ?min \<ge> 0" "lexcmp ?R ?max \<le> 0" using between lexcmp_swap [of ?R ?min] by linarith+
    have len: "length ?Q = length ?P" using v(2) by (simp add: length_col_bytes)
    have c: "lexcmp (col_bytes ?dts vs) (?P @ ?min) = (if ?Q = ?P then lexcmp ?R ?min else lexcmp ?Q ?P)"
        "lexcmp (col_bytes ?dts vs) (?P @ ?max) = (if ?Q = ?P then lexcmp ?R ?max else lexcmp ?Q ?P)"
      unfolding split by (rule lexcmp_columns [OF len])+
    have e: "col_bytes ?dts vs = key_bytes sk \<longleftrightarrow> lexcmp (col_bytes ?dts vs) (key_bytes sk) = 0" "col_bytes ?dts vs = key_bytes ek \<longleftrightarrow> lexcmp (col_bytes ?dts vs) (key_bytes ek) = 0"
      by simp_all
    show "right_of_start ?kr r \<longleftrightarrow> lexcmp ?Q ?P \<ge> 0"
      using key_cmp [OF h sk(2)] R(1) c(1) unfolding right_of_start_def e(1) sk(3) by (auto split: if_splits)
    show "left_of_end ?kr r \<longleftrightarrow> lexcmp ?Q ?P \<le> 0"
      using key_cmp [OF h ek(2)] R(2) c(2) unfolding left_of_end_def e(2) ek(3) by (auto split: if_splits simp: e ek(3))
  qed
  then show ?thesis using kr sk(2) ek(2) by (intro exI [of _ ?kr] exI [of _ ek]) (simp add: Let_def)
qed

text \<open>
  C13: A point search finds what it asks for. Let the columns of an index be integers or dates, at most 2048, and its leaf pages valid and in the
  order of their keys, let the values of the point conditions be computed and not null, let there be fewer conditions than columns or let the index
  not be unique, let no record be refused, and let the search for the start key have ended in the first page (no record of a later page is less than
  the values). Then the scan of the key range that is made of the values handles exactly the records whose first columns have these values, in the
  order of the index.
\<close>

theorem point_search_exact:
  assumes "alloc_ok alloc" "is_bPointQuery is" "point_values X paras (is_vctPointCond is) (map Digit_Clone ds) = Some (Some vs)"
    and "vs \<noteq> []" "length vs \<le> 2048" "\<forall>d \<in> set vs. dg_valType d \<noteq> NULL_VALUE" "cols_ok (map dg_type vs) (map dg_value vs)"
    and "length (is_vctPointCond is) \<le> length vs" "length (is_vctPointCond is) < length vs \<or> t = NON_UNIQUE"
    and "pages_ok t ps" "\<And>p i. handle p i \<noteq> TB_Error"
    and "\<forall>lr \<in> set (concat (map ip_vctRecord ps)). has_columns (map dg_type vs) (val lr) (lr_raw lr)"
    and "\<forall>lr \<in> set (concat (map ip_vctRecord (tl ps))).
      \<not> columns_less (take (length (is_vctPointCond is)) (map dg_type vs)) (take (length (is_vctPointCond is)) (val lr)) (take (length (is_vctPointCond is)) (map dg_value vs))"
  shows "\<exists>kr bEnd. query_keys X alloc t paras ds (Some is) = Some (Some [kr]) \<and>
    scan_leaves handle t kr False ps =
      Some (filter (\<lambda>lr. same_columns (length (is_vctPointCond is)) (map dg_type vs) (val lr) (map dg_value vs)) (concat (map ip_vctRecord ps)), Some bEnd)"
proof -
  let ?n = "length (is_vctPointCond is)" and ?dts = "map dg_type vs"
  let ?same = "\<lambda>lr. same_columns ?n ?dts (val lr) (map dg_value vs)"
  obtain kr ek where kr: "point_range alloc t ?n vs = Some kr" "key_ok (kr_startKey kr)" "kr_endKey kr = Some ek" "key_ok ek" "kr_bRange kr" "kr_bIncLeft kr"
      "\<And>us r. has_columns ?dts us r \<Longrightarrow>
        (let c = lexcmp (col_bytes (take ?n ?dts) (take ?n us)) (col_bytes (take ?n ?dts) (take ?n (map dg_value vs))) in
         (right_of_start kr r \<longleftrightarrow> c \<ge> 0) \<and> (left_of_end kr r \<longleftrightarrow> c \<le> 0))"
    using point_range_cmp [OF assms(1,4-9)] by blast
  have same: "right_of_start kr (lr_raw lr) \<and> left_of_end kr (lr_raw lr) \<longleftrightarrow> ?same lr"
      "\<not> columns_less (take ?n ?dts) (take ?n (val lr)) (take ?n (map dg_value vs)) \<Longrightarrow> right_of_start kr (lr_raw lr)"
    if lr: "lr \<in> set (concat (map ip_vctRecord ps))" for lr
  proof -
    have h: "has_columns ?dts (val lr) (lr_raw lr)" using assms(12) lr by blast
    then have v: "cols_ok ?dts (val lr)" by (simp add: has_columns_def)
    have b: "col_bytes (take ?n ?dts) (take ?n (val lr)) = col_bytes (take ?n ?dts) (take ?n (map dg_value vs)) \<longleftrightarrow> ?same lr"
      using v assms(7,8) by (intro same_columns_bytes) auto
    show "right_of_start kr (lr_raw lr) \<and> left_of_end kr (lr_raw lr) \<longleftrightarrow> ?same lr"
      using kr(7) [OF h] unfolding Let_def b [symmetric] lexcmp_eq_0 [symmetric] by linarith
    show "right_of_start kr (lr_raw lr)" if "\<not> columns_less (take ?n ?dts) (take ?n (val lr)) (take ?n (map dg_value vs))"
      using kr(7) [OF h] columns_less_bytes [OF cols_ok_take [OF v] cols_ok_take [OF assms(7)], of ?n] that unfolding Let_def by linarith
  qed
  have "set (concat (map ip_vctRecord (tl ps))) \<subseteq> set (concat (map ip_vctRecord ps))" by (cases ps) auto
  then have tail: "\<forall>lr \<in> set (concat (map ip_vctRecord (tl ps))). right_of_start kr (lr_raw lr)" using same(2) assms(13) by blast
  have "scan_leaves handle t kr False ps =
      Some (filter (in_key_range kr) (concat (map ip_vctRecord ps)), Some (beyond kr (concat (map ip_vctRecord ps))))"
    by (intro scan_leaves_spec [OF assms(10) kr(2-4) assms(11)]) (use kr(5,6) tail in simp_all)
  moreover have "filter (in_key_range kr) (concat (map ip_vctRecord ps)) = filter ?same (concat (map ip_vctRecord ps))"
    using same(1) by (intro filter_cong) (auto simp: in_key_range_def)
  ultimately show ?thesis using kr(1) assms(2,3) by (auto simp: query_keys_def)
qed

definition pair_rec :: "byte \<Rightarrow> byte \<Rightarrow> LeafRecord" where
  "pair_rec a b = LeafRecord (leaf_raw UNIQUE (store (7 :: u16) @ store (2 :: u16) @ [a, b, 0]) False) None None"

lemma pair_raw [simp]:
  "leaf_wf UNIQUE (leaf_raw UNIQUE (store (7 :: u16) @ store (2 :: u16) @ [a, b, 0]) False)"
  "rec_key (leaf_raw UNIQUE (store (7 :: u16) @ store (2 :: u16) @ [a, b, 0]) False) = [a, b]"
  by (simp_all add: leaf_wf_def rec_wf_def rec_fits_def leaf_raw_def GetKeyLength_def GetTotalLength_def rec_key_def)

lemma pair_page: "pages_ok UNIQUE [sample_leaf [pair_rec 3 1, pair_rec 3 7, pair_rec 8 0]]"
proof -
  have "leaf_inv UNIQUE (sample_leaf [pair_rec 3 1, pair_rec 3 7, pair_rec 8 0])"
    by (rule sample_leaf_inv) (simp_all add: pair_rec_def rec_before_def order_bytes_def)
  then show ?thesis by (simp add: pages_ok_def sample_leaf_def pair_rec_def key_before_def)
qed

definition first_byte :: "byte \<Rightarrow> IndexSearch" where
  "first_byte a = \<lparr>is_idxLogic = None, is_vctPointCond = [ExprComp EQ (ExprField 0) (ExprConst (byte_value a))], is_indexPos = 0, is_bPointQuery = True\<rparr>"

theorem point_search_exact_witness:
  "\<exists>kr bEnd. query_keys (some_externals plain_fp) (\<lambda>n. replicate n 0) UNIQUE [] [Digit_new DT_BYTE 0, Digit_new DT_BYTE 0] (Some (first_byte 3)) = Some (Some [kr]) \<and>
     scan_leaves (\<lambda>_ _. TB_True) UNIQUE kr False [sample_leaf [pair_rec 3 1, pair_rec 3 7, pair_rec 8 0]] = Some ([pair_rec 3 1, pair_rec 3 7], Some bEnd)"
proof -
  let ?vs = "[Digit_new DT_BYTE 3, Digit_new DT_BYTE 0]" and ?val = "\<lambda>lr. map ucast (rec_key (lr_raw lr)) :: u64 list"
  have id: "ucast (ucast b :: u64) = b" for b :: byte by (rule bit_word_eqI) (simp add: bit_ucast_iff)
  have ok: "digit_ok DT_BYTE (ucast b)" for b :: byte by (simp add: digit_ok_def unat_ucast_byte)
  have k: "has_columns [DT_BYTE, DT_BYTE] [ucast a, ucast b] (leaf_raw UNIQUE (store (7 :: u16) @ store (2 :: u16) @ [a, b, 0]) False)" for a b
    using pair_raw(1) [of a b] ok by (simp add: has_columns_def leaf_wf_def rec_wf_def ordered_type_def data_type_flags UInt8ToBytes_def store_byte id)
  have "\<exists>kr bEnd. query_keys (some_externals plain_fp) (\<lambda>n. replicate n 0) UNIQUE [] [Digit_new DT_BYTE 0, Digit_new DT_BYTE 0] (Some (first_byte 3)) = Some (Some [kr]) \<and>
     scan_leaves (\<lambda>_ _. TB_True) UNIQUE kr False [sample_leaf [pair_rec 3 1, pair_rec 3 7, pair_rec 8 0]] =
       Some (filter (\<lambda>lr. same_columns (length (is_vctPointCond (first_byte 3))) (map dg_type ?vs) (?val lr) (map dg_value ?vs))
         (concat (map ip_vctRecord [sample_leaf [pair_rec 3 1, pair_rec 3 7, pair_rec 8 0]])), Some bEnd)"
    by (rule point_search_exact [OF _ _ _ _ _ _ _ _ _ pair_page])
      (use k [of 3 1] k [of 3 7] k [of 8 0] in
        \<open>simp_all add: first_byte_def byte_value_def Digit_new_def Digit_Clone_def Digit_Copy_def alloc_ok_def digit_ok_def ordered_type_def data_type_flags
          sample_leaf_def pair_rec_def Let_def\<close>)
  then show ?thesis by (simp add: sample_leaf_def pair_rec_def same_columns_def first_byte_def Digit_new_def)
qed

section \<open>Where the code goes wrong\<close>

text \<open>A statement whose condition uses no index has no \<open>IndexSearch\<close>; the null pointer is used all the same.\<close>

lemma no_index_crashes: "query_keys X alloc t paras ds None = None"
  by (simp add: query_keys_def)

text \<open>An \<open>IN\<close>, which the comment of \<open>_vctPointCond\<close> allows, fails the assertion of the loop.\<close>

lemma point_in_aborts: "point_values X paras (ExprInNot e a b # cs) ds = None"
  by (cases ds) simp_all

end
