(* ===== verification/Tran_Ids.thy ===== *)
theory Tran_Ids
  imports Prelude
begin

text \<open>
  Transaction ids: the counters of the session groups (\<open>SessionGroup\<close> of \<open>serv/SessionPool.h\<close>), how \<open>Transaction::StartTransaction\<close>
  takes the next id (\<open>serv/Transaction.cpp\<close>), and how the group is read back from an id (\<open>statement/Statement.h\<close>,
  \<open>serv/SessionPool.h\<close>). The groups are the list of their counters \<open>_currTranId\<close>.
\<close>

section \<open>Counters\<close>

definition SessionGroup_currTranId :: "u16 \<Rightarrow> u16 \<Rightarrow> u16 \<Rightarrow> u64" where
  "SessionGroup_currTranId groupSn nodeId restartNum =
     push_bit 52 (ucast nodeId) + push_bit 48 (ucast restartNum) + push_bit 40 (ucast groupSn)"

definition InitPool_groups :: "u16 \<Rightarrow> u16 \<Rightarrow> u64 list" where
  "InitPool_groups groupNum restartNum =
     map (\<lambda>i. SessionGroup_currTranId (of_nat i) 0 (restartNum mod 16)) [0..<unat groupNum]"

definition next_tran_id :: "u64 \<Rightarrow> u64" where
  "next_tran_id cur = (if cur AND 0xFFFFFFFFFF = 0xFFFFFFFFFF then cur AND 0xFFFFFF0000000000 else cur + 1)"

text \<open>The id that is given out, and the groups afterwards.\<close>

definition take_tran_id :: "u32 \<Rightarrow> u64 list \<Rightarrow> u64 \<times> u64 list" where
  "take_tran_id sid groups =
     (let g = unat sid mod length groups; cur = groups ! g in (cur, groups[g := next_tran_id cur]))"

definition GetSessionGroupId :: "u64 \<Rightarrow> u16" where
  "GetSessionGroupId txid = ucast (drop_bit 40 txid AND 0xFF)"

definition AddAction_group :: "u64 \<Rightarrow> nat \<Rightarrow> u64 option" where
  "AddAction_group tranId groups = (let gid = drop_bit 40 tranId AND 0xFF in if unat gid < groups then Some gid else None)"

text \<open>The ids of transactions that sessions start one after the other.\<close>

fun tran_ids :: "u64 list \<Rightarrow> u32 list \<Rightarrow> u64 list" where
  "tran_ids groups [] = []"
| "tran_ids groups (sid # sids) = (case take_tran_id sid groups of (tid, groups) \<Rightarrow> tid # tran_ids groups sids)"

section \<open>Two parts of an id\<close>

definition id_high :: "u64 \<Rightarrow> nat" where
  "id_high w = unat w div 2 ^ 40"

definition id_low :: "u64 \<Rightarrow> nat" where
  "id_low w = unat w mod 2 ^ 40"

lemma id_parts: "id_high v = id_high w \<Longrightarrow> id_low v = id_low w \<Longrightarrow> v = w"
  unfolding id_high_def id_low_def by (metis div_mult_mod_eq word_unat_eq_iff)

lemma low_mask: "unat (w AND 0xFFFFFFFFFF) = id_low w" for w :: u64
proof -
  have "w AND 0xFFFFFFFFFF = take_bit 40 w" by (simp add: take_bit_eq_mask mask_eq_exp_minus_1)
  then have "unat (w AND 0xFFFFFFFFFF) = take_bit 40 (unat w)" by (simp only: unsigned_take_bit_eq)
  then show ?thesis by (simp only: id_low_def take_bit_eq_mod)
qed

lemma high_bound: "id_high w < 2 ^ 24"
  using unsigned_less [of w, where ?'a = nat] by (simp add: id_high_def less_mult_imp_div_less)

lemma high_shift: "unat (drop_bit 40 w) = id_high w" for w :: u64
  by (simp add: id_high_def drop_bit_eq_div unat_div)

lemma high_mask: "unat (w AND 0xFFFFFF0000000000) = id_high w * 2 ^ 40" for w :: u64
proof -
  have "(0xFFFFFF0000000000 :: u64) = NOT (mask 40)" by (simp add: mask_eq_exp_minus_1)
  then have "w AND 0xFFFFFF0000000000 = w AND NOT (mask 40)" by (simp only:)
  also have "\<dots> = push_bit 40 (drop_bit 40 w)" by (rule bit_word_eqI) (auto simp: bit_simps)
  finally have "w AND 0xFFFFFF0000000000 = push_bit 40 (drop_bit 40 w)" .
  then have "unat (w AND 0xFFFFFF0000000000) = take_bit 64 (push_bit 40 (id_high w))"
    by (simp add: unsigned_push_bit_eq high_shift)
  also have "\<dots> = id_high w * 2 ^ 40"
    using high_bound [of w] by (simp add: push_bit_eq_mult take_bit_eq_mod)
  finally show ?thesis .
qed

lemma id_split: "unat w = id_high w * 2 ^ 40 + id_low w"
  by (simp add: id_high_def id_low_def div_mult_mod_eq)

text \<open>The next id stays in the group, and the counter goes round.\<close>

lemma next_parts:
  "id_high (next_tran_id cur) = id_high cur" "id_low (next_tran_id cur) = (id_low cur + 1) mod 2 ^ 40"
proof -
  have lo: "id_low cur < 2 ^ 40" by (simp add: id_low_def)
  have "id_high (next_tran_id cur) = id_high cur \<and> id_low (next_tran_id cur) = (id_low cur + 1) mod 2 ^ 40"
  proof (cases "cur AND 0xFFFFFFFFFF = 0xFFFFFFFFFF")
    case True
    then have "id_low cur = 2 ^ 40 - 1" using low_mask [of cur] by simp
    moreover have "unat (next_tran_id cur) = id_high cur * 2 ^ 40" using True high_mask by (simp add: next_tran_id_def)
    ultimately show ?thesis unfolding id_high_def [of "next_tran_id cur"] id_low_def [of "next_tran_id cur"] by simp
  next
    case False
    have "id_low cur \<noteq> 2 ^ 40 - 1"
    proof
      assume "id_low cur = 2 ^ 40 - 1"
      then have "unat (cur AND 0xFFFFFFFFFF) = unat (0xFFFFFFFFFF :: u64)" using low_mask [of cur] by simp
      then show False using False word_unat_eq_iff by blast
    qed
    then have l: "id_low cur + 1 < 2 ^ 40" using lo by simp
    have "unat cur + 1 < 2 ^ 64" using id_split [of cur] high_bound [of cur] l by simp
    then have "unat (cur + 1) = id_high cur * 2 ^ 40 + (id_low cur + 1)" using id_split [of cur] by (simp add: unat_word_ariths)
    then show ?thesis using False l unfolding id_high_def [of "next_tran_id cur"] id_low_def [of "next_tran_id cur"]
      by (simp add: next_tran_id_def)
  qed
  then show "id_high (next_tran_id cur) = id_high cur" "id_low (next_tran_id cur) = (id_low cur + 1) mod 2 ^ 40" by blast+
qed

section \<open>Ids do not repeat\<close>

lemma take_tran_id_groups:
  assumes "take_tran_id sid groups = (tid, groups')" "groups \<noteq> []"
  shows "tid = groups ! (unat sid mod length groups)" "groups' = groups[unat sid mod length groups := next_tran_id tid]"
    "map id_high groups' = map id_high groups" "unat sid mod length groups < length groups"
proof -
  show e: "tid = groups ! (unat sid mod length groups)" "groups' = groups[unat sid mod length groups := next_tran_id tid]"
    using assms(1) by (auto simp: take_tran_id_def Let_def)
  show "unat sid mod length groups < length groups" using assms(2) by simp
  then show "map id_high groups' = map id_high groups" unfolding e by (simp add: map_update next_parts(1) list_update_same_conv)
qed

lemma tran_ids_spec:
  assumes "groups \<noteq> []" "distinct (map id_high groups)" "\<forall>w \<in> set groups. id_low w + length sids \<le> 2 ^ 40"
  shows "distinct (tran_ids groups sids) \<and>
    (\<forall>x \<in> set (tran_ids groups sids). \<exists>w \<in> set groups. id_high x = id_high w \<and> id_low w \<le> id_low x)"
  using assms
proof (induction sids arbitrary: groups)
  case (Cons sid sids)
  obtain tid groups' where t: "take_tran_id sid groups = (tid, groups')" by fastforce
  let ?g = "unat sid mod length groups"
  note tk = take_tran_id_groups [OF t Cons.prems(1)]
  have tid: "tid \<in> set groups" using tk(1,4) by simp
  have low: "id_low (next_tran_id tid) = id_low tid + 1" if "sids \<noteq> []"
    using Cons.prems(3) tid that by (cases sids) (auto simp: next_parts(2))
  have sub: "w \<in> set groups' \<Longrightarrow> w = next_tran_id tid \<or> w \<in> set groups" for w
    using set_update_subset_insert [of groups ?g "next_tran_id tid"] tk(2) by auto
  have bound: "\<forall>w \<in> set groups'. id_low w + length sids \<le> 2 ^ 40"
  proof
    fix w assume "w \<in> set groups'"
    then consider "w = next_tran_id tid" "sids \<noteq> []" | "sids = []" | "w \<in> set groups" using sub by blast
    then show "id_low w + length sids \<le> 2 ^ 40"
    proof cases
      case 1
      then show ?thesis using low Cons.prems(3) tid by fastforce
    next
      case 2
      then show ?thesis by (simp add: id_low_def less_imp_le)
    next
      case 3
      then show ?thesis using Cons.prems(3) by fastforce
    qed
  qed
  have ne: "groups' \<noteq> []" using tk(2) Cons.prems(1) by simp
  note ih = Cons.IH [OF ne _ bound, unfolded tk(3), OF Cons.prems(2)]
  have later: "\<exists>w \<in> set groups. id_high x = id_high w \<and> id_low w \<le> id_low x \<and> x \<noteq> tid" if x: "x \<in> set (tran_ids groups' sids)" for x
  proof -
    have s: "sids \<noteq> []" using x by auto
    obtain w where w: "w \<in> set groups'" "id_high x = id_high w" "id_low w \<le> id_low x" using ih x by blast
    show ?thesis
    proof (cases "id_high x = id_high tid")
      case True
      obtain i where i: "i < length groups'" "w = groups' ! i" using w(1) by (metis in_set_conv_nth)
      have "id_high (groups ! i) = id_high w" using i tk(2,3) by (metis length_list_update nth_map)
      then have "id_high (groups ! i) = id_high (groups ! ?g)" using True w(2) tk(1) by simp
      then have "i = ?g" using Cons.prems(2) i(1) tk(2,4) by (auto simp: distinct_conv_nth)
      then have "id_low x > id_low tid" using w(3) i tk(2,4) low [OF s] by simp
      then show ?thesis using True tid by force
    next
      case False
      then have "w \<in> set groups" using sub w(1,2) next_parts(1) by metis
      then show ?thesis using False w(2,3) by auto
    qed
  qed
  show ?case using t ih later tid by auto
qed simp_all

lemma first_ids:
  assumes "g < 256" "unat r < 16"
  shows "unat (SessionGroup_currTranId (of_nat g) 0 r) = (unat r * 256 + g) * 2 ^ 40"
proof -
  have g: "unat (ucast (of_nat g :: u16) :: u64) = g" using assms(1) by (simp add: unsigned_ucast_eq take_bit_nat_eq_self unat_of_nat)
  have r: "unat (ucast r :: u64) = unat r" using assms(2) by (simp add: unsigned_ucast_eq take_bit_nat_eq_self)
  have "unat (push_bit 40 (ucast (of_nat g :: u16)) :: u64) = g * 2 ^ 40" "unat (push_bit 48 (ucast r) :: u64) = unat r * 2 ^ 48"
    using assms by (simp_all only: unsigned_push_bit_eq g r) (simp_all add: push_bit_eq_mult take_bit_eq_mod)
  then show ?thesis using assms by (simp add: SessionGroup_currTranId_def unat_word_ariths)
qed

lemma group_of_id: "unat (GetSessionGroupId w) = id_high w mod 256"
proof -
  have "drop_bit 40 w AND 0xFF = take_bit 8 (drop_bit 40 w)" by (simp add: take_bit_eq_mask mask_eq_exp_minus_1)
  then have "unat (drop_bit 40 w AND 0xFF) = id_high w mod 256"
    by (simp only: unsigned_take_bit_eq high_shift) (simp add: take_bit_eq_mod)
  moreover have "id_high w mod 256 < 2 ^ 16" by (rule less_trans [of _ 256]) simp_all
  ultimately show ?thesis by (simp add: GetSessionGroupId_def unsigned_ucast_eq take_bit_nat_eq_self)
qed

text \<open>
  C27: With at most 256 session groups, no two transactions of one run of the server have the same id, whatever sessions start
  them, up to \<open>2 ^ 40\<close> transactions; and the group read back from the id of a transaction is the group of its session.
\<close>

theorem tran_ids_distinct:
  assumes "0 < groupNum" "groupNum \<le> 256" "length sids \<le> 2 ^ 40"
  shows "distinct (tran_ids (InitPool_groups groupNum restartNum) sids) \<and>
    map GetSessionGroupId (tran_ids (InitPool_groups groupNum restartNum) sids) = map (\<lambda>sid. of_nat (unat sid mod unat groupNum)) sids"
proof -
  let ?r = "restartNum mod 16" and ?gs = "InitPool_groups groupNum restartNum"
  have n: "0 < unat groupNum" "unat groupNum \<le> 256" using assms(1,2) by (simp_all add: word_less_nat_alt word_le_nat_alt)
  have r: "unat ?r < 16" by (simp add: unat_mod)
  have id: "unat (?gs ! g) = (unat ?r * 256 + g) * 2 ^ 40" if "g < unat groupNum" for g
    using first_ids [OF _ r, of g] that n by (simp add: InitPool_groups_def)
  then have hi: "id_high (?gs ! g) = unat ?r * 256 + g" "id_low (?gs ! g) = 0" if "g < unat groupNum" for g
    using that by (simp_all add: id_high_def id_low_def)
  have len: "length ?gs = unat groupNum" by (simp add: InitPool_groups_def)
  have "distinct (map id_high ?gs)" using hi(1) len by (auto simp: distinct_conv_nth)
  moreover have "\<forall>w \<in> set ?gs. id_low w + length sids \<le> 2 ^ 40" using hi(2) len assms(3) by (metis add_0 in_set_conv_nth)
  moreover have "?gs \<noteq> []" using len n by auto
  ultimately have d: "distinct (tran_ids ?gs sids)" using tran_ids_spec by blast
  have "map GetSessionGroupId (tran_ids groups sids) = map (\<lambda>sid. of_nat (unat sid mod unat groupNum)) sids"
    if "map id_high groups = map id_high ?gs" for groups
    using that
  proof (induction sids arbitrary: groups)
    case (Cons sid sids)
    let ?g = "unat sid mod length groups"
    obtain tid groups' where t: "take_tran_id sid groups = (tid, groups')" by fastforce
    have l: "length groups = unat groupNum" using Cons.prems len by (metis length_map)
    note tk = take_tran_id_groups [OF t]
    have ne: "groups \<noteq> []" using l n by auto
    have "id_high (groups ! ?g) = id_high (?gs ! ?g)" using Cons.prems tk(4) [OF ne] by (metis length_map nth_map)
    then have "id_high tid = unat ?r * 256 + ?g" using hi(1) tk(1,4) [OF ne] l by simp
    moreover have "?g < 256" using tk(4) [OF ne] l n(2) by (metis less_le_trans)
    ultimately have "unat (GetSessionGroupId tid) = ?g" unfolding group_of_id by (simp add: mod_mult_self3)
    moreover have "of_nat (unat (GetSessionGroupId tid)) = GetSessionGroupId tid" by simp
    ultimately have "GetSessionGroupId tid = of_nat (unat sid mod unat groupNum)" using l by metis
    then show ?case using Cons.IH [of groups'] Cons.prems tk(3) [OF ne] t by simp
  qed simp
  then show ?thesis using d by blast
qed

theorem tran_ids_distinct_witness:
  "tran_ids (InitPool_groups 2 1) [4, 7, 6] = [0x1000000000000, 0x1010000000000, 0x1000000000001] \<and>
   distinct (tran_ids (InitPool_groups 2 1) [4, 7, 6])"
proof
  show "tran_ids (InitPool_groups 2 1) [4, 7, 6] = [0x1000000000000, 0x1010000000000, 0x1000000000001]" by code_simp
  have "distinct (tran_ids (InitPool_groups 2 1) [4, 7, 6]) \<and>
      map GetSessionGroupId (tran_ids (InitPool_groups 2 1) [4, 7, 6]) = map (\<lambda>sid. of_nat (unat sid mod unat (2 :: u16))) [4, 7, 6 :: u32]"
    by (rule tran_ids_distinct) simp_all
  then show "distinct (tran_ids (InitPool_groups 2 1) [4, 7, 6])" by blast
qed

text \<open>
  The comments give the group 10 bits and the restarts 2; the code gives them 8 and 4. Of more than 256 groups, group 256 has the ids of
  group 0 after the next restart, and its answers are sent to group 0.
\<close>

lemma too_many_groups: "SessionGroup_currTranId 256 0 3 = SessionGroup_currTranId 0 0 4"
  by (simp add: SessionGroup_currTranId_def)

lemma too_many_groups_answer: "GetSessionGroupId (SessionGroup_currTranId 256 0 0) = 0" "AddAction_group (SessionGroup_currTranId 256 0 0) 512 = Some 0"
  by (simp_all add: GetSessionGroupId_def SessionGroup_currTranId_def AddAction_group_def)

end
