(* ===== verification/Session_Exec.thy ===== *)
theory Session_Exec
  imports Tran_Ids Leaf_Lock "HOL-Library.Monad_Syntax"
begin

text \<open>
  Sessions and their transactions: \<open>Transaction\<close> (\<open>serv/Transaction.h\<close>, \<open>serv/Transaction.cpp\<close>), \<open>Session::Exec\<close>
  (\<open>serv/Session.cpp\<close>), \<open>Commit\<close>, \<open>Rollback\<close> and \<open>AddLeafRecord\<close> of \<open>Statement\<close> (\<open>statement/Statement.cpp\<close>), the statement
  \<open>BEGIN\<close>, \<open>COMMIT\<close> and \<open>ROLLBACK\<close> (\<open>StmtTransaction\<close> of \<open>statement/DdlStatement.cpp\<close>), in the build with a binary log. The other classes
  of statements are behind the contracts \<open>statement_class\<close> and \<open>logged_class\<close>; \<open>Stmt_Classes\<close> provides them. Statements and leaf records are objects in a store; \<open>None\<close> is a failed assertion or the use of an object that is gone.
\<close>

section \<open>Objects\<close>

datatype StmtStatus = ST_Created | ST_Executing | ST_Executed | ST_Logging | ST_Logged | ST_Finished
datatype ActionStatus = AS_INIT | AS_INTERVAL | AS_SUCEED | AS_FAILED
datatype TranStatus = TS_INIT | TS_IN_TRAN | TS_AUTO_TRAN | TS_FINISHED
datatype IsoLevel = ReadUncommited | ReadCommited | RepeatableRead | Serializable
datatype CcProtocol = CC_OCC | CC_OccRead | CC_Locking
datatype TranAction = TRAN_BEGIN | TRAN_COMMIT | TRAN_ROLLBACK

text \<open>
  \<open>sm_action\<close> tells a \<open>StmtTransaction\<close> from other statements. \<open>sm_lstRecord\<close>: the rows of an insert, with what became of the action and
  the number of leaf records made for the row; \<open>sm_lstStmtRec\<close>: the rows found in a secondary index, with the records that their actions
  have made in the primary index. The last four fields are those of \<open>_stmtResult\<close>; of the result set only the number of rows is kept.
\<close>

record Statement =
  sm_action :: "TranAction option"
  sm_sole :: bool
  sm_readonly :: bool
  sm_status :: StmtStatus
  sm_failed :: bool
  sm_txid :: u64
  sm_lstWaitRecord :: "nat list"
  sm_lstFinishRecord :: "nat list"
  sm_lstRecord :: "(ActionStatus \<times> u32) list"
  sm_cntLeafRec :: u32
  sm_recordNum :: u32
  sm_lstStmtRec :: "(ActionStatus \<times> nat list \<times> u32) list"
  sm_totalRecNum :: u32
  sm_bFinished :: bool
  sr_bFailed :: bool
  sr_rowNum :: u64
  sr_finished :: bool
  sr_resultSet :: "u32 option"

record Transaction =
  tr_tid :: u64
  tr_startTime :: u64
  tr_lstStatement :: "nat list"
  tr_tranStatus :: TranStatus
  tr_isoLevel :: IsoLevel
  tr_ccProtocol :: CcProtocol
  tr_bLogged :: bool

record Session =
  ss_id :: u32
  ss_bAutoCommit :: bool
  ss_transaction :: Transaction
  ss_currStatement :: "nat option"
  ss_lstWaittingStmt :: "nat list"

text \<open>
  The session groups, the clock, the stores, the transactions handed to the log, and the statements of the row inserts that are
  queued at the tasks of the primary index.
\<close>

record World =
  wd_groups :: "u64 list"
  wd_time :: u64
  wd_stmts :: "nat \<Rightarrow> Statement option"
  wd_recs :: "nat \<Rightarrow> LeafRecord option"
  wd_log :: "u64 list"
  wd_actions :: "nat list"

definition put_stmt :: "nat \<Rightarrow> Statement \<Rightarrow> World \<Rightarrow> World" where
  "put_stmt r st w = w\<lparr>wd_stmts := (wd_stmts w)(r \<mapsto> st)\<rparr>"

definition put_rec :: "nat \<Rightarrow> LeafRecord \<Rightarrow> World \<Rightarrow> World" where
  "put_rec i lr w = w\<lparr>wd_recs := (wd_recs w)(i \<mapsto> lr)\<rparr>"

fun delete_stmts :: "nat list \<Rightarrow> World \<Rightarrow> World option" where
  "delete_stmts [] w = Some w"
| "delete_stmts (r # rs) w = (if wd_stmts w r = None then None else delete_stmts rs (w\<lparr>wd_stmts := (wd_stmts w)(r := None)\<rparr>))"

section \<open>Transactions\<close>

definition Transaction_new :: Transaction where
  "Transaction_new = \<lparr>tr_tid = 0xFFFFFFFFFFFFFFFF, tr_startTime = 0xFFFFFFFFFFFFFFFF, tr_lstStatement = [], tr_tranStatus = TS_INIT,
     tr_isoLevel = ReadCommited, tr_ccProtocol = CC_OCC, tr_bLogged = False\<rparr>"

definition StartTransaction :: "bool \<Rightarrow> IsoLevel \<Rightarrow> CcProtocol \<Rightarrow> World \<Rightarrow> Session \<Rightarrow> (World \<times> Session) option" where
  "StartTransaction bAuto isoLevel ccProtocol w s =
     (let tr = ss_transaction s in
      if tr_tranStatus tr \<noteq> TS_FINISHED \<and> tr_tranStatus tr \<noteq> TS_INIT then None
      else case take_tran_id (ss_id s) (wd_groups w) of
        (tid, groups) \<Rightarrow>
          Some (w\<lparr>wd_groups := groups\<rparr>,
                s\<lparr>ss_transaction := tr\<lparr>tr_tid := tid, tr_startTime := wd_time w, tr_tranStatus := (if bAuto then TS_AUTO_TRAN else TS_IN_TRAN),
                    tr_isoLevel := isoLevel, tr_ccProtocol := ccProtocol, tr_bLogged := False\<rparr>\<rparr>))"

definition IsOvertime :: "u64 \<Rightarrow> u64 \<Rightarrow> u64 \<Rightarrow> Transaction \<Rightarrow> bool option" where
  "IsOvertime autoTranOvertime multiTranOvertime time tr =
     (if tr_tranStatus tr = TS_AUTO_TRAN then Some (time - tr_startTime tr > autoTranOvertime)
      else if tr_tranStatus tr = TS_IN_TRAN then Some (time - tr_startTime tr > multiTranOvertime)
      else None)"

definition IsAutoCommit :: "Transaction \<Rightarrow> bool option" where
  "IsAutoCommit tr =
     (if tr_tranStatus tr = TS_AUTO_TRAN \<or> tr_tranStatus tr = TS_IN_TRAN then Some (tr_tranStatus tr = TS_AUTO_TRAN) else None)"

definition Transaction_IsEmpty :: "Transaction \<Rightarrow> bool" where
  "Transaction_IsEmpty tr \<longleftrightarrow> tr_lstStatement tr = [] \<and> (tr_tranStatus tr = TS_INIT \<or> tr_tranStatus tr = TS_FINISHED)"

definition CloseTransaction :: "World \<Rightarrow> Session \<Rightarrow> (World \<times> Session) option" where
  "CloseTransaction w s =
     map_option (\<lambda>w. (w, s\<lparr>ss_transaction := (ss_transaction s)\<lparr>tr_tranStatus := TS_FINISHED, tr_lstStatement := []\<rparr>\<rparr>))
       (delete_stmts (tr_lstStatement (ss_transaction s)) w)"

fun need_log :: "(nat \<Rightarrow> Statement option) \<Rightarrow> nat list \<Rightarrow> bool option" where
  "need_log stmts [] = Some False"
| "need_log stmts (r # rs) =
     (case stmts r of
        None \<Rightarrow> None
      | Some st \<Rightarrow> if \<not> sm_readonly st \<and> sm_lstFinishRecord st \<noteq> [] then Some True else need_log stmts rs)"

definition IsNeedLog :: "World \<Rightarrow> Transaction \<Rightarrow> bool option" where
  "IsNeedLog w tr = need_log (wd_stmts w) (tr_lstStatement tr)"

definition LogTask_AddTransaction :: "Transaction \<Rightarrow> World \<Rightarrow> World" where
  "LogTask_AddTransaction tr w = w\<lparr>wd_log := wd_log w @ [tr_tid tr]\<rparr>"

section \<open>Statements\<close>

definition the_lock :: "World \<Rightarrow> nat \<Rightarrow> RecordLock option" where
  "the_lock w i = Option.bind (wd_recs w i) lr_recLock"

definition AddLeafRecord :: "nat \<Rightarrow> World \<Rightarrow> Statement \<Rightarrow> Statement option" where
  "AddLeafRecord i w st = do {
     l \<leftarrow> the_lock w i;
     if rl_recResult l = RR_INIT then Some (st\<lparr>sm_lstWaitRecord := sm_lstWaitRecord st @ [i]\<rparr>)
     else Some (st\<lparr>sm_lstFinishRecord := sm_lstFinishRecord st @ [i], sm_failed := sm_failed st \<or> rl_recResult l = RR_ERROR\<rparr>)
   }"

fun AddLeafRecords :: "nat list \<Rightarrow> World \<Rightarrow> Statement \<Rightarrow> Statement option" where
  "AddLeafRecords [] w st = Some st"
| "AddLeafRecords (i # is) w st = Option.bind (AddLeafRecord i w st) (AddLeafRecords is w)"

definition as_stmt :: "nat \<Rightarrow> Statement \<Rightarrow> Stmt" where
  "as_stmt r st = \<lparr>st_ref = r, st_txId = sm_txid st\<rparr>"

text \<open>\<open>Commit\<close> and \<open>Rollback\<close> differ in the status that records without a read lock get.\<close>

fun submit_records :: "RecordStatus \<Rightarrow> Stmt \<Rightarrow> nat list \<Rightarrow> World \<Rightarrow> World option" where
  "submit_records sts stmt [] w = Some w"
| "submit_records sts stmt (i # is) w = do {
     lr \<leftarrow> wd_recs w i;
     l \<leftarrow> lr_recLock lr;
     lr' \<leftarrow> SubmitStatement lr stmt (if \<not> masked (rl_actType l) READ_LOCK_MASK then sts else FREEED);
     submit_records sts stmt is (put_rec i lr' w)
   }"

definition Statement_Commit :: "nat \<Rightarrow> World \<Rightarrow> World option" where
  "Statement_Commit r w = do {
     st \<leftarrow> wd_stmts w r;
     if sm_failed st then None else submit_records COMMITED (as_stmt r st) (sm_lstFinishRecord st) w
   }"

definition Statement_Rollback :: "nat \<Rightarrow> World \<Rightarrow> World option" where
  "Statement_Rollback r w = do {
     st \<leftarrow> wd_stmts w r;
     submit_records ROLLBACKED (as_stmt r st) (sm_lstFinishRecord st) w
   }"

fun commit_all :: "nat list \<Rightarrow> World \<Rightarrow> World option" where
  "commit_all [] w = Some w"
| "commit_all (r # rs) w = do {
     st \<leftarrow> wd_stmts w r;
     w \<leftarrow> (if sm_failed st then Statement_Rollback r w else Statement_Commit r w);
     commit_all rs w
   }"

fun rollback_all :: "nat list \<Rightarrow> World \<Rightarrow> World option" where
  "rollback_all [] w = Some w"
| "rollback_all (r # rs) w = do { w \<leftarrow> Statement_Rollback r w; rollback_all rs w }"

definition finish_tran_stmt :: "nat \<Rightarrow> StmtStatus \<Rightarrow> World \<Rightarrow> Session \<Rightarrow> (StmtStatus \<times> World \<times> Session) option" where
  "finish_tran_stmt r status w s = do {
     st \<leftarrow> wd_stmts w r;
     (w, s) \<leftarrow> CloseTransaction (put_stmt r (st\<lparr>sm_status := status, sr_finished := True\<rparr>) w) s;
     Some (status, w, s)
   }"

text \<open>The part of \<open>COMMIT\<close> before the records are committed: the status, and whether it goes on.\<close>

definition commit_logged :: "nat \<Rightarrow> World \<Rightarrow> Session \<Rightarrow> (StmtStatus \<times> bool \<times> World) option" where
  "commit_logged r w s = do {
     st \<leftarrow> wd_stmts w r;
     if sm_status st = ST_Created then do {
       b \<leftarrow> IsNeedLog w (ss_transaction s);
       if b then Some (ST_Logging, False, LogTask_AddTransaction (ss_transaction s) (put_stmt r (st\<lparr>sm_status := ST_Logging\<rparr>) w))
       else Some (ST_Finished, True, w)
     }
     else if sm_status st = ST_Logging then
       if tr_bLogged (ss_transaction s) then Some (ST_Finished, True, w) else Some (ST_Logging, False, w)
     else Some (sm_status st, True, w)
   }"

definition StmtTransaction_SessionExec :: "TranAction \<Rightarrow> nat \<Rightarrow> World \<Rightarrow> Session \<Rightarrow> (StmtStatus \<times> World \<times> Session) option" where
  "StmtTransaction_SessionExec action r w s =
     (case action of
        TRAN_BEGIN \<Rightarrow> do {
          st \<leftarrow> wd_stmts w r;
          if sm_status st \<noteq> ST_Created then None
          else do {
            (w, s) \<leftarrow> StartTransaction False ReadCommited CC_OCC w s;
            Some (ST_Finished, put_stmt r (st\<lparr>sr_rowNum := 0, sr_finished := True, sm_status := ST_Finished\<rparr>) w, s)
          }
        }
      | TRAN_COMMIT \<Rightarrow> do {
          (status, go, w) \<leftarrow> commit_logged r w s;
          if \<not> go then Some (status, w, s)
          else do {
            w \<leftarrow> commit_all (tr_lstStatement (ss_transaction s)) w;
            finish_tran_stmt r status w s
          }
        }
      | TRAN_ROLLBACK \<Rightarrow> do {
          w \<leftarrow> rollback_all (tr_lstStatement (ss_transaction s)) w;
          finish_tran_stmt r ST_Finished w s
        })"

section \<open>Sessions\<close>

definition Session_new :: "u32 \<Rightarrow> Session" where
  "Session_new sid = \<lparr>ss_id = sid, ss_bAutoCommit = True, ss_transaction = Transaction_new, ss_currStatement = None, ss_lstWaittingStmt = []\<rparr>"

definition Session_IsEmpty :: "Session \<Rightarrow> bool" where
  "Session_IsEmpty s \<longleftrightarrow> ss_currStatement s = None \<and> ss_lstWaittingStmt s = [] \<and> Transaction_IsEmpty (ss_transaction s)"

definition FailWithUnfinishedTran :: "Statement \<Rightarrow> Statement" where
  "FailWithUnfinishedTran st =
     st\<lparr>sm_failed := True, sr_bFailed := True, sr_rowNum := 0, sr_finished := True, sm_status := ST_Finished\<rparr>"

text \<open>The virtual \<open>SessionExec\<close>: \<open>run\<close> for the statements that are no \<open>StmtTransaction\<close>. These do not change the session.\<close>

definition SessionExec ::
    "(nat \<Rightarrow> World \<Rightarrow> Session \<Rightarrow> (StmtStatus \<times> World) option) \<Rightarrow> nat \<Rightarrow> World \<Rightarrow> Session \<Rightarrow> (StmtStatus \<times> World \<times> Session) option" where
  "SessionExec run r w s = do {
     st \<leftarrow> wd_stmts w r;
     case sm_action st of
       Some action \<Rightarrow> StmtTransaction_SessionExec action r w s
     | None \<Rightarrow> map_option (\<lambda>(status, w). (status, w, s)) (run r w s)
   }"

text \<open>The last part of \<open>Exec\<close>, on the current statement.\<close>

definition exec_current :: "(nat \<Rightarrow> World \<Rightarrow> Session \<Rightarrow> (StmtStatus \<times> World) option) \<Rightarrow> nat \<Rightarrow> World \<Rightarrow> Session \<Rightarrow> (World \<times> Session) option" where
  "exec_current run r w s = do {
     (status, w, s) \<leftarrow> SessionExec run r w s;
     if status = ST_Finished then map_option (\<lambda>(w, s). (w, s\<lparr>ss_currStatement := None\<rparr>)) (CloseTransaction w s)
     else if status = ST_Executed then
       (case IsAutoCommit (ss_transaction s) of Some False \<Rightarrow> Some (w, s\<lparr>ss_currStatement := None\<rparr>) | _ \<Rightarrow> None)
     else Some (w, s)
   }"

definition Session_Exec :: "(nat \<Rightarrow> World \<Rightarrow> Session \<Rightarrow> (StmtStatus \<times> World) option) \<Rightarrow> World \<Rightarrow> Session \<Rightarrow> (World \<times> Session) option" where
  "Session_Exec run w s =
     (case ss_currStatement s of
        Some r \<Rightarrow> exec_current run r w s
      | None \<Rightarrow>
          (case ss_lstWaittingStmt s of
             [] \<Rightarrow> Some (w, s)
           | r # rs \<Rightarrow> do {
               st \<leftarrow> wd_stmts w r;
               let ts = tr_tranStatus (ss_transaction s);
               if ts = TS_AUTO_TRAN then None
               else
                 let s = s\<lparr>ss_currStatement := Some r, ss_lstWaittingStmt := rs\<rparr> in
                 if sm_sole st \<and> ts = TS_IN_TRAN then
                   map_option (\<lambda>w. (w, s\<lparr>ss_currStatement := None\<rparr>)) (delete_stmts [r] (put_stmt r (FailWithUnfinishedTran st) w))
                 else if sm_action st \<noteq> None then do {
                   (status, w, s) \<leftarrow> SessionExec run r w s;
                   if status = ST_Finished then map_option (\<lambda>w. (w, s\<lparr>ss_currStatement := None\<rparr>)) (delete_stmts [r] w)
                   else Some (w, s)
                 }
                 else do {
                   (w, s) \<leftarrow> (if ts = TS_FINISHED \<or> ts = TS_INIT
                               then StartTransaction (sm_sole st \<or> ss_bAutoCommit s) ReadCommited CC_OCC w s else Some (w, s));
                   let tr = ss_transaction s;
                   exec_current run r (put_stmt r (st\<lparr>sm_txid := tr_tid tr\<rparr>) w) (s\<lparr>ss_transaction := tr\<lparr>tr_lstStatement := tr_lstStatement tr @ [r]\<rparr>\<rparr>)
                 }
             }))"

section \<open>The contract of a statement class\<close>

text \<open>
  What a session relies on: a statement that is executed stays, no other one changes, and it reports \<open>Executed\<close> only in a
  transaction that is committed by the client.
\<close>

locale statement_class =
  fixes run :: "nat \<Rightarrow> World \<Rightarrow> Session \<Rightarrow> (StmtStatus \<times> World) option"
  assumes others: "run r w s = Some (status, w') \<Longrightarrow> r' \<noteq> r \<Longrightarrow> wd_stmts w' r' = wd_stmts w r'"
    and stays: "run r w s = Some (status, w') \<Longrightarrow> wd_stmts w r = Some st \<Longrightarrow> sm_action st = None \<Longrightarrow> sm_status st \<noteq> ST_Executed \<Longrightarrow>
      \<exists>st'. wd_stmts w' r = Some st' \<and> sm_action st' = None \<and>
        (status \<noteq> ST_Executed \<longrightarrow> status \<noteq> ST_Finished \<longrightarrow> sm_status st' \<noteq> ST_Executed)"
    and executed: "run r w s = Some (ST_Executed, w') \<Longrightarrow> wd_stmts w r = Some st \<Longrightarrow> sm_status st \<noteq> ST_Executed \<Longrightarrow>
      tr_tranStatus (ss_transaction s) \<noteq> TS_AUTO_TRAN"

text \<open>
  The invariant of a session. \<open>L\<close> are the statements of the transaction, \<open>W\<close> those that wait. A transaction that is not running has no
  statements; an automatic one has exactly the current statement; the current statement is one of the transaction, or a \<open>COMMIT\<close> that
  waits for the log.
\<close>

definition current_ok :: "World \<Rightarrow> TranStatus \<Rightarrow> nat list \<Rightarrow> nat list \<Rightarrow> nat option \<Rightarrow> bool" where
  "current_ok w ts L W cur =
     (case cur of
        None \<Rightarrow> ts \<noteq> TS_AUTO_TRAN
      | Some c \<Rightarrow>
          (case wd_stmts w c of
             None \<Rightarrow> False
           | Some st \<Rightarrow>
               if sm_action st = None then c \<in> set L \<and> sm_status st \<noteq> ST_Executed \<and> (ts = TS_AUTO_TRAN \<and> L = [c] \<or> ts = TS_IN_TRAN)
               else sm_action st = Some TRAN_COMMIT \<and> sm_status st = ST_Logging \<and> ts = TS_IN_TRAN \<and> c \<notin> set L \<and> c \<notin> set W))"

definition session_inv :: "World \<Rightarrow> Session \<Rightarrow> bool" where
  "session_inv w s \<longleftrightarrow>
     (let ts = tr_tranStatus (ss_transaction s); L = tr_lstStatement (ss_transaction s); W = ss_lstWaittingStmt s in
      distinct (L @ W) \<and> (\<forall>r \<in> set L. wd_stmts w r \<noteq> None) \<and>
      (\<forall>r \<in> set W. \<exists>st. wd_stmts w r = Some st \<and> sm_status st = ST_Created) \<and>
      (ts = TS_INIT \<or> ts = TS_FINISHED \<longrightarrow> L = []) \<and> current_ok w ts L W (ss_currStatement s))"

lemma delete_stmts_some:
  "distinct rs \<Longrightarrow> \<forall>r \<in> set rs. wd_stmts w r \<noteq> None \<Longrightarrow>
   delete_stmts rs w = Some (w\<lparr>wd_stmts := (\<lambda>r. if r \<in> set rs then None else wd_stmts w r)\<rparr>)"
proof (induction rs arbitrary: w)
  case (Cons r rs)
  let ?w = "w\<lparr>wd_stmts := (wd_stmts w)(r := None)\<rparr>"
  have "delete_stmts rs ?w = Some (?w\<lparr>wd_stmts := (\<lambda>x. if x \<in> set rs then None else wd_stmts ?w x)\<rparr>)"
    using Cons.prems by (intro Cons.IH) auto
  then show ?case using Cons.prems by (auto simp: fun_eq_iff)
qed simp

lemma submit_records_stmts: "submit_records sts stmt is w = Some w' \<Longrightarrow> wd_stmts w' = wd_stmts w"
  by (induction "is" arbitrary: w) (auto simp: put_rec_def split: bind_splits)

lemma commit_all_stmts: "commit_all rs w = Some w' \<Longrightarrow> wd_stmts w' = wd_stmts w"
  by (induction rs arbitrary: w)
    (auto simp: Statement_Commit_def Statement_Rollback_def split: bind_splits if_splits dest!: submit_records_stmts)

lemma rollback_all_stmts: "rollback_all rs w = Some w' \<Longrightarrow> wd_stmts w' = wd_stmts w"
  by (induction rs arbitrary: w) (auto simp: Statement_Rollback_def split: bind_splits dest!: submit_records_stmts)

section \<open>A session keeps its invariant\<close>

context statement_class
begin

text \<open>Closing a transaction deletes its statements; those that wait stay.\<close>

lemma close_inv:
  assumes "CloseTransaction w s = Some (w', s')" "distinct (tr_lstStatement (ss_transaction s) @ ss_lstWaittingStmt s)"
    and "\<forall>r \<in> set (tr_lstStatement (ss_transaction s)). wd_stmts w r \<noteq> None"
    and "\<forall>r \<in> set (ss_lstWaittingStmt s). \<exists>st. wd_stmts w r = Some st \<and> sm_status st = ST_Created"
  shows "session_inv w' (s'\<lparr>ss_currStatement := None\<rparr>)"
proof -
  let ?L = "tr_lstStatement (ss_transaction s)"
  have "delete_stmts ?L w = Some (w\<lparr>wd_stmts := (\<lambda>r. if r \<in> set ?L then None else wd_stmts w r)\<rparr>)"
    using assms(2,3) by (intro delete_stmts_some) auto
  then show ?thesis using assms by (auto simp: CloseTransaction_def session_inv_def current_ok_def Let_def)
qed

lemma run_frame:
  assumes "run r w s = Some (status, w')" "wd_stmts w r = Some st" "sm_action st = None" "sm_status st \<noteq> ST_Executed"
  obtains st' where "wd_stmts w' r = Some st'" "sm_action st' = None" "status \<noteq> ST_Executed \<Longrightarrow> status \<noteq> ST_Finished \<Longrightarrow> sm_status st' \<noteq> ST_Executed"
    "\<And>x. x \<noteq> r \<Longrightarrow> wd_stmts w' x = wd_stmts w x" "\<And>x. wd_stmts w x \<noteq> None \<Longrightarrow> wd_stmts w' x \<noteq> None"
  using stays [OF assms] others [OF assms(1)] that by (metis option.distinct(1))

text \<open>The current statement is one of the transaction.\<close>

lemma exec_plain_inv:
  assumes "session_inv w s" "ss_currStatement s = Some c" "wd_stmts w c = Some st" "sm_action st = None" "exec_current run c w s = Some (w', s')"
  shows "session_inv w' s'"
proof -
  let ?tr = "ss_transaction s"
  obtain status w1 where run: "run c w s = Some (status, w1)"
    using assms(3-5) by (auto simp: exec_current_def SessionExec_def split: bind_splits)
  have inv: "distinct (tr_lstStatement ?tr @ ss_lstWaittingStmt s)" "\<forall>r \<in> set (tr_lstStatement ?tr). wd_stmts w r \<noteq> None"
      "\<forall>r \<in> set (ss_lstWaittingStmt s). \<exists>st. wd_stmts w r = Some st \<and> sm_status st = ST_Created" "c \<in> set (tr_lstStatement ?tr)"
      "sm_status st \<noteq> ST_Executed" "tr_tranStatus ?tr = TS_AUTO_TRAN \<and> tr_lstStatement ?tr = [c] \<or> tr_tranStatus ?tr = TS_IN_TRAN"
    using assms(1-4) by (auto simp: session_inv_def current_ok_def Let_def)
  obtain st' where fr: "wd_stmts w1 c = Some st'" "sm_action st' = None" "status \<noteq> ST_Executed \<Longrightarrow> status \<noteq> ST_Finished \<Longrightarrow> sm_status st' \<noteq> ST_Executed"
      "\<And>x. x \<noteq> c \<Longrightarrow> wd_stmts w1 x = wd_stmts w x" "\<And>x. wd_stmts w x \<noteq> None \<Longrightarrow> wd_stmts w1 x \<noteq> None"
    using run_frame [OF run assms(3,4) inv(5)] by blast
  have keep: "\<forall>r \<in> set (tr_lstStatement ?tr). wd_stmts w1 r \<noteq> None"
      "\<forall>r \<in> set (ss_lstWaittingStmt s). \<exists>st. wd_stmts w1 r = Some st \<and> sm_status st = ST_Created"
    using inv(1-4) fr(4,5) by (blast, metis (no_types, lifting) disjoint_iff distinct_append)
  have step: "exec_current run c w s =
      (if status = ST_Finished then map_option (\<lambda>(w, s). (w, s\<lparr>ss_currStatement := None\<rparr>)) (CloseTransaction w1 s)
       else if status = ST_Executed then
         (case IsAutoCommit ?tr of Some False \<Rightarrow> Some (w1, s\<lparr>ss_currStatement := None\<rparr>) | _ \<Rightarrow> None)
       else Some (w1, s))"
    using run assms(3,4) by (simp add: exec_current_def SessionExec_def)
  show ?thesis
  proof (cases "status = ST_Finished")
    case True
    then show ?thesis using assms(5) close_inv [OF _ inv(1) keep] unfolding step by auto
  next
    case False
    show ?thesis
    proof (cases "status = ST_Executed")
      case True
      then have "tr_tranStatus ?tr = TS_IN_TRAN" using executed [of c w s w1 st] run assms(3) inv(5,6) by auto
      then show ?thesis using assms(5) True inv(1) keep unfolding step by (auto simp: session_inv_def current_ok_def IsAutoCommit_def Let_def)
    next
      case other: False
      then show ?thesis using assms(2,5) False inv keep fr unfolding step by (auto simp: session_inv_def current_ok_def Let_def)
    qed
  qed
qed

end

text \<open>
  A \<open>StmtTransaction\<close> ends with a transaction that has no statements (a new one after \<open>BEGIN\<close>), or a \<open>COMMIT\<close> waits for the log.
\<close>

lemma finish_tran_stmt_spec:
  assumes "finish_tran_stmt r status w s = Some (x, w', s')" "distinct (tr_lstStatement (ss_transaction s))" "r \<notin> set (tr_lstStatement (ss_transaction s))"
    and "\<forall>q \<in> set (tr_lstStatement (ss_transaction s)). wd_stmts w q \<noteq> None"
  shows "x = status" "s' = s\<lparr>ss_transaction := (ss_transaction s)\<lparr>tr_tranStatus := TS_FINISHED, tr_lstStatement := []\<rparr>\<rparr>" "wd_stmts w' r \<noteq> None"
    "\<And>q. q \<notin> set (tr_lstStatement (ss_transaction s)) \<Longrightarrow> q \<noteq> r \<Longrightarrow> wd_stmts w' q = wd_stmts w q"
proof -
  let ?L = "tr_lstStatement (ss_transaction s)"
  obtain st where st: "wd_stmts w r = Some st" using assms(1) by (auto simp: finish_tran_stmt_def split: bind_splits)
  let ?w = "put_stmt r (st\<lparr>sm_status := status, sr_finished := True\<rparr>) w"
  have "delete_stmts ?L ?w = Some (?w\<lparr>wd_stmts := (\<lambda>q. if q \<in> set ?L then None else wd_stmts ?w q)\<rparr>)"
    using assms(2,4) by (intro delete_stmts_some) (auto simp: put_stmt_def)
  then have e: "x = status \<and> s' = s\<lparr>ss_transaction := (ss_transaction s)\<lparr>tr_tranStatus := TS_FINISHED, tr_lstStatement := []\<rparr>\<rparr> \<and>
      w' = ?w\<lparr>wd_stmts := (\<lambda>q. if q \<in> set ?L then None else wd_stmts ?w q)\<rparr>"
    using assms(1) st by (auto simp: finish_tran_stmt_def CloseTransaction_def)
  then show "x = status" "s' = s\<lparr>ss_transaction := (ss_transaction s)\<lparr>tr_tranStatus := TS_FINISHED, tr_lstStatement := []\<rparr>\<rparr>" by blast+
  show "wd_stmts w' r \<noteq> None" "\<And>q. q \<notin> set ?L \<Longrightarrow> q \<noteq> r \<Longrightarrow> wd_stmts w' q = wd_stmts w q"
    using e assms(3) by (auto simp: put_stmt_def)
qed

lemma tran_exec:
  assumes "StmtTransaction_SessionExec a r w s = Some (status, w', s')" "wd_stmts w r = Some st"
    and "sm_status st = ST_Created \<or> a = TRAN_COMMIT \<and> sm_status st = ST_Logging \<and> tr_tranStatus (ss_transaction s) = TS_IN_TRAN"
    and "tr_tranStatus (ss_transaction s) \<noteq> TS_AUTO_TRAN"
    and "distinct (tr_lstStatement (ss_transaction s))" "r \<notin> set (tr_lstStatement (ss_transaction s))"
    and "\<forall>q \<in> set (tr_lstStatement (ss_transaction s)). wd_stmts w q \<noteq> None"
    and "tr_tranStatus (ss_transaction s) = TS_INIT \<or> tr_tranStatus (ss_transaction s) = TS_FINISHED \<longrightarrow> tr_lstStatement (ss_transaction s) = []"
  shows "(status = ST_Finished \<and> (\<exists>tr. s' = s\<lparr>ss_transaction := tr\<rparr> \<and> tr_lstStatement tr = [] \<and> tr_tranStatus tr \<noteq> TS_AUTO_TRAN) \<and>
      wd_stmts w' r \<noteq> None \<and> (\<forall>q. q \<notin> set (tr_lstStatement (ss_transaction s)) \<longrightarrow> q \<noteq> r \<longrightarrow> wd_stmts w' q = wd_stmts w q)) \<or>
    (status = ST_Logging \<and> a = TRAN_COMMIT \<and> s' = s \<and> tr_tranStatus (ss_transaction s) = TS_IN_TRAN \<and>
      wd_stmts w' = (wd_stmts w)(r \<mapsto> st\<lparr>sm_status := ST_Logging\<rparr>))"
proof -
  let ?L = "tr_lstStatement (ss_transaction s)"
  show ?thesis
  proof (cases a)
    case TRAN_BEGIN
    then have "tr_tranStatus (ss_transaction s) = TS_INIT \<or> tr_tranStatus (ss_transaction s) = TS_FINISHED"
      using assms(1,2) by (auto simp: StmtTransaction_SessionExec_def StartTransaction_def Let_def split: if_splits bind_splits)
    then show ?thesis using assms(1,2,8) TRAN_BEGIN
      by (auto simp: StmtTransaction_SessionExec_def StartTransaction_def Let_def put_stmt_def split: if_splits bind_splits prod.splits)
  next
    case TRAN_ROLLBACK
    then obtain w1 where w1: "rollback_all ?L w = Some w1" "finish_tran_stmt r ST_Finished w1 s = Some (status, w', s')"
      using assms(1) by (auto simp: StmtTransaction_SessionExec_def split: bind_splits)
    have "wd_stmts w1 = wd_stmts w" using rollback_all_stmts [OF w1(1)] .
    then show ?thesis using finish_tran_stmt_spec [OF w1(2) assms(5,6)] assms(7) by auto
  next
    case TRAN_COMMIT
    obtain x go w0 where c: "commit_logged r w s = Some (x, go, w0)"
      using assms(1) TRAN_COMMIT by (auto simp: StmtTransaction_SessionExec_def split: bind_splits)
    show ?thesis
    proof (cases go)
      case True
      then obtain w1 where w1: "commit_all ?L w0 = Some w1" "finish_tran_stmt r x w1 s = Some (status, w', s')"
        using assms(1) TRAN_COMMIT c by (auto simp: StmtTransaction_SessionExec_def split: bind_splits)
      have x: "x = ST_Finished" "w0 = w" using c True assms(2,3) by (auto simp: commit_logged_def split: if_splits bind_splits)
      have "wd_stmts w1 = wd_stmts w" using commit_all_stmts [OF w1(1)] x by simp
      then show ?thesis using finish_tran_stmt_spec [OF w1(2) assms(5,6)] assms(7) x by auto
    next
      case False
      then have e: "status = x" "w' = w0" "s' = s" using assms(1) TRAN_COMMIT c by (auto simp: StmtTransaction_SessionExec_def)
      have "x = ST_Logging \<and> wd_stmts w0 = (wd_stmts w)(r \<mapsto> st\<lparr>sm_status := ST_Logging\<rparr>)"
      proof (cases "sm_status st = ST_Created")
        case True
        then show ?thesis using c False assms(2) by (auto simp: commit_logged_def put_stmt_def LogTask_AddTransaction_def split: if_splits bind_splits)
      next
        case nc: False
        then have "sm_status st = ST_Logging" "st\<lparr>sm_status := ST_Logging\<rparr> = st" using assms(3) by auto
        then show ?thesis using c False assms(2) by (auto simp: commit_logged_def split: if_splits)
      qed
      moreover have "tr_tranStatus (ss_transaction s) = TS_IN_TRAN"
      proof (cases "sm_status st = ST_Created")
        case True
        then have "?L \<noteq> []" using c False assms(2) by (auto simp: commit_logged_def IsNeedLog_def split: if_splits bind_splits)
        then show ?thesis using assms(4,8) by (cases "tr_tranStatus (ss_transaction s)") auto
      qed (use assms(3) in auto)
      ultimately show ?thesis using e TRAN_COMMIT by auto
    qed
  qed
qed

text \<open>A \<open>COMMIT\<close> that waits for the log goes on.\<close>

lemma exec_commit_inv:
  assumes "session_inv w s" "ss_currStatement s = Some c" "wd_stmts w c = Some st" "sm_action st \<noteq> None" "exec_current run c w s = Some (w', s')"
  shows "session_inv w' s'"
proof -
  let ?tr = "ss_transaction s"
  let ?L = "tr_lstStatement ?tr"
  have inv: "distinct (?L @ ss_lstWaittingStmt s)" "\<forall>r \<in> set ?L. wd_stmts w r \<noteq> None"
      "\<forall>r \<in> set (ss_lstWaittingStmt s). \<exists>st. wd_stmts w r = Some st \<and> sm_status st = ST_Created"
      "sm_action st = Some TRAN_COMMIT" "sm_status st = ST_Logging" "tr_tranStatus ?tr = TS_IN_TRAN" "c \<notin> set ?L" "c \<notin> set (ss_lstWaittingStmt s)"
    using assms(1-4) by (auto simp: session_inv_def current_ok_def Let_def)
  obtain status w1 s1 where ex: "StmtTransaction_SessionExec TRAN_COMMIT c w s = Some (status, w1, s1)" "SessionExec run c w s = Some (status, w1, s1)"
    using assms(3,5) inv(4) by (auto simp: exec_current_def SessionExec_def split: bind_splits)
  have two: "(status = ST_Finished \<and> (\<exists>tr. s1 = s\<lparr>ss_transaction := tr\<rparr> \<and> tr_lstStatement tr = [] \<and> tr_tranStatus tr \<noteq> TS_AUTO_TRAN) \<and>
      wd_stmts w1 c \<noteq> None \<and> (\<forall>q. q \<notin> set ?L \<longrightarrow> q \<noteq> c \<longrightarrow> wd_stmts w1 q = wd_stmts w q)) \<or>
    (status = ST_Logging \<and> s1 = s \<and> wd_stmts w1 = (wd_stmts w)(c \<mapsto> st\<lparr>sm_status := ST_Logging\<rparr>))"
    using tran_exec [OF ex(1) assms(3)] inv by auto
  then consider (closed) tr where "status = ST_Finished" "s1 = s\<lparr>ss_transaction := tr\<rparr>" "tr_lstStatement tr = []"
      "\<And>q. q \<notin> set ?L \<Longrightarrow> q \<noteq> c \<Longrightarrow> wd_stmts w1 q = wd_stmts w q"
    | (wait) "status = ST_Logging" "s1 = s" "wd_stmts w1 = wd_stmts w"
    using assms(3) inv(5) by fastforce
  then show ?thesis
  proof cases
    case closed
    have "\<forall>r \<in> set (ss_lstWaittingStmt s). \<exists>st. wd_stmts w1 r = Some st \<and> sm_status st = ST_Created"
      using inv(1,3,8) closed(4) by (metis (no_types, lifting) disjoint_iff distinct_append)
    then show ?thesis using assms(5) ex(2) closed inv(1)
      by (auto simp: exec_current_def CloseTransaction_def session_inv_def current_ok_def Let_def)
  next
    case wait
    then have "w' = w1" "s' = s" using assms(5) ex(2) by (auto simp: exec_current_def)
    then show ?thesis using assms(1) wait by (auto simp: session_inv_def current_ok_def Let_def split: option.splits)
  qed
qed

text \<open>A session takes its next statement.\<close>

lemma start_plain_inv:
  assumes "session_inv w s" "ss_currStatement s = None" "ss_lstWaittingStmt s = r # rs" "wd_stmts w r = Some st" "sm_action st = None"
    and "(if tr_tranStatus (ss_transaction s) = TS_FINISHED \<or> tr_tranStatus (ss_transaction s) = TS_INIT
      then StartTransaction b ReadCommited CC_OCC w (s\<lparr>ss_currStatement := Some r, ss_lstWaittingStmt := rs\<rparr>)
      else Some (w, s\<lparr>ss_currStatement := Some r, ss_lstWaittingStmt := rs\<rparr>)) = Some (w1, s1)"
  shows "session_inv (put_stmt r (st\<lparr>sm_txid := x\<rparr>) w1)
    (s1\<lparr>ss_transaction := (ss_transaction s1)\<lparr>tr_lstStatement := tr_lstStatement (ss_transaction s1) @ [r]\<rparr>\<rparr>)"
proof -
  let ?tr = "ss_transaction s"
  have inv: "distinct (tr_lstStatement ?tr @ r # rs)" "\<forall>q \<in> set (tr_lstStatement ?tr). wd_stmts w q \<noteq> None" "sm_status st = ST_Created"
      "\<forall>q \<in> set rs. \<exists>st. wd_stmts w q = Some st \<and> sm_status st = ST_Created" "tr_tranStatus ?tr \<noteq> TS_AUTO_TRAN"
      "tr_tranStatus ?tr = TS_INIT \<or> tr_tranStatus ?tr = TS_FINISHED \<longrightarrow> tr_lstStatement ?tr = []"
    using assms(1-4) by (auto simp: session_inv_def current_ok_def Let_def)
  have s1: "wd_stmts w1 = wd_stmts w" "ss_currStatement s1 = Some r" "ss_lstWaittingStmt s1 = rs"
      "tr_lstStatement (ss_transaction s1) = tr_lstStatement ?tr"
      "tr_tranStatus (ss_transaction s1) = TS_IN_TRAN \<or> tr_tranStatus (ss_transaction s1) = TS_AUTO_TRAN \<and> tr_lstStatement ?tr = []"
    using assms(6) inv(5,6) by (cases "tr_tranStatus ?tr"; auto simp: StartTransaction_def Let_def split: prod.splits if_splits)+
  show ?thesis
    using inv(1-4) s1 assms(5) by (auto simp: session_inv_def current_ok_def put_stmt_def Let_def)
qed


context statement_class
begin

text \<open>A session takes its next statement.\<close>

lemma next_stmt_inv:
  assumes "session_inv w s" "ss_currStatement s = None" "ss_lstWaittingStmt s = r # rs" "Session_Exec run w s = Some (w', s')"
  shows "session_inv w' s'"
proof -
  let ?tr = "ss_transaction s"
  let ?ts = "tr_tranStatus ?tr"
  let ?s = "s\<lparr>ss_currStatement := Some r, ss_lstWaittingStmt := rs\<rparr>"
  obtain st where st: "wd_stmts w r = Some st" "sm_status st = ST_Created" using assms(1,3) by (auto simp: session_inv_def Let_def)
  have inv: "distinct (tr_lstStatement ?tr @ r # rs)" "\<forall>q \<in> set (tr_lstStatement ?tr). wd_stmts w q \<noteq> None"
      "\<forall>q \<in> set rs. \<exists>st. wd_stmts w q = Some st \<and> sm_status st = ST_Created" "?ts \<noteq> TS_AUTO_TRAN"
      "?ts = TS_INIT \<or> ?ts = TS_FINISHED \<longrightarrow> tr_lstStatement ?tr = []"
    using assms(1-3) by (auto simp: session_inv_def current_ok_def Let_def)
  show ?thesis
  proof (cases "sm_sole st \<and> ?ts = TS_IN_TRAN")
    case True
    then show ?thesis using assms(2-4) st inv
      by (auto simp: Session_Exec_def Let_def session_inv_def current_ok_def put_stmt_def)
  next
    case nosole: False
    show ?thesis
    proof (cases "sm_action st")
      case None
      let ?start = "if ?ts = TS_FINISHED \<or> ?ts = TS_INIT then StartTransaction (sm_sole st \<or> ss_bAutoCommit ?s) ReadCommited CC_OCC w ?s else Some (w, ?s)"
      obtain w1 s1 where start: "?start = Some (w1, s1)"
        using assms(2-4) st inv(4) nosole None by (auto simp: Session_Exec_def Let_def split: bind_splits)
      let ?w = "put_stmt r (st\<lparr>sm_txid := tr_tid (ss_transaction s1)\<rparr>) w1"
      let ?s1 = "s1\<lparr>ss_transaction := (ss_transaction s1)\<lparr>tr_lstStatement := tr_lstStatement (ss_transaction s1) @ [r]\<rparr>\<rparr>"
      have "exec_current run r ?w ?s1 = Some (w', s')"
        using assms(2-4) st inv(4) nosole None start by (simp add: Session_Exec_def Let_def)
      moreover have "session_inv ?w ?s1" using start_plain_inv [OF assms(1-3) st(1) None start] .
      moreover have "ss_currStatement ?s1 = Some r" using start by (auto simp: StartTransaction_def Let_def split: if_splits prod.splits)
      ultimately show ?thesis using exec_plain_inv None by (fastforce simp: put_stmt_def)
    next
      case (Some a)
      obtain status w1 s1 where ex: "StmtTransaction_SessionExec a r w ?s = Some (status, w1, s1)"
        using assms(2-4) st inv(4) nosole Some by (auto simp: Session_Exec_def SessionExec_def Let_def split: bind_splits)
      have step: "(if status = ST_Finished then map_option (\<lambda>w. (w, s1\<lparr>ss_currStatement := None\<rparr>)) (delete_stmts [r] w1) else Some (w1, s1)) = Some (w', s')"
        using assms(2-4) st inv(4) nosole Some ex by (simp add: Session_Exec_def SessionExec_def Let_def)
      have two: "(status = ST_Finished \<and> (\<exists>tr. s1 = ?s\<lparr>ss_transaction := tr\<rparr> \<and> tr_lstStatement tr = [] \<and> tr_tranStatus tr \<noteq> TS_AUTO_TRAN) \<and>
          wd_stmts w1 r \<noteq> None \<and> (\<forall>q. q \<notin> set (tr_lstStatement ?tr) \<longrightarrow> q \<noteq> r \<longrightarrow> wd_stmts w1 q = wd_stmts w q)) \<or>
        (status = ST_Logging \<and> a = TRAN_COMMIT \<and> s1 = ?s \<and> ?ts = TS_IN_TRAN \<and> wd_stmts w1 = (wd_stmts w)(r \<mapsto> st\<lparr>sm_status := ST_Logging\<rparr>))"
        using tran_exec [OF ex st(1)] st(2) inv by simp
      then show ?thesis
      proof
        assume "status = ST_Finished \<and> (\<exists>tr. s1 = ?s\<lparr>ss_transaction := tr\<rparr> \<and> tr_lstStatement tr = [] \<and> tr_tranStatus tr \<noteq> TS_AUTO_TRAN) \<and>
          wd_stmts w1 r \<noteq> None \<and> (\<forall>q. q \<notin> set (tr_lstStatement ?tr) \<longrightarrow> q \<noteq> r \<longrightarrow> wd_stmts w1 q = wd_stmts w q)"
        moreover from this have "\<forall>q \<in> set rs. \<exists>st. wd_stmts w1 q = Some st \<and> sm_status st = ST_Created"
          using inv(1,3) by (metis (no_types, lifting) disjoint_iff distinct.simps(2) distinct_append list.set_intros(2))
        ultimately show ?thesis using step inv(1) by (auto simp: session_inv_def current_ok_def Let_def)
      next
        assume "status = ST_Logging \<and> a = TRAN_COMMIT \<and> s1 = ?s \<and> ?ts = TS_IN_TRAN \<and> wd_stmts w1 = (wd_stmts w)(r \<mapsto> st\<lparr>sm_status := ST_Logging\<rparr>)"
        then show ?thesis using step inv Some by (auto simp: session_inv_def current_ok_def Let_def)
      qed
    qed
  qed
qed

lemma Session_Exec_inv:
  assumes "session_inv w s" "Session_Exec run w s = Some (w', s')"
  shows "session_inv w' s'"
proof (cases "ss_currStatement s")
  case (Some c)
  then have e: "exec_current run c w s = Some (w', s')" using assms(2) by (simp add: Session_Exec_def)
  obtain st where st: "wd_stmts w c = Some st" using assms(1) Some by (auto simp: session_inv_def current_ok_def Let_def split: option.splits)
  show ?thesis
    using exec_plain_inv [OF assms(1) Some st _ e] exec_commit_inv [OF assms(1) Some st _ e] by (cases "sm_action st = None") auto
next
  case cur: None
  show ?thesis
  proof (cases "ss_lstWaittingStmt s")
    case Nil
    then show ?thesis using assms cur by (simp add: Session_Exec_def)
  next
    case (Cons r rs)
    then show ?thesis using next_stmt_inv [OF assms(1) cur Cons assms(2)] by simp
  qed
qed

end

section \<open>No commit before the log\<close>

definition committed :: "World \<Rightarrow> nat \<Rightarrow> bool" where
  "committed w i \<longleftrightarrow> map_option rl_recStatus (the_lock w i) = Some COMMITED"

lemma committed_update [simp]:
  "committed (put_stmt r st w) = committed w" "committed (LogTask_AddTransaction tr w) = committed w" "committed (w\<lparr>wd_stmts := f\<rparr>) = committed w"
  "committed (w\<lparr>wd_groups := g\<rparr>) = committed w" "committed (w\<lparr>wd_actions := as\<rparr>) = committed w"
  by (simp_all add: fun_eq_iff committed_def the_lock_def put_stmt_def LogTask_AddTransaction_def)

lemma committed_put_rec: "committed (put_rec i lr w) j \<longleftrightarrow> (if j = i then map_option rl_recStatus (lr_recLock lr) = Some COMMITED else committed w j)"
  by (simp add: committed_def the_lock_def put_rec_def)

lemma delete_stmts_committed: "delete_stmts rs w = Some w' \<Longrightarrow> committed w' = committed w"
  by (induction rs arbitrary: w) (auto split: if_splits)

lemma CloseTransaction_committed: "CloseTransaction w s = Some (w', s') \<Longrightarrow> committed w' = committed w"
  by (auto simp: CloseTransaction_def dest: delete_stmts_committed)

lemma SubmitStatement_status:
  assumes "SubmitStatement lr stmt sts = Some lr'" "map_option rl_recStatus (lr_recLock lr') = Some COMMITED"
  shows "sts = COMMITED \<or> map_option rl_recStatus (lr_recLock lr) = Some COMMITED"
  using assms by (auto simp: SubmitStatement_def split: option.splits if_splits)

lemma submit_records_committed:
  "submit_records sts stmt is w = Some w' \<Longrightarrow> committed w' i \<Longrightarrow> committed w i \<or> sts = COMMITED \<and> i \<in> set is"
proof (induction "is" arbitrary: w)
  case (Cons j js)
  then obtain lr lr' x where j: "wd_recs w j = Some lr" "SubmitStatement lr stmt x = Some lr'" "x = sts \<or> x = FREEED"
    and rest: "submit_records sts stmt js (put_rec j lr' w) = Some w'"
    by (auto split: bind_splits if_splits)
  have "committed (put_rec j lr' w) i \<or> sts = COMMITED \<and> i \<in> set js" using Cons.IH [OF rest] Cons.prems by auto
  moreover have "committed w j \<longleftrightarrow> map_option rl_recStatus (lr_recLock lr) = Some COMMITED" using j(1) by (simp add: committed_def the_lock_def)
  ultimately show ?case using j SubmitStatement_status [OF j(2)] by (cases "i = j") (auto simp: committed_put_rec)
qed simp

lemma rollback_all_committed: "rollback_all rs w = Some w' \<Longrightarrow> committed w' i \<Longrightarrow> committed w i"
  by (induction rs arbitrary: w) (auto simp: Statement_Rollback_def split: bind_splits dest!: submit_records_committed)

lemma commit_all_committed:
  "commit_all rs w = Some w' \<Longrightarrow> committed w' i \<Longrightarrow> committed w i \<or> (\<exists>r \<in> set rs. \<exists>st. wd_stmts w r = Some st \<and> i \<in> set (sm_lstFinishRecord st))"
proof (induction rs arbitrary: w)
  case (Cons r rs)
  then obtain st w1 where st: "wd_stmts w r = Some st" and one: "(if sm_failed st then Statement_Rollback r w else Statement_Commit r w) = Some w1"
    and rest: "commit_all rs w1 = Some w'"
    by (auto split: bind_splits)
  have "wd_stmts w1 = wd_stmts w" using one by (auto simp: Statement_Commit_def Statement_Rollback_def split: bind_splits if_splits dest!: submit_records_stmts)
  then have "committed w1 i \<or> (\<exists>r \<in> set rs. \<exists>st. wd_stmts w r = Some st \<and> i \<in> set (sm_lstFinishRecord st))" using Cons.IH [OF rest] Cons.prems by auto
  moreover have "committed w1 i \<Longrightarrow> committed w i \<or> i \<in> set (sm_lstFinishRecord st)"
    using one st by (auto simp: Statement_Commit_def Statement_Rollback_def split: bind_splits if_splits dest!: submit_records_committed)
  ultimately show ?case using st by auto
qed simp

lemma need_log_readonly:
  "need_log stmts rs = Some False \<Longrightarrow> r \<in> set rs \<Longrightarrow> stmts r = Some st \<Longrightarrow> sm_lstFinishRecord st \<noteq> [] \<Longrightarrow> sm_readonly st"
  by (induction rs) (auto split: option.splits if_splits)

text \<open>The records of the statements that only read.\<close>

definition read_only_record :: "World \<Rightarrow> Session \<Rightarrow> nat \<Rightarrow> bool" where
  "read_only_record w s i \<longleftrightarrow>
     (\<exists>r st. r \<in> set (tr_lstStatement (ss_transaction s)) \<and> wd_stmts w r = Some st \<and> sm_readonly st \<and> i \<in> set (sm_lstFinishRecord st))"

lemma finish_tran_stmt_committed: "finish_tran_stmt r x w s = Some (y, w', s') \<Longrightarrow> committed w' = committed w"
  by (auto simp: finish_tran_stmt_def split: bind_splits dest!: CloseTransaction_committed)

lemma tran_committed:
  assumes "StmtTransaction_SessionExec a r w s = Some (status, w', s')" "wd_stmts w r = Some st" "sm_status st = ST_Created \<or> sm_status st = ST_Logging"
    "committed w' i"
  shows "committed w i \<or> tr_bLogged (ss_transaction s) \<or> read_only_record w s i"
proof (cases a)
  case TRAN_BEGIN
  then show ?thesis using assms(1,4)
    by (auto simp: StmtTransaction_SessionExec_def StartTransaction_def Let_def split: if_splits bind_splits prod.splits)
next
  case TRAN_ROLLBACK
  then show ?thesis using assms(1,4) rollback_all_committed
    by (fastforce simp: StmtTransaction_SessionExec_def split: bind_splits dest: finish_tran_stmt_committed)
next
  case TRAN_COMMIT
  obtain x go w0 where c: "commit_logged r w s = Some (x, go, w0)"
    using assms(1) TRAN_COMMIT by (auto simp: StmtTransaction_SessionExec_def split: bind_splits)
  have w0: "committed w0 = committed w" using c by (auto simp: commit_logged_def split: if_splits bind_splits)
  show ?thesis
  proof (cases go)
    case True
    then obtain w1 where w1: "commit_all (tr_lstStatement (ss_transaction s)) w0 = Some w1" "finish_tran_stmt r x w1 s = Some (status, w', s')"
      using assms(1) TRAN_COMMIT c by (auto simp: StmtTransaction_SessionExec_def split: bind_splits)
    have "w0 = w" "IsNeedLog w (ss_transaction s) = Some False \<or> tr_bLogged (ss_transaction s)"
      using c True assms(2,3) by (auto simp: commit_logged_def split: if_splits bind_splits)
    then show ?thesis
      using commit_all_committed [OF w1(1)] finish_tran_stmt_committed [OF w1(2)] assms(4) need_log_readonly
      by (fastforce simp: IsNeedLog_def read_only_record_def)
  next
    case False
    then show ?thesis using assms(1,4) TRAN_COMMIT c w0 by (auto simp: StmtTransaction_SessionExec_def)
  qed
qed

lemma exec_current_run:
  assumes "exec_current run r w s = Some (w', s')"
  shows "\<exists>status w1 s1. SessionExec run r w s = Some (status, w1, s1) \<and> committed w' = committed w1"
proof -
  obtain status w1 s1 where ex: "SessionExec run r w s = Some (status, w1, s1)" using assms by (auto simp: exec_current_def split: bind_splits)
  have "committed w' = committed w1"
    using assms ex by (auto simp: exec_current_def split: if_splits option.splits bool.splits dest: CloseTransaction_committed)
  then show ?thesis using ex by blast
qed

text \<open>A statement class that marks records as committed only in a logged transaction.\<close>

locale logged_class = statement_class +
  assumes logged: "run r w s = Some (status, w') \<Longrightarrow> committed w' i \<Longrightarrow> committed w i \<or> tr_bLogged (ss_transaction s)"

context logged_class
begin

lemma exec_current_committed:
  assumes "exec_current run r w s = Some (w', s')" "wd_stmts w r = Some st" "sm_action st = None \<or> sm_status st = ST_Created \<or> sm_status st = ST_Logging"
    and "committed w' i"
  shows "committed w i \<or> tr_bLogged (ss_transaction s) \<or> read_only_record w s i"
proof -
  obtain status w1 s1 where ex: "SessionExec run r w s = Some (status, w1, s1)" "committed w1 i"
    using exec_current_run [OF assms(1)] assms(4) by auto
  then show ?thesis using ex assms(2,3) tran_committed logged by (cases "sm_action st") (fastforce simp: SessionExec_def)+
qed

lemma Session_Exec_committed:
  assumes "session_inv w s" "Session_Exec run w s = Some (w', s')" "committed w' i"
  shows "committed w i \<or> tr_bLogged (ss_transaction s) \<or> read_only_record w s i"
proof (cases "ss_currStatement s")
  case (Some c)
  then obtain st where "wd_stmts w c = Some st" "sm_action st = None \<or> sm_status st = ST_Logging"
    using assms(1) by (auto simp: session_inv_def current_ok_def Let_def split: option.splits if_splits)
  then show ?thesis using assms(2,3) Some exec_current_committed by (simp add: Session_Exec_def) blast
next
  case cur: None
  show ?thesis
  proof (cases "ss_lstWaittingStmt s")
    case Nil
    then show ?thesis using assms(2,3) cur by (simp add: Session_Exec_def)
  next
    case (Cons r rs)
    then obtain st where st: "wd_stmts w r = Some st" "sm_status st = ST_Created" using assms(1) by (auto simp: session_inv_def Let_def)
    let ?s = "s\<lparr>ss_currStatement := Some r, ss_lstWaittingStmt := rs\<rparr>"
    let ?ts = "tr_tranStatus (ss_transaction s)"
    have auto: "?ts \<noteq> TS_AUTO_TRAN" "?ts = TS_INIT \<or> ?ts = TS_FINISHED \<longrightarrow> tr_lstStatement (ss_transaction s) = []"
      using assms(1) cur by (auto simp: session_inv_def current_ok_def Let_def)
    have ro: "read_only_record w ?s = read_only_record w s" by (simp add: fun_eq_iff read_only_record_def)
    consider (sole) "sm_sole st \<and> ?ts = TS_IN_TRAN" | (tran) a where "\<not> (sm_sole st \<and> ?ts = TS_IN_TRAN)" "sm_action st = Some a"
      | (plain) "\<not> (sm_sole st \<and> ?ts = TS_IN_TRAN)" "sm_action st = None" by (cases "sm_action st") auto
    then show ?thesis
    proof cases
      case sole
      then show ?thesis using assms(2,3) cur Cons st auto(1)
        by (auto simp: Session_Exec_def Let_def put_stmt_def)
    next
      case tran
      obtain status w1 s1 where ex: "StmtTransaction_SessionExec a r w ?s = Some (status, w1, s1)"
        using assms(2) st auto(1) cur Cons tran by (auto simp: Session_Exec_def SessionExec_def Let_def split: bind_splits)
      have "(if status = ST_Finished then map_option (\<lambda>w. (w, s1\<lparr>ss_currStatement := None\<rparr>)) (delete_stmts [r] w1) else Some (w1, s1)) = Some (w', s')"
        using assms(2) st auto(1) cur Cons tran ex by (simp add: Session_Exec_def SessionExec_def Let_def)
      then have "committed w1 i" using assms(3) delete_stmts_committed by (fastforce split: if_splits)
      then show ?thesis using tran_committed [OF ex st(1)] st(2) ro by simp
    next
      case plain
      let ?start = "if ?ts = TS_FINISHED \<or> ?ts = TS_INIT then StartTransaction (sm_sole st \<or> ss_bAutoCommit ?s) ReadCommited CC_OCC w ?s else Some (w, ?s)"
      obtain w1 s1 where start: "?start = Some (w1, s1)"
        using assms(2) st auto(1) cur Cons plain by (auto simp: Session_Exec_def Let_def split: bind_splits)
      let ?w = "put_stmt r (st\<lparr>sm_txid := tr_tid (ss_transaction s1)\<rparr>) w1"
      let ?s1 = "s1\<lparr>ss_transaction := (ss_transaction s1)\<lparr>tr_lstStatement := tr_lstStatement (ss_transaction s1) @ [r]\<rparr>\<rparr>"
      have "exec_current run r ?w ?s1 = Some (w', s')"
        using assms(2) st auto(1) cur Cons plain start by (simp add: Session_Exec_def Let_def)
      then obtain status w2 where run: "run r ?w ?s1 = Some (status, w2)" "committed w2 i"
        using assms(3) plain(2) by (force simp: SessionExec_def put_stmt_def dest!: exec_current_run)
      have "committed ?w i \<or> tr_bLogged (ss_transaction s1)" using logged [OF run] by simp
      moreover have "committed w1 = committed w" "tr_bLogged (ss_transaction s1) \<longrightarrow> tr_bLogged (ss_transaction s)"
        using start by (auto simp: StartTransaction_def Let_def split: if_splits prod.splits)
      ultimately show ?thesis by auto
    qed
  qed
qed

end

section \<open>Where the code goes wrong\<close>

text \<open>A second \<open>BEGIN\<close> in a transaction fails the assertion of \<open>StartTransaction\<close>: a client can stop the server.\<close>

lemma begin_twice_aborts:
  "tr_tranStatus (ss_transaction s) = TS_IN_TRAN \<Longrightarrow> StmtTransaction_SessionExec TRAN_BEGIN r w s = None"
  by (simp add: StmtTransaction_SessionExec_def StartTransaction_def Let_def split: bind_splits)

text \<open>
  A \<open>COMMIT\<close> that has waited for the log and ends is no statement of the transaction: \<open>Exec\<close> forgets it without deleting it.
\<close>

lemma waiting_commit_leaks:
  assumes "session_inv w s" "ss_currStatement s = Some c" "wd_stmts w c = Some st" "sm_action st = Some TRAN_COMMIT"
    and "Session_Exec run w s = Some (w', s')" "ss_currStatement s' = None"
  shows "wd_stmts w' c \<noteq> None \<and> c \<notin> set (tr_lstStatement (ss_transaction s')) \<and> c \<notin> set (ss_lstWaittingStmt s')"
proof -
  let ?L = "tr_lstStatement (ss_transaction s)"
  have inv: "distinct ?L" "\<forall>r \<in> set ?L. wd_stmts w r \<noteq> None" "sm_status st = ST_Logging" "tr_tranStatus (ss_transaction s) = TS_IN_TRAN" "c \<notin> set ?L"
      "c \<notin> set (ss_lstWaittingStmt s)"
    using assms(1-4) by (auto simp: session_inv_def current_ok_def Let_def)
  have e: "exec_current run c w s = Some (w', s')" using assms(2,5) by (simp add: Session_Exec_def)
  then obtain status w1 s1 where ex: "StmtTransaction_SessionExec TRAN_COMMIT c w s = Some (status, w1, s1)" "SessionExec run c w s = Some (status, w1, s1)"
    using assms(3,4) by (auto simp: exec_current_def SessionExec_def split: bind_splits)
  have "status \<noteq> ST_Logging" using tran_exec [OF ex(1) assms(3)] inv assms(2,6) e ex(2) by (auto simp: exec_current_def)
  then have "status = ST_Finished \<and> (\<exists>tr. s1 = s\<lparr>ss_transaction := tr\<rparr> \<and> tr_lstStatement tr = []) \<and> wd_stmts w1 c \<noteq> None"
    using tran_exec [OF ex(1) assms(3)] inv by auto
  then show ?thesis using e ex(2) inv(6) by (auto simp: exec_current_def CloseTransaction_def)
qed

end
