(* ===== verification/Stmt_Classes.thy ===== *)
theory Stmt_Classes
  imports Session_Exec
begin

text \<open>
  \<open>SessionExec\<close> of the statements on rows (\<open>statement/InsertStatement.cpp\<close>, \<open>UpdateStatement.cpp\<close>, \<open>DeleteStatement.cpp\<close>,
  \<open>TableSelectStatement.cpp\<close>): each is a state machine that a session calls until it has ended. The tasks that find and change the
  rows work between the calls; here they are the changes of the lists of a statement and of the records from one call to the next. An update
  asks for the end of its scan after it has looked at its lists; the rows that come in between are an argument of its model. What the
  first call of a statement makes of its text is a parameter: \<open>RowCheck\<close> for an insert, \<open>StartCheck\<close> for the others.
\<close>

section \<open>Records of a statement\<close>

text \<open>\<open>collect_finished\<close>: the waiting records that have an outcome now, and whether one is an error.\<close>

fun collect_finished :: "World \<Rightarrow> nat list \<Rightarrow> (nat list \<times> nat list \<times> bool) option" where
  "collect_finished w [] = Some ([], [], False)"
| "collect_finished w (i # is) = do {
     l \<leftarrow> the_lock w i;
     (wait, fin, err) \<leftarrow> collect_finished w is;
     Some (if rl_recResult l = RR_INIT then (i # wait, fin, err) else (wait, i # fin, err \<or> rl_recResult l = RR_ERROR))
   }"

definition wait_recs :: "World \<Rightarrow> Statement \<Rightarrow> Statement option" where
  "wait_recs w st = do {
     (wait, fin, err) \<leftarrow> collect_finished w (sm_lstWaitRecord st);
     Some (st\<lparr>sm_lstWaitRecord := wait, sm_lstFinishRecord := sm_lstFinishRecord st @ fin, sm_failed := sm_failed st \<or> err\<rparr>)
   }"

text \<open>\<open>lr->GetLock()->_recStatus.store(sts)\<close> for all finished records.\<close>

fun store_status :: "RecordStatus \<Rightarrow> nat list \<Rightarrow> World \<Rightarrow> World option" where
  "store_status sts [] w = Some w"
| "store_status sts (i # is) w = do {
     lr \<leftarrow> wd_recs w i;
     l \<leftarrow> lr_recLock lr;
     store_status sts is (put_rec i (set_lock (Some (RecordLock (rl_actType l) sts (rl_bGapLock l) (rl_recResult l)
       (rl_stmt l) (rl_lstTxid l) (rl_undoRec l) (rl_errMsg l))) lr) w)
   }"

text \<open>The end of an insert, update or delete of \<open>n\<close> rows, before and after the log.\<close>

definition write_done :: "u32 \<Rightarrow> nat \<Rightarrow> Statement \<Rightarrow> World \<Rightarrow> Session \<Rightarrow> (StmtStatus \<times> World) option" where
  "write_done n r st w s =
     (if sm_failed st then do {
        w \<leftarrow> store_status ROLLBACKED (sm_lstFinishRecord st) w;
        Some (ST_Finished, put_stmt r (st\<lparr>sr_bFailed := True, sr_rowNum := 0, sr_finished := True, sm_status := ST_Finished\<rparr>) w)
      }
      else do {
        b \<leftarrow> IsAutoCommit (ss_transaction s);
        if b then Some (ST_Logging, LogTask_AddTransaction (ss_transaction s) (put_stmt r (st\<lparr>sm_status := ST_Logging\<rparr>) w))
        else Some (ST_Executed, put_stmt r (st\<lparr>sr_rowNum := ucast n, sr_finished := True, sm_status := ST_Executed\<rparr>) w)
      })"

definition write_logged :: "u32 \<Rightarrow> nat \<Rightarrow> Statement \<Rightarrow> World \<Rightarrow> (StmtStatus \<times> World) option" where
  "write_logged n r st w = do {
     w \<leftarrow> store_status COMMITED (sm_lstFinishRecord st) w;
     Some (ST_Finished, put_stmt r (st\<lparr>sr_rowNum := ucast n, sr_finished := True, sm_status := ST_Finished\<rparr>) w)
   }"

section \<open>Inserts\<close>

text \<open>The rows whose action is still running, and the number of leaf records that the others made.\<close>

fun finish_rows :: "(ActionStatus \<times> u32) list \<Rightarrow> u32 \<Rightarrow> (ActionStatus \<times> u32) list \<times> u32" where
  "finish_rows [] n = ([], n)"
| "finish_rows ((a, k) # rs) n =
     (if a = AS_INIT then (case finish_rows rs n of (rs', n) \<Rightarrow> ((a, k) # rs', n))
      else finish_rows rs (if a = AS_SUCEED then n + k else n))"

definition Insert_rows :: "Statement \<Rightarrow> Statement" where
  "Insert_rows st =
     (case finish_rows (sm_lstRecord st) (sm_cntLeafRec st) of (rs, n) \<Rightarrow> st\<lparr>sm_lstRecord := rs, sm_cntLeafRec := n\<rparr>)"

text \<open>
  \<open>InitRecord\<close>: each row is evaluated and checked and its insert is queued. \<open>rows\<close> is what the checks of the rows give: a value that
  cannot be computed or stored ends the loop with status \<open>Executed\<close>; a wrong number of parameters or a missing value leaves the status.
  The rows before it stay queued.
\<close>

datatype RowCheck = Row_ok | Row_bad_value | Row_rejected

fun InitRecord :: "RowCheck list \<Rightarrow> nat \<Rightarrow> Statement \<Rightarrow> World \<Rightarrow> bool \<times> Statement \<times> World" where
  "InitRecord [] r st w = (False, st\<lparr>sm_recordNum := of_nat (length (sm_lstRecord st)), sm_status := ST_Executing\<rparr>, w)"
| "InitRecord (b # bs) r st w =
     (case b of
        Row_ok \<Rightarrow> InitRecord bs r (st\<lparr>sm_lstRecord := sm_lstRecord st @ [(AS_INIT, 0)]\<rparr>) (w\<lparr>wd_actions := wd_actions w @ [r]\<rparr>)
      | Row_bad_value \<Rightarrow> (True, st\<lparr>sm_failed := True, sm_status := ST_Executed\<rparr>, w)
      | Row_rejected \<Rightarrow> (True, st\<lparr>sm_failed := True\<rparr>, w))"

definition Insert_SessionExec :: "RowCheck list \<Rightarrow> nat \<Rightarrow> World \<Rightarrow> Session \<Rightarrow> (StmtStatus \<times> World) option" where
  "Insert_SessionExec rows r w s = do {
     st \<leftarrow> wd_stmts w r;
     if sm_status st = ST_Created then
       (case InitRecord rows r st w of (b, st, w) \<Rightarrow> Some (if b then ST_Finished else sm_status st, put_stmt r st w))
     else if sm_status st = ST_Executing then
       let st = (if sm_lstRecord st \<noteq> [] then Insert_rows st else st) in
       if sm_lstRecord st \<noteq> [] then Some (ST_Executing, put_stmt r st w)
       else do {
         st \<leftarrow> (if sm_lstWaitRecord st \<noteq> [] then wait_recs w st else Some st);
         if length (sm_lstFinishRecord st) < unat (sm_cntLeafRec st) then Some (ST_Executing, put_stmt r st w)
         else write_done (sm_recordNum st) r st w s
       }
     else if sm_status st = ST_Logging \<and> tr_bLogged (ss_transaction s) then write_logged (sm_recordNum st) r st w
     else Some (sm_status st, w)
   }"

section \<open>Updates, deletes and queries\<close>

text \<open>
  What the first call finds: a wrong number of parameters, a value of a point condition that cannot be computed or stored, or none of these;
  then the key ranges are computed and the scan is handed to the tasks of the index. A query has a result set from then on; it reports
  the end only for a wrong number of parameters, the others do not report it at all.
\<close>

datatype StartCheck = Start_ok | Start_parameters | Start_error

definition query_start :: "StartCheck \<Rightarrow> bool \<Rightarrow> nat \<Rightarrow> Statement \<Rightarrow> World \<Rightarrow> StmtStatus \<times> World" where
  "query_start chk bSelect r st w =
     (let failed = \<lambda>st. (ST_Finished, put_stmt r (st\<lparr>sr_rowNum := 0, sm_failed := True, sm_bFinished := True\<rparr>) w);
          opened = (if bSelect then st\<lparr>sr_resultSet := Some 0\<rparr> else st) in
      case chk of
        Start_parameters \<Rightarrow> failed (if bSelect then st\<lparr>sr_finished := True\<rparr> else st)
      | Start_error \<Rightarrow> failed opened
      | Start_ok \<Rightarrow> (ST_Executing, (put_stmt r (opened\<lparr>sm_status := ST_Executing\<rparr>) w)\<lparr>wd_actions := wd_actions w @ [r]\<rparr>))"

text \<open>The rows from a secondary index that the primary index has answered.\<close>

fun settle_recs :: "World \<Rightarrow> (ActionStatus \<times> nat list \<times> u32) list \<Rightarrow> Statement \<Rightarrow> ((ActionStatus \<times> nat list \<times> u32) list \<times> Statement) option" where
  "settle_recs w [] st = Some ([], st)"
| "settle_recs w ((a, lrs, n) # rs) st =
     (if a = AS_INIT then map_option (apfst (Cons (a, lrs, n))) (settle_recs w rs st)
      else do {
        st \<leftarrow> AddLeafRecords lrs w st;
        settle_recs w rs (st\<lparr>sm_totalRecNum := sm_totalRecNum st + n\<rparr>)
      })"

definition take_recs :: "World \<Rightarrow> Statement \<Rightarrow> Statement option" where
  "take_recs w st = do {
     (rs, st) \<leftarrow> settle_recs w (sm_lstStmtRec st) st;
     Some (st\<lparr>sm_lstStmtRec := rs\<rparr>)
   }"

definition Delete_SessionExec :: "StartCheck \<Rightarrow> nat \<Rightarrow> World \<Rightarrow> Session \<Rightarrow> (StmtStatus \<times> World) option" where
  "Delete_SessionExec chk r w s = do {
     st \<leftarrow> wd_stmts w r;
     if sm_status st = ST_Created then Some (query_start chk False r st w)
     else if sm_status st = ST_Executing then
       if \<not> sm_bFinished st then Some (ST_Executing, w)
       else do {
         st \<leftarrow> take_recs w st;
         st \<leftarrow> wait_recs w st;
         if sm_lstWaitRecord st = [] \<and> sm_lstStmtRec st = [] then write_done (sm_totalRecNum st) r st w s
         else Some (ST_Executing, put_stmt r st w)
       }
     else if sm_status st = ST_Logging \<and> tr_bLogged (ss_transaction s) then write_logged (sm_totalRecNum st) r st w
     else Some (sm_status st, w)
   }"

text \<open>
  An update looks at its lists before it asks whether the scan has ended. In between the task that scans the index may go on: it adds
  the leaf records of further rows or, over a secondary index, further requests to the primary index, counts rows, and reports the end.
  A delete and a query ask for the end of the scan first; then their lists do not grow any more.
\<close>

datatype LateRows = Late "nat list" "(ActionStatus \<times> nat list \<times> u32) list" u32 bool

fun late_rows :: "LateRows \<Rightarrow> World \<Rightarrow> Statement \<Rightarrow> Statement option" where
  "late_rows (Late lrs recs n ended) w st = do {
     st \<leftarrow> AddLeafRecords lrs w st;
     Some (st\<lparr>sm_lstStmtRec := sm_lstStmtRec st @ recs, sm_totalRecNum := sm_totalRecNum st + n, sm_bFinished := sm_bFinished st \<or> ended\<rparr>)
   }"

definition Update_SessionExec :: "StartCheck \<Rightarrow> LateRows \<Rightarrow> nat \<Rightarrow> World \<Rightarrow> Session \<Rightarrow> (StmtStatus \<times> World) option" where
  "Update_SessionExec chk late r w s = do {
     st \<leftarrow> wd_stmts w r;
     if sm_status st = ST_Created then Some (query_start chk False r st w)
     else if sm_status st = ST_Executing then do {
       st \<leftarrow> take_recs w st;
       st \<leftarrow> wait_recs w st;
       if sm_lstWaitRecord st = [] \<and> sm_lstStmtRec st = [] then do {
         st \<leftarrow> late_rows late w st;
         if sm_bFinished st then write_done (sm_totalRecNum st) r st w s else Some (ST_Executing, put_stmt r st w)
       }
       else Some (ST_Executing, put_stmt r st w)
     }
     else if sm_status st = ST_Logging \<and> tr_bLogged (ss_transaction s) then write_logged (sm_totalRecNum st) r st w
     else Some (sm_status st, w)
   }"

definition Select_done :: "nat \<Rightarrow> Statement \<Rightarrow> World \<Rightarrow> Session \<Rightarrow> (StmtStatus \<times> World) option" where
  "Select_done r st w s =
     (if sm_failed st then do {
        w \<leftarrow> store_status ROLLBACKED (sm_lstFinishRecord st) w;
        Some (ST_Finished, put_stmt r (st\<lparr>sr_bFailed := True, sr_rowNum := 0, sr_finished := True, sm_status := ST_Finished\<rparr>) w)
      }
      else do {
        b \<leftarrow> IsAutoCommit (ss_transaction s);
        w \<leftarrow> (if b then store_status FREEED (sm_lstFinishRecord st) w else Some w);
        n \<leftarrow> sr_resultSet st;
        let status = (if b then ST_Finished else ST_Executed);
        Some (status, put_stmt r (st\<lparr>sm_status := status, sr_rowNum := ucast n, sr_finished := True\<rparr>) w)
      })"

definition Select_SessionExec :: "StartCheck \<Rightarrow> nat \<Rightarrow> World \<Rightarrow> Session \<Rightarrow> (StmtStatus \<times> World) option" where
  "Select_SessionExec chk r w s = do {
     st \<leftarrow> wd_stmts w r;
     if sm_status st = ST_Created then
       if sr_resultSet st \<noteq> None then None else Some (query_start chk True r st w)
     else if sm_status st = ST_Executing then
       if \<not> sm_bFinished st then Some (ST_Executing, w)
       else do {
         st \<leftarrow> take_recs w st;
         if sm_lstStmtRec st \<noteq> [] then Some (ST_Executing, put_stmt r st w)
         else do {
           st \<leftarrow> wait_recs w st;
           if sm_lstWaitRecord st = [] then Select_done r st w s else Some (ST_Executing, put_stmt r st w)
         }
       }
     else Some (sm_status st, w)
   }"

datatype StmtClass =
    InsertStatement "RowCheck list"
  | UpdateStatement StartCheck LateRows
  | DeleteStatement StartCheck
  | TableSelectStatement StartCheck

fun class_SessionExec :: "StmtClass \<Rightarrow> nat \<Rightarrow> World \<Rightarrow> Session \<Rightarrow> (StmtStatus \<times> World) option" where
  "class_SessionExec (InsertStatement rows) = Insert_SessionExec rows"
| "class_SessionExec (UpdateStatement chk late) = Update_SessionExec chk late"
| "class_SessionExec (DeleteStatement chk) = Delete_SessionExec chk"
| "class_SessionExec (TableSelectStatement chk) = Select_SessionExec chk"

text \<open>The dynamic classes of all statements.\<close>

definition run_classes :: "(nat \<Rightarrow> StmtClass) \<Rightarrow> nat \<Rightarrow> World \<Rightarrow> Session \<Rightarrow> (StmtStatus \<times> World) option" where
  "run_classes cls r = class_SessionExec (cls r) r"

section \<open>One call\<close>

text \<open>A call puts its statement back, and changes nothing else among the statements.\<close>

definition one_call :: "nat \<Rightarrow> World \<Rightarrow> Session \<Rightarrow> StmtStatus \<Rightarrow> World \<Rightarrow> bool" where
  "one_call r w s status w' \<longleftrightarrow>
     (\<exists>st st'. wd_stmts w r = Some st \<and> wd_stmts w' = (wd_stmts w)(r \<mapsto> st') \<and> sm_action st' = sm_action st \<and>
        (sm_status st' = status \<or> status = ST_Finished) \<and>
        (status = ST_Executed \<longrightarrow> sm_status st = ST_Executed \<or> tr_tranStatus (ss_transaction s) = TS_IN_TRAN))"

lemma store_status_stmts: "store_status sts is w = Some w' \<Longrightarrow> wd_stmts w' = wd_stmts w"
  by (induction "is" arbitrary: w) (auto simp: put_rec_def split: bind_splits)


lemma call_put:
  assumes "wd_stmts w r = Some st" "wd_stmts w' = (wd_stmts w)(r \<mapsto> st')" "sm_action st' = sm_action st" "sm_status st' = status \<or> status = ST_Finished"
    "status = ST_Executed \<Longrightarrow> tr_tranStatus (ss_transaction s) = TS_IN_TRAN"
  shows "one_call r w s status w'"
  unfolding one_call_def using assms by (intro exI [of _ st] exI [of _ st']) auto

lemma call_nothing: "wd_stmts w r = Some st \<Longrightarrow> one_call r w s (sm_status st) w"
  unfolding one_call_def by (intro exI [of _ st]) auto

lemma write_done_call:
  assumes "write_done n r st' w s = Some (status, w')" "wd_stmts w r = Some st" "sm_action st' = sm_action st"
  shows "one_call r w s status w'"
  using assms
  by (auto simp: write_done_def put_stmt_def LogTask_AddTransaction_def IsAutoCommit_def split: if_splits bind_splits dest!: store_status_stmts
      intro!: call_put [OF assms(2)])

lemma Select_done_call:
  assumes "Select_done r st' w s = Some (status, w')" "wd_stmts w r = Some st" "sm_action st' = sm_action st"
  shows "one_call r w s status w'"
  using assms
  by (auto simp: Select_done_def put_stmt_def IsAutoCommit_def Let_def split: if_splits bind_splits dest!: store_status_stmts
      intro!: call_put [OF assms(2)])

lemma write_logged_call:
  assumes "write_logged n r st w = Some (status, w')" "wd_stmts w r = Some st"
  shows "one_call r w s status w'"
  using assms by (auto simp: write_logged_def put_stmt_def split: bind_splits dest!: store_status_stmts intro!: call_put [OF assms(2)])

lemma query_start_call:
  assumes "query_start chk b r st w = (status, w')" "wd_stmts w r = Some st"
  shows "one_call r w s status w'"
  using assms by (auto simp: query_start_def put_stmt_def Let_def split: StartCheck.splits intro!: call_put [OF assms(2)])

lemma wait_recs_fields: "wait_recs w st = Some st' \<Longrightarrow> sm_action st' = sm_action st \<and> sm_status st' = sm_status st"
  by (auto simp: wait_recs_def split: bind_splits)

lemma AddLeafRecords_fields: "AddLeafRecords lrs w st = Some st' \<Longrightarrow> sm_action st' = sm_action st \<and> sm_status st' = sm_status st"
  by (induction lrs arbitrary: st) (fastforce simp: AddLeafRecord_def split: bind_splits if_splits)+

lemma settle_recs_fields: "settle_recs w rs st = Some (rs', st') \<Longrightarrow> sm_action st' = sm_action st \<and> sm_status st' = sm_status st"
  by (induction w rs st arbitrary: rs' rule: settle_recs.induct) (auto split: bind_splits if_splits dest!: AddLeafRecords_fields)

lemma take_recs_fields: "take_recs w st = Some st' \<Longrightarrow> sm_action st' = sm_action st \<and> sm_status st' = sm_status st"
  by (auto simp: take_recs_def split: bind_splits dest: settle_recs_fields)

lemma late_rows_fields: "late_rows late w st = Some st' \<Longrightarrow> sm_action st' = sm_action st \<and> sm_status st' = sm_status st"
  by (cases late) (auto split: bind_splits dest!: AddLeafRecords_fields)

lemma InitRecord_spec:
  "InitRecord bs r st w = (b, st', w') \<Longrightarrow>
     wd_stmts w' = wd_stmts w \<and> sm_action st' = sm_action st \<and> (\<not> b \<longrightarrow> sm_status st' = ST_Executing)"
  by (induction bs r st w rule: InitRecord.induct) (auto split: RowCheck.splits)

lemma Insert_rows_fields [simp]:
  "sm_action (Insert_rows st) = sm_action st" "sm_status (Insert_rows st) = sm_status st"
  by (simp_all add: Insert_rows_def split: prod.split)

lemma Insert_call:
  assumes "Insert_SessionExec rows r w s = Some (status, w')"
  shows "one_call r w s status w'"
proof -
  obtain st where st: "wd_stmts w r = Some st" using assms by (auto simp: Insert_SessionExec_def split: bind_splits)
  consider (created) "sm_status st = ST_Created" | (executing) "sm_status st = ST_Executing"
    | (logged) "sm_status st = ST_Logging" "tr_bLogged (ss_transaction s)" | (other) "status = sm_status st" "w' = w"
    using assms st by (auto simp: Insert_SessionExec_def split: if_splits)
  then show ?thesis
  proof cases
    case created
    obtain b st2 w2 where i: "InitRecord rows r st w = (b, st2, w2)" by (metis prod_cases3)
    then show ?thesis using assms st created InitRecord_spec [OF i]
      by (cases b) (auto simp: Insert_SessionExec_def put_stmt_def intro!: call_put [OF st])
  next
    case executing
    let ?st = "if sm_lstRecord st \<noteq> [] then Insert_rows st else st"
    have f: "sm_action ?st = sm_action st" "sm_status ?st = ST_Executing" using executing by simp_all
    show ?thesis
    proof (cases "sm_lstRecord ?st = []")
      case True
      obtain st2 where st2: "(if sm_lstWaitRecord ?st \<noteq> [] then wait_recs w ?st else Some ?st) = Some st2"
        using assms st executing True by (auto simp: Insert_SessionExec_def Let_def split: if_splits bind_splits)
      then have f2: "sm_action st2 = sm_action st" "sm_status st2 = ST_Executing"
        using wait_recs_fields f by (auto split: if_splits)
      have "(if length (sm_lstFinishRecord st2) < unat (sm_cntLeafRec st2) then Some (ST_Executing, put_stmt r st2 w) else write_done (sm_recordNum st2) r st2 w s) = Some (status, w')"
        using assms st executing True st2 by (simp add: Insert_SessionExec_def Let_def)
      then show ?thesis using f2 write_done_call [OF _ st] by (auto simp: put_stmt_def split: if_splits intro!: call_put [OF st])
    next
      case False
      then show ?thesis using assms st executing f by (auto simp: Insert_SessionExec_def Let_def put_stmt_def intro!: call_put [OF st])
    qed
  next
    case logged
    then show ?thesis using assms st write_logged_call by (simp add: Insert_SessionExec_def)
  next
    case other
    then show ?thesis using st call_nothing by blast
  qed
qed

lemma query_call:
  assumes "take_recs w st = Some st1" "sm_status st = ST_Executing" "wd_stmts w r = Some st"
  shows "sm_action st1 = sm_action st" "one_call r w s ST_Executing (put_stmt r st1 w)"
    "wait_recs w st1 = Some st2 \<Longrightarrow> sm_action st2 = sm_action st" "wait_recs w st1 = Some st2 \<Longrightarrow> one_call r w s ST_Executing (put_stmt r st2 w)"
  using take_recs_fields [OF assms(1)] assms(2) wait_recs_fields [of w st1 st2]
  by (auto simp: put_stmt_def intro!: call_put [OF assms(3)])

lemma Delete_call:
  assumes "Delete_SessionExec chk r w s = Some (status, w')"
  shows "one_call r w s status w'"
proof -
  obtain st where st: "wd_stmts w r = Some st" using assms by (auto simp: Delete_SessionExec_def split: bind_splits)
  show ?thesis
  proof (cases "sm_status st = ST_Created")
    case True
    then show ?thesis using assms st query_start_call [OF _ st] by (auto simp: Delete_SessionExec_def split: if_splits)
  next
    case nc: False
    show ?thesis
    proof (cases "sm_status st = ST_Executing \<and> sm_bFinished st")
      case True
      obtain st1 where st1: "take_recs w st = Some st1" using assms st True by (auto simp: Delete_SessionExec_def split: bind_splits)
      obtain st2 where st2: "wait_recs w st1 = Some st2" using assms st True st1 by (auto simp: Delete_SessionExec_def split: bind_splits)
      have "(if sm_lstWaitRecord st2 = [] \<and> sm_lstStmtRec st2 = [] then write_done (sm_totalRecNum st2) r st2 w s else Some (ST_Executing, put_stmt r st2 w)) = Some (status, w')"
        using assms st True st1 st2 by (simp add: Delete_SessionExec_def)
      moreover note q = query_call [OF st1 _ st]
      moreover have "\<And>n. write_done n r st2 w s = Some (status, w') \<Longrightarrow> one_call r w s status w'"
        using write_done_call [OF _ st q(3) [OF _ st2]] True by simp
      moreover have "one_call r w s ST_Executing (put_stmt r st2 w)" using q(4) [OF _ st2] True by simp
      ultimately show ?thesis by (simp split: if_splits)
    next
      case False
      then show ?thesis using assms st nc write_logged_call [OF _ st] call_nothing [OF st, of s] by (auto simp: Delete_SessionExec_def split: if_splits)
    qed
  qed
qed

lemma Update_call:
  assumes "Update_SessionExec chk late r w s = Some (status, w')"
  shows "one_call r w s status w'"
proof -
  obtain st where st: "wd_stmts w r = Some st" using assms by (auto simp: Update_SessionExec_def split: bind_splits)
  show ?thesis
  proof (cases "sm_status st = ST_Created")
    case True
    then show ?thesis using assms st query_start_call [OF _ st] by (auto simp: Update_SessionExec_def split: if_splits)
  next
    case nc: False
    show ?thesis
    proof (cases "sm_status st = ST_Executing")
      case True
      obtain st1 where st1: "take_recs w st = Some st1" using assms st True by (auto simp: Update_SessionExec_def split: bind_splits)
      obtain st2 where st2: "wait_recs w st1 = Some st2" using assms st True st1 by (auto simp: Update_SessionExec_def split: bind_splits)
      note q = query_call [OF st1 _ st]
      have ex: "one_call r w s ST_Executing (put_stmt r st2 w)" using q(4) [OF _ st2] True by simp
      show ?thesis
      proof (cases "sm_lstWaitRecord st2 = [] \<and> sm_lstStmtRec st2 = []")
        case empty: True
        obtain st3 where st3: "late_rows late w st2 = Some st3" using assms st True st1 st2 empty by (auto simp: Update_SessionExec_def split: bind_splits)
        have f: "sm_action st3 = sm_action st" "sm_status st3 = ST_Executing"
          using late_rows_fields [OF st3] q(3) [OF _ st2] True wait_recs_fields [OF st2] take_recs_fields [OF st1] by simp_all
        have "(if sm_bFinished st3 then write_done (sm_totalRecNum st3) r st3 w s else Some (ST_Executing, put_stmt r st3 w)) = Some (status, w')"
          using assms st True st1 st2 empty st3 by (simp add: Update_SessionExec_def)
        then show ?thesis using write_done_call [OF _ st f(1)] f by (auto simp: put_stmt_def split: if_splits intro!: call_put [OF st])
      next
        case False
        then show ?thesis using assms st True st1 st2 ex by (auto simp: Update_SessionExec_def)
      qed
    next
      case False
      then show ?thesis using assms st nc write_logged_call [OF _ st] call_nothing [OF st, of s] by (auto simp: Update_SessionExec_def split: if_splits)
    qed
  qed
qed

lemma Select_call:
  assumes "Select_SessionExec chk r w s = Some (status, w')"
  shows "one_call r w s status w'"
proof -
  obtain st where st: "wd_stmts w r = Some st" using assms by (auto simp: Select_SessionExec_def split: bind_splits)
  show ?thesis
  proof (cases "sm_status st = ST_Created")
    case True
    then show ?thesis using assms st query_start_call [OF _ st] by (auto simp: Select_SessionExec_def split: if_splits)
  next
    case nc: False
    show ?thesis
    proof (cases "sm_status st = ST_Executing \<and> sm_bFinished st")
      case True
      obtain st1 where st1: "take_recs w st = Some st1" using assms st True by (auto simp: Select_SessionExec_def split: bind_splits)
      show ?thesis
      proof (cases "sm_lstStmtRec st1 = []")
        case empty: True
        obtain st2 where st2: "wait_recs w st1 = Some st2" using assms st True st1 empty by (auto simp: Select_SessionExec_def split: bind_splits)
        have "(if sm_lstWaitRecord st2 = [] then Select_done r st2 w s else Some (ST_Executing, put_stmt r st2 w)) = Some (status, w')"
          using assms st True st1 st2 empty by (simp add: Select_SessionExec_def)
        moreover note q = query_call [OF st1 _ st]
        moreover have "\<And>n. Select_done r st2 w s = Some (status, w') \<Longrightarrow> one_call r w s status w'"
          using Select_done_call [OF _ st q(3) [OF _ st2]] True by simp
        moreover have "one_call r w s ST_Executing (put_stmt r st2 w)" using q(4) [OF _ st2] True by simp
        ultimately show ?thesis by (simp split: if_splits)
      next
        case False
        then show ?thesis using assms st True st1 query_call(2) [OF st1 _ st] by (auto simp: Select_SessionExec_def)
      qed
    next
      case False
      then show ?thesis using assms st nc write_logged_call [OF _ st] call_nothing [OF st, of s] by (auto simp: Select_SessionExec_def split: if_splits)
    qed
  qed
qed

lemma classes_call: "run_classes cls r w s = Some (status, w') \<Longrightarrow> one_call r w s status w'"
  by (cases "cls r") (auto simp: run_classes_def intro: Insert_call Update_call Delete_call Select_call)

interpretation rows: statement_class "run_classes cls" for cls
proof
  fix r w s status w' r' assume "run_classes cls r w s = Some (status, w')" "r' \<noteq> r"
  then show "wd_stmts w' r' = wd_stmts w r'" using classes_call by (fastforce simp: one_call_def)
next
  fix r w s status w' st assume "run_classes cls r w s = Some (status, w')" "wd_stmts w r = Some st" "sm_action st = None" "sm_status st \<noteq> ST_Executed"
  then show "\<exists>st'. wd_stmts w' r = Some st' \<and> sm_action st' = None \<and>
      (status \<noteq> ST_Executed \<longrightarrow> status \<noteq> ST_Finished \<longrightarrow> sm_status st' \<noteq> ST_Executed)"
    using classes_call by (fastforce simp: one_call_def)
next
  fix r w s w' st assume "run_classes cls r w s = Some (ST_Executed, w')" "wd_stmts w r = Some st" "sm_status st \<noteq> ST_Executed"
  then show "tr_tranStatus (ss_transaction s) \<noteq> TS_AUTO_TRAN" using classes_call by (fastforce simp: one_call_def)
qed

section \<open>No commit before the log\<close>

lemma store_status_committed:
  "store_status sts is w = Some w' \<Longrightarrow> committed w' i \<Longrightarrow> committed w i \<or> sts = COMMITED"
proof (induction "is" arbitrary: w)
  case (Cons j js)
  then show ?case by (fastforce simp: committed_put_rec split: bind_splits if_splits)
qed simp

lemma write_done_committed: "write_done n r st w s = Some (status, w') \<Longrightarrow> committed w' i \<Longrightarrow> committed w i"
  using store_status_committed by (fastforce simp: write_done_def split: if_splits bind_splits)

lemma Select_done_committed: "Select_done r st w s = Some (status, w') \<Longrightarrow> committed w' i \<Longrightarrow> committed w i"
  using store_status_committed by (fastforce simp: Select_done_def Let_def split: if_splits bind_splits)

lemma query_start_committed: "query_start chk b r st w = (status, w') \<Longrightarrow> committed w' = committed w"
  by (auto simp: query_start_def Let_def split: StartCheck.splits)

lemma InitRecord_committed: "InitRecord bs r st w = (b, st', w') \<Longrightarrow> committed w' = committed w"
  by (induction bs r st w rule: InitRecord.induct) (auto split: RowCheck.splits)

lemma classes_committed:
  assumes "run_classes cls r w s = Some (status, w')" "committed w' i"
  shows "committed w i \<or> tr_bLogged (ss_transaction s)"
  using assms
  by (cases "cls r")
    (auto simp: run_classes_def Insert_SessionExec_def Update_SessionExec_def Delete_SessionExec_def Select_SessionExec_def Let_def
      split: if_splits bind_splits prod.splits
      dest: write_done_committed Select_done_committed query_start_committed InitRecord_committed)

interpretation rows_log: logged_class "run_classes cls" for cls
  by unfold_locales (rule classes_committed)

section \<open>No error is lost\<close>

definition settled :: "World \<Rightarrow> nat \<Rightarrow> bool" where
  "settled w i \<longleftrightarrow> (\<exists>l. the_lock w i = Some l \<and> rl_recResult l \<noteq> RR_INIT)"

definition failed_rec :: "World \<Rightarrow> nat \<Rightarrow> bool" where
  "failed_rec w i \<longleftrightarrow> map_option rl_recResult (the_lock w i) = Some RR_ERROR"

text \<open>What a statement knows of the records \<open>is\<close> after it has looked at them: each waits, or is settled and has not failed unseen.\<close>

definition looked_at :: "World \<Rightarrow> nat set \<Rightarrow> Statement \<Rightarrow> bool" where
  "looked_at w is st \<longleftrightarrow>
     (\<forall>i \<in> is. i \<in> set (sm_lstWaitRecord st) \<or> i \<in> set (sm_lstFinishRecord st) \<and> settled w i \<and> (failed_rec w i \<longrightarrow> sm_failed st))"

definition step_looks :: "World \<Rightarrow> nat set \<Rightarrow> Statement \<Rightarrow> Statement \<Rightarrow> bool" where
  "step_looks w is st st' \<longleftrightarrow> looked_at w is st' \<and> set (sm_lstWaitRecord st) \<subseteq> set (sm_lstWaitRecord st') \<and>
     set (sm_lstFinishRecord st) \<subseteq> set (sm_lstFinishRecord st') \<and> (sm_failed st \<longrightarrow> sm_failed st')"

lemma step_looks_trans: "step_looks w is st st1 \<Longrightarrow> step_looks w js st1 st2 \<Longrightarrow> step_looks w (is \<union> js) st st2"
  unfolding step_looks_def looked_at_def by blast

lemma AddLeafRecords_looks: "AddLeafRecords lrs w st = Some st' \<Longrightarrow> step_looks w (set lrs) st st' \<and> sm_totalRecNum st' = sm_totalRecNum st"
proof (induction lrs arbitrary: st)
  case (Cons i lrs)
  then obtain st1 where st1: "AddLeafRecord i w st = Some st1" "AddLeafRecords lrs w st1 = Some st'" by (auto split: bind_splits)
  have "step_looks w {i} st st1 \<and> sm_totalRecNum st1 = sm_totalRecNum st"
    using st1(1) by (auto simp: AddLeafRecord_def step_looks_def looked_at_def settled_def failed_rec_def split: bind_splits if_splits)
  then show ?case using step_looks_trans [of w "{i}" st st1 "set lrs" st'] Cons.IH [OF st1(2)] by simp
qed (simp add: step_looks_def looked_at_def)

text \<open>The records that the actions of the statement's rows have made, and the number of rows.\<close>

definition recs_made :: "(ActionStatus \<times> nat list \<times> u32) list \<Rightarrow> nat set" where
  "recs_made rs = (\<Union>(a, lrs, n) \<in> set rs. set lrs)"

definition rows_made :: "(ActionStatus \<times> nat list \<times> u32) list \<Rightarrow> u32" where
  "rows_made rs = sum_list (map (\<lambda>(a, lrs, n). n) rs)"

lemma settle_recs_looks:
  "settle_recs w rs st = Some ([], st') \<Longrightarrow> step_looks w (recs_made rs) st st' \<and> sm_totalRecNum st' = sm_totalRecNum st + rows_made rs"
proof (induction rs arbitrary: st)
  case (Cons x rs)
  obtain a lrs n where x: "x = (a, lrs, n)" by (cases x)
  then have "a \<noteq> AS_INIT" using Cons.prems by (auto split: if_splits)
  then obtain st1 where st1: "AddLeafRecords lrs w st = Some st1" "settle_recs w rs (st1\<lparr>sm_totalRecNum := sm_totalRecNum st1 + n\<rparr>) = Some ([], st')"
    using Cons.prems x by (auto split: bind_splits)
  have "step_looks w (recs_made rs) st1 st'" using Cons.IH [OF st1(2)] by (simp add: step_looks_def)
  then have "step_looks w (set lrs \<union> recs_made rs) st st'" using step_looks_trans AddLeafRecords_looks [OF st1(1)] by blast
  then show ?case using Cons.IH [OF st1(2)] AddLeafRecords_looks [OF st1(1)] x by (simp add: recs_made_def rows_made_def)
qed (simp add: step_looks_def looked_at_def recs_made_def rows_made_def)

lemma collect_finished_looks:
  "collect_finished w is = Some ([], fin, err) \<Longrightarrow> set fin = set is \<and> (\<forall>i \<in> set is. settled w i \<and> (failed_rec w i \<longrightarrow> err))"
proof (induction "is" arbitrary: fin err)
  case (Cons i js)
  then obtain l wait fin' err' where l: "the_lock w i = Some l" "collect_finished w js = Some (wait, fin', err')"
    by (auto split: bind_splits)
  then have "rl_recResult l \<noteq> RR_INIT" "wait = []" "fin = i # fin'" "err = (err' \<or> rl_recResult l = RR_ERROR)"
    using Cons.prems by (auto split: if_splits)
  then show ?case using Cons.IH [of fin' err'] l by (auto simp: settled_def failed_rec_def)
qed simp

text \<open>The scan has ended, nothing is left in the lists, all records of the statement are settled and none has failed.\<close>

definition all_good :: "World \<Rightarrow> Statement \<Rightarrow> Statement \<Rightarrow> bool" where
  "all_good w st st' \<longleftrightarrow>
     (\<forall>i \<in> set (sm_lstWaitRecord st) \<union> recs_made (sm_lstStmtRec st).
        i \<in> set (sm_lstFinishRecord st') \<and> settled w i \<and> \<not> failed_rec w i) \<and>
     sm_totalRecNum st' = sm_totalRecNum st + rows_made (sm_lstStmtRec st) \<and>
     sm_bFinished st' \<and> sm_lstWaitRecord st' = [] \<and> sm_lstStmtRec st' = []"

lemma looks_good:
  assumes "take_recs w st = Some st1" "wait_recs w st1 = Some st2" "sm_lstWaitRecord st2 = []" "sm_lstStmtRec st2 = []" "\<not> sm_failed st2"
  shows "all_good w st (st2\<lparr>sm_bFinished := True\<rparr>)"
proof -
  have "sm_lstStmtRec st1 = []" using assms(2,4) by (auto simp: wait_recs_def split: bind_splits)
  then obtain st0 where st0: "settle_recs w (sm_lstStmtRec st) st = Some ([], st0)" "st1 = st0\<lparr>sm_lstStmtRec := []\<rparr>"
    using assms(1) by (auto simp: take_recs_def split: bind_splits)
  obtain fin err where f: "collect_finished w (sm_lstWaitRecord st1) = Some ([], fin, err)"
      "st2 = st1\<lparr>sm_lstWaitRecord := [], sm_lstFinishRecord := sm_lstFinishRecord st1 @ fin, sm_failed := sm_failed st1 \<or> err\<rparr>"
    using assms(2,3) by (auto simp: wait_recs_def split: bind_splits)
  note l = settle_recs_looks [OF st0(1)] and c = collect_finished_looks [OF f(1)]
  have "step_looks w (recs_made (sm_lstStmtRec st)) st st1" using l st0(2) by (simp add: step_looks_def looked_at_def)
  then show ?thesis using l c f(2) assms(3-5) st0(2) unfolding all_good_def step_looks_def looked_at_def by auto
qed

lemma all_good_update [simp]:
  "all_good w st (st'\<lparr>sm_status := x\<rparr>) = all_good w st st'" "all_good w st (st'\<lparr>sr_rowNum := n\<rparr>) = all_good w st st'"
  "all_good w st (st'\<lparr>sr_finished := b\<rparr>) = all_good w st st'"
  by (simp_all add: all_good_def)

definition end_report :: "World \<Rightarrow> Statement \<Rightarrow> StmtStatus \<Rightarrow> Statement \<Rightarrow> bool" where
  "end_report w st status st' \<longleftrightarrow>
     (if sm_failed st' then status = ST_Finished \<and> sr_bFailed st' \<and> sr_rowNum st' = 0 else all_good w st st')"

lemma write_done_reports:
  assumes "write_done n r st2 w s = Some (status, w')" "\<not> sm_failed st2 \<Longrightarrow> all_good w st st2"
  shows "\<exists>st'. wd_stmts w' r = Some st' \<and> end_report w st status st'"
proof (cases "sm_failed st2")
  case True
  then show ?thesis using assms(1) by (auto simp: write_done_def put_stmt_def end_report_def split: bind_splits)
next
  case False
  then have g: "end_report w st status (st2\<lparr>sm_status := x\<rparr>)" "end_report w st status (st2\<lparr>sr_rowNum := k, sr_finished := True, sm_status := x\<rparr>)" for x k
    using assms(2) by (simp_all add: end_report_def)
  show ?thesis using assms(1) False g
    by (auto simp: write_done_def put_stmt_def LogTask_AddTransaction_def split: if_splits bind_splits)
qed

lemma Select_done_reports:
  assumes "Select_done r st2 w s = Some (status, w')" "\<not> sm_failed st2 \<Longrightarrow> all_good w st st2"
  shows "\<exists>st'. wd_stmts w' r = Some st' \<and> end_report w st status st'"
proof (cases "sm_failed st2")
  case True
  then show ?thesis using assms(1) by (auto simp: Select_done_def put_stmt_def end_report_def split: bind_splits)
next
  case False
  then have g: "end_report w st status (st2\<lparr>sm_status := x, sr_rowNum := k, sr_finished := True\<rparr>)" for x k
    using assms(2) by (simp add: end_report_def)
  show ?thesis using assms(1) False g by (auto simp: Select_done_def Let_def put_stmt_def split: if_splits bind_splits)
qed

text \<open>The end of a delete or query, and of an update that gets no late rows: its lists have been looked at and are empty.\<close>

lemma AddLeafRecords_finished: "AddLeafRecords lrs w st = Some st' \<Longrightarrow> sm_bFinished st' = sm_bFinished st"
  by (induction lrs arbitrary: st) (fastforce simp: AddLeafRecord_def split: bind_splits if_splits)+

lemma settle_recs_finished: "settle_recs w rs st = Some (rs', st') \<Longrightarrow> sm_bFinished st' = sm_bFinished st"
  by (induction w rs st arbitrary: rs' rule: settle_recs.induct) (auto split: bind_splits if_splits dest!: AddLeafRecords_finished)

lemma lists_finished:
  "take_recs w st = Some st1 \<Longrightarrow> sm_bFinished st1 = sm_bFinished st" "wait_recs w st1 = Some st2 \<Longrightarrow> sm_bFinished st2 = sm_bFinished st1"
  by (auto simp: take_recs_def wait_recs_def split: bind_splits dest: settle_recs_finished)

lemma query_ends:
  assumes "class_SessionExec c r w s = Some (status, w')" "wd_stmts w r = Some st" "sm_status st = ST_Executing" "status \<noteq> ST_Executing"
    "c = UpdateStatement chk (Late [] [] 0 b) \<or> c = DeleteStatement chk \<or> c = TableSelectStatement chk"
  shows "\<exists>st1 st2 st3. take_recs w st = Some st1 \<and> wait_recs w st1 = Some st2 \<and> sm_lstWaitRecord st2 = [] \<and> sm_lstStmtRec st2 = [] \<and>
    (\<exists>b. st3 = st2\<lparr>sm_bFinished := b\<rparr>) \<and> sm_bFinished st3 \<and>
    ((\<exists>n. write_done n r st3 w s = Some (status, w')) \<or> Select_done r st3 w s = Some (status, w'))"
proof -
  obtain st1 where st1: "take_recs w st = Some st1"
    using assms by (auto simp: Update_SessionExec_def Delete_SessionExec_def Select_SessionExec_def split: bind_splits if_splits)
  have "wait_recs w st1 \<noteq> None"
    using assms st1 by (auto simp: Update_SessionExec_def Delete_SessionExec_def Select_SessionExec_def split: bind_splits if_splits)
  then obtain st2 where st2: "wait_recs w st1 = Some st2" by blast
  then have l: "sm_lstStmtRec st2 = sm_lstStmtRec st1" by (auto simp: wait_recs_def split: bind_splits)
  have f: "sm_bFinished st2 = sm_bFinished st" using lists_finished(1) [OF st1] lists_finished(2) [OF st2] by simp
  have same: "st2 = st2\<lparr>sm_bFinished := sm_bFinished st2\<rparr>" by simp
  show ?thesis
  proof (cases "c = UpdateStatement chk (Late [] [] 0 b)")
    case True
    then have "(\<exists>n. write_done n r (st2\<lparr>sm_bFinished := sm_bFinished st2 \<or> b\<rparr>) w s = Some (status, w')) \<and> sm_lstWaitRecord st2 = [] \<and> sm_lstStmtRec st2 = [] \<and>
        (sm_bFinished st2 \<or> b)"
      using assms(1-4) st1 st2 by (auto simp: Update_SessionExec_def split: if_splits)
    then show ?thesis using st1 st2 by (intro exI [of _ st1] exI [of _ st2] exI [of _ "st2\<lparr>sm_bFinished := sm_bFinished st2 \<or> b\<rparr>"]) auto
  next
    case False
    then have "((\<exists>n. write_done n r st2 w s = Some (status, w')) \<or> Select_done r st2 w s = Some (status, w')) \<and> sm_lstWaitRecord st2 = [] \<and>
        sm_lstStmtRec st2 = [] \<and> sm_bFinished st2"
      using assms st1 st2 l f by (auto simp: Delete_SessionExec_def Select_SessionExec_def split: if_splits)
    then show ?thesis using st1 st2 same by (intro exI [of _ st1] exI [of _ st2]) blast
  qed
qed

section \<open>Properties\<close>

text \<open>A server with one session group, and a session with one insert that waits, in its automatic transaction or before it.\<close>

definition sample_stmt :: "StmtStatus \<Rightarrow> Statement" where
  "sample_stmt sts = \<lparr>sm_action = None, sm_sole = False, sm_readonly = False, sm_status = sts, sm_failed = False, sm_txid = 5,
     sm_lstWaitRecord = [], sm_lstFinishRecord = [0], sm_lstRecord = [], sm_cntLeafRec = 1, sm_recordNum = 1,
     sm_lstStmtRec = [], sm_totalRecNum = 0, sm_bFinished = False,
     sr_bFailed = False, sr_rowNum = 0, sr_finished = False, sr_resultSet = None\<rparr>"

definition sample_world :: "StmtStatus \<Rightarrow> World" where
  "sample_world sts = \<lparr>wd_groups = [5], wd_time = 0, wd_stmts = [0 \<mapsto> sample_stmt sts],
     wd_recs = [0 \<mapsto> LeafRecord
       \<lparr>rr_class = LeafClass, rr_bysVal = [], rr_bSole = True, rr_indexType = PRIMARY, rr_bValid = True, rr_bDelete = False\<rparr>
       (Some (RecordLock INSERT RS_INIT False IN_PAGE (Some 0) [] None None)) None], wd_log = [], wd_actions = []\<rparr>"

definition sample_session :: "bool \<Rightarrow> Session" where
  "sample_session started =
     (if started then (Session_new 0)\<lparr>ss_transaction := Transaction_new\<lparr>tr_tid := 5, tr_lstStatement := [0], tr_tranStatus := TS_AUTO_TRAN, tr_bLogged := True\<rparr>,
        ss_currStatement := Some 0\<rparr>
      else (Session_new 0)\<lparr>ss_lstWaittingStmt := [0]\<rparr>)"

lemmas sample_defs = sample_stmt_def sample_world_def sample_session_def Session_new_def Transaction_new_def

text \<open>
  C11: One call of \<open>Session::Exec\<close> keeps the invariant of a session with inserts, updates, deletes, queries, \<open>BEGIN\<close>, \<open>COMMIT\<close> and \<open>ROLLBACK\<close>: no statement is owned
  twice, every statement that the session refers to is alive, a transaction that is not running has no statements, an automatic one has exactly
  the current statement, and the only \<open>COMMIT\<close> that stays current waits for the log.
\<close>

theorem Session_Exec_keeps_inv:
  "session_inv w s \<Longrightarrow> Session_Exec (run_classes cls) w s = Some (w', s') \<Longrightarrow> session_inv w' s'"
  by (rule rows.Session_Exec_inv)

lemma sample_new: "session_inv (sample_world ST_Created) (sample_session False)"
  by (simp add: session_inv_def current_ok_def sample_defs)

theorem Session_Exec_keeps_inv_witness:
  "\<exists>w' s'. Session_Exec (run_classes (\<lambda>_. InsertStatement [Row_ok])) (sample_world ST_Created) (sample_session False) = Some (w', s') \<and>
     session_inv w' s' \<and> ss_currStatement s' = Some 0 \<and> wd_actions w' = [0]"
proof -
  obtain tid gs where t: "take_tran_id 0 [5] = (tid, gs)" by fastforce
  obtain w' s' where e: "Session_Exec (run_classes (\<lambda>_. InsertStatement [Row_ok])) (sample_world ST_Created) (sample_session False) = Some (w', s')"
    "ss_currStatement s' = Some 0" "wd_actions w' = [0]"
    by (simp add: Session_Exec_def exec_current_def SessionExec_def run_classes_def Insert_SessionExec_def write_logged_def StartTransaction_def sample_defs put_stmt_def Let_def t)
  then show ?thesis using Session_Exec_keeps_inv [OF sample_new e(1)] by blast
qed

text \<open>
  C10: No record is marked as committed before the log: a call of \<open>Session::Exec\<close> changes the status of a record to \<open>COMMITED\<close> only when
  the log task has reported the transaction as logged, or for the records of a statement that only reads.
\<close>

theorem Session_Exec_logs_first:
  "session_inv w s \<Longrightarrow> Session_Exec (run_classes cls) w s = Some (w', s') \<Longrightarrow> \<not> committed w i \<Longrightarrow> committed w' i \<Longrightarrow>
   tr_bLogged (ss_transaction s) \<or> read_only_record w s i"
  using rows_log.Session_Exec_committed by blast

lemma sample_logged:
  "session_inv (sample_world ST_Logging) (sample_session True)" "\<not> committed (sample_world ST_Logging) 0"
  "\<exists>w' s'. Session_Exec (run_classes (\<lambda>_. InsertStatement [])) (sample_world ST_Logging) (sample_session True) = Some (w', s') \<and>
     committed w' 0 \<and> wd_stmts w' 0 = None \<and> Session_IsEmpty s'"
  by (simp_all add: session_inv_def current_ok_def Session_Exec_def exec_current_def SessionExec_def run_classes_def Insert_SessionExec_def write_logged_def sample_defs put_stmt_def put_rec_def
      Let_def CloseTransaction_def committed_def the_lock_def Session_IsEmpty_def Transaction_IsEmpty_def)

theorem Session_Exec_logs_first_witness:
  "\<exists>w' s'. Session_Exec (run_classes (\<lambda>_. InsertStatement [])) (sample_world ST_Logging) (sample_session True) = Some (w', s') \<and>
     committed w' 0 \<and> (tr_bLogged (ss_transaction (sample_session True)) \<or> read_only_record (sample_world ST_Logging) (sample_session True) 0)"
  using sample_logged Session_Exec_logs_first [OF sample_logged(1) _ sample_logged(2)] by blast

text \<open>
  C12: A delete or query that ends has missed nothing, and so has an update when its scan finds no row after the call has looked at the
  lists: either it has failed, ends with the failure in its result and no rows, or the scan has ended, nothing is left in the lists, every
  record that it waited for and every record that the actions of its rows have made is settled without an error and in its list of
  finished records, and the rows of all actions are counted. (The lists and outcomes are those at the call. \<open>update_ends_early\<close>
  shows what an update misses otherwise.)
\<close>

theorem query_end_complete:
  assumes "class_SessionExec c r w s = Some (status, w')" "wd_stmts w r = Some st" "sm_status st = ST_Executing" "status \<noteq> ST_Executing"
    "c \<in> {DeleteStatement chk, TableSelectStatement chk, UpdateStatement chk (Late [] [] 0 ended)}"
  shows "\<exists>st'. wd_stmts w' r = Some st' \<and>
    (if sm_failed st' then status = ST_Finished \<and> sr_bFailed st' \<and> sr_rowNum st' = 0 else all_good w st st')"
proof -
  obtain st1 st2 st3 b where e: "take_recs w st = Some st1" "wait_recs w st1 = Some st2" "sm_lstWaitRecord st2 = []" "sm_lstStmtRec st2 = []"
      "st3 = st2\<lparr>sm_bFinished := b\<rparr>" "sm_bFinished st3" "(\<exists>n. write_done n r st3 w s = Some (status, w')) \<or> Select_done r st3 w s = Some (status, w')"
    using query_ends [of c r w s status w' st chk ended] assms by blast
  have "st3 = st2\<lparr>sm_bFinished := True\<rparr>" using e(5,6) by simp
  then have "\<not> sm_failed st3 \<Longrightarrow> all_good w st st3" using looks_good [OF e(1-4)] by simp
  then have "\<exists>st'. wd_stmts w' r = Some st' \<and> end_report w st status st'" using e(7) write_done_reports Select_done_reports by blast
  then show ?thesis unfolding end_report_def .
qed

definition sample_running :: World where
  "sample_running = \<lparr>wd_groups = [5], wd_time = 0,
     wd_stmts = [0 \<mapsto> (sample_stmt ST_Executing)\<lparr>sm_lstFinishRecord := [], sm_lstStmtRec := [(AS_SUCEED, [0], 1)], sm_bFinished := True\<rparr>],
     wd_recs = wd_recs (sample_world ST_Executing), wd_log = [], wd_actions = []\<rparr>"

theorem query_end_complete_witness:
  "\<exists>w' st'. class_SessionExec (DeleteStatement Start_ok) 0 sample_running (sample_session True) = Some (ST_Logging, w') \<and> wd_stmts w' 0 = Some st' \<and>
     sm_lstFinishRecord st' = [0] \<and>
     (if sm_failed st' then ST_Logging = ST_Finished \<and> sr_bFailed st' \<and> sr_rowNum st' = 0
      else all_good sample_running ((sample_stmt ST_Executing)\<lparr>sm_lstFinishRecord := [], sm_lstStmtRec := [(AS_SUCEED, [0], 1)], sm_bFinished := True\<rparr>) st')"
proof -
  obtain w' st' where e: "class_SessionExec (DeleteStatement Start_ok) 0 sample_running (sample_session True) = Some (ST_Logging, w')"
      "wd_stmts w' 0 = Some st'" "sm_lstFinishRecord st' = [0]"
    by (simp add: sample_running_def sample_defs Delete_SessionExec_def take_recs_def wait_recs_def AddLeafRecord_def the_lock_def write_done_def
        IsAutoCommit_def put_stmt_def LogTask_AddTransaction_def)
  have "wd_stmts sample_running 0 = Some ((sample_stmt ST_Executing)\<lparr>sm_lstFinishRecord := [], sm_lstStmtRec := [(AS_SUCEED, [0], 1)], sm_bFinished := True\<rparr>)"
    by (simp add: sample_running_def)
  then show ?thesis using query_end_complete [OF e(1), of _ Start_ok] e by (fastforce simp: sample_stmt_def)
qed

section \<open>Where the code goes wrong\<close>

text \<open>
  An update whose lists are empty while the scan goes on: the scan finds a last row, whose record is locked but not settled in a secondary
  index, and ends. The update ends too, with the record still in its list; when the record fails later, nobody looks at it.
\<close>

lemma update_ends_early:
  assumes "wd_stmts w r = Some st" "sm_status st = ST_Executing" "sm_lstStmtRec st = []" "sm_lstWaitRecord st = []" "\<not> sm_failed st" "\<not> sr_bFailed st"
    and "the_lock w i = Some l" "rl_recResult l = RR_INIT" "tr_tranStatus (ss_transaction s) = TS_IN_TRAN"
  shows "\<exists>w' st'. class_SessionExec (UpdateStatement chk (Late [i] [] 1 True)) r w s = Some (ST_Executed, w') \<and> wd_stmts w' r = Some st' \<and>
    sr_finished st' \<and> \<not> sr_bFailed st' \<and> sm_lstWaitRecord st' = [i]"
  using assms by (simp add: Update_SessionExec_def take_recs_def wait_recs_def AddLeafRecord_def write_done_def IsAutoCommit_def put_stmt_def)

text \<open>
  A statement that fails in a transaction of several statements closes the transaction: the earlier statements are deleted, but their
  records are neither rolled back nor committed, and nothing refers to them any more.
\<close>

lemma failed_statement_keeps_locks:
  assumes "session_inv w s" "ss_currStatement s = Some r" "wd_stmts w r = Some st" "sm_action st = None"
    and "run_classes cls r w s = Some (ST_Finished, w1)" "q \<in> set (tr_lstStatement (ss_transaction s))"
  shows "\<exists>w' s'. Session_Exec (run_classes cls) w s = Some (w', s') \<and> wd_stmts w' q = None \<and> wd_recs w' = wd_recs w1"
proof -
  let ?L = "tr_lstStatement (ss_transaction s)"
  have L: "distinct ?L" "\<forall>x \<in> set ?L. wd_stmts w x \<noteq> None" using assms(1) by (simp_all add: session_inv_def Let_def)
  have "\<forall>x \<in> set ?L. wd_stmts w1 x \<noteq> None" using L(2) classes_call [OF assms(5)] by (auto simp: one_call_def)
  then have "delete_stmts ?L w1 = Some (w1\<lparr>wd_stmts := (\<lambda>x. if x \<in> set ?L then None else wd_stmts w1 x)\<rparr>)"
    using L(1) by (intro delete_stmts_some)
  then show ?thesis using assms(2-6) by (simp add: Session_Exec_def exec_current_def SessionExec_def CloseTransaction_def)
qed

text \<open>
  An insert of two rows of which the second is rejected: the statement is deleted, while the action of the first row, which refers to
  the statement, stays in the queue of the primary index.
\<close>

lemma insert_error_leaves_actions:
  "\<exists>w' s'. Session_Exec (run_classes (\<lambda>_. InsertStatement [Row_ok, Row_rejected])) (sample_world ST_Created) (sample_session False) = Some (w', s') \<and>
     wd_stmts w' 0 = None \<and> wd_actions w' = [0]"
proof -
  obtain tid gs where t: "take_tran_id 0 [5] = (tid, gs)" by fastforce
  show ?thesis
    by (simp add: Session_Exec_def exec_current_def SessionExec_def run_classes_def Insert_SessionExec_def StartTransaction_def sample_defs put_stmt_def Let_def
        CloseTransaction_def t)
qed

text \<open>A query or change whose point condition cannot be evaluated ends without telling the client.\<close>

lemma start_error_unreported:
  assumes "wd_stmts w r = Some st" "sm_status st = ST_Created" "c = UpdateStatement Start_error late \<or> c = DeleteStatement Start_error"
  shows "\<exists>w' st'. class_SessionExec c r w s = Some (ST_Finished, w') \<and> wd_stmts w' r = Some st' \<and> sr_finished st' = sr_finished st \<and> sr_bFailed st' = sr_bFailed st"
  using assms by (auto simp: Update_SessionExec_def Delete_SessionExec_def query_start_def put_stmt_def)

end
