(* ===== verification/Row_Handlers.thy ===== *)
theory Row_Handlers
  imports Expr_Logic Leaf_Update Leaf_Rows "HOL-Library.Monad_Syntax"
begin

text \<open>
  What a delete, an update and a query do with one record of a page of the primary index: \<open>HandleLeafRecord\<close> of \<open>DeleteStatement\<close>,
  \<open>UpdateStatement\<close> and \<open>TableSelectStatement\<close> (\<open>statement/\<close>). The record is opened (a finished lock is released, the row is read, for a
  query with its lock), the condition is evaluated on the row, and the record is replaced by a new version, with records for the
  secondary indices; or the selected columns are added to the result. \<open>None\<close> is a failed assertion or a null pointer.
\<close>

section \<open>The row\<close>

text \<open>
  What the three functions use: the externals of expressions, the crc function, the parameters, \<open>_exprWhere\<close> (none is the null pointer) with its
  condition, the primary index, the secondary indices with the positions of their columns, the statement, and whether an error
  of the thread is left from before.
\<close>

record RowEnv =
  rw_X :: externals
  rw_crc :: "buf \<Rightarrow> u32"
  rw_vctPara :: "ExprValue list"
  rw_exprWhere :: "ExprLogic option option"
  rw_tree :: TreeInfo
  rw_secs :: "(TreeInfo \<times> nat list) list"
  rw_stmt :: Stmt
  rw_error :: bool

text \<open>The page afterwards, the result, the records that are handed on, and the overflow pages that are recycled.\<close>

type_synonym RowResult = "LeafPage \<times> TriBool \<times> LeafRecord list \<times> (u32 \<times> u16) list"

definition set_record :: "nat \<Rightarrow> LeafRecord \<Rightarrow> LeafPage \<Rightarrow> LeafPage" where
  "set_record pos lr p = p\<lparr>ip_vctRecord := (ip_vctRecord p)[pos := lr]\<rparr>"

definition open_record :: "RowEnv \<Rightarrow> ActionType \<Rightarrow> nat \<Rightarrow> LeafPage \<Rightarrow> (LeafPage \<times> (u32 \<times> u16) list \<times> ReadResult \<times> DataValue option list) option" where
  "open_record E aType pos p = do {
     (p, lr) \<leftarrow> LeafPage_GetRecord PRIMARY (int pos) p;
     (p, rec) \<leftarrow> (if ReleaseLockAble lr then map_option (\<lambda>(p, rr, rec). (p, rec)) (LeafPage_ReleaseLock pos p) else Some (p, []));
     (lr, res, vdv) \<leftarrow> ReadListValue (rw_tree E) [] (ip_vctRecord p ! pos) (rw_stmt E) aType False;
     Some (set_record pos lr p, rec, res, vdv)
   }"

definition check_where :: "RowEnv \<Rightarrow> ExprLogic option \<Rightarrow> DataValue list \<Rightarrow> TriBool option" where
  "check_where E exprLogic row =
     (case exprLogic of None \<Rightarrow> Some TB_True | Some e \<Rightarrow> ExprLogic_Calc (rw_X E) (rw_vctPara E) (map EV row) e)"

section \<open>Records of secondary indices\<close>

definition columns :: "nat list \<Rightarrow> DataValue list \<Rightarrow> DataValue list option" where
  "columns cols row = (if \<forall>c \<in> set cols. c < length row then Some (map ((!) row) cols) else None)"

text \<open>\<open>new LeafRecord(secTree, vctKey, lrNew->GetBysValue() + UI16_2_LEN, lrNew->GetKeyLength(), ...)\<close>\<close>

definition sec_record :: "RowEnv \<Rightarrow> u64 \<Rightarrow> LeafRecord \<Rightarrow> TreeInfo \<Rightarrow> DataValue list \<Rightarrow> ActionType \<Rightarrow> LeafRecord option" where
  "sec_record E stamp lrNew ti vctKey act =
     map_option fst (LeafRecord_secondary (x_alloc (rw_X E)) ti vctKey (drop UI16_2_LEN (rr_bysVal (lr_raw lrNew)))
       (ucast (GetKeyLength (lr_raw lrNew))) act stamp (Some (rw_stmt E)))"

text \<open>The loops end at the first record that is not valid; the flag tells that there was one.\<close>

fun delete_secs :: "RowEnv \<Rightarrow> u64 \<Rightarrow> LeafRecord \<Rightarrow> DataValue list \<Rightarrow> (TreeInfo \<times> nat list) list \<Rightarrow> (LeafRecord list \<times> bool) option" where
  "delete_secs E stamp lrNew row [] = Some ([], False)"
| "delete_secs E stamp lrNew row ((ti, cols) # secs) = do {
     vctKey \<leftarrow> columns cols row;
     lrSec \<leftarrow> sec_record E stamp lrNew ti vctKey DELETE;
     if \<not> rr_bValid (lr_raw lrSec) then Some ([lrSec], True)
     else map_option (apfst (Cons lrSec)) (delete_secs E stamp lrNew row secs)
   }"

text \<open>
  An index whose columns are assigned gets a delete of the old key and an insert of the new one, the others an update. \<open>row2\<close> has
  the old values of the assigned columns.
\<close>

fun update_secs :: "RowEnv \<Rightarrow> u64 \<Rightarrow> LeafRecord \<Rightarrow> DataValue list \<Rightarrow> DataValue option list \<Rightarrow> (TreeInfo \<times> nat list) list \<Rightarrow>
    (LeafRecord list \<times> bool) option" where
  "update_secs E stamp lrNew row row2 [] = Some ([], False)"
| "update_secs E stamp lrNew row row2 ((ti, cols) # secs) = do {
     vctKey \<leftarrow> columns cols row;
     if \<exists>c \<in> set cols. row2 ! c \<noteq> None then do {
       lrOld \<leftarrow> sec_record E stamp lrNew ti (map (\<lambda>c. case row2 ! c of Some dv \<Rightarrow> dv | None \<Rightarrow> row ! c) cols) DELETE;
       if \<not> rr_bValid (lr_raw lrOld) then Some ([lrOld], True)
       else do {
         lrSec \<leftarrow> sec_record E stamp lrNew ti vctKey INSERT;
         if \<not> rr_bValid (lr_raw lrSec) then Some ([lrOld, lrSec], True)
         else map_option (apfst (append [lrOld, lrSec])) (update_secs E stamp lrNew row row2 secs)
       }
     }
     else do {
       lrSec \<leftarrow> sec_record E stamp lrNew ti vctKey UPDATE;
       if \<not> rr_bValid (lr_raw lrSec) then Some ([lrSec], True)
       else map_option (apfst (Cons lrSec)) (update_secs E stamp lrNew row row2 secs)
     }
   }"

section \<open>Delete\<close>

text \<open>
  When a record of a secondary index is not valid, its error is in its lock; the message that is sent is that of the thread, a null
  pointer if there has been no error before.
\<close>

definition Delete_HandleLeafRecord :: "RowEnv \<Rightarrow> u64 \<Rightarrow> u32 \<Rightarrow> nat \<Rightarrow> LeafPage \<Rightarrow> RowResult option" where
  "Delete_HandleLeafRecord E stamp pid pos p = do {
     exprLogic \<leftarrow> rw_exprWhere E;
     (p, rec, res, vdv) \<leftarrow> open_record E DELETE pos p;
     if res = REC_DELETE then Some (p, TB_False, [], rec)
     else if res \<noteq> OK_NOLOCK then Some (p, TB_Error, [], rec)
     else do {
       row \<leftarrow> those vdv;
       tb \<leftarrow> check_where E exprLogic row;
       if tb \<noteq> TB_True then Some (p, tb, [], rec)
       else do {
         let lr = ip_vctRecord p ! pos;
         lrNew \<leftarrow> UpdateRecord (rw_crc E) (x_alloc (rw_X E)) pid (rw_tree E) lr row stamp (rw_stmt E) DELETE False;
         (secs, failed) \<leftarrow> delete_secs E stamp lrNew row (rw_secs E);
         if failed then (if rw_error E then Some (p, TB_Error, [], rec @ recycled lrNew) else None)
         else Some (LeafPage_SetRecordUpdated (UpdateDataLength (set_record pos lrNew p)
                      (len_delta (commitLen lrNew) (commitLen lr)) (len_delta (tempLen lrNew) (tempLen lr))),
                    TB_True, lrNew # secs, rec)
       }
     }
   }"

section \<open>Update\<close>

text \<open>
  The assignments are made one after the other, on the row. The outer \<open>None\<close> is a stop of the program, the inner one an error. The
  result of \<open>Copy\<close> is not looked at. A text that is assigned to itself is copied from the new buffer, that has no content yet.
\<close>

definition self_text :: "nat \<Rightarrow> ExprData \<Rightarrow> DataValue \<Rightarrow> bool" where
  "self_text pos e dv \<longleftrightarrow> e = ExprField (int pos) \<and>
     (case dv of DV_VarChar c \<Rightarrow> ch_valType c = SOLE_VALUE | DV_Blob c \<Rightarrow> ch_valType c = SOLE_VALUE | _ \<Rightarrow> False)"

definition computed :: "ExprData \<Rightarrow> bool" where
  "computed e \<longleftrightarrow> (case e of ExprConst _ \<Rightarrow> False | ExprField _ \<Rightarrow> False | ExprParameter _ \<Rightarrow> False | _ \<Rightarrow> True)"

fun assign_cols :: "RowEnv \<Rightarrow> (nat \<times> ExprData) list \<Rightarrow> DataValue list \<Rightarrow> DataValue option list \<Rightarrow>
    (DataValue list \<times> DataValue option list) option option" where
  "assign_cols E [] row row2 = Some (Some (row, row2))"
| "assign_cols E ((pos, e) # cols) row row2 = do {
     dv \<leftarrow> ExprData_Calc (rw_X E) (rw_vctPara E) (map EV row) e;
     case dv of
       None \<Rightarrow> Some None
     | Some v \<Rightarrow>
         if length row \<le> pos \<or> self_text pos e (row ! pos) then None
         else do {
           c \<leftarrow> dv_Copy (rw_X E) (computed e) v (row ! pos);
           assign_cols E cols (case c of Inl e \<Rightarrow> row | Inr d \<Rightarrow> row[pos := d]) (row2[pos := Some (row ! pos)])
         }
   }"

text \<open>
  After a failure the new version is deleted while it has its lock, which its destructor refuses. The lengths of the page
  are not changed.
\<close>

definition Update_HandleLeafRecord :: "RowEnv \<Rightarrow> (nat \<times> ExprData) list \<Rightarrow> u64 \<Rightarrow> u32 \<Rightarrow> nat \<Rightarrow> LeafPage \<Rightarrow> RowResult option" where
  "Update_HandleLeafRecord E vctCol stamp pid pos p = do {
     exprLogic \<leftarrow> rw_exprWhere E;
     (p, rec, res, vdv) \<leftarrow> open_record E UPDATE pos p;
     if res = REC_DELETE then Some (p, TB_False, [], rec)
     else if res \<noteq> OK_NOLOCK then (if res = OK_LOCK then None else Some (p, TB_Error, [], rec))
     else do {
       row \<leftarrow> those vdv;
       tb \<leftarrow> check_where E exprLogic row;
       if tb \<noteq> TB_True then Some (p, tb, [], rec)
       else do {
         assigned \<leftarrow> assign_cols E vctCol row (replicate (length row) None);
         case assigned of
           None \<Rightarrow> Some (p, TB_Error, [], rec)
         | Some (row, row2) \<Rightarrow> do {
             lrNew \<leftarrow> UpdateRecord (rw_crc E) (x_alloc (rw_X E)) pid (rw_tree E) (ip_vctRecord p ! pos) row stamp (rw_stmt E) UPDATE False;
             (secs, failed) \<leftarrow> update_secs E stamp lrNew row row2 (rw_secs E);
             if failed then None
             else Some (LeafPage_SetRecordUpdated (set_record pos lrNew p), TB_True, secs @ [lrNew], rec)
           }
       }
     }
   }"

section \<open>Select\<close>

datatype LockType = NO_LOCK | SHARE_LOCK | WRITE_LOCK

definition lock_action :: "LockType \<Rightarrow> ActionType" where
  "lock_action lockType = (case lockType of NO_LOCK \<Rightarrow> NO_ACTION | SHARE_LOCK \<Rightarrow> READ_SHARE | WRITE_LOCK \<Rightarrow> READ_UPDATE)"

text \<open>A lock that was taken for a row that is not wanted is given back.\<close>

definition give_back :: "RowEnv \<Rightarrow> ReadResult \<Rightarrow> nat \<Rightarrow> LeafPage \<Rightarrow> LeafPage option" where
  "give_back E res pos p =
     (if res = OK_LOCK then map_option (\<lambda>lr. set_record pos lr p) (SubmitStatement (ip_vctRecord p ! pos) (rw_stmt E) FREEED) else Some p)"

text \<open>The last component is the row that is added to the result.\<close>

definition Select_HandleLeafRecord ::
    "RowEnv \<Rightarrow> LockType \<Rightarrow> nat list \<Rightarrow> nat \<Rightarrow> LeafPage \<Rightarrow> (RowResult \<times> DataValue list option) option" where
  "Select_HandleLeafRecord E lockType vctCol pos p = do {
     exprLogic \<leftarrow> rw_exprWhere E;
     (p, rec, res, vdv) \<leftarrow> open_record E (lock_action lockType) pos p;
     if res = REC_DELETE then Some ((p, TB_False, [], rec), None)
     else if res \<noteq> OK_NOLOCK \<and> res \<noteq> OK_LOCK then Some ((p, TB_Error, [], rec), None)
     else do {
       row \<leftarrow> those vdv;
       tb \<leftarrow> check_where E exprLogic row;
       if tb \<noteq> TB_True then map_option (\<lambda>p. ((p, tb, [], rec), None)) (give_back E res pos p)
       else do {
         dvs \<leftarrow> columns vctCol row;
         Some ((p, TB_True, if res = OK_LOCK then [ip_vctRecord p ! pos] else [], rec), Some dvs)
       }
     }
   }"

section \<open>Only the lock of a record changes\<close>

definition lock_change :: "LeafRecord \<Rightarrow> LeafRecord \<Rightarrow> bool" where
  "lock_change lr lr' \<longleftrightarrow> lr' = lr \<or>
     (\<exists>l'. lr' = set_lock (Some l') lr \<and>
        (case lr_recLock lr of
           None \<Rightarrow> rl_undoRec l' = None \<and> \<not> masked (rl_actType l') UPDATEABLE_MASK
         | Some l \<Rightarrow> rl_undoRec l' = rl_undoRec l \<and> masked (rl_actType l') UPDATEABLE_MASK = masked (rl_actType l) UPDATEABLE_MASK))"

lemma oldest_lock:
  "lr_recLock lr = None \<Longrightarrow> oldest lr = lr"
  "lr_recLock lr = Some l \<Longrightarrow> oldest lr = (case rl_undoRec l of None \<Rightarrow> lr | Some u \<Rightarrow> oldest u)"
proof -
  obtain raw k ov where lr: "lr = LeafRecord raw k ov" by (cases lr)
  show "lr_recLock lr = None \<Longrightarrow> oldest lr = lr" by (simp add: lr)
  show "lr_recLock lr = Some l \<Longrightarrow> oldest lr = (case rl_undoRec l of None \<Rightarrow> lr | Some u \<Rightarrow> oldest u)"
    by (cases l; cases "rl_undoRec l") (simp_all add: lr)
qed

lemma lock_change_same:
  assumes "lock_change lr lr'"
  shows "lr_raw lr' = lr_raw lr" "tempLen lr' = tempLen lr" "commitLen lr' = commitLen lr" "chain_ok t lr' = chain_ok t lr"
proof -
  show raw: "lr_raw lr' = lr_raw lr" using assms by (auto simp: lock_change_def)
  then show "tempLen lr' = tempLen lr" by (simp add: tempLen_def)
  show "commitLen lr' = commitLen lr"
  proof (cases "lr' = lr")
    case False
    then obtain l' where l': "lr_recLock lr' = Some l'"
        "case lr_recLock lr of None \<Rightarrow> rl_undoRec l' = None \<and> \<not> masked (rl_actType l') UPDATEABLE_MASK
         | Some l \<Rightarrow> rl_undoRec l' = rl_undoRec l \<and> masked (rl_actType l') UPDATEABLE_MASK = masked (rl_actType l) UPDATEABLE_MASK"
      using assms by (auto simp: lock_change_def)
    show ?thesis
    proof (cases "lr_recLock lr")
      case None
      then have "oldest lr' = lr'" "oldest lr = lr" using l' by (simp_all add: oldest_lock)
      then show ?thesis using None l' raw by (simp add: commitLen_def Let_def GetAction_def)
    next
      case (Some l)
      show ?thesis
      proof (cases "rl_undoRec l")
        case None
        then have "oldest lr' = lr'" "oldest lr = lr" using Some l' by (simp_all add: oldest_lock)
        then show ?thesis using Some l' raw by (simp add: commitLen_def Let_def GetAction_def)
      next
        case (Some u)
        then have "oldest lr' = oldest u" "oldest lr = oldest u" using \<open>lr_recLock lr = Some l\<close> l' by (simp_all add: oldest_lock)
        then show ?thesis by (simp add: commitLen_def)
      qed
    qed
  qed simp
  obtain raw k ov where lr: "lr = LeafRecord raw k ov" by (cases lr)
  show "chain_ok t lr' = chain_ok t lr"
    using assms by (cases k) (auto simp: lr lock_change_def set_lock_def chain_ok_lock)
qed

lemma lock_change_trans: "lock_change a b \<Longrightarrow> lock_change b c \<Longrightarrow> lock_change a c"
  by (cases "lr_recLock a") (auto simp: lock_change_def set_lock_def)

lemma set_lock_same: "lr_recLock lr = Some l \<Longrightarrow> lock_change lr (set_lock (Some l') lr) \<longleftrightarrow>
    set_lock (Some l') lr = lr \<or> rl_undoRec l' = rl_undoRec l \<and> masked (rl_actType l') UPDATEABLE_MASK = masked (rl_actType l) UPDATEABLE_MASK"
  by (cases lr) (auto simp: lock_change_def set_lock_def)

lemma lock_change_refl [simp]: "lock_change lr lr"
  by (simp add: lock_change_def)

lemma check_lock_change: "ReadListValue_check lr stmt a = (lr', r) \<Longrightarrow> lock_change lr lr'"
  by (auto simp: ReadListValue_check_def Let_def set_lock_same split: option.splits if_splits)

lemma set_lock_new:
  "lr_recLock lr = None \<Longrightarrow> rl_undoRec l' = None \<Longrightarrow> \<not> masked (rl_actType l') UPDATEABLE_MASK \<Longrightarrow> lock_change lr (set_lock (Some l') lr)"
  unfolding lock_change_def by (intro disjI2 exI [of _ l']) simp

lemma add_lock_change: "ReadListValue_add lr stmt a gap = (lr', b) \<Longrightarrow> lock_change lr lr'"
  by (auto simp: ReadListValue_add_def Let_def set_lock_same RecordLock_new_def set_lock_new split: option.splits if_splits)

lemma lock_lock_change:
  assumes "ReadListValue_lock lr stmt a gap = Some (lr', r)" shows "lock_change lr lr'"
proof -
  obtain lr1 c where c: "ReadListValue_check lr stmt a = (lr1, c)" by fastforce
  then show ?thesis using assms check_lock_change [OF c] lock_change_trans add_lock_change
    by (fastforce simp: ReadListValue_lock_def Let_def split: if_splits sum.splits prod.splits)
qed

lemma read_lock_change:
  assumes "ReadListValue ti m lr stmt a gap = Some (lr', res, vals)" shows "lock_change lr lr'"
  using assms lock_lock_change [of lr stmt a gap]
  by (auto simp: ReadListValue_def Let_def split: option.splits sum.splits prod.splits if_splits)

lemma submit_lock_change:
  assumes "SubmitStatement lr stmt sts = Some lr'" shows "lock_change lr lr'"
  using assms by (auto simp: SubmitStatement_def set_lock_same split: option.splits if_splits)

section \<open>The page\<close>

lemma set_record_simps [simp]:
  "ip_vctRecord (set_record i lr p) = (ip_vctRecord p)[i := lr]" "ip_recordNum (set_record i lr p) = ip_recordNum p"
  "ip_tempDataLength (set_record i lr p) = ip_tempDataLength p" "ip_committedDataLength (set_record i lr p) = ip_committedDataLength p"
  "cp_bysPage (set_record i lr p) = cp_bysPage p"
  by (simp_all add: set_record_def)

lemma set_record_lock:
  assumes "leaf_inv t p" "i < length (ip_vctRecord p)" "lock_change (ip_vctRecord p ! i) lr"
  shows "leaf_inv t (set_record i lr p)"
proof (rule leaf_inv_update [OF assms(1,2)])
  have "chain_ok t (ip_vctRecord p ! i)" using leaf_invD(4) [OF assms(1)] assms(2) by simp
  then show "chain_ok t lr" using lock_change_same(4) [OF assms(3)] by simp
  show "order_bytes t (lr_raw lr) = order_bytes t (raws p ! i)" using lock_change_same(1) [OF assms(3)] assms(2) by simp
qed (simp add: set_record_def lock_change_same [OF assms(3)])

lemma get_record:
  assumes "LeafPage_GetRecord PRIMARY (int pos) p = Some (q, lr)" "leaf_inv t p"
  shows "q = p" "pos < length (ip_vctRecord p)" "lr = ip_vctRecord p ! pos"
  using assms leaf_invD(1) [OF assms(2)] by (auto simp: LeafPage_GetRecord_def split: if_splits)

text \<open>A writer reads the record itself.\<close>

lemma writer_reads_newest:
  assumes "ReadListValue ti m lr stmt a gap = Some (lr', OK_NOLOCK, vals)" "a = UPDATE \<or> a = DELETE"
  shows "\<not> lr_bDelete lr'" "rr_indexType (lr_raw lr') = PRIMARY"
proof -
  obtain r where r: "ReadListValue_lock lr stmt a gap = Some (lr', r)"
    using assms(1) by (auto simp: ReadListValue_def Let_def split: option.splits sum.splits prod.splits if_splits)
  have raw: "lr_raw lr' = lr_raw lr" by (rule lock_change_same(1) [OF lock_lock_change [OF r]])
  obtain lr1 c where c: "ReadListValue_check lr stmt a = (lr1, c)" by fastforce
  have "c = Inr lr1 \<or> c = Inl LOCKED"
    using c assms(2) by (auto simp: ReadListValue_check_def Let_def split: option.splits if_splits)
  moreover have "c \<noteq> Inl LOCKED" using assms(1) r c by (auto simp: ReadListValue_def ReadListValue_lock_def Let_def split: if_splits)
  moreover have "lr_raw lr1 = lr_raw lr" by (rule lock_change_same(1) [OF check_lock_change [OF c]])
  ultimately show "\<not> lr_bDelete lr'"
    using assms(1) r c raw by (auto simp: ReadListValue_def ReadListValue_lock_def Let_def split: if_splits)
  show "rr_indexType (lr_raw lr') = PRIMARY" using r raw by (auto simp: ReadListValue_lock_def split: if_splits)
qed

text \<open>
  Opening a record keeps the page, unless the record turns out to be deleted: then it stays in the page.
\<close>

lemma open_record_page:
  assumes "open_record E a pos p = Some (q, rec, res, vdv)" "leaf_inv PRIMARY p"
  shows "pos < length (ip_vctRecord q)" "length (ip_vctRecord q) = length (ip_vctRecord p)"
    and "\<And>i. i \<noteq> pos \<Longrightarrow> ip_vctRecord q ! i = ip_vctRecord p ! i"
    and "\<not> lr_bDelete (ip_vctRecord q ! pos) \<Longrightarrow>
      leaf_inv PRIMARY q \<and> order_bytes PRIMARY (lr_raw (ip_vctRecord q ! pos)) = order_bytes PRIMARY (lr_raw (ip_vctRecord p ! pos))"
    and "a = UPDATE \<or> a = DELETE \<Longrightarrow> res = OK_NOLOCK \<Longrightarrow> \<not> lr_bDelete (ip_vctRecord q ! pos)"
proof -
  obtain p1 lr0 where g: "LeafPage_GetRecord PRIMARY (int pos) p = Some (p1, lr0)"
    using assms(1) by (auto simp: open_record_def split: bind_splits)
  note gr = get_record [OF g assms(2)]
  obtain p2 rec2 where p2: "(if ReleaseLockAble lr0 then map_option (\<lambda>(p, rr, rec). (p, rec)) (LeafPage_ReleaseLock pos p) else Some (p, [])) = Some (p2, rec2)"
      and "\<exists>lr. ReadListValue (rw_tree E) [] (ip_vctRecord p2 ! pos) (rw_stmt E) a False = Some (lr, res, vdv) \<and> q = set_record pos lr p2"
    using assms(1) g gr(1) by (auto simp: open_record_def split: bind_splits)
  then obtain lr where lr: "ReadListValue (rw_tree E) [] (ip_vctRecord p2 ! pos) (rw_stmt E) a False = Some (lr, res, vdv)" "q = set_record pos lr p2"
    by blast
  note lc = read_lock_change [OF lr(1)]
  have p2': "length (ip_vctRecord p2) = length (ip_vctRecord p) \<and> (\<forall>i. i \<noteq> pos \<longrightarrow> ip_vctRecord p2 ! i = ip_vctRecord p ! i) \<and>
      (\<not> lr_bDelete (ip_vctRecord p2 ! pos) \<longrightarrow>
        leaf_inv PRIMARY p2 \<and> order_bytes PRIMARY (lr_raw (ip_vctRecord p2 ! pos)) = order_bytes PRIMARY (lr_raw (ip_vctRecord p ! pos)))"
  proof (cases "ReleaseLockAble lr0")
    case True
    then obtain rr where rel: "LeafPage_ReleaseLock pos p = Some (p2, rr, rec2)" using p2 by auto
    then obtain lr1 where lr1: "ReleaseLock (ip_vctRecord p ! pos) = Some (lr1, rr, rec2)"
      by (auto simp: LeafPage_ReleaseLock_def Let_def split: option.splits)
    note st = release_step [OF assms(2) gr(2) lr1 rel]
    show ?thesis using st(1,2) gr(2) by simp
  next
    case False
    then show ?thesis using p2 assms(2) by simp
  qed
  show pos: "pos < length (ip_vctRecord q)" and "length (ip_vctRecord q) = length (ip_vctRecord p)" using p2' gr(2) by (simp_all add: lr(2))
  show "\<And>i. i \<noteq> pos \<Longrightarrow> ip_vctRecord q ! i = ip_vctRecord p ! i" using p2' by (simp add: lr(2))
  have raw: "lr_raw (ip_vctRecord q ! pos) = lr_raw (ip_vctRecord p2 ! pos)" using lock_change_same(1) [OF lc] pos by (simp add: lr(2))
  show "leaf_inv PRIMARY q \<and> order_bytes PRIMARY (lr_raw (ip_vctRecord q ! pos)) = order_bytes PRIMARY (lr_raw (ip_vctRecord p ! pos))"
    if "\<not> lr_bDelete (ip_vctRecord q ! pos)"
    using p2' that raw set_record_lock [OF _ _ lc, of PRIMARY] gr(2) by (simp add: lr(2))
  show "\<not> lr_bDelete (ip_vctRecord q ! pos)" if "a = UPDATE \<or> a = DELETE" "res = OK_NOLOCK"
    using writer_reads_newest(1) [OF _ that(1)] lr(1) that(2) pos by (auto simp: lr(2))
qed

section \<open>The version of a delete\<close>

lemma delete_filled:
  assumes "alloc_ok alloc" "unat (GetKeyLength (lr_raw this)) \<le> MAX_KEY_LENGTH" "chain_ok PRIMARY this"
  shows "\<exists>b. fill_record crc alloc ti (of_nat UI16_2_LEN + GetKeyLength (lr_raw this) + 13) (GetKeyLength (lr_raw this))
      (drop UI16_2_LEN (rr_bysVal (lr_raw this))) stamp 0 DELETE row None = Some (b, None) \<and>
    leaf_wf PRIMARY (leaf_raw PRIMARY b True True) \<and> order_bytes PRIMARY (leaf_raw PRIMARY b True True) = order_bytes PRIMARY (lr_raw this)"
proof -
  let ?old = "rr_bysVal (lr_raw this)" and ?lk = "GetKeyLength (lr_raw this)"
  let ?tot = "of_nat (17 + unat ?lk) :: u16"
  have wf: "leaf_wf PRIMARY (lr_raw this)" using chain_wf [OF assms(3)] .
  have kl: "unat ?lk \<le> length (drop UI16_2_LEN ?old)" using wf by (auto simp: leaf_wf_def rec_wf_def rec_fits_def)
  have ut: "unat ?tot = 17 + unat ?lk" using assms(2) by (simp only: unat_of_nat) (simp add: MAX_KEY_LENGTH_def)
  have tot: "of_nat UI16_2_LEN + ?lk + 13 = ?tot" by simp
  let ?h = "header_image ?tot ?lk (take (unat ?lk) (drop UI16_2_LEN ?old)) (version_byte False DELETE) stamp 0"
  let ?b = "?h @ drop (17 + unat ?lk) (alloc (unat ?tot))"
  have fr: "fill_record crc alloc ti ?tot ?lk (drop UI16_2_LEN ?old) stamp 0 DELETE row None = Some (?b, None)"
    using header_filled [OF kl, of "alloc (unat ?tot)" False ?tot stamp 0 DELETE] assms(1) ut by (simp add: fill_record_def Let_def)
  have klen: "length (take (unat ?lk) (drop UI16_2_LEN ?old)) = unat ?lk" using kl by simp
  note h = header_image_simps [OF klen, of ?tot "version_byte False DELETE" stamp 0 "drop (17 + unat ?lk) (alloc (unat ?tot))"]
  have len: "length ?b = 17 + unat ?lk" using length_header_image [OF klen] assms(1) ut by simp
  let ?raw = "leaf_raw PRIMARY ?b True True"
  have key: "GetKeyLength ?raw = ?lk" "rec_key ?raw = rec_key (lr_raw this)"
    using h(1-3) by (simp_all add: leaf_raw_def GetKeyLength_def rec_key_def)
  have "leaf_wf PRIMARY ?raw" using key(1) len by (simp add: leaf_wf_def rec_wf_def rec_fits_def leaf_raw_def)
  moreover have "order_bytes PRIMARY ?raw = order_bytes PRIMARY (lr_raw this)" using key(2) by (simp add: order_bytes_def)
  ultimately show ?thesis using fr by (intro exI [of _ ?b]) (simp only: tot)
qed

lemma UpdateRecord_delete:
  "UpdateRecord crc alloc pid ti this row stamp stmt DELETE gap =
     (if UpdateRecord_lock this stmt DELETE gap = None \<or>
        rs_pidStart (RecStruct_load (rr_bysVal (lr_raw this))) \<noteq> None \<and> lr_overflowPage this = None then None
      else map_option (\<lambda>(b, ov). LeafRecord (leaf_raw PRIMARY b True True)
          (Some (set_undo (Some this) (the (UpdateRecord_lock this stmt DELETE gap)))) ov)
        (fill_record crc alloc ti (of_nat UI16_2_LEN + GetKeyLength (lr_raw this) + 13) (GetKeyLength (lr_raw this))
          (drop UI16_2_LEN (rr_bysVal (lr_raw this))) stamp 0 DELETE row None))"
  by (auto simp: UpdateRecord_def CalcValueLength_def Let_def GetKeyLength_def split: option.splits)

lemma delete_version:
  assumes "UpdateRecord crc alloc pid ti this row stamp stmt DELETE gap = Some lrNew" "alloc_ok alloc"
    and "unat (GetKeyLength (lr_raw this)) \<le> MAX_KEY_LENGTH" "chain_ok PRIMARY this"
  shows "\<exists>b lock. lrNew = LeafRecord (leaf_raw PRIMARY b True True) (Some lock) None \<and> rl_undoRec lock = Some this \<and>
    rl_actType lock = DELETE \<and> rl_lstTxid lock = [st_txId stmt] \<and> chain_ok PRIMARY lrNew \<and>
    order_bytes PRIMARY (lr_raw lrNew) = order_bytes PRIMARY (lr_raw this) \<and> commitLen lrNew = commitLen this"
proof -
  obtain b where b: "fill_record crc alloc ti (of_nat UI16_2_LEN + GetKeyLength (lr_raw this) + 13) (GetKeyLength (lr_raw this))
      (drop UI16_2_LEN (rr_bysVal (lr_raw this))) stamp 0 DELETE row None = Some (b, None)"
    "leaf_wf PRIMARY (leaf_raw PRIMARY b True True)" "order_bytes PRIMARY (leaf_raw PRIMARY b True True) = order_bytes PRIMARY (lr_raw this)"
    using delete_filled [OF assms(2-4)] by blast
  obtain lock where lock: "UpdateRecord_lock this stmt DELETE gap = Some lock"
      and new: "lrNew = LeafRecord (leaf_raw PRIMARY b True True) (Some (set_undo (Some this) lock)) None"
    using assms(1) b(1) by (auto simp: UpdateRecord_delete split: if_splits)
  have "oldest lrNew = oldest this" using new by (simp add: oldest_lock(2))
  then have "commitLen lrNew = commitLen this" by (simp add: commitLen_def)
  moreover have "chain_ok PRIMARY lrNew" using b(2,3) assms(4) by (simp add: new chain_ok_lock)
  moreover have "rl_actType lock = DELETE" "rl_lstTxid lock = [st_txId stmt]"
    using lock by (auto simp: UpdateRecord_lock_def RecordLock_new_def split: if_splits)
  ultimately show ?thesis using b(3) by (intro exI [of _ b] exI [of _ "set_undo (Some this) lock"]) (simp add: new)
qed

lemma key_length_eq:
  assumes "leaf_wf PRIMARY a" "leaf_wf PRIMARY b" "order_bytes PRIMARY a = order_bytes PRIMARY b"
  shows "unat (GetKeyLength a) = unat (GetKeyLength b)"
proof -
  have "length (rec_key a) = unat (GetKeyLength a)" "length (rec_key b) = unat (GetKeyLength b)"
    using assms(1,2) by (auto simp: leaf_wf_def rec_wf_def rec_fits_def rec_key_def)
  then show ?thesis using assms(3) by (simp add: order_bytes_def)
qed

lemma delete_secs_length: "delete_secs E stamp lrNew row secs = Some (lrs, False) \<Longrightarrow> length lrs = length secs"
  by (induction secs arbitrary: lrs) (auto split: bind_splits if_splits)

lemma delete_done:
  assumes "Delete_HandleLeafRecord E stamp pid pos p = Some (q, TB_True, lrs, rec)"
  shows "\<exists>p1 vdv row lrNew secs. open_record E DELETE pos p = Some (p1, rec, OK_NOLOCK, vdv) \<and>
    UpdateRecord (rw_crc E) (x_alloc (rw_X E)) pid (rw_tree E) (ip_vctRecord p1 ! pos) row stamp (rw_stmt E) DELETE False = Some lrNew \<and>
    delete_secs E stamp lrNew row (rw_secs E) = Some (secs, False) \<and> lrs = lrNew # secs \<and>
    q = LeafPage_SetRecordUpdated (UpdateDataLength (set_record pos lrNew p1)
          (len_delta (commitLen lrNew) (commitLen (ip_vctRecord p1 ! pos))) (len_delta (tempLen lrNew) (tempLen (ip_vctRecord p1 ! pos))))"
  using assms by (fastforce simp: Delete_HandleLeafRecord_def Let_def split: bind_splits if_splits)

lemma delete_otherwise:
  assumes "Delete_HandleLeafRecord E stamp pid pos p = Some (q, tb, lrs, rec)" "tb \<noteq> TB_True"
  shows "\<exists>rec' res vdv. open_record E DELETE pos p = Some (q, rec', res, vdv) \<and> lrs = []"
  using assms by (auto simp: Delete_HandleLeafRecord_def Let_def split: bind_splits if_splits)

text \<open>The record that a delete puts into the page, and the page.\<close>

lemma delete_puts:
  assumes "leaf_inv PRIMARY p" "alloc_ok (x_alloc (rw_X E))" "\<forall>lr \<in> set (ip_vctRecord p). unat (GetKeyLength (lr_raw lr)) \<le> MAX_KEY_LENGTH"
    and "Delete_HandleLeafRecord E stamp pid pos p = Some (q, TB_True, lrs, rec)"
  shows "\<exists>p1 vdv b lock. open_record E DELETE pos p = Some (p1, rec, OK_NOLOCK, vdv) \<and> pos < length (ip_vctRecord p) \<and>
    ip_vctRecord q = (ip_vctRecord p1)[pos := LeafRecord (leaf_raw PRIMARY b True True) (Some lock) None] \<and>
    rl_undoRec lock = Some (ip_vctRecord p1 ! pos) \<and> rl_actType lock = DELETE \<and> rl_lstTxid lock = [st_txId (rw_stmt E)] \<and>
    rl_recStatus lock = RS_INIT \<and> leaf_inv PRIMARY q \<and> ip_recordNum q = ip_recordNum p1 \<and>
    length lrs = Suc (length (rw_secs E)) \<and> hd lrs = ip_vctRecord q ! pos"
proof -
  obtain p1 vdv row lrNew secs where o: "open_record E DELETE pos p = Some (p1, rec, OK_NOLOCK, vdv)"
      and u: "UpdateRecord (rw_crc E) (x_alloc (rw_X E)) pid (rw_tree E) (ip_vctRecord p1 ! pos) row stamp (rw_stmt E) DELETE False = Some lrNew"
      and s: "delete_secs E stamp lrNew row (rw_secs E) = Some (secs, False)" "lrs = lrNew # secs"
      and q: "q = LeafPage_SetRecordUpdated (UpdateDataLength (set_record pos lrNew p1)
          (len_delta (commitLen lrNew) (commitLen (ip_vctRecord p1 ! pos))) (len_delta (tempLen lrNew) (tempLen (ip_vctRecord p1 ! pos))))"
    using delete_done [OF assms(4)] by blast
  note op = open_record_page [OF o assms(1)]
  have inv: "leaf_inv PRIMARY p1" "order_bytes PRIMARY (lr_raw (ip_vctRecord p1 ! pos)) = order_bytes PRIMARY (lr_raw (ip_vctRecord p ! pos))"
    using op(4) op(5) by blast+
  have ch: "chain_ok PRIMARY (ip_vctRecord p1 ! pos)" "chain_ok PRIMARY (ip_vctRecord p ! pos)"
    using leaf_invD(4) [OF inv(1)] leaf_invD(4) [OF assms(1)] op(1,2) by simp_all
  have kl: "unat (GetKeyLength (lr_raw (ip_vctRecord p1 ! pos))) \<le> MAX_KEY_LENGTH"
    using key_length_eq [OF chain_wf [OF ch(1)] chain_wf [OF ch(2)] inv(2)] assms(3) op(1,2) by simp
  obtain b lock where n: "lrNew = LeafRecord (leaf_raw PRIMARY b True True) (Some lock) None" "rl_undoRec lock = Some (ip_vctRecord p1 ! pos)"
      "rl_actType lock = DELETE" "rl_lstTxid lock = [st_txId (rw_stmt E)]" "chain_ok PRIMARY lrNew"
      "order_bytes PRIMARY (lr_raw lrNew) = order_bytes PRIMARY (lr_raw (ip_vctRecord p1 ! pos))"
    using delete_version [OF u assms(2) kl ch(1)] by blast
  have st: "rl_recStatus lock = RS_INIT"
    using u n(1) by (auto simp: UpdateRecord_def UpdateRecord_lock_def RecordLock_new_def Let_def split: option.splits if_splits)
  have "leaf_inv PRIMARY (UpdateDataLength (set_record pos lrNew p1)
          (len_delta (commitLen lrNew) (commitLen (ip_vctRecord p1 ! pos))) (len_delta (tempLen lrNew) (tempLen (ip_vctRecord p1 ! pos))))"
    by (rule leaf_inv_update [OF inv(1) op(1) n(5)]) (use n(6) op(1) in \<open>simp_all add: UpdateDataLength_def set_record_def len_delta_def\<close>)
  then have "leaf_inv PRIMARY q" by (simp add: q LeafPage_SetRecordUpdated_def)
  moreover have "ip_vctRecord q = (ip_vctRecord p1)[pos := lrNew]" "ip_recordNum q = ip_recordNum p1"
    by (simp_all add: q LeafPage_SetRecordUpdated_def UpdateDataLength_def)
  ultimately show ?thesis using o n(1-4) st s delete_secs_length [OF s(1)] op(1,2)
    by (intro exI [of _ p1] exI [of _ vdv] exI [of _ b] exI [of _ lock]) simp
qed

section \<open>What other transactions see\<close>

lemma read_unlocked_action:
  assumes "lr_recLock lr = None" "\<not> masked a READ_LOCK_MASK"
  shows "ReadListValue ti m lr stmt a gap = ReadListValue ti m lr stmt' NO_ACTION gap'"
    and "ReadListValue ti m lr stmt a gap = Some (lr', res, vals) \<Longrightarrow> lr' = lr"
  using assms
  by (auto simp: ReadListValue_def ReadListValue_lock_def check_unlocked ReadListValue_add_def Let_def split: option.splits if_splits)

text \<open>A record that is being changed: its new version has no overflow page, the old one no lock.\<close>

definition pending :: "LeafRecord \<Rightarrow> Stmt \<Rightarrow> LeafRecord \<Rightarrow> bool" where
  "pending u stmt lr \<longleftrightarrow> (\<exists>raw lock. lr = LeafRecord raw (Some lock) None \<and> rr_indexType raw = PRIMARY \<and>
     rl_undoRec lock = Some u \<and> rl_actType lock = DELETE \<and> rl_recStatus lock = RS_INIT \<and> rl_lstTxid lock = [st_txId stmt]) \<and>
     lr_recLock u = None \<and> lr_overflowPage u = None \<and> rr_indexType (lr_raw u) = PRIMARY"

lemma pending_read:
  assumes "pending u own lr"
  shows "ReadListValue ti m lr stmt NO_ACTION gap = map_option (\<lambda>(_, r). (lr, r)) (ReadListValue ti m u stmt NO_ACTION gap)"
    and "\<not> ReleaseLockAble lr"
proof -
  obtain raw lock where lr: "lr = LeafRecord raw (Some lock) None" "rr_indexType raw = PRIMARY" "rl_undoRec lock = Some u"
      "rl_actType lock = DELETE" "rl_recStatus lock = RS_INIT" and u: "lr_recLock u = None" "lr_overflowPage u = None" "rr_indexType (lr_raw u) = PRIMARY"
    using assms by (auto simp: pending_def)
  show n: "\<not> ReleaseLockAble lr" using lr by (simp add: ReleaseLockAble_def less_eq_RecordStatus_def)
  have v: "visible_version (Some u) = Some u" using u(1) by (cases u) simp
  have c: "ReadListValue_check lr stmt NO_ACTION = (lr, Inr u)" using lr v by (simp add: ReadListValue_check_def)
  have "ReadListValue_lock lr stmt NO_ACTION gap =
      map_option (\<lambda>(_, r). (lr, r)) (ReadListValue_lock u stmt NO_ACTION gap)"
    using c n lr(1,2) u by (simp add: ReadListValue_lock_def check_unlocked ReadListValue_add_def Let_def ReleaseLockAble_def)
  then show "ReadListValue ti m lr stmt NO_ACTION gap = map_option (\<lambda>(_, r). (lr, r)) (ReadListValue ti m u stmt NO_ACTION gap)"
    using lr(1) u(1,2)
    by (auto simp: ReadListValue_def Let_def ReadListValue_lock_def check_unlocked ReadListValue_add_def ReleaseLockAble_def
        option.map_comp comp_def split: option.splits if_splits sum.splits prod.splits)
qed

lemma pending_write:
  assumes "pending u own lr" "st_txId own \<noteq> TXID_NULL" "st_txId stmt \<noteq> st_txId own" "a = UPDATE \<or> a = DELETE"
  shows "ReadListValue ti m lr stmt a gap = Some (lr, LOCKED, [])"
  using assms(1-3) pending_read(2) [OF assms(1)] assms(4)
  by (auto simp: pending_def ReadListValue_def ReadListValue_lock_def ReadListValue_check_def)

text \<open>Opening a record without releasing a lock.\<close>

lemma get_record_inv: "leaf_inv t p \<Longrightarrow> pos < length (ip_vctRecord p) \<Longrightarrow> LeafPage_GetRecord PRIMARY (int pos) p = Some (p, ip_vctRecord p ! pos)"
  using leaf_invD(1) [of t p] by (auto simp: LeafPage_GetRecord_def)

lemma set_record_id [simp]: "set_record pos (ip_vctRecord p ! pos) p = p"
  by (simp add: set_record_def)

lemma open_kept:
  assumes "leaf_inv PRIMARY p" "pos < length (ip_vctRecord p)" "\<not> ReleaseLockAble (ip_vctRecord p ! pos)"
  shows "open_record E a pos p =
    map_option (\<lambda>(lr, res, vdv). (set_record pos lr p, [], res, vdv)) (ReadListValue (rw_tree E) [] (ip_vctRecord p ! pos) (rw_stmt E) a False)"
  using assms
  by (cases "ReadListValue (rw_tree E) [] (ip_vctRecord p ! pos) (rw_stmt E) a False") (auto simp: open_record_def get_record_inv)

lemma open_unlocked:
  assumes "leaf_inv PRIMARY p" "pos < length (ip_vctRecord p)" "lr_recLock (ip_vctRecord p ! pos) = None" "\<not> masked a READ_LOCK_MASK"
  shows "open_record E a pos p =
    map_option (\<lambda>(_, res, vdv). (p, [], res, vdv)) (ReadListValue (rw_tree E) [] (ip_vctRecord p ! pos) (rw_stmt E) a False)"
  using read_unlocked_action(2) [OF assms(3,4)] assms(1-3)
  by (cases "ReadListValue (rw_tree E) [] (ip_vctRecord p ! pos) (rw_stmt E) a False") (fastforce simp: open_kept ReleaseLockAble_def)+

lemma deleted_pending:
  assumes "leaf_inv PRIMARY p" "alloc_ok (x_alloc (rw_X E))" "\<forall>lr \<in> set (ip_vctRecord p). unat (GetKeyLength (lr_raw lr)) \<le> MAX_KEY_LENGTH"
    and "Delete_HandleLeafRecord E stamp pid pos p = Some (q, TB_True, lrs, rec)"
    and "lr_recLock (ip_vctRecord p ! pos) = None" "lr_overflowPage (ip_vctRecord p ! pos) = None"
  shows "pending (ip_vctRecord p ! pos) (rw_stmt E) (ip_vctRecord q ! pos)" "leaf_inv PRIMARY q"
    and "pos < length (ip_vctRecord p)" "pos < length (ip_vctRecord q)"
proof -
  obtain p1 vdv b lock where o: "open_record E DELETE pos p = Some (p1, rec, OK_NOLOCK, vdv)" "pos < length (ip_vctRecord p)"
    and q: "ip_vctRecord q = (ip_vctRecord p1)[pos := LeafRecord (leaf_raw PRIMARY b True True) (Some lock) None]"
    and l: "rl_undoRec lock = Some (ip_vctRecord p1 ! pos)" "rl_actType lock = DELETE" "rl_lstTxid lock = [st_txId (rw_stmt E)]"
      "rl_recStatus lock = RS_INIT" and i: "leaf_inv PRIMARY q"
    using delete_puts [OF assms(1-4)] by blast
  have p1: "p1 = p" using o(1) assms(1,5) o(2) by (auto simp: open_unlocked)
  have "rr_indexType (lr_raw (ip_vctRecord p ! pos)) = PRIMARY"
    using chain_wf [of PRIMARY "ip_vctRecord p ! pos"] leaf_invD(4) [OF assms(1)] o(2) by (simp add: leaf_wf_def rec_wf_def)
  then show "pending (ip_vctRecord p ! pos) (rw_stmt E) (ip_vctRecord q ! pos)"
    using q l assms(5,6) o(2) by (simp add: pending_def p1 leaf_raw_def)
  show "leaf_inv PRIMARY q" "pos < length (ip_vctRecord p)" "pos < length (ip_vctRecord q)" using i o(2) q by (simp_all add: p1)
qed

lemma open_pending:
  assumes "leaf_inv PRIMARY q" "pos < length (ip_vctRecord q)" "pending u own (ip_vctRecord q ! pos)"
  shows "open_record F NO_ACTION pos q =
      map_option (\<lambda>(_, res, vdv). (q, [], res, vdv)) (ReadListValue (rw_tree F) [] u (rw_stmt F) NO_ACTION False)"
    and "st_txId own \<noteq> TXID_NULL \<Longrightarrow> st_txId (rw_stmt F) \<noteq> st_txId own \<Longrightarrow> a = UPDATE \<or> a = DELETE \<Longrightarrow>
      open_record F a pos q = Some (q, [], LOCKED, [])"
  using assms pending_read [OF assms(3)] pending_write [OF assms(3)]
  by (cases "ReadListValue (rw_tree F) [] u (rw_stmt F) NO_ACTION False"; auto simp: open_kept)+

lemma reader_takes_no_lock: "ReadListValue ti m lr stmt NO_ACTION gap = Some (lr', res, vals) \<Longrightarrow> res \<noteq> OK_LOCK"
  by (auto simp: ReadListValue_def ReadListValue_lock_def ReadListValue_check_def ReadListValue_add_def Let_def
      split: option.splits if_splits sum.splits prod.splits)

section \<open>Properties\<close>

text \<open>
  C15: A delete replaces the record of its row and nothing else: the page stays sorted and its lengths exact, the new version
  is a deleted one with the lock of the transaction, the old version with the same key is kept below it, and there is one record for every
  index. When the row is not deleted the page keeps its invariant, unless the record turns out to be deleted already.
\<close>

theorem Delete_keeps_page:
  assumes "leaf_inv PRIMARY p" "alloc_ok (x_alloc (rw_X E))" "\<forall>lr \<in> set (ip_vctRecord p). unat (GetKeyLength (lr_raw lr)) \<le> MAX_KEY_LENGTH"
    and "Delete_HandleLeafRecord E stamp pid pos p = Some (q, tb, lrs, rec)"
  shows "(\<forall>i. i \<noteq> pos \<longrightarrow> ip_vctRecord q ! i = ip_vctRecord p ! i) \<and>
    (if tb = TB_True then leaf_inv PRIMARY q \<and> lr_bDelete (ip_vctRecord q ! pos) \<and> length lrs = Suc (length (rw_secs E)) \<and>
       (\<exists>lock u. lr_recLock (ip_vctRecord q ! pos) = Some lock \<and> rl_actType lock = DELETE \<and> rl_lstTxid lock = [st_txId (rw_stmt E)] \<and>
          rl_undoRec lock = Some u \<and> \<not> lr_bDelete u \<and> order_bytes PRIMARY (lr_raw u) = order_bytes PRIMARY (lr_raw (ip_vctRecord p ! pos)))
     else lrs = [] \<and> (leaf_inv PRIMARY q \<or> lr_bDelete (ip_vctRecord q ! pos)))"
proof (cases "tb = TB_True")
  case True
  then obtain p1 vdv b lock where o: "open_record E DELETE pos p = Some (p1, rec, OK_NOLOCK, vdv)" "pos < length (ip_vctRecord p)"
    and q: "ip_vctRecord q = (ip_vctRecord p1)[pos := LeafRecord (leaf_raw PRIMARY b True True) (Some lock) None]"
    and l: "rl_undoRec lock = Some (ip_vctRecord p1 ! pos)" "rl_actType lock = DELETE" "rl_lstTxid lock = [st_txId (rw_stmt E)]"
    and i: "leaf_inv PRIMARY q" "length lrs = Suc (length (rw_secs E))"
    using delete_puts [OF assms(1-3)] assms(4) by blast
  note op = open_record_page [OF o(1) assms(1)]
  show ?thesis using True q l i op by (auto simp: leaf_raw_def)
next
  case False
  then obtain rec' res vdv where o: "open_record E DELETE pos p = Some (q, rec', res, vdv)" "lrs = []"
    using delete_otherwise [OF assms(4)] by blast
  then show ?thesis using False open_record_page [OF o(1) assms(1)] by auto
qed

text \<open>
  C14: A delete is invisible until it is committed. Let a delete change a row that has no lock (it is committed) and no overflow page (with one the
  query stops the program, \<open>overflow_reader_aborts\<close>), on a leaf page that keeps its invariant and whose keys are not longer than
  \<open>MAX_KEY_LENGTH\<close>. Then a plain query of a statement of another transaction, with a condition, gives for this record exactly what it
  gave before, and an update or delete of that transaction is refused.
\<close>

theorem delete_isolated:
  assumes "leaf_inv PRIMARY p" "alloc_ok (x_alloc (rw_X E))" "\<forall>lr \<in> set (ip_vctRecord p). unat (GetKeyLength (lr_raw lr)) \<le> MAX_KEY_LENGTH"
    and "Delete_HandleLeafRecord E stamp pid pos p = Some (q, TB_True, lrs, rec)"
    and "lr_recLock (ip_vctRecord p ! pos) = None" "lr_overflowPage (ip_vctRecord p ! pos) = None"
    and "st_txId (rw_stmt E) \<noteq> TXID_NULL" "st_txId (rw_stmt F) \<noteq> st_txId (rw_stmt E)" "rw_exprWhere F \<noteq> None"
  shows "Select_HandleLeafRecord F NO_LOCK cols pos q =
      map_option (\<lambda>((_, r), row). ((q, r), row)) (Select_HandleLeafRecord F NO_LOCK cols pos p) \<and>
    Delete_HandleLeafRecord F stamp' pid' pos q = Some (q, TB_Error, [], []) \<and>
    Update_HandleLeafRecord F vctCol stamp' pid' pos q = Some (q, TB_Error, [], [])"
proof (intro conjI)
  note d = deleted_pending [OF assms(1-6)]
  note op = open_pending [OF d(2,4,1), where F = F] open_unlocked [OF assms(1) d(3) assms(5), of NO_ACTION F]
  obtain w where w: "rw_exprWhere F = Some w" using assms(9) by blast
  show "Delete_HandleLeafRecord F stamp' pid' pos q = Some (q, TB_Error, [], [])"
    "Update_HandleLeafRecord F vctCol stamp' pid' pos q = Some (q, TB_Error, [], [])"
    using op(2) assms(7,8) w by (simp_all add: Delete_HandleLeafRecord_def Update_HandleLeafRecord_def)
  let ?R = "ReadListValue (rw_tree F) [] (ip_vctRecord p ! pos) (rw_stmt F) NO_ACTION False"
  show "Select_HandleLeafRecord F NO_LOCK cols pos q =
      map_option (\<lambda>((_, r), row). ((q, r), row)) (Select_HandleLeafRecord F NO_LOCK cols pos p)"
  proof (cases ?R)
    case None
    then show ?thesis using op(1,3) w by (simp add: Select_HandleLeafRecord_def lock_action_def)
  next
    case (Some x)
    obtain lr res vals where x: "x = (lr, res, vals)" by (cases x)
    then have "res \<noteq> OK_LOCK" using Some reader_takes_no_lock by blast
    then show ?thesis using op(1,3) w Some x
      by (auto simp: Select_HandleLeafRecord_def lock_action_def give_back_def option.map_comp split: option.splits bind_splits)
  qed
qed

section \<open>Witnesses\<close>

lemma those_Some [simp]: "those (map Some xs) = Some xs"
  by (induction xs) simp_all

lemma sample_record:
  "\<exists>R rs. chain_ok PRIMARY R \<and> lr_recLock R = None \<and> lr_overflowPage R = None \<and> GetKeyLength (lr_raw R) = 1 \<and>
     rs_pidStart (RecStruct_load (rr_bysVal (lr_raw R))) = None \<and>
     (\<forall>st g. ReadListValue sample_tree [] R st NO_ACTION g = Some (R, OK_NOLOCK, map Some rs)) \<and>
     list_all2 (\<lambda>r v. field_content r = field_content v) rs sample_row"
proof -
  obtain nl where nl: "null_map nl sample_row"
    using fill_record_plain [OF sample_row_ok(1,2) alloc_ok_replicate, of 1 "[9]" INSERT] sample_row_ok(5) by fastforce
  let ?b = "header_image 30 1 [9] 1 77 12 @ value_image nl sample_row"
  let ?R = "LeafRecord (leaf_raw PRIMARY ?b True False) None None"
  have u: "length [9 :: byte] = unat (1 :: u16)" by simp
  have pl: "if (1 :: byte) AND REC_OVERFLOW_BIT = 0 then value_image nl sample_row = value_image nl sample_row @ []
      else map_option op_bysPage None = Some (value_image nl sample_row @ [])" by (simp add: REC_OVERFLOW_BIT_def)
  obtain rs where rs: "\<forall>st g. ReadListValue sample_tree [] ?R st NO_ACTION g = Some (?R, OK_NOLOCK, map Some rs)"
      "list_all2 (\<lambda>r v. field_content r = field_content v) rs sample_row"
    using row_reads [OF sample_row_ok(1,2) nl u refl pl] by blast
  have k: "GetKeyLength (leaf_raw PRIMARY ?b True False) = 1"
    using header_image_simps(2) [OF u] by (simp add: GetKeyLength_def leaf_raw_def)
  have "leaf_wf PRIMARY (leaf_raw PRIMARY ?b True False)"
    using k length_header_image [OF u] by (simp add: leaf_wf_def rec_wf_def rec_fits_def) (simp add: leaf_raw_def)
  moreover have "rs_pidStart (RecStruct_load (rr_bysVal (leaf_raw PRIMARY ?b True False))) = None"
    using header_load [OF u] by (simp add: leaf_raw_def REC_OVERFLOW_BIT_def)
  ultimately show ?thesis using rs k by (intro exI [of _ ?R] exI [of _ rs]) simp
qed

definition sample_env :: "u64 \<Rightarrow> RowEnv" where
  "sample_env tx = \<lparr>rw_X = some_externals plain_fp, rw_crc = (\<lambda>_. 0), rw_vctPara = [], rw_exprWhere = Some None, rw_tree = sample_tree,
     rw_secs = [], rw_stmt = \<lparr>st_ref = 1, st_txId = tx\<rparr>, rw_error = False\<rparr>"

text \<open>A page with one committed row: its delete succeeds.\<close>

lemma sample_deleted:
  "\<exists>R rs q lrs. leaf_inv PRIMARY (sample_leaf [R]) \<and> lr_recLock R = None \<and> lr_overflowPage R = None \<and>
     unat (GetKeyLength (lr_raw R)) \<le> MAX_KEY_LENGTH \<and>
     Delete_HandleLeafRecord (sample_env 5) 78 0 0 (sample_leaf [R]) = Some (q, TB_True, lrs, []) \<and>
     Select_HandleLeafRecord (sample_env 9) NO_LOCK [1] 0 (sample_leaf [R]) = Some ((sample_leaf [R], TB_True, [], []), Some [rs ! 1]) \<and>
     field_content (rs ! 1) = Some (Inr [97, 98, 99])"
proof -
  obtain R rs where R: "chain_ok PRIMARY R" "lr_recLock R = None" "lr_overflowPage R = None" "GetKeyLength (lr_raw R) = 1"
      "rs_pidStart (RecStruct_load (rr_bysVal (lr_raw R))) = None"
      "\<And>st g. ReadListValue sample_tree [] R st NO_ACTION g = Some (R, OK_NOLOCK, map Some rs)"
      "list_all2 (\<lambda>r v. field_content r = field_content v) rs sample_row"
    using sample_record by blast
  let ?p = "sample_leaf [R]"
  have inv: "leaf_inv PRIMARY ?p" using R(1) by (simp add: leaf_inv_def sample_leaf_def page_consts)
  have p: "0 < length (ip_vctRecord ?p)" "ip_vctRecord ?p ! 0 = R" by (simp_all add: sample_leaf_def)
  have kl: "unat (GetKeyLength (lr_raw R)) \<le> MAX_KEY_LENGTH" using R(4) by (simp add: MAX_KEY_LENGTH_def)
  have reads: "ReadListValue sample_tree [] R st a g = Some (R, OK_NOLOCK, map Some rs)" if "\<not> masked a READ_LOCK_MASK" for st a g
    using read_unlocked_action(1) [OF R(2) that] R(6) by metis
  have op: "open_record (sample_env tx) a 0 ?p = Some (?p, [], OK_NOLOCK, map Some rs)" if "\<not> masked a READ_LOCK_MASK" for tx a
    using open_unlocked [OF inv p(1) _ that, of "sample_env tx"] R(2) p(2) reads [OF that] by (simp add: sample_env_def)
  have alloc: "alloc_ok (x_alloc (rw_X (sample_env 5)))" by (simp add: sample_env_def some_externals_def alloc_ok_def)
  have idx: "rr_indexType (lr_raw R) = PRIMARY" using chain_wf [OF R(1)] by (simp add: leaf_wf_def rec_wf_def)
  obtain lrNew where up: "UpdateRecord (rw_crc (sample_env 5)) (x_alloc (rw_X (sample_env 5))) 0 (rw_tree (sample_env 5)) R rs 78 (rw_stmt (sample_env 5)) DELETE False = Some lrNew"
    using delete_filled [OF alloc kl R(1), of "rw_crc (sample_env 5)" "rw_tree (sample_env 5)" 78 rs] R(2,5) idx
    by (auto simp: UpdateRecord_delete UpdateRecord_lock_def LockAble_def)
  have "\<exists>q lrs. Delete_HandleLeafRecord (sample_env 5) 78 0 0 ?p = Some (q, TB_True, lrs, [])"
    using op [of DELETE 5] up p(2) by (simp add: Delete_HandleLeafRecord_def check_where_def Let_def) (simp add: sample_env_def)
  moreover have "length rs = 3" "field_content (rs ! 1) = Some (Inr [97, 98, 99])"
    using R(7) list_all2_lengthD [OF R(7)] list_all2_nthD [OF R(7), of 1] sample_row_ok(6) by (simp_all add: sample_row_def)
  moreover have cols: "columns [Suc 0] rs = Some [rs ! 1]" using \<open>length rs = 3\<close> by (simp add: columns_def)
  moreover have "Select_HandleLeafRecord (sample_env 9) NO_LOCK [1] 0 ?p = Some ((?p, TB_True, [], []), Some [rs ! 1])"
    using op [of NO_ACTION 9] cols
    by (simp add: Select_HandleLeafRecord_def check_where_def lock_action_def) (simp add: sample_env_def)
  ultimately show ?thesis using inv R(2,3) kl by blast
qed

theorem Delete_keeps_page_witness:
  "\<exists>R q lrs. Delete_HandleLeafRecord (sample_env 5) 78 0 0 (sample_leaf [R]) = Some (q, TB_True, lrs, []) \<and> leaf_inv PRIMARY q \<and> length lrs = 1 \<and>
     lr_bDelete (ip_vctRecord q ! 0)"
proof -
  obtain R q lrs where R: "leaf_inv PRIMARY (sample_leaf [R])" "unat (GetKeyLength (lr_raw R)) \<le> MAX_KEY_LENGTH"
      "Delete_HandleLeafRecord (sample_env 5) 78 0 0 (sample_leaf [R]) = Some (q, TB_True, lrs, [])"
    using sample_deleted by blast
  have "alloc_ok (x_alloc (rw_X (sample_env 5)))" "\<forall>lr \<in> set (ip_vctRecord (sample_leaf [R])). unat (GetKeyLength (lr_raw lr)) \<le> MAX_KEY_LENGTH"
    "rw_secs (sample_env 5) = []"
    using R(2) by (simp_all add: sample_env_def some_externals_def alloc_ok_def sample_leaf_def)
  then show ?thesis using Delete_keeps_page [OF R(1) _ _ R(3)] R(3) by (intro exI [of _ R] exI [of _ q] exI [of _ lrs]) simp
qed

theorem delete_isolated_witness:
  "\<exists>R q lrs v. Delete_HandleLeafRecord (sample_env 5) 78 0 0 (sample_leaf [R]) = Some (q, TB_True, lrs, []) \<and>
     Select_HandleLeafRecord (sample_env 9) NO_LOCK [1] 0 q = Some ((q, TB_True, [], []), Some [v]) \<and> field_content v = Some (Inr [97, 98, 99]) \<and>
     Delete_HandleLeafRecord (sample_env 9) 79 0 0 q = Some (q, TB_Error, [], [])"
proof -
  obtain R rs q lrs where R: "leaf_inv PRIMARY (sample_leaf [R])" "lr_recLock R = None" "lr_overflowPage R = None"
      "unat (GetKeyLength (lr_raw R)) \<le> MAX_KEY_LENGTH"
      "Delete_HandleLeafRecord (sample_env 5) 78 0 0 (sample_leaf [R]) = Some (q, TB_True, lrs, [])"
      "Select_HandleLeafRecord (sample_env 9) NO_LOCK [1] 0 (sample_leaf [R]) = Some ((sample_leaf [R], TB_True, [], []), Some [rs ! 1])"
      "field_content (rs ! 1) = Some (Inr [97, 98, 99])"
    using sample_deleted by blast
  have h: "alloc_ok (x_alloc (rw_X (sample_env 5)))" "\<forall>lr \<in> set (ip_vctRecord (sample_leaf [R])). unat (GetKeyLength (lr_raw lr)) \<le> MAX_KEY_LENGTH"
    "lr_recLock (ip_vctRecord (sample_leaf [R]) ! 0) = None" "lr_overflowPage (ip_vctRecord (sample_leaf [R]) ! 0) = None"
    "st_txId (rw_stmt (sample_env 5)) \<noteq> TXID_NULL" "st_txId (rw_stmt (sample_env 9)) \<noteq> st_txId (rw_stmt (sample_env 5))" "rw_exprWhere (sample_env 9) \<noteq> None"
    using R(2-4) by (simp_all add: sample_env_def some_externals_def alloc_ok_def sample_leaf_def TXID_NULL_def)
  show ?thesis using delete_isolated [OF R(1) h(1,2) R(5) h(3-7), of "[1]" 79 0 "[]"] R(5-7)
    by (intro exI [of _ R] exI [of _ q] exI [of _ lrs] exI [of _ "rs ! 1"]) simp
qed

section \<open>Where the code goes wrong\<close>

lemma small_of_int_0:
  assumes "(of_int d :: u32) = 0" "\<bar>d\<bar> < 2 ^ 32" shows "d = 0"
proof (rule ccontr)
  assume d: "d \<noteq> 0"
  have "uint (of_int d :: u32) = d mod 2 ^ 32" using uint_word_of_int [of d, where 'a = 32] by simp
  then have "d mod 2 ^ 32 = 0" using assms(1) by simp
  then have "2 ^ 32 dvd d" by (simp only: mod_eq_0_iff_dvd)
  then have "\<bar>2 ^ 32\<bar> \<le> \<bar>d\<bar>" using d by (rule dvd_imp_le_int [rotated])
  then show False using assms(2) by simp
qed

text \<open>An update does not change the lengths of the page: they are wrong as soon as the new version has another length.\<close>

lemma update_forgets_lengths:
  assumes "leaf_inv PRIMARY p" "Update_HandleLeafRecord E vctCol stamp pid pos p = Some (q, TB_True, lrs, rec)"
    and "pos < length (ip_vctRecord p)" "lr_recLock (ip_vctRecord p ! pos) = None"
    and "tempLen (ip_vctRecord q ! pos) \<noteq> tempLen (ip_vctRecord p ! pos)"
  shows "\<not> leaf_inv PRIMARY q"
proof
  assume q: "leaf_inv PRIMARY q"
  note op = open_unlocked [OF assms(1,3,4), of UPDATE E]
  obtain lrNew where n: "q = LeafPage_SetRecordUpdated (set_record pos lrNew p)"
    using assms(2) op by (auto simp: Update_HandleLeafRecord_def split: bind_splits option.splits if_splits)
  then have r: "ip_vctRecord q = (ip_vctRecord p)[pos := lrNew]" "ip_tempDataLength q = ip_tempDataLength p"
    by (simp_all add: LeafPage_SetRecordUpdated_def)
  let ?d = "tempLen lrNew - tempLen (ip_vctRecord p ! pos)"
  have "(of_int ?d :: u32) = 0"
    using assms(1,3) q r by (simp add: leaf_inv_def sum_list_update_delta)
  moreover have "\<bar>?d\<bar> < 2 ^ 32" "?d \<noteq> 0"
  proof -
    have b: "0 \<le> tempLen lr \<and> tempLen lr < 2 ^ 17" for lr
      using uint_lt2p [of "GetTotalLength (lr_raw lr)"] by (simp add: tempLen_def)
    show "\<bar>?d\<bar> < 2 ^ 32" using b [of lrNew] b [of "ip_vctRecord p ! pos"] by (simp add: abs_less_iff)
    show "?d \<noteq> 0" using assms(3,5) r(1) by simp
  qed
  ultimately show False using small_of_int_0 by blast
qed

text \<open>A plain query of any transaction, also of the one that inserts, fails on a row whose insert is not committed.\<close>

lemma select_meets_insert:
  assumes "leaf_inv PRIMARY p" "pos < length (ip_vctRecord p)" "lr_recLock (ip_vctRecord p ! pos) = Some lock"
    and "rl_actType lock = INSERT" "rl_recStatus lock = RS_INIT" "rl_undoRec lock = None" "rw_exprWhere E \<noteq> None"
  shows "Select_HandleLeafRecord E NO_LOCK cols pos p = Some ((p, TB_Error, [], []), None)"
proof -
  have k: "\<not> ReleaseLockAble (ip_vctRecord p ! pos)" using assms(3-5) by (simp add: ReleaseLockAble_def less_eq_RecordStatus_def)
  have "rr_indexType (lr_raw (ip_vctRecord p ! pos)) = PRIMARY"
    using chain_wf [of PRIMARY "ip_vctRecord p ! pos"] leaf_invD(4) [OF assms(1)] assms(2) by (simp add: leaf_wf_def rec_wf_def)
  then have "ReadListValue (rw_tree E) [] (ip_vctRecord p ! pos) (rw_stmt E) NO_ACTION False = Some (ip_vctRecord p ! pos, LOCKED, [])"
    using k assms(3-6) by (simp add: ReadListValue_def ReadListValue_lock_def ReadListValue_check_def)
  then show ?thesis using open_kept [OF assms(1,2) k] assms(7)
    by (auto simp: Select_HandleLeafRecord_def lock_action_def)
qed

text \<open>While a row with an overflow page is being deleted, a plain query of it stops the program: the assertion looks at the new version.\<close>

lemma overflow_reader_aborts:
  assumes "lr = LeafRecord raw (Some lock) None" "rr_indexType raw = PRIMARY" "rl_undoRec lock = Some u" "rl_actType lock = DELETE"
    and "rl_recStatus lock = RS_INIT" "lr_recLock u = None" "\<not> lr_bDelete u" "rs_pidStart (RecStruct_load (rr_bysVal (lr_raw u))) \<noteq> None"
  shows "ReadListValue ti m lr stmt NO_ACTION gap = None"
proof -
  have "visible_version (Some u) = Some u" using assms(6) by (cases u) simp
  then show ?thesis using assms
    by (simp add: ReadListValue_def ReadListValue_lock_def ReadListValue_check_def ReadListValue_add_def Let_def ReleaseLockAble_def
        less_eq_RecordStatus_def)
qed

text \<open>A rolled back insert that a query, update or delete meets stays in the page as a record without bytes.\<close>

lemma rolled_back_insert_stays:
  assumes "leaf_inv PRIMARY p" "pos < length (ip_vctRecord p)" "lr_recLock (ip_vctRecord p ! pos) = Some lock"
    and "rl_actType lock = INSERT" "rl_recStatus lock = ROLLBACKED" "rl_undoRec lock = None" "rw_exprWhere E \<noteq> None"
  shows "\<exists>q rec. Select_HandleLeafRecord E NO_LOCK cols pos p = Some ((q, TB_False, [], rec), None) \<and>
    length (ip_vctRecord q) = length (ip_vctRecord p) \<and> rr_bysVal (lr_raw (ip_vctRecord q ! pos)) = [] \<and> \<not> leaf_inv PRIMARY q"
proof -
  obtain raw ov where lr: "ip_vctRecord p ! pos = LeafRecord raw (Some lock) ov" using assms(3) by (cases "ip_vctRecord p ! pos") auto
  obtain g r st tx e where l: "lock = RecordLock INSERT ROLLBACKED g r st tx None e" using assms(4-6) by (cases lock) auto
  let ?new = "LeafRecord (raw\<lparr>rr_bysVal := [], rr_bSole := False, rr_bDelete := True\<rparr>) None None"
  have k: "ReleaseLockAble (ip_vctRecord p ! pos)" by (simp add: lr l ReleaseLockAble_def less_eq_RecordStatus_def)
  have rel: "ReleaseLock (ip_vctRecord p ! pos) = Some (?new, DELETED, recycled (ip_vctRecord p ! pos))"
    using k by (simp add: lr l ReleaseLock.simps(2))
  obtain q where q: "LeafPage_ReleaseLock pos p = Some (q, DELETED, recycled (ip_vctRecord p ! pos))" "ip_vctRecord q = (ip_vctRecord p)[pos := ?new]"
    using rel by (auto simp: LeafPage_ReleaseLock_def Let_def UpdateDataLength_def)
  have "rr_indexType raw = PRIMARY"
    using chain_wf [of PRIMARY "LeafRecord raw (Some lock) ov"] leaf_invD(4) [OF assms(1)] nth_mem [OF assms(2)] lr
    by (simp add: leaf_wf_def rec_wf_def)
  then have "ReadListValue (rw_tree E) [] ?new (rw_stmt E) NO_ACTION False = Some (?new, REC_DELETE, [])"
    by (simp add: ReadListValue_def ReadListValue_lock_def check_unlocked ReleaseLockAble_def)
  then have "open_record E NO_ACTION pos p = Some (set_record pos ?new q, recycled (ip_vctRecord p ! pos), REC_DELETE, [])"
    using get_record_inv [OF assms(1,2)] k q assms(2) by (simp add: open_record_def)
  moreover have "set_record pos ?new q = q" using q(2) by (simp add: set_record_def)
  ultimately have "Select_HandleLeafRecord E NO_LOCK cols pos p = Some ((q, TB_False, [], recycled (ip_vctRecord p ! pos)), None)"
    using assms(7) by (auto simp: Select_HandleLeafRecord_def lock_action_def)
  moreover have "\<not> leaf_inv PRIMARY q"
  proof
    assume i: "leaf_inv PRIMARY q"
    have "?new \<in> set (ip_vctRecord q)" unfolding q(2) by (rule set_update_memI [OF assms(2)])
    then have "chain_ok PRIMARY ?new" using leaf_invD(4) [OF i] by (rule bspec [rotated])
    then have "leaf_wf PRIMARY (lr_raw ?new)" by simp
    then show False by (simp add: leaf_wf_def rec_wf_def rec_fits_def)
  qed
  ultimately show ?thesis using q(2) assms(2) by (intro exI [of _ q] exI [of _ "recycled (ip_vctRecord p ! pos)"]) simp
qed

end
