(* ===== verification/Spec2Isabelle.thy ===== *)
theory Spec2Isabelle
  imports Key_Order Page_Split Leaf_Rows Tree_Find Rapid_Queue Reentrant_Mutex Buffer_Safe Expr_Logic Query_Keys Stmt_Classes Row_Handlers
begin

text \<open>
  A model of the storage core of RapidDb, an in-memory row store with B+ tree indices written in C++. All paths are below
  \<open>src/src/\<close>. A definition has the name of the function or member it models; two letters and an underscore in front of a
  record field tell the class.

  \<^bold>\<open>The program.\<close> A table is a set of indices (\<open>core/IndexTree\<close>). An index is a B+ tree of pages: branch pages
  (\<open>core/BranchPage\<close>) of separators and child ids, leaf pages (\<open>core/LeafPage\<close>) of records, one head page
  (\<open>core/HeadPage\<close>) with the counters of the tree, a register of free pages (\<open>core/GarbageOwner\<close>) and overflow pages for
  records that are too long. A page is the bytes of the file, and, while it is changed, a vector of records; it is loaded from bytes to
  records before a change and saved back before it is written. A statement finds the leaf of a key through the tree
  (\<open>SearchPage\<close>), then updates the record there (\<open>UpdateAction\<close>): the old version stays below the new one with the lock of
  the transaction, until \<open>ReleaseLock\<close> keeps the newest or restores the oldest version. Pages in memory are owned by a pool
  (\<open>pool/CachePagePool\<close>), that reads them on demand and evicts them by a score. The threads of the engine talk through queues
  (\<open>utils/RapidQueue.h\<close>) and protect shared state by spin locks (\<open>utils/SpinMutex.h\<close>); all buffers come from one allocator
  (\<open>cache/\<close>). Field values are objects of \<open>dataType/\<close>, and keys are their bytes in an order-preserving encoding
  (\<open>utils/BytesFuncs.h\<close>).

  Clients talk to sessions (\<open>serv/Session.cpp\<close>). A session runs its statements (\<open>statement/\<close>) one after the other in transactions
  (\<open>serv/Transaction.cpp\<close>): \<open>Session::Exec\<close> is called again and again, and a statement is a state machine that asks on each call
  what its tasks have done so far. The condition of a query is an expression (\<open>expr/\<close>); the part of it that restricts an index is
  converted to ranges of values (\<open>ConditionConvert\<close>), these to ranges of keys (\<open>GenIndexSearchKey\<close>), and the scan of the leaf pages
  (\<open>SacnIndex\<close>) hands the records in these ranges to the statement.

  \<^bold>\<open>The theories\<close>, bottom up.
  \<^item> \<open>Prelude\<close>, \<open>Buffer_Words\<close>: bytes, buffers as lists of bytes, little-endian words in buffers, generic lemmas.
  \<^item> \<open>Bytes_Funcs\<close>, \<open>Float_Keys\<close>, \<open>Key_Order\<close>: \<open>utils/BytesFuncs.h\<close> with the chunked compare, copy, equal
    and hash, and what the encodings promise: the comparison is lexicographic, encoded numbers compare like numbers.
  \<^item> \<open>Core_Enums\<close>: \<open>core/CoreEnum.h\<close>, \<open>dataType/DataType.h\<close>.
  \<^item> \<open>Data_Digit\<close>, \<open>Data_Chars\<close>, \<open>Data_Value\<close>: the data values, the virtual functions as case distinctions on the
    dynamic class; writing and reading of a field, comparison operators.
  \<^item> \<open>Raw_Record\<close>, \<open>Page_Layout\<close>, \<open>Page_Search\<close>, \<open>Index_Page\<close>: keys and records as bytes, the slots of a page,
    the binary search over records (as a locale, for the six loops of the code), the common state of pages.
  \<^item> \<open>Branch_Page\<close>, \<open>Page_Split\<close>: branch pages; where \<open>SplitPage\<close> cuts.
  \<^item> \<open>Leaf_Record\<close>, \<open>Leaf_Lock\<close>, \<open>Leaf_Layout\<close>, \<open>Leaf_Fields\<close>, \<open>Leaf_Rows\<close>: leaf records: versions and locks,
    the bytes, rows of fields.
  \<^item> \<open>Leaf_Page\<close>, \<open>Leaf_Update\<close>, \<open>Leaf_Save\<close>: leaf pages: search, update, what is saved.
  \<^item> \<open>Head_Page\<close>, \<open>Garbage_Owner\<close>, \<open>Garbage_Refine\<close>, \<open>Tree_Alloc\<close>, \<open>Tree_Unique\<close>: counters and free pages; the
    owner of free pages refines a set of page ids; stamps, keys and page ids are never handed out twice.
  \<^item> \<open>Page_Cache\<close>, \<open>Tree_Search\<close>, \<open>Tree_Find\<close>: the pool of pages over a heap of page objects, the search from the root
    to a leaf, and that it ends in the right leaf.
  \<^item> \<open>Rapid_Queue\<close>, \<open>Spin_Mutex\<close>, \<open>Reentrant_Mutex\<close>: queues and locks between threads.
  \<^item> \<open>Buffer_Pool\<close>, \<open>Buffer_Safe\<close>: the allocator.
  \<^item> \<open>Str_Buff\<close>, \<open>Expr_Data\<close>, \<open>Expr_Logic\<close>: the text buffer (\<open>cache/StrBuff.h\<close>); expressions, their types and values;
    conditions in three-valued logic and the choice of an index (\<open>expr/\<close>).
  \<^item> \<open>Query_Range\<close>, \<open>Index_Scan\<close>: from a condition to ranges of values, to ranges of keys, to records
    (\<open>statement/Statement.h\<close>, \<open>statement/Statement.cpp\<close>); \<open>Query_Keys\<close>: the search by given values of the first
    columns of an index, which is the first part of \<open>SessionExec\<close> of update, delete and select.
  \<^item> \<open>Tran_Ids\<close>, \<open>Session_Exec\<close>: the ids of transactions; sessions, transactions, \<open>BEGIN\<close>, \<open>COMMIT\<close> and
    \<open>ROLLBACK\<close> (\<open>serv/\<close>, \<open>statement/DdlStatement.cpp\<close>); \<open>Stmt_Classes\<close>: \<open>SessionExec\<close> of insert, update,
    delete and select (\<open>statement/InsertStatement.cpp\<close>, \<open>UpdateStatement.cpp\<close>, \<open>DeleteStatement.cpp\<close>,
    \<open>TableSelectStatement.cpp\<close>); \<open>Row_Handlers\<close>: what delete, update and select do with one record of a page
    (\<open>HandleLeafRecord\<close>).

  \<^bold>\<open>How the code is translated.\<close> Integers have their width; a conversion is \<open>ucast\<close> or \<open>scast\<close> where the code converts.
  A buffer is a list of bytes with an offset where the code has a pointer into it; reading and writing beyond its end is \<open>None\<close>, or an
  unspecified value where the length is part of the invariant. \<open>None\<close> is everything after which the code does not go on in a defined
  way: a failed assertion, \<open>abort\<close>, a null pointer, an exception that nobody catches. Error messages set by \<open>_threadErrorMsg\<close> are
  results. Floating-point values are their bit patterns, and arithmetic on them is a parameter. Files, the network and the memory manager of
  the operating system are parameters.

  \<^bold>\<open>Loops and fuel.\<close> Loops over a page or a vector are structural, or functions with a measure (the binary searches, the loop of
  \<open>Buffer::Apply\<close>). Loops without a bound in the code are \<open>partial_function (option)\<close> (\<open>split_loop\<close>,
  \<open>BufferPool_Release\<close>), so that not returning is \<open>None\<close>, and that they return is proved. The loops of
  \<open>SearchPage\<close> count their iterations down: one per level of the tree, so the level of the top page plus one is enough, which is what
  the theorem on the search of a key says: it ends, with a result.

  \<^bold>\<open>Concurrency.\<close> Operations under a lock are single steps. The locks themselves are modelled at the level of single atomic accesses
  (\<open>Spin_Mutex\<close>, \<open>Reentrant_Mutex\<close>), every interleaving of any number of threads being a run; memory is sequentially consistent
  there, which the memory orders in the code do not guarantee. The operations of a queue are single steps of its
  two threads. Where the code works without a lock, what others may do in between is an argument: \<open>PoolManage\<close> selects pages before it
  takes the mutex of the pool, an update looks at its lists before it asks for the end of its scan.

  \<^bold>\<open>What the properties assume.\<close> Each property states its hypotheses in the text before it. Those that are more than well-formed input: the
  merged length of a range of free pages has 16 bits, thus fewer than 65535 pages are free; a text that is empty and not null
  reads back as null, thus texts in a row that is read back have a byte; \<open>aligned_alloc\<close> may give the allocator a buffer that differs from another in the bit
  of the buffer size, for which it fails, thus runs without such siblings are considered; comparisons are turned around, which is wrong for a NaN; the
  counter of \<open>ReentrantSpinMutex\<close> has 31 bits, and a thread stays at the increment that overflows it; the keys of floating-point columns
  are not in order, thus scans by value are over integers (and dates); a walk over leaf pages starts in the page in which the search for its start key ends.

  \<^bold>\<open>What the groups of lemmas show.\<close>
  \<^item> Bytes: every value, record and page that is saved is read back.
  \<^item> Order: keys compare as bytes like the values they encode.
  \<^item> Pages: insert, delete and update keep the page sorted and its two lengths exact; a search finds what is there.
  \<^item> Versions: one owner of an exclusive lock, rollback and commit, readers see the newest version that is not being changed, a save
    writes the committed state; a deleted row is seen as before until the delete is committed, and nobody else can change it.
  \<^item> Tree: the search ends in the leaf of the key, for the range of the index that both searches agree on.
  \<^item> Resources: free pages are a set; page ids, stamps and keys are unique; the pool has one object per page; no memory is given out twice
    as long as no buffers are siblings.
  \<^item> Queries: the merges of ranges are intersection and union, the ranges of a conjunction hold the rows that it is true of, and the
    scan handles exactly the records of its range, a search by values of columns exactly the records with these values.
  \<^item> Sessions: ids of transactions differ; a session owns each statement once and closes its transactions; no record is marked as
    committed before its transaction is logged; a delete or query that ends has missed none of its records, and neither has an
    update whose scan has found no row at its end.
  \<^item> Threads: queues are FIFO and lose nothing, locks exclude.
  \<^item> Errors: the branches on which the code aborts, loses memory or reports the opposite, and the lemmas named by the findings.

  \<^bold>\<open>Interfaces.\<close> The locales are contracts between a provider in the code and its clients: \<open>codec\<close>, \<open>key_codec\<close> and
  \<open>key_order\<close> in \<open>Bytes_Funcs\<close> (encodings that can be read back, that preserve order), \<open>value_class\<close> in
  \<open>Data_Value\<close> (what the class of a field value promises), \<open>page_search\<close> in \<open>Page_Search\<close> (a comparison that is
  monotone along the page), \<open>ticket_source\<close> and \<open>page_pool\<close> in \<open>Tree_Unique\<close> (a source of unused numbers, a pool of
  free pages), \<open>spsc_queue\<close> in \<open>Rapid_Queue\<close> (a queue with visible and pending elements), \<open>interleaved\<close> in
  \<open>Spin_Mutex\<close> (a lock as steps of threads on shared state), \<open>ordered_values\<close> in \<open>Query_Range\<close> (values that
  the comparison operators order like a linear order), \<open>statement_class\<close> and its extension \<open>logged_class\<close> in
  \<open>Session_Exec\<close> (what a session relies on in a class of statements; \<open>Stmt_Classes\<close> provides it); each is interpreted on the model's definitions.

  \<^bold>\<open>Not modelled.\<close> \<open>sql/sql_parser.cpp\<close> and \<open>sql/flex_lexer.cpp\<close> are generated. Sockets, the binary log and the page files are input and output. Of the statements,
  those that define tables and databases, and the way of a row from a secondary index to the primary one: they are schedules of tasks on a pool of operating
  system threads over the table registry; the actions that tasks send to each other are seen in a session only as changes of its records
  between two calls. Not modelled yet of the classes above: the creation of pages in
  \<open>SplitPage\<close>, the walk to sibling pages, \<open>AppendRecord\<close> of the tree, opening and closing of a tree, the reading of overflow pages,
  the memory statistics, and the lock \<open>ReentrantSharedSpinMutex\<close>.
\<close>

end
